(* ===== verification/Prelude.thy ===== *)
theory Prelude
  imports Main "HOL-Library.Word" "HOL-Library.Monad_Syntax"
begin

text \<open>
  Shared vocabulary of the development: the C integer types of \<^verbatim>\<open>sqlite3.c\<close> as
  fixed-width words, byte buffers as lists with checked access, the collections that the
  component theories feed, and generic facts on words, lists and options.
\<close>

unbundle bit_operations_syntax

section \<open>Machine integers\<close>

type_synonym u8 = "8 word"
type_synonym u16 = "16 word"
type_synonym u32 = "32 word"
type_synonym u64 = "64 word"

text \<open>
  A byte buffer that C code reaches through a pointer is a list; reading or writing outside
  the list is \<^term>\<open>None\<close>, so a definition that returns \<^term>\<open>Some\<close> never leaves its buffer.
\<close>

type_synonym bytes = "u8 list"

definition rd8 :: "bytes \<Rightarrow> nat \<Rightarrow> u8 option" where
  "rd8 p i = (if i < length p then Some (p ! i) else None)"

definition wr8 :: "bytes \<Rightarrow> nat \<Rightarrow> u8 \<Rightarrow> bytes option" where
  "wr8 p i v = (if i < length p then Some (p[i := v]) else None)"

named_theorems mem_simps \<open>checked buffer accesses\<close>
named_theorems bytes_simps \<open>byte and word arithmetic\<close>

lemma rd8_Some [mem_simps]: "i < length p \<Longrightarrow> rd8 p i = Some (p ! i)"
  by (simp add: rd8_def)

lemma rd8_None [mem_simps]: "length p \<le> i \<Longrightarrow> rd8 p i = None"
  by (simp add: rd8_def)

lemma wr8_Some [mem_simps]: "i < length p \<Longrightarrow> wr8 p i v = Some (p[i := v])"
  by (simp add: wr8_def)

lemma rd8_eq_Some_iff: "rd8 p i = Some x \<longleftrightarrow> i < length p \<and> p ! i = x"
  by (auto simp: rd8_def)

lemma wr8_eq_Some_iff: "wr8 p i v = Some q \<longleftrightarrow> i < length p \<and> q = p[i := v]"
  by (auto simp: wr8_def)

lemma rd8_Cons_0 [mem_simps]: "rd8 (x # p) 0 = Some x"
  by (simp add: rd8_def)

lemma rd8_Nil [mem_simps]: "rd8 [] i = None"
  by (simp add: rd8_def)

lemma rd8_Cons_Suc [mem_simps]: "rd8 (x # p) (Suc i) = rd8 p i"
  by (simp add: rd8_def)

lemma rd8_Cons_numeral [mem_simps]: "rd8 (x # p) (numeral k) = rd8 p (pred_numeral k)"
  by (simp add: numeral_eq_Suc rd8_Cons_Suc)

section \<open>Words\<close>

lemma drop_bit_word_eq_0_iff:
  "drop_bit n (w :: 'a::len word) = 0 \<longleftrightarrow> unat w < 2 ^ n"
proof -
  have "drop_bit n w = 0 \<longleftrightarrow> unat (drop_bit n w) = 0"
    by (simp add: unat_eq_0)
  also have "\<dots> \<longleftrightarrow> unat w div 2 ^ n = 0"
    by (simp only: unat_drop_bit_eq) (simp add: drop_bit_eq_div)
  finally show ?thesis
    by (simp add: div_eq_0_iff)
qed

lemma unat_drop_bit_less:
  "0 < n \<Longrightarrow> drop_bit n (w :: 'a::len word) \<noteq> 0 \<Longrightarrow> unat (drop_bit n w) < unat w"
proof -
  assume n: "0 < n" and nz: "drop_bit n w \<noteq> 0"
  have "unat w \<noteq> 0"
    using nz by (metis drop_bit_of_0 unat_eq_0)
  moreover have "(1::nat) < 2 ^ n"
    using n by (intro one_less_power) auto
  ultimately show ?thesis
    by (simp only: unat_drop_bit_eq) (simp add: drop_bit_eq_div)
qed

lemma bits32_eqI: "(\<And>n. n < 32 \<Longrightarrow> bit (x::u32) n = bit y n) \<Longrightarrow> x = y"
  by (rule bit_word_eqI) simp

lemma bits64_eqI: "(\<And>n. n < 64 \<Longrightarrow> bit (x::u64) n = bit y n) \<Longrightarrow> x = y"
  by (rule bit_word_eqI) simp

text \<open>Enumerations of bit positions, for equations checked bit by bit.\<close>

lemma less_8_disj: "n < (8::nat) \<Longrightarrow> n \<in> {0,1,2,3,4,5,6,7}"
  by auto

lemma less_32_disj:
  "n < (32::nat) \<Longrightarrow> n \<in> {0,1,2,3,4,5,6,7,8,9,10,11,12,13,14,15,16,17,18,19,20,21,22,23,
     24,25,26,27,28,29,30,31}"
  by (simp, presburger)

lemma less_64_disj:
  "n < (64::nat) \<Longrightarrow> n \<in> {0,1,2,3,4,5,6,7,8,9,10,11,12,13,14,15,16,17,18,19,20,21,22,23,
     24,25,26,27,28,29,30,31,32,33,34,35,36,37,38,39,40,41,42,43,44,45,46,47,48,49,50,51,52,
     53,54,55,56,57,58,59,60,61,62,63}"
  by (simp, presburger)

lemma bit_u8_ge: "8 \<le> n \<Longrightarrow> \<not> bit (x::u8) n"
  by (auto dest: bit_imp_le_length)

lemma bit_127_int [bytes_simps]: "bit (0x7f::int) n \<longleftrightarrow> n < 7"
proof -
  have "bit (0x7f::int) n = bit (mask 7 :: int) n"
    by (simp add: mask_eq_exp_minus_1)
  then show ?thesis
    by (simp only: bit_mask_iff) auto
qed

lemma bit_128_int [bytes_simps]: "bit (0x80::int) n \<longleftrightarrow> n = 7"
proof -
  have "bit (0x80::int) n = bit (2 ^ 7 :: int) n"
    by simp
  then show ?thesis
    by (simp only: bit_exp_iff) auto
qed

text \<open>The high bit of a byte: as a comparison, a sign test and a mask test.\<close>

lemma hi_bit_iff: "(b::u8) < 0x80 \<longleftrightarrow> \<not> bit b 7"
proof -
  have "b < 0x80 \<longleftrightarrow> drop_bit 7 b = 0"
    by (simp add: drop_bit_word_eq_0_iff word_less_nat_alt)
  also have "\<dots> \<longleftrightarrow> \<not> bit b 7"
  proof
    assume "drop_bit 7 b = 0" then show "\<not> bit b 7"
      using bit_drop_bit_eq[of 7 b] by (metis add.right_neutral bit_0_eq bot_apply bot_bool_def comp_apply)
  next
    assume *: "\<not> bit b 7"
    show "drop_bit 7 b = 0"
    proof (rule bit_word_eqI)
      fix n assume "n < LENGTH(8)"
      show "bit (drop_bit 7 b) n = bit 0 n"
        using * by (cases n) (auto simp: bit_simps dest: bit_imp_le_length)
    qed
  qed
  finally show ?thesis .
qed

lemma sint_ge0_u8: "0 \<le> sint (b::u8) \<longleftrightarrow> \<not> bit b 7"
  by (simp add: sint_uint not_less signed_take_bit_nonnegative_iff bit_simps)

lemma and_80_u32: "(x::u32) AND 0x80 = 0 \<longleftrightarrow> \<not> bit x 7"
    using and_exp_eq_0_iff_not_bit[of x 7] by simp

lemma and_80_u8: "(b::u8) AND 0x80 = 0 \<longleftrightarrow> \<not> bit b 7"
  using and_exp_eq_0_iff_not_bit[of b 7] by simp

text \<open>The conversion \<^verbatim>\<open>(u8)n\<close> of a non-negative value.\<close>

definition cast8 :: "nat \<Rightarrow> u8" where
  "cast8 n = word_of_nat n"

lemma unat_cast8: "unat (cast8 n) = n mod 256"
  by (simp add: cast8_def unat_of_nat)

lemma unat_cast8_small [simp]: "n < 256 \<Longrightarrow> unat (cast8 n) = n"
  by (simp add: unat_cast8)

lemma cast8_unat [simp]: "cast8 (unat b) = b"
  by (simp add: cast8_def)

end
