(* ===== verification/Varint.thy ===== *)
theory Varint
  imports Prelude
begin

text \<open>
  Variable-length integers of the SQLite file format (\<^verbatim>\<open>util.c\<close> part of
  \<^verbatim>\<open>sqlite3.c\<close>): the encoder \<^verbatim>\<open>sqlite3PutVarint\<close>, the unrolled
  decoders \<^verbatim>\<open>sqlite3GetVarint\<close> and \<^verbatim>\<open>sqlite3GetVarint32\<close>,
  \<^verbatim>\<open>sqlite3VarintLen\<close> and the big-endian four-byte accessors.
\<close>

section \<open>Definitions\<close>

text \<open>The do-while loop of \<^verbatim>\<open>putVarint64\<close>: \<open>buf[0..n)\<close>, least significant septet first.\<close>

function putVarint64_buf :: "u64 \<Rightarrow> bytes" where
  "putVarint64_buf v =
     (let b = ucast ((v AND 0x7f) OR 0x80); v' = drop_bit 7 v
      in if v' \<noteq> 0 then b # putVarint64_buf v' else [b])"
  by pat_completeness auto
termination
  by (relation "measure unat") (auto intro: unat_drop_bit_less)

text \<open>The nine-byte loop: \<open>p[i], p[i-1], ..., p[0]\<close> are written in this order.\<close>

fun putVarint64_nine :: "nat \<Rightarrow> u64 \<Rightarrow> bytes \<Rightarrow> bytes" where
  "putVarint64_nine 0 v acc = acc"
| "putVarint64_nine (Suc i) v acc =
     putVarint64_nine i (drop_bit 7 v) (ucast ((v AND 0x7f) OR 0x80) # acc)"

definition putVarint64 :: "u64 \<Rightarrow> bytes" where
  "putVarint64 v =
     (if v AND push_bit 32 0xff000000 \<noteq> 0
      then putVarint64_nine 8 (drop_bit 8 v) [ucast v]
      else (let buf = putVarint64_buf v
            in rev (buf[0 := (buf ! 0) AND 0x7f])))"

definition sqlite3PutVarint :: "u64 \<Rightarrow> bytes" where
  "sqlite3PutVarint v =
     (if v \<le> 0x7f then [ucast (v AND 0x7f)]
      else if v \<le> 0x3fff
      then [ucast ((drop_bit 7 v AND 0x7f) OR 0x80), ucast (v AND 0x7f)]
      else putVarint64 v)"

definition SLOT_2_0 :: u32 where
  "SLOT_2_0 = 0x001fc07f"

definition SLOT_4_2_0 :: u32 where
  "SLOT_4_2_0 = 0xf01fc07f"

text \<open>
  \<^verbatim>\<open>sqlite3GetVarint\<close>: the stored value and the number of bytes read. The variables
  \<open>a\<close>, \<open>b\<close> and \<open>s\<close> are the 32-bit accumulators of the source, in the source's order of
  assignments.
\<close>

definition sqlite3GetVarint :: "bytes \<Rightarrow> (u64 \<times> nat) option" where
  "sqlite3GetVarint p = do {
     p0 \<leftarrow> rd8 p 0;
     if 0 \<le> sint p0 then Some (ucast p0, 1) else do {
     p1 \<leftarrow> rd8 p 1;
     if 0 \<le> sint p1
     then Some (ucast ((push_bit 7 (ucast (p0 AND 0x7f)) :: u32) OR ucast p1), 2) else do {
     let a = push_bit 14 (ucast p0 :: u32);
     let b = (ucast p1 :: u32);
     p2 \<leftarrow> rd8 p 2;
     let a = a OR ucast p2;
     if a AND 0x80 = 0
     then (let a = a AND SLOT_2_0; b = b AND 0x7f; b = push_bit 7 b; a = a OR b
           in Some (ucast a, 3)) else do {
     let a = a AND SLOT_2_0;
     let b = push_bit 14 b;
     p3 \<leftarrow> rd8 p 3;
     let b = b OR ucast p3;
     if b AND 0x80 = 0
     then (let b = b AND SLOT_2_0; a = push_bit 7 a; a = a OR b
           in Some (ucast a, 4)) else do {
     let b = b AND SLOT_2_0;
     let s = a;
     let a = push_bit 14 a;
     p4 \<leftarrow> rd8 p 4;
     let a = a OR ucast p4;
     if a AND 0x80 = 0
     then (let b = push_bit 7 b; a = a OR b; s = drop_bit 18 s
           in Some (push_bit 32 (ucast s) OR ucast a, 5)) else do {
     let s = push_bit 7 s;
     let s = s OR b;
     let b = push_bit 14 b;
     p5 \<leftarrow> rd8 p 5;
     let b = b OR ucast p5;
     if b AND 0x80 = 0
     then (let a = a AND SLOT_2_0; a = push_bit 7 a; a = a OR b; s = drop_bit 18 s
           in Some (push_bit 32 (ucast s) OR ucast a, 6)) else do {
     let a = push_bit 14 a;
     p6 \<leftarrow> rd8 p 6;
     let a = a OR ucast p6;
     if a AND 0x80 = 0
     then (let a = a AND SLOT_4_2_0; b = b AND SLOT_2_0; b = push_bit 7 b; a = a OR b;
               s = drop_bit 11 s
           in Some (push_bit 32 (ucast s) OR ucast a, 7)) else do {
     let a = a AND SLOT_2_0;
     let b = push_bit 14 b;
     p7 \<leftarrow> rd8 p 7;
     let b = b OR ucast p7;
     if b AND 0x80 = 0
     then (let b = b AND SLOT_4_2_0; a = push_bit 7 a; a = a OR b; s = drop_bit 4 s
           in Some (push_bit 32 (ucast s) OR ucast a, 8)) else do {
     let a = push_bit 15 a;
     p8 \<leftarrow> rd8 p 8;
     let a = a OR ucast p8;
     let b = b AND SLOT_2_0;
     let b = push_bit 8 b;
     let a = a OR b;
     let s = push_bit 4 s;
     let b = (ucast p4 :: u32);
     let b = b AND 0x7f;
     let b = drop_bit 3 b;
     let s = s OR b;
     Some (push_bit 32 (ucast s) OR ucast a, 9)
     }}}}}}}}}"

text \<open>
  \<^verbatim>\<open>sqlite3GetVarint32\<close>. Its assertion, that the first byte has its high bit set,
  is a precondition (the macro \<^verbatim>\<open>getVarint32\<close> handles the one-byte case); a value
  that does not fit in 32 bits saturates to \<open>0xffffffff\<close>.
\<close>

definition sqlite3GetVarint32 :: "bytes \<Rightarrow> (u32 \<times> nat) option" where
  "sqlite3GetVarint32 p = do {
     p0 \<leftarrow> rd8 p 0;
     p1 \<leftarrow> rd8 p 1;
     if p1 AND 0x80 = 0
     then Some (push_bit 7 (ucast (p0 AND 0x7f)) OR ucast p1, 2) else do {
     p2 \<leftarrow> rd8 p 2;
     if p2 AND 0x80 = 0
     then Some (push_bit 14 (ucast (p0 AND 0x7f)) OR push_bit 7 (ucast (p1 AND 0x7f))
                OR ucast p2, 3) else do {
     (v64, n) \<leftarrow> sqlite3GetVarint p;
     Some (if v64 AND 0xffffffff \<noteq> v64 then 0xffffffff else ucast v64, n)
     }}}"

definition getVarint32 :: "bytes \<Rightarrow> (u32 \<times> nat) option" where
  "getVarint32 p = do {
     p0 \<leftarrow> rd8 p 0;
     if p0 < 0x80 then Some (ucast p0, 1) else sqlite3GetVarint32 p }"

text \<open>The loop of \<^verbatim>\<open>sqlite3VarintLen\<close>, entered with \<open>i = 1\<close>.\<close>

function varintLen_loop :: "u64 \<Rightarrow> nat \<Rightarrow> nat" where
  "varintLen_loop v i =
     (let v' = drop_bit 7 v in if v' \<noteq> 0 then varintLen_loop v' (i + 1) else i)"
  by pat_completeness auto
termination
  by (relation "measure (\<lambda>(v, i). unat v)") (auto intro: unat_drop_bit_less)

definition sqlite3VarintLen :: "u64 \<Rightarrow> nat" where
  "sqlite3VarintLen v = varintLen_loop v 1"

definition sqlite3Get4byte :: "bytes \<Rightarrow> u32 option" where
  "sqlite3Get4byte p = do {
     p0 \<leftarrow> rd8 p 0; p1 \<leftarrow> rd8 p 1; p2 \<leftarrow> rd8 p 2; p3 \<leftarrow> rd8 p 3;
     Some (push_bit 24 (ucast p0) OR push_bit 16 (ucast p1) OR push_bit 8 (ucast p2)
           OR ucast p3) }"

definition sqlite3Put4byte :: "u32 \<Rightarrow> bytes" where
  "sqlite3Put4byte v =
     [ucast (drop_bit 24 v), ucast (drop_bit 16 v), ucast (drop_bit 8 v), ucast v]"

text \<open>
  Specification: the format as the comment in the source draws it. Up to eight bytes carry
  seven bits each, the first byte below 128 ends the number, a ninth byte carries eight bits.
\<close>

fun varint_spec :: "nat \<Rightarrow> u64 \<Rightarrow> bytes \<Rightarrow> (u64 \<times> nat) option" where
  "varint_spec k v [] = None"
| "varint_spec k v (b # bs) =
     (if k = 8 then Some (push_bit 8 v OR ucast b, 9)
      else if b < 0x80 then Some (push_bit 7 v OR ucast b, k + 1)
      else varint_spec (k + 1) (push_bit 7 v OR ucast (b AND 0x7f)) bs)"

definition saturate32 :: "u64 \<Rightarrow> u32" where
  "saturate32 v = (if 2 ^ 32 \<le> unat v then 0xffffffff else ucast v)"

declare putVarint64_buf.simps [simp del] varintLen_loop.simps [simp del]

section \<open>The unrolled decoder\<close>

lemma bit_SLOT_2_0: "bit SLOT_2_0 n \<longleftrightarrow> n < 7 \<or> (14 \<le> n \<and> n < 21)"
proof -
  have "SLOT_2_0 = push_bit 14 (mask 7) OR mask 7"
    by (simp add: SLOT_2_0_def mask_eq_exp_minus_1)
  then have "bit SLOT_2_0 n = bit (push_bit 14 (mask 7) OR mask 7 :: u32) n" by simp
  then show ?thesis by (simp only: bit_simps) auto
qed
lemma bit_SLOT_4_2_0: "bit SLOT_4_2_0 n \<longleftrightarrow> n < 7 \<or> (14 \<le> n \<and> n < 21) \<or> 28 \<le> n \<and> n < 32"
proof -
  have "SLOT_4_2_0 = push_bit 28 (mask 4) OR push_bit 14 (mask 7) OR mask 7"
    by (simp add: SLOT_4_2_0_def mask_eq_exp_minus_1)
  then have "bit SLOT_4_2_0 n \<longleftrightarrow> bit (push_bit 28 (mask 4) OR push_bit 14 (mask 7) OR mask 7 :: u32) n" by simp
  then show ?thesis by (simp add: bit_simps) presburger
qed

lemmas varint_bits = bit_simps bit_SLOT_2_0 bit_SLOT_4_2_0 bytes_simps bit_u8_ge

lemma or_eq0_cond: "((x::u32) OR y) AND 0x80 = 0 \<longleftrightarrow> \<not> (bit x 7 \<or> bit y 7)"
  by (simp add: and_80_u32 bit_or_iff)

lemmas varint_path_simps = sqlite3GetVarint_def mem_simps hi_bit_iff sint_ge0_u8 or_eq0_cond
  Let_def bit_or_iff bit_push_bit_iff bit_unsigned_iff bit_and_iff bit_SLOT_2_0

text \<open>One equation per number of bytes read; values are compared bit by bit.\<close>

lemma varint_paths:
  "\<not> bit p0 7 \<Longrightarrow>
     sqlite3GetVarint (p0 # q) = varint_spec 0 0 (p0 # q)"
  "bit p0 7 \<Longrightarrow> \<not> bit p1 7 \<Longrightarrow>
     sqlite3GetVarint (p0 # p1 # q)
     = varint_spec 0 0 (p0 # p1 # q)"
  "bit p0 7 \<Longrightarrow> bit p1 7 \<Longrightarrow> \<not> bit p2 7 \<Longrightarrow>
     sqlite3GetVarint (p0 # p1 # p2 # q)
     = varint_spec 0 0 (p0 # p1 # p2 # q)"
  "bit p0 7 \<Longrightarrow> bit p1 7 \<Longrightarrow> bit p2 7 \<Longrightarrow> \<not> bit p3 7 \<Longrightarrow>
     sqlite3GetVarint (p0 # p1 # p2 # p3 # q)
     = varint_spec 0 0 (p0 # p1 # p2 # p3 # q)"
  "bit p0 7 \<Longrightarrow> bit p1 7 \<Longrightarrow> bit p2 7 \<Longrightarrow> bit p3 7 \<Longrightarrow> \<not> bit p4 7 \<Longrightarrow>
     sqlite3GetVarint (p0 # p1 # p2 # p3 # p4 # q)
     = varint_spec 0 0 (p0 # p1 # p2 # p3 # p4 # q)"
  "bit p0 7 \<Longrightarrow> bit p1 7 \<Longrightarrow> bit p2 7 \<Longrightarrow> bit p3 7 \<Longrightarrow> bit p4 7 \<Longrightarrow> \<not> bit p5 7 \<Longrightarrow>
     sqlite3GetVarint (p0 # p1 # p2 # p3 # p4 # p5 # q)
     = varint_spec 0 0 (p0 # p1 # p2 # p3 # p4 # p5 # q)"
  "bit p0 7 \<Longrightarrow> bit p1 7 \<Longrightarrow> bit p2 7 \<Longrightarrow> bit p3 7 \<Longrightarrow> bit p4 7 \<Longrightarrow> bit p5 7 \<Longrightarrow> \<not> bit p6 7 \<Longrightarrow>
     sqlite3GetVarint (p0 # p1 # p2 # p3 # p4 # p5 # p6 # q)
     = varint_spec 0 0 (p0 # p1 # p2 # p3 # p4 # p5 # p6 # q)"
  "bit p0 7 \<Longrightarrow> bit p1 7 \<Longrightarrow> bit p2 7 \<Longrightarrow> bit p3 7 \<Longrightarrow> bit p4 7 \<Longrightarrow> bit p5 7 \<Longrightarrow> bit p6 7 \<Longrightarrow> \<not> bit p7 7 \<Longrightarrow>
     sqlite3GetVarint (p0 # p1 # p2 # p3 # p4 # p5 # p6 # p7 # q)
     = varint_spec 0 0 (p0 # p1 # p2 # p3 # p4 # p5 # p6 # p7 # q)"
  "bit p0 7 \<Longrightarrow> bit p1 7 \<Longrightarrow> bit p2 7 \<Longrightarrow> bit p3 7 \<Longrightarrow> bit p4 7 \<Longrightarrow> bit p5 7 \<Longrightarrow> bit p6 7 \<Longrightarrow> bit p7 7 \<Longrightarrow>
     sqlite3GetVarint (p0 # p1 # p2 # p3 # p4 # p5 # p6 # p7 # p8 # q)
     = varint_spec 0 0 (p0 # p1 # p2 # p3 # p4 # p5 # p6 # p7 # p8 # q)"
  by (simp add: varint_path_simps;
      rule bits64_eqI; drule less_64_disj; elim insertE emptyE; simp add: varint_bits)+

lemma varint_short:
  assumes "\<forall>x\<in>set xs. bit x 7" "\<not> bit b 7" "length xs < 8"
  shows "sqlite3GetVarint (xs @ b # q) = varint_spec 0 0 (xs @ b # q)"
  using assms less_8_disj[OF assms(3)]
  by (elim insertE emptyE; clarsimp simp: length_Suc_conv eval_nat_numeral varint_paths simp del: varint_spec.simps)

lemma varint_long:
  assumes "\<forall>x\<in>set xs. bit x 7" "length xs = 8"
  shows "sqlite3GetVarint (xs @ b # q) = varint_spec 0 0 (xs @ b # q)"
  using assms
  by (clarsimp simp: length_Suc_conv eval_nat_numeral varint_paths simp del: varint_spec.simps)

lemma varint_trunc:
  assumes "\<forall>x\<in>set xs. bit x 7" "length xs \<le> 8"
  shows "sqlite3GetVarint xs = varint_spec 0 0 xs"
proof -
  have "length xs \<in> {0,1,2,3,4,5,6,7,8}" using less_8_disj[of "length xs"] assms(2) by (cases "length xs = 8") auto
  then show ?thesis using assms(1)
    by (elim insertE emptyE; clarsimp simp: length_Suc_conv eval_nat_numeral varint_path_simps)
qed

text \<open>
  A buffer either starts with up to eight continuation bytes and an ending byte, or it is
  truncated.
\<close>

lemma varint_split:
  obtains (ends) xs b q where "p = xs @ b # q" "\<forall>x\<in>set xs. bit x 7" "\<not> bit b 7" "length xs < 8"
  | (nine) xs b q where "p = xs @ b # q" "\<forall>x\<in>set xs. bit x 7" "length xs = 8"
  | (trunc) "\<forall>x\<in>set p. bit x 7" "length p \<le> 8"
proof -
  define xs where "xs = takeWhile (\<lambda>x. bit x 7) (take 8 p)"
  define ys where "ys = drop (length xs) p"
  have hi: "\<forall>x\<in>set xs. bit x 7" unfolding xs_def by (auto dest: set_takeWhileD)
  have len: "length xs \<le> 8" unfolding xs_def by (rule order_trans[OF length_takeWhile_le]) simp
  have p: "p = xs @ ys"
  proof -
    have "xs = take (length xs) (take 8 p)"
      unfolding xs_def by (rule takeWhile_eq_take)
    also have "\<dots> = take (length xs) p"
      using len by (simp add: min_def)
    finally show ?thesis
      unfolding ys_def by (metis append_take_drop_id)
  qed
  show thesis
  proof (cases ys)
    case Nil
    then show thesis using trunc hi len p by simp
  next
    case (Cons b q)
    show thesis
    proof (cases "length xs < 8")
      case True
      have "length xs < length (take 8 p)" using True Cons by (simp add: p)
      then have "\<not> bit (take 8 p ! length xs) 7"
        unfolding xs_def by (rule nth_length_takeWhile)
      then have "\<not> bit b 7" using True Cons by (simp add: p nth_append)
      then show thesis using ends [of xs b q] hi True p Cons by simp
    next
      case False
      then show thesis using nine [of xs b q] hi len p Cons by simp
    qed
  qed
qed

lemma sqlite3GetVarint_spec: "sqlite3GetVarint p = varint_spec 0 0 p"
  by (cases p rule: varint_split) (simp_all add: varint_short varint_long varint_trunc)

section \<open>Encoding\<close>

text \<open>One decoding step on a continuation byte.\<close>

definition vstep :: "u64 \<Rightarrow> u8 \<Rightarrow> u64" where
  "vstep a b = push_bit 7 a OR ucast (b AND 0x7f)"

lemma vstep_septet: "vstep (drop_bit 7 v) (ucast ((v AND 0x7f) OR 0x80)) = v"
  unfolding vstep_def
proof (rule bits64_eqI)
  fix n :: nat
  assume n: "n < 64"
  show "bit (push_bit 7 (drop_bit 7 v) OR ucast (ucast ((v AND 0x7f) OR 0x80) AND 0x7f :: u8)) n
      = bit v n"
    by (cases "n < 7") (use n in \<open>auto simp: bit_simps bytes_simps\<close>)
qed

lemma varint_spec_append:
  "\<forall>x\<in>set xs. \<not> x < 0x80 \<Longrightarrow> k + length xs \<le> 8 \<Longrightarrow>
   varint_spec k a (xs @ ys) = varint_spec (k + length xs) (foldl vstep a xs) ys"
  by (induction xs arbitrary: k a) (auto simp: vstep_def)

lemma buf_ne: "putVarint64_buf v \<noteq> []"
  by (subst putVarint64_buf.simps) (simp add: Let_def)

lemma hd_buf: "hd (putVarint64_buf v) = ucast ((v AND 0x7f) OR 0x80)"
  by (subst putVarint64_buf.simps) (simp add: Let_def)

lemma tl_buf: "tl (putVarint64_buf v) = (if drop_bit 7 v = 0 then [] else putVarint64_buf (drop_bit 7 v))"
  by (subst putVarint64_buf.simps) (simp add: Let_def)

lemma foldl_buf: "foldl vstep 0 (rev (putVarint64_buf v)) = v"
proof (induction v rule: putVarint64_buf.induct)
  case (1 v)
  have *: "rev (putVarint64_buf v) = rev (tl (putVarint64_buf v)) @ [ucast ((v AND 0x7f) OR 0x80)]"
    by (metis buf_ne hd_Cons_tl hd_buf rev.simps(2))
  show ?case
  proof (cases "drop_bit 7 v = 0")
    case True
    then show ?thesis using vstep_septet[of v] by (simp add: * tl_buf)
  next
    case False
    then show ?thesis using 1 vstep_septet[of v] by (simp add: * tl_buf)
  qed
qed

lemma hi_septet: "\<not> (ucast (((v::u64) AND 0x7f) OR 0x80) :: u8) < 0x80"
  by (simp add: hi_bit_iff bit_simps bytes_simps)

lemma buf_hi: "\<forall>x\<in>set (putVarint64_buf v). \<not> x < 0x80"
proof (induction v rule: putVarint64_buf.induct)
  case (1 v)
  then show ?case
    by (subst putVarint64_buf.simps) (auto simp: Let_def hi_septet)
qed

lemma length_buf_le: "0 < n \<Longrightarrow> unat v < 2 ^ (7 * n) \<Longrightarrow> length (putVarint64_buf v) \<le> n"
proof (induction v arbitrary: n rule: putVarint64_buf.induct)
  case (1 v)
  show ?case
  proof (cases "drop_bit 7 v = 0")
    case True
    then show ?thesis using 1 by (subst putVarint64_buf.simps) (simp add: Let_def)
  next
    case False
    then have "\<not> unat v < 2 ^ 7" by (simp add: drop_bit_word_eq_0_iff)
    then have "n \<noteq> 1" using 1 by auto
    then obtain m where m: "n = Suc m" "0 < m" using 1 by (cases n) auto
    have "unat (drop_bit 7 v) < 2 ^ (7 * m)"
      using 1(3) m by (simp only: unat_drop_bit_eq) (simp add: drop_bit_eq_div power_add less_mult_imp_div_less)
    then have "length (putVarint64_buf (drop_bit 7 v)) \<le> m" using 1(1) False m by auto
    then show ?thesis using False m by (subst putVarint64_buf.simps) (simp add: Let_def)
  qed
qed

lemma length_buf_ge: "unat v \<ge> 2 ^ (7 * n) \<Longrightarrow> length (putVarint64_buf v) > n"
proof (induction v arbitrary: n rule: putVarint64_buf.induct)
  case (1 v)
  show ?case
  proof (cases n)
    case 0
    then show ?thesis using buf_ne by simp
  next
    case (Suc m)
    then have "unat v \<ge> 2 ^ 7" using 1(2) by (intro order_trans[OF power_increasing[of 7 "7 * n" "2::nat"]]) auto
    then have nz: "drop_bit 7 v \<noteq> 0" by (simp add: drop_bit_word_eq_0_iff)
    have "unat (drop_bit 7 v) \<ge> 2 ^ (7 * m)"
      using 1(2) Suc by (simp only: unat_drop_bit_eq) (simp add: drop_bit_eq_div power_add less_eq_div_iff_mult_less_eq)
    then have "length (putVarint64_buf (drop_bit 7 v)) > m" using 1(1) nz by auto
    then show ?thesis using nz Suc by (subst putVarint64_buf.simps) (simp add: Let_def)
  qed
qed

lemma nine_append: "putVarint64_nine n v acc = putVarint64_nine n v [] @ acc"
proof (induction n arbitrary: v acc)
  case (Suc n)
  show ?case
    by (simp add: Suc[of _ "_ # _"])
qed simp

lemma length_nine [simp]: "length (putVarint64_nine n v acc) = n + length acc"
  by (induction n v acc rule: putVarint64_nine.induct) auto

lemma nine_hi: "\<forall>x\<in>set acc. \<not> x < 0x80 \<Longrightarrow> \<forall>x\<in>set (putVarint64_nine n v acc). \<not> x < 0x80"
  by (induction n v acc rule: putVarint64_nine.induct) (auto simp: hi_septet)

lemma vstep_take: "vstep (take_bit m (drop_bit 7 v)) (ucast ((v AND 0x7f) OR 0x80)) = take_bit (7 + m) v"
  unfolding vstep_def
proof (rule bits64_eqI)
  fix n :: nat
  assume n: "n < 64"
  show "bit (push_bit 7 (take_bit m (drop_bit 7 v)) OR ucast (ucast ((v AND 0x7f) OR 0x80) AND 0x7f :: u8)) n
      = bit (take_bit (7 + m) v) n"
    by (cases "n < 7") (use n in \<open>auto simp: bit_simps bytes_simps\<close>)
qed

lemma foldl_nine: "foldl vstep 0 (putVarint64_nine n v []) = take_bit (7 * n) v"
proof (induction n arbitrary: v)
  case 0 then show ?case by simp
next
  case (Suc n)
  then show ?case using vstep_take[of "7*n" v]
    by (simp add: nine_append[of n _ "[_]"])
qed

lemma hi_mask_iff: "(v::u64) AND push_bit 32 0xff000000 \<noteq> 0 \<longleftrightarrow> 2 ^ 56 \<le> unat v"
proof -
  have "(push_bit 32 0xff000000 :: u64) = push_bit 56 (mask 8)"
    by (simp add: mask_eq_exp_minus_1 push_bit_eq_mult)
  moreover have "v AND push_bit 56 (mask 8) = push_bit 56 (drop_bit 56 v)"
    by (rule bits64_eqI) (auto simp: bit_simps)
  moreover have "push_bit 56 (drop_bit 56 v) = 0 \<longleftrightarrow> drop_bit 56 v = 0"
  proof
    assume "push_bit 56 (drop_bit 56 v) = 0"
    then have "drop_bit 56 (push_bit 56 (drop_bit 56 v)) = 0" by simp
    moreover have "drop_bit 56 (push_bit 56 (drop_bit 56 v)) = drop_bit 56 v"
      by (rule bits64_eqI) (auto simp: bit_simps dest: bit_imp_le_length)
    ultimately show "drop_bit 56 v = 0" by simp
  qed simp
  ultimately show ?thesis by (simp add: drop_bit_word_eq_0_iff not_less)
qed

lemma spec_buf:
  assumes "unat v < 2 ^ 56"
  shows "let buf = putVarint64_buf v in
   varint_spec 0 0 (rev (buf[0 := (buf ! 0) AND 0x7f]) @ q) = Some (v, length buf)"
proof -
  let ?buf = "putVarint64_buf v"
  have len: "length ?buf \<le> 8" using length_buf_le[of 8 v] assms by simp
  obtain b t where bt: "?buf = b # t" using buf_ne by (cases ?buf) auto
  have b: "b = ucast ((v AND 0x7f) OR 0x80)" using hd_buf[of v] bt by simp
  have t: "foldl vstep 0 (rev t) = drop_bit 7 v"
    using tl_buf[of v] bt foldl_buf by (auto split: if_splits)
  have hi: "\<forall>x\<in>set (rev t). \<not> x < 0x80" using buf_hi[of v] bt by auto
  have low: "b AND 0x7f < 0x80"
    by (simp add: hi_bit_iff bit_simps bytes_simps)
  have v: "push_bit 7 (drop_bit 7 v) OR ucast (b AND 0x7f) = v"
    using vstep_septet[of v] unfolding vstep_def b .
  show ?thesis
    using len bt low v by (simp add: varint_spec_append[OF hi] t)
qed

lemma spec_nine:
  assumes "2 ^ 56 \<le> unat v"
  shows "varint_spec 0 0 (putVarint64_nine 8 (drop_bit 8 v) [ucast v] @ q) = Some (v, 9)"
proof -
  have hi: "\<forall>x\<in>set (putVarint64_nine 8 (drop_bit 8 v) []). \<not> x < 0x80"
    by (rule nine_hi) simp
  have "push_bit 8 (take_bit 56 (drop_bit 8 v)) OR ucast (ucast v :: u8) = v"
    by (rule bits64_eqI) (auto simp: bit_simps)
  then show ?thesis
    by (simp add: nine_append[of 8 _ "[ucast v]"] varint_spec_append[OF hi] foldl_nine)
qed



lemma septet_low: "(ucast ((v AND 0x7f) OR 0x80) AND 0x7f :: u8) = ucast ((v::u64) AND 0x7f)"
  by (rule bit_word_eqI) (auto simp: bit_simps bytes_simps)

lemma put_eq_buf:
  assumes "unat v < 2 ^ 56"
  shows "sqlite3PutVarint v = rev ((putVarint64_buf v)[0 := (putVarint64_buf v ! 0) AND 0x7f])"
proof -
  consider (one) "v \<le> 0x7f" | (two) "\<not> v \<le> 0x7f" "v \<le> 0x3fff" | (buf) "\<not> v \<le> 0x3fff" "\<not> v \<le> 0x7f"
    by fastforce
  then show ?thesis
  proof cases
    case one
    then have "unat v < 2 ^ 7" by (simp add: word_le_nat_alt)
    then have "drop_bit 7 v = 0" by (simp only: drop_bit_word_eq_0_iff)
    then have "putVarint64_buf v = [ucast ((v AND 0x7f) OR 0x80)]"
      by (subst putVarint64_buf.simps) (simp add: Let_def)
    then show ?thesis using one by (simp add: sqlite3PutVarint_def septet_low)
  next
    case two
    then have 1: "drop_bit 7 v \<noteq> 0" by (simp add: drop_bit_word_eq_0_iff word_le_nat_alt)
    have "unat v < 2 ^ 14" using two by (simp add: word_le_nat_alt)
    then have "drop_bit 14 v = 0" by (simp only: drop_bit_word_eq_0_iff)
    then have 2: "drop_bit 7 (drop_bit 7 v) = 0" by simp
    have "putVarint64_buf (drop_bit 7 v) = [ucast ((drop_bit 7 v AND 0x7f) OR 0x80)]"
      using 2 by (subst putVarint64_buf.simps) (simp add: Let_def)
    then have "putVarint64_buf v = [ucast ((v AND 0x7f) OR 0x80), ucast ((drop_bit 7 v AND 0x7f) OR 0x80)]"
      using 1 by (subst putVarint64_buf.simps) (simp add: Let_def)
    then show ?thesis using two by (simp add: sqlite3PutVarint_def septet_low)
  next
    case buf
    then show ?thesis using assms hi_mask_iff[of v]
      by (simp add: sqlite3PutVarint_def putVarint64_def Let_def)
  qed
qed

lemma put_eq_nine:
  assumes "2 ^ 56 \<le> unat v"
  shows "sqlite3PutVarint v = putVarint64_nine 8 (drop_bit 8 v) [ucast v]"
  using assms hi_mask_iff[of v]
  by (simp add: sqlite3PutVarint_def putVarint64_def word_le_nat_alt)

lemma length_put: "length (sqlite3PutVarint v) = (if unat v < 2 ^ 56 then length (putVarint64_buf v) else 9)"
  by (simp add: put_eq_buf put_eq_nine not_less)

lemma varintLen_loop_buf: "varintLen_loop v i + 1 = i + length (putVarint64_buf v)"
proof (induction v i rule: varintLen_loop.induct)
  case (1 v i)
  then show ?case
    by (subst varintLen_loop.simps, subst putVarint64_buf.simps) (auto simp: Let_def)
qed

lemma varintLen_buf: "sqlite3VarintLen v = length (putVarint64_buf v)"
  using varintLen_loop_buf[of v 1] by (simp add: sqlite3VarintLen_def)

lemma saturate32_eq: "(if v AND 0xffffffff \<noteq> v then 0xffffffff else ucast v) = saturate32 v"
proof -
  have "(0xffffffff :: u64) = mask 32"
    by (simp add: mask_eq_exp_minus_1)
  then have "v AND 0xffffffff = v \<longleftrightarrow> uint v < 2 ^ 32"
    by (simp only: mask_eq_iff)
  moreover have "uint v < 2 ^ 32 \<longleftrightarrow> \<not> 2 ^ 32 \<le> unat v"
  proof -
    have "uint v < 2 ^ 32 \<longleftrightarrow> int (unat v) < int (2 ^ 32)"
      by (metis uint_nat of_nat_power of_nat_numeral)
    also have "\<dots> \<longleftrightarrow> unat v < 2 ^ 32"
      by (rule of_nat_less_iff)
    finally show ?thesis
      by (simp only: not_le)
  qed
  ultimately have c: "(v AND 0xffffffff \<noteq> v) = (2 ^ 32 \<le> unat v)"
    by blast
  show ?thesis
    unfolding saturate32_def c ..
qed

lemma saturate32_id: "saturate32 (ucast (w::u32)) = w"
proof -
  have "unat (ucast w :: u64) = unat w" by (simp add: unsigned_ucast_eq take_bit_nat_eq_self unsigned_less[of w, where 'a=nat, THEN order_less_trans])
  then have "unat (ucast w :: u64) < 2 ^ 32" using unsigned_less[of w, where 'a=nat] by simp
  moreover have "ucast (ucast w :: u64) = w" by (rule bit_word_eqI) (simp add: bit_simps)
  ultimately show ?thesis by (simp add: saturate32_def)
qed


lemma get_put_varint:
  "sqlite3GetVarint (sqlite3PutVarint v @ q) = Some (v, length (sqlite3PutVarint v))"
  unfolding sqlite3GetVarint_spec
proof (cases "unat v < 2 ^ 56")
  case True
  then show "varint_spec 0 0 (sqlite3PutVarint v @ q) = Some (v, length (sqlite3PutVarint v))"
    using spec_buf[OF True, of q] by (simp add: put_eq_buf[OF True] Let_def)
next
  case False
  then show "varint_spec 0 0 (sqlite3PutVarint v @ q) = Some (v, length (sqlite3PutVarint v))"
    using spec_nine[of v q] by (simp add: put_eq_nine)
qed

lemma get4_put4: "sqlite3Get4byte (sqlite3Put4byte v @ q) = Some v"
proof -
  have "push_bit 24 (ucast (ucast (drop_bit 24 v) :: u8)) OR push_bit 16 (ucast (ucast (drop_bit 16 v) :: u8)) OR
    push_bit 8 (ucast (ucast (drop_bit 8 v) :: u8)) OR ucast (ucast v :: u8) = v"
    by (rule bits32_eqI, drule less_32_disj, elim insertE emptyE; simp add: bit_simps)
  then show ?thesis by (simp add: sqlite3Get4byte_def sqlite3Put4byte_def mem_simps)
qed

lemma getVarint32_saturates:
  "getVarint32 p = map_option (\<lambda>(v, n). (saturate32 v, n)) (sqlite3GetVarint p)"
proof (cases p)
  case Nil
  then show ?thesis by (simp add: getVarint32_def sqlite3GetVarint_spec mem_simps)
next
  case (Cons p0 q0) note c0 = this
  show ?thesis
  proof (cases "bit p0 7")
    case False
    have ucast_p0_eq: "(ucast (ucast p0 :: u32) :: u64) = ucast p0"
      by (rule bit_word_eqI) (auto simp: bit_simps dest: bit_imp_le_length)
    have "saturate32 (ucast p0) = ucast p0" 
      using saturate32_id[of "ucast p0"]
      by (metis (no_types, lifting) ucast_p0_eq)
    then show ?thesis using False by (simp add: c0 getVarint32_def sqlite3GetVarint_spec mem_simps hi_bit_iff)
  next
    case True
    show ?thesis
    proof (cases q0)
      case Nil
      then show ?thesis using True by (simp add: c0 getVarint32_def sqlite3GetVarint32_def sqlite3GetVarint_spec mem_simps hi_bit_iff)
    next
      case (Cons p1 q1) note c1 = this
      show ?thesis
      proof (cases "bit p1 7")
        case False
        have e: "push_bit 7 (ucast (p0 AND 0x7f)) OR ucast p1 = (ucast (push_bit 7 (ucast (p0 AND 0x7f)) OR ucast p1 :: u32) :: u64)"
          by (rule bits64_eqI, drule less_64_disj, elim insertE emptyE; simp add: varint_bits)
        show ?thesis using True False
          by (simp add: c0 c1 getVarint32_def sqlite3GetVarint32_def sqlite3GetVarint_spec mem_simps hi_bit_iff and_80_u8 e saturate32_id del: unsigned_or_eq)
      next
        case p1: True
        show ?thesis
        proof (cases q1)
          case Nil
          then show ?thesis using True p1 by (simp add: c0 c1 getVarint32_def sqlite3GetVarint32_def sqlite3GetVarint_spec mem_simps hi_bit_iff and_80_u8)
        next
          case (Cons p2 q2) note c2 = this
          have e: "push_bit 7 (push_bit 7 (ucast (p0 AND 0x7f)) OR ucast (p1 AND 0x7f)) OR ucast p2 = (ucast (push_bit 14 (ucast (p0 AND 0x7f)) OR push_bit 7 (ucast (p1 AND 0x7f)) OR ucast p2 :: u32) :: u64)"
            by (rule bits64_eqI, drule less_64_disj, elim insertE emptyE; simp add: varint_bits)
          show ?thesis
          proof (cases "bit p2 7")
            case False
            then show ?thesis using True p1
              by (simp add: c0 c1 c2 getVarint32_def sqlite3GetVarint32_def sqlite3GetVarint_spec mem_simps hi_bit_iff and_80_u8 e saturate32_id del: unsigned_or_eq push_bit_or)
          next
            case p2: True
            then show ?thesis using True p1
              by (simp add: c0 c1 c2 getVarint32_def sqlite3GetVarint32_def  mem_simps hi_bit_iff and_80_u8 saturate32_eq)
                (cases "sqlite3GetVarint (p0 # p1 # p2 # q2)", auto)
          qed
        qed
      qed
    qed
  qed
qed
section \<open>Properties\<close>

text \<open>
  C8. \<^verbatim>\<open>sqlite3GetVarint\<close>, unrolled over two 32-bit accumulators, computes on every
  buffer, a truncated one included, exactly the value and the length that the file format
  prescribes; it runs off the buffer only where the format does.
\<close>

theorem getVarint_format: "sqlite3GetVarint p = varint_spec 0 0 p"
  by (rule sqlite3GetVarint_spec)

text \<open>
  C9. Decoding what \<^verbatim>\<open>sqlite3PutVarint\<close> wrote gives back the 64-bit value and the
  number of bytes written, whatever follows in memory.
\<close>

theorem getVarint_putVarint:
  "sqlite3GetVarint (sqlite3PutVarint v @ q) = Some (v, length (sqlite3PutVarint v))"
  by (rule get_put_varint)

text \<open>
  C36. \<^verbatim>\<open>sqlite3VarintLen\<close> is the number of bytes \<^verbatim>\<open>sqlite3PutVarint\<close>
  writes, except that it answers 10 for values with the top bit set, which are stored in 9.
\<close>

theorem varintLen_putVarint:
  "sqlite3VarintLen v = (if 2 ^ 63 \<le> unat v then 10 else length (sqlite3PutVarint v))"
proof -
  have "unat v < 2 ^ 64" using unsigned_less[of v, where 'a=nat] by simp
  then have 10: "2 ^ 63 \<le> unat v \<Longrightarrow> length (putVarint64_buf v) = 10"
    using length_buf_le[of 10 v] length_buf_ge[of 9 v] by simp
  have 9: "2 ^ 56 \<le> unat v \<Longrightarrow> unat v < 2 ^ 63 \<Longrightarrow> length (putVarint64_buf v) = 9"
    using length_buf_le[of 9 v] length_buf_ge[of 8 v] by simp
  show ?thesis
    using 10 9 by (auto simp: varintLen_buf length_put)
qed

text \<open>
  The 32-bit reader (\<^verbatim>\<open>getVarint32\<close> with \<^verbatim>\<open>sqlite3GetVarint32\<close>)
  consumes the same bytes as the 64-bit reader and returns the value saturated to
  \<open>0xffffffff\<close>.
\<close>

theorem getVarint32_saturating:
  "getVarint32 p = map_option (\<lambda>(v, n). (saturate32 v, n)) (sqlite3GetVarint p)"
  by (rule getVarint32_saturates)

end
