(* ===== verification/CType.thy ===== *)
theory CType
  imports Prelude
begin

text \<open>
  The character tables of \<^verbatim>\<open>global.c\<close> (ASCII build) and the character tests of
  \<^verbatim>\<open>sqliteInt.h\<close> over them, with case-insensitive comparison and hashing
  (\<^verbatim>\<open>sqlite3StrICmp\<close>, \<^verbatim>\<open>sqlite3_strnicmp\<close>,
  \<^verbatim>\<open>sqlite3StrIHash\<close>) and dequoting. A zero-terminated string is the list of its
  bytes without the terminator.
\<close>

section \<open>Tables\<close>

definition sqlite3UpperToLower :: "u8 list" where
  "sqlite3UpperToLower = [
    0, 1, 2, 3, 4, 5, 6, 7, 8, 9, 10, 11, 12, 13, 14, 15, 16, 17, 18, 19, 20, 21, 22, 23, 24,
    25, 26, 27, 28, 29, 30, 31, 32, 33, 34, 35, 36, 37, 38, 39, 40, 41, 42, 43, 44, 45, 46, 47,
    48, 49, 50, 51, 52, 53, 54, 55, 56, 57, 58, 59, 60, 61, 62, 63, 64, 97, 98, 99, 100, 101,
    102, 103, 104, 105, 106, 107, 108, 109, 110, 111, 112, 113, 114, 115, 116, 117, 118, 119,
    120, 121, 122, 91, 92, 93, 94, 95, 96, 97, 98, 99, 100, 101, 102, 103, 104, 105, 106, 107,
    108, 109, 110, 111, 112, 113, 114, 115, 116, 117, 118, 119, 120, 121, 122, 123, 124, 125,
    126, 127, 128, 129, 130, 131, 132, 133, 134, 135, 136, 137, 138, 139, 140, 141, 142, 143,
    144, 145, 146, 147, 148, 149, 150, 151, 152, 153, 154, 155, 156, 157, 158, 159, 160, 161,
    162, 163, 164, 165, 166, 167, 168, 169, 170, 171, 172, 173, 174, 175, 176, 177, 178, 179,
    180, 181, 182, 183, 184, 185, 186, 187, 188, 189, 190, 191, 192, 193, 194, 195, 196, 197,
    198, 199, 200, 201, 202, 203, 204, 205, 206, 207, 208, 209, 210, 211, 212, 213, 214, 215,
    216, 217, 218, 219, 220, 221, 222, 223, 224, 225, 226, 227, 228, 229, 230, 231, 232, 233,
    234, 235, 236, 237, 238, 239, 240, 241, 242, 243, 244, 245, 246, 247, 248, 249, 250, 251,
    252, 253, 254, 255]"

definition sqlite3CtypeMap :: "u8 list" where
  "sqlite3CtypeMap = [
    0x00, 0x00, 0x00, 0x00, 0x00, 0x00, 0x00, 0x00, 0x00, 0x01, 0x01, 0x01, 0x01, 0x01, 0x00,
    0x00, 0x00, 0x00, 0x00, 0x00, 0x00, 0x00, 0x00, 0x00, 0x00, 0x00, 0x00, 0x00, 0x00, 0x00,
    0x00, 0x00, 0x01, 0x00, 0x80, 0x00, 0x40, 0x00, 0x00, 0x80, 0x00, 0x00, 0x00, 0x00, 0x00,
    0x00, 0x00, 0x00, 0x0c, 0x0c, 0x0c, 0x0c, 0x0c, 0x0c, 0x0c, 0x0c, 0x0c, 0x0c, 0x00, 0x00,
    0x00, 0x00, 0x00, 0x00, 0x00, 0x0a, 0x0a, 0x0a, 0x0a, 0x0a, 0x0a, 0x02, 0x02, 0x02, 0x02,
    0x02, 0x02, 0x02, 0x02, 0x02, 0x02, 0x02, 0x02, 0x02, 0x02, 0x02, 0x02, 0x02, 0x02, 0x02,
    0x02, 0x80, 0x00, 0x00, 0x00, 0x40, 0x80, 0x2a, 0x2a, 0x2a, 0x2a, 0x2a, 0x2a, 0x22, 0x22,
    0x22, 0x22, 0x22, 0x22, 0x22, 0x22, 0x22, 0x22, 0x22, 0x22, 0x22, 0x22, 0x22, 0x22, 0x22,
    0x22, 0x22, 0x22, 0x00, 0x00, 0x00, 0x00, 0x00, 0x40, 0x40, 0x40, 0x40, 0x40, 0x40, 0x40,
    0x40, 0x40, 0x40, 0x40, 0x40, 0x40, 0x40, 0x40, 0x40, 0x40, 0x40, 0x40, 0x40, 0x40, 0x40,
    0x40, 0x40, 0x40, 0x40, 0x40, 0x40, 0x40, 0x40, 0x40, 0x40, 0x40, 0x40, 0x40, 0x40, 0x40,
    0x40, 0x40, 0x40, 0x40, 0x40, 0x40, 0x40, 0x40, 0x40, 0x40, 0x40, 0x40, 0x40, 0x40, 0x40,
    0x40, 0x40, 0x40, 0x40, 0x40, 0x40, 0x40, 0x40, 0x40, 0x40, 0x40, 0x40, 0x40, 0x40, 0x40,
    0x40, 0x40, 0x40, 0x40, 0x40, 0x40, 0x40, 0x40, 0x40, 0x40, 0x40, 0x40, 0x40, 0x40, 0x40,
    0x40, 0x40, 0x40, 0x40, 0x40, 0x40, 0x40, 0x40, 0x40, 0x40, 0x40, 0x40, 0x40, 0x40, 0x40,
    0x40, 0x40, 0x40, 0x40, 0x40, 0x40, 0x40, 0x40, 0x40, 0x40, 0x40, 0x40, 0x40, 0x40, 0x40,
    0x40, 0x40, 0x40, 0x40, 0x40, 0x40, 0x40, 0x40, 0x40, 0x40, 0x40, 0x40, 0x40, 0x40, 0x40,
    0x40]"

definition UpperToLower :: "u8 \<Rightarrow> u8" where
  "UpperToLower c = sqlite3UpperToLower ! unat c"

definition ctype :: "u8 \<Rightarrow> u8" where
  "ctype c = sqlite3CtypeMap ! unat c"

definition sqlite3Isspace :: "u8 \<Rightarrow> bool" where
  "sqlite3Isspace x \<longleftrightarrow> ctype x AND 0x01 \<noteq> 0"

definition sqlite3Isalnum :: "u8 \<Rightarrow> bool" where
  "sqlite3Isalnum x \<longleftrightarrow> ctype x AND 0x06 \<noteq> 0"

definition sqlite3Isalpha :: "u8 \<Rightarrow> bool" where
  "sqlite3Isalpha x \<longleftrightarrow> ctype x AND 0x02 \<noteq> 0"

definition sqlite3Isdigit :: "u8 \<Rightarrow> bool" where
  "sqlite3Isdigit x \<longleftrightarrow> ctype x AND 0x04 \<noteq> 0"

definition sqlite3Isxdigit :: "u8 \<Rightarrow> bool" where
  "sqlite3Isxdigit x \<longleftrightarrow> ctype x AND 0x08 \<noteq> 0"

definition sqlite3Isquote :: "u8 \<Rightarrow> bool" where
  "sqlite3Isquote x \<longleftrightarrow> ctype x AND 0x80 \<noteq> 0"

definition sqlite3Toupper :: "u8 \<Rightarrow> u8" where
  "sqlite3Toupper x = x AND NOT (ctype x AND 0x20)"

definition IdChar :: "u8 \<Rightarrow> bool" where
  "IdChar x \<longleftrightarrow> ctype x AND 0x46 \<noteq> 0"

section \<open>Strings\<close>

text \<open>The byte at index \<open>i\<close> of a zero-terminated string; index \<open>strlen\<close> is the terminator.\<close>

definition zat :: "bytes \<Rightarrow> nat \<Rightarrow> u8" where
  "zat z i = (if i < length z then z ! i else 0)"

fun strlen :: "bytes \<Rightarrow> nat" where
  "strlen [] = 0"
| "strlen (c # z) = (if c = 0 then 0 else Suc (strlen z))"

definition sqlite3Strlen30 :: "bytes option \<Rightarrow> nat" where
  "sqlite3Strlen30 z = (case z of None \<Rightarrow> 0 | Some z \<Rightarrow> strlen z mod 2 ^ 30)"

text \<open>
  \<^verbatim>\<open>sqlite3StrICmp\<close>: the two pointers advance together; reading the terminator of
  one string decides the comparison before either pointer passes it.
\<close>

function sqlite3StrICmp :: "bytes \<Rightarrow> bytes \<Rightarrow> int" where
  "sqlite3StrICmp a b =
     (let c = zat a 0; x = zat b 0
      in if c = x then (if c = 0 then 0 else sqlite3StrICmp (tl a) (tl b))
         else (let d = uint (UpperToLower c) - uint (UpperToLower x)
               in if d \<noteq> 0 then d else sqlite3StrICmp (tl a) (tl b)))"
  by pat_completeness auto
termination
proof (relation "measure (\<lambda>(a, b). length a + length b)", goal_cases)
  case (2 a b c x)
  then show ?case
    by (cases a; cases b) (auto simp: zat_def)
next
  case (3 a b c x d)
  then show ?case
    by (cases a; cases b) (auto simp: zat_def)
qed simp

definition sqlite3_stricmp :: "bytes option \<Rightarrow> bytes option \<Rightarrow> int" where
  "sqlite3_stricmp zLeft zRight =
     (case zLeft of
        None \<Rightarrow> (if zRight \<noteq> None then - 1 else 0)
      | Some a \<Rightarrow> (case zRight of None \<Rightarrow> 1 | Some b \<Rightarrow> sqlite3StrICmp a b))"

text \<open>
  The while loop of \<^verbatim>\<open>sqlite3_strnicmp\<close>. \<open>N\<close> is decremented by the test \<open>N-- > 0\<close> also when
  that test fails, so the loop ends with \<open>N < 0\<close> exactly when the limit stopped it.
\<close>

fun strnicmp_loop :: "bytes \<Rightarrow> bytes \<Rightarrow> nat \<Rightarrow> int" where
  "strnicmp_loop a b 0 = 0"
| "strnicmp_loop a b (Suc N) =
     (if zat a 0 \<noteq> 0 \<and> UpperToLower (zat a 0) = UpperToLower (zat b 0)
      then strnicmp_loop (tl a) (tl b) N
      else uint (UpperToLower (zat a 0)) - uint (UpperToLower (zat b 0)))"

definition sqlite3_strnicmp :: "bytes option \<Rightarrow> bytes option \<Rightarrow> int \<Rightarrow> int" where
  "sqlite3_strnicmp zLeft zRight N =
     (case zLeft of
        None \<Rightarrow> (if zRight \<noteq> None then - 1 else 0)
      | Some a \<Rightarrow> (case zRight of None \<Rightarrow> 1 | Some b \<Rightarrow> strnicmp_loop a b (nat N)))"

fun strIHash_loop :: "bytes \<Rightarrow> u8 \<Rightarrow> u8" where
  "strIHash_loop [] h = h"
| "strIHash_loop (c # z) h = (if c = 0 then h else strIHash_loop z (h + UpperToLower c))"

definition sqlite3StrIHash :: "bytes option \<Rightarrow> u8" where
  "sqlite3StrIHash z = (case z of None \<Rightarrow> 0 | Some z \<Rightarrow> strIHash_loop z 0)"

text \<open>
  \<^verbatim>\<open>sqlite3Dequote\<close>, in place on a zero-terminated string: the result is the text up
  to the new terminator. The source asserts that the loop meets a closing quote before the
  terminator; running past it is \<^term>\<open>None\<close>.
\<close>

fun dequote_loop :: "u8 \<Rightarrow> bytes \<Rightarrow> bytes \<Rightarrow> bytes option" where
  "dequote_loop q [] out = None"
| "dequote_loop q (c # z) out =
     (if c = q then
        (case z of
           c1 # z1 \<Rightarrow> (if c1 = q then dequote_loop q z1 (out @ [q]) else Some out)
         | [] \<Rightarrow> Some out)
      else dequote_loop q z (out @ [c]))"

definition sqlite3Dequote :: "bytes option \<Rightarrow> bytes option option" where
  "sqlite3Dequote z =
     (case z of
        None \<Rightarrow> Some None
      | Some z \<Rightarrow>
          (let quote = zat z 0
           in if \<not> sqlite3Isquote quote then Some (Some z)
              else (let quote = (if quote = 0x5b then 0x5d else quote)
                    in map_option Some (dequote_loop quote (tl z) []))))"

declare sqlite3StrICmp.simps [simp del]

section \<open>The tables decoded\<close>

lemma unat_u8_less: "unat (x::u8) < 256"
  using unsigned_less [of x, where 'a = nat] by simp

lemma UpperToLower_table:
  "sqlite3UpperToLower =
     map (\<lambda>n. if 65 \<le> n \<and> n \<le> 90 then word_of_nat (n + 32) else word_of_nat n) [0..<256]"
  by (simp add: sqlite3UpperToLower_def upt_rec_numeral upt_rec [of 0] upt_rec [of "Suc 0"]
      numeral_2_eq_2 [symmetric])

definition ctype_class :: "nat \<Rightarrow> u8" where
  "ctype_class n =
     (if 9 \<le> n \<and> n \<le> 13 \<or> n = 32 then 0x01
      else if 48 \<le> n \<and> n \<le> 57 then 0x0c
      else if 65 \<le> n \<and> n \<le> 70 then 0x0a
      else if 71 \<le> n \<and> n \<le> 90 then 0x02
      else if 97 \<le> n \<and> n \<le> 102 then 0x2a
      else if 103 \<le> n \<and> n \<le> 122 then 0x22
      else if n = 34 \<or> n = 39 \<or> n = 91 \<or> n = 96 then 0x80
      else if n = 36 \<or> n = 95 \<or> 128 \<le> n then 0x40
      else 0)"

lemma CtypeMap_table: "sqlite3CtypeMap = map ctype_class [0..<256]"
  by (simp add: sqlite3CtypeMap_def upt_rec_numeral upt_rec [of 0] upt_rec [of "Suc 0"]
      numeral_2_eq_2 [symmetric] ctype_class_def)

lemma UpperToLower_eq:
  "UpperToLower c = (if 65 \<le> unat c \<and> unat c \<le> 90 then c + 32 else c)"
  using unat_u8_less [of c] by (simp add: UpperToLower_def UpperToLower_table)

lemma ctype_eq: "ctype c = ctype_class (unat c)"
  using unat_u8_less [of c] by (simp add: ctype_def CtypeMap_table)

lemma Isspace_iff: "sqlite3Isspace c \<longleftrightarrow> 9 \<le> unat c \<and> unat c \<le> 13 \<or> unat c = 32"
  by (simp add: sqlite3Isspace_def ctype_eq ctype_class_def)

lemma Isdigit_iff: "sqlite3Isdigit c \<longleftrightarrow> 48 \<le> unat c \<and> unat c \<le> 57"
  by (simp add: sqlite3Isdigit_def ctype_eq ctype_class_def)

lemma Isxdigit_iff:
  "sqlite3Isxdigit c \<longleftrightarrow> 48 \<le> unat c \<and> unat c \<le> 57 \<or> 65 \<le> unat c \<and> unat c \<le> 70
     \<or> 97 \<le> unat c \<and> unat c \<le> 102"
  by (simp add: sqlite3Isxdigit_def ctype_eq ctype_class_def)

lemma Isquote_iff: "sqlite3Isquote c \<longleftrightarrow> unat c \<in> {34, 39, 91, 96}"
  by (auto simp: sqlite3Isquote_def ctype_eq ctype_class_def)

lemma UpperToLower_0 [simp]: "UpperToLower 0 = 0"
  by (simp add: UpperToLower_eq)

lemma UpperToLower_0_iff: "UpperToLower c = 0 \<longleftrightarrow> c = 0"
proof
  assume z: "UpperToLower c = 0"
  show "c = 0"
  proof (cases "65 \<le> unat c \<and> unat c \<le> 90")
    case True
    then have "unat (c + 32) = unat c + 32"
      by (simp add: unat_word_ariths)
    with True z show ?thesis
      by (simp add: UpperToLower_eq)
  next
    case False
    with z show ?thesis
      by (simp add: UpperToLower_eq split: if_splits)
  qed
qed simp

section \<open>Case-insensitive comparison\<close>

lemma uint_eq_imp: "uint (x::u8) = uint y \<Longrightarrow> x = y"
  by (rule word_uint_eqI)

abbreviation zstring :: "bytes \<Rightarrow> bool" where
  "zstring z \<equiv> 0 \<notin> set z"

abbreviation fold_case :: "bytes \<Rightarrow> bytes" where
  "fold_case z \<equiv> map UpperToLower z"

lemma zat_simps [simp]: "zat [] i = 0" "zat (c # z) 0 = c" "zat (c # z) (Suc i) = zat z i"
  by (simp_all add: zat_def)

lemma zat_0: "zstring z \<Longrightarrow> zat z 0 = 0 \<longleftrightarrow> z = []"
  by (cases z) auto

lemma StrICmp_0_iff:
  "zstring a \<Longrightarrow> zstring b \<Longrightarrow> sqlite3StrICmp a b = 0 \<longleftrightarrow> fold_case a = fold_case b"
proof (induction a b rule: sqlite3StrICmp.induct)
  case (1 a b)
  have tls: "zstring (tl a)" "zstring (tl b)"
    using 1 by (cases a; cases b; simp)+
  consider (both) "a = []" "b = []" | (left) x b' where "a = []" "b = x # b'"
    | (right) c a' where "a = c # a'" "b = []" | (cons) c a' x b' where "a = c # a'" "b = x # b'"
    by (cases a; cases b) auto
  then show ?case
  proof cases
    case both
    then show ?thesis
      by (subst sqlite3StrICmp.simps) simp
  next
    case left
    then show ?thesis
      using 1 by (subst sqlite3StrICmp.simps) (auto simp: Let_def unsigned_eq_0_iff UpperToLower_0_iff)
  next
    case right
    then show ?thesis
      using 1 by (subst sqlite3StrICmp.simps) (auto simp: Let_def unsigned_eq_0_iff UpperToLower_0_iff)
  next
    case cons
    then show ?thesis
      using 1 tls by (subst sqlite3StrICmp.simps) (auto simp: Let_def dest: uint_eq_imp)
  qed
qed

lemma StrIHash_fold_case:
  "zstring a \<Longrightarrow> zstring b \<Longrightarrow> fold_case a = fold_case b \<Longrightarrow>
   strIHash_loop a h = strIHash_loop b h"
proof (induction a arbitrary: b h)
  case (Cons c a)
  then show ?case
    by (cases b) auto
qed simp

section \<open>Dequoting\<close>

text \<open>SQL quoting: the text between two quote characters, each quote inside doubled.\<close>

definition double_quotes :: "u8 \<Rightarrow> bytes \<Rightarrow> bytes" where
  "double_quotes q s = concat (map (\<lambda>c. if c = q then [q, q] else [c]) s)"

lemma dequote_loop_doubled:
  "dequote_loop q (double_quotes q s @ [q]) out = Some (out @ s)"
  by (induction s arbitrary: out) (auto simp: double_quotes_def)

section \<open>Properties\<close>

text \<open>
  \<^verbatim>\<open>sqlite3StrICmp\<close> returns 0 exactly on strings that are equal after folding the
  ASCII capitals to lower case, and strings it identifies have the same
  \<^verbatim>\<open>sqlite3StrIHash\<close>.
\<close>

theorem StrICmp_equal_fold_case:
  assumes "zstring a" "zstring b"
  shows "(sqlite3StrICmp a b = 0 \<longleftrightarrow> fold_case a = fold_case b)
    \<and> (sqlite3StrICmp a b = 0 \<longrightarrow> sqlite3StrIHash (Some a) = sqlite3StrIHash (Some b))"
  using assms StrIHash_fold_case [of a b 0] by (auto simp: StrICmp_0_iff sqlite3StrIHash_def)

theorem StrICmp_equal_fold_case_witness:
  "sqlite3StrICmp [0x41, 0x62] [0x61, 0x42] = 0
    \<and> sqlite3StrIHash (Some [0x41, 0x62]) = sqlite3StrIHash (Some [0x61, 0x42])"
  using StrICmp_equal_fold_case [of "[0x41, 0x62]" "[0x61, 0x42]"]
  by (simp add: UpperToLower_eq)

text \<open>
  \<^verbatim>\<open>sqlite3Dequote\<close> undoes SQL quoting: for each of the three symmetric quote
  characters, dequoting the quoted form of a text gives the text back, and so it does for
  square brackets, whose closing character is the one that is doubled.
\<close>

theorem dequote_quoted:
  assumes "q \<in> {0x22, 0x27, 0x60}"
  shows "sqlite3Dequote (Some (q # double_quotes q s @ [q])) = Some (Some s)
    \<and> sqlite3Dequote (Some (0x5b # double_quotes 0x5d s @ [0x5d])) = Some (Some s)"
  using assms dequote_loop_doubled [of q s "[]"] dequote_loop_doubled [of "0x5d" s "[]"]
  by (auto simp: sqlite3Dequote_def Isquote_iff Let_def)

theorem dequote_quoted_witness:
  "sqlite3Dequote (Some [0x22, 0x61, 0x22, 0x22, 0x22]) = Some (Some [0x61, 0x22])"
  using dequote_quoted [of "0x22" "[0x61, 0x22]"] by (simp add: double_quotes_def)

end
