(* ===== verification/IntArith.thy ===== *)
theory IntArith
  imports Prelude "HOL-Library.Signed_Division"
begin

text \<open>
  Overflow-checked 64-bit arithmetic and the logarithmic estimates of \<^verbatim>\<open>util.c\<close>.
  An \<^verbatim>\<open>i64\<close> is an integer in \<open>[-2^63, 2^63)\<close>; C's truncating division is
  \<open>sdiv\<close>. Both branches of the \<^verbatim>\<open>#if GCC_VERSION\<close> tests are modelled: the
  portable code, and the compiler builtins (suffix \<open>_gcc\<close>), which store the wrapped result
  also when they report an overflow.
\<close>

section \<open>Definitions\<close>

definition is_i64 :: "int \<Rightarrow> bool" where
  "is_i64 x \<longleftrightarrow> - (2 ^ 63) \<le> x \<and> x < 2 ^ 63"

definition LARGEST_INT64 :: int where
  "LARGEST_INT64 = 0xffffffff + 0x7fffffff * 2 ^ 32"

definition SMALLEST_INT64 :: int where
  "SMALLEST_INT64 = - 1 - LARGEST_INT64"

text \<open>Two's complement wrap-around to 64 bits.\<close>

definition wrap64 :: "int \<Rightarrow> int" where
  "wrap64 x = (x + 2 ^ 63) mod 2 ^ 64 - 2 ^ 63"

text \<open>The result is the return code (true for 1, an overflow) and the new value of \<open>*pA\<close>.\<close>

definition sqlite3AddInt64 :: "int \<Rightarrow> int \<Rightarrow> bool \<times> int" where
  "sqlite3AddInt64 iA iB =
     (if 0 \<le> iB then
        (if 0 < iA \<and> LARGEST_INT64 - iA < iB then (True, iA) else (False, iA + iB))
      else
        (if iA < 0 \<and> - (iA + LARGEST_INT64) > iB + 1 then (True, iA) else (False, iA + iB)))"

definition sqlite3AddInt64_gcc :: "int \<Rightarrow> int \<Rightarrow> bool \<times> int" where
  "sqlite3AddInt64_gcc iA iB = (\<not> is_i64 (iA + iB), wrap64 (iA + iB))"

definition sqlite3SubInt64 :: "int \<Rightarrow> int \<Rightarrow> bool \<times> int" where
  "sqlite3SubInt64 iA iB =
     (if iB = SMALLEST_INT64 then
        (if 0 \<le> iA then (True, iA) else (False, iA - iB))
      else sqlite3AddInt64 iA (- iB))"

definition sqlite3SubInt64_gcc :: "int \<Rightarrow> int \<Rightarrow> bool \<times> int" where
  "sqlite3SubInt64_gcc iA iB = (\<not> is_i64 (iA - iB), wrap64 (iA - iB))"

definition sqlite3MulInt64 :: "int \<Rightarrow> int \<Rightarrow> bool \<times> int" where
  "sqlite3MulInt64 iA iB =
     (if 0 < iB then
        (if iA > LARGEST_INT64 sdiv iB then (True, iA)
         else if iA < SMALLEST_INT64 sdiv iB then (True, iA)
         else (False, iA * iB))
      else if iB < 0 then
        (if 0 < iA then
           (if iB < SMALLEST_INT64 sdiv iA then (True, iA) else (False, iA * iB))
         else if iA < 0 then
           (if iB = SMALLEST_INT64 then (True, iA)
            else if iA = SMALLEST_INT64 then (True, iA)
            else if - iA > LARGEST_INT64 sdiv (- iB) then (True, iA)
            else (False, iA * iB))
         else (False, iA * iB))
      else (False, iA * iB))"

definition sqlite3MulInt64_gcc :: "int \<Rightarrow> int \<Rightarrow> bool \<times> int" where
  "sqlite3MulInt64_gcc iA iB = (\<not> is_i64 (iA * iB), wrap64 (iA * iB))"

definition sqlite3AbsInt32 :: "int \<Rightarrow> int" where
  "sqlite3AbsInt32 x =
     (if 0 \<le> x then x else if x = - 0x80000000 then 0x7fffffff else - x)"

text \<open>
  LogEst values (\<open>10 * log2\<close>, 16-bit signed). The table is the source's.
\<close>

definition logest_add_table :: "int list" where
  "logest_add_table =
     [10, 10, 9, 9, 8, 8, 7, 7, 7, 6, 6, 6, 5, 5, 5, 4, 4, 4, 4, 3, 3, 3, 3, 3, 3,
      2, 2, 2, 2, 2, 2, 2]"

definition sqlite3LogEstAdd :: "int \<Rightarrow> int \<Rightarrow> int" where
  "sqlite3LogEstAdd a b =
     (if a \<ge> b then
        (if a > b + 49 then a else if a > b + 31 then a + 1
         else a + logest_add_table ! nat (a - b))
      else
        (if b > a + 49 then b else if b > a + 31 then b + 1
         else b + logest_add_table ! nat (b - a)))"

text \<open>
  \<^verbatim>\<open>sqlite3LogEst\<close>, with the portable loops of its \<^verbatim>\<open>#else\<close> branch: scale a
  small argument up, a large one down by four bits and then by one.
\<close>

function logest_up :: "nat \<Rightarrow> int \<Rightarrow> nat \<times> int" where
  "logest_up x y = (if 0 < x \<and> x < 8 then logest_up (2 * x) (y - 10) else (x, y))"
  by pat_completeness auto
termination
  by (relation "measure (\<lambda>(x, y). 8 - x)") auto

function logest_down4 :: "nat \<Rightarrow> int \<Rightarrow> nat \<times> int" where
  "logest_down4 x y = (if x > 255 then logest_down4 (x div 16) (y + 40) else (x, y))"
  by pat_completeness auto
termination
  by (relation "measure fst") auto

function logest_down1 :: "nat \<Rightarrow> int \<Rightarrow> nat \<times> int" where
  "logest_down1 x y = (if x > 15 then logest_down1 (x div 2) (y + 10) else (x, y))"
  by pat_completeness auto
termination
  by (relation "measure fst") auto

definition logest_frac :: "int list" where
  "logest_frac = [0, 2, 3, 5, 6, 7, 8, 9]"

definition sqlite3LogEst :: "nat \<Rightarrow> int" where
  "sqlite3LogEst x =
     (if x < 2 then 0
      else (let (x', y) = (if x < 8 then logest_up x 40
                           else (let (x1, y1) = logest_down4 x 40 in logest_down1 x1 y1))
            in logest_frac ! (x' mod 8) + y - 10))"

definition sqlite3LogEstToInt :: "int \<Rightarrow> int" where
  "sqlite3LogEstToInt x =
     (let n = (x smod 10) mod 2 ^ 64; x = x sdiv 10;
          n = (if n \<ge> 5 then n - 2 else if n \<ge> 1 then n - 1 else n);
          m = (n + 8) mod 2 ^ 64
      in if x > 60 then LARGEST_INT64
         else if x \<ge> 3 then (m * 2 ^ nat (x - 3)) mod 2 ^ 64 else m div 2 ^ nat (3 - x))"

declare logest_up.simps [simp del] logest_down4.simps [simp del] logest_down1.simps [simp del]

section \<open>Checked arithmetic\<close>

lemma i64_bounds: "LARGEST_INT64 = 2 ^ 63 - 1" "SMALLEST_INT64 = - (2 ^ 63)"
  by (simp_all add: LARGEST_INT64_def SMALLEST_INT64_def)

lemma wrap64_id: "is_i64 x \<Longrightarrow> wrap64 x = x"
  by (simp add: is_i64_def wrap64_def)

lemma add_exact:
  "is_i64 a \<Longrightarrow> is_i64 b \<Longrightarrow>
   sqlite3AddInt64 a b = (if is_i64 (a + b) then (False, a + b) else (True, a))"
  by (auto simp: sqlite3AddInt64_def is_i64_def i64_bounds)

lemma sub_exact:
  "is_i64 a \<Longrightarrow> is_i64 b \<Longrightarrow>
   sqlite3SubInt64 a b = (if is_i64 (a - b) then (False, a - b) else (True, a))"
  by (auto simp: sqlite3SubInt64_def sqlite3AddInt64_def is_i64_def i64_bounds)

lemma sdiv_pos: "0 < b \<Longrightarrow> (a::int) sdiv b = (if 0 \<le> a then a div b else - ((- a) div b))"
  by (auto simp: signed_divide_int_def sgn_if)

lemma le_div_iff:
  assumes "0 < (b::int)"
  shows "a \<le> c div b \<longleftrightarrow> a * b \<le> c"
proof
  assume "a \<le> c div b"
  then have "a * b \<le> c div b * b"
    using assms by simp
  also have "\<dots> \<le> c"
    using assms pos_mod_sign[of b c] by (simp add: minus_mod_eq_div_mult [symmetric])
  finally show "a * b \<le> c" .
next
  assume "a * b \<le> c"
  then have "a * b div b \<le> c div b"
    using assms by (intro zdiv_mono1)
  then show "a \<le> c div b"
    using assms by simp
qed

lemma mul_exact:
  assumes "is_i64 a" "is_i64 b"
  shows "sqlite3MulInt64 a b = (if is_i64 (a * b) then (False, a * b) else (True, a))"
proof -
  let ?M = "2 ^ 63 :: int"
  consider (pos) "0 < b" | (zero) "b = 0 \<or> b < 0 \<and> a = 0" | (mixed) "b < 0" "0 < a" | (neg) "b < 0" "a < 0"
    by linarith
  then show ?thesis
  proof cases
    case pos
    have up: "\<not> a > LARGEST_INT64 sdiv b \<longleftrightarrow> a * b \<le> ?M - 1"
      using le_div_iff[OF pos, of a "?M - 1"] pos by (simp add: sdiv_pos i64_bounds not_less)
    have dn: "\<not> a < SMALLEST_INT64 sdiv b \<longleftrightarrow> - ?M \<le> a * b"
    proof -
      have "SMALLEST_INT64 sdiv b = - (?M div b)"
        using pos by (simp add: sdiv_pos i64_bounds)
      moreover have "- a \<le> ?M div b \<longleftrightarrow> - ?M \<le> a * b"
        using le_div_iff[OF pos, of "- a" ?M] by auto
      ultimately show ?thesis
        by linarith
    qed
    show ?thesis
      using pos up dn by (simp add: sqlite3MulInt64_def is_i64_def) linarith
  next
    case zero
    then show ?thesis
      by (elim disjE conjE) (simp_all add: sqlite3MulInt64_def is_i64_def)
  next
    case mixed
    have dn: "\<not> b < SMALLEST_INT64 sdiv a \<longleftrightarrow> - ?M \<le> a * b"
    proof -
      have "SMALLEST_INT64 sdiv a = - (?M div a)"
        using mixed by (simp add: sdiv_pos i64_bounds)
      moreover have "- b \<le> ?M div a \<longleftrightarrow> - ?M \<le> a * b"
        using le_div_iff[OF mixed(2), of "- b" ?M] by (auto simp: mult.commute)
      ultimately show ?thesis
        by linarith
    qed
    have "a * b < 0"
      using mixed by (simp add: mult_pos_neg)
    then show ?thesis
      using mixed dn by (auto simp: sqlite3MulInt64_def is_i64_def)
  next
    case neg
    then have "0 < a * b"
      by (simp add: mult_neg_neg)
    moreover have "\<not> - a > LARGEST_INT64 sdiv (- b) \<longleftrightarrow> a * b \<le> ?M - 1"
    proof -
      have "LARGEST_INT64 sdiv (- b) = (?M - 1) div (- b)"
        using neg by (simp only: sdiv_pos i64_bounds) simp
      then show ?thesis
        using le_div_iff[of "- b" "- a" "?M - 1"] neg by (simp only: not_less) simp
    qed
    moreover have "b = SMALLEST_INT64 \<or> a = SMALLEST_INT64 \<Longrightarrow> \<not> a * b \<le> ?M - 1"
    proof -
      assume "b = SMALLEST_INT64 \<or> a = SMALLEST_INT64"
      then have "?M \<le> a * b"
      proof
        assume "b = SMALLEST_INT64"
        moreover have "1 * ?M \<le> (- a) * ?M"
          using neg by (intro mult_right_mono) auto
        ultimately show ?thesis by (simp add: i64_bounds)
      next
        assume "a = SMALLEST_INT64"
        moreover have "1 * ?M \<le> (- b) * ?M"
          using neg by (intro mult_right_mono) auto
        ultimately show ?thesis by (simp add: i64_bounds mult.commute)
      qed
      then show ?thesis by simp
    qed
    ultimately show ?thesis
      using neg by (auto simp: sqlite3MulInt64_def is_i64_def)
  qed
qed

section \<open>Estimates\<close>

lemma logest_add_table_bound: "i < 32 \<Longrightarrow> 2 \<le> logest_add_table ! i \<and> logest_add_table ! i \<le> 10"
proof -
  have "\<forall>x\<in>set logest_add_table. 2 \<le> x \<and> x \<le> 10" "length logest_add_table = 32"
    by (simp_all add: logest_add_table_def)
  then show "i < 32 \<Longrightarrow> ?thesis" by simp
qed

lemma logest_add_ge:
  assumes "b \<le> a"
  shows "a \<le> sqlite3LogEstAdd a b \<and> sqlite3LogEstAdd a b \<le> a + 10"
proof (cases "a - b < 32")
  case True
  then show ?thesis
    using assms logest_add_table_bound[of "nat (a - b)"] by (simp add: sqlite3LogEstAdd_def nat_less_iff)
next
  case False
  then show ?thesis
    using assms by (simp add: sqlite3LogEstAdd_def)
qed

lemma logest_add_comm: "sqlite3LogEstAdd a b = sqlite3LogEstAdd b a"
  by (auto simp: sqlite3LogEstAdd_def)

section \<open>Properties\<close>

text \<open>
  The portable overflow checks of \<^verbatim>\<open>sqlite3AddInt64\<close>,
  \<^verbatim>\<open>sqlite3SubInt64\<close> and \<^verbatim>\<open>sqlite3MulInt64\<close> are exact: on 64-bit
  operands each stores the mathematical result and reports success when that result is a 64-bit
  integer, and otherwise reports an overflow and leaves its operand unchanged.
\<close>

theorem checked_arith_exact:
  assumes "is_i64 a" "is_i64 b"
  shows "sqlite3AddInt64 a b = (if is_i64 (a + b) then (False, a + b) else (True, a))
    \<and> sqlite3SubInt64 a b = (if is_i64 (a - b) then (False, a - b) else (True, a))
    \<and> sqlite3MulInt64 a b = (if is_i64 (a * b) then (False, a * b) else (True, a))"
  using assms by (simp add: add_exact sub_exact mul_exact)

theorem checked_arith_exact_witness:
  "is_i64 (2 ^ 62) \<and> sqlite3MulInt64 (2 ^ 62) (- 2) = (False, - (2 ^ 63))
    \<and> sqlite3MulInt64 (2 ^ 62) 2 = (True, 2 ^ 62)"
  using checked_arith_exact[of "2 ^ 62" 2] checked_arith_exact[of "2 ^ 62" "- 2"]
  by (simp add: is_i64_def)

text \<open>
  The compiler builtins used instead under GCC agree with the portable code on the return
  code and, on success, on the value; on an overflow they leave the wrapped sum in \<open>*pA\<close>, which
  differs from the unchanged value that the comment above the function promises.
\<close>

theorem builtin_add_agrees:
  assumes "is_i64 a" "is_i64 b"
  shows "fst (sqlite3AddInt64_gcc a b) = fst (sqlite3AddInt64 a b)
    \<and> (\<not> fst (sqlite3AddInt64 a b) \<longrightarrow> sqlite3AddInt64_gcc a b = sqlite3AddInt64 a b)
    \<and> (fst (sqlite3AddInt64 a b) \<longrightarrow> snd (sqlite3AddInt64_gcc a b) \<noteq> snd (sqlite3AddInt64 a b))"
proof -
  have w: "\<not> is_i64 (a + b) \<Longrightarrow> wrap64 (a + b) \<noteq> a"
  proof
    assume o: "\<not> is_i64 (a + b)" and e: "wrap64 (a + b) = a"
    then have "(a + b + 2 ^ 63) mod 2 ^ 64 = a + 2 ^ 63"
      by (simp add: wrap64_def)
    also have "\<dots> = (a + 2 ^ 63) mod 2 ^ 64"
      using assms by (simp add: is_i64_def)
    finally have "2 ^ 64 dvd b"
      by (simp add: mod_eq_dvd_iff algebra_simps)
    then have "b = 0"
      using assms zdvd_not_zless[of "\<bar>b\<bar>" "2 ^ 64"] by (auto simp: is_i64_def)
    then show False
      using o assms by simp
  qed
  show ?thesis
    using assms w by (simp add: add_exact sqlite3AddInt64_gcc_def wrap64_id)
qed

theorem builtin_add_agrees_witness:
  "fst (sqlite3AddInt64 (2 ^ 63 - 1) 1) \<and> snd (sqlite3AddInt64_gcc (2 ^ 63 - 1) 1) = - (2 ^ 63)
    \<and> snd (sqlite3AddInt64_gcc (2 ^ 63 - 1) 1) \<noteq> snd (sqlite3AddInt64 (2 ^ 63 - 1) 1)"
  using builtin_add_agrees[of "2 ^ 63 - 1" 1]
  by (simp add: is_i64_def sqlite3AddInt64_def sqlite3AddInt64_gcc_def wrap64_def i64_bounds)

end
