(* ===== verification/NumText.thy ===== *)
theory NumText
  imports CType IntArith
begin

text \<open>
  Conversions between numbers and text of \<^verbatim>\<open>util.c\<close>: \<^verbatim>\<open>sqlite3Int64ToText\<close>,
  \<^verbatim>\<open>sqlite3Atoi64\<close>, \<^verbatim>\<open>sqlite3DecOrHexToI64\<close>,
  \<^verbatim>\<open>sqlite3GetInt32\<close>, \<^verbatim>\<open>sqlite3GetUInt32\<close> and the hexadecimal helpers.
  Signed 64-bit values are integers, the unsigned accumulators are 64-bit words.
\<close>

section \<open>Definitions\<close>

text \<open>The digit loop of \<^verbatim>\<open>sqlite3Int64ToText\<close>: \<open>zTemp\<close> is filled from the right.\<close>

function int64_digits :: "nat \<Rightarrow> bytes \<Rightarrow> bytes" where
  "int64_digits x zTemp =
     (let zTemp = word_of_nat (x mod 10 + 48) # zTemp; x' = x div 10
      in if x' = 0 then zTemp else int64_digits x' zTemp)"
  by pat_completeness auto
termination
  by (relation "measure fst") (auto intro: div_less_dividend)

definition sqlite3Int64ToText :: "int \<Rightarrow> bytes" where
  "sqlite3Int64ToText v =
     (let x = (if v < 0 then (if v = SMALLEST_INT64 then 2 ^ 63 else nat (- v)) else nat v);
          zTemp = int64_digits x []
      in if v < 0 then 0x2d # zTemp else zTemp)"

text \<open>
  \<^verbatim>\<open>sqlite3Atoi64\<close>. The remaining text \<open>[zNum, zEnd)\<close> is a list, so \<open>zNum < zEnd\<close>
  is non-emptiness and \<open>zNum += incr\<close> drops \<open>incr\<close> bytes (1 in UTF-8, 2 in UTF-16).
\<close>

datatype encoding = SQLITE_UTF8 | SQLITE_UTF16LE | SQLITE_UTF16BE

fun skip_while :: "(u8 \<Rightarrow> bool) \<Rightarrow> nat \<Rightarrow> bytes \<Rightarrow> bytes" where
  "skip_while P incr [] = []"
| "skip_while P incr (c # z) =
     (if P c then skip_while P incr (drop (incr - 1) z) else c # z)"

fun atoi64_digits :: "nat \<Rightarrow> bytes \<Rightarrow> u64 \<Rightarrow> nat \<Rightarrow> u64 \<times> nat \<times> bytes" where
  "atoi64_digits incr [] u i = (u, i, [])"
| "atoi64_digits incr (c # z) u i =
     (if 0x30 \<le> c \<and> c \<le> 0x39
      then atoi64_digits incr (drop (incr - 1) z) (u * 10 + ucast c - 0x30) (i + incr)
      else (u, i, c # z))"

definition pow63_text :: bytes where
  "pow63_text = [0x39, 0x32, 0x32, 0x33, 0x33, 0x37, 0x32, 0x30, 0x33, 0x36, 0x38, 0x35, 0x34,
     0x37, 0x37, 0x35, 0x38, 0x30]"

fun compare2pow63_loop :: "bytes \<Rightarrow> nat \<Rightarrow> nat \<Rightarrow> bytes \<Rightarrow> int" where
  "compare2pow63_loop zNum incr i [] = 0"
| "compare2pow63_loop zNum incr i (p # ps) =
     (let c = (uint (zat zNum (i * incr)) - uint p) * 10
      in if c \<noteq> 0 then c else compare2pow63_loop zNum incr (i + 1) ps)"

definition compare2pow63 :: "bytes \<Rightarrow> nat \<Rightarrow> int" where
  "compare2pow63 zNum incr =
     (let c = compare2pow63_loop zNum incr 0 pow63_text
      in if c = 0 then uint (zat zNum (18 * incr)) - 0x38 else c)"

text \<open>
  The UTF-16 prologue: the first index \<open>i = 3 - enc, 5 - enc, ...\<close> below \<open>length\<close> whose byte
  (the high byte of a unit) is not zero.
\<close>

function utf16_scan :: "bytes \<Rightarrow> nat \<Rightarrow> nat \<Rightarrow> nat" where
  "utf16_scan z n i = (if i < n \<and> zat z i = 0 then utf16_scan z n (i + 2) else i)"
  by pat_completeness auto
termination
  by (relation "measure (\<lambda>(z, n, i). n - i)") auto

definition flip_low_bit :: "nat \<Rightarrow> nat" where
  "flip_low_bit i = (if even i then i + 1 else i - 1)"

definition atoi64_window :: "bytes \<Rightarrow> nat \<Rightarrow> encoding \<Rightarrow> nat \<times> bool \<times> bytes" where
  "atoi64_window zNum len enc =
     (case enc of
        SQLITE_UTF8 \<Rightarrow> (1, False, take len zNum)
      | SQLITE_UTF16LE \<Rightarrow>
          (let n = len - len mod 2; i = utf16_scan zNum n 1
           in (2, i < n, take (flip_low_bit i) zNum))
      | SQLITE_UTF16BE \<Rightarrow>
          (let n = len - len mod 2; i = utf16_scan zNum n 0
           in (2, i < n, drop 1 (take (flip_low_bit i) zNum))))"

text \<open>The return code and \<open>*pNum\<close>.\<close>

definition sqlite3Atoi64 :: "bytes \<Rightarrow> nat \<Rightarrow> encoding \<Rightarrow> int \<times> int" where
  "sqlite3Atoi64 zNum len enc =
     (let (incr, nonNum, z) = atoi64_window zNum len enc;
          z = skip_while sqlite3Isspace incr z;
          neg = (z \<noteq> [] \<and> hd z = 0x2d);
          z = (if z \<noteq> [] \<and> (hd z = 0x2d \<or> hd z = 0x2b) then drop incr z else z);
          zStart = z;
          z = skip_while (\<lambda>c. c = 0x30) incr z;
          (u, i, rest) = atoi64_digits incr z 0 0;
          pNum = (if unat u > 2 ^ 63 - 1 then (if neg then SMALLEST_INT64 else LARGEST_INT64)
                  else if neg then - int (unat u) else int (unat u));
          rc = (if i = 0 \<and> zStart = z then - 1
                else if nonNum then 1
                else if rest \<noteq> [] \<and> skip_while sqlite3Isspace incr rest \<noteq> [] then 1
                else 0)
      in if i < 19 * incr then (rc, pNum)
         else (let c = (if i > 19 * incr then 1 else compare2pow63 z incr)
               in if c < 0 then (rc, pNum)
                  else (if c > 0 then 2 else if neg then rc else 3,
                        if neg then SMALLEST_INT64 else LARGEST_INT64)))"

definition sqlite3HexToInt :: "u8 \<Rightarrow> u8" where
  "sqlite3HexToInt h = (h + 9 * (1 AND drop_bit 6 h)) AND 0xf"

fun hexToI64_digits :: "bytes \<Rightarrow> u64 \<Rightarrow> nat \<Rightarrow> u64 \<times> nat \<times> bytes" where
  "hexToI64_digits [] u n = (u, n, [])"
| "hexToI64_digits (c # z) u n =
     (if sqlite3Isxdigit c then hexToI64_digits z (u * 16 + ucast (sqlite3HexToInt c)) (n + 1)
      else (u, n, c # z))"

definition strspn_num :: "u8 \<Rightarrow> bool" where
  "strspn_num c \<longleftrightarrow> c \<in> {0x2b, 0x2d, 0x20, 0x0a, 0x09} \<or> 0x30 \<le> c \<and> c \<le> 0x39"

definition sqlite3DecOrHexToI64 :: "bytes \<Rightarrow> int \<times> int" where
  "sqlite3DecOrHexToI64 z =
     (if zat z 0 = 0x30 \<and> (zat z 1 = 0x78 \<or> zat z 1 = 0x58) then
        (let (u, n, rest) = hexToI64_digits (dropWhile (\<lambda>c. c = 0x30) (drop 2 z)) 0 0
         in (if n > 16 then 2 else if zat rest 0 \<noteq> 0 then 1 else 0, sint u))
      else
        (let n = length (takeWhile strspn_num z) mod 2 ^ 30;
             n = (if zat z n \<noteq> 0 then n + 1 else n)
         in sqlite3Atoi64 z n SQLITE_UTF8))"

text \<open>\<^verbatim>\<open>sqlite3GetInt32\<close>: \<^term>\<open>None\<close> is the return value 0.\<close>

fun getInt32_hex :: "bytes \<Rightarrow> nat \<Rightarrow> u32 \<Rightarrow> u32 \<times> bytes" where
  "getInt32_hex z 0 u = (u, z)"
| "getInt32_hex [] (Suc n) u = (u, [])"
| "getInt32_hex (c # z) (Suc n) u =
     (if sqlite3Isxdigit c then getInt32_hex z n (u * 16 + ucast (sqlite3HexToInt c))
      else (u, c # z))"

fun getInt32_dec :: "bytes \<Rightarrow> nat \<Rightarrow> int \<Rightarrow> nat \<Rightarrow> int \<times> nat" where
  "getInt32_dec z 0 v i = (v, i)"
| "getInt32_dec [] (Suc n) v i = (v, i)"
| "getInt32_dec (c # z) (Suc n) v i =
     (if 0x30 \<le> c \<and> c \<le> 0x39 then getInt32_dec z n (v * 10 + (uint c - 0x30)) (i + 1)
      else (v, i))"

definition sqlite3GetInt32 :: "bytes \<Rightarrow> int option" where
  "sqlite3GetInt32 zNum =
     (let neg = (zat zNum 0 = 0x2d)
      in if \<not> neg \<and> zat zNum 0 \<noteq> 0x2b
            \<and> zat zNum 0 = 0x30 \<and> (zat zNum 1 = 0x78 \<or> zat zNum 1 = 0x58)
            \<and> sqlite3Isxdigit (zat zNum 2)
         then (let (u, rest) = getInt32_hex (dropWhile (\<lambda>c. c = 0x30) (drop 2 zNum)) 8 0
               in if u AND 0x80000000 = 0 \<and> \<not> sqlite3Isxdigit (zat rest 0)
                  then Some (sint u) else None)
         else (let z = (if neg \<or> zat zNum 0 = 0x2b then drop 1 zNum else zNum)
               in if \<not> sqlite3Isdigit (zat z 0) then None
                  else (let (v, i) = getInt32_dec (dropWhile (\<lambda>c. c = 0x30) z) 11 0 0
                        in if i > 10 then None
                           else if v - (if neg then 1 else 0) > 2147483647 then None
                           else Some (if neg then - v else v))))"

definition sqlite3Atoi :: "bytes \<Rightarrow> int" where
  "sqlite3Atoi z = (case sqlite3GetInt32 z of Some x \<Rightarrow> x | None \<Rightarrow> 0)"

text \<open>\<^verbatim>\<open>sqlite3GetUInt32\<close>: the return code and \<open>*pI\<close>.\<close>

fun getUInt32_loop :: "bytes \<Rightarrow> nat \<Rightarrow> nat \<Rightarrow> (nat \<times> nat \<times> bytes) option" where
  "getUInt32_loop [] v i = Some (v, i, [])"
| "getUInt32_loop (c # z) v i =
     (if sqlite3Isdigit c
      then (let v = v * 10 + (unat c - 48)
            in if v > 4294967296 then None else getUInt32_loop z v (i + 1))
      else Some (v, i, c # z))"

definition sqlite3GetUInt32 :: "bytes \<Rightarrow> bool \<times> u32" where
  "sqlite3GetUInt32 z =
     (case getUInt32_loop z 0 0 of
        None \<Rightarrow> (False, 0)
      | Some (v, i, rest) \<Rightarrow>
          (if i = 0 \<or> zat rest 0 \<noteq> 0 then (False, 0) else (True, word_of_nat v)))"

text \<open>
  \<^verbatim>\<open>sqlite3HexToBlob\<close> on the \<open>n\<close> bytes after the opening quote of a blob literal (the
  last of them is the closing quote); the allocation may fail.
\<close>

definition sqlite3HexToBlob :: "bool \<Rightarrow> bytes \<Rightarrow> nat \<Rightarrow> bytes option" where
  "sqlite3HexToBlob malloc_ok z n =
     (if malloc_ok
      then Some (map (\<lambda>j. push_bit 4 (sqlite3HexToInt (zat z (2 * j)))
                          OR sqlite3HexToInt (zat z (2 * j + 1))) [0..<n div 2] @ [0])
      else None)"

declare int64_digits.simps [simp del] utf16_scan.simps [simp del]


section \<open>Decimal values\<close>

definition is_dig :: "u8 \<Rightarrow> bool" where
  "is_dig c \<longleftrightarrow> 0x30 \<le> c \<and> c \<le> 0x39"

definition dig :: "u8 \<Rightarrow> nat" where
  "dig c = unat c - 48"

fun dec_val :: "bytes \<Rightarrow> nat" where
  "dec_val [] = 0"
| "dec_val (c # z) = dig c * 10 ^ length z + dec_val z"

lemma is_dig_nat: "is_dig c \<longleftrightarrow> 48 \<le> unat c \<and> unat c \<le> 57"
  by (simp add: is_dig_def word_le_nat_alt)

lemma dig_le: "is_dig c \<Longrightarrow> dig c \<le> 9"
  unfolding is_dig_nat dig_def by linarith

lemma dec_val_less: "\<forall>c\<in>set z. is_dig c \<Longrightarrow> dec_val z < 10 ^ length z"
proof (induction z)
  case (Cons c z)
  then have "dig c * 10 ^ length z \<le> 9 * 10 ^ length z"
    by (intro mult_right_mono) (auto simp: dig_le)
  moreover have "dec_val z < 10 ^ length z"
    using Cons by simp
  ultimately have "dig c * 10 ^ length z + dec_val z < 9 * 10 ^ length z + 10 ^ length z"
    by (rule add_le_less_mono)
  then show ?case
    by simp
qed simp

lemma dec_val_append: "dec_val (a @ b) = dec_val a * 10 ^ length b + dec_val b"
  by (induction a) (auto simp: algebra_simps power_add)

lemma word_of_nat_unat_u64: "word_of_nat (unat (w :: u64)) = w"
  by simp

lemma unat_word_of_nat_u64: "unat (word_of_nat n :: u64) = n mod 2 ^ 64"
  by (simp add: unat_of_nat)

lemma unat_digit_step:
  assumes "is_dig c"
  shows "unat (u * 10 + ucast c - 0x30 :: u64) = (unat u * 10 + dig c) mod 2 ^ 64"
proof -
  have "unat (ucast c :: u64) = unat c"
    by (simp add: unsigned_ucast_eq take_bit_nat_eq_self unat_u8_less [THEN order_less_trans])
  then have "word_of_nat (unat c) = (ucast c :: u64)"
    by (metis word_of_nat_unat_u64)
  then have "ucast c - 0x30 = (word_of_nat (dig c) :: u64)"
    using assms by (simp add: dig_def is_dig_nat of_nat_diff)
  moreover have "u * 10 + ucast c - 0x30 = u * 10 + (ucast c - 0x30)"
    by (rule add_diff_eq [symmetric])
  moreover have "u * 10 + word_of_nat (dig c) = (word_of_nat (unat u * 10 + dig c) :: u64)"
    by simp
  ultimately have "u * 10 + ucast c - 0x30 = word_of_nat (unat u * 10 + dig c)"
    by metis
  then show ?thesis
    by (simp only: unat_word_of_nat_u64)
qed

lemma skip_while_1: "skip_while P 1 z = dropWhile P z"
  by (induction z) auto

lemma atoi64_digits_1:
  "unat u = m mod 2 ^ 64 \<Longrightarrow>
   \<exists>w. atoi64_digits 1 z u i = (w, i + length (takeWhile is_dig z), dropWhile is_dig z)
     \<and> unat w = (m * 10 ^ length (takeWhile is_dig z) + dec_val (takeWhile is_dig z)) mod 2 ^ 64"
proof (induction z arbitrary: u i m)
  case (Cons c z)
  show ?case
  proof (cases "is_dig c")
    case True
    have "unat (u * 10 + ucast c - 0x30) = (m * 10 + dig c) mod 2 ^ 64"
      unfolding unat_digit_step [OF True] Cons.prems by (metis mod_add_left_eq mod_mult_left_eq)
    from Cons.IH [OF this, of "i + 1"] True show ?thesis
      by (auto simp: is_dig_def algebra_simps)
  next
    case False
    with Cons.prems show ?thesis
      by (auto simp: is_dig_def)
  qed
qed simp

section \<open>Comparison against two to the 63\<close>

fun digit_cmp :: "bytes \<Rightarrow> bytes \<Rightarrow> int" where
  "digit_cmp (c # z) (p # ps) =
     (if uint c \<noteq> uint p then (uint c - uint p) * 10 else digit_cmp z ps)"
| "digit_cmp z ps = 0"

lemma compare_loop_digit_cmp:
  "i + length ps \<le> length z \<Longrightarrow> compare2pow63_loop z 1 i ps = digit_cmp (drop i z) ps"
proof (induction ps arbitrary: i)
  case (Cons p ps)
  then have "drop i z = z ! i # drop (Suc i) z" "i < length z"
    by (simp_all add: Cons_nth_drop_Suc)
  with Cons show ?case
    by (simp add: Let_def zat_def)
qed simp

lemma digit_cmp_dec_val:
  assumes "length a = length b" "\<forall>c\<in>set a. is_dig c" "\<forall>c\<in>set b. is_dig c"
  shows "(digit_cmp a b = 0 \<longleftrightarrow> dec_val a = dec_val b) \<and> (digit_cmp a b < 0 \<longleftrightarrow> dec_val a < dec_val b)"
  using assms
proof (induction a b rule: list_induct2)
  case (Cons x a y b)
  have small: "dec_val a < 10 ^ length a" "dec_val b < 10 ^ length a"
    using Cons dec_val_less [of a] dec_val_less [of b] by simp_all
  have d: "uint x - 48 = int (dig x)" "uint y - 48 = int (dig y)"
    using Cons.prems by (simp_all add: dig_def is_dig_nat of_nat_diff)
  have lt: "dig x < dig y \<Longrightarrow> dec_val (x # a) < dec_val (y # b)"
    "dig y < dig x \<Longrightarrow> dec_val (y # b) < dec_val (x # a)"
  proof -
    assume "dig x < dig y"
    then have "(dig x + 1) * 10 ^ length a \<le> dig y * 10 ^ length a"
      by (intro mult_right_mono) auto
    then show "dec_val (x # a) < dec_val (y # b)"
      using small Cons.hyps by (simp add: algebra_simps)
  next
    assume "dig y < dig x"
    then have "(dig y + 1) * 10 ^ length a \<le> dig x * 10 ^ length a"
      by (intro mult_right_mono) auto
    then show "dec_val (y # b) < dec_val (x # a)"
      using small Cons.hyps by (simp add: algebra_simps)
  qed
  show ?case
  proof (cases "dig x = dig y")
    case True
    then have "uint x = uint y"
      using d by linarith
    then show ?thesis
      using Cons True by simp
  next
    case False
    then consider "dig x < dig y" | "dig y < dig x"
      by linarith
    then show ?thesis
    proof cases
      case 1
      then show ?thesis using lt(1) d by simp
    next
      case 2
      then show ?thesis using lt(2) d by simp
    qed
  qed
qed simp

lemma pow63_text_props:
  "length pow63_text = 18" "\<forall>c\<in>set pow63_text. is_dig c"
  "dec_val pow63_text = 922337203685477580"
  by (simp_all add: pow63_text_def is_dig_def dig_def)

lemma compare2pow63_sign:
  assumes "length (takeWhile is_dig z) = 19"
  shows "(compare2pow63 z 1 < 0 \<longleftrightarrow> dec_val (takeWhile is_dig z) < 2 ^ 63)
    \<and> (compare2pow63 z 1 = 0 \<longleftrightarrow> dec_val (takeWhile is_dig z) = 2 ^ 63)"
proof -
  define ds where "ds = takeWhile is_dig z"
  have z: "z = ds @ dropWhile is_dig z"
    by (simp add: ds_def)
  have len: "length ds = 19" and digs: "\<forall>c\<in>set ds. is_dig c"
    using assms by (auto simp: ds_def dest: set_takeWhileD)
  define a where "a = take 18 ds"
  define c where "c = ds ! 18"
  have ds: "ds = a @ [c]"
    using len take_Suc_conv_app_nth [of 18 ds] by (simp add: a_def c_def)
  have a: "length a = 18" "\<forall>c\<in>set a. is_dig c" "is_dig c"
  proof -
    show "length a = 18"
      using len by (simp add: a_def)
    show "\<forall>c\<in>set a. is_dig c" "is_dig c"
      using digs unfolding ds by auto
  qed
  have app: "digit_cmp (a @ y) pow63_text = digit_cmp a pow63_text" for y
  proof -
    have "digit_cmp (xs @ y) ps = digit_cmp xs ps" if "length xs = length ps" for xs ps
      using that by (induction xs ps rule: list_induct2) auto
    then show ?thesis
      using a by (simp add: pow63_text_props)
  qed
  obtain r where zr: "z = a @ c # r"
    using z ds by (metis append_assoc append_Cons append_Nil)
  have "compare2pow63_loop z 1 0 pow63_text = digit_cmp a pow63_text"
    using compare_loop_digit_cmp [of 0 pow63_text z] app [of "c # r"] a
    by (simp add: zr pow63_text_props)
  moreover have "zat z 18 = c"
    using a by (simp add: zr zat_def nth_append)
  ultimately have cmp: "compare2pow63 z 1 =
      (if digit_cmp a pow63_text = 0 then uint c - 0x38 else digit_cmp a pow63_text)"
    by (simp add: compare2pow63_def)
  have val: "dec_val ds = dec_val a * 10 + dig c"
    by (simp add: ds dec_val_append)
  have dc: "uint c - 48 = int (dig c)" "dig c \<le> 9"
    using a dig_le [of c] by (simp_all add: dig_def is_dig_nat of_nat_diff)
  note k = digit_cmp_dec_val [of a pow63_text] a pow63_text_props
  show ?thesis
    unfolding ds_def [symmetric] cmp val
  proof (cases "digit_cmp a pow63_text = 0")
    case True
    then have "dec_val a = 922337203685477580"
      using k by simp
    then show "((if digit_cmp a pow63_text = 0 then uint c - 56 else digit_cmp a pow63_text) < 0
        \<longleftrightarrow> dec_val a * 10 + dig c < 2 ^ 63)
      \<and> ((if digit_cmp a pow63_text = 0 then uint c - 56 else digit_cmp a pow63_text) = 0
        \<longleftrightarrow> dec_val a * 10 + dig c = 2 ^ 63)"
      using True dc by simp linarith
  next
    case False
    then have "dec_val a < 922337203685477580 \<and> digit_cmp a pow63_text < 0
        \<or> 922337203685477580 < dec_val a \<and> 0 < digit_cmp a pow63_text"
      using k by simp linarith
    then show "((if digit_cmp a pow63_text = 0 then uint c - 56 else digit_cmp a pow63_text) < 0
        \<longleftrightarrow> dec_val a * 10 + dig c < 2 ^ 63)
      \<and> ((if digit_cmp a pow63_text = 0 then uint c - 56 else digit_cmp a pow63_text) = 0
        \<longleftrightarrow> dec_val a * 10 + dig c = 2 ^ 63)"
      using False dc by auto
  qed
qed

section \<open>What sqlite3Atoi64 computes\<close>

definition atoi64_spec :: "bytes \<Rightarrow> int \<times> int" where
  "atoi64_spec z =
     (let z = dropWhile sqlite3Isspace z;
          neg = (z \<noteq> [] \<and> hd z = 0x2d);
          z = (if z \<noteq> [] \<and> (hd z = 0x2d \<or> hd z = 0x2b) then tl z else z);
          ds = takeWhile is_dig z; N = dec_val ds;
          rc = (if ds = [] then - 1 else if list_all sqlite3Isspace (dropWhile is_dig z) then 0 else 1)
      in if N < 2 ^ 63 then (rc, if neg then - int N else int N)
         else if N = 2 ^ 63 then (if neg then (rc, - (2 ^ 63)) else (3, 2 ^ 63 - 1))
         else (2, if neg then - (2 ^ 63) else 2 ^ 63 - 1))"

lemma dec_val_zeros:
  "dec_val (takeWhile is_dig (dropWhile (\<lambda>c. c = 0x30) z)) = dec_val (takeWhile is_dig z)"
  by (induction z) (auto simp: is_dig_def dig_def)

lemma dropWhile_zeros:
  "dropWhile is_dig (dropWhile (\<lambda>c. c = 0x30) z) = dropWhile is_dig z"
  by (induction z) (auto simp: is_dig_def)

lemma dropWhile_neq_Cons: "dropWhile P z \<noteq> c # z"
  using length_dropWhile_le [of P z] by (metis impossible_Cons)

lemma no_digits_iff:
  "takeWhile is_dig (dropWhile (\<lambda>c. c = 0x30) z) = [] \<and> z = dropWhile (\<lambda>c. c = 0x30) z
   \<longleftrightarrow> takeWhile is_dig z = []"
  using dropWhile_neq_Cons [of "\<lambda>c. c = 0x30" "tl z" "0x30"]
  by (cases z) (auto simp: is_dig_def)

lemma dec_val_ge:
  assumes "\<forall>c\<in>set (x # z). is_dig c" "x \<noteq> 0x30"
  shows "10 ^ length z \<le> dec_val (x # z)"
proof -
  have "unat x \<noteq> unat (0x30 :: u8)"
    using assms(2) by (simp add: word_unat_eq_iff)
  moreover have "48 \<le> unat x"
    using assms(1) by (simp add: is_dig_nat)
  ultimately have "1 \<le> dig x"
    by (simp add: dig_def)
  then have "1 * 10 ^ length z \<le> dig x * 10 ^ length z"
    by (rule mult_right_mono) simp
  then have "10 ^ length z \<le> dig x * 10 ^ length z"
    by (simp only: mult_1)
  then show ?thesis
    by (simp only: dec_val.simps trans_le_add1)
qed

text \<open>The number of digits after the leading zeros locates the value against \<open>2^63\<close>.\<close>

lemma digits_magnitude:
  fixes z :: bytes
  defines "w \<equiv> takeWhile is_dig (dropWhile (\<lambda>c. c = 0x30) z)"
  shows "length w < 19 \<Longrightarrow> dec_val w < 2 ^ 63"
    and "length w = 19 \<Longrightarrow> dec_val w < 2 ^ 64"
    and "length w > 19 \<Longrightarrow> 2 ^ 63 < dec_val w"
proof -
  have digs: "\<forall>c\<in>set w. is_dig c"
    by (auto simp: w_def dest: set_takeWhileD)
  note b = dec_val_less [OF digs]
  show "dec_val w < 2 ^ 63" if "length w < 19"
  proof -
    have "(10::nat) ^ length w \<le> 10 ^ 18"
      using that by (intro power_increasing) auto
    with b show ?thesis by simp
  qed
  show "dec_val w < 2 ^ 64" if "length w = 19"
    using b that by simp
  show "2 ^ 63 < dec_val w" if long: "length w > 19"
  proof -
    obtain x v where xv: "w = x # v"
      using long by (cases w) auto
    have "x \<noteq> 0x30"
      using xv hd_dropWhile [of "\<lambda>c. c = 0x30" z] unfolding w_def
      by (cases "dropWhile (\<lambda>c. c = 0x30) z") (auto split: if_splits)
    then have "10 ^ length v \<le> dec_val w"
      using dec_val_ge [of x v] digs xv by simp
    moreover have "(10::nat) ^ 19 \<le> 10 ^ length v"
      using long xv by (intro power_increasing) auto
    ultimately show ?thesis by simp
  qed
qed

lemma sqlite3Atoi64_utf8: "sqlite3Atoi64 z n SQLITE_UTF8 = atoi64_spec (take n z)"
proof -
  define z1 where "z1 = dropWhile sqlite3Isspace (take n z)"
  define neg where "neg = (z1 \<noteq> [] \<and> hd z1 = 0x2d)"
  define z2 where "z2 = (if z1 \<noteq> [] \<and> (hd z1 = 0x2d \<or> hd z1 = 0x2b) then drop 1 z1 else z1)"
  define z3 where "z3 = dropWhile (\<lambda>c. c = 0x30) z2"
  define w where "w = takeWhile is_dig z3"
  obtain u where u: "atoi64_digits 1 z3 0 0 = (u, length w, dropWhile is_dig z3)"
    "unat u = dec_val w mod 2 ^ 64"
    using atoi64_digits_1 [of 0 0 z3 0] by (auto simp: w_def)
  have rest: "dropWhile is_dig z3 = dropWhile is_dig z2" and val: "dec_val w = dec_val (takeWhile is_dig z2)"
    by (simp_all add: z3_def w_def dropWhile_zeros dec_val_zeros)
  have none: "length w = 0 \<and> z2 = z3 \<longleftrightarrow> takeWhile is_dig z2 = []"
    using no_digits_iff [of z2] by (simp add: w_def z3_def)
  have sp: "r \<noteq> [] \<and> dropWhile sqlite3Isspace r \<noteq> [] \<longleftrightarrow> \<not> list_all sqlite3Isspace r" for r
    by (auto simp: list_all_iff)
  note mag = digits_magnitude [of z2, folded z3_def, folded w_def]
  note cmp = compare2pow63_sign [of z3, folded w_def]
  have tl: "drop 1 z1 = tl z1"
    by (simp add: drop_Suc)
  note unf = sqlite3Atoi64_def atoi64_window_def atoi64_spec_def Let_def skip_while_1
    encoding.case prod.case z1_def [symmetric] neg_def [symmetric] tl [symmetric]
    z2_def [symmetric] z3_def [symmetric] u(1)
  have "length w < 19 \<and> dec_val w < 2 ^ 63
    \<or> length w = 19 \<and> dec_val w < 2 ^ 63 \<and> compare2pow63 z3 1 < 0
    \<or> length w = 19 \<and> dec_val w = 2 ^ 63 \<and> compare2pow63 z3 1 = 0
    \<or> length w = 19 \<and> 2 ^ 63 < dec_val w \<and> 0 < compare2pow63 z3 1
    \<or> 19 < length w \<and> 2 ^ 63 < dec_val w"
    using mag cmp by (metis linorder_less_linear)
  then consider (small) "length w < 19" "dec_val w < 2 ^ 63"
    | (lt) "length w = 19" "dec_val w < 2 ^ 63" "compare2pow63 z3 1 < 0"
    | (eq) "length w = 19" "dec_val w = 2 ^ 63" "compare2pow63 z3 1 = 0"
    | (gt) "length w = 19" "2 ^ 63 < dec_val w" "0 < compare2pow63 z3 1"
    | (big) "19 < length w" "2 ^ 63 < dec_val w"
    by blast
  then show ?thesis
  proof cases
    case small
    then have uN: "unat u = dec_val w"
      using u(2) by simp
    show ?thesis
      unfolding unf uN none rest val [symmetric] sp using small by simp
  next
    case lt
    then have uN: "unat u = dec_val w"
      using u(2) by simp
    show ?thesis
      unfolding unf uN none rest val [symmetric] sp using lt by simp
  next
    case eq
    then show ?thesis
      unfolding unf none rest val [symmetric] sp i64_bounds by simp
  next
    case gt
    then show ?thesis
      unfolding unf none rest val [symmetric] sp i64_bounds by simp
  next
    case big
    then show ?thesis
      unfolding unf none rest val [symmetric] sp i64_bounds by simp
  qed
qed

section \<open>Rendering and reading back\<close>

lemma is_dig_of_nat: "d < 10 \<Longrightarrow> is_dig (word_of_nat (d + 48)) \<and> dig (word_of_nat (d + 48)) = d"
proof -
  assume d: "d < 10"
  have "unat (word_of_nat m :: u8) = m mod 256" for m
    by (simp add: unat_of_nat)
  from this [of "d + 48"] d have "unat (word_of_nat (d + 48) :: u8) = d + 48"
    by (simp only: mod_less)
  then show ?thesis
    unfolding is_dig_nat dig_def using d by linarith
qed

lemma int64_digits_spec:
  "\<exists>ds. int64_digits x acc = ds @ acc \<and> ds \<noteq> [] \<and> (\<forall>c\<in>set ds. is_dig c) \<and> dec_val ds = x
     \<and> (\<forall>n. x < 10 ^ n \<longrightarrow> 0 < n \<longrightarrow> length ds \<le> n)"
proof (induction x acc rule: int64_digits.induct)
  case (1 x acc)
  let ?c = "word_of_nat (x mod 10 + 48) :: u8"
  have c: "is_dig ?c" "dig ?c = x mod 10"
    using is_dig_of_nat [of "x mod 10"] by simp_all
  show ?case
  proof (cases "x div 10 = 0")
    case True
    then have "x < 10" by (simp add: div_eq_0_iff)
    with True c have "int64_digits x acc = [?c] @ acc \<and> (\<forall>c\<in>set [?c]. is_dig c) \<and> dec_val [?c] = x"
      by (subst int64_digits.simps) (simp add: Let_def)
    then show ?thesis
      by (metis One_nat_def Suc_leI length_Cons list.size(3) not_Cons_self2)
  next
    case False
    from "1.IH" [OF refl refl False] obtain ds where ds:
      "int64_digits (x div 10) (?c # acc) = ds @ ?c # acc" "ds \<noteq> []" "\<forall>c\<in>set ds. is_dig c"
      "dec_val ds = x div 10" "\<And>n. x div 10 < 10 ^ n \<Longrightarrow> 0 < n \<Longrightarrow> length ds \<le> n"
      by auto
    have len: "length ds + 1 \<le> n" if x: "x < 10 ^ n" "0 < n" for n
    proof -
      obtain m where m: "n = Suc m"
        using x by (cases n) auto
      have "x div 10 < 10 ^ m"
        using x m by (simp add: less_mult_imp_div_less mult.commute)
      moreover have "0 < m"
        using \<open>x div 10 < 10 ^ m\<close> False by (cases m) auto
      ultimately show ?thesis
        using ds(5) m by simp
    qed
    have "int64_digits x acc = (ds @ [?c]) @ acc"
      using False ds(1) by (subst int64_digits.simps) (simp add: Let_def)
    moreover have "dec_val (ds @ [?c]) = x"
      using ds(4) c by (simp add: dec_val_append)
    ultimately show ?thesis
      using ds(2,3) c(1) len by (intro exI [of _ "ds @ [?c]"]) auto
  qed
qed

lemma Int64ToText_shape:
  assumes "is_i64 v"
  obtains ds where "sqlite3Int64ToText v = (if v < 0 then 0x2d # ds else ds)" "ds \<noteq> []"
    "\<forall>c\<in>set ds. is_dig c" "dec_val ds = nat \<bar>v\<bar>" "length ds \<le> 19"
proof -
  let ?x = "if v < 0 then (if v = SMALLEST_INT64 then 2 ^ 63 else nat (- v)) else nat v"
  have x: "?x = nat \<bar>v\<bar>"
    by (auto simp: i64_bounds)
  have "nat \<bar>v\<bar> < 10 ^ 19"
    using assms by (auto simp: is_i64_def)
  then show ?thesis
    using int64_digits_spec [of "nat \<bar>v\<bar>" "[]"] that
    unfolding sqlite3Int64ToText_def Let_def x by fastforce
qed

lemma dig_not_special:
  assumes "is_dig c"
  shows "c \<noteq> 0x2d" "c \<noteq> 0x2b" "\<not> sqlite3Isspace c" "c \<noteq> 0" "sqlite3Isdigit c"
  using assms by (auto simp: is_dig_nat Isspace_iff Isdigit_iff)

lemma digits_hd: "ds \<noteq> [] \<Longrightarrow> \<forall>c\<in>set ds. is_dig c \<Longrightarrow> is_dig (hd ds)"
  by (cases ds) auto

lemma atoi64_spec_text:
  assumes "is_i64 v"
  shows "atoi64_spec (sqlite3Int64ToText v) = (0, v)"
proof -
  obtain ds where ds: "sqlite3Int64ToText v = (if v < 0 then 0x2d # ds else ds)" "ds \<noteq> []"
    "\<forall>c\<in>set ds. is_dig c" "dec_val ds = nat \<bar>v\<bar>" "length ds \<le> 19"
    by (rule Int64ToText_shape [OF assms])
  have tw: "takeWhile is_dig ds = ds" "dropWhile is_dig ds = []"
    using ds(3) by (simp_all add: takeWhile_eq_all_conv dropWhile_eq_Nil_conv)
  note h = dig_not_special [OF digits_hd [OF ds(2,3)]]
  have sp: "dropWhile sqlite3Isspace ds = ds"
    using h(3) ds(2) by (cases ds) auto
  show ?thesis
  proof (cases "v < 0")
    case True
    have m: "\<not> sqlite3Isspace 0x2d"
      by (simp add: Isspace_iff)
    show ?thesis
      using True ds assms by (auto simp: atoi64_spec_def m Let_def is_i64_def tw
          simp del: takeWhile_eq_all_conv dropWhile_eq_Nil_conv)
  next
    case False
    then show ?thesis
      using ds h assms by (auto simp: atoi64_spec_def Let_def is_i64_def tw sp
          simp del: takeWhile_eq_all_conv dropWhile_eq_Nil_conv)
  qed
qed

section \<open>Bounded readers\<close>

lemma getUInt32_loop_digits:
  "\<forall>c\<in>set ds. is_dig c \<Longrightarrow> rest = [] \<or> \<not> is_dig (hd rest) \<Longrightarrow> v \<le> 4294967296 \<Longrightarrow>
   getUInt32_loop (ds @ rest) v i =
     (if v * 10 ^ length ds + dec_val ds \<le> 4294967296
      then Some (v * 10 ^ length ds + dec_val ds, i + length ds, rest) else None)"
proof (induction ds arbitrary: v i)
  case Nil
  then show ?case
    by (cases rest) (auto simp: Isdigit_iff is_dig_nat)
next
  case (Cons c ds)
  let ?v = "v * 10 + (unat c - 48)"
  have e: "?v * 10 ^ length ds = v * (10 * 10 ^ length ds) + dig c * 10 ^ length ds"
    by (simp add: dig_def algebra_simps)
  have ge: "?v \<le> ?v * 10 ^ length ds"
    by simp
  show ?case
  proof (cases "?v > 4294967296")
    case True
    then have "\<not> v * 10 ^ length (c # ds) + dec_val (c # ds) \<le> 4294967296"
      using ge e by simp
    then show ?thesis
      using True Cons.prems dig_not_special(5) [of c] by simp
  next
    case False
    then show ?thesis
      using Cons.IH [of ?v "i + 1"] Cons.prems dig_not_special(5) [of c] e by (simp add: add.assoc)
  qed
qed

lemma uint_ge_0x30: "0x30 \<le> c \<Longrightarrow> 48 \<le> uint (c :: u8)"
  by (simp add: word_le_def)

lemma getInt32_dec_bounds:
  "getInt32_dec z n v i = (v', i') \<Longrightarrow> 0 \<le> v \<Longrightarrow> 0 \<le> v'"
proof (induction z n v i rule: getInt32_dec.induct)
  case (3 c z n v i)
  then show ?case
    using uint_ge_0x30 [of c] by (auto split: if_splits)
qed auto


lemma getUInt32_split:
  obtains ds rest where "z = ds @ rest" "\<forall>c\<in>set ds. is_dig c" "rest = [] \<or> \<not> is_dig (hd rest)"
    "ds = takeWhile is_dig z" "rest = dropWhile is_dig z"
  using that [of "takeWhile is_dig z" "dropWhile is_dig z"] set_takeWhileD
  by (metis hd_dropWhile takeWhile_dropWhile_id)

section \<open>Properties\<close>

text \<open>
  C36: on UTF-8 text, \<^verbatim>\<open>sqlite3Atoi64\<close> (with its wrapping accumulator and its textual comparison
  against \<open>2^63\<close>) computes exactly the clamped decimal value and the result code of the reference
  definition \<^const>\<open>atoi64_spec\<close>, for every byte string and every length.
\<close>

theorem Atoi64_reference:
  "sqlite3Atoi64 z n SQLITE_UTF8 = atoi64_spec (take n z)"
  by (rule sqlite3Atoi64_utf8)

text \<open>
  C37: every 64-bit integer survives rendering by \<^verbatim>\<open>sqlite3Int64ToText\<close> and reading by
  \<^verbatim>\<open>sqlite3Atoi64\<close>, with result code 0, and the rendering (20 bytes at most) fits the 21-byte
  buffer \<open>zTemp\<close> of the source with its terminator.
\<close>

theorem Int64ToText_roundtrip:
  assumes "is_i64 v"
  shows "sqlite3Atoi64 (sqlite3Int64ToText v) (length (sqlite3Int64ToText v)) SQLITE_UTF8 = (0, v)
         \<and> length (sqlite3Int64ToText v) \<le> 20"
proof -
  obtain ds where "sqlite3Int64ToText v = (if v < 0 then 0x2d # ds else ds)" "length ds \<le> 19"
    by (rule Int64ToText_shape [OF assms])
  then show ?thesis
    using atoi64_spec_text [OF assms] by (simp add: sqlite3Atoi64_utf8)
qed

theorem Int64ToText_roundtrip_witness:
  "sqlite3Atoi64 (sqlite3Int64ToText (- 9223372036854775808))
     (length (sqlite3Int64ToText (- 9223372036854775808))) SQLITE_UTF8 = (0, - 9223372036854775808)"
  using Int64ToText_roundtrip [of "- 9223372036854775808"] by (simp add: is_i64_def)

text \<open>
  C40: \<^verbatim>\<open>sqlite3GetUInt32\<close> succeeds exactly on a non-empty run of decimal digits, ended by the
  terminator, whose value is at most \<open>2^32\<close>; the number it stores is that value modulo \<open>2^32\<close>. The
  bound is off by one: the text 4294967296 is accepted and stored as 0.
\<close>

theorem GetUInt32_exact:
  "sqlite3GetUInt32 z =
     (let ds = takeWhile is_dig z; rest = dropWhile is_dig z
      in if ds \<noteq> [] \<and> zat rest 0 = 0 \<and> dec_val ds \<le> 2 ^ 32
         then (True, word_of_nat (dec_val ds)) else (False, 0))
   \<and> sqlite3GetUInt32 [0x34, 0x32, 0x39, 0x34, 0x39, 0x36, 0x37, 0x32, 0x39, 0x36] = (True, 0)"
proof (rule conjI)
  obtain ds rest where d: "z = ds @ rest" "\<forall>c\<in>set ds. is_dig c" "rest = [] \<or> \<not> is_dig (hd rest)"
    "ds = takeWhile is_dig z" "rest = dropWhile is_dig z"
    by (rule getUInt32_split)
  have "getUInt32_loop z 0 0 = (if dec_val ds \<le> 4294967296 then Some (dec_val ds, length ds, rest) else None)"
    using getUInt32_loop_digits [OF d(2,3), of 0 0] d(1) by simp
  then show "sqlite3GetUInt32 z =
     (let ds = takeWhile is_dig z; rest = dropWhile is_dig z
      in if ds \<noteq> [] \<and> zat rest 0 = 0 \<and> dec_val ds \<le> 2 ^ 32
         then (True, word_of_nat (dec_val ds)) else (False, 0))"
    unfolding sqlite3GetUInt32_def d(4) [symmetric] d(5) [symmetric] Let_def by simp
next
  show "sqlite3GetUInt32 [0x34, 0x32, 0x39, 0x34, 0x39, 0x36, 0x37, 0x32, 0x39, 0x36] = (True, 0)"
    by (simp add: sqlite3GetUInt32_def Isdigit_iff zat_def)
qed

end
