(* ===== verification/UtfM.thy ===== *)
theory UtfM
  imports NumText
begin

text \<open>
  The text encodings of \<^verbatim>\<open>utf.c\<close>: the macros that read and write one character, the readers used
  by the tokenizer and the functions, and the translation of a text value between encodings.
  Characters are naturals below \<open>2^32\<close> (the source's \<^verbatim>\<open>unsigned int c\<close>), with the reduction written
  where a shift can overflow. A text value is its bytes and encoding: the flags and the ownership
  of the buffer are not part of the model.
\<close>

section \<open>Definitions\<close>

definition sqlite3Utf8Trans1 :: "nat list" where
  "sqlite3Utf8Trans1 = [
     0x00, 0x01, 0x02, 0x03, 0x04, 0x05, 0x06, 0x07,
     0x08, 0x09, 0x0a, 0x0b, 0x0c, 0x0d, 0x0e, 0x0f,
     0x10, 0x11, 0x12, 0x13, 0x14, 0x15, 0x16, 0x17,
     0x18, 0x19, 0x1a, 0x1b, 0x1c, 0x1d, 0x1e, 0x1f,
     0x00, 0x01, 0x02, 0x03, 0x04, 0x05, 0x06, 0x07,
     0x08, 0x09, 0x0a, 0x0b, 0x0c, 0x0d, 0x0e, 0x0f,
     0x00, 0x01, 0x02, 0x03, 0x04, 0x05, 0x06, 0x07,
     0x00, 0x01, 0x02, 0x03, 0x00, 0x01, 0x00, 0x00]"

definition WRITE_UTF8 :: "nat \<Rightarrow> bytes" where
  "WRITE_UTF8 c =
     (if c < 0x80 then [cast8 (c AND 0xFF)]
      else if c < 0x800 then
        [cast8 (0xC0 + (drop_bit 6 c AND 0x1F)), cast8 (0x80 + (c AND 0x3F))]
      else if c < 0x10000 then
        [cast8 (0xE0 + (drop_bit 12 c AND 0x0F)), cast8 (0x80 + (drop_bit 6 c AND 0x3F)),
         cast8 (0x80 + (c AND 0x3F))]
      else
        [cast8 (0xF0 + (drop_bit 18 c AND 0x07)), cast8 (0x80 + (drop_bit 12 c AND 0x3F)),
         cast8 (0x80 + (drop_bit 6 c AND 0x3F)), cast8 (0x80 + (c AND 0x3F))])"

definition WRITE_UTF16LE :: "nat \<Rightarrow> bytes" where
  "WRITE_UTF16LE c =
     (if c \<le> 0xFFFF then [cast8 (c AND 0xFF), cast8 (drop_bit 8 c AND 0xFF)]
      else
        [cast8 ((drop_bit 10 c AND 0x3F) + (drop_bit 10 (c - 0x10000) AND 0xC0)),
         cast8 (0xD8 + (drop_bit 18 (c - 0x10000) AND 0x03)),
         cast8 (c AND 0xFF), cast8 (0xDC + (drop_bit 8 c AND 0x03))])"

definition WRITE_UTF16BE :: "nat \<Rightarrow> bytes" where
  "WRITE_UTF16BE c =
     (if c \<le> 0xFFFF then [cast8 (drop_bit 8 c AND 0xFF), cast8 (c AND 0xFF)]
      else
        [cast8 (0xD8 + (drop_bit 18 (c - 0x10000) AND 0x03)),
         cast8 ((drop_bit 10 c AND 0x3F) + (drop_bit 10 (c - 0x10000) AND 0xC0)),
         cast8 (0xDC + (drop_bit 8 c AND 0x03)), cast8 (c AND 0xFF)])"

text \<open>The continuation bytes; the list is the text up to \<open>zTerm\<close>.\<close>

fun utf8_cont :: "nat \<Rightarrow> bytes \<Rightarrow> nat \<times> bytes" where
  "utf8_cont c [] = (c, [])"
| "utf8_cont c (b # z) =
     (if unat b AND 0xC0 = 0x80
      then utf8_cont ((push_bit 6 c + (0x3F AND unat b)) mod 2 ^ 32) z
      else (c, b # z))"

definition utf8_fix :: "nat \<Rightarrow> nat" where
  "utf8_fix c =
     (if c < 0x80 \<or> c AND 0xFFFFF800 = 0xD800 \<or> c AND 0xFFFFFFFE = 0xFFFE then 0xFFFD else c)"

fun READ_UTF8 :: "bytes \<Rightarrow> nat \<times> bytes" where
  "READ_UTF8 [] = (0, [])"
| "READ_UTF8 (b # zIn) =
     (if unat b \<ge> 0xC0
      then (case utf8_cont (sqlite3Utf8Trans1 ! (unat b - 0xC0)) zIn of (c, zIn) \<Rightarrow> (utf8_fix c, zIn))
      else (unat b, zIn))"

text \<open>
  \<^verbatim>\<open>sqlite3Utf8Read\<close> on a zero-terminated text: the list ends before the terminator, whose reading
  gives 0 and stops every continuation.
\<close>

definition sqlite3Utf8Read :: "bytes \<Rightarrow> nat \<times> bytes" where
  "sqlite3Utf8Read pz = READ_UTF8 pz"

fun utf8_cont_limited :: "nat \<Rightarrow> nat \<Rightarrow> nat \<Rightarrow> bytes \<Rightarrow> nat \<times> nat" where
  "utf8_cont_limited c i n [] = (c, i)"
| "utf8_cont_limited c i n (b # z) =
     (if i < n \<and> unat b AND 0xC0 = 0x80
      then utf8_cont_limited ((push_bit 6 c + (0x3F AND unat b)) mod 2 ^ 32) (i + 1) n z
      else (c, i))"

text \<open>\<^verbatim>\<open>sqlite3Utf8ReadLimited\<close>: the character and the number of bytes used.\<close>

definition sqlite3Utf8ReadLimited :: "bytes \<Rightarrow> nat \<Rightarrow> nat \<times> nat" where
  "sqlite3Utf8ReadLimited z n =
     (let c = unat (zat z 0)
      in if c \<ge> 0xC0 then utf8_cont_limited (sqlite3Utf8Trans1 ! (c - 0xC0)) 1 (min n 4) (tl z)
         else (c, 1))"

definition SQLITE_SKIP_UTF8 :: "bytes \<Rightarrow> bytes" where
  "SQLITE_SKIP_UTF8 z =
     (if unat (zat z 0) \<ge> 0xC0 then dropWhile (\<lambda>b. unat b AND 0xC0 = 0x80) (tl z) else tl z)"

text \<open>\<^verbatim>\<open>sqlite3Utf8CharLen\<close> on the first \<open>nByte\<close> bytes (\<^term>\<open>None\<close> for a negative \<open>nByte\<close>).\<close>

function charLen_loop :: "bytes \<Rightarrow> int \<Rightarrow> nat \<Rightarrow> nat" where
  "charLen_loop z left r =
     (if zat z 0 \<noteq> 0 \<and> left > 0
      then charLen_loop (SQLITE_SKIP_UTF8 z) (left - (int (length z) - int (length (SQLITE_SKIP_UTF8 z)))) (r + 1)
      else r)"
  by pat_completeness auto
termination
proof (relation "measure (\<lambda>(z, left, r). length z)", goal_cases)
  case (2 z left r)
  then have "z \<noteq> []"
    by (auto simp: zat_def)
  then show ?case
    by (cases z) (auto simp: SQLITE_SKIP_UTF8_def intro: le_imp_less_Suc length_dropWhile_le)
qed simp

definition sqlite3Utf8CharLen :: "bytes \<Rightarrow> nat option \<Rightarrow> nat" where
  "sqlite3Utf8CharLen zIn nByte =
     charLen_loop zIn (case nByte of Some n \<Rightarrow> int n | None \<Rightarrow> int (length zIn) + 1) 0"

record Mem_text =
  mem_z :: bytes
  mem_enc :: encoding

fun swap_pairs :: "bytes \<Rightarrow> bytes" where
  "swap_pairs (a # b # z) = b # a # swap_pairs z"
| "swap_pairs z = z"

function utf8_to_16 :: "(nat \<Rightarrow> bytes) \<Rightarrow> bytes \<Rightarrow> bytes" where
  "utf8_to_16 wr z = (if z = [] then [] else (case READ_UTF8 z of (c, zIn) \<Rightarrow> wr c @ utf8_to_16 wr zIn))"
  by pat_completeness auto

lemma utf8_cont_length: "length (snd (utf8_cont c z)) \<le> length z"
  by (induction c z rule: utf8_cont.induct) (auto intro: le_SucI)

lemma READ_UTF8_length: "z \<noteq> [] \<Longrightarrow> length (snd (READ_UTF8 z)) < length z"
  by (cases z) (auto simp: split_beta le_imp_less_Suc utf8_cont_length)

termination utf8_to_16
proof (relation "measure (\<lambda>(wr, z). length z)", goal_cases)
  case (2 wr z c zIn)
  then show ?case
    using READ_UTF8_length [of z] by (metis case_prod_conv in_measure snd_conv)
qed simp

text \<open>One character of UTF-16; \<open>unit16\<close> assembles a unit in the byte order of the text.\<close>

definition unit16 :: "encoding \<Rightarrow> u8 \<Rightarrow> u8 \<Rightarrow> nat" where
  "unit16 enc a b = (if enc = SQLITE_UTF16LE then unat a + push_bit 8 (unat b) else push_bit 8 (unat a) + unat b)"

fun READ_UTF16 :: "encoding \<Rightarrow> bytes \<Rightarrow> nat \<times> bytes" where
  "READ_UTF16 enc (a # b # zIn) =
     (let c = unit16 enc a b
      in if c \<ge> 0xD800 \<and> c < 0xE000
         then (case zIn of
                 a2 # b2 # zIn \<Rightarrow>
                   (let c2 = unit16 enc a2 b2
                    in ((c2 AND 0x3FF) + push_bit 10 (c AND 0x3F) + push_bit 10 ((c AND 0x3C0) + 0x40), zIn))
               | _ \<Rightarrow> (c, zIn))
         else (c, zIn))"
| "READ_UTF16 enc zIn = (0, [])"

function utf16_to_8 :: "encoding \<Rightarrow> bytes \<Rightarrow> bytes" where
  "utf16_to_8 enc z =
     (if length z < 2 then [] else (case READ_UTF16 enc z of (c, zIn) \<Rightarrow> WRITE_UTF8 c @ utf16_to_8 enc zIn))"
  by pat_completeness auto

lemma READ_UTF16_length: "2 \<le> length z \<Longrightarrow> length (snd (READ_UTF16 enc z)) < length z"
  by (cases "(enc, z)" rule: READ_UTF16.cases) (auto simp: Let_def split: list.split)

termination utf16_to_8
proof (relation "measure (\<lambda>(enc, z). length z)", goal_cases)
  case (2 enc z c zIn)
  then show ?case
    using READ_UTF16_length [of z enc] by (metis case_prod_conv in_measure not_less snd_conv)
qed simp

text \<open>
  \<^verbatim>\<open>sqlite3VdbeMemTranslate\<close>, called with a different encoding: \<^term>\<open>None\<close> is \<^verbatim>\<open>SQLITE_NOMEM\<close>.
\<close>

definition sqlite3VdbeMemTranslate :: "bool \<Rightarrow> Mem_text \<Rightarrow> encoding \<Rightarrow> Mem_text option" where
  "sqlite3VdbeMemTranslate malloc_ok pMem desiredEnc =
     (if \<not> malloc_ok then None
      else if mem_enc pMem \<noteq> SQLITE_UTF8 \<and> desiredEnc \<noteq> SQLITE_UTF8
      then Some (pMem\<lparr>mem_z := swap_pairs (mem_z pMem), mem_enc := desiredEnc\<rparr>)
      else if mem_enc pMem = SQLITE_UTF8
      then Some \<lparr>mem_z = utf8_to_16 (if desiredEnc = SQLITE_UTF16LE then WRITE_UTF16LE else WRITE_UTF16BE) (mem_z pMem),
                 mem_enc = desiredEnc\<rparr>
      else Some \<lparr>mem_z = utf16_to_8 (mem_enc pMem) (take (length (mem_z pMem) - length (mem_z pMem) mod 2) (mem_z pMem)),
                 mem_enc = desiredEnc\<rparr>)"

text \<open>\<open>len\<close>: the size of the output buffer the translation allocates, terminator included.\<close>

definition translate_len :: "Mem_text \<Rightarrow> encoding \<Rightarrow> nat" where
  "translate_len pMem desiredEnc =
     (if desiredEnc = SQLITE_UTF8 then 2 * (length (mem_z pMem) - length (mem_z pMem) mod 2) + 1
      else 2 * length (mem_z pMem) + 2)"

definition sqlite3VdbeMemHandleBom :: "bool \<Rightarrow> Mem_text \<Rightarrow> Mem_text option" where
  "sqlite3VdbeMemHandleBom malloc_ok pMem =
     (let z = mem_z pMem;
          bom = (if length z > 1
                 then (if z ! 0 = 0xFF \<and> z ! 1 = 0xFE then Some SQLITE_UTF16LE
                       else if z ! 0 = 0xFE \<and> z ! 1 = 0xFF then Some SQLITE_UTF16BE else None)
                 else None)
      in case bom of
           None \<Rightarrow> Some pMem
         | Some enc \<Rightarrow> if malloc_ok then Some \<lparr>mem_z = drop 2 z, mem_enc = enc\<rparr> else None)"

text \<open>
  \<^verbatim>\<open>sqlite3Utf16ByteLen\<close> on a little-endian machine: \<open>z\<close> points at the high byte of a unit and
  \<open>zEnd\<close> at the last byte; the list is what \<open>[z, zEnd]\<close> holds.
\<close>

fun utf16ByteLen_loop :: "bytes \<Rightarrow> nat \<Rightarrow> nat" where
  "utf16ByteLen_loop z 0 = 0"
| "utf16ByteLen_loop [] (Suc n) = 0"
| "utf16ByteLen_loop (h # z) (Suc n) =
     (let z2 = drop 1 z
      in if unat h \<ge> 0xD8 \<and> unat h < 0xDC \<and> z2 \<noteq> [] \<and> unat (hd z2) \<ge> 0xDC \<and> unat (hd z2) < 0xE0
         then 4 + utf16ByteLen_loop (drop 2 z2) n
         else 2 + utf16ByteLen_loop z2 n)"

definition sqlite3Utf16ByteLen :: "bytes \<Rightarrow> nat \<Rightarrow> nat \<Rightarrow> nat" where
  "sqlite3Utf16ByteLen zIn nByte nChar = utf16ByteLen_loop (drop 1 (take nByte zIn)) nChar"

declare charLen_loop.simps [simp del] utf8_to_16.simps [simp del] utf16_to_8.simps [simp del]

section \<open>Masks\<close>

lemma nat_masks:
  fixes n :: nat
  shows "n AND 0xFF = n mod 256" "n AND 0x3F = n mod 64" "n AND 0x1F = n mod 32" "n AND 0x0F = n mod 16"
    "n AND 0x07 = n mod 8" "n AND 0x03 = n mod 4" "n AND 0x3FF = n mod 1024" "0x3F AND n = n mod 64"
proof -
  have m: "n AND mask k = n mod 2 ^ k" for k
    by (simp add: take_bit_eq_mask [symmetric] take_bit_eq_mod)
  show "n AND 0xFF = n mod 256" "n AND 0x3F = n mod 64" "n AND 0x1F = n mod 32" "n AND 0x0F = n mod 16"
    "n AND 0x07 = n mod 8" "n AND 0x03 = n mod 4" "n AND 0x3FF = n mod 1024"
    using m [of 8] m [of 6] m [of 5] m [of 4] m [of 3] m [of 2] m [of 10]
    by (simp_all add: mask_eq_exp_minus_1)
  then show "0x3F AND n = n mod 64"
    by (simp add: and.commute)
qed

lemma slice_mask:
  fixes n :: nat
  assumes "k \<le> w"
  shows "n AND (2 ^ w - 2 ^ k) = 2 ^ k * (n mod 2 ^ w div 2 ^ k)"
proof -
  have "(2::nat) ^ w - 2 ^ k = push_bit k (mask (w - k))"
    using assms by (simp add: push_bit_eq_mult mask_eq_exp_minus_1 algebra_simps flip: power_add)
  moreover have "n AND push_bit k (mask (w - k)) = push_bit k (drop_bit k (take_bit w n))"
    using assms by (intro bit_eqI) (auto simp: bit_simps)
  ultimately show ?thesis
    by (simp add: push_bit_eq_mult drop_bit_eq_div take_bit_eq_mod)
qed

lemma div_eq_interval: "0 < d \<Longrightarrow> (n :: nat) div d = q \<longleftrightarrow> q * d \<le> n \<and> n < (q + 1) * d"
  by (metis Suc_eq_plus1 antisym_conv1 div_less_iff_less_mult less_Suc_eq_le less_eq_div_iff_mult_less_eq order_refl
      not_less)

lemma surrogate_mask:
  assumes "(n :: nat) < 2 ^ 32"
  shows "n AND 0xFFFFF800 = 0xD800 \<longleftrightarrow> 0xD800 \<le> n \<and> n < 0xE000"
proof -
  have "n AND 0xFFFFF800 = 2048 * (n div 2048)"
    using slice_mask [of 11 32 n] assms by simp
  then have "n AND 0xFFFFF800 = 0xD800 \<longleftrightarrow> n div 2048 = 27"
    by simp
  then show ?thesis
    by (simp add: div_eq_interval)
qed

lemma noncharacter_mask:
  assumes "(n :: nat) < 2 ^ 32"
  shows "n AND 0xFFFFFFFE = 0xFFFE \<longleftrightarrow> n = 0xFFFE \<or> n = 0xFFFF"
proof -
  have "n AND 0xFFFFFFFE = 2 * (n div 2)"
    using slice_mask [of 1 32 n] assms by simp
  then have "n AND 0xFFFFFFFE = 0xFFFE \<longleftrightarrow> n div 2 = 0x7FFF"
    by simp
  then show ?thesis
    by (simp only: div_eq_interval) auto
qed

lemma utf8_fix_eq:
  "c < 2 ^ 32 \<Longrightarrow> utf8_fix c =
     (if c < 0x80 \<or> 0xD800 \<le> c \<and> c < 0xE000 \<or> c = 0xFFFE \<or> c = 0xFFFF then 0xFFFD else c)"
  unfolding utf8_fix_def by (simp only: surrogate_mask noncharacter_mask)

section \<open>One character\<close>

text \<open>The characters that every encoding can carry: no surrogates, no \<open>0xFFFE\<close> and \<open>0xFFFF\<close>.\<close>

definition unicode :: "nat \<Rightarrow> bool" where
  "unicode c \<longleftrightarrow> c < 0x110000 \<and> \<not> (0xD800 \<le> c \<and> c < 0xE000) \<and> c \<noteq> 0xFFFE \<and> c \<noteq> 0xFFFF"

abbreviation cont_byte :: "u8 \<Rightarrow> bool" where
  "cont_byte b \<equiv> unat b AND 0xC0 = 0x80"

lemma nat_slices:
  fixes n :: nat
  shows "n AND 0xC0 = 64 * (n mod 256 div 64)" "n AND 0x3C0 = 64 * (n mod 1024 div 64)"
  using slice_mask [of 6 8 n] slice_mask [of 6 10 n] by simp_all

lemma cont_mask: "(n :: nat) < 256 \<Longrightarrow> n AND 0xC0 = 0x80 \<longleftrightarrow> 128 \<le> n \<and> n < 192"
  using div_eq_interval [of 64 n 2] by (simp add: nat_slices)

lemma cont_byte_iff: "cont_byte b \<longleftrightarrow> 128 \<le> unat b \<and> unat b < 192"
  using cont_mask [OF unat_u8_less] .

lemma Trans1_nth:
  assumes "n < 64"
  shows "sqlite3Utf8Trans1 ! n =
  (if n < 32 then n else if n < 48 then n - 32 else if n < 56 then n - 48 else
   if n < 60 then n - 56 else if n < 62 then n - 60 else 0)"
proof -
  have eq: "sqlite3Utf8Trans1 = map (\<lambda>n. if n < 32 then n else if n < 48 then n - 32 else if n < 56 then n - 48 else
   if n < 60 then n - 56 else if n < 62 then n - 60 else 0) [0..<64]"
    by (simp add: sqlite3Utf8Trans1_def upt_rec_numeral upt_rec [of 0] upt_rec [of "Suc 0"]
        numeral_2_eq_2 [symmetric])
  show ?thesis
    using assms by (subst eq) simp
qed

lemma Trans1_lead:
  "n < 32 \<Longrightarrow> sqlite3Utf8Trans1 ! n = n" "n < 16 \<Longrightarrow> sqlite3Utf8Trans1 ! (32 + n) = n"
  "n < 8 \<Longrightarrow> sqlite3Utf8Trans1 ! (48 + n) = n"
  by (simp_all add: Trans1_nth)

lemma utf8_cont_step:
  "c * 64 + n < 2 ^ 32 \<Longrightarrow> n < 64 \<Longrightarrow>
   utf8_cont c (cast8 (0x80 + n) # z) = utf8_cont (c * 64 + n) z"
  using cont_mask [of "128 + n"] mod_add_left_eq [of 128 64 n] by (simp add: nat_masks push_bit_eq_mult)

lemma utf8_cont_stop: "z = [] \<or> \<not> cont_byte (hd z) \<Longrightarrow> utf8_cont c z = (c, z)"
  by (cases z) auto

lemmas utf8_bits = nat_masks drop_bit_eq_div

lemma READ_WRITE_UTF8:
  assumes c: "unicode c" and z: "z = [] \<or> \<not> cont_byte (hd z)"
  shows "READ_UTF8 (WRITE_UTF8 c @ z) = (c, z)"
proof -
  note stop = utf8_cont_stop [OF z]
  have fx: "utf8_fix c = c" if "128 \<le> c"
    using c that by (subst utf8_fix_eq) (auto simp: unicode_def)
  consider (one) "c < 0x80" | (two) "0x80 \<le> c" "c < 0x800" | (three) "0x800 \<le> c" "c < 0x10000"
    | (four) "0x10000 \<le> c" "c < 0x110000"
    using c unfolding unicode_def by linarith
  then show ?thesis
  proof cases
    case one
    then show ?thesis
      by (simp add: WRITE_UTF8_def utf8_bits)
  next
    case two
    have d: "c div 64 mod 32 = c div 64" "c div 64 * 64 + c mod 64 = c"
      using two by (simp_all add: div_less_iff_less_mult)
    then show ?thesis
      using two fx stop Trans1_lead(1) [of "c div 64 mod 32"]
      by (simp add: WRITE_UTF8_def utf8_bits utf8_cont_step del: utf8_cont.simps)
  next
    case three
    have d: "c div 4096 mod 16 = c div 4096" "c div 4096 * 64 + c div 64 mod 64 = c div 64" "c div 64 * 64 + c mod 64 = c"
      using three div_mult2_eq [of c 64 64] div_mult_mod_eq [of "c div 64" 64] by (simp_all add: div_less_iff_less_mult)
    then show ?thesis
      using three fx stop Trans1_lead(2) [of "c div 4096 mod 16"]
      by (simp add: WRITE_UTF8_def utf8_bits utf8_cont_step del: utf8_cont.simps)
  next
    case four
    have d: "c div 262144 mod 8 = c div 262144" "c div 262144 * 64 + c div 4096 mod 64 = c div 4096"
      "c div 4096 * 64 + c div 64 mod 64 = c div 64" "c div 64 * 64 + c mod 64 = c"
      using four div_mult2_eq [of c 64 64] div_mult_mod_eq [of "c div 64" 64] div_mult2_eq [of c 4096 64]
        div_mult_mod_eq [of "c div 4096" 64] by (simp_all add: div_less_iff_less_mult)
    then show ?thesis
      using four fx stop Trans1_lead(3) [of "c div 262144 mod 8"]
      by (simp add: WRITE_UTF8_def utf8_bits utf8_cont_step del: utf8_cont.simps)
  qed
qed


text \<open>The surrogate pair of a character above \<open>0xFFFF\<close>: \<open>p\<close> and \<open>q\<close> are its two ten-bit halves.\<close>

lemma surrogate_pair:
  assumes c: "0x10000 \<le> c" "c < 0x110000"
  obtains p q where "p < 1024" "q < 1024" "c = 0x10000 + p * 1024 + q"
    "WRITE_UTF16LE c = [cast8 (p mod 256), cast8 (0xD8 + p div 256), cast8 (q mod 256), cast8 (0xDC + q div 256)]"
    "WRITE_UTF16BE c = [cast8 (0xD8 + p div 256), cast8 (p mod 256), cast8 (0xDC + q div 256), cast8 (q mod 256)]"
proof -
  define p q where "p = (c - 0x10000) div 1024" and "q = (c - 0x10000) mod 1024"
  have pq: "c = 0x10000 + p * 1024 + q" "p < 1024" "q < 1024"
    using c div_mult_mod_eq [of "c - 0x10000" 1024] by (simp_all add: p_def q_def div_less_iff_less_mult)
  have c10: "c div 1024 = p + 64" "c - 0x10000 = p * 1024 + q"
    using pq by simp_all
  have c18: "(p * 1024 + q) div 262144 = p div 256"
    using pq(3) div_mult2_eq [of "p * 1024 + q" 1024 256] by simp
  have low: "p mod 64 + 64 * (p mod 256 div 64) = p mod 256"
    using mod_mult_self2_is_0 div_mult_mod_eq [of "p mod 256" 64] mod_mod_cancel [of 64 256 p] by simp
  have c8: "c mod 256 = q mod 256" "c div 256 mod 4 = q div 256"
  proof -
    have e: "c = q + 256 * (4 * (64 + p))"
      using pq(1) by simp
    show "c mod 256 = q mod 256"
      unfolding e by (rule mod_mult_self2)
    have "c div 256 = q div 256 + 4 * (64 + p)"
      unfolding e by (simp only: div_mult_self2 zero_neq_numeral [symmetric] not_False_eq_True)
    moreover have "q div 256 < 4"
      using pq(3) by (simp add: div_less_iff_less_mult)
    ultimately show "c div 256 mod 4 = q div 256"
      by (simp only: mod_mult_self2 mod_less)
  qed
  have p3: "p div 256 mod 4 = p div 256"
    using pq(2) by (simp add: div_less_iff_less_mult)
  have p10: "(p * 1024 + q) div 1024 = p"
    using pq(3) by simp
  show ?thesis
    using that [OF pq(2,3,1)] c c10 c18 low c8 p3 p10
    by (simp add: WRITE_UTF16LE_def WRITE_UTF16BE_def nat_masks nat_slices drop_bit_eq_div mod_simps)
qed

definition WRITE_UTF16 :: "encoding \<Rightarrow> nat \<Rightarrow> bytes" where
  "WRITE_UTF16 enc = (if enc = SQLITE_UTF16LE then WRITE_UTF16LE else WRITE_UTF16BE)"

lemma READ_WRITE_UTF16:
  assumes c: "unicode c"
  shows "READ_UTF16 enc (WRITE_UTF16 enc c @ z) = (c, z)"
proof (cases "c \<le> 0xFFFF")
  case True
  have "c div 256 mod 256 = c div 256" "c mod 256 + c div 256 * 256 = c"
    using True by (simp_all add: div_less_iff_less_mult)
  then show ?thesis
    using True c
    by (auto simp: WRITE_UTF16_def WRITE_UTF16LE_def WRITE_UTF16BE_def unit16_def nat_masks drop_bit_eq_div
        push_bit_eq_mult unicode_def Let_def)
next
  case False
  obtain p q where pq: "p < 1024" "q < 1024" "c = 0x10000 + p * 1024 + q"
    "WRITE_UTF16LE c = [cast8 (p mod 256), cast8 (0xD8 + p div 256), cast8 (q mod 256), cast8 (0xDC + q div 256)]"
    "WRITE_UTF16BE c = [cast8 (0xD8 + p div 256), cast8 (p mod 256), cast8 (0xDC + q div 256), cast8 (q mod 256)]"
  proof -
    have "0x10000 \<le> c" "c < 0x110000"
      using False c by (simp_all add: unicode_def)
    then show thesis
      using surrogate_pair that by blast
  qed
  have u: "p mod 256 + (216 + p div 256) * 256 = 0xD800 + p" "q mod 256 + (220 + q div 256) * 256 = 0xDC00 + q"
    using div_mult_mod_eq [of p 256] div_mult_mod_eq [of q 256] by simp_all
  have b: "216 + p div 256 < 256" "220 + q div 256 < 256"
    using pq(1,2) by (simp_all add: div_less_iff_less_mult)
  have d: "(0xD800 + p) mod 64 = p mod 64" "(0xD800 + p) mod 1024 = p" "(0xDC00 + q) mod 1024 = q"
    using pq(1,2) by (simp_all add: mod_simps flip: mod_add_left_eq [of "0xD800"] mod_add_left_eq [of "0xDC00"])
  have s: "q + p mod 64 * 1024 + (64 * (p div 64) + 64) * 1024 = c"
  proof -
    have "q + b * 1024 + (64 * a + 64) * 1024 = 0x10000 + (a * 64 + b) * 1024 + q" for a b :: nat
      by simp
    from this [of "p mod 64" "p div 64"] show ?thesis
      unfolding div_mult_mod_eq pq(3) .
  qed
  have un: "unit16 SQLITE_UTF16LE (cast8 (p mod 256)) (cast8 (0xD8 + p div 256)) = 0xD800 + p"
    "unit16 SQLITE_UTF16LE (cast8 (q mod 256)) (cast8 (0xDC + q div 256)) = 0xDC00 + q"
    "enc \<noteq> SQLITE_UTF16LE \<Longrightarrow> unit16 enc (cast8 (0xD8 + p div 256)) (cast8 (p mod 256)) = 0xD800 + p"
    "enc \<noteq> SQLITE_UTF16LE \<Longrightarrow> unit16 enc (cast8 (0xDC + q div 256)) (cast8 (q mod 256)) = 0xDC00 + q"
    using u b by (simp_all add: unit16_def push_bit_eq_mult)
  have m: "(0xDC00 + q AND 0x3FF) + push_bit 10 (0xD800 + p AND 0x3F) + push_bit 10 ((0xD800 + p AND 0x3C0) + 0x40) = c"
    using s d by (simp add: nat_masks nat_slices push_bit_eq_mult)
  show ?thesis
    using pq(1,4,5) un m by (cases "enc = SQLITE_UTF16LE") (simp_all add: WRITE_UTF16_def Let_def)
qed


section \<open>Texts\<close>

definition utf8_text :: "nat list \<Rightarrow> bytes" where
  "utf8_text cs = concat (map WRITE_UTF8 cs)"

definition utf16_text :: "encoding \<Rightarrow> nat list \<Rightarrow> bytes" where
  "utf16_text enc cs = concat (map (WRITE_UTF16 enc) cs)"

lemma WRITE_UTF8_hd: "c < 0x110000 \<Longrightarrow> WRITE_UTF8 c \<noteq> [] \<and> \<not> cont_byte (hd (WRITE_UTF8 c))"
proof -
  assume "c < 0x110000"
  have "c div 64 mod 32 < 32" "c div 4096 mod 16 < 16" "c div 262144 mod 8 < 8"
    by simp_all
  then show ?thesis
    by (auto simp: WRITE_UTF8_def utf8_bits cont_mask)
qed

lemma utf8_text_hd: "\<forall>c\<in>set cs. unicode c \<Longrightarrow> utf8_text cs = [] \<or> \<not> cont_byte (hd (utf8_text cs))"
  using WRITE_UTF8_hd by (cases cs) (auto simp: utf8_text_def unicode_def)

lemma utf8_to_16_text:
  assumes "\<forall>c\<in>set cs. unicode c"
  shows "utf8_to_16 wr (utf8_text cs) = concat (map wr cs)"
  using assms
proof (induction cs)
  case Nil
  then show ?case
    by (simp add: utf8_text_def utf8_to_16.simps)
next
  case (Cons c cs)
  have "WRITE_UTF8 c \<noteq> []"
    using Cons.prems WRITE_UTF8_hd by (simp add: unicode_def)
  moreover have "READ_UTF8 (WRITE_UTF8 c @ utf8_text cs) = (c, utf8_text cs)"
    using Cons.prems utf8_text_hd [of cs] by (intro READ_WRITE_UTF8) auto
  ultimately show ?case
    using Cons by (subst utf8_to_16.simps) (simp add: utf8_text_def)
qed

lemma WRITE_UTF16_length: "2 \<le> length (WRITE_UTF16 enc c) \<and> even (length (WRITE_UTF16 enc c))"
  by (simp add: WRITE_UTF16_def WRITE_UTF16LE_def WRITE_UTF16BE_def)

lemma utf16_text_even: "even (length (utf16_text enc cs))"
  using WRITE_UTF16_length by (induction cs) (auto simp: utf16_text_def)

lemma utf16_to_8_text:
  assumes "\<forall>c\<in>set cs. unicode c"
  shows "utf16_to_8 enc (utf16_text enc cs) = utf8_text cs"
  using assms
proof (induction cs)
  case Nil
  then show ?case
    by (simp add: utf8_text_def utf16_text_def utf16_to_8.simps)
next
  case (Cons c cs)
  have "\<not> length (utf16_text enc (c # cs)) < 2"
    using WRITE_UTF16_length [of enc c] by (simp add: utf16_text_def)
  moreover have "READ_UTF16 enc (WRITE_UTF16 enc c @ utf16_text enc cs) = (c, utf16_text enc cs)"
    using Cons.prems by (intro READ_WRITE_UTF16) simp
  ultimately show ?case
    using Cons by (subst utf16_to_8.simps) (simp add: utf8_text_def utf16_text_def)
qed

lemma swap_pairs_append: "even (length a) \<Longrightarrow> swap_pairs (a @ b) = swap_pairs a @ swap_pairs b"
  by (induction a rule: swap_pairs.induct) auto

lemma swap_WRITE_UTF16:
  "swap_pairs (WRITE_UTF16LE c) = WRITE_UTF16BE c" "swap_pairs (WRITE_UTF16BE c) = WRITE_UTF16LE c"
  by (simp_all add: WRITE_UTF16LE_def WRITE_UTF16BE_def)

lemma swap_utf16_text:
  assumes "enc \<noteq> SQLITE_UTF8" "enc' \<noteq> SQLITE_UTF8" "enc \<noteq> enc'"
  shows "swap_pairs (utf16_text enc cs) = utf16_text enc' cs"
proof -
  have "swap_pairs (WRITE_UTF16 enc c) = WRITE_UTF16 enc' c" for c
    using assms swap_WRITE_UTF16 by (cases enc; cases enc') (auto simp: WRITE_UTF16_def)
  then show ?thesis
    using WRITE_UTF16_length by (induction cs) (auto simp: utf16_text_def swap_pairs_append)
qed

section \<open>Output bounds\<close>

lemma utf8_cont_value:
  "utf8_cont c z = (c', z') \<Longrightarrow> c < 32 \<Longrightarrow> 0xFFFF < c' \<Longrightarrow> length z' + 2 \<le> length z"
proof (cases z)
  case Nil
  then show "utf8_cont c z = (c', z') \<Longrightarrow> c < 32 \<Longrightarrow> 0xFFFF < c' \<Longrightarrow> length z' + 2 \<le> length z"
    by simp
next
  case (Cons b z1)
  assume r: "utf8_cont c z = (c', z')" and c: "c < 32" "0xFFFF < c'"
  have b: "cont_byte b" and r1: "utf8_cont ((push_bit 6 c + (0x3F AND unat b)) mod 2 ^ 32) z1 = (c', z')"
    using r Cons c by (auto split: if_splits)
  have small: "(push_bit 6 c + (0x3F AND unat b)) mod 2 ^ 32 < 2048"
    using c(1) by (simp add: nat_masks push_bit_eq_mult)
  show "length z' + 2 \<le> length z"
  proof (cases z1)
    case Nil
    then show ?thesis
      using r1 small c by simp
  next
    case (Cons b2 z2)
    then show ?thesis
      using r1 small c \<open>z = b # z1\<close> utf8_cont_length
      by (auto split: if_splits) (metis snd_conv)
  qed
qed

lemma READ_UTF8_big:
  assumes "READ_UTF8 z = (c, z')" "0xFFFF < c"
  shows "length z' + 2 \<le> length z"
proof (cases z)
  case (Cons b z1)
  have "sqlite3Utf8Trans1 ! (unat b - 0xC0) < 32"
    using unat_u8_less [of b] by (subst Trans1_nth) auto
  obtain c0 where c0: "utf8_cont (sqlite3Utf8Trans1 ! (unat b - 0xC0)) z1 = (c0, z')" "c = utf8_fix c0"
    using assms Cons unat_u8_less [of b] by (auto split: if_splits prod.splits)
  have "0xFFFF < c0"
    using c0(2) assms(2) by (auto simp: utf8_fix_def split: if_splits)
  then show ?thesis
    using utf8_cont_value [OF c0(1)] \<open>sqlite3Utf8Trans1 ! (unat b - 0xC0) < 32\<close> Cons by simp
qed (use assms in simp)

lemma utf8_to_16_length: "length (utf8_to_16 (WRITE_UTF16 enc) z) \<le> 2 * length z"
proof (induction "WRITE_UTF16 enc" z rule: utf8_to_16.induct)
  case (1 z)
  show ?case
  proof (cases "z = []")
    case False
    obtain c z' where r: "READ_UTF8 z = (c, z')"
      by fastforce
    have "length (utf8_to_16 (WRITE_UTF16 enc) z') \<le> 2 * length z'"
      using 1 False r by simp
    moreover have "length (WRITE_UTF16 enc c) + 2 * length z' \<le> 2 * length z"
      using READ_UTF8_big [OF r] READ_UTF8_length [OF False] r
      by (auto simp: WRITE_UTF16_def WRITE_UTF16LE_def WRITE_UTF16BE_def)
    ultimately show ?thesis
      using False r by (subst utf8_to_16.simps) simp
  qed (simp add: utf8_to_16.simps)
qed

lemma unit16_less: "unit16 enc a b < 0x10000"
  using unat_u8_less [of a] unat_u8_less [of b] by (simp add: unit16_def push_bit_eq_mult)

lemma utf16_to_8_length: "length (utf16_to_8 enc z) \<le> 2 * length z"
proof (induction enc z rule: utf16_to_8.induct)
  case (1 enc z)
  show ?case
  proof (cases "length z < 2")
    case False
    then obtain a b z1 where z: "z = a # b # z1"
      by (cases z; cases "tl z") auto
    obtain c z' where r: "READ_UTF16 enc z = (c, z')"
      by fastforce
    have "length (utf16_to_8 enc z') \<le> 2 * length z'"
      using 1 False r by simp
    moreover have "length (WRITE_UTF8 c) + 2 * length z' \<le> 2 * length z"
    proof (cases "c < 0x10000")
      case True
      have "length z' + 2 \<le> length z"
        using r z by (auto simp: Let_def split: if_splits list.splits)
      then show ?thesis
        using True by (simp add: WRITE_UTF8_def)
    next
      case False
      have "length z' + 4 = length z"
        using r z False unit16_less [of enc a b] by (auto simp: Let_def split: if_splits list.splits)
      then show ?thesis
        by (simp add: WRITE_UTF8_def)
    qed
    ultimately show ?thesis
      using False r by (subst utf16_to_8.simps) simp
  qed (simp add: utf16_to_8.simps)
qed


section \<open>Counting characters\<close>

lemma WRITE_UTF8_shape:
  assumes "c < 0x110000"
  obtains b z where "WRITE_UTF8 c = b # z" "\<forall>x\<in>set z. cont_byte x" "unat b < 0xC0 \<Longrightarrow> z = []"
    "c \<noteq> 0 \<Longrightarrow> b \<noteq> 0"
proof -
  have m: "c div 64 mod 32 < 32" "c div 4096 mod 16 < 16" "c div 262144 mod 8 < 8" "c mod 64 < 64"
    "c div 64 mod 64 < 64" "c div 4096 mod 64 < 64"
    by simp_all
  have nz: "cast8 n \<noteq> 0" if "0 < n" "n < 256" for n
    using that by (metis less_numeral_extra(3) unat_0 unat_cast8_small)
  consider "c < 0x80" | "0x80 \<le> c" "c < 0x800" | "0x800 \<le> c" "c < 0x10000" | "0x10000 \<le> c"
    by linarith
  then show ?thesis
  proof cases
    case 1
    then show ?thesis
      using nz [of c] by (intro that [of "cast8 c" "[]"]) (auto simp: WRITE_UTF8_def utf8_bits)
  next
    case 2
    then show ?thesis
      using m nz [of "0xC0 + c div 64 mod 32"] by (intro that [of "cast8 (0xC0 + c div 64 mod 32)" "[cast8 (0x80 + c mod 64)]"]) (auto simp: WRITE_UTF8_def utf8_bits cont_mask)
  next
    case 3
    then show ?thesis
      using m nz [of "0xE0 + c div 4096 mod 16"] by (intro that [of "cast8 (0xE0 + c div 4096 mod 16)" "[cast8 (0x80 + c div 64 mod 64), cast8 (0x80 + c mod 64)]"]) (auto simp: WRITE_UTF8_def utf8_bits cont_mask)
  next
    case 4
    then show ?thesis
      using m nz [of "0xF0 + c div 262144 mod 8"] by (intro that [of "cast8 (0xF0 + c div 262144 mod 8)" "[cast8 (0x80 + c div 4096 mod 64), cast8 (0x80 + c div 64 mod 64), cast8 (0x80 + c mod 64)]"]) (auto simp: WRITE_UTF8_def utf8_bits cont_mask)
  qed
qed

lemma skip_WRITE_UTF8:
  assumes c: "c < 0x110000" and z: "z = [] \<or> \<not> cont_byte (hd z)"
  shows "SQLITE_SKIP_UTF8 (WRITE_UTF8 c @ z) = z"
proof -
  obtain b y where b: "WRITE_UTF8 c = b # y" "\<forall>x\<in>set y. cont_byte x" "unat b < 0xC0 \<Longrightarrow> y = []"
    using WRITE_UTF8_shape [OF c] by metis
  have "dropWhile cont_byte z = z"
    using z by (cases z) auto
  then have "dropWhile cont_byte (y @ z) = z"
    using b(2) by (simp add: dropWhile_append2)
  then show ?thesis
    using b by (cases "unat b < 0xC0") (auto simp: SQLITE_SKIP_UTF8_def)
qed

lemma charLen_text:
  assumes "\<forall>c\<in>set cs. unicode c \<and> c \<noteq> 0" "int (length (utf8_text cs)) \<le> left"
  shows "charLen_loop (utf8_text cs) left r = r + length cs"
  using assms
proof (induction cs arbitrary: left r)
  case Nil
  then show ?case
    by (simp add: charLen_loop.simps utf8_text_def)
next
  case (Cons c cs)
  have c: "c < 0x110000" "c \<noteq> 0"
    using Cons.prems(1) by (auto simp: unicode_def)
  obtain b y where b: "WRITE_UTF8 c = b # y" "b \<noteq> 0"
    using WRITE_UTF8_shape [OF c(1)] c(2) by metis
  have tx: "utf8_text (c # cs) = WRITE_UTF8 c @ utf8_text cs"
    by (simp add: utf8_text_def)
  have sk: "SQLITE_SKIP_UTF8 (utf8_text (c # cs)) = utf8_text cs"
    unfolding tx using Cons.prems(1) utf8_text_hd [of cs] c(1) by (intro skip_WRITE_UTF8) auto
  have "0 < left"
    using Cons.prems(2) b(1) by (simp add: tx)
  then show ?case
    using Cons.IH [of "left - (int (length (utf8_text (c # cs))) - int (length (utf8_text cs)))" "r + 1"]
      Cons.prems b sk by (subst charLen_loop.simps) (auto simp: tx)
qed

section \<open>Properties\<close>

text \<open>
  C21. Translation between encodings keeps the text: for every sequence of characters (no surrogates
  and no \<open>0xFFFE\<close>, \<open>0xFFFF\<close>), a text value in one encoding is translated by
  \<^verbatim>\<open>sqlite3VdbeMemTranslate\<close> to the value with the same characters in the other encoding, for each of
  the six directions.
\<close>

theorem translate_keeps_text:
  assumes "\<forall>c\<in>set cs. unicode c" "enc \<noteq> enc'"
  defines "tx \<equiv> \<lambda>e. if e = SQLITE_UTF8 then utf8_text cs else utf16_text e cs"
  shows "sqlite3VdbeMemTranslate True \<lparr>mem_z = tx enc, mem_enc = enc\<rparr> enc' = Some \<lparr>mem_z = tx enc', mem_enc = enc'\<rparr>"
proof -
  consider (swap) "enc \<noteq> SQLITE_UTF8" "enc' \<noteq> SQLITE_UTF8" | (to16) "enc = SQLITE_UTF8" "enc' \<noteq> SQLITE_UTF8"
    | (to8) "enc \<noteq> SQLITE_UTF8" "enc' = SQLITE_UTF8"
    using assms(2) by metis
  then show ?thesis
  proof cases
    case swap
    then show ?thesis
      using assms(2) by (simp add: sqlite3VdbeMemTranslate_def tx_def swap_utf16_text)
  next
    case to16
    then show ?thesis
      using utf8_to_16_text [OF assms(1)]
      by (auto simp: sqlite3VdbeMemTranslate_def tx_def utf16_text_def WRITE_UTF16_def)
  next
    case to8
    then show ?thesis
      using utf16_to_8_text [OF assms(1), of enc] utf16_text_even [of enc cs]
      by (simp add: sqlite3VdbeMemTranslate_def tx_def even_iff_mod_2_eq_zero)
  qed
qed

theorem translate_keeps_text_witness:
  "sqlite3VdbeMemTranslate True \<lparr>mem_z = utf8_text [0x1F600, 0x41], mem_enc = SQLITE_UTF8\<rparr> SQLITE_UTF16BE
    = Some \<lparr>mem_z = utf16_text SQLITE_UTF16BE [0x1F600, 0x41], mem_enc = SQLITE_UTF16BE\<rparr>"
  using translate_keeps_text [of "[0x1F600, 0x41]" SQLITE_UTF8 SQLITE_UTF16BE] by (simp add: unicode_def)

text \<open>
  C22. Translation never writes past its buffer: whatever the bytes of the value, valid or not, the
  translated text and its terminator (one byte in UTF-8, two in UTF-16) fit the \<open>len\<close> bytes that are
  allocated.
\<close>

theorem translate_fits_buffer:
  assumes "sqlite3VdbeMemTranslate ok pMem enc' = Some pMem'" "mem_enc pMem \<noteq> enc'"
    "mem_enc pMem = SQLITE_UTF8 \<or> enc' = SQLITE_UTF8"
  shows "length (mem_z pMem') + (if enc' = SQLITE_UTF8 then 1 else 2) \<le> translate_len pMem enc'"
proof (cases "mem_enc pMem = SQLITE_UTF8")
  case True
  then show ?thesis
    using assms utf8_to_16_length [of enc' "mem_z pMem"]
    by (auto simp: sqlite3VdbeMemTranslate_def translate_len_def WRITE_UTF16_def split: if_splits)
next
  case False
  then show ?thesis
    using assms utf16_to_8_length [of "mem_enc pMem" "take (length (mem_z pMem) - length (mem_z pMem) mod 2) (mem_z pMem)"]
    by (auto simp: sqlite3VdbeMemTranslate_def translate_len_def split: if_splits)
qed

theorem translate_fits_buffer_witness:
  "\<exists>m'. sqlite3VdbeMemTranslate True \<lparr>mem_z = [0xFF, 0xBF, 0x80, 0xC1], mem_enc = SQLITE_UTF8\<rparr> SQLITE_UTF16LE = Some m'
    \<and> length (mem_z m') + 2 \<le> 10"
proof -
  obtain m' where m': "sqlite3VdbeMemTranslate True \<lparr>mem_z = [0xFF, 0xBF, 0x80, 0xC1], mem_enc = SQLITE_UTF8\<rparr> SQLITE_UTF16LE = Some m'"
    by (simp add: sqlite3VdbeMemTranslate_def)
  then show ?thesis
    using translate_fits_buffer [OF m'] by (simp add: translate_len_def)
qed

text \<open>
  Reading back what was written: \<^verbatim>\<open>sqlite3Utf8Read\<close> returns the character that
  \<^verbatim>\<open>WRITE_UTF8\<close> wrote and stops right after it, and \<^verbatim>\<open>sqlite3Utf8CharLen\<close> counts the characters of a
  text without zero characters.
\<close>

theorem utf8_read_written:
  assumes "unicode c" "\<forall>c\<in>set cs. unicode c \<and> c \<noteq> 0"
  shows "sqlite3Utf8Read (WRITE_UTF8 c @ utf8_text cs) = (c, utf8_text cs)
    \<and> sqlite3Utf8CharLen (utf8_text cs) None = length cs"
proof
  have "utf8_text cs = [] \<or> \<not> cont_byte (hd (utf8_text cs))"
    using assms(2) utf8_text_hd [of cs] by blast
  then show "sqlite3Utf8Read (WRITE_UTF8 c @ utf8_text cs) = (c, utf8_text cs)"
    unfolding sqlite3Utf8Read_def by (rule READ_WRITE_UTF8 [OF assms(1)])
  show "sqlite3Utf8CharLen (utf8_text cs) None = length cs"
    using charLen_text [OF assms(2), of "int (length (utf8_text cs)) + 1" 0] by (simp add: sqlite3Utf8CharLen_def)
qed

theorem utf8_read_written_witness:
  "sqlite3Utf8Read (WRITE_UTF8 0x20AC @ utf8_text [0x41, 0xE9]) = (0x20AC, utf8_text [0x41, 0xE9])
    \<and> sqlite3Utf8CharLen (utf8_text [0x41, 0xE9]) None = 2"
  using utf8_read_written [of "0x20AC" "[0x41, 0xE9]"] by (simp add: unicode_def)

end
