(* ===== verification/RecordM.thy ===== *)
theory RecordM
  imports Varint IntArith
begin

text \<open>
  The record format: serial types (\<^verbatim>\<open>vdbeaux.c\<close>), the opcode \<^verbatim>\<open>OP_MakeRecord\<close> that builds a record
  from registers (\<^verbatim>\<open>vdbe.c\<close>) and \<^verbatim>\<open>sqlite3VdbeRecordUnpack\<close> that reads one. A register is a value
  with its type flags resolved; floating-point numbers are their 64 bits, and the conversion of an
  integer to one is a parameter.
\<close>

section \<open>Definitions\<close>

text \<open>
  \<open>MNoChange\<close> is a NULL with \<^verbatim>\<open>MEM_Zero\<close>, \<open>MIntReal\<close> an integer flagged \<^verbatim>\<open>MEM_IntReal\<close>, and
  \<open>MBlob z k\<close> a blob whose content \<open>z\<close> is followed by \<open>k\<close> zeros (\<^verbatim>\<open>u.nZero\<close>).
\<close>

datatype Mem_value = MNull | MNoChange | MInt int | MIntReal int | MReal u64 | MStr bytes | MBlob bytes nat

datatype rec_error = SQLITE_NOMEM | SQLITE_TOOBIG

definition sqlite3SmallTypeSizes :: "nat list" where
  "sqlite3SmallTypeSizes = [
     0, 1, 2, 3, 4, 6, 8, 8, 0, 0, 0, 0, 0, 0, 1, 1, 2, 2, 3, 3,
     4, 4, 5, 5, 6, 6, 7, 7, 8, 8, 9, 9, 10, 10, 11, 11, 12, 12, 13, 13,
     14, 14, 15, 15, 16, 16, 17, 17, 18, 18, 19, 19, 20, 20, 21, 21, 22, 22, 23, 23,
     24, 24, 25, 25, 26, 26, 27, 27, 28, 28, 29, 29, 30, 30, 31, 31, 32, 32, 33, 33,
     34, 34, 35, 35, 36, 36, 37, 37, 38, 38, 39, 39, 40, 40, 41, 41, 42, 42, 43, 43,
     44, 44, 45, 45, 46, 46, 47, 47, 48, 48, 49, 49, 50, 50, 51, 51, 52, 52, 53, 53,
     54, 54, 55, 55, 56, 56, 57, 57]"

definition sqlite3VdbeSerialTypeLen :: "nat \<Rightarrow> nat" where
  "sqlite3VdbeSerialTypeLen serial_type =
     (if serial_type \<ge> 128 then (serial_type - 12) div 2 else sqlite3SmallTypeSizes ! serial_type)"

subsection \<open>Writing\<close>

text \<open>The serial type of an integer; \<open>ff4\<close> is \<open>minWriteFileFormat >= 4\<close>.\<close>

definition int_serial_type :: "bool \<Rightarrow> int \<Rightarrow> nat" where
  "int_serial_type ff4 i =
     (let uu = (if i < 0 then - i - 1 else i)
      in if uu \<le> 127 then (if (i = 0 \<or> i = 1) \<and> ff4 then 8 + nat uu else 1)
         else if uu \<le> 32767 then 2
         else if uu \<le> 8388607 then 3
         else if uu \<le> 2147483647 then 4
         else if uu \<le> 140737488355327 then 5
         else 6)"

text \<open>
  The first loop of \<^verbatim>\<open>OP_MakeRecord\<close> visits the registers from the last to the first: each register
  with its serial type (\<open>uTemp\<close>), and \<open>nHdr\<close>, \<open>nData\<close>, \<open>nZero\<close>. A zero-filled tail is expanded when
  data follows it, which may run out of memory.
\<close>

definition record_step :: "(int \<Rightarrow> u64) \<Rightarrow> bool \<Rightarrow> bool \<Rightarrow> Mem_value \<Rightarrow>
  (Mem_value \<times> nat) list \<times> nat \<times> nat \<times> nat \<Rightarrow> rec_error + ((Mem_value \<times> nat) list \<times> nat \<times> nat \<times> nat)"
where
  "record_step to_double ff4 malloc_ok v acc =
     (case acc of (ts, nHdr, nData, nZero) \<Rightarrow>
       (case v of
          MNull \<Rightarrow> Inr ((MNull, 0) # ts, nHdr + 1, nData, nZero)
        | MNoChange \<Rightarrow> Inr ((MNoChange, 10) # ts, nHdr + 1, nData, nZero)
        | MInt i \<Rightarrow>
            (let t = int_serial_type ff4 i
             in Inr ((MInt i, t) # ts, nHdr + 1, nData + sqlite3SmallTypeSizes ! t, nZero))
        | MIntReal i \<Rightarrow>
            (let t = int_serial_type ff4 i
             in if t = 6 then Inr ((MReal (to_double i), 7) # ts, nHdr + 1, nData + 8, nZero)
                else Inr ((MIntReal i, t) # ts, nHdr + 1, nData + sqlite3SmallTypeSizes ! t, nZero))
        | MReal r \<Rightarrow> Inr ((MReal r, 7) # ts, nHdr + 1, nData + 8, nZero)
        | MStr z \<Rightarrow>
            (let serial_type = (length z * 2 + 12 + 1) mod 2 ^ 32
             in Inr ((MStr z, serial_type) # ts, nHdr + sqlite3VarintLen (word_of_nat serial_type),
                     nData + length z, nZero))
        | MBlob z k \<Rightarrow>
            (let serial_type = (length z * 2 + 12 + k * 2) mod 2 ^ 32;
                 nHdr = nHdr + sqlite3VarintLen (word_of_nat serial_type)
             in if k = 0 then Inr ((MBlob z 0, serial_type) # ts, nHdr, nData + length z, nZero)
                else if nData \<noteq> 0 then
                  (if malloc_ok
                   then Inr ((MBlob (z @ replicate k 0) 0, serial_type) # ts, nHdr, nData + length z + k, nZero)
                   else Inl SQLITE_NOMEM)
                else Inr ((MBlob z k, serial_type) # ts, nHdr, nData + length z, nZero + k))))"

fun record_scan :: "(int \<Rightarrow> u64) \<Rightarrow> bool \<Rightarrow> bool \<Rightarrow> Mem_value list \<Rightarrow>
  rec_error + ((Mem_value \<times> nat) list \<times> nat \<times> nat \<times> nat)" where
  "record_scan to_double ff4 malloc_ok [] = Inr ([], 0, 0, 0)"
| "record_scan to_double ff4 malloc_ok (v # vs) =
     (case record_scan to_double ff4 malloc_ok vs of
        Inl e \<Rightarrow> Inl e
      | Inr acc \<Rightarrow> record_step to_double ff4 malloc_ok v acc)"

definition record_nHdr :: "nat \<Rightarrow> nat" where
  "record_nHdr nHdr =
     (if nHdr \<le> 126 then nHdr + 1
      else (let nVarint = sqlite3VarintLen (word_of_nat nHdr); nHdr = nHdr + nVarint
            in if nVarint < sqlite3VarintLen (word_of_nat nHdr) then nHdr + 1 else nHdr))"

text \<open>The falling-through switch: \<open>len\<close> bytes of \<open>v\<close>, the last one least significant.\<close>

fun put_be :: "nat \<Rightarrow> u64 \<Rightarrow> bytes" where
  "put_be 0 v = []"
| "put_be (Suc len) v = put_be len (drop_bit 8 v) @ [ucast (v AND 0xff)]"

definition mem_content :: "Mem_value \<Rightarrow> bytes" where
  "mem_content v = (case v of MStr z \<Rightarrow> z | MBlob z k \<Rightarrow> z | _ \<Rightarrow> [])"

text \<open>The second loop: the header and payload bytes of one register.\<close>

definition record_field :: "Mem_value \<times> nat \<Rightarrow> bytes \<times> bytes" where
  "record_field vt =
     (case vt of (v, serial_type) \<Rightarrow>
       (if serial_type \<le> 7 then
          ([cast8 serial_type],
           if serial_type = 0 then []
           else put_be (sqlite3SmallTypeSizes ! serial_type)
                  (case v of MReal r \<Rightarrow> r | MInt i \<Rightarrow> word_of_int i | MIntReal i \<Rightarrow> word_of_int i | _ \<Rightarrow> 0))
        else if serial_type < 0x80 then
          ([cast8 serial_type], if serial_type \<ge> 14 then mem_content v else [])
        else (sqlite3PutVarint (word_of_nat serial_type), mem_content v)))"

text \<open>
  \<^verbatim>\<open>OP_MakeRecord\<close> after the affinities are applied: the bytes of the record and the number of zeros
  that follow them. \<open>szMalloc\<close> is the space of the output register, \<open>limit\<close> the maximum length, and the
  two booleans whether the two kinds of allocation succeed.
\<close>

definition OP_MakeRecord :: "(int \<Rightarrow> u64) \<Rightarrow> bool \<Rightarrow> nat \<Rightarrow> nat \<Rightarrow> bool \<Rightarrow> bool \<Rightarrow> Mem_value list \<Rightarrow>
  rec_error + (bytes \<times> nat)" where
  "OP_MakeRecord to_double ff4 limit szMalloc expand_ok resize_ok vs =
     (case record_scan to_double ff4 expand_ok vs of
        Inl e \<Rightarrow> Inl e
      | Inr (ts, nHdr, nData, nZero) \<Rightarrow>
          (let nHdr = record_nHdr nHdr; nByte = nHdr + nData
           in if \<not> nByte + nZero \<le> szMalloc \<and> nByte + nZero > limit then Inl SQLITE_TOOBIG
              else if \<not> nByte + nZero \<le> szMalloc \<and> \<not> resize_ok then Inl SQLITE_NOMEM
              else Inr ((if nHdr < 0x80 then [cast8 nHdr] else sqlite3PutVarint (word_of_nat nHdr))
                          @ concat (map (fst \<circ> record_field) ts) @ concat (map (snd \<circ> record_field) ts),
                        nZero)))"

subsection \<open>Reading\<close>

text \<open>The integer macros, on \<^verbatim>\<open>int\<close> with the sign of the first byte; the bytes are read through \<open>rd8\<close>.\<close>

definition ONE_BYTE_INT :: "u8 \<Rightarrow> int" where
  "ONE_BYTE_INT x0 = sint x0"

definition TWO_BYTE_INT :: "u8 \<Rightarrow> u8 \<Rightarrow> int" where
  "TWO_BYTE_INT x0 x1 = (256 * sint x0) OR uint x1"

definition THREE_BYTE_INT :: "u8 \<Rightarrow> u8 \<Rightarrow> u8 \<Rightarrow> int" where
  "THREE_BYTE_INT x0 x1 x2 = (65536 * sint x0) OR push_bit 8 (uint x1) OR uint x2"

definition FOUR_BYTE_UINT :: "u8 \<Rightarrow> u8 \<Rightarrow> u8 \<Rightarrow> u8 \<Rightarrow> int" where
  "FOUR_BYTE_UINT x0 x1 x2 x3 =
     push_bit 24 (uint x0) OR push_bit 16 (uint x1) OR push_bit 8 (uint x2) OR uint x3"

definition FOUR_BYTE_INT :: "u8 \<Rightarrow> u8 \<Rightarrow> u8 \<Rightarrow> u8 \<Rightarrow> int" where
  "FOUR_BYTE_INT x0 x1 x2 x3 =
     (16777216 * sint x0) OR push_bit 16 (uint x1) OR push_bit 8 (uint x2) OR uint x3"

definition IsNaN :: "u64 \<Rightarrow> bool" where
  "IsNaN x \<longleftrightarrow> x AND push_bit 52 0x7ff = push_bit 52 0x7ff \<and> x AND (push_bit 52 1 - 1) \<noteq> 0"

definition serialGet :: "bytes \<Rightarrow> nat \<Rightarrow> Mem_value option" where
  "serialGet buf serial_type = do {
     b0 \<leftarrow> rd8 buf 0; b1 \<leftarrow> rd8 buf 1; b2 \<leftarrow> rd8 buf 2; b3 \<leftarrow> rd8 buf 3;
     b4 \<leftarrow> rd8 buf 4; b5 \<leftarrow> rd8 buf 5; b6 \<leftarrow> rd8 buf 6; b7 \<leftarrow> rd8 buf 7;
     let x = (word_of_int (FOUR_BYTE_UINT b0 b1 b2 b3) :: u64);
     let y = (word_of_int (FOUR_BYTE_UINT b4 b5 b6 b7) :: u64);
     let x = push_bit 32 x + y;
     Some (if serial_type = 6 then MInt (sint x) else if IsNaN x then MNull else MReal x) }"

text \<open>
  \<^verbatim>\<open>sqlite3VdbeSerialGet\<close>. Of a text or blob the source stores the address and the length without reading it; here
  the value is the bytes, and one that extends past the buffer is cut at its end. \<^verbatim>\<open>sqlite3VdbeRecordUnpack\<close>
  sets such a value to NULL (\<open>d > nKey\<close> below).
\<close>

definition sqlite3VdbeSerialGet :: "bytes \<Rightarrow> nat \<Rightarrow> Mem_value option" where
  "sqlite3VdbeSerialGet buf serial_type =
     (if serial_type = 10 then Some MNoChange
      else if serial_type = 11 \<or> serial_type = 0 then Some MNull
      else if serial_type = 1 then do { b0 \<leftarrow> rd8 buf 0; Some (MInt (ONE_BYTE_INT b0)) }
      else if serial_type = 2 then do { b0 \<leftarrow> rd8 buf 0; b1 \<leftarrow> rd8 buf 1; Some (MInt (TWO_BYTE_INT b0 b1)) }
      else if serial_type = 3 then do {
        b0 \<leftarrow> rd8 buf 0; b1 \<leftarrow> rd8 buf 1; b2 \<leftarrow> rd8 buf 2; Some (MInt (THREE_BYTE_INT b0 b1 b2)) }
      else if serial_type = 4 then do {
        b0 \<leftarrow> rd8 buf 0; b1 \<leftarrow> rd8 buf 1; b2 \<leftarrow> rd8 buf 2; b3 \<leftarrow> rd8 buf 3;
        Some (MInt (FOUR_BYTE_INT b0 b1 b2 b3)) }
      else if serial_type = 5 then do {
        b0 \<leftarrow> rd8 buf 0; b1 \<leftarrow> rd8 buf 1; b2 \<leftarrow> rd8 buf 2; b3 \<leftarrow> rd8 buf 3; b4 \<leftarrow> rd8 buf 4; b5 \<leftarrow> rd8 buf 5;
        Some (MInt (FOUR_BYTE_UINT b2 b3 b4 b5 + push_bit 32 1 * TWO_BYTE_INT b0 b1)) }
      else if serial_type = 6 \<or> serial_type = 7 then serialGet buf serial_type
      else if serial_type = 8 \<or> serial_type = 9 then Some (MInt (int serial_type - 8))
      else (let n = (serial_type - 12) div 2
            in Some (if odd serial_type then MStr (take n buf) else MBlob (take n buf) 0)))"

text \<open>
  The loop of \<^verbatim>\<open>sqlite3VdbeRecordUnpack\<close>: \<open>aKey\<close> is the memory that may be read, \<open>nKey\<close> the size of the
  record in it, \<open>nField\<close> the room that is left in \<open>aMem\<close>; the result is the values and the final \<open>d\<close>.
\<close>

function unpack_loop :: "bytes \<Rightarrow> nat \<Rightarrow> nat \<Rightarrow> nat \<Rightarrow> nat \<Rightarrow> nat \<Rightarrow> (Mem_value list \<times> nat) option" where
  "unpack_loop aKey nKey szHdr nField idx d =
     (if idx < szHdr \<and> d \<le> nKey then do {
        (serial_type, n) \<leftarrow> getVarint32 (drop idx aKey);
        v \<leftarrow> sqlite3VdbeSerialGet (drop d aKey) (unat serial_type);
        let d = (d + sqlite3VdbeSerialTypeLen (unat serial_type)) mod 2 ^ 32;
        if nField \<le> 1 then Some ([v], d)
        else map_option (\<lambda>(vs, d). (v # vs, d)) (unpack_loop aKey nKey szHdr (nField - 1) (idx + n) d) }
      else Some ([], d))"
  by pat_completeness auto
termination
  by (relation "measure (\<lambda>(aKey, nKey, szHdr, nField, idx, d). nField)") auto

definition sqlite3VdbeRecordUnpack :: "nat \<Rightarrow> bytes \<Rightarrow> nat \<Rightarrow> Mem_value list option" where
  "sqlite3VdbeRecordUnpack nKey aKey nField = do {
     (szHdr, idx) \<leftarrow> getVarint32 aKey;
     (vs, d) \<leftarrow> unpack_loop aKey nKey (unat szHdr) nField idx (unat szHdr);
     Some (if d > nKey \<and> vs \<noteq> [] then butlast vs @ [MNull] else vs) }"

declare unpack_loop.simps [simp del]


section \<open>Big-endian integers\<close>

lemma put_be_bytes: "put_be n v = map (\<lambda>m. cast8 (unat v div 256 ^ m)) (rev [0..<n])"
proof (induction n arbitrary: v)
  case (Suc n)
  have "unat (drop_bit 8 v) = unat v div 256"
    by (simp only: unat_drop_bit_eq) (simp add: drop_bit_eq_div)
  then have d: "unat (drop_bit 8 v) div 256 ^ m = unat v div 256 ^ Suc m" for m
    by (simp only: div_mult2_eq power_Suc)
  have l: "ucast (v AND 0xff) = cast8 (unat v)"
  proof (rule bit_word_eqI)
    fix k assume "k < LENGTH(8)"
    moreover have "bit (0xff :: int) k = bit (mask 8 :: int) k"
      by (simp add: mask_eq_exp_minus_1)
    ultimately show "bit (ucast (v AND 0xff) :: u8) k = bit (cast8 (unat v)) k"
      by (simp add: cast8_def bit_simps)
  qed
  have r: "rev [0..<Suc n] = map Suc (rev [0..<n]) @ [0]"
    by (simp add: rev_map [symmetric] map_Suc_upt upt_conv_Cons del: upt_Suc)
  show ?case
    unfolding put_be.simps(2) Suc.IH r by (simp add: d l del: power_Suc)
qed simp

lemma int_byte: "m \<le> 7 \<Longrightarrow> cast8 (unat (word_of_int i :: u64) div 256 ^ m) = word_of_int (i div 256 ^ m)"
proof (rule word_uint_eqI)
  assume m: "m \<le> 7"
  have p: "(2 :: int) ^ (8 * m) = 256 ^ m"
    by (simp add: power_mult)
  have "int (unat (word_of_int i :: u64) div 256 ^ m mod 256) = take_bit 8 (drop_bit (8 * m) (take_bit 64 i))"
    by (simp add: take_bit_eq_mod drop_bit_eq_div zdiv_int zmod_int p unsigned_of_int)
  also have "\<dots> = take_bit (min (64 - 8 * m) 8) (drop_bit (8 * m) i)"
    by (simp add: drop_bit_take_bit min.commute)
  also have "min (64 - 8 * m) 8 = 8"
    using m by linarith
  finally show "uint (cast8 (unat (word_of_int i :: u64) div 256 ^ m)) = uint (word_of_int (i div 256 ^ m) :: u8)"
    by (simp add: take_bit_eq_mod drop_bit_eq_div p unsigned_of_int cast8_def unsigned_of_nat zmod_int)
qed

lemma or_plus_int: "0 \<le> b \<Longrightarrow> b < 2 ^ k \<Longrightarrow> (2 ^ k * a) OR b = 2 ^ k * a + (b :: int)"
proof -
  assume b: "0 \<le> b" "b < 2 ^ k"
  have 1: "concat_bit k b a = b OR push_bit k a"
    using b by (simp only: concat_bit_def take_bit_int_eq_self)
  have 2: "concat_bit k b a = b + push_bit k a"
    using b by (simp only: concat_bit_eq take_bit_int_eq_self)
  from 1 2 show ?thesis
    by (simp add: push_bit_eq_mult or.commute add.commute mult.commute)
qed


lemma uint_u8: "0 \<le> uint (x :: u8)" "uint (x :: u8) < 256"
  using unsigned_less [of x, where 'a = int] by simp_all

lemma byte_ints:
  "TWO_BYTE_INT x0 x1 = 256 * sint x0 + uint x1"
  "THREE_BYTE_INT x0 x1 x2 = 65536 * sint x0 + (256 * uint x1 + uint x2)"
  "FOUR_BYTE_INT x0 x1 x2 x3 = 16777216 * sint x0 + (65536 * uint x1 + (256 * uint x2 + uint x3))"
  "FOUR_BYTE_UINT x0 x1 x2 x3 = 16777216 * uint x0 + (65536 * uint x1 + (256 * uint x2 + uint x3))"
proof -
  note u = uint_u8 [of x0] uint_u8 [of x1] uint_u8 [of x2] uint_u8 [of x3]
  have two: "(256 * a) OR uint x = 256 * a + uint x" for a and x :: u8
    using or_plus_int [of "uint (x::u8)" 8 a] uint_u8 [of x] by simp
  have three: "(65536 * a) OR (256 * uint x + uint y) = 65536 * a + (256 * uint x + uint y)" for a and x y :: u8
    using or_plus_int [of "256 * uint (x::u8) + uint (y::u8)" 16 a] uint_u8 [of x] uint_u8 [of y] by simp
  have four: "(16777216 * a) OR (65536 * uint w + (256 * uint x + uint y))
      = 16777216 * a + (65536 * uint w + (256 * uint x + uint y))" for a and w x y :: u8
    using or_plus_int [of "65536 * uint (w::u8) + (256 * uint (x::u8) + uint (y::u8))" 24 a]
      uint_u8 [of w] uint_u8 [of x] uint_u8 [of y] by simp
  note p = push_bit_eq_mult mult.commute [of _ "65536::int"] mult.commute [of _ "256::int"]
    mult.commute [of _ "16777216::int"]
  show "TWO_BYTE_INT x0 x1 = 256 * sint x0 + uint x1"
    by (simp add: TWO_BYTE_INT_def two)
  show "THREE_BYTE_INT x0 x1 x2 = 65536 * sint x0 + (256 * uint x1 + uint x2)"
    by (simp add: THREE_BYTE_INT_def p two three)
  show "FOUR_BYTE_INT x0 x1 x2 x3 = 16777216 * sint x0 + (65536 * uint x1 + (256 * uint x2 + uint x3))"
    by (simp add: FOUR_BYTE_INT_def p two three four)
  show "FOUR_BYTE_UINT x0 x1 x2 x3 = 16777216 * uint x0 + (65536 * uint x1 + (256 * uint x2 + uint x3))"
    by (simp add: FOUR_BYTE_UINT_def p two three four)
qed

text \<open>The bytes of an integer: the lower ones are digits, the top one carries the sign.\<close>

definition digit :: "int \<Rightarrow> nat \<Rightarrow> u8" where
  "digit i m = word_of_int (i div 256 ^ m)"

lemma uint_digit: "uint (digit i m) = i div 256 ^ m mod 256"
  by (simp add: digit_def unsigned_of_int take_bit_eq_mod)

lemma div_less_int: "i < d * k \<Longrightarrow> 0 < d \<Longrightarrow> i div d < (k :: int)"
proof (rule ccontr)
  assume i: "i < d * k" "0 < d" and "\<not> i div d < k"
  then have "d * k \<le> d * (i div d)"
    by (simp add: mult_left_mono)
  moreover have "d * (i div d) \<le> i"
    using i(2) pos_mod_sign [of d i] mult_div_mod_eq [of d i] by linarith
  ultimately show False
    using i(1) by linarith
qed

lemma sint_digit: "- (256 ^ m * 128) \<le> i \<Longrightarrow> i < 256 ^ m * 128 \<Longrightarrow> sint (digit i m) = i div 256 ^ m"
proof -
  assume i: "- (256 ^ m * 128) \<le> i" "i < 256 ^ m * 128"
  have "(0::int) < 256 ^ m"
    by simp
  have "- 128 \<le> i div 256 ^ m"
    using i(1) \<open>0 < 256 ^ m\<close> by (metis (no_types) mult_minus_right nonzero_mult_div_cancel_left zdiv_mono1 less_irrefl)
  moreover have "i div 256 ^ m < 128"
    using i(2) \<open>0 < 256 ^ m\<close> by (rule div_less_int)
  ultimately show ?thesis
    by (simp add: digit_def signed_of_int signed_take_bit_int_eq_self)
qed

lemma put_be_int: "n \<le> 8 \<Longrightarrow> put_be n (word_of_int i) = map (digit i) (rev [0..<n])"
  by (auto simp: put_be_bytes digit_def int_byte)

lemma digits_step: "256 * (i div 256 ^ Suc m) + uint (digit i m) = i div 256 ^ m"
proof -
  have "i div 256 ^ Suc m = i div 256 ^ m div 256"
    by (simp only: power_Suc2 zdiv_zmult2_eq)
  then show ?thesis
    by (simp only: uint_digit) simp
qed


lemma digits_join:
  "- 128 \<le> i \<Longrightarrow> i < 128 \<Longrightarrow> ONE_BYTE_INT (digit i 0) = i"
  "- 32768 \<le> i \<Longrightarrow> i < 32768 \<Longrightarrow> TWO_BYTE_INT (digit i 1) (digit i 0) = i"
  "- 8388608 \<le> i \<Longrightarrow> i < 8388608 \<Longrightarrow> THREE_BYTE_INT (digit i 2) (digit i 1) (digit i 0) = i"
  "- 2147483648 \<le> i \<Longrightarrow> i < 2147483648 \<Longrightarrow> FOUR_BYTE_INT (digit i 3) (digit i 2) (digit i 1) (digit i 0) = i"
  "- 140737488355328 \<le> i \<Longrightarrow> i < 140737488355328 \<Longrightarrow>
     FOUR_BYTE_UINT (digit i 3) (digit i 2) (digit i 1) (digit i 0) + 4294967296 * TWO_BYTE_INT (digit i 5) (digit i 4) = i"
proof -
  note d = digits_step [of i 0] digits_step [of i 1] digits_step [of i 2] digits_step [of i 3] digits_step [of i 4]
  note dd = byte_ints ONE_BYTE_INT_def
  { assume "- 128 \<le> i" "i < 128"
    then show "ONE_BYTE_INT (digit i 0) = i"
      using sint_digit [of 0 i] by (simp add: dd) }
  { assume "- 32768 \<le> i" "i < 32768"
    then have "sint (digit i 1) = i div 256 ^ 1"
      by (intro sint_digit) simp_all
    then show "TWO_BYTE_INT (digit i 1) (digit i 0) = i"
      unfolding dd using d(1) by simp }
  { assume "- 8388608 \<le> i" "i < 8388608"
    then have "sint (digit i 2) = i div 256 ^ 2"
      by (intro sint_digit) simp_all
    then show "THREE_BYTE_INT (digit i 2) (digit i 1) (digit i 0) = i"
      unfolding dd using d(1,2) by (simp add: numeral_2_eq_2 [symmetric]) }
  { assume "- 2147483648 \<le> i" "i < 2147483648"
    then have "sint (digit i 3) = i div 256 ^ 3"
      by (intro sint_digit) simp_all
    then show "FOUR_BYTE_INT (digit i 3) (digit i 2) (digit i 1) (digit i 0) = i"
      unfolding dd using d(1-3) by (simp add: numeral_2_eq_2 [symmetric]) }
  { assume "- 140737488355328 \<le> i" "i < 140737488355328"
    then have "sint (digit i 5) = i div 256 ^ 5"
      by (intro sint_digit) simp_all
    then show "FOUR_BYTE_UINT (digit i 3) (digit i 2) (digit i 1) (digit i 0)
        + 4294967296 * TWO_BYTE_INT (digit i 5) (digit i 4) = i"
      unfolding dd using d by (simp add: numeral_2_eq_2 [symmetric]) }
qed


lemma rev_upts:
  "rev [0..<1] = [0::nat]" "rev [0..<2] = [1, 0::nat]" "rev [0..<3] = [2, 1, 0::nat]"
  "rev [0..<4] = [3, 2, 1, 0::nat]" "rev [0..<6] = [5, 4, 3, 2, 1, 0::nat]"
  "rev [0..<8] = [7, 6, 5, 4, 3, 2, 1, 0::nat]"
  by code_simp+

lemma serialGet_put: "serialGet (put_be 8 v @ q) t
   = Some (if t = 6 then MInt (sint v) else if IsNaN v then MNull else MReal v)"
proof -
  let ?i = "uint v"
  have bytes: "put_be 8 v = [digit ?i 7, digit ?i 6, digit ?i 5, digit ?i 4, digit ?i 3, digit ?i 2, digit ?i 1, digit ?i 0]"
    using put_be_int [of 8 ?i] by (simp add: rev_upts)
  have "?i div 256 ^ 8 = 0"
    using unsigned_less [of v, where 'a = int] by (simp add: div_pos_pos_trivial)
  then have "FOUR_BYTE_UINT (digit ?i 7) (digit ?i 6) (digit ?i 5) (digit ?i 4) = ?i div 256 ^ 4"
    using digits_step [of ?i 4] digits_step [of ?i 5] digits_step [of ?i 6] digits_step [of ?i 7] by (simp add: byte_ints)
  moreover have "4294967296 * (?i div 256 ^ 4) + FOUR_BYTE_UINT (digit ?i 3) (digit ?i 2) (digit ?i 1) (digit ?i 0) = ?i"
    using digits_step [of ?i 0] digits_step [of ?i 1] digits_step [of ?i 2] digits_step [of ?i 3]
    by (simp add: byte_ints numeral_2_eq_2 [symmetric])
  then have "word_of_int (4294967296 * (?i div 256 ^ 4) + FOUR_BYTE_UINT (digit ?i 3) (digit ?i 2) (digit ?i 1) (digit ?i 0)) = v"
    by (simp only: word_of_int_uint)
  ultimately have "push_bit 32 (word_of_int (FOUR_BYTE_UINT (digit ?i 7) (digit ?i 6) (digit ?i 5) (digit ?i 4)) :: u64)
     + word_of_int (FOUR_BYTE_UINT (digit ?i 3) (digit ?i 2) (digit ?i 1) (digit ?i 0)) = v"
    by (simp add: push_bit_eq_mult mult.commute)
  then show ?thesis
    unfolding serialGet_def bytes by (simp add: mem_simps Let_def)
qed

section \<open>Serial types\<close>

lemma SmallTypeSizes_text: "12 \<le> t \<Longrightarrow> t < 128 \<Longrightarrow> sqlite3SmallTypeSizes ! t = (t - 12) div 2"
proof -
  have "list_all (\<lambda>t. 12 \<le> t \<longrightarrow> sqlite3SmallTypeSizes ! t = (t - 12) div 2) [0..<128]"
    by code_simp
  then show "12 \<le> t \<Longrightarrow> t < 128 \<Longrightarrow> ?thesis"
    by (auto simp: list_all_iff)
qed

lemma SerialTypeLen_text: "12 \<le> t \<Longrightarrow> sqlite3VdbeSerialTypeLen t = (t - 12) div 2"
  by (simp add: sqlite3VdbeSerialTypeLen_def SmallTypeSizes_text)

lemma SerialTypeLen_small:
  "sqlite3VdbeSerialTypeLen 0 = 0" "sqlite3VdbeSerialTypeLen 1 = 1" "sqlite3VdbeSerialTypeLen 2 = 2"
  "sqlite3VdbeSerialTypeLen 3 = 3" "sqlite3VdbeSerialTypeLen 4 = 4" "sqlite3VdbeSerialTypeLen 5 = 6"
  "sqlite3VdbeSerialTypeLen 6 = 8" "sqlite3VdbeSerialTypeLen 7 = 8" "sqlite3VdbeSerialTypeLen 8 = 0"
  "sqlite3VdbeSerialTypeLen 9 = 0" "sqlite3VdbeSerialTypeLen 10 = 0"
  by (simp_all add: sqlite3VdbeSerialTypeLen_def sqlite3SmallTypeSizes_def)

lemma SmallTypeSizes_len: "t < 128 \<Longrightarrow> sqlite3SmallTypeSizes ! t = sqlite3VdbeSerialTypeLen t"
  by (simp add: sqlite3VdbeSerialTypeLen_def)

text \<open>The serial type of an integer is one that holds it.\<close>

lemma int_serial_type_cases:
  assumes "is_i64 i"
  obtains "int_serial_type ff4 i = 1" "- 128 \<le> i" "i < 128"
  | "int_serial_type ff4 i = 2" "- 32768 \<le> i" "i < 32768"
  | "int_serial_type ff4 i = 3" "- 8388608 \<le> i" "i < 8388608"
  | "int_serial_type ff4 i = 4" "- 2147483648 \<le> i" "i < 2147483648"
  | "int_serial_type ff4 i = 5" "- 140737488355328 \<le> i" "i < 140737488355328"
  | "int_serial_type ff4 i = 6" "- (2 ^ 63) \<le> i" "i < 2 ^ 63"
  | "int_serial_type ff4 i = 8" "i = 0"
  | "int_serial_type ff4 i = 9" "i = 1"
proof -
  define uu where "uu = (if i < 0 then - i - 1 else i)"
  have t: "int_serial_type ff4 i =
     (if uu \<le> 127 then (if (i = 0 \<or> i = 1) \<and> ff4 then 8 + nat uu else 1)
         else if uu \<le> 32767 then 2
         else if uu \<le> 8388607 then 3
         else if uu \<le> 2147483647 then 4
         else if uu \<le> 140737488355327 then 5
         else 6)"
    by (simp add: int_serial_type_def uu_def Let_def)
  have bound: "- k - 1 \<le> i \<and> i < k + 1" if "uu \<le> k" for k
    using that by (auto simp: uu_def split: if_splits)
  consider "i = 0 \<and> ff4" | "i = 1 \<and> ff4" | "\<not> ((i = 0 \<or> i = 1) \<and> ff4)" "uu \<le> 127" | "127 < uu" "uu \<le> 32767"
    | "32767 < uu" "uu \<le> 8388607" | "8388607 < uu" "uu \<le> 2147483647"
    | "2147483647 < uu" "uu \<le> 140737488355327" | "140737488355327 < uu"
    by linarith
  then show thesis
  proof cases
    case 1 with that(7) t uu_def show ?thesis by simp
  next
    case 2 with that(8) t uu_def show ?thesis by simp
  next
    case 3 with that(1) t bound [of 127] show ?thesis by simp
  next
    case 4 with that(2) t bound [of 32767] show ?thesis by simp
  next
    case 5 with that(3) t bound [of 8388607] show ?thesis by simp
  next
    case 6 with that(4) t bound [of 2147483647] show ?thesis by simp
  next
    case 7 with that(5) t bound [of 140737488355327] show ?thesis by simp
  next
    case 8 with that(6) t assms show ?thesis by (simp add: is_i64_def)
  qed
qed

lemma int_field:
  fixes i :: int and ff4 :: bool
  assumes "is_i64 i"
  defines "t \<equiv> int_serial_type ff4 i"
  shows "sqlite3VdbeSerialGet (put_be (sqlite3VdbeSerialTypeLen t) (word_of_int i) @ q) t = Some (MInt i)"
    and "t < 10"
proof -
  note p = put_be_int
  have "sqlite3VdbeSerialGet (put_be (sqlite3VdbeSerialTypeLen t) (word_of_int i) @ q) t = Some (MInt i) \<and> t < 10"
  proof (cases rule: int_serial_type_cases [OF assms(1), of ff4])
    case 6
    then have "sint (word_of_int i :: u64) = i"
      by (simp add: signed_of_int signed_take_bit_int_eq_self)
    with 6 show ?thesis
      by (simp add: t_def sqlite3VdbeSerialGet_def SerialTypeLen_small serialGet_put)
  qed (simp_all add: t_def sqlite3VdbeSerialGet_def SerialTypeLen_small p rev_upts mem_simps digits_join
       push_bit_eq_mult del: One_nat_def)
  then show "sqlite3VdbeSerialGet (put_be (sqlite3VdbeSerialTypeLen t) (word_of_int i) @ q) t = Some (MInt i)" "t < 10"
    by blast+
qed


section \<open>Fields\<close>

lemma word_of_nat_u64: "t < 2 ^ 32 \<Longrightarrow> unat (word_of_nat t :: u64) = t"
  by (simp add: unsigned_of_nat take_bit_nat_eq_self)

lemma PutVarint_small: "t < 128 \<Longrightarrow> sqlite3PutVarint (word_of_nat t) = [cast8 t]"
proof -
  assume t: "t < 128"
  have "(word_of_nat t :: u64) \<le> 0x7f"
    using t by (simp add: word_le_nat_alt word_of_nat_u64)
  moreover have "ucast (word_of_nat t AND 0x7f :: u64) = cast8 t"
  proof (rule bit_word_eqI)
    fix k assume "k < LENGTH(8)"
    moreover have "\<not> bit t 7"
      using t by (simp add: bit_nat_def bit_iff_odd)
    ultimately show "bit (ucast (word_of_nat t AND 0x7f :: u64) :: u8) k = bit (cast8 t) k"
      by (cases "k = 7") (simp_all add: cast8_def bit_simps bytes_simps)
  qed
  ultimately show ?thesis
    by (simp add: sqlite3PutVarint_def)
qed

lemma field_header:
  assumes "t < 2 ^ 32"
  shows "fst (record_field (v, t)) = sqlite3PutVarint (word_of_nat t)"
  by (simp add: record_field_def PutVarint_small)

lemma header_read:
  assumes "t < 2 ^ 32"
  shows "getVarint32 (sqlite3PutVarint (word_of_nat t) @ q)
     = Some (word_of_nat t, length (sqlite3PutVarint (word_of_nat t :: u64)))"
proof -
  have "(word_of_nat t :: u64) = ucast (word_of_nat t :: u32)"
    using assms by (simp add: word_eq_iff_unsigned unsigned_ucast_eq unsigned_of_nat take_bit_nat_eq_self)
  then show ?thesis
    by (simp add: getVarint32_saturates get_put_varint saturate32_id)
qed

lemma header_length:
  assumes "t < 2 ^ 32"
  shows "length (sqlite3PutVarint (word_of_nat t)) = sqlite3VarintLen (word_of_nat t)"
  using assms by (simp add: length_put varintLen_buf word_of_nat_u64)

lemma header_length_pos: "0 < length (sqlite3PutVarint v)"
  by (simp add: length_put buf_ne)


text \<open>The value a register has after it went through a record.\<close>

definition stored :: "(int \<Rightarrow> u64) \<Rightarrow> bool \<Rightarrow> Mem_value \<Rightarrow> Mem_value" where
  "stored to_double ff4 v =
     (let real = (\<lambda>r. if IsNaN r then MNull else MReal r)
      in case v of
           MIntReal i \<Rightarrow> if int_serial_type ff4 i = 6 then real (to_double i) else MInt i
         | MReal r \<Rightarrow> real r
         | MBlob z k \<Rightarrow> MBlob (z @ replicate k 0) 0
         | _ \<Rightarrow> v)"

definition mem_ok :: "Mem_value \<Rightarrow> bool" where
  "mem_ok v = (case v of MInt i \<Rightarrow> is_i64 i | MIntReal i \<Rightarrow> is_i64 i | _ \<Rightarrow> True)"

text \<open>\<open>reads ts P vs\<close>: a payload \<open>P\<close> holds the values \<open>vs\<close> under the serial types \<open>ts\<close>.\<close>

fun reads :: "nat list \<Rightarrow> bytes \<Rightarrow> Mem_value list \<Rightarrow> bool" where
  "reads [] P vs \<longleftrightarrow> P = [] \<and> vs = []"
| "reads (t # ts) P [] \<longleftrightarrow> False"
| "reads (t # ts) P (v # vs) \<longleftrightarrow>
     t < 2 ^ 32 \<and> sqlite3VdbeSerialTypeLen t \<le> length P \<and> sqlite3VdbeSerialGet P t = Some v
     \<and> reads ts (drop (sqlite3VdbeSerialTypeLen t) P) vs"

lemma reads_Cons:
  assumes "t < 2 ^ 32" "length p = sqlite3VdbeSerialTypeLen t" "sqlite3VdbeSerialGet (p @ P) t = Some v"
    and "reads ts P vs"
  shows "reads (t # ts) (p @ P) (v # vs)"
  using assms by simp

lemma reads_length: "reads ts P vs \<Longrightarrow> length ts = length vs"
  by (induction ts P vs rule: reads.induct) auto

lemma reads_types: "reads ts P vs \<Longrightarrow> \<forall>t\<in>set ts. t < 2 ^ 32"
  by (induction ts P vs rule: reads.induct) auto

lemma length_put_be [simp]: "length (put_be n v) = n"
  by (simp add: put_be_bytes)

lemma text_get:
  assumes "length p * 2 + 12 + b < 2 ^ 32" "b \<le> 1"
  shows "sqlite3VdbeSerialGet (p @ P) (length p * 2 + 12 + b) = Some (if b = 1 then MStr p else MBlob p 0)"
    and "sqlite3VdbeSerialTypeLen (length p * 2 + 12 + b) = length p"
  using assms by (auto simp: sqlite3VdbeSerialGet_def SerialTypeLen_text le_Suc_eq)

text \<open>What \<open>record_field\<close> writes for each kind of register, up to the trailing zeros.\<close>

lemma text_payload:
  assumes "12 \<le> t" "t \<ge> 14 \<or> mem_content v = []"
  shows "snd (record_field (v, t)) = mem_content v"
  using assms by (auto simp: record_field_def)

lemma int_payload:
  assumes "t < 10" "v = MInt i \<or> v = MIntReal i"
  shows "snd (record_field (v, t)) = put_be (sqlite3VdbeSerialTypeLen t) (word_of_int i)"
proof -
  consider "t \<le> 7" "t \<noteq> 0" | "t = 0" | "t = 8" | "t = 9"
    using assms(1) by linarith
  then show ?thesis
    using assms(2) by cases (auto simp: record_field_def SmallTypeSizes_len SerialTypeLen_small)
qed

definition hdr_size :: "(Mem_value \<times> nat) list \<Rightarrow> nat" where
  "hdr_size ts = length (concat (map (fst \<circ> record_field) ts))"

definition payload :: "(Mem_value \<times> nat) list \<Rightarrow> bytes" where
  "payload ts = concat (map (snd \<circ> record_field) ts)"

text \<open>The invariant of the first loop: the sizes are those of the bytes the second loop writes.\<close>

definition scan_ok :: "Mem_value list \<Rightarrow> (Mem_value \<times> nat) list \<times> nat \<times> nat \<times> nat \<Rightarrow> bool" where
  "scan_ok ws acc = (case acc of (ts, nHdr, nData, nZero) \<Rightarrow>
     hdr_size ts = nHdr \<and> length (payload ts) = nData \<and> reads (map snd ts) (payload ts @ replicate nZero 0) ws)"

lemma scan_ok_Cons:
  assumes "scan_ok ws (ts, nHdr, nData, nZero)" "t < 2 ^ 32"
    and "sqlite3VdbeSerialGet (snd (record_field (v, t)) @ payload ts @ replicate nZero 0) t = Some w"
    and "length (snd (record_field (v, t))) = sqlite3VdbeSerialTypeLen t"
    and "nH = sqlite3VarintLen (word_of_nat t)"
  shows "scan_ok (w # ws) ((v, t) # ts, nHdr + nH, nData + sqlite3VdbeSerialTypeLen t, nZero)"
proof -
  have "reads (t # map snd ts) (snd (record_field (v, t)) @ payload ts @ replicate nZero 0) (w # ws)"
    using assms by (intro reads_Cons) (auto simp: scan_ok_def)
  moreover have "hdr_size ((v, t) # ts) = nH + hdr_size ts"
    using assms(2,5) field_header [OF assms(2), of v] header_length [OF assms(2)] by (simp add: hdr_size_def)
  moreover have "payload ((v, t) # ts) = snd (record_field (v, t)) @ payload ts"
    by (simp add: payload_def)
  ultimately show ?thesis
    using assms(1,4) by (simp add: scan_ok_def)
qed


lemma VarintLen_small: "t < 128 \<Longrightarrow> sqlite3VarintLen (word_of_nat t) = 1"
  using header_length [of t] PutVarint_small [of t] by simp

lemma scan_ok_small:
  assumes "scan_ok ws (ts, nHdr, nData, nZero)" "t < 12"
    and "sqlite3VdbeSerialGet (snd (record_field (v, t)) @ payload ts @ replicate nZero 0) t = Some w"
    and "length (snd (record_field (v, t))) = sqlite3VdbeSerialTypeLen t"
  shows "scan_ok (w # ws) ((v, t) # ts, nHdr + 1, nData + sqlite3VdbeSerialTypeLen t, nZero)"
  by (rule scan_ok_Cons) (use assms VarintLen_small [of t] in auto)

lemma scan_ok_int:
  assumes "scan_ok ws (ts, nHdr, nData, nZero)" "is_i64 i" "v = MInt i \<or> v = MIntReal i"
  shows "scan_ok (MInt i # ws) ((v, int_serial_type ff4 i) # ts, nHdr + 1,
    nData + sqlite3VdbeSerialTypeLen (int_serial_type ff4 i), nZero)"
  using int_field [OF assms(2), of ff4] int_payload [OF int_field(2) [OF assms(2)] assms(3), of ff4]
  by (intro scan_ok_small [OF assms(1)]) simp_all

lemma scan_ok_real:
  assumes "scan_ok ws (ts, nHdr, nData, nZero)"
  shows "scan_ok ((if IsNaN r then MNull else MReal r) # ws) ((MReal r, 7) # ts, nHdr + 1, nData + 8, nZero)"
proof -
  have p: "snd (record_field (MReal r, 7)) = put_be 8 r"
    by (simp add: record_field_def SmallTypeSizes_len SerialTypeLen_small)
  have "scan_ok ((if IsNaN r then MNull else MReal r) # ws)
      ((MReal r, 7) # ts, nHdr + 1, nData + sqlite3VdbeSerialTypeLen 7, nZero)"
    by (rule scan_ok_small [OF assms])
      (simp_all add: p SerialTypeLen_small sqlite3VdbeSerialGet_def serialGet_put)
  then show ?thesis
    by (simp add: SerialTypeLen_small)
qed

lemma scan_ok_text:
  assumes "scan_ok ws (ts, nHdr, nData, nZero)" "length z * 2 + 12 + b < 2 ^ 32" "b \<le> 1" "mem_content v = z"
  shows "scan_ok ((if b = 1 then MStr z else MBlob z 0) # ws)
    ((v, length z * 2 + 12 + b) # ts, nHdr + sqlite3VarintLen (word_of_nat (length z * 2 + 12 + b)), nData + length z, nZero)"
proof -
  let ?t = "length z * 2 + 12 + b"
  have "snd (record_field (v, ?t)) = z"
    using text_payload [of ?t v] assms(4) by (cases z) auto
  then have "scan_ok ((if b = 1 then MStr z else MBlob z 0) # ws)
    ((v, ?t) # ts, nHdr + sqlite3VarintLen (word_of_nat ?t), nData + sqlite3VdbeSerialTypeLen ?t, nZero)"
    using text_get [OF assms(2,3)] by (intro scan_ok_Cons [OF assms(1,2)]) simp_all
  then show ?thesis
    using text_get(2) [OF assms(2,3)] by simp
qed

text \<open>A blob with zeros at its end, when nothing but zeros follows.\<close>

lemma scan_ok_zeroblob:
  assumes "scan_ok ws (ts, nHdr, 0, nZero)" "(length z + k) * 2 + 12 < 2 ^ 32" "0 < k"
  shows "scan_ok (MBlob (z @ replicate k 0) 0 # ws)
    ((MBlob z k, (length z + k) * 2 + 12) # ts, nHdr + sqlite3VarintLen (word_of_nat ((length z + k) * 2 + 12)),
     length z, nZero + k)"
proof -
  let ?t = "(length z + k) * 2 + 12" and ?v = "MBlob z k"
  have p: "snd (record_field (?v, ?t)) = z" "payload ts = []"
    using text_payload [of ?t ?v] assms(1,3) by (auto simp: scan_ok_def mem_content_def)
  have "length (z @ replicate k 0) * 2 + 12 + 0 < 2 ^ 32"
    using assms(2) by simp
  from text_get(1) [OF this, of "replicate nZero 0"] text_get(2) [OF this]
  have g: "sqlite3VdbeSerialGet (z @ replicate (nZero + k) 0) ?t = Some (MBlob (z @ replicate k 0) 0)"
    "sqlite3VdbeSerialTypeLen ?t = length z + k"
    by (simp_all add: replicate_add [symmetric] add.commute)
  have "reads (?t # map snd ts) ((z @ replicate k 0) @ replicate nZero 0) (MBlob (z @ replicate k 0) 0 # ws)"
    using assms(1,2) g p(2) by (intro reads_Cons) (simp_all add: scan_ok_def replicate_add [symmetric] add.commute)
  moreover have "hdr_size ((?v, ?t) # ts) = nHdr + sqlite3VarintLen (word_of_nat ?t)"
    using field_header [OF assms(2), of ?v] header_length [OF assms(2)] assms(1) by (simp add: hdr_size_def scan_ok_def)
  moreover have "payload ((?v, ?t) # ts) = z"
    using p by (simp add: payload_def)
  ultimately show ?thesis
    by (simp add: scan_ok_def replicate_add [symmetric] add.commute)
qed

lemma record_step_ok:
  assumes "record_step to_double ff4 ok v (ts, nHdr, nData, nZero) = Inr (ts', nHdr', nData', nZero')"
    and "scan_ok ws (ts, nHdr, nData, nZero)" "mem_ok v" "nData' + nZero' \<le> 1073741824"
  shows "scan_ok (stored to_double ff4 v # ws) (ts', nHdr', nData', nZero')"
proof (cases v)
  case MNull
  with assms(1) scan_ok_small [OF assms(2), of 0 MNull MNull] show ?thesis
    by (simp add: record_step_def stored_def record_field_def SerialTypeLen_small sqlite3VdbeSerialGet_def)
next
  case MNoChange
  with assms(1) scan_ok_small [OF assms(2), of 10 MNoChange MNoChange] show ?thesis
    by (simp add: record_step_def stored_def record_field_def SerialTypeLen_small sqlite3VdbeSerialGet_def)
next
  case (MInt i)
  with assms(1,3) scan_ok_int [OF assms(2), of i v ff4] int_field(2) [of i ff4] show ?thesis
    by (simp add: record_step_def stored_def mem_ok_def Let_def SmallTypeSizes_len)
next
  case (MIntReal i)
  with assms(1,3) scan_ok_int [OF assms(2), of i v ff4] int_field(2) [of i ff4] scan_ok_real [OF assms(2), of "to_double i"]
  show ?thesis
    by (auto simp: record_step_def stored_def mem_ok_def Let_def SmallTypeSizes_len split: if_splits)
next
  case (MReal r)
  with assms(1) scan_ok_real [OF assms(2), of r] show ?thesis
    by (simp add: record_step_def stored_def)
next
  case (MStr z)
  with assms(1,4) have "length z * 2 + 12 + 1 < 2 ^ 32"
    by (auto simp: record_step_def Let_def)
  with MStr assms(1) scan_ok_text [OF assms(2) this, of v] show ?thesis
    by (simp add: record_step_def stored_def Let_def mem_content_def)
next
  case (MBlob z k)
  with assms(1,4) have b: "(length z + k) * 2 + 12 < 2 ^ 32"
    by (auto simp: record_step_def Let_def split: if_splits)
  consider "k = 0" | "0 < k" "nData \<noteq> 0" | "0 < k" "nData = 0"
    by blast
  then show ?thesis
  proof cases
    case 1
    with MBlob assms(1) b scan_ok_text [OF assms(2), of z 0 v] show ?thesis
      by (simp add: record_step_def stored_def Let_def mem_content_def)
  next
    case 2
    with MBlob assms(1) b scan_ok_text [OF assms(2), of "z @ replicate k 0" 0 "MBlob (z @ replicate k 0) 0"] show ?thesis
      by (simp add: record_step_def stored_def Let_def mem_content_def algebra_simps split: if_splits)
  next
    case 3
    define t where "t = (length z + k) * 2 + 12"
    have t: "(length z * 2 + 12 + k * 2) mod 4294967296 = t"
      using b by (simp add: t_def)
    have "(ts', nHdr', nData', nZero')
        = ((MBlob z k, t) # ts, nHdr + sqlite3VarintLen (word_of_nat t), length z, nZero + k)"
      using assms(1) MBlob 3 by (simp add: record_step_def Let_def t)
    with MBlob 3 assms(2) b [folded t_def] scan_ok_zeroblob [of ws ts nHdr nZero z k, folded t_def] show ?thesis
      by (simp add: stored_def)
  qed
qed


lemma record_step_mono:
  assumes "record_step to_double ff4 ok v (ts, nHdr, nData, nZero) = Inr (ts', nHdr', nData', nZero')"
  shows "nData + nZero \<le> nData' + nZero'"
  using assms by (auto simp: record_step_def Let_def split: Mem_value.splits if_splits)

lemma record_scan_ok:
  assumes "record_scan to_double ff4 ok vs = Inr (ts, nHdr, nData, nZero)" "\<forall>v\<in>set vs. mem_ok v"
    and "nData + nZero \<le> 1073741824"
  shows "scan_ok (map (stored to_double ff4) vs) (ts, nHdr, nData, nZero)"
  using assms
proof (induction vs arbitrary: ts nHdr nData nZero)
  case Nil
  then show ?case
    by (auto simp: scan_ok_def hdr_size_def payload_def)
next
  case (Cons v vs)
  from Cons.prems(1) obtain ts0 h d z where r: "record_scan to_double ff4 ok vs = Inr (ts0, h, d, z)"
    and s: "record_step to_double ff4 ok v (ts0, h, d, z) = Inr (ts, nHdr, nData, nZero)"
    by (auto split: sum.splits)
  have "d + z \<le> 1073741824"
    using record_step_mono [OF s] Cons.prems(3) by linarith
  then have "scan_ok (map (stored to_double ff4) vs) (ts0, h, d, z)"
    using Cons.IH [OF r] Cons.prems(2) by simp
  then show ?case
    using record_step_ok [OF s _ _ Cons.prems(3)] Cons.prems(2) by simp
qed

section \<open>The size of the header\<close>

lemma VarintLen_eq:
  assumes "h < 2 ^ 32"
  shows "sqlite3VarintLen (word_of_nat h) =
    (if h < 128 then 1 else if h < 16384 then 2 else if h < 2097152 then 3 else if h < 268435456 then 4 else 5)"
proof -
  have le: "0 < n \<Longrightarrow> h < 2 ^ (7 * n) \<Longrightarrow> sqlite3VarintLen (word_of_nat h) \<le> n" for n
    using length_buf_le [of n "word_of_nat h"] assms by (simp add: varintLen_buf word_of_nat_u64)
  have pos: "0 < sqlite3VarintLen (word_of_nat h)"
    by (simp add: varintLen_buf buf_ne)
  have ge: "2 ^ (7 * n) \<le> h \<Longrightarrow> n < sqlite3VarintLen (word_of_nat h)" for n
    using length_buf_ge [of n "word_of_nat h"] assms by (simp add: varintLen_buf word_of_nat_u64)
  show ?thesis
    using le [of 1] le [of 2] le [of 3] le [of 4] le [of 5] pos ge [of 1] ge [of 2] ge [of 3] ge [of 4] assms
    by (auto intro: le_antisym simp: Suc_le_eq)
qed

lemma record_nHdr_ok:
  assumes "h \<le> 1073741824"
  shows "record_nHdr h = h + sqlite3VarintLen (word_of_nat (record_nHdr h))" "record_nHdr h \<le> h + 6"
proof -
  have v: "h' \<le> 1073741830 \<Longrightarrow> sqlite3VarintLen (word_of_nat h') =
    (if h' < 128 then 1 else if h' < 16384 then 2 else if h' < 2097152 then 3 else if h' < 268435456 then 4 else 5)" for h'
    by (rule VarintLen_eq) simp
  define n where "n = sqlite3VarintLen (word_of_nat h)"
  have n: "n = (if h < 128 then 1 else if h < 16384 then 2 else if h < 2097152 then 3 else if h < 268435456 then 4 else 5)"
    using v [of h] assms by (simp add: n_def)
  define n2 where "n2 = sqlite3VarintLen (word_of_nat (h + n))"
  have n2: "n2 = (if h + n < 128 then 1 else if h + n < 16384 then 2 else if h + n < 2097152 then 3
      else if h + n < 268435456 then 4 else 5)"
    using v [of "h + n"] assms n by (simp add: n2_def split: if_splits)
  have r: "record_nHdr h = (if h \<le> 126 then h + 1 else if n < n2 then h + n + 1 else h + n)"
    unfolding record_nHdr_def Let_def n_def [symmetric] n2_def [symmetric] by simp
  have le: "record_nHdr h \<le> h + 6"
    using n r by (auto split: if_splits)
  then show "record_nHdr h = h + sqlite3VarintLen (word_of_nat (record_nHdr h))"
    using v [of "record_nHdr h"] assms n n2 r by (auto split: if_splits)
  show "record_nHdr h \<le> h + 6"
    by (rule le)
qed


section \<open>Unpacking\<close>

lemma unpack_loop_reads:
  assumes "reads ts P vs" "ts \<noteq> []"
    and "drop idx key = concat (map (sqlite3PutVarint \<circ> word_of_nat) ts) @ X"
    and "idx + length (concat (map (sqlite3PutVarint \<circ> word_of_nat) ts)) = szHdr"
    and "drop d key = P" "d + length P = length key" "length key < 2 ^ 32"
  shows "unpack_loop key (length key) szHdr (length vs) idx d = Some (vs, length key)"
  using assms
proof (induction ts arbitrary: P vs idx d)
  case (Cons t ts)
  from Cons.prems(1) obtain v vs' where vs: "vs = v # vs'"
    by (cases vs) auto
  let ?h = "sqlite3PutVarint (word_of_nat t :: u64)" and ?l = "sqlite3VdbeSerialTypeLen t"
  from Cons.prems(1) vs have r: "t < 2 ^ 32" "?l \<le> length P" "sqlite3VdbeSerialGet P t = Some v" "reads ts (drop ?l P) vs'"
    by auto
  have t: "unat (word_of_nat t :: u32) = t"
    using r(1) by (simp add: unsigned_of_nat take_bit_nat_eq_self)
  have lt: "idx < szHdr" "d \<le> length key"
    using Cons.prems(4,6) header_length_pos [of "word_of_nat t"] by auto
  have d: "(d + ?l) mod 2 ^ 32 = d + ?l"
    using Cons.prems(6,7) r(2) by simp
  have g: "getVarint32 (drop idx key) = Some (word_of_nat t, length ?h)"
    using Cons.prems(3) header_read [OF r(1)] by simp
  have rest: "drop (idx + length ?h) key = concat (map (sqlite3PutVarint \<circ> word_of_nat) ts) @ X"
    using Cons.prems(3) by (simp add: drop_drop [symmetric] add.commute [of idx] comp_def del: drop_drop)
  have dr: "drop (d + ?l) key = drop ?l P" "d + ?l + length (drop ?l P) = length key"
    using Cons.prems(5,6) r(2) by (auto simp: add.commute)
  note e = unpack_loop.simps [of key "length key" szHdr "length vs" idx d]
  show ?case
  proof (cases "ts = []")
    case True
    with r(4) have "vs' = []" "drop ?l P = []"
      by simp_all
    with dr(2) show ?thesis
      unfolding e using lt g t r(3) Cons.prems(5) d vs by simp
  next
    case False
    then have "vs' \<noteq> []"
      using reads_length [OF r(4)] by auto
    moreover have "unpack_loop key (length key) szHdr (length vs') (idx + length ?h) (d + ?l) = Some (vs', length key)"
      using Cons.prems(4) by (intro Cons.IH [OF r(4) False rest _ dr Cons.prems(7)]) simp
    ultimately show ?thesis
      unfolding e using lt g t r(3) Cons.prems(5) d vs by (cases vs') simp_all
  qed
qed simp

text \<open>What a successful \<^verbatim>\<open>OP_MakeRecord\<close> wrote; \<open>2 ^ 30\<close> exceeds \<^verbatim>\<open>SQLITE_MAX_LENGTH\<close>.\<close>

lemma MakeRecord_cases:
  assumes "OP_MakeRecord to_double ff4 limit szMalloc e r vs = Inr (bs, nz)"
    and "\<forall>v\<in>set vs. mem_ok v" "limit \<le> 2 ^ 30" "szMalloc \<le> 2 ^ 30"
  obtains ts h where "reads (map snd ts) (payload ts @ replicate nz 0) (map (stored to_double ff4) vs)"
    and "bs = sqlite3PutVarint (word_of_nat h) @ concat (map (sqlite3PutVarint \<circ> word_of_nat) (map snd ts)) @ payload ts"
    and "h = length (sqlite3PutVarint (word_of_nat h)) + length (concat (map (sqlite3PutVarint \<circ> word_of_nat) (map snd ts)))"
    and "length bs + nz \<le> max limit szMalloc" "h < 2 ^ 32"
proof -
  from assms(1) obtain ts h d where s: "record_scan to_double ff4 e vs = Inr (ts, h, d, nz)"
    and bs: "bs = (if record_nHdr h < 0x80 then [cast8 (record_nHdr h)] else sqlite3PutVarint (word_of_nat (record_nHdr h)))
       @ concat (map (fst \<circ> record_field) ts) @ payload ts"
    and sz: "record_nHdr h + d + nz \<le> max limit szMalloc"
    by (auto simp: OP_MakeRecord_def Let_def payload_def split: sum.splits if_splits)
  have h0: "h \<le> record_nHdr h"
    by (simp add: record_nHdr_def Let_def)
  have ok: "scan_ok (map (stored to_double ff4) vs) (ts, h, d, nz)"
    using sz assms(3,4) by (intro record_scan_ok [OF s assms(2)]) simp
  have types: "\<forall>t\<in>set (map snd ts). t < 2 ^ 32"
    using ok reads_types unfolding scan_ok_def by blast
  have "map (fst \<circ> record_field) ts = map (sqlite3PutVarint \<circ> word_of_nat) (map snd ts)"
    using types field_header by (fastforce simp: comp_def)
  then have hs: "concat (map (fst \<circ> record_field) ts) = concat (map (sqlite3PutVarint \<circ> word_of_nat) (map snd ts))"
    by (rule arg_cong)
  have h: "h = length (concat (map (sqlite3PutVarint \<circ> word_of_nat) (map snd ts)))" "length (payload ts) = d"
    using ok hs by (simp_all add: scan_ok_def hdr_size_def)
  have hb: "h \<le> 1073741824"
    using sz h0 assms(3,4) by simp
  note n = record_nHdr_ok [OF hb]
  have n32: "record_nHdr h < 2 ^ 32"
    using n(2) hb by simp
  have bs': "bs = sqlite3PutVarint (word_of_nat (record_nHdr h))
      @ concat (map (sqlite3PutVarint \<circ> word_of_nat) (map snd ts)) @ payload ts"
    using bs hs PutVarint_small by simp
  have nl: "record_nHdr h = length (sqlite3PutVarint (word_of_nat (record_nHdr h)))
      + length (concat (map (sqlite3PutVarint \<circ> word_of_nat) (map snd ts)))"
    using n(1) header_length [OF n32] h by linarith
  have "length bs + nz \<le> max limit szMalloc"
    using sz nl h(2) unfolding bs' by simp
  then show thesis
    using that [OF _ bs' nl _ n32] ok by (simp add: scan_ok_def)
qed

lemma unpack_record:
  assumes "OP_MakeRecord to_double ff4 limit szMalloc e r vs = Inr (bs, nz)"
    and "\<forall>v\<in>set vs. mem_ok v" "limit \<le> 2 ^ 30" "szMalloc \<le> 2 ^ 30" "vs \<noteq> []"
  shows "sqlite3VdbeRecordUnpack (length bs + nz) (bs @ replicate nz 0) (length vs) = Some (map (stored to_double ff4) vs)"
proof -
  from MakeRecord_cases [OF assms(1-4)] obtain ts h where
    rd: "reads (map snd ts) (payload ts @ replicate nz 0) (map (stored to_double ff4) vs)"
    and bs: "bs = sqlite3PutVarint (word_of_nat h) @ concat (map (sqlite3PutVarint \<circ> word_of_nat) (map snd ts)) @ payload ts"
    and h: "h = length (sqlite3PutVarint (word_of_nat h)) + length (concat (map (sqlite3PutVarint \<circ> word_of_nat) (map snd ts)))"
    and len: "length bs + nz \<le> max limit szMalloc" and h32: "h < 2 ^ 32" .
  let ?key = "bs @ replicate nz 0" and ?P = "payload ts @ replicate nz 0"
  have key: "?key = sqlite3PutVarint (word_of_nat h) @ concat (map (sqlite3PutVarint \<circ> word_of_nat) (map snd ts)) @ ?P"
    using bs by simp
  have g: "getVarint32 ?key = Some (word_of_nat h, length (sqlite3PutVarint (word_of_nat h :: u64)))"
    unfolding key by (rule header_read [OF h32])
  have u: "unat (word_of_nat h :: u32) = h"
    using h32 by (simp add: unsigned_of_nat take_bit_nat_eq_self)
  have "map snd ts \<noteq> []"
    using reads_length [OF rd] assms(5) by auto
  moreover have "drop h ?key = ?P"
    unfolding key using h by (simp add: drop_all)
  moreover have "h + length ?P = length ?key"
    unfolding key using h by simp
  moreover have "length ?key < 2 ^ 32"
    using len assms(3,4) by simp
  ultimately have "unpack_loop ?key (length ?key) h (length (map (stored to_double ff4) vs))
      (length (sqlite3PutVarint (word_of_nat h :: u64))) h = Some (map (stored to_double ff4) vs, length ?key)"
    using h key by (intro unpack_loop_reads [OF rd]) simp_all
  then show ?thesis
    unfolding sqlite3VdbeRecordUnpack_def g by (simp add: u)
qed


section \<open>Corrupt records\<close>

lemma varint_spec_total: "9 - k \<le> length p \<Longrightarrow> k < 9 \<Longrightarrow> \<exists>v' n. varint_spec k v p = Some (v', n)"
proof (induction k v p rule: varint_spec.induct)
  case (2 k v b bs)
  then show ?case
    by (cases "k = 8") auto
qed simp

lemma getVarint32_total: "9 \<le> length p \<Longrightarrow> \<exists>v n. getVarint32 p = Some (v, n)"
  using varint_spec_total [of 0 p 0] by (auto simp: getVarint32_saturates sqlite3GetVarint_spec)

lemma SerialGet_total: "8 \<le> length p \<Longrightarrow> \<exists>v. sqlite3VdbeSerialGet p t = Some v"
proof -
  assume "8 \<le> length p"
  then have "rd8 p i = Some (p ! i)" if "i < 8" for i
    using that by (simp add: rd8_Some)
  then show ?thesis
    by (simp add: sqlite3VdbeSerialGet_def serialGet_def Let_def)
qed

lemma unpack_loop_total:
  assumes "szHdr \<le> nKey \<or> nKey < d" "nKey + 9 \<le> length aKey"
  shows "\<exists>vs d'. unpack_loop aKey nKey szHdr nField idx d = Some (vs, d') \<and> length vs \<le> max 1 nField"
  using assms
proof (induction aKey nKey szHdr nField idx d rule: unpack_loop.induct)
  case (1 aKey nKey szHdr nField idx d)
  note e = unpack_loop.simps [of aKey nKey szHdr nField idx d]
  show ?case
  proof (cases "idx < szHdr \<and> d \<le> nKey")
    case True
    then have s: "szHdr \<le> nKey"
      using 1(2) by simp
    have long: "9 \<le> length (drop idx aKey)"
      using True s 1(3) unfolding length_drop by linarith
    obtain t n where t: "getVarint32 (drop idx aKey) = Some (t, n)"
      using getVarint32_total [OF long] by blast
    have "8 \<le> length (drop d aKey)"
      using True 1(3) unfolding length_drop by linarith
    then obtain v where v: "sqlite3VdbeSerialGet (drop d aKey) (unat t) = Some v"
      using SerialGet_total by blast
    show ?thesis
    proof (cases "nField \<le> 1")
      case True
      then show ?thesis
        unfolding e using t v by simp
    next
      case False
      then show ?thesis
        unfolding e using t v 1(1) [OF True t refl v refl False] s 1(3) by auto
    qed
  qed (auto simp: e)
qed


lemma make_example:
  "12 \<le> limit \<Longrightarrow> OP_MakeRecord (\<lambda>i. 0) True limit 0 True True [MNull, MInt 258, MInt 0, MStr [65], MBlob [] 3]
     = Inr ([6, 0, 2, 8, 15, 18, 1, 2, 65], 3)"
proof -
  assume "12 \<le> limit"
  moreover have "put_be 2 258 = [1, 2]"
    using put_be_int [of 2 258] by (simp add: rev_upts digit_def)
  ultimately show ?thesis
    using VarintLen_small [of 15] VarintLen_small [of 18]
    by (simp add: OP_MakeRecord_def record_step_def Let_def int_serial_type_def record_field_def record_nHdr_def
        mem_content_def cast8_def sqlite3SmallTypeSizes_def)
qed

section \<open>Properties\<close>

text \<open>
  C23. Records survive storage: when \<^verbatim>\<open>OP_MakeRecord\<close> succeeds on registers with 64-bit integers, then
  \<^verbatim>\<open>sqlite3VdbeRecordUnpack\<close> reads from the bytes and the implied zeros exactly the values of the
  registers, in order and in bounds. Values are kept as they are, except that a blob's zero tail is
  written out, a NaN becomes NULL, and an integer flagged as real comes back as an integer, or as the
  converted real when it needs 8 bytes.
\<close>

theorem record_roundtrip:
  assumes "OP_MakeRecord to_double ff4 limit szMalloc e r vs = Inr (bs, nz)"
    and "\<forall>v\<in>set vs. mem_ok v" "limit \<le> 2 ^ 30" "szMalloc \<le> 2 ^ 30" "vs \<noteq> []"
  shows "sqlite3VdbeRecordUnpack (length bs + nz) (bs @ replicate nz 0) (length vs) = Some (map (stored to_double ff4) vs)"
  by (rule unpack_record [OF assms])

theorem record_roundtrip_witness:
  "sqlite3VdbeRecordUnpack (9 + 3) ([6, 0, 2, 8, 15, 18, 1, 2, 65] @ replicate 3 0) 5
    = Some [MNull, MInt 258, MInt 0, MStr [65], MBlob [0, 0, 0] 0]"
proof -
  let ?vs = "[MNull, MInt 258, MInt 0, MStr [65], MBlob [] 3]" and ?bs = "[6, 0, 2, 8, 15, 18, 1, 2, 65] :: bytes"
  have r: "sqlite3VdbeRecordUnpack (length ?bs + 3) (?bs @ replicate 3 0) (length ?vs) = Some (map (stored (\<lambda>i. 0) True) ?vs)"
    by (rule record_roundtrip [OF make_example [of 1000]]) (simp_all add: mem_ok_def is_i64_def)
  have l: "length ?bs + 3 = 9 + 3" "length ?vs = 5" "map (stored (\<lambda>i. 0) True) ?vs = [MNull, MInt 258, MInt 0, MStr [65], MBlob [0, 0, 0] 0]"
    by (simp_all add: stored_def numeral_3_eq_3)
  show ?thesis
    using r unfolding l .
qed

text \<open>
  A record fits its memory: the bytes \<^verbatim>\<open>OP_MakeRecord\<close> writes and the implied zeros never exceed the
  length limit, or the memory the output register already has.
\<close>

theorem record_fits:
  assumes "OP_MakeRecord to_double ff4 limit szMalloc e r vs = Inr (bs, nz)"
    and "\<forall>v\<in>set vs. mem_ok v" "limit \<le> 2 ^ 30" "szMalloc \<le> 2 ^ 30"
  shows "length bs + nz \<le> max limit szMalloc"
  using MakeRecord_cases [OF assms] by blast

theorem record_fits_witness:
  "OP_MakeRecord (\<lambda>i. 0) True 12 0 True True [MNull, MInt 258, MInt 0, MStr [65], MBlob [] 3]
     = Inr ([6, 0, 2, 8, 15, 18, 1, 2, 65], 3) \<and> length ([6, 0, 2, 8, 15, 18, 1, 2, 65] :: bytes) + 3 \<le> max 12 0"
proof -
  have m: "OP_MakeRecord (\<lambda>i. 0) True 12 0 True True [MNull, MInt 258, MInt 0, MStr [65], MBlob [] 3]
     = Inr ([6, 0, 2, 8, 15, 18, 1, 2, 65], 3)"
    by (rule make_example) simp
  have "length ([6, 0, 2, 8, 15, 18, 1, 2, 65] :: bytes) + 3 \<le> max 12 0"
    by (rule record_fits [OF m]) (simp_all add: mem_ok_def is_i64_def)
  with m show ?thesis
    by blast
qed

text \<open>
  C24. Corrupt records are read safely: on any record whatsoever, followed by the 17 bytes of padding that
  the callers allocate, \<^verbatim>\<open>sqlite3VdbeRecordUnpack\<close> reads no byte outside the padded buffer, and it
  fills at most the fields it was given.
\<close>

theorem unpack_padded:
  assumes "length pad = 17"
  shows "\<exists>vs. sqlite3VdbeRecordUnpack (length key) (key @ pad) nField = Some vs \<and> length vs \<le> max 1 nField"
proof -
  obtain h n where h: "getVarint32 (key @ pad) = Some (h, n)"
    using getVarint32_total [of "key @ pad"] assms by auto
  obtain vs d where "unpack_loop (key @ pad) (length key) (unat h) nField n (unat h) = Some (vs, d)" "length vs \<le> max 1 nField"
    using unpack_loop_total [of "unat h" "length key" "unat h" "key @ pad" nField n] assms by fastforce
  then show ?thesis
    by (auto simp: sqlite3VdbeRecordUnpack_def h)
qed


theorem unpack_padded_witness:
  "\<exists>vs. sqlite3VdbeRecordUnpack (length ([2, 6] :: bytes)) ([2, 6] @ replicate 17 0) 3 = Some vs \<and> length vs \<le> max 1 3"
  by (rule unpack_padded) simp

end
