(* ===== verification/KeywordM.thy ===== *)
theory KeywordM
  imports CType
begin

text \<open>
  SQL keywords: the packed text and the hash tables of \<^verbatim>\<open>keywordhash.h\<close>, and \<^verbatim>\<open>keywordCode\<close>, which decides
  whether a token is a keyword. The token codes are those of \<^verbatim>\<open>parse.h\<close>.
\<close>

section \<open>Token codes\<close>

abbreviation (input) TK_SEMI :: nat where "TK_SEMI \<equiv> 1"
abbreviation (input) TK_EXPLAIN :: nat where "TK_EXPLAIN \<equiv> 2"
abbreviation (input) TK_QUERY :: nat where "TK_QUERY \<equiv> 3"
abbreviation (input) TK_PLAN :: nat where "TK_PLAN \<equiv> 4"
abbreviation (input) TK_BEGIN :: nat where "TK_BEGIN \<equiv> 5"
abbreviation (input) TK_TRANSACTION :: nat where "TK_TRANSACTION \<equiv> 6"
abbreviation (input) TK_DEFERRED :: nat where "TK_DEFERRED \<equiv> 7"
abbreviation (input) TK_IMMEDIATE :: nat where "TK_IMMEDIATE \<equiv> 8"
abbreviation (input) TK_EXCLUSIVE :: nat where "TK_EXCLUSIVE \<equiv> 9"
abbreviation (input) TK_COMMIT :: nat where "TK_COMMIT \<equiv> 10"
abbreviation (input) TK_END :: nat where "TK_END \<equiv> 11"
abbreviation (input) TK_ROLLBACK :: nat where "TK_ROLLBACK \<equiv> 12"
abbreviation (input) TK_SAVEPOINT :: nat where "TK_SAVEPOINT \<equiv> 13"
abbreviation (input) TK_RELEASE :: nat where "TK_RELEASE \<equiv> 14"
abbreviation (input) TK_TO :: nat where "TK_TO \<equiv> 15"
abbreviation (input) TK_TABLE :: nat where "TK_TABLE \<equiv> 16"
abbreviation (input) TK_CREATE :: nat where "TK_CREATE \<equiv> 17"
abbreviation (input) TK_IF :: nat where "TK_IF \<equiv> 18"
abbreviation (input) TK_NOT :: nat where "TK_NOT \<equiv> 19"
abbreviation (input) TK_EXISTS :: nat where "TK_EXISTS \<equiv> 20"
abbreviation (input) TK_TEMP :: nat where "TK_TEMP \<equiv> 21"
abbreviation (input) TK_LP :: nat where "TK_LP \<equiv> 22"
abbreviation (input) TK_RP :: nat where "TK_RP \<equiv> 23"
abbreviation (input) TK_AS :: nat where "TK_AS \<equiv> 24"
abbreviation (input) TK_COMMA :: nat where "TK_COMMA \<equiv> 25"
abbreviation (input) TK_WITHOUT :: nat where "TK_WITHOUT \<equiv> 26"
abbreviation (input) TK_ABORT :: nat where "TK_ABORT \<equiv> 27"
abbreviation (input) TK_ACTION :: nat where "TK_ACTION \<equiv> 28"
abbreviation (input) TK_AFTER :: nat where "TK_AFTER \<equiv> 29"
abbreviation (input) TK_ANALYZE :: nat where "TK_ANALYZE \<equiv> 30"
abbreviation (input) TK_ASC :: nat where "TK_ASC \<equiv> 31"
abbreviation (input) TK_ATTACH :: nat where "TK_ATTACH \<equiv> 32"
abbreviation (input) TK_BEFORE :: nat where "TK_BEFORE \<equiv> 33"
abbreviation (input) TK_BY :: nat where "TK_BY \<equiv> 34"
abbreviation (input) TK_CASCADE :: nat where "TK_CASCADE \<equiv> 35"
abbreviation (input) TK_CAST :: nat where "TK_CAST \<equiv> 36"
abbreviation (input) TK_CONFLICT :: nat where "TK_CONFLICT \<equiv> 37"
abbreviation (input) TK_DATABASE :: nat where "TK_DATABASE \<equiv> 38"
abbreviation (input) TK_DESC :: nat where "TK_DESC \<equiv> 39"
abbreviation (input) TK_DETACH :: nat where "TK_DETACH \<equiv> 40"
abbreviation (input) TK_EACH :: nat where "TK_EACH \<equiv> 41"
abbreviation (input) TK_FAIL :: nat where "TK_FAIL \<equiv> 42"
abbreviation (input) TK_OR :: nat where "TK_OR \<equiv> 43"
abbreviation (input) TK_AND :: nat where "TK_AND \<equiv> 44"
abbreviation (input) TK_IS :: nat where "TK_IS \<equiv> 45"
abbreviation (input) TK_MATCH :: nat where "TK_MATCH \<equiv> 47"
abbreviation (input) TK_LIKE_KW :: nat where "TK_LIKE_KW \<equiv> 48"
abbreviation (input) TK_BETWEEN :: nat where "TK_BETWEEN \<equiv> 49"
abbreviation (input) TK_IN :: nat where "TK_IN \<equiv> 50"
abbreviation (input) TK_ISNULL :: nat where "TK_ISNULL \<equiv> 51"
abbreviation (input) TK_NOTNULL :: nat where "TK_NOTNULL \<equiv> 52"
abbreviation (input) TK_NE :: nat where "TK_NE \<equiv> 53"
abbreviation (input) TK_EQ :: nat where "TK_EQ \<equiv> 54"
abbreviation (input) TK_GT :: nat where "TK_GT \<equiv> 55"
abbreviation (input) TK_LE :: nat where "TK_LE \<equiv> 56"
abbreviation (input) TK_LT :: nat where "TK_LT \<equiv> 57"
abbreviation (input) TK_GE :: nat where "TK_GE \<equiv> 58"
abbreviation (input) TK_ESCAPE :: nat where "TK_ESCAPE \<equiv> 59"
abbreviation (input) TK_ID :: nat where "TK_ID \<equiv> 60"
abbreviation (input) TK_COLUMNKW :: nat where "TK_COLUMNKW \<equiv> 61"
abbreviation (input) TK_DO :: nat where "TK_DO \<equiv> 62"
abbreviation (input) TK_FOR :: nat where "TK_FOR \<equiv> 63"
abbreviation (input) TK_IGNORE :: nat where "TK_IGNORE \<equiv> 64"
abbreviation (input) TK_INITIALLY :: nat where "TK_INITIALLY \<equiv> 65"
abbreviation (input) TK_INSTEAD :: nat where "TK_INSTEAD \<equiv> 66"
abbreviation (input) TK_NO :: nat where "TK_NO \<equiv> 67"
abbreviation (input) TK_KEY :: nat where "TK_KEY \<equiv> 68"
abbreviation (input) TK_OF :: nat where "TK_OF \<equiv> 69"
abbreviation (input) TK_OFFSET :: nat where "TK_OFFSET \<equiv> 70"
abbreviation (input) TK_PRAGMA :: nat where "TK_PRAGMA \<equiv> 71"
abbreviation (input) TK_RAISE :: nat where "TK_RAISE \<equiv> 72"
abbreviation (input) TK_RECURSIVE :: nat where "TK_RECURSIVE \<equiv> 73"
abbreviation (input) TK_REPLACE :: nat where "TK_REPLACE \<equiv> 74"
abbreviation (input) TK_RESTRICT :: nat where "TK_RESTRICT \<equiv> 75"
abbreviation (input) TK_ROW :: nat where "TK_ROW \<equiv> 76"
abbreviation (input) TK_ROWS :: nat where "TK_ROWS \<equiv> 77"
abbreviation (input) TK_TRIGGER :: nat where "TK_TRIGGER \<equiv> 78"
abbreviation (input) TK_VACUUM :: nat where "TK_VACUUM \<equiv> 79"
abbreviation (input) TK_VIEW :: nat where "TK_VIEW \<equiv> 80"
abbreviation (input) TK_VIRTUAL :: nat where "TK_VIRTUAL \<equiv> 81"
abbreviation (input) TK_WITH :: nat where "TK_WITH \<equiv> 82"
abbreviation (input) TK_NULLS :: nat where "TK_NULLS \<equiv> 83"
abbreviation (input) TK_FIRST :: nat where "TK_FIRST \<equiv> 84"
abbreviation (input) TK_LAST :: nat where "TK_LAST \<equiv> 85"
abbreviation (input) TK_CURRENT :: nat where "TK_CURRENT \<equiv> 86"
abbreviation (input) TK_FOLLOWING :: nat where "TK_FOLLOWING \<equiv> 87"
abbreviation (input) TK_PARTITION :: nat where "TK_PARTITION \<equiv> 88"
abbreviation (input) TK_PRECEDING :: nat where "TK_PRECEDING \<equiv> 89"
abbreviation (input) TK_RANGE :: nat where "TK_RANGE \<equiv> 90"
abbreviation (input) TK_UNBOUNDED :: nat where "TK_UNBOUNDED \<equiv> 91"
abbreviation (input) TK_EXCLUDE :: nat where "TK_EXCLUDE \<equiv> 92"
abbreviation (input) TK_GROUPS :: nat where "TK_GROUPS \<equiv> 93"
abbreviation (input) TK_OTHERS :: nat where "TK_OTHERS \<equiv> 94"
abbreviation (input) TK_TIES :: nat where "TK_TIES \<equiv> 95"
abbreviation (input) TK_GENERATED :: nat where "TK_GENERATED \<equiv> 96"
abbreviation (input) TK_ALWAYS :: nat where "TK_ALWAYS \<equiv> 97"
abbreviation (input) TK_MATERIALIZED :: nat where "TK_MATERIALIZED \<equiv> 98"
abbreviation (input) TK_REINDEX :: nat where "TK_REINDEX \<equiv> 99"
abbreviation (input) TK_RENAME :: nat where "TK_RENAME \<equiv> 100"
abbreviation (input) TK_CTIME_KW :: nat where "TK_CTIME_KW \<equiv> 101"
abbreviation (input) TK_BITAND :: nat where "TK_BITAND \<equiv> 103"
abbreviation (input) TK_BITOR :: nat where "TK_BITOR \<equiv> 104"
abbreviation (input) TK_LSHIFT :: nat where "TK_LSHIFT \<equiv> 105"
abbreviation (input) TK_RSHIFT :: nat where "TK_RSHIFT \<equiv> 106"
abbreviation (input) TK_PLUS :: nat where "TK_PLUS \<equiv> 107"
abbreviation (input) TK_MINUS :: nat where "TK_MINUS \<equiv> 108"
abbreviation (input) TK_STAR :: nat where "TK_STAR \<equiv> 109"
abbreviation (input) TK_SLASH :: nat where "TK_SLASH \<equiv> 110"
abbreviation (input) TK_REM :: nat where "TK_REM \<equiv> 111"
abbreviation (input) TK_CONCAT :: nat where "TK_CONCAT \<equiv> 112"
abbreviation (input) TK_PTR :: nat where "TK_PTR \<equiv> 113"
abbreviation (input) TK_COLLATE :: nat where "TK_COLLATE \<equiv> 114"
abbreviation (input) TK_BITNOT :: nat where "TK_BITNOT \<equiv> 115"
abbreviation (input) TK_ON :: nat where "TK_ON \<equiv> 116"
abbreviation (input) TK_INDEXED :: nat where "TK_INDEXED \<equiv> 117"
abbreviation (input) TK_STRING :: nat where "TK_STRING \<equiv> 118"
abbreviation (input) TK_JOIN_KW :: nat where "TK_JOIN_KW \<equiv> 119"
abbreviation (input) TK_CONSTRAINT :: nat where "TK_CONSTRAINT \<equiv> 120"
abbreviation (input) TK_DEFAULT :: nat where "TK_DEFAULT \<equiv> 121"
abbreviation (input) TK_NULL :: nat where "TK_NULL \<equiv> 122"
abbreviation (input) TK_PRIMARY :: nat where "TK_PRIMARY \<equiv> 123"
abbreviation (input) TK_UNIQUE :: nat where "TK_UNIQUE \<equiv> 124"
abbreviation (input) TK_CHECK :: nat where "TK_CHECK \<equiv> 125"
abbreviation (input) TK_REFERENCES :: nat where "TK_REFERENCES \<equiv> 126"
abbreviation (input) TK_AUTOINCR :: nat where "TK_AUTOINCR \<equiv> 127"
abbreviation (input) TK_INSERT :: nat where "TK_INSERT \<equiv> 128"
abbreviation (input) TK_DELETE :: nat where "TK_DELETE \<equiv> 129"
abbreviation (input) TK_UPDATE :: nat where "TK_UPDATE \<equiv> 130"
abbreviation (input) TK_SET :: nat where "TK_SET \<equiv> 131"
abbreviation (input) TK_DEFERRABLE :: nat where "TK_DEFERRABLE \<equiv> 132"
abbreviation (input) TK_FOREIGN :: nat where "TK_FOREIGN \<equiv> 133"
abbreviation (input) TK_DROP :: nat where "TK_DROP \<equiv> 134"
abbreviation (input) TK_UNION :: nat where "TK_UNION \<equiv> 135"
abbreviation (input) TK_ALL :: nat where "TK_ALL \<equiv> 136"
abbreviation (input) TK_EXCEPT :: nat where "TK_EXCEPT \<equiv> 137"
abbreviation (input) TK_INTERSECT :: nat where "TK_INTERSECT \<equiv> 138"
abbreviation (input) TK_SELECT :: nat where "TK_SELECT \<equiv> 139"
abbreviation (input) TK_VALUES :: nat where "TK_VALUES \<equiv> 140"
abbreviation (input) TK_DISTINCT :: nat where "TK_DISTINCT \<equiv> 141"
abbreviation (input) TK_DOT :: nat where "TK_DOT \<equiv> 142"
abbreviation (input) TK_FROM :: nat where "TK_FROM \<equiv> 143"
abbreviation (input) TK_JOIN :: nat where "TK_JOIN \<equiv> 144"
abbreviation (input) TK_USING :: nat where "TK_USING \<equiv> 145"
abbreviation (input) TK_ORDER :: nat where "TK_ORDER \<equiv> 146"
abbreviation (input) TK_GROUP :: nat where "TK_GROUP \<equiv> 147"
abbreviation (input) TK_HAVING :: nat where "TK_HAVING \<equiv> 148"
abbreviation (input) TK_LIMIT :: nat where "TK_LIMIT \<equiv> 149"
abbreviation (input) TK_WHERE :: nat where "TK_WHERE \<equiv> 150"
abbreviation (input) TK_RETURNING :: nat where "TK_RETURNING \<equiv> 151"
abbreviation (input) TK_INTO :: nat where "TK_INTO \<equiv> 152"
abbreviation (input) TK_NOTHING :: nat where "TK_NOTHING \<equiv> 153"
abbreviation (input) TK_FLOAT :: nat where "TK_FLOAT \<equiv> 154"
abbreviation (input) TK_BLOB :: nat where "TK_BLOB \<equiv> 155"
abbreviation (input) TK_INTEGER :: nat where "TK_INTEGER \<equiv> 156"
abbreviation (input) TK_VARIABLE :: nat where "TK_VARIABLE \<equiv> 157"
abbreviation (input) TK_CASE :: nat where "TK_CASE \<equiv> 158"
abbreviation (input) TK_WHEN :: nat where "TK_WHEN \<equiv> 159"
abbreviation (input) TK_THEN :: nat where "TK_THEN \<equiv> 160"
abbreviation (input) TK_ELSE :: nat where "TK_ELSE \<equiv> 161"
abbreviation (input) TK_INDEX :: nat where "TK_INDEX \<equiv> 162"
abbreviation (input) TK_ALTER :: nat where "TK_ALTER \<equiv> 163"
abbreviation (input) TK_ADD :: nat where "TK_ADD \<equiv> 164"
abbreviation (input) TK_WINDOW :: nat where "TK_WINDOW \<equiv> 165"
abbreviation (input) TK_OVER :: nat where "TK_OVER \<equiv> 166"
abbreviation (input) TK_FILTER :: nat where "TK_FILTER \<equiv> 167"
abbreviation (input) TK_QNUMBER :: nat where "TK_QNUMBER \<equiv> 183"
abbreviation (input) TK_SPACE :: nat where "TK_SPACE \<equiv> 184"
abbreviation (input) TK_COMMENT :: nat where "TK_COMMENT \<equiv> 185"
abbreviation (input) TK_ILLEGAL :: nat where "TK_ILLEGAL \<equiv> 186"

section \<open>Tables\<close>

definition zKWText :: string where
  "zKWText =
     ''REINDEXEDESCAPEACHECKEYBEFOREIGNOREGEXPLAINSTEADDATABASELECTABLEFTHENDEF'' @
     ''ERRABLELSEXCLUDELETEMPORARYISNULLSAVEPOINTERSECTIESNOTNULLIKEXCEPTRANSAC'' @
     ''TIONATURALTERAISEXCLUSIVEXISTSCONSTRAINTOFFSETRIGGERANGENERATEDETACHAVIN'' @
     ''GLOBEGINNEREFERENCESUNIQUERYWITHOUTERELEASEATTACHBETWEENOTHINGROUPSCASCA'' @
     ''DEFAULTCASECOLLATECREATECURRENT_DATEIMMEDIATEJOINSERTMATCHPLANALYZEPRAGM'' @
     ''ATERIALIZEDEFERREDISTINCTUPDATEVALUESVIRTUALWAYSWHENWHERECURSIVEABORTAFT'' @
     ''ERENAMEANDROPARTITIONAUTOINCREMENTCASTCOLUMNCOMMITCONFLICTCROSSCURRENT_T'' @
     ''IMESTAMPRECEDINGFAILASTFILTEREPLACEFIRSTFOLLOWINGFROMFULLIMITIFORDERESTR'' @
     ''ICTOTHERSOVERETURNINGRIGHTROLLBACKROWSUNBOUNDEDUNIONUSINGVACUUMVIEWINDOW'' @
     ''BYINITIALLYPRIMARY''"

definition aKWHash :: "nat list" where
  "aKWHash = [
     84, 92, 134, 82, 105, 29, 0, 0, 94, 0, 85, 72, 0, 53, 35, 86, 15, 0, 42, 97, 54, 89, 135,
     19, 0, 0, 140, 0, 40, 129, 0, 22, 107, 0, 9, 0, 0, 123, 80, 0, 78, 6, 0, 65, 103, 147, 0,
     136, 115, 0, 0, 48, 0, 90, 24, 0, 17, 0, 27, 70, 23, 26, 5, 60, 142, 110, 122, 0, 73, 91,
     71, 145, 61, 120, 74, 0, 49, 0, 11, 41, 0, 113, 0, 0, 0, 109, 10, 111, 116, 125, 14, 50,
     124, 0, 100, 0, 18, 121, 144, 56, 130, 139, 88, 83, 37, 30, 126, 0, 0, 108, 51, 131, 128,
     0, 34, 0, 0, 132, 0, 98, 38, 39, 0, 20, 45, 117, 93]"

definition aKWNext :: "nat list" where
  "aKWNext = [
     0, 0, 0, 0, 0, 4, 0, 43, 0, 0, 106, 114, 0, 0, 0, 2, 0, 0, 143, 0, 0, 0, 13, 0, 0, 0, 0,
     141, 0, 0, 119, 52, 0, 0, 137, 12, 0, 0, 62, 0, 138, 0, 133, 0, 0, 36, 0, 0, 28, 77, 0, 0,
     0, 0, 59, 0, 47, 0, 0, 0, 0, 0, 0, 0, 0, 0, 0, 69, 0, 0, 0, 0, 0, 146, 3, 0, 58, 0, 1, 75,
     0, 0, 0, 31, 0, 0, 0, 0, 0, 127, 0, 104, 0, 64, 66, 63, 0, 0, 0, 0, 0, 46, 0, 16, 8, 0, 0,
     0, 0, 0, 0, 0, 0, 0, 0, 81, 101, 0, 112, 21, 7, 67, 0, 79, 96, 118, 0, 0, 68, 0, 0, 99,
     44, 0, 55, 0, 76, 0, 95, 32, 33, 57, 25, 0, 102, 0, 0, 87]"

definition aKWLen :: "nat list" where
  "aKWLen = [
     0, 7, 7, 5, 4, 6, 4, 5, 3, 6, 7, 3, 6, 6, 7, 7, 3, 8, 2, 6, 5, 4, 4, 3, 10, 4, 7, 6, 9, 4,
     2, 6, 5, 9, 9, 4, 7, 3, 2, 4, 4, 6, 11, 6, 2, 7, 5, 5, 9, 6, 10, 4, 6, 2, 3, 7, 5, 9, 6,
     6, 4, 5, 5, 10, 6, 5, 7, 4, 5, 7, 6, 7, 7, 6, 5, 7, 3, 7, 4, 7, 6, 12, 9, 4, 6, 5, 4, 7,
     6, 12, 8, 8, 2, 6, 6, 7, 6, 4, 5, 9, 5, 5, 6, 3, 4, 9, 13, 2, 2, 4, 6, 6, 8, 5, 17, 12, 7,
     9, 4, 4, 6, 7, 5, 9, 4, 4, 5, 2, 5, 8, 6, 4, 9, 5, 8, 4, 3, 9, 5, 5, 6, 4, 6, 2, 2, 9, 3, 7]"

definition aKWOffset :: "nat list" where
  "aKWOffset = [
     0, 0, 2, 2, 8, 9, 14, 16, 20, 23, 25, 25, 29, 33, 36, 41, 46, 48, 53, 54, 59, 62, 65, 67,
     69, 78, 81, 86, 90, 90, 94, 99, 101, 105, 111, 119, 123, 123, 123, 126, 129, 132, 137,
     142, 146, 147, 152, 156, 160, 168, 174, 181, 184, 184, 187, 189, 195, 198, 206, 211, 216,
     219, 222, 226, 236, 239, 244, 244, 248, 252, 259, 265, 271, 277, 277, 283, 284, 288, 295,
     299, 306, 312, 324, 333, 335, 341, 346, 348, 355, 359, 370, 377, 378, 385, 391, 397, 402,
     408, 412, 415, 424, 429, 433, 439, 441, 444, 453, 455, 457, 466, 470, 476, 482, 490, 495,
     495, 495, 511, 520, 523, 527, 532, 539, 544, 553, 557, 560, 565, 567, 571, 579, 585, 588,
     597, 602, 610, 610, 614, 623, 628, 633, 639, 642, 645, 648, 650, 655, 659]"

definition aKWCode :: "nat list" where
  "aKWCode = [
     0, TK_REINDEX, TK_INDEXED, TK_INDEX, TK_DESC, TK_ESCAPE, TK_EACH, TK_CHECK, TK_KEY,
     TK_BEFORE, TK_FOREIGN, TK_FOR, TK_IGNORE, TK_LIKE_KW, TK_EXPLAIN, TK_INSTEAD, TK_ADD,
     TK_DATABASE, TK_AS, TK_SELECT, TK_TABLE, TK_JOIN_KW, TK_THEN, TK_END, TK_DEFERRABLE,
     TK_ELSE, TK_EXCLUDE, TK_DELETE, TK_TEMP, TK_TEMP, TK_OR, TK_ISNULL, TK_NULLS,
     TK_SAVEPOINT, TK_INTERSECT, TK_TIES, TK_NOTNULL, TK_NOT, TK_NO, TK_NULL, TK_LIKE_KW,
     TK_EXCEPT, TK_TRANSACTION, TK_ACTION, TK_ON, TK_JOIN_KW, TK_ALTER, TK_RAISE, TK_EXCLUSIVE,
     TK_EXISTS, TK_CONSTRAINT, TK_INTO, TK_OFFSET, TK_OF, TK_SET, TK_TRIGGER, TK_RANGE,
     TK_GENERATED, TK_DETACH, TK_HAVING, TK_LIKE_KW, TK_BEGIN, TK_JOIN_KW, TK_REFERENCES,
     TK_UNIQUE, TK_QUERY, TK_WITHOUT, TK_WITH, TK_JOIN_KW, TK_RELEASE, TK_ATTACH, TK_BETWEEN,
     TK_NOTHING, TK_GROUPS, TK_GROUP, TK_CASCADE, TK_ASC, TK_DEFAULT, TK_CASE, TK_COLLATE,
     TK_CREATE, TK_CTIME_KW, TK_IMMEDIATE, TK_JOIN, TK_INSERT, TK_MATCH, TK_PLAN, TK_ANALYZE,
     TK_PRAGMA, TK_MATERIALIZED, TK_DEFERRED, TK_DISTINCT, TK_IS, TK_UPDATE, TK_VALUES,
     TK_VIRTUAL, TK_ALWAYS, TK_WHEN, TK_WHERE, TK_RECURSIVE, TK_ABORT, TK_AFTER, TK_RENAME,
     TK_AND, TK_DROP, TK_PARTITION, TK_AUTOINCR, TK_TO, TK_IN, TK_CAST, TK_COLUMNKW, TK_COMMIT,
     TK_CONFLICT, TK_JOIN_KW, TK_CTIME_KW, TK_CTIME_KW, TK_CURRENT, TK_PRECEDING, TK_FAIL,
     TK_LAST, TK_FILTER, TK_REPLACE, TK_FIRST, TK_FOLLOWING, TK_FROM, TK_JOIN_KW, TK_LIMIT,
     TK_IF, TK_ORDER, TK_RESTRICT, TK_OTHERS, TK_OVER, TK_RETURNING, TK_JOIN_KW, TK_ROLLBACK,
     TK_ROWS, TK_ROW, TK_UNBOUNDED, TK_UNION, TK_USING, TK_VACUUM, TK_VIEW, TK_WINDOW, TK_DO,
     TK_BY, TK_INITIALLY, TK_ALL, TK_PRIMARY]"

section \<open>Lookup\<close>

text \<open>The hash of a token by its first byte, its last byte and its length; \<^verbatim>\<open>charMap\<close> is the case map.\<close>

definition kw_hash :: "bytes \<Rightarrow> nat \<Rightarrow> nat" where
  "kw_hash z n = ((unat (UpperToLower (zat z 0)) * 4) XOR (unat (UpperToLower (zat z (n - 1))) * 3) XOR n * 1) mod 127"

text \<open>
  The inner test: the bytes of the token, bit \<open>0x20\<close> cleared, are those of keyword \<open>i\<close>.
\<close>

fun kw_match :: "bytes \<Rightarrow> nat \<Rightarrow> nat \<Rightarrow> nat \<Rightarrow> bool" where
  "kw_match z off j 0 = True"
| "kw_match z off j (Suc k) \<longleftrightarrow>
     unat (zat z j) AND 0xDF = of_char (zKWText ! (off + j)) \<and> kw_match z off (j + 1) k"

text \<open>
  The loop over a collision chain. Nothing in the code bounds it, so it runs on fuel; \<^term>\<open>None\<close> means that
  the fuel is used up. No chain of the tables has more than five members, which the fuel covers.
\<close>

fun keyword_loop :: "nat \<Rightarrow> bytes \<Rightarrow> nat \<Rightarrow> nat \<Rightarrow> nat option" where
  "keyword_loop 0 z n i = None"
| "keyword_loop (Suc f) z n i =
     (if i > 0
      then (if aKWLen ! i \<noteq> n then keyword_loop f z n (aKWNext ! i)
            else if kw_match z (aKWOffset ! i) 0 n then Some (aKWCode ! i)
            else keyword_loop f z n (aKWNext ! i))
      else Some TK_ID)"

definition keyword_fuel :: nat where
  "keyword_fuel = 8"

definition keywordCode :: "bytes \<Rightarrow> nat \<Rightarrow> nat option" where
  "keywordCode z n = keyword_loop keyword_fuel z n (aKWHash ! kw_hash z n)"

definition sqlite3KeywordCode :: "bytes \<Rightarrow> nat \<Rightarrow> nat option" where
  "sqlite3KeywordCode z n = (if n \<ge> 2 then keywordCode z n else Some TK_ID)"

definition SQLITE_N_KEYWORD :: int where
  "SQLITE_N_KEYWORD = 147"

definition sqlite3_keyword_count :: int where
  "sqlite3_keyword_count = SQLITE_N_KEYWORD"

text \<open>\<^term>\<open>None\<close> is \<^verbatim>\<open>SQLITE_ERROR\<close>.\<close>

definition sqlite3_keyword_name :: "int \<Rightarrow> string option" where
  "sqlite3_keyword_name i =
     (if i < 0 \<or> i \<ge> SQLITE_N_KEYWORD then None
      else (let i = nat i + 1 in Some (take (aKWLen ! i) (drop (aKWOffset ! i) zKWText))))"

definition sqlite3_keyword_check :: "bytes \<Rightarrow> nat \<Rightarrow> bool option" where
  "sqlite3_keyword_check zName nName = map_option (\<lambda>id. TK_ID \<noteq> id) (sqlite3KeywordCode zName nName)"

section \<open>The tables\<close>

text \<open>The keywords, in the order of the tables.\<close>

definition sql_keywords :: "string list" where
  "sql_keywords = [
     ''REINDEX'', ''INDEXED'', ''INDEX'', ''DESC'', ''ESCAPE'', ''EACH'', ''CHECK'', ''KEY'',
     ''BEFORE'', ''FOREIGN'', ''FOR'', ''IGNORE'', ''REGEXP'', ''EXPLAIN'', ''INSTEAD'',
     ''ADD'', ''DATABASE'', ''AS'', ''SELECT'', ''TABLE'', ''LEFT'', ''THEN'', ''END'',
     ''DEFERRABLE'', ''ELSE'', ''EXCLUDE'', ''DELETE'', ''TEMPORARY'', ''TEMP'', ''OR'',
     ''ISNULL'', ''NULLS'', ''SAVEPOINT'', ''INTERSECT'', ''TIES'', ''NOTNULL'', ''NOT'',
     ''NO'', ''NULL'', ''LIKE'', ''EXCEPT'', ''TRANSACTION'', ''ACTION'', ''ON'', ''NATURAL'',
     ''ALTER'', ''RAISE'', ''EXCLUSIVE'', ''EXISTS'', ''CONSTRAINT'', ''INTO'', ''OFFSET'',
     ''OF'', ''SET'', ''TRIGGER'', ''RANGE'', ''GENERATED'', ''DETACH'', ''HAVING'', ''GLOB'',
     ''BEGIN'', ''INNER'', ''REFERENCES'', ''UNIQUE'', ''QUERY'', ''WITHOUT'', ''WITH'',
     ''OUTER'', ''RELEASE'', ''ATTACH'', ''BETWEEN'', ''NOTHING'', ''GROUPS'', ''GROUP'',
     ''CASCADE'', ''ASC'', ''DEFAULT'', ''CASE'', ''COLLATE'', ''CREATE'', ''CURRENT_DATE'',
     ''IMMEDIATE'', ''JOIN'', ''INSERT'', ''MATCH'', ''PLAN'', ''ANALYZE'', ''PRAGMA'',
     ''MATERIALIZED'', ''DEFERRED'', ''DISTINCT'', ''IS'', ''UPDATE'', ''VALUES'', ''VIRTUAL'',
     ''ALWAYS'', ''WHEN'', ''WHERE'', ''RECURSIVE'', ''ABORT'', ''AFTER'', ''RENAME'', ''AND'',
     ''DROP'', ''PARTITION'', ''AUTOINCREMENT'', ''TO'', ''IN'', ''CAST'', ''COLUMN'',
     ''COMMIT'', ''CONFLICT'', ''CROSS'', ''CURRENT_TIMESTAMP'', ''CURRENT_TIME'', ''CURRENT'',
     ''PRECEDING'', ''FAIL'', ''LAST'', ''FILTER'', ''REPLACE'', ''FIRST'', ''FOLLOWING'',
     ''FROM'', ''FULL'', ''LIMIT'', ''IF'', ''ORDER'', ''RESTRICT'', ''OTHERS'', ''OVER'',
     ''RETURNING'', ''RIGHT'', ''ROLLBACK'', ''ROWS'', ''ROW'', ''UNBOUNDED'', ''UNION'',
     ''USING'', ''VACUUM'', ''VIEW'', ''WINDOW'', ''DO'', ''BY'', ''INITIALLY'', ''ALL'',
     ''PRIMARY'']"

definition kw_text :: "nat \<Rightarrow> string" where
  "kw_text i = take (aKWLen ! i) (drop (aKWOffset ! i) zKWText)"

text \<open>The slices of a text at increasing offsets, cut in one pass.\<close>

fun slices :: "'a list \<Rightarrow> nat \<Rightarrow> (nat \<times> nat) list \<Rightarrow> 'a list list option" where
  "slices t p [] = Some []"
| "slices t p ((off, n) # r) =
     (if off < p then None
      else (let t = drop (off - p) t in map_option ((#) (take n t)) (slices t off r)))"

lemma slices_text: "slices (drop p t) p r = Some ss \<Longrightarrow> ss = map (\<lambda>(off, n). take n (drop off t)) r"
proof (induction r arbitrary: p ss)
  case (Cons x r)
  obtain off n where x: "x = (off, n)"
    by (cases x)
  with Cons.prems have "p \<le> off" "drop (off - p) (drop p t) = drop off t"
    by (auto simp: split: if_splits)
  with Cons x show ?case
    by (auto simp: Let_def simp del: drop_drop split: if_splits)
qed simp

lemma kw_slices: "slices zKWText 0 (tl (zip aKWOffset aKWLen)) = Some sql_keywords"
  by code_simp


text \<open>The members of a collision chain, and what the tables have to satisfy for a keyword.\<close>

fun kw_chain :: "nat \<Rightarrow> nat \<Rightarrow> nat list option" where
  "kw_chain 0 i = None"
| "kw_chain (Suc f) i = (if i > 0 then map_option ((#) i) (kw_chain f (aKWNext ! i)) else Some [])"

definition upper_letter :: "int \<Rightarrow> bool" where
  "upper_letter c \<longleftrightarrow> 65 \<le> c \<and> c \<le> 90"

definition kw_ok :: "nat \<times> string \<Rightarrow> bool" where
  "kw_ok x \<longleftrightarrow>
     (case x of (i, t) \<Rightarrow>
        (let a = of_char (hd t); b = of_char (last t)
         in 2 \<le> length t \<and> upper_letter a \<and> upper_letter b
            \<and> (case kw_chain keyword_fuel (aKWHash ! nat ((((a + 32) * 4) XOR ((b + 32) * 3) XOR int (length t)) mod 127)) of
                 None \<Rightarrow> False | Some js \<Rightarrow> find (\<lambda>j. sql_keywords ! (j - 1) = t) js = Some i)))"

lemma kw_chains:
  "list_all (\<lambda>i. case kw_chain keyword_fuel i of None \<Rightarrow> False | Some js \<Rightarrow> list_all (\<lambda>j. 0 < j \<and> j < 148) js) aKWHash"
  by code_simp

lemma kw_lengths: "map length sql_keywords = tl aKWLen"
  by code_simp

lemma kw_tables: "list_all kw_ok (zip [1..<148] sql_keywords)"
  by code_simp

section \<open>Lookup is exact\<close>

text \<open>The token with bit \<open>0x20\<close> of every byte cleared, and keyword \<open>i\<close> as byte values.\<close>

definition kw_upper :: "bytes \<Rightarrow> nat \<Rightarrow> nat list" where
  "kw_upper z n = map (\<lambda>c. unat c AND 0xDF) (take n z)"

definition kw_codes :: "nat \<Rightarrow> nat list" where
  "kw_codes i = map of_char (sql_keywords ! (i - 1))"

lemma keywords_length: "length sql_keywords = 147" "length aKWOffset = 148" "length aKWLen = 148" "length aKWCode = 148"
  by (simp_all add: sql_keywords_def aKWOffset_def aKWLen_def aKWCode_def)

lemma kw_text_keywords: "0 < i \<Longrightarrow> i < 148 \<Longrightarrow> kw_text i = sql_keywords ! (i - 1)"
proof -
  assume i: "0 < i" "i < 148"
  have "sql_keywords = map (\<lambda>(off, n). take n (drop off zKWText)) (tl (zip aKWOffset aKWLen))"
    using slices_text [of 0 zKWText] kw_slices by simp
  then have "sql_keywords ! (i - 1) = map (\<lambda>(off, n). take n (drop off zKWText)) (tl (zip aKWOffset aKWLen)) ! (i - 1)"
    by (rule arg_cong)
  then show ?thesis
    using i keywords_length by (simp add: kw_text_def nth_tl)
qed

lemma kw_len: "0 < i \<Longrightarrow> i < 148 \<Longrightarrow> aKWLen ! i = length (sql_keywords ! (i - 1))"
proof -
  assume i: "0 < i" "i < 148"
  have "map length sql_keywords ! (i - 1) = tl aKWLen ! (i - 1)"
    by (simp add: kw_lengths)
  then show ?thesis
    using i keywords_length by (simp add: nth_tl)
qed

lemma kw_match_iff:
  "kw_match z off j k \<longleftrightarrow> (\<forall>m<k. unat (zat z (j + m)) AND 0xDF = of_char (zKWText ! (off + (j + m))))"
proof (induction k arbitrary: j)
  case (Suc k)
  then show ?case
    by (auto simp: less_Suc_eq_0_disj add.commute)
qed simp

lemma kw_match_codes:
  assumes "0 < i" "i < 148" "aKWLen ! i = n" "n \<le> length z"
  shows "kw_match z (aKWOffset ! i) 0 n \<longleftrightarrow> kw_upper z n = kw_codes i"
proof -
  have t: "sql_keywords ! (i - 1) = take n (drop (aKWOffset ! i) zKWText)"
    using kw_text_keywords [OF assms(1,2)] assms(3) by (simp add: kw_text_def)
  have l: "length (sql_keywords ! (i - 1)) = n"
    using kw_len [OF assms(1,2)] assms(3) by simp
  have "sql_keywords ! (i - 1) ! m = zKWText ! (aKWOffset ! i + m)" if "m < n" for m
    using that l t by simp
  then show ?thesis
    using assms(4) l by (auto simp: kw_match_iff kw_upper_def kw_codes_def list_eq_iff_nth_eq zat_def)
qed

lemma keyword_loop_find:
  assumes "kw_chain f i = Some js" "\<forall>j\<in>set js. 0 < j \<and> j < 148" "n \<le> length z"
  shows "keyword_loop f z n i
    = Some (case find (\<lambda>j. kw_codes j = kw_upper z n) js of None \<Rightarrow> TK_ID | Some j \<Rightarrow> aKWCode ! j)"
  using assms(1,2)
proof (induction f arbitrary: i js)
  case (Suc f)
  show ?case
  proof (cases "i > 0")
    case True
    with Suc.prems(1) obtain js' where js: "js = i # js'" "kw_chain f (aKWNext ! i) = Some js'"
      by auto
    with Suc.prems(2) have i: "0 < i" "i < 148"
      by auto
    have "length (kw_upper z n) = n" "length (kw_codes i) = aKWLen ! i"
      using assms(3) kw_len [OF i] by (simp_all add: kw_upper_def kw_codes_def)
    then have "aKWLen ! i \<noteq> n \<Longrightarrow> kw_codes i \<noteq> kw_upper z n"
      by metis
    then show ?thesis
      using True js Suc.IH [OF js(2)] Suc.prems(2) kw_match_codes [OF i _ assms(3)] by auto
  next
    case False
    with Suc.prems(1) show ?thesis
      by auto
  qed
qed simp

lemma kw_ok_nth: "0 < i \<Longrightarrow> i < 148 \<Longrightarrow> kw_ok (i, sql_keywords ! (i - 1))"
proof -
  assume i: "0 < i" "i < 148"
  then have "zip [1..<148] sql_keywords ! (i - 1) = (i, sql_keywords ! (i - 1))"
    using keywords_length by simp
  moreover have "i - 1 < length (zip [1..<148] sql_keywords)"
    using i keywords_length by simp
  ultimately show ?thesis
    using kw_tables by (metis list_all_length)
qed


lemma upper_bits:
  assumes "int (unat (c :: u8) AND 0xDF) = a" "upper_letter a"
  shows "int (unat (UpperToLower c)) = a + 32"
proof -
  have "list_all (\<lambda>c::int. upper_letter (c AND 0xDF) \<longrightarrow> c = c AND 0xDF \<or> c = (c AND 0xDF) + 32) [0..255]"
    by code_simp
  moreover have "int (unat c) \<in> set [0..255]"
    using unsigned_less [of c, where 'a = int] by simp
  moreover have "int (unat c) AND 0xDF = a"
    using assms(1) by (simp add: of_nat_and_eq)
  ultimately have c: "int (unat c) = a \<or> int (unat c) = a + 32"
    using assms(2) by (auto simp: list_all_iff)
  obtain m where m: "a = int m" "65 \<le> m" "m \<le> 90"
    using assms(2) by (metis upper_letter_def nat_eq_iff2 nat_le_iff nat_numeral of_nat_0_le_iff
        zero_le_numeral order_trans nat_mono int_nat_eq)
  have "unat c = m \<or> unat c = m + 32"
    using c m(1) by presburger
  then have "unat (UpperToLower c) = m + 32"
    using m(2,3) by (auto simp: UpperToLower_eq unat_word_ariths)
  then show ?thesis
    using m(1) by (simp only: of_nat_add of_nat_numeral)
qed

text \<open>A token that spells a keyword has the hash of the keyword.\<close>

lemma kw_hash_match:
  assumes "kw_upper z n = map of_char t" "kw_ok (i, t)" "n \<le> length z"
  shows "kw_hash z n = nat ((((of_char (hd t) + 32) * 4) XOR ((of_char (last t) + 32) * 3) XOR int (length t)) mod 127)"
proof -
  have n: "n = length t"
    using assms(1,3) by (metis kw_upper_def length_map length_take min.absorb2)
  have t: "2 \<le> length t" "upper_letter (of_char (hd t))" "upper_letter (of_char (last t))"
    using assms(2) by (auto simp: kw_ok_def Let_def)
  have nth: "unat (zat z j) AND 0xDF = of_char (t ! j)" if "j < n" for j
  proof -
    have "kw_upper z n ! j = map of_char t ! j"
      by (simp add: assms(1))
    then show ?thesis
      using that n assms(3) by (simp add: kw_upper_def zat_def)
  qed
  have "int (unat (zat z 0) AND 0xDF) = of_char (hd t)"
    using nth [of 0] t(1) n by (cases t) (auto simp: of_char_def)
  from upper_bits [OF this t(2)] have a: "int (unat (UpperToLower (zat z 0))) = of_char (hd t) + 32" .
  have "int (unat (zat z (n - 1)) AND 0xDF) = of_char (last t)"
    using nth [of "n - 1"] t(1) n by (cases "t = []") (auto simp: of_char_def last_conv_nth)
  from upper_bits [OF this t(3)] have b: "int (unat (UpperToLower (zat z (n - 1)))) = of_char (last t) + 32" .
  have "int (kw_hash z n) = (((of_char (hd t) + 32) * 4) XOR ((of_char (last t) + 32) * 3) XOR int (length t)) mod 127"
    using a b by (simp add: kw_hash_def of_nat_xor_eq zmod_int n)
  then show ?thesis
    by simp
qed


definition kw_map :: "(nat list \<times> nat) list" where
  "kw_map = zip (map (map of_char) sql_keywords) (tl aKWCode)"

lemma kw_codes_inj: "kw_codes i = kw_codes j \<longleftrightarrow> sql_keywords ! (i - 1) = sql_keywords ! (j - 1)"
proof -
  have "inj (map (of_char :: char \<Rightarrow> nat))"
    by (simp add: inj_of_char)
  then show ?thesis
    by (auto simp: kw_codes_def dest: injD)
qed

lemma kw_chain_keyword:
  assumes "0 < i" "i < 148" "kw_upper z n = kw_codes i" "n \<le> length z"
  obtains js where "kw_chain keyword_fuel (aKWHash ! kw_hash z n) = Some js"
    and "find (\<lambda>j. kw_codes j = kw_upper z n) js = Some i"
proof -
  let ?t = "sql_keywords ! (i - 1)"
  have ok: "kw_ok (i, ?t)"
    by (rule kw_ok_nth [OF assms(1,2)])
  have h: "kw_hash z n = nat ((((of_char (hd ?t) + 32) * 4) XOR ((of_char (last ?t) + 32) * 3) XOR int (length ?t)) mod 127)"
    using assms(3,4) ok by (intro kw_hash_match) (simp_all add: kw_codes_def)
  obtain js where js: "kw_chain keyword_fuel (aKWHash ! kw_hash z n) = Some js"
    and f: "find (\<lambda>j. sql_keywords ! (j - 1) = ?t) js = Some i"
    using ok unfolding h kw_ok_def by (auto simp: Let_def split: option.splits)
  have "(\<lambda>j. kw_codes j = kw_upper z n) = (\<lambda>j. sql_keywords ! (j - 1) = ?t)"
    using assms(3) by (simp add: kw_codes_inj)
  with js f show thesis
    by (intro that) simp_all
qed

lemma kw_chain_exists:
  obtains js where "kw_chain keyword_fuel (aKWHash ! kw_hash z n) = Some js" "\<forall>j\<in>set js. 0 < j \<and> j < 148"
proof -
  have "kw_hash z n < length aKWHash"
    by (simp add: kw_hash_def aKWHash_def)
  then show thesis
    using kw_chains that unfolding list_all_length [of _ aKWHash] by (auto simp: list_all_iff split: option.splits)
qed

lemma kw_unique:
  assumes "0 < i" "i < 148" "0 < j" "j < 148" "sql_keywords ! (i - 1) = sql_keywords ! (j - 1)"
  shows "i = j"
  using kw_ok_nth [OF assms(1,2)] kw_ok_nth [OF assms(3,4)] assms(5)
  by (auto simp: kw_ok_def Let_def split: option.splits)

lemma kw_map_Some:
  assumes "0 < i" "i < 148"
  shows "map_of kw_map (kw_codes i) = Some (aKWCode ! i)"
proof -
  have inj: "inj (map (of_char :: char \<Rightarrow> nat))"
    by (simp add: inj_of_char)
  have "distinct sql_keywords"
  proof (rule distinct_conv_nth [THEN iffD2], intro allI impI)
    fix a b assume "a < length sql_keywords" "b < length sql_keywords" "a \<noteq> b"
    then show "sql_keywords ! a \<noteq> sql_keywords ! b"
      using kw_unique [of "a + 1" "b + 1"] keywords_length by auto
  qed
  then have "distinct (map (map (of_char :: char \<Rightarrow> nat)) sql_keywords)"
    using inj_on_subset [OF inj subset_UNIV] unfolding distinct_map by blast
  moreover have "(kw_codes i, aKWCode ! i) \<in> set kw_map"
    unfolding kw_map_def set_zip kw_codes_def using assms keywords_length
    by (intro CollectI exI [of _ "i - 1"]) (simp add: nth_tl)
  ultimately show ?thesis
    by (simp add: kw_map_def keywords_length)
qed

lemma kw_map_None:
  assumes "\<forall>i. 0 < i \<and> i < 148 \<longrightarrow> kw_codes i \<noteq> u"
  shows "map_of kw_map u = None"
proof -
  have "u \<noteq> map of_char (sql_keywords ! k)" if "k < 147" for k
    using assms [rule_format, of "k + 1"] that by (simp add: kw_codes_def)
  then have "u \<notin> set (map (map of_char) sql_keywords)"
    unfolding in_set_conv_nth using keywords_length(1) by (metis length_map nth_map)
  then show ?thesis
    by (simp add: kw_map_def map_of_zip_is_None keywords_length)
qed

text \<open>The loop, with its fuel, finds the code of the keyword that the token spells, and \<open>TK_ID\<close> otherwise.\<close>

lemma keywordCode_map:
  assumes "n \<le> length z"
  shows "keywordCode z n = Some (case map_of kw_map (kw_upper z n) of None \<Rightarrow> TK_ID | Some c \<Rightarrow> c)"
proof (cases "\<exists>i. 0 < i \<and> i < 148 \<and> kw_upper z n = kw_codes i")
  case True
  then obtain i where i: "0 < i" "i < 148" "kw_upper z n = kw_codes i"
    by blast
  from kw_chain_keyword [OF i assms] obtain js where js: "kw_chain keyword_fuel (aKWHash ! kw_hash z n) = Some js"
    "find (\<lambda>j. kw_codes j = kw_upper z n) js = Some i" .
  moreover have "\<forall>j\<in>set js. 0 < j \<and> j < 148"
    using kw_chain_exists js(1) by (metis option.inject)
  ultimately show ?thesis
    using keyword_loop_find [OF js(1) _ assms] kw_map_Some [OF i(1,2)] i(3) by (simp add: keywordCode_def)
next
  case False
  obtain js where js: "kw_chain keyword_fuel (aKWHash ! kw_hash z n) = Some js" "\<forall>j\<in>set js. 0 < j \<and> j < 148"
    by (rule kw_chain_exists)
  then have "find (\<lambda>j. kw_codes j = kw_upper z n) js = None"
    using False by (auto simp: find_None_iff)
  moreover have "map_of kw_map (kw_upper z n) = None"
    using False by (intro kw_map_None) metis
  ultimately show ?thesis
    using keyword_loop_find [OF js assms] by (simp add: keywordCode_def)
qed


lemma kw_codes_not_id: "list_all (\<lambda>c. c \<noteq> TK_ID) (tl aKWCode)"
  by code_simp

section \<open>Properties\<close>

text \<open>
  C27. The keyword hash table is exact: the loop over the collision chains always ends within its fuel, and
  for every token of \<open>n\<close> bytes it returns the code of the keyword of the list that the bytes spell (bit
  \<open>0x20\<close> of each byte cleared), and \<open>TK_ID\<close> when they spell none. The hash never sends a keyword to the
  wrong chain.
\<close>

theorem keyword_lookup_exact:
  assumes "n \<le> length z"
  shows "keywordCode z n = Some (case map_of kw_map (kw_upper z n) of None \<Rightarrow> TK_ID | Some c \<Rightarrow> c)"
  by (rule keywordCode_map [OF assms])

theorem keyword_lookup_exact_witness:
  "keywordCode [0x73, 0x45, 0x74, 0x20] 3 = Some (case map_of kw_map (kw_upper [0x73, 0x45, 0x74, 0x20] 3) of None \<Rightarrow> TK_ID | Some c \<Rightarrow> c)"
  by (rule keyword_lookup_exact) simp

text \<open>
  The keyword interface agrees with itself: for the indexes below \<^verbatim>\<open>sqlite3_keyword_count\<close> and only for
  those, \<^verbatim>\<open>sqlite3_keyword_name\<close> returns a name, and \<^verbatim>\<open>sqlite3_keyword_check\<close> accepts every spelling of it.
\<close>

theorem keyword_names_recognized:
  "(case sqlite3_keyword_name i of
      None \<Rightarrow> i < 0 \<or> i \<ge> sqlite3_keyword_count
    | Some s \<Rightarrow> 0 \<le> i \<and> i < sqlite3_keyword_count
        \<and> (kw_upper z (length z) = map of_char s \<longrightarrow> sqlite3_keyword_check z (length z) = Some True))"
proof (cases "i < 0 \<or> i \<ge> 147")
  case True
  then show ?thesis
    by (auto simp: sqlite3_keyword_name_def sqlite3_keyword_count_def SQLITE_N_KEYWORD_def)
next
  case False
  define k where "k = nat i + 1"
  have k: "0 < k" "k < 148"
    using False by (auto simp: k_def)
  have name: "sqlite3_keyword_name i = Some (sql_keywords ! (k - 1))"
    using False kw_text_keywords [OF k] by (simp add: sqlite3_keyword_name_def SQLITE_N_KEYWORD_def kw_text_def k_def)
  have "sqlite3_keyword_check z (length z) = Some True" if u: "kw_upper z (length z) = map of_char (sql_keywords ! (k - 1))"
  proof -
    have "length z = length (sql_keywords ! (k - 1))"
      using arg_cong [OF u, of length] by (simp add: kw_upper_def)
    then have "2 \<le> length z"
      using kw_ok_nth [OF k] by (simp add: kw_ok_def Let_def)
    moreover have "aKWCode ! k \<noteq> TK_ID"
      using kw_codes_not_id k keywords_length by (auto simp: list_all_length nth_tl dest: spec [of _ "k - 1"])
    ultimately show ?thesis
      using keywordCode_map [of "length z" z] kw_map_Some [OF k] u
      by (simp add: sqlite3_keyword_check_def sqlite3KeywordCode_def kw_codes_def)
  qed
  then show ?thesis
    using False name by (simp add: sqlite3_keyword_count_def SQLITE_N_KEYWORD_def)
qed

theorem keyword_names_recognized_witness:
  "sqlite3_keyword_name 15 = Some ''ADD'' \<and> sqlite3_keyword_check [0x61, 0x44, 0x64] 3 = Some True"
proof -
  have "sqlite3_keyword_name 15 = Some ''ADD''"
    using kw_text_keywords [of 16]
    by (simp add: sqlite3_keyword_name_def SQLITE_N_KEYWORD_def kw_text_def sql_keywords_def)
  moreover have "kw_upper [0x61, 0x44, 0x64] 3 = map of_char ''ADD''"
    by code_simp
  ultimately show ?thesis
    using keyword_names_recognized [of 15 "[0x61, 0x44, 0x64]"] by (simp add: eval_nat_numeral)
qed

end
