(* ===== verification/TokenM.thy ===== *)
theory TokenM
  imports KeywordM
begin

text \<open>
  The tokenizer (\<^verbatim>\<open>tokenize.c\<close>): \<^verbatim>\<open>sqlite3GetToken\<close>, the look-ahead that decides whether WINDOW, OVER and
  FILTER are keywords, and the loop of \<^verbatim>\<open>sqlite3RunParser\<close> that feeds the parser. The SQL text is the list
  of its bytes without the terminator; index \<open>length z\<close> reads the terminating zero.
  \<open>TokenMemM\<close> has the tokenizer with its reads checked, \<open>ParserLoopM\<close> what the loop gives the parser.
\<close>

section \<open>Definitions\<close>

text \<open>Character classes.\<close>

abbreviation (input) CC_X :: nat where "CC_X \<equiv> 0"
abbreviation (input) CC_KYWD0 :: nat where "CC_KYWD0 \<equiv> 1"
abbreviation (input) CC_KYWD :: nat where "CC_KYWD \<equiv> 2"
abbreviation (input) CC_DIGIT :: nat where "CC_DIGIT \<equiv> 3"
abbreviation (input) CC_DOLLAR :: nat where "CC_DOLLAR \<equiv> 4"
abbreviation (input) CC_VARALPHA :: nat where "CC_VARALPHA \<equiv> 5"
abbreviation (input) CC_VARNUM :: nat where "CC_VARNUM \<equiv> 6"
abbreviation (input) CC_SPACE :: nat where "CC_SPACE \<equiv> 7"
abbreviation (input) CC_QUOTE :: nat where "CC_QUOTE \<equiv> 8"
abbreviation (input) CC_QUOTE2 :: nat where "CC_QUOTE2 \<equiv> 9"
abbreviation (input) CC_PIPE :: nat where "CC_PIPE \<equiv> 10"
abbreviation (input) CC_MINUS :: nat where "CC_MINUS \<equiv> 11"
abbreviation (input) CC_LT :: nat where "CC_LT \<equiv> 12"
abbreviation (input) CC_GT :: nat where "CC_GT \<equiv> 13"
abbreviation (input) CC_EQ :: nat where "CC_EQ \<equiv> 14"
abbreviation (input) CC_BANG :: nat where "CC_BANG \<equiv> 15"
abbreviation (input) CC_SLASH :: nat where "CC_SLASH \<equiv> 16"
abbreviation (input) CC_LP :: nat where "CC_LP \<equiv> 17"
abbreviation (input) CC_RP :: nat where "CC_RP \<equiv> 18"
abbreviation (input) CC_SEMI :: nat where "CC_SEMI \<equiv> 19"
abbreviation (input) CC_PLUS :: nat where "CC_PLUS \<equiv> 20"
abbreviation (input) CC_STAR :: nat where "CC_STAR \<equiv> 21"
abbreviation (input) CC_PERCENT :: nat where "CC_PERCENT \<equiv> 22"
abbreviation (input) CC_COMMA :: nat where "CC_COMMA \<equiv> 23"
abbreviation (input) CC_AND :: nat where "CC_AND \<equiv> 24"
abbreviation (input) CC_TILDA :: nat where "CC_TILDA \<equiv> 25"
abbreviation (input) CC_DOT :: nat where "CC_DOT \<equiv> 26"
abbreviation (input) CC_ID :: nat where "CC_ID \<equiv> 27"
abbreviation (input) CC_ILLEGAL :: nat where "CC_ILLEGAL \<equiv> 28"
abbreviation (input) CC_NUL :: nat where "CC_NUL \<equiv> 29"
abbreviation (input) CC_BOM :: nat where "CC_BOM \<equiv> 30"

definition aiClass :: "nat list" where
  "aiClass = [
     29, 28, 28, 28, 28, 28, 28, 28, 28, 7, 7, 28, 7, 7, 28, 28, 28,
     28, 28, 28, 28, 28, 28, 28, 28, 28, 28, 28, 28, 28, 28, 28, 7, 15,
     8, 5, 4, 22, 24, 8, 17, 18, 21, 20, 23, 11, 26, 16, 3, 3, 3, 3, 3,
     3, 3, 3, 3, 3, 5, 19, 12, 14, 13, 6, 5, 1, 1, 1, 1, 1, 1, 1, 1, 1,
     1, 1, 1, 1, 1, 1, 1, 1, 1, 1, 1, 1, 1, 1, 0, 2, 2, 9, 28, 28, 28,
     2, 8, 1, 1, 1, 1, 1, 1, 1, 1, 1, 1, 1, 1, 1, 1, 1, 1, 1, 1, 1, 1,
     1, 1, 1, 0, 2, 2, 28, 10, 28, 25, 28, 27, 27, 27, 27, 27, 27, 27,
     27, 27, 27, 27, 27, 27, 27, 27, 27, 27, 27, 27, 27, 27, 27, 27,
     27, 27, 27, 27, 27, 27, 27, 27, 27, 27, 27, 27, 27, 27, 27, 27,
     27, 27, 27, 27, 27, 27, 27, 27, 27, 27, 27, 27, 27, 27, 27, 27,
     27, 27, 27, 27, 27, 27, 27, 27, 27, 27, 27, 27, 27, 27, 27, 27,
     27, 27, 27, 27, 27, 27, 27, 27, 27, 27, 27, 27, 27, 27, 27, 27,
     27, 27, 27, 27, 27, 27, 27, 27, 27, 27, 27, 27, 27, 27, 27, 27,
     27, 27, 27, 27, 27, 27, 27, 27, 30, 27, 27, 27, 27, 27, 27, 27,
     27, 27, 27, 27, 27, 27, 27, 27, 27]"

definition class_of :: "u8 \<Rightarrow> nat" where
  "class_of c = aiClass ! unat c"

text \<open>
  \<open>scan P z i\<close>: the loop \<^verbatim>\<open>while( P(z[i]) ) i++\<close>. All its uses have a \<open>P\<close> that fails on the terminator.
\<close>

definition scan :: "(u8 \<Rightarrow> bool) \<Rightarrow> bytes \<Rightarrow> nat \<Rightarrow> nat" where
  "scan P z i = i + length (takeWhile P (drop i z))"

text \<open>Digits with separators: where the loop stops, and whether it met a separator.\<close>

definition num_scan :: "(u8 \<Rightarrow> bool) \<Rightarrow> bytes \<Rightarrow> nat \<Rightarrow> nat \<times> bool" where
  "num_scan P z i =
     (let seg = takeWhile (\<lambda>c. P c \<or> c = 0x5F) (drop i z) in (i + length seg, 0x5F \<in> set seg))"

text \<open>The loops that remember the last byte \<open>c\<close>; the list is the text from index \<open>i\<close> on.\<close>

fun comment_loop :: "u8 \<Rightarrow> bytes \<Rightarrow> nat \<Rightarrow> u8 \<times> nat" where
  "comment_loop c [] i = (0, i)"
| "comment_loop c (x # z) i =
     (if c = 0x2A \<and> x = 0x2F then (c, i) else if x = 0 then (0, i) else comment_loop x z (i + 1))"

fun bracket_loop :: "u8 \<Rightarrow> bytes \<Rightarrow> nat \<Rightarrow> u8 \<times> nat" where
  "bracket_loop c z i =
     (if c = 0x5D then (c, i)
      else (case z of [] \<Rightarrow> (0, i) | x # z \<Rightarrow> if x = 0 then (0, i) else bracket_loop x z (i + 1)))"

fun quote_loop :: "u8 \<Rightarrow> bytes \<Rightarrow> nat \<Rightarrow> u8 \<times> nat" where
  "quote_loop delim [] i = (0, i)"
| "quote_loop delim (c # z) i =
     (if c = 0 then (0, i)
      else if c = delim
      then (case z of [] \<Rightarrow> (c, i) | c2 # z2 \<Rightarrow> if c2 = delim then quote_loop delim z2 (i + 2) else (c, i))
      else quote_loop delim z (i + 1))"

text \<open>The loop over a variable name: the end, the number of identifier characters, and if it is legal.\<close>

fun var_loop :: "bytes \<Rightarrow> nat \<Rightarrow> nat \<Rightarrow> nat \<times> nat \<times> bool" where
  "var_loop [] i n = (i, n, True)"
| "var_loop (c # z) i n =
     (if c = 0 then (i, n, True)
      else if IdChar c then var_loop z (i + 1) (n + 1)
      else if c = 0x28 \<and> n > 0
      then (let k = length (takeWhile (\<lambda>c. c \<noteq> 0 \<and> \<not> sqlite3Isspace c \<and> c \<noteq> 0x29) z)
            in if zat z k = 0x29 then (i + 1 + k + 1, n, True) else (i + 1 + k, n, False))
      else if c = 0x3A
      then (case z of [] \<Rightarrow> (i, n, True) | c2 # z2 \<Rightarrow> if c2 = 0x3A then var_loop z2 (i + 2) n else (i, n, True))
      else (i, n, True))"

text \<open>The case \<^verbatim>\<open>CC_DIGIT\<close>.\<close>

definition float_part :: "bytes \<Rightarrow> nat \<Rightarrow> nat \<Rightarrow> nat \<times> nat" where
  "float_part z i t =
     (if zat z i = 0x2E
      then (let t = (if t = TK_INTEGER then TK_FLOAT else t);
                (i, q) = num_scan sqlite3Isdigit z (i + 1)
            in (i, if q then TK_QNUMBER else t))
      else (i, t))"

definition exp_part :: "bytes \<Rightarrow> nat \<Rightarrow> nat \<Rightarrow> nat \<times> nat" where
  "exp_part z i t =
     (if (zat z i = 0x65 \<or> zat z i = 0x45)
         \<and> (sqlite3Isdigit (zat z (i + 1))
            \<or> ((zat z (i + 1) = 0x2B \<or> zat z (i + 1) = 0x2D) \<and> sqlite3Isdigit (zat z (i + 2))))
      then (let t = (if t = TK_INTEGER then TK_FLOAT else t);
                (i, q) = num_scan sqlite3Isdigit z (i + 2)
            in (i, if q then TK_QNUMBER else t))
      else (i, t))"

definition number_token :: "bytes \<Rightarrow> nat \<times> nat" where
  "number_token z =
     (let (i, t) =
        (if zat z 0 = 0x30 \<and> (zat z 1 = 0x78 \<or> zat z 1 = 0x58) \<and> sqlite3Isxdigit (zat z 2)
         then (let (i, q) = num_scan sqlite3Isxdigit z 3 in (i, if q then TK_QNUMBER else TK_INTEGER))
         else (let (i, q) = num_scan sqlite3Isdigit z 0;
                   (i, t) = float_part z i (if q then TK_QNUMBER else TK_INTEGER)
               in exp_part z i t))
      in if IdChar (zat z i) then (scan IdChar z i, TK_ILLEGAL) else (i, t))"

definition id_token :: "bytes \<Rightarrow> nat \<Rightarrow> nat \<times> nat" where
  "id_token z i = (scan IdChar z i, TK_ID)"

text \<open>\<^verbatim>\<open>sqlite3GetToken\<close>: the length of the token at the start of \<open>z\<close> and its type.\<close>

definition sqlite3GetToken :: "bytes \<Rightarrow> nat \<times> nat" where
  "sqlite3GetToken z =
     (let cls = class_of (zat z 0); c1 = zat z 1
      in if cls = CC_SPACE then (scan sqlite3Isspace z 1, TK_SPACE)
         else if cls = CC_MINUS then
           (if c1 = 0x2D then (scan (\<lambda>c. c \<noteq> 0 \<and> c \<noteq> 0x0A) z 2, TK_COMMENT)
            else if c1 = 0x3E then (2 + (if zat z 2 = 0x3E then 1 else 0), TK_PTR)
            else (1, TK_MINUS))
         else if cls = CC_LP then (1, TK_LP)
         else if cls = CC_RP then (1, TK_RP)
         else if cls = CC_SEMI then (1, TK_SEMI)
         else if cls = CC_PLUS then (1, TK_PLUS)
         else if cls = CC_STAR then (1, TK_STAR)
         else if cls = CC_SLASH then
           (if c1 \<noteq> 0x2A \<or> zat z 2 = 0 then (1, TK_SLASH)
            else (let (c, i) = comment_loop (zat z 2) (drop 3 z) 3
                  in (if c \<noteq> 0 then i + 1 else i, TK_COMMENT)))
         else if cls = CC_PERCENT then (1, TK_REM)
         else if cls = CC_EQ then (1 + (if c1 = 0x3D then 1 else 0), TK_EQ)
         else if cls = CC_LT then
           (if c1 = 0x3D then (2, TK_LE) else if c1 = 0x3E then (2, TK_NE)
            else if c1 = 0x3C then (2, TK_LSHIFT) else (1, TK_LT))
         else if cls = CC_GT then
           (if c1 = 0x3D then (2, TK_GE) else if c1 = 0x3E then (2, TK_RSHIFT) else (1, TK_GT))
         else if cls = CC_BANG then (if c1 \<noteq> 0x3D then (1, TK_ILLEGAL) else (2, TK_NE))
         else if cls = CC_PIPE then (if c1 \<noteq> 0x7C then (1, TK_BITOR) else (2, TK_CONCAT))
         else if cls = CC_COMMA then (1, TK_COMMA)
         else if cls = CC_AND then (1, TK_BITAND)
         else if cls = CC_TILDA then (1, TK_BITNOT)
         else if cls = CC_QUOTE then
           (let (c, i) = quote_loop (zat z 0) (drop 1 z) 1
            in if c = 0x27 then (i + 1, TK_STRING) else if c \<noteq> 0 then (i + 1, TK_ID) else (i, TK_ILLEGAL))
         else if cls = CC_DOT then (if \<not> sqlite3Isdigit c1 then (1, TK_DOT) else number_token z)
         else if cls = CC_DIGIT then number_token z
         else if cls = CC_QUOTE2 then
           (let (c, i) = bracket_loop (zat z 0) (drop 1 z) 1 in (i, if c = 0x5D then TK_ID else TK_ILLEGAL))
         else if cls = CC_VARNUM then (scan sqlite3Isdigit z 1, TK_VARIABLE)
         else if cls = CC_DOLLAR \<or> cls = CC_VARALPHA then
           (let (i, n, ok) = var_loop (drop 1 z) 1 0 in (i, if n = 0 \<or> \<not> ok then TK_ILLEGAL else TK_VARIABLE))
         else if cls = CC_KYWD0 then
           (if class_of c1 > CC_KYWD then id_token z 1
            else (let i = scan (\<lambda>c. class_of c \<le> CC_KYWD) z 2
                  in if IdChar (zat z i) then id_token z (i + 1)
                     else (i, case keywordCode z i of Some t \<Rightarrow> t | None \<Rightarrow> TK_ID)))
         else if cls = CC_X then
           (if c1 = 0x27
            then (let i = scan sqlite3Isxdigit z 2;
                      (i, t) = (if zat z i \<noteq> 0x27 \<or> i mod 2 \<noteq> 0
                                then (scan (\<lambda>c. c \<noteq> 0 \<and> c \<noteq> 0x27) z i, TK_ILLEGAL) else (i, TK_BLOB))
                  in (if zat z i \<noteq> 0 then i + 1 else i, t))
            else id_token z 1)
         else if cls = CC_KYWD \<or> cls = CC_ID then id_token z 1
         else if cls = CC_BOM then
           (if c1 = 0xBB \<and> zat z 2 = 0xBF then (3, TK_SPACE) else id_token z 1)
         else if cls = CC_NUL then (0, TK_ILLEGAL)
         else (1, TK_ILLEGAL))"


subsection \<open>Bounds of the scanning loops\<close>

lemma scan_ge: "i \<le> scan P z i"
  by (simp add: scan_def)

lemma scan_le: "i \<le> length z \<Longrightarrow> scan P z i \<le> length z"
  using length_takeWhile_le [of P "drop i z"] by (simp add: scan_def)

lemma num_scan_bounds: "i \<le> length z \<Longrightarrow> i \<le> fst (num_scan P z i) \<and> fst (num_scan P z i) \<le> length z"
  using length_takeWhile_le [of "\<lambda>c. P c \<or> c = 0x5F" "drop i z"] by (simp add: num_scan_def Let_def)

lemma zat_nonzero: "zat z i \<noteq> 0 \<Longrightarrow> i < length z"
  by (auto simp: zat_def split: if_splits)

lemma comment_loop_bounds:
  "i \<le> snd (comment_loop c z i) \<and> snd (comment_loop c z i) + (if fst (comment_loop c z i) = 0 then 0 else 1) \<le> i + length z"
proof (induction c z i rule: comment_loop.induct)
  case (2 c x z i)
  then show ?case
    by (auto split: if_splits)
qed simp

lemma bracket_loop_bounds: "i \<le> snd (bracket_loop c z i) \<and> snd (bracket_loop c z i) \<le> i + length z"
proof (induction c z i rule: bracket_loop.induct)
  case (1 c z i)
  then show ?case
    by (cases z) (auto split: if_splits)
qed

declare bracket_loop.simps [simp del]

lemma quote_loop_bounds:
  "i \<le> snd (quote_loop d z i) \<and> snd (quote_loop d z i) + (if fst (quote_loop d z i) = 0 then 0 else 1) \<le> i + length z"
proof (induction d z i rule: quote_loop.induct)
  case (2 d c z i)
  then show ?case
    by (cases z) (auto split: if_splits)
qed simp

lemma paren_bounds:
  fixes z :: bytes
  defines "k \<equiv> length (takeWhile (\<lambda>c. c \<noteq> 0 \<and> \<not> sqlite3Isspace c \<and> c \<noteq> 0x29) z)"
  shows "k \<le> length z" "zat z k = 0x29 \<Longrightarrow> k < length z"
  unfolding k_def by (rule length_takeWhile_le) (rule zat_nonzero, simp)

lemma var_loop_bounds: "i \<le> fst (var_loop z i n) \<and> fst (var_loop z i n) \<le> i + length z"
proof (induction z i n rule: var_loop.induct)
  case (2 c z i n)
  consider "c = 0" | "c \<noteq> 0" "IdChar c" | "c \<noteq> 0" "\<not> IdChar c" "c = 0x28 \<and> n > 0"
    | "c \<noteq> 0" "\<not> IdChar c" "\<not> (c = 0x28 \<and> n > 0)"
    by blast
  then show ?case
  proof cases
    case 2
    then show ?thesis
      using "2.IH"(1) by (simp del: One_nat_def)
  next
    case 3
    then show ?thesis
      using paren_bounds [of z] by (simp add: Let_def Suc_le_eq)
  next
    case 4
    show ?thesis
    proof (cases z)
      case (Cons c2 z2)
      then show ?thesis
        using 4 "2.IH"(2) [OF 4 _ Cons] by (cases "c = 0x3A"; cases "c2 = 0x3A") (auto simp: if_not_P)
    qed (use 4 in auto)
  qed simp
qed simp

lemma Isdigit_0 [simp]: "\<not> sqlite3Isdigit 0" and Isspace_0 [simp]: "\<not> sqlite3Isspace 0"
  and Isxdigit_0 [simp]: "\<not> sqlite3Isxdigit 0" and IdChar_0 [simp]: "\<not> IdChar 0"
  by (simp_all add: Isdigit_iff Isspace_iff Isxdigit_iff IdChar_def ctype_eq ctype_class_def)

definition tok_class :: "nat \<Rightarrow> nat" where
  "tok_class n =
     (if n = 0 then CC_NUL
      else if n \<in> {9, 10, 12, 13, 32} then CC_SPACE
      else if n = 33 then CC_BANG
      else if n \<in> {34, 39, 96} then CC_QUOTE
      else if n \<in> {35, 58, 64} then CC_VARALPHA
      else if n = 36 then CC_DOLLAR
      else if n = 37 then CC_PERCENT
      else if n = 38 then CC_AND
      else if n = 40 then CC_LP
      else if n = 41 then CC_RP
      else if n = 42 then CC_STAR
      else if n = 43 then CC_PLUS
      else if n = 44 then CC_COMMA
      else if n = 45 then CC_MINUS
      else if n = 46 then CC_DOT
      else if n = 47 then CC_SLASH
      else if 48 \<le> n \<and> n \<le> 57 then CC_DIGIT
      else if n = 59 then CC_SEMI
      else if n = 60 then CC_LT
      else if n = 61 then CC_EQ
      else if n = 62 then CC_GT
      else if n = 63 then CC_VARNUM
      else if n = 91 then CC_QUOTE2
      else if n = 124 then CC_PIPE
      else if n = 126 then CC_TILDA
      else if n \<in> {88, 120} then CC_X
      else if n \<in> {89, 90, 95, 121, 122} then CC_KYWD
      else if 65 \<le> n \<and> n \<le> 87 \<or> 97 \<le> n \<and> n \<le> 119 then CC_KYWD0
      else if n = 239 then CC_BOM
      else if 128 \<le> n then CC_ID
      else CC_ILLEGAL)"

lemma aiClass_table: "aiClass = map tok_class [0..<256]"
  by (simp add: aiClass_def upt_rec_numeral upt_rec [of 0] upt_rec [of "Suc 0"] numeral_2_eq_2 [symmetric] tok_class_def)

lemma class_of_eq: "class_of c = tok_class (unat c)"
  using unat_u8_less [of c] by (simp add: class_of_def aiClass_table)

lemma class_0 [simp]: "class_of 0 = CC_NUL"
  by (simp add: class_of_eq tok_class_def)

lemma class_NUL: "class_of c = CC_NUL \<longleftrightarrow> c = 0"
  by (auto simp: class_of_eq tok_class_def unat_eq_0 split: if_splits)

lemma class_DIGIT: "class_of c = CC_DIGIT \<longleftrightarrow> sqlite3Isdigit c"
  by (auto simp: class_of_eq tok_class_def Isdigit_iff split: if_splits)

lemma class_DOT: "class_of c = CC_DOT \<longleftrightarrow> unat c = 46"
  by (auto simp: class_of_eq tok_class_def split: if_splits)

lemma exp_part_bounds:
  assumes "i \<le> length z"
  shows "i \<le> fst (exp_part z i t) \<and> fst (exp_part z i t) \<le> length z"
proof (cases "fst (exp_part z i t) = i")
  case False
  then have "sqlite3Isdigit (zat z (i + 1)) \<or> zat z (i + 1) = 0x2B \<or> zat z (i + 1) = 0x2D"
    by (auto simp: exp_part_def split: if_splits)
  then have "zat z (i + 1) \<noteq> 0"
    by (auto simp: Isdigit_0)
  then have "i + 2 \<le> length z"
    using zat_nonzero [of z "i + 1"] by simp
  then show ?thesis
    using num_scan_bounds [of "i + 2" z sqlite3Isdigit] assms
    by (auto simp: exp_part_def Let_def split: prod.splits)
qed (use assms in simp)

lemma float_part_bounds:
  assumes "i \<le> length z"
  shows "i \<le> fst (float_part z i t) \<and> fst (float_part z i t) \<le> length z"
proof (cases "zat z i = 0x2E")
  case True
  then have "i + 1 \<le> length z"
    using zat_nonzero [of z i] by simp
  then show ?thesis
    using num_scan_bounds [of "i + 1" z sqlite3Isdigit] assms
    by (auto simp: float_part_def Let_def split: prod.splits)
qed (use assms in \<open>simp add: float_part_def\<close>)

lemma id_token_bounds: "i \<le> length z \<Longrightarrow> i \<le> fst (id_token z i) \<and> fst (id_token z i) \<le> length z"
  by (simp add: id_token_def scan_ge scan_le)


lemma num_scan_digit:
  assumes "sqlite3Isdigit (zat z i)"
  shows "i < fst (num_scan sqlite3Isdigit z i)"
proof -
  have "i < length z"
    using assms zat_nonzero [of z i] by (cases "zat z i = 0") auto
  then have "drop i z = zat z i # drop (Suc i) z"
    by (simp add: Cons_nth_drop_Suc zat_def)
  then show ?thesis
    using assms by (simp add: num_scan_def Let_def)
qed

lemma number_token_bounds:
  assumes "z \<noteq> []" "sqlite3Isdigit (zat z 0) \<or> unat (zat z 0) = 46"
  shows "1 \<le> fst (number_token z) \<and> fst (number_token z) \<le> length z"
proof -
  define X where "X = (if zat z 0 = 0x30 \<and> (zat z 1 = 0x78 \<or> zat z 1 = 0x58) \<and> sqlite3Isxdigit (zat z 2)
         then (let (i, q) = num_scan sqlite3Isxdigit z 3 in (i, if q then TK_QNUMBER else TK_INTEGER))
         else (let (i, q) = num_scan sqlite3Isdigit z 0;
                   (i, t) = float_part z i (if q then TK_QNUMBER else TK_INTEGER)
               in exp_part z i t))"
  have X: "1 \<le> fst X \<and> fst X \<le> length z"
  proof (cases "zat z 0 = 0x30 \<and> (zat z 1 = 0x78 \<or> zat z 1 = 0x58) \<and> sqlite3Isxdigit (zat z 2)")
    case True
    then have "2 < length z"
      using zat_nonzero [of z 2] by (cases "zat z 2 = 0") auto
    then show ?thesis
      using True num_scan_bounds [of 3 z sqlite3Isxdigit] by (auto simp: X_def split_beta)
  next
    case False
    define i where "i = fst (num_scan sqlite3Isdigit z 0)"
    define t where "t = (if snd (num_scan sqlite3Isdigit z 0) then TK_QNUMBER else TK_INTEGER)"
    define f where "f = float_part z i t"
    have Xf: "X = exp_part z (fst f) (snd f)"
      unfolding X_def if_not_P [OF False] f_def i_def t_def by (simp add: Let_def split_beta)
    have i: "i \<le> length z"
      using num_scan_bounds [of 0 z sqlite3Isdigit] by (simp add: i_def)
    have f: "i \<le> fst f \<and> fst f \<le> length z"
      unfolding f_def by (rule float_part_bounds [OF i])
    have "1 \<le> fst f"
    proof (cases "sqlite3Isdigit (zat z 0)")
      case True
      then show ?thesis
        using num_scan_digit [of z 0] f by (simp add: i_def)
    next
      case False
      then have dot: "unat (zat z 0) = 46"
        using assms(2) by blast
      then have c: "zat z 0 = 0x2E"
        by (simp add: word_unat_eq_iff)
      have "i = 0"
        using assms(1) False c by (cases z) (auto simp: i_def num_scan_def Let_def)
      moreover have "1 \<le> length z"
        using assms(1) by (simp add: Suc_le_eq)
      ultimately show ?thesis
        using c num_scan_bounds [of 1 z sqlite3Isdigit] by (auto simp: f_def float_part_def Let_def split_beta)
    qed
    then show ?thesis
      using Xf exp_part_bounds [of "fst f" z "snd f"] f by auto
  qed
  have "number_token z = (case X of (i, t) \<Rightarrow> if IdChar (zat z i) then (scan IdChar z i, TK_ILLEGAL) else (i, t))"
    by (simp add: number_token_def X_def Let_def)
  then show ?thesis
    using X scan_le [of "fst X" z IdChar] scan_ge [of "fst X" IdChar z] by (auto simp: split_beta)
qed


lemmas token_loop_bounds = scan_ge scan_le num_scan_bounds comment_loop_bounds bracket_loop_bounds quote_loop_bounds
  var_loop_bounds id_token_bounds number_token_bounds

lemma hexlit_bounds:
  fixes z :: bytes
  assumes "zat z 1 = 0x27"
  defines "x \<equiv> (let i = scan sqlite3Isxdigit z 2;
                      (i, t) = (if zat z i \<noteq> 0x27 \<or> i mod 2 \<noteq> 0
                                then (scan (\<lambda>c. c \<noteq> 0 \<and> c \<noteq> 0x27) z i, TK_ILLEGAL) else (i, TK_BLOB))
                  in (if zat z i \<noteq> 0 then i + 1 else i, t))"
  shows "1 \<le> fst x \<and> fst x \<le> length z"
proof -
  define i where "i = scan sqlite3Isxdigit z 2"
  define j where "j = (if zat z i \<noteq> 0x27 \<or> i mod 2 \<noteq> 0 then scan (\<lambda>c. c \<noteq> 0 \<and> c \<noteq> 0x27) z i else i)"
  have "2 \<le> length z"
    using zat_nonzero [of z 1] assms(1) by simp
  then have "2 \<le> i" "i \<le> length z"
    by (simp_all add: i_def scan_ge scan_le)
  then have "2 \<le> j" "j \<le> length z"
    using scan_ge [of i "\<lambda>c. c \<noteq> 0 \<and> c \<noteq> 0x27" z] scan_le [of i z] by (auto simp: j_def)
  moreover have "fst x = (if zat z j \<noteq> 0 then j + 1 else j)"
    unfolding x_def j_def i_def [symmetric] by (simp add: Let_def)
  ultimately show ?thesis
    using zat_nonzero [of z j] by (auto simp: Suc_le_eq)
qed

definition fits :: "bytes \<Rightarrow> nat \<times> nat \<Rightarrow> bool" where
  "fits z r \<longleftrightarrow> 1 \<le> fst r \<and> fst r \<le> length z"

lemma fits_if: "(c \<Longrightarrow> fits z a) \<Longrightarrow> (\<not> c \<Longrightarrow> fits z b) \<Longrightarrow> fits z (if c then a else b)"
  by simp

lemma fits_prod: "(\<And>a b. x = (a, b) \<Longrightarrow> fits z (f a b)) \<Longrightarrow> fits z (case x of (a, b) \<Rightarrow> f a b)"
  by (cases x) simp

lemma fits_loops:
  assumes "z \<noteq> []"
  shows "fits z (scan P z 1, t)"
    and "fits z (id_token z 1)"
    and "fits z (let (c, i) = quote_loop q (drop 1 z) 1
            in if c = 0x27 then (i + 1, t1) else if c \<noteq> 0 then (i + 1, t2) else (i, t3))"
    and "fits z (let (c, i) = bracket_loop q (drop 1 z) 1 in (i, if c = 0x5D then t1 else t2))"
    and "fits z (let (i, n, ok) = var_loop (drop 1 z) 1 0 in (i, if n = 0 \<or> \<not> ok then t1 else t2))"
proof -
  have len: "1 \<le> length z"
    using assms by (simp add: Suc_le_eq)
  show "fits z (scan P z 1, t)" "fits z (id_token z 1)"
    using len scan_ge [of 1 _ z] scan_le [of 1 z] by (simp_all add: fits_def id_token_def)
  show "fits z (let (c, i) = quote_loop q (drop 1 z) 1
            in if c = 0x27 then (i + 1, t1) else if c \<noteq> 0 then (i + 1, t2) else (i, t3))"
    using quote_loop_bounds [of 1 q "drop 1 z"] len by (auto simp: fits_def split_beta split: if_splits)
  show "fits z (let (c, i) = bracket_loop q (drop 1 z) 1 in (i, if c = 0x5D then t1 else t2))"
    using bracket_loop_bounds [of 1 q "drop 1 z"] len by (auto simp: fits_def split_beta)
  show "fits z (let (i, n, ok) = var_loop (drop 1 z) 1 0 in (i, if n = 0 \<or> \<not> ok then t1 else t2))"
    using var_loop_bounds [of 1 "drop 1 z" 0] len by (auto simp: fits_def split_beta)
qed

text \<open>Branches that have looked at the second byte, or at more.\<close>

lemma fits_two:
  assumes "zat z 1 = c" "c \<noteq> 0"
  shows "fits z (2, t)"
    and "fits z (scan P z 2, t)"
    and "fits z (2 + (if zat z 2 = 0x3E then 1 else 0), t)"
proof -
  have "2 \<le> length z"
    using zat_nonzero [of z 1] assms by simp
  then show "fits z (2, t)" "fits z (scan P z 2, t)" "fits z (2 + (if zat z 2 = 0x3E then 1 else 0), t)"
    using scan_ge [of 2 P z] scan_le [of 2 z] zat_nonzero [of z 2] by (auto simp: fits_def)
qed

lemma fits_comment:
  assumes "\<not> (zat z 1 \<noteq> 0x2A \<or> zat z 2 = 0)"
  shows "fits z (let (c, i) = comment_loop (zat z 2) (drop 3 z) 3 in (if c \<noteq> 0 then i + 1 else i, t))"
  using comment_loop_bounds [of 3 "zat z 2" "drop 3 z"] assms zat_nonzero [of z 2]
  by (auto simp: fits_def split_beta split: if_splits)

lemma fits_keyword:
  assumes "\<not> class_of (zat z 1) > CC_KYWD"
  shows "fits z (let i = scan (\<lambda>c. class_of c \<le> CC_KYWD) z 2
                  in if IdChar (zat z i) then id_token z (i + 1) else (i, f i))"
proof -
  have "zat z 1 \<noteq> 0"
    using assms by (cases "zat z 1 = 0") auto
  then have two: "2 \<le> length z"
    using zat_nonzero [of z 1] by simp
  define i where "i = scan (\<lambda>c. class_of c \<le> CC_KYWD) z 2"
  have i: "2 \<le> i" "i \<le> length z"
    using two by (simp_all add: i_def scan_ge scan_le)
  moreover have "IdChar (zat z i) \<Longrightarrow> i + 1 \<le> length z"
    using zat_nonzero [of z i] by (cases "zat z i = 0") (auto simp: Suc_le_eq)
  ultimately show ?thesis
    using id_token_bounds [of "i + 1" z] unfolding i_def [symmetric] by (auto simp: fits_def Let_def)
qed

lemma fits_GetToken:
  assumes "zat z 0 \<noteq> 0"
  shows "fits z (sqlite3GetToken z)"
proof -
  have ne: "z \<noteq> []" and one: "\<And>t. fits z (1, t)"
    using zat_nonzero [OF assms] by (auto simp: fits_def Suc_le_eq)
  have eq: "fits z (1 + (if zat z 1 = 0x3D then 1 else 0), t)" for t
    using ne zat_nonzero [of z 1] by (auto simp: fits_def Suc_le_eq)
  have dot: "class_of (zat z 0) = CC_DOT \<Longrightarrow> fits z (number_token z)"
    and digit: "class_of (zat z 0) = CC_DIGIT \<Longrightarrow> fits z (number_token z)"
    using number_token_bounds [OF ne] by (simp_all add: fits_def class_DOT class_DIGIT)
  have bom: "zat z 1 = 0xBB \<and> zat z 2 = 0xBF \<Longrightarrow> fits z (3, t)" for t
    using zat_nonzero [of z 2] by (simp add: fits_def)
  have nul: "class_of (zat z 0) \<noteq> CC_NUL"
    using assms by (simp add: class_NUL)
  have ptr: "zat z 1 = 0x3E \<Longrightarrow> fits z (2 + (if zat z 2 = 0x3E then 1 else 0), t)" for t
    using fits_two(3) [of z "0x3E" t] by simp
  note hex = hexlit_bounds [of z, folded fits_def]
  show ?thesis
    unfolding sqlite3GetToken_def Let_def [of "class_of _"] Let_def [of "zat _ _"]
    by (intro fits_if one eq ptr fits_loops [OF ne] fits_comment fits_keyword hex)
      (use nul in \<open>auto intro: fits_two dot digit bom\<close>)
qed


section \<open>The terminator is never passed\<close>

lemma zat_append: "i \<le> length z \<Longrightarrow> zat (z @ 0 # r) i = zat z i"
  by (auto simp: zat_def nth_append)

lemma takeWhile_stop: "\<not> P 0 \<Longrightarrow> takeWhile P (z @ 0 # r) = takeWhile P z"
  by (induction z) auto

lemma scan_append: "i \<le> length z \<Longrightarrow> \<not> P 0 \<Longrightarrow> scan P (z @ 0 # r) i = scan P z i"
  by (simp add: scan_def takeWhile_stop)

lemma num_scan_append: "i \<le> length z \<Longrightarrow> \<not> P 0 \<Longrightarrow> num_scan P (z @ 0 # r) i = num_scan P z i"
  by (simp add: num_scan_def takeWhile_stop)

lemma comment_loop_append: "comment_loop c (z @ 0 # r) i = comment_loop c z i"
  by (induction c z i rule: comment_loop.induct) auto

lemma bracket_loop_append: "bracket_loop c (z @ 0 # r) i = bracket_loop c z i"
proof (induction c z i rule: bracket_loop.induct)
  case (1 c z i)
  then show ?case
    by (subst (1 2) bracket_loop.simps) (auto split: list.split)
qed

lemma quote_loop_append: "d \<noteq> 0 \<Longrightarrow> quote_loop d (z @ 0 # r) i = quote_loop d z i"
proof (induction d z i rule: quote_loop.induct)
  case (2 d c z i)
  then show ?case
    by (cases z) auto
qed auto

lemma var_loop_append: "var_loop (z @ 0 # r) i n = var_loop z i n"
proof (induction z i n rule: var_loop.induct)
  case (2 c z i n)
  let ?P = "\<lambda>c. c \<noteq> 0 \<and> \<not> sqlite3Isspace c \<and> c \<noteq> 0x29"
  consider "c = 0" | "c \<noteq> 0" "IdChar c" | "c \<noteq> 0" "\<not> IdChar c" "c = 0x28 \<and> n > 0"
    | "c \<noteq> 0" "\<not> IdChar c" "\<not> (c = 0x28 \<and> n > 0)"
    by blast
  then show ?case
  proof cases
    case 2
    then show ?thesis
      using "2.IH"(1) by simp
  next
    case 3
    have "zat (z @ 0 # r) (length (takeWhile ?P z)) = zat z (length (takeWhile ?P z))"
      by (intro zat_append length_takeWhile_le)
    then show ?thesis
      using 3 takeWhile_stop [of ?P z r] by (simp del: takeWhile_append)
  next
    case 4
    show ?thesis
    proof (cases z)
      case (Cons c2 z2)
      then show ?thesis
        using 4 "2.IH"(2) [OF 4 _ Cons] by (cases "c = 0x3A"; cases "c2 = 0x3A") (auto simp: if_not_P)
    qed (use 4 in auto)
  qed simp
qed simp

lemma float_part_append: "i \<le> length z \<Longrightarrow> float_part (z @ 0 # r) i t = float_part z i t"
proof -
  assume i: "i \<le> length z"
  have "zat z i = 0x2E \<Longrightarrow> i + 1 \<le> length z"
    using zat_nonzero [of z i] by simp
  then show ?thesis
    using i by (auto simp: float_part_def zat_append num_scan_append)
qed

lemma exp_part_append: "i \<le> length z \<Longrightarrow> exp_part (z @ 0 # r) i t = exp_part z i t"
proof (cases "zat z i = 0x65 \<or> zat z i = 0x45")
  case True
  assume "i \<le> length z"
  from True have i: "i + 1 \<le> length z"
    using zat_nonzero [of z i] by auto
  have e: "zat (z @ 0 # r) i = zat z i" "zat (z @ 0 # r) (i + 1) = zat z (i + 1)"
    using i by (simp_all add: zat_append)
  show ?thesis
  proof (cases "zat z (i + 1) = 0")
    case False
    then have i2: "i + 2 \<le> length z"
      using zat_nonzero [of z "i + 1"] by simp
    show ?thesis
      unfolding exp_part_def e zat_append [OF i2] num_scan_append [OF i2, of sqlite3Isdigit, OF Isdigit_0] ..
  next
    case True
    then show ?thesis
      unfolding exp_part_def e by simp
  qed
next
  case False
  assume "i \<le> length z"
  with False show ?thesis
    unfolding exp_part_def by (simp add: zat_append)
qed

lemma number_token_append: "z \<noteq> [] \<Longrightarrow> number_token (z @ 0 # r) = number_token z"
proof -
  assume ne: "z \<noteq> []"
  have e: "zat (z @ 0 # r) 0 = zat z 0" "zat (z @ 0 # r) 1 = zat z 1"
    using ne by (simp_all add: zat_append Suc_le_eq)
  let ?h = "zat z 0 = 0x30 \<and> (zat z 1 = 0x78 \<or> zat z 1 = 0x58) \<and> sqlite3Isxdigit (zat z 2)"
  have hex: "(zat z 0 = 0x30 \<and> (zat z 1 = 0x78 \<or> zat z 1 = 0x58) \<and> sqlite3Isxdigit (zat (z @ 0 # r) 2)) = ?h"
    using zat_nonzero [of z 1] by (auto simp: zat_append)
  show ?thesis
  proof (cases ?h)
    case True
    then have "3 \<le> length z"
      using zat_nonzero [of z 2] by (cases "zat z 2 = 0") auto
    then have s: "num_scan sqlite3Isxdigit (z @ 0 # r) 3 = num_scan sqlite3Isxdigit z 3"
      "fst (num_scan sqlite3Isxdigit z 3) \<le> length z"
      using num_scan_bounds [of 3 z sqlite3Isxdigit] by (simp_all add: num_scan_append)
    show ?thesis
      unfolding number_token_def e hex if_P [OF True] s(1) by (simp add: Let_def split_beta zat_append [OF s(2)] scan_append [OF s(2)])
  next
    case False
    obtain i q where s: "num_scan sqlite3Isdigit (z @ 0 # r) 0 = (i, q)" "num_scan sqlite3Isdigit z 0 = (i, q)"
      by (cases "num_scan sqlite3Isdigit z 0") (simp add: num_scan_append)
    have i: "i \<le> length z"
      using num_scan_bounds [of 0 z sqlite3Isdigit] s by simp
    have x: "exp_part (z @ 0 # r) (fst (float_part z i t)) u = exp_part z (fst (float_part z i t)) u"
      "fst (exp_part z (fst (float_part z i t)) u) \<le> length z" for t u
      using float_part_bounds [OF i, of t] exp_part_bounds [of "fst (float_part z i t)" z u]
      by (simp_all add: exp_part_append)
    show ?thesis
      unfolding number_token_def e hex if_not_P [OF False] s
      by (simp add: Let_def split_beta float_part_append [OF i] x zat_append scan_append)
  qed
qed


lemma id_token_append: "i \<le> length z \<Longrightarrow> id_token (z @ 0 # r) i = id_token z i"
  by (simp add: id_token_def scan_append)

lemma keywordCode_append: "i \<le> length z \<Longrightarrow> keywordCode (z @ 0 # r) i = keywordCode z i"
  by (simp add: keywordCode_map kw_upper_def)

lemma keyword_token_append:
  assumes "\<not> class_of (zat z 1) > CC_KYWD"
  shows "(let i = scan (\<lambda>c. class_of c \<le> CC_KYWD) (z @ 0 # r) 2
          in if IdChar (zat (z @ 0 # r) i) then id_token (z @ 0 # r) (i + 1)
             else (i, case keywordCode (z @ 0 # r) i of Some t \<Rightarrow> t | None \<Rightarrow> TK_ID))
       = (let i = scan (\<lambda>c. class_of c \<le> CC_KYWD) z 2
          in if IdChar (zat z i) then id_token z (i + 1) else (i, case keywordCode z i of Some t \<Rightarrow> t | None \<Rightarrow> TK_ID))"
proof -
  have "zat z 1 \<noteq> 0"
    using assms by (cases "zat z 1 = 0") auto
  then have two: "2 \<le> length z"
    using zat_nonzero [of z 1] by simp
  define i where "i = scan (\<lambda>c. class_of c \<le> CC_KYWD) z 2"
  have e: "scan (\<lambda>c. class_of c \<le> CC_KYWD) (z @ 0 # r) 2 = i"
    using two by (simp add: i_def scan_append)
  have i: "i \<le> length z"
    using two by (simp add: i_def scan_le)
  have id: "IdChar (zat z i) \<Longrightarrow> i + 1 \<le> length z"
    using zat_nonzero [of z i] by (cases "zat z i = 0") (auto simp: Suc_le_eq)
  show ?thesis
    unfolding e i_def [symmetric] Let_def keywordCode_append [OF i] zat_append [OF i]
    using id id_token_append [of "i + 1" z r] by simp
qed

lemma hexlit_append:
  assumes "zat z 1 = 0x27"
  shows "(let i = scan sqlite3Isxdigit (z @ 0 # r) 2;
              (i, t) = (if zat (z @ 0 # r) i \<noteq> 0x27 \<or> i mod 2 \<noteq> 0
                        then (scan (\<lambda>c. c \<noteq> 0 \<and> c \<noteq> 0x27) (z @ 0 # r) i, TK_ILLEGAL) else (i, TK_BLOB))
          in (if zat (z @ 0 # r) i \<noteq> 0 then i + 1 else i, t))
       = (let i = scan sqlite3Isxdigit z 2;
              (i, t) = (if zat z i \<noteq> 0x27 \<or> i mod 2 \<noteq> 0
                        then (scan (\<lambda>c. c \<noteq> 0 \<and> c \<noteq> 0x27) z i, TK_ILLEGAL) else (i, TK_BLOB))
          in (if zat z i \<noteq> 0 then i + 1 else i, t))"
proof -
  have two: "2 \<le> length z"
    using zat_nonzero [of z 1] assms by simp
  define i where "i = scan sqlite3Isxdigit z 2"
  have e: "scan sqlite3Isxdigit (z @ 0 # r) 2 = i"
    using two by (simp add: i_def scan_append)
  have i: "i \<le> length z"
    using two by (simp add: i_def scan_le)
  let ?P = "\<lambda>c::u8. c \<noteq> 0 \<and> c \<noteq> 0x27"
  have p: "scan ?P (z @ 0 # r) i = scan ?P z i" "zat (z @ 0 # r) (scan ?P z i) = zat z (scan ?P z i)"
    using i by (simp_all add: scan_append zat_append scan_le)
  show ?thesis
    unfolding e i_def [symmetric] Let_def zat_append [OF i] p(1) by (simp add: p(2) zat_append [OF i])
qed

lemma if_same: "(c \<Longrightarrow> a = a') \<Longrightarrow> (\<not> c \<Longrightarrow> b = b') \<Longrightarrow> (if c then a else b) = (if c then a' else b')"
  by simp

lemma GetToken_append: "sqlite3GetToken (z @ 0 # r) = sqlite3GetToken z"
proof (cases "z = []")
  case True
  then show ?thesis
    by (simp add: sqlite3GetToken_def)
next
  case False
  then have len: "1 \<le> length z"
    by (simp add: Suc_le_eq)
  have e: "zat (z @ 0 # r) 0 = zat z 0" "zat (z @ 0 # r) 1 = zat z 1"
    using len by (simp_all add: zat_append)
  have d: "drop 1 (z @ 0 # r) = drop 1 z @ 0 # r"
    using False by (cases z) simp_all
  have two: "zat z 1 = c \<Longrightarrow> c \<noteq> 0 \<Longrightarrow> 2 \<le> length z" for c
    using zat_nonzero [of z 1] by simp
  have z2: "zat z 1 = c \<Longrightarrow> c \<noteq> 0 \<Longrightarrow> zat (z @ 0 # r) 2 = zat z 2" for c
    using two by (simp add: zat_append)
  have q: "class_of (zat z 0) = CC_QUOTE \<Longrightarrow> zat z 0 \<noteq> 0"
    by (cases "zat z 0 = 0") auto
  have slash: "(zat z 1 \<noteq> 0x2A \<or> zat (z @ 0 # r) 2 = 0) = (zat z 1 \<noteq> 0x2A \<or> zat z 2 = 0)"
    "(zat z 1 = 0xBB \<and> zat (z @ 0 # r) 2 = 0xBF) = (zat z 1 = 0xBB \<and> zat z 2 = 0xBF)"
    using z2 [of "0x2A"] z2 [of "0xBB"] by auto
  have comment: "comment_loop (zat (z @ 0 # r) 2) (drop 3 (z @ 0 # r)) 3 = comment_loop (zat z 2) (drop 3 z) 3"
    if "\<not> (zat z 1 \<noteq> 0x2A \<or> zat z 2 = 0)"
    using that z2 [of "0x2A"] zat_nonzero [of z 2] comment_loop_append [of "zat z 2" "drop 3 z" r 3] by simp
  have quote: "quote_loop (zat z 0) (drop 1 (z @ 0 # r)) 1 = quote_loop (zat z 0) (drop 1 z) 1"
    if "class_of (zat z 0) = CC_QUOTE"
    unfolding d by (rule quote_loop_append [OF q [OF that]])
  have bracket: "bracket_loop (zat z 0) (drop 1 (z @ 0 # r)) 1 = bracket_loop (zat z 0) (drop 1 z) 1"
    unfolding d by (rule bracket_loop_append)
  have var: "var_loop (drop 1 (z @ 0 # r)) 1 0 = var_loop (drop 1 z) 1 0"
    unfolding d by (rule var_loop_append)
  have scan1: "(scan sqlite3Isspace (z @ 0 # r) 1, t) = (scan sqlite3Isspace z 1, t)"
    "(scan sqlite3Isdigit (z @ 0 # r) 1, t) = (scan sqlite3Isdigit z 1, t)" for t :: nat
    using len by (simp_all add: scan_append)
  have scan2: "zat z 1 = 0x2D \<Longrightarrow>
      (scan (\<lambda>c. c \<noteq> 0 \<and> c \<noteq> 0x0A) (z @ 0 # r) 2, t) = (scan (\<lambda>c. c \<noteq> 0 \<and> c \<noteq> 0x0A) z 2, t)" for t :: nat
    using two [of "0x2D"] by (simp add: scan_append)
  have ptr: "zat z 1 = 0x3E \<Longrightarrow>
      (2 + (if zat (z @ 0 # r) 2 = 0x3E then 1 else 0), t) = (2 + (if zat z 2 = 0x3E then 1 else 0), t)" for t :: nat
    using z2 [of "0x3E"] by simp
  have id1: "id_token (z @ 0 # r) 1 = id_token z 1"
    by (rule id_token_append [OF len])
  have lets: "x = x' \<Longrightarrow> Let x f = Let x' f" for x x' :: "u8 \<times> nat" and f :: "u8 \<times> nat \<Rightarrow> nat \<times> nat"
    by simp
  show ?thesis
    unfolding sqlite3GetToken_def Let_def [of "class_of _"] Let_def [of "zat _ _"] e slash bracket var id1
      number_token_append [OF False]
    by (intro refl if_same scan1 scan2 ptr lets comment quote hexlit_append keyword_token_append) assumption+
qed


section \<open>Look-ahead and the parser loop\<close>

text \<open>The fallback of a token code, from the tables of the generated parser.\<close>

definition yyFallback :: "nat list" where
  "yyFallback = [
     0, 0, 60, 60, 60, 60, 0, 60, 60, 60, 0, 60, 60, 60, 60, 0, 0, 0, 60, 0, 0, 60, 0, 0, 0, 0,
     60, 60, 60, 60, 60, 60, 60, 60, 60, 60, 60, 60, 60, 60, 60, 60, 60, 0, 0, 0, 0, 60, 60, 0,
     0, 0, 0, 0, 0, 0, 0, 0, 0, 0, 0, 60, 60, 60, 60, 60, 60, 60, 60, 60, 60, 60, 60, 60, 60,
     60, 60, 60, 60, 60, 60, 60, 60, 60, 60, 60, 60, 60, 60, 60, 60, 60, 60, 60, 60, 60, 60,
     60, 60, 60, 60, 60, 0, 0, 0, 0, 0, 0, 0, 0, 0, 0, 0, 0, 0, 0, 0, 0, 0, 0, 0, 0, 0, 0, 0,
     0, 0, 0, 0, 0, 0, 0, 0, 0, 0, 0, 0, 0, 0, 0, 0, 0, 0, 0, 0, 0, 0, 0, 0, 0, 0, 0, 0, 0, 0,
     0, 0, 0, 0, 0, 0, 0, 0, 0, 0, 0, 0, 0, 0, 0, 0, 0, 0, 0, 0, 0, 0, 0, 0, 0, 0, 0, 0, 0, 0,
     0, 0]"

definition sqlite3ParserFallback :: "nat \<Rightarrow> nat" where
  "sqlite3ParserFallback iToken = yyFallback ! iToken"

lemma GetToken_end: "zat z 0 = 0 \<Longrightarrow> sqlite3GetToken z = (0, TK_ILLEGAL)"
  by (simp add: sqlite3GetToken_def)

lemma GetToken_shorter: "sqlite3GetToken z = (n, t) \<Longrightarrow> zat z 0 \<noteq> 0 \<Longrightarrow> length (drop n z) < length z"
  using fits_GetToken [of z] by (auto simp: fits_def Suc_le_eq)

function getToken :: "bytes \<Rightarrow> nat \<times> bytes" where
  "getToken z =
     (case sqlite3GetToken z of (n, t) \<Rightarrow>
        (if t = TK_SPACE then getToken (drop n z)
         else (if t = TK_ID \<or> t = TK_STRING \<or> t = TK_JOIN_KW \<or> t = TK_WINDOW \<or> t = TK_OVER
                  \<or> sqlite3ParserFallback t = TK_ID then TK_ID else t, drop n z)))"
  by pat_completeness auto
termination
proof (relation "measure length", goal_cases)
  case (2 z n t)
  then have "zat z 0 \<noteq> 0"
    using GetToken_end [of z] by auto
  then show ?case
    using GetToken_shorter [of z n t] 2 by simp
qed simp

declare getToken.simps [simp del]

definition analyzeWindowKeyword :: "bytes \<Rightarrow> nat" where
  "analyzeWindowKeyword z =
     (case getToken z of (t, z) \<Rightarrow>
        if t \<noteq> TK_ID then TK_ID
        else (case getToken z of (t, z) \<Rightarrow> if t \<noteq> TK_AS then TK_ID else TK_WINDOW))"

definition analyzeOverKeyword :: "bytes \<Rightarrow> int \<Rightarrow> nat" where
  "analyzeOverKeyword z lastToken =
     (if lastToken = int TK_RP
      then (case getToken z of (t, z) \<Rightarrow> if t = TK_LP \<or> t = TK_ID then TK_OVER else TK_ID)
      else TK_ID)"

definition analyzeFilterKeyword :: "bytes \<Rightarrow> int \<Rightarrow> nat" where
  "analyzeFilterKeyword z lastToken =
     (if lastToken = int TK_RP \<and> fst (getToken z) = TK_LP then TK_FILTER else TK_ID)"

text \<open>
  The token loop of \<^verbatim>\<open>sqlite3RunParser\<close>. The generated parser is the predicate \<open>stop\<close>: whether its result
  code \<^verbatim>\<open>pParse->rc\<close> is other than \<^verbatim>\<open>SQLITE_OK\<close> after the tokens it was given, which is an error or, when it has
  finished a statement, \<^verbatim>\<open>SQLITE_DONE\<close>. \<open>interrupted k\<close> is the flag read in round \<open>k\<close>, \<open>comments\<close> the
  connection flag \<^verbatim>\<open>SQLITE_Comments\<close>. The result is the tokens given to the parser and why the loop ended.
\<close>

datatype run_end = Run_done | Run_toobig | Run_interrupt | Run_unrecognized bytes | Run_stopped

text \<open>One round: skip \<open>n\<close> bytes, give a token of \<open>n\<close> bytes to the parser, or leave the loop.\<close>

datatype run_action = Skip nat | Give nat nat | Leave run_end

definition run_round :: "bool \<Rightarrow> bool \<Rightarrow> bytes \<Rightarrow> int \<Rightarrow> int \<Rightarrow> run_action" where
  "run_round isInterrupted comments zSql mxSqlLen lastTokenParsed =
     (case sqlite3GetToken zSql of (n, tokenType) \<Rightarrow>
        if mxSqlLen - int n < 0 then Leave Run_toobig
        else if tokenType \<ge> TK_WINDOW then
          (if isInterrupted then Leave Run_interrupt
           else if tokenType = TK_SPACE then Skip n
           else if zat zSql 0 = 0 then
             (if lastTokenParsed = int TK_SEMI then Give 0 0
              else if lastTokenParsed = 0 then Leave Run_done
              else Give TK_SEMI 0)
           else if tokenType = TK_WINDOW then Give (analyzeWindowKeyword (drop 6 zSql)) n
           else if tokenType = TK_OVER then Give (analyzeOverKeyword (drop 4 zSql) lastTokenParsed) n
           else if tokenType = TK_FILTER then Give (analyzeFilterKeyword (drop 6 zSql) lastTokenParsed) n
           else if tokenType = TK_COMMENT \<and> comments then Skip n
           else if tokenType \<noteq> TK_QNUMBER then Leave (Run_unrecognized (take n zSql))
           else Give tokenType n)
        else Give tokenType n)"

text \<open>What is left of the text, and of the two rounds at its end.\<close>

definition end_rounds :: "int \<Rightarrow> nat" where
  "end_rounds lastTokenParsed = (if lastTokenParsed = 0 then 0 else if lastTokenParsed = int TK_SEMI then 1 else 2)"

lemma run_round_Skip: "run_round a c z mx l = Skip n \<Longrightarrow> length (drop n z) < length z \<and> sqlite3GetToken z = (n, snd (sqlite3GetToken z))"
  using GetToken_shorter [of z "fst (sqlite3GetToken z)" "snd (sqlite3GetToken z)"] GetToken_end [of z]
  by (auto simp: run_round_def split: prod.splits if_splits)

lemma run_round_Give:
  "run_round a c z mx l = Give t n \<Longrightarrow>
    length (drop n z) < length z \<or> (zat z 0 = 0 \<and> n = 0 \<and> end_rounds (int t) < end_rounds l)"
  using GetToken_shorter [of z "fst (sqlite3GetToken z)" "snd (sqlite3GetToken z)"] GetToken_end [of z]
  by (cases "zat z 0 = 0") (auto simp: run_round_def end_rounds_def split: prod.splits if_splits)

function run_loop :: "((nat \<times> bytes) list \<Rightarrow> bool) \<Rightarrow> (nat \<Rightarrow> bool) \<Rightarrow> bool \<Rightarrow> nat \<Rightarrow> bytes \<Rightarrow> int \<Rightarrow> int \<Rightarrow>
  (nat \<times> bytes) list \<Rightarrow> (nat \<times> bytes) list \<times> run_end" where
  "run_loop stop interrupted comments k zSql mxSqlLen lastTokenParsed fed =
     (case run_round (interrupted k) comments zSql mxSqlLen lastTokenParsed of
        Leave e \<Rightarrow> (fed, e)
      | Skip n \<Rightarrow> run_loop stop interrupted comments (k + 1) (drop n zSql) (mxSqlLen - int n) lastTokenParsed fed
      | Give tokenType n \<Rightarrow>
          (if stop (fed @ [(tokenType, take n zSql)]) then (fed @ [(tokenType, take n zSql)], Run_stopped)
           else run_loop stop interrupted comments (k + 1) (drop n zSql) (mxSqlLen - int n) (int tokenType)
                  (fed @ [(tokenType, take n zSql)])))"
  by pat_completeness auto
termination
proof (relation "measures [\<lambda>(stop, interrupted, comments, k, z, mx, l, fed). length z,
    \<lambda>(stop, interrupted, comments, k, z, mx, l, fed). end_rounds l]", goal_cases)
  case (2 stop interrupted comments k z mx l fed n)
  then show ?case
    using run_round_Skip [of "interrupted k" comments z mx l n] by simp
next
  case (3 stop interrupted comments k z mx l fed t n)
  then show ?case
    using run_round_Give [of "interrupted k" comments z mx l t n] by auto
qed simp

declare run_loop.simps [simp del]

definition sqlite3RunParser :: "((nat \<times> bytes) list \<Rightarrow> bool) \<Rightarrow> (nat \<Rightarrow> bool) \<Rightarrow> bool \<Rightarrow> int \<Rightarrow> bytes \<Rightarrow>
  (nat \<times> bytes) list \<times> run_end" where
  "sqlite3RunParser stop interrupted comments limit zSql = run_loop stop interrupted comments 0 zSql limit (- 1) []"


section \<open>Token types\<close>

text \<open>
  No token has type 0, which the loop keeps for the end of the input, and the types from \<open>TK_WINDOW\<close> on are
  the seven that the loop treats specially.
\<close>

definition token_type :: "nat \<Rightarrow> bool" where
  "token_type t \<longleftrightarrow>
     t \<noteq> 0 \<and> (TK_WINDOW \<le> t \<longrightarrow> t \<in> {TK_WINDOW, TK_OVER, TK_FILTER, TK_QNUMBER, TK_SPACE, TK_COMMENT, TK_ILLEGAL})"

lemma keywordCode_type: "i \<le> length z \<Longrightarrow> keywordCode z i = Some t \<Longrightarrow> token_type t"
proof -
  assume i: "i \<le> length z" "keywordCode z i = Some t"
  have "list_all token_type (tl aKWCode)"
    by (simp add: aKWCode_def token_type_def)
  moreover have "map_of kw_map u = Some c \<Longrightarrow> c \<in> set (tl aKWCode)" for u c
    using map_of_SomeD [of kw_map u c] by (auto simp: kw_map_def dest: set_zip_rightD)
  moreover have "token_type TK_ID"
    by (simp add: token_type_def)
  ultimately show "token_type t"
    using i by (auto simp: keywordCode_map list_all_iff split: option.splits)
qed

definition typed :: "nat \<times> nat \<Rightarrow> bool" where
  "typed r \<longleftrightarrow> token_type (snd r)"

lemma typed_if: "(c \<Longrightarrow> typed a) \<Longrightarrow> (\<not> c \<Longrightarrow> typed b) \<Longrightarrow> typed (if c then a else b)"
  by simp

lemma typed_number: "typed (number_token z)"
  unfolding number_token_def float_part_def exp_part_def typed_def by (simp add: Let_def split_beta token_type_def)

lemma typed_GetToken: "typed (sqlite3GetToken z)"
proof -
  have kw: "typed (let i = scan (\<lambda>c. class_of c \<le> CC_KYWD) z 2
      in if IdChar (zat z i) then id_token z (i + 1) else (i, case keywordCode z i of Some t \<Rightarrow> t | None \<Rightarrow> TK_ID))"
    if "\<not> class_of (zat z 1) > CC_KYWD"
  proof -
    have "zat z 1 \<noteq> 0"
      using that by (cases "zat z 1 = 0") auto
    then have "scan (\<lambda>c. class_of c \<le> CC_KYWD) z 2 \<le> length z"
      using zat_nonzero [of z 1] by (intro scan_le) simp
    then show ?thesis
      using keywordCode_type by (fastforce simp: typed_def Let_def id_token_def token_type_def split: option.splits)
  qed
  have id: "typed (id_token z i)" for i
    by (simp add: typed_def id_token_def token_type_def)
  show ?thesis
    unfolding sqlite3GetToken_def Let_def [of "class_of _"] Let_def [of "zat _ _"]
    by (intro typed_if kw id typed_number) (simp_all add: typed_def token_type_def split_beta Let_def)
qed

lemma run_round_Give_token:
  assumes "run_round a c z mx l = Give t n" "zat z 0 \<noteq> 0"
  obtains t0 where "sqlite3GetToken z = (n, t0)" "t0 \<noteq> TK_SPACE" "t0 \<noteq> TK_COMMENT" "t \<noteq> 0"
proof -
  obtain n0 t0 where g: "sqlite3GetToken z = (n0, t0)"
    by (cases "sqlite3GetToken z")
  have "t0 \<noteq> 0"
    using typed_GetToken [of z] g by (simp add: typed_def token_type_def)
  moreover have "analyzeWindowKeyword x \<noteq> 0" "analyzeOverKeyword x y \<noteq> 0" "analyzeFilterKeyword x y \<noteq> 0" for x y
    by (auto simp: analyzeWindowKeyword_def analyzeOverKeyword_def analyzeFilterKeyword_def split: prod.splits)
  ultimately have "n = n0 \<and> t0 \<noteq> TK_SPACE \<and> t0 \<noteq> TK_COMMENT \<and> t \<noteq> 0"
    using assms g by (auto simp: run_round_def split: if_splits)
  then show thesis
    using that g by blast
qed


section \<open>Quoted text\<close>

lemma quote_loop_doubled:
  assumes "zstring s" "q \<noteq> 0" "r = [] \<or> hd r \<noteq> q"
  shows "quote_loop q (double_quotes q s @ q # r) i = (q, i + length (double_quotes q s))"
  using assms(1)
proof (induction s arbitrary: i)
  case Nil
  then show ?case
    using assms(2,3) by (cases r) (auto simp: double_quotes_def)
next
  case (Cons c s)
  then show ?case
    using assms(2) by (cases "c = q") (auto simp: double_quotes_def)
qed

lemma GetToken_quote:
  "class_of (zat z 0) = CC_QUOTE \<Longrightarrow> sqlite3GetToken z =
     (let (c, i) = quote_loop (zat z 0) (drop 1 z) 1
      in if c = 0x27 then (i + 1, TK_STRING) else if c \<noteq> 0 then (i + 1, TK_ID) else (i, TK_ILLEGAL))"
  by (simp add: sqlite3GetToken_def)

lemma GetToken_comment:
  "class_of (zat z 0) = CC_SLASH \<Longrightarrow> zat z 1 = 0x2A \<Longrightarrow> zat z 2 \<noteq> 0 \<Longrightarrow> sqlite3GetToken z =
     (let (c, i) = comment_loop (zat z 2) (drop 3 z) 3 in (if c \<noteq> 0 then i + 1 else i, TK_COMMENT))"
  by (simp add: sqlite3GetToken_def)

section \<open>Properties\<close>

text \<open>
  String literals: a text without zeros, its quotes doubled and put between single quotes, is one token of
  type \<open>TK_STRING\<close> that ends at the closing quote, provided that no quote follows; \<^verbatim>\<open>sqlite3Dequote\<close> of
  the token is the text. With double quotes or grave accents it is an identifier.
\<close>

theorem string_literal_token:
  assumes "zstring s" "q \<in> {0x22, 0x27, 0x60}" "r = [] \<or> hd r \<noteq> q"
  shows "sqlite3GetToken (q # double_quotes q s @ q # r)
      = (length (double_quotes q s) + 2, if q = 0x27 then TK_STRING else TK_ID)
    \<and> sqlite3Dequote (Some (take (length (double_quotes q s) + 2) (q # double_quotes q s @ q # r))) = Some (Some s)"
proof
  have "unat q = 34 \<or> unat q = 39 \<or> unat q = 96"
    using assms(2) by auto
  then have q: "q \<noteq> 0" "class_of q = CC_QUOTE"
    unfolding class_of_eq by (auto simp: tok_class_def)
  let ?z = "q # double_quotes q s @ q # r"
  have z: "zat ?z 0 = q" "drop 1 ?z = double_quotes q s @ q # r"
    by simp_all
  have "sqlite3GetToken ?z = (let (c, i) = (q, 1 + length (double_quotes q s))
      in if c = 0x27 then (i + 1, TK_STRING) else if c \<noteq> 0 then (i + 1, TK_ID) else (i, TK_ILLEGAL))"
    using GetToken_quote [of ?z] q(2) unfolding z quote_loop_doubled [OF assms(1) q(1) assms(3)] .
  then show "sqlite3GetToken (q # double_quotes q s @ q # r)
      = (length (double_quotes q s) + 2, if q = 0x27 then TK_STRING else TK_ID)"
    using q(1) by simp
  show "sqlite3Dequote (Some (take (length (double_quotes q s) + 2) (q # double_quotes q s @ q # r))) = Some (Some s)"
    using assms(2) dequote_loop_doubled [of q s "[]"] by (auto simp: sqlite3Dequote_def Isquote_iff Let_def)
qed

theorem string_literal_token_witness:
  "sqlite3GetToken (0x27 # double_quotes 0x27 [0x27, 0x61] @ 0x27 # [0x3B])
     = (length (double_quotes 0x27 [0x27, 0x61]) + 2, TK_STRING)"
  using string_literal_token [of "[0x27, 0x61]" "0x27" "[0x3B]"] by simp

text \<open>
  The look-ahead of OVER does not skip comments: after a closing parenthesis and before an opening one, OVER is
  a keyword when a blank stands between, and an identifier when a comment does, although the loop of
  \<^verbatim>\<open>sqlite3RunParser\<close> skips both.
\<close>

theorem over_before_comment:
  "analyzeOverKeyword (0x20 # 0x28 # r) (int TK_RP) = TK_OVER
    \<and> analyzeOverKeyword ([0x2F, 0x2A, 0x78, 0x2A, 0x2F] @ 0x28 # r) (int TK_RP) = TK_ID"
proof -
  have "sqlite3GetToken (0x20 # 0x28 # r) = (1, TK_SPACE)"
    by (simp add: sqlite3GetToken_def class_of_eq tok_class_def scan_def Isspace_iff)
  moreover have p: "sqlite3GetToken (0x28 # r) = (1, TK_LP)" for r
    by (simp add: sqlite3GetToken_def class_of_eq tok_class_def)
  moreover have "sqlite3GetToken (0x2F # 0x2A # 0x78 # 0x2A # 0x2F # r') = (5, TK_COMMENT)" for r'
    by (subst GetToken_comment) (simp_all add: class_of_eq tok_class_def zat_def)
  moreover have "yyFallback ! TK_LP \<noteq> TK_ID" "yyFallback ! TK_COMMENT \<noteq> TK_ID"
    by (simp_all add: yyFallback_def)
  ultimately show ?thesis
    by (simp add: analyzeOverKeyword_def getToken.simps sqlite3ParserFallback_def)
qed

end
