(* ===== verification/TokenMemM.thy ===== *)
theory TokenMemM
  imports TokenM
begin

text \<open>
  The tokenizer (\<^verbatim>\<open>tokenize.c\<close>) with every read of its text checked: the buffer is the memory that
  \<^verbatim>\<open>z\<close> points to, and a read outside it is \<^term>\<open>None\<close>. Each test reads what the source reads, in the order of the
  source, \<^verbatim>\<open>&&\<close> and \<^verbatim>\<open>||\<close> included. \<open>TokenM\<close> has the same functions on the text alone, without the reads.
\<close>

section \<open>Definitions\<close>

text \<open>\<^verbatim>\<open>while( P(z[i]) ) i++\<close>.\<close>

function scan_rd :: "(u8 \<Rightarrow> bool) \<Rightarrow> bytes \<Rightarrow> nat \<Rightarrow> nat option" where
  "scan_rd P z i = (case rd8 z i of None \<Rightarrow> None | Some c \<Rightarrow> if P c then scan_rd P z (i + 1) else Some i)"
  by pat_completeness auto
termination by (relation "measure (\<lambda>(P, z, i). length z - i)") (auto simp: rd8_eq_Some_iff)

text \<open>Digits with separators; \<open>q\<close> is set by a separator.\<close>

function num_scan_rd :: "(u8 \<Rightarrow> bool) \<Rightarrow> bytes \<Rightarrow> nat \<Rightarrow> bool \<Rightarrow> (nat \<times> bool) option" where
  "num_scan_rd P z i q = (case rd8 z i of None \<Rightarrow> None
     | Some c \<Rightarrow> if P c then num_scan_rd P z (i + 1) q
         else if c = 0x5F then num_scan_rd P z (i + 1) True else Some (i, q))"
  by pat_completeness auto
termination by (relation "measure (\<lambda>(P, z, i, q). length z - i)") (auto simp: rd8_eq_Some_iff)

function comment_rd :: "u8 \<Rightarrow> bytes \<Rightarrow> nat \<Rightarrow> (u8 \<times> nat) option" where
  "comment_rd c z i = (case rd8 z i of None \<Rightarrow> None
     | Some x \<Rightarrow> if c = 0x2A \<and> x = 0x2F then Some (c, i) else if x = 0 then Some (0, i) else comment_rd x z (i + 1))"
  by pat_completeness auto
termination by (relation "measure (\<lambda>(c, z, i). length z - i)") (auto simp: rd8_eq_Some_iff)

function bracket_rd :: "u8 \<Rightarrow> bytes \<Rightarrow> nat \<Rightarrow> (u8 \<times> nat) option" where
  "bracket_rd c z i = (if c = 0x5D then Some (c, i) else (case rd8 z i of None \<Rightarrow> None
     | Some x \<Rightarrow> if x = 0 then Some (0, i) else bracket_rd x z (i + 1)))"
  by pat_completeness auto
termination by (relation "measure (\<lambda>(c, z, i). length z - i)") (auto simp: rd8_eq_Some_iff)

function quote_rd :: "u8 \<Rightarrow> bytes \<Rightarrow> nat \<Rightarrow> (u8 \<times> nat) option" where
  "quote_rd delim z i = (case rd8 z i of None \<Rightarrow> None
     | Some c \<Rightarrow> if c = 0 then Some (0, i)
         else if c = delim
         then (case rd8 z (i + 1) of None \<Rightarrow> None
                 | Some c2 \<Rightarrow> if c2 = delim then quote_rd delim z (i + 2) else Some (c, i))
         else quote_rd delim z (i + 1))"
  by pat_completeness auto
termination by (relation "measure (\<lambda>(d, z, i). length z - i)") (auto simp: rd8_eq_Some_iff)

text \<open>A variable name: the end, the number of identifier characters, and if it is legal.\<close>

function var_rd :: "bytes \<Rightarrow> nat \<Rightarrow> nat \<Rightarrow> (nat \<times> nat \<times> bool) option" where
  "var_rd z i n = (case rd8 z i of None \<Rightarrow> None
     | Some c \<Rightarrow> if c = 0 then Some (i, n, True)
         else if IdChar c then var_rd z (i + 1) (n + 1)
         else if c = 0x28 \<and> n > 0
         then do {
           k \<leftarrow> scan_rd (\<lambda>c. c \<noteq> 0 \<and> \<not> sqlite3Isspace c \<and> c \<noteq> 0x29) z (i + 1);
           c \<leftarrow> rd8 z k;
           Some (if c = 0x29 then (k + 1, n, True) else (k, n, False)) }
         else if c = 0x3A
         then (case rd8 z (i + 1) of None \<Rightarrow> None
                 | Some c2 \<Rightarrow> if c2 = 0x3A then var_rd z (i + 2) n else Some (i, n, True))
         else Some (i, n, True))"
  by pat_completeness auto
termination by (relation "measure (\<lambda>(z, i, n). length z - i)") (auto simp: rd8_eq_Some_iff)

definition float_rd :: "bytes \<Rightarrow> nat \<Rightarrow> nat \<Rightarrow> (nat \<times> nat) option" where
  "float_rd z i t = do {
     c \<leftarrow> rd8 z i;
     if c = 0x2E
     then do {
       (i, q) \<leftarrow> num_scan_rd sqlite3Isdigit z (i + 1) False;
       Some (i, if q then TK_QNUMBER else if t = TK_INTEGER then TK_FLOAT else t) }
     else Some (i, t) }"

text \<open>The test for an exponent at \<open>i\<close>, then the exponent.\<close>

definition exp_test_rd :: "bytes \<Rightarrow> nat \<Rightarrow> bool option" where
  "exp_test_rd z i = do {
     c \<leftarrow> rd8 z i;
     if c \<noteq> 0x65 \<and> c \<noteq> 0x45 then Some False
     else do {
       d \<leftarrow> rd8 z (i + 1);
       if sqlite3Isdigit d then Some True
       else if d \<noteq> 0x2B \<and> d \<noteq> 0x2D then Some False
       else do { e \<leftarrow> rd8 z (i + 2); Some (sqlite3Isdigit e) } } }"

definition exp_rd :: "bytes \<Rightarrow> nat \<Rightarrow> nat \<Rightarrow> (nat \<times> nat) option" where
  "exp_rd z i t = do {
     b \<leftarrow> exp_test_rd z i;
     if b
     then do {
       (i, q) \<leftarrow> num_scan_rd sqlite3Isdigit z (i + 2) False;
       Some (i, if q then TK_QNUMBER else if t = TK_INTEGER then TK_FLOAT else t) }
     else Some (i, t) }"

definition hex_test_rd :: "bytes \<Rightarrow> bool option" where
  "hex_test_rd z = do {
     c0 \<leftarrow> rd8 z 0;
     if c0 \<noteq> 0x30 then Some False
     else do {
       c1 \<leftarrow> rd8 z 1;
       if c1 \<noteq> 0x78 \<and> c1 \<noteq> 0x58 then Some False
       else do { c2 \<leftarrow> rd8 z 2; Some (sqlite3Isxdigit c2) } } }"

definition number_rd :: "bytes \<Rightarrow> (nat \<times> nat) option" where
  "number_rd z = do {
     hex \<leftarrow> hex_test_rd z;
     (i, t) \<leftarrow> (if hex
       then do {
         (i, q) \<leftarrow> num_scan_rd sqlite3Isxdigit z 3 False;
         Some (i, if q then TK_QNUMBER else TK_INTEGER) }
       else do {
         (i, q) \<leftarrow> num_scan_rd sqlite3Isdigit z 0 False;
         (i, t) \<leftarrow> float_rd z i (if q then TK_QNUMBER else TK_INTEGER);
         exp_rd z i t });
     c \<leftarrow> rd8 z i;
     if IdChar c then do { i \<leftarrow> scan_rd IdChar z i; Some (i, TK_ILLEGAL) } else Some (i, t) }"

definition id_rd :: "bytes \<Rightarrow> nat \<Rightarrow> (nat \<times> nat) option" where
  "id_rd z i = do { i \<leftarrow> scan_rd IdChar z i; Some (i, TK_ID) }"

text \<open>\<^verbatim>\<open>keywordCode\<close>: the bytes of the token are compared one by one up to the first difference.\<close>

fun kw_match_rd :: "bytes \<Rightarrow> nat \<Rightarrow> nat \<Rightarrow> nat \<Rightarrow> bool option" where
  "kw_match_rd z off j 0 = Some True"
| "kw_match_rd z off j (Suc k) = do {
     c \<leftarrow> rd8 z j;
     if unat c AND 0xDF = of_char (zKWText ! (off + j)) then kw_match_rd z off (j + 1) k else Some False }"

fun keyword_loop_rd :: "nat \<Rightarrow> bytes \<Rightarrow> nat \<Rightarrow> nat \<Rightarrow> nat option" where
  "keyword_loop_rd 0 z n i = None"
| "keyword_loop_rd (Suc f) z n i =
     (if i > 0
      then (if aKWLen ! i \<noteq> n then keyword_loop_rd f z n (aKWNext ! i)
            else do {
              m \<leftarrow> kw_match_rd z (aKWOffset ! i) 0 n;
              if m then Some (aKWCode ! i) else keyword_loop_rd f z n (aKWNext ! i) })
      else Some TK_ID)"

definition keywordCode_rd :: "bytes \<Rightarrow> nat \<Rightarrow> nat option" where
  "keywordCode_rd z n = do {
     c0 \<leftarrow> rd8 z 0;
     c1 \<leftarrow> rd8 z (n - 1);
     keyword_loop_rd keyword_fuel z n
       (aKWHash ! (((unat (UpperToLower c0) * 4) XOR (unat (UpperToLower c1) * 3) XOR n * 1) mod 127)) }"

text \<open>The case \<^verbatim>\<open>CC_KYWD0\<close> and the literals of \<^verbatim>\<open>CC_X\<close>.\<close>

definition word_rd :: "bytes \<Rightarrow> (nat \<times> nat) option" where
  "word_rd z = do {
     c1 \<leftarrow> rd8 z 1;
     if class_of c1 > CC_KYWD then id_rd z 1
     else do {
       i \<leftarrow> scan_rd (\<lambda>c. class_of c \<le> CC_KYWD) z 2;
       c \<leftarrow> rd8 z i;
       if IdChar c then id_rd z (i + 1)
       else do { t \<leftarrow> keywordCode_rd z i; Some (i, t) } } }"

definition blob_rd :: "bytes \<Rightarrow> (nat \<times> nat) option" where
  "blob_rd z = do {
     i \<leftarrow> scan_rd sqlite3Isxdigit z 2;
     c \<leftarrow> rd8 z i;
     (i, t) \<leftarrow> (if c \<noteq> 0x27 \<or> i mod 2 \<noteq> 0
       then do { i \<leftarrow> scan_rd (\<lambda>c. c \<noteq> 0 \<and> c \<noteq> 0x27) z i; Some (i, TK_ILLEGAL) } else Some (i, TK_BLOB));
     c \<leftarrow> rd8 z i;
     Some (if c \<noteq> 0 then i + 1 else i, t) }"

definition slash_rd :: "bytes \<Rightarrow> (nat \<times> nat) option" where
  "slash_rd z = do {
     c1 \<leftarrow> rd8 z 1;
     if c1 \<noteq> 0x2A then Some (1, TK_SLASH)
     else do {
       c2 \<leftarrow> rd8 z 2;
       if c2 = 0 then Some (1, TK_SLASH)
       else do { (c, i) \<leftarrow> comment_rd c2 z 3; Some (if c \<noteq> 0 then i + 1 else i, TK_COMMENT) } } }"

definition minus_rd :: "bytes \<Rightarrow> (nat \<times> nat) option" where
  "minus_rd z = do {
     c1 \<leftarrow> rd8 z 1;
     if c1 = 0x2D then do { i \<leftarrow> scan_rd (\<lambda>c. c \<noteq> 0 \<and> c \<noteq> 0x0A) z 2; Some (i, TK_COMMENT) }
     else if c1 = 0x3E then do { c2 \<leftarrow> rd8 z 2; Some (2 + (if c2 = 0x3E then 1 else 0), TK_PTR) }
     else Some (1, TK_MINUS) }"

definition bom_rd :: "bytes \<Rightarrow> (nat \<times> nat) option" where
  "bom_rd z = do {
     c1 \<leftarrow> rd8 z 1;
     if c1 \<noteq> 0xBB then id_rd z 1
     else do { c2 \<leftarrow> rd8 z 2; if c2 = 0xBF then Some (3, TK_SPACE) else id_rd z 1 } }"

text \<open>\<^verbatim>\<open>sqlite3GetToken\<close>.\<close>

definition GetToken_rd :: "bytes \<Rightarrow> (nat \<times> nat) option" where
  "GetToken_rd z = do {
     c0 \<leftarrow> rd8 z 0;
     let cls = class_of c0;
     if cls = CC_SPACE then do { i \<leftarrow> scan_rd sqlite3Isspace z 1; Some (i, TK_SPACE) }
     else if cls = CC_MINUS then minus_rd z
     else if cls = CC_LP then Some (1, TK_LP)
     else if cls = CC_RP then Some (1, TK_RP)
     else if cls = CC_SEMI then Some (1, TK_SEMI)
     else if cls = CC_PLUS then Some (1, TK_PLUS)
     else if cls = CC_STAR then Some (1, TK_STAR)
     else if cls = CC_SLASH then slash_rd z
     else if cls = CC_PERCENT then Some (1, TK_REM)
     else if cls = CC_EQ then do { c1 \<leftarrow> rd8 z 1; Some (1 + (if c1 = 0x3D then 1 else 0), TK_EQ) }
     else if cls = CC_LT then do {
       c1 \<leftarrow> rd8 z 1;
       Some (if c1 = 0x3D then (2, TK_LE) else if c1 = 0x3E then (2, TK_NE)
             else if c1 = 0x3C then (2, TK_LSHIFT) else (1, TK_LT)) }
     else if cls = CC_GT then do {
       c1 \<leftarrow> rd8 z 1;
       Some (if c1 = 0x3D then (2, TK_GE) else if c1 = 0x3E then (2, TK_RSHIFT) else (1, TK_GT)) }
     else if cls = CC_BANG then do { c1 \<leftarrow> rd8 z 1; Some (if c1 \<noteq> 0x3D then (1, TK_ILLEGAL) else (2, TK_NE)) }
     else if cls = CC_PIPE then do { c1 \<leftarrow> rd8 z 1; Some (if c1 \<noteq> 0x7C then (1, TK_BITOR) else (2, TK_CONCAT)) }
     else if cls = CC_COMMA then Some (1, TK_COMMA)
     else if cls = CC_AND then Some (1, TK_BITAND)
     else if cls = CC_TILDA then Some (1, TK_BITNOT)
     else if cls = CC_QUOTE then do {
       (c, i) \<leftarrow> quote_rd c0 z 1;
       Some (if c = 0x27 then (i + 1, TK_STRING) else if c \<noteq> 0 then (i + 1, TK_ID) else (i, TK_ILLEGAL)) }
     else if cls = CC_DOT then do { c1 \<leftarrow> rd8 z 1; if \<not> sqlite3Isdigit c1 then Some (1, TK_DOT) else number_rd z }
     else if cls = CC_DIGIT then number_rd z
     else if cls = CC_QUOTE2 then do {
       (c, i) \<leftarrow> bracket_rd c0 z 1; Some (i, if c = 0x5D then TK_ID else TK_ILLEGAL) }
     else if cls = CC_VARNUM then do { i \<leftarrow> scan_rd sqlite3Isdigit z 1; Some (i, TK_VARIABLE) }
     else if cls = CC_DOLLAR \<or> cls = CC_VARALPHA then do {
       (i, n, ok) \<leftarrow> var_rd z 1 0; Some (i, if n = 0 \<or> \<not> ok then TK_ILLEGAL else TK_VARIABLE) }
     else if cls = CC_KYWD0 then word_rd z
     else if cls = CC_X then do { c1 \<leftarrow> rd8 z 1; if c1 = 0x27 then blob_rd z else id_rd z 1 }
     else if cls = CC_KYWD \<or> cls = CC_ID then id_rd z 1
     else if cls = CC_BOM then bom_rd z
     else if cls = CC_NUL then Some (0, TK_ILLEGAL)
     else Some (1, TK_ILLEGAL) }"

declare scan_rd.simps [simp del] num_scan_rd.simps [simp del] comment_rd.simps [simp del] bracket_rd.simps [simp del]
  quote_rd.simps [simp del] var_rd.simps [simp del]

section \<open>The loops stay in the buffer\<close>

lemma rd_z: "i \<le> length z \<Longrightarrow> rd8 (z @ [0]) i = Some (zat z i)"
  by (auto simp: rd8_def zat_def nth_append)

lemma drop_zat: "i < length z \<Longrightarrow> drop i z = zat z i # drop (Suc i) z"
  by (simp add: Cons_nth_drop_Suc zat_def)

lemma zat_drop: "zat (drop k z) m = zat z (k + m)"
  by (cases "k + m < length z") (auto simp: zat_def)

lemma zat_end: "length z \<le> i \<Longrightarrow> zat z i = 0"
  by (simp add: zat_def)

lemma scan_rd_ok: "\<not> P 0 \<Longrightarrow> i \<le> length z \<Longrightarrow> scan_rd P (z @ [0]) i = Some (scan P z i)"
proof (induction "length z - i" arbitrary: i)
  case 0
  then show ?case by (subst scan_rd.simps) (simp add: rd_z zat_end scan_def)
next
  case (Suc n)
  then have "i < length z" "n = length z - Suc i" by simp_all
  then show ?case using Suc by (subst scan_rd.simps) (auto simp: rd_z scan_def drop_zat)
qed

lemma separator_no_digit [simp]: "\<not> sqlite3Isdigit 0x5F" "\<not> sqlite3Isxdigit 0x5F"
  by (simp_all add: Isdigit_iff Isxdigit_iff)

lemma num_scan_rd_ok:
  "\<not> P 0 \<Longrightarrow> \<not> P 0x5F \<Longrightarrow> i \<le> length z \<Longrightarrow> num_scan_rd P (z @ [0]) i q = Some (fst (num_scan P z i), q \<or> snd (num_scan P z i))"
proof (induction "length z - i" arbitrary: i q)
  case 0
  then show ?case by (subst num_scan_rd.simps) (simp add: rd_z zat_end num_scan_def)
next
  case (Suc n)
  then have "i < length z" "n = length z - Suc i" by simp_all
  then show ?case using Suc by (subst num_scan_rd.simps) (auto simp: rd_z num_scan_def drop_zat Let_def)
qed

lemma comment_rd_ok: "i \<le> length z \<Longrightarrow> comment_rd c (z @ [0]) i = Some (comment_loop c (drop i z) i)"
proof (induction "length z - i" arbitrary: i c)
  case 0
  then show ?case by (subst comment_rd.simps) (simp add: rd_z zat_end)
next
  case (Suc n)
  then have "i < length z" "n = length z - Suc i" by simp_all
  then show ?case using Suc by (subst comment_rd.simps) (auto simp: rd_z drop_zat)
qed

lemma bracket_rd_ok: "i \<le> length z \<Longrightarrow> bracket_rd c (z @ [0]) i = Some (bracket_loop c (drop i z) i)"
proof (induction "length z - i" arbitrary: i c)
  case 0
  then show ?case by (subst bracket_rd.simps, subst bracket_loop.simps) (simp add: rd_z zat_end)
next
  case (Suc n)
  then have "i < length z" "n = length z - Suc i" by simp_all
  then show ?case using Suc by (subst bracket_rd.simps, subst bracket_loop.simps) (auto simp: rd_z drop_zat)
qed

lemma quote_loop_step:
  assumes "i < length z" "d \<noteq> 0"
  shows "quote_loop d (drop i z) i =
    (if zat z i = 0 then (0, i)
     else if zat z i = d
     then (if zat z (i + 1) = d then quote_loop d (drop (i + 2) z) (i + 2) else (d, i))
     else quote_loop d (drop (i + 1) z) (i + 1))"
proof (cases "i + 1 < length z")
  case True
  then show ?thesis using drop_zat [OF assms(1)] drop_zat [of "i + 1" z] by simp
next
  case False
  then show ?thesis using drop_zat [OF assms(1)] assms(2) by (simp add: zat_end)
qed

lemma quote_rd_ok: "d \<noteq> 0 \<Longrightarrow> i \<le> length z \<Longrightarrow> quote_rd d (z @ [0]) i = Some (quote_loop d (drop i z) i)"
proof (induction "length z - i" arbitrary: i rule: less_induct)
  case less
  show ?case
  proof (cases "i = length z")
    case True
    then show ?thesis by (subst quote_rd.simps) (simp add: rd_z zat_end)
  next
    case False
    then have i: "i < length z" using less.prems by simp
    have "i + 2 \<le> length z" if "zat z (i + 1) = d" using zat_nonzero [of z "i + 1"] that less.prems by simp
    then show ?thesis
      using less i unfolding quote_loop_step [OF i less.prems(1)] by (subst quote_rd.simps) (auto simp: rd_z)
  qed
qed

lemma var_loop_step:
  assumes "i < length z"
  shows "var_loop (drop i z) i n =
    (let c = zat z i; k = scan (\<lambda>c. c \<noteq> 0 \<and> \<not> sqlite3Isspace c \<and> c \<noteq> 0x29) z (i + 1) in
     if c = 0 then (i, n, True)
     else if IdChar c then var_loop (drop (i + 1) z) (i + 1) (n + 1)
     else if c = 0x28 \<and> n > 0 then (if zat z k = 0x29 then (k + 1, n, True) else (k, n, False))
     else if c = 0x3A then (if zat z (i + 1) = 0x3A then var_loop (drop (i + 2) z) (i + 2) n else (i, n, True))
     else (i, n, True))"
proof (cases "i + 1 < length z")
  case True
  then show ?thesis using zat_drop [of "i + 1" z] drop_zat [OF assms] drop_zat [of "i + 1" z] True by (simp add: Let_def scan_def)
next
  case False
  then show ?thesis using drop_zat [OF assms] by (simp add: zat_end scan_def Let_def)
qed

lemma var_rd_ok: "i \<le> length z \<Longrightarrow> var_rd (z @ [0]) i n = Some (var_loop (drop i z) i n)"
proof (induction "length z - i" arbitrary: i n rule: less_induct)
  case less
  show ?case
  proof (cases "i = length z")
    case True
    then show ?thesis by (subst var_rd.simps) (simp add: rd_z zat_end)
  next
    case False
    then have i: "i < length z" using less.prems by simp
    have two: "i + 2 \<le> length z" if "zat z (i + 1) = 0x3A" using zat_nonzero [of z "i + 1"] that by simp
    have k: "scan P z (i + 1) \<le> length z" for P using scan_le [of "i + 1" z] i by simp
    have s: "scan_rd (\<lambda>c. c \<noteq> 0 \<and> \<not> sqlite3Isspace c \<and> c \<noteq> 0x29) (z @ [0]) (i + 1)
        = Some (scan (\<lambda>c. c \<noteq> 0 \<and> \<not> sqlite3Isspace c \<and> c \<noteq> 0x29) z (i + 1))"
      using scan_rd_ok i by simp
    show ?thesis
      using less i two unfolding var_loop_step [OF i] by (subst var_rd.simps) (auto simp: rd_z s [simplified] k [simplified] Let_def)
  qed
qed

section \<open>Numbers, words and literals\<close>

lemma float_rd_ok: "i \<le> length z \<Longrightarrow> float_rd (z @ [0]) i t = Some (float_part z i t)"
proof -
  assume i: "i \<le> length z"
  have "zat z i = 0x2E \<Longrightarrow> i + 1 \<le> length z" using zat_nonzero [of z i] by simp
  then show ?thesis
    using i by (auto simp: float_rd_def float_part_def rd_z num_scan_rd_ok Let_def split: prod.split)
qed

lemma exp_test_ok:
  assumes "i \<le> length z"
  shows "exp_test_rd (z @ [0]) i = Some ((zat z i = 0x65 \<or> zat z i = 0x45)
      \<and> (sqlite3Isdigit (zat z (i + 1)) \<or> ((zat z (i + 1) = 0x2B \<or> zat z (i + 1) = 0x2D) \<and> sqlite3Isdigit (zat z (i + 2)))))"
proof -
  have "zat z i \<noteq> 0 \<Longrightarrow> i + 1 \<le> length z" "zat z (i + 1) \<noteq> 0 \<Longrightarrow> i + 2 \<le> length z"
    using zat_nonzero [of z i] zat_nonzero [of z "i + 1"] by simp_all
  then show ?thesis using assms by (auto simp: exp_test_rd_def rd_z)
qed

lemma exp_rd_ok:
  assumes "i \<le> length z"
  shows "exp_rd (z @ [0]) i t = Some (exp_part z i t)"
proof -
  have "i + 2 \<le> length z" if "sqlite3Isdigit (zat z (i + 1)) \<or> zat z (i + 1) = 0x2B \<or> zat z (i + 1) = 0x2D"
  proof -
    have "zat z (i + 1) \<noteq> 0" using that by auto
    then show ?thesis using zat_nonzero [of z "i + 1"] by simp
  qed
  then show ?thesis
    unfolding exp_rd_def exp_test_ok [OF assms] exp_part_def
    by (auto simp: num_scan_rd_ok Let_def split: prod.split)
qed

lemma hex_test_ok:
  assumes "z \<noteq> []"
  shows "hex_test_rd (z @ [0]) = Some (zat z 0 = 0x30 \<and> (zat z 1 = 0x78 \<or> zat z 1 = 0x58) \<and> sqlite3Isxdigit (zat z 2))"
proof -
  have "zat z 1 \<noteq> 0 \<Longrightarrow> 2 \<le> length z" using zat_nonzero [of z 1] by simp
  moreover have "1 \<le> length z" using assms by (simp add: Suc_le_eq)
  ultimately show ?thesis by (auto simp: hex_test_rd_def rd_z)
qed

lemma number_rd_ok:
  assumes "z \<noteq> []"
  shows "number_rd (z @ [0]) = Some (number_token z)"
proof -
  let ?hex = "zat z 0 = 0x30 \<and> (zat z 1 = 0x78 \<or> zat z 1 = 0x58) \<and> sqlite3Isxdigit (zat z 2)"
  define X where "X = (if ?hex
         then (let (i, q) = num_scan sqlite3Isxdigit z 3 in (i, if q then TK_QNUMBER else TK_INTEGER))
         else (let (i, q) = num_scan sqlite3Isdigit z 0;
                   (i, t) = float_part z i (if q then TK_QNUMBER else TK_INTEGER)
               in exp_part z i t))"
  have three: "3 \<le> length z" if ?hex
  proof -
    have "zat z 2 \<noteq> 0" using that by auto
    then show ?thesis using zat_nonzero [of z 2] by simp
  qed
  have i0: "fst (num_scan sqlite3Isdigit z 0) \<le> length z" using num_scan_bounds [of 0 z] by simp
  have f: "fst (float_part z (fst (num_scan sqlite3Isdigit z 0)) t) \<le> length z" for t
    using float_part_bounds [OF i0] by simp
  have X: "fst X \<le> length z"
    using three num_scan_bounds [of 3 z sqlite3Isxdigit] exp_part_bounds [OF f] unfolding X_def
    by (auto simp: Let_def split_beta)
  have run: "(if ?hex
       then do {
         (i, q) \<leftarrow> num_scan_rd sqlite3Isxdigit (z @ [0]) 3 False;
         Some (i, if q then TK_QNUMBER else TK_INTEGER) }
       else do {
         (i, q) \<leftarrow> num_scan_rd sqlite3Isdigit (z @ [0]) 0 False;
         (i, t) \<leftarrow> float_rd (z @ [0]) i (if q then TK_QNUMBER else TK_INTEGER);
         exp_rd (z @ [0]) i t }) = Some X"
  proof (cases ?hex)
    case True
    then show ?thesis unfolding X_def if_P [OF True] using three by (simp add: num_scan_rd_ok split_beta Let_def)
  next
    case False
    show ?thesis unfolding X_def if_not_P [OF False]
      by (simp add: num_scan_rd_ok float_rd_ok [OF i0] exp_rd_ok [OF f] split_beta Let_def)
  qed
  have "number_token z = (case X of (i, t) \<Rightarrow> if IdChar (zat z i) then (scan IdChar z i, TK_ILLEGAL) else (i, t))"
    by (simp add: number_token_def X_def Let_def)
  then have tok: "number_token z = (if IdChar (zat z (fst X)) then (scan IdChar z (fst X), TK_ILLEGAL) else X)"
    by (simp add: split_beta)
  show ?thesis
    unfolding number_rd_def hex_test_ok [OF assms] bind.simps run tok
    using X by (simp add: split_beta rd_z scan_rd_ok)
qed

lemma id_rd_ok: "i \<le> length z \<Longrightarrow> id_rd (z @ [0]) i = Some (id_token z i)"
  by (simp add: id_rd_def id_token_def scan_rd_ok)

lemma kw_match_rd_ok: "j + k \<le> length z \<Longrightarrow> kw_match_rd (z @ [0]) off j k = Some (kw_match z off j k)"
  by (induction k arbitrary: j) (auto simp: rd_z)

lemma keyword_loop_rd_ok: "n \<le> length z \<Longrightarrow> keyword_loop_rd f (z @ [0]) n i = keyword_loop f z n i"
  by (induction f arbitrary: i) (auto simp: kw_match_rd_ok)

lemma keywordCode_rd_ok: "n \<le> length z \<Longrightarrow> keywordCode_rd (z @ [0]) n = keywordCode z n"
  by (simp add: keywordCode_rd_def keywordCode_def kw_hash_def rd_z keyword_loop_rd_ok)

lemma word_rd_ok:
  assumes "z \<noteq> []"
  shows "word_rd (z @ [0]) = Some (if class_of (zat z 1) > CC_KYWD then id_token z 1
     else (let i = scan (\<lambda>c. class_of c \<le> CC_KYWD) z 2
           in if IdChar (zat z i) then id_token z (i + 1)
              else (i, case keywordCode z i of Some t \<Rightarrow> t | None \<Rightarrow> TK_ID)))"
proof (cases "class_of (zat z 1) > CC_KYWD")
  case True
  then show ?thesis using assms by (simp add: word_rd_def rd_z id_rd_ok Suc_le_eq)
next
  case False
  then have "zat z 1 \<noteq> 0" by (cases "zat z 1 = 0") auto
  then have two: "2 \<le> length z" using zat_nonzero [of z 1] by simp
  define i where "i = scan (\<lambda>c. class_of c \<le> CC_KYWD) z 2"
  have i: "i \<le> length z" using two by (simp add: i_def scan_le)
  have id: "IdChar (zat z i) \<Longrightarrow> i + 1 \<le> length z" using zat_nonzero [of z i] by (cases "zat z i = 0") auto
  have s: "scan_rd (\<lambda>c. class_of c \<le> CC_KYWD) (z @ [0]) 2 = Some i"
    unfolding i_def by (rule scan_rd_ok) (use two in simp_all)
  obtain t where "keywordCode z i = Some t" using keywordCode_map [OF i] by blast
  then show ?thesis
    using False two i id by (auto simp: word_rd_def rd_z s i_def [symmetric] Let_def id_rd_ok keywordCode_rd_ok)
qed

lemma blob_rd_ok:
  assumes "zat z 1 = 0x27"
  shows "blob_rd (z @ [0]) = Some (let i = scan sqlite3Isxdigit z 2;
       (i, t) = (if zat z i \<noteq> 0x27 \<or> i mod 2 \<noteq> 0
                 then (scan (\<lambda>c. c \<noteq> 0 \<and> c \<noteq> 0x27) z i, TK_ILLEGAL) else (i, TK_BLOB))
     in (if zat z i \<noteq> 0 then i + 1 else i, t))"
proof -
  have two: "2 \<le> length z" using zat_nonzero [of z 1] assms by simp
  define i where "i = scan sqlite3Isxdigit z 2"
  have i: "i \<le> length z" using two by (simp add: i_def scan_le)
  have s: "scan_rd sqlite3Isxdigit (z @ [0]) 2 = Some i" unfolding i_def by (rule scan_rd_ok) (use two in simp_all)
  let ?P = "\<lambda>c::u8. c \<noteq> 0 \<and> c \<noteq> 0x27"
  have "scan_rd ?P (z @ [0]) i = Some (scan ?P z i)" by (rule scan_rd_ok) (use i in simp_all)
  moreover have "scan ?P z i \<le> length z" by (rule scan_le [OF i])
  ultimately show ?thesis by (simp add: blob_rd_def s rd_z i i_def [symmetric] Let_def)
qed

lemma slash_rd_ok:
  assumes "z \<noteq> []"
  shows "slash_rd (z @ [0]) = Some (if zat z 1 \<noteq> 0x2A \<or> zat z 2 = 0 then (1, TK_SLASH)
     else (let (c, i) = comment_loop (zat z 2) (drop 3 z) 3 in (if c \<noteq> 0 then i + 1 else i, TK_COMMENT)))"
proof -
  have "1 \<le> length z" using assms by (simp add: Suc_le_eq)
  moreover have "zat z 1 = 0x2A \<Longrightarrow> 2 \<le> length z" using zat_nonzero [of z 1] by simp
  moreover have "zat z 2 \<noteq> 0 \<Longrightarrow> 3 \<le> length z" using zat_nonzero [of z 2] by simp
  ultimately show ?thesis by (auto simp: slash_rd_def rd_z comment_rd_ok split_beta)
qed

lemma minus_rd_ok:
  assumes "z \<noteq> []"
  shows "minus_rd (z @ [0]) = Some (if zat z 1 = 0x2D then (scan (\<lambda>c. c \<noteq> 0 \<and> c \<noteq> 0x0A) z 2, TK_COMMENT)
     else if zat z 1 = 0x3E then (2 + (if zat z 2 = 0x3E then 1 else 0), TK_PTR) else (1, TK_MINUS))"
proof -
  have "1 \<le> length z" using assms by (simp add: Suc_le_eq)
  moreover have "zat z 1 \<noteq> 0 \<Longrightarrow> 2 \<le> length z" using zat_nonzero [of z 1] by simp
  ultimately show ?thesis by (auto simp: minus_rd_def rd_z scan_rd_ok)
qed

lemma bom_rd_ok:
  assumes "z \<noteq> []"
  shows "bom_rd (z @ [0]) = Some (if zat z 1 = 0xBB \<and> zat z 2 = 0xBF then (3, TK_SPACE) else id_token z 1)"
proof -
  have "1 \<le> length z" using assms by (simp add: Suc_le_eq)
  moreover have "zat z 1 = 0xBB \<Longrightarrow> 2 \<le> length z" using zat_nonzero [of z 1] by simp
  ultimately show ?thesis by (auto simp: bom_rd_def rd_z id_rd_ok)
qed

section \<open>The tokenizer\<close>

lemma bind_if_Some:
  "(c \<Longrightarrow> a = Some x) \<Longrightarrow> (\<not> c \<Longrightarrow> b = Some y) \<Longrightarrow> (if c then a else b) = Some (if c then x else y)"
  by simp

lemma GetToken_rd_ok:
  "GetToken_rd (z @ [0]) = Some (sqlite3GetToken z)"
proof (cases "z = []")
  case True
  then show ?thesis by (simp add: GetToken_rd_def sqlite3GetToken_def mem_simps)
next
  case False
  then have one: "1 \<le> length z" "0 \<le> length z" by (simp_all add: Suc_le_eq)
  have q: "class_of (zat z 0) = CC_QUOTE \<Longrightarrow> zat z 0 \<noteq> 0" by (cases "zat z 0 = 0") auto
  note rd = rd_z [OF one(1)] rd_z [OF one(2)]
  show ?thesis
    unfolding GetToken_rd_def sqlite3GetToken_def Let_def [of "class_of _"] Let_def [of "zat _ _"] rd bind.simps
    by (intro bind_if_Some refl minus_rd_ok [OF False] slash_rd_ok [OF False] number_rd_ok [OF False] word_rd_ok [OF False]
        bom_rd_ok [OF False] blob_rd_ok id_rd_ok [OF one(1)])
      (use one q in \<open>auto simp: scan_rd_ok quote_rd_ok bracket_rd_ok var_rd_ok split_beta\<close>)
qed

text \<open>
  C25. The tokenizer stays in its text: run on a buffer that holds the text and its terminator and
  nothing else, with every read checked, it never reads outside the buffer and gives the token of
  the text; whatever bytes follow the terminator, the result is the same. A token never extends past the
  text, and while text is left it has at least one byte, so a loop over the tokens makes progress.
\<close>

theorem token_stays_in_text:
  assumes "zstring z"
  shows "GetToken_rd (z @ [0]) = Some (sqlite3GetToken z) \<and> sqlite3GetToken (z @ 0 # r) = sqlite3GetToken z
    \<and> fst (sqlite3GetToken z) \<le> length z \<and> (z \<noteq> [] \<longrightarrow> 1 \<le> fst (sqlite3GetToken z))"
proof (cases "z = []")
  case True
  then show ?thesis using GetToken_rd_ok [of z] by (simp add: GetToken_end GetToken_append)
next
  case False
  then show ?thesis
    using fits_GetToken [of z] assms by (simp add: GetToken_rd_ok GetToken_append zat_0 fits_def)
qed

theorem token_stays_in_text_witness:
  "GetToken_rd ([0x2F, 0x2A, 0x78] @ [0]) = Some (sqlite3GetToken [0x2F, 0x2A, 0x78])
    \<and> sqlite3GetToken ([0x2F, 0x2A, 0x78] @ 0 # [0x2A, 0x2F]) = sqlite3GetToken [0x2F, 0x2A, 0x78]"
  using token_stays_in_text [of "[0x2F, 0x2A, 0x78]" "[0x2A, 0x2F]"] by simp

end
