(* ===== verification/ParserLoopM.thy ===== *)
theory ParserLoopM
  imports TokenM
begin

text \<open>
  What \<^verbatim>\<open>sqlite3RunParser\<close> (\<^verbatim>\<open>tokenize.c\<close>) gives to the parser: a specification on the list of all tokens of
  the text, with the types that WINDOW, OVER and FILTER have in their context, and that the token loop
  follows it with every parser, up to the point where the parser stops.
\<close>

section \<open>Specification\<close>

text \<open>The text cut into tokens.\<close>

function lex_all :: "bytes \<Rightarrow> (nat \<times> bytes) list" where
  "lex_all z =
     (if zat z 0 = 0 then []
      else (case sqlite3GetToken z of (n, t) \<Rightarrow> (t, take n z) # lex_all (drop n z)))"
  by pat_completeness auto
termination
proof (relation "measure length", goal_cases)
  case (2 z n t)
  then show ?case
    using GetToken_shorter [of z n t] by simp
qed simp

declare lex_all.simps [simp del]

lemma lex_all_concat: "zstring z \<Longrightarrow> concat (map snd (lex_all z)) = z"
proof (induction z rule: lex_all.induct)
  case (1 z)
  show ?case
  proof (cases "zat z 0 = 0")
    case True
    with 1(2) have "z = []"
      by (simp add: zat_0)
    then show ?thesis
      by (simp add: lex_all.simps)
  next
    case False
    obtain n t where g: "sqlite3GetToken z = (n, t)"
      by (cases "sqlite3GetToken z")
    have "zstring (drop n z)"
      using 1(2) by (meson in_set_dropD)
    then show ?thesis
      using 1(1) [OF False g [symmetric]] False g by (subst lex_all.simps) simp
  qed
qed

definition significant :: "nat \<times> bytes \<Rightarrow> bool" where
  "significant x \<longleftrightarrow> fst x \<noteq> TK_SPACE \<and> fst x \<noteq> TK_COMMENT"

definition end_tokens :: "bool \<Rightarrow> (nat \<times> bytes) list" where
  "end_tokens after_semi = (if after_semi then [(0, [])] else [(TK_SEMI, []), (0, [])])"

text \<open>
  A type that may stand for a name, and the type of a token in its context: \<open>l\<close> is the type of the token
  before it, \<open>ts\<close> are the tokens behind it, of which those other than white space count.
\<close>

definition name_like :: "nat \<Rightarrow> bool" where
  "name_like t \<longleftrightarrow> t \<in> {TK_ID, TK_STRING, TK_JOIN_KW, TK_WINDOW, TK_OVER} \<or> sqlite3ParserFallback t = TK_ID"

definition ahead :: "(nat \<times> bytes) list \<Rightarrow> nat list" where
  "ahead ts = filter (\<lambda>t. t \<noteq> TK_SPACE) (map fst ts)"

definition type_in_context :: "int \<Rightarrow> nat \<Rightarrow> (nat \<times> bytes) list \<Rightarrow> nat" where
  "type_in_context l t ts =
     (if t = TK_WINDOW then (case ahead ts of a # b # _ \<Rightarrow> if name_like a \<and> b = TK_AS then TK_WINDOW else TK_ID | _ \<Rightarrow> TK_ID)
      else if t = TK_OVER
      then (case ahead ts of a # _ \<Rightarrow> if l = int TK_RP \<and> (a = TK_LP \<or> name_like a) then TK_OVER else TK_ID | _ \<Rightarrow> TK_ID)
      else if t = TK_FILTER
      then (case ahead ts of a # _ \<Rightarrow> if l = int TK_RP \<and> a = TK_LP then TK_FILTER else TK_ID | _ \<Rightarrow> TK_ID)
      else t)"

fun given :: "int \<Rightarrow> (nat \<times> bytes) list \<Rightarrow> (nat \<times> bytes) list" where
  "given l [] = []"
| "given l ((t, s) # ts) =
     (if \<not> significant (t, s) then given l ts
      else (type_in_context l t ts, s) # given (int (type_in_context l t ts)) ts)"

text \<open>All that a parser that never stops is given: the tokens, a semicolon unless there is one, and the end.\<close>

definition parser_input :: "bytes \<Rightarrow> (nat \<times> bytes) list" where
  "parser_input z =
     (let body = given (- 1) (lex_all z) in body @ end_tokens (body \<noteq> [] \<and> fst (last body) = TK_SEMI))"

section \<open>The look-ahead\<close>

lemma fallback_facts:
  "\<not> name_like TK_AS" "\<not> name_like TK_LP" "\<not> name_like TK_ILLEGAL" "\<not> name_like TK_SPACE"
  by (simp_all add: name_like_def sqlite3ParserFallback_def yyFallback_def)

lemma lex_cons: "sqlite3GetToken z = (n, t) \<Longrightarrow> zat z 0 \<noteq> 0 \<Longrightarrow> lex_all z = (t, take n z) # lex_all (drop n z)"
  by (subst lex_all.simps) simp

lemma lex_Nil [simp]: "lex_all [] = []"
  by (simp add: lex_all.simps)

lemma ahead_simps [simp]: "ahead [] = []" "ahead ((t, s) # ts) = (if t = TK_SPACE then ahead ts else t # ahead ts)"
  by (simp_all add: ahead_def)

lemma zstring_drop: "zstring z \<Longrightarrow> zstring (drop n z)"
  by (meson in_set_dropD)

lemma getToken_ahead:
  "zstring z \<Longrightarrow> \<exists>z'. getToken z = (case ahead (lex_all z) of [] \<Rightarrow> TK_ILLEGAL | a # _ \<Rightarrow> if name_like a then TK_ID else a, z')
    \<and> zstring z' \<and> ahead (lex_all z') = tl (ahead (lex_all z))"
proof (induction z rule: getToken.induct)
  case (1 z)
  obtain n t where g: "sqlite3GetToken z = (n, t)" by (cases "sqlite3GetToken z")
  show ?case
  proof (cases "z = []")
    case True
    then show ?thesis using fallback_facts(3) by (subst getToken.simps) (simp add: GetToken_end name_like_def)
  next
    case False
    then have z0: "zat z 0 \<noteq> 0" using 1(2) by (simp add: zat_0)
    note lx = lex_cons [OF g z0]
    show ?thesis
    proof (cases "t = TK_SPACE")
      case True
      then show ?thesis using 1(1) [OF g [symmetric] True zstring_drop [OF 1(2)]] lx g by (subst getToken.simps) simp
    next
      case False
      then show ?thesis using lx g zstring_drop [OF 1(2)] by (subst getToken.simps) (simp add: name_like_def)
    qed
  qed
qed

lemma analyze_ahead:
  assumes "zstring z"
  shows "analyzeWindowKeyword z = type_in_context l TK_WINDOW (lex_all z)"
    and "analyzeOverKeyword z l = type_in_context l TK_OVER (lex_all z)"
    and "analyzeFilterKeyword z l = type_in_context l TK_FILTER (lex_all z)"
proof -
  obtain z1 where z1: "getToken z = (case ahead (lex_all z) of [] \<Rightarrow> TK_ILLEGAL | a # _ \<Rightarrow> if name_like a then TK_ID else a, z1)"
    "zstring z1" "ahead (lex_all z1) = tl (ahead (lex_all z))" using getToken_ahead [OF assms] by blast
  obtain z2 where z2: "getToken z1 = (case ahead (lex_all z1) of [] \<Rightarrow> TK_ILLEGAL | a # _ \<Rightarrow> if name_like a then TK_ID else a, z2)"
    using getToken_ahead [OF z1(2)] by blast
  have id: "name_like TK_ID" by (simp add: name_like_def)
  show "analyzeOverKeyword z l = type_in_context l TK_OVER (lex_all z)"
    "analyzeFilterKeyword z l = type_in_context l TK_FILTER (lex_all z)"
    using id fallback_facts by (auto simp: analyzeOverKeyword_def analyzeFilterKeyword_def type_in_context_def z1(1) split: list.splits)
  show "analyzeWindowKeyword z = type_in_context l TK_WINDOW (lex_all z)"
    using id fallback_facts z1(3) by (auto simp: analyzeWindowKeyword_def type_in_context_def z1(1) z2 split: list.splits)
qed

text \<open>The lengths that \<^verbatim>\<open>sqlite3RunParser\<close> asserts for the three keywords.\<close>

definition kw_sized :: "nat \<times> nat \<Rightarrow> bool" where
  "kw_sized r \<longleftrightarrow> (snd r = TK_WINDOW \<longrightarrow> fst r = 6) \<and> (snd r = TK_OVER \<longrightarrow> fst r = 4) \<and> (snd r = TK_FILTER \<longrightarrow> fst r = 6)"

lemma kw_map_sized: "map_of kw_map u = Some c \<Longrightarrow> kw_sized (length u, c)"
proof -
  assume "map_of kw_map u = Some c"
  then have "(u, c) \<in> set kw_map" by (rule map_of_SomeD)
  moreover have "list_all (\<lambda>(u, c). kw_sized (length u, c)) kw_map"
    by (simp add: kw_map_def sql_keywords_def aKWCode_def kw_sized_def)
  ultimately show ?thesis by (auto simp: list_all_iff)
qed

lemma keywordCode_sized:
  assumes "i \<le> length z" "keywordCode z i = Some t"
  shows "kw_sized (i, t)"
proof -
  have "length (kw_upper z i) = i" using assms(1) by (simp add: kw_upper_def)
  then show ?thesis
    using assms kw_map_sized [of "kw_upper z i"] by (auto simp: keywordCode_map kw_sized_def split: option.splits)
qed

lemma sized_if: "(c \<Longrightarrow> kw_sized a) \<Longrightarrow> (\<not> c \<Longrightarrow> kw_sized b) \<Longrightarrow> kw_sized (if c then a else b)"
  by simp

lemma sized_GetToken: "kw_sized (sqlite3GetToken z)"
proof -
  have kw: "kw_sized (let i = scan (\<lambda>c. class_of c \<le> CC_KYWD) z 2
      in if IdChar (zat z i) then id_token z (i + 1) else (i, case keywordCode z i of Some t \<Rightarrow> t | None \<Rightarrow> TK_ID))"
    if "\<not> class_of (zat z 1) > CC_KYWD"
  proof -
    have "zat z 1 \<noteq> 0" using that by (cases "zat z 1 = 0") auto
    then have "scan (\<lambda>c. class_of c \<le> CC_KYWD) z 2 \<le> length z" using zat_nonzero [of z 1] by (intro scan_le) simp
    then show ?thesis
      using keywordCode_sized [of "scan (\<lambda>c. class_of c \<le> CC_KYWD) z 2" z]
      by (auto simp: Let_def id_token_def kw_sized_def split: option.splits)
  qed
  have id: "kw_sized (id_token z i)" for i by (simp add: kw_sized_def id_token_def)
  have num: "kw_sized (number_token z)"
    unfolding number_token_def float_part_def exp_part_def kw_sized_def by (simp add: Let_def split_beta)
  show ?thesis
    unfolding sqlite3GetToken_def Let_def [of "class_of _"] Let_def [of "zat _ _"]
    by (intro sized_if kw id num) (simp_all add: kw_sized_def split_beta Let_def)
qed

section \<open>The loop\<close>

text \<open>What is still to be given: \<open>l\<close> is the last type given, 0 after the end token.\<close>

definition left_to_give :: "int \<Rightarrow> bytes \<Rightarrow> (nat \<times> bytes) list" where
  "left_to_give l z = (if l = 0 then []
     else (let body = given l (lex_all z)
           in body @ end_tokens (if body = [] then l = int TK_SEMI else fst (last body) = TK_SEMI)))"

lemma left_to_give_start: "left_to_give (- 1) z = parser_input z"
  by (simp add: left_to_give_def parser_input_def Let_def)

lemma round_skip:
  assumes "run_round a c z mx l = Skip n" "zstring z"
  obtains t where "lex_all z = (t, take n z) # lex_all (drop n z)" "\<not> significant (t, take n z)"
    "left_to_give l z = left_to_give l (drop n z)"
proof -
  obtain t where g: "sqlite3GetToken z = (n, t)" and t: "t = TK_SPACE \<or> t = TK_COMMENT"
    using assms(1) by (auto simp: run_round_def split: prod.splits if_splits)
  have "z \<noteq> []" using g t by (auto simp: GetToken_end)
  then have z0: "zat z 0 \<noteq> 0" using assms(2) by (simp add: zat_0)
  have ns: "\<not> significant (t, take n z)" using t by (auto simp: significant_def)
  then show thesis using that [OF lex_cons [OF g z0]] lex_cons [OF g z0] by (simp add: left_to_give_def)
qed

lemma round_give:
  assumes "run_round a c z mx l = Give t n" "zstring z" "l = 0 \<Longrightarrow> z = []"
  shows "left_to_give l z = (t, take n z) # left_to_give (int t) (drop n z)"
    and "int t = 0 \<Longrightarrow> drop n z = []"
    and "z \<noteq> [] \<Longrightarrow> \<exists>t0. lex_all z = (t0, take n z) # lex_all (drop n z) \<and> significant (t0, take n z)"
proof -
  have "left_to_give l z = (t, take n z) # left_to_give (int t) (drop n z) \<and> (int t = 0 \<longrightarrow> drop n z = [])
    \<and> (z \<noteq> [] \<longrightarrow> (\<exists>t0. lex_all z = (t0, take n z) # lex_all (drop n z) \<and> significant (t0, take n z)))"
  proof (cases "z = []")
    case True
    then show ?thesis
      using assms(1) by (auto simp: run_round_def GetToken_end left_to_give_def end_tokens_def split: if_splits)
  next
    case False
    then have z0: "zat z 0 \<noteq> 0" using assms(2) by (simp add: zat_0)
    from run_round_Give_token [OF assms(1) z0] obtain t0 where
      g: "sqlite3GetToken z = (n, t0)" "t0 \<noteq> TK_SPACE" "t0 \<noteq> TK_COMMENT" and t: "t \<noteq> 0" .
    note lx = lex_cons [OF g(1) z0]
    have sz: "kw_sized (n, t0)" using sized_GetToken [of z] g(1) by simp
    have tc: "t = type_in_context l t0 (lex_all (drop n z))"
      using assms(1) g z0 sz analyze_ahead [OF zstring_drop [OF assms(2)], of n l]
      by (auto simp: run_round_def kw_sized_def type_in_context_def split: if_splits)
    have l: "l \<noteq> 0" using False assms(3) by blast
    have sig: "significant (t0, take n z)" using g by (simp add: significant_def)
    then show ?thesis using lx t tc l by (auto simp: left_to_give_def Let_def)
  qed
  then show "left_to_give l z = (t, take n z) # left_to_give (int t) (drop n z)"
    "int t = 0 \<Longrightarrow> drop n z = []"
    "z \<noteq> [] \<Longrightarrow> \<exists>t0. lex_all z = (t0, take n z) # lex_all (drop n z) \<and> significant (t0, take n z)" by blast+
qed

text \<open>
  What the loop has given when it ends, \<open>fed'\<close>, for the reason \<open>e\<close>.
\<close>

definition run_result :: "((nat \<times> bytes) list \<Rightarrow> bool) \<Rightarrow> (nat \<Rightarrow> bool) \<Rightarrow> bool \<Rightarrow> int \<Rightarrow> bytes \<Rightarrow>
  (nat \<times> bytes) list \<Rightarrow> (nat \<times> bytes) list \<Rightarrow> (nat \<times> bytes) list \<Rightarrow> run_end \<Rightarrow> bool" where
  "run_result stop intr c mx z fed out rest e \<longleftrightarrow>
     (e = Run_done \<longrightarrow> rest = []) \<and> (e = Run_stopped \<longrightarrow> out \<noteq> [])
     \<and> (\<forall>k. 0 < k \<and> k \<le> length out \<longrightarrow> (stop (fed @ take k out) \<longleftrightarrow> k = length out \<and> e = Run_stopped))
     \<and> (e = Run_toobig \<longrightarrow> mx < int (length z)) \<and> (e = Run_interrupt \<longrightarrow> (\<exists>k. intr k))
     \<and> (\<forall>s. e = Run_unrecognized s \<longrightarrow> (\<exists>pre t post. lex_all z = pre @ (t, s) # post \<and> (t = TK_ILLEGAL \<or> t = TK_COMMENT \<and> \<not> c)
           \<and> length out = length (filter significant pre)))"

lemma result_nil:
  "run_result stop intr c mx z fed [] rest e \<longleftrightarrow> (e = Run_done \<longrightarrow> rest = []) \<and> e \<noteq> Run_stopped
     \<and> (e = Run_toobig \<longrightarrow> mx < int (length z)) \<and> (e = Run_interrupt \<longrightarrow> (\<exists>k. intr k))
     \<and> (\<forall>s. e = Run_unrecognized s \<longrightarrow> (\<exists>pre t post. lex_all z = pre @ (t, s) # post \<and> (t = TK_ILLEGAL \<or> t = TK_COMMENT \<and> \<not> c)
           \<and> filter significant pre = []))"
  by (auto simp: run_result_def)

lemma result_unrecognized:
  assumes "run_result stop intr c mx z fed out rest (Run_unrecognized s)"
  obtains pre t post where "lex_all z = pre @ (t, s) # post" "t = TK_ILLEGAL \<or> t = TK_COMMENT \<and> \<not> c"
    "length out = length (filter significant pre)"
  using assms by (simp add: run_result_def) blast

lemma round_length: "run_round a c z mx l = Skip n \<or> run_round a c z mx l = Give t n \<Longrightarrow> n \<le> length z"
  using fits_GetToken [of z] GetToken_end [of z]
  by (cases "zat z 0 = 0") (auto simp: run_round_def fits_def split: prod.splits if_splits)

lemma result_skip:
  assumes "run_result stop intr c (mx - int n) (drop n z) fed out rest e" "n \<le> length z"
    "lex_all z = (t, take n z) # lex_all (drop n z)" "\<not> significant (t, take n z)"
  shows "run_result stop intr c mx z fed out rest e"
proof -
  have "\<exists>pre' t' post'. lex_all z = pre' @ (t', s) # post' \<and> (t' = TK_ILLEGAL \<or> t' = TK_COMMENT \<and> \<not> c)
      \<and> length out = length (filter significant pre')" if u: "e = Run_unrecognized s" for s
  proof -
    obtain pre t' post where "lex_all (drop n z) = pre @ (t', s) # post" "t' = TK_ILLEGAL \<or> t' = TK_COMMENT \<and> \<not> c"
      "length out = length (filter significant pre)" by (rule result_unrecognized [OF assms(1) [unfolded u]])
    then show ?thesis
      using assms(3,4) by (intro exI [of _ "(t, take n z) # pre"] exI [of _ t'] exI [of _ post]) simp
  qed
  then show ?thesis using assms(1,2) by (auto simp: run_result_def)
qed

lemma result_give:
  assumes "run_result stop intr c (mx - int n) (drop n z) (fed @ [x]) out rest e" "n \<le> length z" "\<not> stop (fed @ [x])"
    "z \<noteq> [] \<Longrightarrow> \<exists>t0. lex_all z = (t0, take n z) # lex_all (drop n z) \<and> significant (t0, take n z)"
  shows "run_result stop intr c mx z fed (x # out) rest e"
proof -
  have "\<exists>pre' t' post'. lex_all z = pre' @ (t', s) # post' \<and> (t' = TK_ILLEGAL \<or> t' = TK_COMMENT \<and> \<not> c)
      \<and> length (x # out) = length (filter significant pre')" if u: "e = Run_unrecognized s" for s
  proof -
    obtain pre t' post where p: "lex_all (drop n z) = pre @ (t', s) # post" "t' = TK_ILLEGAL \<or> t' = TK_COMMENT \<and> \<not> c"
      "length out = length (filter significant pre)" by (rule result_unrecognized [OF assms(1) [unfolded u]])
    then have "z \<noteq> []" by auto
    then obtain t0 where "lex_all z = (t0, take n z) # lex_all (drop n z)" "significant (t0, take n z)" using assms(4) by blast
    then show ?thesis
      using p by (intro exI [of _ "(t0, take n z) # pre"] exI [of _ t'] exI [of _ post]) simp
  qed
  moreover have "stop (fed @ take k (x # out)) \<longleftrightarrow> k = length (x # out) \<and> e = Run_stopped" if k: "0 < k" "k \<le> length (x # out)" for k
  proof -
    obtain j where j: "k = Suc j" using k(1) by (cases k) auto
    then have "0 < j \<Longrightarrow> stop ((fed @ [x]) @ take j out) \<longleftrightarrow> j = length out \<and> e = Run_stopped" and "e = Run_stopped \<Longrightarrow> out \<noteq> []"
      using assms(1) k(2) by (auto simp: run_result_def)
    then show ?thesis using j assms(3) by (cases "j = 0") auto
  qed
  ultimately show ?thesis using assms(1,2) unfolding run_result_def by auto
qed

lemma run_loop_result:
  assumes "run_loop stop intr c k z mx l fed = (fed', e)" "zstring z" "l = 0 \<Longrightarrow> z = []"
  shows "\<exists>out rest. fed' = fed @ out \<and> left_to_give l z = out @ rest \<and> run_result stop intr c mx z fed out rest e"
  using assms
proof (induction stop intr c k z mx l fed arbitrary: fed' rule: run_loop.induct)
  case (1 stop intr c k z mx l fed)
  note run = 1(3) [unfolded run_loop.simps [of stop intr c k z mx l fed]]
  note zs = 1(4) and l0 = 1(5)
  show ?case
  proof (cases "run_round (intr k) c z mx l")
    case (Skip n)
    from round_skip [OF Skip zs] obtain t where t: "lex_all z = (t, take n z) # lex_all (drop n z)" "\<not> significant (t, take n z)"
      "left_to_give l z = left_to_give l (drop n z)" .
    have n: "n \<le> length z" using round_length Skip by blast
    have "run_loop stop intr c (k + 1) (drop n z) (mx - int n) l fed = (fed', e)" using run Skip by simp
    from 1(1) [OF Skip this zstring_drop [OF zs]] l0 obtain out rest where
      "fed' = fed @ out" "left_to_give l (drop n z) = out @ rest" "run_result stop intr c (mx - int n) (drop n z) fed out rest e" by auto
    then show ?thesis using result_skip [OF _ n t(1,2)] t(3) by auto
  next
    case (Give t n)
    have g: "left_to_give l z = (t, take n z) # left_to_give (int t) (drop n z)" "int t = 0 \<Longrightarrow> drop n z = []"
      "z \<noteq> [] \<Longrightarrow> \<exists>t0. lex_all z = (t0, take n z) # lex_all (drop n z) \<and> significant (t0, take n z)"
      using round_give [OF Give zs] l0 by blast+
    have n: "n \<le> length z" using round_length Give by blast
    let ?x = "(t, take n z)"
    show ?thesis
    proof (cases "stop (fed @ [?x])")
      case True
      then have "fed' = fed @ [?x]" "e = Run_stopped" using run Give by simp_all
      then show ?thesis using True g(1) by (intro exI [of _ "[?x]"] exI [of _ "left_to_give (int t) (drop n z)"])
          (auto simp: run_result_def take_Cons')
    next
      case False
      then have "run_loop stop intr c (k + 1) (drop n z) (mx - int n) (int t) (fed @ [?x]) = (fed', e)" using run Give by simp
      from 1(2) [OF Give False this zstring_drop [OF zs] g(2)] obtain out rest where
        "fed' = (fed @ [?x]) @ out" "left_to_give (int t) (drop n z) = out @ rest"
        "run_result stop intr c (mx - int n) (drop n z) (fed @ [?x]) out rest e" by blast
      moreover from this(3) have "run_result stop intr c mx z fed (?x # out) rest e"
        by (rule result_give [where x = ?x and n = n]) (use n False g(3) in simp_all)
      ultimately show ?thesis using g(1) by (intro exI [of _ "?x # out"] exI [of _ rest]) simp
    qed
  next
    case (Leave e')
    then have e: "fed' = fed" "e = e'" using run by simp_all
    obtain n t where tok: "sqlite3GetToken z = (n, t)" by (cases "sqlite3GetToken z")
    have n: "n \<le> length z"
      using fits_GetToken [of z] GetToken_end [of z] tok by (cases "zat z 0 = 0") (auto simp: fits_def)
    have "run_result stop intr c mx z fed [] (left_to_give l z) e'"
    proof (cases "z = []")
      case True
      then show ?thesis using Leave tok n
        by (auto simp: result_nil run_round_def GetToken_end left_to_give_def split: if_splits)
    next
      case False
      then have z0: "zat z 0 \<noteq> 0" using zs by (simp add: zat_0)
      have tt: "token_type t" using typed_GetToken [of z] tok by (simp add: typed_def)
      have "\<exists>pre t post. lex_all z = pre @ (t, s) # post \<and> (t = TK_ILLEGAL \<or> t = TK_COMMENT \<and> \<not> c) \<and> filter significant pre = []"
        if "e' = Run_unrecognized s" for s
        using Leave tok z0 that tt lex_cons [OF tok z0]
        by (intro exI [of _ "[]"] exI [of _ t] exI [of _ "lex_all (drop n z)"]) (auto simp: run_round_def token_type_def split: if_splits)
      then show ?thesis
        using Leave tok z0 n by (auto simp: result_nil run_round_def split: if_splits)
    qed
    then show ?thesis using e by (intro exI [of _ "[]"] exI [of _ "left_to_give l z"]) simp
  qed
qed

lemma run_parser_result:
  assumes "sqlite3RunParser stop intr c limit z = (fed, e)" "zstring z"
  shows "\<exists>rest. parser_input z = fed @ rest \<and> run_result stop intr c limit z [] fed rest e"
  using run_loop_result [of stop intr c 0 z limit "- 1" "[]" fed e] assms by (auto simp: sqlite3RunParser_def left_to_give_start)

text \<open>The text \<^verbatim>\<open>)OVEr(;1\<close> and a parser that stops at the first semicolon, for the witnesses.\<close>

definition example_sql :: bytes where
  "example_sql = [0x29, 0x4F, 0x56, 0x45, 0x72, 0x28, 0x3B, 0x31]"

definition first_statement :: "(nat \<times> bytes) list \<Rightarrow> bool" where
  "first_statement fed \<longleftrightarrow> fst (last fed) = TK_SEMI"

lemma example_input: "parser_input example_sql =
  [(TK_RP, [0x29]), (TK_OVER, [0x4F, 0x56, 0x45, 0x72]), (TK_LP, [0x28]), (TK_SEMI, [0x3B]),
   (TK_INTEGER, [0x31]), (TK_SEMI, []), (0, [])]"
  by code_simp

section \<open>Properties\<close>

text \<open>
  C26. The parser is given the statement: with any parser, and however the loop of \<^verbatim>\<open>sqlite3RunParser\<close> ends,
  the tokens that it gave, types and texts, are the first ones of \<^const>\<open>parser_input\<close>: in order, the tokens of the text other than
  white space and comments, WINDOW, OVER and FILTER with the types that they have in their context, then a
  semicolon unless the last token was one, and the end token 0. All of them were given when the loop ends by
  itself; the parser is given nothing after it has stopped, as the parser of SQLite does after the first
  statement. The loop gives up before the end only at the limit of the length, at an interrupt, or
  at the first token that is illegal or a comment while comments are disabled.
\<close>

theorem parser_given_all_tokens:
  assumes "sqlite3RunParser stop intr c limit z = (fed, e)" "zstring z"
  shows "concat (map snd (lex_all z)) = z
    \<and> (\<exists>rest. parser_input z = fed @ rest \<and> (e = Run_done \<longrightarrow> rest = []))
    \<and> (\<forall>k. 0 < k \<and> k \<le> length fed \<longrightarrow> (stop (take k fed) \<longleftrightarrow> k = length fed \<and> e = Run_stopped))
    \<and> (e = Run_stopped \<longrightarrow> fed \<noteq> []) \<and> (e = Run_toobig \<longrightarrow> limit < int (length z)) \<and> (e = Run_interrupt \<longrightarrow> (\<exists>k. intr k))
    \<and> (\<forall>s. e = Run_unrecognized s \<longrightarrow> (\<exists>pre t post. lex_all z = pre @ (t, s) # post
          \<and> (t = TK_ILLEGAL \<or> t = TK_COMMENT \<and> \<not> c) \<and> length fed = length (filter significant pre)))"
proof -
  obtain rest where r: "parser_input z = fed @ rest" "run_result stop intr c limit z [] fed rest e"
    using run_parser_result [OF assms] by blast
  show ?thesis using r(1) r(2) [unfolded run_result_def append_Nil] lex_all_concat [OF assms(2)] by blast
qed

theorem parser_given_all_tokens_witness:
  "sqlite3RunParser first_statement (\<lambda>_. False) True 10 example_sql
      = ([(TK_RP, [0x29]), (TK_OVER, [0x4F, 0x56, 0x45, 0x72]), (TK_LP, [0x28]), (TK_SEMI, [0x3B])], Run_stopped)
   \<and> (\<exists>rest. parser_input example_sql
        = [(TK_RP, [0x29]), (TK_OVER, [0x4F, 0x56, 0x45, 0x72]), (TK_LP, [0x28]), (TK_SEMI, [0x3B])] @ rest)"
proof -
  have run: "sqlite3RunParser first_statement (\<lambda>_. False) True 10 example_sql
      = ([(TK_RP, [0x29]), (TK_OVER, [0x4F, 0x56, 0x45, 0x72]), (TK_LP, [0x28]), (TK_SEMI, [0x3B])], Run_stopped)"
    by code_simp
  have "zstring example_sql" by (simp add: example_sql_def)
  then show ?thesis using run parser_given_all_tokens [OF run] by blast
qed

text \<open>
  C28. A text within the limit of the length and without illegal tokens, with comments enabled and no
  interrupt, is given to the parser up to where the parser stops first, and if it does not stop up to the
  end token: the loop ends in both cases, with every parser.
\<close>

theorem parser_reaches_end:
  assumes "\<forall>k. \<not> intr k" "int (length z) \<le> limit" "zstring z" "\<forall>x\<in>set (lex_all z). fst x \<noteq> TK_ILLEGAL"
  shows "(\<forall>n. 0 < n \<and> n \<le> length (parser_input z) \<and> stop (take n (parser_input z))
        \<and> (\<forall>m. 0 < m \<and> m < n \<longrightarrow> \<not> stop (take m (parser_input z)))
        \<longrightarrow> sqlite3RunParser stop intr True limit z = (take n (parser_input z), Run_stopped))
    \<and> ((\<forall>n. 0 < n \<and> n \<le> length (parser_input z) \<longrightarrow> \<not> stop (take n (parser_input z)))
        \<longrightarrow> sqlite3RunParser stop intr True limit z = (parser_input z, Run_done))"
proof -
  obtain fed e where run: "sqlite3RunParser stop intr True limit z = (fed, e)" by (cases "sqlite3RunParser stop intr True limit z")
  obtain rest where r: "parser_input z = fed @ rest" "run_result stop intr True limit z [] fed rest e"
    using run_parser_result [OF run assms(3)] by blast
  have "e \<noteq> Run_unrecognized s" for s
  proof
    assume "e = Run_unrecognized s"
    then obtain pre post where "lex_all z = pre @ (TK_ILLEGAL, s) # post" using result_unrecognized r(2) by blast
    then show False using assms(4) by simp
  qed
  then have e: "e = Run_done \<or> e = Run_stopped" using r(2) assms(1,2) by (cases e) (auto simp: run_result_def)
  have st: "stop (take k (parser_input z)) \<longleftrightarrow> k = length fed \<and> e = Run_stopped" if "0 < k" "k \<le> length fed" for k
    using r that by (simp add: run_result_def)
  show ?thesis
  proof (cases "e = Run_stopped")
    case True
    then have "fed \<noteq> []" using r(2) by (simp add: run_result_def)
    then have f: "stop (take (length fed) (parser_input z))" "0 < length fed" "length fed \<le> length (parser_input z)"
      using st [of "length fed"] True r(1) by simp_all
    have uniq: "n = length fed" if "0 < n" "stop (take n (parser_input z))" "\<forall>m. 0 < m \<and> m < n \<longrightarrow> \<not> stop (take m (parser_input z))" for n
      using that f st [of n] by (cases "n \<le> length fed") auto
    have T: "take (length fed) (parser_input z) = fed" using r(1) by simp
    show ?thesis
    proof (intro conjI allI impI)
      fix n
      assume "0 < n \<and> n \<le> length (parser_input z) \<and> stop (take n (parser_input z))
        \<and> (\<forall>m. 0 < m \<and> m < n \<longrightarrow> \<not> stop (take m (parser_input z)))"
      then have "n = length fed" using uniq by blast
      then show "sqlite3RunParser stop intr True limit z = (take n (parser_input z), Run_stopped)" using run T True by simp
    next
      assume "\<forall>n. 0 < n \<and> n \<le> length (parser_input z) \<longrightarrow> \<not> stop (take n (parser_input z))"
      then show "sqlite3RunParser stop intr True limit z = (parser_input z, Run_done)" using f by blast
    qed
  next
    case False
    then have "fed = parser_input z" "e = Run_done" using e r by (simp_all add: run_result_def)
    then show ?thesis using run st False by auto
  qed
qed

theorem parser_reaches_end_witness:
  "sqlite3RunParser first_statement (\<lambda>_. False) True 10 example_sql = (take 4 (parser_input example_sql), Run_stopped)
   \<and> sqlite3RunParser (\<lambda>_. False) (\<lambda>_. False) True 10 example_sql = (parser_input example_sql, Run_done)"
proof -
  have z: "\<forall>k. \<not> (\<lambda>_::nat. False) k" "int (length example_sql) \<le> 10" "zstring example_sql"
    by (simp_all add: example_sql_def)
  have legal: "\<forall>x\<in>set (lex_all example_sql). fst x \<noteq> TK_ILLEGAL" by code_simp
  have "\<not> first_statement (take m (parser_input example_sql))" if "0 < m" "m < 4" for m
  proof -
    have "m = 1 \<or> m = 2 \<or> m = 3" using that by auto
    then show ?thesis by (auto simp: first_statement_def example_input)
  qed
  moreover have "first_statement (take 4 (parser_input example_sql))" "4 \<le> length (parser_input example_sql)"
    by (simp_all add: first_statement_def example_input)
  ultimately show ?thesis
    using parser_reaches_end [OF z legal, of first_statement] parser_reaches_end [OF z legal, of "\<lambda>_. False"] by simp
qed

end
