(* ===== verification/CompleteM.thy ===== *)
theory CompleteM
  imports TokenM
begin

text \<open>
  \<^verbatim>\<open>sqlite3_complete\<close> (\<^verbatim>\<open>complete.c\<close>): whether a text ends in a complete SQL statement, decided by a state
  machine over a coarse tokenization that knows comments, quotes and the few words that matter for
  \<^verbatim>\<open>CREATE TRIGGER\<close>.
\<close>

section \<open>Definitions\<close>

abbreviation (input) tkSEMI :: nat where "tkSEMI \<equiv> 0"
abbreviation (input) tkWS :: nat where "tkWS \<equiv> 1"
abbreviation (input) tkOTHER :: nat where "tkOTHER \<equiv> 2"
abbreviation (input) tkEXPLAIN :: nat where "tkEXPLAIN \<equiv> 3"
abbreviation (input) tkCREATE :: nat where "tkCREATE \<equiv> 4"
abbreviation (input) tkTEMP :: nat where "tkTEMP \<equiv> 5"
abbreviation (input) tkTRIGGER :: nat where "tkTRIGGER \<equiv> 6"
abbreviation (input) tkEND :: nat where "tkEND \<equiv> 7"

definition complete_trans :: "nat list list" where
  "complete_trans = [
     [1, 0, 2, 3, 4, 2, 2, 2],
     [1, 1, 2, 3, 4, 2, 2, 2],
     [1, 2, 2, 2, 2, 2, 2, 2],
     [1, 3, 3, 2, 4, 2, 2, 2],
     [1, 4, 2, 2, 2, 4, 5, 2],
     [6, 5, 5, 5, 5, 5, 5, 5],
     [6, 6, 5, 5, 5, 5, 5, 7],
     [1, 7, 5, 5, 5, 5, 5, 5]]"

text \<open>The word at the start of \<open>z\<close>, \<open>nId\<close> bytes long.\<close>

definition word_is :: "bytes \<Rightarrow> nat \<Rightarrow> string \<Rightarrow> bool" where
  "word_is z nId w \<longleftrightarrow> nId = length w \<and> sqlite3_strnicmp (Some z) (Some (map of_char w)) (int (length w)) = 0"

definition complete_word :: "bytes \<Rightarrow> nat \<Rightarrow> nat" where
  "complete_word z nId =
     (let c = zat z 0
      in if c = 0x63 \<or> c = 0x43 then (if word_is z nId ''create'' then tkCREATE else tkOTHER)
         else if c = 0x74 \<or> c = 0x54 then
           (if word_is z nId ''trigger'' then tkTRIGGER
            else if word_is z nId ''temp'' then tkTEMP
            else if word_is z nId ''temporary'' then tkTEMP
            else tkOTHER)
         else if c = 0x65 \<or> c = 0x45 then
           (if word_is z nId ''end'' then tkEND else if word_is z nId ''explain'' then tkEXPLAIN else tkOTHER)
         else tkOTHER)"

text \<open>The end of a C comment: the index of its final \<^verbatim>\<open>*\<close>, or of the terminator.\<close>

fun comment_end :: "bytes \<Rightarrow> nat \<Rightarrow> nat" where
  "comment_end [] i = i"
| "comment_end (c # z) i = (if c \<noteq> 0 \<and> (c \<noteq> 0x2A \<or> zat z 0 \<noteq> 0x2F) then comment_end z (i + 1) else i)"

text \<open>
  The token at the start of a non-empty text and the bytes it takes, \<open>C_return\<close> for the \<^verbatim>\<open>return 0\<close> in an
  unterminated comment or quote, and \<open>C_state\<close> for the \<^verbatim>\<open>return state==1\<close> in a final line comment.
\<close>

datatype complete_step = C_token nat nat | C_return | C_state

definition complete_token :: "bytes \<Rightarrow> complete_step" where
  "complete_token z =
     (let c = zat z 0
      in if c = 0x3B then C_token tkSEMI 1
         else if c = 0x20 \<or> c = 0x0D \<or> c = 0x09 \<or> c = 0x0A \<or> c = 0x0C then C_token tkWS 1
         else if c = 0x2F then
           (if zat z 1 \<noteq> 0x2A then C_token tkOTHER 1
            else (let i = comment_end (drop 2 z) 2 in if zat z i = 0 then C_return else C_token tkWS (i + 2)))
         else if c = 0x2D then
           (if zat z 1 \<noteq> 0x2D then C_token tkOTHER 1
            else (let i = scan (\<lambda>c. c \<noteq> 0 \<and> c \<noteq> 0x0A) z 0 in if zat z i = 0 then C_state else C_token tkWS (i + 1)))
         else if c = 0x5B then
           (let i = scan (\<lambda>c. c \<noteq> 0 \<and> c \<noteq> 0x5D) z 1 in if zat z i = 0 then C_return else C_token tkOTHER (i + 1))
         else if c = 0x60 \<or> c = 0x22 \<or> c = 0x27 then
           (let i = scan (\<lambda>d. d \<noteq> 0 \<and> d \<noteq> c) z 1 in if zat z i = 0 then C_return else C_token tkOTHER (i + 1))
         else if IdChar c then (let nId = scan IdChar z 1 in C_token (complete_word z nId) nId)
         else C_token tkOTHER 1)"

lemma complete_token_pos: "complete_token z = C_token t n \<Longrightarrow> 1 \<le> n"
  using scan_ge [of 1 IdChar z] by (auto simp: complete_token_def Let_def split: if_splits)

function complete_loop :: "nat \<Rightarrow> bytes \<Rightarrow> bool" where
  "complete_loop state z =
     (if zat z 0 = 0 then state = 1
      else (case complete_token z of
              C_return \<Rightarrow> False
            | C_state \<Rightarrow> state = 1
            | C_token t n \<Rightarrow> complete_loop (complete_trans ! state ! t) (drop n z)))"
  by pat_completeness auto
termination
proof (relation "measure (\<lambda>(s, z). length z)", goal_cases)
  case (2 s z t n)
  then show ?case
    using complete_token_pos [of z t n] zat_nonzero [of z 0] by simp
qed simp

declare complete_loop.simps [simp del]

definition sqlite3_complete :: "bytes \<Rightarrow> bool" where
  "sqlite3_complete zSql = complete_loop 0 zSql"

section \<open>The text is not left\<close>

lemma strnicmp_append: "strnicmp_loop (z @ 0 # r) b n = strnicmp_loop z b n"
proof (induction z b n rule: strnicmp_loop.induct)
  case (2 a b n)
  then show ?case
    by (cases a) auto
qed simp

lemma word_is_append: "word_is (z @ 0 # r) n w = word_is z n w"
  by (simp add: word_is_def sqlite3_strnicmp_def strnicmp_append)

lemma complete_word_append: "complete_word (z @ 0 # r) n = complete_word z n"
  by (simp only: complete_word_def word_is_append zat_append [OF le0])

lemma comment_end_append: "comment_end (z @ 0 # r) i = comment_end z i"
proof (induction z i rule: comment_end.induct)
  case (2 c z i)
  then show ?case
    by (cases z) auto
qed simp

lemma comment_end_bounds: "i \<le> comment_end z i \<and> comment_end z i \<le> i + length z"
  by (induction z i rule: comment_end.induct) auto


lemma comment_end_stop:
  "zat z (comment_end z i - i) \<noteq> 0 \<Longrightarrow> zat z (comment_end z i - i) = 0x2A \<and> zat z (comment_end z i - i + 1) = 0x2F"
proof (induction z i rule: comment_end.induct)
  case (2 c z i)
  show ?case
  proof (cases "c \<noteq> 0 \<and> (c \<noteq> 0x2A \<or> zat z 0 \<noteq> 0x2F)")
    case True
    have "i + 1 \<le> comment_end z (i + 1)"
      using comment_end_bounds [of "i + 1" z] by blast
    then have "comment_end z (i + 1) - i = Suc (comment_end z (i + 1) - (i + 1))"
      by simp
    then show ?thesis
      using True 2 by simp
  next
    case False
    then show ?thesis
      using 2(2) by (auto split: if_splits)
  qed
qed simp

lemma comment_token_bounds:
  assumes "zat z 1 = 0x2A" "zat z (comment_end (drop 2 z) 2) \<noteq> 0"
  shows "comment_end (drop 2 z) 2 + 2 \<le> length z"
proof -
  have two: "2 \<le> length z"
    using zat_nonzero [of z 1] assms(1) by simp
  have d: "zat (drop 2 z) k = zat z (2 + k)" for k
    by (auto simp: zat_def)
  define e where "e = comment_end (drop 2 z) 2"
  have e: "2 \<le> e"
    using comment_end_bounds [of 2 "drop 2 z"] by (simp add: e_def)
  then have e2: "2 + (e - 2) = e"
    by simp
  have "zat (drop 2 z) (e - 2) \<noteq> 0"
    using assms(2) d [of "e - 2"] unfolding e2 e_def [symmetric] by simp
  then have "zat (drop 2 z) (e - 2 + 1) = 0x2F"
    using comment_end_stop [of "drop 2 z" 2] by (simp add: e_def)
  moreover have "2 + (e - 2 + 1) = e + 1"
    using e by simp
  ultimately have "zat z (e + 1) = 0x2F"
    using d [of "e - 2 + 1"] by metis
  then have "zat z (e + 1) \<noteq> 0"
    by simp
  then show ?thesis
    using zat_nonzero [of z "e + 1"] by (simp add: e_def)
qed

lemma complete_token_bounds:
  assumes "zat z 0 \<noteq> 0" "complete_token z = C_token t n"
  shows "n \<le> length z"
proof -
  have len: "1 \<le> length z"
    using zat_nonzero [OF assms(1)] by (simp add: Suc_le_eq)
  have s: "zat z (scan P z i) \<noteq> 0 \<Longrightarrow> scan P z i + 1 \<le> length z" for P i
    using zat_nonzero [of z "scan P z i"] by simp
  show ?thesis
    using assms(2) len comment_token_bounds [of z] s scan_le [OF len, of IdChar]
    unfolding complete_token_def Let_def by (auto split: if_splits)
qed

lemma complete_token_append:
  assumes "zat z 0 \<noteq> 0"
  shows "complete_token (z @ 0 # r) = complete_token z"
proof -
  have len: "1 \<le> length z"
    using zat_nonzero [OF assms] by (simp add: Suc_le_eq)
  have e: "zat (z @ 0 # r) 0 = zat z 0" "zat (z @ 0 # r) 1 = zat z 1"
    using len by (simp_all add: zat_append)
  have c: "(let i = comment_end (drop 2 (z @ 0 # r)) 2 in if zat (z @ 0 # r) i = 0 then C_return else C_token tkWS (i + 2))
      = (let i = comment_end (drop 2 z) 2 in if zat z i = 0 then C_return else C_token tkWS (i + 2))"
    if "\<not> zat z 1 \<noteq> 0x2A"
  proof -
    have two: "2 \<le> length z"
      using zat_nonzero [of z 1] that by simp
    have "comment_end (drop 2 (z @ 0 # r)) 2 = comment_end (drop 2 z) 2"
      using two comment_end_append [of "drop 2 z" r 2] by simp
    moreover have "comment_end (drop 2 z) 2 \<le> length z"
      using comment_end_bounds [of 2 "drop 2 z", THEN conjunct2] two by simp
    ultimately show ?thesis
      by (simp add: Let_def zat_append)
  qed
  have q: "(let i = scan P (z @ 0 # r) k in if zat (z @ 0 # r) i = 0 then x else f i)
      = (let i = scan P z k in if zat z i = 0 then x else f i)" if "\<not> P 0" "k \<le> 1"
    for P k and x :: complete_step and f
    using that len scan_le [of k z P] by (simp add: scan_append zat_append)
  have w: "(let nId = scan IdChar (z @ 0 # r) 1 in C_token (complete_word (z @ 0 # r) nId) nId)
      = (let nId = scan IdChar z 1 in C_token (complete_word z nId) nId)"
    using len by (simp add: scan_append complete_word_append)
  show ?thesis
    unfolding complete_token_def Let_def [of "zat _ _"] e w by (intro refl if_same c q) auto
qed

lemma complete_loop_append: "complete_loop s (z @ 0 # r) = complete_loop s z"
proof (induction s z rule: complete_loop.induct)
  case (1 s z)
  show ?case
  proof (cases "zat z 0 = 0")
    case True
    then have "zat (z @ 0 # r) 0 = 0"
      by (simp add: zat_append)
    with True show ?thesis
      by (simp add: complete_loop.simps)
  next
    case False
    have e: "zat (z @ 0 # r) 0 = zat z 0"
      by (simp add: zat_append)
    have d: "complete_token z = C_token t n \<Longrightarrow> drop n (z @ 0 # r) = drop n z @ 0 # r" for t n
      using complete_token_bounds [OF False] by simp
    show ?thesis
      unfolding complete_loop.simps [of s "z @ 0 # r"] complete_loop.simps [of s z] e complete_token_append [OF False]
      using 1 [OF False] d by (auto split: complete_step.split)
  qed
qed


section \<open>The state machine\<close>

text \<open>The tokens of a text, \<^term>\<open>None\<close> when a comment or a quote does not end.\<close>

function complete_tokens :: "bytes \<Rightarrow> nat list option" where
  "complete_tokens z =
     (if zat z 0 = 0 then Some []
      else (case complete_token z of
              C_return \<Rightarrow> None
            | C_state \<Rightarrow> Some []
            | C_token t n \<Rightarrow> map_option ((#) t) (complete_tokens (drop n z))))"
  by pat_completeness auto
termination
proof (relation "measure length", goal_cases)
  case (2 z t n)
  then show ?case
    using complete_token_pos [of z t n] zat_nonzero [of z 0] by simp
qed simp

declare complete_tokens.simps [simp del]

definition next_state :: "nat \<Rightarrow> nat \<Rightarrow> nat" where
  "next_state s t = complete_trans ! s ! t"

definition sig :: "nat list \<Rightarrow> nat list" where
  "sig ts = filter (\<lambda>t. t \<noteq> tkWS) ts"

lemma complete_word_less: "complete_word z n < 8"
  by (simp add: complete_word_def Let_def)

lemma complete_token_less: "complete_token z = C_token t n \<Longrightarrow> t < 8"
  using complete_word_less [of z] by (auto simp: complete_token_def Let_def split: if_splits)

lemma complete_tokens_less: "complete_tokens z = Some ts \<Longrightarrow> \<forall>t\<in>set ts. t < 8"
proof (induction z arbitrary: ts rule: complete_tokens.induct)
  case (1 z)
  show ?case
  proof (cases "zat z 0 = 0")
    case True
    then show ?thesis
      using 1(2) by (simp add: complete_tokens.simps [of z])
  next
    case False
    then show ?thesis
      using 1(1) [OF False] 1(2) complete_token_less [of z]
      by (auto simp: complete_tokens.simps [of z] split: complete_step.splits)
  qed
qed

lemma complete_loop_tokens:
  "complete_loop s z \<longleftrightarrow> (case complete_tokens z of None \<Rightarrow> False | Some ts \<Rightarrow> foldl next_state s ts = 1)"
proof (induction s z rule: complete_loop.induct)
  case (1 s z)
  show ?case
  proof (cases "zat z 0 = 0")
    case True
    then show ?thesis
      by (simp add: complete_tokens.simps [of z] complete_loop.simps [of s z])
  next
    case False
    then show ?thesis
      using 1 [OF False]
      by (auto simp: complete_tokens.simps [of z] complete_loop.simps [of s z] next_state_def
          split: complete_step.split option.split)
  qed
qed

lemma less_8_cases: "t < (8 :: nat) \<Longrightarrow> t = 0 \<or> t = 1 \<or> t = 2 \<or> t = 3 \<or> t = 4 \<or> t = 5 \<or> t = 6 \<or> t = 7"
  by auto

lemma next_state_less: "s < 8 \<Longrightarrow> t < 8 \<Longrightarrow> next_state s t < 8"
  unfolding next_state_def complete_trans_def by (drule less_8_cases, drule less_8_cases, elim disjE) simp_all

text \<open>State 1 is reached by a semicolon only, and without TRIGGER by every semicolon.\<close>

lemma next_state_1: "s < 8 \<Longrightarrow> t < 8 \<Longrightarrow> next_state s t = 1 \<longleftrightarrow> (t = tkSEMI \<and> s \<noteq> 5 \<and> s \<noteq> 6) \<or> (t = tkWS \<and> s = 1)"
  unfolding next_state_def complete_trans_def by (drule less_8_cases, drule less_8_cases, elim disjE) simp_all

lemma next_state_no_trigger: "s < 5 \<Longrightarrow> t < 8 \<Longrightarrow> t \<noteq> tkTRIGGER \<Longrightarrow> next_state s t < 5"
proof -
  assume "s < 5" "t < 8" "t \<noteq> tkTRIGGER"
  then have "s = 0 \<or> s = 1 \<or> s = 2 \<or> s = 3 \<or> s = 4" "t = 0 \<or> t = 1 \<or> t = 2 \<or> t = 3 \<or> t = 4 \<or> t = 5 \<or> t = 7"
    by auto
  then show ?thesis
    unfolding next_state_def complete_trans_def by (elim disjE) simp_all
qed

lemma run_less: "\<forall>t\<in>set ts. t < 8 \<Longrightarrow> s < 8 \<Longrightarrow> foldl next_state s ts < 8"
  by (induction ts arbitrary: s) (simp_all add: next_state_less)

lemma run_no_trigger: "\<forall>t\<in>set ts. t < 8 \<Longrightarrow> tkTRIGGER \<notin> set ts \<Longrightarrow> s < 5 \<Longrightarrow> foldl next_state s ts < 5"
  by (induction ts arbitrary: s) (simp_all add: next_state_no_trigger)

lemma run_1_semi:
  "\<forall>t\<in>set ts. t < 8 \<Longrightarrow> foldl next_state 0 ts = 1 \<Longrightarrow> sig ts \<noteq> [] \<and> last (sig ts) = tkSEMI"
proof (induction ts rule: rev_induct)
  case (snoc t ts)
  have "foldl next_state 0 ts < 8" "t < 8"
    using snoc.prems(1) by (auto intro: run_less)
  with snoc show ?case
    using next_state_1 [of "foldl next_state 0 ts" t] by (auto simp: sig_def)
qed simp

lemma run_semi_1:
  "\<forall>t\<in>set ts. t < 8 \<Longrightarrow> tkTRIGGER \<notin> set ts \<Longrightarrow> sig ts \<noteq> [] \<Longrightarrow> last (sig ts) = tkSEMI \<Longrightarrow> foldl next_state 0 ts = 1"
proof (induction ts rule: rev_induct)
  case (snoc t ts)
  have "foldl next_state 0 ts < 5" "t < 8"
    using snoc.prems(1,2) by (auto intro: run_no_trigger)
  with snoc show ?case
    using next_state_1 [of "foldl next_state 0 ts" t] by (cases "t = tkWS") (auto simp: sig_def)
qed (simp add: sig_def)

text \<open>What has been seen of the end of a trigger in the states 5 to 7.\<close>

definition seen :: "nat \<Rightarrow> nat list" where
  "seen s = (if s = 6 then [tkSEMI] else if s = 7 then [tkSEMI, tkEND] else [])"

lemma next_state_trigger:
  assumes "s \<in> {5, 6, 7}" "t < 8" "t \<noteq> tkWS"
  obtains "s = 7" "t = tkSEMI" | a where "next_state s t \<in> {5, 6, 7}" "seen s @ [t] = a @ seen (next_state s t)"
proof -
  have "s = 5 \<or> s = 6 \<or> s = 7" "t = 0 \<or> t = 2 \<or> t = 3 \<or> t = 4 \<or> t = 5 \<or> t = 6 \<or> t = 7"
    using assms by auto
  then have "(s = 7 \<and> t = tkSEMI) \<or> (next_state s t \<in> {5, 6, 7} \<and> (\<exists>a. seen s @ [t] = a @ seen (next_state s t)))"
    unfolding next_state_def complete_trans_def seen_def by (elim disjE) simp_all
  then show thesis
    using that by blast
qed

lemma run_trigger:
  assumes "\<forall>t\<in>set ts. t < 8" "s \<in> {5, 6, 7}" "foldl next_state s ts = 1"
  shows "\<exists>a b. seen s @ sig ts = a @ [tkSEMI, tkEND, tkSEMI] @ b"
  using assms
proof (induction ts arbitrary: s)
  case (Cons t ts)
  show ?case
  proof (cases "t = tkWS")
    case True
    then have "next_state s t = s"
      using Cons.prems(2) by (auto simp: next_state_def complete_trans_def)
    with True Cons show ?thesis
      by (simp add: sig_def)
  next
    case False
    have "t < 8"
      using Cons.prems(1) by simp
    from Cons.prems(2) this False show ?thesis
    proof (cases rule: next_state_trigger)
      case 1
      then show ?thesis
        by (intro exI [of _ "[]"] exI [of _ "sig ts"]) (simp add: seen_def sig_def)
    next
      case (2 a)
      then obtain a' b where "seen (next_state s t) @ sig ts = a' @ [tkSEMI, tkEND, tkSEMI] @ b"
        using Cons by (metis foldl_Cons list.set_intros(2))
      moreover have "seen s @ sig (t # ts) = (seen s @ [t]) @ sig ts"
        using False by (simp add: sig_def)
      ultimately have "seen s @ sig (t # ts) = (a @ a') @ [tkSEMI, tkEND, tkSEMI] @ b"
        using 2(2) by simp
      then show ?thesis
        by blast
    qed
  qed
qed auto


section \<open>Properties\<close>

text \<open>
  Without the word TRIGGER, a text is complete when its last token is a semicolon: comments and white space are
  ignored, and a semicolon inside quotes or comments does not count. A text with an unterminated comment or
  quote is never complete.
\<close>

theorem complete_last_semicolon:
  "sqlite3_complete z \<longleftrightarrow>
     (case complete_tokens z of
        None \<Rightarrow> False
      | Some ts \<Rightarrow> if tkTRIGGER \<in> set ts then foldl next_state 0 ts = 1 else sig ts \<noteq> [] \<and> last (sig ts) = tkSEMI)"
proof (cases "complete_tokens z")
  case (Some ts)
  have "\<forall>t\<in>set ts. t < 8"
    by (rule complete_tokens_less [OF Some])
  then show ?thesis
    using run_1_semi [of ts] run_semi_1 [of ts] Some
    by (auto simp: sqlite3_complete_def complete_loop_tokens)
qed (simp add: sqlite3_complete_def complete_loop_tokens)

text \<open>
  C29. Inside CREATE TRIGGER a semicolon is not enough: a text whose tokens start with CREATE, any number of TEMP,
  and TRIGGER, is complete only if a semicolon, END and another semicolon follow each other in the rest.
\<close>

theorem complete_trigger_end:
  assumes "sqlite3_complete z" "complete_tokens z = Some (pre @ tkTRIGGER # ts)" "sig pre = tkCREATE # replicate k tkTEMP"
  shows "\<exists>a b. sig ts = a @ [tkSEMI, tkEND, tkSEMI] @ b"
proof -
  have l: "\<forall>t\<in>set (pre @ tkTRIGGER # ts). t < 8"
    by (rule complete_tokens_less [OF assms(2)])
  have ws: "foldl next_state s us = foldl next_state s (sig us)" if "\<forall>t\<in>set us. t < 8" "s < 8" for s us
    using that
  proof (induction us arbitrary: s)
    case (Cons t us)
    have "s < 8 \<Longrightarrow> next_state s tkWS = s" for s
      unfolding next_state_def complete_trans_def by (drule less_8_cases, elim disjE) simp_all
    then show ?case
      using Cons next_state_less [of s t] by (cases "t = tkWS") (simp_all add: sig_def)
  qed (simp add: sig_def)
  have "foldl next_state 4 (replicate k tkTEMP) = 4"
    by (induction k) (simp_all add: next_state_def complete_trans_def)
  then have "foldl next_state 0 pre = 4"
    using ws [of pre 0] l assms(3) by (simp add: next_state_def complete_trans_def)
  then have "foldl next_state 5 ts = 1"
    using assms(1,2) by (simp add: sqlite3_complete_def complete_loop_tokens next_state_def complete_trans_def)
  then show ?thesis
    using run_trigger [of ts 5] l by (simp add: seen_def)
qed

lemma complete_tokens_step:
  "zat z 0 \<noteq> 0 \<Longrightarrow> complete_token z = C_token t n \<Longrightarrow> complete_tokens (drop n z) = Some ts \<Longrightarrow> complete_tokens z = Some (t # ts)"
  by (subst complete_tokens.simps) simp

lemma IdChar_letter: "97 \<le> unat c \<Longrightarrow> unat c \<le> 122 \<Longrightarrow> IdChar c"
  by (simp add: IdChar_def ctype_eq ctype_class_def)

lemma strnicmp_numeral:
  "strnicmp_loop a b (numeral k) =
     (if zat a 0 \<noteq> 0 \<and> UpperToLower (zat a 0) = UpperToLower (zat b 0)
      then strnicmp_loop (tl a) (tl b) (pred_numeral k)
      else uint (UpperToLower (zat a 0)) - uint (UpperToLower (zat b 0)))"
  by (simp add: numeral_eq_Suc)

lemmas complete_eval = strnicmp_numeral complete_token_def scan_def IdChar_letter Let_def complete_word_def word_is_def
  sqlite3_strnicmp_def UpperToLower_eq

theorem complete_trigger_end_witness:
  "sqlite3_complete [0x63, 0x72, 0x65, 0x61, 0x74, 0x65, 0x20, 0x74, 0x72, 0x69, 0x67, 0x67, 0x65, 0x72, 0x3B, 0x65, 0x6E, 0x64, 0x3B]
    \<and> (\<exists>a b. sig [tkSEMI, tkEND, tkSEMI] = a @ [tkSEMI, tkEND, tkSEMI] @ b)"
proof -
  have no: "\<not> IdChar 0x3B" "\<not> IdChar 0x20"
    by (simp_all add: IdChar_def ctype_eq ctype_class_def)
  have 1: "complete_tokens [0x3B] = Some [tkSEMI]"
    by (rule complete_tokens_step [where n = 1]) (simp_all add: complete_token_def complete_tokens.simps [of "[]"])
  have 2: "complete_tokens [0x65, 0x6E, 0x64, 0x3B] = Some [tkEND, tkSEMI]"
    by (rule complete_tokens_step [where n = 3]) (simp_all add: complete_eval no 1)
  have 3: "complete_tokens [0x3B, 0x65, 0x6E, 0x64, 0x3B] = Some [tkSEMI, tkEND, tkSEMI]"
    by (rule complete_tokens_step [where n = 1]) (simp_all add: complete_token_def 2)
  have 4: "complete_tokens [0x74, 0x72, 0x69, 0x67, 0x67, 0x65, 0x72, 0x3B, 0x65, 0x6E, 0x64, 0x3B] = Some (tkTRIGGER # [tkSEMI, tkEND, tkSEMI])"
    by (rule complete_tokens_step [where n = 7]) (simp_all add: complete_eval no 3)
  have 5: "complete_tokens [0x20, 0x74, 0x72, 0x69, 0x67, 0x67, 0x65, 0x72, 0x3B, 0x65, 0x6E, 0x64, 0x3B] = Some (tkWS # tkTRIGGER # [tkSEMI, tkEND, tkSEMI])"
    by (rule complete_tokens_step [where n = 1]) (simp_all add: complete_token_def 4)
  have t: "complete_tokens [0x63, 0x72, 0x65, 0x61, 0x74, 0x65, 0x20, 0x74, 0x72, 0x69, 0x67, 0x67, 0x65, 0x72, 0x3B, 0x65, 0x6E, 0x64, 0x3B] = Some (tkCREATE # tkWS # tkTRIGGER # [tkSEMI, tkEND, tkSEMI])"
    by (rule complete_tokens_step [where n = 6]) (simp_all add: complete_eval no 5)
  then have c: "sqlite3_complete [0x63, 0x72, 0x65, 0x61, 0x74, 0x65, 0x20, 0x74, 0x72, 0x69, 0x67, 0x67, 0x65, 0x72, 0x3B, 0x65, 0x6E, 0x64, 0x3B]"
    by (simp add: sqlite3_complete_def complete_loop_tokens next_state_def complete_trans_def)
  show ?thesis
    using c complete_trigger_end [OF c, of "[tkCREATE, tkWS]" "[tkSEMI, tkEND, tkSEMI]" 0] t by (simp add: sig_def)
qed

text \<open>
  \<^verbatim>\<open>sqlite3_complete\<close> does not look behind the terminator of its argument.
\<close>

theorem complete_stays_in_text: "sqlite3_complete (z @ 0 # r) = sqlite3_complete z"
  by (simp add: sqlite3_complete_def complete_loop_append)

end
