(* ===== verification/HashTab.thy ===== *)
theory HashTab
  imports CType "HOL-Library.Multiset"
begin

text \<open>
  The string-keyed hash table of \<^verbatim>\<open>hash.c\<close>, which holds the schema objects, functions and
  collations of a connection. All elements are on one doubly linked list, here an Isabelle list of
  elements with their addresses; a bucket is the address of its first element and a count, and
  its elements are neighbours on the list. What the allocator does is a parameter: \<open>alloc\<close> maps
  a request to the usable size it got (\<^term>\<open>None\<close> when it fails), and the new element of an
  insertion is its address or \<^term>\<open>None\<close>.
\<close>

section \<open>Definitions\<close>

record 'd HashElem =
  eaddr :: nat
  pKey :: bytes
  edata :: 'd

record ht_entry =
  bcount :: nat
  chain :: nat

record 'd Hash =
  htsize :: nat
  hcount :: nat
  first :: "'d HashElem list"
  ht :: "ht_entry list option"

definition sqlite3HashInit :: "'d Hash" where
  "sqlite3HashInit = \<lparr>htsize = 0, hcount = 0, first = [], ht = None\<rparr>"

definition sqlite3HashClear :: "'d Hash \<Rightarrow> 'd Hash" where
  "sqlite3HashClear pH = pH\<lparr>first := [], ht := None, htsize := 0, hcount := 0\<rparr>"

fun strHash_loop :: "bytes \<Rightarrow> u32 \<Rightarrow> u32" where
  "strHash_loop [] h = h"
| "strHash_loop (c # z) h =
     (if c = 0 then h else strHash_loop z ((h + ucast (UpperToLower c)) * 0x9e3779b1))"

definition strHash :: "bytes \<Rightarrow> u32" where
  "strHash z = strHash_loop z 0"

text \<open>The list from the element at address \<open>a\<close> on: what following \<open>next\<close> from it visits.\<close>

definition from_addr :: "nat \<Rightarrow> 'd HashElem list \<Rightarrow> 'd HashElem list" where
  "from_addr a es = dropWhile (\<lambda>e. eaddr e \<noteq> a) es"

definition upto_addr :: "nat \<Rightarrow> 'd HashElem list \<Rightarrow> 'd HashElem list" where
  "upto_addr a es = takeWhile (\<lambda>e. eaddr e \<noteq> a) es"

definition insertElement :: "'d Hash \<Rightarrow> nat option \<Rightarrow> 'd HashElem \<Rightarrow> 'd Hash" where
  "insertElement pH pEntry pNew =
     (case pEntry of
        None \<Rightarrow> pH\<lparr>first := pNew # first pH\<rparr>
      | Some h \<Rightarrow>
          (let b = the (ht pH) ! h;
               pHead = (if bcount b > 0 then Some (chain b) else None);
               pH = pH\<lparr>ht := Some ((the (ht pH))[h := \<lparr>bcount = bcount b + 1, chain = eaddr pNew\<rparr>])\<rparr>
           in case pHead of
                Some a \<Rightarrow> pH\<lparr>first := upto_addr a (first pH) @ pNew # from_addr a (first pH)\<rparr>
              | None \<Rightarrow> pH\<lparr>first := pNew # first pH\<rparr>))"

definition sizeof_ht :: nat where "sizeof_ht = 16"

definition SQLITE_MALLOC_SOFT_LIMIT :: nat where "SQLITE_MALLOC_SOFT_LIMIT = 1024"

definition key_bucket :: "nat \<Rightarrow> bytes \<Rightarrow> nat" where
  "key_bucket n k = unat (strHash k) mod n"

definition rehash :: "(nat \<Rightarrow> nat option) \<Rightarrow> 'd Hash \<Rightarrow> nat \<Rightarrow> bool \<times> 'd Hash" where
  "rehash alloc pH new_size =
     (let new_size = (if new_size * sizeof_ht > SQLITE_MALLOC_SOFT_LIMIT
                      then SQLITE_MALLOC_SOFT_LIMIT div sizeof_ht else new_size)
      in if new_size = htsize pH then (False, pH)
         else case alloc (new_size * sizeof_ht) of
                None \<Rightarrow> (False, pH)
              | Some sz \<Rightarrow>
                  (let new_size = sz div sizeof_ht;
                       pH' = pH\<lparr>ht := Some (replicate new_size \<lparr>bcount = 0, chain = 0\<rparr>),
                               htsize := new_size, first := []\<rparr>
                   in (True, fold (\<lambda>e p. insertElement p (Some (key_bucket new_size (pKey e))) e)
                                  (first pH) pH')))"

text \<open>
  The search loop; \<^term>\<open>None\<close> is following a null pointer, \<^term>\<open>Some None\<close> the static null
  element.
\<close>

fun find_loop :: "'d HashElem list \<Rightarrow> nat \<Rightarrow> bytes \<Rightarrow> 'd HashElem option option" where
  "find_loop es 0 k = Some None"
| "find_loop [] (Suc n) k = None"
| "find_loop (e # es) (Suc n) k =
     (if sqlite3StrICmp (pKey e) k = 0 then Some (Some e) else find_loop es n k)"

definition findElementWithHash ::
  "'d Hash \<Rightarrow> bytes \<Rightarrow> ('d HashElem option \<times> nat) option" where
  "findElementWithHash pH k =
     (case ht pH of
        Some t \<Rightarrow>
          (let h = key_bucket (htsize pH) k; b = t ! h
           in map_option (\<lambda>e. (e, h)) (find_loop (from_addr (chain b) (first pH)) (bcount b) k))
      | None \<Rightarrow> map_option (\<lambda>e. (e, 0)) (find_loop (first pH) (hcount pH) k))"

definition removeElementGivenHash :: "'d Hash \<Rightarrow> 'd HashElem \<Rightarrow> nat \<Rightarrow> 'd Hash" where
  "removeElementGivenHash pH e h =
     (let nxt = tl (from_addr (eaddr e) (first pH));
          nextaddr = (case nxt of [] \<Rightarrow> 0 | n # _ \<Rightarrow> eaddr n);
          pH = pH\<lparr>first := upto_addr (eaddr e) (first pH) @ nxt\<rparr>;
          pH = (case ht pH of
                  None \<Rightarrow> pH
                | Some t \<Rightarrow>
                    (let b = t ! h;
                         b = (if chain b = eaddr e then b\<lparr>chain := nextaddr\<rparr> else b)
                     in pH\<lparr>ht := Some (t[h := b\<lparr>bcount := bcount b - 1\<rparr>])\<rparr>));
          pH = pH\<lparr>hcount := hcount pH - 1\<rparr>
      in if hcount pH = 0 then sqlite3HashClear pH else pH)"

definition sqlite3HashFind :: "'d Hash \<Rightarrow> bytes \<Rightarrow> 'd option option" where
  "sqlite3HashFind pH k =
     map_option (\<lambda>(e, h). map_option edata e) (findElementWithHash pH k)"

text \<open>The end of \<^verbatim>\<open>sqlite3HashInsert\<close>: counting, perhaps resizing, and linking a new element.\<close>

definition hashInsert_new :: "(nat \<Rightarrow> nat option) \<Rightarrow> 'd Hash \<Rightarrow> nat \<Rightarrow> 'd HashElem \<Rightarrow> 'd Hash" where
  "hashInsert_new alloc pH h new_elem =
     (let pH = pH\<lparr>hcount := hcount pH + 1\<rparr>;
          hp = (if hcount pH \<ge> 10 \<and> hcount pH > 2 * htsize pH
                then (case rehash alloc pH (hcount pH * 2) of
                        (True, pH') \<Rightarrow> (key_bucket (htsize pH') (pKey new_elem), pH')
                      | (False, pH') \<Rightarrow> (h, pH'))
                else (h, pH))
      in insertElement (snd hp) (if ht (snd hp) = None then None else Some (fst hp)) new_elem)"

text \<open>
  \<^verbatim>\<open>sqlite3HashInsert\<close>: the returned pointer and the table. Updating an element also
  replaces its key.
\<close>

definition sqlite3HashInsert ::
  "(nat \<Rightarrow> nat option) \<Rightarrow> nat option \<Rightarrow> 'd Hash \<Rightarrow> bytes \<Rightarrow> 'd option \<Rightarrow> ('d option \<times> 'd Hash) option"
where
  "sqlite3HashInsert alloc new_addr pH k d =
     (case findElementWithHash pH k of
        None \<Rightarrow> None
      | Some (Some e, h) \<Rightarrow>
          (case d of
             None \<Rightarrow> Some (Some (edata e), removeElementGivenHash pH e h)
           | Some d' \<Rightarrow>
               Some (Some (edata e),
                     pH\<lparr>first := map (\<lambda>x. if eaddr x = eaddr e then x\<lparr>edata := d', pKey := k\<rparr> else x)
                                     (first pH)\<rparr>))
      | Some (None, h) \<Rightarrow>
          (case d of
             None \<Rightarrow> Some (None, pH)
           | Some d' \<Rightarrow>
               (case new_addr of
                  None \<Rightarrow> Some (d, pH)
                | Some a \<Rightarrow>
                    Some (None, hashInsert_new alloc pH h \<lparr>eaddr = a, pKey = k, edata = d'\<rparr>))))"

section \<open>Neighbours on the list\<close>

definition contig :: "('a \<Rightarrow> bool) \<Rightarrow> 'a list \<Rightarrow> bool" where
  "contig P xs \<longleftrightarrow> (\<exists>pre mid suf. xs = pre @ mid @ suf \<and>
     (\<forall>x\<in>set mid. P x) \<and> (\<forall>x\<in>set pre. \<not> P x) \<and> (\<forall>x\<in>set suf. \<not> P x))"

lemma contigI:
  assumes "xs = pre @ mid @ suf" "\<forall>x\<in>set mid. P x" "\<forall>x\<in>set pre. \<not> P x" "\<forall>x\<in>set suf. \<not> P x"
  shows "contig P xs"
  using assms unfolding contig_def by blast

lemma contigE:
  assumes "contig P xs"
  obtains pre mid suf where "xs = pre @ mid @ suf" "mid = filter P xs"
    "\<forall>x\<in>set mid. P x" "\<forall>x\<in>set pre. \<not> P x" "\<forall>x\<in>set suf. \<not> P x"
proof -
  obtain pre mid suf where s: "xs = pre @ mid @ suf"
    "\<forall>x\<in>set mid. P x" "\<forall>x\<in>set pre. \<not> P x" "\<forall>x\<in>set suf. \<not> P x"
    using assms unfolding contig_def by blast
  then have "mid = filter P xs"
    by simp
  with s show ?thesis
    by (intro that [of pre mid suf])
qed

lemma contig_none: "\<forall>x\<in>set xs. \<not> P x \<Longrightarrow> contig P xs"
  by (rule contigI [of _ xs "[]" "[]"]) auto

lemma contig_remove:
  assumes "contig P (a @ y # b)"
  shows "contig P (a @ b)"
proof -
  obtain pre mid suf where s: "a @ y # b = pre @ mid @ suf"
    "\<forall>x\<in>set mid. P x" "\<forall>x\<in>set pre. \<not> P x" "\<forall>x\<in>set suf. \<not> P x"
    using assms by (rule contigE)
  then consider (pre) us where "pre = a @ y # us" "b = us @ mid @ suf"
    | (mid) us vs where "a = pre @ us" "mid = us @ y # vs" "b = vs @ suf"
    | (suf) us where "a = pre @ mid @ us" "suf = us @ y # b"
    by (auto simp: append_eq_append_conv2 append_eq_Cons_conv Cons_eq_append_conv)
  then show ?thesis
  proof cases
    case pre
    then show ?thesis
      using s by (intro contigI [of _ "a @ us" mid suf]) auto
  next
    case mid
    then show ?thesis
      using s by (intro contigI [of _ pre "us @ vs" suf]) auto
  next
    case suf
    then show ?thesis
      using s by (intro contigI [of _ pre mid "us @ b"]) auto
  qed
qed

lemma contig_insert_other:
  assumes "contig P (a @ b)" "\<not> P y" "b = [] \<or> \<not> P (hd b) \<or> a = []"
  shows "contig P (a @ y # b)"
proof -
  obtain pre mid suf where s: "a @ b = pre @ mid @ suf"
    "\<forall>x\<in>set mid. P x" "\<forall>x\<in>set pre. \<not> P x" "\<forall>x\<in>set suf. \<not> P x"
    using assms(1) by (rule contigE)
  then consider (pre) us where "pre = a @ us" "b = us @ mid @ suf"
    | (mid) us vs where "a = pre @ us" "mid = us @ vs" "us \<noteq> []" "vs \<noteq> []" "b = vs @ suf"
    | (suf) us where "a = pre @ mid @ us" "suf = us @ b"
    by (fastforce simp: append_eq_append_conv2)
  then show ?thesis
  proof cases
    case pre
    then show ?thesis
      using s assms by (intro contigI [of _ "a @ y # us" mid suf]) auto
  next
    case mid
    then have "hd b \<in> set mid"
      by (cases vs) auto
    with mid assms(3) s(2) show ?thesis
      by auto
  next
    case suf
    then show ?thesis
      using s assms by (intro contigI [of _ pre mid "us @ y # b"]) auto
  qed
qed


lemma takeWhile_first: "\<forall>x\<in>set a. \<not> P x \<Longrightarrow> b \<noteq> [] \<Longrightarrow> P (hd b) \<Longrightarrow> takeWhile (\<lambda>x. \<not> P x) (a @ b) = a"
  by (cases b) (simp_all add: takeWhile_append2)

lemma first_split_unique:
  assumes "\<forall>x\<in>set a. \<not> P x" "b \<noteq> []" "P (hd b)" "\<forall>x\<in>set a'. \<not> P x" "b' \<noteq> []" "P (hd b')"
    "a @ b = a' @ b'"
  shows "a = a' \<and> b = b'"
  using takeWhile_first [of a P b] takeWhile_first [of a' P b'] assms by simp

section \<open>The invariant\<close>

abbreviation in_bucket :: "nat \<Rightarrow> nat \<Rightarrow> 'd HashElem \<Rightarrow> bool" where
  "in_bucket n h e \<equiv> key_bucket n (pKey e) = h"

definition bucket_ok :: "nat \<Rightarrow> 'd HashElem list \<Rightarrow> nat \<Rightarrow> ht_entry \<Rightarrow> bool" where
  "bucket_ok n es h b \<longleftrightarrow> contig (in_bucket n h) es
     \<and> bcount b = length (filter (in_bucket n h) es)
     \<and> (filter (in_bucket n h) es \<noteq> [] \<longrightarrow> chain b = eaddr (hd (filter (in_bucket n h) es)))"

lemma bucket_ok_contig: "bucket_ok n es h b \<Longrightarrow> contig (in_bucket n h) es"
  by (simp add: bucket_ok_def)

definition buckets_ok :: "nat \<Rightarrow> ht_entry list \<Rightarrow> 'd HashElem list \<Rightarrow> bool" where
  "buckets_ok n t es \<longleftrightarrow> 0 < n \<and> length t = n \<and> (\<forall>h<n. bucket_ok n es h (t ! h))"

definition elems_ok :: "'d HashElem list \<Rightarrow> bool" where
  "elems_ok es \<longleftrightarrow> (\<forall>e\<in>set es. zstring (pKey e)) \<and> distinct (map eaddr es)
     \<and> distinct (map (\<lambda>e. fold_case (pKey e)) es)"

definition hash_wf :: "'d Hash \<Rightarrow> bool" where
  "hash_wf pH \<longleftrightarrow> elems_ok (first pH) \<and> hcount pH = length (first pH)
     \<and> (case ht pH of None \<Rightarrow> htsize pH = 0 | Some t \<Rightarrow> buckets_ok (htsize pH) t (first pH))"

definition hash_lookup :: "'d Hash \<Rightarrow> bytes \<rightharpoonup> 'd" where
  "hash_lookup pH = map_of (map (\<lambda>e. (fold_case (pKey e), edata e)) (first pH))"

lemma elems_ok_mset: "mset es = mset es' \<Longrightarrow> elems_ok es \<Longrightarrow> elems_ok es'"
  unfolding elems_ok_def by (metis mset_eq_imp_distinct_iff mset_map set_mset_mset)

lemma hash_lookup_Some:
  "elems_ok (first pH) \<Longrightarrow>
   hash_lookup pH k = Some d \<longleftrightarrow> (\<exists>e\<in>set (first pH). fold_case (pKey e) = k \<and> edata e = d)"
  by (auto simp: hash_lookup_def elems_ok_def map_of_eq_Some_iff o_def)

lemma map_eqI: "(\<And>k d. m k = Some d \<longleftrightarrow> m' k = Some d) \<Longrightarrow> m = m'"
  by (rule ext) (metis not_Some_eq)

lemma distinct_append_map_neq: "distinct (map f (a @ e # b)) \<Longrightarrow> y \<in> set a \<Longrightarrow> f y \<noteq> f e"
  by simp (metis imageI)

lemma split_at_addr:
  assumes "distinct (map eaddr (pre @ y # suf))"
  shows "upto_addr (eaddr y) (pre @ y # suf) = pre" "from_addr (eaddr y) (pre @ y # suf) = y # suf"
proof -
  have "eaddr y \<notin> eaddr ` set pre"
    using assms by auto
  then have "\<forall>e\<in>set pre. eaddr e \<noteq> eaddr y"
    by (metis imageI)
  then show "upto_addr (eaddr y) (pre @ y # suf) = pre" "from_addr (eaddr y) (pre @ y # suf) = y # suf"
    by (auto simp: upto_addr_def from_addr_def takeWhile_append2 dropWhile_append2)
qed

lemma key_bucket_less: "0 < n \<Longrightarrow> key_bucket n k < n"
  by (simp add: key_bucket_def)

lemma strHash_loop_fold_case:
  "zstring a \<Longrightarrow> zstring b \<Longrightarrow> fold_case a = fold_case b \<Longrightarrow> strHash_loop a h = strHash_loop b h"
proof (induction a arbitrary: b h)
  case (Cons c a)
  then show ?case
    by (cases b) auto
qed simp

lemma key_bucket_fold_case:
  "zstring a \<Longrightarrow> zstring b \<Longrightarrow> fold_case a = fold_case b \<Longrightarrow> key_bucket n a = key_bucket n b"
  by (simp add: key_bucket_def strHash_def strHash_loop_fold_case [of a b])

section \<open>Linking an element\<close>

lemma buckets_ok_insert:
  assumes ok: "buckets_ok n t es" and h: "h = key_bucket n (pKey e)"
    and sp: "es = a @ b" and at: "filter (in_bucket n h) a = []"
      "a = [] \<and> filter (in_bucket n h) es = [] \<or> (b \<noteq> [] \<and> in_bucket n h (hd b))"
  shows "buckets_ok n (t[h := \<lparr>bcount = bcount (t ! h) + 1, chain = eaddr e\<rparr>]) (a @ e # b)"
proof -
  have n: "0 < n" "length t = n" and bk: "\<And>k. k < n \<Longrightarrow> bucket_ok n es k (t ! k)"
    using ok by (auto simp: buckets_ok_def)
  have other: "bucket_ok n (a @ e # b) k (t ! k)" if "k < n" "k \<noteq> h" for k
  proof -
    have "contig (in_bucket n k) (a @ e # b)"
      using bk [OF that(1)] that(2) h sp at(2) by (intro contig_insert_other) (auto simp: bucket_ok_def)
    then show ?thesis
      using bk [OF that(1)] that(2) h sp by (auto simp: bucket_ok_def)
  qed
  have hn: "h < n"
    using h key_bucket_less n by simp
  obtain pre mid suf where c: "es = pre @ mid @ suf" "mid = filter (in_bucket n h) es"
    "\<forall>x\<in>set mid. in_bucket n h x" "\<forall>x\<in>set pre. \<not> in_bucket n h x" "\<forall>x\<in>set suf. \<not> in_bucket n h x"
    using bucket_ok_contig [OF bk [OF hn]] by (rule contigE)
  have "contig (in_bucket n h) (a @ e # b)"
  proof (cases "mid = []")
    case True
    have "\<forall>x\<in>set (a @ b). \<not> in_bucket n h x"
      using c(1,4,5) True sp by auto
    moreover have "a = []"
      using at(2) calculation hd_in_set by auto
    ultimately show ?thesis
      using h by (intro contigI [of _ "[]" "[e]" b]) auto
  next
    case False
    then have b: "b \<noteq> []" "in_bucket n h (hd b)"
      using at(2) c(2) by auto
    have "a @ b = pre @ mid @ suf"
      using sp c(1) by simp
    then have "a = pre \<and> b = mid @ suf"
      using b c(3-5) at(1) False
      by (intro first_split_unique [of a "in_bucket n h"]) (simp_all add: filter_empty_conv)
    then show ?thesis
      using c(3-5) h by (intro contigI [of _ a "e # mid" suf]) simp_all
  qed
  then have "bucket_ok n (a @ e # b) h \<lparr>bcount = bcount (t ! h) + 1, chain = eaddr e\<rparr>"
    using bk [OF hn] at(1) h sp by (auto simp: bucket_ok_def)
  then have "bucket_ok n (a @ e # b) k (t[h := \<lparr>bcount = bcount (t ! h) + 1, chain = eaddr e\<rparr>] ! k)"
    if "k < n" for k
    using other [OF that] hn n(2) by (cases "k = h") simp_all
  then show ?thesis
    using n by (simp add: buckets_ok_def)
qed

lemma insertElement_bucket:
  assumes t: "ht pH = Some t" and ok: "buckets_ok (htsize pH) t (first pH)"
    and d: "distinct (map eaddr (first pH))" and h: "h = key_bucket (htsize pH) (pKey e)"
  obtains t' a b where "first pH = a @ b" "buckets_ok (htsize pH) t' (a @ e # b)"
    "insertElement pH (Some h) e = pH\<lparr>ht := Some t', first := a @ e # b\<rparr>"
proof -
  let ?n = "htsize pH" and ?t' = "t[h := \<lparr>bcount = bcount (t ! h) + 1, chain = eaddr e\<rparr>]"
  have hn: "h < ?n"
    using ok h key_bucket_less by (auto simp: buckets_ok_def)
  have bk: "bucket_ok ?n (first pH) h (t ! h)"
    using ok hn by (auto simp: buckets_ok_def)
  show ?thesis
  proof (cases "bcount (t ! h) > 0")
    case False
    then have "filter (in_bucket ?n h) (first pH) = []"
      using bk by (auto simp: bucket_ok_def)
    then have "buckets_ok ?n ?t' ([] @ e # first pH)"
      using ok h by (intro buckets_ok_insert [of _ _ "first pH"]) auto
    then show ?thesis
      using False t by (intro that [of "[]" "first pH" ?t']) (auto simp: insertElement_def Let_def)
  next
    case True
    obtain pre mid suf where c: "first pH = pre @ mid @ suf" "mid = filter (in_bucket ?n h) (first pH)"
      "\<forall>x\<in>set mid. in_bucket ?n h x" "\<forall>x\<in>set pre. \<not> in_bucket ?n h x"
      using bucket_ok_contig [OF bk] by (rule contigE)
    have "mid \<noteq> []" "chain (t ! h) = eaddr (hd mid)"
      using bk True c(2) by (auto simp: bucket_ok_def)
    then obtain y mid' where m: "mid = y # mid'" "chain (t ! h) = eaddr y"
      by (cases mid) auto
    have "upto_addr (eaddr y) (first pH) = pre" "from_addr (eaddr y) (first pH) = mid @ suf"
      using split_at_addr [of pre y "mid' @ suf"] d c(1) m(1) by auto
    moreover have "buckets_ok ?n ?t' (pre @ e # mid @ suf)"
      using ok h c(1,3,4) m(1) by (intro buckets_ok_insert [of _ _ "first pH"]) (simp_all add: filter_empty_conv)
    ultimately show ?thesis
      using True t m(2) c(1) by (intro that [of pre "mid @ suf" ?t']) (auto simp: insertElement_def Let_def)
  qed
qed

lemma buckets_ok_empty: "0 < n \<Longrightarrow> buckets_ok n (replicate n \<lparr>bcount = 0, chain = 0\<rparr>) []"
  by (auto simp: buckets_ok_def bucket_ok_def intro: contig_none)

lemma rehash_fold:
  assumes "ht p = Some t" "buckets_ok (htsize p) t (first p)" "distinct (map eaddr (es @ first p))"
  shows "\<exists>t' es'. fold (\<lambda>e p'. insertElement p' (Some (key_bucket (htsize p) (pKey e))) e) es p
      = p\<lparr>ht := Some t', first := es'\<rparr> \<and> buckets_ok (htsize p) t' es' \<and> mset es' = mset es + mset (first p)"
  using assms
proof (induction es arbitrary: p t)
  case Nil
  then show ?case
    by (intro exI [of _ t] exI [of _ "first p"]) simp
next
  case (Cons e es)
  have d: "distinct (map eaddr (first p))"
    using Cons.prems(3) by simp
  obtain t1 a b where s: "first p = a @ b" "buckets_ok (htsize p) t1 (a @ e # b)"
    "insertElement p (Some (key_bucket (htsize p) (pKey e))) e = p\<lparr>ht := Some t1, first := a @ e # b\<rparr>"
    using insertElement_bucket [OF Cons.prems(1,2) d refl] by blast
  have "distinct (map eaddr (es @ a @ e # b))"
    using Cons.prems(3) s(1) by auto
  from Cons.IH [of "p\<lparr>ht := Some t1, first := a @ e # b\<rparr>" t1] this s
  show ?case
    by auto
qed

lemma rehash_cases:
  assumes wf: "elems_ok (first pH)" and al: "\<And>n s. alloc n = Some s \<Longrightarrow> n \<le> s" and n: "0 < n"
  shows "rehash alloc pH n = (False, pH) \<or>
    (\<exists>t' es' n'. rehash alloc pH n = (True, pH\<lparr>htsize := n', ht := Some t', first := es'\<rparr>)
       \<and> buckets_ok n' t' es' \<and> mset es' = mset (first pH))"
proof -
  define m where "m = (if n * sizeof_ht > SQLITE_MALLOC_SOFT_LIMIT
                      then SQLITE_MALLOC_SOFT_LIMIT div sizeof_ht else n)"
  have m0: "0 < m"
    using n by (simp add: m_def sizeof_ht_def SQLITE_MALLOC_SOFT_LIMIT_def)
  show ?thesis
  proof (cases "m = htsize pH \<or> alloc (m * sizeof_ht) = None")
    case True
    then show ?thesis
      unfolding rehash_def Let_def m_def [symmetric] by auto
  next
    case False
    then obtain sz where sz: "alloc (m * sizeof_ht) = Some sz" "m \<noteq> htsize pH"
      by auto
    let ?n = "sz div sizeof_ht"
    have n0: "0 < ?n"
      using al [OF sz(1)] m0 by (simp add: sizeof_ht_def)
    let ?p = "pH\<lparr>ht := Some (replicate ?n \<lparr>bcount = 0, chain = 0\<rparr>), htsize := ?n, first := []\<rparr>"
    have "\<exists>t' es'. fold (\<lambda>e p'. insertElement p' (Some (key_bucket ?n (pKey e))) e) (first pH) ?p
        = ?p\<lparr>ht := Some t', first := es'\<rparr> \<and> buckets_ok ?n t' es' \<and> mset es' = mset (first pH)"
      using rehash_fold [of ?p _ "first pH"] buckets_ok_empty [OF n0] wf by (simp add: elems_ok_def)
    then show ?thesis
      using sz unfolding rehash_def Let_def m_def [symmetric]
      by auto
  qed
qed


section \<open>Searching\<close>

lemma find_append: "List.find P (xs @ ys) = (case List.find P xs of None \<Rightarrow> List.find P ys | Some x \<Rightarrow> Some x)"
  by (induction xs) auto

lemma find_none: "\<forall>x\<in>set xs. \<not> P x \<Longrightarrow> List.find P xs = None"
  by (simp add: find_None_iff)

lemma find_loop_find:
  "n \<le> length es \<Longrightarrow> \<forall>e\<in>set es. zstring (pKey e) \<Longrightarrow> zstring k \<Longrightarrow>
   find_loop es n k = Some (List.find (\<lambda>e. fold_case (pKey e) = fold_case k) (take n es))"
proof (induction es n k rule: find_loop.induct)
  case (3 e es n k)
  then show ?case
    by (auto simp: StrICmp_0_iff)
qed simp_all

lemma findElementWithHash_find:
  assumes wf: "hash_wf pH" and k: "zstring k"
  obtains h where "findElementWithHash pH k
      = Some (List.find (\<lambda>e. fold_case (pKey e) = fold_case k) (first pH), h)"
    "ht pH \<noteq> None \<longrightarrow> h = key_bucket (htsize pH) k"
proof (cases "ht pH")
  case None
  then show ?thesis
    using wf k that [of 0]
    by (simp add: findElementWithHash_def hash_wf_def elems_ok_def find_loop_find)
next
  case (Some t)
  let ?n = "htsize pH" and ?P = "\<lambda>e. fold_case (pKey e) = fold_case k"
  let ?h = "key_bucket ?n k"
  have ok: "buckets_ok ?n t (first pH)" and el: "elems_ok (first pH)"
    using wf Some by (simp_all add: hash_wf_def)
  then have bk: "bucket_ok ?n (first pH) ?h (t ! ?h)"
    using key_bucket_less by (auto simp: buckets_ok_def)
  obtain pre mid suf where c: "first pH = pre @ mid @ suf" "mid = filter (in_bucket ?n ?h) (first pH)"
    "\<forall>x\<in>set mid. in_bucket ?n ?h x" "\<forall>x\<in>set pre. \<not> in_bucket ?n ?h x" "\<forall>x\<in>set suf. \<not> in_bucket ?n ?h x"
    using bucket_ok_contig [OF bk] by (rule contigE)
  have z: "\<forall>e\<in>set (first pH). zstring (pKey e)"
    using el by (simp add: elems_ok_def)
  have no: "\<not> ?P e" if "e \<in> set (first pH)" "\<not> in_bucket ?n ?h e" for e
    using that z k key_bucket_fold_case by metis
  have "List.find ?P pre = None" "List.find ?P suf = None"
    using no c(1,4,5) by (auto intro!: find_none)
  then have f: "List.find ?P (first pH) = List.find ?P mid"
    unfolding c(1) by (simp add: find_append split: option.split)
  have cnt: "bcount (t ! ?h) = length mid"
    using bk c(2) by (simp add: bucket_ok_def)
  have "find_loop (from_addr (chain (t ! ?h)) (first pH)) (length mid) k = Some (List.find ?P mid)"
  proof (cases mid)
    case (Cons y mid')
    then have "chain (t ! ?h) = eaddr y"
      using bk c(2) by (auto simp: bucket_ok_def)
    then have "from_addr (chain (t ! ?h)) (first pH) = mid @ suf"
      using split_at_addr(2) [of pre y "mid' @ suf"] el c(1) Cons by (simp add: elems_ok_def)
    then show ?thesis
      using z k c(1) by (subst find_loop_find) auto
  qed simp
  then show ?thesis
    using Some cnt f that [of ?h] by (simp add: findElementWithHash_def Let_def)
qed

section \<open>Removing an element\<close>

lemma buckets_ok_remove:
  assumes ok: "buckets_ok n t (a @ e # b)" and d: "distinct (map eaddr (a @ e # b))"
    and h: "h = key_bucket n (pKey e)"
    and nx: "nx = (case b of [] \<Rightarrow> 0 | x # _ \<Rightarrow> eaddr x)"
  shows "buckets_ok n (t[h := \<lparr>bcount = bcount (t ! h) - 1,
      chain = (if chain (t ! h) = eaddr e then nx else chain (t ! h))\<rparr>]) (a @ b)"
proof -
  let ?b = "\<lparr>bcount = bcount (t ! h) - 1, chain = (if chain (t ! h) = eaddr e then nx else chain (t ! h))\<rparr>"
  have n: "0 < n" "length t = n" and bk: "\<And>k. k < n \<Longrightarrow> bucket_ok n (a @ e # b) k (t ! k)"
    using ok by (auto simp: buckets_ok_def)
  have hn: "h < n"
    using h key_bucket_less n by simp
  have ct: "contig (in_bucket n k) (a @ b)" if "k < n" for k
    using bucket_ok_contig [OF bk [OF that]] by (rule contig_remove)
  have other: "bucket_ok n (a @ b) k (t ! k)" if "k < n" "k \<noteq> h" for k
    using ct [OF that(1)] bk [OF that(1)] that(2) h by (auto simp: bucket_ok_def)
  obtain pre mid suf where c: "a @ e # b = pre @ mid @ suf"
    "\<forall>x\<in>set mid. in_bucket n h x" "\<forall>x\<in>set pre. \<not> in_bucket n h x" "\<forall>x\<in>set suf. \<not> in_bucket n h x"
    using bucket_ok_contig [OF bk [OF hn]] by (rule contigE)
  let ?F = "filter (in_bucket n h)"
  have "chain ?b = eaddr (hd (?F (a @ b)))" if ne: "?F (a @ b) \<noteq> []"
  proof (cases "?F a")
    case Nil
    then have hd: "?F (a @ e # b) = e # ?F b"
      using h by simp
    then have ch: "chain (t ! h) = eaddr e"
      using bk [OF hn] by (simp add: bucket_ok_def)
    have na: "\<forall>x\<in>set a. \<not> in_bucket n h x"
      using Nil by (simp add: filter_empty_conv)
    have "?F (pre @ mid @ suf) = mid"
      using c(2-4) by simp
    then have mid: "mid = e # ?F b"
      using hd c(1) by simp
    obtain y ys where y: "?F b = y # ys"
      using ne Nil by (cases "?F b") simp_all
    then have "in_bucket n h y"
      by (auto simp: filter_eq_Cons_iff)
    have "e # b = mid @ suf"
      using c(1,3) na h mid first_split_unique [of a "in_bucket n h" "e # b" pre "mid @ suf"] by simp
    then have "b = y # ys @ suf"
      using mid y by simp
    with \<open>in_bucket n h y\<close> show ?thesis
      using Nil ch nx by simp
  next
    case (Cons y ys)
    then have "chain (t ! h) = eaddr y" "y \<in> set a"
      using bk [OF hn] by (auto simp: bucket_ok_def filter_eq_Cons_iff)
    moreover have "eaddr y \<noteq> eaddr e"
      using d calculation(2) by (rule distinct_append_map_neq)
    ultimately show ?thesis
      using Cons by simp
  qed
  then have "bucket_ok n (a @ b) h ?b"
    using ct [OF hn] bk [OF hn] h by (auto simp: bucket_ok_def)
  then have "bucket_ok n (a @ b) k (t[h := ?b] ! k)" if "k < n" for k
    using other [OF that] hn n(2) by (cases "k = h") simp_all
  then show ?thesis
    using n by (simp add: buckets_ok_def)
qed


section \<open>The operations on the abstract map\<close>

lemma hash_wf_init: "hash_wf sqlite3HashInit"
  by (simp add: sqlite3HashInit_def hash_wf_def elems_ok_def)

lemma init_first: "first sqlite3HashInit = []"
  by (simp add: sqlite3HashInit_def)

lemma hash_lookup_init: "hash_lookup sqlite3HashInit = Map.empty"
  by (simp add: sqlite3HashInit_def hash_lookup_def)

lemma find_map_of:
  "map_option edata (List.find (\<lambda>e. fold_case (pKey e) = k) es)
   = map_of (map (\<lambda>e. (fold_case (pKey e), edata e)) es) k"
  by (induction es) auto

lemma find_lookup:
  "map_option edata (List.find (\<lambda>e. fold_case (pKey e) = k) (first pH)) = hash_lookup pH k"
  unfolding hash_lookup_def by (rule find_map_of)

lemma ht_entry_upd:
  "(b :: ht_entry)\<lparr>bcount := n\<rparr> = \<lparr>bcount = n, chain = chain b\<rparr>"
  "(b :: ht_entry)\<lparr>bcount := n, chain := c\<rparr> = \<lparr>bcount = n, chain = c\<rparr>"
  by simp_all

lemma removeElement_spec:
  assumes wf: "hash_wf pH" and e: "e \<in> set (first pH)"
    and h: "ht pH \<noteq> None \<Longrightarrow> h = key_bucket (htsize pH) (pKey e)"
  shows "hash_wf (removeElementGivenHash pH e h)
    \<and> set (first (removeElementGivenHash pH e h)) = set (first pH) - {e}"
proof -
  obtain a b where ab: "first pH = a @ e # b"
    using e by (auto simp: in_set_conv_decomp)
  have el: "elems_ok (a @ e # b)" and cnt: "hcount pH = length a + length b + 1"
    using wf ab by (auto simp: hash_wf_def)
  have d: "distinct (map eaddr (a @ e # b))"
    using el by (simp add: elems_ok_def)
  have el': "elems_ok (a @ b)"
    using el by (auto simp: elems_ok_def)
  have "e \<notin> set (a @ b)"
    using d by auto
  then have st: "set (a @ b) = set (first pH) - {e}"
    using ab by auto
  let ?nx = "case b of [] \<Rightarrow> 0 | x # _ \<Rightarrow> eaddr x"
  show ?thesis
  proof (cases "ht pH")
    case None
    have "removeElementGivenHash pH e h = (let p = pH\<lparr>first := a @ b, hcount := hcount pH - 1\<rparr>
        in if hcount p = 0 then sqlite3HashClear p else p)"
      using None split_at_addr [OF d] ab by (simp add: removeElementGivenHash_def Let_def)
    then show ?thesis
      using None wf el' cnt st by (auto simp: hash_wf_def Let_def sqlite3HashClear_def elems_ok_def)
  next
    case (Some t)
    let ?b = "\<lparr>bcount = bcount (t ! h) - 1, chain = (if chain (t ! h) = eaddr e then ?nx else chain (t ! h))\<rparr>"
    have "buckets_ok (htsize pH) (t[h := ?b]) (a @ b)"
      using wf Some ab h d by (intro buckets_ok_remove) (simp_all add: hash_wf_def)
    moreover have "removeElementGivenHash pH e h =
        (let p = pH\<lparr>first := a @ b, ht := Some (t[h := ?b]), hcount := hcount pH - 1\<rparr>
        in if hcount p = 0 then sqlite3HashClear p else p)"
      using Some split_at_addr [OF d] ab by (simp add: removeElementGivenHash_def Let_def ht_entry_upd)
    ultimately show ?thesis
      using Some wf el' cnt st by (auto simp: hash_wf_def Let_def sqlite3HashClear_def elems_ok_def)
  qed
qed

lemma update_elems:
  fixes e :: "'d HashElem" and d :: 'd
  assumes "elems_ok es" "e \<in> set es" "zstring k" "fold_case k = fold_case (pKey e)"
  defines "f \<equiv> \<lambda>x. if eaddr x = eaddr e then x\<lparr>edata := d, pKey := k\<rparr> else x"
  shows "elems_ok (map f es)" "set (map f es) = insert (e\<lparr>edata := d, pKey := k\<rparr>) (set es - {e})"
    "\<And>x. x \<in> set es \<Longrightarrow> key_bucket n (pKey (f x)) = key_bucket n (pKey x) \<and> eaddr (f x) = eaddr x"
proof -
  have inj: "x = e" if "x \<in> set es" "eaddr x = eaddr e" for x
    using assms(1,2) that by (auto simp: elems_ok_def distinct_map inj_on_def)
  have z: "zstring (pKey e)"
    using assms(1,2) by (auto simp: elems_ok_def)
  have fk: "fold_case (pKey (f x)) = fold_case (pKey x)" if "x \<in> set es" for x
    using inj [OF that] assms(4) by (auto simp: f_def)
  then have mk: "map (\<lambda>e. fold_case (pKey e)) (map f es) = map (\<lambda>e. fold_case (pKey e)) es"
    by simp
  have ad: "map eaddr (map f es) = map eaddr es"
    by (simp add: f_def)
  show "elems_ok (map f es)"
    unfolding elems_ok_def mk ad using assms(1,3) by (auto simp: elems_ok_def f_def)
  show "set (map f es) = insert (e\<lparr>edata := d, pKey := k\<rparr>) (set es - {e})"
  proof -
    have "f x = (if x = e then e\<lparr>edata := d, pKey := k\<rparr> else x)" if "x \<in> set es" for x
      using inj [OF that] by (auto simp: f_def)
    then have "f ` set es = (\<lambda>x. if x = e then e\<lparr>edata := d, pKey := k\<rparr> else x) ` set es"
      by (rule image_cong [OF refl])
    also have "\<dots> = insert (e\<lparr>edata := d, pKey := k\<rparr>) (set es - {e})"
      using assms(2) by auto
    finally show ?thesis
      by simp
  qed
  show "key_bucket n (pKey (f x)) = key_bucket n (pKey x) \<and> eaddr (f x) = eaddr x" if "x \<in> set es" for x
    using inj [OF that] key_bucket_fold_case [OF assms(3) z assms(4)] by (auto simp: f_def)
qed


lemma buckets_ok_map:
  assumes ok: "buckets_ok n t es"
    and f: "\<And>x. x \<in> set es \<Longrightarrow> key_bucket n (pKey (f x)) = key_bucket n (pKey x) \<and> eaddr (f x) = eaddr x"
  shows "buckets_ok n t (map f es)"
proof -
  have "bucket_ok n (map f es) h (t ! h)" if h: "h < n" for h
  proof -
    have bk: "bucket_ok n es h (t ! h)"
      using ok h by (simp add: buckets_ok_def)
    obtain pre mid suf where c: "es = pre @ mid @ suf" "\<forall>x\<in>set mid. in_bucket n h x"
      "\<forall>x\<in>set pre. \<not> in_bucket n h x" "\<forall>x\<in>set suf. \<not> in_bucket n h x"
      using bucket_ok_contig [OF bk] by (rule contigE)
    then have "contig (in_bucket n h) (map f es)"
      using f by (intro contigI [of _ "map f pre" "map f mid" "map f suf"]) auto
    moreover have "filter (in_bucket n h) (map f es) = map f (filter (in_bucket n h) es)"
      using f by (simp add: filter_map o_def cong: filter_cong)
    moreover have "eaddr (f (hd (filter (in_bucket n h) es))) = eaddr (hd (filter (in_bucket n h) es))"
      if "filter (in_bucket n h) es \<noteq> []"
      using f hd_in_set [OF that] by auto
    ultimately show ?thesis
      using bk by (auto simp: bucket_ok_def hd_map)
  qed
  then show ?thesis
    using ok by (simp add: buckets_ok_def)
qed

lemma hash_wf_add:
  assumes wf: "hash_wf pH" and k: "zstring (pKey new)" "\<forall>e\<in>set (first pH). fold_case (pKey e) \<noteq> fold_case (pKey new)"
    and a: "eaddr new \<notin> eaddr ` set (first pH)" and al: "\<And>n s. alloc n = Some s \<Longrightarrow> n \<le> s"
    and h: "ht pH \<noteq> None \<Longrightarrow> h = key_bucket (htsize pH) (pKey new)"
  defines "p1 \<equiv> pH\<lparr>hcount := hcount pH + 1\<rparr>"
  defines "hp \<equiv> (if hcount p1 \<ge> 10 \<and> hcount p1 > 2 * htsize p1
                 then (case rehash alloc p1 (hcount p1 * 2) of
                         (True, pH') \<Rightarrow> (key_bucket (htsize pH') (pKey new), pH')
                       | (False, pH') \<Rightarrow> (h, pH'))
                 else (h, p1))"
  shows "hash_wf (hashInsert_new alloc pH h new)
    \<and> set (first (hashInsert_new alloc pH h new)) = insert new (set (first pH))"
proof -
  define p' where p'0: "p' = hashInsert_new alloc pH h new"
  have p'_def: "p' = insertElement (snd hp) (if ht (snd hp) = None then None else Some (fst hp)) new"
    unfolding p'0 hashInsert_new_def Let_def hp_def p1_def by (rule refl)
  have el: "elems_ok (first pH)" and cnt: "hcount pH = length (first pH)"
    using wf by (simp_all add: hash_wf_def)
  obtain p2 h2 where hp: "hp = (h2, p2)" and ms: "mset (first p2) = mset (first pH)"
    and c2: "hcount p2 = hcount pH + 1"
    and t2: "case ht p2 of None \<Rightarrow> htsize p2 = 0
       | Some t \<Rightarrow> buckets_ok (htsize p2) t (first p2) \<and> h2 = key_bucket (htsize p2) (pKey new)"
  proof (cases "hcount p1 \<ge> 10 \<and> hcount p1 > 2 * htsize p1 \<and> fst (rehash alloc p1 (hcount p1 * 2))")
    case True
    then obtain t' es' n' where r: "rehash alloc p1 (hcount p1 * 2)
        = (True, p1\<lparr>htsize := n', ht := Some t', first := es'\<rparr>)"
      "buckets_ok n' t' es'" "mset es' = mset (first pH)"
      using rehash_cases [of p1 alloc "hcount p1 * 2", OF _ al] el by (auto simp: p1_def)
    then show ?thesis
      using True by (intro that [of "key_bucket n' (pKey new)" "p1\<lparr>htsize := n', ht := Some t', first := es'\<rparr>"])
        (simp_all add: hp_def p1_def)
  next
    case False
    then have "hp = (h, p1)"
      using rehash_cases [of p1 alloc "hcount p1 * 2", OF _ al] el by (auto simp: hp_def p1_def)
    then show ?thesis
      using wf h by (intro that [of h p1]) (auto simp: p1_def hash_wf_def split: option.splits)
  qed
  have d2: "elems_ok (first p2)" and s2: "set (first p2) = set (first pH)"
    and l2: "length (first p2) = length (first pH)"
    using el elems_ok_mset ms mset_eq_setD mset_eq_length by metis+
  obtain x y t' where sp: "first p2 = x @ y"
    and p': "p' = p2\<lparr>ht := t', first := x @ new # y\<rparr>"
    and bk: "case t' of None \<Rightarrow> htsize p2 = 0 | Some t \<Rightarrow> buckets_ok (htsize p2) t (x @ new # y)"
  proof (cases "ht p2")
    case None
    then show ?thesis
      using that [of "[]" "first p2" None] t2 hp by (simp add: p'_def insertElement_def)
  next
    case (Some t)
    obtain t' x y where "first p2 = x @ y" "buckets_ok (htsize p2) t' (x @ new # y)"
      "insertElement p2 (Some (key_bucket (htsize p2) (pKey new))) new = p2\<lparr>ht := Some t', first := x @ new # y\<rparr>"
      using Some t2 d2 by (auto simp: elems_ok_def intro: insertElement_bucket [of p2 t _ new, OF _ _ _ refl])
    then show ?thesis
      using that [of x y "Some t'"] Some t2 hp by (simp add: p'_def)
  qed
  have "elems_ok (new # first p2)"
    using d2 s2 k a by (auto simp: elems_ok_def)
  then have "elems_ok (x @ new # y)"
    by (rule elems_ok_mset [rotated]) (simp add: sp)
  then show ?thesis
    unfolding p'0 [symmetric]
    using sp p' bk s2 c2 cnt l2 by (auto simp: hash_wf_def split: option.splits)
qed


text \<open>
  What \<^verbatim>\<open>sqlite3HashInsert\<close> does to the abstract map: the result pointer and the new map. Only a
  new key needs memory; when that allocation fails the new data comes back and nothing changes.
\<close>

definition insert_spec ::
  "bool \<Rightarrow> (bytes \<rightharpoonup> 'd) \<Rightarrow> bytes \<Rightarrow> 'd option \<Rightarrow> 'd option \<times> (bytes \<rightharpoonup> 'd)" where
  "insert_spec oom m k d =
     (if oom \<and> m k = None \<and> d \<noteq> None then (d, m) else (m k, m(k := d)))"

lemma HashFind_lookup:
  assumes "hash_wf pH" "zstring k"
  shows "sqlite3HashFind pH k = Some (hash_lookup pH (fold_case k))"
proof -
  obtain h where "findElementWithHash pH k
      = Some (List.find (\<lambda>e. fold_case (pKey e) = fold_case k) (first pH), h)"
    by (rule findElementWithHash_find [OF assms])
  then show ?thesis
    using find_lookup [of "fold_case k" pH] by (simp add: sqlite3HashFind_def)
qed

lemma HashInsert_spec:
  assumes wf: "hash_wf pH" and k: "zstring k" and al: "\<And>n s. alloc n = Some s \<Longrightarrow> n \<le> s"
    and a: "\<And>a. new_addr = Some a \<Longrightarrow> a \<notin> eaddr ` set (first pH)"
  shows "\<exists>r pH'. sqlite3HashInsert alloc new_addr pH k d = Some (r, pH') \<and> hash_wf pH'
    \<and> (r, hash_lookup pH') = insert_spec (new_addr = None) (hash_lookup pH) (fold_case k) d"
proof -
  have el: "elems_ok (first pH)"
    using wf by (simp add: hash_wf_def)
  let ?P = "\<lambda>e. fold_case (pKey e) = fold_case k"
  obtain h where f: "findElementWithHash pH k = Some (List.find ?P (first pH), h)"
    and h: "ht pH \<noteq> None \<longrightarrow> h = key_bucket (htsize pH) k"
    by (rule findElementWithHash_find [OF wf k])
  show ?thesis
  proof (cases "List.find ?P (first pH)")
    case None
    then have no: "hash_lookup pH (fold_case k) = None" "\<forall>e\<in>set (first pH). \<not> ?P e"
      using find_lookup [of "fold_case k" pH] by (simp, auto simp: find_None_iff)
    show ?thesis
    proof (cases "d = None \<or> new_addr = None")
      case True
      then show ?thesis
        using f None no(1) wf fun_upd_triv [of "hash_lookup pH" "fold_case k"]
        by (auto simp: sqlite3HashInsert_def insert_spec_def)
    next
      case False
      then obtain d' a where da: "d = Some d'" "new_addr = Some a"
        by auto
      let ?new = "\<lparr>eaddr = a, pKey = k, edata = d'\<rparr>"
      have "hash_wf (hashInsert_new alloc pH h ?new)
          \<and> set (first (hashInsert_new alloc pH h ?new)) = insert ?new (set (first pH))"
        using k no(2) a [OF da(2)] al h by (intro hash_wf_add [OF wf]) auto
      then obtain pH' where p': "sqlite3HashInsert alloc new_addr pH k d = Some (None, pH')" "hash_wf pH'"
        "set (first pH') = insert ?new (set (first pH))"
        using f None da by (simp add: sqlite3HashInsert_def)
      have "hash_lookup pH' = (hash_lookup pH)(fold_case k := d)"
        using p'(2,3) el no da by (intro map_eqI) (auto simp: hash_wf_def hash_lookup_Some)
      then show ?thesis
        using p' no(1) da by (auto simp: insert_spec_def)
    qed
  next
    case (Some e)
    then have e: "e \<in> set (first pH)" "?P e"
      by (auto simp: find_Some_iff)
    have lk: "hash_lookup pH (fold_case k) = Some (edata e)"
      using e el by (auto simp: hash_lookup_Some)
    have uniq: "x = e" if "x \<in> set (first pH)" "?P x" for x
      using that e el by (auto simp: elems_ok_def distinct_map inj_on_def)
    have z: "zstring (pKey e)"
      using el e(1) by (simp add: elems_ok_def)
    have kb: "key_bucket n (pKey e) = key_bucket n k" for n
      using key_bucket_fold_case [OF z k e(2)] .
    show ?thesis
    proof (cases d)
      case None
      let ?p = "removeElementGivenHash pH e h"
      have r: "hash_wf ?p" "set (first ?p) = set (first pH) - {e}"
        using removeElement_spec [OF wf e(1), of h] h kb by auto
      have "hash_lookup ?p = (hash_lookup pH)(fold_case k := None)"
        using r el uniq e(2) by (intro map_eqI) (auto simp: hash_wf_def hash_lookup_Some)
      then show ?thesis
        using f Some None r(1) lk by (auto simp: sqlite3HashInsert_def insert_spec_def)
    next
      case (Some d')
      let ?f = "\<lambda>x. if eaddr x = eaddr e then x\<lparr>edata := d', pKey := k\<rparr> else x"
      let ?p = "pH\<lparr>first := map ?f (first pH)\<rparr>"
      note u = update_elems [where d = d', OF el e(1) k e(2) [symmetric]]
      have w: "hash_wf ?p"
        using wf u(1) buckets_ok_map [OF _ u(3), of "htsize pH"]
        by (auto simp: hash_wf_def split: option.splits)
      have "hash_lookup ?p = (hash_lookup pH)(fold_case k := d)"
        using w u(2) el uniq e(2) Some by (intro map_eqI) (auto simp: hash_wf_def hash_lookup_Some)
      then show ?thesis
        using f \<open>List.find ?P (first pH) = Some e\<close> Some w lk by (auto simp: sqlite3HashInsert_def insert_spec_def)
    qed
  qed
qed


section \<open>The interface of the table\<close>

text \<open>
  What the clients of the table rely on: a partial map on case-folded names, updated by insertions
  that may find memory exhausted. \<open>env\<close> is what the allocator does during one call.
\<close>

locale nocase_map =
  fixes inv :: "'s \<Rightarrow> bool" and lookup :: "'s \<Rightarrow> bytes \<rightharpoonup> 'd" and empty :: 's
    and find :: "'s \<Rightarrow> bytes \<Rightarrow> 'd option option"
    and insert :: "'env \<Rightarrow> 's \<Rightarrow> bytes \<Rightarrow> 'd option \<Rightarrow> ('d option \<times> 's) option"
    and env_ok :: "'env \<Rightarrow> 's \<Rightarrow> bool" and oom :: "'env \<Rightarrow> bool"
  assumes inv_empty: "inv empty" and lookup_empty: "lookup empty = Map.empty"
    and find_lookup: "inv s \<Longrightarrow> zstring k \<Longrightarrow> find s k = Some (lookup s (fold_case k))"
    and insert_ok: "inv s \<Longrightarrow> zstring k \<Longrightarrow> env_ok env s \<Longrightarrow>
      \<exists>r s'. insert env s k d = Some (r, s') \<and> inv s'
        \<and> (r, lookup s') = insert_spec (oom env) (lookup s) (fold_case k) d"
begin

lemma insert_then_find:
  assumes "inv s" "zstring k" "zstring k'" "env_ok env s" "\<not> oom env"
  shows "\<exists>r s'. insert env s k d = Some (r, s') \<and> inv s' \<and> r = lookup s (fold_case k)
    \<and> find s' k' = Some (if fold_case k' = fold_case k then d else lookup s (fold_case k'))"
proof -
  obtain r s' where "insert env s k d = Some (r, s')" "inv s'"
    "(r, lookup s') = insert_spec (oom env) (lookup s) (fold_case k) d"
    using insert_ok [OF assms(1,2,4)] by blast
  then show ?thesis
    using assms(3,5) by (auto simp: find_lookup insert_spec_def)
qed

lemma insert_oom:
  assumes "inv s" "zstring k" "env_ok env s" "oom env" "lookup s (fold_case k) = None"
  shows "\<exists>s'. insert env s k (Some d) = Some (Some d, s') \<and> inv s' \<and> lookup s' = lookup s"
  using insert_ok [OF assms(1-3), of "Some d"] assms(4,5) by (auto simp: insert_spec_def)

end

definition hash_env_ok :: "(nat \<Rightarrow> nat option) \<times> nat option \<Rightarrow> 'd Hash \<Rightarrow> bool" where
  "hash_env_ok env pH \<longleftrightarrow> (\<forall>n s. fst env n = Some s \<longrightarrow> n \<le> s)
     \<and> (\<forall>a. snd env = Some a \<longrightarrow> a \<notin> eaddr ` set (first pH))"

interpretation hash_table: nocase_map hash_wf hash_lookup sqlite3HashInit sqlite3HashFind
  "\<lambda>env. sqlite3HashInsert (fst env) (snd env)" hash_env_ok "\<lambda>env. snd env = None"
proof unfold_locales
  fix s :: "'d Hash" and k d and env :: "(nat \<Rightarrow> nat option) \<times> nat option"
  assume "hash_wf s" "zstring k" "hash_env_ok env s"
  then show "\<exists>r s'. sqlite3HashInsert (fst env) (snd env) s k d = Some (r, s') \<and> hash_wf s'
      \<and> (r, hash_lookup s') = insert_spec (snd env = None) (hash_lookup s) (fold_case k) d"
    by (intro HashInsert_spec) (auto simp: hash_env_ok_def)
qed (auto simp: hash_wf_init hash_lookup_init HashFind_lookup)

section \<open>Properties\<close>

text \<open>
  C11. The hash table is a map from case-folded names: after an insertion or a removal (data
  \<^term>\<open>None\<close>) that does not run out of memory, on any well-formed table, whether it is a plain list
  or has buckets and whether it is resized on the way, the operation follows no null pointer,
  returns the previous data, keeps the table well formed, and every later search finds the new
  data under that name in any case and the old data under every other name.
\<close>

theorem hash_insert_find:
  assumes "hash_wf pH" "zstring k" "zstring k'" "\<And>n s. alloc n = Some s \<Longrightarrow> n \<le> s"
    "a \<notin> eaddr ` set (first pH)"
  shows "\<exists>pH'. sqlite3HashInsert alloc (Some a) pH k d = Some (hash_lookup pH (fold_case k), pH') \<and> hash_wf pH'
    \<and> sqlite3HashFind pH' k' = Some (if fold_case k' = fold_case k then d else hash_lookup pH (fold_case k'))"
  using hash_table.insert_then_find [OF assms(1-3), of "(alloc, Some a)" d] assms(4,5)
  by (auto simp: hash_env_ok_def)

theorem hash_insert_find_witness:
  "\<exists>pH'. sqlite3HashInsert Some (Some 7) sqlite3HashInit [0x41] (Some (1::nat))
      = Some (hash_lookup sqlite3HashInit (fold_case [0x41]), pH')
    \<and> sqlite3HashFind pH' [0x61] = Some (Some 1)"
proof -
  have "fold_case [0x61] = fold_case [0x41 :: u8]"
    by (simp add: UpperToLower_eq)
  then show ?thesis
    using hash_insert_find [of "sqlite3HashInit :: nat Hash" "[0x41]" "[0x61]" Some 7 "Some 1"]
      hash_wf_init by (auto simp: init_first)
qed

text \<open>
  C40. When the element for a new name cannot be allocated, \<^verbatim>\<open>sqlite3HashInsert\<close> returns the new
  data itself (the caller's sign of failure) and the map is unchanged; a failed resize, by contrast,
  is invisible, which C12 includes.
\<close>

theorem hash_insert_oom:
  assumes "hash_wf pH" "zstring k" "hash_lookup pH (fold_case k) = None"
    "\<And>n s. alloc n = Some s \<Longrightarrow> n \<le> s"
  shows "\<exists>pH'. sqlite3HashInsert alloc None pH k (Some d) = Some (Some d, pH') \<and> hash_wf pH'
    \<and> hash_lookup pH' = hash_lookup pH"
  using hash_table.insert_oom [OF assms(1,2), of "(alloc, None)" d] assms(3,4)
  by (auto simp: hash_env_ok_def)

theorem hash_insert_oom_witness:
  "\<exists>pH'. sqlite3HashInsert Some None sqlite3HashInit [0x41] (Some (1::nat)) = Some (Some 1, pH')
    \<and> hash_lookup pH' = Map.empty"
  using hash_insert_oom [of "sqlite3HashInit :: nat Hash" "[0x41]" Some 1]
  by (auto simp: hash_wf_init hash_lookup_init)

end
