(* ===== verification/RowSetM.thy ===== *)
theory RowSetM
  imports Prelude "HOL-Library.Tree"
begin

text \<open>
  The row sets of \<^verbatim>\<open>rowset.c\<close> and the three opcodes of the virtual machine that use them.
  Entries linked by \<open>pRight\<close> are a list of rowids, a binary tree of entries is a library tree,
  and the forest (tree roots linked by \<open>pRight\<close>, each tree hanging on \<open>pLeft\<close>) is a list of trees
  in which the leaf is a null \<open>pLeft\<close>. Allocation outcomes are arguments.
\<close>

section \<open>Definitions\<close>

record RowSet =
  nChunk :: nat
  rsEntry :: "int list"
  rsLast :: "int option"
  rsForest :: "int tree list"
  nFresh :: nat
  rsSorted :: bool
  rsNext :: bool
  rsBatch :: int

definition ROWSET_ENTRY_PER_CHUNK :: nat where
  "ROWSET_ENTRY_PER_CHUNK = (1024 - 8) div 24"

text \<open>\<^verbatim>\<open>sqlite3RowSetInit\<close>: \<open>N\<close> is the usable size of the allocation, if it succeeds.\<close>

definition sqlite3RowSetInit :: "nat option \<Rightarrow> RowSet option" where
  "sqlite3RowSetInit malloc =
     map_option (\<lambda>N. \<lparr>nChunk = 0, rsEntry = [], rsLast = None, rsForest = [],
        nFresh = ((N - 56) div 24) mod 2 ^ 16, rsSorted = True, rsNext = False, rsBatch = 0\<rparr>) malloc"

definition sqlite3RowSetClear :: "RowSet \<Rightarrow> RowSet" where
  "sqlite3RowSetClear p = p\<lparr>nChunk := 0, nFresh := 0, rsEntry := [], rsLast := None,
     rsForest := [], rsSorted := True, rsNext := False\<rparr>"

definition rowSetEntryAlloc :: "bool \<Rightarrow> RowSet \<Rightarrow> bool \<times> RowSet" where
  "rowSetEntryAlloc malloc_ok p =
     (if nFresh p = 0
      then (if malloc_ok
            then (True, p\<lparr>nChunk := nChunk p + 1, nFresh := ROWSET_ENTRY_PER_CHUNK - 1\<rparr>)
            else (False, p))
      else (True, p\<lparr>nFresh := nFresh p - 1\<rparr>))"

definition sqlite3RowSetInsert :: "bool \<Rightarrow> RowSet \<Rightarrow> int \<Rightarrow> RowSet" where
  "sqlite3RowSetInsert malloc_ok p rowid =
     (case rowSetEntryAlloc malloc_ok p of
        (False, p) \<Rightarrow> p
      | (True, p) \<Rightarrow>
          (case rsLast p of
             Some v \<Rightarrow> p\<lparr>rsSorted := (rsSorted p \<and> \<not> rowid \<le> v), rsEntry := rsEntry p @ [rowid],
                        rsLast := Some rowid\<rparr>
           | None \<Rightarrow> p\<lparr>rsEntry := [rowid], rsLast := Some rowid\<rparr>))"

text \<open>
  \<^verbatim>\<open>rowSetEntryMerge\<close> of two non-empty lists (the source asserts that neither is null); an
  entry of the first list that equals one of the second is dropped.
\<close>

fun rowSetEntryMerge :: "int list \<Rightarrow> int list \<Rightarrow> int list" where
  "rowSetEntryMerge [] b = b"
| "rowSetEntryMerge a [] = a"
| "rowSetEntryMerge (x # a) (y # b) =
     (if x \<le> y
      then (if x < y then [x] else []) @ (if a = [] then y # b else rowSetEntryMerge a (y # b))
      else y # (if b = [] then x # a else rowSetEntryMerge (x # a) b))"

text \<open>
  The inner loop of \<^verbatim>\<open>rowSetEntrySort\<close> over \<open>aBucket\<close>; \<^term>\<open>None\<close> is an index past its end.
\<close>

fun bucket_add :: "int list list \<Rightarrow> int list \<Rightarrow> int list list option" where
  "bucket_add [] p = None"
| "bucket_add (b # bs) p =
     (if b = [] then Some (p # bs) else map_option ((#) []) (bucket_add bs (rowSetEntryMerge b p)))"

fun sort_loop :: "int list \<Rightarrow> int list list \<Rightarrow> int list list option" where
  "sort_loop [] aBucket = Some aBucket"
| "sort_loop (v # pIn) aBucket =
     (case bucket_add aBucket [v] of None \<Rightarrow> None | Some aBucket \<Rightarrow> sort_loop pIn aBucket)"

definition rowSetEntrySort :: "int list \<Rightarrow> int list option" where
  "rowSetEntrySort pIn =
     map_option (\<lambda>aBucket. fold (\<lambda>b p. if b = [] then p else if p \<noteq> [] then rowSetEntryMerge p b else b)
                               (tl aBucket) (hd aBucket))
       (sort_loop pIn (replicate 40 []))"

fun rowSetTreeToList :: "int tree \<Rightarrow> int list" where
  "rowSetTreeToList Leaf = []"
| "rowSetTreeToList (Node l v r) = rowSetTreeToList l @ v # rowSetTreeToList r"

function rowSetNDeepTree :: "int list \<Rightarrow> nat \<Rightarrow> int tree \<times> int list" where
  "rowSetNDeepTree [] iDepth = (Leaf, [])"
| "rowSetNDeepTree (v # vs) iDepth =
     (if iDepth > 1 then
        (case rowSetNDeepTree (v # vs) (iDepth - 1) of
           (pLeft, []) \<Rightarrow> (pLeft, [])
         | (pLeft, p # ppList) \<Rightarrow>
             (case rowSetNDeepTree ppList (iDepth - 1) of
                (pRight, ppList) \<Rightarrow> (Node pLeft p pRight, ppList)))
      else (Node Leaf v Leaf, vs))"
  by pat_completeness auto
termination
  by (relation "measure snd") auto

declare rowSetNDeepTree.simps(2) [simp del]

lemma NDeepTree_inorder: "rowSetNDeepTree l d = (t, rest) \<Longrightarrow> inorder t @ rest = l"
proof (induction d arbitrary: l t rest)
  case 0
  then show ?case
    by (cases l) (auto simp: rowSetNDeepTree.simps(2))
next
  case (Suc d)
  show ?case
  proof (cases "d = 0 \<or> l = []")
    case True
    then show ?thesis
      using Suc.prems by (cases l) (auto simp: rowSetNDeepTree.simps(2))
  next
    case False
    then obtain v vs where l: "l = v # vs" and "d > 0"
      by (cases l) auto
    obtain t1 r1 where r1: "rowSetNDeepTree l d = (t1, r1)"
      by fastforce
    show ?thesis
    proof (cases r1)
      case Nil
      then show ?thesis
        using Suc.prems Suc.IH [OF r1] r1 l \<open>d > 0\<close> by (simp add: rowSetNDeepTree.simps(2))
    next
      case (Cons p r2)
      obtain t2 r3 where r2: "rowSetNDeepTree r2 d = (t2, r3)"
        by fastforce
      show ?thesis
        using Suc.prems Suc.IH [OF r1] Suc.IH [OF r2] r1 r2 Cons l \<open>d > 0\<close>
        by (auto simp: rowSetNDeepTree.simps(2))
    qed
  qed
qed

lemma NDeepTree_length: "length (snd (rowSetNDeepTree l d)) \<le> length l"
  using NDeepTree_inorder [of l d "fst (rowSetNDeepTree l d)" "snd (rowSetNDeepTree l d)"]
  by (metis length_append le_add2 prod.collapse)

function listToTree_loop :: "int tree \<Rightarrow> int list \<Rightarrow> nat \<Rightarrow> int tree" where
  "listToTree_loop p [] iDepth = p"
| "listToTree_loop pLeft (v # pList) iDepth =
     (let (pRight, pList) = rowSetNDeepTree pList iDepth
      in listToTree_loop (Node pLeft v pRight) pList (iDepth + 1))"
  by pat_completeness auto
termination
proof (relation "measure (\<lambda>(p, l, d). length l)", goal_cases)
  case (2 pLeft v pList iDepth x pRight rest)
  then show ?case
    using NDeepTree_length [of pList iDepth] by (metis case_prod_conv in_measure le_imp_less_Suc
        length_Cons snd_conv)
qed simp

declare listToTree_loop.simps(2) [simp del]

definition rowSetListToTree :: "int list \<Rightarrow> int tree" where
  "rowSetListToTree pList = listToTree_loop (Node Leaf (hd pList) Leaf) (tl pList) 1"

definition sqlite3RowSetNext :: "RowSet \<Rightarrow> (int option \<times> RowSet) option" where
  "sqlite3RowSetNext p =
     map_option (\<lambda>p. case rsEntry p of
          [] \<Rightarrow> (None, p)
        | v # rest \<Rightarrow>
            (let p = p\<lparr>rsEntry := rest\<rparr>
             in (Some v, if rest = [] then sqlite3RowSetClear p else p)))
       (if \<not> rsNext p
        then map_option (\<lambda>es. p\<lparr>rsEntry := es, rsSorted := True, rsNext := True\<rparr>)
               (if \<not> rsSorted p then rowSetEntrySort (rsEntry p) else Some (rsEntry p))
        else Some p)"

text \<open>
  The loop of \<^verbatim>\<open>sqlite3RowSetTest\<close> that finds a free tree for the sorted batch \<open>p\<close>: the new
  forest, and what is left to be stored in a new tree when every tree was taken.
\<close>

fun forest_add :: "int tree list \<Rightarrow> int list \<Rightarrow> int tree list \<times> int list option" where
  "forest_add [] p = ([], Some p)"
| "forest_add (pTree # f) p =
     (if pTree = Leaf then (rowSetListToTree p # f, None)
      else (case forest_add f (rowSetEntryMerge (rowSetTreeToList pTree) p) of
              (f, es) \<Rightarrow> (Leaf # f, es)))"

fun tree_search :: "int tree \<Rightarrow> int \<Rightarrow> bool" where
  "tree_search Leaf iRowid = False"
| "tree_search (Node l v r) iRowid =
     (if v < iRowid then tree_search r iRowid
      else if v > iRowid then tree_search l iRowid else True)"

definition rowset_flush :: "bool \<Rightarrow> RowSet \<Rightarrow> RowSet option" where
  "rowset_flush malloc_ok p =
     (if rsEntry p = [] then Some p
      else map_option (\<lambda>es.
             (let p = (case forest_add (rsForest p) es of
                         (f, None) \<Rightarrow> p\<lparr>rsForest := f\<rparr>
                       | (f, Some es') \<Rightarrow>
                           (case rowSetEntryAlloc malloc_ok p of
                              (True, p) \<Rightarrow> p\<lparr>rsForest := f @ [rowSetListToTree es']\<rparr>
                            | (False, p) \<Rightarrow> p\<lparr>rsForest := f\<rparr>))
              in p\<lparr>rsEntry := [], rsLast := None, rsSorted := True\<rparr>))
             (if \<not> rsSorted p then rowSetEntrySort (rsEntry p) else Some (rsEntry p)))"

definition sqlite3RowSetTest :: "bool \<Rightarrow> RowSet \<Rightarrow> int \<Rightarrow> int \<Rightarrow> (bool \<times> RowSet) option" where
  "sqlite3RowSetTest malloc_ok pRowSet iBatch iRowid =
     map_option (\<lambda>p. (list_ex (\<lambda>t. tree_search t iRowid) (rsForest p), p))
       (if iBatch \<noteq> rsBatch pRowSet
        then map_option (\<lambda>p. p\<lparr>rsBatch := iBatch\<rparr>) (rowset_flush malloc_ok pRowSet)
        else Some pRowSet)"

text \<open>
  \<^verbatim>\<open>OP_RowSetTest\<close> on the row set in register P1, once that register holds one: whether the
  machine jumps to P2, and the row set. It is written over the two calls it makes.
\<close>

definition rowset_test_op ::
  "('s \<Rightarrow> int \<Rightarrow> int \<Rightarrow> (bool \<times> 's) option) \<Rightarrow> ('s \<Rightarrow> int \<Rightarrow> 's) \<Rightarrow> 's \<Rightarrow> int \<Rightarrow> int \<Rightarrow> (bool \<times> 's) option"
where
  "rowset_test_op tst ins p iSet r3 =
     (case (if iSet \<noteq> 0 then tst p iSet r3 else Some (False, p)) of
        None \<Rightarrow> None
      | Some (True, p) \<Rightarrow> Some (True, p)
      | Some (False, p) \<Rightarrow> Some (False, if iSet \<ge> 0 then ins p r3 else p))"

definition OP_RowSetTest :: "bool \<Rightarrow> bool \<Rightarrow> RowSet \<Rightarrow> int \<Rightarrow> int \<Rightarrow> (bool \<times> RowSet) option" where
  "OP_RowSetTest malloc1 malloc2 =
     rowset_test_op (sqlite3RowSetTest malloc1) (sqlite3RowSetInsert malloc2)"

text \<open>Executing the opcode for the rowids of one phase, and for the phases one after the other.\<close>

fun run_phase :: "('s \<Rightarrow> int \<Rightarrow> int \<Rightarrow> (bool \<times> 's) option) \<Rightarrow> 's \<Rightarrow> int \<Rightarrow> int list \<Rightarrow> (bool list \<times> 's) option"
where
  "run_phase opc s b [] = Some ([], s)"
| "run_phase opc s b (r # rs) =
     (case opc s b r of
        None \<Rightarrow> None
      | Some (j, s) \<Rightarrow> map_option (\<lambda>(js, s). (j # js, s)) (run_phase opc s b rs))"

fun run_phases :: "('s \<Rightarrow> int \<Rightarrow> int \<Rightarrow> (bool \<times> 's) option) \<Rightarrow> 's \<Rightarrow> (int \<times> int list) list \<Rightarrow> bool list list option"
where
  "run_phases opc s [] = Some []"
| "run_phases opc s ((b, rs) # phs) =
     (case run_phase opc s b rs of
        None \<Rightarrow> None
      | Some (js, s) \<Rightarrow> map_option ((#) js) (run_phases opc s phs))"

section \<open>Merging and sorting\<close>

lemma merge_set: "set (rowSetEntryMerge a b) = set a \<union> set b"
proof (induction a b rule: rowSetEntryMerge.induct)
  case (3 x a y b)
  consider (lt) "x < y" | (eq) "x = y" | (gt) "x > y"
    by linarith
  then show ?case
  proof cases
    case lt
    then show ?thesis
      using 3 by (cases "a = []") auto
  next
    case eq
    then show ?thesis
      using 3 by (cases "a = []") simp_all
  next
    case gt
    then show ?thesis
      using 3 by (cases "b = []") auto
  qed
qed simp_all

lemma merge_sorted:
  "sorted_wrt (<) a \<Longrightarrow> sorted_wrt (<) b \<Longrightarrow> sorted_wrt (<) (rowSetEntryMerge a b)"
proof (induction a b rule: rowSetEntryMerge.induct)
  case (3 x a y b)
  show ?case
  proof (cases "x \<le> y")
    case True
    then have "sorted_wrt (<) (if a = [] then y # b else rowSetEntryMerge a (y # b))"
      using 3 by simp
    moreover have "\<forall>z\<in>set (if a = [] then y # b else rowSetEntryMerge a (y # b)). x < y \<longrightarrow> x < z"
      using 3 by (auto simp: merge_set)
    ultimately show ?thesis
      using True by (cases "a = []") simp_all
  next
    case False
    then have "sorted_wrt (<) (if b = [] then x # a else rowSetEntryMerge (x # a) b)"
      using 3 by simp
    moreover have "\<forall>z\<in>set (if b = [] then x # a else rowSetEntryMerge (x # a) b). y < z"
      using 3 False by (auto simp: merge_set)
    ultimately show ?thesis
      using False by simp
  qed
qed simp_all

definition bucket_val :: "int list list \<Rightarrow> nat" where
  "bucket_val bs = foldr (\<lambda>b n. (if b = [] then 0 else 1) + 2 * n) bs 0"

lemma merge_Nil: "rowSetEntryMerge a b = [] \<longleftrightarrow> a = [] \<and> b = []"
  using merge_set [of a b] by (metis set_empty Un_empty)

text \<open>
  The occupied buckets count in binary: adding a run increments the counter, and there is a free
  bucket as long as the counter is below its maximum.
\<close>

lemma bucket_add_counter:
  assumes "bucket_val bs + 1 < 2 ^ length bs" "p \<noteq> []" "sorted_wrt (<) p" "\<forall>b\<in>set bs. sorted_wrt (<) b"
  shows "\<exists>bs'. bucket_add bs p = Some bs' \<and> length bs' = length bs \<and> bucket_val bs' = bucket_val bs + 1
    \<and> (\<forall>b\<in>set bs'. sorted_wrt (<) b) \<and> (\<Union>b\<in>set bs'. set b) = (\<Union>b\<in>set bs. set b) \<union> set p"
  using assms
proof (induction bs p rule: bucket_add.induct)
  case (2 b bs p)
  show ?case
  proof (cases "b = []")
    case True
    then show ?thesis
      using 2 by (auto simp: bucket_val_def)
  next
    case False
    with 2 have "bucket_val bs + 1 < 2 ^ length bs"
      by (simp add: bucket_val_def)
    moreover have "rowSetEntryMerge b p \<noteq> []"
      using False by (simp add: merge_Nil)
    ultimately show ?thesis
      using 2 False by (auto simp: bucket_val_def merge_sorted merge_set)
  qed
qed simp

lemma sort_loop_spec:
  assumes "bucket_val bs + length es < 2 ^ length bs" "\<forall>b\<in>set bs. sorted_wrt (<) b"
  shows "\<exists>bs'. sort_loop es bs = Some bs' \<and> length bs' = length bs
    \<and> (\<forall>b\<in>set bs'. sorted_wrt (<) b) \<and> (\<Union>b\<in>set bs'. set b) = (\<Union>b\<in>set bs. set b) \<union> set es"
  using assms
proof (induction es arbitrary: bs)
  case (Cons v es)
  obtain bs1 where b: "bucket_add bs [v] = Some bs1" "length bs1 = length bs"
    "bucket_val bs1 = bucket_val bs + 1" "\<forall>b\<in>set bs1. sorted_wrt (<) b"
    "(\<Union>b\<in>set bs1. set b) = (\<Union>b\<in>set bs. set b) \<union> set [v]"
    using bucket_add_counter [of bs "[v]"] Cons.prems by auto
  then show ?case
    using Cons.IH [of bs1] Cons.prems by auto
qed simp

lemma fold_merge_spec:
  "\<forall>b\<in>set bs. sorted_wrt (<) b \<Longrightarrow> sorted_wrt (<) p \<Longrightarrow>
   sorted_wrt (<) (fold (\<lambda>b p. if b = [] then p else if p \<noteq> [] then rowSetEntryMerge p b else b) bs p)
   \<and> set (fold (\<lambda>b p. if b = [] then p else if p \<noteq> [] then rowSetEntryMerge p b else b) bs p)
     = set p \<union> (\<Union>b\<in>set bs. set b)"
  by (induction bs arbitrary: p) (auto simp: merge_sorted merge_set)

lemma rowSetEntrySort_spec:
  assumes "length es < 2 ^ 40"
  obtains es' where "rowSetEntrySort es = Some es'" "sorted_wrt (<) es'" "set es' = set es"
proof -
  have "bucket_val (replicate n []) = 0" for n
    by (induction n) (auto simp: bucket_val_def)
  then obtain bs where bs: "sort_loop es (replicate 40 []) = Some bs" "length bs = 40"
    "\<forall>b\<in>set bs. sorted_wrt (<) b" "(\<Union>b\<in>set bs. set b) = set es"
    using sort_loop_spec [of "replicate 40 []" es] assms by auto
  then obtain b bs' where "bs = b # bs'"
    by (cases bs) auto
  then show ?thesis
    using bs fold_merge_spec [of bs' b]
    by (intro that [OF _ fold_merge_spec [of bs' b, THEN conjunct1]]) (auto simp: rowSetEntrySort_def)
qed


section \<open>Trees\<close>

lemma TreeToList_inorder: "rowSetTreeToList t = inorder t"
  by (induction t) auto

lemma ListToTree_loop_inorder: "inorder (listToTree_loop t l d) = inorder t @ l"
proof (induction t l d rule: listToTree_loop.induct)
  case (2 t v l d)
  obtain r rest where r: "rowSetNDeepTree l d = (r, rest)"
    by fastforce
  then have "inorder (listToTree_loop t (v # l) d) = inorder (listToTree_loop (Node t v r) rest (d + 1))"
    by (simp add: listToTree_loop.simps(2))
  also have "\<dots> = inorder (Node t v r) @ rest"
    using "2.IH" r by simp
  finally show ?case
    using NDeepTree_inorder [OF r] by simp
qed simp

lemma ListToTree_inorder: "es \<noteq> [] \<Longrightarrow> inorder (rowSetListToTree es) = es"
  by (simp add: rowSetListToTree_def ListToTree_loop_inorder)

lemma ListToTree_not_Leaf: "es \<noteq> [] \<Longrightarrow> rowSetListToTree es \<noteq> Leaf"
  using ListToTree_inorder by fastforce

lemma tree_search_bst: "bst t \<Longrightarrow> tree_search t r \<longleftrightarrow> r \<in> set_tree t"
  by (induction t) auto

lemma NDeepTree_shape:
  "rowSetNDeepTree l d = (t, rest) \<Longrightarrow> 0 < d \<Longrightarrow>
   height t \<le> d \<and> (rest \<noteq> [] \<longrightarrow> size t = 2 ^ d - 1)"
proof (induction d arbitrary: l t rest)
  case (Suc d)
  show ?case
  proof (cases "d = 0 \<or> l = []")
    case True
    then show ?thesis
      using Suc.prems by (cases l) (auto simp: rowSetNDeepTree.simps(2))
  next
    case False
    then obtain v vs where l: "l = v # vs" and d: "d > 0"
      by (cases l) auto
    obtain t1 r1 where r1: "rowSetNDeepTree l d = (t1, r1)"
      by fastforce
    note IH1 = Suc.IH [OF r1 d]
    show ?thesis
    proof (cases r1)
      case Nil
      then show ?thesis
        using Suc.prems IH1 r1 l d by (simp add: rowSetNDeepTree.simps(2))
    next
      case (Cons p r2)
      obtain t2 r3 where r2: "rowSetNDeepTree r2 d = (t2, r3)"
        by fastforce
      note IH2 = Suc.IH [OF r2 d]
      have "t = Node t1 p t2" "rest = r3"
        using Suc.prems r1 r2 Cons l d by (auto simp: rowSetNDeepTree.simps(2))
      moreover obtain m where "(2::nat) ^ d = Suc m"
        by (cases "(2::nat) ^ d") auto
      ultimately show ?thesis
        using IH1 IH2 Cons by auto
    qed
  qed
qed simp

lemma listToTree_loop_height:
  assumes "0 < d" "height t \<le> d" "size t + 1 = 2 ^ d"
  shows "2 ^ (height (listToTree_loop t l d) - 1) \<le> size t + length l"
  using assms
proof (induction t l d rule: listToTree_loop.induct)
  case (1 t d)
  then have "(2::nat) ^ (height t - 1) \<le> 2 ^ (d - 1)"
    by (intro power_increasing) auto
  also have "\<dots> \<le> 2 ^ d - 1"
    using 1 by (cases d) auto
  finally show ?case
    using 1 by (simp flip: 1(3))
next
  case (2 t v l d)
  obtain r rest where r: "rowSetNDeepTree l d = (r, rest)"
    by fastforce
  note sh = NDeepTree_shape [OF r "2.prems"(1)]
  have len: "size r + length rest = length l"
    using NDeepTree_inorder [OF r] by (metis length_append length_inorder)
  have step: "listToTree_loop t (v # l) d = listToTree_loop (Node t v r) rest (d + 1)"
    using r by (simp add: listToTree_loop.simps(2))
  have h: "height (Node t v r) \<le> d + 1"
    using sh "2.prems" by simp
  show ?case
  proof (cases "rest = []")
    case True
    have "(2::nat) ^ (height (Node t v r) - 1) \<le> 2 ^ d"
      using h by (intro power_increasing) auto
    also have "\<dots> \<le> size t + length (v # l)"
      using "2.prems"(3) by simp
    finally show ?thesis
      unfolding step True by simp
  next
    case False
    have "size (Node t v r) + 1 = 2 ^ (d + 1)"
      using sh False "2.prems"(3) by (simp add: le_add_diff_inverse2)
    then have "2 ^ (height (listToTree_loop (Node t v r) rest (d + 1)) - 1)
        \<le> size (Node t v r) + length rest"
      using "2.IH" r h by simp
    then show ?thesis
      unfolding step using len by simp
  qed
qed

lemma ListToTree_height: "es \<noteq> [] \<Longrightarrow> 2 ^ (height (rowSetListToTree es) - 1) \<le> length es"
  using listToTree_loop_height [of 1 "Node Leaf (hd es) Leaf" "tl es"]
  by (simp add: rowSetListToTree_def)

section \<open>The forest\<close>

definition forest_set :: "int tree list \<Rightarrow> int set" where
  "forest_set f = (\<Union>t\<in>set f. set_tree t)"

lemma forest_search: "\<forall>t\<in>set f. bst t \<Longrightarrow> list_ex (\<lambda>t. tree_search t r) f \<longleftrightarrow> r \<in> forest_set f"
  by (auto simp: list_ex_iff forest_set_def tree_search_bst)

lemma ListToTree_bst:
  "es \<noteq> [] \<Longrightarrow> sorted_wrt (<) es \<Longrightarrow> bst (rowSetListToTree es) \<and> set_tree (rowSetListToTree es) = set es"
  by (metis ListToTree_inorder bst_iff_sorted_wrt_less set_inorder)

lemma forest_add_spec:
  assumes "forest_add f es = (f', mor)" "es \<noteq> []" "sorted_wrt (<) es" "\<forall>t\<in>set f. bst t"
  shows "(\<forall>t\<in>set f'. bst t) \<and>
    (case mor of None \<Rightarrow> forest_set f' = forest_set f \<union> set es
     | Some es' \<Rightarrow> es' \<noteq> [] \<and> sorted_wrt (<) es' \<and> forest_set f' \<union> set es' = forest_set f \<union> set es)"
  using assms
proof (induction f es arbitrary: f' rule: forest_add.induct)
  case (2 t f es)
  show ?case
  proof (cases "t = Leaf")
    case True
    then show ?thesis
      using 2 ListToTree_bst by (auto simp: forest_set_def)
  next
    case False
    let ?m = "rowSetEntryMerge (rowSetTreeToList t) es"
    obtain f1 where f1: "forest_add f ?m = (f1, mor)" "f' = Leaf # f1"
      using "2.prems"(1) False by (auto split: prod.splits)
    have "sorted_wrt (<) (rowSetTreeToList t)"
      using "2.prems"(4) by (simp add: TreeToList_inorder bst_iff_sorted_wrt_less)
    then have m: "?m \<noteq> []" "sorted_wrt (<) ?m" "set ?m = set_tree t \<union> set es"
      using "2.prems" by (auto simp: merge_Nil merge_sorted merge_set TreeToList_inorder)
    then show ?thesis
      using "2.IH" [OF False f1(1)] "2.prems"(4) f1(2)
      by (auto simp: forest_set_def split: option.splits)
  qed
qed (auto simp: forest_set_def)


section \<open>The operations\<close>

definition rs_wf :: "RowSet \<Rightarrow> bool" where
  "rs_wf p \<longleftrightarrow> \<not> rsNext p \<and> rsLast p = (if rsEntry p = [] then None else Some (last (rsEntry p)))
     \<and> (rsSorted p \<longrightarrow> sorted_wrt (<) (rsEntry p)) \<and> (\<forall>t\<in>set (rsForest p). bst t)"

lemma sorted_snoc:
  assumes "sorted_wrt (<) es" "es \<noteq> []" "last es < (r::int)"
  shows "sorted_wrt (<) (es @ [r])"
proof -
  have "x < r" if "x \<in> set es" for x
  proof -
    have "es = butlast es @ [last es]"
      using assms(2) by simp
    then have "x = last es \<or> x < last es"
      using assms(1) that by (metis Un_iff append_Nil2 empty_iff empty_set insert_iff list.simps(15)
          set_append sorted_wrt_append)
    then show ?thesis
      using assms(3) by auto
  qed
  then show ?thesis
    using assms(1) by (simp add: sorted_wrt_append)
qed

lemma EntryAlloc_True: "\<exists>n m. rowSetEntryAlloc True p = (True, p\<lparr>nChunk := n, nFresh := m\<rparr>)"
proof (cases "nFresh p = 0")
  case False
  then have "rowSetEntryAlloc True p = (True, p\<lparr>nChunk := nChunk p, nFresh := nFresh p - 1\<rparr>)"
    by (simp add: rowSetEntryAlloc_def)
  then show ?thesis
    by blast
qed (auto simp: rowSetEntryAlloc_def)

lemma RowSetInsert_spec:
  assumes "rs_wf p"
  shows "rs_wf (sqlite3RowSetInsert True p r) \<and> rsForest (sqlite3RowSetInsert True p r) = rsForest p
    \<and> rsEntry (sqlite3RowSetInsert True p r) = rsEntry p @ [r]
    \<and> rsBatch (sqlite3RowSetInsert True p r) = rsBatch p"
proof -
  obtain n m where "rowSetEntryAlloc True p = (True, p\<lparr>nChunk := n, nFresh := m\<rparr>)"
    using EntryAlloc_True by blast
  then show ?thesis
    using assms sorted_snoc [of "rsEntry p" r]
    by (cases "rsEntry p = []") (auto simp: sqlite3RowSetInsert_def rs_wf_def)
qed

lemma rowset_flush_spec:
  assumes wf: "rs_wf p" and n: "length (rsEntry p) < 2 ^ 40"
  shows "\<exists>p'. rowset_flush True p = Some p' \<and> rs_wf p' \<and> rsEntry p' = []
    \<and> forest_set (rsForest p') = forest_set (rsForest p) \<union> set (rsEntry p) \<and> rsBatch p' = rsBatch p"
proof (cases "rsEntry p = []")
  case True
  then show ?thesis
    using wf by (simp add: rowset_flush_def)
next
  case False
  obtain es where es: "(if \<not> rsSorted p then rowSetEntrySort (rsEntry p) else Some (rsEntry p)) = Some es"
    "sorted_wrt (<) es" "set es = set (rsEntry p)"
    using wf n by (cases "rsSorted p") (auto simp: rs_wf_def intro: rowSetEntrySort_spec [OF n])
  have ne: "es \<noteq> []"
    using es(3) False by auto
  obtain f mor where f: "forest_add (rsForest p) es = (f, mor)"
    by fastforce
  have bst: "\<forall>t\<in>set (rsForest p). bst t"
    using wf by (simp add: rs_wf_def)
  note fs = forest_add_spec [OF f ne es(2) bst]
  obtain n m where al: "rowSetEntryAlloc True p = (True, p\<lparr>nChunk := n, nFresh := m\<rparr>)"
    using EntryAlloc_True by blast
  show ?thesis
  proof (cases mor)
    case None
    then show ?thesis
      using fs f False es wf by (simp add: rowset_flush_def rs_wf_def)
  next
    case (Some es')
    then have "es' \<noteq> []" "sorted_wrt (<) es'" "forest_set f \<union> set es' = forest_set (rsForest p) \<union> set es"
      using fs by auto
    moreover note ListToTree_bst [OF this(1,2)]
    ultimately show ?thesis
      using Some f False es wf al fs by (auto simp: rowset_flush_def rs_wf_def forest_set_def)
  qed
qed

lemma RowSetTest_spec:
  fixes b :: int
  assumes wf: "rs_wf p" and n: "length (rsEntry p) < 2 ^ 40"
  defines "old' \<equiv> forest_set (rsForest p) \<union> (if b \<noteq> rsBatch p then set (rsEntry p) else {})"
  shows "\<exists>p'. sqlite3RowSetTest True p b r = Some (r \<in> old', p') \<and> rs_wf p'
    \<and> rsEntry p' = (if b \<noteq> rsBatch p then [] else rsEntry p)
    \<and> forest_set (rsForest p') = old' \<and> rsBatch p' = b"
proof (cases "b = rsBatch p")
  case True
  then show ?thesis
    using wf by (simp add: sqlite3RowSetTest_def old'_def rs_wf_def forest_search)
next
  case False
  obtain p' where p': "rowset_flush True p = Some p'" "rs_wf p'" "rsEntry p' = []"
    "forest_set (rsForest p') = forest_set (rsForest p) \<union> set (rsEntry p)"
    using rowset_flush_spec [OF wf n] by blast
  then show ?thesis
    using False by (simp add: sqlite3RowSetTest_def old'_def rs_wf_def forest_search)
qed


section \<open>The interface the opcode uses\<close>

text \<open>
  What the opcode relies on: values collected in batches, and a test that sees the batches before
  the current one. \<open>load\<close> is the size of the current batch, which the sorter bounds.
\<close>

locale batch_set =
  fixes inv :: "'s \<Rightarrow> bool" and old cur :: "'s \<Rightarrow> int set" and batch :: "'s \<Rightarrow> int"
    and load :: "'s \<Rightarrow> nat" and ins :: "'s \<Rightarrow> int \<Rightarrow> 's"
    and tst :: "'s \<Rightarrow> int \<Rightarrow> int \<Rightarrow> (bool \<times> 's) option"
  assumes ins_ok: "inv s \<Longrightarrow> inv (ins s r) \<and> old (ins s r) = old s \<and> cur (ins s r) = insert r (cur s)
      \<and> batch (ins s r) = batch s \<and> load (ins s r) \<le> load s + 1"
    and tst_ok: "inv s \<Longrightarrow> load s < 2 ^ 40 \<Longrightarrow> \<exists>s'. inv s' \<and> batch s' = b \<and> load s' \<le> load s
      \<and> tst s b r = Some (r \<in> old s \<union> (if b \<noteq> batch s then cur s else {}), s')
      \<and> old s' = old s \<union> (if b \<noteq> batch s then cur s else {})
      \<and> cur s' = (if b \<noteq> batch s then {} else cur s)"
begin

lemma phase_same:
  assumes "inv s" "b \<noteq> 0" "batch s = b" "load s + length rs < 2 ^ 40"
  shows "\<exists>s'. run_phase (rowset_test_op tst ins) s b rs = Some (map (\<lambda>r. r \<in> old s) rs, s') \<and> inv s'
    \<and> batch s' = b \<and> load s' \<le> load s + length rs
    \<and> old s' \<union> cur s' = old s \<union> cur s \<union> (if b \<ge> 0 then set rs else {})"
  using assms
proof (induction rs arbitrary: s)
  case (Cons r rs)
  obtain s1 where s1: "inv s1" "batch s1 = b" "load s1 \<le> load s" "tst s b r = Some (r \<in> old s, s1)"
    "old s1 = old s" "cur s1 = cur s"
    using tst_ok [of s b r] Cons.prems by auto
  define s2 where "s2 = (if r \<in> old s \<or> b < 0 then s1 else ins s1 r)"
  have s2: "inv s2" "batch s2 = b" "load s2 \<le> load s + 1" "old s2 = old s"
    "old s2 \<union> cur s2 = old s \<union> cur s \<union> (if b \<ge> 0 then {r} else {})"
    using s1 ins_ok [of s1 r] by (auto simp: s2_def)
  have opc: "rowset_test_op tst ins s b r = Some (r \<in> old s, s2)"
    using s1(4) Cons.prems(2) by (auto simp: rowset_test_op_def s2_def split: bool.splits)
  obtain s' where "run_phase (rowset_test_op tst ins) s2 b rs = Some (map (\<lambda>r. r \<in> old s2) rs, s')"
    "inv s'" "batch s' = b" "load s' \<le> load s2 + length rs"
    "old s' \<union> cur s' = old s2 \<union> cur s2 \<union> (if b \<ge> 0 then set rs else {})"
    using Cons.IH [of s2] s2 Cons.prems by auto
  then show ?case
    using opc s2(3-5) by auto
qed auto

lemma phase_new:
  assumes "inv s" "b \<noteq> 0" "batch s \<noteq> b" "load s + length rs < 2 ^ 40"
  shows "\<exists>s'. run_phase (rowset_test_op tst ins) s b rs = Some (map (\<lambda>r. r \<in> old s \<union> cur s) rs, s')
    \<and> inv s' \<and> batch s' \<in> {b, batch s} \<and> load s' \<le> load s + length rs
    \<and> old s' \<union> cur s' = old s \<union> cur s \<union> (if b \<ge> 0 then set rs else {})"
proof (cases rs)
  case (Cons r rs')
  obtain s1 where s1: "inv s1" "batch s1 = b" "load s1 \<le> load s"
    "tst s b r = Some (r \<in> old s \<union> cur s, s1)" "old s1 = old s \<union> cur s" "cur s1 = {}"
    using tst_ok [of s b r] assms by auto
  define s2 where "s2 = (if r \<in> old s1 \<or> b < 0 then s1 else ins s1 r)"
  have s2: "inv s2" "batch s2 = b" "load s2 \<le> load s + 1" "old s2 = old s \<union> cur s"
    "old s2 \<union> cur s2 = old s \<union> cur s \<union> (if b \<ge> 0 then {r} else {})"
    using s1 ins_ok [of s1 r] by (auto simp: s2_def)
  have opc: "rowset_test_op tst ins s b r = Some (r \<in> old s \<union> cur s, s2)"
    using s1 assms(2) by (auto simp: rowset_test_op_def s2_def split: bool.splits)
  obtain s' where "run_phase (rowset_test_op tst ins) s2 b rs' = Some (map (\<lambda>r. r \<in> old s2) rs', s')"
    "inv s'" "batch s' = b" "load s' \<le> load s2 + length rs'"
    "old s' \<union> cur s' = old s2 \<union> cur s2 \<union> (if b \<ge> 0 then set rs' else {})"
    using phase_same [OF s2(1) assms(2) s2(2), of rs'] s2 assms(4) Cons by auto
  then show ?thesis
    using opc s2(3-5) Cons by auto
qed (use assms in auto)

lemma phase_first:
  assumes "inv s"
  shows "\<exists>s'. run_phase (rowset_test_op tst ins) s 0 rs = Some (map (\<lambda>r. False) rs, s') \<and> inv s'
    \<and> batch s' = batch s \<and> load s' \<le> load s + length rs \<and> old s' \<union> cur s' = old s \<union> cur s \<union> set rs"
  using assms
proof (induction rs arbitrary: s)
  case (Cons r rs)
  note i = ins_ok [OF Cons.prems, of r]
  obtain s' where "run_phase (rowset_test_op tst ins) (ins s r) 0 rs = Some (map (\<lambda>r. False) rs, s')"
    "inv s'" "batch s' = batch (ins s r)" "load s' \<le> load (ins s r) + length rs"
    "old s' \<union> cur s' = old (ins s r) \<union> cur (ins s r) \<union> set rs"
    using Cons.IH i by blast
  moreover have "rowset_test_op tst ins s 0 r = Some (False, ins s r)"
    by (simp add: rowset_test_op_def)
  ultimately show ?case
    using i by auto
qed auto

end

text \<open>What the jumps should be: a value jumps when an earlier phase had it.\<close>

fun phase_spec :: "int set \<Rightarrow> (int \<times> int list) list \<Rightarrow> bool list list" where
  "phase_spec A [] = []"
| "phase_spec A ((b, rs) # phs) =
     map (\<lambda>r. r \<in> A) rs # phase_spec (A \<union> (if b \<ge> 0 then set rs else {})) phs"

context batch_set
begin

lemma phases_ok:
  assumes "inv s" "distinct (map fst phs)" "0 \<notin> fst ` set phs" "batch s \<notin> fst ` set phs"
    "load s + sum_list (map (\<lambda>p. length (snd p)) phs) < 2 ^ 40"
  shows "run_phases (rowset_test_op tst ins) s phs = Some (phase_spec (old s \<union> cur s) phs)"
  using assms
proof (induction phs arbitrary: s)
  case (Cons ph phs)
  obtain b rs where ph: "ph = (b, rs)"
    by fastforce
  have b: "b \<noteq> 0" "batch s \<noteq> b" "b \<notin> fst ` set phs"
    using Cons.prems ph by (auto simp: image_iff)
  obtain s' where s': "run_phase (rowset_test_op tst ins) s b rs = Some (map (\<lambda>r. r \<in> old s \<union> cur s) rs, s')"
    "inv s'" "batch s' \<in> {b, batch s}" "load s' \<le> load s + length rs"
    "old s' \<union> cur s' = old s \<union> cur s \<union> (if b \<ge> 0 then set rs else {})"
    using phase_new [OF Cons.prems(1) b(1,2), of rs] Cons.prems(5) ph by auto
  have "run_phases (rowset_test_op tst ins) s' phs = Some (phase_spec (old s' \<union> cur s') phs)"
    using Cons.IH [OF s'(2)] Cons.prems b(3) s'(3,4) ph by auto
  then show ?case
    using s'(1,5) ph by simp
qed simp

lemma phases_from_first:
  assumes "inv s" "old s = {}" "cur s = {}" "batch s = 0" "distinct (0 # map fst phs)"
    "load s + length rs + sum_list (map (\<lambda>p. length (snd p)) phs) < 2 ^ 40"
  shows "run_phases (rowset_test_op tst ins) s ((0, rs) # phs) = Some (phase_spec {} ((0, rs) # phs))"
proof -
  obtain s' where s': "run_phase (rowset_test_op tst ins) s 0 rs = Some (map (\<lambda>r. False) rs, s')" "inv s'"
    "batch s' = 0" "load s' \<le> load s + length rs" "old s' \<union> cur s' = set rs"
    using phase_first [OF assms(1), of rs] assms(2-4) by auto
  then show ?thesis
    using phases_ok [OF s'(2), of phs] assms(5,6) by simp
qed

end

interpretation rowset: batch_set rs_wf "\<lambda>p. forest_set (rsForest p)" "\<lambda>p. set (rsEntry p)" rsBatch
  "\<lambda>p. length (rsEntry p)" "sqlite3RowSetInsert True" "sqlite3RowSetTest True"
proof unfold_locales
  fix s :: RowSet and r :: int
  assume "rs_wf s"
  then show "rs_wf (sqlite3RowSetInsert True s r)
      \<and> forest_set (rsForest (sqlite3RowSetInsert True s r)) = forest_set (rsForest s)
      \<and> set (rsEntry (sqlite3RowSetInsert True s r)) = insert r (set (rsEntry s))
      \<and> rsBatch (sqlite3RowSetInsert True s r) = rsBatch s
      \<and> length (rsEntry (sqlite3RowSetInsert True s r)) \<le> length (rsEntry s) + 1"
    using RowSetInsert_spec [of s r] by simp
next
  fix s :: RowSet and b r :: int
  assume "rs_wf s" "length (rsEntry s) < 2 ^ 40"
  from RowSetTest_spec [OF this, of b r]
  show "\<exists>s'. rs_wf s' \<and> rsBatch s' = b \<and> length (rsEntry s') \<le> length (rsEntry s)
      \<and> sqlite3RowSetTest True s b r
        = Some (r \<in> forest_set (rsForest s) \<union> (if b \<noteq> rsBatch s then set (rsEntry s) else {}), s')
      \<and> forest_set (rsForest s') = forest_set (rsForest s) \<union> (if b \<noteq> rsBatch s then set (rsEntry s) else {})
      \<and> set (rsEntry s') = (if b \<noteq> rsBatch s then {} else set (rsEntry s))"
    by auto
qed

section \<open>Reading the set in order\<close>

fun rowset_drain :: "nat \<Rightarrow> RowSet \<Rightarrow> (int option list \<times> RowSet) option" where
  "rowset_drain 0 p = Some ([], p)"
| "rowset_drain (Suc n) p =
     (case sqlite3RowSetNext p of
        None \<Rightarrow> None
      | Some (v, p) \<Rightarrow> map_option (\<lambda>(vs, p). (v # vs, p)) (rowset_drain n p))"

lemma drain_sorted:
  "rsEntry p = es \<Longrightarrow> rsSorted p \<Longrightarrow>
   \<exists>p'. rowset_drain (length es + 1) p = Some (map Some es @ [None], p')"
proof (induction es arbitrary: p)
  case Nil
  then show ?case
    by (simp add: sqlite3RowSetNext_def)
next
  case (Cons v es)
  define p1 where "p1 = (if rsNext p then p else p\<lparr>rsSorted := True, rsNext := True\<rparr>)\<lparr>rsEntry := es\<rparr>"
  define p2 where "p2 = (if es = [] then sqlite3RowSetClear p1 else p1)"
  have n: "sqlite3RowSetNext p = Some (Some v, p2)"
    using Cons.prems by (auto simp: sqlite3RowSetNext_def p1_def p2_def)
  have "rsEntry p2 = es" "rsSorted p2"
    using Cons.prems by (auto simp: p1_def p2_def sqlite3RowSetClear_def)
  then obtain p' where "rowset_drain (length es + 1) p2 = Some (map Some es @ [None], p')"
    using Cons.IH by blast
  then show ?case
    using n by simp
qed

lemma strict_sorted_list_of_set: "sorted_wrt (<) es \<Longrightarrow> sorted_list_of_set (set es) = (es :: int list)"
  using strict_sorted_iff [of es] by (simp add: sorted_list_of_set.idem_if_sorted_distinct)

lemma drain_first:
  assumes wf: "rs_wf p" and n: "length (rsEntry p) < 2 ^ 40"
  shows "\<exists>p'. rowset_drain (card (set (rsEntry p)) + 1) p
    = Some (map Some (sorted_list_of_set (set (rsEntry p))) @ [None], p')"
proof -
  obtain es where es: "(if \<not> rsSorted p then rowSetEntrySort (rsEntry p) else Some (rsEntry p)) = Some es"
    "sorted_wrt (<) es" "set es = set (rsEntry p)"
    using wf n by (cases "rsSorted p") (auto simp: rs_wf_def intro: rowSetEntrySort_spec [OF n])
  let ?p = "p\<lparr>rsEntry := es, rsSorted := True\<rparr>"
  have "sqlite3RowSetNext p = sqlite3RowSetNext ?p"
    using es(1) wf by (simp add: sqlite3RowSetNext_def rs_wf_def)
  then have "rowset_drain (length es + 1) p = rowset_drain (length es + 1) ?p"
    by simp
  moreover have "length es = card (set (rsEntry p))"
    using es(2,3) strict_sorted_iff [of es] distinct_card [of es] by simp
  moreover have "sorted_list_of_set (set (rsEntry p)) = es"
    using es(2,3) strict_sorted_list_of_set [of es] by simp
  ultimately show ?thesis
    using drain_sorted [of ?p es] by simp
qed

lemma RowSetInit_state:
  assumes "sqlite3RowSetInit (Some N) = Some p"
  shows "rs_wf p" "rsEntry p = []" "rsForest p = []" "rsBatch p = 0"
  using assms by (auto simp: sqlite3RowSetInit_def rs_wf_def)

section \<open>Properties\<close>

text \<open>
  C12. \<^verbatim>\<open>OP_RowSetTest\<close> detects exactly the repetitions across phases: on a fresh row set, for a
  first phase 0 followed by phases with pairwise different non-zero numbers, the opcode for a
  rowid jumps exactly when an earlier (non-final) phase contained that rowid, whatever the sizes
  and orders of the phases and however often the forest of trees is rebuilt, and the array of 40
  sort buckets is never overrun.
\<close>

theorem rowset_test_phases:
  assumes "sqlite3RowSetInit (Some N) = Some p" "distinct (0 # map fst phs)"
    "length rs + sum_list (map (\<lambda>ph. length (snd ph)) phs) < 2 ^ 40"
  shows "run_phases (OP_RowSetTest True True) p ((0, rs) # phs) = Some (phase_spec {} ((0, rs) # phs))"
  unfolding OP_RowSetTest_def using RowSetInit_state [OF assms(1)] assms(2,3)
  by (intro rowset.phases_from_first) (simp_all add: forest_set_def)

theorem rowset_test_phases_witness:
  "\<exists>p. sqlite3RowSetInit (Some 512) = Some p
    \<and> run_phases (OP_RowSetTest True True) p [(0, [5, 3, 9]), (1, [3, 4]), (- 1, [4, 5, 6])]
      = Some [[False, False, False], [True, False], [True, True, False]]"
proof -
  obtain p where p: "sqlite3RowSetInit (Some 512) = Some p"
    by (simp add: sqlite3RowSetInit_def)
  show ?thesis
    using rowset_test_phases [OF p, of "[(1, [3, 4]), (- 1, [4, 5, 6])]" "[5, 3, 9]"] p by auto
qed

text \<open>
  C38. Reading: from any row set whose values were inserted in any order and with repetitions, the
  successive calls of \<^verbatim>\<open>sqlite3RowSetNext\<close> return each value once, in ascending order, and then
  report the end.
\<close>

theorem rowset_next_ascending:
  assumes "sqlite3RowSetInit (Some N) = Some p" "length rs < 2 ^ 40"
  shows "\<exists>p'. rowset_drain (card (set rs) + 1) (fold (\<lambda>r p. sqlite3RowSetInsert True p r) rs p)
    = Some (map Some (sorted_list_of_set (set rs)) @ [None], p')"
proof -
  have "rs_wf (fold (\<lambda>r p. sqlite3RowSetInsert True p r) rs q)
      \<and> rsEntry (fold (\<lambda>r p. sqlite3RowSetInsert True p r) rs q) = rsEntry q @ rs"
    if "rs_wf q" for q
    using that by (induction rs arbitrary: q) (auto simp: RowSetInsert_spec)
  from this [OF RowSetInit_state(1) [OF assms(1)]] show ?thesis
    using drain_first RowSetInit_state(2) [OF assms(1)] assms(2) by (metis append_Nil)
qed

theorem rowset_next_ascending_witness:
  "\<exists>p p'. sqlite3RowSetInit (Some 512) = Some p
    \<and> rowset_drain 4 (fold (\<lambda>r p. sqlite3RowSetInsert True p r) [7, 2, 7, 5] p)
      = Some ([Some 2, Some 5, Some 7, None], p')"
proof -
  obtain p where p: "sqlite3RowSetInit (Some 512) = Some p"
    by (simp add: sqlite3RowSetInit_def)
  have "card (set [7, 2, 7, 5 :: int]) + 1 = 4" "sorted_list_of_set (set [7, 2, 7, 5 :: int]) = [2, 5, 7]"
    by code_simp+
  then show ?thesis
    using rowset_next_ascending [OF p, of "[7, 2, 7, 5]"] p by auto
qed

text \<open>
  C32. \<^verbatim>\<open>rowSetListToTree\<close> builds a balanced search tree: for every non-empty sorted list the tree
  has the list as its in-order traversal, searching it decides membership, and its depth \<open>d\<close>
  satisfies \<open>2^(d-1) \<le> n\<close>, which bounds the recursion of \<^verbatim>\<open>rowSetTreeToList\<close> and the search loop.
\<close>

theorem rowset_tree_balanced:
  assumes "es \<noteq> []" "sorted_wrt (<) es"
  shows "rowSetTreeToList (rowSetListToTree es) = es
    \<and> (\<forall>r. tree_search (rowSetListToTree es) r \<longleftrightarrow> r \<in> set es)
    \<and> 2 ^ (height (rowSetListToTree es) - 1) \<le> length es"
  using assms ListToTree_height ListToTree_bst [OF assms]
  by (simp add: TreeToList_inorder ListToTree_inorder tree_search_bst)

theorem rowset_tree_balanced_witness:
  "rowSetTreeToList (rowSetListToTree [1, 4, 6, 8, 9]) = [1, 4, 6, 8, 9]
    \<and> tree_search (rowSetListToTree [1, 4, 6, 8, 9]) 8 \<and> \<not> tree_search (rowSetListToTree [1, 4, 6, 8, 9]) 7"
  using rowset_tree_balanced [of "[1, 4, 6, 8, 9]"] by simp

end
