(* ===== verification/BitvecM.thy ===== *)
theory BitvecM
  imports Prelude
begin

text \<open>
  The bit vectors of \<^verbatim>\<open>bitvec.c\<close>, by which the pager remembers the journalled pages of a
  transaction and of each savepoint. An object is in one of three representations that share a
  union: a bitmap, an open-addressing hash table of the set indices, or 62 sub-vectors. Indices
  and the fields of type \<^verbatim>\<open>u32\<close> are naturals below \<open>2^32\<close>; \<^term>\<open>None\<close> stands for reading a member
  of the union that was not stored, an index out of bounds, or a loop that does not end.
  Allocations consume a list of outcomes (an exhausted list means success).
\<close>

section \<open>Definitions\<close>

definition BITVEC_NELEM :: nat where "BITVEC_NELEM = 496"
definition BITVEC_NBIT :: nat where "BITVEC_NBIT = 3968"
definition BITVEC_NINT :: nat where "BITVEC_NINT = 124"
definition BITVEC_MXHASH :: nat where "BITVEC_MXHASH = 62"
definition BITVEC_NPTR :: nat where "BITVEC_NPTR = 62"

lemmas bitvec_consts = BITVEC_NELEM_def BITVEC_NBIT_def BITVEC_NINT_def BITVEC_MXHASH_def BITVEC_NPTR_def

datatype 'b bv_union = aBitmap "u8 list" | aHash "nat list" | apSub "'b option list"

datatype Bitvec = Bitvec (iSize: nat) (nSet: nat) (iDivisor: nat) (bv_u: "Bitvec bv_union")

definition malloc :: "bool list \<Rightarrow> bool \<times> bool list" where
  "malloc w = (case w of [] \<Rightarrow> (True, []) | b # w \<Rightarrow> (b, w))"

definition BITVEC_HASH :: "nat \<Rightarrow> nat" where
  "BITVEC_HASH x = x mod BITVEC_NINT"

text \<open>The zeroed union is an empty bitmap or an empty hash table, depending on \<open>iSize\<close>.\<close>

definition bitvec_zeroed :: "nat \<Rightarrow> Bitvec" where
  "bitvec_zeroed sz = Bitvec sz 0 0
     (if sz \<le> BITVEC_NBIT then aBitmap (replicate BITVEC_NELEM 0) else aHash (replicate BITVEC_NINT 0))"

definition sqlite3BitvecCreate :: "bool list \<Rightarrow> nat \<Rightarrow> Bitvec option \<times> bool list" where
  "sqlite3BitvecCreate w sz =
     (case malloc w of (ok, w) \<Rightarrow> (if ok then Some (bitvec_zeroed sz) else None, w))"

text \<open>
  The probe loops: from slot \<open>h\<close> on, the first slot that is free or holds \<open>i\<close>; the first argument
  bounds the number of slots looked at.
\<close>

fun hash_probe :: "nat \<Rightarrow> nat list \<Rightarrow> nat \<Rightarrow> nat \<Rightarrow> nat option" where
  "hash_probe 0 a h i = None"
| "hash_probe (Suc n) a h i =
     (if a ! h = 0 \<or> a ! h = i then Some h else hash_probe n a ((h + 1) mod BITVEC_NINT) i)"

definition bitmap_bit :: "u8 list \<Rightarrow> nat \<Rightarrow> bool" where
  "bitmap_bit a i \<longleftrightarrow> (a ! (i div 8)) AND push_bit (i mod 8) 1 \<noteq> 0"

lemma apSub_size:
  "k < length ps \<Longrightarrow> ps ! k = Some q \<Longrightarrow> size q < size (Bitvec sz n d (apSub ps))"
proof -
  assume k: "k < length ps" "ps ! k = Some q"
  then have "Some q \<in> set ps"
    by (metis nth_mem)
  then have "size_option size (Some q) \<le> size_list (size_option size) ps"
    by (rule size_list_estimation') simp
  then show ?thesis
    by simp
qed

function bitvec_test :: "Bitvec \<Rightarrow> nat \<Rightarrow> bool option" where
  "bitvec_test (Bitvec sz n d u) i =
     (if d \<noteq> 0 then
        (case u of
           apSub ps \<Rightarrow>
             (if i div d < length ps
              then (case ps ! (i div d) of None \<Rightarrow> Some False | Some p \<Rightarrow> bitvec_test p (i mod d))
              else None)
         | _ \<Rightarrow> None)
      else if sz \<le> BITVEC_NBIT then
        (case u of
           aBitmap a \<Rightarrow> (if i div 8 < length a then Some (bitmap_bit a i) else None)
         | _ \<Rightarrow> None)
      else
        (case u of
           aHash a \<Rightarrow> map_option (\<lambda>h. a ! h \<noteq> 0) (hash_probe BITVEC_NINT a (BITVEC_HASH i) (i + 1))
         | _ \<Rightarrow> None))"
  by pat_completeness auto
termination
  by (relation "measure (\<lambda>(p, i). size p)") (auto intro: apSub_size simp del: Bitvec.size)

definition sqlite3BitvecTestNotNull :: "Bitvec \<Rightarrow> nat \<Rightarrow> bool option" where
  "sqlite3BitvecTestNotNull p i =
     (let i = (i + 2 ^ 32 - 1) mod 2 ^ 32 in if i \<ge> iSize p then Some False else bitvec_test p i)"

definition sqlite3BitvecTest :: "Bitvec option \<Rightarrow> nat \<Rightarrow> bool option" where
  "sqlite3BitvecTest p i = (case p of None \<Rightarrow> Some False | Some p \<Rightarrow> sqlite3BitvecTestNotNull p i)"

text \<open>
  Setting the bit with the decremented index \<open>i\<close>. The first argument bounds the nesting of the
  descents and of the recursive calls made while a full hash table is split. The result is
  whether the return code is \<^verbatim>\<open>SQLITE_OK\<close>, the vector, and the remaining allocation outcomes.
\<close>

fun set_values :: "(bool list \<Rightarrow> Bitvec \<Rightarrow> nat \<Rightarrow> (bool \<times> Bitvec \<times> bool list) option) \<Rightarrow>
  bool \<Rightarrow> bool list \<Rightarrow> Bitvec \<Rightarrow> nat list \<Rightarrow> (bool \<times> Bitvec \<times> bool list) option"
where
  "set_values set1 rc w p [] = Some (rc, p, w)"
| "set_values set1 rc w p (v # vs) =
     (if v = 0 then set_values set1 rc w p vs
      else (case set1 w p (v - 1) of
              None \<Rightarrow> None
            | Some (rc', p, w) \<Rightarrow> set_values set1 (rc \<and> rc') w p vs))"

primrec bitvec_set :: "nat \<Rightarrow> bool list \<Rightarrow> Bitvec \<Rightarrow> nat \<Rightarrow> (bool \<times> Bitvec \<times> bool list) option" where
  "bitvec_set 0 w p i = None"
| "bitvec_set (Suc f) w p i =
     (case p of Bitvec sz n d u \<Rightarrow>
        if sz > BITVEC_NBIT \<and> d \<noteq> 0 then
          (case u of
             apSub ps \<Rightarrow>
               (let bin = i div d; i = i mod d
                in if bin < length ps
                   then (case (case ps ! bin of Some q \<Rightarrow> (Some q, w) | None \<Rightarrow> sqlite3BitvecCreate w d) of
                           (None, w) \<Rightarrow> Some (False, p, w)
                         | (Some q, w) \<Rightarrow>
                             map_option (\<lambda>(rc, q, w). (rc, Bitvec sz n d (apSub (ps[bin := Some q])), w))
                               (bitvec_set f w q i))
                   else None)
           | _ \<Rightarrow> None)
        else if sz \<le> BITVEC_NBIT then
          (case u of
             aBitmap a \<Rightarrow>
               (if i div 8 < length a
                then Some (True, Bitvec sz n d (aBitmap (a[i div 8 := (a ! (i div 8)) OR push_bit (i mod 8) 1])), w)
                else None)
           | _ \<Rightarrow> None)
        else
          (case u of
             aHash a \<Rightarrow>
               (let h = BITVEC_HASH i; i1 = i + 1
                in if a ! h = 0 \<and> n < BITVEC_NINT - 1
                   then Some (True, Bitvec sz (n + 1) d (aHash (a[h := i1])), w)
                   else (case hash_probe BITVEC_NINT a h i1 of
                           None \<Rightarrow> None
                         | Some h \<Rightarrow>
                             if a ! h = i1 then Some (True, p, w)
                             else if n \<ge> BITVEC_MXHASH then
                               (case malloc w of
                                  (False, w) \<Rightarrow> Some (False, p, w)
                                | (True, w) \<Rightarrow>
                                    (let p = Bitvec sz n ((sz + BITVEC_NPTR - 1) div BITVEC_NPTR)
                                               (apSub (replicate BITVEC_NPTR None))
                                     in case bitvec_set f w p i of
                                          None \<Rightarrow> None
                                        | Some (rc, p, w) \<Rightarrow> set_values (bitvec_set f) rc w p a))
                             else Some (True, Bitvec sz (n + 1) d (aHash (a[h := i1])), w)))
           | _ \<Rightarrow> None))"

text \<open>Nine levels are enough for every 32-bit size (see the lemma \<open>bitvec_set_ok\<close>).\<close>

definition sqlite3BitvecSet :: "bool list \<Rightarrow> Bitvec option \<Rightarrow> nat \<Rightarrow> (bool \<times> Bitvec option \<times> bool list) option" where
  "sqlite3BitvecSet w p i =
     (case p of
        None \<Rightarrow> Some (True, None, w)
      | Some p \<Rightarrow> map_option (\<lambda>(rc, p, w). (rc, Some p, w)) (bitvec_set 9 w p (i - 1)))"

definition hash_reinsert :: "nat \<Rightarrow> nat \<times> nat list \<Rightarrow> (nat \<times> nat list) option" where
  "hash_reinsert v na =
     (case na of (n, a) \<Rightarrow>
        map_option (\<lambda>h. (n + 1, a[h := v])) (hash_probe BITVEC_NINT a (BITVEC_HASH (v - 1)) 0))"

fun hash_rebuild :: "nat \<Rightarrow> nat list \<Rightarrow> nat \<times> nat list \<Rightarrow> (nat \<times> nat list) option" where
  "hash_rebuild x [] na = Some na"
| "hash_rebuild x (v # vs) na =
     (if v \<noteq> 0 \<and> v \<noteq> x
      then (case hash_reinsert v na of None \<Rightarrow> None | Some na \<Rightarrow> hash_rebuild x vs na)
      else hash_rebuild x vs na)"

function bitvec_clear :: "Bitvec \<Rightarrow> nat \<Rightarrow> Bitvec option" where
  "bitvec_clear (Bitvec sz n d u) i =
     (if d \<noteq> 0 then
        (case u of
           apSub ps \<Rightarrow>
             (if i div d < length ps
              then (case ps ! (i div d) of
                      None \<Rightarrow> Some (Bitvec sz n d u)
                    | Some p \<Rightarrow>
                        map_option (\<lambda>q. Bitvec sz n d (apSub (ps[i div d := Some q]))) (bitvec_clear p (i mod d)))
              else None)
         | _ \<Rightarrow> None)
      else if sz \<le> BITVEC_NBIT then
        (case u of
           aBitmap a \<Rightarrow>
             (if i div 8 < length a
              then Some (Bitvec sz n d (aBitmap (a[i div 8 := (a ! (i div 8)) AND NOT (push_bit (i mod 8) 1)])))
              else None)
         | _ \<Rightarrow> None)
      else
        (case u of
           aHash a \<Rightarrow>
             map_option (\<lambda>(n, a). Bitvec sz n d (aHash a))
               (hash_rebuild (i + 1) a (0, replicate BITVEC_NINT 0))
         | _ \<Rightarrow> None))"
  by pat_completeness auto
termination
  by (relation "measure (\<lambda>(p, i). size p)") (auto intro: apSub_size simp del: Bitvec.size)

definition sqlite3BitvecClear :: "Bitvec option \<Rightarrow> nat \<Rightarrow> Bitvec option option" where
  "sqlite3BitvecClear p i =
     (case p of None \<Rightarrow> Some None | Some p \<Rightarrow> map_option Some (bitvec_clear p (i - 1)))"

definition sqlite3BitvecSize :: "Bitvec \<Rightarrow> nat" where
  "sqlite3BitvecSize p = iSize p"

declare bitvec_test.simps [simp del] bitvec_clear.simps [simp del] bitvec_set.simps [simp del]

section \<open>Open addressing\<close>

abbreviation slot :: "nat \<Rightarrow> nat \<Rightarrow> nat" where
  "slot h k \<equiv> (h + k) mod BITVEC_NINT"

definition hash_inv :: "nat list \<Rightarrow> bool" where
  "hash_inv a \<longleftrightarrow> length a = BITVEC_NINT
     \<and> (\<forall>j k. j < BITVEC_NINT \<longrightarrow> k < BITVEC_NINT \<longrightarrow> a ! j \<noteq> 0 \<longrightarrow> a ! j = a ! k \<longrightarrow> j = k)
     \<and> (\<forall>j<BITVEC_NINT. a ! j \<noteq> 0 \<longrightarrow>
          (\<exists>k<BITVEC_NINT. j = slot (a ! j - 1) k \<and> (\<forall>m<k. a ! slot (a ! j - 1) m \<noteq> 0)))"

lemma hash_probe_Some:
  "hash_probe n a (h mod BITVEC_NINT) i = Some j \<Longrightarrow>
   (\<exists>k<n. j = slot h k \<and> (\<forall>m<k. a ! slot h m \<noteq> 0 \<and> a ! slot h m \<noteq> i)) \<and> (a ! j = 0 \<or> a ! j = i)"
proof (induction n arbitrary: h)
  case (Suc n)
  show ?case
  proof (cases "a ! (h mod BITVEC_NINT) = 0 \<or> a ! (h mod BITVEC_NINT) = i")
    case True
    then show ?thesis
      using Suc.prems by (auto intro!: exI [of _ 0])
  next
    case False
    have "hash_probe n a ((h + 1) mod BITVEC_NINT) i = Some j"
      using Suc.prems False by (auto simp: mod_simps split: if_splits)
    from Suc.IH [OF this] obtain k where k: "k < n" "j = slot (h + 1) k"
      "\<forall>m<k. a ! slot (h + 1) m \<noteq> 0 \<and> a ! slot (h + 1) m \<noteq> i" "a ! j = 0 \<or> a ! j = i"
      by blast
    have "a ! slot h m \<noteq> 0 \<and> a ! slot h m \<noteq> i" if "m < Suc k" for m
      using that False k(3) by (cases m) auto
    then show ?thesis
      using k by (intro conjI exI [of _ "Suc k"]) auto
  qed
qed simp

lemma hash_probe_total:
  "k < n \<Longrightarrow> a ! slot h k = 0 \<Longrightarrow> \<exists>j. hash_probe n a (h mod BITVEC_NINT) i = Some j"
proof (induction n arbitrary: h k)
  case (Suc n)
  show ?case
  proof (cases k)
    case 0
    then show ?thesis
      using Suc.prems by simp
  next
    case (Suc k')
    then show ?thesis
      using Suc.prems Suc.IH [of k' "h + 1"] by (auto simp: mod_simps)
  qed
qed simp

lemma slot_surj:
  assumes "j < BITVEC_NINT"
  shows "\<exists>k<BITVEC_NINT. j = slot h k"
proof (intro exI conjI)
  let ?N = BITVEC_NINT
  have N: "0 < ?N"
    by (simp add: bitvec_consts)
  have "h mod ?N < ?N"
    using N by simp
  then have "h + (j + ?N - h mod ?N) = j + ?N * (h div ?N) + ?N"
    using mult_div_mod_eq [of ?N h] by linarith
  then show "j = slot h ((j + ?N - h mod ?N) mod ?N)"
    using assms by (simp add: mod_add_right_eq)
  show "(j + ?N - h mod ?N) mod ?N < ?N"
    using N by simp
qed

lemma probe_finds:
  assumes "hash_inv a" "0 \<in> set a"
  obtains j where "hash_probe BITVEC_NINT a (BITVEC_HASH h) i = Some j" "j < BITVEC_NINT" "a ! j \<in> {0, i}"
    "\<exists>k<BITVEC_NINT. j = slot h k \<and> (\<forall>m<k. a ! slot h m \<noteq> 0 \<and> a ! slot h m \<noteq> i)"
proof -
  obtain j0 where j0: "j0 < BITVEC_NINT" "a ! j0 = 0"
    using assms by (auto simp: in_set_conv_nth hash_inv_def)
  obtain k where "k < BITVEC_NINT" "j0 = slot h k"
    using slot_surj [OF j0(1)] by blast
  then obtain j where j: "hash_probe BITVEC_NINT a (h mod BITVEC_NINT) i = Some j"
    using hash_probe_total [of k BITVEC_NINT a h i] j0 by auto
  moreover have "j < BITVEC_NINT"
    using hash_probe_Some [OF j] by (auto simp: bitvec_consts)
  ultimately show ?thesis
    using hash_probe_Some [OF j] by (intro that [of j]) (auto simp: BITVEC_HASH_def)
qed

text \<open>A stored value is met before the first free slot of its probe sequence.\<close>

lemma probe_member:
  assumes inv: "hash_inv a" and j: "\<exists>k<BITVEC_NINT. j = slot h k \<and> (\<forall>m<k. a ! slot h m \<noteq> 0 \<and> a ! slot h m \<noteq> h + 1)"
    and aj: "a ! j \<in> {0, h + 1}"
  shows "a ! j \<noteq> 0 \<longleftrightarrow> h + 1 \<in> set a"
proof
  assume nz: "a ! j \<noteq> 0"
  moreover have "j < length a"
    using j inv by (auto simp: hash_inv_def bitvec_consts)
  ultimately show "h + 1 \<in> set a"
    using aj by (metis insertE nth_mem singletonD)
next
  assume "h + 1 \<in> set a"
  then obtain j' where j': "j' < BITVEC_NINT" "a ! j' = h + 1"
    using inv by (auto simp: in_set_conv_nth hash_inv_def)
  then obtain k' where k': "j' = slot h k'" "\<forall>m<k'. a ! slot h m \<noteq> 0"
    using inv unfolding hash_inv_def by (metis add_diff_cancel_right' add_is_0 one_neq_zero)
  obtain k where k: "j = slot h k" "\<forall>m<k. a ! slot h m \<noteq> 0 \<and> a ! slot h m \<noteq> h + 1"
    using j by blast
  have "k \<le> k'"
    using k(2) k'(1) j'(2) by (meson not_le_imp_less)
  then show "a ! j \<noteq> 0"
    using k(1) k' j'(2) by (cases "k = k'") auto
qed

lemma hash_inv_insert:
  assumes inv: "hash_inv a" and j: "j = slot (v - 1) k" "k < BITVEC_NINT" "\<forall>m<k. a ! slot (v - 1) m \<noteq> 0"
    and free: "a ! j = 0" and v: "v \<noteq> 0" "v \<notin> set a"
  shows "hash_inv (a[j := v])"
proof -
  have len: "length a = BITVEC_NINT" and jl: "j < BITVEC_NINT"
    using inv j(1) by (auto simp: hash_inv_def bitvec_consts)
  have nz: "a[j := v] ! m \<noteq> 0" if "a ! m \<noteq> 0" "m < BITVEC_NINT" for m
    using that v len by (cases "m = j") simp_all
  have sl: "slot h m < BITVEC_NINT" for h m
    by (simp add: bitvec_consts)
  have "j1 = j2" if "j1 < BITVEC_NINT" "j2 < BITVEC_NINT" "a[j := v] ! j1 \<noteq> 0" "a[j := v] ! j1 = a[j := v] ! j2" for j1 j2
  proof -
    have "v \<noteq> a ! m" if "m < BITVEC_NINT" for m
      using v(2) len that nth_mem by metis
    moreover have "a ! j1 \<noteq> 0 \<longrightarrow> a ! j1 = a ! j2 \<longrightarrow> j1 = j2"
      using inv that by (simp add: hash_inv_def)
    ultimately show ?thesis
      using that len jl by (cases "j1 = j"; cases "j2 = j") (simp_all, metis)
  qed
  moreover have "\<exists>k<BITVEC_NINT. j1 = slot (a[j := v] ! j1 - 1) k \<and> (\<forall>m<k. a[j := v] ! slot (a[j := v] ! j1 - 1) m \<noteq> 0)"
    if j1: "j1 < BITVEC_NINT" "a[j := v] ! j1 \<noteq> 0" for j1
  proof (cases "j1 = j")
    case True
    then have "a[j := v] ! j1 = v"
      using len jl by simp
    then show ?thesis
      using j True nz sl by (intro exI [of _ k]) simp
  next
    case False
    then have e: "a[j := v] ! j1 = a ! j1"
      by simp
    then obtain k1 where "k1 < BITVEC_NINT" "j1 = slot (a ! j1 - 1) k1" "\<forall>m<k1. a ! slot (a ! j1 - 1) m \<noteq> 0"
      using inv j1 unfolding hash_inv_def by metis
    then show ?thesis
      unfolding e using nz sl by (intro exI [of _ k1]) simp
  qed
  ultimately show ?thesis
    using len unfolding hash_inv_def by (metis length_list_update)
qed

lemma hash_inv_empty: "hash_inv (replicate BITVEC_NINT 0)"
  by (auto simp: hash_inv_def)


section \<open>The set of bits and the invariant\<close>

fun union_bits :: "nat \<Rightarrow> nat set bv_union \<Rightarrow> nat set" where
  "union_bits d (aBitmap a) = {i + 1 |i. i div 8 < length a \<and> bitmap_bit a i}"
| "union_bits d (aHash a) = set a - {0}"
| "union_bits d (apSub ps) =
     (\<Union>k<length ps. case ps ! k of None \<Rightarrow> {} | Some S \<Rightarrow> (\<lambda>x. k * d + x) ` S)"

primrec bv_bits :: "Bitvec \<Rightarrow> nat set" where
  "bv_bits (Bitvec sz n d u) = union_bits d (map_bv_union bv_bits u)"

lemma bv_bits_bitmap [simp]:
  "bv_bits (Bitvec sz n d (aBitmap a)) = {i + 1 |i. i div 8 < length a \<and> bitmap_bit a i}"
  by simp

lemma bv_bits_hash [simp]: "bv_bits (Bitvec sz n d (aHash a)) = set a - {0}"
  by simp

declare bv_bits.simps [simp del]

inductive bv_wf :: "Bitvec \<Rightarrow> bool" where
  bitmap: "sz \<le> BITVEC_NBIT \<Longrightarrow> length a = BITVEC_NELEM \<Longrightarrow>
    \<forall>i. i div 8 < length a \<longrightarrow> bitmap_bit a i \<longrightarrow> i < sz \<Longrightarrow> bv_wf (Bitvec sz n 0 (aBitmap a))"
| hash: "BITVEC_NBIT < sz \<Longrightarrow> hash_inv a \<Longrightarrow> n = card (set a - {0}) \<Longrightarrow> n < BITVEC_NINT \<Longrightarrow>
    \<forall>v\<in>set a. v \<le> sz \<Longrightarrow> bv_wf (Bitvec sz n 0 (aHash a))"
| sub: "BITVEC_NBIT < sz \<Longrightarrow> d = (sz + BITVEC_NPTR - 1) div BITVEC_NPTR \<Longrightarrow> length ps = BITVEC_NPTR \<Longrightarrow>
    (\<And>q. Some q \<in> set ps \<Longrightarrow> bv_wf q \<and> iSize q = d) \<Longrightarrow>
    bv_bits (Bitvec sz n d (apSub ps)) \<subseteq> {1..sz} \<Longrightarrow> bv_wf (Bitvec sz n d (apSub ps))"

inductive_cases bv_wf_cases: "bv_wf p"

inductive_cases bv_wf_subE: "bv_wf (Bitvec sz n d (apSub ps))"

inductive_simps bv_wf_bitmap: "bv_wf (Bitvec sz n d (aBitmap a))"
inductive_simps bv_wf_hash: "bv_wf (Bitvec sz n d (aHash a))"
inductive_simps bv_wf_sub: "bv_wf (Bitvec sz n d (apSub ps))"

lemma bv_bits_range: "bv_wf p \<Longrightarrow> bv_bits p \<subseteq> {1..iSize p}"
  by (induction rule: bv_wf.induct) auto

lemma divisor_bounds:
  assumes "BITVEC_NBIT < sz" "d = (sz + BITVEC_NPTR - 1) div BITVEC_NPTR"
  shows "0 < d" "sz \<le> BITVEC_NPTR * d" "i < sz \<Longrightarrow> i div d < BITVEC_NPTR"
proof -
  show "0 < d"
    using assms by (simp add: bitvec_consts)
  show m: "sz \<le> BITVEC_NPTR * d"
    using assms by (simp add: bitvec_consts)
  show "i div d < BITVEC_NPTR" if "i < sz"
    using that m \<open>0 < d\<close> by (simp add: div_less_iff_less_mult)
qed

lemma sub_bits_mem:
  assumes r: "\<And>q. Some q \<in> set ps \<Longrightarrow> bv_bits q \<subseteq> {1..d}"
  shows "y \<in> bv_bits (Bitvec sz n d (apSub ps))
    \<longleftrightarrow> (\<exists>i q. y = i + 1 \<and> i div d < length ps \<and> ps ! (i div d) = Some q \<and> i mod d + 1 \<in> bv_bits q)"
proof
  assume "y \<in> bv_bits (Bitvec sz n d (apSub ps))"
  then obtain k q x where q: "k < length ps" "ps ! k = Some q" "x \<in> bv_bits q" "y = k * d + x"
    by (auto simp: bv_bits.simps split: option.splits)
  have "x \<in> {1..d}"
    using r [of q] q(2,3) nth_mem [OF q(1)] by auto
  then obtain z where z: "x = Suc z" "z < d"
    by (cases x) auto
  have "(k * d + z) div d = k" "(k * d + z) mod d = z"
    using z(2) by simp_all
  then show "\<exists>i q. y = i + 1 \<and> i div d < length ps \<and> ps ! (i div d) = Some q \<and> i mod d + 1 \<in> bv_bits q"
    using q z by (intro exI [of _ "k * d + z"] exI [of _ q]) simp
next
  assume "\<exists>i q. y = i + 1 \<and> i div d < length ps \<and> ps ! (i div d) = Some q \<and> i mod d + 1 \<in> bv_bits q"
  then obtain i q where q: "y = i + 1" "i div d < length ps" "ps ! (i div d) = Some q" "i mod d + 1 \<in> bv_bits q"
    by blast
  have "i + 1 = i div d * d + (i mod d + 1)"
    using div_mult_mod_eq [of i d] by simp
  with q(4) have "i + 1 \<in> (\<lambda>x. i div d * d + x) ` bv_bits q"
    by (rule image_eqI [rotated])
  then show "y \<in> bv_bits (Bitvec sz n d (apSub ps))"
    unfolding bv_bits.simps bv_union.map union_bits.simps
    using q(1-3) by (intro UN_I [of "i div d"]) simp_all
qed

lemma sub_bits_iff:
  assumes "\<And>q. Some q \<in> set ps \<Longrightarrow> bv_bits q \<subseteq> {1..d}" and "i div d < length ps"
  shows "i + 1 \<in> bv_bits (Bitvec sz n d (apSub ps))
    \<longleftrightarrow> (\<exists>q. ps ! (i div d) = Some q \<and> i mod d + 1 \<in> bv_bits q)"
  using sub_bits_mem [where y = "i + 1" and sz = sz and n = n, OF assms(1)] assms(2) by auto

lemma sub_wf_range: "bv_wf (Bitvec sz n d (apSub ps)) \<Longrightarrow> Some q \<in> set ps \<Longrightarrow> bv_bits q \<subseteq> {1..d}"
  using bv_bits_range [of q] by (metis bv_wf_sub)

lemma hash_zero_slot: "hash_inv a \<Longrightarrow> card (set a - {0}) < BITVEC_NINT \<Longrightarrow> 0 \<in> set a"
proof (rule ccontr)
  assume inv: "hash_inv a" and c: "card (set a - {0}) < BITVEC_NINT" and z: "0 \<notin> set a"
  have "a ! j \<noteq> 0" if "j < length a" for j
    using z that nth_mem by metis
  then have "distinct a"
    using inv unfolding distinct_conv_nth hash_inv_def by metis
  then have "card (set a) = BITVEC_NINT"
    using inv by (simp add: distinct_card hash_inv_def)
  with c z show False
    by simp
qed

section \<open>Testing\<close>

lemma bitvec_test_bits: "bv_wf p \<Longrightarrow> i < iSize p \<Longrightarrow> bitvec_test p i = Some (i + 1 \<in> bv_bits p)"
proof (induction arbitrary: i rule: bv_wf.induct)
  case (bitmap sz a n)
  then have "i div 8 < length a"
    by (simp add: bitvec_consts)
  then show ?case
    using bitmap by (subst bitvec_test.simps) simp
next
  case (hash sz a n)
  have z: "0 \<in> set a"
    using hash_zero_slot [OF hash(2)] hash(3,4) by simp
  obtain j where j: "hash_probe BITVEC_NINT a (BITVEC_HASH i) (i + 1) = Some j" "a ! j \<in> {0, i + 1}"
    "\<exists>k<BITVEC_NINT. j = slot i k \<and> (\<forall>m<k. a ! slot i m \<noteq> 0 \<and> a ! slot i m \<noteq> i + 1)"
    by (rule probe_finds [OF hash(2) z, of i "i + 1"])
  have "i + 1 \<in> set a \<longleftrightarrow> a ! j \<noteq> 0"
    using probe_member [OF hash(2) j(3,2)] by simp
  then show ?case
    using hash(1) j(1) by (subst bitvec_test.simps) simp
next
  case (sub sz d ps n)
  note db = divisor_bounds [OF sub(1,2)]
  have k: "i div d < length ps"
    using db(3) sub by simp
  have b: "i + 1 \<in> bv_bits (Bitvec sz n d (apSub ps))
      \<longleftrightarrow> (\<exists>q. ps ! (i div d) = Some q \<and> i mod d + 1 \<in> bv_bits q)"
    using sub.IH bv_bits_range k by (intro sub_bits_iff) blast+
  show ?case
  proof (cases "ps ! (i div d)")
    case None
    then show ?thesis
      using b db(1) k by (subst bitvec_test.simps) simp
  next
    case (Some q)
    then have q: "Some q \<in> set ps"
      using k by (metis nth_mem)
    have "bitvec_test q (i mod d) = Some (i mod d + 1 \<in> bv_bits q)"
      using sub.IH [OF q] db(1) by simp
    then show ?thesis
      using Some b db(1) k by (subst bitvec_test.simps) simp
  qed
qed


section \<open>Setting\<close>

lemma set_update_free:
  assumes "j < length a" "a ! j = 0" "v \<noteq> 0"
  shows "set (a[j := v]) - {0} = insert v (set a - {0})"
proof -
  have a: "a = take j a @ 0 # drop (Suc j) a" and u: "a[j := v] = take j a @ v # drop (Suc j) a"
    using assms id_take_nth_drop upd_conv_take_nth_drop by metis+
  have "set a = set (take j a) \<union> {0} \<union> set (drop (Suc j) a)"
    by (subst a) (simp add: Un_commute)
  then show ?thesis
    unfolding u using assms(3) by auto
qed

lemma hash_insert_wf:
  assumes wf: "bv_wf (Bitvec sz n 0 (aHash a))" and n: "n < BITVEC_NINT - 1" and i: "i < sz"
    and j: "j < BITVEC_NINT" "a ! j = 0" "i + 1 \<notin> set a"
      "\<exists>k<BITVEC_NINT. j = slot i k \<and> (\<forall>m<k. a ! slot i m \<noteq> 0 \<and> a ! slot i m \<noteq> i + 1)"
  shows "bv_wf (Bitvec sz (n + 1) 0 (aHash (a[j := i + 1])))
    \<and> bv_bits (Bitvec sz (n + 1) 0 (aHash (a[j := i + 1]))) = insert (i + 1) (bv_bits (Bitvec sz n 0 (aHash a)))"
proof -
  have w: "BITVEC_NBIT < sz" "hash_inv a" "n = card (set a - {0})" "\<forall>v\<in>set a. v \<le> sz"
    using wf by (auto simp: bv_wf_hash)
  have s: "set (a[j := i + 1]) - {0} = insert (i + 1) (set a - {0})"
    using j w(2) by (intro set_update_free) (auto simp: hash_inv_def)
  have "hash_inv (a[j := i + 1])"
    using w(2) j by (auto intro!: hash_inv_insert)
  moreover have "card (insert (i + 1) (set a - {0})) = n + 1"
    using j(3) w(3) by simp
  moreover have "\<forall>v\<in>set (a[j := i + 1]). v \<le> sz"
    using w(4) i set_update_subset_insert [of a j "i + 1"] by auto
  ultimately show ?thesis
    using s w(1) n by (simp add: bv_wf_hash)
qed

lemma bitmap_bit_bit: "bitmap_bit a i \<longleftrightarrow> bit (a ! (i div 8)) (i mod 8)"
  by (simp add: bitmap_bit_def and_exp_eq_0_iff_not_bit)

lemma bit_exp_u8: "m < 8 \<Longrightarrow> bit (2 ^ m :: u8) k \<longleftrightarrow> k = m"
  by (auto simp: bit_exp_iff)

lemma bitmap_upd:
  assumes "i div 8 < length a" "x div 8 < length a"
  shows "bitmap_bit (a[i div 8 := (a ! (i div 8)) OR push_bit (i mod 8) 1]) x \<longleftrightarrow> x = i \<or> bitmap_bit a x"
    "bitmap_bit (a[i div 8 := (a ! (i div 8)) AND NOT (push_bit (i mod 8) 1)]) x \<longleftrightarrow> x \<noteq> i \<and> bitmap_bit a x"
proof -
  have e: "x = i \<longleftrightarrow> x div 8 = i div 8 \<and> x mod 8 = i mod 8"
    by (metis div_mult_mod_eq)
  have m: "x mod 8 < LENGTH(8)"
    by simp
  show "bitmap_bit (a[i div 8 := (a ! (i div 8)) OR push_bit (i mod 8) 1]) x \<longleftrightarrow> x = i \<or> bitmap_bit a x"
    using assms by (auto simp: bitmap_bit_bit bit_or_iff bit_exp_u8 e nth_list_update)
  show "bitmap_bit (a[i div 8 := (a ! (i div 8)) AND NOT (push_bit (i mod 8) 1)]) x \<longleftrightarrow> x \<noteq> i \<and> bitmap_bit a x"
    using assms m by (auto simp: bitmap_bit_bit bit_and_iff bit_not_iff bit_exp_u8 e nth_list_update)
qed

lemma bitmap_set_wf:
  assumes wf: "bv_wf (Bitvec sz n 0 (aBitmap a))" and i: "i < sz"
  defines "a' \<equiv> a[i div 8 := (a ! (i div 8)) OR push_bit (i mod 8) 1]"
  shows "i div 8 < length a" "bv_wf (Bitvec sz n 0 (aBitmap a'))
    \<and> bv_bits (Bitvec sz n 0 (aBitmap a')) = insert (i + 1) (bv_bits (Bitvec sz n 0 (aBitmap a)))"
proof -
  show l: "i div 8 < length a"
    using wf i by (auto simp: bv_wf_bitmap bitvec_consts)
  have "bitmap_bit a' x \<longleftrightarrow> x = i \<or> bitmap_bit a x" if "x div 8 < length a" for x
    using bitmap_upd(1) [OF l that] by (simp add: a'_def)
  then show "bv_wf (Bitvec sz n 0 (aBitmap a'))
    \<and> bv_bits (Bitvec sz n 0 (aBitmap a')) = insert (i + 1) (bv_bits (Bitvec sz n 0 (aBitmap a)))"
    using wf i l by (auto simp: bv_wf_bitmap a'_def)
qed

lemma zeroed_wf: "bv_wf (bitvec_zeroed sz) \<and> bv_bits (bitvec_zeroed sz) = {} \<and> iSize (bitvec_zeroed sz) = sz"
  using hash_inv_empty
  by (auto simp: bitvec_zeroed_def bv_wf_bitmap bv_wf_hash bitmap_bit_bit bitvec_consts)

lemma sub_update_bits:
  assumes r: "\<forall>q. Some q \<in> set ps \<longrightarrow> bv_bits q \<subseteq> {1..d}" and k: "i div d < length ps"
    and q: "bv_bits q \<subseteq> {1..d}"
    and old: "case ps ! (i div d) of None \<Rightarrow> B = {} | Some q0 \<Rightarrow> B = bv_bits q0"
  shows "bv_bits q = insert (i mod d + 1) B \<Longrightarrow>
      bv_bits (Bitvec sz n d (apSub (ps[i div d := Some q]))) = insert (i + 1) (bv_bits (Bitvec sz n d (apSub ps)))"
    "bv_bits q \<subseteq> insert (i mod d + 1) B \<Longrightarrow>
      bv_bits (Bitvec sz n d (apSub (ps[i div d := Some q]))) \<subseteq> insert (i + 1) (bv_bits (Bitvec sz n d (apSub ps)))"
    "bv_bits q = B - {i mod d + 1} \<Longrightarrow>
      bv_bits (Bitvec sz n d (apSub (ps[i div d := Some q]))) = bv_bits (Bitvec sz n d (apSub ps)) - {i + 1}"
proof -
  let ?ps = "ps[i div d := Some q]" and ?B = "\<lambda>ps. bv_bits (Bitvec sz n d (apSub ps))"
  have r': "\<And>q'. Some q' \<in> set ?ps \<Longrightarrow> bv_bits q' \<subseteq> {1..d}"
    using r q set_update_subset_insert [of ps "i div d" "Some q"] by auto
  have m: "y \<in> ?B ps \<longleftrightarrow> (\<exists>i q. y = i + 1 \<and> i div d < length ps \<and> ps ! (i div d) = Some q \<and> i mod d + 1 \<in> bv_bits q)" for y
    using r by (intro sub_bits_mem) simp
  have m': "y \<in> ?B ?ps \<longleftrightarrow> (\<exists>i q'. y = i + 1 \<and> i div d < length ?ps \<and> ?ps ! (i div d) = Some q' \<and> i mod d + 1 \<in> bv_bits q')" for y
    using r' by (rule sub_bits_mem)
  have z: "0 \<notin> ?B ps" "0 \<notin> ?B ?ps"
    unfolding m m' by simp_all
  have same: "Suc j \<in> ?B ?ps \<longleftrightarrow> j mod d + 1 \<in> bv_bits q" "Suc j \<in> ?B ps \<longleftrightarrow> j mod d + 1 \<in> B"
    if "j div d = i div d" for j
    using that k old unfolding m m' by (auto split: option.splits)
  have other: "Suc j \<in> ?B ?ps \<longleftrightarrow> Suc j \<in> ?B ps" if "j div d \<noteq> i div d" for j
    using that unfolding m m' by auto
  have eq: "j = i \<longleftrightarrow> j div d = i div d \<and> j mod d = i mod d" for j
    by (metis div_mult_mod_eq)
  have "y \<in> ?B ?ps \<longleftrightarrow> y \<in> insert (i + 1) (?B ps)" if "bv_bits q = insert (i mod d + 1) B" for y
  proof (cases y)
    case (Suc j)
    then show ?thesis
      using same [of j] other [of j] eq [of j] that by (cases "j div d = i div d") auto
  qed (use z in simp)
  then show "bv_bits q = insert (i mod d + 1) B \<Longrightarrow> ?B ?ps = insert (i + 1) (?B ps)"
    by blast
  have "y \<in> ?B ?ps \<Longrightarrow> y \<in> insert (i + 1) (?B ps)" if "bv_bits q \<subseteq> insert (i mod d + 1) B" for y
  proof (cases y)
    case (Suc j)
    then show "y \<in> ?B ?ps \<Longrightarrow> y \<in> insert (i + 1) (?B ps)"
      using same [of j] other [of j] eq [of j] that by (cases "j div d = i div d") auto
  qed (use z in simp)
  then show "bv_bits q \<subseteq> insert (i mod d + 1) B \<Longrightarrow> ?B ?ps \<subseteq> insert (i + 1) (?B ps)"
    by blast
  have "y \<in> ?B ?ps \<longleftrightarrow> y \<in> ?B ps - {i + 1}" if "bv_bits q = B - {i mod d + 1}" for y
  proof (cases y)
    case (Suc j)
    then show ?thesis
      using same [of j] other [of j] eq [of j] that by (cases "j div d = i div d") auto
  qed (use z in simp)
  then show "bv_bits q = B - {i mod d + 1} \<Longrightarrow> ?B ?ps = ?B ps - {i + 1}"
    by blast
qed


definition set_ok :: "bool list \<Rightarrow> Bitvec \<Rightarrow> nat \<Rightarrow> (bool \<times> Bitvec \<times> bool list) option \<Rightarrow> bool" where
  "set_ok w p i r \<longleftrightarrow> (case r of None \<Rightarrow> False | Some (rc, p', w') \<Rightarrow>
     bv_wf p' \<and> iSize p' = iSize p \<and> (iDivisor p \<noteq> 0 \<longrightarrow> iDivisor p' \<noteq> 0)
     \<and> bv_bits p' \<subseteq> insert (i + 1) (bv_bits p) \<and> (rc \<longrightarrow> bv_bits p' = insert (i + 1) (bv_bits p))
     \<and> (w = [] \<longrightarrow> rc \<and> w' = []))"

lemma sub_replace_wf:
  assumes wf: "bv_wf (Bitvec sz n d (apSub ps))" and i: "i < sz" and q: "bv_wf q" "iSize q = d"
    and b: "bv_bits (Bitvec sz n d (apSub (ps[k := Some q]))) \<subseteq> insert (i + 1) (bv_bits (Bitvec sz n d (apSub ps)))"
  shows "bv_wf (Bitvec sz n d (apSub (ps[k := Some q])))"
proof (rule bv_wf.sub)
  have w: "BITVEC_NBIT < sz" "d = (sz + BITVEC_NPTR - 1) div BITVEC_NPTR" "length ps = BITVEC_NPTR"
    "\<And>q. Some q \<in> set ps \<Longrightarrow> bv_wf q \<and> iSize q = d" "bv_bits (Bitvec sz n d (apSub ps)) \<subseteq> {1..sz}"
    using wf by (auto elim!: bv_wf_subE)
  show "BITVEC_NBIT < sz" "d = (sz + BITVEC_NPTR - 1) div BITVEC_NPTR" "length (ps[k := Some q]) = BITVEC_NPTR"
    using w(1-3) by simp_all
  show "bv_wf q' \<and> iSize q' = d" if "Some q' \<in> set (ps[k := Some q])" for q'
    using that w(4) q set_update_subset_insert [of ps k "Some q"] by auto
  show "bv_bits (Bitvec sz n d (apSub (ps[k := Some q]))) \<subseteq> {1..sz}"
    using b w(5) i by auto
qed

lemma set_sub:
  assumes wf: "bv_wf (Bitvec sz n d (apSub ps))" and i: "i < sz"
    and child: "\<And>w q j. bv_wf q \<Longrightarrow> iSize q = d \<Longrightarrow> j < d \<Longrightarrow> set_ok w q j (bitvec_set f w q j)"
  shows "set_ok w (Bitvec sz n d (apSub ps)) i (bitvec_set (Suc f) w (Bitvec sz n d (apSub ps)) i)"
proof -
  have w: "BITVEC_NBIT < sz" "d = (sz + BITVEC_NPTR - 1) div BITVEC_NPTR" "length ps = BITVEC_NPTR"
    "\<And>q. Some q \<in> set ps \<Longrightarrow> bv_wf q \<and> iSize q = d"
    using wf by (simp_all add: bv_wf_sub)
  note db = divisor_bounds [OF w(1,2)]
  have k: "i div d < length ps"
    using db(3) [OF i] w(3) by simp
  show ?thesis
  proof (cases "ps ! (i div d) = None \<and> \<not> fst (malloc w)")
    case True
    then obtain w1 where "malloc w = (False, w1)"
      by (cases "malloc w") auto
    then have "bitvec_set (Suc f) w (Bitvec sz n d (apSub ps)) i = Some (False, Bitvec sz n d (apSub ps), w1)"
      using True w(1) db(1) k by (simp add: bitvec_set.simps sqlite3BitvecCreate_def)
    moreover have "w \<noteq> []"
      using True by (auto simp: malloc_def)
    ultimately show ?thesis
      using wf db(1) by (auto simp: set_ok_def)
  next
    case False
    define q0 where "q0 = (case ps ! (i div d) of Some q \<Rightarrow> q | None \<Rightarrow> bitvec_zeroed d)"
    define w0 where "w0 = (case ps ! (i div d) of Some q \<Rightarrow> w | None \<Rightarrow> snd (malloc w))"
    have q0: "bv_wf q0" "iSize q0 = d" and old: "case ps ! (i div d) of None \<Rightarrow> bv_bits q0 = {} | Some q \<Rightarrow> bv_bits q0 = bv_bits q"
      using w(4) nth_mem [OF k] zeroed_wf [of d] by (auto simp: q0_def split: option.splits)
    have w0: "w = [] \<Longrightarrow> w0 = []"
      by (auto simp: w0_def malloc_def split: option.splits)
    have sel: "(case ps ! (i div d) of Some q \<Rightarrow> (Some q, w) | None \<Rightarrow> sqlite3BitvecCreate w d) = (Some q0, w0)"
      using False by (auto simp: q0_def w0_def sqlite3BitvecCreate_def split: option.splits prod.splits)
    obtain rc q w' where r: "bitvec_set f w0 q0 (i mod d) = Some (rc, q, w')"
      and q: "bv_wf q" "iSize q = d" "bv_bits q \<subseteq> insert (i mod d + 1) (bv_bits q0)"
        "rc \<Longrightarrow> bv_bits q = insert (i mod d + 1) (bv_bits q0)" "w0 = [] \<Longrightarrow> rc \<and> w' = []"
      using child [OF q0, of "i mod d" w0] db(1) q0(2) by (auto simp: set_ok_def split: option.splits)
    let ?p' = "Bitvec sz n d (apSub (ps[i div d := Some q]))"
    have res: "bitvec_set (Suc f) w (Bitvec sz n d (apSub ps)) i = Some (rc, ?p', w')"
      using w(1) db(1) k r sel by (simp add: bitvec_set.simps)
    have qr: "bv_bits q \<subseteq> {1..d}"
      using bv_bits_range [OF q(1)] q(2) by simp
    have rng: "\<forall>q. Some q \<in> set ps \<longrightarrow> bv_bits q \<subseteq> {1..d}"
      using sub_wf_range [OF wf] by blast
    note upd = sub_update_bits [OF rng k qr old, where sz = sz and n = n]
    have "bv_wf ?p'"
      using sub_replace_wf [OF wf i q(1,2) upd(2) [OF q(3)]] .
    then show ?thesis
      unfolding res set_ok_def using upd(2) [OF q(3)] upd(1) [OF q(4)] q(5) w0 db(1) by auto
  qed
qed

lemma set_values_ok:
  assumes step: "\<And>w q j. bv_wf q \<Longrightarrow> iSize q = sz \<Longrightarrow> iDivisor q \<noteq> 0 \<Longrightarrow> j < sz \<Longrightarrow> set_ok w q j (set1 w q j)"
    and "bv_wf p" "iSize p = sz" "iDivisor p \<noteq> 0" "\<forall>v\<in>set vs. v \<le> sz"
  shows "\<exists>rc' p' w'. set_values set1 rc w p vs = Some (rc', p', w') \<and> bv_wf p' \<and> iSize p' = sz
    \<and> bv_bits p' \<subseteq> bv_bits p \<union> (set vs - {0}) \<and> (rc' \<longrightarrow> rc \<and> bv_bits p' = bv_bits p \<union> (set vs - {0}))
    \<and> (w = [] \<longrightarrow> rc' = rc \<and> w' = [])"
  using assms(2-5)
proof (induction vs arbitrary: rc w p)
  case (Cons v vs)
  show ?case
  proof (cases "v = 0")
    case True
    then show ?thesis
      using Cons.IH [OF Cons.prems(1-3), of rc w] Cons.prems(4) by (simp add: Diff_insert_absorb)
  next
    case False
    then have "set_ok w p (v - 1) (set1 w p (v - 1))"
      using step [OF Cons.prems(1-3), of "v - 1" w] Cons.prems(4) by auto
    then obtain rc1 p1 w1 where r: "set1 w p (v - 1) = Some (rc1, p1, w1)" "bv_wf p1" "iSize p1 = sz"
      "iDivisor p1 \<noteq> 0" "bv_bits p1 \<subseteq> insert v (bv_bits p)" "rc1 \<longrightarrow> bv_bits p1 = insert v (bv_bits p)"
      "w = [] \<longrightarrow> rc1 \<and> w1 = []"
      using False Cons.prems(2,3) by (auto simp: set_ok_def split: option.splits)
    obtain rc2 p2 w2 where s: "set_values set1 (rc \<and> rc1) w1 p1 vs = Some (rc2, p2, w2)" "bv_wf p2" "iSize p2 = sz"
      "bv_bits p2 \<subseteq> bv_bits p1 \<union> (set vs - {0})" "rc2 \<longrightarrow> (rc \<and> rc1) \<and> bv_bits p2 = bv_bits p1 \<union> (set vs - {0})"
      "w1 = [] \<longrightarrow> rc2 = (rc \<and> rc1) \<and> w2 = []"
      using Cons.IH [OF r(2-4), of "rc \<and> rc1" w1] Cons.prems(4) by auto
    have v: "set (v # vs) - {0} = insert v (set vs - {0})"
      using False by auto
    show ?thesis
    proof (intro exI conjI)
      show "set_values set1 rc w p (v # vs) = Some (rc2, p2, w2)"
        using False r(1) s(1) by simp
      show "bv_bits p2 \<subseteq> bv_bits p \<union> (set (v # vs) - {0})"
        unfolding v using r(5) s(4) by blast
      show "rc2 \<longrightarrow> rc \<and> bv_bits p2 = bv_bits p \<union> (set (v # vs) - {0})"
        unfolding v using r(6) s(5) by blast
      show "w = [] \<longrightarrow> rc2 = rc \<and> w2 = []"
        using r(7) s(6) by blast
    qed (use s(2,3) in simp_all)
  qed
qed simp


lemma fresh_sub_wf:
  fixes n :: nat
  assumes "BITVEC_NBIT < sz"
  defines "p \<equiv> Bitvec sz n ((sz + BITVEC_NPTR - 1) div BITVEC_NPTR) (apSub (replicate BITVEC_NPTR None))"
  shows "bv_wf p" "bv_bits p = {}"
proof -
  show b: "bv_bits p = {}"
    by (simp add: p_def bv_bits.simps)
  show "bv_wf p"
    unfolding p_def by (rule bv_wf.sub) (use assms(1) b in \<open>simp_all add: p_def\<close>)
qed

lemma set_hash:
  assumes wf: "bv_wf (Bitvec sz n 0 (aHash a))" and i: "i < sz"
    and step: "\<And>w q j. bv_wf q \<Longrightarrow> iSize q = sz \<Longrightarrow> iDivisor q \<noteq> 0 \<Longrightarrow> j < sz \<Longrightarrow>
      set_ok w q j (bitvec_set f w q j)"
  shows "set_ok w (Bitvec sz n 0 (aHash a)) i (bitvec_set (Suc f) w (Bitvec sz n 0 (aHash a)) i)"
proof -
  let ?p = "Bitvec sz n 0 (aHash a)" and ?h = "BITVEC_HASH i"
  have inv: "BITVEC_NBIT < sz" "hash_inv a" "n = card (set a - {0})" "n < BITVEC_NINT" "\<forall>v\<in>set a. v \<le> sz"
    using wf by (auto simp: bv_wf_hash)
  obtain j where j: "hash_probe BITVEC_NINT a ?h (i + 1) = Some j" "j < BITVEC_NINT" "a ! j \<in> {0, i + 1}"
    "\<exists>k<BITVEC_NINT. j = slot i k \<and> (\<forall>m<k. a ! slot i m \<noteq> 0 \<and> a ! slot i m \<noteq> i + 1)"
    using probe_finds [OF inv(2) hash_zero_slot [OF inv(2)], of i "i + 1"] inv(3,4) by blast
  note mem = probe_member [OF inv(2) j(4,3)]
  have len: "length a = BITVEC_NINT"
    using inv(2) by (simp add: hash_inv_def)
  have ins: "set_ok w ?p i (Some (True, Bitvec sz (n + 1) 0 (aHash (a[j := i + 1])), w))"
    if "a ! j = 0" "n < BITVEC_NINT - 1"
    using hash_insert_wf [OF wf that(2) i j(2) that(1) _ j(4)] mem that(1) by (simp add: set_ok_def)
  consider (direct) "a ! ?h = 0" "n < BITVEC_NINT - 1" | (found) "\<not> (a ! ?h = 0 \<and> n < BITVEC_NINT - 1)" "a ! j = i + 1"
    | (room) "\<not> (a ! ?h = 0 \<and> n < BITVEC_NINT - 1)" "a ! j = 0" "n < BITVEC_MXHASH"
    | (split) "\<not> (a ! ?h = 0 \<and> n < BITVEC_NINT - 1)" "a ! j = 0" "n \<ge> BITVEC_MXHASH"
    using j(3) by fastforce
  then show ?thesis
  proof cases
    case direct
    moreover have "j = ?h"
      using j(1) direct(1) by (simp add: bitvec_consts eval_nat_numeral)
    ultimately show ?thesis
      using ins inv(1) by (simp add: bitvec_set.simps)
  next
    case found
    then have "bitvec_set (Suc f) w ?p i = Some (True, ?p, w)"
      using j(1) inv(1) by (auto simp: bitvec_set.simps Let_def)
    moreover have "i + 1 \<in> set a"
      using mem found(2) by simp
    ultimately show ?thesis
      using wf by (simp add: set_ok_def insert_absorb)
  next
    case room
    then have "bitvec_set (Suc f) w ?p i = Some (True, Bitvec sz (n + 1) 0 (aHash (a[j := i + 1])), w)"
      using j(1) inv(1) by (auto simp: bitvec_set.simps Let_def)
    then show ?thesis
      using ins room by (simp add: bitvec_consts)
  next
    case split
    obtain ok w1 where m: "malloc w = (ok, w1)"
      by fastforce
    have w1: "w = [] \<Longrightarrow> ok \<and> w1 = []"
      using m by (simp add: malloc_def)
    show ?thesis
    proof (cases ok)
      case False
      then have "bitvec_set (Suc f) w ?p i = Some (False, ?p, w1)"
        using j(1) inv(1) split m by (auto simp: bitvec_set.simps Let_def)
      then show ?thesis
        using wf w1 False by (auto simp: set_ok_def)
    next
      case True
      let ?d = "(sz + BITVEC_NPTR - 1) div BITVEC_NPTR"
      let ?q = "Bitvec sz n ?d (apSub (replicate BITVEC_NPTR None))"
      note fr = fresh_sub_wf [OF inv(1), where n = n]
      have d: "?d \<noteq> 0"
        using divisor_bounds(1) [OF inv(1) refl] by simp
      obtain rc2 p2 w2 where r: "bitvec_set f w1 ?q i = Some (rc2, p2, w2)" "bv_wf p2" "iSize p2 = sz"
        "iDivisor p2 \<noteq> 0" "bv_bits p2 \<subseteq> {i + 1}" "rc2 \<longrightarrow> bv_bits p2 = {i + 1}" "w1 = [] \<longrightarrow> rc2 \<and> w2 = []"
        using step [of ?q i w1] fr d i by (auto simp: set_ok_def split: option.splits)
      obtain rc3 p3 w3 where v: "set_values (bitvec_set f) rc2 w2 p2 a = Some (rc3, p3, w3)" "bv_wf p3" "iSize p3 = sz"
        "bv_bits p3 \<subseteq> bv_bits p2 \<union> (set a - {0})" "rc3 \<longrightarrow> rc2 \<and> bv_bits p3 = bv_bits p2 \<union> (set a - {0})"
        "w2 = [] \<longrightarrow> rc3 = rc2 \<and> w3 = []"
        using set_values_ok [where ?set1.0 = "bitvec_set f" and sz = sz, OF step r(2-4) inv(5), of rc2 w2] by blast
      have "bitvec_set (Suc f) w ?p i = Some (rc3, p3, w3)"
        using j(1) inv(1) split m True r(1) v(1) by (auto simp: bitvec_set.simps Let_def)
      moreover have "bv_bits p3 \<subseteq> insert (i + 1) (set a - {0})"
        using v(4) r(5) by blast
      moreover have "rc3 \<longrightarrow> bv_bits p3 = insert (i + 1) (set a - {0})"
        using v(5) r(6) by blast
      moreover have "w = [] \<longrightarrow> rc3 \<and> w3 = []"
        using w1 r(7) v(6) by blast
      ultimately show ?thesis
        using v(2,3) by (simp add: set_ok_def)
    qed
  qed
qed

lemma set_bitmap:
  assumes wf: "bv_wf (Bitvec sz n 0 (aBitmap a))" and i: "i < sz"
  shows "set_ok w (Bitvec sz n 0 (aBitmap a)) i (bitvec_set (Suc f) w (Bitvec sz n 0 (aBitmap a)) i)"
proof -
  have "sz \<le> BITVEC_NBIT"
    using wf by (auto simp: bv_wf_bitmap)
  then show ?thesis
    using bitmap_set_wf [OF wf i] by (simp add: bitvec_set.simps set_ok_def)
qed

text \<open>
  Enough fuel: a vector of size at most \<open>3968 * 62^k\<close> needs \<open>2k\<close> levels when it is divided already
  and \<open>2k + 1\<close> otherwise.
\<close>

lemma bitvec_set_ok:
  "bv_wf p \<Longrightarrow> i < iSize p \<Longrightarrow> iSize p \<le> BITVEC_NBIT * BITVEC_NPTR ^ k \<Longrightarrow>
   (if iDivisor p = 0 then 2 * k + 1 else 2 * k) \<le> f \<Longrightarrow> set_ok w p i (bitvec_set f w p i)"
proof (induction k arbitrary: p i f w)
  case 0
  show ?case
    using "0.prems"(1)
  proof (cases rule: bv_wf.cases)
    case (bitmap sz a n)
    then obtain f' where "f = Suc f'"
      using "0.prems"(4) by (cases f) auto
    then show ?thesis
      using set_bitmap "0.prems" bitmap by simp
  qed (use "0.prems"(3) in simp_all)
next
  case (Suc k)
  have sub: "set_ok w p i (bitvec_set f w p i)"
    if p: "bv_wf p" "i < iSize p" "iSize p \<le> BITVEC_NBIT * BITVEC_NPTR ^ Suc k" "iDivisor p \<noteq> 0"
      and f: "2 * Suc k \<le> f" for w p i f
  proof -
    obtain f' where f': "f = Suc f'" "2 * k + 1 \<le> f'"
      using f by (cases f) auto
    obtain sz d ps n where s: "p = Bitvec sz n d (apSub ps)" "d = (sz + BITVEC_NPTR - 1) div BITVEC_NPTR"
      using p(1,4) by (auto elim: bv_wf.cases)
    have "d \<le> BITVEC_NBIT * BITVEC_NPTR ^ k"
      using p(3) s by (simp add: bitvec_consts)
    then show ?thesis
      unfolding s(1) f'(1)
      using p s f'(2) by (intro set_sub Suc.IH) (auto split: if_splits)
  qed
  obtain f' where f': "f = Suc f'"
    using Suc.prems(4) by (cases f) (auto split: if_splits)
  show ?case
  proof (cases "iDivisor p = 0")
    case False
    then show ?thesis
      using sub Suc.prems by simp
  next
    case True
    from Suc.prems(1) show ?thesis
    proof (cases rule: bv_wf.cases)
      case (bitmap sz a n)
      then show ?thesis
        unfolding f' using set_bitmap Suc.prems by simp
    next
      case (hash sz a n)
      then show ?thesis
        unfolding f' using Suc.prems True f'
        by (simp only: hash) (intro set_hash sub; simp)
    next
      case (sub sz d ps n)
      then show ?thesis
        using True divisor_bounds(1) [OF sub(2,3)] by simp
    qed
  qed
qed


section \<open>Clearing\<close>

lemma hash_distinct: "hash_inv a \<Longrightarrow> distinct (filter (\<lambda>v. v \<noteq> 0) a)"
proof -
  assume inv: "hash_inv a"
  have "distinct (filter (\<lambda>v. v \<noteq> 0) xs)"
    if "\<forall>j<length xs. \<forall>k<length xs. xs ! j \<noteq> 0 \<longrightarrow> xs ! j = xs ! k \<longrightarrow> j = k" for xs :: "nat list"
    using that
  proof (induction xs)
    case (Cons x xs)
    have h: "\<forall>k<length xs. x \<noteq> 0 \<longrightarrow> x \<noteq> xs ! k"
      using Cons.prems by (metis Suc_less_eq length_Cons nth_Cons_0 nth_Cons_Suc old.nat.distinct(1) zero_less_Suc)
    have "\<forall>j<length xs. \<forall>k<length xs. xs ! j \<noteq> 0 \<longrightarrow> xs ! j = xs ! k \<longrightarrow> j = k"
      using Cons.prems by (metis Suc_less_eq length_Cons nat.inject nth_Cons_Suc)
    then show ?case
      using Cons.IH h by (auto simp: in_set_conv_nth)
  qed simp
  then show ?thesis
    using inv by (simp add: hash_inv_def)
qed

lemma hash_rebuild_ok:
  assumes "hash_inv a" "n = card (set a - {0})" "distinct (filter (\<lambda>v. v \<noteq> 0) vs)"
    "(set vs - {0}) \<inter> set a = {}" "n + length (filter (\<lambda>v. v \<noteq> 0) vs) < BITVEC_NINT"
  shows "\<exists>n' a'. hash_rebuild x vs (n, a) = Some (n', a') \<and> hash_inv a'
    \<and> n' = card (set a' - {0}) \<and> n' < BITVEC_NINT \<and> set a' - {0} = (set a - {0}) \<union> (set vs - {0, x})"
  using assms
proof (induction vs arbitrary: n a)
  case (Cons v vs)
  show ?case
  proof (cases "v \<noteq> 0 \<and> v \<noteq> x")
    case False
    have "(set (v # vs) - {0, x}) = set vs - {0, x}"
      using False by auto
    moreover have "distinct (filter (\<lambda>v. v \<noteq> 0) vs)" "(set vs - {0}) \<inter> set a = {}"
      "n + length (filter (\<lambda>v. v \<noteq> 0) vs) < BITVEC_NINT"
      using Cons.prems(3-5) by (auto split: if_splits)
    ultimately show ?thesis
      using Cons.IH [OF Cons.prems(1,2)] False by auto
  next
    case True
    have z: "0 \<in> set a"
      using Cons.prems by (intro hash_zero_slot) auto
    obtain j where j: "hash_probe BITVEC_NINT a (BITVEC_HASH (v - 1)) 0 = Some j" "j < BITVEC_NINT" "a ! j \<in> {0, 0}"
      "\<exists>k<BITVEC_NINT. j = slot (v - 1) k \<and> (\<forall>m<k. a ! slot (v - 1) m \<noteq> 0 \<and> a ! slot (v - 1) m \<noteq> 0)"
      by (rule probe_finds [OF Cons.prems(1) z, of "v - 1" 0])
    have v: "v \<notin> set a" "v \<noteq> 0"
      using Cons.prems(4) True by auto
    obtain k where k: "k < BITVEC_NINT" "j = slot (v - 1) k" "\<forall>m<k. a ! slot (v - 1) m \<noteq> 0"
      using j(4) by blast
    have inv': "hash_inv (a[j := v])"
      using j(3) by (intro hash_inv_insert [OF Cons.prems(1) k(2,1,3) _ v(2,1)]) simp
    have "j < length a"
      using Cons.prems(1) j(2) by (simp add: hash_inv_def)
    then have st: "set (a[j := v]) - {0} = insert v (set a - {0})"
      using j(3) v(2) by (intro set_update_free) simp_all
    have c: "n + 1 = card (set (a[j := v]) - {0})"
      unfolding st using v Cons.prems(2) by simp
    have dj: "(set vs - {0}) \<inter> set (a[j := v]) = {}"
    proof -
      have "v \<notin> set vs"
        using Cons.prems(3) True by simp
      then have "(set vs - {0}) \<inter> insert v (set a - {0}) = {}"
        using Cons.prems(4) by auto
      then show ?thesis
        using st by blast
    qed
    have "\<exists>n' a'. hash_rebuild x vs (n + 1, a[j := v]) = Some (n', a') \<and> hash_inv a'
        \<and> n' = card (set a' - {0}) \<and> n' < BITVEC_NINT
        \<and> set a' - {0} = (set (a[j := v]) - {0}) \<union> (set vs - {0, x})"
      using Cons.prems(3,5) True by (intro Cons.IH [OF inv' c _ dj]) auto
    moreover have "hash_rebuild x (v # vs) (n, a) = hash_rebuild x vs (n + 1, a[j := v])"
      using True j(1) by (simp add: hash_reinsert_def)
    moreover have "insert v (set a - {0}) \<union> (set vs - {0, x}) = (set a - {0}) \<union> (set (v # vs) - {0, x})"
      using True by auto
    ultimately show ?thesis
      unfolding st by simp
  qed
qed auto

lemma bitvec_clear_ok:
  "bv_wf p \<Longrightarrow> i < iSize p \<Longrightarrow>
   \<exists>p'. bitvec_clear p i = Some p' \<and> bv_wf p' \<and> iSize p' = iSize p \<and> bv_bits p' = bv_bits p - {i + 1}"
proof (induction arbitrary: i rule: bv_wf.induct)
  case (bitmap sz a n)
  then have l: "i div 8 < length a"
    by (simp add: bitvec_consts)
  let ?a = "a[i div 8 := (a ! (i div 8)) AND NOT (push_bit (i mod 8) 1)]"
  have b: "bitmap_bit ?a x \<longleftrightarrow> x \<noteq> i \<and> bitmap_bit a x" if "x div 8 < length a" for x
    by (rule bitmap_upd(2) [OF l that])
  have "bitvec_clear (Bitvec sz n 0 (aBitmap a)) i = Some (Bitvec sz n 0 (aBitmap ?a))"
    using l bitmap(1) by (subst bitvec_clear.simps) simp
  moreover have "bv_wf (Bitvec sz n 0 (aBitmap ?a))"
    using bitmap b by (simp add: bv_wf_bitmap)
  moreover have "bv_bits (Bitvec sz n 0 (aBitmap ?a)) = bv_bits (Bitvec sz n 0 (aBitmap a)) - {i + 1}"
    using b by auto
  ultimately show ?case
    by simp
next
  case (hash sz a n)
  have "length (filter (\<lambda>v. v \<noteq> 0) a) = n"
    using distinct_card [OF hash_distinct [OF hash(2)]] hash(3) by (simp add: set_diff_eq)
  then obtain n' a' where r: "hash_rebuild (i + 1) a (0, replicate BITVEC_NINT 0) = Some (n', a')" "hash_inv a'"
    "n' = card (set a' - {0})" "n' < BITVEC_NINT" "set a' - {0} = set a - {0, i + 1}"
    using hash_rebuild_ok [of "replicate BITVEC_NINT 0" 0 a "i + 1"] hash_inv_empty hash_distinct [OF hash(2)] hash(4)
    by (auto simp: set_replicate_conv_if)
  have "bitvec_clear (Bitvec sz n 0 (aHash a)) i = Some (Bitvec sz n' 0 (aHash a'))"
    using r(1) hash(1) by (subst bitvec_clear.simps) simp
  moreover have "\<forall>v\<in>set a'. v \<le> sz"
    using r(5) hash(5) by (metis Diff_iff insertI1 insert_iff le0 singletonD)
  then have "bv_wf (Bitvec sz n' 0 (aHash a'))"
    using r hash(1) by (simp add: bv_wf_hash)
  moreover have "set a' - {0} = set a - {0} - {i + 1}"
    using r(5) by auto
  ultimately show ?case
    by simp
next
  case (sub sz d ps n)
  let ?p = "Bitvec sz n d (apSub ps)"
  have wf: "bv_wf ?p"
    using sub by (intro bv_wf.sub) auto
  note db = divisor_bounds [OF sub(1,2)]
  have k: "i div d < length ps"
    using db(3) sub by simp
  have rng: "\<forall>q. Some q \<in> set ps \<longrightarrow> bv_bits q \<subseteq> {1..d}"
    using sub_wf_range [OF wf] by blast
  show ?case
  proof (cases "ps ! (i div d)")
    case None
    then have "bitvec_clear ?p i = Some ?p"
      using db(1) k by (subst bitvec_clear.simps) simp
    moreover have "i + 1 \<notin> bv_bits ?p"
      using sub_bits_iff [of ps d i sz n] rng k None by auto
    ultimately show ?thesis
      using wf by simp
  next
    case (Some q)
    then have "Some q \<in> set ps"
      using k by (metis nth_mem)
    then have IH: "\<forall>x<iSize q. \<exists>p'. bitvec_clear q x = Some p' \<and> bv_wf p' \<and> iSize p' = iSize q
        \<and> bv_bits p' = bv_bits q - {x + 1}" "iSize q = d"
      using sub.IH [of q] by blast+
    obtain q' where q': "bitvec_clear q (i mod d) = Some q'" "bv_wf q'" "iSize q' = d"
      "bv_bits q' = bv_bits q - {i mod d + 1}"
      using IH(1) [rule_format, of "i mod d"] IH(2) db(1) by auto
    let ?p' = "Bitvec sz n d (apSub (ps[i div d := Some q']))"
    have c: "bitvec_clear ?p i = Some ?p'"
      using db(1) k Some q'(1) by (subst bitvec_clear.simps) simp
    have rq: "bv_bits q' \<subseteq> {1..d}"
      using bv_bits_range [OF q'(2)] q'(3) by simp
    have b: "bv_bits ?p' = bv_bits ?p - {i + 1}"
      using sub_update_bits(3) [OF rng k rq, of "bv_bits q"] Some q'(4) by simp
    then have "bv_wf ?p'"
      using sub.prems by (intro sub_replace_wf [OF wf _ q'(2,3)]) auto
    then show ?thesis
      using c b by simp
  qed
qed


section \<open>The interface of a set of page numbers\<close>

text \<open>
  What the pager and the B-tree layer rely on. An operation that runs out of memory may lose
  members but never invents one.
\<close>

locale page_set =
  fixes inv :: "'s \<Rightarrow> bool" and elems :: "'s \<Rightarrow> nat set" and size_of :: "'s \<Rightarrow> nat"
    and create :: "bool list \<Rightarrow> nat \<Rightarrow> 's option \<times> bool list"
    and test :: "'s \<Rightarrow> nat \<Rightarrow> bool option"
    and set_mem :: "bool list \<Rightarrow> 's \<Rightarrow> nat \<Rightarrow> (bool \<times> 's \<times> bool list) option"
    and clear_mem :: "'s \<Rightarrow> nat \<Rightarrow> 's option"
  assumes create_ok: "n < 2 ^ 32 \<Longrightarrow> create w n = (Some s, w') \<Longrightarrow> inv s \<and> elems s = {} \<and> size_of s = n"
    and create_mem: "\<exists>s. create [] n = (Some s, [])"
    and range_ok: "inv s \<Longrightarrow> elems s \<subseteq> {1..size_of s} \<and> size_of s < 2 ^ 32"
    and test_ok: "inv s \<Longrightarrow> i < 2 ^ 32 \<Longrightarrow> test s i = Some (i \<in> elems s)"
    and set_ok: "inv s \<Longrightarrow> 1 \<le> i \<Longrightarrow> i \<le> size_of s \<Longrightarrow> \<exists>rc s' w'. set_mem w s i = Some (rc, s', w')
      \<and> inv s' \<and> size_of s' = size_of s \<and> elems s' \<subseteq> insert i (elems s)
      \<and> (rc \<longrightarrow> elems s' = insert i (elems s)) \<and> (w = [] \<longrightarrow> rc \<and> w' = [])"
    and clear_ok: "inv s \<Longrightarrow> 1 \<le> i \<Longrightarrow> i \<le> size_of s \<Longrightarrow> \<exists>s'. clear_mem s i = Some s'
      \<and> inv s' \<and> size_of s' = size_of s \<and> elems s' = elems s - {i}"
begin

lemma set_then_test:
  assumes "inv s" "1 \<le> i" "i \<le> size_of s"
  shows "\<exists>rc s' w'. set_mem w s i = Some (rc, s', w') \<and> inv s' \<and> size_of s' = size_of s \<and> (w = [] \<longrightarrow> rc)
    \<and> (\<forall>j<2 ^ 32. test s' j = Some (j \<in> elems s') \<and> (rc \<longrightarrow> (j \<in> elems s' \<longleftrightarrow> j = i \<or> j \<in> elems s))
        \<and> (j \<in> elems s' \<longrightarrow> j = i \<or> j \<in> elems s))"
proof -
  obtain rc s' w' where s': "set_mem w s i = Some (rc, s', w')" "inv s'" "size_of s' = size_of s"
    "elems s' \<subseteq> insert i (elems s)" "rc \<longrightarrow> elems s' = insert i (elems s)" "w = [] \<longrightarrow> rc \<and> w' = []"
    using set_ok [OF assms, of w] by blast
  show ?thesis
    by (intro exI [of _ rc] exI [of _ s'] exI [of _ w']) (use s' test_ok [OF s'(2)] in auto)
qed

lemma clear_then_test:
  assumes "inv s" "1 \<le> i" "i \<le> size_of s"
  shows "\<exists>s'. clear_mem s i = Some s' \<and> inv s' \<and> size_of s' = size_of s
    \<and> (\<forall>j<2 ^ 32. test s' j = Some (j \<noteq> i \<and> j \<in> elems s))"
  using clear_ok [OF assms] test_ok by fastforce

end

definition bv_inv :: "Bitvec \<Rightarrow> bool" where
  "bv_inv p \<longleftrightarrow> bv_wf p \<and> iSize p < 2 ^ 32"

definition bitvecSet1 :: "bool list \<Rightarrow> Bitvec \<Rightarrow> nat \<Rightarrow> (bool \<times> Bitvec \<times> bool list) option" where
  "bitvecSet1 w p i = map_option (\<lambda>(rc, p, w). (rc, the p, w)) (sqlite3BitvecSet w (Some p) i)"

lemma bitvecSet1_eq: "bitvecSet1 w p i = bitvec_set 9 w p (i - 1)"
  by (simp add: bitvecSet1_def sqlite3BitvecSet_def option.map_comp o_def split_beta option.map_ident)

lemma size_fuel: "n < 2 ^ 32 \<Longrightarrow> n \<le> BITVEC_NBIT * BITVEC_NPTR ^ 4"
  by (simp add: bitvec_consts)

interpretation bitvec: page_set bv_inv bv_bits iSize sqlite3BitvecCreate sqlite3BitvecTestNotNull bitvecSet1
  "\<lambda>p i. map_option the (sqlite3BitvecClear (Some p) i)"
proof unfold_locales
  fix n w s w'
  assume "(n::nat) < 2 ^ 32" "sqlite3BitvecCreate w n = (Some s, w')"
  then show "bv_inv s \<and> bv_bits s = {} \<and> iSize s = n"
    using zeroed_wf [of n] by (auto simp: sqlite3BitvecCreate_def bv_inv_def split: prod.splits if_splits)
next
  fix s :: Bitvec and i :: nat
  assume s: "bv_inv s" and i: "i < 2 ^ 32"
  let ?i = "(i + 2 ^ 32 - 1) mod 2 ^ 32 :: nat"
  have "i \<in> bv_bits s \<longleftrightarrow> ?i < iSize s \<and> ?i + 1 \<in> bv_bits s"
  proof (cases i)
    case 0
    have "0 \<notin> bv_bits s"
      using bv_bits_range s by (fastforce simp: bv_inv_def)
    then show ?thesis
      using 0 s by (simp add: bv_inv_def)
  next
    case (Suc k)
    then have "?i = k"
      using i by simp
    then show ?thesis
      using Suc bv_bits_range s by (fastforce simp: bv_inv_def)
  qed
  then show "sqlite3BitvecTestNotNull s i = Some (i \<in> bv_bits s)"
    using s bitvec_test_bits [of s ?i] by (simp add: sqlite3BitvecTestNotNull_def bv_inv_def Let_def)
next
  fix s :: Bitvec and i :: nat and w
  assume s: "bv_inv s" "1 \<le> i" "i \<le> iSize s"
  have "set_ok w s (i - 1) (bitvec_set 9 w s (i - 1))"
    using s size_fuel [of "iSize s"] by (intro bitvec_set_ok [where k = 4]) (auto simp: bv_inv_def)
  then show "\<exists>rc s' w'. bitvecSet1 w s i = Some (rc, s', w') \<and> bv_inv s' \<and> iSize s' = iSize s
      \<and> bv_bits s' \<subseteq> insert i (bv_bits s) \<and> (rc \<longrightarrow> bv_bits s' = insert i (bv_bits s)) \<and> (w = [] \<longrightarrow> rc \<and> w' = [])"
    using s by (auto simp: bitvecSet1_eq set_ok_def bv_inv_def split: option.splits)
next
  fix s :: Bitvec and i :: nat
  assume s: "bv_inv s" "1 \<le> i" "i \<le> iSize s"
  then show "\<exists>s'. map_option the (sqlite3BitvecClear (Some s) i) = Some s' \<and> bv_inv s' \<and> iSize s' = iSize s
      \<and> bv_bits s' = bv_bits s - {i}"
  proof -
    have "i - 1 < iSize s"
      using s(2,3) by linarith
    then obtain s' where "bitvec_clear s (i - 1) = Some s'" "bv_wf s'" "iSize s' = iSize s" "bv_bits s' = bv_bits s - {i}"
      using bitvec_clear_ok [of s "i - 1"] s(1,2) by (auto simp: bv_inv_def)
    then show ?thesis
      using s by (simp add: sqlite3BitvecClear_def bv_inv_def)
  qed
qed (use bv_bits_range in \<open>auto simp: sqlite3BitvecCreate_def malloc_def bv_inv_def\<close>)

section \<open>Properties\<close>

text \<open>
  C10. Setting a bit of any well-formed vector, in whichever of the three representations it is and
  whatever the allocator does: the operation ends (nine nested levels are enough for all 32-bit
  sizes), keeps the vector well formed, and a test afterwards reports exactly the old members and
  the new one when the return code is \<^verbatim>\<open>SQLITE_OK\<close>, and no other member when it is not; with memory
  available the code is \<^verbatim>\<open>SQLITE_OK\<close>.
\<close>

theorem bitvec_set_then_test:
  assumes "bv_inv p" "1 \<le> i" "i \<le> iSize p"
  shows "\<exists>rc p' w'. sqlite3BitvecSet w (Some p) i = Some (rc, Some p', w') \<and> bv_inv p' \<and> iSize p' = iSize p
    \<and> (w = [] \<longrightarrow> rc)
    \<and> (\<forall>j<2 ^ 32. \<exists>t. sqlite3BitvecTest (Some p') j = Some t
         \<and> (rc \<longrightarrow> (t \<longleftrightarrow> j = i \<or> sqlite3BitvecTest (Some p) j = Some True))
         \<and> (t \<longrightarrow> j = i \<or> sqlite3BitvecTest (Some p) j = Some True))"
proof -
  obtain rc p' w' where r: "bitvecSet1 w p i = Some (rc, p', w')" "bv_inv p'" "iSize p' = iSize p" "w = [] \<longrightarrow> rc"
    "\<forall>j<2 ^ 32. sqlite3BitvecTestNotNull p' j = Some (j \<in> bv_bits p')
       \<and> (rc \<longrightarrow> (j \<in> bv_bits p' \<longleftrightarrow> j = i \<or> j \<in> bv_bits p)) \<and> (j \<in> bv_bits p' \<longrightarrow> j = i \<or> j \<in> bv_bits p)"
    using bitvec.set_then_test [OF assms, of w] by blast
  have "sqlite3BitvecSet w (Some p) i = Some (rc, Some p', w')"
    using r(1) by (simp add: bitvecSet1_eq sqlite3BitvecSet_def)
  moreover have "j < 2 ^ 32 \<Longrightarrow> sqlite3BitvecTest (Some p) j = Some (j \<in> bv_bits p)" for j
    using bitvec.test_ok [OF assms(1)] by (simp add: sqlite3BitvecTest_def)
  ultimately show ?thesis
    using r(2-5) by (intro exI [of _ rc] exI [of _ p'] exI [of _ w']) (simp add: sqlite3BitvecTest_def)
qed

theorem bitvec_set_then_test_witness:
  "\<exists>rc p' w'. sqlite3BitvecSet [] (Some (bitvec_zeroed 4000000000)) 4000000000 = Some (rc, Some p', w') \<and> rc
    \<and> (\<exists>t. sqlite3BitvecTest (Some p') 4000000000 = Some t \<and> t)"
proof -
  have "bv_inv (bitvec_zeroed 4000000000)" "iSize (bitvec_zeroed 4000000000) = 4000000000"
    using zeroed_wf [of 4000000000] by (simp_all add: bv_inv_def)
  then obtain rc p' w' where r: "sqlite3BitvecSet [] (Some (bitvec_zeroed 4000000000)) 4000000000 = Some (rc, Some p', w')"
    "rc" "\<forall>j<2 ^ 32. \<exists>t. sqlite3BitvecTest (Some p') j = Some t
       \<and> (rc \<longrightarrow> (t \<longleftrightarrow> j = 4000000000 \<or> sqlite3BitvecTest (Some (bitvec_zeroed 4000000000)) j = Some True))"
    using bitvec_set_then_test [of "bitvec_zeroed 4000000000" 4000000000 "[]"] by fastforce
  from r(3) [rule_format, of 4000000000] r(1,2) show ?thesis
    by auto
qed

text \<open>
  Clearing a bit of any well-formed vector: a test afterwards reports exactly the old members
  without that one; the hash table is rebuilt so that no remaining member becomes unreachable.
\<close>

theorem bitvec_clear_then_test:
  assumes "bv_inv p" "1 \<le> i" "i \<le> iSize p"
  shows "\<exists>p'. sqlite3BitvecClear (Some p) i = Some (Some p') \<and> bv_inv p' \<and> iSize p' = iSize p
    \<and> (\<forall>j<2 ^ 32. sqlite3BitvecTest (Some p') j
         = Some (j \<noteq> i \<and> sqlite3BitvecTest (Some p) j = Some True))"
proof -
  obtain p' where r: "map_option the (sqlite3BitvecClear (Some p) i) = Some p'" "bv_inv p'" "iSize p' = iSize p"
    "\<forall>j<2 ^ 32. sqlite3BitvecTestNotNull p' j = Some (j \<noteq> i \<and> j \<in> bv_bits p)"
    using bitvec.clear_then_test [OF assms] by blast
  have "sqlite3BitvecClear (Some p) i = Some (Some p')"
    using r(1) by (auto simp: sqlite3BitvecClear_def)
  moreover have "j < 2 ^ 32 \<Longrightarrow> sqlite3BitvecTest (Some p) j = Some (j \<in> bv_bits p)" for j
    using bitvec.test_ok [OF assms(1)] by (simp add: sqlite3BitvecTest_def)
  ultimately show ?thesis
    using r(2-4) by (intro exI [of _ p']) (simp add: sqlite3BitvecTest_def)
qed

theorem bitvec_clear_then_test_witness:
  "\<exists>p'. sqlite3BitvecClear (Some (bitvec_zeroed 100000)) 77 = Some (Some p')
    \<and> sqlite3BitvecTest (Some p') 77 = Some False"
proof -
  have "bv_inv (bitvec_zeroed 100000)" "iSize (bitvec_zeroed 100000) = 100000"
    using zeroed_wf [of 100000] by (simp_all add: bv_inv_def)
  then obtain p' where "sqlite3BitvecClear (Some (bitvec_zeroed 100000)) 77 = Some (Some p')"
    "\<forall>j<2 ^ 32. sqlite3BitvecTest (Some p') j = Some (j \<noteq> 77 \<and> sqlite3BitvecTest (Some (bitvec_zeroed 100000)) j = Some True)"
    using bitvec_clear_then_test [of "bitvec_zeroed 100000" 77] by fastforce
  then show ?thesis
    by simp
qed

end
