(* ===== verification/PageSets.thy ===== *)
theory PageSets
  imports BitvecM
begin

text \<open>
  The clients of the bit vectors: the pager's record of which pages each open savepoint has in the
  sub-journal (\<^verbatim>\<open>subjRequiresPage\<close>, \<^verbatim>\<open>addToSavepointBitvecs\<close> of \<^verbatim>\<open>pager.c\<close>) and the B-tree layer's
  record of free-list leaves that had content (\<^verbatim>\<open>btreeSetHasContent\<close>, \<^verbatim>\<open>btreeGetHasContent\<close> of
  \<^verbatim>\<open>btree.c\<close>). The routines are written over the set operations they call and instantiated with
  those of the bit vectors; their properties are proved from the interface \<^verbatim>\<open>page_set\<close>.
\<close>

section \<open>Definitions\<close>

record 's PagerSavepoint =
  pInSavepoint :: 's
  nOrig :: nat
  bTruncateOnRelease :: bool

fun subj_loop :: "('s \<Rightarrow> nat \<Rightarrow> bool option) \<Rightarrow> 's PagerSavepoint list \<Rightarrow> nat \<Rightarrow>
  (bool \<times> 's PagerSavepoint list) option" where
  "subj_loop test [] pgno = Some (False, [])"
| "subj_loop test (p # ps) pgno =
     (case (if nOrig p \<ge> pgno then test (pInSavepoint p) pgno else Some True) of
        None \<Rightarrow> None
      | Some False \<Rightarrow> Some (True, p # map (\<lambda>q. q\<lparr>bTruncateOnRelease := False\<rparr>) ps)
      | Some True \<Rightarrow> map_option (\<lambda>(r, ps). (r, p # ps)) (subj_loop test ps pgno))"

definition subjRequiresPage ::
  "Bitvec PagerSavepoint list \<Rightarrow> nat \<Rightarrow> (bool \<times> Bitvec PagerSavepoint list) option" where
  "subjRequiresPage = subj_loop sqlite3BitvecTestNotNull"

fun add_loop :: "(bool list \<Rightarrow> 's \<Rightarrow> nat \<Rightarrow> (bool \<times> 's \<times> bool list) option) \<Rightarrow> bool list \<Rightarrow> bool \<Rightarrow>
  's PagerSavepoint list \<Rightarrow> nat \<Rightarrow> (bool \<times> 's PagerSavepoint list \<times> bool list) option" where
  "add_loop set_mem w rc [] pgno = Some (rc, [], w)"
| "add_loop set_mem w rc (p # ps) pgno =
     (if pgno \<le> nOrig p
      then (case set_mem w (pInSavepoint p) pgno of
              None \<Rightarrow> None
            | Some (rc', s, w) \<Rightarrow>
                map_option (\<lambda>(rc, ps, w). (rc, p\<lparr>pInSavepoint := s\<rparr> # ps, w))
                  (add_loop set_mem w (rc \<and> rc') ps pgno))
      else map_option (\<lambda>(rc, ps, w). (rc, p # ps, w)) (add_loop set_mem w rc ps pgno))"

text \<open>The boolean of the result is whether the code is \<^verbatim>\<open>SQLITE_OK\<close>.\<close>

definition addToSavepointBitvecs :: "bool list \<Rightarrow> Bitvec PagerSavepoint list \<Rightarrow> nat \<Rightarrow>
  (bool \<times> Bitvec PagerSavepoint list \<times> bool list) option" where
  "addToSavepointBitvecs w ps pgno = add_loop bitvecSet1 w True ps pgno"

text \<open>\<open>pBt->pHasContent\<close> is the optional set, \<open>nPage\<close> the size of the database.\<close>

definition set_has_content ::
  "(bool list \<Rightarrow> nat \<Rightarrow> 's option \<times> bool list) \<Rightarrow> ('s \<Rightarrow> nat) \<Rightarrow>
   (bool list \<Rightarrow> 's \<Rightarrow> nat \<Rightarrow> (bool \<times> 's \<times> bool list) option) \<Rightarrow>
   bool list \<Rightarrow> nat \<Rightarrow> 's option \<Rightarrow> nat \<Rightarrow> (bool \<times> 's option \<times> bool list) option" where
  "set_has_content create size_of set_mem w nPage pHasContent pgno =
     (case (case pHasContent of Some s \<Rightarrow> (Some s, w) | None \<Rightarrow> create w nPage) of
        (None, w) \<Rightarrow> Some (False, None, w)
      | (Some s, w) \<Rightarrow>
          if pgno \<le> size_of s
          then map_option (\<lambda>(rc, s, w). (rc, Some s, w)) (set_mem w s pgno)
          else Some (True, Some s, w))"

definition btreeSetHasContent ::
  "bool list \<Rightarrow> nat \<Rightarrow> Bitvec option \<Rightarrow> nat \<Rightarrow> (bool \<times> Bitvec option \<times> bool list) option" where
  "btreeSetHasContent = set_has_content sqlite3BitvecCreate sqlite3BitvecSize bitvecSet1"

definition get_has_content :: "('s \<Rightarrow> nat) \<Rightarrow> ('s \<Rightarrow> nat \<Rightarrow> bool option) \<Rightarrow> 's option \<Rightarrow> nat \<Rightarrow> bool option" where
  "get_has_content size_of test pHasContent pgno =
     (case pHasContent of
        None \<Rightarrow> Some False
      | Some s \<Rightarrow> if pgno > size_of s then Some True else test s pgno)"

definition btreeGetHasContent :: "Bitvec option \<Rightarrow> nat \<Rightarrow> bool option" where
  "btreeGetHasContent = get_has_content sqlite3BitvecSize sqlite3BitvecTestNotNull"

definition btreeClearHasContent :: "Bitvec option \<Rightarrow> Bitvec option" where
  "btreeClearHasContent pHasContent = None"

section \<open>Savepoints\<close>

text \<open>Each savepoint has a set large enough for the pages the database had when it was opened.\<close>

definition savepoint_wf :: "('s \<Rightarrow> bool) \<Rightarrow> ('s \<Rightarrow> nat) \<Rightarrow> 's PagerSavepoint \<Rightarrow> bool" where
  "savepoint_wf ok size_of p \<longleftrightarrow> ok (pInSavepoint p) \<and> nOrig p \<le> size_of (pInSavepoint p)"

definition needs_page :: "('s \<Rightarrow> nat set) \<Rightarrow> nat \<Rightarrow> 's PagerSavepoint \<Rightarrow> bool" where
  "needs_page elems pgno p \<longleftrightarrow> pgno \<le> nOrig p \<and> pgno \<notin> elems (pInSavepoint p)"

context page_set
begin

lemma subj_loop_ok:
  assumes "\<forall>p\<in>set ps. savepoint_wf inv size_of p" "pgno < 2 ^ 32"
  shows "\<exists>ps'. subj_loop test ps pgno = Some (\<exists>p\<in>set ps. needs_page elems pgno p, ps')
    \<and> map pInSavepoint ps' = map pInSavepoint ps \<and> map nOrig ps' = map nOrig ps"
  using assms
proof (induction ps)
  case (Cons p ps)
  have t: "test (pInSavepoint p) pgno = Some (pgno \<in> elems (pInSavepoint p))"
    using Cons.prems test_ok by (simp add: savepoint_wf_def)
  obtain ps' where IH: "subj_loop test ps pgno = Some (\<exists>p\<in>set ps. needs_page elems pgno p, ps')"
    "map pInSavepoint ps' = map pInSavepoint ps" "map nOrig ps' = map nOrig ps"
    using Cons by auto
  show ?case
  proof (cases "needs_page elems pgno p")
    case True
    then show ?thesis
      using t by (simp add: needs_page_def o_def)
  next
    case False
    then have "(if nOrig p \<ge> pgno then test (pInSavepoint p) pgno else Some True) = Some True"
      using t by (simp add: needs_page_def)
    then show ?thesis
      using IH False by simp
  qed
qed simp

lemma add_loop_ok:
  assumes "\<forall>p\<in>set ps. savepoint_wf inv size_of p" "1 \<le> pgno"
  shows "\<exists>rc' ps' w'. add_loop set_mem w rc ps pgno = Some (rc', ps', w') \<and> (\<forall>p\<in>set ps'. savepoint_wf inv size_of p)
    \<and> (w = [] \<longrightarrow> rc' = rc \<and> w' = []) \<and> (rc' \<longrightarrow> rc \<and> (\<forall>p\<in>set ps'. \<not> needs_page elems pgno p))
    \<and> list_all2 (\<lambda>p p'. nOrig p' = nOrig p \<and> elems (pInSavepoint p') \<subseteq> insert pgno (elems (pInSavepoint p))) ps ps'"
  using assms(1)
proof (induction ps arbitrary: w rc)
  case (Cons p ps)
  have wf: "savepoint_wf inv size_of p" "\<forall>p\<in>set ps. savepoint_wf inv size_of p"
    using Cons.prems by simp_all
  show ?case
  proof (cases "pgno \<le> nOrig p")
    case False
    obtain rc' ps' w' where "add_loop set_mem w rc ps pgno = Some (rc', ps', w')" "\<forall>p\<in>set ps'. savepoint_wf inv size_of p"
      "w = [] \<longrightarrow> rc' = rc \<and> w' = []" "rc' \<longrightarrow> rc \<and> (\<forall>p\<in>set ps'. \<not> needs_page elems pgno p)"
      "list_all2 (\<lambda>p p'. nOrig p' = nOrig p \<and> elems (pInSavepoint p') \<subseteq> insert pgno (elems (pInSavepoint p))) ps ps'"
      using Cons.IH [OF wf(2), of w rc] by blast
    then show ?thesis
      using False wf(1) by (auto simp: needs_page_def)
  next
    case True
    obtain rc1 s w1 where s: "set_mem w (pInSavepoint p) pgno = Some (rc1, s, w1)" "inv s"
      "size_of s = size_of (pInSavepoint p)" "elems s \<subseteq> insert pgno (elems (pInSavepoint p))"
      "rc1 \<longrightarrow> elems s = insert pgno (elems (pInSavepoint p))" "w = [] \<longrightarrow> rc1 \<and> w1 = []"
      using set_ok [of "pInSavepoint p" pgno w] wf(1) True assms(2) by (auto simp: savepoint_wf_def)
    obtain rc' ps' w' where "add_loop set_mem w1 (rc \<and> rc1) ps pgno = Some (rc', ps', w')"
      "\<forall>p\<in>set ps'. savepoint_wf inv size_of p"
      "w1 = [] \<longrightarrow> rc' = (rc \<and> rc1) \<and> w' = []" "rc' \<longrightarrow> (rc \<and> rc1) \<and> (\<forall>p\<in>set ps'. \<not> needs_page elems pgno p)"
      "list_all2 (\<lambda>p p'. nOrig p' = nOrig p \<and> elems (pInSavepoint p') \<subseteq> insert pgno (elems (pInSavepoint p))) ps ps'"
      using Cons.IH [OF wf(2), of w1 "rc \<and> rc1"] by blast
    note r = this
    let ?p = "p\<lparr>pInSavepoint := s\<rparr>"
    have p: "savepoint_wf inv size_of ?p" "rc1 \<longrightarrow> \<not> needs_page elems pgno ?p"
      using wf(1) s(2,3,5) by (simp_all add: savepoint_wf_def needs_page_def)
    show ?thesis
    proof (intro exI conjI)
      show "add_loop set_mem w rc (p # ps) pgno = Some (rc', ?p # ps', w')"
        using True s(1) r(1) by simp
      show "w = [] \<longrightarrow> rc' = rc \<and> w' = []"
        using s(6) r(3) by blast
      show "rc' \<longrightarrow> rc \<and> (\<forall>p\<in>set (?p # ps'). \<not> needs_page elems pgno p)"
        using r(4) p(2) by simp
    qed (use p(1) r(2,5) s(4) in simp_all)
  qed
qed simp

lemma has_content_ok:
  assumes "nPage < 2 ^ 32" "1 \<le> pgno" "pgno < 2 ^ 32" "\<And>s. c = Some s \<Longrightarrow> inv s"
  shows "\<exists>rc c' w'. set_has_content create size_of set_mem w nPage c pgno = Some (rc, c', w')
    \<and> (\<forall>s. c' = Some s \<longrightarrow> inv s) \<and> (rc \<longrightarrow> get_has_content size_of test c' pgno = Some True)
    \<and> (w = [] \<longrightarrow> rc)"
proof -
  obtain c1 w1 where c1: "(case c of Some s \<Rightarrow> (Some s, w) | None \<Rightarrow> create w nPage) = (c1, w1)"
    by fastforce
  have w1: "w = [] \<longrightarrow> c1 \<noteq> None \<and> w1 = []"
    using c1 create_mem [of nPage] by (auto split: option.splits)
  show ?thesis
  proof (cases c1)
    case None
    then show ?thesis
      using c1 w1 by (auto simp: set_has_content_def)
  next
    case (Some s)
    have inv: "inv s"
      using c1 Some assms(4) create_ok [OF assms(1)] by (auto split: option.splits)
    show ?thesis
    proof (cases "pgno \<le> size_of s")
      case False
      then show ?thesis
        using c1 Some inv by (auto simp: set_has_content_def get_has_content_def)
    next
      case True
      obtain rc s' w' where "set_mem w1 s pgno = Some (rc, s', w')" "inv s'" "size_of s' = size_of s"
        "rc \<longrightarrow> elems s' = insert pgno (elems s)" "w1 = [] \<longrightarrow> rc"
        using set_ok [OF inv assms(2) True, of w1] by blast
      then show ?thesis
        using c1 Some True w1 test_ok [of s' pgno] assms(3)
        by (auto simp: set_has_content_def get_has_content_def)
    qed
  qed
qed

end

section \<open>Properties\<close>

text \<open>
  C39. The sub-journal bookkeeping: \<^verbatim>\<open>subjRequiresPage\<close> answers yes exactly when some open savepoint
  covers the page and does not have it yet; after \<^verbatim>\<open>addToSavepointBitvecs\<close> returns
  \<^verbatim>\<open>SQLITE_OK\<close> (which it does when memory is available) no savepoint needs the page any more.
\<close>

theorem savepoint_bookkeeping:
  assumes "\<forall>p\<in>set ps. savepoint_wf bv_inv iSize p" "1 \<le> pgno" "pgno < 2 ^ 32"
  shows "(\<exists>ps'. subjRequiresPage ps pgno = Some (\<exists>p\<in>set ps. needs_page bv_bits pgno p, ps'))
    \<and> (\<exists>rc ps' w'. addToSavepointBitvecs w ps pgno = Some (rc, ps', w') \<and> (w = [] \<longrightarrow> rc)
         \<and> (rc \<longrightarrow> (\<exists>ps''. subjRequiresPage ps' pgno = Some (False, ps''))))"
proof
  show "\<exists>ps'. subjRequiresPage ps pgno = Some (\<exists>p\<in>set ps. needs_page bv_bits pgno p, ps')"
    unfolding subjRequiresPage_def using bitvec.subj_loop_ok [OF assms(1,3)] by blast
  obtain rc ps' w' where r: "addToSavepointBitvecs w ps pgno = Some (rc, ps', w')"
    "\<forall>p\<in>set ps'. savepoint_wf bv_inv iSize p" "w = [] \<longrightarrow> rc" "rc \<longrightarrow> (\<forall>p\<in>set ps'. \<not> needs_page bv_bits pgno p)"
    unfolding addToSavepointBitvecs_def using bitvec.add_loop_ok [OF assms(1,2), of w True] by blast
  then show "\<exists>rc ps' w'. addToSavepointBitvecs w ps pgno = Some (rc, ps', w') \<and> (w = [] \<longrightarrow> rc)
      \<and> (rc \<longrightarrow> (\<exists>ps''. subjRequiresPage ps' pgno = Some (False, ps'')))"
    unfolding subjRequiresPage_def using bitvec.subj_loop_ok [OF r(2) assms(3)] by auto
qed

theorem savepoint_bookkeeping_witness:
  "\<exists>ps'. subjRequiresPage [\<lparr>pInSavepoint = bitvec_zeroed 5000, nOrig = 5000, bTruncateOnRelease = True\<rparr>] 17
    = Some (True, ps')"
proof -
  have "bv_inv (bitvec_zeroed 5000)" "iSize (bitvec_zeroed 5000) = 5000" "bv_bits (bitvec_zeroed 5000) = {}"
    using zeroed_wf [of 5000] by (simp_all add: bv_inv_def)
  then show ?thesis
    using savepoint_bookkeeping [of "[\<lparr>pInSavepoint = bitvec_zeroed 5000, nOrig = 5000, bTruncateOnRelease = True\<rparr>]" 17 "[]"]
    by (auto simp: savepoint_wf_def needs_page_def)
qed

text \<open>
  A page recorded by \<^verbatim>\<open>btreeSetHasContent\<close> as having content is reported by
  \<^verbatim>\<open>btreeGetHasContent\<close>, whether the vector existed before, is created by the call, or is too small
  for the page; only a failed allocation, which is reported, prevents it.
\<close>

theorem has_content_recorded:
  assumes "nPage < 2 ^ 32" "1 \<le> pgno" "pgno < 2 ^ 32" "\<And>s. c = Some s \<Longrightarrow> bv_inv s"
  shows "\<exists>rc c' w'. btreeSetHasContent w nPage c pgno = Some (rc, c', w') \<and> (w = [] \<longrightarrow> rc)
    \<and> (rc \<longrightarrow> btreeGetHasContent c' pgno = Some True)"
  using bitvec.has_content_ok [where w = w, OF assms]
  unfolding btreeSetHasContent_def btreeGetHasContent_def sqlite3BitvecSize_def [abs_def] by blast

theorem has_content_recorded_witness:
  "\<exists>rc c' w'. btreeSetHasContent [] 9000 None 8999 = Some (rc, c', w') \<and> rc
    \<and> btreeGetHasContent c' 8999 = Some True"
  using has_content_recorded [of 9000 8999 None "[]"] by auto

end
