(* ===== verification/CellM.thy ===== *)
theory CellM
  imports Varint
begin

text \<open>
  Cells of B-tree pages (\<^verbatim>\<open>btree.c\<close> part of \<^verbatim>\<open>sqlite3.c\<close>): the page
  header fields that \<^verbatim>\<open>decodeFlags\<close> derives from the flag byte, the parsers
  \<^verbatim>\<open>MemPage.xParseCell\<close> and the size functions \<^verbatim>\<open>MemPage.xCellSize\<close>.
  A cell is the list of bytes from its first byte to the end of the page buffer; every read is
  checked.
\<close>

section \<open>Definitions\<close>

text \<open>The fields of \<^verbatim>\<open>struct BtShared\<close> that the page layer reads.\<close>

record BtShared =
  bt_autoVacuum :: bool
  bt_btsFlags :: u16
  bt_max1bytePayload :: u8
  bt_maxLocal :: u16
  bt_minLocal :: u16
  bt_maxLeaf :: u16
  bt_minLeaf :: u16
  bt_pageSize :: u32
  bt_usableSize :: u32
  bt_cellSizeCk :: bool

text \<open>
  The two function pointers of a page point to one of four size functions and one of three
  parsers. \<open>bt_cellSizeCk\<close> above stands for the flag
  \<^verbatim>\<open>SQLITE_CellSizeCk\<close> of the connection.
\<close>

datatype cell_size_fn = cellSizePtr_fn | cellSizePtrIdxLeaf_fn | cellSizePtrNoPayload_fn
  | cellSizePtrTableLeaf_fn

datatype parse_cell_fn = btreeParseCellPtr_fn | btreeParseCellPtrIndex_fn
  | btreeParseCellPtrNoPayload_fn

record MemPage =
  isInit :: bool
  intKey :: bool
  intKeyLeaf :: bool
  pgno :: u32
  leaf :: bool
  hdrOffset :: nat
  childPtrSize :: nat
  max1bytePayload :: u8
  nOverflow :: nat
  maxLocal :: u16
  minLocal :: u16
  cellOffset :: nat
  nFree :: int
  nCell :: nat
  maskPage :: u16
  aiOvfl :: "nat list"
  apOvfl :: "bytes list"
  aData :: bytes
  aDataEnd :: nat
  aCellIdx :: nat
  aDataOfst :: nat
  xCellSize :: cell_size_fn
  xParseCell :: parse_cell_fn
  pBt :: BtShared

record CellInfo =
  nKey :: int
  pPayload :: "nat option"
  nPayload :: u32
  nLocal :: u16
  nSize :: u16

text \<open>Return codes; \<open>Pager_rc\<close> stands for an error that the pager layer answers.\<close>

datatype rc = SQLITE_OK | SQLITE_CORRUPT | Pager_rc nat

text \<open>The payload limits that \<^verbatim>\<open>lockBtree\<close> computes from the usable page size.\<close>

definition lockBtree_limits :: "BtShared \<Rightarrow> BtShared" where
  "lockBtree_limits bt =
     (let u = bt_usableSize bt;
          bt = bt\<lparr>bt_maxLocal := ucast ((u - 12) * 64 div 255 - 23),
                  bt_minLocal := ucast ((u - 12) * 32 div 255 - 23),
                  bt_maxLeaf := ucast (u - 35),
                  bt_minLeaf := ucast ((u - 12) * 32 div 255 - 23)\<rparr>
      in if 127 < bt_maxLocal bt
         then bt\<lparr>bt_max1bytePayload := 127\<rparr>
         else bt\<lparr>bt_max1bytePayload := ucast (bt_maxLocal bt)\<rparr>)"

definition PTF_INTKEY :: nat where "PTF_INTKEY = 0x01"
definition PTF_ZERODATA :: nat where "PTF_ZERODATA = 0x02"
definition PTF_LEAFDATA :: nat where "PTF_LEAFDATA = 0x04"
definition PTF_LEAF :: nat where "PTF_LEAF = 0x08"

definition decodeFlags :: "MemPage \<Rightarrow> nat \<Rightarrow> rc \<times> MemPage" where
  "decodeFlags pPage flagByte =
     (let bt = pBt pPage;
          pPage = pPage\<lparr>max1bytePayload := bt_max1bytePayload bt\<rparr>
      in if flagByte \<ge> PTF_ZERODATA OR PTF_LEAF
         then (let pPage = pPage\<lparr>childPtrSize := 0, leaf := True\<rparr>
               in if flagByte = PTF_LEAFDATA OR PTF_INTKEY OR PTF_LEAF
                  then (SQLITE_OK, pPage\<lparr>intKeyLeaf := True,
                          xCellSize := cellSizePtrTableLeaf_fn, xParseCell := btreeParseCellPtr_fn,
                          intKey := True, maxLocal := bt_maxLeaf bt, minLocal := bt_minLeaf bt\<rparr>)
                  else if flagByte = PTF_ZERODATA OR PTF_LEAF
                  then (SQLITE_OK, pPage\<lparr>intKey := False, intKeyLeaf := False,
                          xCellSize := cellSizePtrIdxLeaf_fn,
                          xParseCell := btreeParseCellPtrIndex_fn,
                          maxLocal := bt_maxLocal bt, minLocal := bt_minLocal bt\<rparr>)
                  else (SQLITE_CORRUPT, pPage\<lparr>intKey := False, intKeyLeaf := False,
                          xCellSize := cellSizePtrIdxLeaf_fn,
                          xParseCell := btreeParseCellPtrIndex_fn\<rparr>))
         else (let pPage = pPage\<lparr>childPtrSize := 4, leaf := False\<rparr>
               in if flagByte = PTF_ZERODATA
                  then (SQLITE_OK, pPage\<lparr>intKey := False, intKeyLeaf := False,
                          xCellSize := cellSizePtr_fn, xParseCell := btreeParseCellPtrIndex_fn,
                          maxLocal := bt_maxLocal bt, minLocal := bt_minLocal bt\<rparr>)
                  else if flagByte = PTF_LEAFDATA OR PTF_INTKEY
                  then (SQLITE_OK, pPage\<lparr>intKeyLeaf := False,
                          xCellSize := cellSizePtrNoPayload_fn,
                          xParseCell := btreeParseCellPtrNoPayload_fn,
                          intKey := True, maxLocal := bt_maxLeaf bt, minLocal := bt_minLeaf bt\<rparr>)
                  else (SQLITE_CORRUPT, pPage\<lparr>intKey := False, intKeyLeaf := False,
                          xCellSize := cellSizePtr_fn, xParseCell := btreeParseCellPtrIndex_fn\<rparr>)))"

text \<open>
  The payload size, decoded by the same inlined block in two parsers and three size functions:
  the do-while loop, then the whole block, which answers the value and \<open>pIter\<close> past it.
\<close>

function nPayload_loop :: "bytes \<Rightarrow> nat \<Rightarrow> nat \<Rightarrow> u32 \<Rightarrow> (u32 \<times> nat) option" where
  "nPayload_loop p pEnd pIter n = do {
     b \<leftarrow> rd8 p (pIter + 1);
     let n = push_bit 7 n OR ucast (b AND 0x7f);
     if b \<ge> 0x80 \<and> pIter + 1 < pEnd then nPayload_loop p pEnd (pIter + 1) n
     else Some (n, pIter + 1) }"
  by pat_completeness auto
termination
  by (relation "measure (\<lambda>(p, pEnd, pIter, n). pEnd - pIter)") auto

definition nPayload_read :: "bytes \<Rightarrow> nat \<Rightarrow> (u32 \<times> nat) option" where
  "nPayload_read p pIter = do {
     b \<leftarrow> rd8 p pIter;
     let n = ucast b;
     (n, i) \<leftarrow> (if b \<ge> 0x80 then nPayload_loop p (pIter + 8) pIter (n AND 0x7f)
                else Some (n, pIter));
     Some (n, i + 1) }"

text \<open>The unrolled key decoder of \<^verbatim>\<open>btreeParseCellPtr\<close>: the key and \<open>pIter\<close> past it.\<close>

definition iKey_read :: "bytes \<Rightarrow> nat \<Rightarrow> (u64 \<times> nat) option" where
  "iKey_read p i = do {
     x \<leftarrow> rd8 p i; let iKey = ucast x;
     if \<not> x \<ge> 0x80 then Some (iKey, i + 1) else do {
     x \<leftarrow> rd8 p (i + 1); let iKey = push_bit 7 iKey XOR ucast x;
     if \<not> x \<ge> 0x80 then Some (iKey XOR 0x4000, i + 2) else do {
     x \<leftarrow> rd8 p (i + 2); let iKey = push_bit 7 iKey XOR ucast x;
     if \<not> x \<ge> 0x80 then Some (iKey XOR 0x204000, i + 3) else do {
     x \<leftarrow> rd8 p (i + 3); let iKey = push_bit 7 iKey XOR 0x10204000 XOR ucast x;
     if \<not> x \<ge> 0x80 then Some (iKey, i + 4) else do {
     x \<leftarrow> rd8 p (i + 4); let iKey = push_bit 7 iKey XOR 0x4000 XOR ucast x;
     if \<not> x \<ge> 0x80 then Some (iKey, i + 5) else do {
     x \<leftarrow> rd8 p (i + 5); let iKey = push_bit 7 iKey XOR 0x4000 XOR ucast x;
     if \<not> x \<ge> 0x80 then Some (iKey, i + 6) else do {
     x \<leftarrow> rd8 p (i + 6); let iKey = push_bit 7 iKey XOR 0x4000 XOR ucast x;
     if \<not> x \<ge> 0x80 then Some (iKey, i + 7) else do {
     x \<leftarrow> rd8 p (i + 7); let iKey = push_bit 7 iKey XOR 0x4000 XOR ucast x;
     if \<not> x \<ge> 0x80 then Some (iKey, i + 8) else do {
     x \<leftarrow> rd8 p (i + 8);
     Some (push_bit 8 iKey XOR 0x8000 XOR ucast x, i + 9)
     }}}}}}}}}"

definition u16_of :: "nat \<Rightarrow> u16" where
  "u16_of n = word_of_nat n"

text \<open>
  \<open>surplus\<close> is computed in unsigned 32-bit arithmetic and stored in an \<^verbatim>\<open>int\<close>.
\<close>

definition btreeParseCellAdjustSizeForOverflow :: "MemPage \<Rightarrow> CellInfo \<Rightarrow> nat \<Rightarrow> CellInfo" where
  "btreeParseCellAdjustSizeForOverflow pPage pInfo pIter =
     (let surplus = (ucast (minLocal pPage) +
                     (nPayload pInfo - ucast (minLocal pPage)) mod (bt_usableSize (pBt pPage) - 4)
                     :: u32);
          pInfo = pInfo\<lparr>nLocal := if sint surplus \<le> uint (maxLocal pPage) then ucast surplus
                                   else minLocal pPage\<rparr>
      in pInfo\<lparr>nSize := u16_of (pIter + unat (nLocal pInfo)) + 4\<rparr>)"

definition btreePayloadToLocal :: "MemPage \<Rightarrow> int \<Rightarrow> int" where
  "btreePayloadToLocal pPage n =
     (if n \<le> uint (maxLocal pPage) then n
      else (let minL = uint (minLocal pPage);
                surplus = minL + (n - minL) mod uint (bt_usableSize (pBt pPage) - 4)
            in if surplus \<le> uint (maxLocal pPage) then surplus else minL))"

definition btreeParseCellPtrNoPayload :: "MemPage \<Rightarrow> bytes \<Rightarrow> CellInfo option" where
  "btreeParseCellPtrNoPayload pPage pCell = do {
     (k, n) \<leftarrow> sqlite3GetVarint (drop 4 pCell);
     Some \<lparr>nKey = sint k, pPayload = None, nPayload = 0, nLocal = 0, nSize = u16_of (4 + n)\<rparr> }"

text \<open>The tail that the two other parsers share, from \<^verbatim>\<open>pInfo->nPayload = nPayload\<close> on.\<close>

definition parseCell_tail :: "MemPage \<Rightarrow> int \<Rightarrow> u32 \<Rightarrow> nat \<Rightarrow> CellInfo" where
  "parseCell_tail pPage key n pIter =
     (let pInfo = \<lparr>nKey = key, pPayload = Some pIter, nPayload = n, nLocal = 0, nSize = 0\<rparr>
      in if n \<le> ucast (maxLocal pPage)
         then (let size = (ucast (n + ucast (u16_of pIter)) :: u16)
               in pInfo\<lparr>nSize := if size < 4 then 4 else size, nLocal := ucast n\<rparr>)
         else btreeParseCellAdjustSizeForOverflow pPage pInfo pIter)"

definition btreeParseCellPtr :: "MemPage \<Rightarrow> bytes \<Rightarrow> CellInfo option" where
  "btreeParseCellPtr pPage pCell = do {
     (n, pIter) \<leftarrow> nPayload_read pCell 0;
     (iKey, pIter) \<leftarrow> iKey_read pCell pIter;
     Some (parseCell_tail pPage (sint iKey) n pIter) }"

definition btreeParseCellPtrIndex :: "MemPage \<Rightarrow> bytes \<Rightarrow> CellInfo option" where
  "btreeParseCellPtrIndex pPage pCell = do {
     (n, pIter) \<leftarrow> nPayload_read pCell (childPtrSize pPage);
     Some (parseCell_tail pPage (uint n) n pIter) }"

definition call_xParseCell :: "MemPage \<Rightarrow> bytes \<Rightarrow> CellInfo option" where
  "call_xParseCell pPage pCell =
     (case xParseCell pPage of
        btreeParseCellPtr_fn \<Rightarrow> btreeParseCellPtr pPage pCell
      | btreeParseCellPtrIndex_fn \<Rightarrow> btreeParseCellPtrIndex pPage pCell
      | btreeParseCellPtrNoPayload_fn \<Rightarrow> btreeParseCellPtrNoPayload pPage pCell)"

text \<open>
  The size of a cell with local part \<open>nSize\<close>, payload starting at \<open>pIter\<close>: the code after the
  varints in \<^verbatim>\<open>cellSizePtrIdxLeaf\<close> and \<^verbatim>\<open>cellSizePtrTableLeaf\<close>, and
  without the minimum of 4 in \<^verbatim>\<open>cellSizePtr\<close>.
\<close>

definition cellSize_overflow :: "MemPage \<Rightarrow> u32 \<Rightarrow> nat \<Rightarrow> u16" where
  "cellSize_overflow pPage n pIter =
     (let minL = ucast (minLocal pPage);
          n = minL + (n - minL) mod (bt_usableSize (pBt pPage) - 4);
          n = (if n > ucast (maxLocal pPage) then minL else n)
      in ucast (n + (4 + ucast (u16_of pIter))))"

definition cellSizePtr :: "MemPage \<Rightarrow> bytes \<Rightarrow> u16 option" where
  "cellSizePtr pPage pCell = do {
     (n, pIter) \<leftarrow> nPayload_read pCell 4;
     Some (if n \<le> ucast (maxLocal pPage) then ucast (n + word_of_nat pIter)
           else cellSize_overflow pPage n pIter) }"

definition cellSizePtrIdxLeaf :: "MemPage \<Rightarrow> bytes \<Rightarrow> u16 option" where
  "cellSizePtrIdxLeaf pPage pCell = do {
     (n, pIter) \<leftarrow> nPayload_read pCell 0;
     Some (if n \<le> ucast (maxLocal pPage)
           then (let n = n + word_of_nat pIter in ucast (if n < 4 then 4 else n))
           else cellSize_overflow pPage n pIter) }"

function skip_loop :: "bytes \<Rightarrow> nat \<Rightarrow> nat \<Rightarrow> nat option" where
  "skip_loop p pEnd pIter = do {
     b \<leftarrow> rd8 p pIter;
     if b AND 0x80 \<noteq> 0 \<and> pIter + 1 < pEnd then skip_loop p pEnd (pIter + 1)
     else Some (pIter + 1) }"
  by pat_completeness auto
termination
  by (relation "measure (\<lambda>(p, pEnd, pIter). pEnd - pIter)") auto

definition cellSizePtrNoPayload :: "MemPage \<Rightarrow> bytes \<Rightarrow> u16 option" where
  "cellSizePtrNoPayload pPage pCell = do {
     pIter \<leftarrow> skip_loop pCell (4 + 9) 4;
     Some (u16_of pIter) }"

text \<open>The chain of eight tests that steps over the key of a table leaf cell.\<close>

definition skip_key :: "bytes \<Rightarrow> nat \<Rightarrow> nat option" where
  "skip_key p i = do {
     b \<leftarrow> rd8 p i; if \<not> b AND 0x80 \<noteq> 0 then Some (i + 1) else do {
     b \<leftarrow> rd8 p (i + 1); if \<not> b AND 0x80 \<noteq> 0 then Some (i + 2) else do {
     b \<leftarrow> rd8 p (i + 2); if \<not> b AND 0x80 \<noteq> 0 then Some (i + 3) else do {
     b \<leftarrow> rd8 p (i + 3); if \<not> b AND 0x80 \<noteq> 0 then Some (i + 4) else do {
     b \<leftarrow> rd8 p (i + 4); if \<not> b AND 0x80 \<noteq> 0 then Some (i + 5) else do {
     b \<leftarrow> rd8 p (i + 5); if \<not> b AND 0x80 \<noteq> 0 then Some (i + 6) else do {
     b \<leftarrow> rd8 p (i + 6); if \<not> b AND 0x80 \<noteq> 0 then Some (i + 7) else do {
     b \<leftarrow> rd8 p (i + 7); if \<not> b AND 0x80 \<noteq> 0 then Some (i + 8) else Some (i + 9)
     }}}}}}}}"

definition cellSizePtrTableLeaf :: "MemPage \<Rightarrow> bytes \<Rightarrow> u16 option" where
  "cellSizePtrTableLeaf pPage pCell = do {
     (n, pIter) \<leftarrow> nPayload_read pCell 0;
     pIter \<leftarrow> skip_key pCell pIter;
     Some (if n \<le> ucast (maxLocal pPage)
           then (let n = n + word_of_nat pIter in ucast (if n < 4 then 4 else n))
           else cellSize_overflow pPage n pIter) }"

definition call_xCellSize :: "MemPage \<Rightarrow> bytes \<Rightarrow> u16 option" where
  "call_xCellSize pPage pCell =
     (case xCellSize pPage of
        cellSizePtr_fn \<Rightarrow> cellSizePtr pPage pCell
      | cellSizePtrIdxLeaf_fn \<Rightarrow> cellSizePtrIdxLeaf pPage pCell
      | cellSizePtrNoPayload_fn \<Rightarrow> cellSizePtrNoPayload pPage pCell
      | cellSizePtrTableLeaf_fn \<Rightarrow> cellSizePtrTableLeaf pPage pCell)"

declare nPayload_loop.simps [simp del] skip_loop.simps [simp del]

section \<open>Varints inside cells\<close>

lemma rd8_drop: "rd8 p (i + k) = rd8 (drop i p) k"
  by (auto simp: rd8_def)

lemma rd8_drop_0: "rd8 p i = rd8 (drop i p) 0"
  by (auto simp: rd8_def)

lemma ge_80_iff: "(0x80::u8) \<le> b \<longleftrightarrow> bit b 7"
  using hi_bit_iff [of b] by (simp add: not_less [symmetric])

lemmas ikey_path_simps = iKey_read_def [of _ 0] mem_simps hi_bit_iff ge_80_iff Let_def

text \<open>As for \<^verbatim>\<open>sqlite3GetVarint\<close>: one equation per length, compared bit by bit.\<close>

lemma iKey_paths:
  "\<not> bit p0 7 \<Longrightarrow> iKey_read (p0 # q) 0 = varint_spec 0 0 (p0 # q)"
  "bit p0 7 \<Longrightarrow> \<not> bit p1 7 \<Longrightarrow> iKey_read (p0 # p1 # q) 0 = varint_spec 0 0 (p0 # p1 # q)"
  "bit p0 7 \<Longrightarrow> bit p1 7 \<Longrightarrow> \<not> bit p2 7 \<Longrightarrow>
     iKey_read (p0 # p1 # p2 # q) 0 = varint_spec 0 0 (p0 # p1 # p2 # q)"
  "bit p0 7 \<Longrightarrow> bit p1 7 \<Longrightarrow> bit p2 7 \<Longrightarrow> \<not> bit p3 7 \<Longrightarrow>
     iKey_read (p0 # p1 # p2 # p3 # q) 0 = varint_spec 0 0 (p0 # p1 # p2 # p3 # q)"
  "bit p0 7 \<Longrightarrow> bit p1 7 \<Longrightarrow> bit p2 7 \<Longrightarrow> bit p3 7 \<Longrightarrow> \<not> bit p4 7 \<Longrightarrow>
     iKey_read (p0 # p1 # p2 # p3 # p4 # q) 0 = varint_spec 0 0 (p0 # p1 # p2 # p3 # p4 # q)"
  "bit p0 7 \<Longrightarrow> bit p1 7 \<Longrightarrow> bit p2 7 \<Longrightarrow> bit p3 7 \<Longrightarrow> bit p4 7 \<Longrightarrow> \<not> bit p5 7 \<Longrightarrow>
     iKey_read (p0 # p1 # p2 # p3 # p4 # p5 # q) 0
     = varint_spec 0 0 (p0 # p1 # p2 # p3 # p4 # p5 # q)"
  "bit p0 7 \<Longrightarrow> bit p1 7 \<Longrightarrow> bit p2 7 \<Longrightarrow> bit p3 7 \<Longrightarrow> bit p4 7 \<Longrightarrow> bit p5 7 \<Longrightarrow> \<not> bit p6 7 \<Longrightarrow>
     iKey_read (p0 # p1 # p2 # p3 # p4 # p5 # p6 # q) 0
     = varint_spec 0 0 (p0 # p1 # p2 # p3 # p4 # p5 # p6 # q)"
  "bit p0 7 \<Longrightarrow> bit p1 7 \<Longrightarrow> bit p2 7 \<Longrightarrow> bit p3 7 \<Longrightarrow> bit p4 7 \<Longrightarrow> bit p5 7 \<Longrightarrow> bit p6 7 \<Longrightarrow>
     \<not> bit p7 7 \<Longrightarrow>
     iKey_read (p0 # p1 # p2 # p3 # p4 # p5 # p6 # p7 # q) 0
     = varint_spec 0 0 (p0 # p1 # p2 # p3 # p4 # p5 # p6 # p7 # q)"
  "bit p0 7 \<Longrightarrow> bit p1 7 \<Longrightarrow> bit p2 7 \<Longrightarrow> bit p3 7 \<Longrightarrow> bit p4 7 \<Longrightarrow> bit p5 7 \<Longrightarrow> bit p6 7 \<Longrightarrow>
     bit p7 7 \<Longrightarrow>
     iKey_read (p0 # p1 # p2 # p3 # p4 # p5 # p6 # p7 # p8 # q) 0
     = varint_spec 0 0 (p0 # p1 # p2 # p3 # p4 # p5 # p6 # p7 # p8 # q)"
  by (simp add: ikey_path_simps;
      rule bits64_eqI; drule less_64_disj; elim insertE emptyE; simp add: varint_bits)+

lemma short_cases:
  assumes "length xs < 8"
  obtains "xs = []" | a where "xs = [a]" | a b where "xs = [a, b]" | a b c where "xs = [a, b, c]"
  | a b c d where "xs = [a, b, c, d]" | a b c d e where "xs = [a, b, c, d, e]"
  | a b c d e f where "xs = [a, b, c, d, e, f]" | a b c d e f g where "xs = [a, b, c, d, e, f, g]"
  using less_8_disj [OF assms] that by (elim insertE emptyE) (auto simp: length_Suc_conv eval_nat_numeral)

lemma eight_cases:
  assumes "length xs = 8"
  obtains a b c d e f g h where "xs = [a, b, c, d, e, f, g, h]"
  using assms that by (auto simp: length_Suc_conv eval_nat_numeral)

lemma iKey_read_0: "iKey_read p 0 = varint_spec 0 0 p"
proof (cases p rule: varint_split)
  case (ends xs b q)
  show ?thesis
    by (rule short_cases [OF ends(4)]; insert ends; simp add: iKey_paths del: varint_spec.simps)
next
  case (nine xs b q)
  show ?thesis
    by (rule eight_cases [OF nine(3)]; insert nine; simp add: iKey_paths del: varint_spec.simps)
next
  case trunc
  show ?thesis
  proof (cases "length p = 8")
    case True
    show ?thesis
      by (rule eight_cases [OF True]; insert trunc; simp add: ikey_path_simps)
  next
    case False
    then have "length p < 8" using trunc by simp
    then show ?thesis
      by (rule short_cases; insert trunc; simp add: ikey_path_simps)
  qed
qed

lemma iKey_read_shift: "iKey_read p i = map_option (\<lambda>(v, n). (v, i + n)) (iKey_read (drop i p) 0)"
  unfolding iKey_read_def rd8_drop rd8_drop_0 [of p i] Let_def
  by (auto split: Option.bind_splits)

lemma iKey_read_getVarint:
  "iKey_read p i = map_option (\<lambda>(v, n). (v, i + n)) (sqlite3GetVarint (drop i p))"
  unfolding sqlite3GetVarint_spec iKey_read_0 [symmetric] by (rule iKey_read_shift)

text \<open>The inlined payload size: seven bits per byte, up to nine bytes, truncated to 32 bits.\<close>

fun payload_spec :: "nat \<Rightarrow> u32 \<Rightarrow> bytes \<Rightarrow> (u32 \<times> nat) option" where
  "payload_spec k v [] = None"
| "payload_spec k v (b # bs) =
     (let v = push_bit 7 v OR ucast (b AND 0x7f)
      in if bit b 7 \<and> k < 8 then payload_spec (k + 1) v bs else Some (v, k + 1))"

lemma payload_spec_length: "payload_spec k v bs = Some (w, n) \<Longrightarrow> k < n \<and> n \<le> k + length bs"
  by (induction k v bs rule: payload_spec.induct) (auto simp: Let_def split: if_splits)

lemma nPayload_loop_spec:
  "k < 8 \<Longrightarrow> nPayload_loop p (i + 8 - k) i v =
     map_option (\<lambda>(w, n). (w, i + n - k - 1)) (payload_spec (k + 1) v (drop (i + 1) p))"
proof (induction "8 - k" arbitrary: k i v)
  case (Suc d)
  show ?case
  proof (cases "drop (i + 1) p")
    case Nil
    then show ?thesis by (subst nPayload_loop.simps) (simp add: mem_simps)
  next
    case (Cons b q)
    have rd: "rd8 p (Suc i) = Some b"
      using Cons unfolding rd8_drop_0 [of p "Suc i"] by (simp add: mem_simps)
    have q: "drop (i + 2) p = q"
      using Cons by (metis Suc_1 add_Suc_right drop_Suc list.sel(3) tl_drop plus_1_eq_Suc add.commute)
    show ?thesis
    proof (cases "bit b 7 \<and> k + 1 < 8")
      case True
      have e: "i + 8 - k = (i + 1) + 8 - (k + 1)" by simp
      have lt: "Suc i < i + 8 - k" using True by linarith
      have "nPayload_loop p (i + 8 - k) (i + 1) (push_bit 7 v OR ucast (b AND 0x7f)) =
        map_option (\<lambda>(w, n). (w, (i + 1) + n - (k + 1) - 1))
          (payload_spec (k + 1 + 1) (push_bit 7 v OR ucast (b AND 0x7f)) (drop (i + 1 + 1) p))"
        unfolding e by (rule Suc.hyps) (use Suc.hyps(2) True in auto)
      then show ?thesis
        using True Cons q by (subst nPayload_loop.simps) (simp add: rd ge_80_iff Let_def lt)
    next
      case False
      then show ?thesis
        using Suc.prems Cons by (subst nPayload_loop.simps) (auto simp: rd ge_80_iff Let_def)
    qed
  qed
qed simp

lemma low7: "\<not> bit (b::u8) 7 \<Longrightarrow> b AND 0x7f = b"
proof (rule bit_word_eqI)
  fix n assume b: "\<not> bit b 7" and "n < LENGTH(8)"
  then have "n < 8" by simp
  from less_8_disj [OF this] b show "bit (b AND 0x7f) n = bit b n"
    by (elim insertE emptyE) (simp_all add: bit_simps bytes_simps)
qed

lemma nPayload_read_spec:
  "nPayload_read p i = map_option (\<lambda>(w, n). (w, i + n)) (payload_spec 0 0 (drop i p))"
proof (cases "drop i p")
  case Nil
  then show ?thesis by (simp add: nPayload_read_def rd8_def)
next
  case (Cons b q)
  have rd: "rd8 p i = Some b"
    using Cons unfolding rd8_drop_0 [of p i] by (simp add: mem_simps)
  have q: "drop (Suc i) p = q"
    using Cons by (metis drop_Suc list.sel(3) tl_drop)
  have a: "ucast b AND 0x7f = (ucast (b AND 0x7f) :: u32)"
    by (rule bit_word_eqI) (auto simp: bit_simps bytes_simps)
  show ?thesis
  proof (cases "bit b 7")
    case True
    have n: "payload_spec (Suc 0) v q = Some (w, n) \<Longrightarrow> Suc (i + n - Suc 0) = i + n" for v w n
      using payload_spec_length [of "Suc 0" v q w n] by simp
    show ?thesis
      using True nPayload_loop_spec [of 0 p i "ucast (b AND 0x7f)"] q
      by (auto simp: nPayload_read_def rd ge_80_iff Let_def Cons a map_option_case simp del: drop_Suc
          intro: n split: option.splits)
  next
    case False
    then show ?thesis
      by (simp add: nPayload_read_def rd ge_80_iff Let_def Cons low7)
  qed
qed

text \<open>It consumes the bytes of the varint and, below the ninth byte, its low 32 bits.\<close>

lemma payload_spec_varint:
  assumes "varint_spec k v bs = Some (w, n)" "k \<le> 8"
  shows "\<exists>w'. payload_spec k (ucast v) bs = Some (w', n) \<and> (n \<le> 8 \<longrightarrow> w' = ucast w)"
  using assms
proof (induction k v bs arbitrary: w n rule: varint_spec.induct)
  case (2 k v b bs)
  have step: "push_bit 7 (ucast v) OR ucast (b AND 0x7f) = (ucast (push_bit 7 v OR ucast (b AND 0x7f)) :: u32)"
    by (rule bit_word_eqI) (auto simp: bit_simps bytes_simps)
  have small: "push_bit 7 (ucast v) OR ucast (b AND 0x7f) = (ucast (push_bit 7 v OR ucast b) :: u32)"
    if "\<not> bit b 7"
    using step unfolding low7 [OF that] .
  show ?case
  proof (cases "k = 8 \<or> \<not> bit b 7")
    case True
    then show ?thesis using "2.prems" small
      by (auto simp: Let_def hi_bit_iff split: if_splits)
  next
    case False
    then show ?thesis
      using "2.IH" [of w n] "2.prems" by (simp add: Let_def hi_bit_iff step)
  qed
qed simp

lemma nPayload_read_varint:
  assumes "sqlite3GetVarint (drop i p) = Some (v, n)"
  shows "\<exists>w. nPayload_read p i = Some (w, i + n) \<and> (n \<le> 8 \<longrightarrow> w = ucast v)"
  using payload_spec_varint [of 0 0 "drop i p" v n] assms
  by (auto simp: nPayload_read_spec sqlite3GetVarint_spec)

lemma varint_spec_bounds:
  "varint_spec k v bs = Some (w, n) \<Longrightarrow> k \<le> 8 \<Longrightarrow> k < n \<and> n \<le> 9 \<and> n \<le> k + length bs"
  by (induction k v bs rule: varint_spec.induct) (auto split: if_splits)

lemma payload_spec_le9: "payload_spec k v bs = Some (w, n) \<Longrightarrow> k \<le> 8 \<Longrightarrow> n \<le> 9"
  by (induction k v bs rule: payload_spec.induct) (auto simp: Let_def split: if_splits)

lemma nPayload_read_bounds:
  "nPayload_read p i = Some (w, j) \<Longrightarrow> i < j \<and> j \<le> i + 9 \<and> j \<le> length p"
  by (cases "i < length p")
    (auto simp: nPayload_read_spec dest: payload_spec_length payload_spec_le9)

text \<open>Stepping over a varint without decoding it.\<close>

lemma and_80_ne: "(b::u8) AND 0x80 \<noteq> 0 \<longleftrightarrow> bit b 7"
  using and_80_u8 [of b] by blast

lemma varint_trunc_None: "\<forall>x\<in>set p. bit x 7 \<Longrightarrow> k + length p \<le> 8 \<Longrightarrow> varint_spec k v p = None"
  by (induction k v p rule: varint_spec.induct) (auto simp: hi_bit_iff)

lemmas skip_path_simps = skip_key_def [of _ 0] mem_simps hi_bit_iff and_80_u8

lemma skip_key_0:
  assumes "varint_spec 0 0 p = Some (v, n)"
  shows "skip_key p 0 = Some n"
proof (cases p rule: varint_split)
  case (ends xs b q)
  show ?thesis
    by (rule short_cases [OF ends(4)]; insert ends assms; simp add: skip_path_simps)
next
  case (nine xs b q)
  show ?thesis
    by (rule eight_cases [OF nine(3)]; insert nine assms; simp add: skip_path_simps)
next
  case trunc
  then have False using assms varint_trunc_None by simp
  then show ?thesis ..
qed

lemma skip_key_shift: "skip_key p i = map_option ((+) i) (skip_key (drop i p) 0)"
  unfolding skip_key_def rd8_drop rd8_drop_0 [of p i] Let_def
  by (auto split: Option.bind_splits)

lemma skip_key_varint:
  "sqlite3GetVarint (drop i p) = Some (v, n) \<Longrightarrow> skip_key p i = Some (i + n)"
  using skip_key_0 [of "drop i p" v n] by (simp add: skip_key_shift [of p i] sqlite3GetVarint_spec)

lemma skip_loop_spec:
  "varint_spec k v (drop i p) = Some (w, n) \<Longrightarrow> k \<le> 8 \<Longrightarrow>
   skip_loop p (i + 9 - k) i = Some (i + n - k)"
proof (induction "8 - k" arbitrary: k i v)
  case 0
  then obtain b q where d: "drop i p = b # q" by (cases "drop i p") auto
  then have "rd8 p i = Some b"
    unfolding rd8_drop_0 [of p i] by (simp add: mem_simps)
  then show ?case using 0 d by (subst skip_loop.simps) simp
next
  case (Suc d)
  then obtain b q where d: "drop i p = b # q" by (cases "drop i p") auto
  have rd: "rd8 p i = Some b"
    using d unfolding rd8_drop_0 [of p i] by (simp add: mem_simps)
  have q: "drop (i + 1) p = q"
    using d by (metis drop_Suc list.sel(3) tl_drop Suc_eq_plus1)
  have lt: "k < 8" "Suc i < i + 9 - k" using Suc.hyps(2) by auto
  show ?case
  proof (cases "bit b 7")
    case True
    then have "varint_spec (k + 1) (push_bit 7 v OR ucast (b AND 0x7f)) (drop (i + 1) p) = Some (w, n)"
      using Suc.prems d lt q by (simp add: hi_bit_iff)
    then have "skip_loop p (i + 1 + 9 - (k + 1)) (i + 1) = Some (i + 1 + n - (k + 1))"
      by (rule Suc.hyps(1) [rotated]) (use Suc.hyps(2) lt in auto)
    then show ?thesis using True lt by (subst skip_loop.simps) (simp add: rd and_80_u8 add.commute)
  next
    case False
    then show ?thesis using Suc.prems lt d by (subst skip_loop.simps) (auto simp: rd and_80_u8 hi_bit_iff)
  qed
qed
section \<open>Sizes and local payload\<close>

lemma unat_ucast16: "unat (ucast (x::u32) :: u16) = unat x mod 65536"
  by (simp add: unsigned_ucast_eq take_bit_eq_mod)

lemma unat_ucast32: "unat (ucast (x::u16) :: u32) = unat x"
  using unsigned_less [of x, where 'a = nat] by (simp add: unsigned_ucast_eq take_bit_eq_mod)

lemma unat_u16_of: "unat (u16_of n) = n mod 65536"
  by (simp add: u16_of_def unat_of_nat)

lemma limit_bound:
  assumes "480 \<le> unat u" "unat u \<le> 65536" "k \<le> 64"
  shows "unat ((u - 12) * word_of_nat k div (255::u32) - 23) = (unat u - 12) * k div 255 - 23 \<or> (unat u - 12) * k div 255 < 23"
proof -
  have 1: "unat (u - 12) = unat u - 12"
    using assms by (simp add: unat_sub word_le_nat_alt)
  have k: "unat (word_of_nat k :: u32) = k"
    using assms by (simp add: unat_of_nat)
  have "(unat u - 12) * k \<le> 65536 * 64"
    using assms by (intro mult_mono) auto
  then have "unat (u - 12) * unat (word_of_nat k :: u32) < 2 ^ LENGTH(32)"
    by (simp add: 1 k)
  then have "unat ((u - 12) * word_of_nat k) = unat (u - 12) * unat (word_of_nat k :: u32)"
    by (rule iffD1 [OF unat_mult_lem])
  then have 2: "unat ((u - 12) * word_of_nat k) = (unat u - 12) * k"
    by (simp only: 1 k)
  then have 3: "unat ((u - 12) * word_of_nat k div 255) = (unat u - 12) * k div 255"
    by (simp add: unat_div)
  show ?thesis
    by (cases "(unat u - 12) * k div 255 < 23") (simp_all add: unat_sub word_le_nat_alt 3)
qed

text \<open>What the size computations rely on; every page that \<^verbatim>\<open>decodeFlags\<close> accepts has it.\<close>

definition page_limits :: "MemPage \<Rightarrow> bool" where
  "page_limits pg \<longleftrightarrow>
     480 \<le> unat (bt_usableSize (pBt pg)) \<and> unat (bt_usableSize (pBt pg)) \<le> 65536
     \<and> unat (minLocal pg) \<le> unat (maxLocal pg)
     \<and> unat (maxLocal pg) + 35 \<le> unat (bt_usableSize (pBt pg))"

definition usable_ok :: "BtShared \<Rightarrow> bool" where
  "usable_ok bt \<longleftrightarrow> 480 \<le> bt_usableSize bt \<and> bt_usableSize bt \<le> 65536"

lemma limits_values:
  assumes "usable_ok bt"
  shows "unat (bt_maxLocal (lockBtree_limits bt)) = (unat (bt_usableSize bt) - 12) * 64 div 255 - 23"
    and "unat (bt_minLocal (lockBtree_limits bt)) = (unat (bt_usableSize bt) - 12) * 32 div 255 - 23"
    and "unat (bt_maxLeaf (lockBtree_limits bt)) = unat (bt_usableSize bt) - 35"
    and "unat (bt_minLeaf (lockBtree_limits bt)) = (unat (bt_usableSize bt) - 12) * 32 div 255 - 23"
    and "bt_usableSize (lockBtree_limits bt) = bt_usableSize bt"
proof -
  let ?u = "bt_usableSize bt"
  have u: "480 \<le> unat ?u" "unat ?u \<le> 65536"
    using assms by (simp_all add: usable_ok_def word_le_nat_alt)
  have d: "23 \<le> (unat ?u - 12) * 32 div 255" "23 \<le> (unat ?u - 12) * 64 div 255"
    "(unat ?u - 12) * 64 div 255 < 65536" "(unat ?u - 12) * 32 div 255 < 65536"
    using u by linarith+
  have d': "((unat ?u - 12) * 64 div 255 - 23) mod 65536 = (unat ?u - 12) * 64 div 255 - 23"
    "((unat ?u - 12) * 32 div 255 - 23) mod 65536 = (unat ?u - 12) * 32 div 255 - 23"
    using d by (simp_all only: mod_less less_imp_diff_less)
  have m: "unat ((?u - 12) * 64 div 255 - 23) = (unat ?u - 12) * 64 div 255 - 23"
    "unat ((?u - 12) * 32 div 255 - 23) = (unat ?u - 12) * 32 div 255 - 23"
    using limit_bound [OF u, of 64] limit_bound [OF u, of 32] d by (simp_all del: left_diff_distrib_numeral)
  have l: "unat (?u - 35) = unat ?u - 35"
    using u by (simp add: unat_sub word_le_nat_alt)
  show "unat (bt_maxLocal (lockBtree_limits bt)) = (unat ?u - 12) * 64 div 255 - 23"
    "unat (bt_minLocal (lockBtree_limits bt)) = (unat ?u - 12) * 32 div 255 - 23"
    "unat (bt_maxLeaf (lockBtree_limits bt)) = unat ?u - 35"
    "unat (bt_minLeaf (lockBtree_limits bt)) = (unat ?u - 12) * 32 div 255 - 23"
    "bt_usableSize (lockBtree_limits bt) = ?u"
    using u by (simp_all add: lockBtree_limits_def Let_def unat_ucast16 m l d' del: left_diff_distrib_numeral)
qed

lemma decodeFlags_accepts:
  assumes "decodeFlags pg flag = (SQLITE_OK, pg')"
  obtains (table_leaf) "xCellSize pg' = cellSizePtrTableLeaf_fn" "xParseCell pg' = btreeParseCellPtr_fn"
      "childPtrSize pg' = 0" "maxLocal pg' = bt_maxLeaf (pBt pg)" "minLocal pg' = bt_minLeaf (pBt pg)"
      "pBt pg' = pBt pg"
  | (index_leaf) "xCellSize pg' = cellSizePtrIdxLeaf_fn" "xParseCell pg' = btreeParseCellPtrIndex_fn"
      "childPtrSize pg' = 0" "maxLocal pg' = bt_maxLocal (pBt pg)" "minLocal pg' = bt_minLocal (pBt pg)"
      "pBt pg' = pBt pg"
  | (index_interior) "xCellSize pg' = cellSizePtr_fn" "xParseCell pg' = btreeParseCellPtrIndex_fn"
      "childPtrSize pg' = 4" "maxLocal pg' = bt_maxLocal (pBt pg)" "minLocal pg' = bt_minLocal (pBt pg)"
      "pBt pg' = pBt pg"
  | (table_interior) "xCellSize pg' = cellSizePtrNoPayload_fn" "xParseCell pg' = btreeParseCellPtrNoPayload_fn"
      "childPtrSize pg' = 4" "maxLocal pg' = bt_maxLeaf (pBt pg)" "minLocal pg' = bt_minLeaf (pBt pg)"
      "pBt pg' = pBt pg"
  using assms that unfolding decodeFlags_def Let_def
  by (simp split: if_splits) auto

lemma limits_order:
  assumes "usable_ok bt"
  shows "unat (bt_minLocal (lockBtree_limits bt)) \<le> unat (bt_maxLocal (lockBtree_limits bt))"
    and "unat (bt_maxLocal (lockBtree_limits bt)) + 35 \<le> unat (bt_usableSize bt)"
    and "unat (bt_minLeaf (lockBtree_limits bt)) \<le> unat (bt_maxLeaf (lockBtree_limits bt))"
    and "unat (bt_maxLeaf (lockBtree_limits bt)) + 35 \<le> unat (bt_usableSize bt)"
    and "480 \<le> unat (bt_usableSize bt)" "unat (bt_usableSize bt) \<le> 65536"
proof -
  let ?u = "unat (bt_usableSize bt)"
  show u: "480 \<le> ?u" "?u \<le> 65536"
    using assms by (simp_all add: usable_ok_def word_le_nat_alt)
  show "unat (bt_minLocal (lockBtree_limits bt)) \<le> unat (bt_maxLocal (lockBtree_limits bt))"
    unfolding limits_values [OF assms] by (intro diff_le_mono div_le_mono mult_le_mono) auto
  show "unat (bt_maxLocal (lockBtree_limits bt)) + 35 \<le> ?u"
    "unat (bt_minLeaf (lockBtree_limits bt)) \<le> unat (bt_maxLeaf (lockBtree_limits bt))"
    "unat (bt_maxLeaf (lockBtree_limits bt)) + 35 \<le> ?u"
    unfolding limits_values [OF assms] using u by linarith+
qed

lemma decodeFlags_limits:
  assumes "usable_ok bt" "pBt pg = lockBtree_limits bt" "decodeFlags pg flag = (SQLITE_OK, pg')"
  shows "page_limits pg'"
  using decodeFlags_accepts [OF assms(3)]
  by cases (simp_all add: page_limits_def assms(2) limits_order [OF assms(1)] limits_values(5) [OF assms(1)])

text \<open>The rule of the file format for the part of the payload that stays on the page.\<close>

definition local_payload :: "MemPage \<Rightarrow> nat \<Rightarrow> nat" where
  "local_payload pg n =
     (if n \<le> unat (maxLocal pg) then n
      else let s = unat (minLocal pg) + (n - unat (minLocal pg)) mod (unat (bt_usableSize (pBt pg)) - 4)
           in if s \<le> unat (maxLocal pg) then s else unat (minLocal pg))"

definition cell_size_spec :: "MemPage \<Rightarrow> nat \<Rightarrow> nat \<Rightarrow> nat" where
  "cell_size_spec pg n pIter =
     (if n \<le> unat (maxLocal pg) then max 4 (pIter + n) else pIter + local_payload pg n + 4)"

lemma local_payload_le: "page_limits pg \<Longrightarrow> local_payload pg n \<le> unat (maxLocal pg)"
  by (simp add: local_payload_def page_limits_def Let_def)

lemma sint_small:
  assumes "unat (x::u32) < 2 ^ 31"
  shows "sint x = int (unat x)"
proof -
  have "int (unat x) < int (2 ^ 31)" by (rule iffD2 [OF of_nat_less_iff assms])
  then have "uint x < 2 ^ 31" by simp
  moreover have "- (2 ^ 31) \<le> uint x" by (rule order_trans [of _ 0]) simp_all
  ultimately have "signed_take_bit 31 (uint x) = uint x"
    by (intro signed_take_bit_int_eq_self)
  then show ?thesis by (simp add: sint_uint)
qed

lemma surplus_unat:
  assumes "page_limits pg" "\<not> n \<le> ucast (maxLocal pg)"
  shows "unat (ucast (minLocal pg) + (n - ucast (minLocal pg)) mod (bt_usableSize (pBt pg) - 4) :: u32)
    = unat (minLocal pg) + (unat n - unat (minLocal pg)) mod (unat (bt_usableSize (pBt pg)) - 4)"
    (is "unat (?m + ?x) = ?s")
    and "unat (minLocal pg) + (unat n - unat (minLocal pg)) mod (unat (bt_usableSize (pBt pg)) - 4) < 131072"
proof -
  let ?u = "bt_usableSize (pBt pg)"
  have u: "unat (?u - 4) = unat ?u - 4"
    using assms(1) by (simp add: page_limits_def unat_sub word_le_nat_alt)
  have n: "unat (n - ?m) = unat n - unat (minLocal pg)"
    using assms by (simp add: page_limits_def unat_sub word_le_nat_alt unat_ucast32)
  have x: "unat ?x = (unat n - unat (minLocal pg)) mod (unat ?u - 4)"
    by (simp only: unat_mod n u)
  have "(unat n - unat (minLocal pg)) mod (unat ?u - 4) < unat ?u - 4"
    using assms(1) by (intro mod_less_divisor) (simp add: page_limits_def)
  then show l: "?s < 131072"
    using assms(1) unfolding page_limits_def by linarith
  have "unat (?m + ?x) = unat ?m + unat ?x"
    using l by (intro iffD1 [OF unat_add_lem]) (simp add: x unat_ucast32)
  then show "unat (?m + ?x) = ?s"
    by (simp only: x unat_ucast32)
qed

lemma adjust_size:
  assumes "page_limits pg" "\<not> nPayload info \<le> ucast (maxLocal pg)" "i \<le> 22"
  shows "unat (nLocal (btreeParseCellAdjustSizeForOverflow pg info i)) = local_payload pg (unat (nPayload info))"
    and "unat (nSize (btreeParseCellAdjustSizeForOverflow pg info i)) = cell_size_spec pg (unat (nPayload info)) i"
proof -
  let ?s = "ucast (minLocal pg) + (nPayload info - ucast (minLocal pg)) mod (bt_usableSize (pBt pg) - 4) :: u32"
  have le: "unat (maxLocal pg) + 35 \<le> 65536" using assms(1) by (simp add: page_limits_def)
  have big: "\<not> unat (nPayload info) \<le> unat (maxLocal pg)"
    using assms(2) by (simp add: word_le_nat_alt unat_ucast32)
  have "unat ?s < 2 ^ 31" using surplus_unat [OF assms(1,2)] by simp
  then have "sint ?s = int (unat ?s)"
    by (rule sint_small)
  then have c: "sint ?s \<le> uint (maxLocal pg) \<longleftrightarrow> unat ?s \<le> unat (maxLocal pg)"
    by (simp only: uint_nat of_nat_le_iff)
  show l: "unat (nLocal (btreeParseCellAdjustSizeForOverflow pg info i)) = local_payload pg (unat (nPayload info))"
    using le big unfolding btreeParseCellAdjustSizeForOverflow_def Let_def local_payload_def
    by (simp add: c surplus_unat [OF assms(1,2)] unat_ucast16)
  have "nSize (btreeParseCellAdjustSizeForOverflow pg info i)
      = u16_of (i + unat (nLocal (btreeParseCellAdjustSizeForOverflow pg info i))) + 4"
    by (simp add: btreeParseCellAdjustSizeForOverflow_def Let_def)
  also have "\<dots> = u16_of (i + local_payload pg (unat (nPayload info)) + 4)"
    by (simp add: l u16_of_def)
  finally show "unat (nSize (btreeParseCellAdjustSizeForOverflow pg info i))
      = cell_size_spec pg (unat (nPayload info)) i"
    using local_payload_le [OF assms(1), of "unat (nPayload info)"] le big assms(3)
    by (simp add: cell_size_spec_def unat_u16_of)
qed

lemma small_size:
  assumes "page_limits pg" "(n::u32) \<le> ucast (maxLocal pg)" "i \<le> 22"
  shows "unat n \<le> unat (maxLocal pg)" "unat (n + word_of_nat i) = i + unat n" "i + unat n < 65536"
    and "n + ucast (u16_of i) = n + word_of_nat i"
proof -
  show 1: "unat n \<le> unat (maxLocal pg)"
    using assms(2) by (simp add: word_le_nat_alt unat_ucast32)
  then show 2: "i + unat n < 65536" using assms(1,3) by (simp add: page_limits_def)
  have i: "unat (word_of_nat i :: u32) = i" using assms(3) by (simp add: unat_of_nat)
  show "unat (n + word_of_nat i) = i + unat n"
    using 2 i by (subst iffD1 [OF unat_add_lem]) simp_all
  have "unat (ucast (u16_of i) :: u32) = unat (word_of_nat i :: u32)"
    using assms(3) by (simp add: unat_ucast32 unat_u16_of i)
  then have "(ucast (u16_of i) :: u32) = word_of_nat i" by (simp only: word_unat_eq_iff)
  then show "n + ucast (u16_of i) = n + word_of_nat i" by simp
qed

lemma parseCell_tail_size:
  assumes "page_limits pg" "i \<le> 22"
  shows "unat (nLocal (parseCell_tail pg k n i)) = local_payload pg (unat n)"
    and "unat (nSize (parseCell_tail pg k n i)) = cell_size_spec pg (unat n) i"
proof -
  have "unat (nLocal (parseCell_tail pg k n i)) = local_payload pg (unat n)
    \<and> unat (nSize (parseCell_tail pg k n i)) = cell_size_spec pg (unat n) i"
  proof (cases "n \<le> ucast (maxLocal pg)")
    case True
    note s = small_size [OF assms(1) True assms(2)]
    have m: "unat n mod 65536 = unat n" using s(3) by simp
    have "unat (ucast (n + word_of_nat i) :: u16) = i + unat n"
      using s(2,3) by (simp add: unat_ucast16)
    then show ?thesis
      using True s(1) m
      by (simp add: parseCell_tail_def Let_def s(4) unat_ucast16 local_payload_def cell_size_spec_def
          word_less_nat_alt)
  next
    case False
    then show ?thesis
      using adjust_size [OF assms(1) _ assms(2)] by (simp add: parseCell_tail_def Let_def)
  qed
  then show "unat (nLocal (parseCell_tail pg k n i)) = local_payload pg (unat n)"
    "unat (nSize (parseCell_tail pg k n i)) = cell_size_spec pg (unat n) i" by simp_all
qed

lemma overflow_size:
  assumes "page_limits pg" "\<not> n \<le> ucast (maxLocal pg)" "i \<le> 22"
  shows "unat (cellSize_overflow pg n i) = cell_size_spec pg (unat n) i"
proof -
  let ?s = "ucast (minLocal pg) + (n - ucast (minLocal pg)) mod (bt_usableSize (pBt pg) - 4) :: u32"
  define w where "w = (if ?s > ucast (maxLocal pg) then ucast (minLocal pg) else ?s)"
  have big: "\<not> unat n \<le> unat (maxLocal pg)"
    using assms(2) by (simp add: word_le_nat_alt unat_ucast32)
  have w: "unat w = local_payload pg (unat n)"
    using big surplus_unat [OF assms(1,2)]
    by (simp add: w_def local_payload_def Let_def word_less_nat_alt unat_ucast32)
  have le: "unat w + 35 \<le> 65536"
    using local_payload_le [OF assms(1), of "unat n"] assms(1) by (simp add: w page_limits_def)
  have i: "unat (4 + ucast (u16_of i) :: u32) = 4 + i"
    using assms(3) by (subst iffD1 [OF unat_add_lem]) (simp_all add: unat_ucast32 unat_u16_of)
  have "unat (w + (4 + ucast (u16_of i))) = unat w + (4 + i)"
    using le assms(3) by (subst iffD1 [OF unat_add_lem]) (simp_all only: i, simp_all)
  then show ?thesis
    using le assms(3) big unfolding cellSize_overflow_def Let_def w_def [symmetric]
    by (simp add: unat_ucast16 cell_size_spec_def w)
qed

lemma clamp_size:
  assumes "page_limits pg" "n \<le> ucast (maxLocal pg)" "i \<le> 22"
  shows "unat (ucast (if n + word_of_nat i < 4 then 4 else n + word_of_nat i :: u32) :: u16)
    = cell_size_spec pg (unat n) i"
  using small_size [OF assms] by (auto simp: cell_size_spec_def unat_ucast16 word_less_nat_alt)

lemma u16_eqI: "unat a = unat (b::u16) \<Longrightarrow> a = b"
  by (simp add: word_unat_eq_iff)

text \<open>Where each parser puts the payload, and what the two functions of a page return.\<close>

lemma parse_table_leaf:
  assumes "btreeParseCellPtr pg c = Some info"
  obtains n i v m where "nPayload_read c 0 = Some (n, i)" "sqlite3GetVarint (drop i c) = Some (v, m)"
    "info = parseCell_tail pg (sint v) n (i + m)" "0 < m" "i + m \<le> 18"
proof -
  obtain n i v m where *: "nPayload_read c 0 = Some (n, i)" "sqlite3GetVarint (drop i c) = Some (v, m)"
    "info = parseCell_tail pg (sint v) n (i + m)"
    using assms by (auto simp: btreeParseCellPtr_def iKey_read_getVarint split: Option.bind_splits)
  have "0 < m \<and> m \<le> 9" using varint_spec_bounds [of 0 0 "drop i c" v m] *(2) by (simp add: sqlite3GetVarint_spec)
  then show thesis using that [OF *] nPayload_read_bounds [OF *(1)] by simp
qed

lemma parse_index:
  assumes "btreeParseCellPtrIndex pg c = Some info" "childPtrSize pg \<le> 4"
  obtains n i where "nPayload_read c (childPtrSize pg) = Some (n, i)"
    "info = parseCell_tail pg (uint n) n i" "childPtrSize pg < i" "i \<le> 13"
proof -
  obtain n i where *: "nPayload_read c (childPtrSize pg) = Some (n, i)"
    "info = parseCell_tail pg (uint n) n i"
    using assms by (auto simp: btreeParseCellPtrIndex_def split: Option.bind_splits)
  then show thesis using that [OF *] nPayload_read_bounds [OF *(1)] assms(2) by simp
qed

lemma parse_interior:
  assumes "btreeParseCellPtrNoPayload pg c = Some info"
  obtains v m where "sqlite3GetVarint (drop 4 c) = Some (v, m)" "0 < m" "m \<le> 9"
    "info = \<lparr>nKey = sint v, pPayload = None, nPayload = 0, nLocal = 0, nSize = u16_of (4 + m)\<rparr>"
proof -
  obtain v m where *: "sqlite3GetVarint (drop 4 c) = Some (v, m)"
    "info = \<lparr>nKey = sint v, pPayload = None, nPayload = 0, nLocal = 0, nSize = u16_of (4 + m)\<rparr>"
    using assms by (auto simp: btreeParseCellPtrNoPayload_def split: Option.bind_splits)
  then show thesis using that varint_spec_bounds [of 0 0 "drop 4 c" v m] by (simp add: sqlite3GetVarint_spec)
qed

lemma size_table_leaf:
  assumes "page_limits pg" "btreeParseCellPtr pg c = Some info"
  shows "cellSizePtrTableLeaf pg c = Some (nSize info)"
  using assms(2)
proof (cases rule: parse_table_leaf)
  case (1 n i v m)
  have s: "unat (nSize info) = cell_size_spec pg (unat n) (i + m)"
    using parseCell_tail_size(2) [OF assms(1)] 1 by simp
  show ?thesis
    using 1(1,5) skip_key_varint [OF 1(2)] clamp_size [OF assms(1), of n "i + m"]
      overflow_size [OF assms(1), of n "i + m"] s
    by (auto simp: cellSizePtrTableLeaf_def Let_def intro!: u16_eqI)
qed

lemma size_index_leaf:
  assumes "page_limits pg" "btreeParseCellPtrIndex pg c = Some info" "childPtrSize pg = 0"
  shows "cellSizePtrIdxLeaf pg c = Some (nSize info)"
proof (rule parse_index [OF assms(2)])
  fix n i assume 1: "nPayload_read c (childPtrSize pg) = Some (n, i)"
    "info = parseCell_tail pg (uint n) n i" "childPtrSize pg < i" "i \<le> 13"
  have s: "unat (nSize info) = cell_size_spec pg (unat n) i"
    using parseCell_tail_size(2) [OF assms(1)] 1 by simp
  show ?thesis
    using 1(1,4) assms(3) clamp_size [OF assms(1), of n i] overflow_size [OF assms(1), of n i] s
    by (auto simp: cellSizePtrIdxLeaf_def Let_def intro!: u16_eqI)
qed (simp add: assms)

lemma size_index_interior:
  assumes "page_limits pg" "btreeParseCellPtrIndex pg c = Some info" "childPtrSize pg = 4"
  shows "cellSizePtr pg c = Some (nSize info)"
proof (rule parse_index [OF assms(2)])
  fix n i assume 1: "nPayload_read c (childPtrSize pg) = Some (n, i)"
    "info = parseCell_tail pg (uint n) n i" "childPtrSize pg < i" "i \<le> 13"
  have s: "unat (nSize info) = cell_size_spec pg (unat n) i"
    using parseCell_tail_size(2) [OF assms(1)] 1 by simp
  have "n \<le> ucast (maxLocal pg) \<Longrightarrow> unat (ucast (n + word_of_nat i) :: u16) = cell_size_spec pg (unat n) i"
    using small_size [OF assms(1), of n i] 1(3,4) assms(3) by (simp add: cell_size_spec_def unat_ucast16)
  then show ?thesis
    using 1(1,4) assms(3) overflow_size [OF assms(1), of n i] s
    by (auto simp: cellSizePtr_def Let_def intro!: u16_eqI)
qed (simp add: assms)

lemma size_table_interior:
  assumes "btreeParseCellPtrNoPayload pg c = Some info"
  shows "cellSizePtrNoPayload pg c = Some (nSize info)"
  using assms
proof (cases rule: parse_interior)
  case (1 v m)
  then show ?thesis
    using skip_loop_spec [of 0 0 4 c v m]
    by (simp add: cellSizePtrNoPayload_def sqlite3GetVarint_spec)
qed

lemma size_is_parsed_size:
  assumes "page_limits pg'" "decodeFlags pg flag = (SQLITE_OK, pg')" "call_xParseCell pg' c = Some info"
  shows "call_xCellSize pg' c = Some (nSize info)"
  using decodeFlags_accepts [OF assms(2)]
  by cases (use assms(1,3) in \<open>simp_all add: call_xParseCell_def call_xCellSize_def size_table_leaf
      size_index_leaf size_index_interior size_table_interior\<close>)

text \<open>The parsers other than that of interior table pages record where the payload is.\<close>

lemma parsed_payload:
  assumes "page_limits pg'" "decodeFlags pg flag = (SQLITE_OK, pg')" "call_xParseCell pg' c = Some info"
  shows "pPayload info = None \<and> nPayload info = 0 \<and> nLocal info = 0 
      \<and> childPtrSize pg' + unat (nSize info) \<le> 17 \<and> 4 \<le> unat (nSize info)
    \<or> (\<exists>i. pPayload info = Some i \<and> childPtrSize pg' + i \<le> 18
         \<and> unat (nLocal info) = local_payload pg' (unat (nPayload info))
         \<and> unat (nSize info) = cell_size_spec pg' (unat (nPayload info)) i)"
proof -
  have tail: "pPayload (parseCell_tail pg' k n i) = Some i" "nPayload (parseCell_tail pg' k n i) = n" for k n i
    by (simp_all add: parseCell_tail_def btreeParseCellAdjustSizeForOverflow_def Let_def)
  consider "btreeParseCellPtr pg' c = Some info" "childPtrSize pg' = 0"
    | "btreeParseCellPtrIndex pg' c = Some info" "childPtrSize pg' \<le> 4"
    | "btreeParseCellPtrNoPayload pg' c = Some info" "childPtrSize pg' = 4"
    using decodeFlags_accepts [OF assms(2)] by cases (use assms(3) in \<open>simp_all add: call_xParseCell_def\<close>)
  then show ?thesis
  proof cases
    case 1
    show ?thesis
      by (rule parse_table_leaf [OF 1(1)]) (use 1(2) assms(1) tail parseCell_tail_size in auto)
  next
    case 2
    show ?thesis
      by (rule parse_index [OF 2]) (use 2(2) assms(1) tail parseCell_tail_size in auto)
  next
    case 3
    show ?thesis
      by (rule parse_interior [OF 3(1)]) (use 3(2) in \<open>auto simp: unat_u16_of\<close>)
  qed
qed

lemma payloadToLocal_spec:
  assumes "page_limits pg"
  shows "btreePayloadToLocal pg (int n) = int (local_payload pg n)"
proof -
  let ?u = "bt_usableSize (pBt pg)"
  have "unat (?u - 4) = unat ?u - 4"
    using assms by (simp add: page_limits_def unat_sub word_le_nat_alt)
  then have u: "uint (?u - 4) = int (unat ?u - 4)" by (simp only: uint_nat)
  have i: "uint (maxLocal pg) = int (unat (maxLocal pg))" "uint (minLocal pg) = int (unat (minLocal pg))"
    by simp_all
  show ?thesis
  proof (cases "n \<le> unat (maxLocal pg)")
    case True
    then show ?thesis
      unfolding btreePayloadToLocal_def local_payload_def i of_nat_le_iff by simp
  next
    case False
    then have "unat (minLocal pg) \<le> n" using assms by (simp add: page_limits_def)
    then have s: "int (unat (minLocal pg)) + (int n - int (unat (minLocal pg))) mod int (unat ?u - 4)
      = int (unat (minLocal pg) + (n - unat (minLocal pg)) mod (unat ?u - 4))"
      by (simp only: of_nat_diff [symmetric] zmod_int [symmetric] of_nat_add [symmetric])
    show ?thesis
      using False
      unfolding btreePayloadToLocal_def local_payload_def Let_def u i s of_nat_le_iff by simp
  qed
qed

lemma local_payload_overflow:
  assumes "page_limits pg" "unat (maxLocal pg) < n"
  shows "unat (minLocal pg) \<le> local_payload pg n" "local_payload pg n < n"
    and "local_payload pg n \<noteq> unat (minLocal pg) \<Longrightarrow>
      (unat (bt_usableSize (pBt pg)) - 4) dvd (n - local_payload pg n)"
proof -
  show "unat (minLocal pg) \<le> local_payload pg n" "local_payload pg n < n"
    using assms by (auto simp: local_payload_def page_limits_def Let_def)
  let ?m = "unat (minLocal pg)" and ?u = "unat (bt_usableSize (pBt pg)) - 4"
  assume "local_payload pg n \<noteq> ?m"
  then have "local_payload pg n = ?m + (n - ?m) mod ?u"
    using assms by (auto simp: local_payload_def Let_def split: if_splits)
  then have "n - local_payload pg n = (n - ?m) - (n - ?m) mod ?u" by simp
  then show "?u dvd (n - local_payload pg n)" by (simp only: dvd_minus_mod)
qed

section \<open>Properties\<close>

text \<open>
  C20. On every page that \<^verbatim>\<open>decodeFlags\<close> accepts, for every usable size the file
  format allows and every cell that lies inside the buffer, the size function that the page
  uses (\<^verbatim>\<open>cellSizePtr\<close>, \<^verbatim>\<open>cellSizePtrIdxLeaf\<close>,
  \<^verbatim>\<open>cellSizePtrNoPayload\<close> or \<^verbatim>\<open>cellSizePtrTableLeaf\<close>) returns the
  \<^verbatim>\<open>nSize\<close> that the page's parser computes, so the assertions of the debug build
  never fail, whatever the bytes of the cell are.
\<close>

theorem cell_size_matches_parse:
  assumes "usable_ok bt" "pBt pg = lockBtree_limits bt" "decodeFlags pg flag = (SQLITE_OK, pg')"
    and "call_xParseCell pg' c = Some info"
  shows "call_xCellSize pg' c = Some (nSize info)"
  using decodeFlags_limits [OF assms(1-3)] assms(3,4) by (rule size_is_parsed_size)

definition example_bt :: BtShared where
  "example_bt = \<lparr>bt_autoVacuum = False, bt_btsFlags = 0, bt_max1bytePayload = 0, bt_maxLocal = 0, bt_minLocal = 0,
     bt_maxLeaf = 0, bt_minLeaf = 0, bt_pageSize = 512, bt_usableSize = 512,
     bt_cellSizeCk = False\<rparr>"

definition example_page :: MemPage where
  "example_page = \<lparr>isInit = False, intKey = False, intKeyLeaf = False, pgno = 2, leaf = False,
     hdrOffset = 0, childPtrSize = 0, max1bytePayload = 0, nOverflow = 0, maxLocal = 0, minLocal = 0,
     cellOffset = 8, nFree = -1, nCell = 0, maskPage = 511,
     aiOvfl = [0, 0, 0, 0], apOvfl = [[], [], [], []], aData = [], aDataEnd = 512, aCellIdx = 8,
     aDataOfst = 0, xCellSize = cellSizePtr_fn, xParseCell = btreeParseCellPtr_fn,
     pBt = lockBtree_limits example_bt\<rparr>"

lemma example_ok: "usable_ok example_bt" "pBt example_page = lockBtree_limits example_bt"
  by (simp_all add: usable_ok_def example_bt_def example_page_def)

lemma example_parsed:
  obtains pg' info where "decodeFlags example_page 13 = (SQLITE_OK, pg')"
    "call_xParseCell pg' [0x85, 0x00, 0x81, 0x02] = Some info" "nPayload info = 640"
proof -
  obtain pg' where d: "decodeFlags example_page 13 = (SQLITE_OK, pg')"
    by (simp add: decodeFlags_def Let_def PTF_ZERODATA_def PTF_LEAF_def PTF_LEAFDATA_def PTF_INTKEY_def)
  obtain info where i: "call_xParseCell pg' [0x85, 0x00, 0x81, 0x02] = Some info" "nPayload info = 640"
    using d by (auto simp: decodeFlags_def Let_def PTF_ZERODATA_def PTF_LEAF_def PTF_LEAFDATA_def
        PTF_INTKEY_def call_xParseCell_def btreeParseCellPtr_def nPayload_read_spec rd8_def
        iKey_read_def parseCell_tail_def btreeParseCellAdjustSizeForOverflow_def)
  show thesis by (rule that [OF d i])
qed

theorem cell_size_matches_parse_witness:
  "\<exists>pg' info. decodeFlags example_page 13 = (SQLITE_OK, pg')
     \<and> call_xParseCell pg' [0x85, 0x00, 0x81, 0x02] = Some info \<and> nPayload info = 640
     \<and> call_xCellSize pg' [0x85, 0x00, 0x81, 0x02] = Some (nSize info)"
proof -
  obtain pg' info where d: "decodeFlags example_page 13 = (SQLITE_OK, pg')"
    and i: "call_xParseCell pg' [0x85, 0x00, 0x81, 0x02] = Some info" "nPayload info = 640"
    by (rule example_parsed)
  show ?thesis
    using d i cell_size_matches_parse [OF example_ok d i(1)] by blast
qed

text \<open>
  How much of a payload stays on the page: a parsed cell with a payload holds exactly
  \<^verbatim>\<open>btreePayloadToLocal\<close> of it locally, at most \<^verbatim>\<open>maxLocal\<close>; a payload that
  spills keeps at least \<^verbatim>\<open>minLocal\<close>, and more than that only when the rest fills its
  overflow pages exactly. The cell takes between 4 bytes and what fits, with its pointer, on a
  page with no other cell.
\<close>

theorem parsed_local_payload:
  assumes "usable_ok bt" "pBt pg = lockBtree_limits bt" "decodeFlags pg flag = (SQLITE_OK, pg')"
    and "call_xParseCell pg' c = Some info"
  shows "int (unat (nLocal info)) = btreePayloadToLocal pg' (int (unat (nPayload info)))
    \<and> nLocal info \<le> maxLocal pg'
    \<and> (unat (maxLocal pg') < unat (nPayload info) \<longrightarrow>
        minLocal pg' \<le> nLocal info
        \<and> (nLocal info \<noteq> minLocal pg' \<longrightarrow>
             (unat (bt_usableSize bt) - 4) dvd (unat (nPayload info) - unat (nLocal info))))
    \<and> 4 \<le> nSize info
    \<and> 8 + childPtrSize pg' + 2 + unat (nSize info) \<le> unat (bt_usableSize bt)"
proof -
  have lim: "page_limits pg'" by (rule decodeFlags_limits [OF assms(1-3)])
  have u: "bt_usableSize (pBt pg') = bt_usableSize bt"
    using decodeFlags_accepts [OF assms(3)] by cases (simp_all add: assms(2) limits_values(5) [OF assms(1)])
  have l: "unat (nLocal info) = local_payload pg' (unat (nPayload info))"
    and s: "4 \<le> unat (nSize info)" "10 + childPtrSize pg' + unat (nSize info) \<le> unat (bt_usableSize bt)"
    using parsed_payload [OF lim assms(3,4)] local_payload_le [OF lim, of "unat (nPayload info)"] lim
    by (auto simp: cell_size_spec_def local_payload_def page_limits_def u)
  have "unat (nLocal info) \<le> unat (maxLocal pg')"
    using local_payload_le [OF lim] l by simp
  moreover have "unat (maxLocal pg') < unat (nPayload info) \<longrightarrow> unat (minLocal pg') \<le> unat (nLocal info)
    \<and> (unat (nLocal info) \<noteq> unat (minLocal pg') \<longrightarrow>
         (unat (bt_usableSize bt) - 4) dvd (unat (nPayload info) - unat (nLocal info)))"
    using local_payload_overflow [OF lim, of "unat (nPayload info)"] unfolding l u by blast
  ultimately show ?thesis
    using s payloadToLocal_spec [OF lim, of "unat (nPayload info)"]
    unfolding l [symmetric] word_le_nat_alt by (simp add: word_unat_eq_iff)
qed

theorem parsed_local_payload_witness:
  "\<exists>pg' info. decodeFlags example_page 13 = (SQLITE_OK, pg')
     \<and> call_xParseCell pg' [0x85, 0x00, 0x81, 0x02] = Some info \<and> nPayload info = 640
     \<and> int (unat (nLocal info)) = btreePayloadToLocal pg' (int (unat (nPayload info)))
     \<and> nLocal info \<le> maxLocal pg'"
proof -
  obtain pg' info where d: "decodeFlags example_page 13 = (SQLITE_OK, pg')"
    and i: "call_xParseCell pg' [0x85, 0x00, 0x81, 0x02] = Some info" "nPayload info = 640"
    by (rule example_parsed)
  show ?thesis
    using d i parsed_local_payload [OF example_ok d i(1)] by blast
qed

text \<open>
  The key of a table leaf cell, decoded in \<^verbatim>\<open>btreeParseCellPtr\<close> by shifts and
  exclusive ors of whole bytes that cancel the continuation bits with the constants
  \<open>0x4000\<close>, \<open>0x204000\<close>, \<open>0x10204000\<close> and \<open>0x8000\<close>, is what
  \<^verbatim>\<open>sqlite3GetVarint\<close> reads there, for all lengths and on truncated buffers.
\<close>

theorem inlined_key_is_getVarint:
  "iKey_read p i = map_option (\<lambda>(v, n). (v, i + n)) (sqlite3GetVarint (drop i p))"
  by (rule iKey_read_getVarint)

text \<open>
  The payload size is not: the source comments the block as equivalent to
  \<^verbatim>\<open>getVarint32\<close>, which saturates where the block keeps the low 32 bits.
\<close>

theorem inlined_payload_size_truncates:
  "getVarint32 [0x90, 0x80, 0x80, 0x80, 0x00] = Some (0xffffffff, 5)
   \<and> nPayload_read [0x90, 0x80, 0x80, 0x80, 0x00] 0 = Some (0, 5)"
  by (simp add: getVarint32_saturates sqlite3GetVarint_spec saturate32_def nPayload_read_spec)

end
