(* ===== verification/PageM.thy ===== *)
theory PageM
  imports CellM
begin

text \<open>
  The space inside one B-tree page (\<^verbatim>\<open>btree.c\<close> part of \<^verbatim>\<open>sqlite3.c\<close>):
  two-byte accessors, the list of free blocks, allocation, defragmentation, initialisation and
  the insertion and removal of cells. A page is the record \<open>MemPage\<close>; an operation answers
  \<^term>\<open>None\<close> when it would touch a byte outside the page buffer, otherwise its return code
  and the page as it leaves it. Offsets and sizes are natural numbers; the conversions of the
  source to 8 and 16 bits are written out.
\<close>

section \<open>Bytes of a page\<close>

definition get2byte :: "bytes \<Rightarrow> nat \<Rightarrow> nat option" where
  "get2byte d i = do { a \<leftarrow> rd8 d i; b \<leftarrow> rd8 d (i + 1); Some (push_bit 8 (unat a) OR unat b) }"

definition put2byte :: "bytes \<Rightarrow> nat \<Rightarrow> nat \<Rightarrow> bytes option" where
  "put2byte d i v = do { d \<leftarrow> wr8 d i (cast8 (drop_bit 8 v)); wr8 d (i + 1) (cast8 v) }"

definition get2byteNotZero :: "bytes \<Rightarrow> nat \<Rightarrow> nat option" where
  "get2byteNotZero d i = do { v \<leftarrow> get2byte d i; Some (nat (((int v - 1) AND 0xffff) + 1)) }"

text \<open>The functions \<^verbatim>\<open>memset\<close> and \<^verbatim>\<open>memmove\<close> of the C library, within one buffer.\<close>

definition memset :: "bytes \<Rightarrow> nat \<Rightarrow> u8 \<Rightarrow> nat \<Rightarrow> bytes option" where
  "memset d i c n =
     (if i + n \<le> length d then Some (take i d @ replicate n c @ drop (i + n) d) else None)"

definition memwrite :: "bytes \<Rightarrow> nat \<Rightarrow> bytes \<Rightarrow> bytes option" where
  "memwrite d i s =
     (if i + length s \<le> length d then Some (take i d @ s @ drop (i + length s) d) else None)"

definition memread :: "bytes \<Rightarrow> nat \<Rightarrow> nat \<Rightarrow> bytes option" where
  "memread d i n = (if i + n \<le> length d then Some (take n (drop i d)) else None)"

definition memmove :: "bytes \<Rightarrow> nat \<Rightarrow> nat \<Rightarrow> nat \<Rightarrow> bytes option" where
  "memmove d dst src n = do { s \<leftarrow> memread d src n; memwrite d dst s }"

section \<open>The free-block list\<close>

definition BTS_FAST_SECURE :: u16 where "BTS_FAST_SECURE = 0x000c"

abbreviation usableSize :: "MemPage \<Rightarrow> nat" where
  "usableSize pg \<equiv> unat (bt_usableSize (pBt pg))"

text \<open>
  The search loop of \<^verbatim>\<open>freeSpace\<close>: \<open>iPtr\<close> and \<open>iFreeBlk\<close> where it ends, or
  corruption.
\<close>

function freeSpace_loop :: "bytes \<Rightarrow> nat \<Rightarrow> nat \<Rightarrow> (rc \<times> nat \<times> nat) option" where
  "freeSpace_loop d iStart iPtr = do {
     iFreeBlk \<leftarrow> get2byte d iPtr;
     if iFreeBlk < iStart
     then if iFreeBlk \<le> iPtr
          then if iFreeBlk = 0 then Some (SQLITE_OK, iPtr, iFreeBlk)
               else Some (SQLITE_CORRUPT, iPtr, iFreeBlk)
          else freeSpace_loop d iStart iFreeBlk
     else Some (SQLITE_OK, iPtr, iFreeBlk) }"
  by pat_completeness auto
termination
  by (relation "measure (\<lambda>(d, iStart, iPtr). iStart - iPtr)") auto

text \<open>The local variables of \<^verbatim>\<open>freeSpace\<close>.\<close>

record free_vars =
  fv_iPtr :: nat
  fv_iFreeBlk :: nat
  fv_nFrag :: nat
  fv_iStart :: nat
  fv_iSize :: nat
  fv_iEnd :: nat

text \<open>
  The three parts of the branch taken when the free list is not empty: find the position,
  coalesce with the block after, coalesce with the block before. None of them writes to the
  page; \<^term>\<open>Inl SQLITE_CORRUPT\<close> is the early return.
\<close>

definition freeSpace_find :: "MemPage \<Rightarrow> nat \<Rightarrow> nat \<Rightarrow> (rc + free_vars) option" where
  "freeSpace_find pPage iStart iSize = do {
     (rc, iPtr, iFreeBlk) \<leftarrow> freeSpace_loop (aData pPage) iStart (hdrOffset pPage + 1);
     Some (if rc \<noteq> SQLITE_OK then Inl rc
           else if iFreeBlk > usableSize pPage - 4 then Inl SQLITE_CORRUPT
           else Inr \<lparr>fv_iPtr = iPtr, fv_iFreeBlk = iFreeBlk, fv_nFrag = 0, fv_iStart = iStart,
                     fv_iSize = iSize, fv_iEnd = iStart + iSize\<rparr>) }"

definition freeSpace_join_next :: "MemPage \<Rightarrow> free_vars \<Rightarrow> (rc + free_vars) option" where
  "freeSpace_join_next pPage v =
     (let d = aData pPage; blk = fv_iFreeBlk v; iEnd = fv_iEnd v
      in if blk \<noteq> 0 \<and> iEnd + 3 \<ge> blk
         then if iEnd > blk then Some (Inl SQLITE_CORRUPT)
              else do {
                n \<leftarrow> get2byte d (blk + 2);
                let iEnd' = blk + n;
                if iEnd' > usableSize pPage then Some (Inl SQLITE_CORRUPT)
                else do {
                  nxt \<leftarrow> get2byte d blk;
                  Some (Inr (v\<lparr>fv_nFrag := blk - iEnd, fv_iEnd := iEnd',
                              fv_iSize := (iEnd' - fv_iStart v) mod 65536,
                              fv_iFreeBlk := nxt\<rparr>)) } }
         else Some (Inr v))"

definition freeSpace_join_prev :: "MemPage \<Rightarrow> free_vars \<Rightarrow> (rc + free_vars) option" where
  "freeSpace_join_prev pPage v =
     (if fv_iPtr v > hdrOffset pPage + 1
      then do {
        n \<leftarrow> get2byte (aData pPage) (fv_iPtr v + 2);
        let iPtrEnd = fv_iPtr v + n;
        if iPtrEnd + 3 \<ge> fv_iStart v
        then if iPtrEnd > fv_iStart v then Some (Inl SQLITE_CORRUPT)
             else Some (Inr (v\<lparr>fv_nFrag := (fv_nFrag v + (fv_iStart v - iPtrEnd)) mod 256,
                              fv_iSize := (fv_iEnd v - fv_iPtr v) mod 65536,
                              fv_iStart := fv_iPtr v\<rparr>))
        else Some (Inr v) }
      else Some (Inr v))"

text \<open>From \<^verbatim>\<open>pTmp = &data[hdr+5]\<close> on: the new block is entered.\<close>

definition freeSpace_enter :: "MemPage \<Rightarrow> free_vars \<Rightarrow> nat \<Rightarrow> (rc \<times> MemPage) option" where
  "freeSpace_enter pPage v iOrigSize = do {
     let hdr = hdrOffset pPage;
     x \<leftarrow> get2byte (aData pPage) (hdr + 5);
     d \<leftarrow> (if bt_btsFlags (pBt pPage) AND BTS_FAST_SECURE \<noteq> 0
           then memset (aData pPage) (fv_iStart v) 0 (fv_iSize v) else Some (aData pPage));
     let pPage = pPage\<lparr>aData := d\<rparr>;
     if fv_iStart v \<le> x
     then if fv_iStart v < x then Some (SQLITE_CORRUPT, pPage)
          else if fv_iPtr v \<noteq> hdr + 1 then Some (SQLITE_CORRUPT, pPage)
          else do {
            d \<leftarrow> put2byte d (hdr + 1) (fv_iFreeBlk v);
            d \<leftarrow> put2byte d (hdr + 5) (fv_iEnd v);
            Some (SQLITE_OK, pPage\<lparr>aData := d, nFree := nFree pPage + int iOrigSize\<rparr>) }
     else do {
       d \<leftarrow> put2byte d (fv_iPtr v) (fv_iStart v);
       d \<leftarrow> put2byte d (fv_iStart v) (fv_iFreeBlk v);
       d \<leftarrow> put2byte d (fv_iStart v + 2) (fv_iSize v);
       Some (SQLITE_OK, pPage\<lparr>aData := d, nFree := nFree pPage + int iOrigSize\<rparr>) } }"

definition freeSpace :: "MemPage \<Rightarrow> nat \<Rightarrow> nat \<Rightarrow> (rc \<times> MemPage) option" where
  "freeSpace pPage iStart iSize = do {
     let hdr = hdrOffset pPage;
     b1 \<leftarrow> rd8 (aData pPage) (hdr + 1 + 1);
     b0 \<leftarrow> rd8 (aData pPage) (hdr + 1);
     if b1 = 0 \<and> b0 = 0
     then freeSpace_enter pPage
            \<lparr>fv_iPtr = hdr + 1, fv_iFreeBlk = 0, fv_nFrag = 0, fv_iStart = iStart,
             fv_iSize = iSize, fv_iEnd = iStart + iSize\<rparr> iSize
     else do {
       r \<leftarrow> freeSpace_find pPage iStart iSize;
       case r of Inl rc \<Rightarrow> Some (rc, pPage) | Inr v \<Rightarrow> do {
       r \<leftarrow> freeSpace_join_next pPage v;
       case r of Inl rc \<Rightarrow> Some (rc, pPage) | Inr v \<Rightarrow> do {
       r \<leftarrow> freeSpace_join_prev pPage v;
       case r of Inl rc \<Rightarrow> Some (rc, pPage) | Inr v \<Rightarrow> do {
       frag \<leftarrow> rd8 (aData pPage) (hdr + 7);
       if fv_nFrag v > unat frag then Some (SQLITE_CORRUPT, pPage)
       else do {
         d \<leftarrow> wr8 (aData pPage) (hdr + 7) (frag - cast8 (fv_nFrag v));
         freeSpace_enter (pPage\<lparr>aData := d\<rparr>) v iSize } } } } } }"

text \<open>
  \<^verbatim>\<open>pageFindSlot\<close>: the loop answers the code, the page data and the slot, if any. The
  arguments \<open>maxPC\<close> and \<open>x\<close> may be negative in the source.
\<close>

function pageFindSlot_loop ::
  "bytes \<Rightarrow> nat \<Rightarrow> nat \<Rightarrow> int \<Rightarrow> nat \<Rightarrow> nat \<Rightarrow> (rc \<times> bytes \<times> nat option) option" where
  "pageFindSlot_loop d hdr nByte maxPC iAddr pc =
     (if int pc \<le> maxPC
      then do {
        size \<leftarrow> get2byte d (pc + 2);
        if size \<ge> nByte
        then (let x = size - nByte
              in if x < 4
                 then do {
                   frag \<leftarrow> rd8 d (hdr + 7);
                   if frag > 57 then Some (SQLITE_OK, d, None)
                   else do {
                     d \<leftarrow> memmove d iAddr pc 2;
                     frag \<leftarrow> rd8 d (hdr + 7);
                     d \<leftarrow> wr8 d (hdr + 7) (frag + cast8 x);
                     Some (SQLITE_OK, d, Some pc) } }
                 else if int (x + pc) > maxPC then Some (SQLITE_CORRUPT, d, None)
                 else do {
                   d \<leftarrow> put2byte d (pc + 2) x;
                   Some (SQLITE_OK, d, Some (pc + x)) })
        else do {
          pc' \<leftarrow> get2byte d pc;
          if pc' \<le> pc
          then Some (if pc' \<noteq> 0 then SQLITE_CORRUPT else SQLITE_OK, d, None)
          else pageFindSlot_loop d hdr nByte maxPC pc pc' } }
      else Some (if int pc > maxPC + int nByte - 4 then SQLITE_CORRUPT else SQLITE_OK, d, None))"
  by pat_completeness auto
termination
  by (relation "measure (\<lambda>(d, hdr, nByte, maxPC, iAddr, pc). nat (maxPC + 1 - int pc))") auto

definition pageFindSlot :: "MemPage \<Rightarrow> nat \<Rightarrow> (rc \<times> MemPage \<times> nat option) option" where
  "pageFindSlot pPg nByte = do {
     let hdr = hdrOffset pPg;
     let iAddr = hdr + 1;
     pc \<leftarrow> get2byte (aData pPg) iAddr;
     (rc, d, r) \<leftarrow> pageFindSlot_loop (aData pPg) hdr nByte (int (usableSize pPg) - int nByte) iAddr pc;
     Some (rc, pPg\<lparr>aData := d\<rparr>, r) }"

section \<open>Defragmentation\<close>

text \<open>The loop that adds the distances moved to the cell pointers (fast path).\<close>

fun defrag_fix :: "nat \<Rightarrow> bytes \<Rightarrow> nat \<Rightarrow> nat \<Rightarrow> nat \<Rightarrow> nat \<Rightarrow> nat \<Rightarrow> bytes option" where
  "defrag_fix 0 d pAddr iFree sz iFree2 sz2 = Some d"
| "defrag_fix (Suc k) d pAddr iFree sz iFree2 sz2 = do {
     pc \<leftarrow> get2byte d pAddr;
     d \<leftarrow> (if pc < iFree then put2byte d pAddr (pc + sz)
           else if pc < iFree2 then put2byte d pAddr (pc + sz2)
           else Some d);
     defrag_fix k d (pAddr + 2) iFree sz iFree2 sz2 }"

text \<open>The loop that copies the cells to the end of the page: \<open>cbrk\<close> may be negative on the error return.\<close>

fun defrag_copy :: "nat \<Rightarrow> MemPage \<Rightarrow> bytes \<Rightarrow> nat \<Rightarrow> int \<Rightarrow> nat \<Rightarrow> bytes \<Rightarrow> (rc \<times> bytes \<times> int) option" where
  "defrag_copy 0 pPage src i cbrk iCellStart d = Some (SQLITE_OK, d, cbrk)"
| "defrag_copy (Suc k) pPage src i cbrk iCellStart d = do {
     let pAddr = cellOffset pPage + i * 2;
     pc \<leftarrow> get2byte d pAddr;
     if pc > usableSize pPage - 4 then Some (SQLITE_CORRUPT, d, cbrk)
     else do {
       size \<leftarrow> call_xCellSize pPage (drop pc src);
       let size = unat size;
       let cbrk = cbrk - int size;
       if cbrk < int iCellStart \<or> pc + size > usableSize pPage then Some (SQLITE_CORRUPT, d, cbrk)
       else do {
         d \<leftarrow> put2byte d pAddr (nat cbrk);
         s \<leftarrow> memread src pc size;
         d \<leftarrow> memwrite d (nat cbrk) s;
         defrag_copy k pPage src (i + 1) cbrk iCellStart d } } }"

text \<open>The part after the label \<^verbatim>\<open>defragment_out\<close>.\<close>

definition defragment_out :: "MemPage \<Rightarrow> bytes \<Rightarrow> int \<Rightarrow> (rc \<times> MemPage) option" where
  "defragment_out pPage d cbrk = do {
     let hdr = hdrOffset pPage;
     let iCellFirst = cellOffset pPage + 2 * nCell pPage;
     frag \<leftarrow> rd8 d (hdr + 7);
     if uint frag + cbrk - int iCellFirst \<noteq> nFree pPage then Some (SQLITE_CORRUPT, pPage\<lparr>aData := d\<rparr>)
     else if cbrk < int iCellFirst then None
     else do {
       d \<leftarrow> put2byte d (hdr + 5) (nat cbrk);
       d \<leftarrow> wr8 d (hdr + 1) 0;
       d \<leftarrow> wr8 d (hdr + 2) 0;
       d \<leftarrow> memset d iCellFirst 0 (nat cbrk - iCellFirst);
       Some (SQLITE_OK, pPage\<lparr>aData := d\<rparr>) } }"

text \<open>
  The block for pages with one or two free blocks. \<^term>\<open>Inl\<close> is an early return,
  \<^term>\<open>Inr None\<close> means that the block does not apply, otherwise the new data and \<open>cbrk\<close>.
\<close>

definition defrag_fast :: "MemPage \<Rightarrow> (rc + (bytes \<times> nat) option) option" where
  "defrag_fast pPage = do {
     let d = aData pPage; let hdr = hdrOffset pPage; let u = usableSize pPage;
     iFree \<leftarrow> get2byte d (hdr + 1);
     if iFree > u - 4 then Some (Inl SQLITE_CORRUPT)
     else if iFree = 0 then Some (Inr None)
     else do {
       iFree2 \<leftarrow> get2byte d iFree;
       if iFree2 > u - 4 then Some (Inl SQLITE_CORRUPT)
       else do {
         b0 \<leftarrow> rd8 d iFree2;
         b1 \<leftarrow> rd8 d (iFree2 + 1);
         if iFree2 = 0 \<or> (b0 = 0 \<and> b1 = 0)
         then do {
           sz \<leftarrow> get2byte d (iFree + 2);
           top \<leftarrow> get2byte d (hdr + 5);
           if top \<ge> iFree then Some (Inl SQLITE_CORRUPT)
           else if iFree2 \<noteq> 0
           then if iFree + sz > iFree2 then Some (Inl SQLITE_CORRUPT)
                else do {
                  sz2 \<leftarrow> get2byte d (iFree2 + 2);
                  if iFree2 + sz2 > u then Some (Inl SQLITE_CORRUPT)
                  else do {
                    d \<leftarrow> memmove d (iFree + sz + sz2) (iFree + sz) (iFree2 - (iFree + sz));
                    let sz = sz + sz2;
                    d \<leftarrow> memmove d (top + sz) top (iFree - top);
                    d \<leftarrow> defrag_fix (nCell pPage) d (cellOffset pPage) iFree sz iFree2 sz2;
                    Some (Inr (Some (d, top + sz))) } }
           else if iFree + sz > u then Some (Inl SQLITE_CORRUPT)
           else do {
             d \<leftarrow> memmove d (top + sz) top (iFree - top);
             d \<leftarrow> defrag_fix (nCell pPage) d (cellOffset pPage) iFree sz iFree2 0;
             Some (Inr (Some (d, top + sz))) } }
         else Some (Inr None) } } }"

text \<open>
  \<^verbatim>\<open>defragmentPage\<close>; \<open>temp\<close> is the buffer of \<^verbatim>\<open>sqlite3PagerTempSpace\<close>.
\<close>

definition defrag_slow :: "MemPage \<Rightarrow> bytes \<Rightarrow> (rc \<times> MemPage) option" where
  "defrag_slow pPage temp = do {
     let d = aData pPage; let hdr = hdrOffset pPage; let u = usableSize pPage;
     iCellStart \<leftarrow> get2byte d (hdr + 5);
     (rc, d, cbrk) \<leftarrow>
       (if nCell pPage > 0
        then do {
          s \<leftarrow> memread d 0 u;
          src \<leftarrow> memwrite temp 0 s;
          defrag_copy (nCell pPage) pPage src 0 (int u) iCellStart d }
        else Some (SQLITE_OK, d, int u));
     if rc \<noteq> SQLITE_OK then Some (rc, pPage\<lparr>aData := d\<rparr>)
     else do {
       d \<leftarrow> wr8 d (hdr + 7) 0;
       defragment_out pPage d cbrk } }"

definition defragmentPage :: "MemPage \<Rightarrow> int \<Rightarrow> bytes \<Rightarrow> (rc \<times> MemPage) option" where
  "defragmentPage pPage nMaxFrag temp = do {
     frag \<leftarrow> rd8 (aData pPage) (hdrOffset pPage + 7);
     if uint frag \<le> nMaxFrag
     then do {
       r \<leftarrow> defrag_fast pPage;
       case r of
         Inl rc \<Rightarrow> Some (rc, pPage)
       | Inr (Some (d, cbrk)) \<Rightarrow> defragment_out pPage d (int cbrk)
       | Inr None \<Rightarrow> defrag_slow pPage temp }
     else defrag_slow pPage temp }"


section \<open>Allocation\<close>

text \<open>
  \<^verbatim>\<open>allocateSpace\<close>; the last component is \<^verbatim>\<open>*pIdx\<close>, meaningful when the
  code is \<^term>\<open>SQLITE_OK\<close>. An index that would be negative is \<^term>\<open>None\<close>.
\<close>

definition allocateSpace :: "MemPage \<Rightarrow> nat \<Rightarrow> bytes \<Rightarrow> (rc \<times> MemPage \<times> nat) option" where
  "allocateSpace pPage nByte temp = do {
     let hdr = hdrOffset pPage; let u = usableSize pPage;
     let gap = cellOffset pPage + 2 * nCell pPage;
     top \<leftarrow> get2byte (aData pPage) (hdr + 5);
     if gap > top \<and> \<not> (top = 0 \<and> u = 65536) then Some (SQLITE_CORRUPT, pPage, 0)
     else if \<not> gap > top \<and> top > u then Some (SQLITE_CORRUPT, pPage, 0)
     else do {
       let top = (if gap > top then 65536 else top);
       b2 \<leftarrow> rd8 (aData pPage) (hdr + 2);
       b1 \<leftarrow> rd8 (aData pPage) (hdr + 1);
       (rc, pPage, pSpace) \<leftarrow>
         (if (b2 \<noteq> 0 \<or> b1 \<noteq> 0) \<and> gap + 2 \<le> top then pageFindSlot pPage nByte
          else Some (SQLITE_OK, pPage, None));
       case pSpace of
         Some g2 \<Rightarrow> Some (if g2 \<le> gap then SQLITE_CORRUPT else SQLITE_OK, pPage, g2)
       | None \<Rightarrow>
         if rc \<noteq> SQLITE_OK then Some (rc, pPage, 0)
         else do {
           (rc, pPage, top) \<leftarrow>
             (if gap + 2 + nByte > top
              then do {
                (rc, pPage) \<leftarrow>
                  defragmentPage pPage (min 4 (nFree pPage - (2 + int nByte))) temp;
                if rc \<noteq> SQLITE_OK then Some (rc, pPage, 0)
                else do {
                  top \<leftarrow> get2byteNotZero (aData pPage) (hdr + 5);
                  Some (SQLITE_OK, pPage, top) } }
              else Some (SQLITE_OK, pPage, top));
           if rc \<noteq> SQLITE_OK then Some (rc, pPage, 0)
           else if top < nByte then None
           else do {
             let top = top - nByte;
             d \<leftarrow> put2byte (aData pPage) (hdr + 5) top;
             Some (SQLITE_OK, pPage\<lparr>aData := d\<rparr>, top) } } } }"

section \<open>Initialisation and checks\<close>

text \<open>The loop of \<^verbatim>\<open>btreeComputeFreeSpace\<close>: \<open>next\<close>, \<open>pc\<close>, \<open>size\<close> and \<open>nFree\<close> at its end.\<close>

function computeFree_loop :: "bytes \<Rightarrow> nat \<Rightarrow> nat \<Rightarrow> nat \<Rightarrow> (rc \<times> nat \<times> nat \<times> nat \<times> nat) option" where
  "computeFree_loop d iCellLast pc nfree =
     (if pc > iCellLast then Some (SQLITE_CORRUPT, 0, pc, 0, nfree)
      else do {
        nxt \<leftarrow> get2byte d pc;
        size \<leftarrow> get2byte d (pc + 2);
        let nfree = nfree + size;
        if nxt \<le> pc + size + 3 then Some (SQLITE_OK, nxt, pc, size, nfree)
        else computeFree_loop d iCellLast nxt nfree })"
  by pat_completeness auto
termination
  by (relation "measure (\<lambda>(d, iCellLast, pc, nfree). iCellLast + 1 - pc)") auto

definition btreeComputeFreeSpace :: "MemPage \<Rightarrow> (rc \<times> MemPage) option" where
  "btreeComputeFreeSpace pPage = do {
     let u = usableSize pPage; let hdr = hdrOffset pPage; let d = aData pPage;
     top \<leftarrow> get2byteNotZero d (hdr + 5);
     let iCellFirst = hdr + 8 + childPtrSize pPage + 2 * nCell pPage;
     let iCellLast = u - 4;
     pc \<leftarrow> get2byte d (hdr + 1);
     frag \<leftarrow> rd8 d (hdr + 7);
     let nfree = unat frag + top;
     (rc, nfree) \<leftarrow>
       (if pc > 0
        then if pc < top then Some (SQLITE_CORRUPT, nfree)
             else do {
               (rc, nxt, pc, size, nfree) \<leftarrow> computeFree_loop d iCellLast pc nfree;
               Some (if rc \<noteq> SQLITE_OK then rc
                     else if nxt > 0 then SQLITE_CORRUPT
                     else if pc + size > u then SQLITE_CORRUPT
                     else SQLITE_OK, nfree) }
        else Some (SQLITE_OK, nfree));
     Some (if rc \<noteq> SQLITE_OK then (rc, pPage)
           else if nfree > u \<or> nfree < iCellFirst then (SQLITE_CORRUPT, pPage)
           else (SQLITE_OK, pPage\<lparr>nFree := int ((nfree - iCellFirst) mod 65536)\<rparr>)) }"

fun cellSizeCheck_loop :: "nat \<Rightarrow> MemPage \<Rightarrow> nat \<Rightarrow> nat \<Rightarrow> nat \<Rightarrow> rc option" where
  "cellSizeCheck_loop 0 pPage i iCellFirst iCellLast = Some SQLITE_OK"
| "cellSizeCheck_loop (Suc k) pPage i iCellFirst iCellLast = do {
     pc \<leftarrow> get2byte (aData pPage) (cellOffset pPage + i * 2);
     if pc < iCellFirst \<or> pc > iCellLast then Some SQLITE_CORRUPT
     else do {
       sz \<leftarrow> call_xCellSize pPage (drop pc (aData pPage));
       if pc + unat sz > usableSize pPage then Some SQLITE_CORRUPT
       else cellSizeCheck_loop k pPage (i + 1) iCellFirst iCellLast } }"

definition btreeCellSizeCheck :: "MemPage \<Rightarrow> rc option" where
  "btreeCellSizeCheck pPage =
     (let iCellFirst = cellOffset pPage + 2 * nCell pPage;
          iCellLast = usableSize pPage - 4;
          iCellLast = (if \<not> leaf pPage then iCellLast - 1 else iCellLast)
      in cellSizeCheck_loop (nCell pPage) pPage 0 iCellFirst iCellLast)"

definition MX_CELL :: "BtShared \<Rightarrow> nat" where
  "MX_CELL bt = (unat (bt_pageSize bt) - 8) div 6"

definition btreeInitPage :: "MemPage \<Rightarrow> (rc \<times> MemPage) option" where
  "btreeInitPage pPage = do {
     let bt = pBt pPage; let hdr = hdrOffset pPage;
     flags \<leftarrow> rd8 (aData pPage) hdr;
     let (rc, pPage) = decodeFlags pPage (unat flags);
     if rc \<noteq> SQLITE_OK then Some (SQLITE_CORRUPT, pPage)
     else do {
       n \<leftarrow> get2byte (aData pPage) (hdr + 3);
       let pPage = pPage\<lparr>maskPage := ucast (bt_pageSize bt - 1), nOverflow := 0,
         cellOffset := hdr + 8 + childPtrSize pPage, aCellIdx := hdr + childPtrSize pPage + 8,
         aDataEnd := unat (bt_pageSize bt), aDataOfst := childPtrSize pPage, nCell := n\<rparr>;
       if n > MX_CELL bt then Some (SQLITE_CORRUPT, pPage)
       else do {
         let pPage = pPage\<lparr>nFree := -1, isInit := True\<rparr>;
         if bt_cellSizeCk bt then do { rc \<leftarrow> btreeCellSizeCheck pPage; Some (rc, pPage) }
         else Some (SQLITE_OK, pPage) } } }"

definition zeroPage :: "MemPage \<Rightarrow> nat \<Rightarrow> MemPage option" where
  "zeroPage pPage flags = do {
     let bt = pBt pPage; let hdr = hdrOffset pPage; let u = usableSize pPage;
     d \<leftarrow> (if bt_btsFlags bt AND BTS_FAST_SECURE \<noteq> 0 then memset (aData pPage) hdr 0 (u - hdr)
           else Some (aData pPage));
     d \<leftarrow> wr8 d hdr (cast8 flags);
     let first = hdr + (if flags AND PTF_LEAF = 0 then 12 else 8);
     d \<leftarrow> memset d (hdr + 1) 0 4;
     d \<leftarrow> wr8 d (hdr + 7) 0;
     d \<leftarrow> put2byte d (hdr + 5) u;
     let pPage = pPage\<lparr>aData := d, nFree := int ((u - first) mod 65536)\<rparr>;
     let pPage = snd (decodeFlags pPage flags);
     Some (pPage\<lparr>cellOffset := first, aDataEnd := unat (bt_pageSize bt), aCellIdx := first,
       aDataOfst := childPtrSize pPage, nOverflow := 0, maskPage := ucast (bt_pageSize bt - 1),
       nCell := 0, isInit := True\<rparr>) }"

section \<open>Cells of a page\<close>

definition findCell :: "MemPage \<Rightarrow> nat \<Rightarrow> nat option" where
  "findCell pPage i = do {
     pc \<leftarrow> get2byte (aData pPage) (aCellIdx pPage + 2 * i);
     Some (unat (maskPage pPage) AND pc) }"

definition btreeParseCell :: "MemPage \<Rightarrow> nat \<Rightarrow> CellInfo option" where
  "btreeParseCell pPage iCell = do {
     pc \<leftarrow> findCell pPage iCell;
     call_xParseCell pPage (drop pc (aData pPage)) }"

text \<open>\<^verbatim>\<open>dropCell\<close>, entered with the code \<open>rc\<close> in \<^verbatim>\<open>*pRC\<close>.\<close>

definition dropCell :: "MemPage \<Rightarrow> nat \<Rightarrow> nat \<Rightarrow> rc \<Rightarrow> (rc \<times> MemPage) option" where
  "dropCell pPage idx sz rc =
     (if rc \<noteq> SQLITE_OK then Some (rc, pPage)
      else do {
        let ptr = aCellIdx pPage + 2 * idx; let hdr = hdrOffset pPage; let u = usableSize pPage;
        pc \<leftarrow> get2byte (aData pPage) ptr;
        if pc + sz > u then Some (SQLITE_CORRUPT, pPage)
        else do {
          (rc, pPage) \<leftarrow> freeSpace pPage pc (sz mod 65536);
          if rc \<noteq> SQLITE_OK then Some (rc, pPage)
          else do {
            let pPage = pPage\<lparr>nCell := nCell pPage - 1\<rparr>;
            if nCell pPage = 0
            then do {
              d \<leftarrow> memset (aData pPage) (hdr + 1) 0 4;
              d \<leftarrow> wr8 d (hdr + 7) 0;
              d \<leftarrow> put2byte d (hdr + 5) u;
              Some (SQLITE_OK, pPage\<lparr>aData := d,
                nFree := int u - int hdr - int (childPtrSize pPage) - 8\<rparr>) }
            else do {
              d \<leftarrow> memmove (aData pPage) ptr (ptr + 2) (2 * (nCell pPage - idx));
              d \<leftarrow> put2byte d (hdr + 3) (nCell pPage);
              Some (SQLITE_OK, pPage\<lparr>aData := d, nFree := nFree pPage + 2\<rparr>) } } } })"

text \<open>
  A cell that does not fit is kept aside in \<^verbatim>\<open>apOvfl\<close>. Of its four entries the last is held back: the code
  asserts that it uses three at most, and \<^term>\<open>None\<close> is the failure of that assertion.
\<close>

definition add_overflow :: "MemPage \<Rightarrow> nat \<Rightarrow> bytes \<Rightarrow> (rc \<times> MemPage) option" where
  "add_overflow pPage i pCell =
     (let j = nOverflow pPage
      in if j < 3
         then Some (SQLITE_OK, pPage\<lparr>nOverflow := j + 1, apOvfl := (apOvfl pPage)[j := pCell],
                aiOvfl := (aiOvfl pPage)[j := i mod 65536]\<rparr>)
         else None)"

text \<open>
  The second half of both insertion routines: \<open>cell\<close> is what is written at the allocated
  index. \<^verbatim>\<open>ptrmapPutOvflPtr\<close>, which changes other pages only, is a parameter.
\<close>

definition insert_pointer ::
  "(MemPage \<Rightarrow> bytes \<Rightarrow> rc) \<Rightarrow> MemPage \<Rightarrow> nat \<Rightarrow> bytes \<Rightarrow> nat \<Rightarrow> (rc \<times> MemPage) option" where
  "insert_pointer ptrmapPutOvflPtr pPage i pCell idx = do {
     let hdr = hdrOffset pPage;
     let pIns = aCellIdx pPage + i * 2;
     d \<leftarrow> memmove (aData pPage) (pIns + 2) pIns (2 * (nCell pPage - i));
     d \<leftarrow> put2byte d pIns idx;
     b4 \<leftarrow> rd8 d (hdr + 4);
     d \<leftarrow> wr8 d (hdr + 4) (b4 + 1);
     d \<leftarrow> (if b4 + 1 = 0 then do { b3 \<leftarrow> rd8 d (hdr + 3); wr8 d (hdr + 3) (b3 + 1) }
           else Some d);
     let pPage = pPage\<lparr>nCell := nCell pPage + 1, aData := d\<rparr>;
     Some (if bt_autoVacuum (pBt pPage) then ptrmapPutOvflPtr pPage pCell else SQLITE_OK, pPage) }"

definition insertCellFast ::
  "(MemPage \<Rightarrow> rc) \<Rightarrow> (MemPage \<Rightarrow> bytes \<Rightarrow> rc) \<Rightarrow> bytes \<Rightarrow> MemPage \<Rightarrow> nat \<Rightarrow> bytes \<Rightarrow> nat \<Rightarrow>
   (rc \<times> MemPage) option" where
  "insertCellFast sqlite3PagerWrite ptrmapPutOvflPtr temp pPage i pCell sz =
     (if int sz + 2 > nFree pPage then add_overflow pPage i pCell
      else if sqlite3PagerWrite pPage \<noteq> SQLITE_OK then Some (sqlite3PagerWrite pPage, pPage)
      else do {
        (rc, pPage, idx) \<leftarrow> allocateSpace pPage sz temp;
        if rc \<noteq> SQLITE_OK then Some (rc, pPage)
        else do {
          let pPage = pPage\<lparr>nFree := nFree pPage - int ((2 + sz) mod 65536)\<rparr>;
          s \<leftarrow> memread pCell 0 sz;
          d \<leftarrow> memwrite (aData pPage) idx s;
          insert_pointer ptrmapPutOvflPtr (pPage\<lparr>aData := d\<rparr>) i pCell idx } })"

text \<open>
  \<^verbatim>\<open>insertCell\<close> writes the child pointer over the first four bytes of the cell; the
  copy into \<^verbatim>\<open>pTemp\<close>, when there is one, has \<open>sz\<close> bytes.
\<close>

definition insertCell ::
  "(MemPage \<Rightarrow> rc) \<Rightarrow> (MemPage \<Rightarrow> bytes \<Rightarrow> rc) \<Rightarrow> bytes \<Rightarrow> MemPage \<Rightarrow> nat \<Rightarrow> bytes \<Rightarrow> nat \<Rightarrow> bool \<Rightarrow>
   u32 \<Rightarrow> (rc \<times> MemPage) option" where
  "insertCell sqlite3PagerWrite ptrmapPutOvflPtr temp pPage i pCell sz pTemp iChild =
     (if nOverflow pPage \<noteq> 0 \<or> int sz + 2 > nFree pPage
      then do {
        pCell \<leftarrow> (if pTemp then memread pCell 0 sz else Some pCell);
        pCell \<leftarrow> memwrite pCell 0 (sqlite3Put4byte iChild);
        add_overflow pPage i pCell }
      else if sqlite3PagerWrite pPage \<noteq> SQLITE_OK then Some (sqlite3PagerWrite pPage, pPage)
      else do {
        (rc, pPage, idx) \<leftarrow> allocateSpace pPage sz temp;
        if rc \<noteq> SQLITE_OK then Some (rc, pPage)
        else do {
          let pPage = pPage\<lparr>nFree := nFree pPage - int ((2 + sz) mod 65536)\<rparr>;
          s \<leftarrow> memread pCell 4 (sz - 4);
          d \<leftarrow> memwrite (aData pPage) (idx + 4) s;
          d \<leftarrow> memwrite d idx (sqlite3Put4byte iChild);
          insert_pointer ptrmapPutOvflPtr (pPage\<lparr>aData := d\<rparr>) i pCell idx } })"

declare freeSpace_loop.simps [simp del] pageFindSlot_loop.simps [simp del]
  computeFree_loop.simps [simp del]

section \<open>Facts about page bytes\<close>

text \<open>Total versions of the two-byte accessors, for pages whose accesses are in range.\<close>

definition g2 :: "bytes \<Rightarrow> nat \<Rightarrow> nat" where
  "g2 d i = 256 * unat (d ! i) + unat (d ! Suc i)"

definition p2 :: "bytes \<Rightarrow> nat \<Rightarrow> nat \<Rightarrow> bytes" where
  "p2 d i v = d[i := cast8 (v div 256), Suc i := cast8 v]"

named_theorems page_simps \<open>accesses to the bytes of a page\<close>

lemma push_or_byte: "push_bit 8 (unat (a::u8)) OR unat (b::u8) = 256 * unat a + unat b"
proof -
  have "push_bit 8 (unat a) AND unat b = 0"
    by (rule bit_eqI) (auto simp: bit_simps dest: bit_imp_le_length)
  then have "push_bit 8 (unat a) OR unat b = push_bit 8 (unat a) + unat b"
    by (rule disjunctive_add_eq_or [symmetric])
  then show ?thesis by (simp add: push_bit_eq_mult)
qed

lemma get2byte_eq [page_simps]: "Suc i < length d \<Longrightarrow> get2byte d i = Some (g2 d i)"
  by (simp add: get2byte_def rd8_def g2_def push_or_byte)

lemma get2byte_None: "length d \<le> Suc i \<Longrightarrow> get2byte d i = None"
  by (simp add: get2byte_def rd8_def)

lemma put2byte_eq [page_simps]: "Suc i < length d \<Longrightarrow> put2byte d i v = Some (p2 d i v)"
  by (simp add: put2byte_def wr8_def p2_def drop_bit_eq_div)

lemma length_p2 [simp]: "length (p2 d i v) = length d"
  by (simp add: p2_def)

lemma g2_less [simp]: "g2 d i < 65536"
proof -
  have "unat (d ! i) < 256" "unat (d ! Suc i) < 256"
    using unsigned_less [of "d ! i", where 'a = nat] unsigned_less [of "d ! Suc i", where 'a = nat]
    by simp_all
  then show ?thesis by (simp add: g2_def)
qed

lemma g2_p2_same: "Suc i < length d \<Longrightarrow> g2 (p2 d i v) i = v mod 65536"
proof -
  assume "Suc i < length d"
  then have "g2 (p2 d i v) i = 256 * (v div 256 mod 256) + v mod 256"
    by (simp add: g2_def p2_def unat_cast8)
  also have "\<dots> = v mod (256 * 256)" by (simp only: mod_mult2_eq) 
  finally show ?thesis by simp
qed

lemma nth_p2: "j \<noteq> i \<Longrightarrow> j \<noteq> Suc i \<Longrightarrow> p2 d i v ! j = d ! j"
  by (simp add: p2_def)

lemma g2_cong: "d ! i = d' ! i \<Longrightarrow> d ! Suc i = d' ! Suc i \<Longrightarrow> g2 d i = g2 d' i"
  by (simp add: g2_def)

lemma g2_eq_0: "g2 d i = 0 \<longleftrightarrow> d ! i = 0 \<and> d ! Suc i = 0"
  by (simp add: g2_def unat_eq_0)

lemma memset_eq [page_simps]: "i + n \<le> length d \<Longrightarrow> memset d i c n = Some (take i d @ replicate n c @ drop (i + n) d)"
  by (simp add: memset_def)

lemma nth_memset: "i + n \<le> length d \<Longrightarrow> j < length d \<Longrightarrow> (take i d @ replicate n c @ drop (i + n) d) ! j
   = (if i \<le> j \<and> j < i + n then c else d ! j)"
  by (auto simp: nth_append min_def)

lemma get2byteNotZero_eq [page_simps]:
  "Suc i < length d \<Longrightarrow> get2byteNotZero d i = Some (if g2 d i = 0 then 65536 else g2 d i)"
proof -
  have *: "nat ((int v - 1 AND 0xffff) + 1) = (if v = 0 then 65536 else v)" if "v < 65536" for v
  proof -
    have "(int v - 1) AND 0xffff = (int v - 1) mod 65536"
      using take_bit_eq_mask [of 16 "int v - 1"] by (simp add: take_bit_eq_mod mask_eq_exp_minus_1)
    moreover have "(int v - 1) mod 65536 = (if v = 0 then 65535 else int v - 1)"
      using that by (auto simp: zmod_minus1)
    ultimately show ?thesis by simp
  qed
  assume "Suc i < length d"
  then show ?thesis by (simp add: get2byteNotZero_def get2byte_eq *)
qed

end
