(* ===== verification/FreeM.thy ===== *)
theory FreeM
  imports PageM
begin

text \<open>
  The layout of a page as an invariant: which bytes belong to cells, which to free blocks,
  which are fragments. \<^verbatim>\<open>freeSpace\<close> keeps it.
\<close>

section \<open>The invariant\<close>

text \<open>An extent is an offset and a size.\<close>

type_synonym extent = "nat \<times> nat"

definition ext :: "extent \<Rightarrow> nat set" where
  "ext e = {fst e ..< fst e + snd e}"

definition cover :: "extent set \<Rightarrow> nat set" where
  "cover X = (\<Union>e\<in>X. ext e)"

definition apart :: "extent \<Rightarrow> extent \<Rightarrow> bool" where
  "apart a b \<longleftrightarrow> fst a + snd a \<le> fst b \<or> fst b + snd b \<le> fst a"

text \<open>
  The list of free blocks from the pointer at \<open>a\<close>: each block holds the offset of the next
  and its own size; the last pointer is \<open>v\<close>.
\<close>

fun chain :: "bytes \<Rightarrow> nat \<Rightarrow> extent list \<Rightarrow> nat \<Rightarrow> bool" where
  "chain d a [] v \<longleftrightarrow> g2 d a = v"
| "chain d a ((s, n) # bs) v \<longleftrightarrow> g2 d a = s \<and> g2 d (s + 2) = n \<and> chain d s bs v"

text \<open>Blocks above \<open>lo\<close>, ascending, of at least 4 bytes, with at least 4 bytes between two of them.\<close>

fun blocks_ok :: "nat \<Rightarrow> nat \<Rightarrow> extent list \<Rightarrow> bool" where
  "blocks_ok lo u [] \<longleftrightarrow> True"
| "blocks_ok lo u ((s, n) # bs) \<longleftrightarrow> lo < s \<and> 4 \<le> n \<and> s + n \<le> u \<and> blocks_ok (s + n + 3) u bs"

abbreviation cellFirst :: "MemPage \<Rightarrow> nat" where
  "cellFirst pg \<equiv> cellOffset pg + 2 * nCell pg"

text \<open>
  \<open>page_inv pg A bs ctop\<close>: the cells occupy the extents \<open>A\<close>, the free blocks are \<open>bs\<close>, the
  content area starts at \<open>ctop\<close>. The byte at \<open>hdr + 7\<close> counts the bytes of the content area in
  neither; \<^verbatim>\<open>nFree\<close> counts the bytes after the pointer array that no cell uses.
\<close>

definition page_inv :: "MemPage \<Rightarrow> extent set \<Rightarrow> extent list \<Rightarrow> nat \<Rightarrow> bool" where
  "page_inv pg A bs ctop \<longleftrightarrow>
     usableSize pg \<le> length (aData pg) \<and> usableSize pg \<le> 65536
     \<and> hdrOffset pg + 8 \<le> cellOffset pg \<and> cellFirst pg \<le> ctop \<and> ctop \<le> usableSize pg
     \<and> g2 (aData pg) (hdrOffset pg + 5) = ctop mod 65536
     \<and> chain (aData pg) (hdrOffset pg + 1) bs 0 \<and> blocks_ok ctop (usableSize pg) bs
     \<and> finite A \<and> (\<forall>a\<in>A. 4 \<le> snd a \<and> ctop \<le> fst a \<and> fst a + snd a \<le> usableSize pg)
     \<and> (\<forall>a\<in>A. \<forall>b\<in>A. a \<noteq> b \<longrightarrow> apart a b) \<and> (\<forall>a\<in>A. \<forall>b\<in>set bs. apart a b)
     \<and> unat (aData pg ! (hdrOffset pg + 7)) = card ({ctop ..< usableSize pg} - cover A - cover (set bs))
     \<and> nFree pg = int (card ({cellFirst pg ..< usableSize pg} - cover A))"

section \<open>Chains of blocks\<close>

definition lastp :: "nat \<Rightarrow> extent list \<Rightarrow> nat" where
  "lastp a xs = (if xs = [] then a else fst (last xs))"

definition hdp :: "extent list \<Rightarrow> nat \<Rightarrow> nat" where
  "hdp xs v = (if xs = [] then v else fst (hd xs))"

definition endp :: "nat \<Rightarrow> extent list \<Rightarrow> nat" where
  "endp lo xs = (if xs = [] then lo else fst (last xs) + snd (last xs) + 3)"

lemma ptr_simps [simp]:
  "lastp a [] = a" "lastp a (x # xs) = lastp (fst x) xs" "lastp a (xs @ [x]) = fst x"
  "hdp [] v = v" "hdp (x # xs) v = fst x"
  "endp lo [] = lo" "endp lo (x # xs) = endp (fst x + snd x + 3) xs"
  "endp lo (xs @ [x]) = fst x + snd x + 3"
  by (simp_all add: lastp_def hdp_def endp_def)

lemma chain_append: "chain d a (xs @ ys) v \<longleftrightarrow> chain d a xs (hdp ys v) \<and> chain d (lastp a xs) ys v"
proof (induction xs arbitrary: a)
  case Nil
  show ?case by (cases ys) (auto simp: hdp_def)
next
  case (Cons x xs)
  then show ?case by (cases x) auto
qed

lemma blocks_ok_append: "blocks_ok lo u (xs @ ys) \<longleftrightarrow> blocks_ok lo u xs \<and> blocks_ok (endp lo xs) u ys"
proof (induction xs arbitrary: lo)
  case (Cons x xs)
  show ?case by (cases x) (simp add: Cons.IH)
qed simp

lemma blocks_ok_mono: "blocks_ok lo u bs \<Longrightarrow> lo' \<le> lo \<Longrightarrow> blocks_ok lo' u bs"
  by (cases bs) auto

lemma blocks_okD:
  "blocks_ok lo u bs \<Longrightarrow> e \<in> set bs \<Longrightarrow>
   lo < fst e \<and> 4 \<le> snd e \<and> fst e + snd e \<le> u \<and> fst e + snd e + 3 \<le> endp lo bs"
proof (induction bs arbitrary: lo)
  case (Cons x bs)
  obtain s n where x: "x = (s, n)" by (cases x)
  have le: "lo \<le> endp lo bs" if "blocks_ok lo u bs" for lo bs
    using that by (induction bs arbitrary: lo) (force simp: x)+
  show ?case
  proof (cases "e = x")
    case True
    then show ?thesis using Cons.prems le [of "s + n + 3" bs] by (simp add: x)
  next
    case False
    then show ?thesis using Cons.prems Cons.IH [of "s + n + 3"] by (force simp: x)
  qed
qed simp

text \<open>Changing only the last pointer of a chain.\<close>

lemma chain_last:
  assumes "chain d a xs v" "g2 d' (lastp a xs) = w" "blocks_ok lo u xs"
    and "\<And>i. (\<exists>e\<in>set xs. fst e \<le> i \<and> i < fst e + 4) \<or> i = a \<or> i = Suc a \<Longrightarrow>
           i \<noteq> lastp a xs \<Longrightarrow> i \<noteq> Suc (lastp a xs) \<Longrightarrow> d' ! i = d ! i"
    and "Suc a \<le> lo"
  shows "chain d' a xs w"
  using assms
proof (induction xs arbitrary: a lo)
  case (Cons x xs)
  obtain s n where x: "x = (s, n)" by (cases x)
  have s: "lo < s" "blocks_ok (s + n + 3) u xs" "4 \<le> n" using Cons.prems(3) by (auto simp: x)
  have last: "s \<le> lastp s xs \<and> (lastp s xs = s \<or> s + n + 3 < lastp s xs)"
  proof (cases xs rule: rev_cases)
    case (snoc ys y)
    then have "y \<in> set xs" by simp
    then show ?thesis using blocks_okD [OF s(2), of y] snoc by simp
  qed simp
  have "g2 d' a = g2 d a"
    by (rule g2_cong) (use Cons.prems(4,5) s(1) last in \<open>auto simp: x\<close>)
  moreover have "g2 d' (s + 2) = g2 d (s + 2)"
    by (rule g2_cong) (use Cons.prems(4) s last in \<open>auto simp: x\<close>)
  moreover have "chain d' s xs w"
  proof (rule Cons.IH [of s "s + n + 3"])
    show "chain d s xs v" using Cons.prems(1) by (simp add: x)
    show "g2 d' (lastp s xs) = w" using Cons.prems(2) by (simp add: x)
    show "blocks_ok (s + n + 3) u xs" by (rule s(2))
    show "Suc s \<le> s + n + 3" by simp
    fix i assume "(\<exists>e\<in>set xs. fst e \<le> i \<and> i < fst e + 4) \<or> i = s \<or> i = Suc s"
      "i \<noteq> lastp s xs" "i \<noteq> Suc (lastp s xs)"
    then show "d' ! i = d ! i" by (intro Cons.prems(4)) (auto simp: x)
  qed
  ultimately show ?case using Cons.prems(1) by (simp add: x)
qed simp

lemma chain_cong:
  assumes "chain d a xs v" "\<And>i. (\<exists>e\<in>set xs. fst e \<le> i \<and> i < fst e + 4) \<or> i = a \<or> i = Suc a \<Longrightarrow> d' ! i = d ! i"
  shows "chain d' a xs v"
  using assms
proof (induction xs arbitrary: a)
  case Nil
  then show ?case using g2_cong [of d' a d] by simp
next
  case (Cons x xs)
  obtain s n where x: "x = (s, n)" by (cases x)
  have "g2 d' a = g2 d a" "g2 d' (s + 2) = g2 d (s + 2)"
    by (rule g2_cong; use Cons.prems(2) in \<open>simp add: x\<close>)+
  moreover have "chain d' s xs v"
    by (rule Cons.IH) (use Cons.prems in \<open>auto simp: x\<close>)
  ultimately show ?case using Cons.prems(1) by (simp add: x)
qed

section \<open>Freeing space\<close>

lemma in_cover_iff: "i \<in> cover X \<longleftrightarrow> (\<exists>e\<in>X. fst e \<le> i \<and> i < fst e + snd e)"
  by (auto simp: cover_def ext_def)

lemma in_ext_iff: "i \<in> ext e \<longleftrightarrow> fst e \<le> i \<and> i < fst e + snd e"
  by (auto simp: ext_def)

lemma page_invD:
  assumes "page_inv pg A bs ctop"
  shows "usableSize pg \<le> length (aData pg)" "usableSize pg \<le> 65536"
    "hdrOffset pg + 8 \<le> cellOffset pg" "cellFirst pg \<le> ctop" "ctop \<le> usableSize pg"
    "g2 (aData pg) (hdrOffset pg + 5) = ctop mod 65536"
    "chain (aData pg) (hdrOffset pg + 1) bs 0" "blocks_ok ctop (usableSize pg) bs"
    "finite A" "\<And>a. a \<in> A \<Longrightarrow> 4 \<le> snd a \<and> ctop \<le> fst a \<and> fst a + snd a \<le> usableSize pg"
    "\<And>a b. a \<in> A \<Longrightarrow> b \<in> A \<Longrightarrow> a \<noteq> b \<Longrightarrow> apart a b" "\<And>a b. a \<in> A \<Longrightarrow> b \<in> set bs \<Longrightarrow> apart a b"
    "unat (aData pg ! (hdrOffset pg + 7)) = card ({ctop ..< usableSize pg} - cover A - cover (set bs))"
    "nFree pg = int (card ({cellFirst pg ..< usableSize pg} - cover A))"
  using assms unfolding page_inv_def by blast+

lemma split_blocks:
  "blocks_ok lo u bs \<Longrightarrow>
   \<exists>pre post. bs = pre @ post \<and> (\<forall>e\<in>set pre. fst e < s) \<and> (\<forall>e\<in>set post. s \<le> fst e)"
proof (induction bs arbitrary: lo)
  case (Cons x bs)
  show ?case
  proof (cases "fst x < s")
    case True
    obtain pre post where "bs = pre @ post" "\<forall>e\<in>set pre. fst e < s" "\<forall>e\<in>set post. s \<le> fst e"
      using Cons.IH [of "fst x + snd x + 3"] Cons.prems by (cases x) auto
    then show ?thesis using True by (intro exI [of _ "x # pre"] exI [of _ post]) auto
  next
    case False
    have "\<forall>e\<in>set bs. s \<le> fst e"
      using blocks_okD [of "fst x + snd x + 3" u bs] Cons.prems False by (cases x) fastforce
    then show ?thesis using False by (intro exI [of _ "[]"] exI [of _ "x # bs"]) auto
  qed
qed simp

lemma chain_hd: "chain d a bs v \<Longrightarrow> g2 d a = hdp bs v"
  by (cases bs) auto

lemma freeSpace_loop_chain:
  assumes "chain d a (pre @ post) 0" "blocks_ok lo u (pre @ post)" "a \<le> lo" "u \<le> length d"
    and "Suc a < length d" "\<forall>e\<in>set pre. fst e < s" "\<forall>e\<in>set post. s \<le> fst e" "0 < s"
  shows "freeSpace_loop d s a = Some (SQLITE_OK, lastp a pre, hdp post 0)"
  using assms
proof (induction pre arbitrary: a lo)
  case Nil
  have "g2 d a = hdp post 0" using Nil.prems(1) chain_hd [of d a post 0] by simp
  then show ?case
    using Nil.prems by (subst freeSpace_loop.simps) (cases post, auto simp: get2byte_eq)
next
  case (Cons x pre)
  obtain p q where x: "x = (p, q)" by (cases x)
  have p: "g2 d a = p" "a < p" "p < s" "p + q \<le> u" "4 \<le> q" "blocks_ok (p + q + 3) u (pre @ post)"
    using Cons.prems by (auto simp: x)
  have "freeSpace_loop d s p = Some (SQLITE_OK, lastp p pre, hdp post 0)"
    by (rule Cons.IH [of p "p + q + 3"]) (use Cons.prems p in \<open>auto simp: x\<close>)
  then show ?case
    using p Cons.prems(5) by (subst freeSpace_loop.simps) (simp add: get2byte_eq x)
qed

text \<open>
  The state of the coalescing: the freed extent and the blocks \<open>mid\<close> merged so far fill
  \<open>S..<S+N\<close> together with the fragments \<open>G\<close> between them.
\<close>

definition merged :: "MemPage \<Rightarrow> extent set \<Rightarrow> extent list \<Rightarrow> nat \<Rightarrow> extent \<Rightarrow> extent list \<Rightarrow>
    extent list \<Rightarrow> extent list \<Rightarrow> nat \<Rightarrow> nat \<Rightarrow> nat set \<Rightarrow> bool" where
  "merged pg A bs ctop c pre mid post S N G \<longleftrightarrow>
     bs = pre @ mid @ post \<and> {S ..< S + N} = ext c \<union> G \<union> cover (set mid)
     \<and> G \<subseteq> {ctop ..< usableSize pg} - cover A - cover (set bs)
     \<and> ctop \<le> S \<and> 4 \<le> N \<and> S + N \<le> usableSize pg
     \<and> (\<forall>e\<in>set pre. fst e + snd e \<le> S) \<and> (\<forall>e\<in>set post. S + N \<le> fst e)"

lemma merged_start:
  assumes "page_inv pg A (pre @ post) ctop" "c \<in> A"
    and "\<forall>e\<in>set pre. fst e < fst c" "\<forall>e\<in>set post. fst c \<le> fst e"
  shows "merged pg A (pre @ post) ctop c pre [] post (fst c) (snd c) {}"
proof -
  note inv = page_invD [OF assms(1)]
  have c: "4 \<le> snd c" "ctop \<le> fst c" "fst c + snd c \<le> usableSize pg"
    using inv(10) [OF assms(2)] by auto
  have "fst e + snd e \<le> fst c" if "e \<in> set pre" for e
    using inv(12) [OF assms(2), of e] that assms(3) c by (auto simp: apart_def)
  moreover have "fst c + snd c \<le> fst e" if "e \<in> set post" for e
    using inv(12) [OF assms(2), of e] blocks_okD [OF inv(8), of e] that assms(4) c by (auto simp: apart_def)
  ultimately show ?thesis
    using c by (auto simp: merged_def ext_def cover_def)
qed

lemma blocks_ok_apart:
  assumes "blocks_ok lo u bs" "a \<in> set bs" "b \<in> set bs" "a \<noteq> b"
  shows "apart a b"
proof -
  obtain xs ys where bs: "bs = xs @ a # ys" using assms(2) by (meson split_list)
  have ok: "blocks_ok lo u xs" "blocks_ok (endp lo xs) u (a # ys)"
    using assms(1) by (simp_all add: bs blocks_ok_append)
  show ?thesis
  proof (cases "b \<in> set xs")
    case True
    then show ?thesis using blocks_okD [OF ok(1) True] blocks_okD [OF ok(2), of a] by (simp add: apart_def)
  next
    case False
    then have "b \<in> set ys" using assms(3,4) bs by auto
    then show ?thesis using ok(2) blocks_okD [of "fst a + snd a + 3" u ys b] by (cases a) (simp add: apart_def)
  qed
qed

text \<open>The bytes between the extent and a neighbouring block less than 4 bytes away are fragments.\<close>

lemma gap_free:
  assumes "page_inv pg A bs ctop" "c \<in> A" "e \<in> set bs" "l \<le> i" "i < r" "r \<le> l + 3"
    and "fst c + snd c = l \<and> r = fst e \<or> fst e + snd e = l \<and> r = fst c"
  shows "i \<in> {ctop ..< usableSize pg} - cover A - cover (set bs)"
proof -
  note inv = page_invD [OF assms(1)]
  have c: "4 \<le> snd c" "ctop \<le> fst c" "fst c + snd c \<le> usableSize pg"
    using inv(10) [OF assms(2)] by auto
  have e: "ctop < fst e" "4 \<le> snd e" "fst e + snd e \<le> usableSize pg"
    using blocks_okD [OF inv(8) assms(3)] by auto
  have 1: "i \<notin> ext a" if "a \<in> A" for a
  proof (cases "a = c")
    case True
    then show ?thesis using assms(4-7) by (auto simp: ext_def)
  next
    case False
    have "apart a c" "apart a e" "4 \<le> snd a"
      using inv(11) [OF that assms(2) False] inv(12) [OF that assms(3)] inv(10) [OF that] by auto
    then show ?thesis using assms(4-7) c e by (auto simp: apart_def ext_def)
  qed
  have 2: "i \<notin> ext b" if "b \<in> set bs" for b
  proof (cases "b = e")
    case True
    then show ?thesis using assms(4-7) by (auto simp: ext_def)
  next
    case False
    have b: "apart c b" "apart b e" "4 \<le> snd b"
      using inv(12) [OF assms(2) that] blocks_ok_apart [OF inv(8) that assms(3) False]
        blocks_okD [OF inv(8) that] by auto
    then show ?thesis using assms(4-7) c e by (auto simp: apart_def ext_def)
  qed
  show ?thesis
    using 1 2 assms(4-7) c e by (auto simp: cover_def)
qed

lemma join_next_merged:
  assumes inv: "page_inv pg A (pre @ post) ctop" and c: "c \<in> A"
    and m: "merged pg A (pre @ post) ctop c pre [] post (fst c) (snd c) {}"
    and v: "fv_iFreeBlk v = hdp post 0" "fv_nFrag v = 0" "fv_iStart v = fst c" "fv_iSize v = snd c"
      "fv_iEnd v = fst c + snd c"
  obtains mid post' N G where
    "freeSpace_join_next pg v = Some (Inr (v\<lparr>fv_nFrag := card G, fv_iEnd := fst c + N, fv_iSize := N,
       fv_iFreeBlk := hdp post' 0\<rparr>))"
    "merged pg A (pre @ post) ctop c pre mid post' (fst c) N G" "card G \<le> 3"
    "\<forall>e\<in>set post'. fst c + N + 3 < fst e"
proof (cases "hdp post 0 \<noteq> 0 \<and> fst c + snd c + 3 \<ge> hdp post 0")
  case False
  have far: "\<forall>e\<in>set post. fst c + snd c + 3 < fst e"
  proof (cases post)
    case (Cons x post')
    have ok: "blocks_ok (endp ctop pre) (usableSize pg) (x # post')"
      using page_invD(8) [OF inv] Cons by (simp add: blocks_ok_append)
    have "fst c + snd c + 3 < fst x"
      using False Cons blocks_okD [OF ok, of x] by auto
    moreover have "fst x < fst e" if "e \<in> set post'" for e
      using ok blocks_okD [of "fst x + snd x + 3" "usableSize pg" post' e] that by (cases x) auto
    ultimately show ?thesis using Cons by fastforce
  qed simp
  show thesis
    by (rule that [where mid = "[]" and post' = post and N = "snd c" and G = "{}"])
      (use False m far v in \<open>auto simp: freeSpace_join_next_def Let_def\<close>)
next
  case True
  then obtain b n post' where post: "post = (b, n) # post'" by (cases post) auto
  note i = page_invD [OF inv]
  have ok: "4 \<le> n" "b + n \<le> usableSize pg" "blocks_ok (b + n + 3) (usableSize pg) post'" "ctop < b"
    using i(8) blocks_okD [OF i(8), of "(b, n)"] by (auto simp: post blocks_ok_append)
  have ch: "g2 (aData pg) (b + 2) = n" "g2 (aData pg) b = hdp post' 0"
    using i(7) chain_hd [of "aData pg" b post' 0] by (auto simp: post chain_append)
  have le: "fst c + snd c \<le> b" using m by (auto simp: merged_def post)
  have len: "b + 3 < length (aData pg)" using ok i(1) by simp
  have cc: "4 \<le> snd c" "ctop \<le> fst c" "fst c + snd c \<le> usableSize pg"
    using i(10) [OF c] by auto
  have near: "b \<le> fst c + snd c + 3" "b \<noteq> 0" using True post by auto
  have far: "b + n + 3 < fst e" if "e \<in> set post'" for e
    using blocks_okD [OF ok(3) that] by simp
  have far': "\<forall>e\<in>set post'. b + n \<le> fst e" using far by fastforce
  have "0 < ctop" using i(3,4) by simp
  then have mod: "(b + n - fst c) mod 65536 = b + n - fst c"
    using ok(2) i(2) cc(2) by simp
  show thesis
  proof (rule that [where mid = "[(b, n)]" and post' = post' and N = "b + n - fst c" and G = "{fst c + snd c ..< b}"])
    show "freeSpace_join_next pg v = Some (Inr (v\<lparr>fv_nFrag := card {fst c + snd c ..< b},
        fv_iEnd := fst c + (b + n - fst c), fv_iSize := b + n - fst c, fv_iFreeBlk := hdp post' 0\<rparr>))"
      using True le len ok(2) near v cc mod
      by (simp add: freeSpace_join_next_def Let_def get2byte_eq ch [unfolded add_2_eq_Suc'] post)
    have G: "{fst c + snd c ..< b} \<subseteq> {ctop ..< usableSize pg} - cover A - cover (set (pre @ post))"
      by (rule subsetI, rule gap_free [OF inv c, of "(b, n)" "fst c + snd c" _ b])
        (use near in \<open>auto simp: post\<close>)
    have "{fst c ..< fst c + (b + n - fst c)} = ext c \<union> {fst c + snd c ..< b} \<union> cover (set [(b, n)])"
      using le cc by (auto simp: cover_def ext_def)
    then show "merged pg A (pre @ post) ctop c pre [(b, n)] post' (fst c) (b + n - fst c) {fst c + snd c ..< b}"
      using m G ok le cc far' unfolding merged_def by (simp add: post)
    show "card {fst c + snd c ..< b} \<le> 3" using near by simp
    show "\<forall>e\<in>set post'. fst c + (b + n - fst c) + 3 < fst e"
      using far le cc by fastforce
  qed
qed

lemma join_prev_merged:
  assumes inv: "page_inv pg A bs ctop" and c: "c \<in> A"
    and m: "merged pg A bs ctop c pre mid post (fst c) N G" and G: "card G \<le> 3"
    and v: "fv_iPtr v = lastp (hdrOffset pg + 1) pre" "fv_nFrag v = card G" "fv_iStart v = fst c"
      "fv_iSize v = N" "fv_iEnd v = fst c + N"
  obtains pre' mid' S N' G' where
    "freeSpace_join_prev pg v = Some (Inr (v\<lparr>fv_nFrag := card G', fv_iSize := N', fv_iStart := S\<rparr>))"
    "merged pg A bs ctop c pre' mid' post S N' G'" "S + N' = fst c + N" "card G' \<le> 6"
    "\<forall>e\<in>set pre'. fst e + snd e + 3 < S"
    "pre' = pre \<and> S = fst c \<or> (\<exists>q. pre = pre' @ [(S, q)])"
proof (cases "pre = [] \<or> fst (last pre) + snd (last pre) + 3 < fst c")
  case True
  note i = page_invD [OF inv]
  have bs: "bs = pre @ mid @ post" using m by (simp add: merged_def)
  have far: "fst e + snd e + 3 < fst c" if "e \<in> set pre" for e
  proof -
    have "blocks_ok ctop (usableSize pg) pre" using i(8) by (simp add: bs blocks_ok_append)
    from blocks_okD [OF this that] have "fst e + snd e + 3 \<le> endp ctop pre" by simp
    then show ?thesis using True that by (auto simp: endp_def split: if_splits)
  qed
  have "freeSpace_join_prev pg v = Some (Inr v)"
  proof (cases pre rule: rev_cases)
    case Nil
    then show ?thesis using v by (simp add: freeSpace_join_prev_def)
  next
    case (snoc ys y)
    have y: "y \<in> set bs" using snoc bs by simp
    have ok: "chain (aData pg) (hdrOffset pg + 1) (ys @ y # mid @ post) 0"
      using i(7) by (simp add: bs snoc)
    then have sz: "g2 (aData pg) (fst y + 2) = snd y" by (cases y) (simp add: chain_append)
    have "fst y + 3 < length (aData pg)" using blocks_okD [OF i(8) y] i(1) by simp
    then show ?thesis using v far [of y] sz snoc by (simp add: freeSpace_join_prev_def get2byte_eq)
  qed
  moreover have "v\<lparr>fv_nFrag := card G, fv_iSize := N, fv_iStart := fst c\<rparr> = v"
    using v by (cases v) simp
  ultimately show thesis
    using that [where pre' = pre and mid' = mid and S = "fst c" and N' = N and G' = G] m G far by auto
next
  case False
  then obtain pre' p q where pre: "pre = pre' @ [(p, q)]"
    by (cases pre rule: rev_cases) auto
  note i = page_invD [OF inv]
  have bs: "bs = pre' @ [(p, q)] @ mid @ post" using m by (simp add: merged_def pre)
  have ok: "4 \<le> q" "p + q \<le> usableSize pg" "ctop < p"
    using blocks_okD [OF i(8), of "(p, q)"] by (auto simp: bs)
  have sz: "g2 (aData pg) (p + 2) = q"
    using i(7) by (simp add: bs chain_append)
  have near: "fst c \<le> p + q + 3" "p + q \<le> fst c" using False m by (auto simp: pre merged_def)
  have len: "p + 3 < length (aData pg)" using ok i(1) by simp
  have cc: "4 \<le> snd c" "ctop \<le> fst c" "fst c + snd c \<le> usableSize pg"
    using i(10) [OF c] by auto
  have N: "fst c + N \<le> usableSize pg" "4 \<le> N" "{fst c ..< fst c + N} = ext c \<union> G \<union> cover (set mid)"
    "G \<subseteq> {ctop ..< usableSize pg} - cover A - cover (set bs)"
    "\<forall>e\<in>set post. fst c + N \<le> fst e"
    using m by (auto simp: merged_def)
  have finG: "finite G" using N(4) by (rule finite_subset) simp
  have "G \<subseteq> {fst c ..< fst c + N}" unfolding N(3) by blast
  then have disj: "G \<inter> {p + q ..< fst c} = {}" by auto
  have cG: "card (G \<union> {p + q ..< fst c}) = card G + (fst c - (p + q))"
    using disj finG by (simp add: card_Un_disjoint)
  have far: "fst e + snd e + 3 < p" if "e \<in> set pre'" for e
    using i(8) blocks_okD [of ctop "usableSize pg" pre' e] that by (auto simp: bs blocks_ok_append)
  have far': "\<forall>e\<in>set pre'. fst e + snd e \<le> p" using far by fastforce
  have "hdrOffset pg + 1 < p" using ok i(3,4) by simp
  moreover have "(fst c + N - p) mod 65536 = fst c + N - p" using N(1) i(2) ok by simp
  moreover have "(card G + (fst c - (p + q))) mod 256 = card G + (fst c - (p + q))" using G near by simp
  ultimately have run: "freeSpace_join_prev pg v = Some (Inr (v\<lparr>fv_nFrag := card (G \<union> {p + q ..< fst c}),
      fv_iSize := fst c + N - p, fv_iStart := p\<rparr>))"
    using v near len by (simp add: freeSpace_join_prev_def get2byte_eq sz [unfolded add_2_eq_Suc'] pre Let_def cG)
  have gap: "{p + q ..< fst c} \<subseteq> {ctop ..< usableSize pg} - cover A - cover (set bs)"
    by (rule subsetI, rule gap_free [OF inv c, of "(p, q)" "p + q" _ "fst c"])
      (use near in \<open>auto simp: bs\<close>)
  have "{p ..< p + (fst c + N - p)} = {p ..< p + q} \<union> {p + q ..< fst c} \<union> {fst c ..< fst c + N}"
    using near by auto
  then have span: "{p ..< p + (fst c + N - p)}
      = ext c \<union> (G \<union> {p + q ..< fst c}) \<union> cover (set ((p, q) # mid))"
    unfolding N(3) by (auto simp: cover_def ext_def)
  have "merged pg A bs ctop c pre' ((p, q) # mid) post p (fst c + N - p) (G \<union> {p + q ..< fst c})"
    unfolding merged_def using span gap N bs ok near far' by simp
  then show thesis
    using that [OF run, where pre' = pre' and mid' = "(p, q) # mid"] G near far pre by (simp add: cG)
qed

lemma cover_Un: "cover (X \<union> Y) = cover X \<union> cover Y"
  by (auto simp: cover_def)

lemma cover_insert: "cover (insert e X) = ext e \<union> cover X"
  by (auto simp: cover_def)

lemma cover_empty [simp]: "cover {} = {}"
  by (simp add: cover_def)

lemma cover_remove: "c \<in> A \<Longrightarrow> cover A = ext c \<union> cover (A - {c})"
  by (auto simp: cover_def)

lemma apart_disj: "apart a b \<Longrightarrow> ext a \<inter> ext b = {}"
  by (auto simp: apart_def ext_def)

lemma card_ext [simp]: "card (ext e) = snd e"
  by (simp add: ext_def)

lemma chain_move:
  assumes "chain d a xs v" "g2 d' a' = hdp xs v" "\<And>i e. e \<in> set xs \<Longrightarrow> fst e \<le> i \<Longrightarrow> i < fst e + 4 \<Longrightarrow> d' ! i = d ! i"
  shows "chain d' a' xs v"
proof (cases xs)
  case Nil
  then show ?thesis using assms by simp
next
  case (Cons x ys)
  obtain s n where x: "x = (s, n)" by (cases x)
  have "chain d' s ys v"
  proof (rule chain_cong)
    show "chain d s ys v" using assms(1) Cons by (simp add: x)
    fix i assume "(\<exists>e\<in>set ys. fst e \<le> i \<and> i < fst e + 4) \<or> i = s \<or> i = Suc s"
    then have "\<exists>e\<in>set xs. fst e \<le> i \<and> i < fst e + 4" by (auto simp: Cons x)
    then show "d' ! i = d ! i" using assms(3) by blast
  qed
  moreover have "g2 d' (s + 2) = g2 d (s + 2)"
    by (rule g2_cong; rule assms(3) [of x]) (simp_all add: x Cons)
  ultimately show ?thesis using assms Cons by (auto simp: x)
qed

text \<open>The counts after a cell \<open>c\<close> is freed.\<close>

lemma free_count:
  assumes "page_inv pg A bs ctop" "c \<in> A"
  shows "card ({cellFirst pg ..< usableSize pg} - cover (A - {c}))
    = card ({cellFirst pg ..< usableSize pg} - cover A) + snd c"
proof -
  note i = page_invD [OF assms(1)]
  have c: "ext c \<subseteq> {cellFirst pg ..< usableSize pg}"
    using i(4) i(10) [OF assms(2)] by (auto simp: ext_def)
  have "ext c \<inter> cover (A - {c}) = {}"
    using i(11) [OF assms(2)] apart_disj by (fastforce simp: cover_def)
  then have "{cellFirst pg ..< usableSize pg} - cover (A - {c})
      = ({cellFirst pg ..< usableSize pg} - cover A) \<union> ext c"
    using c by (auto simp: cover_remove [OF assms(2)])
  moreover have "({cellFirst pg ..< usableSize pg} - cover A) \<inter> ext c = {}"
    by (auto simp: cover_remove [OF assms(2)])
  ultimately show ?thesis
    by (simp add: card_Un_disjoint ext_def)
qed

lemma frag_count:
  assumes "merged pg A bs ctop c pre mid post S N G" "c \<in> A"
  shows "card ({ctop ..< usableSize pg} - cover (A - {c}) - cover (set (pre @ (S, N) # post)))
    = card ({ctop ..< usableSize pg} - cover A - cover (set bs)) - card G"
    and "card G \<le> card ({ctop ..< usableSize pg} - cover A - cover (set bs))"
proof -
  let ?U = "{ctop ..< usableSize pg} - cover A - cover (set bs)"
  have G: "G \<subseteq> ?U" and bs: "bs = pre @ mid @ post"
    and "{S ..< S + N} = ext c \<union> G \<union> cover (set mid)"
    using assms(1) unfolding merged_def by blast+
  then have "ext (S, N) = ext c \<union> G \<union> cover (set mid)" by (simp add: ext_def [of "(S, N)"])
  then have "{ctop ..< usableSize pg} - cover (A - {c}) - cover (set (pre @ (S, N) # post)) = ?U - G"
    by (auto simp: bs cover_Un cover_insert cover_remove [OF assms(2)])
  moreover have "finite G" using G by (rule finite_subset) simp
  ultimately show "card ({ctop ..< usableSize pg} - cover (A - {c}) - cover (set (pre @ (S, N) # post)))
    = card ?U - card G"
    using G by (simp add: card_Diff_subset)
  show "card G \<le> card ?U"
    using G by (intro card_mono) auto
qed

lemma merged_blocks:
  assumes "page_inv pg A bs ctop" "merged pg A bs ctop c pre mid post S N G"
    and "\<forall>e\<in>set pre. fst e + snd e + 3 < S" "\<forall>e\<in>set post. S + N + 3 < fst e"
  shows "blocks_ok ctop (usableSize pg) pre" "blocks_ok (S + N + 3) (usableSize pg) post"
    and "ctop < S \<Longrightarrow> blocks_ok ctop (usableSize pg) (pre @ (S, N) # post)"
proof -
  note i = page_invD [OF assms(1)]
  have m: "bs = pre @ mid @ post" "4 \<le> N" "S + N \<le> usableSize pg" using assms(2) by (auto simp: merged_def)
  have ok: "blocks_ok (endp ctop (pre @ mid)) (usableSize pg) post"
    using i(8) m(1) blocks_ok_append [of ctop _ "pre @ mid" post] by simp
  show pre: "blocks_ok ctop (usableSize pg) pre" using i(8) by (simp add: m(1) blocks_ok_append)
  show post: "blocks_ok (S + N + 3) (usableSize pg) post"
    using ok assms(4) by (cases post) (auto simp: less_imp_le)
  assume "ctop < S"
  then have "endp ctop pre < S" using assms(3) by (cases pre rule: rev_cases) auto
  then show "blocks_ok ctop (usableSize pg) (pre @ (S, N) # post)"
    using pre post m by (simp add: blocks_ok_append)
qed

lemma free_apart:
  assumes "page_inv pg A bs ctop" "merged pg A bs ctop c pre mid post S N G" "c \<in> A" "a \<in> A - {c}"
  shows "apart a (S, N)" "\<And>b. b \<in> set pre \<union> set post \<Longrightarrow> apart a b"
proof -
  note i = page_invD [OF assms(1)]
  have a: "a \<in> A" "a \<noteq> c" "4 \<le> snd a" using assms(4) i(10) by auto
  have m: "bs = pre @ mid @ post" "{S ..< S + N} = ext c \<union> G \<union> cover (set mid)"
    "G \<subseteq> {ctop ..< usableSize pg} - cover A - cover (set bs)" "4 \<le> N"
    using assms(2) by (auto simp: merged_def)
  show "apart a b" if "b \<in> set pre \<union> set post" for b
    using i(12) [OF a(1), of b] that m(1) by auto
  have "ext a \<inter> ext c = {}" by (rule apart_disj) (rule i(11) [OF a(1) assms(3) a(2)])
  moreover have "ext a \<inter> G = {}" using m(3) a(1) by (auto simp: cover_def)
  moreover have "ext a \<inter> cover (set mid) = {}"
    using apart_disj [OF i(12) [OF a(1)]] m(1) by (fastforce simp: cover_def)
  ultimately have "ext a \<inter> {S ..< S + N} = {}" unfolding m(2) by blast
  then have "fst a \<notin> {S ..< S + N}" "S \<notin> ext a" using a m(4) by (auto simp: ext_def)
  then show "apart a (S, N)" by (auto simp: apart_def ext_def)
qed

lemma page_inv_block:
  fixes d' :: bytes
  assumes inv: "page_inv pg A bs ctop" and c: "c \<in> A"
    and m: "merged pg A bs ctop c pre mid post S N G"
    and far: "\<forall>e\<in>set pre. fst e + snd e + 3 < S" "\<forall>e\<in>set post. S + N + 3 < fst e"
    and S: "ctop < S"
    and d': "length d' = length (aData pg)" "g2 d' (lastp (hdrOffset pg + 1) pre) = S"
      "g2 d' S = hdp post 0" "g2 d' (S + 2) = N"
      "unat (d' ! (hdrOffset pg + 7)) = unat (aData pg ! (hdrOffset pg + 7)) - card G"
    and same: "\<And>i. i \<noteq> hdrOffset pg + 7 \<Longrightarrow> i \<noteq> lastp (hdrOffset pg + 1) pre \<Longrightarrow>
      i \<noteq> Suc (lastp (hdrOffset pg + 1) pre) \<Longrightarrow> i \<notin> {S ..< S + N} \<Longrightarrow> d' ! i = aData pg ! i"
  shows "page_inv (pg\<lparr>aData := d', nFree := nFree pg + int (snd c)\<rparr>) (A - {c}) (pre @ (S, N) # post) ctop"
proof -
  note i = page_invD [OF inv]
  let ?h = "hdrOffset pg" and ?d = "aData pg" and ?u = "usableSize pg"
  have bs: "bs = pre @ mid @ post" using m by (simp add: merged_def)
  note ok = merged_blocks [OF inv m far]
  have N: "4 \<le> N" using m by (simp add: merged_def)
  have lastp: "lastp (?h + 1) pre = ?h + 1 \<or> ctop < lastp (?h + 1) pre \<and> lastp (?h + 1) pre + 4 < S"
  proof (cases pre rule: rev_cases)
    case (snoc ys y)
    then show ?thesis using far(1) blocks_okD [OF ok(1), of y] by auto
  qed simp
  have h: "?h + 8 \<le> ctop" using i(3,4) by simp
  have ch: "chain ?d (?h + 1) pre (hdp (mid @ post) 0)" "chain ?d (lastp (?h + 1) (pre @ mid)) post 0"
    using i(7) chain_append [of ?d "?h + 1" "pre @ mid" post 0] chain_append [of ?d "?h + 1" pre "mid @ post" 0]
    by (simp_all add: bs)
  have "chain d' (?h + 1) pre S"
  proof (rule chain_last [OF ch(1) d'(2) ok(1)])
    fix j assume j: "(\<exists>e\<in>set pre. fst e \<le> j \<and> j < fst e + 4) \<or> j = ?h + 1 \<or> j = Suc (?h + 1)"
      "j \<noteq> lastp (?h + 1) pre" "j \<noteq> Suc (lastp (?h + 1) pre)"
    have "j < S \<and> j \<noteq> ?h + 7"
      using j(1) far(1) S h blocks_okD [OF ok(1)] by fastforce
    then show "d' ! j = ?d ! j" using same [OF _ j(2,3)] by simp
  qed (use h in simp)
  moreover have "chain d' S post 0"
  proof (rule chain_move [OF ch(2) d'(3)])
    fix j e assume e: "e \<in> set post" "fst e \<le> j" "j < fst e + 4"
    have "S + N + 3 < fst e" using far(2) e(1) by blast
    then show "d' ! j = ?d ! j" using same [of j] e(2) lastp S h N by auto
  qed
  ultimately have chain: "chain d' (?h + 1) (pre @ (S, N) # post) 0"
    using d'(2,4) by (simp add: chain_append)
  have top5: "g2 d' (?h + 5) = g2 ?d (?h + 5)"
    by (rule g2_cong; rule same) (use lastp h S in auto)
  have aparts: "\<forall>a\<in>A - {c}. \<forall>b\<in>set (pre @ (S, N) # post). apart a b"
    using free_apart [OF inv m c] by auto
  show ?thesis
    unfolding page_inv_def
    using i(1-6,9-11,13,14) d'(1,5) chain ok(3) [OF S] aparts top5
      frag_count(1) [OF m c] free_count [OF inv c] by simp
qed

lemma page_inv_top:
  fixes d' :: bytes
  assumes inv: "page_inv pg A bs ctop" and c: "c \<in> A"
    and m: "merged pg A bs ctop c [] mid post ctop N G"
    and far: "\<forall>e\<in>set post. ctop + N + 3 < fst e"
    and d': "length d' = length (aData pg)" "g2 d' (hdrOffset pg + 1) = hdp post 0"
      "g2 d' (hdrOffset pg + 5) = (ctop + N) mod 65536"
      "unat (d' ! (hdrOffset pg + 7)) = unat (aData pg ! (hdrOffset pg + 7)) - card G"
    and same: "\<And>i. hdrOffset pg + 8 \<le> i \<Longrightarrow> i \<notin> {ctop ..< ctop + N} \<Longrightarrow> d' ! i = aData pg ! i"
  shows "page_inv (pg\<lparr>aData := d', nFree := nFree pg + int (snd c)\<rparr>) (A - {c}) post (ctop + N)"
proof -
  note i = page_invD [OF inv]
  let ?h = "hdrOffset pg" and ?d = "aData pg" and ?u = "usableSize pg"
  have bs: "bs = mid @ post" and N: "4 \<le> N" "ctop + N \<le> ?u" using m by (simp_all add: merged_def)
  have h: "?h + 8 \<le> ctop" using i(3,4) by simp
  note ok = merged_blocks(2) [OF inv m _ far]
  have "chain ?d (lastp (?h + 1) mid) post 0" using i(7) by (simp add: bs chain_append)
  then have chain: "chain d' (?h + 1) post 0"
    by (rule chain_move [OF _ d'(2)]) (use far h in \<open>force intro: same\<close>)
  have above: "ctop + N \<le> fst a" if "a \<in> A - {c}" for a
  proof -
    have "apart a (ctop, N)" by (rule free_apart(1) [OF inv m c that])
    then show ?thesis using that i(10) [of a] by (auto simp: apart_def)
  qed
  have eq: "{ctop + N ..< ?u} - cover (A - {c}) - cover (set post)
      = {ctop ..< ?u} - cover (A - {c}) - cover (set ([] @ (ctop, N) # post))"
    using N by (auto simp: cover_insert ext_def)
  have aparts: "\<forall>a\<in>A - {c}. \<forall>b\<in>set post. apart a b"
    using free_apart(2) [OF inv m c] by auto
  have frag: "unat (d' ! (?h + 7)) = card ({ctop + N ..< ?u} - cover (A - {c}) - cover (set post))"
    unfolding eq using frag_count(1) [OF m c] i(13) d'(4) by simp
  have "blocks_ok (ctop + N) ?u post"
    by (rule blocks_ok_mono [OF ok]) simp_all
  then show ?thesis
    unfolding page_inv_def
    using i(1-4,9-11,14) N d'(1,3) chain aparts above frag free_count [OF inv c] by simp
qed

text \<open>
  The bytes that may change when the cells \<open>A\<close> stay: five bytes of the page header and what
  no cell of \<open>A\<close> uses of the content area.
\<close>

definition hdr_fields :: "MemPage \<Rightarrow> nat set" where
  "hdr_fields pg = {hdrOffset pg + 1, hdrOffset pg + 2, hdrOffset pg + 5, hdrOffset pg + 6, hdrOffset pg + 7}"

definition frame_ok :: "MemPage \<Rightarrow> nat \<Rightarrow> extent set \<Rightarrow> bytes \<Rightarrow> bool" where
  "frame_ok pg ctop A d' \<longleftrightarrow> length d' = length (aData pg)
     \<and> (\<forall>i. i \<notin> hdr_fields pg \<longrightarrow> i \<notin> {ctop ..< usableSize pg} - cover A \<longrightarrow> d' ! i = aData pg ! i)"

lemma merged_uncovered:
  assumes "page_inv pg A bs ctop" "c \<in> A" "merged pg A bs ctop c pre mid post S N G" "i \<in> {S ..< S + N}"
  shows "i \<in> {ctop ..< usableSize pg} - cover (A - {c})"
proof -
  have "ctop \<le> S" "S + N \<le> usableSize pg" using assms(3) by (auto simp: merged_def)
  moreover have "i \<notin> ext a" if "a \<in> A - {c}" for a
    using free_apart(1) [OF assms(1,3,2) that] assms(4) by (auto simp: apart_def ext_def)
  ultimately show ?thesis using assms(4) by (auto simp: cover_def)
qed

lemma block_uncovered:
  assumes "page_inv pg A bs ctop" "e \<in> set bs" "i \<in> ext e" "A' \<subseteq> A"
  shows "i \<in> {ctop ..< usableSize pg} - cover A'"
proof -
  note v = page_invD [OF assms(1)]
  have "i \<notin> ext a" if "a \<in> A'" for a
    using apart_disj [OF v(12) [of a e]] that assms(2-4) by auto
  moreover have "ctop < fst e" "fst e + snd e \<le> usableSize pg" using blocks_okD [OF v(8) assms(2)] by auto
  ultimately show ?thesis using assms(3) by (auto simp: cover_def ext_def)
qed

text \<open>The data after the optional overwriting of the freed bytes with zeros.\<close>

definition secured :: "MemPage \<Rightarrow> bytes \<Rightarrow> nat \<Rightarrow> nat \<Rightarrow> bytes" where
  "secured pg d S N = (if bt_btsFlags (pBt pg) AND BTS_FAST_SECURE \<noteq> 0
     then take S d @ replicate N 0 @ drop (S + N) d else d)"

lemma length_secured [simp]: "S + N \<le> length d \<Longrightarrow> length (secured pg d S N) = length d"
  by (simp add: secured_def)

lemma nth_secured: "S + N \<le> length d \<Longrightarrow> i \<notin> {S ..< S + N} \<Longrightarrow> i < length d \<Longrightarrow> secured pg d S N ! i = d ! i"
  by (auto simp: secured_def nth_append min_def)

lemma nth_secured': "S + N \<le> length d \<Longrightarrow> i \<notin> {S ..< S + N} \<Longrightarrow> secured pg d S N ! i = d ! i"
proof (cases "i < length d")
  case False
  assume "S + N \<le> length d"
  then show ?thesis using False by (auto simp: secured_def nth_append)
qed (simp add: nth_secured)

lemma enter_run:
  assumes "hdrOffset pg + 8 \<le> length (aData pg)" "fv_iStart v + fv_iSize v \<le> length (aData pg)"
    and "Suc (fv_iPtr v) < length (aData pg)" "4 \<le> fv_iSize v"
    and "g2 (aData pg) (hdrOffset pg + 5) \<le> fv_iStart v"
    and "g2 (aData pg) (hdrOffset pg + 5) = fv_iStart v \<Longrightarrow> fv_iPtr v = hdrOffset pg + 1"
  shows "freeSpace_enter pg v k = Some (SQLITE_OK, pg\<lparr>aData :=
      (let d = secured pg (aData pg) (fv_iStart v) (fv_iSize v)
       in if g2 (aData pg) (hdrOffset pg + 5) = fv_iStart v
          then p2 (p2 d (hdrOffset pg + 1) (fv_iFreeBlk v)) (hdrOffset pg + 5) (fv_iEnd v)
          else p2 (p2 (p2 d (fv_iPtr v) (fv_iStart v)) (fv_iStart v) (fv_iFreeBlk v)) (fv_iStart v + 2) (fv_iSize v)),
      nFree := nFree pg + int k\<rparr>)"
  using assms
  by (auto simp: freeSpace_enter_def secured_def Let_def get2byte_eq put2byte_eq memset_eq)

lemma freeSpace_enter_ok:
  fixes d1 :: bytes
  assumes inv: "page_inv pg A bs ctop" and c: "c \<in> A"
    and m: "merged pg A bs ctop c pre mid post S N G"
    and far: "\<forall>e\<in>set pre. fst e + snd e + 3 < S" "\<forall>e\<in>set post. S + N + 3 < fst e"
    and v: "fv_iFreeBlk v = hdp post 0" "fv_iStart v = S" "fv_iSize v = N" "fv_iEnd v = S + N"
    and ptr: "fv_iPtr v = lastp (hdrOffset pg + 1) pre \<or>
       fv_iPtr v = S \<and> ctop < S \<and> g2 (aData pg) (lastp (hdrOffset pg + 1) pre) = S"
    and d1: "length d1 = length (aData pg)" "\<And>i. i \<noteq> hdrOffset pg + 7 \<Longrightarrow> d1 ! i = aData pg ! i"
      "unat (d1 ! (hdrOffset pg + 7)) = unat (aData pg ! (hdrOffset pg + 7)) - card G"
  obtains d' bs' ctop' where
    "freeSpace_enter (pg\<lparr>aData := d1\<rparr>) v (snd c)
       = Some (SQLITE_OK, pg\<lparr>aData := d', nFree := nFree pg + int (snd c)\<rparr>)"
    "page_inv (pg\<lparr>aData := d', nFree := nFree pg + int (snd c)\<rparr>) (A - {c}) bs' ctop'"
    "frame_ok pg ctop (A - {c}) d'"
proof -
  note i = page_invD [OF inv]
  let ?h = "hdrOffset pg" and ?d = "aData pg" and ?u = "usableSize pg"
  let ?pg = "pg\<lparr>aData := d1\<rparr>"
  have N: "4 \<le> N" "S + N \<le> ?u" "ctop \<le> S" and bs: "bs = pre @ mid @ post"
    using m by (simp_all add: merged_def)
  have len: "S + N \<le> length d1" using N i(1) d1(1) by simp
  have h: "?h + 8 \<le> ctop" using i(3,4) by simp
  have small: "S < 65536" "N < 65536" "ctop < 65536" using N i(2) h by auto
  note ok = merged_blocks(1) [OF inv m far]
  have lastp: "lastp (?h + 1) pre = ?h + 1 \<or>
    ctop < lastp (?h + 1) pre \<and> lastp (?h + 1) pre + 4 < S \<and> (\<exists>e\<in>set bs. fst e = lastp (?h + 1) pre \<and> 4 \<le> snd e)"
  proof (cases pre rule: rev_cases)
    case (snoc ys y)
    then show ?thesis using far(1) blocks_okD [OF ok, of y] by (auto simp: bs)
  qed simp
  have pre_top: "pre = []" if "S = ctop"
  proof (cases pre)
    case (Cons y ys)
    then show ?thesis using far(1) blocks_okD [OF ok, of y] that by auto
  qed
  have top5: "g2 d1 (?h + 5) = ctop"
    using g2_cong [of d1 "?h + 5" ?d] d1(2) i(6) small(3) by simp
  have sec: "i \<notin> {S ..< S + N} \<Longrightarrow> secured ?pg d1 S N ! i = d1 ! i" for i
    by (rule nth_secured' [OF len])
  define d' where "d' = (let d = secured ?pg d1 S N
      in if ctop = S then p2 (p2 d (?h + 1) (hdp post 0)) (?h + 5) (S + N)
         else p2 (p2 (p2 d (fv_iPtr v) S) S (hdp post 0)) (S + 2) N)"
  have run: "freeSpace_enter ?pg v (snd c) = Some (SQLITE_OK, pg\<lparr>aData := d', nFree := nFree pg + int (snd c)\<rparr>)"
  proof -
    have "Suc (fv_iPtr v) < length d1" using ptr lastp N len h by auto
    moreover have "ctop = S \<Longrightarrow> fv_iPtr v = ?h + 1" using ptr pre_top by auto
    ultimately show ?thesis
      using enter_run [of ?pg v "snd c"] N len h top5 v by (simp add: d'_def Let_def)
  qed
  have len': "length d' = length ?d" using len d1(1) by (simp add: d'_def Let_def)
  show thesis
  proof (cases "ctop = S")
    case True
    have d': "d' = p2 (p2 (secured ?pg d1 S N) (?h + 1) (hdp post 0)) (?h + 5) (S + N)"
      using True by (simp add: d'_def Let_def)
    have nth: "d' ! j = d1 ! j" if "j \<notin> {?h + 1, ?h + 2, ?h + 5, ?h + 6}" "j \<notin> {S ..< S + N}" for j
      using that sec [of j] by (simp add: d' nth_p2)
    have hp: "hdp post 0 < 65536" using far(2) merged_blocks(2) [OF inv m far] i(2) by (cases post) auto
    have "g2 d' (?h + 5) = (ctop + N) mod 65536"
      unfolding d' using len h N d1(1) True by (subst g2_p2_same) auto
    moreover have "g2 d' (?h + 1) = hdp post 0"
    proof -
      have "g2 d' (?h + 1) = g2 (p2 (secured ?pg d1 S N) (?h + 1) (hdp post 0)) (?h + 1)"
        unfolding d' by (rule g2_cong) (simp_all add: nth_p2)
      then show ?thesis using len h N d1(1) True hp by (simp add: g2_p2_same)
    qed
    moreover have "unat (d' ! (?h + 7)) = unat (?d ! (?h + 7)) - card G"
      using nth [of "?h + 7"] h True d1(3) by simp
    moreover have "d' ! j = ?d ! j" if "?h + 8 \<le> j" "j \<notin> {ctop ..< ctop + N}" for j
      using nth [of j] that d1(2) [of j] True by auto
    ultimately have "page_inv (pg\<lparr>aData := d', nFree := nFree pg + int (snd c)\<rparr>) (A - {c}) post (ctop + N)"
      using page_inv_top [OF inv c, of mid post N G d'] m far(2) pre_top len' True by simp
    moreover have "frame_ok pg ctop (A - {c}) d'"
      unfolding frame_ok_def
    proof (intro conjI allI impI)
      fix j assume j: "j \<notin> hdr_fields pg" "j \<notin> {ctop ..< ?u} - cover (A - {c})"
      then have "j \<notin> {S ..< S + N}" using merged_uncovered [OF inv c m, of j] by blast
      then show "d' ! j = ?d ! j" using nth [of j] j(1) d1(2) [of j] by (auto simp: hdr_fields_def)
    qed (rule len')
    ultimately show thesis using that run by blast
  next
    case False
    then have S: "ctop < S" using N by simp
    let ?p = "fv_iPtr v"
    have d': "d' = p2 (p2 (p2 (secured ?pg d1 S N) ?p S) S (hdp post 0)) (S + 2) N"
      using False by (simp add: d'_def Let_def)
    have p: "?p = lastp (?h + 1) pre \<and> Suc ?p < S \<or> ?p = S"
      using ptr lastp S h by auto
    have nth: "d' ! j = d1 ! j" if "j \<noteq> lastp (?h + 1) pre" "j \<noteq> Suc (lastp (?h + 1) pre)" "j \<notin> {S ..< S + N}" for j
      using that sec [of j] p N by (auto simp: d' nth_p2)
    have hp: "hdp post 0 < 65536" using far(2) merged_blocks(2) [OF inv m far] i(2) by (cases post) auto
    have gN: "g2 d' (S + 2) = N"
      unfolding d' using len N small by (subst g2_p2_same) auto
    have gS: "g2 d' S = hdp post 0"
    proof -
      have "g2 d' S = g2 (p2 (p2 (secured ?pg d1 S N) ?p S) S (hdp post 0)) S"
        unfolding d' by (rule g2_cong) (simp_all add: nth_p2)
      then show ?thesis using len N hp by (simp add: g2_p2_same)
    qed
    have gP: "g2 d' (lastp (?h + 1) pre) = S"
      using p
    proof
      assume q: "?p = lastp (?h + 1) pre \<and> Suc ?p < S"
      have "g2 d' ?p = g2 (p2 (secured ?pg d1 S N) ?p S) ?p"
        unfolding d' using q by (intro g2_cong) (simp_all add: nth_p2)
      then show ?thesis using q len N small by (simp add: g2_p2_same)
    next
      assume q: "?p = S"
      have far_p: "lastp (?h + 1) pre + 1 < S" using lastp S h by auto
      have "g2 (aData pg) (lastp (?h + 1) pre) = S" using ptr q far_p by auto
      moreover have "g2 d' (lastp (?h + 1) pre) = g2 ?d (lastp (?h + 1) pre)"
        using q far_p sec d1(2) lastp h S by (intro g2_cong) (auto simp: d' nth_p2)
      ultimately show ?thesis by simp
    qed
    have "unat (d' ! (?h + 7)) = unat (?d ! (?h + 7)) - card G"
      using nth [of "?h + 7"] h S lastp d1(3) by auto
    moreover have same: "d' ! j = ?d ! j" if "j \<noteq> ?h + 7" "j \<noteq> lastp (?h + 1) pre"
      "j \<noteq> Suc (lastp (?h + 1) pre)" "j \<notin> {S ..< S + N}" for j
      using nth [of j] that d1(2) [of j] by simp
    ultimately have "page_inv (pg\<lparr>aData := d', nFree := nFree pg + int (snd c)\<rparr>) (A - {c}) (pre @ (S, N) # post) ctop"
      using page_inv_block [OF inv c m far S len' gP gS gN] by blast
    moreover have "frame_ok pg ctop (A - {c}) d'"
      unfolding frame_ok_def
    proof (intro conjI allI impI)
      fix j assume j: "j \<notin> hdr_fields pg" "j \<notin> {ctop ..< ?u} - cover (A - {c})"
      have "j \<notin> {S ..< S + N}" using merged_uncovered [OF inv c m, of j] j(2) by blast
      moreover have "j \<noteq> lastp (?h + 1) pre \<and> j \<noteq> Suc (lastp (?h + 1) pre)"
        using lastp j(1) block_uncovered [OF inv, of _ j "A - {c}"] j(2)
        by (fastforce simp: hdr_fields_def ext_def)
      ultimately show "d' ! j = ?d ! j" using same [of j] j(1) by (auto simp: hdr_fields_def)
    qed (rule len')
    ultimately show thesis using that run by blast
  qed
qed

lemma freeSpace_nonempty:
  assumes inv: "page_inv pg A bs ctop" and c: "c \<in> A" and ne: "bs \<noteq> []"
  obtains d1 v pre mid post S N G where
    "freeSpace pg (fst c) (snd c) = freeSpace_enter (pg\<lparr>aData := d1\<rparr>) v (snd c)"
    "merged pg A bs ctop c pre mid post S N G"
    "\<forall>e\<in>set pre. fst e + snd e + 3 < S" "\<forall>e\<in>set post. S + N + 3 < fst e"
    "fv_iFreeBlk v = hdp post 0" "fv_iStart v = S" "fv_iSize v = N" "fv_iEnd v = S + N"
    "fv_iPtr v = lastp (hdrOffset pg + 1) pre \<or>
       fv_iPtr v = S \<and> ctop < S \<and> g2 (aData pg) (lastp (hdrOffset pg + 1) pre) = S"
    "length d1 = length (aData pg)" "\<And>i. i \<noteq> hdrOffset pg + 7 \<Longrightarrow> d1 ! i = aData pg ! i"
    "unat (d1 ! (hdrOffset pg + 7)) = unat (aData pg ! (hdrOffset pg + 7)) - card G"
proof -
  note i = page_invD [OF inv]
  let ?h = "hdrOffset pg" and ?d = "aData pg" and ?u = "usableSize pg"
  have h: "?h + 8 \<le> ctop" using i(3,4) by simp
  have cc: "4 \<le> snd c" "ctop \<le> fst c" "fst c + snd c \<le> ?u" using i(10) [OF c] by auto
  obtain pre post where bs: "bs = pre @ post" and
    sp: "\<forall>e\<in>set pre. fst e < fst c" "\<forall>e\<in>set post. fst c \<le> fst e"
    using split_blocks [OF i(8)] by blast
  note inv' = inv [unfolded bs]
  define v0 where "v0 = \<lparr>fv_iPtr = lastp (?h + 1) pre, fv_iFreeBlk = hdp post 0, fv_nFrag = 0,
    fv_iStart = fst c, fv_iSize = snd c, fv_iEnd = fst c + snd c\<rparr>"
  have loop: "freeSpace_loop ?d (fst c) (?h + 1) = Some (SQLITE_OK, lastp (?h + 1) pre, hdp post 0)"
    by (rule freeSpace_loop_chain [of _ _ _ _ ctop ?u]) (use i h cc sp bs in auto)
  have hp: "hdp post 0 \<le> ?u - 4"
    using i(8) blocks_okD [OF i(8), of "hd post"] by (cases post) (auto simp: bs)
  have find: "freeSpace_find pg (fst c) (snd c) = Some (Inr v0)"
    using loop hp by (simp add: freeSpace_find_def v0_def)
  obtain mid post' N G where
    jn: "freeSpace_join_next pg v0 = Some (Inr (v0\<lparr>fv_nFrag := card G, fv_iEnd := fst c + N,
        fv_iSize := N, fv_iFreeBlk := hdp post' 0\<rparr>))" and
    m1: "merged pg A (pre @ post) ctop c pre mid post' (fst c) N G" "card G \<le> 3" and
    far2: "\<forall>e\<in>set post'. fst c + N + 3 < fst e"
    by (rule join_next_merged [OF inv' c merged_start [OF inv' c sp], of v0]) (auto simp: v0_def)
  define v1 where "v1 = v0\<lparr>fv_nFrag := card G, fv_iEnd := fst c + N, fv_iSize := N, fv_iFreeBlk := hdp post' 0\<rparr>"
  obtain pre' mid' S N' G' where
    jp: "freeSpace_join_prev pg v1 = Some (Inr (v1\<lparr>fv_nFrag := card G', fv_iSize := N', fv_iStart := S\<rparr>))" and
    m2: "merged pg A (pre @ post) ctop c pre' mid' post' S N' G'" "S + N' = fst c + N" "card G' \<le> 6" and
    far1: "\<forall>e\<in>set pre'. fst e + snd e + 3 < S" and
    pre: "pre' = pre \<and> S = fst c \<or> (\<exists>q. pre = pre' @ [(S, q)])"
    by (rule join_prev_merged [OF inv' c m1, of v1]) (auto simp: v1_def v0_def)
  define v where "v = v1\<lparr>fv_nFrag := card G', fv_iSize := N', fv_iStart := S\<rparr>"
  let ?d1 = "?d[?h + 7 := ?d ! (?h + 7) - cast8 (card G')]"
  have len: "?h + 7 < length ?d" using h i(1,5) by simp
  have G': "card G' \<le> unat (?d ! (?h + 7))"
    using frag_count(2) [OF m2(1) c] i(13) bs by simp
  have sub: "unat (?d ! (?h + 7) - cast8 (card G')) = unat (?d ! (?h + 7)) - card G'"
    using G' m2(3) by (simp add: unat_sub word_le_nat_alt)
  have "g2 ?d (?h + 1) \<noteq> 0"
    using chain_hd [OF i(7)] ne blocks_okD [OF i(8), of "hd bs"] by (cases bs) auto
  then have ne0: "\<not> (?d ! Suc (Suc ?h) = 0 \<and> ?d ! Suc ?h = 0)" by (auto simp: g2_eq_0)
  have run: "freeSpace pg (fst c) (snd c) = freeSpace_enter (pg\<lparr>aData := ?d1\<rparr>) v (snd c)"
  proof -
    have "fv_nFrag v = card G'" by (simp add: v_def)
    then show ?thesis
      using len ne0 G' unfolding freeSpace_def Let_def
      by (auto simp: rd8_Some find jn [folded v1_def] jp [folded v_def] wr8_Some)
  qed
  have ptr: "fv_iPtr v = lastp (?h + 1) pre' \<or> fv_iPtr v = S \<and> ctop < S \<and> g2 ?d (lastp (?h + 1) pre') = S"
    using pre
  proof
    assume "\<exists>q. pre = pre' @ [(S, q)]"
    then obtain q where q: "pre = pre' @ [(S, q)]" by blast
    then have "ctop < S" using blocks_okD [OF i(8), of "(S, q)"] by (simp add: bs)
    moreover have "g2 ?d (lastp (?h + 1) pre') = S" using i(7) by (simp add: bs q chain_append)
    ultimately show ?thesis using q by (simp add: v_def v1_def v0_def)
  qed (simp add: v_def v1_def v0_def)
  show thesis
    by (rule that [OF run m2(1) [folded bs] far1])
      (use far2 m2(2) ptr len sub in \<open>auto simp: v_def v1_def\<close>)
qed

lemma freeSpace_ok:
  assumes inv: "page_inv pg A bs ctop" and c: "c \<in> A"
  obtains d' bs' ctop' where
    "freeSpace pg (fst c) (snd c) = Some (SQLITE_OK, pg\<lparr>aData := d', nFree := nFree pg + int (snd c)\<rparr>)"
    "page_inv (pg\<lparr>aData := d', nFree := nFree pg + int (snd c)\<rparr>) (A - {c}) bs' ctop'"
    "frame_ok pg ctop (A - {c}) d'"
proof (cases "bs = []")
  case True
  note i = page_invD [OF inv]
  let ?h = "hdrOffset pg" and ?d = "aData pg"
  let ?v = "\<lparr>fv_iPtr = ?h + 1, fv_iFreeBlk = 0, fv_nFrag = 0, fv_iStart = fst c,
             fv_iSize = snd c, fv_iEnd = fst c + snd c\<rparr>"
  have m: "merged pg A [] ctop c [] [] [] (fst c) (snd c) {}"
    using merged_start [of pg A "[]" "[]"] inv True c by simp
  have "g2 ?d (?h + 1) = 0" using i(7) True by simp
  then have "freeSpace pg (fst c) (snd c) = freeSpace_enter pg ?v (snd c)"
    using i(1,3-5) by (simp add: freeSpace_def g2_eq_0 rd8_Some Let_def)
  moreover have "pg\<lparr>aData := aData pg\<rparr> = pg" by simp
  ultimately show thesis
    using freeSpace_enter_ok [OF inv [unfolded True] c m, of ?v "aData pg"] that by auto
next
  case False
  then show thesis
  proof (rule freeSpace_nonempty [OF inv c])
    fix d1 v pre mid post S N G
    assume run: "freeSpace pg (fst c) (snd c) = freeSpace_enter (pg\<lparr>aData := d1\<rparr>) v (snd c)"
      and a: "merged pg A bs ctop c pre mid post S N G"
        "\<forall>e\<in>set pre. fst e + snd e + 3 < S" "\<forall>e\<in>set post. S + N + 3 < fst e"
        "fv_iFreeBlk v = hdp post 0" "fv_iStart v = S" "fv_iSize v = N" "fv_iEnd v = S + N"
        "fv_iPtr v = lastp (hdrOffset pg + 1) pre \<or>
           fv_iPtr v = S \<and> ctop < S \<and> g2 (aData pg) (lastp (hdrOffset pg + 1) pre) = S"
        "length d1 = length (aData pg)" "\<And>i. i \<noteq> hdrOffset pg + 7 \<Longrightarrow> d1 ! i = aData pg ! i"
        "unat (d1 ! (hdrOffset pg + 7)) = unat (aData pg ! (hdrOffset pg + 7)) - card G"
    show thesis
      by (rule freeSpace_enter_ok [OF inv c a]) (use run that in auto)
  qed
qed

end
