(* ===== verification/AllocM.thy ===== *)
theory AllocM
  imports FreeM
begin

text \<open>
  Slots for new cells: \<^verbatim>\<open>pageFindSlot\<close> takes them from the free blocks,
  \<^verbatim>\<open>allocateSpace\<close> from the gap below the content area; both keep the invariant of
  the page.
\<close>

section \<open>Allocating space\<close>

lemma alloc_count:
  assumes "page_inv pg A bs ctop" "\<And>a. a \<in> A \<Longrightarrow> apart a e" "ctop \<le> fst e + k" "cellFirst pg \<le> fst e" "fst e + snd e \<le> usableSize pg"
  shows "int (card ({cellFirst pg ..< usableSize pg} - cover (insert e A)))
    = int (card ({cellFirst pg ..< usableSize pg} - cover A)) - int (snd e)"
proof -
  have "ext e \<inter> cover A = {}"
    using apart_disj [OF assms(2)] by (fastforce simp: cover_def)
  then have "ext e \<subseteq> {cellFirst pg ..< usableSize pg} - cover A"
    using assms(4,5) by (auto simp: ext_def)
  moreover have "{cellFirst pg ..< usableSize pg} - cover (insert e A)
      = ({cellFirst pg ..< usableSize pg} - cover A) - ext e"
    by (auto simp: cover_insert)
  moreover have "finite (ext e)" by (simp add: ext_def)
  ultimately have "card ({cellFirst pg ..< usableSize pg} - cover (insert e A))
      = card ({cellFirst pg ..< usableSize pg} - cover A) - snd e"
    "snd e \<le> card ({cellFirst pg ..< usableSize pg} - cover A)"
    using card_mono [of "{cellFirst pg ..< usableSize pg} - cover A" "ext e"]
    by (simp_all add: card_Diff_subset)
  then show ?thesis by simp
qed

text \<open>A slot that is a whole free block, up to three bytes larger than needed.\<close>

lemma slot_whole:
  fixes d' :: bytes
  assumes inv: "page_inv pg A (pre @ (s, n) # post) ctop" and nB: "4 \<le> nB" "nB \<le> n" "n < nB + 4"
    and d': "length d' = length (aData pg)" "g2 d' (lastp (hdrOffset pg + 1) pre) = hdp post 0"
      "unat (d' ! (hdrOffset pg + 7)) = unat (aData pg ! (hdrOffset pg + 7)) + (n - nB)"
    and same: "\<And>i. i \<noteq> hdrOffset pg + 7 \<Longrightarrow> i \<noteq> lastp (hdrOffset pg + 1) pre \<Longrightarrow>
      i \<noteq> Suc (lastp (hdrOffset pg + 1) pre) \<Longrightarrow> d' ! i = aData pg ! i"
  shows "page_inv (pg\<lparr>aData := d', nFree := nFree pg - int nB\<rparr>) (insert (s, nB) A) (pre @ post) ctop"
proof -
  note i = page_invD [OF inv]
  let ?h = "hdrOffset pg" and ?d = "aData pg" and ?u = "usableSize pg"
  have ok: "blocks_ok ctop ?u pre" "endp ctop pre < s" "s + n \<le> ?u" "blocks_ok (s + n + 3) ?u post" "ctop < s"
    using i(8) blocks_okD [OF i(8), of "(s, n)"] by (auto simp: blocks_ok_append)
  have okk: "blocks_ok ctop ?u (pre @ post)"
    using ok blocks_ok_mono [OF ok(4), of "endp ctop pre"] by (simp add: blocks_ok_append)
  have h: "?h + 8 \<le> ctop" using i(3,4) by simp
  have lastp: "lastp (?h + 1) pre = ?h + 1 \<or> ctop < lastp (?h + 1) pre \<and> lastp (?h + 1) pre + 4 < s"
  proof (cases pre rule: rev_cases)
    case (snoc ys y)
    then show ?thesis using ok(2) blocks_okD [OF ok(1), of y] by auto
  qed simp
  have ch: "chain ?d (?h + 1) pre s" "chain ?d s post 0"
    using i(7) by (simp_all add: chain_append)
  have "chain d' (?h + 1) pre (hdp post 0)"
  proof (rule chain_last [OF ch(1) d'(2) ok(1)])
    fix j assume j: "(\<exists>e\<in>set pre. fst e \<le> j \<and> j < fst e + 4) \<or> j = ?h + 1 \<or> j = Suc (?h + 1)"
      "j \<noteq> lastp (?h + 1) pre" "j \<noteq> Suc (lastp (?h + 1) pre)"
    have "j \<noteq> ?h + 7" using j(1) h blocks_okD [OF ok(1)] by fastforce
    then show "d' ! j = ?d ! j" using same [OF _ j(2,3)] by simp
  qed (use h in simp)
  moreover have "chain d' (lastp (?h + 1) pre) post 0"
  proof (rule chain_move [OF ch(2) d'(2)])
    fix j e assume e: "e \<in> set post" "fst e \<le> j" "j < fst e + 4"
    have "s + n + 3 < fst e" using blocks_okD [OF ok(4) e(1)] by simp
    then show "d' ! j = ?d ! j" using same [of j] e(2) lastp h ok(5) by auto
  qed
  ultimately have chain: "chain d' (?h + 1) (pre @ post) 0" by (simp add: chain_append)
  have top5: "g2 d' (?h + 5) = g2 ?d (?h + 5)"
    by (rule g2_cong; rule same) (use lastp h in auto)
  have fresh: "apart a (s, nB)" if "a \<in> A" for a
    using i(12) [OF that, of "(s, n)"] nB by (auto simp: apart_def)
  have fresh': "apart (s, nB) b" if "b \<in> set (pre @ post)" for b
  proof -
    have "b \<in> set pre \<Longrightarrow> fst b + snd b \<le> s" using blocks_okD [OF ok(1), of b] ok(2) by auto
    moreover have "b \<in> set post \<Longrightarrow> s + n \<le> fst b" using blocks_okD [OF ok(4), of b] by auto
    ultimately show ?thesis using that nB by (auto simp: apart_def)
  qed
  have U: "{ctop ..< ?u} - cover (insert (s, nB) A) - cover (set (pre @ post))
      = ({ctop ..< ?u} - cover A - cover (set (pre @ (s, n) # post))) \<union> {s + nB ..< s + n}"
  proof -
    have "{s + nB ..< s + n} \<subseteq> {ctop ..< ?u}" using ok by auto
    moreover have "{s + nB ..< s + n} \<inter> cover A = {}"
      using i(12) [of _ "(s, n)"] by (fastforce simp: apart_def cover_def ext_def)
    moreover have "{s + nB ..< s + n} \<inter> cover (set pre) = {}"
      using blocks_okD [OF ok(1)] ok(2) by (fastforce simp: cover_def ext_def)
    moreover have "{s + nB ..< s + n} \<inter> cover (set post) = {}"
      using blocks_okD [OF ok(4)] by (fastforce simp: cover_def ext_def)
    moreover have "ext (s, n) = ext (s, nB) \<union> {s + nB ..< s + n}" "ext (s, nB) \<inter> {s + nB ..< s + n} = {}"
      using nB by (auto simp: ext_def)
    moreover have "cover (insert (s, nB) A) = ext (s, nB) \<union> cover A"
      "cover (set (pre @ post)) = cover (set pre) \<union> cover (set post)"
      "cover (set (pre @ (s, n) # post)) = ext (s, n) \<union> (cover (set pre) \<union> cover (set post))"
      by (simp_all add: cover_insert cover_Un)
    ultimately show ?thesis by blast
  qed
  have "({ctop ..< ?u} - cover A - cover (set (pre @ (s, n) # post))) \<inter> {s + nB ..< s + n} = {}"
    by (auto simp: cover_def ext_def)
  then have frag: "card ({ctop ..< ?u} - cover (insert (s, nB) A) - cover (set (pre @ post)))
      = card ({ctop ..< ?u} - cover A - cover (set (pre @ (s, n) # post))) + (n - nB)"
    unfolding U by (subst card_Un_disjoint) auto
  have free: "int (card ({cellFirst pg ..< ?u} - cover (insert (s, nB) A)))
      = int (card ({cellFirst pg ..< ?u} - cover A)) - int nB"
    using alloc_count [OF inv, of "(s, nB)" 0] fresh i(4) ok nB by simp
  have pairs: "\<forall>a\<in>insert (s, nB) A. \<forall>b\<in>insert (s, nB) A. a \<noteq> b \<longrightarrow> apart a b"
    using fresh i(11) by (auto simp: apart_def)
  have "\<forall>a\<in>insert (s, nB) A. \<forall>b\<in>set (pre @ post). apart a b"
    using fresh' i(12) by auto
  then show ?thesis
    unfolding page_inv_def
    using i(1-6,9,10,13,14) d'(1,3) chain okk pairs top5 frag free ok(3,5) nB by auto
qed


text \<open>A slot cut from the end of a free block.\<close>

lemma slot_part:
  fixes d' :: bytes
  assumes inv: "page_inv pg A (pre @ (s, n) # post) ctop" and nB: "4 \<le> nB" "n = x + nB" "4 \<le> x"
    and d': "d' = p2 (aData pg) (s + 2) x"
  shows "page_inv (pg\<lparr>aData := d', nFree := nFree pg - int nB\<rparr>) (insert (s + x, nB) A) (pre @ (s, x) # post) ctop"
proof -
  note i = page_invD [OF inv]
  let ?h = "hdrOffset pg" and ?d = "aData pg" and ?u = "usableSize pg"
  have ok: "blocks_ok ctop ?u pre" "endp ctop pre < s" "s + n \<le> ?u" "blocks_ok (s + n + 3) ?u post" "ctop < s"
    using i(8) blocks_okD [OF i(8), of "(s, n)"] by (auto simp: blocks_ok_append)
  have okk: "blocks_ok ctop ?u (pre @ (s, x) # post)"
    using ok nB blocks_ok_mono [OF ok(4), of "s + x + 3"] by (simp add: blocks_ok_append)
  have h: "?h + 8 \<le> ctop" using i(3,4) by simp
  have x: "x < 65536" using ok nB i(2) h by simp
  have len: "s + 3 < length ?d" using ok nB i(1) by simp
  have same: "j \<noteq> s + 2 \<Longrightarrow> j \<noteq> s + 3 \<Longrightarrow> d' ! j = ?d ! j" for j by (simp add: d' nth_p2)
  have ch: "chain ?d (?h + 1) pre s" "chain ?d s post 0"
    using i(7) by (simp_all add: chain_append)
  have lastp: "lastp (?h + 1) pre + 1 < s"
  proof (cases pre rule: rev_cases)
    case (snoc ys y)
    then show ?thesis using ok(2) blocks_okD [OF ok(1), of y] by auto
  qed (use ok(5) h in simp)
  have "chain d' (?h + 1) pre s"
  proof (rule chain_cong [OF ch(1)])
    fix j assume j: "(\<exists>e\<in>set pre. fst e \<le> j \<and> j < fst e + 4) \<or> j = ?h + 1 \<or> j = Suc (?h + 1)"
    have "j < s" using j h ok(2,5) blocks_okD [OF ok(1)] by fastforce
    then show "d' ! j = ?d ! j" by (simp add: same)
  qed
  moreover have "chain d' s post 0"
  proof (rule chain_cong [OF ch(2)])
    fix j assume j: "(\<exists>e\<in>set post. fst e \<le> j \<and> j < fst e + 4) \<or> j = s \<or> j = Suc s"
    have "j = s \<or> j = Suc s \<or> s + n < j" using j blocks_okD [OF ok(4)] by fastforce
    then show "d' ! j = ?d ! j" using nB by (intro same) auto
  qed
  moreover have "g2 d' (lastp (?h + 1) pre) = s"
  proof -
    have "g2 d' (lastp (?h + 1) pre) = g2 ?d (lastp (?h + 1) pre)"
      by (rule g2_cong; rule same) (use lastp in auto)
    then show ?thesis using i(7) by (simp add: chain_append)
  qed
  moreover have "g2 d' (s + 2) = x" using len x by (simp add: d' g2_p2_same)
  ultimately have chain: "chain d' (?h + 1) (pre @ (s, x) # post) 0" by (simp add: chain_append)
  have top5: "g2 d' (?h + 5) = g2 ?d (?h + 5)"
    by (rule g2_cong; rule same) (use h ok(5) in auto)
  have frag7: "d' ! (?h + 7) = ?d ! (?h + 7)" by (rule same) (use h ok(5) in auto)
  have fresh: "apart a (s + x, nB)" "apart a (s, x)" if "a \<in> A" for a
    using i(12) [OF that, of "(s, n)"] nB by (auto simp: apart_def)
  have fresh': "apart (s + x, nB) b" if "b \<in> set (pre @ (s, x) # post)" for b
  proof -
    have "b \<in> set pre \<Longrightarrow> fst b + snd b \<le> s" using blocks_okD [OF ok(1), of b] ok(2) by auto
    moreover have "b \<in> set post \<Longrightarrow> s + n \<le> fst b" using blocks_okD [OF ok(4), of b] by auto
    ultimately show ?thesis using that nB by (auto simp: apart_def)
  qed
  have "ext (s, n) = ext (s, x) \<union> ext (s + x, nB)" using nB by (auto simp: ext_def)
  then have U: "{ctop ..< ?u} - cover (insert (s + x, nB) A) - cover (set (pre @ (s, x) # post))
      = {ctop ..< ?u} - cover A - cover (set (pre @ (s, n) # post))"
    by (auto simp: cover_insert cover_Un)
  have free: "int (card ({cellFirst pg ..< ?u} - cover (insert (s + x, nB) A)))
      = int (card ({cellFirst pg ..< ?u} - cover A)) - int nB"
    using alloc_count [OF inv, of "(s + x, nB)" 0] fresh i(4) ok nB by simp
  have pairs: "\<forall>a\<in>insert (s + x, nB) A. \<forall>b\<in>insert (s + x, nB) A. a \<noteq> b \<longrightarrow> apart a b"
    using fresh i(11) by (auto simp: apart_def)
  have "\<forall>a\<in>insert (s + x, nB) A. \<forall>b\<in>set (pre @ (s, x) # post). apart a b"
    using fresh fresh' i(12) by auto
  moreover have "length d' = length ?d" by (simp add: d')
  ultimately show ?thesis
    unfolding page_inv_def
    using i(1-6,9,10,13,14) chain okk pairs top5 frag7 U free ok(3,5) nB by auto
qed

text \<open>Space taken from the gap below the content area.\<close>

lemma gap_alloc:
  assumes inv: "page_inv pg A bs ctop" and nB: "4 \<le> nB" "cellFirst pg + nB \<le> ctop"
    and d': "d' = p2 (aData pg) (hdrOffset pg + 5) (ctop - nB)"
  shows "page_inv (pg\<lparr>aData := d', nFree := nFree pg - int nB\<rparr>) (insert (ctop - nB, nB) A) bs (ctop - nB)"
proof -
  note i = page_invD [OF inv]
  let ?h = "hdrOffset pg" and ?d = "aData pg" and ?u = "usableSize pg"
  have h: "?h + 8 \<le> ctop - nB" using i(3) nB by simp
  have len: "?h + 6 < length ?d" using h i(1,5) by simp
  have same: "j \<noteq> ?h + 5 \<Longrightarrow> j \<noteq> ?h + 6 \<Longrightarrow> d' ! j = ?d ! j" for j by (simp add: d' nth_p2)
  have chain: "chain d' (?h + 1) bs 0"
  proof (rule chain_cong [OF i(7)])
    fix j assume j: "(\<exists>e\<in>set bs. fst e \<le> j \<and> j < fst e + 4) \<or> j = ?h + 1 \<or> j = Suc (?h + 1)"
    have "j \<noteq> ?h + 5 \<and> j \<noteq> ?h + 6" using j h blocks_okD [OF i(8)] by fastforce
    then show "d' ! j = ?d ! j" using same by blast
  qed
  have okk: "blocks_ok (ctop - nB) ?u bs" by (rule blocks_ok_mono [OF i(8)]) simp
  have top5: "g2 d' (?h + 5) = ctop - nB"
    using len i(2,5) nB h unfolding d' by (subst g2_p2_same) auto
  have frag7: "d' ! (?h + 7) = ?d ! (?h + 7)" by (rule same) auto
  have fresh: "apart a (ctop - nB, nB)" if "a \<in> A" for a
    using i(10) [OF that] nB by (auto simp: apart_def)
  have fresh': "apart (ctop - nB, nB) b" if "b \<in> set bs" for b
    using blocks_okD [OF i(8) that] nB by (auto simp: apart_def)
  have "{ctop - nB ..< ?u} = {ctop ..< ?u} \<union> ext (ctop - nB, nB)" "{ctop ..< ?u} \<inter> ext (ctop - nB, nB) = {}"
    using nB i(5) by (auto simp: ext_def)
  then have U: "{ctop - nB ..< ?u} - cover (insert (ctop - nB, nB) A) - cover (set bs)
      = {ctop ..< ?u} - cover A - cover (set bs)"
    by (auto simp: cover_insert)
  have free: "int (card ({cellFirst pg ..< ?u} - cover (insert (ctop - nB, nB) A)))
      = int (card ({cellFirst pg ..< ?u} - cover A)) - int nB"
    using alloc_count [OF inv, of "(ctop - nB, nB)" nB] fresh i(5) nB by simp
  have pairs: "\<forall>a\<in>insert (ctop - nB, nB) A. \<forall>b\<in>insert (ctop - nB, nB) A. a \<noteq> b \<longrightarrow> apart a b"
    using fresh i(11) by (auto simp: apart_def)
  have "\<forall>a\<in>insert (ctop - nB, nB) A. \<forall>b\<in>set bs. apart a b"
    using fresh' i(12) by auto
  moreover have "length d' = length ?d" by (simp add: d')
  moreover have "\<forall>a\<in>insert (ctop - nB, nB) A. 4 \<le> snd a \<and> ctop - nB \<le> fst a \<and> fst a + snd a \<le> ?u"
    using i(5,10) nB by fastforce
  moreover have "ctop - nB < 65536" "cellFirst pg \<le> ctop - nB" "ctop - nB \<le> ?u" using i(2,5) nB by simp_all
  ultimately show ?thesis
    unfolding page_inv_def
    using i(1-3,5,9,13,14) nB chain okk pairs top5 frag7 U free by simp
qed

definition slot_result :: "MemPage \<Rightarrow> extent set \<Rightarrow> nat \<Rightarrow> nat \<Rightarrow> bytes \<Rightarrow> nat option \<Rightarrow> bool" where
  "slot_result pg A ctop nB d' r \<longleftrightarrow>
     (case r of None \<Rightarrow> d' = aData pg
      | Some slot \<Rightarrow> ctop < slot \<and> frame_ok pg ctop A d' \<and>
          (\<exists>bs'. page_inv (pg\<lparr>aData := d', nFree := nFree pg - int nB\<rparr>) (insert (slot, nB) A) bs' ctop))"

lemma lastp_bounds:
  assumes "page_inv pg A (pre @ e # post) ctop"
  shows "lastp (hdrOffset pg + 1) pre = hdrOffset pg + 1 \<or>
    ctop < lastp (hdrOffset pg + 1) pre \<and> lastp (hdrOffset pg + 1) pre + 4 < fst e
    \<and> (\<exists>b\<in>set pre. fst b = lastp (hdrOffset pg + 1) pre \<and> 4 \<le> snd b)"
proof (cases pre rule: rev_cases)
  case (snoc ys y)
  have ok: "blocks_ok ctop (usableSize pg) pre" "endp ctop pre < fst e"
    using page_invD(8) [OF assms] by (cases e; simp add: blocks_ok_append)+
  show ?thesis using snoc ok(2) blocks_okD [OF ok(1), of y] by auto
qed simp

lemma frame_lastp:
  assumes inv: "page_inv pg A (pre @ e # post) ctop" and len: "length d' = length (aData pg)"
    and same: "\<And>i. i \<noteq> hdrOffset pg + 7 \<Longrightarrow> i \<noteq> lastp (hdrOffset pg + 1) pre \<Longrightarrow>
      i \<noteq> Suc (lastp (hdrOffset pg + 1) pre) \<Longrightarrow> i \<notin> ext e \<Longrightarrow> d' ! i = aData pg ! i"
  shows "frame_ok pg ctop A d'"
  unfolding frame_ok_def
proof (intro conjI allI impI)
  fix j assume j: "j \<notin> hdr_fields pg" "j \<notin> {ctop ..< usableSize pg} - cover A"
  have "j \<notin> ext e" using block_uncovered [OF inv, of e j A] j(2) by auto
  moreover have "j \<noteq> lastp (hdrOffset pg + 1) pre \<and> j \<noteq> Suc (lastp (hdrOffset pg + 1) pre)"
    using lastp_bounds [OF inv] j block_uncovered [OF inv, of _ j A]
    by (fastforce simp: hdr_fields_def ext_def)
  ultimately show "d' ! j = aData pg ! j" using same [of j] j(1) by (auto simp: hdr_fields_def)
qed (rule len)

lemma take2: "Suc i < length d \<Longrightarrow> take 2 (drop i d) = [d ! i, d ! Suc i]"
  by (simp add: numeral_2_eq_2 take_Suc_conv_app_nth)

lemma memmove2: "Suc i < length d \<Longrightarrow> Suc j < length d \<Longrightarrow>
   memmove d i j 2 = Some (d[i := d ! j, Suc i := d ! Suc j])"
  by (auto simp: memmove_def memread_def memwrite_def take2 list_eq_iff_nth_eq nth_append nth_list_update
      nth_Cons' numeral_2_eq_2 intro!: arg_cong [where f = "(!) d"])

lemma findSlot_loop:
  assumes "page_inv pg A (pre @ rest) ctop" "rest \<noteq> []" "4 \<le> nB" "nB \<le> usableSize pg"
  shows "\<exists>d' r. pageFindSlot_loop (aData pg) (hdrOffset pg) nB (int (usableSize pg) - int nB)
      (lastp (hdrOffset pg + 1) pre) (hdp rest 0) = Some (SQLITE_OK, d', r) \<and> slot_result pg A ctop nB d' r"
  using assms
proof (induction rest arbitrary: pre)
  case (Cons e rest)
  obtain s n where e: "e = (s, n)" by (cases e)
  note inv = Cons.prems(1) [unfolded e]
  note i = page_invD [OF inv]
  let ?h = "hdrOffset pg" and ?d = "aData pg" and ?u = "usableSize pg"
  let ?l = "lastp (hdrOffset pg + 1) pre"
  have h: "?h + 8 \<le> ctop" using i(3,4) by simp
  have ok: "4 \<le> n" "s + n \<le> ?u" "ctop < s"
    using blocks_okD [OF i(8), of "(s, n)"] by auto
  have len: "s + 3 < length ?d" "?h + 7 < length ?d" using ok i(1,5) h by auto
  have sz: "g2 ?d (Suc (Suc s)) = n" and nx: "g2 ?d s = hdp rest 0"
    using i(7) chain_hd [of ?d s rest 0] by (auto simp: chain_append)
  have l: "Suc ?l < s" using lastp_bounds [OF inv] h ok by auto
  show ?case
  proof (cases "int s \<le> int ?u - int nB")
    case False
    have "int s \<le> int ?u - 4" using ok by linarith
    then show ?thesis using False
      by (subst pageFindSlot_loop.simps) (simp add: e slot_result_def)
  next
    case fits: True
    consider (small) "n < nB" | (whole) "nB \<le> n" "n < nB + 4" | (part) "nB + 4 \<le> n" by linarith
    then show ?thesis
    proof cases
      case small
      show ?thesis
      proof (cases rest)
        case Nil
        then show ?thesis using fits small len nx
          by (subst pageFindSlot_loop.simps) (simp add: e get2byte_eq sz slot_result_def)
      next
        case (Cons f rest')
        have "blocks_ok (s + n + 3) ?u rest" using i(8) by (simp add: blocks_ok_append)
        then have lt: "s < hdp rest 0" using blocks_okD [of "s + n + 3" ?u rest f] Cons by auto
        have "page_inv pg A ((pre @ [(s, n)]) @ rest) ctop" using inv by simp
        from Cons.IH [OF this _ Cons.prems(3,4)] Cons
        obtain d' r where "pageFindSlot_loop ?d ?h nB (int ?u - int nB) s (hdp rest 0)
            = Some (SQLITE_OK, d', r)" "slot_result pg A ctop nB d' r" by auto
        then show ?thesis using fits small len nx lt
          by (subst pageFindSlot_loop.simps) (simp add: e get2byte_eq sz)
      qed
    next
      case whole
      have x4: "n - nB < 4" using whole by simp
      show ?thesis
      proof (cases "?d ! (?h + 7) > 57")
        case True
        then show ?thesis using fits whole len x4
          by (subst pageFindSlot_loop.simps) (simp add: e get2byte_eq sz rd8_Some Let_def slot_result_def)
      next
        case False
        let ?d1 = "?d[?l := ?d ! s, Suc ?l := ?d ! Suc s]"
        let ?d' = "?d1[?h + 7 := ?d ! (?h + 7) + cast8 (n - nB)]"
        have h7: "?h + 7 \<noteq> ?l" "?h + 7 \<noteq> Suc ?l" using lastp_bounds [OF inv] h by auto
        have same: "j \<noteq> ?h + 7 \<Longrightarrow> j \<noteq> ?l \<Longrightarrow> j \<noteq> Suc ?l \<Longrightarrow> ?d' ! j = ?d ! j" for j by simp
        have frag: "unat (?d ! (?h + 7)) \<le> 57" using False by (simp add: word_less_nat_alt)
        then have "unat (?d ! (?h + 7) + cast8 (n - nB)) = unat (?d ! (?h + 7)) + (n - nB)"
          using whole by (subst iffD1 [OF unat_add_lem]) auto
        then have f: "unat (?d' ! (?h + 7)) = unat (?d ! (?h + 7)) + (n - nB)" using len by simp
        have "g2 ?d' ?l = g2 ?d s" using l len h7 by (simp add: g2_def)
        then have p: "g2 ?d' ?l = hdp rest 0" using nx by simp
        have "page_inv (pg\<lparr>aData := ?d', nFree := nFree pg - int nB\<rparr>) (insert (s, nB) A) (pre @ rest) ctop"
          by (rule slot_whole [OF inv Cons.prems(3) whole _ p f]) (use same in auto)
        moreover have "frame_ok pg ctop A ?d'"
          by (rule frame_lastp [OF inv]) (use same in auto)
        moreover have "pageFindSlot_loop ?d ?h nB (int ?u - int nB) ?l (hdp (e # rest) 0)
            = Some (SQLITE_OK, ?d', Some s)"
          using fits whole len False l h7 x4
          by (subst pageFindSlot_loop.simps)
            (simp add: e get2byte_eq sz rd8_Some wr8_Some Let_def memmove2)
        ultimately show ?thesis using ok by (auto simp: slot_result_def)
      qed
    next
      case part
      have x4: "\<not> n - nB < 4" "int n + int s \<le> int ?u" using part ok by linarith+
      let ?x = "n - nB" and ?d' = "p2 ?d (s + 2) (n - nB)"
      have "page_inv (pg\<lparr>aData := ?d', nFree := nFree pg - int nB\<rparr>) (insert (s + ?x, nB) A)
          (pre @ (s, ?x) # rest) ctop"
        by (rule slot_part [OF inv Cons.prems(3)]) (use part in auto)
      moreover have "frame_ok pg ctop A ?d'"
        by (rule frame_lastp [OF inv]) (use ok in \<open>auto simp: nth_p2 ext_def\<close>)
      moreover have "pageFindSlot_loop ?d ?h nB (int ?u - int nB) ?l (hdp (e # rest) 0)
          = Some (SQLITE_OK, ?d', Some (s + ?x))"
        using fits part len ok x4
        by (subst pageFindSlot_loop.simps) (simp add: e get2byte_eq put2byte_eq sz Let_def)
      ultimately show ?thesis using ok by (auto simp: slot_result_def)
    qed
  qed
qed simp

lemma pageFindSlot_ok:
  assumes "page_inv pg A bs ctop" "bs \<noteq> []" "4 \<le> nB" "nB \<le> usableSize pg"
  obtains d' r where "pageFindSlot pg nB = Some (SQLITE_OK, pg\<lparr>aData := d'\<rparr>, r)" "slot_result pg A ctop nB d' r"
proof -
  note i = page_invD [OF assms(1)]
  have "g2 (aData pg) (Suc (hdrOffset pg)) = hdp bs 0" using chain_hd [OF i(7)] by simp
  moreover have "Suc (Suc (hdrOffset pg)) < length (aData pg)" using i(1,3,4,5) by simp
  ultimately show thesis
    using findSlot_loop [of pg A "[]" bs ctop nB] assms that by (auto simp: pageFindSlot_def get2byte_eq)
qed
end
