(* ===== verification/DefragM.thy ===== *)
theory DefragM
  imports AllocM
begin

text \<open>
  Defragmentation of a page that holds a sequence of cells: both paths of
  \<^verbatim>\<open>defragmentPage\<close> keep the cells, their order and every byte outside the header
  fields, the pointer array and the content area, and leave one free area.
\<close>

section \<open>Counting bytes\<close>

lemma card_cover:
  assumes "finite A" "\<And>a b. a \<in> A \<Longrightarrow> b \<in> A \<Longrightarrow> a \<noteq> b \<Longrightarrow> apart a b"
  shows "card (cover A) = (\<Sum>a\<in>A. snd a)"
proof -
  have "card (\<Union>(ext ` A)) = (\<Sum>a\<in>A. card (ext a))"
    using assms apart_disj by (intro card_UN_disjoint) (auto simp: ext_def)
  then show ?thesis by (simp add: cover_def)
qed

lemma card_cover_blocks: "blocks_ok lo u bs \<Longrightarrow> card (cover (set bs)) = sum_list (map snd bs)"
proof (induction bs arbitrary: lo)
  case (Cons x bs)
  have ok: "blocks_ok (fst x + snd x + 3) u bs" using Cons.prems by (cases x) auto
  have "ext x \<inter> cover (set bs) = {}"
    using blocks_okD [OF ok] by (fastforce simp: cover_def ext_def)
  moreover have "finite (cover (set bs))" by (auto simp: cover_def ext_def)
  ultimately show ?case
    using Cons.IH [OF ok] by (simp add: cover_insert card_Un_disjoint ext_def)
qed simp

lemma finite_cover: "finite A \<Longrightarrow> finite (cover A)"
  by (auto simp: cover_def ext_def)

lemma page_counts:
  assumes "page_inv pg A bs ctop"
  shows "unat (aData pg ! (hdrOffset pg + 7)) + ctop + sum_list (map snd bs) + (\<Sum>a\<in>A. snd a) = usableSize pg"
    and "nFree pg = int (usableSize pg) - int (cellFirst pg) - int (\<Sum>a\<in>A. snd a)"
    and "(\<Sum>a\<in>A. snd a) \<le> usableSize pg - ctop"
proof -
  note i = page_invD [OF assms]
  let ?u = "usableSize pg"
  have A: "cover A \<subseteq> {ctop ..< ?u}" "card (cover A) = (\<Sum>a\<in>A. snd a)" "finite (cover A)"
    using i(10) card_cover [OF i(9,11)] finite_cover [OF i(9)] by (fastforce simp: cover_def ext_def)+
  have B: "cover (set bs) \<subseteq> {ctop ..< ?u}" "card (cover (set bs)) = sum_list (map snd bs)"
    using blocks_okD [OF i(8)] card_cover_blocks [OF i(8)] by (fastforce simp: cover_def ext_def)+
  have AB: "cover A \<inter> cover (set bs) = {}"
    using apart_disj [OF i(12)] by (fastforce simp: cover_def)
  have "card ({ctop ..< ?u} - cover A) = (?u - ctop) - card (cover A)"
    using A by (simp add: card_Diff_subset)
  moreover have "card ({ctop ..< ?u} - cover A - cover (set bs)) = card ({ctop ..< ?u} - cover A) - card (cover (set bs))"
    using B AB by (intro card_Diff_subset) (auto simp: finite_cover)
  moreover have "card (cover A) \<le> ?u - ctop"
    using card_mono [OF _ A(1)] by simp
  moreover have "card (cover (set bs)) \<le> card ({ctop ..< ?u} - cover A)"
    using B AB by (intro card_mono) auto
  ultimately show "unat (aData pg ! (hdrOffset pg + 7)) + ctop + sum_list (map snd bs) + (\<Sum>a\<in>A. snd a) = ?u"
    "(\<Sum>a\<in>A. snd a) \<le> ?u - ctop"
    using i(5,13) A(2) B(2) by simp_all
  have "cover A \<subseteq> {cellFirst pg ..< ?u}" using A(1) i(4) by auto
  then have "card ({cellFirst pg ..< ?u} - cover A) = (?u - cellFirst pg) - card (cover A)"
    using A by (simp add: card_Diff_subset)
  then show "nFree pg = int ?u - int (cellFirst pg) - int (\<Sum>a\<in>A. snd a)"
    using i(4,5,14) A(2) \<open>card (cover A) \<le> ?u - ctop\<close> by simp
qed

section \<open>Pages that hold a sequence of cells\<close>

definition content :: "bytes \<Rightarrow> nat \<Rightarrow> nat \<Rightarrow> bytes" where
  "content d s n = take n (drop s d)"

definition extents :: "nat list \<Rightarrow> bytes list \<Rightarrow> extent set" where
  "extents os cs = set (zip os (map length cs))"

text \<open>
  The cell pointers of the page are \<open>os\<close> and the cells, in the order of the pointers, are
  \<open>cs\<close>.
\<close>

definition holds :: "MemPage \<Rightarrow> bytes \<Rightarrow> nat list \<Rightarrow> bytes list \<Rightarrow> bool" where
  "holds pg d os cs \<longleftrightarrow> length os = nCell pg \<and> length cs = nCell pg \<and> distinct os
     \<and> (\<forall>i < nCell pg. g2 d (cellOffset pg + 2 * i) = os ! i)
     \<and> (\<forall>i < nCell pg. content d (os ! i) (length (cs ! i)) = cs ! i)
     \<and> g2 d (hdrOffset pg + 3) = nCell pg"

text \<open>
  A cell that the size function of the page measures correctly whatever bytes follow it.
\<close>

definition cell_ok :: "MemPage \<Rightarrow> bytes \<Rightarrow> bool" where
  "cell_ok pg c \<longleftrightarrow> 4 \<le> length c \<and> length c < 65536
     \<and> (\<forall>tail. call_xCellSize pg (c @ tail) = Some (word_of_nat (length c)))"

lemma content_cong:
  assumes "length d' = length d" "\<And>i. s \<le> i \<Longrightarrow> i < s + n \<Longrightarrow> d' ! i = d ! i"
  shows "content d' s n = content d s n"
  using assms by (auto simp: content_def list_eq_iff_nth_eq)

lemma content_shift:
  assumes "length d' = length d" "s + n \<le> length d" "s' + n \<le> length d"
    "\<And>i. i < n \<Longrightarrow> d' ! (s' + i) = d ! (s + i)"
  shows "content d' s' n = content d s n"
  using assms by (auto simp: content_def list_eq_iff_nth_eq)

lemma extents_nth: "length os = n \<Longrightarrow> length cs = n \<Longrightarrow> i < n \<Longrightarrow> (os ! i, length (cs ! i)) \<in> extents os cs"
  by (auto simp: extents_def in_set_zip)

lemma extentsE:
  assumes "a \<in> extents os cs" "length os = length cs"
  obtains i where "i < length cs" "a = (os ! i, length (cs ! i))"
  using assms by (auto simp: extents_def in_set_zip)

lemma sum_extents:
  "length os = length cs \<Longrightarrow> distinct os \<Longrightarrow> (\<Sum>a\<in>extents os cs. snd a) = sum_list (map length cs)"
proof (induction os cs rule: list_induct2)
  case (Cons o' os c cs)
  have "(o', length c) \<notin> set (zip os (map length cs))" using Cons.prems by (auto dest: set_zip_leftD)
  then show ?case using Cons by (simp add: extents_def)
qed (simp add: extents_def)

lemma finite_extents [simp]: "finite (extents os cs)"
  by (simp add: extents_def)

lemma cellSize_overflow_upd:
  "cellSize_overflow (pg\<lparr>aData := d\<rparr>) = cellSize_overflow pg"
  "cellSize_overflow (pg\<lparr>nFree := f\<rparr>) = cellSize_overflow pg"
  "cellSize_overflow (pg\<lparr>nCell := k\<rparr>) = cellSize_overflow pg"
  by (simp_all add: cellSize_overflow_def fun_eq_iff)

lemma call_xCellSize_upd [simp]:
  "call_xCellSize (pg\<lparr>aData := d\<rparr>) c = call_xCellSize pg c"
  "call_xCellSize (pg\<lparr>nFree := f\<rparr>) c = call_xCellSize pg c"
  "call_xCellSize (pg\<lparr>nCell := k\<rparr>) c = call_xCellSize pg c"
  unfolding call_xCellSize_def cellSizePtr_def cellSizePtrIdxLeaf_def cellSizePtrNoPayload_def
    cellSizePtrTableLeaf_def cellSize_overflow_upd
  by (simp_all split: cell_size_fn.splits)

section \<open>The slow path\<close>

text \<open>Where the slow path puts the first \<open>i\<close> cells: packed against the end of the page.\<close>

definition cbrk_at :: "nat \<Rightarrow> bytes list \<Rightarrow> nat \<Rightarrow> nat" where
  "cbrk_at u cs i = u - sum_list (map length (take i cs))"

lemma cbrk_at_0 [simp]: "cbrk_at u cs 0 = u"
  by (simp add: cbrk_at_def)

lemma sum_take_le: "sum_list (map length (take i cs)) \<le> sum_list (map length (cs :: bytes list))"
  by (metis append_take_drop_id le_add1 map_append sum_list_append)

lemma cbrk_at_Suc:
  "i < length cs \<Longrightarrow> sum_list (map length cs) \<le> u \<Longrightarrow> cbrk_at u cs (Suc i) + length (cs ! i) = cbrk_at u cs i"
  using sum_take_le [of "Suc i" cs] by (simp add: cbrk_at_def take_Suc_conv_app_nth)

lemma cbrk_at_le: "cbrk_at u cs i \<le> u"
  by (simp add: cbrk_at_def)

lemma cbrk_at_ge: "u - sum_list (map length cs) \<le> cbrk_at u cs i"
  using sum_take_le [of i cs] by (simp add: cbrk_at_def)

lemma cbrk_at_anti: "i \<le> j \<Longrightarrow> cbrk_at u cs j \<le> cbrk_at u cs i"
proof -
  assume "i \<le> j"
  then have "take i cs = take i (take j cs)" by (simp add: min_def)
  then show ?thesis using sum_take_le [of i "take j cs"] by (simp add: cbrk_at_def)
qed

definition copied :: "MemPage \<Rightarrow> bytes \<Rightarrow> nat list \<Rightarrow> bytes list \<Rightarrow> nat \<Rightarrow> bytes \<Rightarrow> bool" where
  "copied pg d0 os cs i d \<longleftrightarrow>
     length d = length d0
     \<and> (\<forall>j < i. g2 d (cellOffset pg + 2 * j) = cbrk_at (usableSize pg) cs (Suc j)
          \<and> content d (cbrk_at (usableSize pg) cs (Suc j)) (length (cs ! j)) = cs ! j)
     \<and> (\<forall>j < nCell pg. i \<le> j \<longrightarrow> g2 d (cellOffset pg + 2 * j) = os ! j)
     \<and> (\<forall>x. x \<notin> {cellOffset pg ..< cellFirst pg} \<longrightarrow> x \<notin> {cbrk_at (usableSize pg) cs i ..< usableSize pg} \<longrightarrow>
          d ! x = d0 ! x)"

lemma memread_eq [page_simps]: "i + n \<le> length d \<Longrightarrow> memread d i n = Some (content d i n)"
  by (simp add: memread_def content_def)

lemma memwrite_eq [page_simps]:
  "i + length s \<le> length d \<Longrightarrow> memwrite d i s = Some (take i d @ s @ drop (i + length s) d)"
  by (simp add: memwrite_def)

lemma nth_memwrite:
  "i + length s \<le> length d \<Longrightarrow> (take i d @ s @ drop (i + length s) d) ! j
   = (if i \<le> j \<and> j < i + length s then s ! (j - i) else d ! j)"
proof (cases "i < length d")
  case True
  assume "i + length s \<le> length d"
  then show ?thesis
    using True nth_drop [of "i + length s" d "j - (i + length s)"]
    by (auto simp: nth_append min_def simp del: drop_all)
next
  case False
  assume "i + length s \<le> length d"
  then have "length s = 0" "i = length d" using False by linarith+
  then show ?thesis by auto
qed

lemma length_memwrite: "i + length s \<le> length d \<Longrightarrow> length (take i d @ s @ drop (i + length s) d) = length d"
  by simp

lemma content_memwrite: "i + length s \<le> length d \<Longrightarrow> content (take i d @ s @ drop (i + length s) d) i (length s) = s"
  by (simp add: content_def)

lemma drop_content: "content d s n = c \<Longrightarrow> drop s d = c @ drop (s + n) d"
  by (metis add.commute append_take_drop_id content_def drop_drop)

lemma copy_step:
  assumes cp: "copied pg d0 os cs i d" and i: "i < nCell pg" "length cs = nCell pg"
    and sum: "sum_list (map length cs) \<le> usableSize pg - cellFirst pg"
    and u: "usableSize pg \<le> length d0" "usableSize pg \<le> 65536" and ne: "0 < length (cs ! i)"
    and d': "d' = take (cbrk_at (usableSize pg) cs (Suc i)) (p2 d (cellOffset pg + 2 * i) (cbrk_at (usableSize pg) cs (Suc i)))
        @ cs ! i @ drop (cbrk_at (usableSize pg) cs (Suc i) + length (cs ! i))
             (p2 d (cellOffset pg + 2 * i) (cbrk_at (usableSize pg) cs (Suc i)))"
  shows "copied pg d0 os cs (Suc i) d'"
proof -
  let ?u = "usableSize pg" and ?co = "cellOffset pg"
  let ?b = "cbrk_at ?u cs (Suc i)" and ?l = "length (cs ! i)"
  let ?d1 = "p2 d (?co + 2 * i) ?b"
  have b: "?b + ?l = cbrk_at ?u cs i" using i sum by (intro cbrk_at_Suc) auto
  have le: "cbrk_at ?u cs i \<le> ?u" by (rule cbrk_at_le)
  have first: "cellFirst pg \<le> ?u"
  proof (rule ccontr)
    assume "\<not> cellFirst pg \<le> ?u"
    then have "sum_list (map length cs) = 0" using sum by simp
    moreover have "cs ! i \<in> set cs" using i by simp
    ultimately show False using ne by (auto simp: sum_list_eq_0_iff)
  qed
  have ge: "cellFirst pg \<le> ?b" using cbrk_at_ge [of ?u cs "Suc i"] sum first by simp
  have len: "length d = length d0" using cp by (simp add: copied_def)
  have bl: "?b + ?l \<le> length ?d1" using b le u len by simp
  have nth: "d' ! x = (if ?b \<le> x \<and> x < ?b + ?l then cs ! i ! (x - ?b) else ?d1 ! x)" for x
    unfolding d' by (rule nth_memwrite [OF bl])
  have len': "length d' = length d0" using bl len unfolding d' by simp
  have low: "g2 d' y = g2 ?d1 y" if "y + 1 < cellFirst pg" for y
    using that ge by (intro g2_cong) (simp_all add: nth)
  have "?b < 65536" using b le u(2) ne by linarith
  then have ptr: "g2 ?d1 (?co + 2 * i) = ?b" using i first u len by (subst g2_p2_same) auto
  have other: "g2 ?d1 (?co + 2 * j) = g2 d (?co + 2 * j)" if "j \<noteq> i" for j
  proof (rule g2_cong)
    have "?co + 2 * j \<noteq> ?co + 2 * i" "?co + 2 * j \<noteq> Suc (?co + 2 * i)"
      "Suc (?co + 2 * j) \<noteq> ?co + 2 * i" "Suc (?co + 2 * j) \<noteq> Suc (?co + 2 * i)"
      using that by presburger+
    then show "?d1 ! (?co + 2 * j) = d ! (?co + 2 * j)" "?d1 ! Suc (?co + 2 * j) = d ! Suc (?co + 2 * j)"
      by (simp_all only: nth_p2 not_False_eq_True)
  qed
  have cont: "content d' ?b ?l = cs ! i" unfolding d' by (rule content_memwrite [OF bl])
  have pres: "g2 d' (?co + 2 * j) = cbrk_at ?u cs (Suc j)
      \<and> content d' (cbrk_at ?u cs (Suc j)) (length (cs ! j)) = cs ! j" if j: "j < Suc i" for j
  proof (cases "j = i")
    case True
    then show ?thesis using low [of "?co + 2 * i"] ptr cont i by simp
  next
    case False
    then have ji: "j < i" using j by simp
    have lo: "cbrk_at ?u cs i \<le> cbrk_at ?u cs (Suc j)" using ji by (intro cbrk_at_anti) simp
    have "d' ! x = d ! x" if "cbrk_at ?u cs (Suc j) \<le> x" for x
      using that lo b ge i first by (simp add: nth nth_p2)
    then have "content d' (cbrk_at ?u cs (Suc j)) (length (cs ! j)) = content d (cbrk_at ?u cs (Suc j)) (length (cs ! j))"
      using len' len by (intro content_cong) auto
    then show ?thesis
      using cp ji False low [of "?co + 2 * j"] other i by (simp add: copied_def)
  qed
  have later: "g2 d' (?co + 2 * j) = os ! j" if "j < nCell pg" "Suc i \<le> j" for j
    using cp that low [of "?co + 2 * j"] other [of j] by (simp add: copied_def)
  have same: "d' ! x = d0 ! x" if "x \<notin> {?co ..< cellFirst pg}" "x \<notin> {?b ..< ?u}" for x
  proof -
    have "d' ! x = d ! x" using that i le b ge by (auto simp: nth nth_p2)
    moreover have "x \<notin> {cbrk_at ?u cs i ..< ?u}" using that(2) b by auto
    ultimately show ?thesis using cp that(1) by (simp add: copied_def)
  qed
  show ?thesis
    unfolding copied_def using len' pres later same by blast
qed

lemma defrag_copy_run:
  assumes "copied pg d0 os cs i d" "i + k = nCell pg" "length cs = nCell pg"
    and "sum_list (map length cs) \<le> usableSize pg - ctop" "cellFirst pg \<le> ctop" "ctop \<le> usableSize pg"
    and "usableSize pg \<le> length d0" "usableSize pg \<le> 65536" "start \<le> ctop" "usableSize pg \<le> length src"
    and "\<And>c. c \<in> set cs \<Longrightarrow> cell_ok pg c"
    and "\<And>j. j < nCell pg \<Longrightarrow> content src (os ! j) (length (cs ! j)) = cs ! j \<and> os ! j + length (cs ! j) \<le> usableSize pg"
  shows "\<exists>d'. defrag_copy k pg src i (int (cbrk_at (usableSize pg) cs i)) start d
      = Some (SQLITE_OK, d', int (cbrk_at (usableSize pg) cs (nCell pg))) \<and> copied pg d0 os cs (nCell pg) d'"
  using assms(1,2)
proof (induction k arbitrary: i d)
  case 0
  then show ?case by simp
next
  case (Suc k)
  let ?u = "usableSize pg" and ?co = "cellOffset pg"
  let ?b = "cbrk_at ?u cs (Suc i)" and ?l = "length (cs ! i)"
  have i: "i < nCell pg" using Suc.prems by simp
  have ok: "cell_ok pg (cs ! i)" using assms(3,11) i by simp
  then have l: "4 \<le> ?l" "?l < 65536" by (simp_all add: cell_ok_def)
  note src = assms(12) [OF i]
  have b: "?b + ?l = cbrk_at ?u cs i" using i assms(3,4) by (intro cbrk_at_Suc) auto
  have le: "cbrk_at ?u cs i \<le> ?u" by (rule cbrk_at_le)
  have ge: "ctop \<le> ?b" using cbrk_at_ge [of ?u cs "Suc i"] assms(4,6) by simp
  have len: "length d = length d0" and ptr: "g2 d (?co + 2 * i) = os ! i"
    using Suc.prems(1) i by (simp_all add: copied_def)
  have "drop (os ! i) src = cs ! i @ drop (os ! i + ?l) src" using src by (intro drop_content) simp
  then have size: "call_xCellSize pg (drop (os ! i) src) = Some (word_of_nat ?l)"
    using ok by (simp add: cell_ok_def)
  have size': "unat (word_of_nat ?l :: u16) = ?l" using l by (simp add: unat_of_nat)
  have size2: "uint (word_of_nat ?l :: u16) = int ?l" unfolding uint_nat size' ..
  let ?d1 = "p2 d (?co + 2 * i) ?b"
  let ?d' = "take ?b ?d1 @ cs ! i @ drop (?b + ?l) ?d1"
  have bl: "?b + ?l \<le> length ?d1" using b le assms(7) len by simp
  have cp: "copied pg d0 os cs (Suc i) ?d'"
    by (rule copy_step [OF Suc.prems(1) i assms(3)]) (use assms l in auto)
  have ints: "int (cbrk_at ?u cs i) - int ?l = int ?b" using b by simp
  have p: "Suc (?co + 2 * i) < length d" using i assms(5,6,7) len by simp
  have nb: "\<not> int ?b < int start" "\<not> ?u < os ! i + ?l" "\<not> ?u - 4 < os ! i"
    using ge assms(9) src l by auto
  have "memread src (os ! i) ?l = Some (cs ! i)"
    using src assms(10) by (simp add: memread_eq)
  moreover have "memwrite ?d1 ?b (cs ! i) = Some ?d'" using bl by (simp add: memwrite_eq)
  ultimately have "defrag_copy (Suc k) pg src i (int (cbrk_at ?u cs i)) start d
      = defrag_copy k pg src (Suc i) (int ?b) start ?d'"
    using p nb by (simp add: get2byte_eq put2byte_eq ptr size size' size2 ints Let_def mult.commute [of i 2]
        del: of_nat_less_iff)
  then show ?case using Suc.IH [OF cp] Suc.prems(2) by simp
qed

text \<open>The bytes outside the header fields, the pointer array and the content area.\<close>

definition outer_same :: "MemPage \<Rightarrow> bytes \<Rightarrow> bytes \<Rightarrow> bool" where
  "outer_same pg d d' \<longleftrightarrow> length d' = length d \<and>
     (\<forall>i. i < cellOffset pg \<and> i \<notin> hdr_fields pg \<and> i \<noteq> hdrOffset pg + 3 \<and> i \<noteq> hdrOffset pg + 4
        \<or> usableSize pg \<le> i \<longrightarrow> d' ! i = d ! i)"

lemma outer_same_trans: "outer_same pg d d' \<Longrightarrow> outer_same pg d' d'' \<Longrightarrow> outer_same pg d d''"
  by (simp add: outer_same_def)

definition packed :: "MemPage \<Rightarrow> bytes \<Rightarrow> nat list \<Rightarrow> bytes list \<Rightarrow> nat \<Rightarrow> bool" where
  "packed pg d os cs cb \<longleftrightarrow> holds pg d os cs \<and> cellFirst pg \<le> cb \<and> cb \<le> usableSize pg
     \<and> (\<forall>i < nCell pg. cb \<le> os ! i \<and> os ! i + length (cs ! i) \<le> usableSize pg)
     \<and> (\<forall>i < nCell pg. \<forall>j < nCell pg. i \<noteq> j \<longrightarrow> apart (os ! i, length (cs ! i)) (os ! j, length (cs ! j)))
     \<and> unat (d ! (hdrOffset pg + 7)) + cb + sum_list (map length cs) = usableSize pg"

lemma packed_inv:
  assumes p: "packed pg d os cs cb" and d: "length d = length (aData pg)" "usableSize pg \<le> length d"
    and g: "g2 d (hdrOffset pg + 5) = cb mod 65536" "g2 d (hdrOffset pg + 1) = 0"
    and c: "\<And>c. c \<in> set cs \<Longrightarrow> 4 \<le> length c" "usableSize pg \<le> 65536" "hdrOffset pg + 8 \<le> cellOffset pg"
    and f: "nFree pg = int (usableSize pg) - int (cellFirst pg) - int (sum_list (map length cs))"
  shows "page_inv (pg\<lparr>aData := d\<rparr>) (extents os cs) [] cb"
proof -
  let ?u = "usableSize pg"
  have l: "length os = nCell pg" "length cs = nCell pg" "distinct os" using p by (simp_all add: packed_def holds_def)
  have e: "4 \<le> snd a \<and> cb \<le> fst a \<and> fst a + snd a \<le> ?u" if "a \<in> extents os cs" for a
    by (rule extentsE [OF that]) (use l p c(1) in \<open>auto simp: packed_def\<close>)
  have ap: "apart a b" if "a \<in> extents os cs" "b \<in> extents os cs" "a \<noteq> b" for a b
    by (rule extentsE [OF that(1)], simp add: l, rule extentsE [OF that(2)], simp add: l)
      (use l p that(3) in \<open>auto simp: packed_def\<close>)
  have sum: "(\<Sum>a\<in>extents os cs. snd a) = sum_list (map length cs)" using l by (intro sum_extents) simp_all
  have cov: "card (cover (extents os cs)) = sum_list (map length cs)" "finite (cover (extents os cs))"
    using card_cover [OF finite_extents ap] sum finite_cover [OF finite_extents] by auto
  have sub: "cover (extents os cs) \<subseteq> {cb ..< ?u}" using e by (fastforce simp: cover_def ext_def)
  have le: "cellFirst pg \<le> cb" "cb \<le> ?u" "unat (d ! (hdrOffset pg + 7)) + cb + sum_list (map length cs) = ?u"
    using p by (simp_all add: packed_def)
  have "card ({cb ..< ?u} - cover (extents os cs)) = unat (d ! (hdrOffset pg + 7))"
    using cov sub le by (simp add: card_Diff_subset)
  moreover have "cover (extents os cs) \<subseteq> {cellFirst pg ..< ?u}" using sub le(1) by auto
  then have "card ({cellFirst pg ..< ?u} - cover (extents os cs)) = ?u - cellFirst pg - sum_list (map length cs)"
    using cov by (simp add: card_Diff_subset)
  ultimately show ?thesis
    unfolding page_inv_def using d g c(2,3) f le e ap by auto
qed

lemma holds_cong:
  assumes "holds pg d os cs" "length d' = length d" "cellFirst pg \<le> cb"
    and "\<forall>i < nCell pg. cb \<le> os ! i"
    and "\<And>i. i \<in> {cellOffset pg ..< cellFirst pg} \<or> i = hdrOffset pg + 3 \<or> i = hdrOffset pg + 4 \<or> cb \<le> i \<Longrightarrow> d' ! i = d ! i"
  shows "holds pg d' os cs"
proof -
  have "g2 d' (cellOffset pg + 2 * i) = g2 d (cellOffset pg + 2 * i)" if "i < nCell pg" for i
    using that by (intro g2_cong; intro assms(5)) auto
  moreover have "content d' (os ! i) (length (cs ! i)) = content d (os ! i) (length (cs ! i))" if "i < nCell pg" for i
    using assms(2,4,5) that by (intro content_cong) force+
  moreover have "g2 d' (hdrOffset pg + 3) = g2 d (hdrOffset pg + 3)"
    by (intro g2_cong; intro assms(5)) auto
  ultimately show ?thesis using assms(1) by (simp add: holds_def)
qed

lemma defragment_out_ok:
  assumes p: "packed pg d os cs cb" and d: "length d = length (aData pg)" "usableSize pg \<le> length d"
    and c: "\<And>c. c \<in> set cs \<Longrightarrow> 4 \<le> length c" "usableSize pg \<le> 65536" "hdrOffset pg + 8 \<le> cellOffset pg"
    and f: "nFree pg = int (usableSize pg) - int (cellFirst pg) - int (sum_list (map length cs))"
  obtains d' where "defragment_out pg d (int cb) = Some (SQLITE_OK, pg\<lparr>aData := d'\<rparr>)"
    "page_inv (pg\<lparr>aData := d'\<rparr>) (extents os cs) [] cb" "holds pg d' os cs" "outer_same pg d d'"
    "d' ! (hdrOffset pg + 7) = d ! (hdrOffset pg + 7)"
proof -
  let ?h = "hdrOffset pg" and ?u = "usableSize pg" and ?first = "cellFirst pg"
  have le: "?first \<le> cb" "cb \<le> ?u" "unat (d ! (?h + 7)) + cb + sum_list (map length cs) = ?u"
    using p by (simp_all add: packed_def)
  have h: "?h + 8 \<le> length d" using c(3) d(2) le by simp
  let ?d1 = "(p2 d (?h + 5) cb)[?h + 1 := 0, ?h + 2 := 0]"
  let ?d' = "take ?first ?d1 @ replicate (cb - ?first) 0 @ drop (?first + (cb - ?first)) ?d1"
  have m: "?first + (cb - ?first) \<le> length ?d1" using le d by simp
  have len: "length ?d' = length d" using m by simp
  have nth: "?d' ! i = ?d1 ! i" if "i < ?first \<or> cb \<le> i" for i
    using nth_memwrite [of ?first "replicate (cb - ?first) 0" ?d1 i] m that le(1) by auto
  have nth': "?d' ! i = d ! i" if "i < ?first \<or> cb \<le> i" "i \<notin> {?h + 1, ?h + 2, ?h + 5, ?h + 6}" for i
    using nth [OF that(1)] that(2) by (simp add: nth_p2)
  have f7: "int (unat (d ! (?h + 7))) + int cb - int ?first = nFree pg"
    unfolding f using le(3) by linarith
  have run: "defragment_out pg d (int cb) = Some (SQLITE_OK, pg\<lparr>aData := ?d'\<rparr>)"
    using h m le f7
    by (simp add: defragment_out_def rd8_Some wr8_Some put2byte_eq memset_eq Let_def)
  have hold: "holds pg ?d' os cs"
    by (rule holds_cong [of _ d _ _ _ cb]) (use p len le c(3) nth' in \<open>auto simp: packed_def\<close>)
  have inv: "page_inv (pg\<lparr>aData := ?d'\<rparr>) (extents os cs) [] cb"
  proof (rule packed_inv)
    have "?d' ! (?h + 7) = d ! (?h + 7)" using c(3) by (intro nth') auto
    then show "packed pg ?d' os cs cb" using p hold by (simp add: packed_def)
    have "g2 ?d' (?h + 5) = g2 (p2 d (?h + 5) cb) (?h + 5)"
      using nth [of "?h + 5"] nth [of "Suc (?h + 5)"] c(3) by (intro g2_cong) simp_all
    then show "g2 ?d' (?h + 5) = cb mod 65536" using h by (simp add: g2_p2_same)
    show "g2 ?d' (?h + 1) = 0"
      using nth [of "?h + 1"] nth [of "?h + 2"] c(3) h by (simp add: g2_eq_0)
  qed (use len d c f in auto)
  have outer: "outer_same pg d ?d'"
    unfolding outer_same_def
  proof (intro conjI allI impI)
    fix i assume "i < cellOffset pg \<and> i \<notin> hdr_fields pg \<and> i \<noteq> ?h + 3 \<and> i \<noteq> ?h + 4 \<or> ?u \<le> i"
    then show "?d' ! i = d ! i" using c(3) le by (intro nth') (auto simp: hdr_fields_def)
  qed (rule len)
  have "?d' ! (?h + 7) = d ! (?h + 7)" using c(3) by (intro nth') auto
  then show thesis by (rule that [OF run inv hold outer])
qed

text \<open>What both paths of \<^verbatim>\<open>defragmentPage\<close> establish.\<close>

definition defrag_result :: "MemPage \<Rightarrow> bytes list \<Rightarrow> u8 \<Rightarrow> (rc \<times> MemPage) option \<Rightarrow> bool" where
  "defrag_result pg cs fr r \<longleftrightarrow> (\<exists>d' os' cb. r = Some (SQLITE_OK, pg\<lparr>aData := d'\<rparr>)
     \<and> page_inv (pg\<lparr>aData := d'\<rparr>) (extents os' cs) [] cb \<and> holds pg d' os' cs
     \<and> outer_same pg (aData pg) d' \<and> d' ! (hdrOffset pg + 7) = fr)"

lemma free_of_cells:
  assumes "page_inv pg (extents os cs) bs ctop" "holds pg d os cs"
  shows "nFree pg = int (usableSize pg) - int (cellFirst pg) - int (sum_list (map length cs))"
    and "sum_list (map length cs) \<le> usableSize pg - ctop"
proof -
  have e: "(\<Sum>a\<in>extents os cs. snd a) = sum_list (map length cs)"
    using assms(2) by (intro sum_extents) (simp_all add: holds_def)
  show "nFree pg = int (usableSize pg) - int (cellFirst pg) - int (sum_list (map length cs))"
    "sum_list (map length cs) \<le> usableSize pg - ctop"
    using page_counts(2,3) [OF assms(1)] unfolding e by blast+
qed

lemma cell_extent:
  assumes "page_inv pg (extents os cs) bs ctop" "holds pg d os cs" "i < nCell pg"
  shows "ctop \<le> os ! i" "os ! i + length (cs ! i) \<le> usableSize pg" "4 \<le> length (cs ! i)"
  using page_invD(10) [OF assms(1) extents_nth [of os "nCell pg" cs i]] assms(2,3) by (simp_all add: holds_def)

lemma defrag_slow_ok:
  assumes inv: "page_inv pg (extents os cs) bs ctop" and hold: "holds pg (aData pg) os cs"
    and ok: "\<And>c. c \<in> set cs \<Longrightarrow> cell_ok pg c" and temp: "usableSize pg \<le> length temp"
  shows "defrag_result pg cs 0 (defrag_slow pg temp)"
proof -
  note i = page_invD [OF inv]
  let ?u = "usableSize pg" and ?d = "aData pg" and ?h = "hdrOffset pg" and ?n = "nCell pg"
  let ?cb = "cbrk_at ?u cs"
  have l: "length os = ?n" "length cs = ?n" using hold by (simp_all add: holds_def)
  note sum = free_of_cells [OF inv hold]
  let ?src = "take 0 temp @ content ?d 0 ?u @ drop (0 + length (content ?d 0 ?u)) temp"
  have lc: "length (content ?d 0 ?u) = ?u" using i(1) by (simp add: content_def)
  have src: "content ?src (os ! j) (length (cs ! j)) = cs ! j \<and> os ! j + length (cs ! j) \<le> ?u" if "j < ?n" for j
  proof -
    note e = cell_extent [OF inv hold that]
    have "content ?src (os ! j) (length (cs ! j)) = content ?d (os ! j) (length (cs ! j))"
      using e i(1) temp lc by (auto simp: content_def list_eq_iff_nth_eq nth_append)
    then show ?thesis using hold that e by (simp add: holds_def)
  qed
  have cp0: "copied pg ?d os cs 0 ?d" using hold by (simp add: copied_def holds_def)
  obtain d1 where run: "defrag_copy ?n pg ?src 0 (int ?u) (g2 ?d (?h + 5)) ?d = Some (SQLITE_OK, d1, int (?cb ?n))"
    and cp: "copied pg ?d os cs ?n d1"
    using defrag_copy_run [OF cp0 _ l(2) sum(2) i(4,5,1,2) _ _ ok, of "?n" "g2 ?d (?h + 5)" ?src] src lc temp i(6)
    by fastforce
  let ?os = "map (\<lambda>j. ?cb (Suc j)) [0..<?n]" and ?d2 = "d1[?h + 7 := 0]"
  have cb: "?cb (Suc j) + length (cs ! j) = ?cb j" if "j < ?n" for j
    using that l sum(2) by (intro cbrk_at_Suc) auto
  have cbn: "?cb ?n + sum_list (map length cs) = ?u" using sum(2) l by (simp add: cbrk_at_def)
  have top: "ctop \<le> ?cb ?n" using cbn sum(2) i(5) by linarith
  have h: "?h + 8 \<le> cellOffset pg" by (rule i(3))
  have pos: "0 < length (cs ! j)" if "j < ?n" for j using cell_extent(3) [OF inv hold that] by linarith
  have down: "?cb (Suc j) + length (cs ! j) \<le> ?cb (Suc k)" if "k < j" "j < ?n" for j k
    using cb [OF that(2)] cbrk_at_anti [of "Suc k" j ?u cs] that(1) by simp
  have distinct: "distinct ?os"
    unfolding distinct_conv_nth
  proof (intro allI impI)
    fix j k assume a: "j < length ?os" "k < length ?os" "j \<noteq> k"
    then show "?os ! j \<noteq> ?os ! k"
      using down [of j k] down [of k j] pos [of j] pos [of k] by (cases "j < k") auto
  qed
  have len: "length d1 = length ?d" using cp by (simp add: copied_def)
  have keep: "d1 ! x = ?d ! x" if "x \<notin> {cellOffset pg ..< cellFirst pg}" "x \<notin> {?cb ?n ..< ?u}" for x
    using cp that unfolding copied_def by blast
  have "holds pg d1 ?os cs"
    unfolding holds_def
  proof (intro conjI allI impI)
    have "g2 d1 (?h + 3) = g2 ?d (?h + 3)"
      using h top i(4) by (intro g2_cong keep) auto
    then show "g2 d1 (?h + 3) = ?n" using hold by (simp add: holds_def)
  qed (use cp l distinct in \<open>auto simp: copied_def\<close>)
  then have hold2: "holds pg ?d2 ?os cs"
    by (rule holds_cong [of _ _ _ _ _ "?cb ?n"])
      (use top i(4) h cbrk_at_anti [of _ ?n ?u cs] in \<open>auto simp: Suc_le_eq\<close>)
  have packed: "packed pg ?d2 ?os cs (?cb ?n)"
    unfolding packed_def
  proof (intro conjI allI impI)
    show "cellFirst pg \<le> ?cb ?n" "?cb ?n \<le> ?u" using top i(4) cbrk_at_le by auto
    show "unat (?d2 ! (?h + 7)) + ?cb ?n + sum_list (map length cs) = ?u"
      using cbn len h i(1,4,5) by simp
    fix j assume j: "j < ?n"
    show "?cb ?n \<le> ?os ! j" using j cbrk_at_anti [of "Suc j" ?n ?u cs] by simp
    show "?os ! j + length (cs ! j) \<le> ?u" using j cb [OF j] cbrk_at_le [of ?u cs j] by simp
    fix k assume "k < ?n" "j \<noteq> k"
    then show "apart (?os ! j, length (cs ! j)) (?os ! k, length (cs ! k))"
      using j down [of j k] down [of k j] by (cases "j < k") (auto simp: apart_def)
  qed (rule hold2)
  have outer: "outer_same pg ?d ?d2"
    unfolding outer_same_def
  proof (intro conjI allI impI)
    fix x assume x: "x < cellOffset pg \<and> x \<notin> hdr_fields pg \<and> x \<noteq> ?h + 3 \<and> x \<noteq> ?h + 4 \<or> ?u \<le> x"
    then have "x \<noteq> ?h + 7" "x \<notin> {cellOffset pg ..< cellFirst pg}" "x \<notin> {?cb ?n ..< ?u}"
      using top i(4,5) h by (auto simp: hdr_fields_def)
    then show "?d2 ! x = ?d ! x" using keep by simp
  qed (use len in simp)
  have run': "defrag_slow pg temp = defragment_out pg ?d2 (int (?cb ?n))"
  proof -
    have "memread ?d 0 ?u = Some (content ?d 0 ?u)" using i(1) by (simp add: memread_eq)
    moreover have "memwrite temp 0 (content ?d 0 ?u) = Some ?src" using temp lc by (simp only: memwrite_eq add_0)
    moreover have "?n = 0 \<Longrightarrow> d1 = ?d \<and> ?cb ?n = ?u" using run by auto
    ultimately show ?thesis
      using run len h i(1,4,5)
      by (cases "?n = 0") (auto simp: defrag_slow_def get2byte_eq wr8_Some Let_def)
  qed
  show ?thesis
  proof (rule defragment_out_ok [OF packed _ _ _ i(2) h sum(1)])
    show "length ?d2 = length ?d" "?u \<le> length ?d2" using len i(1) by simp_all
    show "4 \<le> length c" if "c \<in> set cs" for c using ok [OF that] by (simp add: cell_ok_def)
    fix d' assume a: "defragment_out pg ?d2 (int (?cb ?n)) = Some (SQLITE_OK, pg\<lparr>aData := d'\<rparr>)"
      "page_inv (pg\<lparr>aData := d'\<rparr>) (extents ?os cs) [] (?cb ?n)" "holds pg d' ?os cs" "outer_same pg ?d2 d'" "d' ! (?h + 7) = ?d2 ! (?h + 7)"
    have "d' ! (?h + 7) = 0" using a(5) len h i(1,4,5) by simp
    then show "defrag_result pg cs 0 (defrag_slow pg temp)"
      unfolding defrag_result_def run' using a(1-4) outer_same_trans [OF outer] by blast
  qed
qed

lemma memmove_eq:
  assumes "dst + n \<le> length d" "src + n \<le> length d"
  obtains d' where "memmove d dst src n = Some d'" "length d' = length d"
    "\<And>x. d' ! x = (if dst \<le> x \<and> x < dst + n then d ! (src + (x - dst)) else d ! x)"
proof
  let ?s = "content d src n"
  have l: "length ?s = n" using assms(2) by (simp add: content_def)
  show "memmove d dst src n = Some (take dst d @ ?s @ drop (dst + length ?s) d)"
    using assms l by (simp add: memmove_def memread_eq memwrite_eq)
  show "length (take dst d @ ?s @ drop (dst + length ?s) d) = length d" using assms l by simp
  fix x
  show "(take dst d @ ?s @ drop (dst + length ?s) d) ! x
      = (if dst \<le> x \<and> x < dst + n then d ! (src + (x - dst)) else d ! x)"
    using nth_memwrite [of dst ?s d x] assms l by (auto simp: content_def)
qed

definition moved :: "nat \<Rightarrow> nat \<Rightarrow> nat \<Rightarrow> nat \<Rightarrow> nat \<Rightarrow> nat" where
  "moved iFree sz iFree2 sz2 pc = (if pc < iFree then pc + sz else if pc < iFree2 then pc + sz2 else pc)"

lemma defrag_fix_run:
  assumes "a + 2 * k \<le> length d" "\<And>j. j < k \<Longrightarrow> moved f z f2 z2 (g2 d (a + 2 * j)) < 65536"
  obtains d' where "defrag_fix k d a f z f2 z2 = Some d'" "length d' = length d"
    "\<And>j. j < k \<Longrightarrow> g2 d' (a + 2 * j) = moved f z f2 z2 (g2 d (a + 2 * j))"
    "\<And>x. x \<notin> {a ..< a + 2 * k} \<Longrightarrow> d' ! x = d ! x"
proof -
  have "\<exists>d'. defrag_fix k d a f z f2 z2 = Some d' \<and> length d' = length d
    \<and> (\<forall>j < k. g2 d' (a + 2 * j) = moved f z f2 z2 (g2 d (a + 2 * j)))
    \<and> (\<forall>x. x \<notin> {a ..< a + 2 * k} \<longrightarrow> d' ! x = d ! x)"
    using assms
  proof (induction k arbitrary: d a)
    case (Suc k)
    define v where "v = moved f z f2 z2 (g2 d a)"
    have v: "v < 65536" using Suc.prems(2) [of 0] by (simp add: v_def)
    have len: "Suc a < length d" using Suc.prems(1) by simp
    define d1 where "d1 = (if g2 d a < f then p2 d a (g2 d a + z)
      else if g2 d a < f2 then p2 d a (g2 d a + z2) else d)"
    have d1: "length d1 = length d" "g2 d1 a = v" "\<And>x. x \<noteq> a \<Longrightarrow> x \<noteq> Suc a \<Longrightarrow> d1 ! x = d ! x"
      using v len by (auto simp: d1_def v_def moved_def g2_p2_same nth_p2)
    have later: "g2 d1 (a + 2 + 2 * j) = g2 d (a + 2 + 2 * j)" for j
      by (intro g2_cong d1(3)) auto
    have "\<exists>d'. defrag_fix k d1 (a + 2) f z f2 z2 = Some d' \<and> length d' = length d1
      \<and> (\<forall>j < k. g2 d' (a + 2 + 2 * j) = moved f z f2 z2 (g2 d1 (a + 2 + 2 * j)))
      \<and> (\<forall>x. x \<notin> {a + 2 ..< a + 2 + 2 * k} \<longrightarrow> d' ! x = d1 ! x)"
    proof (rule Suc.IH)
      show "a + 2 + 2 * k \<le> length d1" using Suc.prems(1) d1(1) by simp
      show "moved f z f2 z2 (g2 d1 (a + 2 + 2 * j)) < 65536" if "j < k" for j
        using Suc.prems(2) [of "Suc j"] that later [of j] by simp
    qed
    then obtain d' where d': "defrag_fix k d1 (a + 2) f z f2 z2 = Some d'" "length d' = length d1"
      "\<forall>j < k. g2 d' (a + 2 + 2 * j) = moved f z f2 z2 (g2 d1 (a + 2 + 2 * j))"
      "\<forall>x. x \<notin> {a + 2 ..< a + 2 + 2 * k} \<longrightarrow> d' ! x = d1 ! x" by blast
    have "defrag_fix (Suc k) d a f z f2 z2 = defrag_fix k d1 (a + 2) f z f2 z2"
      using len by (auto simp: get2byte_eq put2byte_eq d1_def)
    moreover have "g2 d' (a + 2 * j) = moved f z f2 z2 (g2 d (a + 2 * j))" if "j < Suc k" for j
    proof (cases j)
      case 0
      have "g2 d' a = g2 d1 a" using d'(4) by (intro g2_cong) auto
      then show ?thesis using 0 d1(2) by (simp add: v_def)
    next
      case (Suc j')
      then show ?thesis using d'(3) that later [of j'] by simp
    qed
    moreover have "d' ! x = d ! x" if "x \<notin> {a ..< a + 2 * Suc k}" for x
      using that d'(4) d1(3) [of x] by auto
    ultimately show ?case using d'(1,2) d1(1) by auto
  qed simp
  then show thesis using that by blast
qed

lemma fast_packed:
  assumes inv: "page_inv pg (extents os cs) bs ctop" and hold: "holds pg (aData pg) os cs"
    and Z: "Z = sum_list (map snd bs)" and len: "length d' = length (aData pg)"
    and ptr: "\<And>j. j < nCell pg \<Longrightarrow> g2 d' (cellOffset pg + 2 * j) = m (os ! j)"
    and cont: "\<And>j. j < nCell pg \<Longrightarrow> content d' (m (os ! j)) (length (cs ! j)) = cs ! j"
    and low: "\<And>x. x < cellOffset pg \<Longrightarrow> d' ! x = aData pg ! x"
    and rng: "\<And>j. j < nCell pg \<Longrightarrow> ctop + Z \<le> m (os ! j) \<and> m (os ! j) + length (cs ! j) \<le> usableSize pg"
    and ap: "\<And>j k. j < nCell pg \<Longrightarrow> k < nCell pg \<Longrightarrow> os ! j + length (cs ! j) \<le> os ! k \<Longrightarrow>
       m (os ! j) + length (cs ! j) \<le> m (os ! k)"
  shows "packed pg d' (map m os) cs (ctop + Z)"
proof -
  note i = page_invD [OF inv]
  have l: "length os = nCell pg" "length cs = nCell pg" "distinct os" using hold by (simp_all add: holds_def)
  have apart: "apart (m (os ! j), length (cs ! j)) (m (os ! k), length (cs ! k))"
    if "j < nCell pg" "k < nCell pg" "j \<noteq> k" for j k
  proof -
    have "(os ! j, length (cs ! j)) \<noteq> (os ! k, length (cs ! k))"
      using l that by (simp add: nth_eq_iff_index_eq)
    then have "apart (os ! j, length (cs ! j)) (os ! k, length (cs ! k))"
      using i(11) extents_nth [of os "nCell pg" cs] l that by blast
    then show ?thesis using ap [of j k] ap [of k j] that by (auto simp: apart_def)
  qed
  have pos: "4 \<le> length (cs ! j)" if "j < nCell pg" for j by (rule cell_extent(3) [OF inv hold that])
  have "distinct (map m os)"
    unfolding distinct_conv_nth
  proof (intro allI impI)
    fix j k assume "j < length (map m os)" "k < length (map m os)" "j \<noteq> k"
    then show "map m os ! j \<noteq> map m os ! k"
      using apart [of j k] pos [of j] pos [of k] l by (auto simp: apart_def)
  qed
  moreover have "g2 d' (hdrOffset pg + 3) = nCell pg"
  proof -
    have "g2 d' (hdrOffset pg + 3) = g2 (aData pg) (hdrOffset pg + 3)"
      using i(3) by (intro g2_cong low) auto
    then show ?thesis using hold by (simp add: holds_def)
  qed
  ultimately have h: "holds pg d' (map m os) cs" using l ptr cont by (simp add: holds_def)
  have e: "(\<Sum>a\<in>extents os cs. snd a) = sum_list (map length cs)"
    using l by (intro sum_extents) simp_all
  have "unat (aData pg ! (hdrOffset pg + 7)) + ctop + Z + sum_list (map length cs) = usableSize pg"
    using page_counts(1) [OF inv] unfolding Z e .
  moreover have "d' ! (hdrOffset pg + 7) = aData pg ! (hdrOffset pg + 7)"
    using i(3) by (intro low) auto
  ultimately show ?thesis
    using h i(4) rng apart l by (auto simp: packed_def)
qed

lemma fast_out:
  assumes inv: "page_inv pg (extents os cs) bs ctop" and hold: "holds pg (aData pg) os cs"
    and p: "packed pg d' os' cs cb" and ok: "\<And>c. c \<in> set cs \<Longrightarrow> cell_ok pg c"
    and outer: "outer_same pg (aData pg) d'"
  shows "defrag_result pg cs (d' ! (hdrOffset pg + 7)) (defragment_out pg d' (int cb))"
proof -
  note i = page_invD [OF inv]
  have len: "length d' = length (aData pg)" using outer by (simp add: outer_same_def)
  show ?thesis
  proof (rule defragment_out_ok [OF p len _ _ i(2,3) free_of_cells(1) [OF inv hold]])
    show "usableSize pg \<le> length d'" using len i(1) by simp
    show "4 \<le> length c" if "c \<in> set cs" for c using ok [OF that] by (simp add: cell_ok_def)
    fix d'' assume "defragment_out pg d' (int cb) = Some (SQLITE_OK, pg\<lparr>aData := d''\<rparr>)"
      "page_inv (pg\<lparr>aData := d''\<rparr>) (extents os' cs) [] cb" "holds pg d'' os' cs" "outer_same pg d' d''" "d'' ! (hdrOffset pg + 7) = d' ! (hdrOffset pg + 7)"
    then show ?thesis
      unfolding defrag_result_def using outer_same_trans [OF outer] by blast
  qed
qed

lemma defrag_fast_one:
  assumes inv: "page_inv pg (extents os cs) [(f, z)] ctop" and hold: "holds pg (aData pg) os cs"
  obtains d' os' where "defrag_fast pg = Some (Inr (Some (d', ctop + z)))"
    "packed pg d' os' cs (ctop + z)" "outer_same pg (aData pg) d'"
    "d' ! (hdrOffset pg + 7) = aData pg ! (hdrOffset pg + 7)"
proof -
  note i = page_invD [OF inv]
  let ?d = "aData pg" and ?h = "hdrOffset pg" and ?u = "usableSize pg" and ?n = "nCell pg"
  have b: "ctop < f" "4 \<le> z" "f + z \<le> ?u" using i(8) by auto
  have h: "?h + 8 \<le> ctop" using i(3,4) by simp
  have ch: "g2 ?d (?h + 1) = f" "g2 ?d (f + 2) = z" "g2 ?d f = 0" using i(7) by auto
  have top5: "g2 ?d (?h + 5) = ctop" using i(6) b i(2) by simp
  obtain d1 where d1: "memmove ?d (ctop + z) ctop (f - ctop) = Some d1" "length d1 = length ?d"
    "\<And>x. d1 ! x = (if ctop + z \<le> x \<and> x < ctop + z + (f - ctop) then ?d ! (ctop + (x - (ctop + z))) else ?d ! x)"
    by (rule memmove_eq [of "ctop + z" "f - ctop" ?d ctop]) (use b i(1) in auto)
  have l: "length os = ?n" "length cs = ?n" using hold by (simp_all add: holds_def)
  let ?m = "moved f z 0 0"
  have cell: "ctop \<le> os ! j" "os ! j + length (cs ! j) \<le> ?u" "4 \<le> length (cs ! j)"
    "os ! j + length (cs ! j) \<le> f \<or> f + z \<le> os ! j" if "j < ?n" for j
    using cell_extent [OF inv hold that] i(12) [OF extents_nth [OF l that], of "(f, z)"]
    by (auto simp: apart_def)
  have old: "g2 d1 (cellOffset pg + 2 * j) = os ! j" if "j < ?n" for j
  proof -
    have "g2 d1 (cellOffset pg + 2 * j) = g2 ?d (cellOffset pg + 2 * j)"
      using that i(4) b by (intro g2_cong) (simp_all add: d1)
    then show ?thesis using hold that by (simp add: holds_def)
  qed
  obtain d' where d': "defrag_fix ?n d1 (cellOffset pg) f z 0 0 = Some d'" "length d' = length d1"
    "\<And>j. j < ?n \<Longrightarrow> g2 d' (cellOffset pg + 2 * j) = ?m (g2 d1 (cellOffset pg + 2 * j))"
    "\<And>x. x \<notin> {cellOffset pg ..< cellFirst pg} \<Longrightarrow> d' ! x = d1 ! x"
    by (rule defrag_fix_run [of "cellOffset pg" ?n d1 f z 0 0])
      (use i(1,2,4,5) d1(2) old cell b in \<open>auto simp: moved_def\<close>, (fastforce simp: moved_def)?)
  have cont: "content d' (?m (os ! j)) (length (cs ! j)) = cs ! j" if j: "j < ?n" for j
  proof -
    have "content d' (?m (os ! j)) (length (cs ! j)) = content ?d (os ! j) (length (cs ! j))"
    proof (rule content_shift)
      show "length d' = length ?d" using d'(2) d1(2) by simp
      show "os ! j + length (cs ! j) \<le> length ?d" using cell(2) [OF j] i(1) by simp
      show "?m (os ! j) + length (cs ! j) \<le> length ?d"
        using cell [OF j] i(1) b by (auto simp: moved_def)
      fix x assume x: "x < length (cs ! j)"
      have "d' ! (?m (os ! j) + x) = d1 ! (?m (os ! j) + x)"
        using cell [OF j] i(4) by (intro d'(4)) (auto simp: moved_def)
      also have "\<dots> = ?d ! (os ! j + x)"
        using cell [OF j] x b by (auto simp: moved_def d1(3) intro!: arg_cong [where f = "(!) ?d"])
      finally show "d' ! (?m (os ! j) + x) = ?d ! (os ! j + x)" .
    qed
    then show ?thesis using hold j by (simp add: holds_def)
  qed
  have low: "d' ! x = ?d ! x" if "x < cellOffset pg" for x
    using that i(4) by (simp add: d'(4) d1(3))
  have "packed pg d' (map ?m os) cs (ctop + sum_list (map snd [(f, z)]))"
  proof (rule fast_packed [OF inv hold refl])
    show "length d' = length ?d" using d'(2) d1(2) by simp
    show "g2 d' (cellOffset pg + 2 * j) = ?m (os ! j)" if "j < ?n" for j
      using d'(3) [OF that] old [OF that] by simp
    show "ctop + sum_list (map snd [(f, z)]) \<le> ?m (os ! j) \<and> ?m (os ! j) + length (cs ! j) \<le> ?u" if "j < ?n" for j
      using cell [OF that] b by (auto simp: moved_def)
    show "?m (os ! j) + length (cs ! j) \<le> ?m (os ! k)"
      if "j < ?n" "k < ?n" "os ! j + length (cs ! j) \<le> os ! k" for j k
      using cell [OF that(1)] cell [OF that(2)] that(3) b by (auto simp: moved_def)
  qed (use cont low in auto)
  moreover have "outer_same pg ?d d'"
    unfolding outer_same_def using d'(2) d1(2) low d'(4) d1(3) i(4,5) b by auto
  moreover have "defrag_fast pg = Some (Inr (Some (d', ctop + z)))"
  proof -
    have "f \<le> ?u - 4" "0 < length ?d" using b i(1) by linarith+
    then show ?thesis
      using h b i(1) ch(1,3) ch(2) [unfolded add_2_eq_Suc'] top5 d1(1) d'(1)
      by (simp add: defrag_fast_def get2byte_eq rd8_def Let_def)
  qed
  moreover have "d' ! (?h + 7) = ?d ! (?h + 7)" using i(3) by (intro low) simp
  ultimately show thesis using that by simp
qed

lemma defrag_fast_two:
  assumes inv: "page_inv pg (extents os cs) [(f, z1), (f2, z2)] ctop" and hold: "holds pg (aData pg) os cs"
  obtains d' os' where "defrag_fast pg = Some (Inr (Some (d', ctop + (z1 + z2))))"
    "packed pg d' os' cs (ctop + (z1 + z2))" "outer_same pg (aData pg) d'"
    "d' ! (hdrOffset pg + 7) = aData pg ! (hdrOffset pg + 7)"
proof -
  note i = page_invD [OF inv]
  let ?d = "aData pg" and ?h = "hdrOffset pg" and ?u = "usableSize pg" and ?n = "nCell pg"
  have b: "ctop < f" "4 \<le> z1" "f + z1 + 3 < f2" "4 \<le> z2" "f2 + z2 \<le> ?u" using i(8) by auto
  have h: "?h + 8 \<le> ctop" using i(3,4) by simp
  have ch: "g2 ?d (?h + 1) = f" "g2 ?d (f + 2) = z1" "g2 ?d f = f2" "g2 ?d (f2 + 2) = z2" "g2 ?d f2 = 0"
    using i(7) by auto
  have top5: "g2 ?d (?h + 5) = ctop" using i(6) b i(2) by simp
  obtain d0 where d0: "memmove ?d (f + z1 + z2) (f + z1) (f2 - (f + z1)) = Some d0" "length d0 = length ?d"
    "\<And>x. d0 ! x = (if f + z1 + z2 \<le> x \<and> x < f + z1 + z2 + (f2 - (f + z1))
       then ?d ! (f + z1 + (x - (f + z1 + z2))) else ?d ! x)"
    by (rule memmove_eq [of "f + z1 + z2" "f2 - (f + z1)" ?d "f + z1"]) (use b i(1) in auto)
  obtain d1 where d1: "memmove d0 (ctop + (z1 + z2)) ctop (f - ctop) = Some d1" "length d1 = length d0"
    "\<And>x. d1 ! x = (if ctop + (z1 + z2) \<le> x \<and> x < ctop + (z1 + z2) + (f - ctop)
       then d0 ! (ctop + (x - (ctop + (z1 + z2)))) else d0 ! x)"
    by (rule memmove_eq [of "ctop + (z1 + z2)" "f - ctop" d0 ctop]) (use b i(1) d0(2) in auto)
  have l: "length os = ?n" "length cs = ?n" using hold by (simp_all add: holds_def)
  let ?m = "moved f (z1 + z2) f2 z2"
  have cell: "ctop \<le> os ! j" "os ! j + length (cs ! j) \<le> ?u" "4 \<le> length (cs ! j)"
    "os ! j + length (cs ! j) \<le> f \<or> f + z1 \<le> os ! j \<and> os ! j + length (cs ! j) \<le> f2 \<or> f2 + z2 \<le> os ! j"
    if "j < ?n" for j
    using cell_extent [OF inv hold that] i(12) [OF extents_nth [OF l that], of "(f, z1)"]
      i(12) [OF extents_nth [OF l that], of "(f2, z2)"] b
    by (auto simp: apart_def)
  have old: "g2 d1 (cellOffset pg + 2 * j) = os ! j" if "j < ?n" for j
  proof -
    have "g2 d1 (cellOffset pg + 2 * j) = g2 ?d (cellOffset pg + 2 * j)"
      using that i(4) b by (intro g2_cong) (simp_all add: d1 d0)
    then show ?thesis using hold that by (simp add: holds_def)
  qed
  have fit1: "cellOffset pg + 2 * ?n \<le> length d1" using i(1,4,5) d1(2) d0(2) by simp
  have fit2: "?m (g2 d1 (cellOffset pg + 2 * j)) < 65536" if "j < ?n" for j
    using cell [OF that] b i(2) old [OF that] by (auto simp: moved_def)
  obtain d' where d': "defrag_fix ?n d1 (cellOffset pg) f (z1 + z2) f2 z2 = Some d'" "length d' = length d1"
    "\<And>j. j < ?n \<Longrightarrow> g2 d' (cellOffset pg + 2 * j) = ?m (g2 d1 (cellOffset pg + 2 * j))"
    "\<And>x. x \<notin> {cellOffset pg ..< cellFirst pg} \<Longrightarrow> d' ! x = d1 ! x"
    by (rule defrag_fix_run [OF fit1 fit2]) auto
  have cont: "content d' (?m (os ! j)) (length (cs ! j)) = cs ! j" if j: "j < ?n" for j
  proof -
    have "content d' (?m (os ! j)) (length (cs ! j)) = content ?d (os ! j) (length (cs ! j))"
    proof (rule content_shift)
      show "length d' = length ?d" using d'(2) d1(2) d0(2) by simp
      show "os ! j + length (cs ! j) \<le> length ?d" using cell(2) [OF j] i(1) by simp
      show "?m (os ! j) + length (cs ! j) \<le> length ?d"
        using cell [OF j] i(1) b by (auto simp: moved_def)
      fix x assume x: "x < length (cs ! j)"
      have "d' ! (?m (os ! j) + x) = d1 ! (?m (os ! j) + x)"
        using cell [OF j] i(4) by (intro d'(4)) (auto simp: moved_def)
      also have "\<dots> = ?d ! (os ! j + x)"
        using cell [OF j] x b by (auto simp: moved_def d1(3) d0(3) intro!: arg_cong [where f = "(!) ?d"])
      finally show "d' ! (?m (os ! j) + x) = ?d ! (os ! j + x)" .
    qed
    then show ?thesis using hold j by (simp add: holds_def)
  qed
  have low: "d' ! x = ?d ! x" if "x < cellOffset pg" for x
    using that i(4) b by (simp add: d'(4) d1(3) d0(3))
  have "packed pg d' (map ?m os) cs (ctop + sum_list (map snd [(f, z1), (f2, z2)]))"
  proof (rule fast_packed [OF inv hold refl])
    show "length d' = length ?d" using d'(2) d1(2) d0(2) by simp
    show "g2 d' (cellOffset pg + 2 * j) = ?m (os ! j)" if "j < ?n" for j
      using d'(3) [OF that] old [OF that] by simp
    show "ctop + sum_list (map snd [(f, z1), (f2, z2)]) \<le> ?m (os ! j) \<and> ?m (os ! j) + length (cs ! j) \<le> ?u"
      if "j < ?n" for j
      using cell [OF that] b by (auto simp: moved_def)
    show "?m (os ! j) + length (cs ! j) \<le> ?m (os ! k)"
      if "j < ?n" "k < ?n" "os ! j + length (cs ! j) \<le> os ! k" for j k
      using cell [OF that(1)] cell [OF that(2)] that(3) b by (auto simp: moved_def)
  qed (use cont low in auto)
  moreover have "outer_same pg ?d d'"
    unfolding outer_same_def using d'(2) d1(2) d0(2) low d'(4) d1(3) d0(3) i(4,5) b by auto
  moreover have "defrag_fast pg = Some (Inr (Some (d', ctop + (z1 + z2))))"
  proof -
    have "f \<le> ?u - 4" "f2 \<le> ?u - 4" "f + 3 < length ?d" "f2 + 3 < length ?d" using b i(1) by simp_all
    then show ?thesis
      using h b i(1) ch(1,3,5) ch(2,4) [unfolded add_2_eq_Suc'] top5 d0(1) d1(1) d'(1)
      by (simp add: defrag_fast_def get2byte_eq rd8_Some g2_eq_0 Let_def)
  qed
  moreover have "d' ! (?h + 7) = ?d ! (?h + 7)" using i(3) by (intro low) simp
  ultimately show thesis using that by simp
qed

lemma defrag_fast_other:
  assumes inv: "page_inv pg A bs ctop" and n: "length bs = 0 \<or> 3 \<le> length bs"
  shows "defrag_fast pg = Some (Inr None)"
proof -
  note i = page_invD [OF inv]
  let ?d = "aData pg" and ?h = "hdrOffset pg" and ?u = "usableSize pg"
  have h: "?h + 8 \<le> length ?d" using i(1,3,4,5) by simp
  show ?thesis
  proof (cases "bs = []")
    case True
    then have "g2 ?d (?h + 1) = 0" using i(7) by simp
    then show ?thesis using h by (simp add: defrag_fast_def get2byte_eq Let_def)
  next
    case False
    with n obtain f z f2 z2 f3 z3 bs' where bs: "bs = (f, z) # (f2, z2) # (f3, z3) # bs'"
      by (cases bs; cases "tl bs"; cases "tl (tl bs)") auto
    have b: "0 < f" "f \<le> ?u - 4" "0 < f2" "f2 \<le> ?u - 4" "0 < f3" "f + 4 \<le> length ?d" "f2 + 4 \<le> length ?d"
      using i(8) i(1) by (auto simp: bs)
    have ch: "g2 ?d (?h + 1) = f" "g2 ?d f = f2" "g2 ?d f2 = f3" using i(7) by (auto simp: bs)
    have "\<not> (?d ! f2 = 0 \<and> ?d ! Suc f2 = 0)" using ch(3) b(5) g2_eq_0 [of ?d f2] by auto
    then show ?thesis
      using h b ch(1,2) by (auto simp: defrag_fast_def get2byte_eq rd8_Some Let_def)
  qed
qed

lemma defragmentPage_ok:
  assumes inv: "page_inv pg (extents os cs) bs ctop" and hold: "holds pg (aData pg) os cs"
    and ok: "\<And>c. c \<in> set cs \<Longrightarrow> cell_ok pg c" and temp: "usableSize pg \<le> length temp"
  obtains fr where "defrag_result pg cs fr (defragmentPage pg nMaxFrag temp)" "fr = 0 \<or> uint fr \<le> nMaxFrag"
proof -
  note i = page_invD [OF inv]
  let ?fr = "aData pg ! (hdrOffset pg + 7)"
  have rd: "rd8 (aData pg) (hdrOffset pg + 7) = Some ?fr"
    using i(1,3,4,5) by (intro rd8_Some) simp
  note slow = defrag_slow_ok [OF inv hold ok temp]
  show thesis
  proof (cases "uint ?fr \<le> nMaxFrag")
    case False
    then show ?thesis using that [of 0] slow rd by (simp add: defragmentPage_def)
  next
    case fast: True
    consider (one) f z where "bs = [(f, z)]" | (two) f z1 f2 z2 where "bs = [(f, z1), (f2, z2)]"
      | (other) "length bs = 0 \<or> 3 \<le> length bs"
      by (cases bs; cases "tl bs"; cases "tl (tl bs)") auto
    then show ?thesis
    proof cases
      case one
      show ?thesis
        by (rule defrag_fast_one [OF inv [unfolded one] hold], frule fast_out [OF inv hold _ ok])
          (use that [of ?fr] fast rd in \<open>simp_all add: defragmentPage_def\<close>)
    next
      case two
      show ?thesis
        by (rule defrag_fast_two [OF inv [unfolded two] hold], frule fast_out [OF inv hold _ ok])
          (use that [of ?fr] fast rd in \<open>simp_all add: defragmentPage_def\<close>)
    next
      case other
      then show ?thesis
        using that [of 0] slow fast rd defrag_fast_other [OF inv] by (simp add: defragmentPage_def)
    qed
  qed
qed

end
