(* ===== verification/CellListM.thy ===== *)
theory CellListM
  imports DefragM
begin

text \<open>
  A B-tree page as the list of its cells. The relation \<open>page_rep pg cs\<close> says that the bytes of
  \<open>pg\<close> are laid out as the invariant demands and that its pointer array leads to the cells
  \<open>cs\<close>, in order. \<^verbatim>\<open>allocateSpace\<close> finds space whenever the free bytes suffice,
  \<^verbatim>\<open>insertCell\<close> and \<^verbatim>\<open>insertCellFast\<close> insert into the list,
  \<^verbatim>\<open>dropCell\<close> deletes from it, \<^verbatim>\<open>zeroPage\<close> sets up the empty list.
\<close>

section \<open>Allocation on a page that holds cells\<close>

lemma frame_outer: "frame_ok pg ctop A d' \<Longrightarrow> cellFirst pg \<le> ctop \<Longrightarrow> hdrOffset pg + 8 \<le> cellOffset pg \<Longrightarrow>
   ctop \<le> usableSize pg \<Longrightarrow> outer_same pg (aData pg) d'"
  by (fastforce simp: frame_ok_def outer_same_def hdr_fields_def)

lemma holds_frame:
  assumes inv: "page_inv pg (extents os cs) bs ctop" and hold: "holds pg (aData pg) os cs"
    and fr: "frame_ok pg ctop (extents os cs) d'"
  shows "holds pg d' os cs"
proof -
  note i = page_invD [OF inv]
  have len: "length d' = length (aData pg)" using fr by (simp add: frame_ok_def)
  have same: "d' ! x = aData pg ! x" if "x \<notin> hdr_fields pg" "x < ctop \<or> x \<in> cover (extents os cs)" for x
    using fr that unfolding frame_ok_def by auto
  have l: "length os = nCell pg" "length cs = nCell pg" using hold by (simp_all add: holds_def)
  have "g2 d' (cellOffset pg + 2 * j) = g2 (aData pg) (cellOffset pg + 2 * j)" if "j < nCell pg" for j
    using that i(3,4) by (intro g2_cong; intro same) (auto simp: hdr_fields_def)
  moreover have "content d' (os ! j) (length (cs ! j)) = content (aData pg) (os ! j) (length (cs ! j))"
    if j: "j < nCell pg" for j
  proof (rule content_cong [OF len])
    fix x assume x: "os ! j \<le> x" "x < os ! j + length (cs ! j)"
    have "x \<in> cover (extents os cs)"
      using extents_nth [OF l j] x by (force simp: cover_def ext_def)
    then show "d' ! x = aData pg ! x"
      using cell_extent(1) [OF inv hold j] x i(3,4) by (intro same) (auto simp: hdr_fields_def)
  qed
  moreover have "g2 d' (hdrOffset pg + 3) = g2 (aData pg) (hdrOffset pg + 3)"
    using i(3,4) by (intro g2_cong; intro same) (auto simp: hdr_fields_def)
  ultimately show ?thesis using hold by (simp add: holds_def)
qed

text \<open>What \<^verbatim>\<open>allocateSpace\<close> answers: a free extent, the cells kept.\<close>

definition alloc_result :: "MemPage \<Rightarrow> bytes list \<Rightarrow> nat \<Rightarrow> (rc \<times> MemPage \<times> nat) option \<Rightarrow> bool" where
  "alloc_result pg cs nB r \<longleftrightarrow> (\<exists>d' idx os' bs' ctop'. r = Some (SQLITE_OK, pg\<lparr>aData := d'\<rparr>, idx)
     \<and> page_inv (pg\<lparr>aData := d', nFree := nFree pg - int nB\<rparr>) (insert (idx, nB) (extents os' cs)) bs' ctop'
     \<and> holds pg d' os' cs \<and> cellFirst pg + 2 \<le> ctop' \<and> outer_same pg (aData pg) d'
     \<and> (idx, nB) \<notin> extents os' cs)"

lemma page_upd_simps:
  "outer_same (pg\<lparr>aData := d\<rparr>) = outer_same pg" "holds (pg\<lparr>aData := d\<rparr>) = holds pg"
  by (simp_all add: outer_same_def holds_def hdr_fields_def fun_eq_iff)

lemma alloc_result_moved:
  assumes "outer_same pg (aData pg) d1" "alloc_result (pg\<lparr>aData := d1\<rparr>) cs nB r"
  shows "alloc_result pg cs nB r"
proof -
  obtain d' idx os' bs' ctop' where "r = Some (SQLITE_OK, pg\<lparr>aData := d'\<rparr>, idx)"
    "page_inv (pg\<lparr>aData := d', nFree := nFree pg - int nB\<rparr>) (insert (idx, nB) (extents os' cs)) bs' ctop'"
    "holds pg d' os' cs" "cellFirst pg + 2 \<le> ctop'" "outer_same pg d1 d'" "(idx, nB) \<notin> extents os' cs"
    using assms(2) unfolding alloc_result_def by (auto simp: page_upd_simps)
  then show ?thesis
    unfolding alloc_result_def using outer_same_trans [OF assms(1)] by blast
qed

lemma fresh_extent:
  assumes "page_inv pg A bs ctop" "4 \<le> nB"
    and "page_inv (pg\<lparr>aData := d', nFree := nFree pg - int nB\<rparr>) (insert e A) bs' ctop'"
  shows "e \<notin> A"
proof
  assume "e \<in> A"
  then have "insert e A = A" by auto
  then show False
    using page_invD(14) [OF assms(1)] page_invD(14) [OF assms(3)] assms(2) by simp
qed

lemma alloc_gap:
  assumes inv: "page_inv pg (extents os cs) bs ctop" and hold: "holds pg (aData pg) os cs"
    and nB: "4 \<le> nB" "cellFirst pg + 2 + nB \<le> ctop"
  shows "alloc_result pg cs nB (Some (SQLITE_OK, pg\<lparr>aData := p2 (aData pg) (hdrOffset pg + 5) (ctop - nB)\<rparr>, ctop - nB))"
proof -
  let ?d' = "p2 (aData pg) (hdrOffset pg + 5) (ctop - nB)"
  note i = page_invD [OF inv]
  have a: "page_inv (pg\<lparr>aData := ?d', nFree := nFree pg - int nB\<rparr>) (insert (ctop - nB, nB) (extents os cs)) bs (ctop - nB)"
    by (rule gap_alloc [OF inv nB(1) _ refl]) (use nB in simp)
  have fr: "frame_ok pg ctop (extents os cs) ?d'"
    by (auto simp: frame_ok_def nth_p2 hdr_fields_def)
  have "(ctop - nB, nB) \<notin> extents os cs" by (rule fresh_extent [OF inv nB(1) a])
  then show ?thesis
    unfolding alloc_result_def
    using a holds_frame [OF inv hold fr] frame_outer [OF fr i(4,3,5)] nB by fastforce
qed

lemma top_decode:
  fixes c u f t :: nat
  assumes "c \<le> u" "u \<le> 65536" "f \<le> c" "8 \<le> f" "t = c mod 65536"
  shows "(if f > t then 65536 else t) = c \<and> \<not> (f > t \<and> \<not> (t = 0 \<and> u = 65536))
    \<and> \<not> (\<not> f > t \<and> t > u)"
  using assms by (cases "c = 65536") auto

lemma allocateSpace_ok:
  assumes inv: "page_inv pg (extents os cs) bs ctop" and hold: "holds pg (aData pg) os cs"
    and ok: "\<And>c. c \<in> set cs \<Longrightarrow> cell_ok pg c" and temp: "usableSize pg \<le> length temp"
    and nB: "4 \<le> nB" "int nB + 2 \<le> nFree pg"
  shows "alloc_result pg cs nB (allocateSpace pg nB temp)"
proof -
  note i = page_invD [OF inv]
  let ?d = "aData pg" and ?h = "hdrOffset pg" and ?u = "usableSize pg" and ?first = "cellFirst pg"
  have len: "?h + 8 \<le> length ?d" using i(1,3,4,5) by simp
  have uB: "nB \<le> ?u" using nB(2) free_of_cells(1) [OF inv hold] by linarith
  have top5: "g2 ?d (?h + 5) = ctop mod 65536" by (rule i(6))
  have first: "8 \<le> ?first" using i(3) by simp
  have top: "(if ?first > g2 ?d (?h + 5) then 65536 else g2 ?d (?h + 5)) = ctop"
    "\<not> (?first > g2 ?d (?h + 5) \<and> \<not> (g2 ?d (?h + 5) = 0 \<and> ?u = 65536))"
    "\<not> (\<not> ?first > g2 ?d (?h + 5) \<and> g2 ?d (?h + 5) > ?u)"
    using top_decode [OF i(5,2,4) first top5] by blast+
  define after :: "rc \<times> MemPage \<times> nat \<Rightarrow> (rc \<times> MemPage \<times> nat) option"
    where "after = (\<lambda>(rc, pPage, top'). if rc \<noteq> SQLITE_OK then Some (rc, pPage, 0)
           else if top' < nB then None
           else do {
             d \<leftarrow> put2byte (aData pPage) (?h + 5) (top' - nB);
             Some (SQLITE_OK, pPage\<lparr>aData := d\<rparr>, top' - nB) })"
  define rest where "rest = (if ?first + 2 + nB > ctop
              then do {
                (rc, pPage) \<leftarrow> defragmentPage pg (min 4 (nFree pg - (2 + int nB))) temp;
                if rc \<noteq> SQLITE_OK then Some (rc, pPage, 0)
                else do {
                  top' \<leftarrow> get2byteNotZero (aData pPage) (?h + 5);
                  Some (SQLITE_OK, pPage, top') } }
              else Some (SQLITE_OK, pg, ctop)) \<bind> after"
  have fin: "alloc_result pg cs nB rest"
  proof (cases "?first + 2 + nB > ctop")
    case False
    then have "rest = Some (SQLITE_OK, pg\<lparr>aData := p2 ?d (?h + 5) (ctop - nB)\<rparr>, ctop - nB)"
      using len by (simp add: rest_def after_def put2byte_eq)
    then show ?thesis using alloc_gap [OF inv hold nB(1)] False by simp
  next
    case True
    obtain fr where dr: "defrag_result pg cs fr (defragmentPage pg (min 4 (nFree pg - (2 + int nB))) temp)"
      and fr: "fr = 0 \<or> uint fr \<le> min 4 (nFree pg - (2 + int nB))"
      by (rule defragmentPage_ok [OF inv hold ok temp])
    then obtain d1 os1 cb where df: "defragmentPage pg (min 4 (nFree pg - (2 + int nB))) temp = Some (SQLITE_OK, pg\<lparr>aData := d1\<rparr>)"
      and inv1: "page_inv (pg\<lparr>aData := d1\<rparr>) (extents os1 cs) [] cb" and h1: "holds pg d1 os1 cs"
      and o1: "outer_same pg ?d d1" and f1: "d1 ! (?h + 7) = fr"
      unfolding defrag_result_def by blast
    have hold1: "holds (pg\<lparr>aData := d1\<rparr>) (aData (pg\<lparr>aData := d1\<rparr>)) os1 cs" using h1 by (simp add: holds_def)
    have l1: "length d1 = length ?d" using o1 by (simp add: outer_same_def)
    note i1 = page_invD [OF inv1]
    have e: "(\<Sum>a\<in>extents os1 cs. snd a) = sum_list (map length cs)"
      using h1 by (intro sum_extents) (simp_all add: holds_def)
    have "unat fr + cb + sum_list (map length cs) = ?u"
      using page_counts(1) [OF inv1] unfolding e by (simp add: f1)
    moreover have "int (unat fr) \<le> nFree pg - (2 + int nB)"
      using fr nB(2) by auto
    moreover have "nFree pg = int ?u - int ?first - int (sum_list (map length cs))"
      by (rule free_of_cells(1) [OF inv hold])
    ultimately have fits: "?first + 2 + nB \<le> cb" by linarith
    have "g2 d1 (?h + 5) = cb mod 65536" using i1(6) by simp
    then have t1: "get2byteNotZero d1 (?h + 5) = Some cb"
      using len l1 i1(2,5) fits by (cases "cb = 65536") (auto simp: get2byteNotZero_eq)
    have "rest = Some (SQLITE_OK, pg\<lparr>aData := p2 d1 (?h + 5) (cb - nB)\<rparr>, cb - nB)"
      using True len l1 fits by (simp add: rest_def after_def put2byte_eq df t1)
    moreover have "alloc_result (pg\<lparr>aData := d1\<rparr>) cs nB
        (Some (SQLITE_OK, pg\<lparr>aData := p2 d1 (?h + 5) (cb - nB)\<rparr>, cb - nB))"
      using alloc_gap [OF inv1 hold1 nB(1)] fits by simp
    ultimately show ?thesis using alloc_result_moved [OF o1] by simp
  qed
  have bytes: "rd8 ?d (?h + 2) = Some (?d ! (?h + 2))" "rd8 ?d (?h + 1) = Some (?d ! (?h + 1))"
    "get2byte ?d (?h + 5) = Some (g2 ?d (?h + 5))"
    using len by (simp_all add: rd8_Some get2byte_eq)
  have ne: "(?d ! (?h + 2) \<noteq> 0 \<or> ?d ! (?h + 1) \<noteq> 0) \<longleftrightarrow> bs \<noteq> []"
  proof -
    have "g2 ?d (?h + 1) = hdp bs 0" by (rule chain_hd [OF i(7)])
    moreover have "hdp bs 0 = 0 \<longleftrightarrow> bs = []"
      using blocks_okD [OF i(8), of "hd bs"] by (cases bs) auto
    ultimately show ?thesis using g2_eq_0 [of ?d "?h + 1"] by auto
  qed
  define found where "found = (if (?d ! (?h + 2) \<noteq> 0 \<or> ?d ! (?h + 1) \<noteq> 0) \<and> ?first + 2 \<le> ctop
    then pageFindSlot pg nB else Some (SQLITE_OK, pg, None))"
  have run: "allocateSpace pg nB temp = found \<bind> (\<lambda>(rc, pPage, pSpace). case pSpace of
         Some g \<Rightarrow> Some (if g \<le> ?first then SQLITE_CORRUPT else SQLITE_OK, pPage, g)
       | None \<Rightarrow>
         if rc \<noteq> SQLITE_OK then Some (rc, pPage, 0)
         else (if ?first + 2 + nB > ctop
              then do {
                (rc, pPage) \<leftarrow> defragmentPage pPage (min 4 (nFree pPage - (2 + int nB))) temp;
                if rc \<noteq> SQLITE_OK then Some (rc, pPage, 0)
                else do {
                  top' \<leftarrow> get2byteNotZero (aData pPage) (?h + 5);
                  Some (SQLITE_OK, pPage, top') } }
              else Some (SQLITE_OK, pPage, ctop)) \<bind> after)"
    unfolding allocateSpace_def Let_def bytes Option.bind.simps if_not_P [OF top(2)] if_not_P [OF top(3)] top(1)
      found_def after_def by (rule refl)
  show ?thesis
  proof (cases "bs \<noteq> [] \<and> ?first + 2 \<le> ctop")
    case False
    then have "found = Some (SQLITE_OK, pg, None)" using ne by (auto simp: found_def)
    then have "allocateSpace pg nB temp = rest" by (simp add: run rest_def)
    then show ?thesis using fin by simp
  next
    case True
    obtain d' r where fs: "pageFindSlot pg nB = Some (SQLITE_OK, pg\<lparr>aData := d'\<rparr>, r)"
      and sr: "slot_result pg (extents os cs) ctop nB d' r"
      using pageFindSlot_ok [OF inv _ nB(1) uB] True by blast
    have fd: "found = Some (SQLITE_OK, pg\<lparr>aData := d'\<rparr>, r)" using True ne fs by (simp add: found_def)
    show ?thesis
    proof (cases r)
      case None
      then have "pg\<lparr>aData := d'\<rparr> = pg" using sr by (simp add: slot_result_def)
      then have "allocateSpace pg nB temp = rest" using None by (simp add: run fd rest_def)
      then show ?thesis using fin by simp
    next
      case (Some g)
      then have sl: "ctop < g" "frame_ok pg ctop (extents os cs) d'" and
        ex: "\<exists>bs'. page_inv (pg\<lparr>aData := d', nFree := nFree pg - int nB\<rparr>) (insert (g, nB) (extents os cs)) bs' ctop"
        using sr by (auto simp: slot_result_def)
      obtain bs' where a: "page_inv (pg\<lparr>aData := d', nFree := nFree pg - int nB\<rparr>) (insert (g, nB) (extents os cs)) bs' ctop"
        using ex by blast
      have "allocateSpace pg nB temp = Some (SQLITE_OK, pg\<lparr>aData := d'\<rparr>, g)"
        using sl(1) i(4) Some by (simp add: run fd)
      then show ?thesis
        unfolding alloc_result_def
        using a True fresh_extent [OF inv nB(1) a] holds_frame [OF inv hold sl(2)] frame_outer [OF sl(2) i(4,3,5)]
        by fastforce
    qed
  qed
qed

section \<open>Inserting and dropping cells\<close>

text \<open>The page as the sequence of its cells.\<close>

definition page_rep :: "MemPage \<Rightarrow> bytes list \<Rightarrow> bool" where
  "page_rep pg cs \<longleftrightarrow> (\<exists>os bs ctop. page_inv pg (extents os cs) bs ctop \<and> holds pg (aData pg) os cs)
     \<and> (\<forall>c\<in>set cs. cell_ok pg c)
     \<and> aCellIdx pg = cellOffset pg \<and> cellOffset pg = hdrOffset pg + 8 + childPtrSize pg"

definition ins :: "nat \<Rightarrow> 'a \<Rightarrow> 'a list \<Rightarrow> 'a list" where
  "ins i x xs = take i xs @ x # drop i xs"

definition rem_nth :: "nat \<Rightarrow> 'a list \<Rightarrow> 'a list" where
  "rem_nth i xs = take i xs @ drop (Suc i) xs"

lemma nth_ins: "i \<le> length xs \<Longrightarrow> j \<le> length xs \<Longrightarrow>
   ins i x xs ! j = (if j < i then xs ! j else if j = i then x else xs ! (j - 1))"
  by (auto simp: ins_def nth_append min_def nth_Cons' intro!: arg_cong [where f = "(!) xs"])

lemma length_ins [simp]: "length (ins i x xs) = Suc (length xs)"
  by (simp add: ins_def min_def)

lemma set_ins [simp]: "set (ins i x xs) = insert x (set xs)"
  unfolding ins_def by (metis append_take_drop_id list.simps(15) set_append Un_insert_right)

lemma nth_rem: "i < length xs \<Longrightarrow> j < length xs - 1 \<Longrightarrow>
   rem_nth i xs ! j = (if j < i then xs ! j else xs ! Suc j)"
  by (auto simp: rem_nth_def nth_append min_def)

lemma length_rem [simp]: "i < length xs \<Longrightarrow> length (rem_nth i xs) = length xs - 1"
  by (simp add: rem_nth_def min_def)

lemma set_rem_subset: "set (rem_nth i xs) \<subseteq> set xs"
  by (auto simp: rem_nth_def dest: in_set_takeD in_set_dropD)

lemma distinct_rem: "distinct xs \<Longrightarrow> distinct (rem_nth i xs)"
  unfolding rem_nth_def
  by (simp add: set_take_disj_set_drop_if_distinct)

lemma zip_ins: "length xs = length ys \<Longrightarrow> zip (ins i x xs) (ins i y ys) = ins i (x, y) (zip xs ys)"
  by (simp add: ins_def take_zip drop_zip)

lemma zip_rem: "length xs = length ys \<Longrightarrow> zip (rem_nth i xs) (rem_nth i ys) = rem_nth i (zip xs ys)"
  by (simp add: rem_nth_def take_zip drop_zip)

lemma map_ins: "map f (ins i x xs) = ins i (f x) (map f xs)"
  by (simp add: ins_def take_map drop_map)

lemma map_rem: "map f (rem_nth i xs) = rem_nth i (map f xs)"
  by (simp add: rem_nth_def take_map drop_map)

lemma extents_ins: "length os = length cs \<Longrightarrow> extents (ins i x os) (ins i c cs) = insert (x, length c) (extents os cs)"
  by (simp add: extents_def map_ins zip_ins)

lemma set_rem: "i < length xs \<Longrightarrow> distinct xs \<Longrightarrow> set (rem_nth i xs) = set xs - {xs ! i}"
proof -
  assume i: "i < length xs" and d: "distinct xs"
  have x: "xs = take i xs @ xs ! i # drop (Suc i) xs" by (rule id_take_nth_drop [OF i])
  have "distinct (take i xs @ xs ! i # drop (Suc i) xs)" using d x by simp
  then have "xs ! i \<notin> set (take i xs) \<union> set (drop (Suc i) xs)" by auto
  moreover have "set xs = set (take i xs) \<union> insert (xs ! i) (set (drop (Suc i) xs))"
    by (subst x) simp
  ultimately show ?thesis by (auto simp: rem_nth_def)
qed

lemma extents_rem:
  assumes "length os = length cs" "distinct os" "i < length cs"
  shows "extents (rem_nth i os) (rem_nth i cs) = extents os cs - {(os ! i, length (cs ! i))}"
proof -
  have "extents (rem_nth i os) (rem_nth i cs) = set (rem_nth i (zip os (map length cs)))"
    using assms(1) by (simp add: extents_def map_rem zip_rem)
  also have "\<dots> = set (zip os (map length cs)) - {zip os (map length cs) ! i}"
    using assms by (intro set_rem) (simp_all add: distinct_zipI1)
  finally show ?thesis using assms by (simp add: extents_def)
qed

text \<open>Changes that the invariant does not see, and a new number of cells.\<close>

lemma page_inv_update:
  assumes inv: "page_inv pg A bs ctop" and len: "length d' = length (aData pg)"
    and same: "\<And>x. x \<in> hdr_fields pg \<or> x \<in> cover (set bs) \<Longrightarrow> d' ! x = aData pg ! x"
    and k: "cellOffset pg + 2 * k \<le> ctop"
    and f: "f = nFree pg + 2 * int (nCell pg) - 2 * int k"
  shows "page_inv (pg\<lparr>aData := d', nCell := k, nFree := f\<rparr>) A bs ctop"
proof -
  note i = page_invD [OF inv]
  let ?h = "hdrOffset pg" and ?u = "usableSize pg"
  have chain: "chain d' (?h + 1) bs 0"
  proof (rule chain_cong [OF i(7)])
    fix j assume j: "(\<exists>e\<in>set bs. fst e \<le> j \<and> j < fst e + 4) \<or> j = ?h + 1 \<or> j = Suc (?h + 1)"
    have "j \<in> hdr_fields pg \<or> j \<in> cover (set bs)"
      using j blocks_okD [OF i(8)] by (fastforce simp: hdr_fields_def cover_def ext_def)
    then show "d' ! j = aData pg ! j" by (rule same)
  qed
  have top5: "g2 d' (?h + 5) = g2 (aData pg) (?h + 5)"
    by (intro g2_cong; intro same) (auto simp: hdr_fields_def)
  have frag: "d' ! (?h + 7) = aData pg ! (?h + 7)" by (intro same) (auto simp: hdr_fields_def)
  have cov: "cover A \<subseteq> {ctop ..< ?u}" "finite (cover A)"
    using i(10) finite_cover [OF i(9)] by (fastforce simp: cover_def ext_def)+
  have cd: "card ({a ..< ?u} - cover A) = ?u - a - card (cover A)" if "a \<le> ctop" for a
  proof -
    have "cover A \<subseteq> {a ..< ?u}" using cov(1) that by auto
    then show ?thesis using cov(2) by (simp add: card_Diff_subset)
  qed
  have le: "card (cover A) \<le> ?u - ctop" using card_mono [OF _ cov(1)] by simp
  have "f = int (card ({cellOffset pg + 2 * k ..< ?u} - cover A))"
    using f i(4,5,14) k le cd [OF i(4)] cd [OF k] by simp
  then show ?thesis
    unfolding page_inv_def using i(1-3,5,6,8-13) len chain top5 frag k by simp
qed

text \<open>The pointer array and the two-byte count of cells.\<close>

lemma g2_shift: "d' ! i = d ! j \<Longrightarrow> d' ! Suc i = d ! Suc j \<Longrightarrow> g2 d' i = g2 d j"
  by (simp add: g2_def)

lemma insert_pointer_bytes:
  assumes "a + 2 * Suc n \<le> length d" "i \<le> n" "idx < 65536" "\<And>j. j < n \<Longrightarrow> g2 d (a + 2 * j) = os ! j" "length os = n"
  obtains d' where "memmove d (a + 2 * i + 2) (a + 2 * i) (2 * (n - i)) = Some d'"
    "length d' = length d" "\<And>j. j < Suc n \<Longrightarrow> g2 (p2 d' (a + 2 * i) idx) (a + 2 * j) = ins i idx os ! j"
    "\<And>x. x \<notin> {a ..< a + 2 * Suc n} \<Longrightarrow> p2 d' (a + 2 * i) idx ! x = d ! x"
proof -
  obtain d' where d': "memmove d (a + 2 * i + 2) (a + 2 * i) (2 * (n - i)) = Some d'" "length d' = length d"
    "\<And>x. d' ! x = (if a + 2 * i + 2 \<le> x \<and> x < a + 2 * i + 2 + 2 * (n - i)
       then d ! (a + 2 * i + (x - (a + 2 * i + 2))) else d ! x)"
    by (rule memmove_eq [of "a + 2 * i + 2" "2 * (n - i)" d "a + 2 * i"]) (use assms in auto)
  let ?d = "p2 d' (a + 2 * i) idx"
  have "g2 ?d (a + 2 * j) = ins i idx os ! j" if j: "j < Suc n" for j
  proof -
    consider "j < i" | "j = i" | "i < j" by linarith
    then show ?thesis
    proof cases
      case 1
      then have "g2 ?d (a + 2 * j) = g2 d (a + 2 * j)" by (intro g2_cong) (simp_all add: nth_p2 d'(3))
      then show ?thesis using 1 assms(2,4,5) by (simp add: nth_ins)
    next
      case 2
      then show ?thesis using assms d'(2) by (simp add: g2_p2_same nth_ins)
    next
      case 3
      then have "g2 ?d (a + 2 * j) = g2 d (a + 2 * (j - 1))"
        using j assms(2) by (intro g2_shift) (auto simp: nth_p2 d'(3) intro!: arg_cong [where f = "(!) d"])
      then show ?thesis using 3 j assms(2,4,5) by (simp add: nth_ins)
    qed
  qed
  moreover have "?d ! x = d ! x" if "x \<notin> {a ..< a + 2 * Suc n}" for x
    using that assms(2) by (auto simp: nth_p2 d'(3))
  ultimately show thesis using that d'(1,2) by blast
qed

lemma drop_pointer_bytes:
  assumes "a + 2 * n \<le> length d" "i < n" "\<And>j. j < n \<Longrightarrow> g2 d (a + 2 * j) = os ! j" "length os = n"
  obtains d' where "memmove d (a + 2 * i) (a + 2 * i + 2) (2 * (n - 1 - i)) = Some d'"
    "length d' = length d" "\<And>j. j < n - 1 \<Longrightarrow> g2 d' (a + 2 * j) = rem_nth i os ! j"
    "\<And>x. x \<notin> {a ..< a + 2 * n} \<Longrightarrow> d' ! x = d ! x"
proof -
  obtain d' where d': "memmove d (a + 2 * i) (a + 2 * i + 2) (2 * (n - 1 - i)) = Some d'" "length d' = length d"
    "\<And>x. d' ! x = (if a + 2 * i \<le> x \<and> x < a + 2 * i + 2 * (n - 1 - i)
       then d ! (a + 2 * i + 2 + (x - (a + 2 * i))) else d ! x)"
    by (rule memmove_eq [of "a + 2 * i" "2 * (n - 1 - i)" d "a + 2 * i + 2"]) (use assms in auto)
  have "g2 d' (a + 2 * j) = rem_nth i os ! j" if j: "j < n - 1" for j
  proof (cases "j < i")
    case True
    then have "g2 d' (a + 2 * j) = g2 d (a + 2 * j)" by (intro g2_cong) (simp_all add: d'(3))
    then show ?thesis using True assms(2-4) j by (simp add: nth_rem)
  next
    case False
    then have "g2 d' (a + 2 * j) = g2 d (a + 2 * Suc j)"
      using j by (intro g2_shift) (auto simp: d'(3) intro!: arg_cong [where f = "(!) d"])
    moreover have "g2 d (a + 2 * Suc j) = os ! Suc j" using j by (intro assms(3)) simp
    ultimately show ?thesis using False assms(2,4) j by (simp add: nth_rem)
  qed
  moreover have "d' ! x = d ! x" if "x \<notin> {a ..< a + 2 * n}" for x
    using that assms(2) by (auto simp: d'(3))
  ultimately show thesis using that d'(1,2) by blast
qed

lemma page_repD:
  assumes "page_rep pg cs"
  obtains os bs ctop where "page_inv pg (extents os cs) bs ctop" "holds pg (aData pg) os cs"
    "\<And>c. c \<in> set cs \<Longrightarrow> cell_ok pg c" "aCellIdx pg = cellOffset pg"
    "cellOffset pg = hdrOffset pg + 8 + childPtrSize pg" "length cs = nCell pg"
  using assms unfolding page_rep_def holds_def by blast

lemma cell_ok_upd [simp]:
  "cell_ok (pg\<lparr>aData := d\<rparr>) = cell_ok pg" "cell_ok (pg\<lparr>nFree := f\<rparr>) = cell_ok pg"
  "cell_ok (pg\<lparr>nCell := k\<rparr>) = cell_ok pg"
  by (simp_all add: cell_ok_def fun_eq_iff)

text \<open>The increment of the two-byte count, one byte at a time.\<close>

lemma count_up:
  assumes "k < length d" "g2 d i = n" "Suc n < 65536" and k: "k = Suc i"
    and d': "d' = (if d ! k + 1 = 0 then d[k := d ! k + 1, i := d ! i + 1] else d[k := d ! k + 1])"
  shows "g2 d' i = Suc n"
proof -
  have lt: "unat (d ! i) < 256" "unat (d ! Suc i) < 256"
    using unsigned_less [of "d ! i", where 'a = nat] unsigned_less [of "d ! Suc i", where 'a = nat] by simp_all
  have n: "n = 256 * unat (d ! i) + unat (d ! Suc i)" using assms(2) by (simp add: g2_def)
  have z: "d ! Suc i + 1 = 0 \<longleftrightarrow> unat (d ! Suc i) = 255"
  proof -
    have "d ! Suc i + 1 = 0 \<longleftrightarrow> unat (d ! Suc i + 1) = 0" by (simp add: unat_eq_0)
    also have "unat (d ! Suc i + 1) = (unat (d ! Suc i) + 1) mod 256" by (simp add: unat_word_ariths)
    finally show ?thesis using lt(2) by presburger
  qed
  have s: "unat (d ! Suc i + 1) = unat (d ! Suc i) + 1" if "unat (d ! Suc i) \<noteq> 255"
    using that lt(2) by (simp add: unat_word_ariths)
  have t: "unat (d ! i + 1) = unat (d ! i) + 1" if "unat (d ! i) \<noteq> 255"
    using that lt(1) by (simp add: unat_word_ariths)
  show ?thesis
  proof (cases "unat (d ! Suc i) = 255")
    case True
    then have "unat (d ! i) \<noteq> 255" using n assms(3) by auto
    then show ?thesis using True z t n assms(1) by (simp add: d' g2_def k)
  next
    case False
    then show ?thesis using z s n assms(1) by (simp add: d' g2_def k)
  qed
qed

lemma upd_order:
  "(pg :: MemPage)\<lparr>nFree := f, nCell := k, aData := d\<rparr> = pg\<lparr>aData := d, nFree := f, nCell := k\<rparr>"
  by simp

lemma insert_pointer_ok:
  assumes inv: "page_inv pg (insert (idx, length c) (extents os cs)) bs ctop"
    and hold: "holds pg (aData pg) os cs" and cont: "content (aData pg) idx (length c) = c"
    and fresh: "(idx, length c) \<notin> extents os cs" and room: "cellFirst pg + 2 \<le> ctop"
    and i: "i \<le> nCell pg" and c: "0 < length c" and idxs: "aCellIdx pg = cellOffset pg"
  obtains d' where
    "\<And>f. insert_pointer ptrmap (pg\<lparr>nFree := f\<rparr>) i pCell idx = Some
       (if bt_autoVacuum (pBt pg) then ptrmap (pg\<lparr>aData := d', nFree := f, nCell := Suc (nCell pg)\<rparr>) pCell else SQLITE_OK,
        pg\<lparr>aData := d', nFree := f, nCell := Suc (nCell pg)\<rparr>)"
    "page_inv (pg\<lparr>aData := d', nCell := Suc (nCell pg), nFree := nFree pg - 2\<rparr>)
       (extents (ins i idx os) (ins i c cs)) bs ctop"
    "holds (pg\<lparr>nCell := Suc (nCell pg)\<rparr>) d' (ins i idx os) (ins i c cs)"
    "outer_same pg (aData pg) d'"
proof -
  note v = page_invD [OF inv]
  let ?h = "hdrOffset pg" and ?d = "aData pg" and ?n = "nCell pg" and ?co = "cellOffset pg" and ?u = "usableSize pg"
  let ?A = "insert (idx, length c) (extents os cs)"
  have l: "length os = ?n" "length cs = ?n" "distinct os" "g2 ?d (?h + 3) = ?n" using hold by (simp_all add: holds_def)
  have len: "?co + 2 * Suc ?n \<le> length ?d" using room v(1,5) by simp
  have idx: "ctop \<le> idx" "idx + length c \<le> ?u" using v(10) [of "(idx, length c)"] by auto
  have lt: "idx < 65536" using idx c v(2) by linarith
  obtain d1 where mv: "memmove ?d (?co + 2 * i + 2) (?co + 2 * i) (2 * (?n - i)) = Some d1" "length d1 = length ?d"
    and p1: "\<And>j. j < Suc ?n \<Longrightarrow> g2 (p2 d1 (?co + 2 * i) idx) (?co + 2 * j) = ins i idx os ! j"
    and s1: "\<And>x. x \<notin> {?co ..< ?co + 2 * Suc ?n} \<Longrightarrow> p2 d1 (?co + 2 * i) idx ! x = ?d ! x"
    by (rule insert_pointer_bytes [OF len i lt _ l(1)]) (use hold in \<open>auto simp: holds_def\<close>)
  define d2 where "d2 = p2 d1 (?co + 2 * i) idx"
  have d2: "length d2 = length ?d" using mv(2) by (simp add: d2_def)
  define d' where "d' = (if d2 ! (?h + 4) + 1 = 0
     then d2[?h + 4 := d2 ! (?h + 4) + 1, ?h + 3 := d2 ! (?h + 3) + 1]
     else d2[?h + 4 := d2 ! (?h + 4) + 1])"
  have len': "length d' = length ?d" using d2 by (simp add: d'_def)
  have h: "?h + 8 \<le> ?co" by (rule v(3))
  have same2: "d' ! x = d2 ! x" if "x \<noteq> ?h + 3" "x \<noteq> ?h + 4" for x
    using that by (simp add: d'_def)
  have same: "d' ! x = ?d ! x" if "x \<noteq> ?h + 3" "x \<noteq> ?h + 4" "x \<notin> {?co ..< ?co + 2 * Suc ?n}" for x
    using same2 [OF that(1,2)] s1 [OF that(3)] by (simp add: d2_def)
  have "g2 d2 (?h + 3) = g2 ?d (?h + 3)"
    unfolding d2_def using h by (intro g2_cong; intro s1) auto
  then have n2: "g2 d2 (?h + 3) = ?n" using l(4) by simp
  have cnt: "g2 d' (?h + 3) = Suc ?n"
    by (rule count_up [OF _ n2 _ _ d'_def]) (use d2 len h v(2,5) room in auto)
  have run: "insert_pointer ptrmap (pg\<lparr>nFree := f\<rparr>) i pCell idx = Some
       (if bt_autoVacuum (pBt pg) then ptrmap (pg\<lparr>aData := d', nFree := f, nCell := Suc ?n\<rparr>) pCell else SQLITE_OK,
        pg\<lparr>aData := d', nFree := f, nCell := Suc ?n\<rparr>)" for f
  proof -
    have "Suc (?co + 2 * i) < length d1" "?h + 4 < length d2" "?h + 3 < length d2" using len i mv(2) d2 h by auto
    then show ?thesis
      using mv(1) unfolding insert_pointer_def Let_def mult.commute [of i 2]
      by (simp add: idxs upd_order put2byte_eq d2_def [symmetric] rd8_Some wr8_Some d'_def)
  qed
  have pi: "page_inv (pg\<lparr>aData := d', nCell := Suc ?n, nFree := nFree pg - 2\<rparr>) ?A bs ctop"
  proof (rule page_inv_update [OF inv len'])
    fix x assume x: "x \<in> hdr_fields pg \<or> x \<in> cover (set bs)"
    have "x \<in> cover (set bs) \<Longrightarrow> ctop \<le> x"
      using blocks_okD [OF v(8)] by (fastforce simp: cover_def ext_def)
    then show "d' ! x = ?d ! x" using x h room by (intro same) (auto simp: hdr_fields_def)
  qed (use room in auto)
  have ie: "extents (ins i idx os) (ins i c cs) = ?A" using l by (simp add: extents_ins)
  have "distinct (ins i idx os)"
  proof -
    have "idx \<notin> set os"
    proof
      assume "idx \<in> set os"
      then obtain j where j: "j < ?n" "os ! j = idx" using l(1) by (metis in_set_conv_nth)
      have m: "(os ! j, length (cs ! j)) \<in> extents os cs" by (rule extents_nth [OF l(1,2) j(1)])
      then have "apart (os ! j, length (cs ! j)) (idx, length c)"
        using fresh by (intro v(11)) auto
      moreover have "4 \<le> length (cs ! j)" using v(10) [of "(os ! j, length (cs ! j))"] m by auto
      ultimately show False using j(2) c by (auto simp: apart_def)
    qed
    then show ?thesis using l(3) by (auto simp: ins_def set_take_disj_set_drop_if_distinct dest: in_set_takeD in_set_dropD)
  qed
  moreover have "content d' (ins i idx os ! j) (length (ins i c cs ! j)) = ins i c cs ! j" if j: "j < Suc ?n" for j
  proof -
    have low: "x \<noteq> ?h + 3 \<and> x \<noteq> ?h + 4 \<and> x \<notin> {?co ..< ?co + 2 * Suc ?n}" if "ctop \<le> x" for x
      using that h room by auto
    have old: "content d' s k = content ?d s k" if "ctop \<le> s" for s k
      by (rule content_cong [OF len']) (use that low same in auto)
    have "content ?d (os ! m) (length (cs ! m)) = cs ! m" "ctop \<le> os ! m" if "m < ?n" for m
      using hold that v(10) [of "(os ! m, length (cs ! m))"] extents_nth [OF l(1,2) that] by (auto simp: holds_def)
    then show ?thesis using j i l(1,2) old idx(1) cont by (auto simp: nth_ins)
  qed
  moreover have "g2 d' (?co + 2 * j) = ins i idx os ! j" if j: "j < Suc ?n" for j
  proof -
    have "g2 d' (?co + 2 * j) = g2 d2 (?co + 2 * j)" using h by (intro g2_cong; intro same2) auto
    then show ?thesis using p1 [OF j] by (simp add: d2_def)
  qed
  ultimately have hd: "holds (pg\<lparr>nCell := Suc ?n\<rparr>) d' (ins i idx os) (ins i c cs)"
    using l cnt by (simp add: holds_def)
  have "outer_same pg ?d d'"
    unfolding outer_same_def
  proof (intro conjI allI impI)
    fix x assume "x < ?co \<and> x \<notin> hdr_fields pg \<and> x \<noteq> ?h + 3 \<and> x \<noteq> ?h + 4 \<or> ?u \<le> x"
    then show "d' ! x = ?d ! x" using h room v(5) by (intro same) auto
  qed (rule len')
  then show thesis using that run pi hd unfolding ie by blast
qed


lemma insertCell_core:
  assumes rep: "page_rep pg cs" and i: "i \<le> length cs" and c: "cell_ok pg c"
    and al: "alloc_result pg cs (length c) (Some (SQLITE_OK, pg1, idx))"
    and nf: "int (length c) + 2 \<le> nFree pg"
    and d: "d = take idx (aData pg1) @ c @ drop (idx + length c) (aData pg1)"
  obtains d' where
    "insert_pointer ptrmap (pg1\<lparr>nFree := nFree pg1 - int ((2 + length c) mod 65536), aData := d\<rparr>) i pCell idx
     = Some (if bt_autoVacuum (pBt pg)
         then ptrmap (pg\<lparr>aData := d', nFree := nFree pg - 2 - int (length c), nCell := Suc (nCell pg)\<rparr>) pCell
         else SQLITE_OK,
         pg\<lparr>aData := d', nFree := nFree pg - 2 - int (length c), nCell := Suc (nCell pg)\<rparr>)"
    "page_rep (pg\<lparr>aData := d', nFree := nFree pg - 2 - int (length c), nCell := Suc (nCell pg)\<rparr>) (ins i c cs)"
    "outer_same pg (aData pg) d'"
proof -
  let ?k = "length c"
  obtain d1 os bs ctop where pg1: "pg1 = pg\<lparr>aData := d1\<rparr>"
    and inv: "page_inv (pg\<lparr>aData := d1, nFree := nFree pg - int ?k\<rparr>) (insert (idx, ?k) (extents os cs)) bs ctop"
    and hold: "holds pg d1 os cs" and room: "cellFirst pg + 2 \<le> ctop" and o1: "outer_same pg (aData pg) d1"
    and fresh: "(idx, ?k) \<notin> extents os cs"
    using al unfolding alloc_result_def by auto
  obtain os0 bs0 ctop0 where r: "page_inv pg (extents os0 cs) bs0 ctop0" "holds pg (aData pg) os0 cs"
    "\<And>c. c \<in> set cs \<Longrightarrow> cell_ok pg c" "aCellIdx pg = cellOffset pg"
    "cellOffset pg = hdrOffset pg + 8 + childPtrSize pg" "length cs = nCell pg"
    by (rule page_repD [OF rep]) auto
  have k: "4 \<le> ?k" "?k < 65536" using c by (simp_all add: cell_ok_def)
  have "2 + ?k < 65536"
    using free_of_cells(1) [OF r(1,2)] nf page_invD(2,3) [OF r(1)] by linarith
  then have k2: "(2 + ?k) mod 65536 = 2 + ?k" by simp
  have vl: "usableSize pg \<le> length d1" and vh: "hdrOffset pg + 8 \<le> cellOffset pg"
    using page_invD(1,3) [OF inv] by simp_all
  have idx: "ctop \<le> idx" "idx + ?k \<le> usableSize pg"
    using page_invD(10) [OF inv, of "(idx, ?k)"] by simp_all
  have fit: "idx + ?k \<le> length d1" using idx vl by simp
  have d: "d = take idx d1 @ c @ drop (idx + ?k) d1" by (simp add: d pg1)
  have len: "length d = length d1" using fit by (simp add: d)
  have nth: "d ! x = d1 ! x" if "x \<notin> ext (idx, ?k)" for x
    using nth_memwrite [OF fit, of x] that by (auto simp: d ext_def)
  let ?p = "pg\<lparr>aData := d, nFree := nFree pg - int ?k\<rparr>"
  have inv': "page_inv ?p (insert (idx, ?k) (extents os cs)) bs ctop"
  proof -
    have "page_inv (pg\<lparr>aData := d1, nFree := nFree pg - int ?k\<rparr>\<lparr>aData := d, nCell := nCell pg,
        nFree := nFree pg - int ?k\<rparr>) (insert (idx, ?k) (extents os cs)) bs ctop"
    proof (rule page_inv_update [OF inv])
      fix x assume x: "x \<in> hdr_fields (pg\<lparr>aData := d1, nFree := nFree pg - int ?k\<rparr>) \<or> x \<in> cover (set bs)"
      have "x \<in> cover (set bs) \<Longrightarrow> x \<notin> ext (idx, ?k)"
        using apart_disj [OF page_invD(12) [OF inv, of "(idx, ?k)"]] by (auto simp: cover_def)
      moreover have "x \<in> hdr_fields pg \<Longrightarrow> x \<notin> ext (idx, ?k)"
        using idx vh room by (auto simp: hdr_fields_def ext_def)
      ultimately show "d ! x = aData (pg\<lparr>aData := d1, nFree := nFree pg - int ?k\<rparr>) ! x"
        using x nth by (auto simp: hdr_fields_def)
    qed (use len room in auto)
    then show ?thesis by simp
  qed
  have hold': "holds ?p (aData ?p) os cs"
  proof -
    have "content d (os ! j) (length (cs ! j)) = cs ! j" if j: "j < nCell pg" for j
    proof -
      have m: "(os ! j, length (cs ! j)) \<in> extents os cs"
        using hold j by (intro extents_nth) (auto simp: holds_def)
      then have "apart (os ! j, length (cs ! j)) (idx, ?k)"
        using fresh by (intro page_invD(11) [OF inv]) auto
      then have "x \<notin> ext (idx, ?k)" if "os ! j \<le> x" "x < os ! j + length (cs ! j)" for x
        using that by (auto simp: apart_def ext_def)
      then have "content d (os ! j) (length (cs ! j)) = content d1 (os ! j) (length (cs ! j))"
        using nth by (intro content_cong [OF len]) auto
      then show ?thesis using hold j by (simp add: holds_def)
    qed
    moreover have "g2 d y = g2 d1 y" if "y + 1 < cellFirst pg" for y
      using that idx room by (intro g2_cong; intro nth) (auto simp: ext_def)
    ultimately show ?thesis using hold vh by (simp add: holds_def)
  qed
  have cont: "content (aData ?p) idx ?k = c" using content_memwrite [OF fit] by (simp add: d)
  have room': "cellFirst ?p + 2 \<le> ctop" "i \<le> nCell ?p" "aCellIdx ?p = cellOffset ?p"
    using room i r(4,6) by simp_all
  have pos: "0 < ?k" using k(1) by linarith
  obtain d' where run: "\<And>f. insert_pointer ptrmap (?p\<lparr>nFree := f\<rparr>) i pCell idx = Some
       (if bt_autoVacuum (pBt ?p) then ptrmap (?p\<lparr>aData := d', nFree := f, nCell := Suc (nCell ?p)\<rparr>) pCell else SQLITE_OK,
        ?p\<lparr>aData := d', nFree := f, nCell := Suc (nCell ?p)\<rparr>)"
    and i2: "page_inv (?p\<lparr>aData := d', nCell := Suc (nCell ?p), nFree := nFree ?p - 2\<rparr>)
       (extents (ins i idx os) (ins i c cs)) bs ctop"
    and h2: "holds (?p\<lparr>nCell := Suc (nCell ?p)\<rparr>) d' (ins i idx os) (ins i c cs)"
    and o2: "outer_same ?p (aData ?p) d'"
    using insert_pointer_ok [OF inv' hold' cont fresh room'(1,2) pos room'(3), of ptrmap pCell thesis] by blast
  let ?q = "pg\<lparr>aData := d', nFree := nFree pg - 2 - int ?k, nCell := Suc (nCell pg)\<rparr>"
  have e: "nFree pg - int (2 + ?k) = nFree pg - 2 - int ?k" by simp
  have "insert_pointer ptrmap (pg1\<lparr>nFree := nFree pg1 - int ((2 + ?k) mod 65536), aData := d\<rparr>) i pCell idx
     = Some (if bt_autoVacuum (pBt pg) then ptrmap ?q pCell else SQLITE_OK, ?q)"
  proof -
    have p1: "pg1\<lparr>nFree := nFree pg1 - int ((2 + ?k) mod 65536), aData := d\<rparr>
        = ?p\<lparr>nFree := nFree pg - 2 - int ?k\<rparr>"
      unfolding k2 pg1 by simp
    have p2: "?p\<lparr>aData := d', nFree := nFree pg - 2 - int ?k, nCell := Suc (nCell ?p)\<rparr> = ?q" "pBt ?p = pBt pg"
      by simp_all
    show ?thesis unfolding p1 run p2 by (rule refl)
  qed
  moreover have "page_rep ?q (ins i c cs)"
    unfolding page_rep_def
  proof (intro conjI exI)
    have q: "?p\<lparr>aData := d', nCell := Suc (nCell ?p), nFree := nFree ?p - 2\<rparr> = ?q" by simp
    show "page_inv ?q (extents (ins i idx os) (ins i c cs)) bs ctop" using i2 unfolding q .
    show "holds ?q (aData ?q) (ins i idx os) (ins i c cs)" using h2 by (simp add: holds_def)
  qed (use r(3-5) c in auto)
  moreover have "outer_same pg (aData pg) d'"
  proof (rule outer_same_trans [OF o1], rule outer_same_trans)
    show "outer_same pg d d'" using o2 by (simp add: outer_same_def hdr_fields_def)
    show "outer_same pg d1 d"
      unfolding outer_same_def
    proof (intro conjI allI impI)
      fix x assume "x < cellOffset pg \<and> x \<notin> hdr_fields pg \<and> x \<noteq> hdrOffset pg + 3 \<and> x \<noteq> hdrOffset pg + 4
        \<or> usableSize pg \<le> x"
      then show "d ! x = d1 ! x" using idx room by (intro nth) (auto simp: ext_def)
    qed (rule len)
  qed
  ultimately show thesis by (rule that)
qed

definition with_cells :: "MemPage \<Rightarrow> bytes \<Rightarrow> int \<Rightarrow> nat \<Rightarrow> MemPage" where
  "with_cells pg d f k = pg\<lparr>aData := d, nFree := f, nCell := k\<rparr>"

lemma alloc_for_insert:
  assumes "page_rep pg cs" "4 \<le> k" "int k + 2 \<le> nFree pg" "usableSize pg \<le> length temp"
  obtains d1 idx where "allocateSpace pg k temp = Some (SQLITE_OK, pg\<lparr>aData := d1\<rparr>, idx)"
    "alloc_result pg cs k (Some (SQLITE_OK, pg\<lparr>aData := d1\<rparr>, idx))" "idx + k \<le> length d1"
proof -
  obtain os bs ctop where r: "page_inv pg (extents os cs) bs ctop" "holds pg (aData pg) os cs"
    "\<And>c. c \<in> set cs \<Longrightarrow> cell_ok pg c"
    by (rule page_repD [OF assms(1)]) auto
  have ar: "alloc_result pg cs k (allocateSpace pg k temp)"
    by (rule allocateSpace_ok [OF r(1,2) _ assms(4,2,3)]) (rule r(3))
  then obtain d1 idx os' bs' ctop' where a: "allocateSpace pg k temp = Some (SQLITE_OK, pg\<lparr>aData := d1\<rparr>, idx)"
    "page_inv (pg\<lparr>aData := d1, nFree := nFree pg - int k\<rparr>) (insert (idx, k) (extents os' cs)) bs' ctop'"
    unfolding alloc_result_def by blast
  have "idx + k \<le> usableSize pg" "usableSize pg \<le> length d1"
    using page_invD(10) [OF a(2), of "(idx, k)"] page_invD(1) [OF a(2)] by simp_all
  then show thesis using that a(1) ar by simp
qed

lemma insertCellFast_ok:
  assumes rep: "page_rep pg cs" and i: "i \<le> length cs" and c: "cell_ok pg (take sz pCell)"
    and sz: "sz \<le> length pCell" and fits: "int sz + 2 \<le> nFree pg" and temp: "usableSize pg \<le> length temp"
    and pw: "sqlite3PagerWrite pg = SQLITE_OK"
  obtains d' where
    "insertCellFast sqlite3PagerWrite ptrmap temp pg i pCell sz
     = Some (if bt_autoVacuum (pBt pg) then ptrmap (with_cells pg d' (nFree pg - 2 - int sz) (Suc (nCell pg))) pCell
         else SQLITE_OK, with_cells pg d' (nFree pg - 2 - int sz) (Suc (nCell pg)))"
    "page_rep (with_cells pg d' (nFree pg - 2 - int sz) (Suc (nCell pg))) (ins i (take sz pCell) cs)"
    "outer_same pg (aData pg) d'"
proof -
  let ?c = "take sz pCell"
  have l: "length ?c = sz" using sz by simp
  have k: "4 \<le> sz" using c l by (simp add: cell_ok_def)
  obtain d1 idx where a: "allocateSpace pg sz temp = Some (SQLITE_OK, pg\<lparr>aData := d1\<rparr>, idx)"
    "alloc_result pg cs sz (Some (SQLITE_OK, pg\<lparr>aData := d1\<rparr>, idx))" "idx + sz \<le> length d1"
    by (rule alloc_for_insert [OF rep k fits temp])
  let ?d = "take idx (aData (pg\<lparr>aData := d1\<rparr>)) @ ?c @ drop (idx + length ?c) (aData (pg\<lparr>aData := d1\<rparr>))"
  let ?q = "\<lambda>d'. pg\<lparr>aData := d', nFree := nFree pg - 2 - int (length ?c), nCell := Suc (nCell pg)\<rparr>"
  have al: "alloc_result pg cs (length ?c) (Some (SQLITE_OK, pg\<lparr>aData := d1\<rparr>, idx))"
    by (subst l) (rule a(2))
  have nf: "int (length ?c) + 2 \<le> nFree pg" by (subst l) (rule fits)
  obtain d' where d': "insert_pointer ptrmap (pg\<lparr>aData := d1\<rparr>\<lparr>nFree := nFree (pg\<lparr>aData := d1\<rparr>) - int ((2 + length ?c) mod 65536),
        aData := ?d\<rparr>) i pCell idx
      = Some (if bt_autoVacuum (pBt pg) then ptrmap (?q d') pCell else SQLITE_OK, ?q d')"
    "page_rep (?q d') (ins i ?c cs)" "outer_same pg (aData pg) d'"
    using insertCell_core [OF rep i c al nf refl, of ptrmap pCell thesis] by blast
  have "memread pCell 0 sz = Some ?c" using sz by (simp add: memread_def)
  moreover have "memwrite d1 idx ?c = Some ?d" using a(3) l by (simp add: memwrite_def)
  moreover have "\<not> int sz + 2 > nFree pg" using fits by simp
  moreover have "pg\<lparr>aData := d1\<rparr>\<lparr>nFree := nFree (pg\<lparr>aData := d1\<rparr>) - int ((2 + length ?c) mod 65536), aData := ?d\<rparr>
      = pg\<lparr>aData := d1\<rparr>\<lparr>nFree := nFree (pg\<lparr>aData := d1\<rparr>) - int ((2 + sz) mod 65536)\<rparr>\<lparr>aData := ?d\<rparr>"
    unfolding l by simp
  ultimately have "insertCellFast sqlite3PagerWrite ptrmap temp pg i pCell sz
      = insert_pointer ptrmap (pg\<lparr>aData := d1\<rparr>\<lparr>nFree := nFree (pg\<lparr>aData := d1\<rparr>) - int ((2 + length ?c) mod 65536),
        aData := ?d\<rparr>) i pCell idx"
    unfolding insertCellFast_def Let_def by (simp add: pw a(1))
  then show thesis
    using that [of d'] d' unfolding with_cells_def l by simp
qed

lemma write_child:
  assumes "idx + (4 + length s) \<le> length d" "length h = 4"
  shows "memwrite d (idx + 4) s \<bind> (\<lambda>d. memwrite d idx h)
    = Some (take idx d @ (h @ s) @ drop (idx + length (h @ s)) d)"
proof -
  have m: "idx \<le> length d" "idx + 4 \<le> length d" using assms by simp_all
  have "memwrite d (idx + 4) s = Some (take (idx + 4) d @ s @ drop (idx + 4 + length s) d)"
    using assms by (simp add: memwrite_def)
  moreover have "take idx (take (idx + 4) d @ s @ drop (idx + 4 + length s) d) = take idx d"
    using m by (simp add: min_def)
  moreover have "drop (idx + 4) (take (idx + 4) d @ s @ drop (idx + 4 + length s) d) = s @ drop (idx + 4 + length s) d"
    using m by simp
  ultimately show ?thesis using assms m by (simp add: memwrite_def add.assoc)
qed

lemma insertCell_ok:
  assumes rep: "page_rep pg cs" and i: "i \<le> length cs" and sz: "4 \<le> sz" "sz \<le> length pCell"
    and c: "cell_ok pg (sqlite3Put4byte iChild @ drop 4 (take sz pCell))" and ov: "nOverflow pg = 0"
    and fits: "int sz + 2 \<le> nFree pg" and temp: "usableSize pg \<le> length temp"
    and pw: "sqlite3PagerWrite pg = SQLITE_OK"
  obtains d' where
    "insertCell sqlite3PagerWrite ptrmap temp pg i pCell sz pTemp iChild
     = Some (if bt_autoVacuum (pBt pg) then ptrmap (with_cells pg d' (nFree pg - 2 - int sz) (Suc (nCell pg))) pCell
         else SQLITE_OK, with_cells pg d' (nFree pg - 2 - int sz) (Suc (nCell pg)))"
    "page_rep (with_cells pg d' (nFree pg - 2 - int sz) (Suc (nCell pg)))
       (ins i (sqlite3Put4byte iChild @ drop 4 (take sz pCell)) cs)"
    "outer_same pg (aData pg) d'"
proof -
  let ?s = "drop 4 (take sz pCell)" and ?h = "sqlite3Put4byte iChild"
  let ?c = "?h @ ?s"
  have h4: "length ?h = 4" by (simp add: sqlite3Put4byte_def)
  have l: "length ?c = sz" "length ?s = sz - 4" using sz h4 by simp_all
  obtain d1 idx where a: "allocateSpace pg sz temp = Some (SQLITE_OK, pg\<lparr>aData := d1\<rparr>, idx)"
    "alloc_result pg cs sz (Some (SQLITE_OK, pg\<lparr>aData := d1\<rparr>, idx))" "idx + sz \<le> length d1"
    by (rule alloc_for_insert [OF rep sz(1) fits temp])
  let ?d = "take idx (aData (pg\<lparr>aData := d1\<rparr>)) @ ?c @ drop (idx + length ?c) (aData (pg\<lparr>aData := d1\<rparr>))"
  let ?q = "\<lambda>d'. pg\<lparr>aData := d', nFree := nFree pg - 2 - int (length ?c), nCell := Suc (nCell pg)\<rparr>"
  have al: "alloc_result pg cs (length ?c) (Some (SQLITE_OK, pg\<lparr>aData := d1\<rparr>, idx))"
    by (subst l(1)) (rule a(2))
  have nf: "int (length ?c) + 2 \<le> nFree pg" by (subst l(1)) (rule fits)
  obtain d' where d': "insert_pointer ptrmap (pg\<lparr>aData := d1\<rparr>\<lparr>nFree := nFree (pg\<lparr>aData := d1\<rparr>) - int ((2 + length ?c) mod 65536),
        aData := ?d\<rparr>) i pCell idx
      = Some (if bt_autoVacuum (pBt pg) then ptrmap (?q d') pCell else SQLITE_OK, ?q d')"
    "page_rep (?q d') (ins i ?c cs)" "outer_same pg (aData pg) d'"
    using insertCell_core [OF rep i c al nf refl, of ptrmap pCell thesis] by blast
  have "memread pCell 4 (sz - 4) = Some ?s" using sz by (simp add: memread_def drop_take)
  moreover have "memwrite d1 (idx + 4) ?s \<bind> (\<lambda>d. memwrite d idx ?h) = Some ?d"
    using write_child [OF _ h4, of idx ?s d1] a(3) l(2) sz by simp
  then obtain d0 where "memwrite d1 (idx + 4) ?s = Some d0" "memwrite d0 idx ?h = Some ?d"
    by (auto simp: bind_eq_Some_conv)
  moreover have "\<not> (nOverflow pg \<noteq> 0 \<or> int sz + 2 > nFree pg)" using fits ov by simp
  moreover have "pg\<lparr>aData := d1\<rparr>\<lparr>nFree := nFree (pg\<lparr>aData := d1\<rparr>) - int ((2 + length ?c) mod 65536), aData := ?d\<rparr>
      = pg\<lparr>aData := d1\<rparr>\<lparr>nFree := nFree (pg\<lparr>aData := d1\<rparr>) - int ((2 + sz) mod 65536)\<rparr>\<lparr>aData := ?d\<rparr>"
    unfolding l(1) by simp
  ultimately have "insertCell sqlite3PagerWrite ptrmap temp pg i pCell sz pTemp iChild
      = insert_pointer ptrmap (pg\<lparr>aData := d1\<rparr>\<lparr>nFree := nFree (pg\<lparr>aData := d1\<rparr>) - int ((2 + length ?c) mod 65536),
        aData := ?d\<rparr>) i pCell idx"
    unfolding insertCell_def Let_def by (simp add: pw a(1))
  then show thesis
    using that [of d'] d' unfolding with_cells_def l(1) by simp
qed

text \<open>A cell that does not fit is recorded, not written.\<close>

lemma insertCellFast_overflow:
  assumes "nFree pg < int sz + 2" "nOverflow pg < 3"
  shows "insertCellFast pw ptrmap temp pg i pCell sz
    = Some (SQLITE_OK, pg\<lparr>nOverflow := nOverflow pg + 1, apOvfl := (apOvfl pg)[nOverflow pg := pCell],
        aiOvfl := (aiOvfl pg)[nOverflow pg := i mod 65536]\<rparr>)"
  using assms by (simp add: insertCellFast_def add_overflow_def Let_def)

lemma empty_page:
  assumes "usableSize pg \<le> length (aData pg)" "usableSize pg \<le> 65536" "cellOffset pg \<le> usableSize pg"
    "cellOffset pg = hdrOffset pg + 8 + childPtrSize pg" "aCellIdx pg = cellOffset pg" "nCell pg = 0"
    "g2 (aData pg) (hdrOffset pg + 1) = 0" "g2 (aData pg) (hdrOffset pg + 3) = 0"
    "g2 (aData pg) (hdrOffset pg + 5) = usableSize pg mod 65536" "aData pg ! (hdrOffset pg + 7) = 0"
    "nFree pg = int (usableSize pg) - int (cellOffset pg)"
  shows "page_rep pg []"
proof -
  have "page_inv pg (extents [] []) [] (usableSize pg)"
    unfolding page_inv_def using assms by (simp add: extents_def)
  moreover have "holds pg (aData pg) [] []" using assms by (simp add: holds_def)
  ultimately show ?thesis unfolding page_rep_def using assms(4,5) by (metis empty_iff list.set(1))
qed

text \<open>The header of an empty page, as \<^verbatim>\<open>dropCell\<close> and \<^verbatim>\<open>zeroPage\<close> write it.\<close>

lemma clear_header:
  assumes "h + 8 \<le> length d"
  obtains d' where "memset d (h + 1) 0 4 \<bind> (\<lambda>d. wr8 d (h + 7) 0 \<bind> (\<lambda>d. put2byte d (h + 5) u)) = Some d'"
    "length d' = length d" "g2 d' (h + 1) = 0" "g2 d' (h + 3) = 0" "g2 d' (h + 5) = u mod 65536"
    "d' ! (h + 7) = 0" "\<And>x. x \<notin> {h + 1 ..< h + 8} \<Longrightarrow> d' ! x = d ! x"
proof -
  define d1 where "d1 = take (h + 1) d @ replicate 4 0 @ drop (h + 1 + 4) d"
  define d2 where "d2 = d1[h + 7 := 0]"
  define d' where "d' = p2 d2 (h + 5) u"
  have l: "length d1 = length d" "length d2 = length d" "length d' = length d"
    using assms by (simp_all add: d1_def d2_def d'_def)
  have n1: "d1 ! x = (if h + 1 \<le> x \<and> x < h + 5 then 0 else d ! x)" for x
  proof (cases "x < length d")
    case True
    then show ?thesis using nth_memset [of "h + 1" 4 d x 0] assms by (simp add: d1_def)
  next
    case False
    have "length (replicate 4 (0::u8)) = 4" by simp
    then show ?thesis using nth_memwrite [of "h + 1" "replicate 4 0" d x] assms False
      by (simp add: d1_def)
  qed
  have n': "d' ! x = (if h + 1 \<le> x \<and> x < h + 5 then 0 else if x = h + 7 then 0 else d ! x)"
    if "x \<noteq> h + 5" "x \<noteq> h + 6" for x
    using that l n1 assms by (auto simp: d'_def nth_p2 d2_def nth_list_update)
  have "memset d (h + 1) 0 4 = Some d1" using assms by (simp add: memset_def d1_def)
  moreover have "wr8 d1 (h + 7) 0 = Some d2" using assms l by (simp add: wr8_Some d2_def)
  moreover have "put2byte d2 (h + 5) u = Some d'" using assms l by (simp add: put2byte_eq d'_def)
  moreover have "g2 d' (h + 1) = 0" "g2 d' (h + 3) = 0" by (simp_all add: g2_eq_0 n')
  moreover have "g2 d' (h + 5) = u mod 65536" unfolding d'_def using assms l by (simp add: g2_p2_same)
  moreover have "d' ! (h + 7) = 0" by (simp add: n')
  moreover have "d' ! x = d ! x" if "x \<notin> {h + 1 ..< h + 8}" for x
    using that by (subst n') auto
  ultimately show thesis using that l(3) by simp
qed

lemma dropCell_last:
  assumes len: "hdrOffset pg + 8 \<le> length d" and u: "usableSize pg \<le> length d" "usableSize pg \<le> 65536"
    and o: "cellOffset pg \<le> usableSize pg" "cellOffset pg = hdrOffset pg + 8 + childPtrSize pg"
    "aCellIdx pg = cellOffset pg"
  obtains d' where
    "memset d (hdrOffset pg + 1) 0 4 \<bind> (\<lambda>d. wr8 d (hdrOffset pg + 7) 0 \<bind>
       (\<lambda>d. put2byte d (hdrOffset pg + 5) (usableSize pg))) = Some d'"
    "page_rep (pg\<lparr>aData := d', nCell := 0,
        nFree := int (usableSize pg) - int (hdrOffset pg) - int (childPtrSize pg) - 8\<rparr>) []"
    "outer_same pg d d'"
proof -
  obtain d' where d': "memset d (hdrOffset pg + 1) 0 4 \<bind> (\<lambda>d. wr8 d (hdrOffset pg + 7) 0 \<bind>
       (\<lambda>d. put2byte d (hdrOffset pg + 5) (usableSize pg))) = Some d'"
    "length d' = length d" "g2 d' (hdrOffset pg + 1) = 0" "g2 d' (hdrOffset pg + 3) = 0"
    "g2 d' (hdrOffset pg + 5) = usableSize pg mod 65536"
    "d' ! (hdrOffset pg + 7) = 0" "\<And>x. x \<notin> {hdrOffset pg + 1 ..< hdrOffset pg + 8} \<Longrightarrow> d' ! x = d ! x"
    by (rule clear_header [OF len]) auto
  have "page_rep (pg\<lparr>aData := d', nCell := 0,
        nFree := int (usableSize pg) - int (hdrOffset pg) - int (childPtrSize pg) - 8\<rparr>) []"
    by (rule empty_page) (use d' u o in auto)
  moreover have "outer_same pg d d'"
    using d'(2,7) o by (fastforce simp: outer_same_def hdr_fields_def)
  ultimately show thesis using that d'(1) by blast
qed

lemma count_rem:
  assumes inv: "page_inv pg (extents os cs) bs ctop" and hold: "holds pg d os cs" and i: "i < length cs"
    and len: "length d' = length d"
    and cnt: "g2 d' (hdrOffset pg + 3) = length cs - 1"
    and ptr: "\<And>j. j < length cs - 1 \<Longrightarrow> g2 d' (cellOffset pg + 2 * j) = rem_nth i os ! j"
    and same: "\<And>x. x \<in> cover (extents os cs - {(os ! i, length (cs ! i))}) \<Longrightarrow> d' ! x = d ! x"
  shows "holds (pg\<lparr>nCell := length cs - 1\<rparr>) d' (rem_nth i os) (rem_nth i cs)"
proof -
  have l: "length os = nCell pg" "length cs = nCell pg" "distinct os" using hold by (simp_all add: holds_def)
  have "content d' (rem_nth i os ! j) (length (rem_nth i cs ! j)) = rem_nth i cs ! j" if j: "j < length cs - 1" for j
  proof -
    define k where "k = (if j < i then j else Suc j)"
    have k: "k < nCell pg" "k \<noteq> i" using i j l by (auto simp: k_def)
    have e: "rem_nth i os ! j = os ! k" "rem_nth i cs ! j = cs ! k"
      using i j l by (auto simp: nth_rem k_def)
    have "(os ! k, length (cs ! k)) \<in> extents os cs - {(os ! i, length (cs ! i))}"
      using extents_nth [OF l(1,2) k(1)] k i l nth_eq_iff_index_eq [OF l(3), of k i] by auto
    then have "content d' (os ! k) (length (cs ! k)) = content d (os ! k) (length (cs ! k))"
      by (intro content_cong [OF len] same) (force simp: cover_def ext_def)
    then show ?thesis unfolding e using hold k(1) by (simp add: holds_def)
  qed
  then show ?thesis
    using l i cnt ptr distinct_rem [OF l(3), of i] by (simp add: holds_def)
qed

lemma upd_order2:
  "(pg :: MemPage)\<lparr>aData := d, nCell := k, nFree := f\<rparr> = pg\<lparr>aData := d, nFree := f, nCell := k\<rparr>"
  by simp

lemma dropCell_ok:
  assumes rep: "page_rep pg cs" and i: "i < length cs"
  obtains d' where
    "dropCell pg i (length (cs ! i)) SQLITE_OK
     = Some (SQLITE_OK, with_cells pg d' (nFree pg + 2 + int (length (cs ! i))) (nCell pg - 1))"
    "page_rep (with_cells pg d' (nFree pg + 2 + int (length (cs ! i))) (nCell pg - 1)) (rem_nth i cs)"
    "outer_same pg (aData pg) d'"
proof -
  obtain os bs ctop where inv: "page_inv pg (extents os cs) bs ctop" and hold: "holds pg (aData pg) os cs"
    and r: "\<And>c. c \<in> set cs \<Longrightarrow> cell_ok pg c" "aCellIdx pg = cellOffset pg"
    "cellOffset pg = hdrOffset pg + 8 + childPtrSize pg" "length cs = nCell pg"
    by (rule page_repD [OF rep]) auto
  note v = page_invD [OF inv]
  let ?h = "hdrOffset pg" and ?n = "nCell pg" and ?u = "usableSize pg" and ?co = "cellOffset pg"
  let ?k = "length (cs ! i)" and ?f = "nFree pg + 2 + int (length (cs ! i))"
  let ?c = "(os ! i, ?k)"
  have l: "length os = ?n" "distinct os" using hold by (simp_all add: holds_def)
  have cA: "?c \<in> extents os cs" using i r(4) l by (intro extents_nth) auto
  have ce: "ctop \<le> os ! i" "os ! i + ?k \<le> ?u" "4 \<le> ?k" using v(10) [OF cA] by simp_all
  have k: "?k < 65536" using r(1) [OF nth_mem [OF i]] by (simp add: cell_ok_def)
  obtain d1 bs' ctop' where fs: "freeSpace pg (os ! i) ?k = Some (SQLITE_OK, pg\<lparr>aData := d1, nFree := nFree pg + int ?k\<rparr>)"
    and inv1: "page_inv (pg\<lparr>aData := d1, nFree := nFree pg + int ?k\<rparr>) (extents os cs - {?c}) bs' ctop'"
    and fr: "frame_ok pg ctop (extents os cs - {?c}) d1"
    using freeSpace_ok [OF inv cA] by (metis fst_conv snd_conv)
  have l1: "length d1 = length (aData pg)" using fr by (simp add: frame_ok_def)
  note v1 = page_invD [OF inv1, simplified]
  have o1: "outer_same pg (aData pg) d1" by (rule frame_outer [OF fr v(4,3,5)])
  have lens: "?h + 8 \<le> length d1" "?co + 2 * ?n \<le> length d1" "?u \<le> length d1"
    using v(1,3-5) l1 by simp_all
  have ptr: "get2byte (aData pg) (?co + 2 * i) = Some (os ! i)"
    using lens l1 i r(4) hold by (simp add: get2byte_eq holds_def)
  define rest :: "MemPage \<Rightarrow> (rc \<times> MemPage) option" where "rest = (\<lambda>pPage. if nCell pPage = 0
            then do {
              d \<leftarrow> memset (aData pPage) (?h + 1) 0 4;
              d \<leftarrow> wr8 d (?h + 7) 0;
              d \<leftarrow> put2byte d (?h + 5) ?u;
              Some (SQLITE_OK, pPage\<lparr>aData := d,
                nFree := int ?u - int ?h - int (childPtrSize pPage) - 8\<rparr>) }
            else do {
              d \<leftarrow> memmove (aData pPage) (?co + 2 * i) (?co + 2 * i + 2) (2 * (nCell pPage - i));
              d \<leftarrow> put2byte d (?h + 3) (nCell pPage);
              Some (SQLITE_OK, pPage\<lparr>aData := d, nFree := nFree pPage + 2\<rparr>) })"
  have "\<not> ?u < os ! i + ?k" using ce(2) by simp
  then have run: "dropCell pg i ?k SQLITE_OK = rest (pg\<lparr>aData := d1, nFree := nFree pg + int ?k, nCell := ?n - 1\<rparr>)"
    unfolding dropCell_def Let_def r(2) ptr rest_def by (simp add: fs k)
  show thesis
  proof (cases "?n = 1")
    case True
    obtain d' where d': "memset d1 (?h + 1) 0 4 \<bind> (\<lambda>d. wr8 d (?h + 7) 0 \<bind>
       (\<lambda>d. put2byte d (?h + 5) ?u)) = Some d'"
      "page_rep (pg\<lparr>aData := d', nCell := 0, nFree := int ?u - int ?h - int (childPtrSize pg) - 8\<rparr>) []"
      "outer_same pg d1 d'"
      by (rule dropCell_last [OF lens(1,3) v(2) _ r(3,2)]) (use v(4,5) in auto)
    obtain c where cs: "cs = [c]" using True r(4) by (cases cs) auto
    have f: "int ?u - int ?h - int (childPtrSize pg) - 8 = ?f"
      using free_of_cells(1) [OF inv hold] True cs i r(3) by simp
    have w: "with_cells pg d' ?f (?n - 1) = pg\<lparr>aData := d', nCell := 0, nFree := int ?u - int ?h - int (childPtrSize pg) - 8\<rparr>"
      using True f by (simp add: with_cells_def)
    have "rest (pg\<lparr>aData := d1, nFree := nFree pg + int ?k, nCell := ?n - 1\<rparr>) = Some (SQLITE_OK, with_cells pg d' ?f (?n - 1))"
    proof -
      obtain x y where xy: "memset d1 (?h + 1) 0 4 = Some x" "wr8 x (?h + 7) 0 = Some y" "put2byte y (?h + 5) ?u = Some d'"
        using d'(1) by (auto simp: bind_eq_Some_conv)
      then show ?thesis using True unfolding w by (simp add: rest_def)
    qed
    moreover have "rem_nth i cs = []" using cs i by (simp add: rem_nth_def)
    ultimately show thesis
      using that [of d'] d'(2) [folded w] outer_same_trans [OF o1 d'(3)] by (simp add: run)
  next
    case False
    then have n: "?n - 1 \<noteq> 0" using i r(4) by simp
    have p1: "g2 d1 (?co + 2 * j) = os ! j" if "j < ?n" for j
    proof -
      have "g2 d1 (?co + 2 * j) = g2 (aData pg) (?co + 2 * j)"
        using that fr v(3,4) by (intro g2_cong) (auto simp: frame_ok_def hdr_fields_def)
      then show ?thesis using hold that by (simp add: holds_def)
    qed
    have i': "i < ?n" using i r(4) by simp
    obtain d2 where d2: "memmove d1 (?co + 2 * i) (?co + 2 * i + 2) (2 * (?n - 1 - i)) = Some d2"
      "length d2 = length d1" "\<And>j. j < ?n - 1 \<Longrightarrow> g2 d2 (?co + 2 * j) = rem_nth i os ! j"
      "\<And>x. x \<notin> {?co ..< ?co + 2 * ?n} \<Longrightarrow> d2 ! x = d1 ! x"
      by (rule drop_pointer_bytes [OF lens(2) i' p1 l(1)]) auto
    define d' where "d' = p2 d2 (?h + 3) (?n - 1)"
    have len': "length d' = length d1" using d2(2) by (simp add: d'_def)
    have same: "d' ! x = d1 ! x" if "x \<noteq> ?h + 3" "x \<noteq> ?h + 4" "x \<notin> {?co ..< ?co + 2 * ?n}" for x
      using that d2(4) by (simp add: d'_def nth_p2)
    have "rest (pg\<lparr>aData := d1, nFree := nFree pg + int ?k, nCell := ?n - 1\<rparr>) = Some (SQLITE_OK, with_cells pg d' ?f (?n - 1))"
      using n d2 lens by (simp add: rest_def with_cells_def put2byte_eq d'_def)
    moreover have ex: "extents (rem_nth i os) (rem_nth i cs) = extents os cs - {?c}"
      using i l r(4) by (intro extents_rem) auto
    have "page_rep (with_cells pg d' ?f (?n - 1)) (rem_nth i cs)"
      unfolding page_rep_def with_cells_def
    proof (intro conjI exI)
      have "page_inv (pg\<lparr>aData := d1, nFree := nFree pg + int ?k\<rparr>\<lparr>aData := d', nCell := ?n - 1, nFree := ?f\<rparr>)
          (extents (rem_nth i os) (rem_nth i cs)) bs' ctop'"
        unfolding ex
      proof (rule page_inv_update [OF inv1])
        fix x assume x: "x \<in> hdr_fields (pg\<lparr>aData := d1, nFree := nFree pg + int ?k\<rparr>) \<or> x \<in> cover (set bs')"
        have "x \<in> cover (set bs') \<Longrightarrow> ctop' \<le> x"
          using blocks_okD [OF v1(8)] by (fastforce simp: cover_def ext_def)
        then have "d' ! x = d1 ! x"
          using x v1(3,4) by (intro same) (auto simp: hdr_fields_def)
        then show "d' ! x = aData (pg\<lparr>aData := d1, nFree := nFree pg + int ?k\<rparr>) ! x" by simp
      qed (use len' v1(4) i' in auto)
      then show "page_inv (pg\<lparr>aData := d', nFree := ?f, nCell := ?n - 1\<rparr>) (extents (rem_nth i os) (rem_nth i cs)) bs' ctop'"
        unfolding upd_order2 [symmetric] by simp
      have "holds (pg\<lparr>nCell := length cs - 1\<rparr>) d' (rem_nth i os) (rem_nth i cs)"
      proof (rule count_rem [OF inv hold i])
        show "length d' = length (aData pg)" using len' l1 by simp
        show "g2 d' (?h + 3) = length cs - 1"
        proof -
          have "?n - 1 < 65536" using lens(2) v(1,2,4,5) by linarith
          then show ?thesis unfolding d'_def using lens d2(2) r(4) by (simp add: g2_p2_same)
        qed
        show "g2 d' (?co + 2 * j) = rem_nth i os ! j" if "j < length cs - 1" for j
        proof -
          have "g2 d' (?co + 2 * j) = g2 d2 (?co + 2 * j)"
            unfolding d'_def using v(3) by (intro g2_cong) (auto simp: nth_p2)
          then show ?thesis using d2(3) that r(4) by simp
        qed
        fix x assume x: "x \<in> cover (extents os cs - {?c})"
        then have "ctop \<le> x" using v(10) by (fastforce simp: cover_def ext_def)
        then have "d' ! x = d1 ! x" using v(3,4) by (intro same) auto
        also have "\<dots> = aData pg ! x"
          using fr x \<open>ctop \<le> x\<close> v(3,4) by (simp add: frame_ok_def hdr_fields_def)
        finally show "d' ! x = aData pg ! x" .
      qed
      then show "holds (pg\<lparr>aData := d', nFree := ?f, nCell := ?n - 1\<rparr>) (aData (pg\<lparr>aData := d', nFree := ?f, nCell := ?n - 1\<rparr>))
          (rem_nth i os) (rem_nth i cs)"
        using r(4) by (simp add: holds_def)
    qed (use r(1-3) set_rem_subset [of i cs] in auto)
    moreover have "outer_same pg d1 d'"
      unfolding outer_same_def
    proof (intro conjI allI impI)
      fix x assume "x < ?co \<and> x \<notin> hdr_fields pg \<and> x \<noteq> ?h + 3 \<and> x \<noteq> ?h + 4 \<or> ?u \<le> x"
      then show "d' ! x = d1 ! x" using v(3-5) by (intro same) auto
    qed (rule len')
    ultimately show thesis
      using that [of d'] outer_same_trans [OF o1] by (simp add: run)
  qed
qed

text \<open>\<^verbatim>\<open>zeroPage\<close> sets up an empty page.\<close>

lemma decodeFlags_frame:
  assumes "decodeFlags pg k = (SQLITE_OK, pg')"
  shows "aData pg' = aData pg" "hdrOffset pg' = hdrOffset pg" "pBt pg' = pBt pg" "nFree pg' = nFree pg"
    "childPtrSize pg' = (if leaf pg' then 0 else 4)" "leaf pg' \<longleftrightarrow> PTF_ZERODATA OR PTF_LEAF \<le> k"
  using assms by (auto simp: decodeFlags_def Let_def split: if_splits)

lemma decodeFlags_code: "fst (decodeFlags pg k) = fst (decodeFlags pg2 k)"
  by (simp add: decodeFlags_def Let_def)

lemma flags_leaf:
  assumes "decodeFlags pg k = (SQLITE_OK, pg')"
  shows "k AND PTF_LEAF = 0 \<longleftrightarrow> \<not> PTF_ZERODATA OR PTF_LEAF \<le> k"
proof -
  have "k \<in> {2, 5, 10, 13}"
    using assms unfolding decodeFlags_def Let_def PTF_LEAF_def PTF_ZERODATA_def PTF_INTKEY_def PTF_LEAFDATA_def
    by (auto split: if_splits)
  then show ?thesis by (auto simp: PTF_LEAF_def PTF_ZERODATA_def)
qed

lemma zeroPage_ok:
  assumes flags: "decodeFlags pg k = (SQLITE_OK, q)"
    and u: "hdrOffset pg + 12 \<le> usableSize pg" "usableSize pg \<le> length (aData pg)" "usableSize pg \<le> 65536"
  obtains pg' where "zeroPage pg k = Some pg'" "page_rep pg' []"
    "nFree pg' = int (usableSize pg) - int (hdrOffset pg) - (if leaf pg' then 8 else 12)"
    "aData pg' ! hdrOffset pg = cast8 k" "pBt pg' = pBt pg" "hdrOffset pg' = hdrOffset pg"
proof -
  let ?h = "hdrOffset pg" and ?u = "usableSize pg"
  let ?first = "?h + (if k AND PTF_LEAF = 0 then 12 else 8)"
  obtain d0 where d0: "(if bt_btsFlags (pBt pg) AND BTS_FAST_SECURE \<noteq> 0 then memset (aData pg) ?h 0 (?u - ?h)
           else Some (aData pg)) = Some d0" "length d0 = length (aData pg)"
  proof (cases "bt_btsFlags (pBt pg) AND BTS_FAST_SECURE = 0")
    case False
    then show thesis using that [of "take ?h (aData pg) @ replicate (?u - ?h) 0 @ drop (?h + (?u - ?h)) (aData pg)"] u
      by (simp add: memset_def)
  qed (use that in simp)
  let ?d1 = "d0[?h := cast8 k]"
  have l1: "?h + 8 \<le> length ?d1" using u d0(2) by simp
  have w0: "wr8 d0 ?h (cast8 k) = Some ?d1" using u d0(2) by (simp add: wr8_Some)
  obtain d' where d': "memset ?d1 (?h + 1) 0 4 \<bind> (\<lambda>d. wr8 d (?h + 7) 0 \<bind> (\<lambda>d. put2byte d (?h + 5) ?u)) = Some d'"
    "length d' = length ?d1" "g2 d' (?h + 1) = 0" "g2 d' (?h + 3) = 0" "g2 d' (?h + 5) = ?u mod 65536"
    "d' ! (?h + 7) = 0" "\<And>x. x \<notin> {?h + 1 ..< ?h + 8} \<Longrightarrow> d' ! x = ?d1 ! x"
    by (rule clear_header [OF l1]) auto
  obtain x y where xy: "memset ?d1 (?h + 1) 0 4 = Some x" "wr8 x (?h + 7) 0 = Some y" "put2byte y (?h + 5) ?u = Some d'"
    using d'(1) by (auto simp: bind_eq_Some_conv)
  obtain q1 where q1: "decodeFlags (pg\<lparr>aData := d', nFree := int ((?u - ?first) mod 65536)\<rparr>) k = (SQLITE_OK, q1)"
    using decodeFlags_code [of "pg\<lparr>aData := d', nFree := int ((?u - ?first) mod 65536)\<rparr>" k pg] flags
    by (metis fst_conv prod.collapse)
  note f = decodeFlags_frame [OF q1(1)]
  have first: "?first = ?h + 8 + childPtrSize q1"
    using f(5,6) flags_leaf [OF q1(1)] by simp
  define pg' where "pg' = q1\<lparr>cellOffset := ?first, aDataEnd := unat (bt_pageSize (pBt pg)), aCellIdx := ?first,
       aDataOfst := childPtrSize q1, nOverflow := 0, maskPage := ucast (bt_pageSize (pBt pg) - 1),
       nCell := 0, isInit := True\<rparr>"
  have run: "zeroPage pg k = Some pg'"
    unfolding zeroPage_def Let_def d0(1) pg'_def w0 Option.bind.simps xy q1(1) snd_conv by (rule refl)
  have fr: "nFree pg' = int ?u - int ?first"
    using u f(4) by (simp add: pg'_def)
  have "page_rep pg' []"
    by (rule empty_page) (use d' d0(2) u f first fr in \<open>auto simp: pg'_def\<close>)
  moreover have "nFree pg' = int ?u - int ?h - (if leaf pg' then 8 else 12)"
    using fr f(5) first by (simp add: pg'_def)
  moreover have "aData pg' ! ?h = cast8 k" using d'(7) [of ?h] f(1) d0(2) u by (simp add: pg'_def)
  ultimately show thesis using that run f by (simp add: pg'_def)
qed

end
