(* ===== verification/PageOpsM.thy ===== *)
theory PageOpsM
  imports CellListM
begin

text \<open>
  What the page operations promise: cells are measured whatever follows them, corrupt pages are
  handled inside the buffer, a page that was written is read back, and any sequence of
  insertions and deletions is the same sequence of list operations.
\<close>

section \<open>Complete cells\<close>

lemma varint_spec_tail: "varint_spec k v bs = Some r \<Longrightarrow> varint_spec k v (bs @ t) = Some r"
  by (induction k v bs rule: varint_spec.induct) (auto split: if_splits)

lemma payload_spec_tail: "payload_spec k v bs = Some r \<Longrightarrow> payload_spec k v (bs @ t) = Some r"
  by (induction k v bs rule: payload_spec.induct) (auto simp: Let_def split: if_splits)

lemma nPayload_read_tail: "nPayload_read p i = Some (n, j) \<Longrightarrow> nPayload_read (p @ t) i = Some (n, j)"
proof -
  assume a: "nPayload_read p i = Some (n, j)"
  then have i: "i < length p" using nPayload_read_bounds [OF a] by simp
  show ?thesis using a i by (auto simp: nPayload_read_spec payload_spec_tail)
qed

lemma getVarint_tail:
  assumes "sqlite3GetVarint (drop i p) = Some r"
  shows "sqlite3GetVarint (drop i (p @ t)) = Some r"
proof (cases "i \<le> length p")
  case True
  then show ?thesis using assms by (simp add: sqlite3GetVarint_spec varint_spec_tail)
next
  case False
  then show ?thesis using assms by (simp add: sqlite3GetVarint_spec)
qed

lemma call_xParseCell_tail:
  assumes "decodeFlags p k = (SQLITE_OK, pg)" "call_xParseCell pg c = Some info"
  shows "call_xParseCell pg (c @ t) = Some info"
proof -
  consider "xParseCell pg = btreeParseCellPtr_fn" "btreeParseCellPtr pg c = Some info"
    | "xParseCell pg = btreeParseCellPtrIndex_fn" "btreeParseCellPtrIndex pg c = Some info" "childPtrSize pg \<le> 4"
    | "xParseCell pg = btreeParseCellPtrNoPayload_fn" "btreeParseCellPtrNoPayload pg c = Some info"
    using decodeFlags_accepts [OF assms(1)] by cases (use assms(2) in \<open>simp_all add: call_xParseCell_def\<close>)
  then show ?thesis
  proof cases
    case 1
    obtain n i v m where "nPayload_read c 0 = Some (n, i)" "sqlite3GetVarint (drop i c) = Some (v, m)"
      "info = parseCell_tail pg (sint v) n (i + m)"
      by (rule parse_table_leaf [OF 1(2)])
    then show ?thesis
      using 1(1) by (simp add: call_xParseCell_def btreeParseCellPtr_def iKey_read_getVarint
          nPayload_read_tail getVarint_tail del: drop_append)
  next
    case 2
    obtain n i where "nPayload_read c (childPtrSize pg) = Some (n, i)" "info = parseCell_tail pg (uint n) n i"
      by (rule parse_index [OF 2(2,3)])
    then show ?thesis
      using 2(1) by (simp add: call_xParseCell_def btreeParseCellPtrIndex_def nPayload_read_tail)
  next
    case 3
    obtain v m where "sqlite3GetVarint (drop 4 c) = Some (v, m)"
      "info = \<lparr>nKey = sint v, pPayload = None, nPayload = 0, nLocal = 0, nSize = u16_of (4 + m)\<rparr>"
      by (rule parse_interior [OF 3(2)])
    then show ?thesis
      using 3(1) by (simp add: call_xParseCell_def btreeParseCellPtrNoPayload_def getVarint_tail del: drop_append)
  qed
qed

lemma parsed_cell_ok:
  assumes "page_limits pg" "decodeFlags p k = (SQLITE_OK, pg)" "call_xParseCell pg c = Some info"
    and "length c = unat (nSize info)"
  shows "cell_ok pg c"
proof -
  have "4 \<le> unat (nSize info)"
    using parsed_payload [OF assms(1-3)] by (auto simp: cell_size_spec_def)
  moreover have "unat (nSize info) < 65536" using unsigned_less [of "nSize info", where 'a = nat] by simp
  moreover have "call_xCellSize pg (c @ t) = Some (nSize info)" for t
    by (rule size_is_parsed_size [OF assms(1,2) call_xParseCell_tail [OF assms(2,3)]])
  ultimately show ?thesis using assms(4) by (simp add: cell_ok_def)
qed

section \<open>Memory safety on any bytes\<close>

text \<open>
  On a page whose bytes are arbitrary, \<^verbatim>\<open>freeSpace\<close> and \<^verbatim>\<open>pageFindSlot\<close>
  stay inside the buffer: the checks of the source suffice.
\<close>

definition in_page :: "MemPage \<Rightarrow> bool" where
  "in_page pg \<longleftrightarrow> hdrOffset pg + 8 \<le> usableSize pg \<and> usableSize pg \<le> length (aData pg)"

lemma freeSpace_loop_safe:
  "iPtr + 1 < length d \<Longrightarrow> iStart \<le> length d - 1 \<Longrightarrow> iPtr < iStart \<Longrightarrow>
   \<exists>rc p b. freeSpace_loop d iStart iPtr = Some (rc, p, b) \<and> iPtr \<le> p \<and> p < iStart \<and> (rc = SQLITE_OK \<longrightarrow> b = 0 \<or> iStart \<le> b)"
proof (induction d iStart iPtr rule: freeSpace_loop.induct)
  case (1 d iStart iPtr)
  have g: "get2byte d iPtr = Some (g2 d iPtr)" using "1.prems" by (simp add: get2byte_eq)
  show ?case
  proof (cases "g2 d iPtr < iStart \<and> iPtr < g2 d iPtr")
    case True
    then have "\<exists>rc p b. freeSpace_loop d iStart (g2 d iPtr) = Some (rc, p, b) \<and> g2 d iPtr \<le> p \<and> p < iStart
        \<and> (rc = SQLITE_OK \<longrightarrow> b = 0 \<or> iStart \<le> b)"
      using "1.prems" g by (intro "1.IH") auto
    moreover have "freeSpace_loop d iStart iPtr = freeSpace_loop d iStart (g2 d iPtr)"
      using True g by (subst freeSpace_loop.simps) simp
    ultimately show ?thesis using True by (metis less_imp_le order_trans)
  next
    case False
    then show ?thesis using g "1.prems" by (subst freeSpace_loop.simps) auto
  qed
qed

lemma get2byte_safe: "Suc i < length d \<Longrightarrow> \<exists>v. get2byte d i = Some v"
  by (simp add: get2byte_eq)

definition stays :: "MemPage \<Rightarrow> (rc \<times> MemPage) option \<Rightarrow> bool" where
  "stays pg r \<longleftrightarrow> (\<exists>rc pg'. r = Some (rc, pg') \<and> length (aData pg') = length (aData pg)
     \<and> (rc \<noteq> SQLITE_OK \<longrightarrow> nFree pg' = nFree pg))"

lemma freeSpace_enter_safe:
  assumes "hdrOffset pg + 8 \<le> length (aData pg)" "fv_iPtr v + 1 < length (aData pg)"
    "fv_iStart v + fv_iSize v \<le> length (aData pg)" "4 \<le> fv_iSize v"
  shows "stays pg (freeSpace_enter pg v k)"
proof -
  define d where "d = (if bt_btsFlags (pBt pg) AND BTS_FAST_SECURE \<noteq> 0
     then take (fv_iStart v) (aData pg) @ replicate (fv_iSize v) 0 @ drop (fv_iStart v + fv_iSize v) (aData pg) else aData pg)"
  have l: "length d = length (aData pg)" using assms(3) by (simp add: d_def)
  have d: "(if bt_btsFlags (pBt pg) AND BTS_FAST_SECURE \<noteq> 0
           then memset (aData pg) (fv_iStart v) 0 (fv_iSize v) else Some (aData pg)) = Some d"
    using assms(3) by (simp add: d_def memset_def)
  have "get2byte (aData pg) (hdrOffset pg + 5) = Some (g2 (aData pg) (hdrOffset pg + 5))"
    using assms(1) by (simp add: get2byte_eq)
  then show ?thesis
    using assms l unfolding freeSpace_enter_def Let_def d by (simp add: put2byte_eq stays_def)
qed

lemma freeSpace_safe:
  assumes pg: "in_page pg" "usableSize pg \<le> 65536"
    and a: "hdrOffset pg + 8 \<le> iStart" "4 \<le> iSize" "iStart + iSize \<le> usableSize pg"
  shows "stays pg (freeSpace pg iStart iSize)"
proof -
  let ?d = "aData pg" and ?h = "hdrOffset pg" and ?u = "usableSize pg"
  have len: "?h + 8 \<le> ?u" "?u \<le> length ?d" using pg(1) by (simp_all add: in_page_def)
  have bytes: "rd8 ?d (?h + 1 + 1) = Some (?d ! (?h + 1 + 1))" "rd8 ?d (?h + 1) = Some (?d ! (?h + 1))"
    "rd8 ?d (?h + 7) = Some (?d ! (?h + 7))"
    using len by (simp_all add: rd8_Some)
  have quit: "stays pg (Some (c, pg))" for c by (simp add: stays_def)
  have entered: "stays pg (freeSpace_enter (pg\<lparr>aData := d\<rparr>) v iSize)"
    if "length d = length ?d" "fv_iPtr v \<le> fv_iStart v" "fv_iStart v + fv_iSize v \<le> ?u" "4 \<le> fv_iSize v" for d v
    using freeSpace_enter_safe [of "pg\<lparr>aData := d\<rparr>" v iSize] that len by (simp add: stays_def)
  show ?thesis
  proof (cases "?d ! (?h + 1 + 1) = 0 \<and> ?d ! (?h + 1) = 0")
    case True
    then show ?thesis
      using entered [of ?d "\<lparr>fv_iPtr = ?h + 1, fv_iFreeBlk = 0, fv_nFrag = 0, fv_iStart = iStart,
             fv_iSize = iSize, fv_iEnd = iStart + iSize\<rparr>"] a
      unfolding freeSpace_def Let_def bytes by simp
  next
    case False
    obtain c p b where lp: "freeSpace_loop ?d iStart (?h + 1) = Some (c, p, b)" "?h + 1 \<le> p" "p < iStart"
      "c = SQLITE_OK \<longrightarrow> b = 0 \<or> iStart \<le> b"
    proof -
      have "?h + 1 + 1 < length ?d" "iStart \<le> length ?d - 1" "?h + 1 < iStart" using len a by linarith+
      from freeSpace_loop_safe [OF this] show thesis using that by blast
    qed
    define v where "v = \<lparr>fv_iPtr = p, fv_iFreeBlk = b, fv_nFrag = 0, fv_iStart = iStart,
             fv_iSize = iSize, fv_iEnd = iStart + iSize\<rparr>"
    have find: "freeSpace_find pg iStart iSize = Some (if c \<noteq> SQLITE_OK then Inl c
        else if b > ?u - 4 then Inl SQLITE_CORRUPT else Inr v)"
      unfolding freeSpace_find_def lp(1) v_def Option.bind.simps prod.case by (rule refl)
    define fin where "fin = (\<lambda>w. do {
       frag \<leftarrow> rd8 (aData pg) (?h + 7);
       if fv_nFrag w > unat frag then Some (SQLITE_CORRUPT, pg)
       else do {
         d \<leftarrow> wr8 (aData pg) (?h + 7) (frag - cast8 (fv_nFrag w));
         freeSpace_enter (pg\<lparr>aData := d\<rparr>) w iSize } })"
    define after where "after = (\<lambda>w. freeSpace_join_prev pg w \<bind>
      (\<lambda>r. case r of Inl rc \<Rightarrow> Some (rc, pg) | Inr v \<Rightarrow> fin v))"
    have fin: "stays pg (fin w)" if "fv_iPtr w \<le> fv_iStart w" "fv_iStart w + fv_iSize w \<le> ?u" "4 \<le> fv_iSize w" for w
      using that entered [of "?d[?h + 7 := _]" w] len quit unfolding fin_def bytes by (simp add: wr8_Some)
    have prev: "stays pg (after w)"
      if w: "fv_iPtr w = p" "fv_iStart w = iStart" "fv_iStart w + fv_iSize w = fv_iEnd w" "4 \<le> fv_iSize w" "fv_iEnd w \<le> ?u" for w
    proof -
      let ?e = "p + g2 ?d (p + 2)"
      let ?w = "w\<lparr>fv_nFrag := (fv_nFrag w + (iStart - ?e)) mod 256,
             fv_iSize := (fv_iEnd w - p) mod 65536, fv_iStart := p\<rparr>"
      have g: "get2byte ?d (p + 2) = Some (g2 ?d (p + 2))" using lp(3) a len by (simp add: get2byte_eq)
      have m: "(fv_iEnd w - p) mod 65536 = fv_iEnd w - p" using w lp(2) pg(2) by (intro mod_less) linarith
      have e: "p + (fv_iEnd w - p) = fv_iEnd w" "4 \<le> fv_iEnd w - p" using w lp(3) by linarith+
      have "stays pg (fin ?w)" by (rule fin) (use e w m in simp_all)
      moreover have "stays pg (fin w)" by (rule fin) (use w lp(3) in simp_all)
      moreover have "freeSpace_join_prev pg w \<in> {Some (Inl SQLITE_CORRUPT), Some (Inr ?w), Some (Inr w)}"
        unfolding freeSpace_join_prev_def Let_def w(1,2) g Option.bind.simps by simp
      ultimately show ?thesis using quit unfolding after_def by auto
    qed
    have "stays pg (freeSpace_join_next pg v \<bind> (\<lambda>r. case r of Inl rc \<Rightarrow> Some (rc, pg) | Inr v \<Rightarrow> after v))"
      if "\<not> b > ?u - 4" "b = 0 \<or> iStart \<le> b"
    proof -
      have g: "get2byte ?d (b + 2) = Some (g2 ?d (b + 2))" "get2byte ?d b = Some (g2 ?d b)"
        using that len by (simp_all add: get2byte_eq)
      show ?thesis
      proof (cases "b \<noteq> 0 \<and> iStart + iSize + 3 \<ge> b \<and> \<not> iStart + iSize > b \<and> \<not> b + g2 ?d (b + 2) > ?u")
        case True
        let ?e = "b + g2 ?d (b + 2)"
        have m: "(?e - iStart) mod 65536 = ?e - iStart" using True a pg(2) by (intro mod_less) linarith
        have e: "4 \<le> ?e - iStart" "iStart + (?e - iStart) = ?e" using True a by linarith+
        have "stays pg (after (v\<lparr>fv_nFrag := b - (iStart + iSize), fv_iEnd := ?e,
            fv_iSize := (?e - iStart) mod 65536, fv_iFreeBlk := g2 ?d b\<rparr>))"
          by (rule prev) (use e m True in \<open>simp_all add: v_def\<close>)
        then show ?thesis using True g by (simp add: freeSpace_join_next_def v_def Let_def)
      next
        case False
        have "stays pg (after v)" by (rule prev) (use a in \<open>simp_all add: v_def\<close>)
        then show ?thesis using False g quit by (auto simp: freeSpace_join_next_def v_def Let_def)
      qed
    qed
    moreover have "freeSpace pg iStart iSize = freeSpace_find pg iStart iSize \<bind>
        (\<lambda>r. case r of Inl rc \<Rightarrow> Some (rc, pg) | Inr v \<Rightarrow> freeSpace_join_next pg v \<bind>
          (\<lambda>r. case r of Inl rc \<Rightarrow> Some (rc, pg) | Inr v \<Rightarrow> after v))"
      unfolding freeSpace_def Let_def bytes Option.bind.simps if_not_P [OF False] after_def fin_def by (rule refl)
    ultimately show ?thesis using quit lp(4) unfolding find by simp
  qed
qed

text \<open>The slot that \<^verbatim>\<open>pageFindSlot\<close> answers lies inside the page.\<close>

lemma pageFindSlot_loop_safe:
  assumes "hdr + 8 \<le> length d" "int u = maxPC + int nByte" "u \<le> length d" "4 \<le> nByte" "iAddr + 1 < length d"
  shows "\<exists>rc d' r. pageFindSlot_loop d hdr nByte maxPC iAddr pc = Some (rc, d', r) \<and> length d' = length d
     \<and> (\<forall>g. r = Some g \<longrightarrow> g + nByte \<le> u \<and> rc = SQLITE_OK)"
  using assms
proof (induction d hdr nByte maxPC iAddr pc rule: pageFindSlot_loop.induct)
  case (1 d hdr nByte maxPC iAddr pc)
  show ?case
  proof (cases "int pc \<le> maxPC")
    case False
    then show ?thesis by (subst pageFindSlot_loop.simps) simp
  next
    case True
    have g: "get2byte d (pc + 2) = Some (g2 d (pc + 2))" "get2byte d pc = Some (g2 d pc)"
      using True "1.prems" by (simp_all add: get2byte_eq)
    have bytes: "rd8 d (hdr + 7) = Some (d ! (hdr + 7))" using "1.prems" by (simp add: rd8_Some)
    show ?thesis
    proof (cases "g2 d (pc + 2) \<ge> nByte")
      case big: True
      obtain d' where mv: "memmove d iAddr pc 2 = Some d'" "length d' = length d"
        by (rule memmove_eq [of iAddr 2 d pc]) (use True "1.prems" in auto)
      show ?thesis
        using True big g bytes mv "1.prems"
        by (subst pageFindSlot_loop.simps) (auto simp: Let_def rd8_Some wr8_Some put2byte_eq)
    next
      case small: False
      show ?thesis
      proof (cases "g2 d pc \<le> pc")
        case end': True
        then show ?thesis using True small g by (subst pageFindSlot_loop.simps) simp
      next
        case next': False
        have "\<exists>rc d' r. pageFindSlot_loop d hdr nByte maxPC pc (g2 d pc) = Some (rc, d', r) \<and> length d' = length d
           \<and> (\<forall>g. r = Some g \<longrightarrow> g + nByte \<le> u \<and> rc = SQLITE_OK)"
          by (rule "1.IH" [OF True g(1) small g(2) next']) (use True "1.prems" in auto)
        then show ?thesis using True small next' g by (subst pageFindSlot_loop.simps) simp
      qed
    qed
  qed
qed

section \<open>Reading a page back\<close>

lemma computeFree_loop_chain:
  assumes "chain d a ((pc, n) # bs) 0" "blocks_ok lo u ((pc, n) # bs)" "u \<le> length d"
  obtains pc' n' where "computeFree_loop d (u - 4) pc f = Some (SQLITE_OK, 0, pc', n', f + n + sum_list (map snd bs))"
    "pc' + n' \<le> u"
  using assms
proof (induction bs arbitrary: a pc n lo f thesis)
  case Nil
  then have "0 < pc" "4 \<le> n" "pc + n \<le> u" "g2 d pc = 0" "g2 d (pc + 2) = n" by auto
  then have "computeFree_loop d (u - 4) pc f = Some (SQLITE_OK, 0, pc, n, f + n)"
    using Nil.prems(4) by (subst computeFree_loop.simps) (simp add: get2byte_eq)
  then show ?case using Nil.prems(1) \<open>pc + n \<le> u\<close> by simp
next
  case (Cons e bs)
  obtain s m where e: "e = (s, m)" by (cases e)
  have b: "4 \<le> n" "pc + n \<le> u" "g2 d pc = s" "g2 d (pc + 2) = n" "pc + n + 3 < s"
    "chain d pc ((s, m) # bs) 0" "blocks_ok (pc + n + 3) u ((s, m) # bs)"
    using Cons.prems(2,3) e by auto
  obtain pc' n' where r: "computeFree_loop d (u - 4) s (f + n) = Some (SQLITE_OK, 0, pc', n', f + n + m + sum_list (map snd bs))"
    "pc' + n' \<le> u"
    by (rule Cons.IH [OF _ b(6,7) Cons.prems(4)]) blast
  have "\<not> u - 4 < pc" "\<not> s \<le> pc + n + 3" using b(1,2,5) by linarith+
  then have "computeFree_loop d (u - 4) pc f = computeFree_loop d (u - 4) s (f + n)"
    using b(1-5) Cons.prems(4) by (subst computeFree_loop.simps) (simp add: get2byte_eq)
  then show ?case using Cons.prems(1) [of pc' n'] r e by (simp add: add.assoc)
qed

lemma computeFree_ok:
  assumes inv: "page_inv pg A bs ctop" and o: "cellOffset pg = hdrOffset pg + 8 + childPtrSize pg"
  shows "btreeComputeFreeSpace (pg\<lparr>nFree := f\<rparr>) = Some (SQLITE_OK, pg)"
proof -
  note v = page_invD [OF inv]
  let ?h = "hdrOffset pg" and ?d = "aData pg" and ?u = "usableSize pg"
  have len: "?h + 8 \<le> length ?d" using v(1,3-5) by simp
  have top: "get2byteNotZero ?d (?h + 5) = Some ctop"
    using len v(2-6) by (cases "ctop = 65536") (auto simp: get2byteNotZero_eq)
  have g1: "get2byte ?d (?h + 1) = Some (hdp bs 0)" using len chain_hd [OF v(7)] by (simp add: get2byte_eq)
  have fr: "rd8 ?d (?h + 7) = Some (?d ! (?h + 7))" using len by (simp add: rd8_Some)
  let ?t = "unat (?d ! (?h + 7)) + ctop + sum_list (map snd bs)"
  have sum: "?t + (\<Sum>a\<in>A. snd a) = ?u" "nFree pg = int ?u - int (cellFirst pg) - int (\<Sum>a\<in>A. snd a)"
    "(\<Sum>a\<in>A. snd a) \<le> ?u - ctop" by (rule page_counts [OF inv])+
  have t: "?t \<le> ?u" "cellFirst pg \<le> ?t" using sum v(4,5) by linarith+
  have m: "int ((?t - cellFirst pg) mod 65536) = nFree pg"
  proof -
    have "?t - cellFirst pg < 65536" using t v(2,3) by linarith
    moreover have "int (?t - cellFirst pg) = nFree pg" using sum t by linarith
    ultimately show ?thesis by simp
  qed
  have "pg\<lparr>nFree := nFree pg\<rparr> = pg" by simp
  note fin = t m this
  show ?thesis
  proof (cases bs)
    case Nil
    then show ?thesis
      unfolding btreeComputeFreeSpace_def Let_def using top g1 fr fin o by simp
  next
    case (Cons e bs')
    obtain s n where e: "e = (s, n)" by (cases e)
    have c: "chain ?d (?h + 1) ((s, n) # bs') 0" "blocks_ok ctop ?u ((s, n) # bs')"
      using v(7,8) Cons e by simp_all
    obtain pc' n' where r: "computeFree_loop ?d (?u - 4) s (unat (?d ! (?h + 7)) + ctop)
        = Some (SQLITE_OK, 0, pc', n', unat (?d ! (?h + 7)) + ctop + n + sum_list (map snd bs'))" "pc' + n' \<le> ?u"
      by (rule computeFree_loop_chain [OF c v(1)])
    have "ctop < s" using c(2) by simp
    then have s: "\<not> s < ctop" "0 < s" by simp_all
    have t': "?t = unat (?d ! (?h + 7)) + ctop + n + sum_list (map snd bs')" using Cons e by simp
    show ?thesis
      unfolding btreeComputeFreeSpace_def Let_def using top g1 fr fin o s r Cons e unfolding t' by simp
  qed
qed

text \<open>The fields that the size functions read depend on the flag byte only.\<close>

lemma decodeFlags_same:
  assumes "decodeFlags pg k = (SQLITE_OK, q)" "decodeFlags pg2 k = (SQLITE_OK, q2)" "pBt pg = pBt pg2"
  shows "xCellSize q = xCellSize q2" "xParseCell q = xParseCell q2" "maxLocal q = maxLocal q2"
    "minLocal q = minLocal q2" "childPtrSize q = childPtrSize q2" "max1bytePayload q = max1bytePayload q2"
    "leaf q = leaf q2" "intKey q = intKey q2" "intKeyLeaf q = intKeyLeaf q2"
  using assms by (auto simp: decodeFlags_def Let_def split: if_splits)

lemma call_xCellSize_cong:
  assumes "xCellSize q = xCellSize q2" "maxLocal q = maxLocal q2" "minLocal q = minLocal q2"
    "childPtrSize q = childPtrSize q2" "max1bytePayload q = max1bytePayload q2" "pBt q = pBt q2"
  shows "call_xCellSize q = call_xCellSize q2"
proof -
  have "cellSize_overflow q = cellSize_overflow q2"
    using assms by (simp add: cellSize_overflow_def fun_eq_iff)
  then show ?thesis
    unfolding call_xCellSize_def cellSizePtr_def cellSizePtrIdxLeaf_def cellSizePtrNoPayload_def
      cellSizePtrTableLeaf_def fun_eq_iff assms by presburger
qed

lemma cellSizeCheck_ok:
  assumes "\<And>j. j < n \<Longrightarrow> get2byte (aData pg) (cellOffset pg + j * 2) = Some (os j) \<and> lo \<le> os j \<and> os j \<le> hi
      \<and> (\<exists>sz. call_xCellSize pg (drop (os j) (aData pg)) = Some sz \<and> os j + unat sz \<le> usableSize pg)"
    and "i + k \<le> n"
  shows "cellSizeCheck_loop k pg i lo hi = Some SQLITE_OK"
  using assms(2)
proof (induction k arbitrary: i)
  case (Suc k)
  then obtain sz where "get2byte (aData pg) (cellOffset pg + i * 2) = Some (os i)" "lo \<le> os i" "os i \<le> hi"
    "call_xCellSize pg (drop (os i) (aData pg)) = Some sz" "os i + unat sz \<le> usableSize pg"
    using assms(1) [of i] by auto
  then show ?case using Suc.IH [of "i + 1"] Suc.prems by simp
qed simp

lemma holds_cell_size:
  assumes "holds pg d os cs" "i < length cs" "cell_ok pg (cs ! i)"
  shows "call_xCellSize pg (drop (os ! i) d) = Some (word_of_nat (length (cs ! i)))"
    "unat (word_of_nat (length (cs ! i)) :: u16) = length (cs ! i)"
proof -
  have "content d (os ! i) (length (cs ! i)) = cs ! i" using assms(1,2) by (simp add: holds_def)
  then show "call_xCellSize pg (drop (os ! i) d) = Some (word_of_nat (length (cs ! i)))"
    using assms(3) drop_content [of d "os ! i" "length (cs ! i)" "cs ! i"] by (simp add: cell_ok_def)
  show "unat (word_of_nat (length (cs ! i)) :: u16) = length (cs ! i)"
    using assms(3) by (simp add: cell_ok_def unat_of_nat)
qed

lemma cell_count:
  assumes "\<And>c. c \<in> set cs \<Longrightarrow> 4 \<le> length c"
  shows "4 * length cs \<le> sum_list (map length cs)"
  using assms by (induction cs) force+

text \<open>The derived fields of a page agree with its flag byte.\<close>

definition flags_agree :: "MemPage \<Rightarrow> bool" where
  "flags_agree pg \<longleftrightarrow> decodeFlags pg (unat (aData pg ! hdrOffset pg)) = (SQLITE_OK, pg)"

lemma page_fits:
  assumes inv: "page_inv pg (extents os cs) bs ctop" and hold: "holds pg d os cs"
    and ok: "\<And>c. c \<in> set cs \<Longrightarrow> cell_ok pg c"
  shows "6 * nCell pg + hdrOffset pg + 8 \<le> usableSize pg"
proof -
  have "4 * length cs \<le> sum_list (map length cs)" using ok by (intro cell_count) (simp add: cell_ok_def)
  then show ?thesis
    using free_of_cells(2) [OF inv hold] page_invD(3,4,5) [OF inv] hold by (simp add: holds_def)
qed

lemma page_rep_cong:
  assumes rep: "page_rep pg cs" and "aData q = aData pg" "hdrOffset q = hdrOffset pg" "pBt q = pBt pg"
    "nCell q = nCell pg" "nFree q = nFree pg" "cellOffset q = cellOffset pg" "aCellIdx q = aCellIdx pg"
    "childPtrSize q = childPtrSize pg" "call_xCellSize q = call_xCellSize pg"
  shows "page_rep q cs"
proof -
  have "page_inv q A bs ctop = page_inv pg A bs ctop" for A bs ctop using assms by (simp add: page_inv_def)
  moreover have "holds q d os cs = holds pg d os cs" for d os using assms by (simp add: holds_def)
  moreover have "cell_ok q c = cell_ok pg c" for c using assms by (simp add: cell_ok_def)
  ultimately show ?thesis using assms unfolding page_rep_def by simp
qed

lemma reload_ok:
  assumes rep: "page_rep pg cs" and fl: "flags_agree pg"
    and q0: "aData q0 = aData pg" "hdrOffset q0 = hdrOffset pg" "pBt q0 = pBt pg"
    and ps: "usableSize pg \<le> unat (bt_pageSize (pBt pg))"
    and ck: "bt_cellSizeCk (pBt pg) \<Longrightarrow> leaf pg \<or> (\<forall>c\<in>set cs. 5 \<le> length c)"
  obtains q1 q2 where "btreeInitPage q0 = Some (SQLITE_OK, q1)" "btreeComputeFreeSpace q1 = Some (SQLITE_OK, q2)"
    "page_rep q2 cs" "nFree q2 = nFree pg" "aData q2 = aData pg"
proof -
  obtain os bs ctop where inv: "page_inv pg (extents os cs) bs ctop" and hold: "holds pg (aData pg) os cs"
    and r: "\<And>c. c \<in> set cs \<Longrightarrow> cell_ok pg c" "aCellIdx pg = cellOffset pg"
    "cellOffset pg = hdrOffset pg + 8 + childPtrSize pg" "length cs = nCell pg"
    by (rule page_repD [OF rep]) auto
  note v = page_invD [OF inv]
  let ?h = "hdrOffset pg" and ?d = "aData pg" and ?u = "usableSize pg" and ?k = "unat (aData pg ! hdrOffset pg)"
  have len: "?h + 8 \<le> length ?d" using v(1,3-5) by simp
  have flpg: "decodeFlags pg ?k = (SQLITE_OK, pg)" using fl by (simp add: flags_agree_def)
  obtain q where q: "decodeFlags q0 ?k = (SQLITE_OK, q)"
    using decodeFlags_code [of q0 ?k pg] flpg by (metis fst_conv prod.collapse)
  note fr = decodeFlags_frame(1-3) [OF q, unfolded q0]
  note sm = decodeFlags_same [OF q flpg q0(3)]
  define q1 where "q1 = q\<lparr>maskPage := ucast (bt_pageSize (pBt pg) - 1), nOverflow := 0,
         cellOffset := ?h + 8 + childPtrSize q, aCellIdx := ?h + childPtrSize q + 8,
         aDataEnd := unat (bt_pageSize (pBt pg)), aDataOfst := childPtrSize q, nCell := nCell pg,
         nFree := -1, isInit := True\<rparr>"
  have sz: "call_xCellSize q1 = call_xCellSize pg"
    by (rule call_xCellSize_cong) (use sm fr in \<open>simp_all add: q1_def\<close>)
  have flags: "rd8 ?d ?h = Some (?d ! ?h)" using len by (simp add: rd8_Some)
  have cnt: "get2byte ?d (?h + 3) = Some (nCell pg)" using len hold by (simp add: get2byte_eq holds_def)
  have mx: "\<not> nCell pg > MX_CELL (pBt pg)"
    using page_fits [OF inv hold r(1)] ps by (simp add: MX_CELL_def)
  have co: "cellOffset q1 = cellOffset pg" using r(3) sm(5) by (simp add: q1_def)
  have ck1: "btreeCellSizeCheck q1 = Some SQLITE_OK" if "bt_cellSizeCk (pBt pg)"
  proof -
    let ?hi = "if \<not> leaf q1 then ?u - 4 - 1 else ?u - 4"
    have "cellSizeCheck_loop (nCell pg) q1 0 (cellFirst pg) ?hi = Some SQLITE_OK"
    proof (rule cellSizeCheck_ok [where n = "nCell pg" and os = "(!) os"])
      fix j assume j: "j < nCell pg"
      have ce: "ctop \<le> os ! j" "os ! j + length (cs ! j) \<le> ?u" "4 \<le> length (cs ! j)"
        by (rule cell_extent [OF inv hold j])+
      have "leaf pg \<or> 5 \<le> length (cs ! j)" using ck [OF that] j r(4) by auto
      moreover have "leaf q1 = leaf pg" using sm(7) by (simp add: q1_def)
      ultimately have hi: "os ! j \<le> ?hi" using ce by (cases "leaf pg") simp_all
      have p: "get2byte (aData q1) (cellOffset q1 + j * 2) = Some (os ! j)"
        using hold j v(1,4,5) unfolding co by (simp add: q1_def fr get2byte_eq holds_def mult.commute)
      have "cell_ok pg (cs ! j)" using r(1,4) j by simp
      then have "call_xCellSize q1 (drop (os ! j) (aData q1)) = Some (word_of_nat (length (cs ! j)))"
        "unat (word_of_nat (length (cs ! j)) :: u16) = length (cs ! j)"
        using holds_cell_size [OF hold, of j] j r(4) by (simp_all add: sz) (simp add: q1_def fr)
      then show "get2byte (aData q1) (cellOffset q1 + j * 2) = Some (os ! j) \<and> cellFirst pg \<le> os ! j \<and> os ! j \<le> ?hi
        \<and> (\<exists>sz. call_xCellSize q1 (drop (os ! j) (aData q1)) = Some sz \<and> os ! j + unat sz \<le> usableSize q1)"
        using p hi ce v(4) by (simp add: q1_def fr)
    qed simp
    moreover have "nCell q1 = nCell pg" "usableSize q1 = ?u" by (simp_all add: q1_def fr)
    ultimately show ?thesis unfolding btreeCellSizeCheck_def Let_def co by (cases "leaf q1") simp_all
  qed
  have init: "btreeInitPage q0 = Some (SQLITE_OK, q1)"
  proof -
    have e: "q\<lparr>maskPage := ucast (bt_pageSize (pBt pg) - 1), nOverflow := 0,
         cellOffset := ?h + 8 + childPtrSize q, aCellIdx := ?h + childPtrSize q + 8,
         aDataEnd := unat (bt_pageSize (pBt pg)), aDataOfst := childPtrSize q, nCell := nCell pg\<rparr>
         \<lparr>nFree := -1, isInit := True\<rparr> = q1" by (simp add: q1_def)
    show ?thesis
      unfolding btreeInitPage_def Let_def q0 flags Option.bind.simps q prod.case fr(1) cnt e
      using mx ck1 by simp
  qed
  define q2 where "q2 = q1\<lparr>nFree := nFree pg\<rparr>"
  have sz2: "call_xCellSize q2 = call_xCellSize pg"
    by (rule call_xCellSize_cong) (use sm fr in \<open>simp_all add: q2_def q1_def\<close>)
  have rep2: "page_rep q2 cs"
    by (rule page_rep_cong [OF rep _ _ _ _ _ _ _ _ sz2])
      (use fr co r(2,3) sm in \<open>simp_all add: q2_def q1_def\<close>)
  have "page_inv q2 (extents os cs) bs ctop"
    using inv co by (simp add: page_inv_def q2_def) (simp add: q1_def fr)
  then have "btreeComputeFreeSpace (q2\<lparr>nFree := -1\<rparr>) = Some (SQLITE_OK, q2)"
    by (rule computeFree_ok) (simp add: q2_def q1_def fr)
  moreover have "q2\<lparr>nFree := -1\<rparr> = q1" by (simp add: q2_def q1_def)
  ultimately show thesis
    using that [OF init] rep2 by (simp add: q2_def) (simp add: q1_def fr)
qed

text \<open>The page mask of a page size that is a power of two.\<close>

lemma mask_page:
  assumes "unat (bt_pageSize bt) = 2 ^ k" "k \<le> 16" "x < 2 ^ k"
  shows "unat (ucast (bt_pageSize bt - 1) :: u16) AND x = x"
proof -
  have "bt_pageSize bt \<noteq> 0" using assms(1) by (metis power_not_zero unat_0 zero_neq_numeral)
  then have "unat (bt_pageSize bt - 1) = 2 ^ k - 1" using assms(1) by (simp add: unat_minus_one)
  moreover have "(2::nat) ^ k - 1 < 65536"
    using power_increasing [OF assms(2), of "2::nat"] by simp
  ultimately have "unat (ucast (bt_pageSize bt - 1) :: u16) = 2 ^ k - 1"
    by (simp add: unat_ucast16)
  moreover have "(2 ^ k - 1) AND x = x"
    using take_bit_eq_mask [of k x] assms(3) by (simp add: take_bit_nat_eq_self mask_eq_exp_minus_1 and.commute)
  ultimately show ?thesis by simp
qed

text \<open>Reading the \<open>i\<close>-th cell.\<close>

lemma findCell_ok:
  assumes rep: "page_rep pg cs" and i: "i < length cs"
    and ps: "unat (bt_pageSize (pBt pg)) = 2 ^ k" "k \<le> 16" "usableSize pg \<le> unat (bt_pageSize (pBt pg))"
    and mask: "maskPage pg = ucast (bt_pageSize (pBt pg) - 1)"
  obtains pc tail where "findCell pg i = Some pc" "pc + length (cs ! i) \<le> usableSize pg"
    "drop pc (aData pg) = cs ! i @ tail"
proof -
  obtain os bs ctop where inv: "page_inv pg (extents os cs) bs ctop" and hold: "holds pg (aData pg) os cs"
    and r: "aCellIdx pg = cellOffset pg" "length cs = nCell pg"
    by (rule page_repD [OF rep]) auto
  note v = page_invD [OF inv]
  have ce: "os ! i + length (cs ! i) \<le> usableSize pg" "4 \<le> length (cs ! i)"
    using cell_extent [OF inv hold, of i] i r by simp_all
  have "get2byte (aData pg) (cellOffset pg + 2 * i) = Some (os ! i)"
    using hold i r v(1,4,5) by (simp add: get2byte_eq holds_def)
  moreover have "os ! i < 2 ^ k" using ce ps by linarith
  ultimately have "findCell pg i = Some (os ! i)"
    using mask_page [OF ps(1,2), of "os ! i"] mask r by (simp add: findCell_def)
  moreover have "drop (os ! i) (aData pg) = cs ! i @ drop (os ! i + length (cs ! i)) (aData pg)"
    using hold i r by (intro drop_content) (simp add: holds_def)
  ultimately show thesis using that ce(1) by blast
qed

lemma computeFree_loop_safe:
  assumes "u \<le> length d" "4 \<le> u"
  shows "\<exists>rc nxt p n f'. computeFree_loop d (u - 4) pc f = Some (rc, nxt, p, n, f')"
proof (induction "u - 3 - pc" arbitrary: pc f rule: less_induct)
  case less
  show ?case
  proof (cases "pc > u - 4")
    case False
    then have g: "get2byte d pc = Some (g2 d pc)" "get2byte d (pc + 2) = Some (g2 d (pc + 2))"
      using assms by (simp_all add: get2byte_eq)
    show ?thesis
    proof (cases "g2 d pc \<le> pc + g2 d (pc + 2) + 3")
      case True
      then show ?thesis using False g by (subst computeFree_loop.simps) simp
    next
      case more: False
      then have "u - 3 - g2 d pc < u - 3 - pc" using False assms by linarith
      from less [OF this] show ?thesis using more g False by (subst computeFree_loop.simps) simp
    qed
  qed (subst computeFree_loop.simps, simp)
qed

lemma computeFree_safe:
  assumes "in_page pg" "usableSize pg \<le> 65536" "cellOffset pg = hdrOffset pg + 8 + childPtrSize pg"
  shows "\<exists>rc pg'. btreeComputeFreeSpace pg = Some (rc, pg')
    \<and> (rc = SQLITE_OK \<longrightarrow> 0 \<le> nFree pg' \<and> int (cellFirst pg) + nFree pg' \<le> int (usableSize pg))"
proof -
  let ?d = "aData pg" and ?h = "hdrOffset pg" and ?u = "usableSize pg"
  have len: "?h + 8 \<le> ?u" "?u \<le> length ?d" using assms(1) by (simp_all add: in_page_def)
  have bytes: "get2byte ?d (?h + 1) = Some (g2 ?d (?h + 1))" "rd8 ?d (?h + 7) = Some (?d ! (?h + 7))"
    using len by (simp_all add: get2byte_eq rd8_Some)
  obtain t where t: "get2byteNotZero ?d (?h + 5) = Some t" using len by (simp add: get2byteNotZero_eq)
  have u4: "4 \<le> ?u" using len(1) by linarith
  obtain rc nxt p n f where lp: "computeFree_loop ?d (?u - 4) (g2 ?d (?h + 1)) (unat (?d ! (?h + 7)) + t) = Some (rc, nxt, p, n, f)"
    using computeFree_loop_safe [OF len(2) u4] by blast
  have ok: "0 \<le> int ((x - k) mod 65536) \<and> int k + int ((x - k) mod 65536) \<le> int ?u"
    if "\<not> (x > ?u \<or> x < k)" for x k
    using that mod_less_eq_dividend [of "x - k" 65536] by linarith
  have "\<exists>c x. (if g2 ?d (?h + 1) > 0
        then if g2 ?d (?h + 1) < t then Some (SQLITE_CORRUPT, unat (?d ! (?h + 7)) + t)
             else Some (if rc \<noteq> SQLITE_OK then rc
                     else if nxt > 0 then SQLITE_CORRUPT
                     else if p + n > ?u then SQLITE_CORRUPT
                     else SQLITE_OK, f)
        else Some (SQLITE_OK, unat (?d ! (?h + 7)) + t)) = Some (c, x)" by simp
  then obtain c x where m: "(if g2 ?d (?h + 1) > 0
        then if g2 ?d (?h + 1) < t then Some (SQLITE_CORRUPT, unat (?d ! (?h + 7)) + t)
             else Some (if rc \<noteq> SQLITE_OK then rc
                     else if nxt > 0 then SQLITE_CORRUPT
                     else if p + n > ?u then SQLITE_CORRUPT
                     else SQLITE_OK, f)
        else Some (SQLITE_OK, unat (?d ! (?h + 7)) + t)) = Some (c, x)" by blast
  show ?thesis
    unfolding btreeComputeFreeSpace_def Let_def bytes t lp assms(3) Option.bind.simps prod.case m
    using ok [of x "?h + 8 + childPtrSize pg + 2 * nCell pg"] by simp
qed

section \<open>Sequences of operations\<close>

lemma decodeFlags_upd:
  "decodeFlags (pg\<lparr>aData := d, nFree := f, nCell := k\<rparr>) b =
     (fst (decodeFlags pg b), (snd (decodeFlags pg b))\<lparr>aData := d, nFree := f, nCell := k\<rparr>)"
  by (simp add: decodeFlags_def Let_def)

lemma flags_agree_keep:
  assumes "flags_agree pg" "outer_same pg (aData pg) d" "hdrOffset pg + 8 \<le> cellOffset pg"
  shows "flags_agree (with_cells pg d f k)"
proof -
  have "d ! hdrOffset pg = aData pg ! hdrOffset pg"
    using assms(2,3) by (simp add: outer_same_def hdr_fields_def)
  then show ?thesis using assms(1) by (simp add: flags_agree_def with_cells_def decodeFlags_upd)
qed

text \<open>The pages that the operations build, with the list of cells that the specification gives them.\<close>

inductive page_run :: "MemPage \<Rightarrow> bytes list \<Rightarrow> bool" where
  start: "decodeFlags pg k = (SQLITE_OK, q) \<Longrightarrow> hdrOffset pg + 12 \<le> usableSize pg \<Longrightarrow>
     usableSize pg \<le> length (aData pg) \<Longrightarrow> usableSize pg \<le> 65536 \<Longrightarrow>
     zeroPage pg k = Some pg' \<Longrightarrow> page_run pg' []"
| insert_fast: "page_run pg cs \<Longrightarrow> i \<le> length cs \<Longrightarrow> sz \<le> length pCell \<Longrightarrow> cell_ok pg (take sz pCell) \<Longrightarrow>
     int sz + 2 \<le> nFree pg \<Longrightarrow> usableSize pg \<le> length temp \<Longrightarrow> pw pg = SQLITE_OK \<Longrightarrow>
     insertCellFast pw ptrmap temp pg i pCell sz = Some (rc, pg') \<Longrightarrow> page_run pg' (ins i (take sz pCell) cs)"
| insert: "page_run pg cs \<Longrightarrow> i \<le> length cs \<Longrightarrow> 4 \<le> sz \<Longrightarrow> sz \<le> length pCell \<Longrightarrow>
     cell_ok pg (sqlite3Put4byte iChild @ drop 4 (take sz pCell)) \<Longrightarrow> nOverflow pg = 0 \<Longrightarrow>
     int sz + 2 \<le> nFree pg \<Longrightarrow> usableSize pg \<le> length temp \<Longrightarrow> pw pg = SQLITE_OK \<Longrightarrow>
     insertCell pw ptrmap temp pg i pCell sz pTemp iChild = Some (rc, pg') \<Longrightarrow>
     page_run pg' (ins i (sqlite3Put4byte iChild @ drop 4 (take sz pCell)) cs)"
| drop: "page_run pg cs \<Longrightarrow> i < length cs \<Longrightarrow> dropCell pg i (length (cs ! i)) SQLITE_OK = Some (rc, pg') \<Longrightarrow>
     page_run pg' (rem_nth i cs)"

lemma page_rep_header: "page_rep pg cs \<Longrightarrow> hdrOffset pg + 8 \<le> cellOffset pg"
  by (simp add: page_rep_def)

lemma decodeFlags_idem:
  assumes "decodeFlags p k = (SQLITE_OK, q)" "pg' = q\<lparr>cellOffset := a, aDataEnd := b,
     aCellIdx := c, aDataOfst := d, nOverflow := e, maskPage := m, nCell := n, isInit := i\<rparr>"
  shows "decodeFlags pg' k = (SQLITE_OK, pg')"
  using assms by (auto simp: decodeFlags_def Let_def split: if_splits)

lemma zeroPage_flags:
  assumes "decodeFlags pg k = (SQLITE_OK, q)" "zeroPage pg k = Some pg'" "aData pg' ! hdrOffset pg = cast8 k"
  shows "flags_agree pg'"
proof -
  have k: "k \<in> {2, 5, 10, 13}"
    using assms(1) unfolding decodeFlags_def Let_def PTF_LEAF_def PTF_ZERODATA_def PTF_INTKEY_def PTF_LEAFDATA_def
    by (auto split: if_splits)
  then have "unat (cast8 k) = k" by (auto simp: unat_cast8)
  obtain p where p: "pg' = (snd (decodeFlags p k))\<lparr>cellOffset := cellOffset pg', aDataEnd := aDataEnd pg',
     aCellIdx := aCellIdx pg', aDataOfst := aDataOfst pg', nOverflow := 0, maskPage := maskPage pg',
     nCell := 0, isInit := True\<rparr>" "hdrOffset p = hdrOffset pg"
    using assms(2) unfolding zeroPage_def Let_def bind_eq_Some_conv by fastforce
  moreover have dp: "decodeFlags p k = (SQLITE_OK, snd (decodeFlags p k))"
    using decodeFlags_code [of p k pg] assms(1) by (metis fst_conv prod.collapse)
  moreover have h': "hdrOffset pg' = hdrOffset pg"
    using decodeFlags_frame(2) [OF dp] p(2) by (subst p(1)) simp
  ultimately have "decodeFlags pg' k = (SQLITE_OK, pg')" using decodeFlags_idem by metis
  then show ?thesis using \<open>unat (cast8 k) = k\<close> assms(3) h' by (simp add: flags_agree_def)
qed

lemma page_run_rep:
  assumes "page_run pg cs"
  shows "page_rep pg cs \<and> flags_agree pg"
  using assms
proof induction
  case (start pg k q pg')
  obtain p where "zeroPage pg k = Some p" "page_rep p []" "aData p ! hdrOffset pg = cast8 k"
    by (rule zeroPage_ok [OF start(1-4)])
  then show ?case using start(1,5) zeroPage_flags by simp
next
  case (insert_fast pg cs i sz pCell temp pw ptrmap rc pg')
  then have rep: "page_rep pg cs" "flags_agree pg" by simp_all
  show ?case
    by (rule insertCellFast_ok [where sqlite3PagerWrite = pw and ptrmap = ptrmap, OF rep(1) insert_fast(2,4,3,5,6,7)])
      (use flags_agree_keep [OF rep(2) _ page_rep_header [OF rep(1)]] insert_fast(8) in auto)
next
  case (insert pg cs i sz pCell iChild temp pw ptrmap pTemp rc pg')
  then have rep: "page_rep pg cs" "flags_agree pg" by simp_all
  show ?case
    by (rule insertCell_ok [where sqlite3PagerWrite = pw and ptrmap = ptrmap and pTemp = pTemp,
          OF rep(1) insert(2-9)])
      (use flags_agree_keep [OF rep(2) _ page_rep_header [OF rep(1)]] insert(10) in auto)
next
  case (drop pg cs i rc pg')
  then have rep: "page_rep pg cs" "flags_agree pg" by simp_all
  show ?case
    by (rule dropCell_ok [OF rep(1) drop(2)])
      (use flags_agree_keep [OF rep(2) _ page_rep_header [OF rep(1)]] drop(3) in auto)
qed

section \<open>An example\<close>

text \<open>A table leaf of 512 bytes with one cell, at the end of the page.\<close>

definition example_cell :: bytes where
  "example_cell = [2, 7, 1, 2]"

definition example_leaf :: MemPage where
  "example_leaf = example_page\<lparr>isInit := True, intKey := True, intKeyLeaf := True, leaf := True,
     max1bytePayload := bt_max1bytePayload (lockBtree_limits example_bt),
     maxLocal := bt_maxLeaf (lockBtree_limits example_bt), minLocal := bt_minLeaf (lockBtree_limits example_bt),
     nFree := 498, nCell := 1, xCellSize := cellSizePtrTableLeaf_fn,
     aData := [13, 0, 0, 0, 1, 1, 252, 0, 1, 252] @ replicate 498 0 @ example_cell\<rparr>"

lemma example_leaf_simps [simp]:
  "hdrOffset example_leaf = 0" "cellOffset example_leaf = 8" "aCellIdx example_leaf = 8" "childPtrSize example_leaf = 0"
  "nCell example_leaf = 1" "nFree example_leaf = 498" "bt_usableSize (pBt example_leaf) = 512"
  "bt_pageSize (pBt example_leaf) = 512" "bt_cellSizeCk (pBt example_leaf) = False"
  "bt_autoVacuum (pBt example_leaf) = False" "nOverflow example_leaf = 0" "leaf example_leaf = True"
  "length (aData example_leaf) = 512"
  by (simp_all add: example_leaf_def example_page_def lockBtree_limits_def example_bt_def example_cell_def Let_def)

lemma example_leaf_bt: "pBt example_leaf = lockBtree_limits example_bt"
  by (simp add: example_leaf_def example_page_def)

lemma example_bytes:
  "aData example_leaf ! 0 = 13" "g2 (aData example_leaf) 1 = 0" "g2 (aData example_leaf) 3 = 1"
  "g2 (aData example_leaf) 5 = 508" "aData example_leaf ! 7 = 0" "g2 (aData example_leaf) 8 = 508"
  "content (aData example_leaf) 508 4 = example_cell"
  by (simp_all add: example_leaf_def g2_def content_def nth_append example_cell_def)

lemma example_flags: "flags_agree example_leaf"
proof -
  have "decodeFlags example_leaf 13 = (SQLITE_OK, example_leaf)"
    by (simp add: decodeFlags_def Let_def PTF_ZERODATA_def PTF_LEAF_def PTF_LEAFDATA_def PTF_INTKEY_def)
      (simp add: example_leaf_def example_page_def lockBtree_limits_def example_bt_def Let_def)
  then show ?thesis by (simp add: flags_agree_def example_bytes)
qed

lemma example_leaf_cell: "cell_ok example_leaf example_cell"
proof -
  have d: "decodeFlags example_leaf 13 = (SQLITE_OK, example_leaf)"
    using example_flags by (simp add: flags_agree_def example_bytes)
  have l: "page_limits example_leaf"
    by (rule decodeFlags_limits [OF example_ok(1) example_leaf_bt d])
  have p: "xParseCell example_leaf = btreeParseCellPtr_fn" by (simp add: example_leaf_def example_page_def)
  obtain info where i: "call_xParseCell example_leaf example_cell = Some info" "unat (nSize info) = 4"
  proof -
    have "unat (maxLocal example_leaf) = 477"
      by (simp add: example_leaf_def limits_values [OF example_ok(1)]) (simp add: example_bt_def)
    then have m: "(2::u32) \<le> ucast (maxLocal example_leaf)" by (simp add: word_le_nat_alt unat_ucast32)
    show thesis
      by (rule that [of "\<lparr>nKey = 7, pPayload = Some 2, nPayload = 2, nLocal = 2, nSize = 4\<rparr>"])
        (use m in \<open>simp_all add: p call_xParseCell_def btreeParseCellPtr_def nPayload_read_spec rd8_def
        iKey_read_def parseCell_tail_def example_cell_def u16_of_def\<close>)
  qed
  show ?thesis by (rule parsed_cell_ok [OF l d i(1)]) (simp add: i(2) example_cell_def)
qed

lemma example_inv: "page_inv example_leaf (extents [508] [example_cell]) [] 508"
proof -
  have e: "extents [508] [example_cell] = {(508, 4)}" by (simp add: extents_def example_cell_def)
  have c: "cover {(508, 4)} = {508 ..< 512}" by (simp add: cover_def ext_def)
  have "{10 ..< 512} - {508 ..< 512} = {10 ..< 508::nat}" by auto
  then show ?thesis
    unfolding page_inv_def e c by (simp add: example_bytes example_bytes [simplified])
qed

lemma example_holds: "holds example_leaf (aData example_leaf) [508] [example_cell]"
proof -
  have "length example_cell = 4" by (simp add: example_cell_def)
  then show ?thesis by (simp add: holds_def example_bytes)
qed

lemma example_rep: "page_rep example_leaf [example_cell]"
  unfolding page_rep_def using example_inv example_holds example_leaf_cell by auto


section \<open>The properties\<close>

text \<open>
  C13. A page that \<^verbatim>\<open>zeroPage\<close> set up and that any sequence of insertions and
  deletions of cells changed, each of which the page has room for, holds exactly the list of
  cells that the same sequence of list operations gives: its pointers lead to the cells in order,
  cells and free blocks do not overlap, the fragment byte counts the remaining bytes, the flag
  byte agrees with the derived fields, and the free bytes that the operations kept up to date are
  those that \<^verbatim>\<open>btreeComputeFreeSpace\<close> counts anew.
\<close>

theorem page_run_invariant:
  assumes "page_run pg cs"
  shows "page_rep pg cs \<and> flags_agree pg
    \<and> nFree pg = int (usableSize pg) - int (cellFirst pg) - int (sum_list (map length cs))
    \<and> btreeComputeFreeSpace (pg\<lparr>nFree := f\<rparr>) = Some (SQLITE_OK, pg)"
proof -
  have rep: "page_rep pg cs" "flags_agree pg" using page_run_rep [OF assms] by simp_all
  obtain os bs ctop where "page_inv pg (extents os cs) bs ctop" "holds pg (aData pg) os cs"
    "cellOffset pg = hdrOffset pg + 8 + childPtrSize pg"
    by (rule page_repD [OF rep(1)]) auto
  then show ?thesis using rep free_of_cells(1) computeFree_ok by blast
qed

lemma example_run_start:
  obtains pg where "page_run pg []" "nFree pg = 504" "call_xCellSize pg = call_xCellSize example_leaf"
    "usableSize pg = 512" "bt_autoVacuum (pBt pg) = False"
proof -
  have d: "decodeFlags example_leaf 13 = (SQLITE_OK, example_leaf)"
    using example_flags by (simp add: flags_agree_def example_bytes)
  have u: "hdrOffset example_leaf + 12 \<le> usableSize example_leaf"
    "usableSize example_leaf \<le> length (aData example_leaf)" "usableSize example_leaf \<le> 65536" by simp_all
  obtain pg where z: "zeroPage example_leaf 13 = Some pg" "page_rep pg []"
    "nFree pg = int (usableSize example_leaf) - int (hdrOffset example_leaf) - (if leaf pg then 8 else 12)"
    "aData pg ! hdrOffset example_leaf = cast8 13" "pBt pg = pBt example_leaf" "hdrOffset pg = hdrOffset example_leaf"
    by (rule zeroPage_ok [OF d u])
  have "decodeFlags pg 13 = (SQLITE_OK, pg)"
    using zeroPage_flags [OF d z(1)] z(4,6) by (simp add: flags_agree_def unat_cast8)
  note same = decodeFlags_same [OF this d z(5)]
  have "call_xCellSize pg = call_xCellSize example_leaf"
    by (rule call_xCellSize_cong) (use same z(5) in simp_all)
  then show thesis
    using that [OF page_run.start [OF d u z(1)]] z(3,5) same(7) by simp
qed

theorem page_run_invariant_witness:
  "\<exists>pg. page_run pg [example_cell] \<and> page_rep pg [example_cell] \<and> nFree pg = 498"
proof -
  obtain pg0 where p: "page_run pg0 []" "nFree pg0 = 504" "call_xCellSize pg0 = call_xCellSize example_leaf"
    "usableSize pg0 = 512" "bt_autoVacuum (pBt pg0) = False"
    by (rule example_run_start)
  have c: "cell_ok pg0 (take 4 example_cell)"
    using example_leaf_cell p(3) by (simp add: cell_ok_def example_cell_def)
  have a: "0 \<le> length ([]::bytes list)" "4 \<le> length example_cell" "int 4 + 2 \<le> nFree pg0"
    "usableSize pg0 \<le> length (replicate 512 (0::u8))" "(\<lambda>_. SQLITE_OK) pg0 = SQLITE_OK"
    using p by (simp_all add: example_cell_def)
  have rep: "page_rep pg0 []" using page_run_rep [OF p(1)] by simp
  obtain d where i: "insertCellFast (\<lambda>_. SQLITE_OK) (\<lambda>_ _. SQLITE_OK) (replicate 512 0) pg0 0 example_cell 4
     = Some (SQLITE_OK, with_cells pg0 d (nFree pg0 - 2 - int 4) (Suc (nCell pg0)))"
    by (rule insertCellFast_ok [where sqlite3PagerWrite = "\<lambda>_. SQLITE_OK" and ptrmap = "\<lambda>_ _. SQLITE_OK",
          OF rep a(1) c a(2-5)]) (use p(5) in simp)
  define pg where "pg = with_cells pg0 d (nFree pg0 - 2 - int 4) (Suc (nCell pg0))"
  have "page_run pg (ins 0 (take 4 example_cell) [])"
    by (rule page_run.insert_fast [OF p(1) a(1,2) c a(3-5) i [folded pg_def]])
  then have run: "page_run pg [example_cell]" by (simp add: ins_def example_cell_def)
  moreover have "nFree pg = 498" by (simp add: pg_def with_cells_def p(2))
  ultimately show ?thesis using page_run_invariant [OF run, of 0] by blast
qed

text \<open>
  C14. Insertion: on a page that holds the cells \<open>cs\<close> and has room for one more,
  \<^verbatim>\<open>insertCellFast\<close> succeeds, whatever the layout (free slot, gap, or
  defragmentation), and leaves a page that holds \<open>cs\<close> with the new cell at index \<open>i\<close>; it uses the
  bytes of the cell and of its pointer and changes nothing outside the page's own areas.
\<close>

theorem insertCellFast_inserts:
  assumes "page_rep pg cs" "i \<le> length cs" "cell_ok pg (take sz pCell)" "sz \<le> length pCell"
    and "int sz + 2 \<le> nFree pg" "usableSize pg \<le> length temp" "pw pg = SQLITE_OK"
  shows "\<exists>rc pg'. insertCellFast pw ptrmap temp pg i pCell sz = Some (rc, pg')
    \<and> (rc = SQLITE_OK \<or> bt_autoVacuum (pBt pg) \<and> rc = ptrmap pg' pCell)
    \<and> page_rep pg' (ins i (take sz pCell) cs) \<and> nFree pg' = nFree pg - 2 - int sz
    \<and> outer_same pg (aData pg) (aData pg')"
proof -
  obtain d where "insertCellFast pw ptrmap temp pg i pCell sz
     = Some (if bt_autoVacuum (pBt pg) then ptrmap (with_cells pg d (nFree pg - 2 - int sz) (Suc (nCell pg))) pCell
         else SQLITE_OK, with_cells pg d (nFree pg - 2 - int sz) (Suc (nCell pg)))"
    "page_rep (with_cells pg d (nFree pg - 2 - int sz) (Suc (nCell pg))) (ins i (take sz pCell) cs)"
    "outer_same pg (aData pg) d"
    by (rule insertCellFast_ok [where sqlite3PagerWrite = pw and ptrmap = ptrmap, OF assms])
  moreover have "aData (with_cells pg d f k) = d" "nFree (with_cells pg d f k) = f" for f k
    by (simp_all add: with_cells_def)
  ultimately show ?thesis by auto
qed

theorem insertCellFast_inserts_witness:
  "\<exists>pg'. insertCellFast (\<lambda>_. SQLITE_OK) (\<lambda>_ _. SQLITE_OK) (replicate 512 0) example_leaf 0 example_cell 4
      = Some (SQLITE_OK, pg') \<and> page_rep pg' [example_cell, example_cell] \<and> nFree pg' = 492"
proof -
  have c: "take 4 example_cell = example_cell" "4 \<le> length example_cell" by (simp_all add: example_cell_def)
  have "usableSize example_leaf \<le> length (replicate 512 (0::u8))" by simp
  then show ?thesis
    using insertCellFast_inserts [of example_leaf "[example_cell]" 0 4 example_cell "replicate 512 0"
        "\<lambda>_. SQLITE_OK" "\<lambda>_ _. SQLITE_OK"] c example_rep example_leaf_cell by (auto simp: ins_def)
qed

text \<open>
  C15. Deletion: on a page that holds the cells \<open>cs\<close>, \<^verbatim>\<open>dropCell\<close> of the cell at
  index \<open>i\<close>, with its size, succeeds and leaves a page that holds \<open>cs\<close> without it. The bytes of
  the cell and of its pointer are free again.
\<close>

theorem dropCell_deletes:
  assumes "page_rep pg cs" "i < length cs"
  shows "\<exists>pg'. dropCell pg i (length (cs ! i)) SQLITE_OK = Some (SQLITE_OK, pg')
    \<and> page_rep pg' (rem_nth i cs) \<and> nFree pg' = nFree pg + 2 + int (length (cs ! i))
    \<and> outer_same pg (aData pg) (aData pg')"
proof -
  obtain d where "dropCell pg i (length (cs ! i)) SQLITE_OK
     = Some (SQLITE_OK, with_cells pg d (nFree pg + 2 + int (length (cs ! i))) (nCell pg - 1))"
    "page_rep (with_cells pg d (nFree pg + 2 + int (length (cs ! i))) (nCell pg - 1)) (rem_nth i cs)"
    "outer_same pg (aData pg) d"
    by (rule dropCell_ok [OF assms])
  moreover have "aData (with_cells pg d f k) = d" "nFree (with_cells pg d f k) = f" for f k
    by (simp_all add: with_cells_def)
  ultimately show ?thesis by auto
qed

theorem dropCell_deletes_witness:
  "\<exists>pg'. dropCell example_leaf 0 4 SQLITE_OK = Some (SQLITE_OK, pg') \<and> page_rep pg' [] \<and> nFree pg' = 504"
proof -
  have "length ([example_cell] ! 0) = 4" by (simp add: example_cell_def)
  moreover have "rem_nth 0 [example_cell] = []" by (simp add: rem_nth_def)
  ultimately show ?thesis using dropCell_deletes [OF example_rep, of 0] by auto
qed

text \<open>
  C16. \<^verbatim>\<open>freeSpace\<close> keeps the layout of the page: the extent of a cell joins the free
  list, merged with the blocks and fragments next to it or with the gap, the fragment count and
  the free bytes are adjusted, and the other cells keep their bytes.
\<close>

theorem freeSpace_keeps_layout:
  assumes "page_inv pg A bs ctop" "c \<in> A"
  shows "\<exists>pg' bs' ctop'. freeSpace pg (fst c) (snd c) = Some (SQLITE_OK, pg')
    \<and> page_inv pg' (A - {c}) bs' ctop' \<and> nFree pg' = nFree pg + int (snd c)
    \<and> (\<forall>a\<in>A - {c}. content (aData pg') (fst a) (snd a) = content (aData pg) (fst a) (snd a))"
proof -
  obtain d' bs' ctop' where r:
    "freeSpace pg (fst c) (snd c) = Some (SQLITE_OK, pg\<lparr>aData := d', nFree := nFree pg + int (snd c)\<rparr>)"
    "page_inv (pg\<lparr>aData := d', nFree := nFree pg + int (snd c)\<rparr>) (A - {c}) bs' ctop'"
    "frame_ok pg ctop (A - {c}) d'"
    by (rule freeSpace_ok [OF assms])
  have same: "content d' (fst a) (snd a) = content (aData pg) (fst a) (snd a)" if a: "a \<in> A - {c}" for a
  proof (rule content_cong)
    show "length d' = length (aData pg)" using r(3) by (simp add: frame_ok_def)
    fix x assume x: "fst a \<le> x" "x < fst a + snd a"
    have "ctop \<le> fst a" using page_invD(10) [OF assms(1)] a by blast
    then have "x \<notin> hdr_fields pg" using x page_invD(3,4) [OF assms(1)] by (auto simp: hdr_fields_def)
    moreover have "x \<in> cover (A - {c})" using a x by (force simp: cover_def ext_def)
    ultimately show "d' ! x = aData pg ! x" using r(3) by (simp add: frame_ok_def)
  qed
  show ?thesis
  proof (intro exI conjI ballI)
    fix a assume "a \<in> A - {c}"
    then show "content (aData (pg\<lparr>aData := d', nFree := nFree pg + int (snd c)\<rparr>)) (fst a) (snd a)
        = content (aData pg) (fst a) (snd a)" using same by simp
  qed (rule r(1), rule r(2), simp)
qed

theorem freeSpace_keeps_layout_witness:
  "\<exists>pg' bs' ctop'. freeSpace example_leaf 508 4 = Some (SQLITE_OK, pg') \<and> page_inv pg' {} bs' ctop' \<and> nFree pg' = 502"
proof -
  have e: "extents [508] [example_cell] = {(508, 4)}" by (simp add: extents_def example_cell_def)
  show ?thesis using freeSpace_keeps_layout [OF example_inv [unfolded e], of "(508, 4)"] by auto
qed

text \<open>
  C17. \<^verbatim>\<open>defragmentPage\<close>, by its fast path or by copying every cell, succeeds on every
  page that holds cells: the page holds the same cells in the same order, has no free blocks, all
  its free space in one gap, and as many fragment bytes as before or none.
\<close>

theorem defragment_keeps_cells:
  assumes "page_inv pg (extents os cs) bs ctop" "holds pg (aData pg) os cs"
    and "\<forall>c\<in>set cs. cell_ok pg c" "usableSize pg \<le> length temp"
  shows "\<exists>pg' os' cb. defragmentPage pg nMaxFrag temp = Some (SQLITE_OK, pg')
    \<and> page_inv pg' (extents os' cs) [] cb \<and> holds pg' (aData pg') os' cs
    \<and> nFree pg' = nFree pg
    \<and> (aData pg' ! (hdrOffset pg + 7) = 0 \<or> uint (aData pg' ! (hdrOffset pg + 7)) \<le> nMaxFrag)
    \<and> outer_same pg (aData pg) (aData pg')"
proof -
  obtain fr where "defrag_result pg cs fr (defragmentPage pg nMaxFrag temp)" "fr = 0 \<or> uint fr \<le> nMaxFrag"
    by (rule defragmentPage_ok [OF assms(1,2) _ assms(4)]) (use assms(3) in auto)
  then obtain d' os' cb where r: "defragmentPage pg nMaxFrag temp = Some (SQLITE_OK, pg\<lparr>aData := d'\<rparr>)"
    "page_inv (pg\<lparr>aData := d'\<rparr>) (extents os' cs) [] cb" "holds pg d' os' cs" "outer_same pg (aData pg) d'"
    "d' ! (hdrOffset pg + 7) = 0 \<or> uint (d' ! (hdrOffset pg + 7)) \<le> nMaxFrag"
    unfolding defrag_result_def by blast
  moreover have "holds (pg\<lparr>aData := d'\<rparr>) d' os' cs" using r(3) by (simp add: holds_def)
  ultimately show ?thesis
    by (intro exI [of _ "pg\<lparr>aData := d'\<rparr>"] exI [of _ os'] exI [of _ cb]) simp
qed

theorem defragment_keeps_cells_witness:
  "\<exists>pg' os' cb. defragmentPage example_leaf 4 (replicate 512 0) = Some (SQLITE_OK, pg')
    \<and> page_inv pg' (extents os' [example_cell]) [] cb \<and> holds pg' (aData pg') os' [example_cell]"
proof -
  have "usableSize example_leaf \<le> length (replicate 512 (0::u8))" by simp
  then show ?thesis
    using defragment_keeps_cells [OF example_inv example_holds _, of "replicate 512 0" 4] example_leaf_cell by auto
qed

text \<open>
  C18. A page that was written is read back: \<^verbatim>\<open>btreeInitPage\<close> and
  \<^verbatim>\<open>btreeComputeFreeSpace\<close> on its bytes, from any old values of the other fields,
  accept it, also with the check of all cell sizes, and answer a page that holds the same cells with
  the same number of free bytes.
\<close>

theorem page_read_back:
  assumes "page_rep pg cs" "flags_agree pg"
    and "aData q = aData pg" "hdrOffset q = hdrOffset pg" "pBt q = pBt pg"
    and "usableSize pg \<le> unat (bt_pageSize (pBt pg))"
    and "bt_cellSizeCk (pBt pg) \<longrightarrow> leaf pg \<or> (\<forall>c\<in>set cs. 5 \<le> length c)"
  shows "\<exists>q1 q2. btreeInitPage q = Some (SQLITE_OK, q1) \<and> btreeComputeFreeSpace q1 = Some (SQLITE_OK, q2)
    \<and> page_rep q2 cs \<and> nFree q2 = nFree pg \<and> aData q2 = aData pg"
  by (rule reload_ok [OF assms(1-6)]) (use assms(7) in auto)

theorem page_read_back_witness:
  "\<exists>q1 q2. btreeInitPage (example_page\<lparr>aData := aData example_leaf\<rparr>) = Some (SQLITE_OK, q1)
    \<and> btreeComputeFreeSpace q1 = Some (SQLITE_OK, q2) \<and> page_rep q2 [example_cell] \<and> nFree q2 = 498"
proof -
  have "hdrOffset example_page = 0" "pBt example_page = pBt example_leaf"
    by (simp_all add: example_page_def example_leaf_bt)
  then show ?thesis
    using page_read_back [OF example_rep example_flags, of "example_page\<lparr>aData := aData example_leaf\<rparr>"] by auto
qed

text \<open>
  C19. On a page with arbitrary bytes \<^verbatim>\<open>freeSpace\<close>,
  \<^verbatim>\<open>pageFindSlot\<close> and \<^verbatim>\<open>btreeComputeFreeSpace\<close> terminate
  without touching a byte outside the page buffer, and report corruption instead: a slot that is
  answered lies inside the page, and a free-byte count that is accepted fits the page.
\<close>

theorem corrupt_page_in_bounds:
  assumes "in_page pg" "usableSize pg \<le> 65536" "cellOffset pg = hdrOffset pg + 8 + childPtrSize pg"
    and "hdrOffset pg + 8 \<le> iStart" "4 \<le> n" "iStart + n \<le> usableSize pg"
  shows "(\<exists>rc pg'. freeSpace pg iStart n = Some (rc, pg') \<and> length (aData pg') = length (aData pg))
    \<and> (\<exists>rc pg' r. pageFindSlot pg n = Some (rc, pg', r) \<and> length (aData pg') = length (aData pg)
         \<and> (\<forall>g. r = Some g \<longrightarrow> g + n \<le> usableSize pg))
    \<and> (\<exists>rc pg'. btreeComputeFreeSpace pg = Some (rc, pg')
         \<and> (rc = SQLITE_OK \<longrightarrow> 0 \<le> nFree pg' \<and> int (cellFirst pg) + nFree pg' \<le> int (usableSize pg)))"
proof (intro conjI)
  show "\<exists>rc pg'. freeSpace pg iStart n = Some (rc, pg') \<and> length (aData pg') = length (aData pg)"
    using freeSpace_safe [OF assms(1,2,4-6)] by (auto simp: stays_def)
  have len: "hdrOffset pg + 8 \<le> length (aData pg)" "usableSize pg \<le> length (aData pg)"
    using assms(1) by (auto simp: in_page_def)
  have i: "hdrOffset pg + 1 + 1 < length (aData pg)" using len by linarith
  obtain rc d r where "pageFindSlot_loop (aData pg) (hdrOffset pg) n (int (usableSize pg) - int n) (hdrOffset pg + 1)
      (g2 (aData pg) (hdrOffset pg + 1)) = Some (rc, d, r)" "length d = length (aData pg)"
    "\<forall>g. r = Some g \<longrightarrow> g + n \<le> usableSize pg \<and> rc = SQLITE_OK"
    using pageFindSlot_loop_safe [OF len(1) _ len(2) assms(5) i, of "int (usableSize pg) - int n"] by force
  moreover have "get2byte (aData pg) (hdrOffset pg + 1) = Some (g2 (aData pg) (hdrOffset pg + 1))"
    using i by (simp add: get2byte_eq)
  ultimately show "\<exists>rc pg' r. pageFindSlot pg n = Some (rc, pg', r) \<and> length (aData pg') = length (aData pg)
         \<and> (\<forall>g. r = Some g \<longrightarrow> g + n \<le> usableSize pg)"
    unfolding pageFindSlot_def Let_def by (simp del: One_nat_def)
qed (rule computeFree_safe [OF assms(1-3)])

theorem corrupt_page_in_bounds_witness:
  "\<exists>rc pg'. freeSpace (example_leaf\<lparr>aData := replicate 512 0xff\<rparr>) 100 8 = Some (rc, pg') \<and> length (aData pg') = 512"
  using corrupt_page_in_bounds [of "example_leaf\<lparr>aData := replicate 512 0xff\<rparr>" 100 8]
  by (auto simp: in_page_def)

end
