(* ===== verification/WalIndexM.thy ===== *)
theory WalIndexM
  imports Varint
begin

text \<open>
  The wal-index (\<^verbatim>\<open>wal.c\<close> part of \<^verbatim>\<open>sqlite3.c\<close>): for every frame of the write-ahead log
  its page number, and per block of frames a hash table with linear probing that finds the frames
  of a page. A page of the wal-index is a record of its two arrays. What the operating system and
  the allocator answer is a parameter.
\<close>

section \<open>Definitions\<close>

datatype wal_rc = WOk | WNomem | WCorrupt | WCantopen | WReadonly | WReadonlyExt nat | WErr nat

definition HASHTABLE_NPAGE :: nat where "HASHTABLE_NPAGE = 4096"
definition HASHTABLE_HASH_1 :: u32 where "HASHTABLE_HASH_1 = 383"
definition HASHTABLE_NSLOT :: nat where "HASHTABLE_NSLOT = HASHTABLE_NPAGE * 2"
definition WALINDEX_HDR_SIZE :: nat where "WALINDEX_HDR_SIZE = 136"
definition HASHTABLE_NPAGE_ONE :: nat where
  "HASHTABLE_NPAGE_ONE = HASHTABLE_NPAGE - WALINDEX_HDR_SIZE div 4"

record WalIndexHdr =
  iVersion :: u32
  iChange :: u32
  hdr_isInit :: bool
  bigEndCksum :: bool
  hdr_szPage :: u16
  mxFrame :: nat
  hdr_nPage :: u32
  aFrameCksum :: "u32 \<times> u32"
  aSalt :: bytes
  aCksum :: "u32 \<times> u32"

text \<open>
  A page of the wal-index: the page numbers, after the header on the first page, and the slots.
\<close>

record hash_page =
  aPgno :: "u32 list"
  aHash :: "nat list"

text \<open>
  The fields of \<^verbatim>\<open>struct Wal\<close> that the code below uses. \<open>live\<close> is the header in the wal-index,
  of which the source keeps two equal copies; \<open>heap_memory\<close> is
  \<^verbatim>\<open>exclusiveMode==WAL_HEAPMEMORY_MODE\<close>. The numbers of frames are natural numbers where the source has
  \<^verbatim>\<open>u32\<close>: a log of \<open>2\<^sup>3\<^sup>2\<close> frames, two terabytes and more, is outside the model.
\<close>

record Wal =
  apWiData :: "hash_page option list"
  szPage :: nat
  readLock :: int
  writeLock :: bool
  heap_memory :: bool
  shm_rdonly :: bool
  bShmUnreliable :: bool
  hdr :: WalIndexHdr
  live :: WalIndexHdr
  minFrame :: nat
  iReCksum :: nat
  nCkpt :: u32
  truncateOnCommit :: bool
  iCallback :: nat
  syncHeader :: bool
  padToSectorBoundary :: bool
  mxWalSize :: int

text \<open>Whether an allocation succeeds, and what \<^verbatim>\<open>sqlite3OsShmMap\<close> answers for a page.\<close>

record wal_env =
  realloc_ok :: "nat \<Rightarrow> bool"
  malloc_ok :: "nat \<Rightarrow> bool"
  shm_map :: "nat \<Rightarrow> wal_rc \<times> hash_page option"

definition seg_cap :: "nat \<Rightarrow> nat" where
  "seg_cap iHash = (if iHash = 0 then HASHTABLE_NPAGE_ONE else HASHTABLE_NPAGE)"

definition zero_page :: "nat \<Rightarrow> hash_page" where
  "zero_page iHash = \<lparr>aPgno = replicate (seg_cap iHash) 0, aHash = replicate HASHTABLE_NSLOT 0\<rparr>"

definition walIndexPageRealloc :: "wal_env \<Rightarrow> Wal \<Rightarrow> nat \<Rightarrow> wal_rc \<times> Wal \<times> hash_page option" where
  "walIndexPageRealloc env pWal iPage =
     (if length (apWiData pWal) \<le> iPage \<and> \<not> realloc_ok env iPage then (WNomem, pWal, None)
      else (let pWal = (if length (apWiData pWal) \<le> iPage
                        then pWal\<lparr>apWiData := apWiData pWal
                               @ replicate (iPage + 1 - length (apWiData pWal)) None\<rparr>
                        else pWal)
            in if heap_memory pWal
               then (let pg = (if malloc_ok env iPage then Some (zero_page iPage) else None)
                     in (if pg = None then WNomem else WOk,
                         pWal\<lparr>apWiData := (apWiData pWal)[iPage := pg]\<rparr>, pg))
               else (let (rc, pg) = shm_map env iPage;
                         pWal = pWal\<lparr>apWiData := (apWiData pWal)[iPage := pg]\<rparr>
                     in case rc of
                          WReadonly \<Rightarrow> (WOk, pWal\<lparr>shm_rdonly := True\<rparr>, pg)
                        | WReadonlyExt k \<Rightarrow> (rc, pWal\<lparr>shm_rdonly := True\<rparr>, pg)
                        | _ \<Rightarrow> (rc, pWal, pg))))"

definition walIndexPage :: "wal_env \<Rightarrow> Wal \<Rightarrow> nat \<Rightarrow> wal_rc \<times> Wal \<times> hash_page option" where
  "walIndexPage env pWal iPage =
     (if length (apWiData pWal) \<le> iPage \<or> apWiData pWal ! iPage = None
      then walIndexPageRealloc env pWal iPage
      else (WOk, pWal, apWiData pWal ! iPage))"

definition walHash :: "u32 \<Rightarrow> nat" where
  "walHash iPage = unat ((iPage * HASHTABLE_HASH_1) AND (word_of_nat HASHTABLE_NSLOT - 1))"

definition walNextHash :: "nat \<Rightarrow> nat" where
  "walNextHash iPriorHash = (iPriorHash + 1) AND (HASHTABLE_NSLOT - 1)"

text \<open>
  \<^verbatim>\<open>WalHashLoc\<close> is the page and \<^verbatim>\<open>iZero\<close>; stores through it go to the page in
  \<open>apWiData\<close>, see \<open>set_hash_page\<close>.
\<close>

definition seg_zero :: "nat \<Rightarrow> nat" where
  "seg_zero iHash = (if iHash = 0 then 0 else HASHTABLE_NPAGE_ONE + (iHash - 1) * HASHTABLE_NPAGE)"

definition walHashGet :: "wal_env \<Rightarrow> Wal \<Rightarrow> nat \<Rightarrow> wal_rc \<times> Wal \<times> (hash_page \<times> nat) option" where
  "walHashGet env pWal iHash =
     (let (rc, pWal, pg) = walIndexPage env pWal iHash
      in case pg of
           Some p \<Rightarrow> (rc, pWal, Some (p, seg_zero iHash))
         | None \<Rightarrow> (if rc = WOk then WErr 1 else rc, pWal, None))"

definition set_hash_page :: "Wal \<Rightarrow> nat \<Rightarrow> hash_page \<Rightarrow> Wal" where
  "set_hash_page pWal iHash p = pWal\<lparr>apWiData := (apWiData pWal)[iHash := Some p]\<rparr>"

definition walFramePage :: "nat \<Rightarrow> nat" where
  "walFramePage iFrame = (iFrame + HASHTABLE_NPAGE - HASHTABLE_NPAGE_ONE - 1) div HASHTABLE_NPAGE"

text \<open>The page number of a frame; \<^term>\<open>None\<close> when its page is not mapped.\<close>

definition walFramePgno :: "Wal \<Rightarrow> nat \<Rightarrow> u32 option" where
  "walFramePgno pWal iFrame =
     (let iHash = walFramePage iFrame
      in if length (apWiData pWal) \<le> iHash then None
         else map_option (\<lambda>p. if iHash = 0 then aPgno p ! (iFrame - 1)
                else aPgno p ! ((iFrame - 1 - HASHTABLE_NPAGE_ONE) mod HASHTABLE_NPAGE))
              (apWiData pWal ! iHash))"

definition walCleanupHash :: "wal_env \<Rightarrow> Wal \<Rightarrow> Wal" where
  "walCleanupHash env pWal =
     (if mxFrame (hdr pWal) = 0 then pWal
      else (let iHash = walFramePage (mxFrame (hdr pWal)) in
            case walHashGet env pWal iHash of
              (WOk, pWal, Some (p, iZero)) \<Rightarrow>
                (let iLimit = mxFrame (hdr pWal) - iZero
                 in set_hash_page pWal iHash
                      \<lparr>aPgno = take iLimit (aPgno p) @ replicate (length (aPgno p) - iLimit) 0,
                       aHash = map (\<lambda>h. if h > iLimit then 0 else h) (aHash p)\<rparr>)
            | (rc, pWal, _) \<Rightarrow> pWal))"

text \<open>The loop that finds a free slot; \<^term>\<open>None\<close> when \<^verbatim>\<open>nCollide\<close> runs out.\<close>

fun append_probe :: "nat list \<Rightarrow> nat \<Rightarrow> nat \<Rightarrow> nat option" where
  "append_probe h 0 iKey = (if h ! iKey = 0 then Some iKey else None)"
| "append_probe h (Suc nCollide) iKey =
     (if h ! iKey = 0 then Some iKey else append_probe h nCollide (walNextHash iKey))"

text \<open>The hash page stored at \<open>iHash\<close>, which is mapped.\<close>

definition hash_page_at :: "Wal \<Rightarrow> nat \<Rightarrow> hash_page" where
  "hash_page_at pWal iHash =
     (case apWiData pWal ! iHash of Some p \<Rightarrow> p | None \<Rightarrow> zero_page iHash)"

definition walIndexAppend :: "wal_env \<Rightarrow> Wal \<Rightarrow> nat \<Rightarrow> u32 \<Rightarrow> wal_rc \<times> Wal" where
  "walIndexAppend env pWal iFrame iPage =
     (let iHash = walFramePage iFrame in
      case walHashGet env pWal iHash of
        (WOk, pWal, Some (p, iZero)) \<Rightarrow>
          (let idx = iFrame - iZero;
               pWal = (if idx = 1 then set_hash_page pWal iHash (zero_page iHash) else pWal);
               pWal = (if aPgno (hash_page_at pWal iHash) ! (idx - 1) \<noteq> 0 then walCleanupHash env pWal
                       else pWal);
               p = hash_page_at pWal iHash
           in case append_probe (aHash p) idx (walHash iPage) of
                None \<Rightarrow> (WCorrupt, pWal)
              | Some iKey \<Rightarrow> (WOk, set_hash_page pWal iHash
                    \<lparr>aPgno = (aPgno p)[idx - 1 := iPage], aHash = (aHash p)[iKey := idx mod 65536]\<rparr>))
      | (rc, pWal, _) \<Rightarrow> (rc, pWal))"

text \<open>The probe loop of \<^verbatim>\<open>walFindFrame\<close>: the last match on the way, or corruption.\<close>

fun find_probe :: "hash_page \<Rightarrow> nat \<Rightarrow> nat \<Rightarrow> nat \<Rightarrow> u32 \<Rightarrow> nat \<Rightarrow> nat \<Rightarrow> nat \<Rightarrow> nat option" where
  "find_probe p iZero iLast minF pgno nCollide iKey iRead =
     (let iH = aHash p ! iKey
      in if iH = 0 then Some iRead
         else (let iFrame = iH + iZero;
                   iRead = (if iFrame \<le> iLast \<and> iFrame \<ge> minF \<and> aPgno p ! (iH - 1) = pgno
                            then iFrame else iRead)
               in case nCollide of 0 \<Rightarrow> None
                  | Suc k \<Rightarrow> find_probe p iZero iLast minF pgno k (walNextHash iKey) iRead))"

text \<open>The loop over the hash tables, from \<open>iMinHash + n - 1\<close> down.\<close>

fun find_tables :: "nat \<Rightarrow> wal_env \<Rightarrow> Wal \<Rightarrow> nat \<Rightarrow> nat \<Rightarrow> u32 \<Rightarrow> wal_rc \<times> Wal \<times> nat" where
  "find_tables 0 env pWal iMinHash iLast pgno = (WOk, pWal, 0)"
| "find_tables (Suc n) env pWal iMinHash iLast pgno =
     (case walHashGet env pWal (iMinHash + n) of
        (WOk, pWal, Some (p, iZero)) \<Rightarrow>
          (case find_probe p iZero iLast (minFrame pWal) pgno HASHTABLE_NSLOT (walHash pgno) 0 of
             None \<Rightarrow> (WCorrupt, pWal, 0)
           | Some iRead \<Rightarrow> if iRead \<noteq> 0 then (WOk, pWal, iRead)
                           else find_tables n env pWal iMinHash iLast pgno)
      | (rc, pWal, _) \<Rightarrow> (rc, pWal, 0))"

definition walFindFrame :: "wal_env \<Rightarrow> Wal \<Rightarrow> u32 \<Rightarrow> wal_rc \<times> Wal \<times> nat" where
  "walFindFrame env pWal pgno =
     (let iLast = mxFrame (hdr pWal) in
      if iLast = 0 \<or> readLock pWal = 0 \<and> \<not> bShmUnreliable pWal then (WOk, pWal, 0)
      else (let iMinHash = walFramePage (minFrame pWal)
            in find_tables (walFramePage iLast + 1 - iMinHash) env pWal iMinHash iLast pgno))"

text \<open>
  \<^verbatim>\<open>sqlite3WalUndo\<close>: the loop calls \<^verbatim>\<open>xUndo\<close> until it fails; the list collects the pages it
  was called with.
\<close>

fun undo_loop :: "(u32 \<Rightarrow> wal_rc) \<Rightarrow> Wal \<Rightarrow> nat \<Rightarrow> nat \<Rightarrow> wal_rc \<times> u32 list" where
  "undo_loop xUndo pWal 0 iFrame = (WOk, [])"
| "undo_loop xUndo pWal (Suc n) iFrame =
     (case walFramePgno pWal iFrame of
        None \<Rightarrow> (WErr 1, [])
      | Some pgno \<Rightarrow> if xUndo pgno \<noteq> WOk then (xUndo pgno, [pgno])
          else (let (rc, ps) = undo_loop xUndo pWal n (iFrame + 1) in (rc, pgno # ps)))"

definition sqlite3WalUndo :: "wal_env \<Rightarrow> (u32 \<Rightarrow> wal_rc) \<Rightarrow> Wal \<Rightarrow> wal_rc \<times> u32 list \<times> Wal" where
  "sqlite3WalUndo env xUndo pWal =
     (if writeLock pWal
      then (let iMax = mxFrame (hdr pWal);
                pWal = pWal\<lparr>hdr := live pWal\<rparr>;
                (rc, ps) = undo_loop xUndo pWal (iMax - mxFrame (hdr pWal)) (mxFrame (hdr pWal) + 1)
            in (rc, ps, if iMax \<noteq> mxFrame (hdr pWal) then walCleanupHash env pWal else pWal))
      else (WOk, [], pWal))"

text \<open>The four words of a savepoint.\<close>

record wal_savepoint =
  sv_mxFrame :: nat
  sv_cksum :: "u32 \<times> u32"
  sv_nCkpt :: u32

definition sqlite3WalSavepoint :: "Wal \<Rightarrow> wal_savepoint" where
  "sqlite3WalSavepoint pWal = \<lparr>sv_mxFrame = mxFrame (hdr pWal), sv_cksum = aFrameCksum (hdr pWal),
     sv_nCkpt = nCkpt pWal\<rparr>"

definition sqlite3WalSavepointUndo :: "wal_env \<Rightarrow> Wal \<Rightarrow> wal_savepoint \<Rightarrow> wal_rc \<times> Wal \<times> wal_savepoint" where
  "sqlite3WalSavepointUndo env pWal aWalData =
     (let aWalData = (if sv_nCkpt aWalData \<noteq> nCkpt pWal
                      then aWalData\<lparr>sv_mxFrame := 0, sv_nCkpt := nCkpt pWal\<rparr> else aWalData)
      in (WOk,
          if sv_mxFrame aWalData < mxFrame (hdr pWal)
          then walCleanupHash env (pWal\<lparr>hdr := (hdr pWal)\<lparr>mxFrame := sv_mxFrame aWalData,
                 aFrameCksum := sv_cksum aWalData\<rparr>\<rparr>)
          else pWal,
          aWalData))"

declare find_probe.simps [simp del]

section \<open>Slots and segments\<close>

lemmas wal_consts = HASHTABLE_NPAGE_def HASHTABLE_NSLOT_def WALINDEX_HDR_SIZE_def HASHTABLE_NPAGE_ONE_def

lemma walHash_less: "walHash k < 8192"
proof -
  have "(k * HASHTABLE_HASH_1) AND 8191 = take_bit 13 (k * HASHTABLE_HASH_1)"
    by (simp add: take_bit_eq_mask mask_eq_exp_minus_1)
  then have "walHash k = take_bit 13 (unat (k * HASHTABLE_HASH_1))"
    by (simp add: walHash_def wal_consts unsigned_take_bit_eq)
  then show ?thesis by (simp add: take_bit_eq_mod)
qed

lemma walNextHash_eq: "walNextHash k = (k + 1) mod 8192"
proof -
  have "(k + 1) AND 8191 = take_bit 13 (k + 1)"
    by (simp add: take_bit_eq_mask mask_eq_exp_minus_1)
  then show ?thesis by (simp add: walNextHash_def wal_consts take_bit_eq_mod)
qed

text \<open>The \<open>d\<close>-th slot on the way of a page.\<close>

definition slot :: "u32 \<Rightarrow> nat \<Rightarrow> nat" where
  "slot k d = (walHash k + d) mod 8192"

lemma slot_less [simp]: "slot k d < 8192"
  by (simp add: slot_def)

lemma slot_0 [simp]: "slot k 0 = walHash k"
  by (simp add: slot_def walHash_less)

lemma next_slot: "walNextHash (slot k d) = slot k (Suc d)"
  by (simp add: walNextHash_eq slot_def mod_Suc_eq)

lemma mod_shift_inj:
  fixes n :: nat
  assumes "(h + d) mod n = (h + e) mod n" "d < n" "e < n"
  shows "d = e"
proof -
  have *: "a = b" if "(h + b) mod n = (h + a) mod n" "a \<le> b" "b < n" for a b
  proof -
    have "n dvd (h + b) - (h + a)" using that by (simp add: mod_eq_dvd_iff_nat)
    then show ?thesis using that by (auto dest: dvd_imp_le)
  qed
  show ?thesis
  proof (cases "d \<le> e")
    case True
    then show ?thesis using *[of e d] assms by simp
  next
    case False
    then show ?thesis using *[of d e] assms by simp
  qed
qed

lemma mod_shift_onto:
  fixes n :: nat
  assumes "h < n" "s < n"
  shows "\<exists>d<n. (h + d) mod n = s"
proof (intro exI conjI)
  show "(s + (n - h)) mod n < n" using assms by simp
  have "(h + (s + (n - h)) mod n) mod n = (h + (s + (n - h))) mod n" by (rule mod_add_right_eq)
  also have "h + (s + (n - h)) = s + n" using assms by simp
  finally show "(h + (s + (n - h)) mod n) mod n = s" using assms by simp
qed

lemma slot_inj: "slot k d = slot k e \<Longrightarrow> d < 8192 \<Longrightarrow> e < 8192 \<Longrightarrow> d = e"
  unfolding slot_def by (rule mod_shift_inj)

lemma slot_onto: "s < 8192 \<Longrightarrow> \<exists>d<8192. slot k d = s"
  unfolding slot_def by (rule mod_shift_onto [OF walHash_less])

text \<open>
  \<open>tab_inv p n m\<close>: the first \<open>m\<close> page numbers are set, and the slots hold the numbers \<open>1\<close> to \<open>n\<close>,
  each once and reachable from the hash of its page over slots with smaller numbers.
\<close>

definition tab_inv :: "hash_page \<Rightarrow> nat \<Rightarrow> nat \<Rightarrow> bool" where
  "tab_inv p n m \<longleftrightarrow> length (aHash p) = 8192 \<and> n \<le> m \<and> m \<le> length (aPgno p) \<and> length (aPgno p) \<le> 4096
     \<and> (\<forall>j < length (aPgno p). aPgno p ! j \<noteq> 0 \<longleftrightarrow> j < m)
     \<and> (\<forall>s < 8192. aHash p ! s \<le> n)
     \<and> (\<forall>s < 8192. \<forall>t < 8192. aHash p ! s = aHash p ! t \<longrightarrow> aHash p ! s \<noteq> 0 \<longrightarrow> s = t)
     \<and> (\<forall>v. 0 < v \<and> v \<le> n \<longrightarrow> (\<exists>d < 8192. aHash p ! slot (aPgno p ! (v - 1)) d = v
          \<and> (\<forall>e < d. 0 < aHash p ! slot (aPgno p ! (v - 1)) e \<and> aHash p ! slot (aPgno p ! (v - 1)) e < v)))"

lemma tab_invD:
  assumes "tab_inv p n m"
  shows "length (aHash p) = 8192" "n \<le> m" "m \<le> length (aPgno p)" "length (aPgno p) \<le> 4096"
    "\<And>j. j < length (aPgno p) \<Longrightarrow> aPgno p ! j \<noteq> 0 \<longleftrightarrow> j < m"
    "\<And>s. s < 8192 \<Longrightarrow> aHash p ! s \<le> n"
    "\<And>s t. s < 8192 \<Longrightarrow> t < 8192 \<Longrightarrow> aHash p ! s = aHash p ! t \<Longrightarrow> aHash p ! s \<noteq> 0 \<Longrightarrow> s = t"
    "\<And>v. 0 < v \<Longrightarrow> v \<le> n \<Longrightarrow> (\<exists>d < 8192. aHash p ! slot (aPgno p ! (v - 1)) d = v
          \<and> (\<forall>e < d. 0 < aHash p ! slot (aPgno p ! (v - 1)) e \<and> aHash p ! slot (aPgno p ! (v - 1)) e < v))"
  using assms unfolding tab_inv_def by blast+

text \<open>At most \<open>n\<close> slots in a row are in use.\<close>

lemma run_le:
  assumes "tab_inv p n m" "d \<le> 8192" "\<And>e. e < d \<Longrightarrow> aHash p ! slot k e \<noteq> 0"
  shows "d \<le> n"
proof -
  have "inj_on (\<lambda>e. aHash p ! slot k e) {..<d}"
  proof (rule inj_onI)
    fix a b assume a: "a \<in> {..<d}" "b \<in> {..<d}" "aHash p ! slot k a = aHash p ! slot k b"
    then have "slot k a = slot k b" using tab_invD(7) [OF assms(1)] assms(3) by simp
    then show "a = b" using slot_inj a assms(2) by auto
  qed
  moreover have "(\<lambda>e. aHash p ! slot k e) ` {..<d} \<subseteq> {0<..n}"
    using tab_invD(6) [OF assms(1)] assms(3) by auto
  ultimately have "card {..<d} \<le> card {0<..n}" by (meson card_inj_on_le finite_greaterThanAtMost)
  then show ?thesis by simp
qed

lemma free_slot:
  assumes "tab_inv p n m"
  obtains d where "d \<le> n" "d < 8192" "aHash p ! slot k d = 0" "\<And>e. e < d \<Longrightarrow> aHash p ! slot k e \<noteq> 0"
proof -
  have n: "n \<le> 4096" using tab_invD(2-4) [OF assms] by simp
  have "\<exists>d. d < 8192 \<and> aHash p ! slot k d = 0"
  proof (rule ccontr)
    assume "\<not> ?thesis"
    then have "8192 \<le> n" by (intro run_le [OF assms, of _ k]) auto
    then show False using n by simp
  qed
  then obtain d where d: "d < 8192 \<and> aHash p ! slot k d = 0" "\<And>e. e < d \<Longrightarrow> \<not> (e < 8192 \<and> aHash p ! slot k e = 0)"
    using exists_least_iff [of "\<lambda>d. d < 8192 \<and> aHash p ! slot k d = 0"] by blast
  then have "\<And>e. e < d \<Longrightarrow> aHash p ! slot k e \<noteq> 0" by auto
  moreover have "d \<le> n" using d(1) calculation by (intro run_le [OF assms, of _ k]) auto
  ultimately show thesis using that d(1) by blast
qed

lemma append_probe_eq:
  assumes "h ! slot k (b + j) = 0" "\<And>e. e < j \<Longrightarrow> h ! slot k (b + e) \<noteq> 0" "j \<le> c"
  shows "append_probe h c (slot k b) = Some (slot k (b + j))"
  using assms
proof (induction c arbitrary: b j)
  case 0
  then show ?case by simp
next
  case (Suc c)
  show ?case
  proof (cases j)
    case 0
    then show ?thesis using Suc.prems by simp
  next
    case (Suc i)
    have "h ! slot k (Suc b + e) \<noteq> 0" if "e < i" for e
      using Suc.prems(2) [of "Suc e"] that Suc by simp
    then have "append_probe h c (slot k (Suc b)) = Some (slot k (Suc b + i))"
      by (intro Suc.IH) (use Suc.prems Suc in auto)
    moreover have "h ! slot k b \<noteq> 0" using Suc.prems(2) [of 0] Suc by simp
    ultimately show ?thesis using Suc by (simp add: next_slot)
  qed
qed

lemma append_tab:
  assumes inv: "tab_inv p n n" and n: "n < length (aPgno p)" and k: "k \<noteq> 0"
  obtains s where "append_probe (aHash p) (Suc n) (walHash k) = Some s"
    "tab_inv \<lparr>aPgno = (aPgno p)[n := k], aHash = (aHash p)[s := Suc n mod 65536]\<rparr> (Suc n) (Suc n)"
proof -
  note i = tab_invD [OF inv]
  obtain d where d: "d \<le> n" "d < 8192" "aHash p ! slot k d = 0" "\<And>e. e < d \<Longrightarrow> aHash p ! slot k e \<noteq> 0"
    by (rule free_slot [OF inv]) auto
  let ?s = "slot k d"
  have pr: "append_probe (aHash p) (Suc n) (walHash k) = Some ?s"
    using append_probe_eq [of "aHash p" k 0 d "Suc n"] d by simp
  have m: "Suc n mod 65536 = Suc n" using n i(4) by simp
  let ?q = "\<lparr>aPgno = (aPgno p)[n := k], aHash = (aHash p)[?s := Suc n mod 65536]\<rparr>"
  have h: "aHash ?q ! t = (if t = ?s then Suc n else aHash p ! t)" if "t < 8192" for t
    using that i(1) m by simp
  have h': "aHash p ! t \<noteq> Suc n" if "t < 8192" for t using i(6) [OF that] by auto
  have g: "aPgno ?q ! j = (if j = n then k else aPgno p ! j)" if "j < length (aPgno p)" for j
    using that by simp
  have "tab_inv ?q (Suc n) (Suc n)"
    unfolding tab_inv_def
  proof (intro conjI allI impI)
    show "length (aHash ?q) = 8192" "Suc n \<le> length (aPgno ?q)" "length (aPgno ?q) \<le> 4096" using i n by simp_all
    show "(aPgno ?q ! j \<noteq> 0) = (j < Suc n)" if "j < length (aPgno ?q)" for j
      using that g [of j] i(5) [of j] k by auto
    show "aHash ?q ! t \<le> Suc n" if "t < 8192" for t using h [OF that] i(6) [OF that] by simp
    show "t = u" if "t < 8192" "u < 8192" "aHash ?q ! t = aHash ?q ! u" "aHash ?q ! t \<noteq> 0" for t u
      using that h [OF that(1)] h [OF that(2)] h' [OF that(1)] h' [OF that(2)] i(7) [OF that(1,2)]
      by (auto split: if_splits)
    fix v assume v: "0 < v \<and> v \<le> Suc n"
    show "\<exists>d<8192. aHash ?q ! slot (aPgno ?q ! (v - 1)) d = v \<and>
        (\<forall>e<d. 0 < aHash ?q ! slot (aPgno ?q ! (v - 1)) e \<and> aHash ?q ! slot (aPgno ?q ! (v - 1)) e < v)"
    proof (cases "v = Suc n")
      case True
      have e: "slot k e \<noteq> ?s" if "e < d" for e using slot_inj [of k e d] that d(2) by auto
      have "aPgno ?q ! (v - 1) = k" using True n by simp
      moreover have "aHash ?q ! slot k d = v" using h [of ?s] True by simp
      moreover have "0 < aHash ?q ! slot k e \<and> aHash ?q ! slot k e < v" if "e < d" for e
        using h [of "slot k e"] e [OF that] d(4) [OF that] i(6) [of "slot k e"] True by simp
      ultimately show ?thesis using d(2) by auto
    next
      case False
      then have v': "0 < v" "v \<le> n" using v by auto
      have a: "aPgno ?q ! (v - 1) = aPgno p ! (v - 1)" using v' n by simp
      obtain d' where d': "d' < 8192" "aHash p ! slot (aPgno p ! (v - 1)) d' = v"
        "\<forall>e < d'. 0 < aHash p ! slot (aPgno p ! (v - 1)) e \<and> aHash p ! slot (aPgno p ! (v - 1)) e < v"
        using i(8) [OF v'] by blast
      have ne: "aHash p ! t \<noteq> 0 \<Longrightarrow> t < 8192 \<Longrightarrow> aHash ?q ! t = aHash p ! t" for t
        using h [of t] d(3) by auto
      have "aHash ?q ! slot (aPgno p ! (v - 1)) d' = v" using ne [of "slot (aPgno p ! (v - 1)) d'"] d'(2) v' by simp
      moreover have "aHash ?q ! slot (aPgno p ! (v - 1)) e = aHash p ! slot (aPgno p ! (v - 1)) e" if "e < d'" for e
        using ne [of "slot (aPgno p ! (v - 1)) e"] d'(3) that by simp
      ultimately show ?thesis using d' unfolding a by auto
    qed
  qed simp
  then show thesis using that pr by blast
qed

lemma zero_tab: "tab_inv (zero_page iHash) 0 0"
  by (simp add: tab_inv_def zero_page_def seg_cap_def wal_consts) (auto intro: gr0I)

text \<open>Removing the numbers above a limit.\<close>

lemma cleanup_tab:
  assumes inv: "tab_inv p n m" and l: "L \<le> n"
  shows "tab_inv \<lparr>aPgno = take L (aPgno p) @ replicate (length (aPgno p) - L) 0,
            aHash = map (\<lambda>h. if h > L then 0 else h) (aHash p)\<rparr> L L"
proof -
  note i = tab_invD [OF inv]
  let ?q = "\<lparr>aPgno = take L (aPgno p) @ replicate (length (aPgno p) - L) 0,
            aHash = map (\<lambda>h. if h > L then 0 else h) (aHash p)\<rparr>"
  have Lm: "L \<le> length (aPgno p)" using l i(2,3) by simp
  have h: "aHash ?q ! t = (if aHash p ! t > L then 0 else aHash p ! t)" if "t < 8192" for t
    using that i(1) by simp
  have g: "aPgno ?q ! j = (if j < L then aPgno p ! j else 0)" if "j < length (aPgno p)" for j
    using that Lm by (simp add: nth_append min_def)
  show ?thesis
    unfolding tab_inv_def
  proof (intro conjI allI impI)
    show "length (aHash ?q) = 8192" "L \<le> length (aPgno ?q)" "length (aPgno ?q) \<le> 4096" using i Lm by simp_all
    show "(aPgno ?q ! j \<noteq> 0) = (j < L)" if "j < length (aPgno ?q)" for j
    proof -
      have j: "j < length (aPgno p)" using that Lm by simp
      show ?thesis using g [OF j] i(5) [OF j] l i(2) by (cases "j < L") simp_all
    qed
    show "aHash ?q ! t \<le> L" if "t < 8192" for t using h [OF that] by simp
    show "t = u" if "t < 8192" "u < 8192" "aHash ?q ! t = aHash ?q ! u" "aHash ?q ! t \<noteq> 0" for t u
      using that h [OF that(1)] h [OF that(2)] i(7) [OF that(1,2)] by (auto split: if_splits)
    fix v assume v: "0 < v \<and> v \<le> L"
    then have v': "0 < v" "v \<le> n" using l by auto
    have j: "v - 1 < length (aPgno p)" "v - 1 < L" using v Lm by linarith+
    have a: "aPgno ?q ! (v - 1) = aPgno p ! (v - 1)" using g [OF j(1)] j(2) by simp
    obtain d' where d': "d' < 8192" "aHash p ! slot (aPgno p ! (v - 1)) d' = v"
      "\<forall>e < d'. 0 < aHash p ! slot (aPgno p ! (v - 1)) e \<and> aHash p ! slot (aPgno p ! (v - 1)) e < v"
      using i(8) [OF v'] by blast
    have "aHash ?q ! slot (aPgno p ! (v - 1)) d' = v" using h d'(2) v by simp
    moreover have "aHash ?q ! slot (aPgno p ! (v - 1)) e = aHash p ! slot (aPgno p ! (v - 1)) e" if "e < d'" for e
    proof -
      have "aHash p ! slot (aPgno p ! (v - 1)) e < v" using d'(3) that by blast
      then show ?thesis using h v by simp
    qed
    ultimately show "\<exists>d<8192. aHash ?q ! slot (aPgno ?q ! (v - 1)) d = v \<and>
        (\<forall>e<d. 0 < aHash ?q ! slot (aPgno ?q ! (v - 1)) e \<and> aHash ?q ! slot (aPgno ?q ! (v - 1)) e < v)"
      using d' unfolding a by auto
  qed simp
qed

section \<open>Finding the frames of a page in one table\<close>

definition hits :: "hash_page \<Rightarrow> nat \<Rightarrow> nat \<Rightarrow> nat \<Rightarrow> u32 \<Rightarrow> nat \<Rightarrow> bool" where
  "hits p iZero iLast minF pgno v \<longleftrightarrow> v + iZero \<le> iLast \<and> minF \<le> v + iZero \<and> aPgno p ! (v - 1) = pgno"

lemma find_probe_run:
  assumes "aHash p ! slot k (b + j) = 0" "\<And>e. e < j \<Longrightarrow> aHash p ! slot k (b + e) \<noteq> 0" "j \<le> c"
  shows "find_probe p z l m k c (slot k b) r = Some (foldl (\<lambda>r e. if hits p z l m k (aHash p ! slot k e)
      then aHash p ! slot k e + z else r) r [b..<b + j])"
  using assms
proof (induction c arbitrary: b j r)
  case 0
  then show ?case by (simp add: find_probe.simps)
next
  case (Suc c)
  show ?case
  proof (cases j)
    case 0
    then show ?thesis using Suc.prems by (simp add: find_probe.simps)
  next
    case (Suc i)
    let ?r = "if hits p z l m k (aHash p ! slot k b) then aHash p ! slot k b + z else r"
    have "aHash p ! slot k (Suc b + e) \<noteq> 0" if "e < i" for e
      using Suc.prems(2) [of "Suc e"] that Suc by simp
    then have "find_probe p z l m k c (slot k (Suc b)) ?r = Some (foldl (\<lambda>r e. if hits p z l m k (aHash p ! slot k e)
      then aHash p ! slot k e + z else r) ?r [Suc b..<Suc b + i])"
      by (intro Suc.IH) (use Suc.prems Suc in auto)
    moreover have "aHash p ! slot k b \<noteq> 0" using Suc.prems(2) [of 0] Suc by simp
    ultimately show ?thesis using Suc
      by (subst find_probe.simps) (simp add: next_slot hits_def upt_rec [of b] Let_def conj_commute)
  qed
qed

lemma foldl_last:
  "(\<forall>e\<in>set es. \<not> P e) \<and> foldl (\<lambda>r e. if P e then f e else r) r es = r
   \<or> (\<exists>xs e ys. es = xs @ e # ys \<and> P e \<and> (\<forall>y\<in>set ys. \<not> P y) \<and> foldl (\<lambda>r e. if P e then f e else r) r es = f e)"
proof (induction es rule: rev_induct)
  case (snoc e es)
  show ?case
  proof (cases "P e")
    case True
    then show ?thesis by (intro disjI2 exI [of _ es] exI [of _ e] exI [of _ "[]"]) simp
  next
    case False
    from snoc show ?thesis
    proof
      assume "\<exists>xs x ys. es = xs @ x # ys \<and> P x \<and> (\<forall>y\<in>set ys. \<not> P y) \<and> foldl (\<lambda>r e. if P e then f e else r) r es = f x"
      then obtain xs x ys where "es = xs @ x # ys" "P x" "\<forall>y\<in>set ys. \<not> P y"
        "foldl (\<lambda>r e. if P e then f e else r) r es = f x" by blast
      then show ?thesis using False by (intro disjI2 exI [of _ xs] exI [of _ x] exI [of _ "ys @ [e]"]) simp
    qed (use False in simp)
  qed
qed simp

lemma find_table:
  assumes inv: "tab_inv p n m"
  obtains r where "find_probe p z l lo k 8192 (walHash k) 0 = Some r"
    "r = 0 \<and> (\<forall>v. 0 < v \<longrightarrow> v \<le> n \<longrightarrow> \<not> hits p z l lo k v)
     \<or> z < r \<and> r - z \<le> n \<and> hits p z l lo k (r - z) \<and> (\<forall>v. r - z < v \<longrightarrow> v \<le> n \<longrightarrow> \<not> hits p z l lo k v)"
proof -
  note i = tab_invD [OF inv]
  obtain d where d: "d \<le> n" "d < 8192" "aHash p ! slot k d = 0" "\<And>e. e < d \<Longrightarrow> aHash p ! slot k e \<noteq> 0"
    by (rule free_slot [OF inv]) auto
  let ?h = "\<lambda>e. aHash p ! slot k e"
  let ?f = "foldl (\<lambda>r e. if hits p z l lo k (?h e) then ?h e + z else r) 0 [0..<d]"
  have run: "find_probe p z l lo k 8192 (walHash k) 0 = Some ?f"
    using find_probe_run [of p k 0 d 8192 z l lo 0] d by simp
  have pos: "\<exists>e<d. ?h e = v \<and> (\<forall>e'<e. ?h e' < v)" if v: "0 < v" "v \<le> n" "hits p z l lo k v" for v
  proof -
    obtain e where e: "e < 8192" "aHash p ! slot (aPgno p ! (v - 1)) e = v"
      "\<forall>e' < e. 0 < aHash p ! slot (aPgno p ! (v - 1)) e' \<and> aHash p ! slot (aPgno p ! (v - 1)) e' < v"
      using i(8) v(1,2) by blast
    have k: "aPgno p ! (v - 1) = k" using v(3) by (simp add: hits_def)
    have "\<not> d \<le> e"
    proof
      assume "d \<le> e"
      then have "0 < ?h d" using e(2,3) v(1) unfolding k by (cases "d = e") auto
      then show False using d(3) by simp
    qed
    then show ?thesis using e unfolding k by (intro exI [of _ e]) auto
  qed
  from foldl_last [of "[0..<d]" "\<lambda>e. hits p z l lo k (?h e)" "\<lambda>e. ?h e + z" 0]
  show thesis
  proof
    assume a: "(\<forall>e\<in>set [0..<d]. \<not> hits p z l lo k (?h e)) \<and> ?f = 0"
    then have "\<not> hits p z l lo k v" if "0 < v" "v \<le> n" for v using pos [OF that] by auto
    then show thesis using that run a by auto
  next
    assume "\<exists>xs e ys. [0..<d] = xs @ e # ys \<and> hits p z l lo k (?h e) \<and> (\<forall>y\<in>set ys. \<not> hits p z l lo k (?h y)) \<and> ?f = ?h e + z"
    then obtain xs e ys where a: "[0..<d] = xs @ e # ys" "hits p z l lo k (?h e)" "\<forall>y\<in>set ys. \<not> hits p z l lo k (?h y)"
      "?f = ?h e + z" by blast
    have el: "e < d" using a(1) by (metis atLeastLessThan_iff in_set_conv_decomp set_upt)
    have later: "y \<in> set ys" if "e < y" "y < d" for y
    proof -
      have "y \<in> set (xs @ e # ys)" using that a(1) by (metis atLeastLessThan_iff set_upt zero_le)
      moreover have "sorted (xs @ e # ys)" using a(1) by (metis sorted_upt)
      ultimately show ?thesis using that(1) by (auto simp: sorted_append)
    qed
    have en: "?h e \<le> n" using i(6) by simp
    have "\<not> hits p z l lo k v" if v: "?h e < v" "v \<le> n" for v
    proof
      assume hv: "hits p z l lo k v"
      obtain e' where e': "e' < d" "?h e' = v" "\<forall>e''<e'. ?h e'' < v" using pos [of v] v hv by auto
      have "\<not> e < e'" using later [of e'] a(3) e'(1,2) hv by auto
      then have "e' < e" using e'(2) v(1) by (cases "e' = e") auto
      moreover obtain e2 where e2: "e2 < d" "?h e2 = ?h e" "\<forall>e''<e2. ?h e'' < ?h e"
        using pos [OF _ en a(2)] d(4) [OF el] by auto
      moreover have "e2 = e"
      proof -
        have "slot k e2 = slot k e" using i(7) [of "slot k e2" "slot k e"] e2(2) d(4) [OF el] by simp
        then show ?thesis using slot_inj e2(1) el d(2) by auto
      qed
      ultimately show False using e'(2) v by auto
    qed
    then show thesis using that [OF run] a(2,4) d(4) [OF el] en by auto
  qed
qed

text \<open>The linear search that the source states in its expensive assertion.\<close>

fun latest_frame :: "u32 list \<Rightarrow> nat \<Rightarrow> nat \<Rightarrow> u32 \<Rightarrow> nat" where
  "latest_frame fs lo 0 pgno = 0"
| "latest_frame fs lo (Suc i) pgno =
     (if Suc i < lo then 0 else if fs ! i = pgno then Suc i else latest_frame fs lo i pgno)"

lemma latest_none:
  "(\<And>i. lo \<le> i \<Longrightarrow> z < i \<Longrightarrow> i \<le> hi \<Longrightarrow> fs ! (i - 1) \<noteq> k) \<Longrightarrow> z \<le> hi \<Longrightarrow>
   latest_frame fs lo hi k = (if hi < lo then 0 else latest_frame fs lo z k)"
proof (induction hi)
  case (Suc hi)
  show ?case
  proof (cases "z = Suc hi")
    case False
    then have z: "z \<le> hi" using Suc.prems(2) by simp
    have "lo \<le> Suc hi \<Longrightarrow> fs ! hi \<noteq> k" using Suc.prems(1) [of "Suc hi"] z by simp
    moreover have "latest_frame fs lo hi k = (if hi < lo then 0 else latest_frame fs lo z k)"
      using Suc.IH Suc.prems(1) z by simp
    moreover have "latest_frame fs lo z k = 0" if "hi < lo" using that z by (cases z) auto
    ultimately show ?thesis by auto
  qed simp
qed simp

lemma latest_below: "hi < lo \<Longrightarrow> latest_frame fs lo hi k = 0"
  by (cases hi) auto

lemma latest_skip:
  assumes "\<And>i. lo \<le> i \<Longrightarrow> z < i \<Longrightarrow> i \<le> hi \<Longrightarrow> fs ! (i - 1) \<noteq> k" "z \<le> hi"
  shows "latest_frame fs lo hi k = latest_frame fs lo z k"
  using latest_none [OF assms] latest_below [of z lo fs k] assms(2) by (auto split: if_splits)

lemma latest_hit:
  assumes "lo \<le> r" "0 < r" "r \<le> hi" "fs ! (r - 1) = k" "\<And>i. r < i \<Longrightarrow> i \<le> hi \<Longrightarrow> fs ! (i - 1) \<noteq> k"
  shows "latest_frame fs lo hi k = r"
proof -
  have "latest_frame fs lo hi k = latest_frame fs lo r k" by (rule latest_skip) (use assms in auto)
  also have "\<dots> = r" using assms(1,2,4) by (cases r) auto
  finally show ?thesis .
qed

section \<open>The index of a log\<close>

lemma seg_simps: "seg_zero 0 = 0" "seg_zero (Suc k) = 4062 + 4096 * k" "seg_cap 0 = 4062" "seg_cap (Suc k) = 4096"
  by (simp_all add: seg_zero_def seg_cap_def wal_consts)

lemma seg_next: "seg_zero (Suc k) = seg_zero k + seg_cap k"
  by (cases k) (simp_all add: seg_simps)

lemma seg_zero_mono: "i \<le> j \<Longrightarrow> seg_zero i \<le> seg_zero j"
  by (cases i; cases j) (simp_all add: seg_simps)

lemma walFramePage_eq: "walFramePage f = (f + 33) div 4096"
  by (simp add: walFramePage_def wal_consts)

lemma walFramePage_bounds: "0 < f \<Longrightarrow> seg_zero (walFramePage f) < f \<and> f \<le> seg_zero (Suc (walFramePage f))"
proof -
  assume f: "0 < f"
  have d: "walFramePage f * 4096 + (f + 33) mod 4096 = f + 33" "(f + 33) mod 4096 < 4096"
    unfolding walFramePage_eq by simp_all
  show ?thesis
  proof (cases "walFramePage f")
    case 0
    then show ?thesis using d f by (simp add: seg_simps)
  next
    case (Suc k)
    then show ?thesis using d f by (simp add: seg_simps)
  qed
qed

lemma walFramePageI: "seg_zero k < f \<Longrightarrow> f \<le> seg_zero (Suc k) \<Longrightarrow> walFramePage f = k"
  by (cases k) (simp_all add: seg_simps walFramePage_eq)

lemma walFramePage_mono: "f \<le> g \<Longrightarrow> walFramePage f \<le> walFramePage g"
  unfolding walFramePage_eq by (intro div_le_mono) simp

text \<open>The page \<open>p\<close> of the index serves the frames of its block among the frames \<open>fs\<close>.\<close>

definition serves :: "hash_page \<Rightarrow> nat \<Rightarrow> u32 list \<Rightarrow> bool \<Rightarrow> bool" where
  "serves p k fs rest \<longleftrightarrow> (\<exists>n m. tab_inv p n m \<and> min (seg_cap k) (length fs - seg_zero k) \<le> n
     \<and> (\<forall>j < min (seg_cap k) (length fs - seg_zero k). aPgno p ! j = fs ! (seg_zero k + j))
     \<and> (min (seg_cap k) (length fs - seg_zero k) < m \<longrightarrow> rest))"

definition sized :: "nat \<Rightarrow> hash_page \<Rightarrow> bool" where
  "sized k p \<longleftrightarrow> length (aPgno p) = seg_cap k \<and> length (aHash p) = 8192"

text \<open>
  \<open>wal_rep pWal fs\<close>: the index describes the frames with the page numbers \<open>fs\<close>. Remains of a
  writer that died may follow the last frame only as long as \<^verbatim>\<open>mxFrame\<close> is that frame.
\<close>

definition wal_rep :: "Wal \<Rightarrow> u32 list \<Rightarrow> bool" where
  "wal_rep pWal fs \<longleftrightarrow> 0 \<notin> set fs \<and> mxFrame (hdr pWal) \<le> length fs
     \<and> (\<forall>k < length (apWiData pWal). \<forall>p. apWiData pWal ! k = Some p \<longrightarrow> sized k p)
     \<and> (fs \<noteq> [] \<longrightarrow> (\<forall>k \<le> walFramePage (length fs). k < length (apWiData pWal)
         \<and> (\<exists>p. apWiData pWal ! k = Some p \<and> serves p k fs (mxFrame (hdr pWal) = length fs))))"

definition env_ok :: "wal_env \<Rightarrow> bool" where
  "env_ok env \<longleftrightarrow> (\<forall>k p. snd (shm_map env k) = Some p \<longrightarrow> sized k p)"

lemma wal_repD:
  assumes "wal_rep pWal fs"
  shows "0 \<notin> set fs" "mxFrame (hdr pWal) \<le> length fs"
    "\<And>k p. k < length (apWiData pWal) \<Longrightarrow> apWiData pWal ! k = Some p \<Longrightarrow> sized k p"
    "\<And>k. 0 < length fs \<Longrightarrow> k \<le> walFramePage (length fs) \<Longrightarrow> k < length (apWiData pWal)
         \<and> (\<exists>p. apWiData pWal ! k = Some p \<and> serves p k fs (mxFrame (hdr pWal) = length fs))"
  using assms unfolding wal_rep_def by auto

lemma mapped_page:
  assumes "wal_rep pWal fs" "0 < length fs" "k \<le> walFramePage (length fs)"
  obtains p where "walHashGet env pWal k = (WOk, pWal, Some (p, seg_zero k))"
    "k < length (apWiData pWal)" "apWiData pWal ! k = Some p" "serves p k fs (mxFrame (hdr pWal) = length fs)"
    "sized k p"
proof -
  have r: "k < length (apWiData pWal)" using wal_repD(4) [OF assms] by blast
  obtain p where p: "apWiData pWal ! k = Some p" "serves p k fs (mxFrame (hdr pWal) = length fs)"
    using wal_repD(4) [OF assms] by blast
  have "walHashGet env pWal k = (WOk, pWal, Some (p, seg_zero k))"
    using r p(1) by (simp add: walHashGet_def walIndexPage_def)
  then show thesis using that r p wal_repD(3) [OF assms(1) r p(1)] by blast
qed

lemma zero_sized: "sized k (zero_page k)"
  by (simp add: sized_def zero_page_def wal_consts)

text \<open>Mapping a page changes nothing that is mapped.\<close>

lemma walHashGet_keeps:
  assumes rep: "wal_rep pWal fs" and env: "env_ok env"
  obtains rc pWal' pg where "walHashGet env pWal k = (rc, pWal', pg)" "wal_rep pWal' fs" "hdr pWal' = hdr pWal"
    "live pWal' = live pWal" "rc = WOk \<longrightarrow> (\<exists>p. pg = Some (p, seg_zero k) \<and> k < length (apWiData pWal') \<and> apWiData pWal' ! k = Some p \<and> sized k p)"
proof (cases "length (apWiData pWal) \<le> k \<or> apWiData pWal ! k = None")
  case False
  then obtain p where p: "apWiData pWal ! k = Some p" by auto
  have "walHashGet env pWal k = (WOk, pWal, Some (p, seg_zero k))"
    using False p by (simp add: walHashGet_def walIndexPage_def)
  then show thesis using that rep p False wal_repD(3) [OF rep _ p] by simp
next
  case True
  let ?d = "apWiData pWal @ replicate (Suc k - length (apWiData pWal)) None"
  have upd: "wal_rep (pWal\<lparr>apWiData := ?d[k := pg]\<rparr>) fs"
    if "\<And>p. pg = Some p \<Longrightarrow> sized k p" for pg
    unfolding wal_rep_def
  proof (intro conjI allI impI)
    fix j p assume j: "j < length (apWiData (pWal\<lparr>apWiData := ?d[k := pg]\<rparr>))" "apWiData (pWal\<lparr>apWiData := ?d[k := pg]\<rparr>) ! j = Some p"
    then show "sized j p"
      using that wal_repD(3) [OF rep, of j p] by (auto simp: nth_list_update nth_append split: if_splits)
  next
    fix j assume j: "fs \<noteq> []" "j \<le> walFramePage (length fs)"
    then have r: "j < length (apWiData pWal) \<and>
       (\<exists>p. apWiData pWal ! j = Some p \<and> serves p j fs (mxFrame (hdr pWal) = length fs))"
      using wal_repD(4) [OF rep, of j] by simp
    then have "j \<noteq> k" using True by auto
    then show "j < length (apWiData (pWal\<lparr>apWiData := ?d[k := pg]\<rparr>))"
      "\<exists>p. apWiData (pWal\<lparr>apWiData := ?d[k := pg]\<rparr>) ! j = Some p
         \<and> serves p j fs (mxFrame (hdr (pWal\<lparr>apWiData := ?d[k := pg]\<rparr>)) = length fs)"
      using r by (auto simp: nth_append)
  qed (use wal_repD(1,2) [OF rep] in auto)
  have ro: "wal_rep (p\<lparr>shm_rdonly := b\<rparr>) fs = wal_rep p fs" for p b by (simp add: wal_rep_def)
  have kl: "k < length ?d" by simp
  have w: "(if length (apWiData pWal) \<le> k then pWal\<lparr>apWiData := apWiData pWal
      @ replicate (k + 1 - length (apWiData pWal)) None\<rparr> else pWal) = pWal\<lparr>apWiData := ?d\<rparr>"
    by simp
  show thesis
  proof (cases "length (apWiData pWal) \<le> k \<and> \<not> realloc_ok env k")
    case nomem: True
    then have "walHashGet env pWal k = (WNomem, pWal, None)"
      using True by (simp add: walHashGet_def walIndexPage_def walIndexPageRealloc_def)
    then show thesis using that rep by simp
  next
    case False
    show thesis
    proof (cases "heap_memory pWal")
      case heap: True
      let ?pg = "if malloc_ok env k then Some (zero_page k) else None"
      have "walHashGet env pWal k = (if malloc_ok env k then WOk else WNomem, pWal\<lparr>apWiData := ?d[k := ?pg]\<rparr>,
          map_option (\<lambda>p. (p, seg_zero k)) ?pg)"
        unfolding walHashGet_def walIndexPage_def walIndexPageRealloc_def if_P [OF True] if_not_P [OF False] Let_def w
        using heap by (simp split: if_splits)
      then show thesis
        using that upd [of ?pg] zero_sized [of k] kl by (auto split: if_splits)
    next
      case shm: False
      obtain rc pg where m: "shm_map env k = (rc, pg)" by (cases "shm_map env k")
      have pg: "sized k p" if "pg = Some p" for p using env that m unfolding env_ok_def by (metis snd_conv)
      obtain rc' b where g: "walHashGet env pWal k = (if rc' = WOk \<and> pg = None then WErr 1 else rc',
          pWal\<lparr>apWiData := ?d[k := pg], shm_rdonly := b\<rparr>, map_option (\<lambda>p. (p, seg_zero k)) pg)"
      proof (cases "\<exists>j. rc = WReadonly \<or> rc = WReadonlyExt j")
        case ro: True
        then show thesis
          using that [of "if rc = WReadonly then WOk else rc" True]
          unfolding walHashGet_def walIndexPage_def walIndexPageRealloc_def if_P [OF True] if_not_P [OF False] Let_def w
          using shm m by (auto split: option.splits)
      next
        case nro: False
        have "pWal\<lparr>apWiData := ?d[k := pg], shm_rdonly := shm_rdonly pWal\<rparr> = pWal\<lparr>apWiData := ?d[k := pg]\<rparr>" by simp
        then show thesis
          using that [of rc "shm_rdonly pWal"] nro
          unfolding walHashGet_def walIndexPage_def walIndexPageRealloc_def if_P [OF True] if_not_P [OF False] Let_def w
          using shm m by (cases rc) (auto split: option.splits)
      qed
      then show thesis
        using that [OF g] upd [of pg] pg ro kl by (auto split: if_splits)
    qed
  qed
qed

lemma wal_rep_set:
  assumes len: "k < length (apWiData pWal)" and sz: "sized k q"
    and all: "\<And>j p. j < length (apWiData pWal) \<Longrightarrow> apWiData pWal ! j = Some p \<Longrightarrow> sized j p"
    and fs: "0 \<notin> set fs" "mxFrame (hdr pWal) \<le> length fs"
    and last: "0 < length fs \<Longrightarrow> walFramePage (length fs) = k \<and> serves q k fs (mxFrame (hdr pWal) = length fs)"
    and before: "\<And>j. j < k \<Longrightarrow> 0 < length fs \<Longrightarrow> j < length (apWiData pWal)
       \<and> (\<exists>p. apWiData pWal ! j = Some p \<and> serves p j fs (mxFrame (hdr pWal) = length fs))"
  shows "wal_rep (set_hash_page pWal k q) fs"
  unfolding wal_rep_def
proof (intro conjI allI impI)
  fix j p assume "j < length (apWiData (set_hash_page pWal k q))" "apWiData (set_hash_page pWal k q) ! j = Some p"
  then show "sized j p" using all [of j p] sz len by (cases "j = k") (auto simp: set_hash_page_def)
next
  fix j assume j: "fs \<noteq> []" "j \<le> walFramePage (length fs)"
  then have jk: "j \<le> k" using last by simp
  show "j < length (apWiData (set_hash_page pWal k q))" using jk len by (simp add: set_hash_page_def)
  show "\<exists>p. apWiData (set_hash_page pWal k q) ! j = Some p
     \<and> serves p j fs (mxFrame (hdr (set_hash_page pWal k q)) = length fs)"
    using jk j(1) last before [of j] len by (cases "j = k") (auto simp: set_hash_page_def)
qed (use fs in \<open>auto simp: set_hash_page_def\<close>)

lemma serves_full:
  assumes "serves p k fs b" "seg_zero k + seg_cap k \<le> length fs" "seg_zero k + seg_cap k \<le> length gs"
    "\<And>j. j < seg_zero k + seg_cap k \<Longrightarrow> gs ! j = fs ! j" "sized k p"
  shows "serves p k gs c"
proof -
  have m: "min (seg_cap k) (length fs - seg_zero k) = seg_cap k" "min (seg_cap k) (length gs - seg_zero k) = seg_cap k"
    using assms(2,3) by linarith+
  obtain n m where t: "tab_inv p n m" "seg_cap k \<le> n" "\<forall>j < seg_cap k. aPgno p ! j = fs ! (seg_zero k + j)"
    using assms(1) unfolding serves_def m by blast
  have "m \<le> seg_cap k" using tab_invD(3) [OF t(1)] assms(5) by (simp add: sized_def)
  then show ?thesis unfolding serves_def m using t assms(4) by (intro exI [of _ n] exI [of _ m]) auto
qed

lemma walCleanupHash_ok:
  assumes rep: "wal_rep pWal fs"
  shows "wal_rep (walCleanupHash env pWal) (take (mxFrame (hdr pWal)) fs)"
    "hdr (walCleanupHash env pWal) = hdr pWal" "live (walCleanupHash env pWal) = live pWal"
proof -
  note r = wal_repD [OF rep]
  define M where "M = mxFrame (hdr pWal)"
  have "wal_rep (walCleanupHash env pWal) (take M fs) \<and> hdr (walCleanupHash env pWal) = hdr pWal
     \<and> live (walCleanupHash env pWal) = live pWal"
  proof (cases "M = 0")
    case True
    then show ?thesis using r(3) by (simp add: walCleanupHash_def wal_rep_def M_def)
  next
    case False
    let ?k = "walFramePage M"
    have M: "0 < M" "M \<le> length fs" "0 < length fs" using False r(2) by (auto simp: M_def)
    have kle: "?k \<le> walFramePage (length fs)" by (rule walFramePage_mono [OF M(2)])
    obtain p where p: "walHashGet env pWal ?k = (WOk, pWal, Some (p, seg_zero ?k))"
      "?k < length (apWiData pWal)" "apWiData pWal ! ?k = Some p" "serves p ?k fs (mxFrame (hdr pWal) = length fs)"
      "sized ?k p"
      by (rule mapped_page [OF rep M(3) kle])
    define L where "L = M - seg_zero ?k"
    note b = walFramePage_bounds [OF M(1)]
    have L: "0 < L" "L \<le> seg_cap ?k" "seg_zero ?k + L = M" using b by (auto simp: L_def seg_next)
    let ?q = "\<lparr>aPgno = take L (aPgno p) @ replicate (length (aPgno p) - L) 0,
                       aHash = map (\<lambda>h. if h > L then 0 else h) (aHash p)\<rparr>"
    have run: "walCleanupHash env pWal = set_hash_page pWal ?k ?q"
      using False p(1) by (simp add: walCleanupHash_def M_def [symmetric] L_def Let_def)
    obtain n m where t: "tab_inv p n m" "min (seg_cap ?k) (length fs - seg_zero ?k) \<le> n"
      "\<forall>j < min (seg_cap ?k) (length fs - seg_zero ?k). aPgno p ! j = fs ! (seg_zero ?k + j)"
      using p(4) unfolding serves_def by blast
    have Lc: "L \<le> min (seg_cap ?k) (length fs - seg_zero ?k)" using L M(2) by simp
    have Ln: "L \<le> n" using Lc t(2) by (rule order_trans)
    have c: "min (seg_cap ?k) (length (take M fs) - seg_zero ?k) = L" using L M by simp
    have "serves ?q ?k (take M fs) True"
      unfolding serves_def c
    proof (intro exI conjI allI impI)
      show "tab_inv ?q L L" by (rule cleanup_tab [OF t(1) Ln])
      fix j assume j: "j < L"
      have "L \<le> length (aPgno p)" using Ln tab_invD(2,3) [OF t(1)] by simp
      then show "aPgno ?q ! j = take M fs ! (seg_zero ?k + j)" using j t(3) Lc L(3) by (simp add: nth_append)
    qed auto
    moreover have "sized ?k ?q" using p(5) L(2) by (simp add: sized_def)
    ultimately have "wal_rep (set_hash_page pWal ?k ?q) (take M fs)"
    proof (intro wal_rep_set)
      fix j assume j: "j < ?k"
      then have jl: "j \<le> walFramePage (length fs)" using kle by simp
      have rj: "j < length (apWiData pWal)" "\<exists>p. apWiData pWal ! j = Some p \<and> serves p j fs (mxFrame (hdr pWal) = length fs)"
        using r(4) [OF M(3) jl] by blast+
      obtain p' where p': "apWiData pWal ! j = Some p'" "serves p' j fs (mxFrame (hdr pWal) = length fs)" using rj(2) by blast
      have "seg_zero j + seg_cap j \<le> M" using seg_zero_mono [of "Suc j" ?k] j b by (simp add: seg_next)
      then have "serves p' j (take M fs) (mxFrame (hdr pWal) = length (take M fs))"
        using r(3) [OF rj(1) p'(1)] M(2) by (intro serves_full [OF p'(2)]) auto
      then show "j < length (apWiData pWal) \<and> (\<exists>p. apWiData pWal ! j = Some p
          \<and> serves p j (take M fs) (mxFrame (hdr pWal) = length (take M fs)))" using rj(1) p'(1) by blast
    qed (use r p M in \<open>auto simp: M_def [symmetric] dest: in_set_takeD\<close>)
    then show ?thesis unfolding run by (simp add: set_hash_page_def)
  qed
  then show "wal_rep (walCleanupHash env pWal) (take (mxFrame (hdr pWal)) fs)"
    "hdr (walCleanupHash env pWal) = hdr pWal" "live (walCleanupHash env pWal) = live pWal" by (simp_all add: M_def)
qed

lemma hash_page_at_set: "k < length (apWiData pWal) \<Longrightarrow> hash_page_at (set_hash_page pWal k q) k = q"
  by (simp add: hash_page_at_def set_hash_page_def)

lemma walIndexAppend_ok:
  assumes rep: "wal_rep pWal fs" and env: "env_ok env" and k: "iPage \<noteq> 0"
  obtains rc pWal' where "walIndexAppend env pWal (Suc (length fs)) iPage = (rc, pWal')"
    "hdr pWal' = hdr pWal" "live pWal' = live pWal" "rc = WOk \<longrightarrow> wal_rep pWal' (fs @ [iPage])" "rc \<noteq> WOk \<longrightarrow> wal_rep pWal' fs"
    "rc = fst (walHashGet env pWal (walFramePage (Suc (length fs))))"
proof -
  define N where "N = length fs"
  define h where "h = walFramePage (Suc N)"
  obtain rc w pg where g: "walHashGet env pWal h = (rc, w, pg)" "wal_rep w fs" "hdr w = hdr pWal"
    "live w = live pWal" "rc = WOk \<longrightarrow> (\<exists>p. pg = Some (p, seg_zero h) \<and> h < length (apWiData w) \<and> apWiData w ! h = Some p \<and> sized h p)"
    by (rule walHashGet_keeps [OF rep env])
  show thesis
  proof (cases "rc = WOk")
    case False
    have "walIndexAppend env pWal (Suc N) iPage = (rc, w)"
      unfolding walIndexAppend_def Let_def h_def [symmetric] g(1) using False by (cases rc) auto
    then show thesis using that g False by (simp add: N_def h_def)
  next
    case True
    then obtain p where p: "pg = Some (p, seg_zero h)" "h < length (apWiData w)" "apWiData w ! h = Some p" "sized h p"
      using g(5) by blast
    note r = wal_repD [OF g(2)]
    have b: "seg_zero h < Suc N" "Suc N \<le> seg_zero h + seg_cap h"
      using walFramePage_bounds [of "Suc N"] by (auto simp: h_def seg_next)
    define idx where "idx = Suc N - seg_zero h"
    have idx: "0 < idx" "idx \<le> seg_cap h" "seg_zero h + idx = Suc N" using b by (auto simp: idx_def)
    define w1 where "w1 = (if idx = 1 then set_hash_page w h (zero_page h) else w)"
    define w2 where "w2 = (if aPgno (hash_page_at w1 h) ! (idx - 1) \<noteq> 0 then walCleanupHash env w1 else w1)"
    have run: "walIndexAppend env pWal (Suc N) iPage = (case append_probe (aHash (hash_page_at w2 h)) idx (walHash iPage) of
                None \<Rightarrow> (WCorrupt, w2)
              | Some iKey \<Rightarrow> (WOk, set_hash_page w2 h
                    \<lparr>aPgno = (aPgno (hash_page_at w2 h))[idx - 1 := iPage],
                     aHash = (aHash (hash_page_at w2 h))[iKey := idx mod 65536]\<rparr>))"
      unfolding walIndexAppend_def Let_def h_def [symmetric] g(1) True p(1) w2_def w1_def idx_def by simp
    have w2: "wal_rep w2 fs \<and> h < length (apWiData w2) \<and> (\<exists>q. apWiData w2 ! h = Some q \<and> sized h q
       \<and> tab_inv q (idx - 1) (idx - 1) \<and> (\<forall>j < idx - 1. aPgno q ! j = fs ! (seg_zero h + j)))
       \<and> hdr w2 = hdr w \<and> live w2 = live w"
    proof (cases "idx = 1")
      case one: True
      have z: "hash_page_at w1 h = zero_page h" using one p(2) by (simp add: w1_def hash_page_at_set)
      have "0 < seg_cap h" using idx by simp
      then have "w2 = w1" unfolding w2_def z by (simp add: one zero_page_def)
      moreover have "wal_rep w1 fs"
      proof -
        have "j < length (apWiData w) \<and> (\<exists>p. apWiData w1 ! j = Some p \<and> serves p j fs (mxFrame (hdr w) = length fs))"
          if "fs \<noteq> []" "j \<le> walFramePage (length fs)" for j
        proof -
          have "walFramePage N < h"
          proof -
            have N: "0 < N" "seg_zero h = N" using that(1) one idx(3) by (auto simp: N_def)
            have "\<not> h \<le> walFramePage N"
              using walFramePage_bounds [OF N(1)] seg_zero_mono [of h "walFramePage N"] N(2) by linarith
            then show ?thesis by simp
          qed
          then have "j \<noteq> h" using that(2) by (simp add: N_def)
          then show ?thesis using r(4) [of j] that one by (simp add: w1_def set_hash_page_def)
        qed
        moreover have "sized j p" if "j < length (apWiData w)" "apWiData w1 ! j = Some p" for j p
          using that r(3) [of j p] zero_sized [of h] one p(2) by (cases "j = h") (auto simp: w1_def set_hash_page_def)
        ultimately show ?thesis using r(1,2) one by (simp add: wal_rep_def w1_def set_hash_page_def)
      qed
      ultimately show ?thesis
        using one p(2) zero_tab [of h] zero_sized [of h] by (auto simp: w1_def set_hash_page_def)
    next
      case False
      then have N: "0 < N" and hN: "walFramePage N = h" and i2: "2 \<le> idx"
        using idx by (auto intro: walFramePageI simp: seg_next)
      have w1: "w1 = w" "hash_page_at w1 h = p" using False p by (simp_all add: w1_def hash_page_at_def)
      have sv: "serves p h fs (mxFrame (hdr w) = length fs)"
        using r(4) [of h] N hN p(3) by (auto simp: N_def)
      have c: "min (seg_cap h) (length fs - seg_zero h) = idx - 1"
        using idx by (simp add: N_def)
      obtain n m where t: "tab_inv p n m" "idx - 1 \<le> n" "\<forall>j < idx - 1. aPgno p ! j = fs ! (seg_zero h + j)"
        "idx - 1 < m \<longrightarrow> mxFrame (hdr w) = length fs"
        using sv unfolding serves_def c by blast
      have len: "idx - 1 < length (aPgno p)" using idx p(4) by (simp add: sized_def)
      show ?thesis
      proof (cases "aPgno p ! (idx - 1) = 0")
        case True
        then have "m \<le> idx - 1" using tab_invD(5) [OF t(1) len] by simp
        then have "n = idx - 1" "m = idx - 1" using t(2) tab_invD(2) [OF t(1)] by simp_all
        moreover have "w2 = w" using True w1 by (simp add: w2_def)
        ultimately show ?thesis using g(2) p t by auto
      next
        case remains: False
        then have "idx - 1 < m" using tab_invD(5) [OF t(1) len] by simp
        then have mx: "mxFrame (hdr w) = N" using t(4) by (simp add: N_def)
        have w2e: "w2 = walCleanupHash env w" using remains w1 by (simp add: w2_def)
        have "walHashGet env w h = (WOk, w, Some (p, seg_zero h))"
          using p by (simp add: walHashGet_def walIndexPage_def)
        moreover have "N - seg_zero h = idx - 1" using idx(3) by simp
        ultimately have cl: "walCleanupHash env w = set_hash_page w h
           \<lparr>aPgno = take (idx - 1) (aPgno p) @ replicate (length (aPgno p) - (idx - 1)) 0,
            aHash = map (\<lambda>x. if x > idx - 1 then 0 else x) (aHash p)\<rparr>"
          using N mx hN by (simp add: walCleanupHash_def Let_def)
        have "wal_rep w2 fs" using walCleanupHash_ok(1) [OF g(2), of env] mx by (simp add: w2e N_def)
        moreover have "\<forall>j < idx - 1. (take (idx - 1) (aPgno p) @ replicate (length (aPgno p) - (idx - 1)) 0) ! j = fs ! (seg_zero h + j)"
          using t(3) len by (simp add: nth_append)
        ultimately show ?thesis
          using p cleanup_tab [OF t(1,2)] len by (simp add: w2e cl set_hash_page_def sized_def)
      qed
    qed
    then obtain q where q: "wal_rep w2 fs" "h < length (apWiData w2)" "apWiData w2 ! h = Some q" "sized h q"
      "tab_inv q (idx - 1) (idx - 1)" "\<forall>j < idx - 1. aPgno q ! j = fs ! (seg_zero h + j)" "hdr w2 = hdr w" "live w2 = live w"
      by blast
    have hq: "hash_page_at w2 h = q" using q(3) by (simp add: hash_page_at_def)
    have s: "Suc (idx - 1) = idx" using idx(1) by simp
    have len: "idx - 1 < length (aPgno q)" using idx q(4) by (simp add: sized_def)
    obtain s0 where s0: "append_probe (aHash q) idx (walHash iPage) = Some s0"
      "tab_inv \<lparr>aPgno = (aPgno q)[idx - 1 := iPage], aHash = (aHash q)[s0 := idx mod 65536]\<rparr> idx idx"
      using append_tab [OF q(5) len k] unfolding s by blast
    let ?q = "\<lparr>aPgno = (aPgno q)[idx - 1 := iPage], aHash = (aHash q)[s0 := idx mod 65536]\<rparr>"
    have res: "walIndexAppend env pWal (Suc N) iPage = (WOk, set_hash_page w2 h ?q)"
      unfolding run hq s0(1) by simp
    note r2 = wal_repD [OF q(1)]
    have "wal_rep (set_hash_page w2 h ?q) (fs @ [iPage])"
    proof (rule wal_rep_set [OF q(2)])
      show "sized h ?q" using q(4) by (simp add: sized_def)
      have c: "min (seg_cap h) (length (fs @ [iPage]) - seg_zero h) = idx" using idx by (simp add: N_def)
      have "serves ?q h (fs @ [iPage]) b" for b
        unfolding serves_def c
      proof (intro exI conjI allI impI)
        show "tab_inv ?q idx idx" by (rule s0(2))
        fix j assume j: "j < idx"
        show "aPgno ?q ! j = (fs @ [iPage]) ! (seg_zero h + j)"
        proof (cases "j = idx - 1")
          case True
          then have e: "seg_zero h + j = length fs" using idx by (simp add: N_def)
          have "aPgno ?q ! j = iPage" using True len by simp
          then show ?thesis unfolding e by simp
        next
          case False
          then have "j < idx - 1" "seg_zero h + j < length fs" using j idx by (auto simp: N_def)
          then show ?thesis using q(6) False by (simp add: nth_append)
        qed
      qed auto
      then show "walFramePage (length (fs @ [iPage])) = h \<and> serves ?q h (fs @ [iPage]) (mxFrame (hdr w2) = length (fs @ [iPage]))"
        by (simp add: h_def N_def)
      fix j assume j: "j < h"
      have bj: "seg_zero j + seg_cap j \<le> N" using seg_zero_mono [of "Suc j" h] j b by (simp add: seg_next)
      moreover have "0 < seg_cap j" by (cases j) (simp_all add: seg_simps)
      ultimately have N: "0 < N" "j \<le> walFramePage N"
        using walFramePage_mono [of "seg_zero j + seg_cap j" N] walFramePageI [of j "seg_zero j + seg_cap j"]
        by (simp_all add: seg_next)
      then have rj: "j < length (apWiData w2)" "\<exists>p. apWiData w2 ! j = Some p \<and> serves p j fs (mxFrame (hdr w2) = length fs)"
        using r2(4) [of j] by (auto simp: N_def)
      then obtain p' where p': "apWiData w2 ! j = Some p'" "serves p' j fs (mxFrame (hdr w2) = length fs)" by blast
      have "serves p' j (fs @ [iPage]) (mxFrame (hdr w2) = length (fs @ [iPage]))"
        using r2(3) [OF rj(1) p'(1)] bj by (intro serves_full [OF p'(2)]) (auto simp: N_def nth_append)
      then show "j < length (apWiData w2) \<and> (\<exists>p. apWiData w2 ! j = Some p
          \<and> serves p j (fs @ [iPage]) (mxFrame (hdr w2) = length (fs @ [iPage])))" using rj(1) p'(1) by blast
    qed (use r2 k in auto)
    moreover have "rc = fst (walHashGet env pWal h)" using g(1) by simp
    ultimately show thesis
      using that [of WOk "set_hash_page w2 h ?q"] res q(7,8) g(3,4) True by (simp add: N_def h_def set_hash_page_def)
  qed
qed

lemma find_tables_ok:
  assumes rep: "wal_rep pWal fs" and l: "l \<le> length fs" "0 < length fs"
    and lo: "seg_zero iMin < lo \<or> iMin = 0" and n: "iMin + n \<le> Suc (walFramePage (length fs))"
  shows "minFrame pWal = lo \<Longrightarrow> find_tables n env pWal iMin l k
    = (WOk, pWal, latest_frame fs lo (min l (seg_zero (iMin + n))) k)"
  using n
proof (induction n)
  case 0
  then show ?case using lo latest_below [of "min l (seg_zero iMin)" lo] by (auto simp: seg_simps)
next
  case (Suc n)
  let ?j = "iMin + n" and ?z = "seg_zero (iMin + n)"
  have jl: "?j \<le> walFramePage (length fs)" using Suc.prems(2) by simp
  obtain p where p: "walHashGet env pWal ?j = (WOk, pWal, Some (p, ?z))" "serves p ?j fs (mxFrame (hdr pWal) = length fs)"
    "sized ?j p"
    by (rule mapped_page [OF rep l(2) jl])
  obtain t m where t: "tab_inv p t m" "min (seg_cap ?j) (length fs - ?z) \<le> t"
    "\<forall>i < min (seg_cap ?j) (length fs - ?z). aPgno p ! i = fs ! (?z + i)"
    using p(2) unfolding serves_def by blast
  let ?hi = "min l (seg_zero (Suc ?j))"
  have hits: "hits p ?z l lo k (i - ?z) \<longleftrightarrow> i \<le> l \<and> lo \<le> i \<and> fs ! (i - 1) = k"
    if i: "?z < i" "i \<le> ?hi" for i
  proof -
    have a: "i - ?z - 1 < min (seg_cap ?j) (length fs - ?z)" using i l(1) by (auto simp: seg_next)
    have "?z + (i - ?z - 1) = i - 1" "i - ?z + ?z = i" using i by linarith+
    then show ?thesis using t(3) a by (simp add: hits_def)
  qed
  have within: "i - ?z \<le> t" if "?z < i" "i \<le> ?hi" for i
  proof -
    have "i - ?z \<le> min (seg_cap ?j) (length fs - ?z)" using that l(1) by (auto simp: seg_next)
    then show ?thesis using t(2) by (rule order_trans)
  qed
  obtain r where r: "find_probe p ?z l lo k 8192 (walHash k) 0 = Some r"
    "r = 0 \<and> (\<forall>v. 0 < v \<longrightarrow> v \<le> t \<longrightarrow> \<not> hits p ?z l lo k v)
     \<or> ?z < r \<and> r - ?z \<le> t \<and> hits p ?z l lo k (r - ?z) \<and> (\<forall>v. r - ?z < v \<longrightarrow> v \<le> t \<longrightarrow> \<not> hits p ?z l lo k v)"
    by (rule find_table [OF t(1), of ?z l lo k])
  have ns: "HASHTABLE_NSLOT = 8192" by (simp add: wal_consts)
  have step: "find_tables (Suc n) env pWal iMin l k = (if r \<noteq> 0 then (WOk, pWal, r)
       else find_tables n env pWal iMin l k)"
    using p(1) r(1) Suc.prems(1) by (simp add: ns)
  from r(2) show ?case
  proof
    assume a: "r = 0 \<and> (\<forall>v. 0 < v \<longrightarrow> v \<le> t \<longrightarrow> \<not> hits p ?z l lo k v)"
    have no: "fs ! (i - 1) \<noteq> k" if "lo \<le> i" "min l ?z < i" "i \<le> ?hi" for i
    proof -
      have i: "?z < i" using that by auto
      then have "\<not> hits p ?z l lo k (i - ?z)" using a within [OF i that(3)] by simp
      then show ?thesis using hits [OF i that(3)] that by simp
    qed
    have le: "min l ?z \<le> ?hi" by (auto simp: seg_next)
    have "latest_frame fs lo ?hi k = latest_frame fs lo (min l ?z) k" by (rule latest_skip [OF no le])
    then show ?thesis using a step Suc.IH Suc.prems by simp
  next
    assume a: "?z < r \<and> r - ?z \<le> t \<and> hits p ?z l lo k (r - ?z) \<and> (\<forall>v. r - ?z < v \<longrightarrow> v \<le> t \<longrightarrow> \<not> hits p ?z l lo k v)"
    have "t \<le> seg_cap ?j" using tab_invD(2,3) [OF t(1)] p(3) by (simp add: sized_def)
    then have rhi: "r \<le> ?hi" using a by (auto simp: hits_def seg_next)
    have h: "lo \<le> r" "fs ! (r - 1) = k" using hits [of r] a rhi by auto
    have no: "fs ! (i - 1) \<noteq> k" if "r < i" "i \<le> ?hi" for i
    proof -
      have i: "?z < i" using that a by simp
      have "r - ?z < i - ?z" using that a by (simp add: diff_less_mono)
      then have "\<not> hits p ?z l lo k (i - ?z)" using a within [OF i that(2)] by blast
      then show ?thesis using hits [OF i that(2)] that h(1) by auto
    qed
    have "latest_frame fs lo ?hi k = r" by (rule latest_hit [OF h(1) _ rhi h(2) no]) (use a in auto)
    then show ?thesis using a step by simp
  qed
qed

lemma walFindFrame_ok:
  assumes rep: "wal_rep pWal fs"
  shows "walFindFrame env pWal k = (WOk, pWal,
    if readLock pWal = 0 \<and> \<not> bShmUnreliable pWal then 0 else latest_frame fs (minFrame pWal) (mxFrame (hdr pWal)) k)"
proof (cases "mxFrame (hdr pWal) = 0 \<or> readLock pWal = 0 \<and> \<not> bShmUnreliable pWal")
  case True
  then show ?thesis by (auto simp: walFindFrame_def)
next
  case False
  let ?l = "mxFrame (hdr pWal)" and ?lo = "minFrame pWal"
  have l: "?l \<le> length fs" "0 < length fs" "0 < ?l" using wal_repD(2) [OF rep] False by auto
  let ?m = "walFramePage ?lo"
  have lo: "seg_zero ?m < ?lo \<or> ?m = 0" using walFramePage_bounds [of ?lo] by (cases "?lo = 0") (auto simp: walFramePage_eq)
  have run: "walFindFrame env pWal k = find_tables (walFramePage ?l + 1 - ?m) env pWal ?m ?l k"
    using False by (auto simp: walFindFrame_def Let_def)
  show ?thesis
  proof (cases "?m \<le> Suc (walFramePage ?l)")
    case True
    then have e: "?m + (walFramePage ?l + 1 - ?m) = Suc (walFramePage ?l)" by simp
    have le: "?m + (walFramePage ?l + 1 - ?m) \<le> Suc (walFramePage (length fs))"
      unfolding e using walFramePage_mono [OF l(1)] by simp
    have "min ?l (seg_zero (Suc (walFramePage ?l))) = ?l" using walFramePage_bounds [OF l(3)] by simp
    then show ?thesis using find_tables_ok [OF rep l(1,2) lo le refl] False unfolding run e by auto
  next
    case over: False
    have "?l < ?lo"
    proof (rule ccontr)
      assume "\<not> ?l < ?lo"
      then have "?m \<le> walFramePage ?l" by (intro walFramePage_mono) simp
      then show False using over by simp
    qed
    then show ?thesis using over False latest_below [of ?l ?lo] unfolding run by auto
  qed
qed

section \<open>Rollback\<close>

text \<open>Frames after \<^verbatim>\<open>mxFrame\<close> may be regarded as remains.\<close>

lemma wal_rep_truncate:
  assumes rep: "wal_rep pWal fs" and hd: "mxFrame h = M" "M \<le> length fs"
  shows "wal_rep (pWal\<lparr>hdr := h\<rparr>) (take M fs)"
proof -
  note r = wal_repD [OF rep]
  have "k < length (apWiData pWal) \<and> (\<exists>p. apWiData pWal ! k = Some p \<and> serves p k (take M fs) True)"
    if k: "0 < M" "0 < length fs" "k \<le> walFramePage M" for k
  proof -
    have "k \<le> walFramePage (length fs)" using k(3) walFramePage_mono [OF hd(2)] by simp
    then obtain p where p: "k < length (apWiData pWal)" "apWiData pWal ! k = Some p" "serves p k fs (mxFrame (hdr pWal) = length fs)"
      using r(4) [OF k(2)] by blast
    obtain n m where t: "tab_inv p n m" "min (seg_cap k) (length fs - seg_zero k) \<le> n"
      "\<forall>j < min (seg_cap k) (length fs - seg_zero k). aPgno p ! j = fs ! (seg_zero k + j)"
      using p(3) unfolding serves_def by blast
    have c: "min (seg_cap k) (length (take M fs) - seg_zero k) \<le> min (seg_cap k) (length fs - seg_zero k)"
      using hd(2) by (intro min.mono) auto
    have "serves p k (take M fs) True"
      unfolding serves_def
    proof (intro exI conjI allI impI)
      show "min (seg_cap k) (length (take M fs) - seg_zero k) \<le> n" using c t(2) by (rule order_trans)
      fix j assume "j < min (seg_cap k) (length (take M fs) - seg_zero k)"
      then show "aPgno p ! j = take M fs ! (seg_zero k + j)" using t(3) c by auto
    qed (use t in auto)
    then show ?thesis using p by blast
  qed
  then show ?thesis
    using r(1,3) hd by (auto simp: wal_rep_def dest: in_set_takeD)
qed

lemma walFramePgno_ok:
  assumes rep: "wal_rep pWal fs" and i: "0 < i" "i \<le> length fs"
  shows "walFramePgno pWal i = Some (fs ! (i - 1))"
proof -
  let ?k = "walFramePage i"
  note b = walFramePage_bounds [OF i(1)]
  have kl: "?k \<le> walFramePage (length fs)" by (rule walFramePage_mono [OF i(2)])
  have "0 < length fs" using i by linarith
  then obtain p where p: "?k < length (apWiData pWal)" "apWiData pWal ! ?k = Some p" "serves p ?k fs (mxFrame (hdr pWal) = length fs)"
    using wal_repD(4) [OF rep _ kl] by blast
  have j: "i - 1 - seg_zero ?k < min (seg_cap ?k) (length fs - seg_zero ?k)" using b i by (auto simp: seg_next)
  then have "aPgno p ! (i - 1 - seg_zero ?k) = fs ! (seg_zero ?k + (i - 1 - seg_zero ?k))"
    using p(3) unfolding serves_def by blast
  also have "seg_zero ?k + (i - 1 - seg_zero ?k) = i - 1" using b by simp
  finally have v: "aPgno p ! (i - 1 - seg_zero ?k) = fs ! (i - 1)" .
  show ?thesis
  proof (cases "?k")
    case 0
    then show ?thesis using p v by (simp add: walFramePgno_def Let_def seg_simps)
  next
    case (Suc n)
    have "i - 1 - 4062 = i - 1 - seg_zero ?k + n * 4096"
      using b Suc by (simp add: seg_simps)
    moreover have "i - 1 - seg_zero ?k < 4096" using j Suc by (simp add: seg_simps)
    ultimately have "(i - 1 - 4062) mod 4096 = i - 1 - seg_zero ?k" by simp
    then show ?thesis using p v Suc by (simp add: walFramePgno_def Let_def wal_consts)
  qed
qed

lemma undo_loop_ok:
  assumes rep: "wal_rep pWal fs" and ok: "\<And>k. xUndo k = WOk"
  shows "i + n \<le> length fs \<Longrightarrow> undo_loop xUndo pWal n (Suc i) = (WOk, take n (drop i fs))"
proof (induction n arbitrary: i)
  case (Suc n)
  have "walFramePgno pWal (Suc i) = Some (fs ! i)" using walFramePgno_ok [OF rep, of "Suc i"] Suc.prems by simp
  moreover have "take (Suc n) (drop i fs) = fs ! i # take n (drop (Suc i) fs)"
    using Suc.prems by (simp add: take_Suc_conv_app_nth Cons_nth_drop_Suc [symmetric])
  ultimately show ?case using Suc.IH [of "Suc i"] Suc.prems ok by simp
qed simp

lemma WalUndo_ok:
  assumes rep: "wal_rep pWal fs" and w: "writeLock pWal" and l: "mxFrame (live pWal) \<le> mxFrame (hdr pWal)"
    and ok: "\<And>k. xUndo k = WOk"
  obtains pWal' where "sqlite3WalUndo env xUndo pWal
      = (WOk, drop (mxFrame (live pWal)) (take (mxFrame (hdr pWal)) fs), pWal')"
    "wal_rep pWal' (take (mxFrame (live pWal)) fs)" "hdr pWal' = live pWal" "live pWal' = live pWal"
proof -
  let ?L = "mxFrame (live pWal)" and ?M = "mxFrame (hdr pWal)"
  have M: "?M \<le> length fs" "?L \<le> length fs" using wal_repD(2) [OF rep] l by simp_all
  let ?w = "pWal\<lparr>hdr := live pWal\<rparr>"
  have pages: "walFramePgno ?w = walFramePgno pWal" by (simp add: walFramePgno_def fun_eq_iff Let_def)
  have ul: "undo_loop xUndo ?w n i = undo_loop xUndo pWal n i" for n i
    by (induction n arbitrary: i) (simp_all add: pages split: option.split)
  have "take (?M - ?L) (drop ?L fs) = drop ?L (take ?M fs)" by (simp add: drop_take)
  then have u: "undo_loop xUndo ?w (?M - ?L) (?L + 1) = (WOk, drop ?L (take ?M fs))"
    using undo_loop_ok [OF rep ok, of ?L "?M - ?L"] M l unfolding ul by simp
  have r0: "wal_rep ?w (take ?L fs)" by (rule wal_rep_truncate [OF rep refl M(2)])
  have r1: "wal_rep (walCleanupHash env ?w) (take ?L fs)" using walCleanupHash_ok(1) [OF r0, of env] by simp
  have "sqlite3WalUndo env xUndo pWal = (WOk, drop ?L (take ?M fs), if ?M \<noteq> ?L then walCleanupHash env ?w else ?w)"
    using w u by (simp add: sqlite3WalUndo_def Let_def)
  then show thesis
    using that r0 r1 walCleanupHash_ok(2,3) [OF r0, of env] by (cases "?M = ?L") simp_all
qed

lemma WalSavepointUndo_ok:
  assumes rep: "wal_rep pWal fs" and s: "sv_nCkpt s = nCkpt pWal" "sv_mxFrame s < mxFrame (hdr pWal)"
  obtains pWal' where "sqlite3WalSavepointUndo env pWal s = (WOk, pWal', s)"
    "wal_rep pWal' (take (sv_mxFrame s) fs)"
    "hdr pWal' = (hdr pWal)\<lparr>mxFrame := sv_mxFrame s, aFrameCksum := sv_cksum s\<rparr>"
proof -
  let ?h = "(hdr pWal)\<lparr>mxFrame := sv_mxFrame s, aFrameCksum := sv_cksum s\<rparr>"
  have l: "sv_mxFrame s \<le> length fs" using wal_repD(2) [OF rep] s(2) by simp
  have r0: "wal_rep (pWal\<lparr>hdr := ?h\<rparr>) (take (sv_mxFrame s) fs)" by (rule wal_rep_truncate [OF rep _ l]) simp
  then show thesis
    using that [of "walCleanupHash env (pWal\<lparr>hdr := ?h\<rparr>)"] s walCleanupHash_ok [OF r0, of env]
    by (simp add: sqlite3WalSavepointUndo_def)
qed

section \<open>The index over its life\<close>

text \<open>
  The states of the index that the operations reach from an empty log: frames are appended, the
  private \<^verbatim>\<open>mxFrame\<close> is moved to the last one at the end of \<^verbatim>\<open>walFrames\<close>, a commit copies the
  header to the index, a rollback or a savepoint cuts frames off, and a writer may die, after
  which the next one starts from the header in the index.
\<close>

inductive wal_run :: "wal_env \<Rightarrow> Wal \<Rightarrow> u32 list \<Rightarrow> bool" for env where
  start: "\<forall>k < length (apWiData w). \<forall>p. apWiData w ! k = Some p \<longrightarrow> sized k p \<Longrightarrow>
     mxFrame (hdr w) = 0 \<Longrightarrow> mxFrame (live w) = 0 \<Longrightarrow> wal_run env w []"
| append: "wal_run env w fs \<Longrightarrow> k \<noteq> 0 \<Longrightarrow> walIndexAppend env w (Suc (length fs)) k = (rc, w') \<Longrightarrow>
     wal_run env w' (if rc = WOk then fs @ [k] else fs)"
| frames: "wal_run env w fs \<Longrightarrow> wal_run env (w\<lparr>hdr := (hdr w)\<lparr>mxFrame := length fs\<rparr>\<rparr>) fs"
| commit: "wal_run env w fs \<Longrightarrow> wal_run env (w\<lparr>live := hdr w\<rparr>) fs"
| undo: "wal_run env w fs \<Longrightarrow> writeLock w \<Longrightarrow> \<forall>k. xUndo k = WOk \<Longrightarrow>
     sqlite3WalUndo env xUndo w = (rc, ps, w') \<Longrightarrow> wal_run env w' (take (mxFrame (live w)) fs)"
| savepoint: "wal_run env w fs \<Longrightarrow> sv_nCkpt s = nCkpt w \<Longrightarrow> mxFrame (live w) \<le> sv_mxFrame s \<Longrightarrow>
     sv_mxFrame s < mxFrame (hdr w) \<Longrightarrow> sqlite3WalSavepointUndo env w s = (rc, w', s') \<Longrightarrow>
     wal_run env w' (take (sv_mxFrame s) fs)"
| died: "wal_run env w fs \<Longrightarrow> wal_run env (w\<lparr>hdr := live w\<rparr>) (take (mxFrame (live w)) fs)"

lemma wal_rep_fields:
  assumes "wal_rep w fs" "apWiData w' = apWiData w" "mxFrame (hdr w') = mxFrame (hdr w)"
  shows "wal_rep w' fs"
  using assms by (simp add: wal_rep_def)

lemma wal_rep_frames:
  assumes "wal_rep w fs"
  shows "wal_rep (w\<lparr>hdr := (hdr w)\<lparr>mxFrame := length fs\<rparr>\<rparr>) fs"
proof -
  have *: "serves p k fs True" if "serves p k fs b" for p k b using that unfolding serves_def by blast
  note r = wal_repD [OF assms]
  have "k < length (apWiData w) \<and> (\<exists>p. apWiData w ! k = Some p \<and> serves p k fs True)"
    if "0 < length fs" "k \<le> walFramePage (length fs)" for k
    using r(4) [OF that] * by blast
  then show ?thesis using r(1,3) by (simp add: wal_rep_def)
qed

lemma wal_run_rep:
  assumes "wal_run env w fs" "env_ok env"
  shows "wal_rep w fs \<and> mxFrame (live w) \<le> mxFrame (hdr w)"
  using assms(1)
proof induction
  case (start w)
  then show ?case by (simp add: wal_rep_def)
next
  case (append w fs k rc w')
  then have rep: "wal_rep w fs" by simp
  show ?case
    by (rule walIndexAppend_ok [OF rep assms(2) append(2)]) (use append(3,4) in auto)
next
  case (frames w fs)
  then show ?case using wal_rep_frames wal_repD(2) by fastforce
next
  case (commit w fs)
  then show ?case by (auto intro: wal_rep_fields)
next
  case (undo w fs xUndo rc ps w')
  then have rep: "wal_rep w fs" and l: "mxFrame (live w) \<le> mxFrame (hdr w)" and u: "\<And>k. xUndo k = WOk" by auto
  show ?case
    by (rule WalUndo_ok [where xUndo = xUndo and env = env, OF rep undo(2) l u]) (use undo(4) in auto)
next
  case (savepoint w fs s rc w' s')
  then have rep: "wal_rep w fs" by simp
  have lv: "live w' = live w"
    using savepoint(5) walCleanupHash_ok(3) [OF wal_rep_truncate [OF rep, of "(hdr w)\<lparr>mxFrame := sv_mxFrame s, aFrameCksum := sv_cksum s\<rparr>" "sv_mxFrame s"], of env]
      savepoint(2,4) wal_repD(2) [OF rep] by (auto simp: sqlite3WalSavepointUndo_def)
  show ?case
    by (rule WalSavepointUndo_ok [OF rep savepoint(2,4), of env]) (use savepoint(3,5) lv in auto)
next
  case (died w fs)
  then have rep: "wal_rep w fs" and l: "mxFrame (live w) \<le> mxFrame (hdr w)" by simp_all
  have "mxFrame (live w) \<le> length fs" using l wal_repD(2) [OF rep] by simp
  then show ?case using wal_rep_truncate [OF rep refl] by simp
qed

text \<open>
  C5. In every state that appending, committing, rolling back and crashed writers can leave,
  also with the remains of an unfinished transaction in the hash tables,
  \<^verbatim>\<open>walFindFrame\<close> succeeds and answers what a linear search of the page numbers answers, the
  last frame of the page between \<^verbatim>\<open>minFrame\<close> and the \<^verbatim>\<open>mxFrame\<close> of the reader: the
  equality that the source states in its expensive assertions.
\<close>

theorem find_is_linear_search:
  assumes "wal_run env w fs" "env_ok env" "readLock w \<noteq> 0"
  shows "walFindFrame env w k = (WOk, w, latest_frame fs (minFrame w) (mxFrame (hdr w)) k)"
  using walFindFrame_ok [of w fs env k] wal_run_rep [OF assms(1,2)] assms(3) by simp

definition example_env :: wal_env where
  "example_env = \<lparr>realloc_ok = (\<lambda>_. True), malloc_ok = (\<lambda>_. True), shm_map = (\<lambda>_. (WNomem, None))\<rparr>"

definition example_hdr :: WalIndexHdr where
  "example_hdr = \<lparr>iVersion = 3007000, iChange = 0, hdr_isInit = True, bigEndCksum = False, hdr_szPage = 512,
     mxFrame = 0, hdr_nPage = 0, aFrameCksum = (0, 0), aSalt = replicate 8 0, aCksum = (0, 0)\<rparr>"

definition example_wal :: Wal where
  "example_wal = \<lparr>apWiData = [], szPage = 512, readLock = 1, writeLock = True, heap_memory = True, shm_rdonly = False,
     bShmUnreliable = False, hdr = example_hdr, live = example_hdr, minFrame = 1, iReCksum = 0, nCkpt = 0,
     truncateOnCommit = False, iCallback = 0, syncHeader = True, padToSectorBoundary = True, mxWalSize = - 1\<rparr>"

lemma example_env_ok: "env_ok example_env"
  by (simp add: env_ok_def example_env_def)

lemma example_append:
  obtains w where "wal_run example_env w [7]" "walIndexAppend example_env example_wal 1 7 = (WOk, w)"
    "hdr w = example_hdr" "readLock w = 1" "minFrame w = 1"
proof -
  have run: "wal_run example_env example_wal []"
    by (rule wal_run.start) (simp_all add: example_wal_def example_hdr_def)
  then have rep: "wal_rep example_wal []" using wal_run_rep example_env_ok by blast
  obtain rc w where a: "walIndexAppend example_env example_wal (Suc (length ([] :: u32 list))) 7 = (rc, w)" "hdr w = hdr example_wal"
    "rc = fst (walHashGet example_env example_wal (walFramePage (Suc (length ([] :: u32 list)))))"
    by (rule walIndexAppend_ok [OF rep example_env_ok, of 7]) auto
  have "rc = WOk"
    using a(3) by (simp add: walFramePage_eq walHashGet_def walIndexPage_def walIndexPageRealloc_def example_wal_def example_env_def Let_def)
  moreover have "wal_run example_env w (if rc = WOk then [] @ [7] else [])"
    by (rule wal_run.append [OF run _ a(1)]) simp
  moreover have "readLock w = 1 \<and> minFrame w = 1"
  proof -
    have k: "readLock (set_hash_page x i p) = readLock x" "minFrame (set_hash_page x i p) = minFrame x" for x i p
      by (simp_all add: set_hash_page_def)
    have g: "walHashGet example_env x 0 = (WOk, y, z) \<Longrightarrow> readLock y = readLock x \<and> minFrame y = minFrame x" for x y z
      by (auto simp: walHashGet_def walIndexPage_def walIndexPageRealloc_def example_env_def Let_def split: if_splits)
    have c: "readLock (walCleanupHash example_env x) = readLock x \<and> minFrame (walCleanupHash example_env x) = minFrame x"
      if "mxFrame (hdr x) = 0" for x using that by (simp add: walCleanupHash_def)
    obtain y z where y: "walHashGet example_env example_wal 0 = (WOk, y, Some (z, 0))" "mxFrame (hdr y) = 0"
      by (simp add: walHashGet_def walIndexPage_def walIndexPageRealloc_def example_env_def example_wal_def example_hdr_def seg_simps Let_def)
    have "walFramePage 1 = 0" by (simp add: walFramePage_eq)
    then show ?thesis
      using a(1) g [OF y(1)] c [of "set_hash_page y 0 (zero_page 0)"] y
      by (auto simp: walIndexAppend_def Let_def k set_hash_page_def example_wal_def split: option.splits if_splits)
  qed
  ultimately show thesis using that a by (simp add: example_wal_def)
qed

theorem find_is_linear_search_witness:
  "\<exists>w. wal_run example_env w [7] \<and> mxFrame (hdr w) = 1 \<and> walFindFrame example_env w 7 = (WOk, w, 1)
     \<and> walFindFrame example_env w 8 = (WOk, w, 0)"
proof -
  obtain w where w: "wal_run example_env w [7]" "readLock w = 1" "minFrame w = 1"
    by (rule example_append)
  let ?w = "w\<lparr>hdr := (hdr w)\<lparr>mxFrame := length [7 :: u32]\<rparr>\<rparr>"
  have "wal_run example_env ?w [7]" by (rule wal_run.frames [OF w(1)])
  then show ?thesis
    using find_is_linear_search [of example_env ?w "[7]"] example_env_ok w by (intro exI [of _ ?w]) simp
qed

text \<open>
  C6. \<^verbatim>\<open>walIndexAppend\<close> appends to the list of page numbers: when the page of the index is
  mapped it succeeds, whatever earlier writers left in it and however its hashes collide, and
  every older frame stays indexed; when the mapping fails, its code is returned and the index is
  unchanged. It never reports corruption on its own.
\<close>

theorem append_refines:
  assumes "wal_rep w fs" "env_ok env" "k \<noteq> 0"
  shows "\<exists>w'. walIndexAppend env w (Suc (length fs)) k
      = (fst (walHashGet env w (walFramePage (Suc (length fs)))), w') \<and> hdr w' = hdr w
    \<and> wal_rep w' (if fst (walHashGet env w (walFramePage (Suc (length fs)))) = WOk then fs @ [k] else fs)"
  by (rule walIndexAppend_ok [OF assms]) auto

theorem append_refines_witness:
  "\<exists>w'. walIndexAppend example_env example_wal 1 7 = (WOk, w') \<and> wal_rep w' [7]"
proof -
  have "wal_rep example_wal []" by (simp add: wal_rep_def example_wal_def example_hdr_def)
  moreover have "fst (walHashGet example_env example_wal (walFramePage 1)) = WOk"
    by (simp add: walFramePage_eq walHashGet_def walIndexPage_def walIndexPageRealloc_def example_wal_def example_env_def Let_def)
  ultimately show ?thesis using append_refines [OF _ example_env_ok, of example_wal "[]" 7] by auto
qed

text \<open>
  C33. Rolling back a transaction: \<^verbatim>\<open>sqlite3WalUndo\<close> restores the committed header, reports to
  the pager exactly the pages of the frames written since the commit, in order, and leaves an index
  of the committed frames.
\<close>

theorem undo_restores_commit:
  assumes "wal_rep w fs" "writeLock w" "mxFrame (live w) \<le> mxFrame (hdr w)" "\<forall>k. xUndo k = WOk"
  shows "\<exists>w'. sqlite3WalUndo env xUndo w = (WOk, drop (mxFrame (live w)) (take (mxFrame (hdr w)) fs), w')
    \<and> wal_rep w' (take (mxFrame (live w)) fs) \<and> hdr w' = live w"
  using WalUndo_ok [OF assms(1-3), of xUndo env] assms(4) by blast

theorem undo_restores_commit_witness:
  "\<exists>w w'. wal_rep w [7] \<and> sqlite3WalUndo example_env (\<lambda>_. WOk) (w\<lparr>writeLock := True\<rparr>) = (WOk, [7], w') \<and> wal_rep w' []"
proof -
  obtain w where w: "wal_run example_env w [7]" "walIndexAppend example_env example_wal 1 7 = (WOk, w)"
    by (rule example_append)
  have rep: "wal_rep w [7]" using wal_run_rep [OF w(1) example_env_ok] by simp
  have rep0: "wal_rep example_wal []" by (simp add: wal_rep_def example_wal_def example_hdr_def)
  have "live w = live example_wal"
    using walIndexAppend_ok [OF rep0 example_env_ok, of 7] w(2) by auto
  then have lv: "mxFrame (live w) = 0" by (simp add: example_wal_def example_hdr_def)
  let ?w = "w\<lparr>hdr := (hdr w)\<lparr>mxFrame := length [7 :: u32]\<rparr>, writeLock := True\<rparr>"
  have "wal_rep (w\<lparr>hdr := (hdr w)\<lparr>mxFrame := length [7 :: u32]\<rparr>\<rparr>) [7]" by (rule wal_rep_frames [OF rep])
  then have "wal_rep ?w [7]" by (rule wal_rep_fields) simp_all
  then obtain w' where "sqlite3WalUndo example_env (\<lambda>_. WOk) ?w = (WOk, [7], w')" "wal_rep w' []"
    using undo_restores_commit [of ?w "[7]" "\<lambda>_. WOk" example_env] lv by auto
  moreover have "?w\<lparr>writeLock := True\<rparr> = ?w" by simp
  ultimately show ?thesis using \<open>wal_rep ?w [7]\<close> by metis
qed

end
