(* ===== verification/WalIterM.thy ===== *)
theory WalIterM
  imports WalIndexM
begin

text \<open>
  The iterator of a checkpoint (\<^verbatim>\<open>wal.c\<close> part of \<^verbatim>\<open>sqlite3.c\<close>): the frames of every block of the
  wal-index are sorted by page number with a bottom-up merge sort that drops all but the last
  frame of a page, and the blocks are merged on the fly. An array is a list; a pointer into it is
  an offset.
\<close>

section \<open>Definitions\<close>

text \<open>
  The loop of \<^verbatim>\<open>walMerge\<close> on what is left of the two inputs, and \<^verbatim>\<open>walMerge\<close>, which
  copies its result over the left input: \<open>a\<close> is the array that both inputs lie in.
\<close>

function merge_loop :: "u32 list \<Rightarrow> nat list \<Rightarrow> nat list \<Rightarrow> nat list" where
  "merge_loop aContent xs ys =
     (if xs = [] \<and> ys = [] then []
      else (let left = xs \<noteq> [] \<and> (ys = [] \<or> aContent ! hd xs < aContent ! hd ys);
                logpage = (if left then hd xs else hd ys);
                xs' = (if left then tl xs else xs);
                ys' = (if left then ys else tl ys);
                dbpage = aContent ! logpage
            in logpage # merge_loop aContent
                 (if xs' \<noteq> [] \<and> aContent ! hd xs' = dbpage then tl xs' else xs') ys'))"
  by pat_completeness auto
termination
proof (relation "measure (\<lambda>(c, xs, ys). length xs + length ys)")
  fix c :: "u32 list" and xs ys :: "nat list" and l k xs' ys' d
  assume "\<not> (xs = [] \<and> ys = [])" "l = (xs \<noteq> [] \<and> (ys = [] \<or> c ! hd xs < c ! hd ys))"
    "xs' = (if l then tl xs else xs)" "ys' = (if l then ys else tl ys)"
  then have "length xs' + length ys' < length xs + length ys" by (cases xs; cases ys) auto
  then show "((c, if xs' \<noteq> [] \<and> c ! hd xs' = d then tl xs' else xs', ys'), c, xs, ys)
      \<in> measure (\<lambda>(c, xs, ys). length xs + length ys)" by auto
qed simp

definition slice :: "'a list \<Rightarrow> nat \<Rightarrow> nat \<Rightarrow> 'a list" where
  "slice a off n = take n (drop off a)"

definition walMerge :: "u32 list \<Rightarrow> nat list \<Rightarrow> nat \<times> nat \<Rightarrow> nat \<times> nat \<Rightarrow> nat list \<times> nat \<times> nat" where
  "walMerge aContent a = (\<lambda>(aLeft, nLeft) (aRight, nRight).
     let aTmp = merge_loop aContent (slice a aLeft nLeft) (slice a aRight nRight)
     in (take aLeft a @ aTmp @ drop (aLeft + length aTmp) a, aLeft, length aTmp))"

text \<open>The loop over \<^verbatim>\<open>iSub\<close> for one \<^verbatim>\<open>iList\<close>.\<close>

function msort_up :: "u32 list \<Rightarrow> nat \<Rightarrow> nat \<Rightarrow> (nat \<times> nat) list \<Rightarrow> nat list \<Rightarrow> nat \<times> nat \<Rightarrow>
    nat \<times> nat list \<times> nat \<times> nat" where
  "msort_up aContent iList iSub aSub a aMerge =
     (if odd (iList div 2 ^ iSub)
      then (let (a, aMerge) = walMerge aContent a (aSub ! iSub) aMerge
            in msort_up aContent iList (iSub + 1) aSub a aMerge)
      else (iSub, a, aMerge))"
  by pat_completeness auto
termination
proof (relation "measure (\<lambda>(c, iList, iSub, aSub, a, m). iList div 2 ^ iSub)")
  fix c :: "u32 list" and iList iSub :: nat and aSub :: "(nat \<times> nat) list" and a :: "nat list" and m :: "nat \<times> nat" and z x y
  assume "odd (iList div 2 ^ iSub)"
  then have "0 < iList div 2 ^ iSub" by (rule odd_pos)
  moreover have "iList div 2 ^ (iSub + 1) = iList div 2 ^ iSub div 2"
    by (metis Suc_eq_plus1 div_mult2_eq power_Suc2)
  ultimately show "((c, iList, iSub + 1, aSub, x, y), c, iList, iSub, aSub, a, m)
      \<in> measure (\<lambda>(c, iList, iSub, aSub, a, m). iList div 2 ^ iSub)" by simp
qed simp

fun msort_loop :: "nat \<Rightarrow> u32 list \<Rightarrow> nat \<Rightarrow> nat \<times> (nat \<times> nat) list \<times> nat list \<times> nat \<times> nat \<Rightarrow>
    nat \<times> (nat \<times> nat) list \<times> nat list \<times> nat \<times> nat" where
  "msort_loop 0 aContent iList st = st"
| "msort_loop (Suc k) aContent iList (iSub, aSub, a, aMerge) =
     (let (iSub, a, aMerge) = msort_up aContent iList 0 aSub a (iList, 1)
      in msort_loop k aContent (iList + 1) (iSub, aSub[iSub := aMerge], a, aMerge))"

text \<open>The last loop; it ends at \<^verbatim>\<open>ArraySize(aSub)\<close>, which is 13.\<close>

fun msort_final :: "nat \<Rightarrow> u32 list \<Rightarrow> nat \<Rightarrow> nat \<Rightarrow> (nat \<times> nat) list \<Rightarrow> nat list \<Rightarrow> nat \<times> nat \<Rightarrow>
    nat list \<times> nat \<times> nat" where
  "msort_final 0 aContent nList iSub aSub a aMerge = (a, aMerge)"
| "msort_final (Suc k) aContent nList iSub aSub a aMerge =
     (let (a, aMerge) = (if odd (nList div 2 ^ iSub) then walMerge aContent a (aSub ! iSub) aMerge else (a, aMerge))
      in msort_final k aContent nList (iSub + 1) aSub a aMerge)"

definition walMergesort :: "u32 list \<Rightarrow> nat list \<Rightarrow> nat \<Rightarrow> nat list \<times> nat" where
  "walMergesort aContent aList nList =
     (let (iSub, aSub, a, aMerge) = msort_loop nList aContent 0 (0, replicate 13 (0, 0), aList, 0, 0);
          (a, _, nMerge) = msort_final (13 - (iSub + 1)) aContent nList (iSub + 1) aSub a aMerge
      in (a, nMerge))"

record WalSegment =
  iNext :: nat
  aIndex :: "nat list"
  seg_aPgno :: "u32 list"
  nEntry :: nat
  iZero :: nat

record WalIterator =
  iPrior :: u32
  aSegment :: "WalSegment list"

definition no_segment :: WalSegment where
  "no_segment = \<lparr>iNext = 0, aIndex = [], seg_aPgno = [], nEntry = 0, iZero = 0\<rparr>"

fun init_segments :: "nat \<Rightarrow> wal_env \<Rightarrow> Wal \<Rightarrow> nat \<Rightarrow> WalSegment list \<Rightarrow> wal_rc \<times> Wal \<times> WalSegment list" where
  "init_segments 0 env pWal i segs = (WOk, pWal, segs)"
| "init_segments (Suc k) env pWal i segs =
     (case walHashGet env pWal i of
        (WOk, pWal, Some (p, z)) \<Rightarrow>
          (let n = (if k = 0 then mxFrame (hdr pWal) - z else length (aPgno p));
               (idx, n) = walMergesort (aPgno p) [0..<n] n
           in init_segments k env pWal (i + 1)
                (segs[i := \<lparr>iNext = 0, aIndex = idx, seg_aPgno = aPgno p, nEntry = n, iZero = z + 1\<rparr>]))
      | (rc, pWal, _) \<Rightarrow> (rc, pWal, segs))"

text \<open>The iterator is allocated first, which may fail.\<close>

definition walIteratorInit :: "wal_env \<Rightarrow> bool \<Rightarrow> Wal \<Rightarrow> nat \<Rightarrow> wal_rc \<times> Wal \<times> WalIterator option" where
  "walIteratorInit env alloc pWal nBackfill =
     (if \<not> alloc then (WNomem, pWal, None)
      else (let nSegment = walFramePage (mxFrame (hdr pWal)) + 1;
                i = walFramePage (nBackfill + 1);
                (rc, pWal, segs) = init_segments (nSegment - i) env pWal i (replicate nSegment no_segment)
            in (rc, pWal, if rc = WOk then Some \<lparr>iPrior = 0, aSegment = segs\<rparr> else None)))"

text \<open>The inner loop of \<^verbatim>\<open>walIteratorNext\<close>: skip entries that are not above \<^verbatim>\<open>iMin\<close>.\<close>

function seg_skip :: "u32 \<Rightarrow> WalSegment \<Rightarrow> WalSegment" where
  "seg_skip iMin s =
     (if iNext s < nEntry s \<and> \<not> seg_aPgno s ! (aIndex s ! iNext s) > iMin
      then seg_skip iMin (s\<lparr>iNext := iNext s + 1\<rparr>) else s)"
  by pat_completeness auto
termination
  by (relation "measure (\<lambda>(iMin, s). nEntry s - iNext s)") auto

fun next_loop :: "u32 \<Rightarrow> WalSegment list \<Rightarrow> u32 \<Rightarrow> nat \<Rightarrow> WalSegment list \<times> u32 \<times> nat" where
  "next_loop iMin [] iRet frame = ([], iRet, frame)"
| "next_loop iMin (s # ss) iRet frame =
     (let (ss, iRet, frame) = next_loop iMin ss iRet frame;
          s = seg_skip iMin s;
          iPg = seg_aPgno s ! (aIndex s ! iNext s)
      in if iNext s < nEntry s \<and> iPg < iRet
         then (s # ss, iPg, iZero s + aIndex s ! iNext s)
         else (s # ss, iRet, frame))"

text \<open>The answer of \<^verbatim>\<open>walIteratorNext\<close>: at the end, the page and the frame.\<close>

definition walIteratorNext :: "WalIterator \<Rightarrow> bool \<times> u32 \<times> nat \<times> WalIterator" where
  "walIteratorNext p =
     (let (ss, iRet, frame) = next_loop (iPrior p) (aSegment p) 0xFFFFFFFF 0
      in (iRet = 0xFFFFFFFF, iRet, frame, p\<lparr>iPrior := iRet, aSegment := ss\<rparr>))"

declare merge_loop.simps [simp del] msort_up.simps [simp del] seg_skip.simps [simp del]

section \<open>Merging\<close>

definition ordered :: "u32 list \<Rightarrow> nat list \<Rightarrow> bool" where
  "ordered c xs \<longleftrightarrow> sorted_wrt (\<lambda>i j. c ! i < c ! j) xs"

lemma ordered_simps [simp]: "ordered c []" "ordered c (x # xs) \<longleftrightarrow> (\<forall>y\<in>set xs. c ! x < c ! y) \<and> ordered c xs"
  by (simp_all add: ordered_def)

lemma merge_loop_simps:
  "merge_loop c [] [] = []"
  "merge_loop c (x # xs) [] = x # merge_loop c (if xs \<noteq> [] \<and> c ! hd xs = c ! x then tl xs else xs) []"
  "merge_loop c [] (y # ys) = y # merge_loop c [] ys"
  "merge_loop c (x # xs) (y # ys) =
     (if c ! x < c ! y then x # merge_loop c (if xs \<noteq> [] \<and> c ! hd xs = c ! x then tl xs else xs) (y # ys)
      else y # merge_loop c (if c ! x = c ! y then xs else x # xs) ys)"
  by (subst merge_loop.simps; simp add: Let_def)+

lemma merge_loop_spec:
  "ordered c xs \<Longrightarrow> ordered c ys \<Longrightarrow> ordered c (merge_loop c xs ys) \<and>
   set (merge_loop c xs ys) = set ys \<union> {x \<in> set xs. \<forall>y\<in>set ys. c ! y \<noteq> c ! x}
   \<and> length (merge_loop c xs ys) \<le> length xs + length ys"
proof (induction "length xs + length ys" arbitrary: xs ys rule: less_induct)
  case less
  have hd: "zs \<noteq> [] \<Longrightarrow> ordered c (z # zs) \<Longrightarrow> c ! hd zs \<noteq> c ! z" for z zs by (cases zs) auto
  show ?case
  proof (cases xs)
    case Nil
    show ?thesis
    proof (cases ys)
      case (Cons y ys')
      then show ?thesis using Nil less.hyps [of "[]" ys'] less.prems by (simp add: merge_loop_simps)
    qed (simp add: Nil merge_loop_simps)
  next
    case x: (Cons x xs')
    have hx: "(if xs' \<noteq> [] \<and> c ! hd xs' = c ! x then tl xs' else xs') = xs'"
      using hd [of xs' x] less.prems(1) x by auto
    show ?thesis
    proof (cases ys)
      case Nil
      then show ?thesis using x hx less.hyps [of xs' "[]"] less.prems by (auto simp: merge_loop_simps)
    next
      case y: (Cons y ys')
      consider "c ! x < c ! y" | "c ! x = c ! y" | "c ! y < c ! x" by force
      then show ?thesis
      proof cases
        case 1
        have m: "merge_loop c xs ys = x # merge_loop c xs' ys" using 1 by (simp add: x y merge_loop_simps hx del: if_split)
        have IH: "ordered c (merge_loop c xs' ys) \<and> set (merge_loop c xs' ys) = set ys \<union> {x \<in> set xs'. \<forall>y\<in>set ys. c ! y \<noteq> c ! x}
            \<and> length (merge_loop c xs' ys) \<le> length xs' + length ys"
          using less.hyps [of xs' ys] less.prems x by simp
        have ne: "\<forall>z\<in>set ys. c ! x < c ! z" using 1 less.prems(2) y by auto
        then have "\<forall>z\<in>set ys. c ! z \<noteq> c ! x" by auto
        then show ?thesis using IH m ne less.prems(1) x by auto
      next
        case 2
        have m: "merge_loop c xs ys = y # merge_loop c xs' ys'" using 2 by (simp add: x y merge_loop_simps)
        have IH: "ordered c (merge_loop c xs' ys') \<and> set (merge_loop c xs' ys') = set ys' \<union> {x \<in> set xs'. \<forall>y\<in>set ys'. c ! y \<noteq> c ! x}
            \<and> length (merge_loop c xs' ys') \<le> length xs' + length ys'"
          using less.hyps [of xs' ys'] less.prems x y by simp
        have "\<forall>z\<in>set xs'. c ! y < c ! z" using 2 less.prems(1) x by simp
        moreover from this have "\<forall>z\<in>set xs'. c ! y \<noteq> c ! z" by auto
        ultimately show ?thesis using IH m less.prems(2) x y 2 by auto
      next
        case 3
        have m: "merge_loop c xs ys = y # merge_loop c xs ys'"
          using less_imp_not_less [OF 3] less_imp_neq [OF 3] by (simp add: x y merge_loop_simps)
        have IH: "ordered c (merge_loop c xs ys') \<and> set (merge_loop c xs ys') = set ys' \<union> {x \<in> set xs. \<forall>y\<in>set ys'. c ! y \<noteq> c ! x}
            \<and> length (merge_loop c xs ys') \<le> length xs + length ys'"
          using less.hyps [of xs ys'] less.prems y by simp
        have a: "\<forall>z\<in>set xs. c ! y < c ! z" using 3 less.prems(1) x by auto
        then have "\<forall>z\<in>set xs. c ! y \<noteq> c ! z" by auto
        then show ?thesis using IH m less.prems(2) y a by auto
      qed
    qed
  qed
qed

text \<open>Of a set of indices, those that are the last with their content.\<close>

definition keep :: "u32 list \<Rightarrow> nat set \<Rightarrow> nat set" where
  "keep c S = {j \<in> S. \<forall>i\<in>S. c ! i = c ! j \<longrightarrow> i \<le> j}"

lemma keep_single [simp]: "keep c {x} = {x}"
  by (auto simp: keep_def)

lemma keep_last: "i \<in> S \<Longrightarrow> finite S \<Longrightarrow> \<exists>j\<in>keep c S. c ! j = c ! i"
proof -
  assume "i \<in> S" "finite S"
  let ?T = "{j \<in> S. c ! j = c ! i}"
  have "finite ?T" "?T \<noteq> {}" using \<open>i \<in> S\<close> \<open>finite S\<close> by auto
  then have "Max ?T \<in> ?T" "\<forall>j\<in>?T. j \<le> Max ?T" by (rule Max_in) (simp add: \<open>finite ?T\<close>)
  then show ?thesis by (intro bexI [of _ "Max ?T"]) (auto simp: keep_def)
qed

lemma keep_Un:
  assumes "finite B" "\<forall>a\<in>A. \<forall>b\<in>B. a < b"
  shows "keep c (A \<union> B) = keep c B \<union> {x \<in> keep c A. \<forall>y\<in>keep c B. c ! y \<noteq> c ! x}"
proof (rule set_eqI, rule iffI)
  fix x assume x: "x \<in> keep c (A \<union> B)"
  show "x \<in> keep c B \<union> {x \<in> keep c A. \<forall>y\<in>keep c B. c ! y \<noteq> c ! x}"
  proof (cases "x \<in> B")
    case True
    then show ?thesis using x by (auto simp: keep_def)
  next
    case False
    then have "x \<in> A" using x by (auto simp: keep_def)
    moreover have "c ! y \<noteq> c ! x" if "y \<in> keep c B" for y
    proof
      assume "c ! y = c ! x"
      then have "y \<le> x" using x that by (auto simp: keep_def)
      moreover have "x < y" using assms(2) \<open>x \<in> A\<close> that by (auto simp: keep_def)
      ultimately show False by simp
    qed
    ultimately show ?thesis using x by (auto simp: keep_def)
  qed
next
  fix x assume "x \<in> keep c B \<union> {x \<in> keep c A. \<forall>y\<in>keep c B. c ! y \<noteq> c ! x}"
  then show "x \<in> keep c (A \<union> B)"
  proof
    assume "x \<in> keep c B"
    then show ?thesis using assms(2) by (auto simp: keep_def dest: less_imp_le)
  next
    assume x: "x \<in> {x \<in> keep c A. \<forall>y\<in>keep c B. c ! y \<noteq> c ! x}"
    have "c ! b \<noteq> c ! x" if "b \<in> B" for b using keep_last [OF that assms(1), of c] x by force
    then show ?thesis using x by (auto simp: keep_def)
  qed
qed

section \<open>Sorting a block\<close>

text \<open>A sublist holds the last indices of a range, in the order of their pages.\<close>

definition sublist_of :: "u32 list \<Rightarrow> nat list \<Rightarrow> nat \<times> nat \<Rightarrow> nat \<Rightarrow> nat \<Rightarrow> bool" where
  "sublist_of c a s lo hi \<longleftrightarrow> fst s = lo \<and> lo + snd s \<le> hi \<and> hi \<le> length a
     \<and> ordered c (slice a lo (snd s)) \<and> set (slice a lo (snd s)) = keep c {lo..<hi}"

lemma slice_cong:
  assumes "length a = length b" "\<And>j. off \<le> j \<Longrightarrow> j < off + n \<Longrightarrow> a ! j = b ! j"
  shows "slice a off n = slice b off n"
  using assms by (auto simp: slice_def intro!: nth_equalityI)

lemma sublist_of_cong:
  assumes "sublist_of c a s lo hi" "length b = length a" "\<And>j. lo \<le> j \<Longrightarrow> j < hi \<Longrightarrow> b ! j = a ! j"
  shows "sublist_of c b s lo hi"
proof -
  have "slice b lo (snd s) = slice a lo (snd s)"
    using assms by (intro slice_cong) (auto simp: sublist_of_def)
  then show ?thesis using assms by (simp add: sublist_of_def)
qed

lemma slice_splice: "off + length ys \<le> length a \<Longrightarrow> slice (take off a @ ys @ drop (off + length ys) a) off (length ys) = ys"
  by (simp add: slice_def)

lemma walMerge_ok:
  assumes l: "sublist_of c a (lo, nL) lo mid" and r: "sublist_of c a (mid, nR) mid hi" and "lo \<le> mid" "mid \<le> hi"
  obtains a' n where "walMerge c a (lo, nL) (mid, nR) = (a', lo, n)" "sublist_of c a' (lo, n) lo hi"
    "length a' = length a" "\<And>j. j < lo \<or> hi \<le> j \<Longrightarrow> a' ! j = a ! j"
proof -
  let ?t = "merge_loop c (slice a lo nL) (slice a mid nR)"
  let ?a = "take lo a @ ?t @ drop (lo + length ?t) a"
  have m: "ordered c ?t" "set ?t = set (slice a mid nR) \<union> {x \<in> set (slice a lo nL). \<forall>y\<in>set (slice a mid nR). c ! y \<noteq> c ! x}"
    "length ?t \<le> length (slice a lo nL) + length (slice a mid nR)"
    using merge_loop_spec [of c "slice a lo nL" "slice a mid nR"] l r by (simp_all add: sublist_of_def)
  have "length (slice a lo nL) + length (slice a mid nR) \<le> nL + nR" by (simp add: slice_def)
  then have n: "lo + length ?t \<le> hi" "hi \<le> length a" using m(3) l r by (simp_all add: sublist_of_def)
  have "{lo..<hi} = {lo..<mid} \<union> {mid..<hi}" using assms(3,4) by auto
  then have "set ?t = keep c {lo..<hi}"
    using m(2) l r keep_Un [of "{mid..<hi}" "{lo..<mid}" c] by (simp add: sublist_of_def)
  then have "sublist_of c ?a (lo, length ?t) lo hi"
    using m(1) n by (simp add: sublist_of_def slice_splice)
  moreover have "length ?a = length a" using n by simp
  moreover have "?a ! j = a ! j" if "j < lo \<or> hi \<le> j" for j
    using that n by (auto simp: nth_append)
  ultimately show thesis
    by (intro that [of ?a "length ?t"]) (simp_all add: walMerge_def Let_def)
qed

lemma div_exp_Suc: "(k :: nat) div 2 ^ Suc b = k div 2 ^ b div 2"
  by (metis div_mult2_eq power_Suc2)

definition flo :: "nat \<Rightarrow> nat \<Rightarrow> nat" where
  "flo k b = k div 2 ^ b * 2 ^ b"

lemma flo_even: "even (k div 2 ^ b) \<Longrightarrow> flo k (Suc b) = flo k b"
  unfolding flo_def div_exp_Suc by (simp add: mult.commute mult.left_commute)

lemma flo_antimono: "b \<le> d \<Longrightarrow> flo k d \<le> flo k b"
proof (induction rule: dec_induct)
  case (step n)
  have "k div 2 ^ n div 2 * 2 \<le> k div 2 ^ n" by (rule div_times_less_eq_dividend)
  then have "k div 2 ^ n div 2 * 2 * 2 ^ n \<le> k div 2 ^ n * 2 ^ n" by (rule mult_le_mono1)
  then have "flo k (Suc n) \<le> flo k n" unfolding flo_def div_exp_Suc by (simp add: mult.commute mult.left_commute)
  then show ?case using step.IH by simp
qed simp

lemma flo_le: "flo k b \<le> k"
  by (simp add: flo_def)

text \<open>The increment of the counter: the bits above the lowest clear one stay.\<close>

lemma counter_step:
  assumes "Suc k = (k div 2 ^ s + 1) * 2 ^ s" "even (k div 2 ^ s)"
  shows "Suc k div 2 ^ s = k div 2 ^ s + 1" "flo (Suc k) s = Suc k" "flo (Suc k) (Suc s) = flo k s"
    "s < b \<Longrightarrow> Suc k div 2 ^ b = k div 2 ^ b"
    "b < s \<Longrightarrow> even (Suc k div 2 ^ b)"
proof -
  show 1: "Suc k div 2 ^ s = k div 2 ^ s + 1" by (subst assms(1)) simp
  then show "flo (Suc k) s = Suc k" using assms(1) by (simp add: flo_def)
  have 2: "Suc k div 2 ^ Suc s = k div 2 ^ Suc s" unfolding div_exp_Suc 1 using assms(2) by simp
  have "flo k (Suc s) = flo k s" by (rule flo_even [OF assms(2)])
  then show "flo (Suc k) (Suc s) = flo k s" unfolding flo_def using 2 by simp
  show "Suc k div 2 ^ b = k div 2 ^ b" if "s < b"
  proof -
    have "Suc k div 2 ^ (Suc s + d) = k div 2 ^ (Suc s + d)" for d
      by (induction d) (use 2 in \<open>simp_all only: add_0_right add_Suc_right div_exp_Suc\<close>)
    from this [of "b - Suc s"] show ?thesis using that by simp
  qed
  show "even (Suc k div 2 ^ b)" if lt: "b < s"
  proof -
    obtain d where d: "s = Suc (b + d)" using less_imp_Suc_add [OF lt] by blast
    define q where "q = k div 2 ^ s + 1"
    have "Suc k = q * 2 ^ s" using assms(1) q_def by simp
    then have "Suc k = (q * 2 ^ d * 2) * 2 ^ b" by (simp add: d power_add mult.commute mult.left_commute)
    then have "Suc k div 2 ^ b = q * 2 ^ d * 2"
      by (metis nonzero_mult_div_cancel_right power_not_zero zero_neq_numeral)
    then show ?thesis by simp
  qed
qed

text \<open>
  Before the \<open>k\<close>-th element, \<^verbatim>\<open>aSub\<close> is a binary counter: for every bit of \<open>k\<close> it holds a sorted
  sublist of as many elements, the asserted positions included, and the rest of the array is as it
  was.
\<close>

definition counter_upto :: "u32 list \<Rightarrow> (nat \<times> nat) list \<Rightarrow> nat list \<Rightarrow> nat \<Rightarrow> nat \<Rightarrow> bool" where
  "counter_upto c aSub a k t \<longleftrightarrow>
     (\<forall>b. t \<le> b \<and> odd (k div 2 ^ b) \<longrightarrow> sublist_of c a (aSub ! b) (flo k (Suc b)) (flo k b))"

lemma counter_merge:
  assumes "counter_upto c aSub a k t" "odd (k div 2 ^ t)" "sublist_of c a (m, n) (flo k t) hi" "flo k t \<le> hi"
  obtains a' n' where "walMerge c a (aSub ! t) (m, n) = (a', flo k (Suc t), n')"
    "sublist_of c a' (flo k (Suc t), n') (flo k (Suc t)) hi" "counter_upto c aSub a' k (Suc t)"
    "length a' = length a" "\<And>j. hi \<le> j \<Longrightarrow> a' ! j = a ! j"
proof -
  have l: "sublist_of c a (aSub ! t) (flo k (Suc t)) (flo k t)"
    using assms(1,2) unfolding counter_upto_def by blast
  then have f: "aSub ! t = (flo k (Suc t), snd (aSub ! t))" "m = flo k t" using assms(3)
    by (simp_all add: sublist_of_def prod_eq_iff)
  obtain a' n' where w: "walMerge c a (aSub ! t) (m, n) = (a', flo k (Suc t), n')"
    "sublist_of c a' (flo k (Suc t), n') (flo k (Suc t)) hi"
    "length a' = length a" "\<And>j. j < flo k (Suc t) \<or> hi \<le> j \<Longrightarrow> a' ! j = a ! j"
    using walMerge_ok [of c a "flo k (Suc t)" "snd (aSub ! t)" "flo k t" n hi] l assms(3,4) f flo_antimono [of t "Suc t" k]
    by (metis le_SucI order_refl)
  have "counter_upto c aSub a' k (Suc t)"
    unfolding counter_upto_def
  proof (intro allI impI)
    fix b assume b: "Suc t \<le> b \<and> odd (k div 2 ^ b)"
    then have "sublist_of c a (aSub ! b) (flo k (Suc b)) (flo k b)" using assms(1) by (auto simp: counter_upto_def)
    then show "sublist_of c a' (aSub ! b) (flo k (Suc b)) (flo k b)"
      by (rule sublist_of_cong) (use w(3,4) flo_antimono [of "Suc t" b k] b in auto)
  qed
  then show thesis using that w by blast
qed

lemma msort_up_ok:
  "\<lbrakk> counter_upto c aSub a k s; sublist_of c a m (flo k s) (Suc k); Suc k = (k div 2 ^ s + 1) * 2 ^ s \<rbrakk>
   \<Longrightarrow> \<exists>s' a' n. msort_up c k s aSub a m = (s', a', flo k s', n) \<and> counter_upto c aSub a' k s'
     \<and> sublist_of c a' (flo k s', n) (flo k s') (Suc k) \<and> Suc k = (k div 2 ^ s' + 1) * 2 ^ s'
     \<and> even (k div 2 ^ s') \<and> length a' = length a \<and> (\<forall>j. Suc k \<le> j \<longrightarrow> a' ! j = a ! j)"
proof (induction c k s aSub a m rule: msort_up.induct)
  case (1 c k s aSub a m)
  have m: "m = (flo k s, snd m)" using "1.prems"(2) by (simp add: sublist_of_def prod_eq_iff)
  show ?case
  proof (cases "odd (k div 2 ^ s)")
    case False
    then have "msort_up c k s aSub a m = (s, a, flo k s, snd m)" using m by (subst msort_up.simps) simp
    moreover have "sublist_of c a (flo k s, snd m) (flo k s) (Suc k)" using "1.prems"(2) m by metis
    ultimately show ?thesis using "1.prems" False by blast
  next
    case True
    have l: "flo k s \<le> Suc k" using flo_le [of k s] by simp
    obtain a' n' where w: "walMerge c a (aSub ! s) m = (a', flo k (Suc s), n')"
      "sublist_of c a' (flo k (Suc s), n') (flo k (Suc s)) (Suc k)" "counter_upto c aSub a' k (Suc s)"
      "length a' = length a" "\<And>j. Suc k \<le> j \<Longrightarrow> a' ! j = a ! j"
      using counter_merge [OF "1.prems"(1) True, of "fst m" "snd m" "Suc k"] "1.prems"(2) l by (metis prod.collapse)
    have "(k div 2 ^ Suc s + 1) * 2 ^ Suc s = (k div 2 ^ s + 1) * 2 ^ s"
      unfolding div_exp_Suc using True by (auto elim!: oddE simp: algebra_simps)
    then have e: "Suc k = (k div 2 ^ Suc s + 1) * 2 ^ Suc s" using "1.prems"(3) by simp
    have "msort_up c k s aSub a m = msort_up c k (Suc s) aSub a' (flo k (Suc s), n')"
      using True w(1) by (subst msort_up.simps) simp
    then show ?thesis
      using "1.IH" [OF True, of "(a', flo k (Suc s), n')" a' "(flo k (Suc s), n')"] w e by simp
  qed
qed


lemma msort_loop_ok:
  "\<lbrakk> counter_upto c aSub a k 0; length aSub = 13; k + d = length a; length a \<le> 4096;
     \<forall>j. k \<le> j \<and> j < length a \<longrightarrow> a ! j = j;
     0 < k \<Longrightarrow> odd (k div 2 ^ s) \<and> m = aSub ! s \<and> flo k s = k; 0 < k + d \<rbrakk>
   \<Longrightarrow> \<exists>s' aSub' a' m'. msort_loop d c k (s, aSub, a, m) = (s', aSub', a', m')
     \<and> counter_upto c aSub' a' (k + d) 0 \<and> length aSub' = 13 \<and> length a' = length a
     \<and> odd ((k + d) div 2 ^ s') \<and> m' = aSub' ! s' \<and> flo (k + d) s' = k + d"
proof (induction d arbitrary: k s aSub a m)
  case 0
  then show ?case by simp
next
  case (Suc d)
  have k: "k < length a" using Suc.prems(3) by simp
  have "slice a k 1 = [k]" using Suc.prems(5) k by (simp add: slice_def take_Suc_conv_app_nth)
  then have "sublist_of c a (k, 1) (flo k 0) (Suc k)"
    using k by (simp add: sublist_of_def flo_def)
  moreover have "Suc k = (k div 2 ^ 0 + 1) * 2 ^ 0" by simp
  ultimately obtain s' a' n where u: "msort_up c k 0 aSub a (k, 1) = (s', a', flo k s', n)"
    "counter_upto c aSub a' k s'" "sublist_of c a' (flo k s', n) (flo k s') (Suc k)"
    "Suc k = (k div 2 ^ s' + 1) * 2 ^ s'" "even (k div 2 ^ s')" "length a' = length a"
    "\<forall>j. Suc k \<le> j \<longrightarrow> a' ! j = a ! j"
    using msort_up_ok [OF Suc.prems(1)] by blast
  note cs = counter_step [OF u(4,5)]
  have "s' < 13"
  proof (rule ccontr)
    assume "\<not> s' < 13"
    then have "(2 :: nat) ^ 13 \<le> 2 ^ s'" by (intro power_increasing) auto
    moreover have "2 ^ s' \<le> Suc k" by (subst u(4)) simp
    ultimately show False using k Suc.prems(4) by simp
  qed
  then have s: "aSub[s' := (flo k s', n)] ! s' = (flo k s', n)" using Suc.prems(2) by simp
  have c: "counter_upto c (aSub[s' := (flo k s', n)]) a' (Suc k) 0"
    unfolding counter_upto_def
  proof (intro allI impI)
    fix b assume b: "0 \<le> b \<and> odd (Suc k div 2 ^ b)"
    consider "b < s'" | "b = s'" | "s' < b" by force
    then show "sublist_of c a' (aSub[s' := (flo k s', n)] ! b) (flo (Suc k) (Suc b)) (flo (Suc k) b)"
    proof cases
      case 1
      then show ?thesis using cs(5) b by blast
    next
      case 2
      then show ?thesis using u(3) cs(2,3) s by simp
    next
      case 3
      have e: "Suc k div 2 ^ b = k div 2 ^ b" "Suc k div 2 ^ Suc b = k div 2 ^ Suc b" using cs(4) 3 less_SucI [OF 3] by blast+
      then have "odd (k div 2 ^ b)" using b by simp
      then show ?thesis using u(2) 3 e by (simp add: counter_upto_def flo_def)
    qed
  qed
  have step: "msort_loop (Suc d) c k (s, aSub, a, m)
      = msort_loop d c (Suc k) (s', aSub[s' := (flo k s', n)], a', flo k s', n)" using u(1) by simp
  have rest: "\<exists>s'' aSub' a'' m'. msort_loop d c (Suc k) (s', aSub[s' := (flo k s', n)], a', flo k s', n)
       = (s'', aSub', a'', m')
     \<and> counter_upto c aSub' a'' (Suc k + d) 0 \<and> length aSub' = 13 \<and> length a'' = length a'
     \<and> odd ((Suc k + d) div 2 ^ s'') \<and> m' = aSub' ! s'' \<and> flo (Suc k + d) s'' = Suc k + d"
  proof (rule Suc.IH [OF c])
    show "odd (Suc k div 2 ^ s') \<and> (flo k s', n) = aSub[s' := (flo k s', n)] ! s' \<and> flo (Suc k) s' = Suc k"
      using cs(1,2) s u(5) by simp
    show "\<forall>j. Suc k \<le> j \<and> j < length a' \<longrightarrow> a' ! j = j" using Suc.prems(5) u(6,7) by auto
    show "0 < Suc k + d" by simp
  qed (use Suc.prems(2-4) u(6) in simp_all)
  show ?case unfolding step using rest unfolding u(6) add_Suc_shift .
qed

lemma msort_final_ok:
  "\<lbrakk> counter_upto c aSub a n t; sublist_of c a m (flo n t) n \<rbrakk>
   \<Longrightarrow> \<exists>a' n'. msort_final d c n t aSub a m = (a', flo n (t + d), n')
     \<and> sublist_of c a' (flo n (t + d), n') (flo n (t + d)) n \<and> length a' = length a"
proof (induction d arbitrary: t a m)
  case 0
  then have "m = (flo n t, snd m)" by (simp add: sublist_of_def prod_eq_iff)
  then show ?case using 0 by (metis add_0_right msort_final.simps(1))
next
  case (Suc d)
  show ?case
  proof (cases "odd (n div 2 ^ t)")
    case True
    obtain a' n' where w: "walMerge c a (aSub ! t) m = (a', flo n (Suc t), n')"
      "sublist_of c a' (flo n (Suc t), n') (flo n (Suc t)) n" "counter_upto c aSub a' n (Suc t)" "length a' = length a"
      using counter_merge [OF Suc.prems(1) True, of "fst m" "snd m" n] Suc.prems(2) flo_le [of n t] by (metis prod.collapse)
    then show ?thesis using Suc.IH [OF w(3,2)] True by simp
  next
    case False
    then have "counter_upto c aSub a n (Suc t)" "flo n (Suc t) = flo n t"
      using Suc.prems(1) flo_even by (auto simp: counter_upto_def)
    then show ?thesis using Suc.IH [of a "Suc t" m] Suc.prems(2) False by simp
  qed
qed

lemma walMergesort_ok:
  assumes "0 < n" "n \<le> 4096"
  obtains a' n' where "walMergesort c [0..<n] n = (a', n')" "length a' = n" "n' \<le> n"
    "ordered c (take n' a')" "set (take n' a') = keep c {0..<n}"
proof -
  have 0: "counter_upto c (replicate 13 (0, 0)) [0..<n] 0 0" by (simp add: counter_upto_def)
  have "\<exists>s aSub a m. msort_loop n c 0 (0, replicate 13 (0, 0), [0..<n], 0, 0) = (s, aSub, a, m)
     \<and> counter_upto c aSub a (0 + n) 0 \<and> length aSub = 13 \<and> length a = length [0..<n]
     \<and> odd ((0 + n) div 2 ^ s) \<and> m = aSub ! s \<and> flo (0 + n) s = 0 + n"
    by (rule msort_loop_ok [OF 0]) (use assms in simp_all)
  then obtain s aSub a m where l: "msort_loop n c 0 (0, replicate 13 (0, 0), [0..<n], 0, 0) = (s, aSub, a, m)"
    "counter_upto c aSub a n 0" "length aSub = 13" "length a = n" "odd (n div 2 ^ s)" "m = aSub ! s" "flo n s = n"
    unfolding add_0 length_upt minus_nat.diff_0 by blast
  have "s < 13"
  proof (rule ccontr)
    assume "\<not> s < 13"
    then have "(2 :: nat) ^ 13 \<le> 2 ^ s" by (intro power_increasing) auto
    then show False using l(5) assms(2) by simp
  qed
  then have s: "Suc s + (13 - Suc s) = 13" by simp
  have "counter_upto c aSub a n (Suc s)" using l(2) by (auto simp: counter_upto_def)
  moreover have "sublist_of c a m (flo n (Suc s)) n"
    using l(2,5,6,7) unfolding counter_upto_def by (metis le0)
  ultimately obtain a' n' where f: "msort_final (13 - Suc s) c n (Suc s) aSub a m = (a', flo n 13, n')"
    "sublist_of c a' (flo n 13, n') (flo n 13) n" "length a' = length a"
    using msort_final_ok [of c aSub a n "Suc s" m "13 - Suc s"] unfolding s by blast
  have "flo n 13 = 0" using assms by (simp add: flo_def)
  then show thesis
    using that [of a' n'] l f by (simp add: walMergesort_def Let_def sublist_of_def slice_def)
qed


section \<open>The iterator\<close>

text \<open>The pages of a segment with their frames, and what holds of a segment between two steps.\<close>

definition seg_pairs :: "WalSegment \<Rightarrow> (u32 \<times> nat) set" where
  "seg_pairs s = (\<lambda>i. (seg_aPgno s ! i, iZero s + i)) ` set (take (nEntry s) (aIndex s))"

definition seg_inv :: "u32 \<Rightarrow> WalSegment \<Rightarrow> bool" where
  "seg_inv iMin s \<longleftrightarrow> iNext s \<le> nEntry s \<and> nEntry s \<le> length (aIndex s)
     \<and> ordered (seg_aPgno s) (take (nEntry s) (aIndex s))
     \<and> (\<forall>j < iNext s. seg_aPgno s ! (aIndex s ! j) \<le> iMin)"

lemma seg_pairs_iff:
  "seg_inv iMin s \<Longrightarrow> (k, f) \<in> seg_pairs s
     \<longleftrightarrow> (\<exists>j < nEntry s. k = seg_aPgno s ! (aIndex s ! j) \<and> f = iZero s + aIndex s ! j)"
  unfolding seg_inv_def seg_pairs_def by (force simp: in_set_conv_nth)

lemma seg_skip_ok:
  "seg_inv iMin s \<Longrightarrow> seg_inv iMin (seg_skip iMin s) \<and> seg_pairs (seg_skip iMin s) = seg_pairs s
     \<and> (iNext (seg_skip iMin s) < nEntry (seg_skip iMin s)
        \<longrightarrow> iMin < seg_aPgno (seg_skip iMin s) ! (aIndex (seg_skip iMin s) ! iNext (seg_skip iMin s)))"
proof (induction iMin s rule: seg_skip.induct)
  case (1 iMin s)
  show ?case
  proof (cases "iNext s < nEntry s \<and> \<not> iMin < seg_aPgno s ! (aIndex s ! iNext s)")
    case True
    have "seg_inv iMin (s\<lparr>iNext := iNext s + 1\<rparr>)"
      using "1.prems" True by (auto simp: seg_inv_def less_Suc_eq)
    moreover have "seg_pairs (s\<lparr>iNext := iNext s + 1\<rparr>) = seg_pairs s" by (simp add: seg_pairs_def)
    moreover have "seg_skip iMin s = seg_skip iMin (s\<lparr>iNext := iNext s + 1\<rparr>)"
      using True by (subst seg_skip.simps) simp
    ultimately show ?thesis using "1.IH" [OF True] by simp
  next
    case False
    then have "seg_skip iMin s = s" by (subst seg_skip.simps) auto
    then show ?thesis using "1.prems" False by auto
  qed
qed

text \<open>The entry at \<^verbatim>\<open>iNext\<close> is the smallest above \<^verbatim>\<open>iMin\<close>.\<close>

lemma seg_next_least:
  assumes "seg_inv iMin s" "(k, f) \<in> seg_pairs s" "iMin < k"
  shows "iNext s < nEntry s \<and> seg_aPgno s ! (aIndex s ! iNext s) \<le> k"
proof -
  obtain j where j: "j < nEntry s" "k = seg_aPgno s ! (aIndex s ! j)" using assms(2) seg_pairs_iff [OF assms(1)] by blast
  have l: "iNext s \<le> j"
  proof (rule ccontr)
    assume "\<not> iNext s \<le> j"
    then have "k \<le> iMin" using assms(1) j(2) by (simp add: seg_inv_def)
    then show False using assms(3) by simp
  qed
  have "nEntry s \<le> length (aIndex s)" using assms(1) by (simp add: seg_inv_def)
  moreover have "sorted_wrt (\<lambda>i j. seg_aPgno s ! i < seg_aPgno s ! j) (take (nEntry s) (aIndex s))"
    using assms(1) by (simp add: seg_inv_def ordered_def)
  ultimately have "seg_aPgno s ! (aIndex s ! iNext s) \<le> seg_aPgno s ! (aIndex s ! j)"
    using l j(1) by (cases "iNext s = j") (auto simp: sorted_wrt_iff_nth_less intro!: less_imp_le)
  then show ?thesis using l j by simp
qed

definition best :: "u32 \<Rightarrow> (u32 \<times> nat) set list \<Rightarrow> u32 \<Rightarrow> nat \<Rightarrow> bool" where
  "best iMin Ps r f \<longleftrightarrow>
     (r = 0xFFFFFFFF \<and> f = 0 \<and> (\<forall>P\<in>set Ps. \<forall>k\<in>fst ` P. k \<le> iMin)
      \<or> iMin < r \<and> r < 0xFFFFFFFF \<and> (\<forall>P\<in>set Ps. \<forall>k\<in>fst ` P. iMin < k \<longrightarrow> r \<le> k)
        \<and> (\<exists>us P vs. Ps = us @ P # vs \<and> (r, f) \<in> P \<and> (\<forall>V\<in>set vs. r \<notin> fst ` V)))"

lemma next_loop_ok:
  "\<lbrakk> \<forall>s\<in>set ss. seg_inv iMin s; \<forall>s\<in>set ss. \<forall>k\<in>fst ` seg_pairs s. k < 0xFFFFFFFF \<rbrakk>
   \<Longrightarrow> \<exists>r f. next_loop iMin ss 0xFFFFFFFF 0 = (List.map (seg_skip iMin) ss, r, f) \<and> best iMin (List.map seg_pairs ss) r f"
proof (induction ss)
  case Nil
  then show ?case by (simp add: best_def)
next
  case (Cons s ss)
  obtain r f where rf: "next_loop iMin ss 0xFFFFFFFF 0 = (List.map (seg_skip iMin) ss, r, f)"
    "best iMin (List.map seg_pairs ss) r f" using Cons by auto
  let ?s = "seg_skip iMin s" and ?pg = "seg_aPgno (seg_skip iMin s) ! (aIndex (seg_skip iMin s) ! iNext (seg_skip iMin s))"
  let ?f = "iZero ?s + aIndex ?s ! iNext ?s"
  have i: "seg_inv iMin ?s" "seg_pairs ?s = seg_pairs s" "iNext ?s < nEntry ?s \<Longrightarrow> iMin < ?pg"
    using seg_skip_ok [of iMin s] Cons.prems(1) by auto
  have least: "iNext ?s < nEntry ?s \<and> ?pg \<le> k" if "k \<in> fst ` seg_pairs s" "iMin < k" for k
    using that seg_next_least [OF i(1)] i(2) by auto
  have lt: "\<And>P k. P \<in> set (List.map seg_pairs ss) \<Longrightarrow> k \<in> fst ` P \<Longrightarrow> k < 0xFFFFFFFF" using Cons.prems(2) by auto
  show ?case
  proof (cases "iNext ?s < nEntry ?s \<and> ?pg < r")
    case True
    have p: "(?pg, ?f) \<in> seg_pairs s" using True seg_pairs_iff [OF i(1)] i(2) by blast
    have pg: "iMin < ?pg" using i(3) True by blast
    have above: "?pg < k" if "P \<in> set (List.map seg_pairs ss)" "k \<in> fst ` P" "iMin < k" for P k
      using rf(2) unfolding best_def
    proof
      assume "r = 0xFFFFFFFF \<and> f = 0 \<and> (\<forall>P\<in>set (List.map seg_pairs ss). \<forall>k\<in>fst ` P. k \<le> iMin)"
      then have "k \<le> iMin" using that by blast
      then show ?thesis using that(3) by simp
    next
      assume "iMin < r \<and> r < 0xFFFFFFFF \<and> (\<forall>P\<in>set (List.map seg_pairs ss). \<forall>k\<in>fst ` P. iMin < k \<longrightarrow> r \<le> k)
        \<and> (\<exists>us P vs. List.map seg_pairs ss = us @ P # vs \<and> (r, f) \<in> P \<and> (\<forall>V\<in>set vs. r \<notin> fst ` V))"
      then have "r \<le> k" using that by blast
      then show ?thesis using True by (meson less_le_trans)
    qed
    have "?pg \<notin> fst ` V" if "V \<in> set (List.map seg_pairs ss)" for V using above [OF that _ pg] by blast
    then have "\<exists>us P vs. List.map seg_pairs (s # ss) = us @ P # vs \<and> (?pg, ?f) \<in> P \<and> (\<forall>V\<in>set vs. ?pg \<notin> fst ` V)"
      using p by (intro exI [of _ "[]"] exI [of _ "seg_pairs s"] exI [of _ "List.map seg_pairs ss"]) simp
    moreover have "?pg < 0xFFFFFFFF" using Cons.prems(2) p by force
    moreover have "\<forall>P\<in>set (List.map seg_pairs (s # ss)). \<forall>k\<in>fst ` P. iMin < k \<longrightarrow> ?pg \<le> k"
      using above least by (auto intro: less_imp_le)
    ultimately have "best iMin (List.map seg_pairs (s # ss)) ?pg ?f" using pg unfolding best_def by blast
    then show ?thesis using rf(1) True by (simp add: Let_def)
  next
    case False
    have "best iMin (seg_pairs s # List.map seg_pairs ss) r f"
      using rf(2) unfolding best_def
    proof
      assume a: "r = 0xFFFFFFFF \<and> f = 0 \<and> (\<forall>P\<in>set (List.map seg_pairs ss). \<forall>k\<in>fst ` P. k \<le> iMin)"
      have "k \<le> iMin" if "k \<in> fst ` seg_pairs s" for k
      proof (rule ccontr)
        assume "\<not> k \<le> iMin"
        then have "iNext ?s < nEntry ?s \<and> ?pg \<le> k" using least [OF that] by simp
        moreover have "k < 0xFFFFFFFF" using Cons.prems(2) that by auto
        ultimately show False using False a by (meson le_less_trans)
      qed
      then show "(r = 0xFFFFFFFF \<and> f = 0 \<and> (\<forall>P\<in>set (seg_pairs s # List.map seg_pairs ss). \<forall>k\<in>fst ` P. k \<le> iMin))
        \<or> iMin < r \<and> r < 0xFFFFFFFF \<and> (\<forall>P\<in>set (seg_pairs s # List.map seg_pairs ss). \<forall>k\<in>fst ` P. iMin < k \<longrightarrow> r \<le> k)
        \<and> (\<exists>us P vs. seg_pairs s # List.map seg_pairs ss = us @ P # vs \<and> (r, f) \<in> P \<and> (\<forall>V\<in>set vs. r \<notin> fst ` V))"
        using a by simp
    next
      assume a: "iMin < r \<and> r < 0xFFFFFFFF \<and> (\<forall>P\<in>set (List.map seg_pairs ss). \<forall>k\<in>fst ` P. iMin < k \<longrightarrow> r \<le> k)
        \<and> (\<exists>us P vs. List.map seg_pairs ss = us @ P # vs \<and> (r, f) \<in> P \<and> (\<forall>V\<in>set vs. r \<notin> fst ` V))"
      then obtain us P vs where u: "List.map seg_pairs ss = us @ P # vs" "(r, f) \<in> P" "\<forall>V\<in>set vs. r \<notin> fst ` V" by blast
      have "r \<le> k" if "k \<in> fst ` seg_pairs s" "iMin < k" for k
        using least [OF that] False by (meson leI order_trans)
      moreover have "seg_pairs s # List.map seg_pairs ss = (seg_pairs s # us) @ P # vs" using u(1) by simp
      ultimately show "(r = 0xFFFFFFFF \<and> f = 0 \<and> (\<forall>P\<in>set (seg_pairs s # List.map seg_pairs ss). \<forall>k\<in>fst ` P. k \<le> iMin))
        \<or> iMin < r \<and> r < 0xFFFFFFFF \<and> (\<forall>P\<in>set (seg_pairs s # List.map seg_pairs ss). \<forall>k\<in>fst ` P. iMin < k \<longrightarrow> r \<le> k)
        \<and> (\<exists>us P vs. seg_pairs s # List.map seg_pairs ss = us @ P # vs \<and> (r, f) \<in> P \<and> (\<forall>V\<in>set vs. r \<notin> fst ` V))"
        using a u(2,3) by (metis set_ConsD)
    qed
    then show ?thesis using rf(1) False by (auto simp: Let_def)
  qed
qed

text \<open>The frames that the loop of a checkpoint copies, with a bound on the number of steps.\<close>

fun drain :: "nat \<Rightarrow> WalIterator \<Rightarrow> (u32 \<times> nat) list option" where
  "drain 0 p = None"
| "drain (Suc d) p =
     (let (fin, k, f, p) = walIteratorNext p
      in if fin then Some [] else map_option (Cons (k, f)) (drain d p))"

lemma drain_ok:
  assumes L: "\<And>us P vs r f. Ps = us @ P # vs \<Longrightarrow> (r, f) \<in> P \<Longrightarrow> \<forall>V\<in>set vs. r \<notin> fst ` V \<Longrightarrow> f = L r"
    and K: "K = (\<Union>P\<in>set Ps. fst ` P)" "\<And>k. k \<in> K \<Longrightarrow> k < 0xFFFFFFFF" "finite K"
  shows "List.map seg_pairs (aSegment p) = Ps \<Longrightarrow> \<forall>s\<in>set (aSegment p). seg_inv (iPrior p) s
    \<Longrightarrow> card {k \<in> K. iPrior p < k} < d
    \<Longrightarrow> drain d p = Some (List.map (\<lambda>k. (k, L k)) (sorted_list_of_set {k \<in> K. iPrior p < k}))"
proof (induction d arbitrary: p)
  case (Suc d)
  let ?A = "{k \<in> K. iPrior p < k}"
  have "\<forall>s\<in>set (aSegment p). \<forall>k\<in>fst ` seg_pairs s. k < 0xFFFFFFFF"
  proof (intro ballI)
    fix s k assume "s \<in> set (aSegment p)" "k \<in> fst ` seg_pairs s"
    then have "k \<in> K" unfolding K(1) Suc.prems(1) [symmetric] by auto
    then show "k < 0xFFFFFFFF" by (rule K(2))
  qed
  then obtain r f where n: "next_loop (iPrior p) (aSegment p) 0xFFFFFFFF 0 = (List.map (seg_skip (iPrior p)) (aSegment p), r, f)"
    "best (iPrior p) Ps r f"
    using next_loop_ok [OF Suc.prems(2)] Suc.prems(1) by auto
  let ?p = "p\<lparr>iPrior := r, aSegment := List.map (seg_skip (iPrior p)) (aSegment p)\<rparr>"
  have w: "walIteratorNext p = (r = 0xFFFFFFFF, r, f, ?p)" using n(1) by (simp add: walIteratorNext_def)
  show ?case
  proof (cases "r = 0xFFFFFFFF")
    case True
    then have "?A = {}" using n(2) K(1) unfolding best_def by fastforce
    then show ?thesis unfolding drain.simps w by (simp add: True)
  next
    case False
    then have b: "iPrior p < r" "\<forall>k\<in>?A. r \<le> k" using n(2) K(1) unfolding best_def by blast+
    obtain us P vs where u: "Ps = us @ P # vs" "(r, f) \<in> P" "\<forall>V\<in>set vs. r \<notin> fst ` V"
      using False n(2) unfolding best_def by blast
    have f: "f = L r" by (rule L [OF u])
    have "r \<in> fst ` P" using u(2) by (metis fst_conv image_eqI)
    moreover have "P \<in> set Ps" by (simp add: u(1))
    ultimately have r: "r \<in> ?A" unfolding K(1) using b(1) by blast
    have fin: "finite ?A" using K(3) by simp
    have m: "Min ?A = r" using r b(2) fin by (intro Min_eqI) auto
    have rest: "?A - {r} = {k \<in> K. r < k}"
    proof (rule set_eqI)
      fix k show "k \<in> ?A - {r} \<longleftrightarrow> k \<in> {k \<in> K. r < k}"
        using b(1) b(2) [rule_format, of k] by (auto dest: order_less_trans)
    qed
    have "card {k \<in> K. r < k} < card ?A" unfolding rest [symmetric] using r fin by (rule card_Diff1_less [rotated])
    then have c: "card {k \<in> K. iPrior ?p < k} < d" using Suc.prems(3) by simp
    have "List.map seg_pairs (List.map (seg_skip (iPrior p)) (aSegment p)) = List.map seg_pairs (aSegment p)"
      using Suc.prems(2) seg_skip_ok by (simp cong: map_cong)
    then have pr: "List.map seg_pairs (aSegment ?p) = Ps" using Suc.prems(1) by simp
    have mono: "seg_inv r s" if "seg_inv (iPrior p) s" for s
      using that b(1) unfolding seg_inv_def by (meson less_imp_le order_trans)
    have "\<forall>s\<in>set (aSegment ?p). seg_inv (iPrior ?p) s"
      using Suc.prems(2) seg_skip_ok mono by auto
    note IH = Suc.IH [OF pr this c]
    have "drain (Suc d) p = map_option (Cons (r, f)) (drain d ?p)"
      unfolding drain.simps w using False by simp
    moreover have "sorted_list_of_set ?A = r # sorted_list_of_set {k \<in> K. r < k}"
      using sorted_list_of_set_nonempty [OF fin] r m rest by auto
    ultimately show ?thesis using IH f by simp
  qed
qed simp


section \<open>The blocks of the index\<close>

definition block :: "nat \<Rightarrow> nat \<Rightarrow> nat set" where
  "block M i = {f. seg_zero i < f \<and> f \<le> min M (seg_zero (Suc i))}"

definition block_pairs :: "u32 list \<Rightarrow> nat \<Rightarrow> nat \<Rightarrow> (u32 \<times> nat) set" where
  "block_pairs fs M i = (\<lambda>f. (fs ! (f - 1), f)) ` {f \<in> block M i. \<forall>g\<in>block M i. fs ! (g - 1) = fs ! (f - 1) \<longrightarrow> g \<le> f}"

lemma block_pages: "fst ` block_pairs fs M i = (\<lambda>f. fs ! (f - 1)) ` block M i"
proof
  show "(\<lambda>f. fs ! (f - 1)) ` block M i \<subseteq> fst ` block_pairs fs M i"
  proof
    fix k assume "k \<in> (\<lambda>f. fs ! (f - 1)) ` block M i"
    then obtain f where f: "f \<in> block M i" "k = fs ! (f - 1)" by blast
    let ?T = "{g \<in> block M i. fs ! (g - 1) = k}"
    have fin: "finite ?T" by (rule finite_subset [of _ "{..M}"]) (auto simp: block_def)
    have m: "Max ?T \<in> ?T" using fin f by (intro Max_in) auto
    moreover have "g \<le> Max ?T" if "g \<in> block M i" "fs ! (g - 1) = k" for g using fin that by (intro Max_ge) simp_all
    ultimately have "(k, Max ?T) \<in> block_pairs fs M i" unfolding block_pairs_def by (intro image_eqI [of _ _ "Max ?T"]) auto
    then show "k \<in> fst ` block_pairs fs M i" by force
  qed
qed (auto simp: block_pairs_def)

lemma block_size:
  assumes "0 < M" "i \<le> walFramePage M"
  shows "0 < min (seg_cap i) (M - seg_zero i)" "min (seg_cap i) (M - seg_zero i) \<le> 4096"
    "i = walFramePage M \<Longrightarrow> min (seg_cap i) (M - seg_zero i) = M - seg_zero i"
    "i < walFramePage M \<Longrightarrow> min (seg_cap i) (M - seg_zero i) = seg_cap i"
    "block M i = (\<lambda>j. seg_zero i + 1 + j) ` {0..<min (seg_cap i) (M - seg_zero i)}"
proof -
  note b = walFramePage_bounds [OF assms(1)]
  have c: "0 < seg_cap i" "seg_cap i \<le> 4096" by (cases i; simp add: seg_simps)+
  have z: "seg_zero i < M" using seg_zero_mono [OF assms(2)] b by simp
  show "0 < min (seg_cap i) (M - seg_zero i)" "min (seg_cap i) (M - seg_zero i) \<le> 4096" using c z by auto
  show "min (seg_cap i) (M - seg_zero i) = M - seg_zero i" if "i = walFramePage M"
    using b that by (auto simp: seg_next)
  show "min (seg_cap i) (M - seg_zero i) = seg_cap i" if "i < walFramePage M"
    using seg_zero_mono [of "Suc i" "walFramePage M"] that b by (auto simp: seg_next)
  show "block M i = (\<lambda>j. seg_zero i + 1 + j) ` {0..<min (seg_cap i) (M - seg_zero i)}"
  proof (rule set_eqI)
    fix f
    have "f \<in> block M i \<longleftrightarrow> seg_zero i < f \<and> f - seg_zero i - 1 < min (seg_cap i) (M - seg_zero i)"
      using z by (auto simp: block_def seg_next)
    also have "\<dots> \<longleftrightarrow> f \<in> (\<lambda>j. seg_zero i + 1 + j) ` {0..<min (seg_cap i) (M - seg_zero i)}"
      by (auto simp: image_iff intro!: bexI [of _ "f - seg_zero i - 1"])
    finally show "f \<in> block M i \<longleftrightarrow> f \<in> (\<lambda>j. seg_zero i + 1 + j) ` {0..<min (seg_cap i) (M - seg_zero i)}" .
  qed
qed

lemma block_sorted:
  assumes c: "\<And>j. j < n \<Longrightarrow> c ! j = fs ! (z + j)" and B: "block M i = (\<lambda>j. z + 1 + j) ` {0..<n}"
  shows "(\<lambda>j. (c ! j, z + 1 + j)) ` keep c {0..<n} = block_pairs fs M i"
proof -
  have "{f \<in> block M i. \<forall>g\<in>block M i. fs ! (g - 1) = fs ! (f - 1) \<longrightarrow> g \<le> f} = (\<lambda>j. z + 1 + j) ` keep c {0..<n}"
    unfolding B keep_def using c by auto
  moreover have "(\<lambda>f. (fs ! (f - 1), f)) ` (\<lambda>j. z + 1 + j) ` keep c {0..<n} = (\<lambda>j. (c ! j, z + 1 + j)) ` keep c {0..<n}"
    unfolding image_image by (rule image_cong) (auto simp: keep_def c)
  ultimately show ?thesis by (simp add: block_pairs_def)
qed

lemma init_segments_ok:
  assumes rep: "wal_rep w fs" and M: "0 < mxFrame (hdr w)"
  shows "\<lbrakk> i + k = walFramePage (mxFrame (hdr w)) + 1; length segs = i + k \<rbrakk>
   \<Longrightarrow> \<exists>segs'. init_segments k env w i segs = (WOk, w, segs') \<and> length segs' = length segs
     \<and> (\<forall>j < i. segs' ! j = segs ! j)
     \<and> (\<forall>j. i \<le> j \<and> j < i + k \<longrightarrow> seg_inv 0 (segs' ! j) \<and> seg_pairs (segs' ! j) = block_pairs fs (mxFrame (hdr w)) j)"
proof (induction k arbitrary: i segs)
  case (Suc k)
  let ?M = "mxFrame (hdr w)" and ?n = "min (seg_cap i) (mxFrame (hdr w) - seg_zero i)"
  have ml: "?M \<le> length fs" "0 < length fs" using wal_repD(2) [OF rep] M by auto
  have iM: "i \<le> walFramePage ?M" using Suc.prems(1) by simp
  then have il: "i \<le> walFramePage (length fs)" using walFramePage_mono [OF ml(1)] by simp
  obtain p where p: "walHashGet env w i = (WOk, w, Some (p, seg_zero i))" "serves p i fs (?M = length fs)" "sized i p"
    by (rule mapped_page [OF rep ml(2) il])
  note b = block_size [OF M iM]
  have n: "(if k = 0 then ?M - seg_zero i else length (aPgno p)) = ?n"
    using b(3,4) Suc.prems(1) p(3) by (cases k) (auto simp: sized_def)
  have pg: "aPgno p ! j = fs ! (seg_zero i + j)" if "j < ?n" for j
    using p(2) that ml(1) unfolding serves_def by auto
  obtain idx n' where s: "walMergesort (aPgno p) [0..<?n] ?n = (idx, n')" "length idx = ?n" "n' \<le> ?n"
    "ordered (aPgno p) (take n' idx)" "set (take n' idx) = keep (aPgno p) {0..<?n}"
    by (rule walMergesort_ok [OF b(1,2)])
  let ?s = "\<lparr>iNext = 0, aIndex = idx, seg_aPgno = aPgno p, nEntry = n', iZero = seg_zero i + 1\<rparr>"
  have inv: "seg_inv 0 ?s" using s(2-4) by (simp add: seg_inv_def)
  have pairs: "seg_pairs ?s = block_pairs fs ?M i"
    using block_sorted [OF pg b(5)] by (simp add: seg_pairs_def s(5))
  obtain segs' where r: "init_segments k env w (Suc i) (segs[i := ?s]) = (WOk, w, segs')" "length segs' = length segs"
    "\<forall>j < Suc i. segs' ! j = segs[i := ?s] ! j"
    "\<forall>j. Suc i \<le> j \<and> j < Suc i + k \<longrightarrow> seg_inv 0 (segs' ! j) \<and> seg_pairs (segs' ! j) = block_pairs fs ?M j"
    using Suc.IH [of "Suc i" "segs[i := ?s]"] Suc.prems by auto
  have run: "init_segments (Suc k) env w i segs = (WOk, w, segs')"
    unfolding init_segments.simps p(1) using n s(1) r(1) by (simp add: Let_def)
  have "seg_inv 0 (segs' ! j) \<and> seg_pairs (segs' ! j) = block_pairs fs ?M j" if "i \<le> j" "j < i + Suc k" for j
  proof (cases "j = i")
    case True
    then have "segs' ! j = ?s" using r(3) Suc.prems(2) by simp
    then show ?thesis using inv pairs True by simp
  next
    case False
    then show ?thesis using r(4) that by simp
  qed
  then show ?case using run r(2,3) by auto
qed auto

text \<open>What the segments of an iterator hold that starts at block \<open>i0\<close>.\<close>

definition covers_blocks :: "u32 list \<Rightarrow> nat \<Rightarrow> nat \<Rightarrow> WalSegment list \<Rightarrow> bool" where
  "covers_blocks fs M i0 segs \<longleftrightarrow> length segs = walFramePage M + 1 \<and> (\<forall>j < length segs.
     if i0 \<le> j then seg_inv 0 (segs ! j) \<and> seg_pairs (segs ! j) = block_pairs fs M j else segs ! j = no_segment)"

lemma covers_inv: "covers_blocks fs M i0 segs \<Longrightarrow> s \<in> set segs \<Longrightarrow> seg_inv 0 s"
  unfolding covers_blocks_def by (auto simp: in_set_conv_nth seg_inv_def no_segment_def split: if_splits)

lemma covers_pairs:
  "covers_blocks fs M i0 segs \<Longrightarrow> j < length segs \<Longrightarrow>
   (r, f) \<in> seg_pairs (segs ! j) \<longleftrightarrow> i0 \<le> j \<and> (r, f) \<in> block_pairs fs M j"
  by (cases "i0 \<le> j") (simp_all add: covers_blocks_def, simp add: seg_pairs_def no_segment_def)

lemma block_page: "f \<in> block M j \<Longrightarrow> walFramePage f = j"
  by (rule walFramePageI) (auto simp: block_def)

lemma block_own: "0 < f \<Longrightarrow> f \<le> M \<Longrightarrow> f \<in> block M (walFramePage f)"
  using walFramePage_bounds [of f] by (simp add: block_def)

lemma covers_init:
  assumes "wal_rep w fs" "0 < mxFrame (hdr w)" "i0 \<le> walFramePage (mxFrame (hdr w))"
  obtains segs where "init_segments (walFramePage (mxFrame (hdr w)) + 1 - i0) env w i0
      (replicate (walFramePage (mxFrame (hdr w)) + 1) no_segment) = (WOk, w, segs)"
    "covers_blocks fs (mxFrame (hdr w)) i0 segs"
proof -
  define N where "N = walFramePage (mxFrame (hdr w)) + 1"
  have l: "i0 + (N - i0) = N" using assms(3) by (simp add: N_def)
  then have "length (replicate N no_segment) = i0 + (N - i0)" by simp
  then obtain segs where s: "init_segments (N - i0) env w i0 (replicate N no_segment) = (WOk, w, segs)"
    "length segs = length (replicate N no_segment)" "\<forall>j < i0. segs ! j = replicate N no_segment ! j"
    "\<forall>j. i0 \<le> j \<and> j < i0 + (N - i0) \<longrightarrow> seg_inv 0 (segs ! j) \<and> seg_pairs (segs ! j) = block_pairs fs (mxFrame (hdr w)) j"
    using init_segments_ok [OF assms(1,2), where segs = "replicate N no_segment" and i = i0 and k = "N - i0" and env = env] l
    unfolding N_def by blast
  have "covers_blocks fs (mxFrame (hdr w)) i0 segs"
    unfolding covers_blocks_def
  proof (intro conjI allI impI)
    show "length segs = walFramePage (mxFrame (hdr w)) + 1" using s(2) by (simp add: N_def)
    fix j assume "j < length segs"
    then have j: "j < N" using s(2) by simp
    then show "if i0 \<le> j then seg_inv 0 (segs ! j) \<and> seg_pairs (segs ! j) = block_pairs fs (mxFrame (hdr w)) j
       else segs ! j = no_segment" using s(3,4) l by simp
  qed
  then show thesis using that s(1) by (simp only: N_def)
qed

lemma frames_after:
  assumes "M \<le> length fs"
  shows "set (drop z (take M fs)) = (\<lambda>f. fs ! (f - 1)) ` {f. z < f \<and> f \<le> M}"
proof
  show "set (drop z (take M fs)) \<subseteq> (\<lambda>f. fs ! (f - 1)) ` {f. z < f \<and> f \<le> M}"
  proof
    fix k assume "k \<in> set (drop z (take M fs))"
    then obtain i where "i < length (drop z (take M fs))" "k = drop z (take M fs) ! i" by (metis in_set_conv_nth)
    then show "k \<in> (\<lambda>f. fs ! (f - 1)) ` {f. z < f \<and> f \<le> M}"
      using assms by (intro image_eqI [of _ _ "z + i + 1"]) auto
  qed
  show "(\<lambda>f. fs ! (f - 1)) ` {f. z < f \<and> f \<le> M} \<subseteq> set (drop z (take M fs))"
  proof
    fix k assume "k \<in> (\<lambda>f. fs ! (f - 1)) ` {f. z < f \<and> f \<le> M}"
    then obtain f where f: "z < f" "f \<le> M" "k = fs ! (f - 1)" by blast
    then have "drop z (take M fs) ! (f - 1 - z) = k" "f - 1 - z < length (drop z (take M fs))"
      using assms by auto
    then show "k \<in> set (drop z (take M fs))" by (metis nth_mem)
  qed
qed

lemma covers_pages:
  assumes c: "covers_blocks fs M i0 segs" and M: "M \<le> length fs"
  shows "set (drop (seg_zero i0) (take M fs)) = (\<Union>P\<in>set (List.map seg_pairs segs). fst ` P)"
proof (rule set_eqI, rule iffI)
  fix k assume "k \<in> set (drop (seg_zero i0) (take M fs))"
  then obtain f where f: "seg_zero i0 < f" "f \<le> M" "k = fs ! (f - 1)" unfolding frames_after [OF M] by blast
  let ?j = "walFramePage f"
  have "i0 \<le> ?j"
  proof (rule ccontr)
    assume "\<not> i0 \<le> ?j"
    then have "seg_zero (Suc ?j) \<le> seg_zero i0" by (intro seg_zero_mono) simp
    then show False using walFramePage_bounds [of f] f(1) by simp
  qed
  moreover have "?j < length segs" using walFramePage_mono [OF f(2)] c by (simp add: covers_blocks_def)
  moreover have "k \<in> fst ` block_pairs fs M ?j" unfolding block_pages using block_own [of f M] f by auto
  ultimately have "k \<in> fst ` seg_pairs (segs ! ?j)" "segs ! ?j \<in> set segs" using c by (auto simp: covers_blocks_def)
  then show "k \<in> (\<Union>P\<in>set (List.map seg_pairs segs). fst ` P)" by auto
next
  fix k assume "k \<in> (\<Union>P\<in>set (List.map seg_pairs segs). fst ` P)"
  then obtain j f where j: "j < length segs" "(k, f) \<in> seg_pairs (segs ! j)" by (auto simp: in_set_conv_nth)
  then have b: "i0 \<le> j" "(k, f) \<in> block_pairs fs M j" using covers_pairs [OF c] by auto
  then have "k \<in> fst ` block_pairs fs M j" by force
  moreover have "block M j \<subseteq> {f. seg_zero i0 < f \<and> f \<le> M}" using seg_zero_mono [OF b(1)] by (auto simp: block_def)
  ultimately show "k \<in> set (drop (seg_zero i0) (take M fs))" unfolding frames_after [OF M] block_pages by blast
qed

lemma covers_latest:
  assumes c: "covers_blocks fs M i0 segs"
    and u: "List.map seg_pairs segs = us @ P # vs" "(r, f) \<in> P" "\<forall>V\<in>set vs. r \<notin> fst ` V"
  shows "f = latest_frame fs 0 M r"
proof -
  let ?j = "length us"
  have len: "length segs = length us + Suc (length vs)" using arg_cong [OF u(1), of length] by simp
  have "List.map seg_pairs segs ! ?j = P" unfolding u(1) by simp
  then have P: "seg_pairs (segs ! ?j) = P" using len by simp
  have b: "i0 \<le> ?j" "(r, f) \<in> block_pairs fs M ?j" using covers_pairs [OF c, of ?j r f] len P u(2) by simp_all
  then have f: "f \<in> block M ?j" "r = fs ! (f - 1)" "\<And>g. g \<in> block M ?j \<Longrightarrow> fs ! (g - 1) = r \<Longrightarrow> g \<le> f"
    by (auto simp: block_pairs_def)
  have later: "fs ! (g - 1) \<noteq> r" if g: "f < g" "g \<le> M" for g
  proof
    assume e: "fs ! (g - 1) = r"
    let ?k = "walFramePage g"
    have gk: "g \<in> block M ?k" using block_own [of g] g by simp
    have "?j \<le> ?k" using walFramePage_mono [of f g] block_page [OF f(1)] g(1) by simp
    then consider "?k = ?j" | "?j < ?k" by force
    then show False
    proof cases
      case 1
      then show False using f(3) [of g] gk e g(1) by simp
    next
      case 2
      have kN: "?k < length segs" using walFramePage_mono [OF g(2)] c by (simp add: covers_blocks_def)
      have "List.map seg_pairs segs ! ?k = vs ! (?k - ?j - 1)" unfolding u(1) using 2 by (simp add: nth_append nth_Cons')
      moreover have "?k - ?j - 1 < length vs" using len kN 2 by simp
      ultimately have "seg_pairs (segs ! ?k) \<in> set vs" using kN by (metis nth_map nth_mem)
      moreover have "r \<in> fst ` block_pairs fs M ?k" unfolding block_pages using gk e by auto
      moreover have "seg_pairs (segs ! ?k) = block_pairs fs M ?k" using c kN 2 b(1) by (simp add: covers_blocks_def)
      ultimately show False using u(3) by metis
    qed
  qed
  show ?thesis
    by (rule sym, rule latest_hit [OF _ _ _ f(2) [symmetric] later]) (use f(1) in \<open>auto simp: block_def\<close>)
qed

text \<open>
  C7. The iterator of a checkpoint: drained from its start it ends, after it has answered every
  page with a frame after the last block boundary before \<^verbatim>\<open>nBackfill\<close> exactly once, in ascending
  order, each with the last of its frames, whatever blocks the frames lie in. A page number
  0xFFFFFFFF would be taken for the end.
\<close>

theorem checkpoint_visits_latest:
  assumes "wal_rep w fs" "nBackfill < mxFrame (hdr w)" "0xFFFFFFFF \<notin> set fs" "mxFrame (hdr w) < d"
  shows "\<exists>it. walIteratorInit env True w nBackfill = (WOk, w, Some it)
    \<and> drain d it = Some (List.map (\<lambda>k. (k, latest_frame fs 0 (mxFrame (hdr w)) k))
        (sorted_list_of_set (set (drop (seg_zero (walFramePage (nBackfill + 1))) (take (mxFrame (hdr w)) fs)))))"
proof -
  let ?M = "mxFrame (hdr w)" and ?i = "walFramePage (nBackfill + 1)"
  have M: "0 < ?M" "?M \<le> length fs" using assms(2) wal_repD(2) [OF assms(1)] by simp_all
  have "?i \<le> walFramePage ?M" using assms(2) by (intro walFramePage_mono) simp
  then obtain segs where s: "init_segments (walFramePage ?M + 1 - ?i) env w ?i (replicate (walFramePage ?M + 1) no_segment)
      = (WOk, w, segs)" "covers_blocks fs ?M ?i segs"
    by (rule covers_init [OF assms(1) M(1)])
  let ?it = "\<lparr>iPrior = 0, aSegment = segs\<rparr>" and ?K = "set (drop (seg_zero ?i) (take ?M fs))"
  have init: "walIteratorInit env True w nBackfill = (WOk, w, Some ?it)"
    using s(1) by (simp only: walIteratorInit_def Let_def) simp
  have sub: "?K \<subseteq> set fs" by (meson set_drop_subset set_take_subset subset_trans)
  have lt: "k < 0xFFFFFFFF" if "k \<in> ?K" for k
  proof -
    have "k \<noteq> 0xFFFFFFFF" using that sub assms(3) by auto
    moreover have "(0xFFFFFFFF :: u32) = - 1" by simp
    then have "k \<le> 0xFFFFFFFF" by (simp only: word_order.extremum)
    ultimately show ?thesis by simp
  qed
  have "0 \<notin> ?K" using sub wal_repD(1) [OF assms(1)] by blast
  then have pos: "{k \<in> ?K. 0 < k} = ?K" by (auto simp: word_gt_0)
  have "card ?K \<le> length (drop (seg_zero ?i) (take ?M fs))" by (rule card_length)
  then have card: "card {k \<in> ?K. iPrior ?it < k} < d" unfolding WalIterator.simps pos using assms(4) by simp
  have inv: "\<forall>s\<in>set (aSegment ?it). seg_inv (iPrior ?it) s" using covers_inv [OF s(2)] by simp
  have "drain d ?it = Some (List.map (\<lambda>k. (k, latest_frame fs 0 ?M k)) (sorted_list_of_set {k \<in> ?K. iPrior ?it < k}))"
    by (rule drain_ok [OF covers_latest [OF s(2)] covers_pages [OF s(2) M(2)] lt _ _ inv card]) simp_all
  then show ?thesis using init pos by auto
qed


theorem checkpoint_visits_latest_witness:
  "\<exists>w it. wal_rep w [7] \<and> walIteratorInit example_env True w 0 = (WOk, w, Some it) \<and> drain 2 it = Some [(7, 1)]"
proof -
  obtain w where w: "wal_run example_env w [7]" by (rule example_append)
  let ?w = "w\<lparr>hdr := (hdr w)\<lparr>mxFrame := length [7 :: u32]\<rparr>\<rparr>"
  have "wal_rep w [7]" using wal_run_rep [OF w example_env_ok] by simp
  then have rep: "wal_rep ?w [7]" by (rule wal_rep_frames)
  have "seg_zero (walFramePage (0 + 1)) = 0" by (simp add: walFramePage_eq seg_simps)
  then show ?thesis
    using checkpoint_visits_latest [OF rep, of 0 2 example_env] rep by (intro exI [of _ ?w]) auto
qed

text \<open>
  C34. The merge sort of \<^verbatim>\<open>walMergesort\<close> on a block of page numbers: the result holds, in
  ascending order of their pages, exactly the last index of every page, and every sublist
  lies where the source asserts it.
\<close>

theorem mergesort_keeps_last:
  assumes "0 < n" "n \<le> HASHTABLE_NPAGE"
  shows "\<exists>a n'. walMergesort c [0..<n] n = (a, n') \<and> sorted_wrt (\<lambda>i j. c ! i < c ! j) (take n' a)
    \<and> set (take n' a) = {j. j < n \<and> (\<forall>i < n. c ! i = c ! j \<longrightarrow> i \<le> j)}"
proof -
  have n: "n \<le> 4096" using assms(2) by (simp add: wal_consts)
  obtain a n' where a: "walMergesort c [0..<n] n = (a, n')" "ordered c (take n' a)" "set (take n' a) = keep c {0..<n}"
    by (rule walMergesort_ok [OF assms(1) n])
  moreover have "keep c {0..<n} = {j. j < n \<and> (\<forall>i < n. c ! i = c ! j \<longrightarrow> i \<le> j)}" by (auto simp: keep_def)
  ultimately show ?thesis unfolding ordered_def by auto
qed

theorem mergesort_keeps_last_witness:
  "\<exists>a n'. walMergesort [9, 4, 9] [0..<3] 3 = (a, n') \<and> set (take n' a) = {1, 2}"
proof -
  have 3: "j < 3 \<longleftrightarrow> j = 0 \<or> j = 1 \<or> j = 2" for j :: nat by auto
  have "{j :: nat. j < 3 \<and> (\<forall>i < 3. [9, 4, 9 :: u32] ! i = [9, 4, 9] ! j \<longrightarrow> i \<le> j)} = {1, 2}"
    unfolding 3 by auto
  moreover have le: "3 \<le> HASHTABLE_NPAGE" by (simp add: wal_consts)
  moreover obtain a n' where "walMergesort [9, 4, 9 :: u32] [0..<3] 3 = (a, n')"
    "set (take n' a) = {j. j < 3 \<and> (\<forall>i < 3. [9, 4, 9 :: u32] ! i = [9, 4, 9] ! j \<longrightarrow> i \<le> j)}"
    using mergesort_keeps_last [of 3 "[9, 4, 9]", OF _ le] by auto
  ultimately show ?thesis by metis
qed

end
