(* ===== verification/WalFrameM.thy ===== *)
theory WalFrameM
  imports WalIndexM
begin

text \<open>
  Frames of the write-ahead log file (\<^verbatim>\<open>wal.c\<close> part of \<^verbatim>\<open>sqlite3.c\<close>): the checksum and its three
  loops, the header of the wal-index with its checksum, the encoder and the decoder of a frame,
  and the format that both implement. The byte order of the machine, \<^verbatim>\<open>SQLITE_BIGENDIAN\<close>, is the
  parameter \<open>be\<close>.
\<close>

section \<open>Definitions\<close>

text \<open>
  A 32-bit big-endian number at an offset of a buffer, always in range below, and a load of the
  machine.
\<close>

definition get4 :: "bytes \<Rightarrow> nat \<Rightarrow> u32" where
  "get4 p i = (case sqlite3Get4byte (drop i p) of Some v \<Rightarrow> v | None \<Rightarrow> 0)"

definition load32 :: "bool \<Rightarrow> bytes \<Rightarrow> nat \<Rightarrow> u32" where
  "load32 be p i = (if be then get4 p i else get4 (rev (take 4 (drop i p))) 0)"

definition BYTESWAP32 :: "u32 \<Rightarrow> u32" where
  "BYTESWAP32 x = push_bit 24 (x AND 0x000000FF) + push_bit 8 (x AND 0x0000FF00)
     + drop_bit 8 (x AND 0x00FF0000) + drop_bit 24 (x AND 0xFF000000)"

text \<open>Two statements of the loops: \<^verbatim>\<open>s1 += x + s2; s2 += y + s1;\<close>\<close>

definition ck_two :: "u32 \<Rightarrow> u32 \<Rightarrow> u32 \<times> u32 \<Rightarrow> u32 \<times> u32" where
  "ck_two x y = (\<lambda>(s1, s2). let s1 = s1 + (x + s2); s2 = s2 + (y + s1) in (s1, s2))"

text \<open>The three loops; \<open>i\<close> is the offset of \<^verbatim>\<open>aData\<close>.\<close>

function ck_swapped :: "bool \<Rightarrow> bytes \<Rightarrow> nat \<Rightarrow> nat \<Rightarrow> u32 \<times> u32 \<Rightarrow> u32 \<times> u32" where
  "ck_swapped be a i nByte s =
     (let s = ck_two (BYTESWAP32 (load32 be a i)) (BYTESWAP32 (load32 be a (i + 4))) s
      in if i + 8 < nByte then ck_swapped be a (i + 8) nByte s else s)"
  by pat_completeness auto
termination by (relation "measure (\<lambda>(be, a, i, nByte, s). nByte - i)") auto

function ck_unrolled :: "bool \<Rightarrow> bytes \<Rightarrow> nat \<Rightarrow> nat \<Rightarrow> u32 \<times> u32 \<Rightarrow> u32 \<times> u32" where
  "ck_unrolled be a i nByte s =
     (let s = ck_two (load32 be a i) (load32 be a (i + 4)) s;
          s = ck_two (load32 be a (i + 8)) (load32 be a (i + 12)) s;
          s = ck_two (load32 be a (i + 16)) (load32 be a (i + 20)) s;
          s = ck_two (load32 be a (i + 24)) (load32 be a (i + 28)) s;
          s = ck_two (load32 be a (i + 32)) (load32 be a (i + 36)) s;
          s = ck_two (load32 be a (i + 40)) (load32 be a (i + 44)) s;
          s = ck_two (load32 be a (i + 48)) (load32 be a (i + 52)) s;
          s = ck_two (load32 be a (i + 56)) (load32 be a (i + 60)) s
      in if i + 64 < nByte then ck_unrolled be a (i + 64) nByte s else s)"
  by pat_completeness auto
termination by (relation "measure (\<lambda>(be, a, i, nByte, s). nByte - i)") auto

function ck_native :: "bool \<Rightarrow> bytes \<Rightarrow> nat \<Rightarrow> nat \<Rightarrow> u32 \<times> u32 \<Rightarrow> u32 \<times> u32" where
  "ck_native be a i nByte s =
     (let s = ck_two (load32 be a i) (load32 be a (i + 4)) s
      in if i + 8 < nByte then ck_native be a (i + 8) nByte s else s)"
  by pat_completeness auto
termination by (relation "measure (\<lambda>(be, a, i, nByte, s). nByte - i)") auto

definition walChecksumBytes :: "bool \<Rightarrow> bool \<Rightarrow> bytes \<Rightarrow> nat \<Rightarrow> (u32 \<times> u32) option \<Rightarrow> u32 \<times> u32" where
  "walChecksumBytes be nativeCksum a nByte aIn =
     (let s = (case aIn of Some s \<Rightarrow> s | None \<Rightarrow> (0, 0))
      in if \<not> nativeCksum then ck_swapped be a 0 nByte s
         else if nByte mod 64 = 0 then ck_unrolled be a 0 nByte s
         else ck_native be a 0 nByte s)"

text \<open>
  The first 40 bytes of the header as they lie in memory, in the byte order of the machine; the
  padding is zero.
\<close>

definition store32 :: "bool \<Rightarrow> u32 \<Rightarrow> bytes" where
  "store32 be v = (if be then sqlite3Put4byte v else rev (sqlite3Put4byte v))"

definition store16 :: "bool \<Rightarrow> u16 \<Rightarrow> bytes" where
  "store16 be v = (if be then [ucast (drop_bit 8 v), ucast v] else [ucast v, ucast (drop_bit 8 v)])"

definition hdr_bytes :: "bool \<Rightarrow> WalIndexHdr \<Rightarrow> bytes" where
  "hdr_bytes be h = store32 be (iVersion h) @ store32 be 0 @ store32 be (iChange h)
     @ [of_bool (hdr_isInit h), of_bool (bigEndCksum h)] @ store16 be (hdr_szPage h)
     @ store32 be (word_of_nat (mxFrame h)) @ store32 be (hdr_nPage h)
     @ store32 be (fst (aFrameCksum h)) @ store32 be (snd (aFrameCksum h)) @ aSalt h"

definition WALINDEX_MAX_VERSION :: u32 where "WALINDEX_MAX_VERSION = 3007000"

definition walIndexWriteHdr :: "bool \<Rightarrow> Wal \<Rightarrow> Wal" where
  "walIndexWriteHdr be pWal =
     (let h = (hdr pWal)\<lparr>hdr_isInit := True, iVersion := WALINDEX_MAX_VERSION\<rparr>;
          h = h\<lparr>aCksum := walChecksumBytes be True (hdr_bytes be h) 40 None\<rparr>
      in pWal\<lparr>hdr := h, live := h\<rparr>)"

text \<open>
  \<^verbatim>\<open>walIndexTryHdr\<close> on the two copies that it reads, which a writer may be changing. The answer
  is whether the header is bad, whether it changed, and the new state.
\<close>

definition walPagesize :: "WalIndexHdr \<Rightarrow> nat" where
  "walPagesize h = unat (hdr_szPage h AND 0xfe00) + 65536 * unat (hdr_szPage h AND 0x0001)"

definition walIndexTryHdr :: "bool \<Rightarrow> Wal \<Rightarrow> WalIndexHdr \<Rightarrow> WalIndexHdr \<Rightarrow> bool \<times> bool \<times> Wal" where
  "walIndexTryHdr be pWal h1 h2 =
     (if h1 \<noteq> h2 then (True, False, pWal)
      else if \<not> hdr_isInit h1 then (True, False, pWal)
      else if walChecksumBytes be True (hdr_bytes be h1) 40 None \<noteq> aCksum h1 then (True, False, pWal)
      else if hdr pWal \<noteq> h1 then (False, True, pWal\<lparr>hdr := h1, szPage := walPagesize h1\<rparr>)
      else (False, False, pWal))"

definition WAL_HDRSIZE :: nat where "WAL_HDRSIZE = 32"
definition WAL_FRAME_HDRSIZE :: nat where "WAL_FRAME_HDRSIZE = 24"
definition WAL_MAX_VERSION :: u32 where "WAL_MAX_VERSION = 3007000"
definition WAL_MAGIC :: u32 where "WAL_MAGIC = 0x377f0682"

definition walFrameOffset :: "nat \<Rightarrow> nat \<Rightarrow> nat" where
  "walFrameOffset iFrame sz = WAL_HDRSIZE + (iFrame - 1) * (sz + WAL_FRAME_HDRSIZE)"

text \<open>The frame header and the state with the running checksum.\<close>

definition walEncodeFrame :: "bool \<Rightarrow> Wal \<Rightarrow> u32 \<Rightarrow> u32 \<Rightarrow> bytes \<Rightarrow> bytes \<times> Wal" where
  "walEncodeFrame be pWal iPage nTruncate aData =
     (let aFrame = sqlite3Put4byte iPage @ sqlite3Put4byte nTruncate in
      if iReCksum pWal = 0
      then (let nativeCksum = (bigEndCksum (hdr pWal) = be);
                aCksum = walChecksumBytes be nativeCksum (aFrame @ aSalt (hdr pWal)) 8 (Some (aFrameCksum (hdr pWal)));
                aCksum = walChecksumBytes be nativeCksum aData (szPage pWal) (Some aCksum)
            in (aFrame @ aSalt (hdr pWal) @ sqlite3Put4byte (fst aCksum) @ sqlite3Put4byte (snd aCksum),
                pWal\<lparr>hdr := (hdr pWal)\<lparr>aFrameCksum := aCksum\<rparr>\<rparr>))
      else (aFrame @ replicate 16 0, pWal))"

text \<open>\<^term>\<open>None\<close> for a frame that is not valid, else the page and the size of the database.\<close>

definition walDecodeFrame :: "bool \<Rightarrow> Wal \<Rightarrow> bytes \<Rightarrow> bytes \<Rightarrow> (u32 \<times> u32) option \<times> Wal" where
  "walDecodeFrame be pWal aData aFrame =
     (if aSalt (hdr pWal) \<noteq> take 8 (drop 8 aFrame) then (None, pWal)
      else if get4 aFrame 0 = 0 then (None, pWal)
      else (let nativeCksum = (bigEndCksum (hdr pWal) = be);
                aCksum = walChecksumBytes be nativeCksum aFrame 8 (Some (aFrameCksum (hdr pWal)));
                aCksum = walChecksumBytes be nativeCksum aData (szPage pWal) (Some aCksum);
                pWal = pWal\<lparr>hdr := (hdr pWal)\<lparr>aFrameCksum := aCksum\<rparr>\<rparr>
            in if fst aCksum \<noteq> get4 aFrame 16 \<or> snd aCksum \<noteq> get4 aFrame 20 then (None, pWal)
               else (Some (get4 aFrame 0, get4 aFrame 4), pWal)))"

declare ck_swapped.simps [simp del] ck_unrolled.simps [simp del] ck_native.simps [simp del]

section \<open>Specification\<close>

text \<open>
  The checksum of the format: pairs of 32-bit words in the byte order that the magic number of the
  log states, whatever the machine. A frame is its page number, the size of the database for a
  commit, and its data.
\<close>

fun ck_spec :: "bool \<Rightarrow> bytes \<Rightarrow> u32 \<times> u32 \<Rightarrow> u32 \<times> u32" where
  "ck_spec big (a # b # c # d # e # f # g # h # r) (s1, s2) =
     (let s1 = s1 + load32 big [a, b, c, d] 0 + s2; s2 = s2 + load32 big [e, f, g, h] 0 + s1
      in ck_spec big r (s1, s2))"
| "ck_spec big p s = s"

type_synonym frame = "u32 \<times> u32 \<times> bytes"

definition frame_ck :: "bool \<Rightarrow> u32 \<times> u32 \<Rightarrow> frame \<Rightarrow> u32 \<times> u32" where
  "frame_ck big ck = (\<lambda>(pg, n, d). ck_spec big d (ck_spec big (sqlite3Put4byte pg @ sqlite3Put4byte n) ck))"

definition enc_frame :: "bytes \<Rightarrow> u32 \<times> u32 \<Rightarrow> frame \<Rightarrow> bytes" where
  "enc_frame salt ck = (\<lambda>(pg, n, d). sqlite3Put4byte pg @ sqlite3Put4byte n @ salt
     @ sqlite3Put4byte (fst ck) @ sqlite3Put4byte (snd ck) @ d)"

fun enc_frames :: "bool \<Rightarrow> bytes \<Rightarrow> u32 \<times> u32 \<Rightarrow> frame list \<Rightarrow> bytes" where
  "enc_frames big salt ck [] = []"
| "enc_frames big salt ck (f # fs) =
     (let ck = frame_ck big ck f in enc_frame salt ck f @ enc_frames big salt ck fs)"

definition log_ck :: "bool \<Rightarrow> u32 \<times> u32 \<Rightarrow> frame list \<Rightarrow> u32 \<times> u32" where
  "log_ck big ck fs = foldl (frame_ck big) ck fs"

definition wal_frame_ok :: "nat \<Rightarrow> frame \<Rightarrow> bool" where
  "wal_frame_ok sz = (\<lambda>(pg, n, d). pg \<noteq> 0 \<and> length d = sz)"

text \<open>The frames of a byte sequence up to the first that is not valid.\<close>

function valid_frames :: "bool \<Rightarrow> bytes \<Rightarrow> nat \<Rightarrow> u32 \<times> u32 \<Rightarrow> bytes \<Rightarrow> frame list" where
  "valid_frames big salt sz ck bs =
     (if length bs < sz + 24 then []
      else (let f = (get4 bs 0, get4 bs 4, take sz (drop 24 bs)); ck = frame_ck big ck f
            in if wal_frame_ok sz f \<and> take (sz + 24) bs = enc_frame salt ck f
               then f # valid_frames big salt sz ck (drop (sz + 24) bs) else []))"
  by pat_completeness auto
termination by (relation "measure (\<lambda>(big, salt, sz, ck, bs). length bs)") auto

declare valid_frames.simps [simp del]

section \<open>Byte order\<close>

lemma put4_length [simp]: "length (sqlite3Put4byte v) = 4"
  by (simp add: sqlite3Put4byte_def)

lemma get4_put: "get4 (sqlite3Put4byte v @ q) 0 = v"
  by (simp add: get4_def get4_put4)

lemma get4_drop: "get4 p i = get4 (drop i p) 0"
  by (simp add: get4_def)

lemma get4_bytes: "get4 (a # b # c # d # r) 0 = push_bit 24 (ucast a) OR push_bit 16 (ucast b) OR push_bit 8 (ucast c) OR ucast d"
  by (simp add: get4_def sqlite3Get4byte_def mem_simps)

lemma byte_lt: "bit (x :: u8) n \<Longrightarrow> n < 8"
  by (meson bit_u8_ge not_less)

lemma bytes_at:
  fixes a b c d :: u8
  defines "w \<equiv> push_bit 24 (ucast a) OR push_bit 16 (ucast b) OR push_bit 8 (ucast c) OR ucast d :: u32"
  shows "bit w n \<longleftrightarrow> (if n < 8 then bit d n else if n < 16 then bit c (n - 8) else if n < 24 then bit b (n - 16) else bit a (n - 24))"
  unfolding w_def by (auto simp: bit_simps dest: byte_lt)

lemma mask_bits: "bit (0xFF :: u32) n \<longleftrightarrow> n < 8" "bit (0xFF00 :: u32) n \<longleftrightarrow> 8 \<le> n \<and> n < 16"
    "bit (0xFF0000 :: u32) n \<longleftrightarrow> 16 \<le> n \<and> n < 24" "bit (0xFF000000 :: u32) n \<longleftrightarrow> 24 \<le> n \<and> n < 32"
proof -
  have e: "0xFF = (mask 8 :: u32)" "0xFF00 = (push_bit 8 (mask 8) :: u32)" "0xFF0000 = (push_bit 16 (mask 8) :: u32)"
    "0xFF000000 = (push_bit 24 (mask 8) :: u32)" by (simp_all add: mask_eq_exp_minus_1)
  show "bit (0xFF :: u32) n \<longleftrightarrow> n < 8" "bit (0xFF00 :: u32) n \<longleftrightarrow> 8 \<le> n \<and> n < 16"
    "bit (0xFF0000 :: u32) n \<longleftrightarrow> 16 \<le> n \<and> n < 24" "bit (0xFF000000 :: u32) n \<longleftrightarrow> 24 \<le> n \<and> n < 32"
    unfolding e by (auto simp: bit_simps)
qed

lemma swap_bytes:
  "BYTESWAP32 (push_bit 24 (ucast (a :: u8)) OR push_bit 16 (ucast (b :: u8)) OR push_bit 8 (ucast (c :: u8)) OR ucast (d :: u8))
   = push_bit 24 (ucast d) OR push_bit 16 (ucast c) OR push_bit 8 (ucast b) OR ucast a"
proof -
  let ?w = "push_bit 24 (ucast a) OR push_bit 16 (ucast b) OR push_bit 8 (ucast c) OR ucast d :: u32"
  define x where "x = push_bit 24 (?w AND 0xFF)"
  define y where "y = push_bit 8 (?w AND 0xFF00)"
  define z where "z = drop_bit 8 (?w AND 0xFF0000)"
  define u where "u = drop_bit 24 (?w AND 0xFF000000)"
  have b: "bit x n \<longleftrightarrow> 24 \<le> n \<and> n < 32 \<and> bit d (n - 24)" "bit y n \<longleftrightarrow> 16 \<le> n \<and> n < 24 \<and> bit c (n - 16)"
    "bit z n \<longleftrightarrow> 8 \<le> n \<and> n < 16 \<and> bit b (n - 8)" "bit u n \<longleftrightarrow> n < 8 \<and> bit a n" for n
    unfolding x_def y_def z_def u_def
    by (simp_all only: bit_push_bit_iff bit_drop_bit_eq bit_and_iff bytes_at mask_bits o_def possible_bit_word)
      (auto dest: byte_lt)
  have "x + y = x OR y" by (rule disjunctive_add_eq_or, rule bit_word_eqI) (auto simp: bit_and_iff b)
  moreover have "(x OR y) + z = x OR y OR z"
    by (subst disjunctive_add_eq_or, rule bit_word_eqI) (auto simp: bit_and_iff bit_or_iff b or.assoc)
  moreover have "(x OR y OR z) + u = x OR y OR z OR u"
    by (subst disjunctive_add_eq_or, rule bit_word_eqI) (auto simp: bit_and_iff bit_or_iff b or.assoc)
  ultimately have "BYTESWAP32 ?w = x OR y OR z OR u" by (simp only: BYTESWAP32_def x_def y_def z_def u_def)
  also have "\<dots> = push_bit 24 (ucast d) OR push_bit 16 (ucast c) OR push_bit 8 (ucast b) OR ucast a"
    by (rule bit_word_eqI, unfold bytes_at, unfold bit_or_iff b) auto
  finally show ?thesis .
qed

lemma list8:
  "i + 8 \<le> length p \<Longrightarrow> drop i p = p ! i # p ! (i + 1) # p ! (i + 2) # p ! (i + 3) # p ! (i + 4) # p ! (i + 5)
     # p ! (i + 6) # p ! (i + 7) # drop (i + 8) p"
  by (simp add: Cons_nth_drop_Suc eval_nat_numeral flip: Cons_nth_drop_Suc)

lemma load32_swap: "BYTESWAP32 (load32 be [a, b, c, d] 0) = load32 (\<not> be) [a, b, c, d] 0"
  by (simp add: load32_def get4_bytes swap_bytes)

lemma load32_at: "i + 4 \<le> length p \<Longrightarrow> load32 be p i = load32 be [p ! i, p ! (i + 1), p ! (i + 2), p ! (i + 3)] 0"
proof -
  assume "i + 4 \<le> length p"
  then have "drop i p = p ! i # p ! (i + 1) # p ! (i + 2) # p ! (i + 3) # drop (i + 4) p"
    by (simp add: Cons_nth_drop_Suc eval_nat_numeral flip: Cons_nth_drop_Suc)
  then show ?thesis unfolding load32_def by (subst get4_drop) (simp add: get4_bytes)
qed

section \<open>The three loops\<close>

lemma ck_step:
  assumes "i + 8 \<le> n" "n \<le> length a"
  shows "ck_spec big (take (n - i) (drop i a)) s
    = ck_spec big (take (n - (i + 8)) (drop (i + 8) a)) (ck_two (load32 big a i) (load32 big a (i + 4)) s)"
proof -
  have d: "drop i a = a ! i # a ! (i + 1) # a ! (i + 2) # a ! (i + 3) # a ! (i + 4) # a ! (i + 5)
     # a ! (i + 6) # a ! (i + 7) # drop (i + 8) a" by (rule list8) (use assms in simp)
  have n: "n - i = Suc (Suc (Suc (Suc (Suc (Suc (Suc (Suc (n - (i + 8)))))))))" using assms by simp
  have l: "load32 big a i = load32 big [a ! i, a ! (i + 1), a ! (i + 2), a ! (i + 3)] 0"
    "load32 big a (i + 4) = load32 big [a ! (i + 4), a ! (i + 5), a ! (i + 6), a ! (i + 7)] 0"
    using load32_at [of i a big] load32_at [of "i + 4" a big] assms by (simp_all add: add.commute)
  show ?thesis unfolding n l by (subst d) (cases s, simp add: ck_two_def Let_def add.assoc)
qed

lemma ck_done: "n \<le> i \<Longrightarrow> ck_spec big (take (n - i) (drop i a)) s = s"
  by (cases s) simp

lemma ck_native_ok:
  "i < n \<Longrightarrow> 8 dvd n - i \<Longrightarrow> n \<le> length a \<Longrightarrow> ck_native be a i n s = ck_spec be (take (n - i) (drop i a)) s"
proof (induction be a i n s rule: ck_native.induct)
  case (1 be a i n s)
  have n: "i + 8 \<le> n" using "1.prems" by (auto dest: dvd_imp_le)
  have d: "8 dvd n - (i + 8)" using "1.prems"(2) n by (metis diff_diff_left dvd_diff_nat dvd_refl)
  show ?case
  proof (cases "i + 8 < n")
    case True
    show ?thesis unfolding ck_step [OF n "1.prems"(3)] ck_native.simps [of be a i n s] Let_def
      using "1.IH" [OF refl True True d "1.prems"(3)] True by simp
  next
    case False
    then show ?thesis unfolding ck_step [OF n "1.prems"(3)] ck_native.simps [of be a i n s] Let_def
      using ck_done [of n "i + 8"] by simp
  qed
qed

lemma ck_swapped_ok:
  "i < n \<Longrightarrow> 8 dvd n - i \<Longrightarrow> n \<le> length a \<Longrightarrow> ck_swapped be a i n s = ck_spec (\<not> be) (take (n - i) (drop i a)) s"
proof (induction be a i n s rule: ck_swapped.induct)
  case (1 be a i n s)
  have n: "i + 8 \<le> n" using "1.prems" by (auto dest: dvd_imp_le)
  have d: "8 dvd n - (i + 8)" using "1.prems"(2) n by (metis diff_diff_left dvd_diff_nat dvd_refl)
  have l: "BYTESWAP32 (load32 be a i) = load32 (\<not> be) a i" "BYTESWAP32 (load32 be a (i + 4)) = load32 (\<not> be) a (i + 4)"
    using load32_at [of i a] load32_at [of "i + 4" a] n "1.prems"(3) by (simp_all add: load32_swap)
  show ?case
  proof (cases "i + 8 < n")
    case True
    show ?thesis unfolding ck_step [OF n "1.prems"(3)] ck_swapped.simps [of be a i n s] Let_def
      using "1.IH" [OF refl True True d "1.prems"(3)] True l by simp
  next
    case False
    then show ?thesis unfolding ck_step [OF n "1.prems"(3)] ck_swapped.simps [of be a i n s] Let_def
      using ck_done [of n "i + 8"] l by simp
  qed
qed

lemma ck_unrolled_ok:
  "i < n \<Longrightarrow> 64 dvd n - i \<Longrightarrow> n \<le> length a \<Longrightarrow> ck_unrolled be a i n s = ck_spec be (take (n - i) (drop i a)) s"
proof (induction be a i n s rule: ck_unrolled.induct)
  case (1 be a i n s)
  have n: "i + 64 \<le> n" using "1.prems" by (auto dest: dvd_imp_le)
  have d: "64 dvd n - (i + 64)" using "1.prems"(2) n by (metis diff_diff_left dvd_diff_nat dvd_refl)
  note l = "1.prems"(3)
  have s0: "ck_spec be (take (n - i) (drop i a)) s = ck_spec be (take (n - (i + 8)) (drop (i + 8) a))
      (ck_two (load32 be a i) (load32 be a (i + 4)) s)" for s
    using ck_step [of "i" n a be s] n l by (simp add: add.commute)
  have s8: "ck_spec be (take (n - (i + 8)) (drop (i + 8) a)) s = ck_spec be (take (n - (i + 16)) (drop (i + 16) a))
      (ck_two (load32 be a (i + 8)) (load32 be a (i + 12)) s)" for s
    using ck_step [of "i + 8" n a be s] n l by (simp add: add.commute)
  have s16: "ck_spec be (take (n - (i + 16)) (drop (i + 16) a)) s = ck_spec be (take (n - (i + 24)) (drop (i + 24) a))
      (ck_two (load32 be a (i + 16)) (load32 be a (i + 20)) s)" for s
    using ck_step [of "i + 16" n a be s] n l by (simp add: add.commute)
  have s24: "ck_spec be (take (n - (i + 24)) (drop (i + 24) a)) s = ck_spec be (take (n - (i + 32)) (drop (i + 32) a))
      (ck_two (load32 be a (i + 24)) (load32 be a (i + 28)) s)" for s
    using ck_step [of "i + 24" n a be s] n l by (simp add: add.commute)
  have s32: "ck_spec be (take (n - (i + 32)) (drop (i + 32) a)) s = ck_spec be (take (n - (i + 40)) (drop (i + 40) a))
      (ck_two (load32 be a (i + 32)) (load32 be a (i + 36)) s)" for s
    using ck_step [of "i + 32" n a be s] n l by (simp add: add.commute)
  have s40: "ck_spec be (take (n - (i + 40)) (drop (i + 40) a)) s = ck_spec be (take (n - (i + 48)) (drop (i + 48) a))
      (ck_two (load32 be a (i + 40)) (load32 be a (i + 44)) s)" for s
    using ck_step [of "i + 40" n a be s] n l by (simp add: add.commute)
  have s48: "ck_spec be (take (n - (i + 48)) (drop (i + 48) a)) s = ck_spec be (take (n - (i + 56)) (drop (i + 56) a))
      (ck_two (load32 be a (i + 48)) (load32 be a (i + 52)) s)" for s
    using ck_step [of "i + 48" n a be s] n l by (simp add: add.commute)
  have s56: "ck_spec be (take (n - (i + 56)) (drop (i + 56) a)) s = ck_spec be (take (n - (i + 64)) (drop (i + 64) a))
      (ck_two (load32 be a (i + 56)) (load32 be a (i + 60)) s)" for s
    using ck_step [of "i + 56" n a be s] n l by (simp add: add.commute)
  have steps: "ck_spec be (take (n - i) (drop i a)) s = ck_spec be (take (n - (i + 64)) (drop (i + 64) a))
    (ck_two (load32 be a (i + 56)) (load32 be a (i + 60)) (ck_two (load32 be a (i + 48)) (load32 be a (i + 52))
    (ck_two (load32 be a (i + 40)) (load32 be a (i + 44)) (ck_two (load32 be a (i + 32)) (load32 be a (i + 36))
    (ck_two (load32 be a (i + 24)) (load32 be a (i + 28)) (ck_two (load32 be a (i + 16)) (load32 be a (i + 20))
    (ck_two (load32 be a (i + 8)) (load32 be a (i + 12)) (ck_two (load32 be a i) (load32 be a (i + 4)) s))))))))"
    unfolding s0 s8 s16 s24 s32 s40 s48 s56 ..
  show ?case
  proof (cases "i + 64 < n")
    case True
    show ?thesis unfolding steps ck_unrolled.simps [of be a i n s] Let_def
      using "1.IH" [OF refl refl refl refl refl refl refl refl True True d l] True by simp
  next
    case False
    then show ?thesis unfolding steps ck_unrolled.simps [of be a i n s] Let_def
      using ck_done [of n "i + 64"] by simp
  qed
qed

text \<open>The checksum of the format whatever the machine, which the flag of the log determines.\<close>

lemma walChecksumBytes_ok:
  assumes "0 < n" "8 dvd n" "n \<le> length a"
  shows "walChecksumBytes be (big = be) a n s = ck_spec big (take n a) (case s of Some s \<Rightarrow> s | None \<Rightarrow> (0, 0))"
proof -
  have "64 dvd n" if "n mod 64 = 0" using that by presburger
  then show ?thesis
    using ck_swapped_ok [of 0 n a be] ck_unrolled_ok [of 0 n a be] ck_native_ok [of 0 n a be] assms
    by (cases "big = be") (auto simp: walChecksumBytes_def Let_def)
qed

section \<open>Frames\<close>

lemma put4_get4: "sqlite3Put4byte (get4 (a # b # c # d # r) 0) = [a, b, c, d]"
proof -
  let ?w = "push_bit 24 (ucast a) OR push_bit 16 (ucast b) OR push_bit 8 (ucast c) OR ucast d :: u32"
  have "bit (ucast (drop_bit k ?w) :: u8) n \<longleftrightarrow> n < 8 \<and> bit ?w (k + n)" for k n
    by (simp only: bit_ucast_iff bit_drop_bit_eq o_def) auto
  then have "bit (ucast (drop_bit 24 ?w) :: u8) n = bit a n" "bit (ucast (drop_bit 16 ?w) :: u8) n = bit b n"
    "bit (ucast (drop_bit 8 ?w) :: u8) n = bit c n" for n
    unfolding bytes_at by (auto dest: byte_lt)
  moreover have "bit (ucast ?w :: u8) n = bit d n" for n
    by (simp only: bit_ucast_iff bytes_at) (auto dest: byte_lt)
  ultimately show ?thesis unfolding get4_bytes sqlite3Put4byte_def by (simp add: bit_word_eqI)
qed

lemma list4: "4 \<le> length p \<Longrightarrow> \<exists>a b c d r. p = a # b # c # d # r"
  by (metis Suc_le_length_iff numeral_eq_Suc pred_numeral_simps(2) semiring_norm(26,27) pred_numeral_simps(3) BitM.simps(1) eval_nat_numeral(2) eval_nat_numeral(3))

lemma put4_take: "i + 4 \<le> length p \<Longrightarrow> sqlite3Put4byte (get4 p i) = take 4 (drop i p)"
proof -
  assume "i + 4 \<le> length p"
  then obtain a b c d r where "drop i p = a # b # c # d # r" using list4 [of "drop i p"] by force
  then show ?thesis by (subst get4_drop) (simp add: put4_get4)
qed

lemma get4_append: "length q = i \<Longrightarrow> get4 (q @ sqlite3Put4byte v @ r) i = v"
  by (subst get4_drop) (simp add: get4_put)

lemma get4_append1: "i + 4 \<le> length h \<Longrightarrow> get4 (h @ d) i = get4 h i"
proof -
  assume i: "i + 4 \<le> length h"
  then obtain a b c e r where "drop i h = a # b # c # e # r" using list4 [of "drop i h"] by force
  then show ?thesis using i by (subst (1 2) get4_drop) (simp add: get4_bytes)
qed

text \<open>Fields of an encoded frame.\<close>

lemma enc_frame_length: "length (enc_frame salt ck (pg, n, d)) = 16 + length salt + length d"
  by (simp add: enc_frame_def)

lemma enc_frame_fields:
  assumes "length salt = 8"
  shows "get4 (enc_frame salt ck (pg, n, d) @ t) 0 = pg" "get4 (enc_frame salt ck (pg, n, d) @ t) 4 = n"
    "take 8 (drop 8 (enc_frame salt ck (pg, n, d) @ t)) = salt"
    "get4 (enc_frame salt ck (pg, n, d) @ t) 16 = fst ck" "get4 (enc_frame salt ck (pg, n, d) @ t) 20 = snd ck"
    "drop 24 (enc_frame salt ck (pg, n, d) @ t) = d @ t"
    "take 8 (enc_frame salt ck (pg, n, d) @ t) = sqlite3Put4byte pg @ sqlite3Put4byte n"
  using assms get4_append [of "[]" 0 pg] get4_append [of "sqlite3Put4byte pg" 4 n]
    get4_append [of "sqlite3Put4byte pg @ sqlite3Put4byte n @ salt" 16 "fst ck"]
    get4_append [of "sqlite3Put4byte pg @ sqlite3Put4byte n @ salt @ sqlite3Put4byte (fst ck)" 20 "snd ck"]
  by (simp_all add: enc_frame_def)

text \<open>A header that has the salt and the checksums is the one of the encoded frame.\<close>

lemma enc_frame_eqI:
  assumes "length h = 24" "take 8 (drop 8 h) = salt" "get4 h 16 = fst ck" "get4 h 20 = snd ck"
  shows "h @ d = enc_frame salt ck (get4 h 0, get4 h 4, d)"
proof -
  have td: "take n (drop m h) @ drop (m + n) h = drop m h" for n m
    by (metis append_take_drop_id drop_drop add.commute)
  have "h = take 4 h @ take 4 (drop 4 h) @ take 8 (drop 8 h) @ take 4 (drop 16 h) @ take 4 (drop 20 h)"
    using td [of 4 4] td [of 8 8] td [of 4 16] assms(1) by simp
  also have "\<dots> = sqlite3Put4byte (get4 h 0) @ sqlite3Put4byte (get4 h 4) @ salt @ sqlite3Put4byte (get4 h 16) @ sqlite3Put4byte (get4 h 20)"
    using assms(1,2) by (simp add: put4_take)
  finally show ?thesis using assms(3,4) by (simp add: enc_frame_def)
qed


lemma ck_header:
  assumes "length salt = 8"
  shows "walChecksumBytes be (big = be) (sqlite3Put4byte pg @ sqlite3Put4byte n @ salt) 8 (Some ck)
    = ck_spec big (sqlite3Put4byte pg @ sqlite3Put4byte n) ck"
  using walChecksumBytes_ok [of 8 "sqlite3Put4byte pg @ sqlite3Put4byte n @ salt" be big "Some ck"] assms by simp

lemma walEncodeFrame_ok:
  assumes "iReCksum w = 0" "length (aSalt (hdr w)) = 8" "length d = szPage w" "0 < szPage w" "8 dvd szPage w"
  shows "walEncodeFrame be w pg n d =
    (let ck = frame_ck (bigEndCksum (hdr w)) (aFrameCksum (hdr w)) (pg, n, d)
     in (take 24 (enc_frame (aSalt (hdr w)) ck (pg, n, d)), w\<lparr>hdr := (hdr w)\<lparr>aFrameCksum := ck\<rparr>\<rparr>))"
proof -
  let ?h = "sqlite3Put4byte pg @ sqlite3Put4byte n"
  have 1: "walChecksumBytes be (bigEndCksum (hdr w) = be) (?h @ aSalt (hdr w)) 8 (Some (aFrameCksum (hdr w)))
      = ck_spec (bigEndCksum (hdr w)) ?h (aFrameCksum (hdr w))"
    using ck_header [OF assms(2)] by simp
  have 2: "walChecksumBytes be (bigEndCksum (hdr w) = be) d (szPage w) (Some s) = ck_spec (bigEndCksum (hdr w)) d s" for s
    using walChecksumBytes_ok [of "szPage w" d be "bigEndCksum (hdr w)" "Some s"] assms(3-5) by simp
  show ?thesis unfolding walEncodeFrame_def Let_def 1 2 using assms(1,2)
    by (simp add: frame_ck_def enc_frame_def)
qed

text \<open>The decoder accepts exactly the encoded frames.\<close>

lemma walDecodeFrame_ok:
  assumes "length h = 24" "length (aSalt (hdr w)) = 8" "length d = szPage w" "0 < szPage w" "8 dvd szPage w"
  defines "ck \<equiv> frame_ck (bigEndCksum (hdr w)) (aFrameCksum (hdr w)) (get4 h 0, get4 h 4, d)"
  shows "if get4 h 0 \<noteq> 0 \<and> h @ d = enc_frame (aSalt (hdr w)) ck (get4 h 0, get4 h 4, d)
    then walDecodeFrame be w d h = (Some (get4 h 0, get4 h 4), w\<lparr>hdr := (hdr w)\<lparr>aFrameCksum := ck\<rparr>\<rparr>)
    else \<exists>ck'. walDecodeFrame be w d h = (None, w\<lparr>hdr := (hdr w)\<lparr>aFrameCksum := ck'\<rparr>\<rparr>)"
proof -
  let ?h = "sqlite3Put4byte (get4 h 0) @ sqlite3Put4byte (get4 h 4)"
  have t: "take 8 h = ?h" using put4_take [of 0 h] put4_take [of 4 h] assms(1) take_add [of 4 4 h] by simp
  have 1: "walChecksumBytes be (bigEndCksum (hdr w) = be) h 8 (Some (aFrameCksum (hdr w)))
      = ck_spec (bigEndCksum (hdr w)) ?h (aFrameCksum (hdr w))"
    using walChecksumBytes_ok [of 8 h be "bigEndCksum (hdr w)" "Some (aFrameCksum (hdr w))"] assms(1) by (simp add: t)
  have 2: "walChecksumBytes be (bigEndCksum (hdr w) = be) d (szPage w) (Some s) = ck_spec (bigEndCksum (hdr w)) d s" for s
    using walChecksumBytes_ok [of "szPage w" d be "bigEndCksum (hdr w)" "Some s"] assms(3-5) by simp
  have ck: "ck = ck_spec (bigEndCksum (hdr w)) d (ck_spec (bigEndCksum (hdr w)) ?h (aFrameCksum (hdr w)))"
    by (simp add: ck_def frame_ck_def)
  have iff: "h @ d = enc_frame (aSalt (hdr w)) ck (get4 h 0, get4 h 4, d)
      \<longleftrightarrow> aSalt (hdr w) = take 8 (drop 8 h) \<and> fst ck = get4 h 16 \<and> snd ck = get4 h 20"
    (is "?l \<longleftrightarrow> ?r")
  proof
    assume l: ?l
    have g: "get4 (h @ d) 16 = get4 h 16" "get4 (h @ d) 20 = get4 h 20" "take 8 (drop 8 (h @ d)) = take 8 (drop 8 h)"
      using assms(1) by (simp_all add: get4_append1)
    show ?r using enc_frame_fields(3-5) [OF assms(2), of ck "get4 h 0" "get4 h 4" d "[]"] l g by simp
  next
    assume ?r
    then show ?l using enc_frame_eqI [OF assms(1), of "aSalt (hdr w)" ck d] by simp
  qed
  show ?thesis
  proof (cases "get4 h 0 \<noteq> 0 \<and> h @ d = enc_frame (aSalt (hdr w)) ck (get4 h 0, get4 h 4, d)")
    case True
    then show ?thesis unfolding iff by (simp add: walDecodeFrame_def Let_def 1 2 flip: ck)
  next
    case False
    then have "walDecodeFrame be w d h = (None, w) \<or> walDecodeFrame be w d h = (None, w\<lparr>hdr := (hdr w)\<lparr>aFrameCksum := ck\<rparr>\<rparr>)"
      unfolding iff by (auto simp: walDecodeFrame_def Let_def 1 2 simp flip: ck)
    then have "\<exists>ck'. walDecodeFrame be w d h = (None, w\<lparr>hdr := (hdr w)\<lparr>aFrameCksum := ck'\<rparr>\<rparr>)"
    proof
      assume "walDecodeFrame be w d h = (None, w)"
      then show ?thesis by (intro exI [of _ "aFrameCksum (hdr w)"]) simp
    qed blast
    then show ?thesis unfolding if_not_P [OF False] .
  qed
qed

text \<open>The frames that were written are the frames that are found, and what follows them.\<close>

lemma chain_enc:
  assumes "length salt = 8"
  shows "\<forall>f\<in>set fs. wal_frame_ok sz f \<Longrightarrow>
    valid_frames big salt sz ck (enc_frames big salt ck fs @ t) = fs @ valid_frames big salt sz (log_ck big ck fs) t"
proof (induction fs arbitrary: ck)
  case (Cons f fs)
  obtain pg n d where f: "f = (pg, n, d)" by (cases f)
  let ?ck = "frame_ck big ck f"
  let ?r = "enc_frames big salt ?ck fs @ t"
  have ok: "wal_frame_ok sz f" "length d = sz" using Cons.prems f by (auto simp: wal_frame_ok_def)
  have e: "enc_frames big salt ck (f # fs) @ t = enc_frame salt ?ck (pg, n, d) @ ?r" by (simp add: f Let_def)
  have l: "length (enc_frame salt ?ck (pg, n, d)) = sz + 24" using assms ok(2) by (simp add: enc_frame_length)
  note g = enc_frame_fields [OF assms, of ?ck pg n d ?r]
  have "valid_frames big salt sz ck (enc_frames big salt ck (f # fs) @ t) = f # valid_frames big salt sz ?ck ?r"
    unfolding e using g(1,2,6) l ok by (subst valid_frames.simps) (simp add: f Let_def)
  then show ?case using Cons by (simp add: log_ck_def)
qed (simp add: log_ck_def)

lemma chain_sound:
  "\<exists>t. bs = enc_frames big salt ck (valid_frames big salt sz ck bs) @ t
     \<and> valid_frames big salt sz (log_ck big ck (valid_frames big salt sz ck bs)) t = [] \<and> (\<forall>f\<in>set (valid_frames big salt sz ck bs). wal_frame_ok sz f)"
proof (induction big salt sz ck bs rule: valid_frames.induct)
  case (1 big salt sz ck bs)
  let ?f = "(get4 bs 0, get4 bs 4, take sz (drop 24 bs))"
  let ?ck = "frame_ck big ck ?f"
  show ?case
  proof (cases "\<not> length bs < sz + 24 \<and> wal_frame_ok sz ?f \<and> take (sz + 24) bs = enc_frame salt ?ck ?f")
    case True
    have c: "valid_frames big salt sz ck bs = ?f # valid_frames big salt sz ?ck (drop (sz + 24) bs)"
      using True by (subst valid_frames.simps) (simp add: Let_def)
    obtain t where t: "drop (sz + 24) bs = enc_frames big salt ?ck (valid_frames big salt sz ?ck (drop (sz + 24) bs)) @ t"
      "valid_frames big salt sz (log_ck big ?ck (valid_frames big salt sz ?ck (drop (sz + 24) bs))) t = []"
      "\<forall>f\<in>set (valid_frames big salt sz ?ck (drop (sz + 24) bs)). wal_frame_ok sz f"
      using "1.IH" [OF _ refl refl] True by blast
    have "bs = take (sz + 24) bs @ drop (sz + 24) bs" by simp
    then have "bs = enc_frame salt ?ck ?f @ enc_frames big salt ?ck (valid_frames big salt sz ?ck (drop (sz + 24) bs)) @ t"
      using True t(1) by metis
    then show ?thesis unfolding c using t(2,3) True by (intro exI [of _ t]) (simp add: Let_def log_ck_def)
  next
    case False
    then have "valid_frames big salt sz ck bs = []" by (subst valid_frames.simps) (auto simp: Let_def)
    then show ?thesis by (simp add: log_ck_def)
  qed
qed


text \<open>
  C32. The checksum does not depend on the machine: whichever of the three loops runs, on a
  machine of either byte order, it is the checksum of the format in the byte order that the log
  states.
\<close>

theorem checksum_portable:
  assumes "0 < n" "8 dvd n" "n \<le> length a"
  shows "walChecksumBytes be (big = be) a n s = ck_spec big (take n a) (case s of Some s \<Rightarrow> s | None \<Rightarrow> (0, 0))"
  using walChecksumBytes_ok [OF assms] .

theorem checksum_portable_witness:
  "walChecksumBytes True True [0, 0, 0, 1, 0, 0, 0, 2] 8 None = ck_spec True [0, 0, 0, 1, 0, 0, 0, 2] (0, 0)
   \<and> walChecksumBytes False False [0, 0, 0, 1, 0, 0, 0, 2] 8 None = ck_spec True [0, 0, 0, 1, 0, 0, 0, 2] (0, 0)"
  using checksum_portable [of 8 "[0, 0, 0, 1, 0, 0, 0, 2]" True True None]
    checksum_portable [of 8 "[0, 0, 0, 1, 0, 0, 0, 2]" False True None] by simp

text \<open>
  C31. A frame that \<^verbatim>\<open>walEncodeFrame\<close> writes is decoded by a connection at the same place of
  the log, on a machine of either byte order, to the same page and size of the database, and both
  have the same running checksum; any other header of 24 bytes before the same data, with the
  same page and size, is refused.
\<close>

theorem frame_roundtrip:
  assumes "iReCksum w = 0" "length (aSalt (hdr w)) = 8" "length d = szPage w" "0 < szPage w" "8 dvd szPage w"
    "szPage r = szPage w" "hdr r = hdr w" "pg \<noteq> 0" "walEncodeFrame be w pg n d = (h, w')"
  shows "walDecodeFrame be2 r d h = (Some (pg, n), r\<lparr>hdr := hdr w'\<rparr>)
    \<and> (length h2 = 24 \<and> take 8 h2 = take 8 h \<and> h2 \<noteq> h \<longrightarrow> fst (walDecodeFrame be2 r d h2) = None)"
proof -
  define ck where "ck = frame_ck (bigEndCksum (hdr w)) (aFrameCksum (hdr w)) (pg, n, d)"
  let ?e = "enc_frame (aSalt (hdr w)) ck (pg, n, d)"
  have hw: "h = take 24 ?e" "w' = w\<lparr>hdr := (hdr w)\<lparr>aFrameCksum := ck\<rparr>\<rparr>"
    using walEncodeFrame_ok [OF assms(1-5), of be pg n] assms(9) by (simp_all add: ck_def Let_def)
  have he: "h @ d = ?e" "length h = 24" using assms(2) by (simp_all add: hw(1) enc_frame_def)
  have g: "get4 h 0 = pg" "get4 h 4 = n"
    using enc_frame_fields(1,2) [OF assms(2), of ck pg n d "[]"] he get4_append1 [of 0 h d] get4_append1 [of 4 h d] by simp_all
  have r: "length (aSalt (hdr r)) = 8" "length d = szPage r" "0 < szPage r" "8 dvd szPage r" using assms(2-7) by simp_all
  have "walDecodeFrame be2 r d h = (Some (pg, n), r\<lparr>hdr := hdr w'\<rparr>)"
    using walDecodeFrame_ok [OF he(2) r, of be2] assms(7,8) g he(1) by (simp add: hw(2) flip: ck_def)
  moreover have "fst (walDecodeFrame be2 r d h2) = None" if h2: "length h2 = 24" "take 8 h2 = take 8 h" "h2 \<noteq> h"
  proof -
    have s: "get4 x 0 = get4 (take 8 x) 0" "get4 x 4 = get4 (take 8 x) 4" if "length x = 24" for x :: bytes
      using get4_append1 [of 0 "take 8 x" "drop 8 x"] get4_append1 [of 4 "take 8 x" "drop 8 x"] that by simp_all
    have g2: "get4 h2 0 = pg" "get4 h2 4 = n" using s [OF h2(1)] s [OF he(2)] h2(2) g by simp_all
    have "h2 @ d \<noteq> ?e" using h2(3) he(1) by (metis append_same_eq)
    then show ?thesis using walDecodeFrame_ok [OF h2(1) r, of be2] assms(7) g2 by (auto simp flip: ck_def)
  qed
  ultimately show ?thesis by blast
qed

theorem frame_roundtrip_witness:
  "\<exists>h w'. walEncodeFrame False (example_wal\<lparr>szPage := 8\<rparr>) 7 2 [1, 2, 3, 4, 5, 6, 7, 8] = (h, w')
     \<and> walDecodeFrame True (example_wal\<lparr>szPage := 8\<rparr>) [1, 2, 3, 4, 5, 6, 7, 8] h = (Some (7, 2), example_wal\<lparr>szPage := 8, hdr := hdr w'\<rparr>)"
proof -
  let ?w = "example_wal\<lparr>szPage := 8\<rparr>"
  obtain h w' where e: "walEncodeFrame False ?w 7 2 [1, 2, 3, 4, 5, 6, 7, 8] = (h, w')" by (metis surj_pair)
  have "iReCksum ?w = 0" "length (aSalt (hdr ?w)) = 8" "length [1 :: u8, 2, 3, 4, 5, 6, 7, 8] = szPage ?w" "0 < szPage ?w" "8 dvd szPage ?w"
    by (simp_all add: example_wal_def example_hdr_def)
  from frame_roundtrip [OF this refl refl _ e, of True] e show ?thesis by simp
qed

end
