(* ===== verification/WalFileM.thy ===== *)
theory WalFileM
  imports WalFrameM
begin

text \<open>
  The log file and its recovery (\<^verbatim>\<open>wal.c\<close> part of \<^verbatim>\<open>sqlite3.c\<close>). A file is its bytes. The
  outcome of every call of the operating system, by the number of the call, is a parameter: an
  error code or success, what a failed read leaves in its buffer and how much a failed write has
  written.
\<close>

section \<open>Definitions\<close>

text \<open>The checkpoint information at the start of the wal-index.\<close>

record WalCkptInfo =
  nBackfill :: nat
  nBackfillAttempted :: nat
  aReadMark :: "nat list"

text \<open>
  \<open>os_other\<close> is what other processes do to the shared memory, the checkpoint information and the header,
  during a call; it matters where a lock is taken that they may hold.
\<close>

record wal_os =
  os_err :: "nat \<Rightarrow> nat option"
  os_junk :: "nat \<Rightarrow> bytes"
  os_wrote :: "nat \<Rightarrow> nat"
  os_other :: "nat \<Rightarrow> WalCkptInfo \<times> WalIndexHdr \<Rightarrow> WalCkptInfo \<times> WalIndexHdr"

record wal_files =
  log_file :: bytes
  db_file :: bytes
  nCall :: nat

datatype which_file = Log | Db

fun file_of :: "which_file \<Rightarrow> wal_files \<Rightarrow> bytes" where
  "file_of Log fs = log_file fs"
| "file_of Db fs = db_file fs"

fun set_file :: "which_file \<Rightarrow> bytes \<Rightarrow> wal_files \<Rightarrow> wal_files" where
  "set_file Log b fs = fs\<lparr>log_file := b\<rparr>"
| "set_file Db b fs = fs\<lparr>db_file := b\<rparr>"

definition os_call :: "wal_os \<Rightarrow> wal_files \<Rightarrow> wal_rc \<times> wal_files" where
  "os_call os fs = (case os_err os (nCall fs) of None \<Rightarrow> WOk | Some e \<Rightarrow> WErr e, fs\<lparr>nCall := Suc (nCall fs)\<rparr>)"

definition SQLITE_IOERR_SHORT_READ :: wal_rc where "SQLITE_IOERR_SHORT_READ = WErr 522"
definition SQLITE_BUSY :: wal_rc where "SQLITE_BUSY = WErr 5"

text \<open>A read that reaches the end of the file fills the rest with zeros and says so.\<close>

definition os_read :: "wal_os \<Rightarrow> which_file \<Rightarrow> wal_files \<Rightarrow> nat \<Rightarrow> nat \<Rightarrow> wal_rc \<times> bytes \<times> wal_files" where
  "os_read os f fs amt off =
     (let (rc, fs') = os_call os fs;
          got = take amt (drop off (file_of f fs))
      in if rc \<noteq> WOk then (rc, take amt (os_junk os (nCall fs) @ replicate amt 0), fs')
         else if length got = amt then (WOk, got, fs')
         else (SQLITE_IOERR_SHORT_READ, got @ replicate (amt - length got) 0, fs'))"

definition write_at :: "bytes \<Rightarrow> nat \<Rightarrow> bytes \<Rightarrow> bytes" where
  "write_at b off c = (if c = [] then b
     else take off (b @ replicate (off - length b) 0) @ c @ drop (off + length c) b)"

definition os_write :: "wal_os \<Rightarrow> which_file \<Rightarrow> wal_files \<Rightarrow> bytes \<Rightarrow> nat \<Rightarrow> wal_rc \<times> wal_files" where
  "os_write os f fs c off =
     (let (rc, fs') = os_call os fs;
          c = (if rc = WOk then c else take (os_wrote os (nCall fs)) c)
      in (rc, set_file f (write_at (file_of f fs) off c) fs'))"

definition os_truncate :: "wal_os \<Rightarrow> which_file \<Rightarrow> wal_files \<Rightarrow> nat \<Rightarrow> wal_rc \<times> wal_files" where
  "os_truncate os f fs n =
     (let (rc, fs') = os_call os fs; b = file_of f fs
      in (rc, if rc = WOk then set_file f (take n b @ replicate (n - length b) 0) fs' else fs'))"

definition os_file_size :: "wal_os \<Rightarrow> which_file \<Rightarrow> wal_files \<Rightarrow> wal_rc \<times> nat \<times> wal_files" where
  "os_file_size os f fs = (let (rc, fs') = os_call os fs in (rc, length (file_of f fs), fs'))"

definition READMARK_NOT_USED :: nat where "READMARK_NOT_USED = 0xffffffff"
definition WAL_NREADER :: nat where "WAL_NREADER = 5"

text \<open>\<^verbatim>\<open>sqlite3WalReadFrame\<close>: the code and the bytes put into the buffer.\<close>

definition sqlite3WalReadFrame :: "wal_os \<Rightarrow> Wal \<Rightarrow> wal_files \<Rightarrow> nat \<Rightarrow> nat \<Rightarrow> wal_rc \<times> bytes \<times> wal_files" where
  "sqlite3WalReadFrame os pWal fs iRead nOut =
     (let sz = walPagesize (hdr pWal)
      in os_read os Log fs (if nOut > sz then sz else nOut) (walFrameOffset iRead sz + WAL_FRAME_HDRSIZE))"

definition zero_hdr :: WalIndexHdr where
  "zero_hdr = \<lparr>iVersion = 0, iChange = 0, hdr_isInit = False, bigEndCksum = False, hdr_szPage = 0, mxFrame = 0,
     hdr_nPage = 0, aFrameCksum = (0, 0), aSalt = replicate 8 0, aCksum = (0, 0)\<rparr>"

text \<open>\<^verbatim>\<open>(u16)((szPage&0xff00) | (szPage>>16))\<close>\<close>

definition szPage16 :: "nat \<Rightarrow> u16" where
  "szPage16 sz = word_of_nat ((sz AND 0xff00) OR (sz div 65536))"

text \<open>
  The loop over the frames of one page of the wal-index, \<open>n\<close> frames from \<^verbatim>\<open>iFrame\<close> on. It
  answers the code, the states, the checksum at the last commit, and \<^verbatim>\<open>iFrame\<close> at the end.
\<close>

primrec recover_frames :: "nat \<Rightarrow> wal_os \<Rightarrow> wal_env \<Rightarrow> bool \<Rightarrow> nat \<Rightarrow> wal_rc \<Rightarrow> Wal \<Rightarrow> wal_files \<Rightarrow> u32 \<times> u32
    \<Rightarrow> wal_rc \<times> Wal \<times> wal_files \<times> (u32 \<times> u32) \<times> nat" where
  "recover_frames 0 os env be iFrame rc pWal fs ck = (rc, pWal, fs, ck, iFrame)"
| "recover_frames (Suc n) os env be iFrame rc pWal fs ck =
     (let sz = szPage pWal;
          (rc, aFrame, fs) = os_read os Log fs (sz + WAL_FRAME_HDRSIZE) (walFrameOffset iFrame sz)
      in if rc \<noteq> WOk then (rc, pWal, fs, ck, iFrame)
         else (case walDecodeFrame be pWal (drop WAL_FRAME_HDRSIZE aFrame) (take WAL_FRAME_HDRSIZE aFrame) of
             (None, pWal) \<Rightarrow> (rc, pWal, fs, ck, iFrame)
           | (Some (pgno, nTruncate), pWal) \<Rightarrow>
               (case walIndexAppend env pWal iFrame pgno of (rc, pWal) \<Rightarrow>
                  if rc \<noteq> WOk then (rc, pWal, fs, ck, iFrame)
                  else if nTruncate \<noteq> 0
                  then (let h = (hdr pWal)\<lparr>mxFrame := iFrame, hdr_nPage := nTruncate, hdr_szPage := szPage16 sz\<rparr>
                        in recover_frames n os env be (iFrame + 1) rc (pWal\<lparr>hdr := h\<rparr>) fs (aFrameCksum h))
                  else recover_frames n os env be (iFrame + 1) rc pWal fs ck)))"

text \<open>
  The loop over the pages of the wal-index. Each is filled in a private buffer, whose content is
  the parameter \<open>fresh\<close> before the first frame, and then copied to the shared page.
\<close>

primrec recover_pages :: "nat \<Rightarrow> wal_os \<Rightarrow> wal_env \<Rightarrow> bool \<Rightarrow> (nat \<Rightarrow> hash_page) \<Rightarrow> nat \<Rightarrow> nat \<Rightarrow> wal_rc \<Rightarrow> Wal \<Rightarrow> wal_files
    \<Rightarrow> u32 \<times> u32 \<Rightarrow> wal_rc \<times> Wal \<times> wal_files \<times> (u32 \<times> u32)" where
  "recover_pages 0 os env be fresh iLastFrame iPg rc pWal fs ck = (rc, pWal, fs, ck)"
| "recover_pages (Suc n) os env be fresh iLastFrame iPg rc pWal fs ck =
     (case walIndexPage env pWal iPg of
        (rc, pWal, None) \<Rightarrow> (rc, pWal, fs, ck)
      | (rc, pWal, Some aShare) \<Rightarrow>
          (let iLast = min iLastFrame (HASHTABLE_NPAGE_ONE + iPg * HASHTABLE_NPAGE);
               iFirst = 1 + (if iPg = 0 then 0 else HASHTABLE_NPAGE_ONE + (iPg - 1) * HASHTABLE_NPAGE);
               (rc, pWal, fs, ck, iFrame) =
                 recover_frames (iLast + 1 - iFirst) os env be iFirst rc (set_hash_page pWal iPg (fresh iPg)) fs ck;
               pWal = set_hash_page pWal iPg (hash_page_at pWal iPg)
           in if iFrame \<le> iLast then (rc, pWal, fs, ck)
              else recover_pages n os env be fresh iLastFrame (iPg + 1) rc pWal fs ck))"

text \<open>The part of \<^verbatim>\<open>walIndexRecover\<close> for a log longer than its header; \<open>alloc\<close> is the buffer.\<close>

definition recover_log :: "wal_os \<Rightarrow> wal_env \<Rightarrow> bool \<Rightarrow> (nat \<Rightarrow> hash_page) \<Rightarrow> bool \<Rightarrow> nat \<Rightarrow> Wal \<Rightarrow> wal_files
    \<Rightarrow> wal_rc \<times> Wal \<times> wal_files \<times> (u32 \<times> u32)" where
  "recover_log os env be fresh alloc nSize pWal fs =
     (let (rc, aBuf, fs) = os_read os Log fs WAL_HDRSIZE 0 in
      if rc \<noteq> WOk then (rc, pWal, fs, 0, 0)
      else (let magic = get4 aBuf 0; sz = unat (get4 aBuf 8) in
        if magic AND 0xFFFFFFFE \<noteq> WAL_MAGIC \<or> sz AND (sz - 1) \<noteq> 0 \<or> sz > 65536 \<or> sz < 512
        then (WOk, pWal, fs, 0, 0)
        else (let pWal = pWal\<lparr>hdr := (hdr pWal)\<lparr>bigEndCksum := odd magic, aSalt := take 8 (drop 16 aBuf)\<rparr>,
                            szPage := sz, nCkpt := get4 aBuf 12\<rparr>;
                  ck = walChecksumBytes be (bigEndCksum (hdr pWal) = be) aBuf (WAL_HDRSIZE - 2 * 4) None;
                  pWal = pWal\<lparr>hdr := (hdr pWal)\<lparr>aFrameCksum := ck\<rparr>\<rparr>
              in if fst ck \<noteq> get4 aBuf 24 \<or> snd ck \<noteq> get4 aBuf 28 then (WOk, pWal, fs, 0, 0)
                 else if get4 aBuf 4 \<noteq> WAL_MAX_VERSION then (WCantopen, pWal, fs, 0, 0)
                 else if \<not> alloc then (WNomem, pWal, fs, 0, 0)
                 else (let iLastFrame = (nSize - WAL_HDRSIZE) div (sz + WAL_FRAME_HDRSIZE)
                       in recover_pages (walFramePage iLastFrame + 1) os env be fresh iLastFrame 0 WOk pWal fs (0, 0)))))"

text \<open>The read marks 1 to 4; a lock that is busy leaves its mark, and its code when it is the last.\<close>

primrec recover_marks :: "nat \<Rightarrow> wal_os \<Rightarrow> nat \<Rightarrow> nat \<Rightarrow> wal_rc \<Rightarrow> WalCkptInfo \<Rightarrow> wal_files \<Rightarrow> wal_rc \<times> WalCkptInfo \<times> wal_files" where
  "recover_marks 0 os mx i rc pInfo fs = (rc, pInfo, fs)"
| "recover_marks (Suc n) os mx i rc pInfo fs =
     (let (rc, fs) = os_call os fs in
      if rc = WOk
      then recover_marks n os mx (i + 1) rc
             (pInfo\<lparr>aReadMark := (aReadMark pInfo)[i := if i = 1 \<and> mx \<noteq> 0 then mx else READMARK_NOT_USED]\<rparr>) fs
      else if rc \<noteq> SQLITE_BUSY then (rc, pInfo, fs)
      else recover_marks n os mx (i + 1) rc pInfo fs)"

definition walIndexRecover :: "wal_os \<Rightarrow> wal_env \<Rightarrow> bool \<Rightarrow> (nat \<Rightarrow> hash_page) \<Rightarrow> bool \<Rightarrow> Wal \<Rightarrow> WalCkptInfo \<Rightarrow> wal_files
    \<Rightarrow> wal_rc \<times> Wal \<times> WalCkptInfo \<times> wal_files" where
  "walIndexRecover os env be fresh alloc pWal pInfo fs =
     (let (rc, fs) = os_call os fs in
      if rc \<noteq> WOk then (rc, pWal, pInfo, fs)
      else (let pWal = pWal\<lparr>hdr := zero_hdr\<rparr>; (rc, nSize, fs) = os_file_size os Log fs in
        if rc \<noteq> WOk then (rc, pWal, pInfo, fs)
        else (let (rc, pWal, fs, ck) = (if nSize > WAL_HDRSIZE then recover_log os env be fresh alloc nSize pWal fs
                                        else (WOk, pWal, fs, 0, 0))
              in if rc \<noteq> WOk then (rc, pWal, pInfo, fs)
                 else (let pWal = walIndexWriteHdr be (pWal\<lparr>hdr := (hdr pWal)\<lparr>aFrameCksum := ck\<rparr>\<rparr>);
                           mx = mxFrame (hdr pWal);
                           pInfo = pInfo\<lparr>nBackfill := 0, nBackfillAttempted := mx, aReadMark := (aReadMark pInfo)[0 := 0]\<rparr>;
                           (rc, pInfo, fs) = recover_marks (WAL_NREADER - 1) os mx 1 WOk pInfo fs
                       in (rc, pWal, pInfo, fs)))))"

declare recover_frames.simps(2) [simp del] recover_pages.simps(2) [simp del]

section \<open>Recovery\<close>

definition os_quiet :: "wal_os \<Rightarrow> bool" where
  "os_quiet os \<longleftrightarrow> (\<forall>n. os_err os n = None)"

text \<open>Every page of the wal-index can be mapped.\<close>

definition env_maps :: "wal_env \<Rightarrow> bool" where
  "env_maps env \<longleftrightarrow> (\<forall>k. realloc_ok env k \<and> malloc_ok env k \<and> (\<exists>p. shm_map env k = (WOk, Some p) \<and> sized k p))"

lemma env_maps_ok: "env_maps env \<Longrightarrow> env_ok env"
  unfolding env_maps_def env_ok_def by (metis option.inject snd_conv)

text \<open>The frames up to the last commit.\<close>

definition last_commit :: "frame list \<Rightarrow> nat" where
  "last_commit frs = length (dropWhile (\<lambda>(pg, n, d). n = 0) (rev frs))"

lemma last_commit_simps [simp]: "last_commit [] = 0"
  "last_commit (frs @ [(pg, n, d)]) = (if n = 0 then last_commit frs else Suc (length frs))"
  by (simp_all add: last_commit_def)

lemma last_commit_le: "last_commit frs \<le> length frs"
  unfolding last_commit_def by (metis length_dropWhile_le length_rev)

lemma call_quiet: "os_quiet os \<Longrightarrow> os_call os fs = (WOk, fs\<lparr>nCall := Suc (nCall fs)\<rparr>)"
  by (simp add: os_call_def os_quiet_def)

lemma read_quiet:
  "os_quiet os \<Longrightarrow> off + amt \<le> length (file_of f fs) \<Longrightarrow>
   os_read os f fs amt off = (WOk, take amt (drop off (file_of f fs)), fs\<lparr>nCall := Suc (nCall fs)\<rparr>)"
  by (simp add: os_read_def call_quiet Let_def)

text \<open>A page behind the frames may be replaced.\<close>

lemma wal_rep_fresh:
  assumes rep: "wal_rep w fs" and l: "length fs = seg_zero k" "k < length (apWiData w)" "sized k q"
  shows "wal_rep (set_hash_page w k q) fs"
  unfolding wal_rep_def
proof (intro conjI allI impI)
  note r = wal_repD [OF rep]
  show "0 \<notin> set fs" "mxFrame (hdr (set_hash_page w k q)) \<le> length fs" using r(1,2) by (simp_all add: set_hash_page_def)
  fix j p assume "j < length (apWiData (set_hash_page w k q))" "apWiData (set_hash_page w k q) ! j = Some p"
  then show "sized j p" using r(3) [of j p] l(2,3) by (cases "j = k") (auto simp: set_hash_page_def)
next
  note r = wal_repD [OF rep]
  fix j assume j: "fs \<noteq> []" "j \<le> walFramePage (length fs)"
  then have "\<not> k \<le> walFramePage (length fs)"
    using walFramePage_bounds [of "length fs"] seg_zero_mono [of k "walFramePage (length fs)"] l(1) by fastforce
  then have "j \<noteq> k" using j by simp
  then show "j < length (apWiData (set_hash_page w k q))" "\<exists>p. apWiData (set_hash_page w k q) ! j = Some p
      \<and> serves p j fs (mxFrame (hdr (set_hash_page w k q)) = length fs)"
    using r(4) [of j] j by (auto simp: set_hash_page_def)
qed

text \<open>The operations on the index leave the fields of the file alone.\<close>

definition same_file :: "Wal \<Rightarrow> Wal \<Rightarrow> bool" where
  "same_file w w' \<longleftrightarrow> szPage w' = szPage w \<and> iReCksum w' = iReCksum w \<and> nCkpt w' = nCkpt w \<and> writeLock w' = writeLock w
    \<and> readLock w' = readLock w \<and> minFrame w' = minFrame w \<and> bShmUnreliable w' = bShmUnreliable w \<and> heap_memory w' = heap_memory w
    \<and> truncateOnCommit w' = truncateOnCommit w \<and> mxWalSize w' = mxWalSize w"

lemma same_file_refl [simp]: "same_file w w"
  by (simp add: same_file_def)

lemma same_file_trans [trans]: "same_file u v \<Longrightarrow> same_file v w \<Longrightarrow> same_file u w"
  by (simp add: same_file_def)

lemma same_file_set [simp]: "same_file u (set_hash_page w k p) = same_file u w" "same_file (set_hash_page w k p) u = same_file w u"
  by (simp_all add: same_file_def set_hash_page_def)

lemma realloc_fields: "same_file w (fst (snd (walIndexPageRealloc env w k)))"
proof -
  obtain rc pg where m: "shm_map env k = (rc, pg)" by (cases "shm_map env k")
  show ?thesis unfolding walIndexPageRealloc_def m Let_def by (cases rc) (simp_all add: same_file_def)
qed

lemma walIndexPage_fields: "walIndexPage env w k = (rc, w', pg) \<Longrightarrow> same_file w w'"
  using realloc_fields [of w env k] by (auto simp: walIndexPage_def split: if_splits)

lemma walHashGet_fields:
  assumes "walHashGet env w k = (rc, w', pg)"
  shows "same_file w w'"
proof -
  obtain rc1 w1 p where g: "walIndexPage env w k = (rc1, w1, p)" by (metis prod_cases3)
  then have "w' = w1" using assms by (auto simp: walHashGet_def split: option.splits)
  then show ?thesis using walIndexPage_fields [OF g] by simp
qed

lemma walCleanupHash_fields [simp]: "same_file w (walCleanupHash env w)"
proof -
  obtain rc w1 pg where g: "walHashGet env w (walFramePage (mxFrame (hdr w))) = (rc, w1, pg)" by (metis prod_cases3)
  then show ?thesis using walHashGet_fields [OF g]
    by (simp add: walCleanupHash_def g Let_def split: option.split wal_rc.split prod.split)
qed

lemma walIndexAppend_fields:
  assumes "walIndexAppend env w i k = (rc, w')"
  shows "same_file w w'"
proof -
  let ?h = "walFramePage i"
  obtain rc1 w1 pg where g: "walHashGet env w ?h = (rc1, w1, pg)" by (metis prod_cases3)
  have w1: "same_file w w1" by (rule walHashGet_fields [OF g])
  show ?thesis
  proof (cases "\<exists>p z. rc1 = WOk \<and> pg = Some (p, z)")
    case False
    then have "walIndexAppend env w i k = (rc1, w1)"
      unfolding walIndexAppend_def Let_def [of "walFramePage i"] g prod.case
      by (cases rc1; cases pg) auto
    then show ?thesis using assms w1 by simp
  next
    case True
    then obtain p z where p: "rc1 = WOk" "pg = Some (p, z)" by blast
    define w2 where "w2 = (if i - z = 1 then set_hash_page w1 ?h (zero_page ?h) else w1)"
    define w3 where "w3 = (if aPgno (hash_page_at w2 ?h) ! (i - z - 1) \<noteq> 0 then walCleanupHash env w2 else w2)"
    have "same_file w w2" using w1 by (simp add: w2_def)
    moreover have "same_file w2 w3" by (simp add: w3_def)
    ultimately have w3: "same_file w w3" by (rule same_file_trans)
    have run: "walIndexAppend env w i k = (case append_probe (aHash (hash_page_at w3 ?h)) (i - z) (walHash k) of
        None \<Rightarrow> (WCorrupt, w3)
      | Some iKey \<Rightarrow> (WOk, set_hash_page w3 ?h \<lparr>aPgno = (aPgno (hash_page_at w3 ?h))[i - z - 1 := k],
           aHash = (aHash (hash_page_at w3 ?h))[iKey := (i - z) mod 65536]\<rparr>))"
      unfolding walIndexAppend_def g p prod.case wal_rc.case option.case Let_def w3_def w2_def by (rule refl)
    show ?thesis
      using assms w3 unfolding run by (cases "append_probe (aHash (hash_page_at w3 ?h)) (i - z) (walHash k)") auto
  qed
qed

text \<open>What is known of the state after the frames \<open>frs\<close> have been recovered.\<close>

definition commit_size :: "frame list \<Rightarrow> u32" where
  "commit_size frs = (if last_commit frs = 0 then 0 else fst (snd (frs ! (last_commit frs - 1))))"

definition commit_ck :: "bool \<Rightarrow> u32 \<times> u32 \<Rightarrow> frame list \<Rightarrow> u32 \<times> u32" where
  "commit_ck big ck0 frs = (if last_commit frs = 0 then (0, 0) else log_ck big ck0 (take (last_commit frs) frs))"

definition recovered :: "bool \<Rightarrow> bytes \<Rightarrow> nat \<Rightarrow> u32 \<times> u32 \<Rightarrow> Wal \<Rightarrow> frame list \<Rightarrow> bool" where
  "recovered big salt sz ck0 w frs \<longleftrightarrow> wal_rep w (List.map fst frs) \<and> szPage w = sz \<and> bigEndCksum (hdr w) = big
     \<and> aSalt (hdr w) = salt \<and> aFrameCksum (hdr w) = log_ck big ck0 frs \<and> mxFrame (hdr w) = last_commit frs
     \<and> hdr_nPage (hdr w) = commit_size frs \<and> (0 < last_commit frs \<longrightarrow> hdr_szPage (hdr w) = szPage16 sz)"

lemma log_ck_snoc: "log_ck big ck0 (frs @ [f]) = frame_ck big (log_ck big ck0 frs) f"
  by (simp add: log_ck_def)

lemma commit_snoc:
  "commit_size (frs @ [(pg, n, d)]) = (if n = 0 then commit_size frs else n)"
  "commit_ck big ck0 (frs @ [(pg, n, d)]) = (if n = 0 then commit_ck big ck0 frs else log_ck big ck0 (frs @ [(pg, n, d)]))"
  using last_commit_le [of frs] by (auto simp: commit_size_def commit_ck_def nth_append)

lemma chain_step:
  assumes "sz + 24 \<le> length X"
  shows "valid_frames big salt sz ck X =
    (let h = take 24 X; f = (get4 h 0, get4 h 4, take sz (drop 24 X)) in
     if get4 h 0 \<noteq> 0 \<and> h @ take sz (drop 24 X) = enc_frame salt (frame_ck big ck f) f
     then f # valid_frames big salt sz (frame_ck big ck f) (drop (sz + 24) X) else [])"
proof -
  have X: "X = take 24 X @ drop 24 X" by simp
  have g: "get4 X 0 = get4 (take 24 X) 0" "get4 X 4 = get4 (take 24 X) 4"
    using get4_append1 [of 0 "take 24 X" "drop 24 X"] get4_append1 [of 4 "take 24 X" "drop 24 X"] assms by simp_all
  have t: "take (sz + 24) X = take 24 X @ take sz (drop 24 X)" by (metis take_add add.commute)
  show ?thesis using assms unfolding valid_frames.simps [of big salt sz ck X] g t
    by (simp add: Let_def wal_frame_ok_def)
qed

lemma append_recovered:
  assumes rec: "recovered big salt sz ck0 w frs" and env: "env_ok env" and f: "fst f \<noteq> 0"
    and k: "seg_zero k \<le> length frs" "length frs < seg_zero (Suc k)" "k < length (apWiData w)" "apWiData w ! k \<noteq> None"
  defines "w1 \<equiv> w\<lparr>hdr := (hdr w)\<lparr>aFrameCksum := frame_ck big (log_ck big ck0 frs) f\<rparr>\<rparr>"
  obtains w2 where "walIndexAppend env w1 (Suc (length frs)) (fst f) = (WOk, w2)" "hdr w2 = hdr w1" "szPage w2 = sz"
    "wal_rep w2 (List.map fst (frs @ [f]))" "k < length (apWiData w2)" "apWiData w2 ! k \<noteq> None"
proof -
  have rep: "wal_rep w1 (List.map fst frs)"
    using rec unfolding recovered_def w1_def by (auto intro: wal_rep_fields)
  have kp: "walFramePage (Suc (length frs)) = k" by (rule walFramePageI) (use k in auto)
  obtain p where p: "apWiData w1 ! k = Some p" using k(4) by (auto simp: w1_def)
  have "fst (walHashGet env w1 k) = WOk"
    using k(3) p by (simp add: walHashGet_def walIndexPage_def w1_def)
  then obtain w2 where a: "walIndexAppend env w1 (Suc (length frs)) (fst f) = (WOk, w2)" "hdr w2 = hdr w1"
    "wal_rep w2 (List.map fst frs @ [fst f])"
    using append_refines [OF rep env f] kp by auto
  have "walFramePage (length (List.map fst frs @ [fst f])) = k" using kp by simp
  then have "k < length (apWiData w2) \<and> apWiData w2 ! k \<noteq> None" using wal_repD(4) [OF a(3), of k] by auto
  moreover have "szPage w2 = sz" using walIndexAppend_fields [OF a(1)] rec by (simp add: w1_def recovered_def same_file_def)
  ultimately show thesis using that a by simp
qed

text \<open>One turn of the loop over the frames.\<close>

lemma recover_frame:
  assumes os: "os_quiet os" and env: "env_ok env" and sz: "0 < sz" "8 dvd sz" and salt: "length salt = 8"
    and log: "log_file fs = H @ bs" "length H = 32"
    and rec: "recovered big salt sz ck0 w frs" and X: "X = drop (length frs * (sz + 24)) bs" "sz + 24 \<le> length X"
    and k: "seg_zero k \<le> length frs" "length frs < seg_zero (Suc k)" "k < length (apWiData w)" "apWiData w ! k \<noteq> None"
  shows "case valid_frames big salt sz (log_ck big ck0 frs) X of
      [] \<Rightarrow> \<exists>ck'. recover_frames (Suc n) os env be (Suc (length frs)) WOk w fs ck
        = (WOk, w\<lparr>hdr := (hdr w)\<lparr>aFrameCksum := ck'\<rparr>\<rparr>, fs\<lparr>nCall := Suc (nCall fs)\<rparr>, ck, Suc (length frs))
    | f # fs' \<Rightarrow> valid_frames big salt sz (log_ck big ck0 (frs @ [f])) (drop (sz + 24) X) = fs' \<and>
       (\<exists>w'. (ck = commit_ck big ck0 frs \<longrightarrow> recover_frames (Suc n) os env be (Suc (length frs)) WOk w fs ck
           = recover_frames n os env be (Suc (length (frs @ [f]))) WOk w' (fs\<lparr>nCall := Suc (nCall fs)\<rparr>) (commit_ck big ck0 (frs @ [f])))
         \<and> recovered big salt sz ck0 w' (frs @ [f]) \<and> k < length (apWiData w') \<and> apWiData w' ! k \<noteq> None)"
proof -
  define h where "h = take 24 X"
  define d where "d = take sz (drop 24 X)"
  define f where "f = (get4 h 0, get4 h 4, d)"
  define ck1 where "ck1 = frame_ck big (log_ck big ck0 frs) f"
  have w: "szPage w = sz" "bigEndCksum (hdr w) = big" "aSalt (hdr w) = salt" "aFrameCksum (hdr w) = log_ck big ck0 frs"
    using rec by (simp_all add: recovered_def)
  have len: "length h = 24" "length d = sz" using X(2) by (simp_all add: h_def d_def)
  have off: "walFrameOffset (Suc (length frs)) sz = length H + length frs * (sz + 24)"
    using log(2) by (simp add: walFrameOffset_def WAL_HDRSIZE_def WAL_FRAME_HDRSIZE_def)
  have e: "take (sz + 24) X = h @ d" unfolding h_def d_def by (metis take_add add.commute)
  have fit: "length frs * (sz + 24) + (sz + 24) \<le> length bs" using X by simp
  have r: "os_read os Log fs (sz + WAL_FRAME_HDRSIZE) (walFrameOffset (Suc (length frs)) sz) = (WOk, h @ d, fs\<lparr>nCall := Suc (nCall fs)\<rparr>)"
    unfolding off using fit log by (subst read_quiet [OF os]) (simp_all add: WAL_FRAME_HDRSIZE_def X(1) e [symmetric])
  have dec: "if get4 h 0 \<noteq> 0 \<and> h @ d = enc_frame salt ck1 f
    then walDecodeFrame be w d h = (Some (get4 h 0, get4 h 4), w\<lparr>hdr := (hdr w)\<lparr>aFrameCksum := ck1\<rparr>\<rparr>)
    else \<exists>ck'. walDecodeFrame be w d h = (None, w\<lparr>hdr := (hdr w)\<lparr>aFrameCksum := ck'\<rparr>\<rparr>)"
    using walDecodeFrame_ok [of h w d be] len salt sz unfolding w f_def ck1_def by blast
  have ch: "valid_frames big salt sz (log_ck big ck0 frs) X = (if get4 h 0 \<noteq> 0 \<and> h @ d = enc_frame salt ck1 f
     then f # valid_frames big salt sz ck1 (drop (sz + 24) X) else [])"
    by (subst chain_step [OF X(2)]) (simp add: Let_def h_def d_def f_def ck1_def)
  have hd: "drop WAL_FRAME_HDRSIZE (h @ d) = d" "take WAL_FRAME_HDRSIZE (h @ d) = h" using len by (simp_all add: WAL_FRAME_HDRSIZE_def)
  show ?thesis
  proof (cases "get4 h 0 \<noteq> 0 \<and> h @ d = enc_frame salt ck1 f")
    case False
    then obtain ck' where "walDecodeFrame be w d h = (None, w\<lparr>hdr := (hdr w)\<lparr>aFrameCksum := ck'\<rparr>\<rparr>)" using dec by auto
    then have "recover_frames (Suc n) os env be (Suc (length frs)) WOk w fs ck
        = (WOk, w\<lparr>hdr := (hdr w)\<lparr>aFrameCksum := ck'\<rparr>\<rparr>, fs\<lparr>nCall := Suc (nCall fs)\<rparr>, ck, Suc (length frs))"
      unfolding recover_frames.simps w(1) Let_def r using hd by simp
    then show ?thesis unfolding ch if_not_P [OF False] list.case by blast
  next
    case True
    have f0: "fst f \<noteq> 0" using True by (simp add: f_def)
    let ?w1 = "w\<lparr>hdr := (hdr w)\<lparr>aFrameCksum := ck1\<rparr>\<rparr>"
    have dw: "walDecodeFrame be w d h = (Some (get4 h 0, get4 h 4), ?w1)" using dec True by simp
    obtain w2 where a: "walIndexAppend env ?w1 (Suc (length frs)) (fst f) = (WOk, w2)" "hdr w2 = hdr ?w1" "szPage w2 = sz"
      "wal_rep w2 (List.map fst (frs @ [f]))" "k < length (apWiData w2)" "apWiData w2 ! k \<noteq> None"
      by (rule append_recovered [OF rec env f0 k, folded ck1_def])
    define w3 where "w3 = (if get4 h 4 \<noteq> 0 then w2\<lparr>hdr := (hdr w2)\<lparr>mxFrame := Suc (length frs), hdr_nPage := get4 h 4,
        hdr_szPage := szPage16 sz\<rparr>\<rparr> else w2)"
    have run: "recover_frames (Suc n) os env be (Suc (length frs)) WOk w fs ck
       = recover_frames n os env be (Suc (length (frs @ [f]))) WOk w3 (fs\<lparr>nCall := Suc (nCall fs)\<rparr>)
           (if get4 h 4 \<noteq> 0 then aFrameCksum (hdr w3) else ck)"
      unfolding recover_frames.simps w(1) Let_def r using a(1) dw hd by (auto simp: f_def w3_def Let_def)
    have lc: "log_ck big ck0 (frs @ [f]) = ck1" by (simp add: log_ck_snoc ck1_def)
    have "wal_rep w3 (List.map fst (frs @ [f]))"
    proof (cases "get4 h 4 \<noteq> 0")
      case True
      have "wal_rep (w2\<lparr>hdr := (hdr w2)\<lparr>mxFrame := length (List.map fst (frs @ [f]))\<rparr>\<rparr>) (List.map fst (frs @ [f]))"
        by (rule wal_rep_frames [OF a(4)])
      then show ?thesis by (rule wal_rep_fields) (use True in \<open>simp_all add: w3_def\<close>)
    qed (use a(4) in \<open>simp add: w3_def\<close>)
    then have rec3: "recovered big salt sz ck0 w3 (frs @ [f])"
      using rec a(2,3) lc commit_snoc(1) [of frs "get4 h 0" "get4 h 4" d]
      by (auto simp: recovered_def w3_def f_def)
    have "ck = commit_ck big ck0 frs \<longrightarrow> (if get4 h 4 \<noteq> 0 then aFrameCksum (hdr w3) else ck) = commit_ck big ck0 (frs @ [f])"
      using rec3 commit_snoc(2) [of big ck0 frs "get4 h 0" "get4 h 4" d] by (auto simp: recovered_def f_def)
    moreover have "k < length (apWiData w3) \<and> apWiData w3 ! k \<noteq> None" using a(5,6) by (simp add: w3_def)
    ultimately show ?thesis unfolding ch if_P [OF True] using run rec3 lc by auto
  qed
qed

lemma recover_frames_ok:
  assumes os: "os_quiet os" and env: "env_ok env" and sz: "0 < sz" "8 dvd sz" and salt: "length salt = 8"
    and bs: "length H = 32"
  shows "\<lbrakk> log_file fs = H @ bs; recovered big salt sz ck0 w frs; (length frs + n) * (sz + 24) \<le> length bs;
     seg_zero k \<le> length frs; length frs + n \<le> seg_zero (Suc k); k < length (apWiData w); apWiData w ! k \<noteq> None;
     rest = valid_frames big salt sz (log_ck big ck0 frs) (drop (length frs * (sz + 24)) bs) \<rbrakk>
   \<Longrightarrow> \<exists>w' fs'. recover_frames n os env be (Suc (length frs)) WOk w fs (commit_ck big ck0 frs)
       = (WOk, w', fs', commit_ck big ck0 (frs @ take n rest), Suc (length frs) + min n (length rest))
     \<and> wal_rep w' (List.map fst (frs @ take n rest)) \<and> log_file fs' = log_file fs
     \<and> (n \<le> length rest \<longrightarrow> recovered big salt sz ck0 w' (frs @ take n rest))
     \<and> (\<exists>ck'. recovered big salt sz ck0 (w'\<lparr>hdr := (hdr w')\<lparr>aFrameCksum := ck'\<rparr>\<rparr>) (frs @ take n rest))
     \<and> valid_frames big salt sz (log_ck big ck0 (frs @ take n rest)) (drop (length (frs @ take n rest) * (sz + 24)) bs) = drop n rest
     \<and> k < length (apWiData w') \<and> apWiData w' ! k \<noteq> None"
proof (induction n arbitrary: w fs frs rest)
  case 0
  then have "\<exists>ck'. recovered big salt sz ck0 (w\<lparr>hdr := (hdr w)\<lparr>aFrameCksum := ck'\<rparr>\<rparr>) frs"
    by (intro exI [of _ "aFrameCksum (hdr w)"]) simp
  then show ?case using 0 by (auto simp: recovered_def)
next
  case (Suc n)
  define X where "X = drop (length frs * (sz + 24)) bs"
  have X: "sz + 24 \<le> length X" using Suc.prems(3) by (simp add: X_def algebra_simps)
  note one = recover_frame [OF os env sz salt Suc.prems(1) bs Suc.prems(2) X_def X Suc.prems(4) _ Suc.prems(6,7),
      of n be "commit_ck big ck0 frs"]
  have lt: "length frs < seg_zero (Suc k)" using Suc.prems(5) by simp
  show ?case
  proof (cases rest)
    case Nil
    then obtain ck' where r: "recover_frames (Suc n) os env be (Suc (length frs)) WOk w fs (commit_ck big ck0 frs)
        = (WOk, w\<lparr>hdr := (hdr w)\<lparr>aFrameCksum := ck'\<rparr>\<rparr>, fs\<lparr>nCall := Suc (nCall fs)\<rparr>, commit_ck big ck0 frs, Suc (length frs))"
      using one [OF lt] Suc.prems(8) by (auto simp: X_def)
    have "recovered big salt sz ck0 (w\<lparr>hdr := (hdr w)\<lparr>aFrameCksum := log_ck big ck0 frs\<rparr>\<rparr>) frs"
      using Suc.prems(2) by (auto simp: recovered_def intro: wal_rep_fields)
    then have "\<exists>ck'. recovered big salt sz ck0 (w\<lparr>hdr := (hdr w)\<lparr>aFrameCksum := ck'\<rparr>\<rparr>) frs" by blast
    moreover have "wal_rep (w\<lparr>hdr := (hdr w)\<lparr>aFrameCksum := ck'\<rparr>\<rparr>) (List.map fst frs)"
      using Suc.prems(2) by (auto simp: recovered_def intro: wal_rep_fields)
    ultimately show ?thesis using r Nil Suc.prems(6,7,8) by (auto simp: X_def)
  next
    case (Cons f rest')
    let ?frs = "frs @ [f]" and ?fs = "fs\<lparr>nCall := Suc (nCall fs)\<rparr>"
    have c: "valid_frames big salt sz (log_ck big ck0 frs) X = f # rest'" using Cons Suc.prems(8) by (simp add: X_def)
    obtain w1 where w1: "recover_frames (Suc n) os env be (Suc (length frs)) WOk w fs (commit_ck big ck0 frs)
          = recover_frames n os env be (Suc (length ?frs)) WOk w1 ?fs (commit_ck big ck0 ?frs)"
      "recovered big salt sz ck0 w1 ?frs" "k < length (apWiData w1)" "apWiData w1 ! k \<noteq> None"
      and r': "rest' = valid_frames big salt sz (log_ck big ck0 ?frs) (drop (sz + 24) X)"
      using one [OF lt] unfolding c list.case by blast
    have d: "drop (sz + 24) X = drop (length ?frs * (sz + 24)) bs" by (simp add: X_def algebra_simps)
    have IH: "\<exists>w' fs'. recover_frames n os env be (Suc (length ?frs)) WOk w1 ?fs (commit_ck big ck0 ?frs)
       = (WOk, w', fs', commit_ck big ck0 (?frs @ take n rest'), Suc (length ?frs) + min n (length rest'))
     \<and> wal_rep w' (List.map fst (?frs @ take n rest')) \<and> log_file fs' = log_file ?fs
     \<and> (n \<le> length rest' \<longrightarrow> recovered big salt sz ck0 w' (?frs @ take n rest'))
     \<and> (\<exists>ck'. recovered big salt sz ck0 (w'\<lparr>hdr := (hdr w')\<lparr>aFrameCksum := ck'\<rparr>\<rparr>) (?frs @ take n rest'))
     \<and> valid_frames big salt sz (log_ck big ck0 (?frs @ take n rest')) (drop (length (?frs @ take n rest') * (sz + 24)) bs) = drop n rest'
     \<and> k < length (apWiData w') \<and> apWiData w' ! k \<noteq> None"
      by (rule Suc.IH [OF _ w1(2) _ _ _ w1(3,4)]) (use Suc.prems r' d in auto)
    have a: "frs @ take (Suc n) rest = ?frs @ take n rest'" "drop (Suc n) rest = drop n rest'"
      "Suc (length frs) + min (Suc n) (length rest) = Suc (length ?frs) + min n (length rest')"
      "Suc n \<le> length rest \<longleftrightarrow> n \<le> length rest'" "log_file ?fs = log_file fs" using Cons by simp_all
    show ?thesis unfolding w1(1) a using IH unfolding a(5) .
  qed
qed


lemma walIndexPage_maps:
  assumes "wal_rep w fs" "env_maps env"
  obtains w' p where "walIndexPage env w k = (WOk, w', Some p)" "wal_rep w' fs" "hdr w' = hdr w" "same_file w w'"
    "k < length (apWiData w')"
proof -
  obtain rc w' pg where g: "walHashGet env w k = (rc, w', pg)" "wal_rep w' fs" "hdr w' = hdr w"
    "rc = WOk \<longrightarrow> (\<exists>p. pg = Some (p, seg_zero k) \<and> k < length (apWiData w') \<and> apWiData w' ! k = Some p \<and> sized k p)"
    by (rule walHashGet_keeps [OF assms(1) env_maps_ok [OF assms(2)]])
  obtain q where q: "realloc_ok env k" "malloc_ok env k" "shm_map env k = (WOk, Some q)"
    using assms(2) unfolding env_maps_def by blast
  obtain p where p: "walIndexPage env w k = (WOk, w', Some p)"
  proof (cases "length (apWiData w) \<le> k \<or> apWiData w ! k = None")
    case True
    then have "fst (walIndexPage env w k) = WOk \<and> snd (snd (walIndexPage env w k)) \<noteq> None"
      using q by (auto simp: walIndexPage_def walIndexPageRealloc_def Let_def)
    then obtain w1 p where "walIndexPage env w k = (WOk, w1, Some p)" by (metis option.exhaust prod.collapse)
    moreover from this have "w1 = w'" using g(1) by (simp add: walHashGet_def)
    ultimately show thesis using that by blast
  next
    case False
    then obtain p where "walIndexPage env w k = (WOk, w, Some p)" by (auto simp: walIndexPage_def)
    moreover from this have "w = w'" using g(1) by (simp add: walHashGet_def)
    ultimately show thesis using that by blast
  qed
  have "rc = WOk" using g(1) p by (simp add: walHashGet_def)
  then show thesis using that [OF p g(2,3) walIndexPage_fields [OF p]] g(4) by blast
qed

text \<open>The loop over the pages of the index finds the frames of the file.\<close>

lemma recover_pages_ok:
  assumes os: "os_quiet os" and env: "env_maps env" and sz: "0 < sz" "8 dvd sz" and salt: "length salt = 8"
    and bs: "length H = 32" and fresh: "\<And>k. sized k (fresh k)"
    and last: "iLast = length bs div (sz + 24)"
  shows "\<lbrakk> log_file fs = H @ bs; recovered big salt sz ck0 w frs; length frs = min iLast (seg_zero k); k + m = walFramePage iLast + 1;
     rest = valid_frames big salt sz (log_ck big ck0 frs) (drop (length frs * (sz + 24)) bs) \<rbrakk>
   \<Longrightarrow> \<exists>w' fs' ck'. recover_pages m os env be fresh iLast k WOk w fs (commit_ck big ck0 frs)
       = (WOk, w', fs', commit_ck big ck0 (frs @ rest)) \<and> log_file fs' = log_file fs
     \<and> wal_rep w' (List.map fst (frs @ rest)) \<and> recovered big salt sz ck0 (w'\<lparr>hdr := (hdr w')\<lparr>aFrameCksum := ck'\<rparr>\<rparr>) (frs @ rest)"
proof (induction m arbitrary: k w fs frs rest)
  case 0
  have "seg_zero (walFramePage iLast) < iLast \<or> iLast = 0" using walFramePage_bounds [of iLast] by auto
  then have full: "length frs = iLast" using 0 walFramePage_bounds [of iLast] by (cases "iLast = 0") auto
  have "length bs < (iLast + 1) * (sz + 24)" unfolding last by (metis Suc_eq_plus1 add_gr_0 dividend_less_div_times mult_Suc zero_less_numeral add.commute)
  then have "length (drop (length frs * (sz + 24)) bs) < sz + 24" using full by simp
  then have "rest = []" using 0(5) by (subst (asm) valid_frames.simps) simp
  moreover have "\<exists>ck'. recovered big salt sz ck0 (w\<lparr>hdr := (hdr w)\<lparr>aFrameCksum := ck'\<rparr>\<rparr>) frs"
    using 0(2) by (intro exI [of _ "aFrameCksum (hdr w)"]) simp
  ultimately show ?case using 0 by (auto simp: recovered_def)
next
  case (Suc m)
  have rep: "wal_rep w (List.map fst frs)" using Suc.prems(2) by (simp add: recovered_def)
  obtain w1 p where w1: "walIndexPage env w k = (WOk, w1, Some p)" "wal_rep w1 (List.map fst frs)" "hdr w1 = hdr w" "same_file w w1"
    "k < length (apWiData w1)" by (rule walIndexPage_maps [OF rep env])
  let ?w2 = "set_hash_page w1 k (fresh k)"
  have kl: "k \<le> walFramePage iLast" using Suc.prems(4) by simp
  have zk: "seg_zero k \<le> iLast"
    using seg_zero_mono [OF kl] walFramePage_bounds [of iLast] by (cases "iLast = 0") (auto simp: walFramePage_eq seg_simps)
  then have len: "length frs = seg_zero k" using Suc.prems(3) by simp
  define n where "n = min iLast (seg_zero (Suc k)) - seg_zero k"
  have segs: "HASHTABLE_NPAGE_ONE + k * HASHTABLE_NPAGE = seg_zero (Suc k)"
    "(if k = 0 then 0 else HASHTABLE_NPAGE_ONE + (k - 1) * HASHTABLE_NPAGE) = seg_zero k"
    by (simp_all add: seg_zero_def)
  have r2: "wal_rep ?w2 (List.map fst frs)" using w1(2,5) len fresh by (intro wal_rep_fresh) simp_all
  have rec2: "recovered big salt sz ck0 ?w2 frs"
    using r2 Suc.prems(2) w1(3,4) by (simp add: recovered_def set_hash_page_def same_file_def)
  have m2: "k < length (apWiData ?w2)" "apWiData ?w2 ! k \<noteq> None" using w1(5) by (simp_all add: set_hash_page_def)
  have z: "seg_zero k + n = min iLast (seg_zero (Suc k))" using zk seg_zero_mono [of k "Suc k"] by (simp add: n_def)
  then have fit: "(length frs + n) * (sz + 24) \<le> length bs"
    using len last by (metis div_times_less_eq_dividend min.cobounded1 mult_le_mono1 order_trans)
  have up: "length frs + n \<le> seg_zero (Suc k)" using z len by simp
  obtain w3 fs3 where f: "recover_frames n os env be (Suc (length frs)) WOk ?w2 fs (commit_ck big ck0 frs)
       = (WOk, w3, fs3, commit_ck big ck0 (frs @ take n rest), Suc (length frs) + min n (length rest))"
     "wal_rep w3 (List.map fst (frs @ take n rest))" "log_file fs3 = log_file fs"
     "n \<le> length rest \<longrightarrow> recovered big salt sz ck0 w3 (frs @ take n rest)"
     "\<exists>ck'. recovered big salt sz ck0 (w3\<lparr>hdr := (hdr w3)\<lparr>aFrameCksum := ck'\<rparr>\<rparr>) (frs @ take n rest)"
     "valid_frames big salt sz (log_ck big ck0 (frs @ take n rest)) (drop (length (frs @ take n rest) * (sz + 24)) bs) = drop n rest"
     "k < length (apWiData w3)" "apWiData w3 ! k \<noteq> None"
    using recover_frames_ok [OF os env_maps_ok [OF env] sz salt bs Suc.prems(1) rec2 fit _ up m2 Suc.prems(5), of be] len by auto
  obtain q where q: "apWiData w3 ! k = Some q" using f(8) by blast
  then have "(apWiData w3)[k := Some q] = apWiData w3" by (metis list_update_id)
  then have same: "set_hash_page w3 k (hash_page_at w3 k) = w3" using q by (simp add: set_hash_page_def hash_page_at_def)
  have run: "recover_pages (Suc m) os env be fresh iLast k WOk w fs (commit_ck big ck0 frs) =
      (if Suc (length frs) + min n (length rest) \<le> min iLast (seg_zero (Suc k))
       then (WOk, w3, fs3, commit_ck big ck0 (frs @ take n rest))
       else recover_pages m os env be fresh iLast (k + 1) WOk w3 fs3 (commit_ck big ck0 (frs @ take n rest)))"
    unfolding recover_pages.simps w1(1) prod.case option.case segs Let_def
    using f(1) len same by (simp add: n_def)
  show ?case
  proof (cases "length rest < n")
    case True
    then have "seg_zero k + length rest < min iLast (seg_zero (Suc k))" unfolding z [symmetric] by simp
    then have "Suc (length frs) + min n (length rest) \<le> min iLast (seg_zero (Suc k))" using True len by simp
    then show ?thesis unfolding run using f(2,3,5) True by auto
  next
    case False
    then have c: "\<not> Suc (length frs) + min n (length rest) \<le> min iLast (seg_zero (Suc k))" using z len by simp
    have l': "length (frs @ take n rest) = min iLast (seg_zero (Suc k))" using False z len by simp
    have k': "Suc k + m = walFramePage iLast + 1" using Suc.prems(4) by simp
    have rec3: "recovered big salt sz ck0 w3 (frs @ take n rest)" using f(4) False by simp
    have "log_file fs3 = H @ bs" using f(3) Suc.prems(1) by simp
    from Suc.IH [OF this rec3 l' k' f(6) [symmetric]] show ?thesis
      unfolding run if_not_P [OF c] using f(3) by simp
  qed
qed


text \<open>The header of a log and its checksum.\<close>

definition log_header24 :: "bool \<Rightarrow> nat \<Rightarrow> u32 \<Rightarrow> bytes \<Rightarrow> bytes" where
  "log_header24 big sz nck salt = sqlite3Put4byte (WAL_MAGIC OR of_bool big) @ sqlite3Put4byte WAL_MAX_VERSION
     @ sqlite3Put4byte (word_of_nat sz) @ sqlite3Put4byte nck @ salt"

definition hdr_ck :: "bool \<Rightarrow> nat \<Rightarrow> u32 \<Rightarrow> bytes \<Rightarrow> u32 \<times> u32" where
  "hdr_ck big sz nck salt = ck_spec big (log_header24 big sz nck salt) (0, 0)"

definition log_header :: "bool \<Rightarrow> nat \<Rightarrow> u32 \<Rightarrow> bytes \<Rightarrow> bytes" where
  "log_header big sz nck salt = log_header24 big sz nck salt
     @ sqlite3Put4byte (fst (hdr_ck big sz nck salt)) @ sqlite3Put4byte (snd (hdr_ck big sz nck salt))"

definition page_size :: "nat \<Rightarrow> bool" where
  "page_size sz \<longleftrightarrow> (\<exists>k. 9 \<le> k \<and> k \<le> 16 \<and> sz = 2 ^ k)"

lemma page_sizeD:
  assumes "page_size sz"
  shows "512 \<le> sz" "sz \<le> 65536" "8 dvd sz" "sz AND (sz - 1) = 0" "unat (word_of_nat sz :: u32) = sz"
proof -
  obtain k where k: "9 \<le> k" "k \<le> 16" "sz = 2 ^ k" using assms by (auto simp: page_size_def)
  have "(2 :: nat) ^ 9 \<le> 2 ^ k" "(2 :: nat) ^ k \<le> 2 ^ 16" 
    using power_increasing [OF k(1), of "2 :: nat"] power_increasing [OF k(2), of "2 :: nat"] by simp_all
  then show l: "512 \<le> sz" "sz \<le> 65536" by (simp_all add: k(3))
  have "(2 :: nat) ^ 3 dvd 2 ^ k" using k(1) by (intro le_imp_power_dvd) simp
  then show "8 dvd sz" by (simp add: k(3))
  have "sz AND (sz - 1) = take_bit k sz" by (simp add: k(3) take_bit_eq_mask mask_eq_exp_minus_1)
  also have "\<dots> = 0" by (simp add: k(3))
  finally show "sz AND (sz - 1) = 0" .
  show "unat (word_of_nat sz :: u32) = sz" using l by (simp add: unat_of_nat take_bit_eq_mod)
qed

lemma log_header_fields:
  fixes big nck
  assumes "length salt = 8" "page_size sz"
  defines "H \<equiv> log_header big sz nck salt"
  shows "length H = 32" "get4 H 0 = WAL_MAGIC OR of_bool big" "get4 H 4 = WAL_MAX_VERSION" "unat (get4 H 8) = sz"
    "get4 H 12 = nck" "take 8 (drop 16 H) = salt" "take 24 H = log_header24 big sz nck salt"
    "get4 H 24 = fst (hdr_ck big sz nck salt)" "get4 H 28 = snd (hdr_ck big sz nck salt)"
proof -
  let ?m = "sqlite3Put4byte (WAL_MAGIC OR of_bool big)" and ?v = "sqlite3Put4byte WAL_MAX_VERSION"
    and ?z = "sqlite3Put4byte (word_of_nat sz)" and ?n = "sqlite3Put4byte nck"
  show "length H = 32" "take 8 (drop 16 H) = salt" "take 24 H = log_header24 big sz nck salt"
    using assms(1) by (simp_all add: H_def log_header_def log_header24_def)
  show "get4 H 0 = WAL_MAGIC OR of_bool big"
    using get4_append [of "[]" 0 "WAL_MAGIC OR of_bool big"] by (simp add: H_def log_header_def log_header24_def)
  show "get4 H 4 = WAL_MAX_VERSION"
    using get4_append [of ?m 4 WAL_MAX_VERSION] by (simp add: H_def log_header_def log_header24_def)
  show "unat (get4 H 8) = sz"
    using get4_append [of "?m @ ?v" 8 "word_of_nat sz"] page_sizeD(5) [OF assms(2)] by (simp add: H_def log_header_def log_header24_def)
  show "get4 H 12 = nck"
    using get4_append [of "?m @ ?v @ ?z" 12 nck] by (simp add: H_def log_header_def log_header24_def)
  show "get4 H 24 = fst (hdr_ck big sz nck salt)"
    using get4_append [of "?m @ ?v @ ?z @ ?n @ salt" 24 "fst (hdr_ck big sz nck salt)"] assms(1)
    by (simp add: H_def log_header_def log_header24_def)
  show "get4 H 28 = snd (hdr_ck big sz nck salt)"
    using get4_append [of "?m @ ?v @ ?z @ ?n @ salt @ sqlite3Put4byte (fst (hdr_ck big sz nck salt))" 28
      "snd (hdr_ck big sz nck salt)" "[]"] assms(1)
    by (simp add: H_def log_header_def log_header24_def)
qed

lemma magic_fields: "(WAL_MAGIC OR of_bool big) AND 0xFFFFFFFE = WAL_MAGIC" "odd (WAL_MAGIC OR of_bool big) = big"
  by (cases big; simp add: WAL_MAGIC_def)+

lemma recover_log_ok:
  assumes os: "os_quiet os" and env: "env_maps env" and sz: "page_size sz" and salt: "length salt = 8"
    and fresh: "\<And>k. sized k (fresh k)" and rep: "wal_rep w []" and z: "hdr w = zero_hdr"
    and log: "log_file fs = log_header big sz nck salt @ bs"
  defines "frs \<equiv> valid_frames big salt sz (hdr_ck big sz nck salt) bs"
  shows "\<exists>w' fs' ck'. recover_log os env be fresh True (length (log_file fs)) w fs
      = (WOk, w', fs', commit_ck big (hdr_ck big sz nck salt) frs) \<and> log_file fs' = log_file fs
     \<and> wal_rep w' (List.map fst frs)
     \<and> recovered big salt sz (hdr_ck big sz nck salt) (w'\<lparr>hdr := (hdr w')\<lparr>aFrameCksum := ck'\<rparr>\<rparr>) frs"
proof -
  let ?H = "log_header big sz nck salt" and ?ck0 = "hdr_ck big sz nck salt" and ?fs = "fs\<lparr>nCall := Suc (nCall fs)\<rparr>"
  note H = log_header_fields [OF salt sz, of big nck] and p = page_sizeD [OF sz]
  have rd: "os_read os Log fs WAL_HDRSIZE 0 = (WOk, ?H, ?fs)"
    using H(1) log by (subst read_quiet [OF os]) (simp_all add: WAL_HDRSIZE_def)
  have ckb: "walChecksumBytes be (big = be) ?H (WAL_HDRSIZE - 2 * 4) None = ?ck0"
    using walChecksumBytes_ok [of 24 ?H be big None] H(1,7) by (simp add: WAL_HDRSIZE_def hdr_ck_def)
  define w1 where "w1 = w\<lparr>szPage := sz, nCkpt := nck, hdr := zero_hdr\<lparr>bigEndCksum := big, aSalt := salt, aFrameCksum := ?ck0\<rparr>\<rparr>"
  let ?last = "length bs div (sz + 24)"
  have run: "recover_log os env be fresh True (length (log_file fs)) w fs
      = recover_pages (walFramePage ?last + 1) os env be fresh ?last 0 WOk w1 ?fs (0, 0)"
    unfolding recover_log_def rd prod.case Let_def H(2-6,8,9) magic_fields
    using p z ckb log H(1) by (simp add: WAL_HDRSIZE_def WAL_FRAME_HDRSIZE_def w1_def)
  have rec: "recovered big salt sz ?ck0 w1 []"
    using rep by (simp add: recovered_def w1_def zero_hdr_def wal_rep_def log_ck_def commit_size_def)
  have c0: "(0, 0) = commit_ck big ?ck0 []" by (simp add: commit_ck_def)
  have "\<exists>w' fs' ck'. recover_pages (walFramePage ?last + 1) os env be fresh ?last 0 WOk w1 ?fs (commit_ck big ?ck0 [])
       = (WOk, w', fs', commit_ck big ?ck0 ([] @ frs)) \<and> log_file fs' = log_file ?fs
     \<and> wal_rep w' (List.map fst ([] @ frs))
     \<and> recovered big salt sz ?ck0 (w'\<lparr>hdr := (hdr w')\<lparr>aFrameCksum := ck'\<rparr>\<rparr>) ([] @ frs)"
    by (rule recover_pages_ok [OF os env _ p(3) salt H(1) fresh refl _ rec])
      (use p log in \<open>simp_all add: seg_simps frs_def log_ck_def\<close>)
  then show ?thesis unfolding run c0 by simp
qed

lemma recover_marks_ok:
  assumes "os_quiet os"
  shows "\<exists>info' fs'. recover_marks n os mx i WOk info fs = (WOk, info', fs') \<and> log_file fs' = log_file fs
    \<and> nBackfill info' = nBackfill info \<and> nBackfillAttempted info' = nBackfillAttempted info"
proof (induction n arbitrary: i info fs)
  case (Suc n)
  let ?info = "info\<lparr>aReadMark := (aReadMark info)[i := if i = 1 \<and> mx \<noteq> 0 then mx else READMARK_NOT_USED]\<rparr>"
  show ?case using Suc [of "i + 1" ?info "fs\<lparr>nCall := Suc (nCall fs)\<rparr>"] by (simp add: call_quiet [OF assms] Let_def)
qed simp

lemma walIndexRecover_ok:
  assumes "os_quiet os" "env_maps env" "page_size sz" "length salt = 8" "\<forall>k. sized k (fresh k)"
    "wal_rep (w\<lparr>hdr := zero_hdr\<rparr>) []" "log_file fs = log_header big sz nck salt @ bs" "bs \<noteq> []"
  shows "\<exists>w' info' fs'. walIndexRecover os env be fresh True w info fs = (WOk, w', info', fs')
    \<and> log_file fs' = log_file fs \<and> live w' = hdr w' \<and> nBackfill info' = 0
    \<and> wal_rep w' (List.map fst (valid_frames big salt sz (hdr_ck big sz nck salt) bs))
    \<and> mxFrame (hdr w') = last_commit (valid_frames big salt sz (hdr_ck big sz nck salt) bs)
    \<and> hdr_nPage (hdr w') = commit_size (valid_frames big salt sz (hdr_ck big sz nck salt) bs)
    \<and> aFrameCksum (hdr w') = commit_ck big (hdr_ck big sz nck salt) (valid_frames big salt sz (hdr_ck big sz nck salt) bs)
    \<and> (0 < mxFrame (hdr w') \<longrightarrow> hdr_szPage (hdr w') = szPage16 sz)"
proof -
  let ?frs = "valid_frames big salt sz (hdr_ck big sz nck salt) bs" and ?w = "w\<lparr>hdr := zero_hdr\<rparr>"
  let ?fs1 = "fs\<lparr>nCall := Suc (nCall fs)\<rparr>" and ?fs2 = "fs\<lparr>nCall := Suc (Suc (nCall fs))\<rparr>"
  have log: "log_file ?fs2 = log_header big sz nck salt @ bs" using assms(7) by simp
  have c: "os_call os fs = (WOk, ?fs1)" "os_file_size os Log ?fs1 = (WOk, length (log_file ?fs2), ?fs2)"
    by (simp_all add: call_quiet [OF assms(1)] os_file_size_def)
  have long: "WAL_HDRSIZE < length (log_file ?fs2)"
    using log_header_fields(1) [OF assms(4,3), of big nck] assms(7,8) by (simp add: WAL_HDRSIZE_def)
  have fresh: "\<And>k. sized k (fresh k)" using assms(5) by blast
  obtain w' fs' ck' where r: "recover_log os env be fresh True (length (log_file ?fs2)) ?w ?fs2
      = (WOk, w', fs', commit_ck big (hdr_ck big sz nck salt) ?frs)" "log_file fs' = log_file ?fs2"
    "wal_rep w' (List.map fst ?frs)" "recovered big salt sz (hdr_ck big sz nck salt) (w'\<lparr>hdr := (hdr w')\<lparr>aFrameCksum := ck'\<rparr>\<rparr>) ?frs"
    using recover_log_ok [OF assms(1,2,3,4) fresh assms(6) _ log, where be = be] by auto
  define w2 where "w2 = walIndexWriteHdr be (w'\<lparr>hdr := (hdr w')\<lparr>aFrameCksum := commit_ck big (hdr_ck big sz nck salt) ?frs\<rparr>\<rparr>)"
  have w2: "live w2 = hdr w2" "mxFrame (hdr w2) = last_commit ?frs" "hdr_nPage (hdr w2) = commit_size ?frs"
    "aFrameCksum (hdr w2) = commit_ck big (hdr_ck big sz nck salt) ?frs" "wal_rep w2 (List.map fst ?frs)"
    "0 < last_commit ?frs \<longrightarrow> hdr_szPage (hdr w2) = szPage16 sz"
    using r(3,4) by (auto simp: w2_def walIndexWriteHdr_def Let_def recovered_def intro: wal_rep_fields)
  let ?info = "info\<lparr>nBackfill := 0, nBackfillAttempted := mxFrame (hdr w2), aReadMark := (aReadMark info)[0 := 0]\<rparr>"
  obtain info' fs'' where m: "recover_marks (WAL_NREADER - 1) os (mxFrame (hdr w2)) 1 WOk ?info fs' = (WOk, info', fs'')"
    "log_file fs'' = log_file fs'" "nBackfill info' = 0"
    using recover_marks_ok [OF assms(1), of "WAL_NREADER - 1" "mxFrame (hdr w2)" 1 ?info fs'] by auto
  have "walIndexRecover os env be fresh True w info fs = (WOk, w2, info', fs'')"
    unfolding walIndexRecover_def c prod.case Let_def if_P [OF long] r(1) w2_def [symmetric] m(1) by simp
  then show ?thesis using w2 m(2,3) r(2) by (intro exI [of _ w2] exI [of _ info'] exI [of _ fs'']) simp
qed

lemma walIndexRecover_short:
  assumes "os_quiet os" "wal_rep (w\<lparr>hdr := zero_hdr\<rparr>) []" "length (log_file fs) \<le> 32"
  shows "\<exists>w' info' fs'. walIndexRecover os env be fresh True w info fs = (WOk, w', info', fs')
    \<and> log_file fs' = log_file fs \<and> live w' = hdr w' \<and> wal_rep w' [] \<and> mxFrame (hdr w') = 0"
proof -
  let ?fs1 = "fs\<lparr>nCall := Suc (nCall fs)\<rparr>" and ?fs2 = "fs\<lparr>nCall := Suc (Suc (nCall fs))\<rparr>"
  have c: "os_call os fs = (WOk, ?fs1)" "os_file_size os Log ?fs1 = (WOk, length (log_file fs), ?fs2)"
    by (simp_all add: call_quiet [OF assms(1)] os_file_size_def)
  have n: "\<not> WAL_HDRSIZE < length (log_file fs)" using assms(3) by (simp add: WAL_HDRSIZE_def)
  define w2 where "w2 = walIndexWriteHdr be ((w\<lparr>hdr := zero_hdr\<rparr>)\<lparr>hdr := (hdr (w\<lparr>hdr := zero_hdr\<rparr>))\<lparr>aFrameCksum := (0, 0)\<rparr>\<rparr>)"
  have w2: "live w2 = hdr w2" "mxFrame (hdr w2) = 0" by (simp_all add: w2_def walIndexWriteHdr_def Let_def zero_hdr_def)
  have rep: "wal_rep w2 []" using assms(2)
    by (rule wal_rep_fields) (simp_all add: w2_def walIndexWriteHdr_def Let_def zero_hdr_def)
  let ?info = "info\<lparr>nBackfill := 0, nBackfillAttempted := mxFrame (hdr w2), aReadMark := (aReadMark info)[0 := 0]\<rparr>"
  obtain info' fs' where m: "recover_marks (WAL_NREADER - 1) os (mxFrame (hdr w2)) 1 WOk ?info ?fs2 = (WOk, info', fs')"
    "log_file fs' = log_file ?fs2"
    using recover_marks_ok [OF assms(1), of "WAL_NREADER - 1" "mxFrame (hdr w2)" 1 ?info ?fs2] by auto
  have "walIndexRecover os env be fresh True w info fs = (WOk, w2, info', fs')"
    unfolding walIndexRecover_def c prod.case Let_def if_not_P [OF n] w2_def [symmetric] m(1) by simp
  then show ?thesis using w2 rep m(2) by (intro exI [of _ w2] exI [of _ info'] exI [of _ fs']) simp
qed

text \<open>
  C4. Recovery after a crash: on a log with a valid header, whatever bytes follow it,
  \<^verbatim>\<open>walIndexRecover\<close> rebuilds the index of exactly the frames up to the first that is not valid,
  makes the last commit among them the end of the log, with its database size and its
  checksum, publishes that header, and starts with nothing backfilled.
\<close>

theorem recover_to_last_commit:
  assumes "os_quiet os" "env_maps env" "page_size sz" "length salt = 8" "\<forall>k. sized k (fresh k)"
    "wal_rep (w\<lparr>hdr := zero_hdr\<rparr>) []" "log_file fs = log_header big sz nck salt @ bs" "bs \<noteq> []"
  shows "\<exists>w' info' fs'. walIndexRecover os env be fresh True w info fs = (WOk, w', info', fs')
    \<and> log_file fs' = log_file fs \<and> live w' = hdr w' \<and> nBackfill info' = 0
    \<and> wal_rep w' (List.map fst (valid_frames big salt sz (hdr_ck big sz nck salt) bs))
    \<and> mxFrame (hdr w') = last_commit (valid_frames big salt sz (hdr_ck big sz nck salt) bs)
    \<and> hdr_nPage (hdr w') = commit_size (valid_frames big salt sz (hdr_ck big sz nck salt) bs)
    \<and> aFrameCksum (hdr w') = commit_ck big (hdr_ck big sz nck salt) (valid_frames big salt sz (hdr_ck big sz nck salt) bs)
    \<and> (0 < mxFrame (hdr w') \<longrightarrow> hdr_szPage (hdr w') = szPage16 sz)"
  by (rule walIndexRecover_ok [OF assms])

definition quiet_os :: wal_os where
  "quiet_os = \<lparr>os_err = (\<lambda>_. None), os_junk = (\<lambda>_. []), os_wrote = (\<lambda>_. 0), os_other = (\<lambda>_ s. s)\<rparr>"

definition mapping_env :: wal_env where
  "mapping_env = \<lparr>realloc_ok = (\<lambda>_. True), malloc_ok = (\<lambda>_. True), shm_map = (\<lambda>k. (WOk, Some (zero_page k)))\<rparr>"

lemma example_os: "os_quiet quiet_os" "env_maps mapping_env" "page_size 512"
  by (simp_all add: os_quiet_def quiet_os_def env_maps_def mapping_env_def zero_sized page_size_def)
    (rule exI [of _ 9], simp)

theorem recover_to_last_commit_witness:
  "\<exists>w' info' fs'. walIndexRecover quiet_os mapping_env False zero_page True example_wal
      \<lparr>nBackfill = 0, nBackfillAttempted = 0, aReadMark = replicate 5 0\<rparr>
      \<lparr>log_file = log_header False 512 0 (replicate 8 0)
         @ enc_frames False (replicate 8 0) (hdr_ck False 512 0 (replicate 8 0)) [(7, 0, replicate 512 1), (8, 2, replicate 512 1)] @ [0],
       db_file = [], nCall = 0\<rparr> = (WOk, w', info', fs') \<and> mxFrame (hdr w') = 2 \<and> hdr_nPage (hdr w') = 2 \<and> wal_rep w' [7, 8]"
proof -
  let ?s = "replicate 8 0 :: bytes" and ?frs = "[(7, 0, replicate 512 1), (8, 2, replicate 512 1)] :: frame list"
  let ?ck = "hdr_ck False 512 0 ?s"
  let ?bs = "enc_frames False ?s ?ck ?frs @ [0]"
  have "valid_frames False ?s 512 (log_ck False ?ck ?frs) [0] = []" by (subst valid_frames.simps) simp
  then have c: "valid_frames False ?s 512 ?ck ?bs = ?frs"
    by (subst chain_enc) (simp_all add: wal_frame_ok_def)
  have l: "last_commit ?frs = 2" "commit_size ?frs = 2" by (simp_all add: last_commit_def commit_size_def)
  have "wal_rep (example_wal\<lparr>hdr := zero_hdr\<rparr>) []" by (simp add: wal_rep_def example_wal_def zero_hdr_def)
  then show ?thesis
    using recover_to_last_commit [OF example_os, of ?s zero_page example_wal "\<lparr>log_file = log_header False 512 0 ?s @ ?bs,
       db_file = [], nCall = 0\<rparr>" False 0 ?bs False "\<lparr>nBackfill = 0, nBackfillAttempted = 0, aReadMark = replicate 5 0\<rparr>"]
      zero_sized unfolding c l by auto
qed

end
