(* ===== verification/WalWriteM.thy ===== *)
theory WalWriteM
  imports WalFileM
begin

text \<open>
  Writing to the log (\<^verbatim>\<open>wal.c\<close> part of \<^verbatim>\<open>sqlite3.c\<close>): \<^verbatim>\<open>walFrames\<close> with everything it
  calls, from the read mark of a writer that restarts the log to the checksums that are rewritten
  after a page has been overwritten within its transaction. The list of dirty pages is a list of
  page numbers and contents.
\<close>

section \<open>Definitions\<close>

text \<open>
  The start and the end of a write transaction; the bits of the field \<^verbatim>\<open>readOnly\<close> are the argument
  (\<^verbatim>\<open>WAL_RDONLY\<close>, which never changes) and \<^const>\<open>shm_rdonly\<close>.
\<close>

definition SQLITE_BUSY_SNAPSHOT :: wal_rc where "SQLITE_BUSY_SNAPSHOT = WErr 517"

definition sqlite3WalBeginWriteTransaction :: "wal_os \<Rightarrow> bool \<Rightarrow> Wal \<Rightarrow> wal_files \<Rightarrow> wal_rc \<times> Wal \<times> wal_files" where
  "sqlite3WalBeginWriteTransaction os readOnly pWal fs =
     (if readOnly \<or> shm_rdonly pWal then (WReadonly, pWal, fs)
      else (let (rc, fs) = os_call os fs in
        if rc \<noteq> WOk then (rc, pWal, fs)
        else if hdr pWal \<noteq> live pWal then (SQLITE_BUSY_SNAPSHOT, pWal\<lparr>writeLock := False\<rparr>, fs)
        else (WOk, pWal\<lparr>writeLock := True\<rparr>, fs)))"

definition sqlite3WalEndWriteTransaction :: "Wal \<Rightarrow> Wal" where
  "sqlite3WalEndWriteTransaction pWal =
     (if writeLock pWal then pWal\<lparr>writeLock := False, iReCksum := 0, truncateOnCommit := False\<rparr> else pWal)"

definition sqlite3WalDbsize :: "Wal option \<Rightarrow> u32" where
  "sqlite3WalDbsize pWal = (case pWal of Some w \<Rightarrow> if readLock w \<ge> 0 then hdr_nPage (hdr w) else 0 | None \<Rightarrow> 0)"

definition store_salt :: "bool \<Rightarrow> bytes \<Rightarrow> u32 \<Rightarrow> bytes" where
  "store_salt be salt salt1 = sqlite3Put4byte (1 + get4 salt 0) @ store32 be salt1"

definition walRestartHdr :: "bool \<Rightarrow> Wal \<Rightarrow> WalCkptInfo \<Rightarrow> u32 \<Rightarrow> Wal \<times> WalCkptInfo" where
  "walRestartHdr be pWal pInfo salt1 =
     (let pWal = pWal\<lparr>nCkpt := nCkpt pWal + 1,
            hdr := (hdr pWal)\<lparr>mxFrame := 0, aSalt := store_salt be (aSalt (hdr pWal)) salt1\<rparr>\<rparr>;
          pWal = walIndexWriteHdr be pWal;
          pInfo = pInfo\<lparr>nBackfill := 0, nBackfillAttempted := 0,
            aReadMark := (aReadMark pInfo)[1 := 0, 2 := READMARK_NOT_USED, 3 := READMARK_NOT_USED, 4 := READMARK_NOT_USED]\<rparr>
      in (pWal, pInfo))"

text \<open>
  \<^verbatim>\<open>walTryBeginRead\<close> for a writer (\<^verbatim>\<open>useWal\<close> is 1), from the choice of the read mark on.
  \<^term>\<open>None\<close> is \<^verbatim>\<open>WAL_RETRY\<close>.
\<close>

definition WAL_RETRY_PROTOCOL_LIMIT :: nat where "WAL_RETRY_PROTOCOL_LIMIT = 100"
definition SQLITE_PROTOCOL :: wal_rc where "SQLITE_PROTOCOL = WErr 15"
definition SQLITE_READONLY_CANTINIT :: wal_rc where "SQLITE_READONLY_CANTINIT = WReadonlyExt 5"

text \<open>The largest mark that is not above \<^verbatim>\<open>mxFrame\<close>, and its number.\<close>

primrec scan_marks :: "nat \<Rightarrow> nat list \<Rightarrow> nat \<Rightarrow> nat \<Rightarrow> nat \<times> nat \<Rightarrow> nat \<times> nat" where
  "scan_marks 0 marks mx i best = best"
| "scan_marks (Suc n) marks mx i best =
     (let thisMark = marks ! i
      in scan_marks n marks mx (i + 1) (if fst best \<le> thisMark \<and> thisMark \<le> mx then (thisMark, i) else best))"

text \<open>A call that leaves the shared memory to other processes: taking or giving back a lock, or sleeping.\<close>

definition shm_call :: "wal_os \<Rightarrow> Wal \<Rightarrow> WalCkptInfo \<Rightarrow> wal_files \<Rightarrow> wal_rc \<times> Wal \<times> WalCkptInfo \<times> wal_files" where
  "shm_call os pWal pInfo fs =
     (let (rc, fs') = os_call os fs; (pInfo, h) = os_other os (nCall fs) (pInfo, live pWal)
      in (rc, pWal\<lparr>live := h\<rparr>, pInfo, fs'))"

text \<open>The same when the code ignores the result.\<close>

definition shm_void :: "wal_os \<Rightarrow> Wal \<Rightarrow> WalCkptInfo \<Rightarrow> wal_files \<Rightarrow> Wal \<times> WalCkptInfo \<times> wal_files" where
  "shm_void os pWal pInfo fs = snd (shm_call os pWal pInfo fs)"

text \<open>Sets the first mark whose lock is free; \<^term>\<open>None\<close> when all are busy.\<close>

primrec set_mark :: "nat \<Rightarrow> wal_os \<Rightarrow> nat \<Rightarrow> nat \<Rightarrow> wal_rc \<Rightarrow> Wal \<Rightarrow> WalCkptInfo \<Rightarrow> wal_files
    \<Rightarrow> wal_rc \<times> nat option \<times> Wal \<times> WalCkptInfo \<times> wal_files" where
  "set_mark 0 os mx i rc pWal pInfo fs = (rc, None, pWal, pInfo, fs)"
| "set_mark (Suc n) os mx i rc pWal pInfo fs =
     (let (rc, pWal, pInfo, fs) = shm_call os pWal pInfo fs in
      if rc = WOk
      then (let (pWal, pInfo, fs) = shm_void os pWal (pInfo\<lparr>aReadMark := (aReadMark pInfo)[i := mx]\<rparr>) fs
            in (rc, Some i, pWal, pInfo, fs))
      else if rc \<noteq> SQLITE_BUSY then (rc, None, pWal, pInfo, fs)
      else set_mark n os mx (i + 1) rc pWal pInfo fs)"

definition busy_code :: "wal_rc \<Rightarrow> bool" where
  "busy_code rc = (case rc of WErr e \<Rightarrow> e mod 256 = 5 | _ \<Rightarrow> False)"

text \<open>The start of an attempt: from the sixth on it sleeps, after the hundredth it gives up.\<close>

definition retry_pause :: "wal_os \<Rightarrow> nat \<Rightarrow> Wal \<Rightarrow> WalCkptInfo \<Rightarrow> wal_files
    \<Rightarrow> wal_rc option \<times> Wal \<times> WalCkptInfo \<times> wal_files" where
  "retry_pause os pCnt pWal pInfo fs =
     (if pCnt > 5
      then (if pCnt > WAL_RETRY_PROTOCOL_LIMIT then (Some SQLITE_PROTOCOL, pWal, pInfo, fs)
            else (None, shm_void os pWal pInfo fs))
      else (None, pWal, pInfo, fs))"

text \<open>The choice of a mark, 0 for none, and its value.\<close>

definition choose_mark :: "wal_os \<Rightarrow> Wal \<Rightarrow> WalCkptInfo \<Rightarrow> wal_files
    \<Rightarrow> wal_rc \<times> nat \<times> nat \<times> Wal \<times> WalCkptInfo \<times> wal_files" where
  "choose_mark os pWal pInfo fs =
     (let mx = mxFrame (hdr pWal);
          (mxReadMark, mxI) = scan_marks (WAL_NREADER - 1) (aReadMark pInfo) mx 1 (0, 0)
      in if \<not> shm_rdonly pWal \<and> (mxReadMark < mx \<or> mxI = 0)
         then (let (rc, found, pWal, pInfo, fs) = set_mark (WAL_NREADER - 1) os mx 1 WOk pWal pInfo fs
               in case found of Some i \<Rightarrow> (rc, mx, i, pWal, pInfo, fs) | None \<Rightarrow> (rc, mxReadMark, mxI, pWal, pInfo, fs))
         else (WOk, mxReadMark, mxI, pWal, pInfo, fs))"

text \<open>Taking the lock of the mark \<open>mxI\<close>, and the check that nothing has changed meanwhile.\<close>

definition lock_mark :: "wal_os \<Rightarrow> nat \<Rightarrow> nat \<Rightarrow> Wal \<Rightarrow> WalCkptInfo \<Rightarrow> wal_files
    \<Rightarrow> wal_rc option \<times> Wal \<times> WalCkptInfo \<times> wal_files" where
  "lock_mark os mxReadMark mxI pWal pInfo fs =
     (let (rc, pWal, pInfo, fs) = shm_call os pWal pInfo fs in
      if rc \<noteq> WOk then (if busy_code rc then None else Some rc, pWal, pInfo, fs)
      else (let pWal = pWal\<lparr>minFrame := nBackfill pInfo + 1\<rparr> in
        if aReadMark pInfo ! mxI \<noteq> mxReadMark \<or> live pWal \<noteq> hdr pWal then (None, shm_void os pWal pInfo fs)
        else (Some WOk, pWal\<lparr>readLock := int mxI\<rparr>, pInfo, fs)))"

definition walTryBeginRead :: "wal_os \<Rightarrow> Wal \<Rightarrow> WalCkptInfo \<Rightarrow> wal_files \<Rightarrow> nat
    \<Rightarrow> wal_rc option \<times> Wal \<times> WalCkptInfo \<times> wal_files" where
  "walTryBeginRead os pWal pInfo fs pCnt =
     (let (given_up, pWal, pInfo, fs) = retry_pause os pCnt pWal pInfo fs in
      if given_up \<noteq> None then (given_up, pWal, pInfo, fs)
      else (let (rc, mxReadMark, mxI, pWal, pInfo, fs) = choose_mark os pWal pInfo fs in
        if rc \<noteq> WOk \<and> rc \<noteq> SQLITE_BUSY then (Some rc, pWal, pInfo, fs)
        else if mxI = 0
        then (if rc = SQLITE_BUSY then None else Some SQLITE_READONLY_CANTINIT, pWal, pInfo, fs)
        else lock_mark os mxReadMark mxI pWal pInfo fs))"

lemma retry_limit: "(None, r) = walTryBeginRead os w info fs c \<Longrightarrow> c \<le> 100"
  by (cases "c \<le> 100") (simp_all add: walTryBeginRead_def retry_pause_def WAL_RETRY_PROTOCOL_LIMIT_def)

text \<open>The loop of \<^verbatim>\<open>walRestartLog\<close>; \<open>cnt\<close> is incremented by every attempt.\<close>

function begin_read_loop :: "wal_os \<Rightarrow> Wal \<Rightarrow> WalCkptInfo \<Rightarrow> wal_files \<Rightarrow> nat \<Rightarrow> wal_rc \<times> Wal \<times> WalCkptInfo \<times> wal_files" where
  "begin_read_loop os pWal pInfo fs cnt =
     (case walTryBeginRead os pWal pInfo fs (cnt + 1) of
        (Some rc, pWal, pInfo, fs) \<Rightarrow> (rc, pWal, pInfo, fs)
      | (None, pWal, pInfo, fs) \<Rightarrow> begin_read_loop os pWal pInfo fs (cnt + 1))"
  by pat_completeness auto
termination
  by (relation "measure (\<lambda>(os, w, info, fs, cnt). 101 - cnt)") (auto dest!: retry_limit)

definition walRestartLog :: "wal_os \<Rightarrow> bool \<Rightarrow> u32 \<Rightarrow> Wal \<Rightarrow> WalCkptInfo \<Rightarrow> wal_files \<Rightarrow> wal_rc \<times> Wal \<times> WalCkptInfo \<times> wal_files" where
  "walRestartLog os be salt1 pWal pInfo fs =
     (if readLock pWal \<noteq> 0 then (WOk, pWal, pInfo, fs)
      else (let (rc, pWal, pInfo, fs) =
                  (if nBackfill pInfo > 0
                   then (let (rc, pWal, pInfo, fs) = shm_call os pWal pInfo fs in
                     if rc = WOk
                     then (let (pWal, pInfo) = walRestartHdr be pWal pInfo salt1 in (WOk, shm_void os pWal pInfo fs))
                     else (rc, pWal, pInfo, fs))
                   else (WOk, pWal, pInfo, fs))
            in if rc \<noteq> WOk \<and> rc \<noteq> SQLITE_BUSY then (rc, pWal, pInfo, fs)
               else (let (pWal, pInfo, fs) = shm_void os pWal pInfo fs
                     in begin_read_loop os (pWal\<lparr>readLock := - 1\<rparr>) pInfo fs 0)))"

definition walWriteToLog :: "wal_os \<Rightarrow> nat \<Rightarrow> wal_files \<Rightarrow> bytes \<Rightarrow> nat \<Rightarrow> wal_rc \<times> wal_files" where
  "walWriteToLog os iSyncPoint fs pContent iOffset =
     (if iOffset < iSyncPoint \<and> iOffset + length pContent \<ge> iSyncPoint
      then (let iFirstAmt = iSyncPoint - iOffset;
                (rc, fs) = os_write os Log fs (take iFirstAmt pContent) iOffset
            in if rc \<noteq> WOk then (rc, fs)
               else (let (rc, fs) = os_call os fs in
                 if length pContent - iFirstAmt = 0 \<or> rc \<noteq> WOk then (rc, fs)
                 else os_write os Log fs (drop iFirstAmt pContent) (iOffset + iFirstAmt)))
      else os_write os Log fs pContent iOffset)"

definition walWriteOneFrame :: "wal_os \<Rightarrow> bool \<Rightarrow> nat \<Rightarrow> nat \<Rightarrow> Wal \<Rightarrow> wal_files \<Rightarrow> u32 \<times> bytes \<Rightarrow> u32 \<Rightarrow> nat
    \<Rightarrow> wal_rc \<times> Wal \<times> wal_files" where
  "walWriteOneFrame os be sz iSyncPoint pWal fs = (\<lambda>(pgno, pData) nTruncate iOffset.
     let (aFrame, pWal) = walEncodeFrame be pWal pgno nTruncate pData;
         (rc, fs) = walWriteToLog os iSyncPoint fs aFrame iOffset
     in if rc \<noteq> WOk then (rc, pWal, fs)
        else (let (rc, fs) = walWriteToLog os iSyncPoint fs (take sz pData) (iOffset + WAL_FRAME_HDRSIZE)
              in (rc, pWal, fs)))"

primrec rewrite_loop :: "nat \<Rightarrow> wal_os \<Rightarrow> bool \<Rightarrow> nat \<Rightarrow> wal_rc \<Rightarrow> Wal \<Rightarrow> wal_files \<Rightarrow> nat \<Rightarrow> wal_rc \<times> Wal \<times> wal_files" where
  "rewrite_loop 0 os be sz rc pWal fs iRead = (rc, pWal, fs)"
| "rewrite_loop (Suc n) os be sz rc pWal fs iRead =
     (if rc \<noteq> WOk then (rc, pWal, fs)
      else (let iOff = walFrameOffset iRead sz;
                (rc, aBuf, fs) = os_read os Log fs (sz + WAL_FRAME_HDRSIZE) iOff
            in if rc \<noteq> WOk then (rc, pWal, fs)
               else (let (aFrame, pWal) = walEncodeFrame be pWal (get4 aBuf 0) (get4 aBuf 4) (drop WAL_FRAME_HDRSIZE aBuf);
                         (rc, fs) = os_write os Log fs aFrame iOff
                     in rewrite_loop n os be sz rc pWal fs (iRead + 1))))"

definition walRewriteChecksums :: "wal_os \<Rightarrow> bool \<Rightarrow> bool \<Rightarrow> Wal \<Rightarrow> wal_files \<Rightarrow> nat \<Rightarrow> wal_rc \<times> Wal \<times> wal_files" where
  "walRewriteChecksums os be alloc pWal fs iLast =
     (if \<not> alloc then (WNomem, pWal, fs)
      else (let iCksumOff = (if iReCksum pWal = 1 then 24 else walFrameOffset (iReCksum pWal - 1) (szPage pWal) + 16);
                (rc, aBuf, fs) = os_read os Log fs 8 iCksumOff;
                iRead = iReCksum pWal;
                pWal = pWal\<lparr>hdr := (hdr pWal)\<lparr>aFrameCksum := (get4 aBuf 0, get4 aBuf 4)\<rparr>, iReCksum := 0\<rparr>
            in rewrite_loop (iLast + 1 - iRead) os be (szPage pWal) rc pWal fs iRead))"

definition walLimitSize :: "wal_os \<Rightarrow> wal_files \<Rightarrow> nat \<Rightarrow> wal_files" where
  "walLimitSize os fs nMax =
     (let (rx, sz, fs) = os_file_size os Log fs
      in if rx = WOk \<and> sz > nMax then snd (os_truncate os Log fs nMax) else fs)"

text \<open>The header of a log that starts, and the fields that go with it.\<close>

definition start_log :: "wal_os \<Rightarrow> bool \<Rightarrow> nat \<Rightarrow> bytes \<Rightarrow> Wal \<Rightarrow> wal_files \<Rightarrow> wal_rc \<times> Wal \<times> wal_files" where
  "start_log os be sz random pWal fs =
     (let pWal = (if nCkpt pWal = 0 then pWal\<lparr>hdr := (hdr pWal)\<lparr>aSalt := random\<rparr>\<rparr> else pWal);
          aWalHdr = sqlite3Put4byte (WAL_MAGIC OR of_bool be) @ sqlite3Put4byte WAL_MAX_VERSION
            @ sqlite3Put4byte (word_of_nat sz) @ sqlite3Put4byte (nCkpt pWal) @ aSalt (hdr pWal);
          aCksum = walChecksumBytes be True aWalHdr (WAL_HDRSIZE - 2 * 4) None;
          aWalHdr = aWalHdr @ sqlite3Put4byte (fst aCksum) @ sqlite3Put4byte (snd aCksum);
          pWal = pWal\<lparr>szPage := sz, hdr := (hdr pWal)\<lparr>bigEndCksum := be, aFrameCksum := aCksum\<rparr>, truncateOnCommit := True\<rparr>;
          (rc, fs) = os_write os Log fs aWalHdr 0
      in if rc \<noteq> WOk then (rc, pWal, fs)
         else if syncHeader pWal then (let (rc, fs) = os_call os fs in (rc, pWal, fs))
         else (rc, pWal, fs))"

text \<open>
  The loop over the dirty pages: each is either written over the frame that the transaction has
  for it already, or appended. It answers which pages were appended.
\<close>

primrec write_pages :: "wal_os \<Rightarrow> wal_env \<Rightarrow> bool \<Rightarrow> nat \<Rightarrow> nat \<Rightarrow> bool \<Rightarrow> u32 \<Rightarrow> (u32 \<times> bytes) list \<Rightarrow> Wal \<Rightarrow> wal_files
    \<Rightarrow> nat \<Rightarrow> nat \<Rightarrow> wal_rc \<times> Wal \<times> wal_files \<times> nat \<times> nat \<times> bool list" where
  "write_pages os env be sz iFirst isCommit nTruncate [] pWal fs iFrame iOffset = (WOk, pWal, fs, iFrame, iOffset, [])"
| "write_pages os env be sz iFirst isCommit nTruncate (p # ps) pWal fs iFrame iOffset =
     (let (iWrite, pWal) =
            (if iFirst \<noteq> 0 \<and> (ps \<noteq> [] \<or> \<not> isCommit)
             then (let (rc, pWal, iWrite) = walFindFrame env pWal (fst p) in (iWrite, pWal)) else (0, pWal))
      in if iFirst \<noteq> 0 \<and> (ps \<noteq> [] \<or> \<not> isCommit) \<and> iWrite \<ge> iFirst
         then (let iOff = walFrameOffset iWrite sz + WAL_FRAME_HDRSIZE;
                   pWal = (if iReCksum pWal = 0 \<or> iWrite < iReCksum pWal then pWal\<lparr>iReCksum := iWrite\<rparr> else pWal);
                   (rc, fs) = os_write os Log fs (take sz (snd p)) iOff
               in if rc \<noteq> WOk then (rc, pWal, fs, iFrame, iOffset, [])
                  else (let (rc, pWal, fs, iFrame, iOffset, flags) =
                              write_pages os env be sz iFirst isCommit nTruncate ps pWal fs iFrame iOffset
                        in (rc, pWal, fs, iFrame, iOffset, False # flags)))
         else (let nDbSize = (if isCommit \<and> ps = [] then nTruncate else 0);
                   (rc, pWal, fs) = walWriteOneFrame os be sz 0 pWal fs p nDbSize iOffset
               in if rc \<noteq> WOk then (rc, pWal, fs, iFrame + 1, iOffset, [])
                  else (let (rc, pWal, fs, iFrame, iOffset, flags) =
                              write_pages os env be sz iFirst isCommit nTruncate ps pWal fs (iFrame + 1)
                                (iOffset + (sz + WAL_FRAME_HDRSIZE))
                        in (rc, pWal, fs, iFrame, iOffset, True # flags))))"

text \<open>Copies of the last frame up to a sector boundary.\<close>

function pad_frames :: "wal_os \<Rightarrow> bool \<Rightarrow> nat \<Rightarrow> nat \<Rightarrow> u32 \<times> bytes \<Rightarrow> u32 \<Rightarrow> Wal \<Rightarrow> wal_files \<Rightarrow> nat \<Rightarrow> nat
    \<Rightarrow> wal_rc \<times> Wal \<times> wal_files \<times> nat" where
  "pad_frames os be sz iSyncPoint pLast nTruncate pWal fs iOffset nExtra =
     (if iOffset < iSyncPoint
      then (let r = walWriteOneFrame os be sz iSyncPoint pWal fs pLast nTruncate iOffset
            in if fst r \<noteq> WOk then (fst r, fst (snd r), snd (snd r), nExtra)
               else pad_frames os be sz iSyncPoint pLast nTruncate (fst (snd r)) (snd (snd r))
                      (iOffset + (sz + WAL_FRAME_HDRSIZE)) (nExtra + 1))
      else (WOk, pWal, fs, nExtra))"
  by pat_completeness auto
termination
  by (relation "measure (\<lambda>(os, be, sz, iSyncPoint, p, n, w, fs, iOffset, x). iSyncPoint - iOffset)")
    (auto simp: WAL_FRAME_HDRSIZE_def)

text \<open>
  The end of a commit: padding and syncing. A frame that cannot be written ends \<^verbatim>\<open>walFrames\<close> at
  once, which is the first answer; after a sync that fails it goes on with its error code.
\<close>

definition sync_commit :: "wal_os \<Rightarrow> bool \<Rightarrow> nat \<Rightarrow> nat \<Rightarrow> u32 \<times> bytes \<Rightarrow> u32 \<Rightarrow> bool \<Rightarrow> Wal \<Rightarrow> wal_files \<Rightarrow> nat
    \<Rightarrow> bool \<times> wal_rc \<times> Wal \<times> wal_files \<times> nat" where
  "sync_commit os be sz sectorSize pLast nTruncate sync pWal fs iOffset =
     (if sync
      then (let iSyncPoint = (if padToSectorBoundary pWal then (iOffset + sectorSize - 1) div sectorSize * sectorSize else 0);
                bSync = (\<not> padToSectorBoundary pWal \<or> iSyncPoint = iOffset);
                (rc, pWal, fs, nExtra) = (if padToSectorBoundary pWal
                  then pad_frames os be sz iSyncPoint pLast nTruncate pWal fs iOffset 0 else (WOk, pWal, fs, 0))
            in if rc \<noteq> WOk then (True, rc, pWal, fs, nExtra)
               else if bSync then (let (rc, fs) = os_call os fs in (False, rc, pWal, fs, nExtra))
               else (False, rc, pWal, fs, nExtra))
      else (False, WOk, pWal, fs, 0))"

text \<open>Appending the new frames to the wal-index.\<close>

primrec index_frames :: "wal_env \<Rightarrow> u32 list \<Rightarrow> wal_rc \<Rightarrow> Wal \<Rightarrow> nat \<Rightarrow> wal_rc \<times> Wal \<times> nat" where
  "index_frames env [] rc pWal iFrame = (rc, pWal, iFrame)"
| "index_frames env (k # ks) rc pWal iFrame =
     (if rc \<noteq> WOk then (rc, pWal, iFrame)
      else (let (rc, pWal) = walIndexAppend env pWal (iFrame + 1) k in index_frames env ks rc pWal (iFrame + 1)))"

record frames_arg =
  fa_szPage :: nat
  fa_nTruncate :: u32
  fa_isCommit :: bool
  fa_sync :: bool
  fa_sector :: nat
  fa_random :: bytes
  fa_salt1 :: u32
  fa_alloc :: bool

text \<open>
  The part of \<^verbatim>\<open>walFrames\<close> after the header of the log: the frames, for a commit the checksums,
  the padding and the limit, then the wal-index and its header.
\<close>

definition write_frames :: "wal_os \<Rightarrow> wal_env \<Rightarrow> bool \<Rightarrow> frames_arg \<Rightarrow> (u32 \<times> bytes) list \<Rightarrow> nat \<Rightarrow> Wal \<Rightarrow> wal_files
    \<Rightarrow> wal_rc \<times> Wal \<times> wal_files" where
  "write_frames os env be a pList iFirst pWal fs =
     (let sz = fa_szPage a; iFrame = mxFrame (hdr pWal);
          (rc, pWal, fs, iFrame, iOffset, flags) =
            write_pages os env be sz iFirst (fa_isCommit a) (fa_nTruncate a) pList pWal fs iFrame (walFrameOffset (iFrame + 1) sz)
      in if rc \<noteq> WOk then (rc, pWal, fs)
         else (let (rc, pWal, fs) = (if fa_isCommit a \<and> iReCksum pWal \<noteq> 0
                 then walRewriteChecksums os be (fa_alloc a) pWal fs iFrame else (WOk, pWal, fs))
           in if rc \<noteq> WOk then (rc, pWal, fs)
              else (let (ret, rc, pWal, fs, nExtra) = (if fa_isCommit a
                      then sync_commit os be sz (fa_sector a) (last pList) (fa_nTruncate a) (fa_sync a) pWal fs iOffset
                      else (False, WOk, pWal, fs, 0))
                in if ret then (rc, pWal, fs)
                   else (let (pWal, fs) = (if fa_isCommit a \<and> truncateOnCommit pWal \<and> mxWalSize pWal \<ge> 0
                               then (pWal\<lparr>truncateOnCommit := False\<rparr>,
                                     walLimitSize os fs (max (nat (mxWalSize pWal)) (walFrameOffset (iFrame + nExtra + 1) sz)))
                               else (pWal, fs));
                             pgnos = List.map (fst \<circ> fst) (filter snd (zip pList flags)) @ replicate nExtra (fst (last pList));
                             (rc, pWal, iFrame) = index_frames env pgnos rc pWal (mxFrame (hdr pWal))
                         in if rc \<noteq> WOk then (rc, pWal, fs)
                            else (let h = (hdr pWal)\<lparr>hdr_szPage := szPage16 sz, mxFrame := iFrame\<rparr>;
                                      h = (if fa_isCommit a then h\<lparr>iChange := iChange h + 1, hdr_nPage := fa_nTruncate a\<rparr> else h);
                                      pWal = pWal\<lparr>hdr := h\<rparr>
                                  in (WOk, if fa_isCommit a then (walIndexWriteHdr be pWal)\<lparr>iCallback := iFrame\<rparr> else pWal, fs))))))"

definition walFrames :: "wal_os \<Rightarrow> wal_env \<Rightarrow> bool \<Rightarrow> frames_arg \<Rightarrow> (u32 \<times> bytes) list \<Rightarrow> Wal \<Rightarrow> WalCkptInfo \<Rightarrow> wal_files
    \<Rightarrow> wal_rc \<times> Wal \<times> WalCkptInfo \<times> wal_files" where
  "walFrames os env be a pList pWal pInfo fs =
     (let iFirst = (if hdr pWal \<noteq> live pWal then mxFrame (live pWal) + 1 else 0);
          (rc, pWal, pInfo, fs) = walRestartLog os be (fa_salt1 a) pWal pInfo fs
      in if rc \<noteq> WOk then (rc, pWal, pInfo, fs)
         else (let (rc, pWal, fs) = (if mxFrame (hdr pWal) = 0 then start_log os be (fa_szPage a) (fa_random a) pWal fs
                                     else (WOk, pWal, fs))
               in if rc \<noteq> WOk then (rc, pWal, pInfo, fs)
                  else if szPage pWal \<noteq> fa_szPage a then (WCorrupt, pWal, pInfo, fs)
                  else (let (rc, pWal, fs) = write_frames os env be a pList iFirst pWal fs in (rc, pWal, pInfo, fs))))"

declare begin_read_loop.simps [simp del] pad_frames.simps [simp del]

section \<open>The read mark of a writer\<close>

lemma call_count: "os_call os fs = (rc, fs') \<Longrightarrow> nCall fs' = Suc (nCall fs)"
  by (auto simp: os_call_def)

lemma shm_call_ok:
  "shm_call os w info fs = (rc, w', info', fs') \<Longrightarrow> nCall fs' = Suc (nCall fs) \<and> hdr w' = hdr w \<and> shm_rdonly w' = shm_rdonly w"
  by (auto simp: shm_call_def dest: call_count split: prod.splits)

lemma shm_void_ok:
  "shm_void os w info fs = (w', info', fs') \<Longrightarrow> nCall fs' = Suc (nCall fs) \<and> hdr w' = hdr w \<and> shm_rdonly w' = shm_rdonly w"
  using shm_call_ok [of os w info fs "fst (shm_call os w info fs)"] by (simp add: shm_void_def prod_eq_iff)

lemma set_mark_ok:
  "set_mark n os mx i rc w info fs = (rc', found, w', info', fs') \<Longrightarrow> nCall fs' \<le> nCall fs + n + 1 \<and> hdr w' = hdr w
    \<and> (\<forall>j. found = Some j \<longrightarrow> i \<le> j \<and> j < i + n)"
proof (induction n arbitrary: i rc w info fs)
  case (Suc n)
  obtain r1 w1 info1 fs1 where c: "shm_call os w info fs = (r1, w1, info1, fs1)" by (metis prod_cases4)
  obtain w2 info2 fs2 where v: "shm_void os w1 (info1\<lparr>aReadMark := (aReadMark info1)[i := mx]\<rparr>) fs1 = (w2, info2, fs2)"
    by (metis prod_cases3)
  show ?case
    using Suc.prems Suc.IH [of "i + 1" r1 w1 info1 fs1] shm_call_ok [OF c] shm_void_ok [OF v]
    by (fastforce simp: c v split: if_splits)
qed simp

lemma scan_marks_ok:
  "scan_marks n marks mx i b = (m, j) \<Longrightarrow> snd b < i \<Longrightarrow> fst b \<le> mx \<Longrightarrow> j < i + n \<and> m \<le> mx"
proof (induction n arbitrary: i b)
  case (Suc n)
  let ?b = "if fst b \<le> marks ! i \<and> marks ! i \<le> mx then (marks ! i, i) else b"
  have "scan_marks n marks mx (i + 1) ?b = (m, j)" using Suc.prems(1) by (simp add: Let_def)
  moreover have "snd ?b < i + 1" "fst ?b \<le> mx" using Suc.prems(2,3) by auto
  ultimately show ?case using Suc.IH [of "i + 1" ?b] by simp
qed auto

lemma choose_mark_ok:
  assumes "choose_mark os w info fs = (rc, m, i, w', info', fs')"
  shows "nCall fs' \<le> nCall fs + 5 \<and> hdr w' = hdr w \<and> i < 5 \<and> m \<le> mxFrame (hdr w)"
proof -
  obtain m0 i0 where sm: "scan_marks (WAL_NREADER - 1) (aReadMark info) (mxFrame (hdr w)) 1 (0, 0) = (m0, i0)" by (metis surj_pair)
  have i0: "i0 < 5 \<and> m0 \<le> mxFrame (hdr w)" using scan_marks_ok [OF sm] by (simp add: WAL_NREADER_def)
  obtain r1 found w1 info1 fs1 where st: "set_mark (WAL_NREADER - 1) os (mxFrame (hdr w)) 1 WOk w info fs = (r1, found, w1, info1, fs1)"
    by (metis prod_cases5)
  have "nCall fs1 \<le> nCall fs + 5 \<and> hdr w1 = hdr w \<and> (\<forall>j. found = Some j \<longrightarrow> j < 5)"
    using set_mark_ok [OF st] by (auto simp: WAL_NREADER_def)
  then show ?thesis
    using assms i0 unfolding choose_mark_def Let_def sm prod.case st by (auto split: if_splits option.splits)
qed

lemma lock_mark_ok:
  assumes "lock_mark os m i w info fs = (r, w', info', fs')"
  shows "nCall fs' \<le> nCall fs + 2 \<and> hdr w' = hdr w"
    and "r = Some WOk \<Longrightarrow> live w' = hdr w' \<and> readLock w' = int i \<and> minFrame w' = nBackfill info' + 1 \<and> aReadMark info' ! i = m"
proof -
  obtain r1 w1 info1 fs1 where c: "shm_call os w info fs = (r1, w1, info1, fs1)" by (metis prod_cases4)
  obtain w2 info2 fs2 where v: "shm_void os (w1\<lparr>minFrame := nBackfill info1 + 1\<rparr>) info1 fs1 = (w2, info2, fs2)" by (metis prod_cases3)
  show "nCall fs' \<le> nCall fs + 2 \<and> hdr w' = hdr w"
    using assms shm_call_ok [OF c] shm_void_ok [OF v] by (auto simp: lock_mark_def c v [simplified] Let_def split: if_splits)
  show "live w' = hdr w' \<and> readLock w' = int i \<and> minFrame w' = nBackfill info' + 1 \<and> aReadMark info' ! i = m" if "r = Some WOk"
    using assms that by (auto simp: lock_mark_def c v [simplified] Let_def split: if_splits)
qed

lemma tryBeginRead_ok:
  assumes "walTryBeginRead os w info fs c = (r, w', info', fs')"
  shows "nCall fs' \<le> nCall fs + (if c \<le> 5 then 7 else if c \<le> 100 then 8 else 0)" "hdr w' = hdr w"
    "r = Some WOk \<Longrightarrow> live w' = hdr w' \<and> 0 < readLock w' \<and> readLock w' \<le> 4
     \<and> minFrame w' = nBackfill info' + 1 \<and> aReadMark info' ! nat (readLock w') \<le> mxFrame (hdr w')"
proof -
  obtain g w1 info1 fs1 where p: "retry_pause os c w info fs = (g, w1, info1, fs1)" by (metis prod_cases4)
  have p1: "nCall fs1 = nCall fs + (if c \<le> 5 \<or> 100 < c then 0 else 1) \<and> hdr w1 = hdr w" "g = None \<longleftrightarrow> c \<le> 100" "g \<noteq> Some WOk"
    using p shm_void_ok [of os w info fs] by (auto simp: retry_pause_def WAL_RETRY_PROTOCOL_LIMIT_def SQLITE_PROTOCOL_def split: if_splits)
  obtain rc m i w2 info2 fs2 where q: "choose_mark os w1 info1 fs1 = (rc, m, i, w2, info2, fs2)" by (metis prod_cases6)
  note q1 = choose_mark_ok [OF q]
  obtain r3 w3 info3 fs3 where l: "lock_mark os m i w2 info2 fs2 = (r3, w3, info3, fs3)" by (metis prod_cases4)
  note l1 = lock_mark_ok [OF l]
  have run: "walTryBeginRead os w info fs c = (if g \<noteq> None then (g, w1, info1, fs1)
      else if rc \<noteq> WOk \<and> rc \<noteq> SQLITE_BUSY then (Some rc, w2, info2, fs2)
      else if i = 0 then (if rc = SQLITE_BUSY then None else Some SQLITE_READONLY_CANTINIT, w2, info2, fs2)
      else (r3, w3, info3, fs3))"
    unfolding walTryBeginRead_def Let_def p prod.case q l by simp
  show "nCall fs' \<le> nCall fs + (if c \<le> 5 then 7 else if c \<le> 100 then 8 else 0)" "hdr w' = hdr w"
    using assms p1(1,2) q1 l1(1) unfolding run by (auto split: if_splits)
  show "live w' = hdr w' \<and> 0 < readLock w' \<and> readLock w' \<le> 4 \<and> minFrame w' = nBackfill info' + 1
      \<and> aReadMark info' ! nat (readLock w') \<le> mxFrame (hdr w')" if "r = Some WOk"
    using assms that p1 q1 l1 unfolding run by (auto simp: SQLITE_READONLY_CANTINIT_def split: if_splits)
qed

lemma begin_read_bound:
  "begin_read_loop os w info fs c = (rc, w', info', fs') \<Longrightarrow> nCall fs' \<le> nCall fs + (8 * (100 - c) - (5 - c)) \<and> hdr w' = hdr w
    \<and> (rc = WOk \<longrightarrow> live w' = hdr w' \<and> 0 < readLock w' \<and> readLock w' \<le> 4 \<and> minFrame w' = nBackfill info' + 1
      \<and> aReadMark info' ! nat (readLock w') \<le> mxFrame (hdr w'))"
proof (induction os w info fs c rule: begin_read_loop.induct)
  case (1 os w info fs c)
  obtain r w1 info1 fs1 where t: "walTryBeginRead os w info fs (c + 1) = (r, w1, info1, fs1)" by (metis prod_cases4)
  note k = tryBeginRead_ok [OF t]
  show ?case
  proof (cases r)
    case None
    then have c: "c < 100" using retry_limit [of "(w1, info1, fs1)" os w info fs "c + 1"] t by simp
    have "begin_read_loop os w1 info1 fs1 (c + 1) = (rc, w', info', fs')"
      using "1.prems" None t by (simp add: begin_read_loop.simps [of os w info fs c])
    from "1.IH" [OF t [symmetric] None refl refl this] show ?thesis using k(1,2) c by (auto split: if_splits)
  next
    case (Some r')
    then have e: "(r', w1, info1, fs1) = (rc, w', info', fs')"
      using "1.prems" t by (simp add: begin_read_loop.simps [of os w info fs c])
    show ?thesis using e k Some by (auto split: if_splits)
  qed
qed

text \<open>
  C35. The loop in which a writer that restarts the log takes a read mark always ends, however
  other processes hold the locks and change the marks and the header: after at most 795 calls of
  the system, locks, unlocks and pauses counted. When it succeeds the writer holds one of the marks 1 to 4, and
  when it has the lock the header in the wal-index is its own, the mark is not above its last frame,
  and frames that have been copied to the database are left out.
\<close>

theorem begin_read_ends:
  assumes "begin_read_loop os w info fs 0 = (rc, w', info', fs')"
  shows "nCall fs' \<le> nCall fs + 795 \<and> hdr w' = hdr w
    \<and> (rc = WOk \<longrightarrow> live w' = hdr w' \<and> 0 < readLock w' \<and> readLock w' \<le> 4 \<and> minFrame w' = nBackfill info' + 1
      \<and> aReadMark info' ! nat (readLock w') \<le> mxFrame (hdr w'))"
proof (intro conjI)
  note b = begin_read_bound [OF assms]
  show "nCall fs' \<le> nCall fs + 795" using b by simp
qed (use begin_read_bound [OF assms] in blast)+

text \<open>Another process takes mark 4 over while this one waits for its lock: the second attempt takes mark 3.\<close>

theorem begin_read_ends_witness:
  "\<exists>w' info' fs'. begin_read_loop (quiet_os\<lparr>os_other := \<lambda>n (info, h). (if n = 0 then info\<lparr>aReadMark := [0, 0, 0, 0, 9]\<rparr> else info, h)\<rparr>)
       example_wal \<lparr>nBackfill = 3, nBackfillAttempted = 3, aReadMark = [0, 0, 0, 0, 0]\<rparr>
       \<lparr>log_file = [], db_file = [], nCall = 0\<rparr> 0 = (WOk, w', info', fs')
     \<and> readLock w' = 3 \<and> nCall fs' = 3 \<and> nCall fs' \<le> 795 \<and> minFrame w' = 4"
proof -
  let ?os = "quiet_os\<lparr>os_other := \<lambda>n (info, h). (if n = 0 then info\<lparr>aReadMark := [0, 0, 0, 0, 9]\<rparr> else info, h)\<rparr>"
  let ?info = "\<lparr>nBackfill = 3, nBackfillAttempted = 3, aReadMark = [0, 0, 0, 0, 0]\<rparr> :: WalCkptInfo"
  let ?info' = "?info\<lparr>aReadMark := [0, 0, 0, 0, 9]\<rparr>"
  let ?fs = "\<lparr>log_file = [], db_file = [], nCall = 0\<rparr> :: wal_files"
  let ?w = "example_wal\<lparr>minFrame := 4, readLock := 3\<rparr>" and ?fs' = "\<lparr>log_file = [], db_file = [], nCall = 3\<rparr> :: wal_files"
  note defs = walTryBeginRead_def retry_pause_def choose_mark_def lock_mark_def shm_call_def shm_void_def example_wal_def example_hdr_def
    WAL_NREADER_def os_call_def quiet_os_def Let_def numeral_eq_Suc
  have one: "walTryBeginRead ?os example_wal ?info ?fs 1 = (None, example_wal\<lparr>minFrame := 4\<rparr>, ?info', ?fs\<lparr>nCall := 2\<rparr>)"
    by (simp add: defs)
  have two: "walTryBeginRead ?os (example_wal\<lparr>minFrame := 4\<rparr>) ?info' (?fs\<lparr>nCall := 2\<rparr>) 2 = (Some WOk, ?w, ?info', ?fs')"
    by (simp add: defs)
  have run: "begin_read_loop ?os example_wal ?info ?fs 0 = (WOk, ?w, ?info', ?fs')"
    using one two by (simp add: begin_read_loop.simps [of _ _ _ _ 0] begin_read_loop.simps [of _ _ _ _ "Suc 0"] numeral_2_eq_2)
  show ?thesis using begin_read_ends [OF run] run by (intro exI [of _ ?w] exI [of _ ?info'] exI [of _ ?fs']) (simp add: example_wal_def)
qed

section \<open>Writing to a file\<close>

lemma write_at_mid:
  assumes "q + length c \<le> length B"
  shows "write_at (A @ B @ C) (length A + q) c = A @ (take q B @ c @ drop (q + length c) B) @ C"
proof (cases "c = []")
  case False
  have "length A + q - length (A @ B @ C) = 0" using assms by simp
  then show ?thesis using assms False by (simp add: write_at_def)
qed (simp add: write_at_def)

lemma write_at_end: "c \<noteq> [] \<Longrightarrow> write_at (A @ T) (length A) c = A @ c @ drop (length c) T"
  by (simp add: write_at_def)

lemma write_at_join: "write_at (write_at b off c1) (off + length c1) c2 = write_at b off (c1 @ c2)"
proof (cases "c1 = [] \<or> c2 = []")
  case False
  define P where "P = take off (b @ replicate (off - length b) 0)"
  have l: "length P = off" by (simp add: P_def)
  have s: "write_at b off c = P @ c @ drop (off + length c) b" if "c \<noteq> []" for c using that by (simp add: write_at_def P_def)
  have "write_at ((P @ c1) @ drop (off + length c1) b) (length (P @ c1)) c2 = (P @ c1) @ c2 @ drop (length c2) (drop (off + length c1) b)"
    using False by (intro write_at_end) simp
  then show ?thesis using False by (simp add: s l add.commute add.left_commute)
qed (auto simp: write_at_def)

lemma write_quiet:
  assumes "os_quiet os"
  shows "os_write os Log fs c off = (WOk, fs\<lparr>log_file := write_at (log_file fs) off c, nCall := Suc (nCall fs)\<rparr>)"
  by (simp add: os_write_def call_quiet [OF assms] Let_def)

lemma toLog_quiet:
  assumes "os_quiet os"
  obtains fs' where "walWriteToLog os sp fs c off = (WOk, fs')" "log_file fs' = write_at (log_file fs) off c" "db_file fs' = db_file fs"
proof (cases "off < sp \<and> sp \<le> off + length c")
  case True
  let ?n = "sp - off"
  have l: "length (take ?n c) = ?n" using True by auto
  show thesis
  proof (cases "length c - ?n = 0")
    case True
    then have "walWriteToLog os sp fs c off
        = (WOk, fs\<lparr>log_file := write_at (log_file fs) off c, nCall := Suc (Suc (nCall fs))\<rparr>)"
      using \<open>off < sp \<and> _\<close> by (simp add: walWriteToLog_def write_quiet [OF assms] call_quiet [OF assms] Let_def)
    then show thesis using that by simp
  next
    case False
    have "write_at (write_at (log_file fs) off (take ?n c)) (off + ?n) (drop ?n c) = write_at (log_file fs) off c"
      using write_at_join [of "log_file fs" off "take ?n c" "drop ?n c"] unfolding l by simp
    then have "walWriteToLog os sp fs c off
        = (WOk, fs\<lparr>log_file := write_at (log_file fs) off c, nCall := Suc (Suc (Suc (nCall fs)))\<rparr>)"
      using True False by (simp add: walWriteToLog_def write_quiet [OF assms] call_quiet [OF assms] Let_def)
    then show thesis using that by simp
  qed
next
  case False
  then have "walWriteToLog os sp fs c off = (WOk, fs\<lparr>log_file := write_at (log_file fs) off c, nCall := Suc (nCall fs)\<rparr>)"
    by (auto simp: walWriteToLog_def write_quiet [OF assms])
  then show thesis using that by simp
qed

section \<open>A file of frames\<close>

text \<open>The frame that the bytes of a slot of the file hold, and slots of equal size.\<close>

definition frame_of :: "bytes \<Rightarrow> frame" where
  "frame_of s = (get4 s 0, get4 s 4, drop 24 s)"

definition slots_ok :: "nat \<Rightarrow> bytes list \<Rightarrow> bool" where
  "slots_ok sz ss \<longleftrightarrow> (\<forall>s\<in>set ss. length s = sz + 24)"

lemma slots_length: "slots_ok sz ss \<Longrightarrow> length (concat ss) = length ss * (sz + 24)"
  by (induction ss) (simp_all add: slots_ok_def algebra_simps)

lemma write_at_slot:
  assumes ok: "slots_ok sz ss" and i: "i < length ss" and c: "p + length c \<le> sz + 24"
  shows "write_at (H @ concat ss @ t) (length H + i * (sz + 24) + p) c
    = H @ concat (ss[i := take p (ss ! i) @ c @ drop (p + length c) (ss ! i)]) @ t"
proof -
  let ?A = "H @ concat (take i ss)" and ?C = "concat (drop (Suc i) ss) @ t"
  have e: "H @ concat ss @ t = ?A @ ss ! i @ ?C" using i by (simp add: id_take_nth_drop [of i ss, OF i, THEN arg_cong, of concat])
  have "slots_ok sz (take i ss)" using ok by (auto simp: slots_ok_def dest: in_set_takeD)
  then have l: "length ?A = length H + i * (sz + 24)" using slots_length i by simp
  have "length (ss ! i) = sz + 24" using ok i by (simp add: slots_ok_def)
  then have "write_at (?A @ ss ! i @ ?C) (length ?A + p) c = ?A @ (take p (ss ! i) @ c @ drop (p + length c) (ss ! i)) @ ?C"
    using c by (intro write_at_mid) simp
  then show ?thesis unfolding e l by (simp add: upd_conv_take_nth_drop [OF i])
qed

lemma write_at_new:
  assumes "slots_ok sz ss" "c \<noteq> []"
  shows "write_at (H @ concat ss @ t) (length H + length ss * (sz + 24)) c = H @ concat ss @ c @ drop (length c) t"
  using write_at_end [of c "H @ concat ss" t] slots_length [OF assms(1)] assms(2) by simp

lemma read_slot:
  assumes ok: "slots_ok sz ss" and i: "i < length ss" and c: "p + n \<le> sz + 24" and os: "os_quiet os"
    and log: "log_file fs = H @ concat ss @ t"
  shows "os_read os Log fs n (length H + i * (sz + 24) + p) = (WOk, take n (drop p (ss ! i)), fs\<lparr>nCall := Suc (nCall fs)\<rparr>)"
proof -
  have "slots_ok sz (take i ss)" using ok by (auto simp: slots_ok_def dest: in_set_takeD)
  then have l: "length (concat (take i ss)) = i * (sz + 24)" using slots_length i by simp
  have si: "length (ss ! i) = sz + 24" using ok i by (simp add: slots_ok_def)
  have e: "log_file fs = (H @ concat (take i ss)) @ ss ! i @ concat (drop (Suc i) ss) @ t"
    unfolding log by (simp add: id_take_nth_drop [of i ss, OF i, THEN arg_cong, of concat])
  have "take n (drop (length H + i * (sz + 24) + p) (log_file fs)) = take n (drop p (ss ! i))"
    unfolding e using l si c by simp
  moreover have "length H + i * (sz + 24) + p + n \<le> length (log_file fs)" unfolding e using l si c by simp
  ultimately show ?thesis using read_quiet [OF os, of "length H + i * (sz + 24) + p" n Log fs] by simp
qed

text \<open>The first \<open>m\<close> slots are encoded frames.\<close>

definition enc_upto :: "bool \<Rightarrow> bytes \<Rightarrow> u32 \<times> u32 \<Rightarrow> nat \<Rightarrow> bytes list \<Rightarrow> bool" where
  "enc_upto big salt ck0 m ss \<longleftrightarrow> m \<le> length ss
     \<and> (\<forall>i < m. ss ! i = enc_frame salt (log_ck big ck0 (List.map frame_of (take (Suc i) ss))) (frame_of (ss ! i)))"

lemma frame_of_enc: "length salt = 8 \<Longrightarrow> frame_of (enc_frame salt ck f) = f"
  using enc_frame_fields [of salt ck "fst f" "fst (snd f)" "snd (snd f)" "[]"] by (simp add: frame_of_def)

lemma enc_frames_snoc: "enc_frames big salt ck (fs @ [f]) = enc_frames big salt ck fs @ enc_frame salt (log_ck big ck (fs @ [f])) f"
  by (induction fs arbitrary: ck) (simp_all add: Let_def log_ck_def)

lemma enc_all:
  assumes "enc_upto big salt ck0 m ss"
  shows "concat (take m ss) = enc_frames big salt ck0 (List.map frame_of (take m ss))"
  using assms
proof (induction m)
  case (Suc m)
  have m: "m < length ss" using Suc.prems by (simp add: enc_upto_def)
  have e: "take (Suc m) ss = take m ss @ [ss ! m]" by (rule take_Suc_conv_app_nth [OF m])
  have "enc_upto big salt ck0 m ss" using Suc.prems by (auto simp: enc_upto_def)
  then have IH: "concat (take m ss) = enc_frames big salt ck0 (List.map frame_of (take m ss))" by (rule Suc.IH)
  have "ss ! m = enc_frame salt (log_ck big ck0 (List.map frame_of (take (Suc m) ss))) (frame_of (ss ! m))"
    using Suc.prems by (simp add: enc_upto_def)
  then show ?case unfolding e using IH by (simp add: enc_frames_snoc)
qed simp

text \<open>The state of a connection and its file: a header, slots, and a tail of any bytes.\<close>

definition log_at :: "Wal \<Rightarrow> wal_files \<Rightarrow> bool \<Rightarrow> nat \<Rightarrow> u32 \<Rightarrow> bytes \<Rightarrow> bytes list \<Rightarrow> bytes \<Rightarrow> bool" where
  "log_at w fs big sz nck salt ss t \<longleftrightarrow> page_size sz \<and> length salt = 8 \<and> szPage w = sz \<and> aSalt (hdr w) = salt
     \<and> bigEndCksum (hdr w) = big \<and> slots_ok sz ss \<and> log_file fs = log_header big sz nck salt @ concat ss @ t"

lemma log_atD:
  assumes "log_at w fs big sz nck salt ss t"
  shows "page_size sz" "length salt = 8" "szPage w = sz" "aSalt (hdr w) = salt" "bigEndCksum (hdr w) = big" "slots_ok sz ss"
    "log_file fs = log_header big sz nck salt @ concat ss @ t" "length (log_header big sz nck salt) = 32"
  using assms log_header_fields(1) unfolding log_at_def by auto

lemma encode_slot:
  fixes pg n
  assumes "log_at w fs big sz nck salt ss t" "iReCksum w = 0" "length d = sz"
  defines "ck \<equiv> frame_ck big (aFrameCksum (hdr w)) (pg, n, d)"
  shows "walEncodeFrame be w pg n d = (take 24 (enc_frame salt ck (pg, n, d)), w\<lparr>hdr := (hdr w)\<lparr>aFrameCksum := ck\<rparr>\<rparr>)"
    "take 24 (enc_frame salt ck (pg, n, d)) @ d = enc_frame salt ck (pg, n, d)"
proof -
  note l = log_atD [OF assms(1)] and p = page_sizeD [OF log_atD(1) [OF assms(1)]]
  show "walEncodeFrame be w pg n d = (take 24 (enc_frame salt ck (pg, n, d)), w\<lparr>hdr := (hdr w)\<lparr>aFrameCksum := ck\<rparr>\<rparr>)"
    using walEncodeFrame_ok [of w d be pg n] assms(2,3) l p(1,3) by (simp add: ck_def Let_def)
  show "take 24 (enc_frame salt ck (pg, n, d)) @ d = enc_frame salt ck (pg, n, d)"
    using l(2) by (simp add: enc_frame_def)
qed

text \<open>Putting an encoded frame into a slot keeps what the slot holds.\<close>

lemma put_slot:
  fixes ck
  assumes "slots_ok sz ss" "m < length ss" "length salt = 8" "f = frame_of (ss ! m)"
  defines "ss' \<equiv> ss[m := enc_frame salt ck f]"
  shows "slots_ok sz ss'" "List.map frame_of ss' = List.map frame_of ss"
    "enc_upto big salt ck0 m ss \<Longrightarrow> ck = log_ck big ck0 (List.map frame_of (take (Suc m) ss)) \<Longrightarrow> enc_upto big salt ck0 (Suc m) ss'"
proof -
  have len: "length (ss ! m) = sz + 24" using assms(1,2) by (simp add: slots_ok_def)
  then show "slots_ok sz ss'"
    using assms(1,3,4) by (auto simp: slots_ok_def ss'_def frame_of_def enc_frame_length dest!: set_update_subset_insert [THEN subsetD])
  show e: "List.map frame_of ss' = List.map frame_of ss"
    using assms(2,3,4) by (simp add: ss'_def map_update frame_of_enc) (metis list_update_id nth_map)
  have t: "List.map frame_of (take k ss') = List.map frame_of (take k ss)" for k
    unfolding take_map [symmetric] e ..
  assume u: "enc_upto big salt ck0 m ss" "ck = log_ck big ck0 (List.map frame_of (take (Suc m) ss))"
  have "ss' ! i = enc_frame salt (log_ck big ck0 (List.map frame_of (take (Suc i) ss'))) (frame_of (ss' ! i))" if "i < Suc m" for i
    using that u assms(2,3,4) unfolding t by (cases "i = m") (auto simp: ss'_def frame_of_enc enc_upto_def)
  then show "enc_upto big salt ck0 (Suc m) ss'" using assms(2) by (simp add: enc_upto_def ss'_def)
qed

lemma take_frames_snoc:
  "m < length ss \<Longrightarrow> List.map frame_of (take (Suc m) ss) = List.map frame_of (take m ss) @ [frame_of (ss ! m)]"
  by (simp add: take_Suc_conv_app_nth)

lemma rewrite_loop_ok:
  assumes os: "os_quiet os"
  shows "\<lbrakk> log_at w fs big sz nck salt ss t; iReCksum w = 0; m + n = length ss; enc_upto big salt (hdr_ck big sz nck salt) m ss;
     aFrameCksum (hdr w) = log_ck big (hdr_ck big sz nck salt) (List.map frame_of (take m ss)) \<rbrakk>
   \<Longrightarrow> \<exists>fs' ss'. rewrite_loop n os be sz WOk w fs (Suc m)
       = (WOk, w\<lparr>hdr := (hdr w)\<lparr>aFrameCksum := log_ck big (hdr_ck big sz nck salt) (List.map frame_of ss)\<rparr>\<rparr>, fs')
     \<and> log_file fs' = log_header big sz nck salt @ concat ss' @ t \<and> slots_ok sz ss' \<and> db_file fs' = db_file fs
     \<and> enc_upto big salt (hdr_ck big sz nck salt) (length ss') ss' \<and> List.map frame_of ss' = List.map frame_of ss"
proof (induction n arbitrary: m w fs ss)
  case 0
  have "w\<lparr>hdr := (hdr w)\<lparr>aFrameCksum := aFrameCksum (hdr w)\<rparr>\<rparr> = w" by simp
  then show ?case using 0 log_atD [OF 0(1)] by (intro exI [of _ fs] exI [of _ ss]) simp
next
  case (Suc n)
  note l = log_atD [OF Suc.prems(1)]
  let ?H = "log_header big sz nck salt" and ?ck0 = "hdr_ck big sz nck salt"
  define f where "f = frame_of (ss ! m)"
  define ck where "ck = frame_ck big (aFrameCksum (hdr w)) f"
  have m: "m < length ss" using Suc.prems(3) by simp
  have len: "length (ss ! m) = sz + 24" using l(6) m by (simp add: slots_ok_def)
  have ck: "ck = log_ck big ?ck0 (List.map frame_of (take (Suc m) ss))"
    unfolding take_frames_snoc [OF m] log_ck_snoc by (simp add: ck_def f_def Suc.prems(5))
  have off: "walFrameOffset (Suc m) sz = length ?H + m * (sz + 24) + 0"
    using l(8) by (simp add: walFrameOffset_def WAL_HDRSIZE_def WAL_FRAME_HDRSIZE_def)
  let ?fs1 = "fs\<lparr>nCall := Suc (nCall fs)\<rparr>"
  have rd: "os_read os Log fs (sz + WAL_FRAME_HDRSIZE) (walFrameOffset (Suc m) sz) = (WOk, ss ! m, ?fs1)"
    unfolding off using read_slot [OF l(6) m, of 0 "sz + 24" os fs ?H t] os l(7) len by (simp add: WAL_FRAME_HDRSIZE_def)
  have d: "length (drop WAL_FRAME_HDRSIZE (ss ! m)) = sz" using len by (simp add: WAL_FRAME_HDRSIZE_def)
  let ?e = "enc_frame salt ck f" and ?w1 = "w\<lparr>hdr := (hdr w)\<lparr>aFrameCksum := ck\<rparr>\<rparr>"
  have f: "f = (get4 (ss ! m) 0, get4 (ss ! m) 4, drop WAL_FRAME_HDRSIZE (ss ! m))"
    by (simp add: f_def frame_of_def WAL_FRAME_HDRSIZE_def)
  have enc: "walEncodeFrame be w (get4 (ss ! m) 0) (get4 (ss ! m) 4) (drop WAL_FRAME_HDRSIZE (ss ! m)) = (take 24 ?e, ?w1)"
    "take 24 ?e @ drop 24 (ss ! m) = ?e"
    using encode_slot(1) [OF Suc.prems(1,2) d, where pg = "get4 (ss ! m) 0" and n = "get4 (ss ! m) 4" and be = be]
      encode_slot(2) [OF Suc.prems(1,2) d, where pg = "get4 (ss ! m) 0" and n = "get4 (ss ! m) 4"] unfolding f [symmetric] ck_def [symmetric]
    by (simp_all add: WAL_FRAME_HDRSIZE_def)
  have el: "length (take 24 ?e) = 24" using l(2) by (simp add: f enc_frame_length)
  let ?fs2 = "?fs1\<lparr>log_file := write_at (log_file fs) (walFrameOffset (Suc m) sz) (take 24 ?e), nCall := Suc (Suc (nCall fs))\<rparr>"
  have wr: "os_write os Log ?fs1 (take 24 ?e) (walFrameOffset (Suc m) sz) = (WOk, ?fs2)" by (simp add: write_quiet [OF os])
  let ?ss = "ss[m := ?e]"
  have lg: "log_file ?fs2 = ?H @ concat ?ss @ t"
    unfolding off using write_at_slot [OF l(6) m, of 0 "take 24 ?e" ?H t] el enc(2) l(7) by simp
  note ps = put_slot [OF l(6) m l(2) f_def, where ck = ck]
  have la: "log_at ?w1 ?fs2 big sz nck salt ?ss t" using Suc.prems(1) ps(1) lg by (simp add: log_at_def)
  have step: "rewrite_loop (Suc n) os be sz WOk w fs (Suc m) = rewrite_loop n os be sz WOk ?w1 ?fs2 (Suc (Suc m))"
    using rd enc(1) wr by (simp add: Let_def)
  have tk: "List.map frame_of (take k ?ss) = List.map frame_of (take k ss)" for k
    unfolding take_map [symmetric] ps(2) ..
  have "\<exists>fs' ss'. rewrite_loop n os be sz WOk ?w1 ?fs2 (Suc (Suc m))
       = (WOk, ?w1\<lparr>hdr := (hdr ?w1)\<lparr>aFrameCksum := log_ck big ?ck0 (List.map frame_of ?ss)\<rparr>\<rparr>, fs')
     \<and> log_file fs' = ?H @ concat ss' @ t \<and> slots_ok sz ss' \<and> db_file fs' = db_file ?fs2
     \<and> enc_upto big salt ?ck0 (length ss') ss' \<and> List.map frame_of ss' = List.map frame_of ?ss"
    by (rule Suc.IH [OF la]) (use Suc.prems(2,3) ps(3) [OF Suc.prems(4) ck] ck tk [of "Suc m"] in simp_all)
  then show ?case unfolding step ps(2) by simp
qed

lemma get4_take: "i + 4 \<le> n \<Longrightarrow> n \<le> length p \<Longrightarrow> get4 (take n p) i = get4 p i"
  using get4_append1 [of i "take n p" "drop n p"] by simp

lemma get4_shift: "get4 (drop i p) j = get4 p (i + j)"
  by (simp add: get4_def add.commute)

lemma log_ck_take_0: "log_ck big ck (List.map frame_of (take 0 ss)) = ck"
  by (simp add: log_ck_def)

lemma walRewriteChecksums_ok:
  assumes os: "os_quiet os" and la: "log_at w fs big sz nck salt ss t" and r: "iReCksum w = Suc m" "m < length ss"
    and enc: "enc_upto big salt (hdr_ck big sz nck salt) m ss"
  obtains fs' ss' where "walRewriteChecksums os be True w fs (length ss)
      = (WOk, w\<lparr>hdr := (hdr w)\<lparr>aFrameCksum := log_ck big (hdr_ck big sz nck salt) (List.map frame_of ss)\<rparr>, iReCksum := 0\<rparr>, fs')"
    "log_file fs' = log_header big sz nck salt @ concat ss' @ t" "slots_ok sz ss'" "db_file fs' = db_file fs"
    "enc_upto big salt (hdr_ck big sz nck salt) (length ss') ss'" "List.map frame_of ss' = List.map frame_of ss"
proof -
  note l = log_atD [OF la]
  let ?H = "log_header big sz nck salt" and ?ck0 = "hdr_ck big sz nck salt"
  define cko where "cko = (if iReCksum w = 1 then 24 else walFrameOffset (iReCksum w - 1) (szPage w) + 16)"
  let ?fs1 = "fs\<lparr>nCall := Suc (nCall fs)\<rparr>" and ?cm = "log_ck big ?ck0 (List.map frame_of (take m ss))"
  obtain aBuf where rd: "os_read os Log fs 8 cko = (WOk, aBuf, ?fs1)" "(get4 aBuf 0, get4 aBuf 4) = ?cm"
  proof (cases m)
    case 0
    let ?b = "take 8 (drop 24 ?H)"
    note hf = log_header_fields [OF l(2,1), of big nck]
    have "os_read os Log fs 8 24 = (WOk, take 8 (drop 24 (log_file fs)), ?fs1)"
      using read_quiet [OF os, of 24 8 Log fs] l(7,8) by simp
    moreover have "take 8 (drop 24 (log_file fs)) = ?b" using l(7,8) by simp
    moreover have "get4 ?b 0 = fst ?ck0" "get4 ?b 4 = snd ?ck0"
      using hf(8,9) l(8) by (simp_all add: get4_take get4_shift)
    moreover have "cko = 24" using r(1) 0 by (simp add: cko_def)
    moreover have "?cm = ?ck0" unfolding 0 by (rule log_ck_take_0)
    ultimately show thesis using that [of ?b] by simp
  next
    case (Suc k)
    have k: "k < length ss" using r(2) Suc by simp
    have len: "length (ss ! k) = sz + 24" using l(6) k by (simp add: slots_ok_def)
    have off: "cko = length ?H + k * (sz + 24) + 16"
      using r(1) l(3,8) Suc by (simp add: cko_def walFrameOffset_def WAL_HDRSIZE_def WAL_FRAME_HDRSIZE_def)
    let ?b = "take 8 (drop 16 (ss ! k))"
    have "8 dvd sz" "512 \<le> sz" using page_sizeD [OF l(1)] by simp_all
    then have "os_read os Log fs 8 cko = (WOk, ?b, ?fs1)"
      unfolding off using read_slot [OF l(6) k _ os l(7), of 16 8] by simp
    moreover have e: "ss ! k = enc_frame salt ?cm (frame_of (ss ! k))" using enc Suc by (simp add: enc_upto_def)
    have "get4 (ss ! k) 16 = fst ?cm" "get4 (ss ! k) 20 = snd ?cm"
      using enc_frame_fields(4,5) [OF l(2), of ?cm "fst (frame_of (ss ! k))" "fst (snd (frame_of (ss ! k)))" "snd (snd (frame_of (ss ! k)))" "[]"]
      by (subst e, simp)+
    then have "get4 ?b 0 = fst ?cm" "get4 ?b 4 = snd ?cm" using len by (simp_all add: get4_take get4_shift)
    ultimately show thesis using that [of ?b] by simp
  qed
  let ?w = "w\<lparr>hdr := (hdr w)\<lparr>aFrameCksum := ?cm\<rparr>, iReCksum := 0\<rparr>"
  have la1: "log_at ?w ?fs1 big sz nck salt ss t" using la by (simp add: log_at_def)
  have run: "walRewriteChecksums os be True w fs (length ss) = rewrite_loop (length ss - m) os be sz WOk ?w ?fs1 (Suc m)"
    unfolding walRewriteChecksums_def cko_def [symmetric] using rd r(1) l(3) by (simp add: Let_def)
  have "\<exists>fs' ss'. rewrite_loop (length ss - m) os be sz WOk ?w ?fs1 (Suc m)
       = (WOk, ?w\<lparr>hdr := (hdr ?w)\<lparr>aFrameCksum := log_ck big ?ck0 (List.map frame_of ss)\<rparr>\<rparr>, fs')
     \<and> log_file fs' = ?H @ concat ss' @ t \<and> slots_ok sz ss' \<and> db_file fs' = db_file ?fs1
     \<and> enc_upto big salt ?ck0 (length ss') ss' \<and> List.map frame_of ss' = List.map frame_of ss"
    by (rule rewrite_loop_ok [OF os la1]) (use r(2) enc in simp_all)
  then obtain fs' ss' where x: "rewrite_loop (length ss - m) os be sz WOk ?w ?fs1 (Suc m)
       = (WOk, ?w\<lparr>hdr := (hdr ?w)\<lparr>aFrameCksum := log_ck big ?ck0 (List.map frame_of ss)\<rparr>\<rparr>, fs')"
     "log_file fs' = ?H @ concat ss' @ t" "slots_ok sz ss'" "db_file fs' = db_file ?fs1"
     "enc_upto big salt ?ck0 (length ss') ss'" "List.map frame_of ss' = List.map frame_of ss" by blast
  have "?w\<lparr>hdr := (hdr ?w)\<lparr>aFrameCksum := log_ck big ?ck0 (List.map frame_of ss)\<rparr>\<rparr>
     = w\<lparr>hdr := (hdr w)\<lparr>aFrameCksum := log_ck big ?ck0 (List.map frame_of ss)\<rparr>, iReCksum := 0\<rparr>" by simp
  then show thesis using that [OF _ x(2,3) _ x(5,6)] x(1,4) run by simp
qed

section \<open>Writing pages\<close>

text \<open>What the loop does to the list of frames.\<close>

primrec put_pages :: "nat \<Rightarrow> nat \<Rightarrow> nat \<Rightarrow> bool \<Rightarrow> u32 \<Rightarrow> (u32 \<times> bytes) list \<Rightarrow> frame list \<Rightarrow> frame list" where
  "put_pages M lo iFirst isCommit nTruncate [] fr = fr"
| "put_pages M lo iFirst isCommit nTruncate (p # ps) fr =
     (let f = latest_frame (List.map fst fr) lo M (fst p) in
      if iFirst \<noteq> 0 \<and> (ps \<noteq> [] \<or> \<not> isCommit) \<and> iFirst \<le> f
      then put_pages M lo iFirst isCommit nTruncate ps (fr[f - 1 := (fst p, fst (snd (fr ! (f - 1))), snd p)])
      else put_pages M lo iFirst isCommit nTruncate ps (fr @ [(fst p, if isCommit \<and> ps = [] then nTruncate else 0, snd p)]))"

lemma latest_cong: "(\<And>i. i < hi \<Longrightarrow> fs ! i = gs ! i) \<Longrightarrow> latest_frame fs lo hi k = latest_frame gs lo hi k"
  by (induction hi) simp_all

lemma latest_facts:
  "latest_frame fs lo hi k = f \<Longrightarrow> 0 < f \<Longrightarrow> f \<le> hi \<and> lo \<le> f \<and> fs ! (f - 1) = k \<and> (\<forall>i. f < i \<and> i \<le> hi \<longrightarrow> fs ! (i - 1) \<noteq> k)"
proof (induction hi)
  case (Suc hi)
  show ?case
  proof (cases "Suc hi < lo \<or> fs ! hi = k")
    case False
    then have "f \<le> hi \<and> lo \<le> f \<and> fs ! (f - 1) = k \<and> (\<forall>i. f < i \<and> i \<le> hi \<longrightarrow> fs ! (i - 1) \<noteq> k)" using Suc by simp
    then show ?thesis using False by (auto simp: le_Suc_eq)
  qed (use Suc.prems in \<open>auto split: if_splits\<close>)
qed simp

lemma enc_upto_mono: "enc_upto big salt ck0 m ss \<Longrightarrow> k \<le> m \<Longrightarrow> enc_upto big salt ck0 k ss"
  by (simp add: enc_upto_def)

lemma enc_upto_cong:
  assumes "enc_upto big salt ck0 k ss" "take k ss' = take k ss" "k \<le> length ss'"
  shows "enc_upto big salt ck0 k ss'"
proof -
  have n: "ss' ! i = ss ! i" if "i < k" for i using assms(2) that by (metis nth_take)
  have t: "take (Suc i) ss' = take (Suc i) ss" if "i < k" for i
    using assms(2) that by (metis Suc_leI min.absorb1 take_take)
  show ?thesis using assms(1,3) n t by (simp add: enc_upto_def)
qed

text \<open>The file while a transaction writes: what is before \<^verbatim>\<open>iReCksum\<close> is encoded.\<close>

definition writing :: "Wal \<Rightarrow> wal_files \<Rightarrow> bool \<Rightarrow> nat \<Rightarrow> u32 \<Rightarrow> bytes \<Rightarrow> bytes list \<Rightarrow> bytes \<Rightarrow> bool" where
  "writing w fs big sz nck salt ss t \<longleftrightarrow> log_at w fs big sz nck salt ss t \<and>
     (if iReCksum w = 0
      then enc_upto big salt (hdr_ck big sz nck salt) (length ss) ss
        \<and> aFrameCksum (hdr w) = log_ck big (hdr_ck big sz nck salt) (List.map frame_of ss)
      else iReCksum w \<le> length ss \<and> enc_upto big salt (hdr_ck big sz nck salt) (iReCksum w - 1) ss)"

lemma frame_of_slot: "length h = 24 \<Longrightarrow> frame_of (h @ d) = (get4 h 0, get4 h 4, d)"
  by (simp add: frame_of_def get4_append1)

lemma append_frame:
  assumes os: "os_quiet os" and wr: "writing w fs big sz nck salt ss t" and d: "length d = sz"
  obtains w' fs' s where "walWriteOneFrame os be sz sp w fs (pg, d) n (walFrameOffset (Suc (length ss)) sz) = (WOk, w', fs')"
    "writing w' fs' big sz nck salt (ss @ [s]) (drop (sz + 24) t)" "frame_of s = (pg, n, d)" "db_file fs' = db_file fs"
    "w' = w\<lparr>hdr := (hdr w)\<lparr>aFrameCksum := aFrameCksum (hdr w')\<rparr>\<rparr>"
proof -
  have la: "log_at w fs big sz nck salt ss t" using wr by (simp add: writing_def)
  note l = log_atD [OF la]
  let ?H = "log_header big sz nck salt" and ?c = "hdr_ck big sz nck salt"
  define ck where "ck = frame_ck big (aFrameCksum (hdr w)) (pg, n, d)"
  obtain h w' where e: "walEncodeFrame be w pg n d = (h, w')" by (cases "walEncodeFrame be w pg n d")
  have w': "h = (if iReCksum w = 0 then take 24 (enc_frame salt ck (pg, n, d))
        else sqlite3Put4byte pg @ sqlite3Put4byte n @ replicate 16 0)"
      "w' = (if iReCksum w = 0 then w\<lparr>hdr := (hdr w)\<lparr>aFrameCksum := ck\<rparr>\<rparr> else w)"
    using e encode_slot(1) [OF la _ d, where pg = pg and n = n and be = be, folded ck_def]
    by (auto simp: walEncodeFrame_def Let_def)
  have hl: "length h = 24" using l(2) d by (simp add: w' enc_frame_length)
  have hf: "get4 h 0 = pg" "get4 h 4 = n"
    using get4_append [of "[]" 0 pg] get4_append [of "sqlite3Put4byte pg" 4 n] l(2)
    by (simp_all add: w' enc_frame_def get4_take)
  define s where "s = h @ d"
  have s: "length s = sz + 24" "s \<noteq> []" "frame_of s = (pg, n, d)"
    using hl d hf frame_of_slot [OF hl, of d] by (auto simp: s_def)
  have off: "walFrameOffset (Suc (length ss)) sz = length ?H + length ss * (sz + 24)"
    using l(8) by (simp add: walFrameOffset_def WAL_HDRSIZE_def WAL_FRAME_HDRSIZE_def)
  let ?off = "walFrameOffset (Suc (length ss)) sz"
  obtain fs1 where f1: "walWriteToLog os sp fs h ?off = (WOk, fs1)" "log_file fs1 = write_at (log_file fs) ?off h" "db_file fs1 = db_file fs"
    by (rule toLog_quiet [OF os])
  obtain fs2 where f2: "walWriteToLog os sp fs1 d (?off + WAL_FRAME_HDRSIZE) = (WOk, fs2)"
    "log_file fs2 = write_at (log_file fs1) (?off + WAL_FRAME_HDRSIZE) d" "db_file fs2 = db_file fs1"
    by (rule toLog_quiet [OF os])
  have "log_file fs2 = write_at (log_file fs) ?off s"
    unfolding f2(2) f1(2) s_def using write_at_join [of "log_file fs" ?off h d] hl by (simp add: WAL_FRAME_HDRSIZE_def)
  also have "\<dots> = ?H @ concat (ss @ [s]) @ drop (sz + 24) t"
    unfolding off l(7) using write_at_new [OF l(6) s(2), of ?H t] s(1) by simp
  finally have lf: "log_file fs2 = ?H @ concat (ss @ [s]) @ drop (sz + 24) t" .
  have la': "log_at w' fs2 big sz nck salt (ss @ [s]) (drop (sz + 24) t)"
    using la lf s(1) by (auto simp: log_at_def w' slots_ok_def)
  have "writing w' fs2 big sz nck salt (ss @ [s]) (drop (sz + 24) t)"
  proof (cases "iReCksum w = 0")
    case True
    have all: "enc_upto big salt ?c (length ss) ss" "aFrameCksum (hdr w) = log_ck big ?c (List.map frame_of ss)"
      using wr True by (simp_all add: writing_def)
    have u: "enc_upto big salt ?c (length ss) (ss @ [s])" by (rule enc_upto_cong [OF all(1)]) simp_all
    have ck: "log_ck big ?c (List.map frame_of (ss @ [s])) = ck" using all(2) s(3) by (simp add: log_ck_snoc ck_def)
    have "s = enc_frame salt ck (pg, n, d)"
      using encode_slot(2) [OF la True d, where pg = pg and n = n, folded ck_def] True by (simp add: s_def w')
    then have "enc_upto big salt ?c (Suc (length ss)) (ss @ [s])"
      using u ck s(3) by (auto simp: enc_upto_def less_Suc_eq)
    then show ?thesis using la' ck True by (simp add: writing_def w')
  next
    case False
    then have "iReCksum w \<le> length ss" "enc_upto big salt ?c (iReCksum w - 1) ss" using wr by (simp_all add: writing_def)
    moreover from this have "enc_upto big salt ?c (iReCksum w - 1) (ss @ [s])" by - (rule enc_upto_cong [of _ _ _ _ ss], simp_all)
    ultimately show ?thesis using la' False by (simp add: writing_def w')
  qed
  moreover have "walWriteOneFrame os be sz sp w fs (pg, d) n ?off = (WOk, w', fs2)"
    using e f1(1) f2(1) d by (simp add: walWriteOneFrame_def Let_def)
  moreover have "w' = w\<lparr>hdr := (hdr w)\<lparr>aFrameCksum := aFrameCksum (hdr w')\<rparr>\<rparr>" by (simp add: w')
  ultimately show thesis using that s(3) f1(3) f2(3) by simp
qed

lemma overwrite_frame:
  assumes os: "os_quiet os" and wr: "writing w fs big sz nck salt ss t" and d: "length d = sz" and i: "i < length ss"
  defines "w' \<equiv> (if iReCksum w = 0 \<or> Suc i < iReCksum w then w\<lparr>iReCksum := Suc i\<rparr> else w)"
    and "ss' \<equiv> ss[i := take 24 (ss ! i) @ d]"
  obtains fs' where "os_write os Log fs (take sz d) (walFrameOffset (Suc i) sz + WAL_FRAME_HDRSIZE) = (WOk, fs')"
    "writing w' fs' big sz nck salt ss' t" "db_file fs' = db_file fs"
    "List.map frame_of ss' = (List.map frame_of ss)[i := (fst (frame_of (ss ! i)), fst (snd (frame_of (ss ! i))), d)]"
proof -
  have la: "log_at w fs big sz nck salt ss t" using wr by (simp add: writing_def)
  note l = log_atD [OF la]
  let ?H = "log_header big sz nck salt" and ?c = "hdr_ck big sz nck salt"
  have len: "length (ss ! i) = sz + 24" using l(6) i by (simp add: slots_ok_def)
  have off: "walFrameOffset (Suc i) sz + WAL_FRAME_HDRSIZE = length ?H + i * (sz + 24) + 24"
    using l(8) by (simp add: walFrameOffset_def WAL_HDRSIZE_def WAL_FRAME_HDRSIZE_def)
  let ?fs = "fs\<lparr>log_file := write_at (log_file fs) (length ?H + i * (sz + 24) + 24) d, nCall := Suc (nCall fs)\<rparr>"
  have w: "os_write os Log fs (take sz d) (walFrameOffset (Suc i) sz + WAL_FRAME_HDRSIZE) = (WOk, ?fs)"
    unfolding off write_quiet [OF os] using d by simp
  have lf: "log_file ?fs = ?H @ concat ss' @ t"
    using write_at_slot [OF l(6) i, of 24 d ?H t] d len l(7) by (simp add: ss'_def)
  have fr: "List.map frame_of ss' = (List.map frame_of ss)[i := (fst (frame_of (ss ! i)), fst (snd (frame_of (ss ! i))), d)]"
    using len by (simp add: ss'_def map_update frame_of_slot) (simp add: frame_of_def get4_take)
  have sl: "slots_ok sz ss'"
    using l(6) len d by (auto simp: slots_ok_def ss'_def dest!: set_update_subset_insert [THEN subsetD])
  have la': "log_at w' ?fs big sz nck salt ss' t" using la lf sl by (simp add: log_at_def w'_def)
  have keep: "enc_upto big salt ?c k ss \<Longrightarrow> k \<le> i \<Longrightarrow> enc_upto big salt ?c k ss'" for k
    by (rule enc_upto_cong) (use i in \<open>auto simp: ss'_def\<close>)
  have "writing w' ?fs big sz nck salt ss' t"
  proof (cases "iReCksum w = 0 \<or> Suc i < iReCksum w")
    case True
    then have "enc_upto big salt ?c i ss" using wr i by (auto simp: writing_def intro: enc_upto_mono split: if_splits)
    then show ?thesis using keep la' True i by (simp add: writing_def w'_def ss'_def)
  next
    case False
    then have "enc_upto big salt ?c (iReCksum w - 1) ss" "iReCksum w - 1 \<le> i" "iReCksum w \<le> length ss" using wr by (auto simp: writing_def)
    then show ?thesis using keep la' False by (simp add: writing_def w'_def ss'_def)
  qed
  then show thesis using that [OF w] fr by simp
qed

end
