(* ===== verification/WalCommitM.thy ===== *)
theory WalCommitM
  imports WalWriteM
begin

text \<open>
  A transaction in the log (\<^verbatim>\<open>wal.c\<close> part of \<^verbatim>\<open>sqlite3.c\<close>): what \<^verbatim>\<open>walFrames\<close> leaves in
  the file, in the wal-index and in the header, what readers see of it, and what a recovery after
  a crash finds.
\<close>

section \<open>The loop over the pages\<close>

lemma map_fst_update:
  assumes "fst y = fst (fr ! i)"
  shows "List.map fst (fr[i := y]) = List.map fst fr"
proof (cases "i < length fr")
  case True
  then show ?thesis using list_update_id [of "List.map fst fr" i] by (simp add: map_update assms)
qed (simp add: not_less list_update_beyond)

lemma put_pages_step:
  "latest_frame (List.map fst fr) lo M p = f \<Longrightarrow> put_pages M lo iFirst c n ((p, d) # ps) fr =
    (if iFirst \<noteq> 0 \<and> (ps \<noteq> [] \<or> \<not> c) \<and> iFirst \<le> f
     then put_pages M lo iFirst c n ps (fr[f - 1 := (fst (fr ! (f - 1)), fst (snd (fr ! (f - 1))), d)])
     else put_pages M lo iFirst c n ps (fr @ [(p, if c \<and> ps = [] then n else 0, d)]))"
  if "M \<le> length fr"
proof (cases "f = 0")
  case False
  assume f: "latest_frame (List.map fst fr) lo M p = f"
  then have "f \<le> M" "List.map fst fr ! (f - 1) = p" using latest_facts [OF f] False by simp_all
  then have "fst (fr ! (f - 1)) = p" using that False by simp
  then show ?thesis using f by (simp add: Let_def)
qed (auto simp: Let_def)

declare put_pages.simps(2) [simp del]

lemma write_pages_ok:
  assumes os: "os_quiet os" and rl: "readLock w0 \<noteq> 0" and rep0: "wal_rep w0 pgs" "length pgs = M" "mxFrame (hdr w0) = M"
  shows "\<lbrakk> writing w fs big sz nck salt ss t; \<forall>p\<in>set ps. length (snd p) = sz;
     w = w0\<lparr>hdr := (hdr w0)\<lparr>aFrameCksum := c0\<rparr>, iReCksum := r0\<rparr>; M \<le> length ss; take M (List.map (fst \<circ> frame_of) ss) = pgs \<rbrakk>
   \<Longrightarrow> \<exists>c r fs' ss' flags. write_pages os env be sz iFirst ic nT ps w fs (length ss) (walFrameOffset (Suc (length ss)) sz)
       = (WOk, w0\<lparr>hdr := (hdr w0)\<lparr>aFrameCksum := c\<rparr>, iReCksum := r\<rparr>, fs', length ss', walFrameOffset (Suc (length ss')) sz, flags)
     \<and> writing (w0\<lparr>hdr := (hdr w0)\<lparr>aFrameCksum := c\<rparr>, iReCksum := r\<rparr>) fs' big sz nck salt ss' (drop ((length ss' - length ss) * (sz + 24)) t)
     \<and> List.map frame_of ss' = put_pages M (minFrame w0) iFirst ic nT ps (List.map frame_of ss)
     \<and> db_file fs' = db_file fs \<and> length flags = length ps \<and> length ss \<le> length ss'
     \<and> List.map fst (drop (length ss) (List.map frame_of ss')) = List.map (fst \<circ> fst) (filter snd (zip ps flags))
     \<and> take (length ss) (List.map (fst \<circ> frame_of) ss') = List.map (fst \<circ> frame_of) ss \<and> (r = r0 \<or> 0 < iFirst \<and> iFirst \<le> r)"
proof (induction ps arbitrary: w fs ss t c0 r0)
  case Nil
  then show ?case by (intro exI [of _ c0] exI [of _ r0] exI [of _ fs] exI [of _ ss] exI [of _ "[]"]) simp
next
  case (Cons p ps)
  obtain pg d where p: "p = (pg, d)" by (cases p)
  have d: "length d = sz" "\<forall>p\<in>set ps. length (snd p) = sz" using Cons.prems(2) p by simp_all
  note w = Cons.prems(3)
  let ?fr = "List.map frame_of ss"
  have M: "M \<le> length ?fr" using Cons.prems(4) by simp
  define f where "f = latest_frame (List.map fst ?fr) (minFrame w0) M pg"
  have pgs: "latest_frame pgs (minFrame w0) M pg = f"
    unfolding f_def Cons.prems(5) [symmetric] by (rule latest_cong) (use Cons.prems(4) in simp)
  have "wal_rep w pgs" using rep0(1) by (rule wal_rep_fields) (simp_all add: w)
  then have find: "walFindFrame env w pg = (WOk, w, f)"
    using walFindFrame_ok [of w pgs env pg] rl rep0(3) pgs by (simp add: w)
  let ?over = "iFirst \<noteq> 0 \<and> (ps \<noteq> [] \<or> \<not> ic) \<and> iFirst \<le> f"
  show ?case
  proof (cases ?over)
    case True
    then obtain i where i: "f = Suc i" by (cases f) auto
    have il: "i < M" "List.map fst ?fr ! i = pg" using latest_facts [of "List.map fst ?fr" "minFrame w0" M pg f] i by (simp_all add: f_def)
    have il': "i < length ss" using il M by simp
    define w' where "w' = (if iReCksum w = 0 \<or> Suc i < iReCksum w then w\<lparr>iReCksum := Suc i\<rparr> else w)"
    define ss' where "ss' = ss[i := take 24 (ss ! i) @ d]"
    obtain fs' where o: "os_write os Log fs (take sz d) (walFrameOffset (Suc i) sz + WAL_FRAME_HDRSIZE) = (WOk, fs')"
      "writing w' fs' big sz nck salt ss' t" "db_file fs' = db_file fs"
      "List.map frame_of ss' = ?fr[i := (fst (frame_of (ss ! i)), fst (snd (frame_of (ss ! i))), d)]"
      by (rule overwrite_frame [OF os Cons.prems(1) d(1) il', folded w'_def ss'_def])
    define r1 where "r1 = (if r0 = 0 \<or> Suc i < r0 then Suc i else r0)"
    have w': "w' = w0\<lparr>hdr := (hdr w0)\<lparr>aFrameCksum := c0\<rparr>, iReCksum := r1\<rparr>" and r1: "r1 = r0 \<or> 0 < iFirst \<and> iFirst \<le> r1"
      using True i by (simp_all add: w'_def w r1_def)
    have fst': "List.map (fst \<circ> frame_of) ss' = List.map (fst \<circ> frame_of) ss"
      using arg_cong [OF o(4), of "List.map fst"] il' by (simp add: map_update) (metis comp_apply length_map list_update_id nth_map)
    have len: "length ss' = length ss" by (simp add: ss'_def)
    have step: "write_pages os env be sz iFirst ic nT (p # ps) w fs (length ss) (walFrameOffset (Suc (length ss)) sz)
      = (case write_pages os env be sz iFirst ic nT ps w' fs' (length ss') (walFrameOffset (Suc (length ss')) sz)
           of (rc, pWal, fs, iFrame, iOffset, flags) \<Rightarrow> (rc, pWal, fs, iFrame, iOffset, False # flags))"
      using True i o(1) find unfolding p len w'_def by simp
    have put: "put_pages M (minFrame w0) iFirst ic nT (p # ps) ?fr = put_pages M (minFrame w0) iFirst ic nT ps (List.map frame_of ss')"
      unfolding p put_pages_step [OF M f_def [symmetric]] if_P [OF True] o(4) using i il' by simp
    from Cons.IH [OF o(2) d(2) w' _ fst' [THEN arg_cong, of "take M", unfolded Cons.prems(5)]] Cons.prems(4)
    obtain c r fs2 ss2 flags where x: "write_pages os env be sz iFirst ic nT ps w' fs' (length ss') (walFrameOffset (Suc (length ss')) sz)
       = (WOk, w0\<lparr>hdr := (hdr w0)\<lparr>aFrameCksum := c\<rparr>, iReCksum := r\<rparr>, fs2, length ss2, walFrameOffset (Suc (length ss2)) sz, flags)"
      "writing (w0\<lparr>hdr := (hdr w0)\<lparr>aFrameCksum := c\<rparr>, iReCksum := r\<rparr>) fs2 big sz nck salt ss2 (drop ((length ss2 - length ss') * (sz + 24)) t)"
      "List.map frame_of ss2 = put_pages M (minFrame w0) iFirst ic nT ps (List.map frame_of ss')"
      "db_file fs2 = db_file fs'" "length flags = length ps" "length ss' \<le> length ss2"
      "List.map fst (drop (length ss') (List.map frame_of ss2)) = List.map (fst \<circ> fst) (filter snd (zip ps flags))"
      "take (length ss') (List.map (fst \<circ> frame_of) ss2) = List.map (fst \<circ> frame_of) ss'" "r = r1 \<or> 0 < iFirst \<and> iFirst \<le> r"
      unfolding len by blast
    have r2: "r = r0 \<or> 0 < iFirst \<and> iFirst \<le> r" using x(9) r1 by auto
    show ?thesis unfolding step x(1) prod.case put
      by (rule exI [of _ c], rule exI [of _ r], rule exI [of _ fs2], rule exI [of _ ss2], rule exI [of _ "False # flags"])
        (use x(2-7) r2 x(8) [unfolded fst'] o(3) len in \<open>simp add: comp_def\<close>)
  next
    case False
    define n where "n = (if ic \<and> ps = [] then nT else 0)"
    obtain w' fs' s where a: "walWriteOneFrame os be sz 0 w fs (pg, d) n (walFrameOffset (Suc (length ss)) sz) = (WOk, w', fs')"
      "writing w' fs' big sz nck salt (ss @ [s]) (drop (sz + 24) t)" "frame_of s = (pg, n, d)" "db_file fs' = db_file fs"
      "w' = w\<lparr>hdr := (hdr w)\<lparr>aFrameCksum := aFrameCksum (hdr w')\<rparr>\<rparr>"
      by (rule append_frame [OF os Cons.prems(1) d(1)])
    have w': "\<exists>c. w' = w0\<lparr>hdr := (hdr w0)\<lparr>aFrameCksum := c\<rparr>, iReCksum := r0\<rparr>"
      by (rule exI [of _ "aFrameCksum (hdr w')"], subst a(5), simp add: w)
    then obtain c1 where w': "w' = w0\<lparr>hdr := (hdr w0)\<lparr>aFrameCksum := c1\<rparr>, iReCksum := r0\<rparr>" by blast
    let ?ss = "ss @ [s]"
    have off: "walFrameOffset (Suc (length ss)) sz + (sz + WAL_FRAME_HDRSIZE) = walFrameOffset (Suc (length ?ss)) sz"
      by (simp add: walFrameOffset_def)
    have step: "write_pages os env be sz iFirst ic nT (p # ps) w fs (length ss) (walFrameOffset (Suc (length ss)) sz)
      = (case write_pages os env be sz iFirst ic nT ps w' fs' (length ?ss) (walFrameOffset (Suc (length ?ss)) sz)
           of (rc, pWal, fs, iFrame, iOffset, flags) \<Rightarrow> (rc, pWal, fs, iFrame, iOffset, True # flags))"
      using False a(1) find unfolding p n_def off [symmetric] by auto
    have put: "put_pages M (minFrame w0) iFirst ic nT (p # ps) ?fr = put_pages M (minFrame w0) iFirst ic nT ps (List.map frame_of ?ss)"
      unfolding p put_pages_step [OF M f_def [symmetric]] if_not_P [OF False] using a(3) by (simp add: n_def)
    have M': "M \<le> length ?ss" "take M (List.map (fst \<circ> frame_of) ?ss) = pgs" using Cons.prems(4,5) by (simp_all add: comp_def)
    from Cons.IH [OF a(2) d(2) w' M']
    obtain c r fs2 ss2 flags where x: "write_pages os env be sz iFirst ic nT ps w' fs' (length ?ss) (walFrameOffset (Suc (length ?ss)) sz)
       = (WOk, w0\<lparr>hdr := (hdr w0)\<lparr>aFrameCksum := c\<rparr>, iReCksum := r\<rparr>, fs2, length ss2, walFrameOffset (Suc (length ss2)) sz, flags)"
      "writing (w0\<lparr>hdr := (hdr w0)\<lparr>aFrameCksum := c\<rparr>, iReCksum := r\<rparr>) fs2 big sz nck salt ss2 (drop ((length ss2 - length ?ss) * (sz + 24)) (drop (sz + 24) t))"
      "List.map frame_of ss2 = put_pages M (minFrame w0) iFirst ic nT ps (List.map frame_of ?ss)"
      "db_file fs2 = db_file fs'" "length flags = length ps" "length ?ss \<le> length ss2"
      "List.map fst (drop (length ?ss) (List.map frame_of ss2)) = List.map (fst \<circ> fst) (filter snd (zip ps flags))"
      "take (length ?ss) (List.map (fst \<circ> frame_of) ss2) = List.map (fst \<circ> frame_of) ?ss" "r = r0 \<or> 0 < iFirst \<and> iFirst \<le> r" by blast
    have l2: "length ss2 - length ss = Suc (length ss2 - length ?ss)" using x(6) by simp
    have dr: "drop ((length ss2 - length ?ss) * (sz + 24)) (drop (sz + 24) t) = drop ((length ss2 - length ss) * (sz + 24)) t"
      unfolding l2 by (simp add: algebra_simps)
    let ?g = "List.map (fst \<circ> frame_of) ss2"
    have "drop (length ss) ?g = ?g ! length ss # drop (Suc (length ss)) ?g"
      by (rule Cons_nth_drop_Suc [symmetric]) (use x(6) in simp)
    moreover have "?g ! length ss = pg" using arg_cong [OF x(8), of "\<lambda>l. l ! length ss"] x(6) a(3) by (simp add: nth_append)
    ultimately have "List.map fst (drop (length ss) (List.map frame_of ss2)) = pg # List.map (fst \<circ> fst) (filter snd (zip ps flags))"
      using x(7) by (simp add: drop_map)
    moreover have "take (length ss) ?g = List.map (fst \<circ> frame_of) ss"
      using arg_cong [OF x(8), of "take (length ss)"] by simp
    ultimately show ?thesis unfolding step x(1) prod.case put
      by (intro exI [of _ c] exI [of _ r] exI [of _ fs2] exI [of _ ss2] exI [of _ "True # flags"])
        (use x(2-6,9) a(4) dr p in \<open>simp add: comp_def\<close>)
  qed
qed

section \<open>The end of a commit\<close>

lemma pad_frames_ok:
  assumes os: "os_quiet os" and d: "length d = sz"
  shows "\<lbrakk> writing w fs big sz nck salt ss t; iReCksum w = 0 \<rbrakk> \<Longrightarrow>
    \<exists>c fs' k xs. pad_frames os be sz sp (pg, d) n w fs (walFrameOffset (Suc (length ss)) sz) x
        = (WOk, w\<lparr>hdr := (hdr w)\<lparr>aFrameCksum := c\<rparr>\<rparr>, fs', x + k)
      \<and> writing (w\<lparr>hdr := (hdr w)\<lparr>aFrameCksum := c\<rparr>\<rparr>) fs' big sz nck salt (ss @ xs) (drop (k * (sz + 24)) t)
      \<and> List.map frame_of xs = replicate k (pg, n, d) \<and> db_file fs' = db_file fs"
proof (induction "sp - walFrameOffset (Suc (length ss)) sz" arbitrary: w fs ss t x rule: less_induct)
  case less
  let ?off = "walFrameOffset (Suc (length ss)) sz"
  show ?case
  proof (cases "?off < sp")
    case False
    have e: "w\<lparr>hdr := (hdr w)\<lparr>aFrameCksum := aFrameCksum (hdr w)\<rparr>\<rparr> = w" by simp
    show ?thesis using False less.prems
      by (intro exI [of _ "aFrameCksum (hdr w)"] exI [of _ fs] exI [of _ 0] exI [of _ "[]"]) (simp add: e pad_frames.simps)
  next
    case True
    obtain w' fs' s where a: "walWriteOneFrame os be sz sp w fs (pg, d) n ?off = (WOk, w', fs')"
      "writing w' fs' big sz nck salt (ss @ [s]) (drop (sz + 24) t)" "frame_of s = (pg, n, d)" "db_file fs' = db_file fs"
      "w' = w\<lparr>hdr := (hdr w)\<lparr>aFrameCksum := aFrameCksum (hdr w')\<rparr>\<rparr>"
      by (rule append_frame [OF os less.prems(1) d])
    have r: "iReCksum w' = 0" by (subst a(5)) (simp add: less.prems(2))
    have off: "?off + (sz + WAL_FRAME_HDRSIZE) = walFrameOffset (Suc (length (ss @ [s]))) sz" by (simp add: walFrameOffset_def)
    have "sp - walFrameOffset (Suc (length (ss @ [s]))) sz < sp - ?off"
      unfolding off [symmetric] using True by (simp add: WAL_FRAME_HDRSIZE_def)
    from less.hyps [OF this a(2) r, of "x + 1"]
    obtain c fs2 k xs where y: "pad_frames os be sz sp (pg, d) n w' fs' (walFrameOffset (Suc (length (ss @ [s]))) sz) (x + 1)
        = (WOk, w'\<lparr>hdr := (hdr w')\<lparr>aFrameCksum := c\<rparr>\<rparr>, fs2, x + 1 + k)"
      "writing (w'\<lparr>hdr := (hdr w')\<lparr>aFrameCksum := c\<rparr>\<rparr>) fs2 big sz nck salt ((ss @ [s]) @ xs) (drop (k * (sz + 24)) (drop (sz + 24) t))"
      "List.map frame_of xs = replicate k (pg, n, d)" "db_file fs2 = db_file fs'" by blast
    have ww: "w'\<lparr>hdr := (hdr w')\<lparr>aFrameCksum := c\<rparr>\<rparr> = w\<lparr>hdr := (hdr w)\<lparr>aFrameCksum := c\<rparr>\<rparr>" by (subst (1 2) a(5)) simp
    have run: "pad_frames os be sz sp (pg, d) n w fs ?off x = (WOk, w\<lparr>hdr := (hdr w)\<lparr>aFrameCksum := c\<rparr>\<rparr>, fs2, x + Suc k)"
      using True a(1) y(1) unfolding pad_frames.simps [of os be sz sp "(pg, d)" n w fs ?off x] off ww by simp
    show ?thesis using run y(2-4) a(3,4) unfolding ww
      by (intro exI [of _ c] exI [of _ fs2] exI [of _ "Suc k"] exI [of _ "s # xs"]) (simp add: add.commute)
  qed
qed

lemma sync_commit_ok:
  assumes os: "os_quiet os" and wr: "writing w fs big sz nck salt ss t" "iReCksum w = 0" and d: "length (snd p) = sz"
  obtains c fs' k xs where "sync_commit os be sz sector p n sync w fs (walFrameOffset (Suc (length ss)) sz)
      = (False, WOk, w\<lparr>hdr := (hdr w)\<lparr>aFrameCksum := c\<rparr>\<rparr>, fs', k)"
    "writing (w\<lparr>hdr := (hdr w)\<lparr>aFrameCksum := c\<rparr>\<rparr>) fs' big sz nck salt (ss @ xs) (drop (k * (sz + 24)) t)"
    "List.map frame_of xs = replicate k (fst p, n, snd p)" "db_file fs' = db_file fs" "sync \<and> padToSectorBoundary w \<or> k = 0"
proof -
  let ?off = "walFrameOffset (Suc (length ss)) sz"
  have same: "w\<lparr>hdr := (hdr w)\<lparr>aFrameCksum := aFrameCksum (hdr w)\<rparr>\<rparr> = w" by simp
  have tick: "writing v (f\<lparr>nCall := m\<rparr>) big sz nck salt x y = writing v f big sz nck salt x y" for v f m x y
    by (simp add: writing_def log_at_def)
  show thesis
  proof (cases "sync \<and> padToSectorBoundary w")
    case True
    let ?sp = "(?off + sector - 1) div sector * sector"
    obtain c fs' k xs where y: "pad_frames os be sz ?sp (fst p, snd p) n w fs ?off 0
        = (WOk, w\<lparr>hdr := (hdr w)\<lparr>aFrameCksum := c\<rparr>\<rparr>, fs', 0 + k)"
      "writing (w\<lparr>hdr := (hdr w)\<lparr>aFrameCksum := c\<rparr>\<rparr>) fs' big sz nck salt (ss @ xs) (drop (k * (sz + 24)) t)"
      "List.map frame_of xs = replicate k (fst p, n, snd p)" "db_file fs' = db_file fs"
      using pad_frames_ok [OF os d wr] by blast
    then show thesis
      using that [of c fs' k xs] that [of c "fs'\<lparr>nCall := Suc (nCall fs')\<rparr>" k xs] True
      by (cases "?sp = ?off") (simp_all add: sync_commit_def Let_def call_quiet [OF os] tick)
  next
    case False
    then show thesis
      using that [of "aFrameCksum (hdr w)" fs 0 "[]"] that [of "aFrameCksum (hdr w)" "fs\<lparr>nCall := Suc (nCall fs)\<rparr>" 0 "[]"] wr(1)
      unfolding same by (cases sync) (simp_all add: sync_commit_def Let_def call_quiet [OF os] tick)
  qed
qed

lemma limit_quiet:
  assumes "os_quiet os"
  obtains fs' where "walLimitSize os fs n = fs'" "db_file fs' = db_file fs"
    "log_file fs' = (if n < length (log_file fs) then take n (log_file fs) else log_file fs)"
  using that by (simp add: walLimitSize_def os_file_size_def os_truncate_def call_quiet [OF assms] Let_def)

lemma index_frames_ok:
  assumes env: "env_maps env"
  shows "\<lbrakk> wal_rep w pgs; 0 \<notin> set ks \<rbrakk> \<Longrightarrow> \<exists>w'. index_frames env ks WOk w (length pgs) = (WOk, w', length pgs + length ks)
    \<and> wal_rep w' (pgs @ ks) \<and> hdr w' = hdr w \<and> live w' = live w \<and> same_file w w'"
proof (induction ks arbitrary: w pgs)
  case (Cons k ks)
  obtain rc w1 where a: "walIndexAppend env w (Suc (length pgs)) k = (rc, w1)" "hdr w1 = hdr w" "live w1 = live w"
    "rc = WOk \<longrightarrow> wal_rep w1 (pgs @ [k])" "rc = fst (walHashGet env w (walFramePage (Suc (length pgs))))"
    by (rule walIndexAppend_ok [OF Cons.prems(1) env_maps_ok [OF env], of k]) (use Cons.prems(2) in auto)
  obtain w2 p where "walIndexPage env w (walFramePage (Suc (length pgs))) = (WOk, w2, Some p)"
    by (rule walIndexPage_maps [OF Cons.prems(1) env])
  then have rc: "rc = WOk" using a(5) by (simp add: walHashGet_def)
  then have "wal_rep w1 (pgs @ [k])" using a(4) by simp
  from Cons.IH [OF this] Cons.prems(2)
  obtain w' where "index_frames env ks WOk w1 (length (pgs @ [k])) = (WOk, w', length (pgs @ [k]) + length ks)"
    "wal_rep w' ((pgs @ [k]) @ ks)" "hdr w' = hdr w1" "live w' = live w1" "same_file w1 w'" by auto
  then show ?case using a(1-3) rc same_file_trans [OF walIndexAppend_fields [OF a(1)]] by simp
qed simp

section \<open>A committed transaction\<close>

text \<open>The pages of the frames that the loop appends are the pages of the list.\<close>

lemma put_pages_fst:
  "put_pages M lo iFirst c n ps fr = fr' \<Longrightarrow> M \<le> length fr \<Longrightarrow> length fr \<le> length fr'
    \<and> set (List.map fst fr') \<subseteq> set (List.map fst fr) \<union> fst ` set ps"
proof (induction ps arbitrary: fr)
  case (Cons p ps)
  obtain pg d where p: "p = (pg, d)" by (cases p)
  let ?f = "latest_frame (List.map fst fr) lo M pg"
  show ?case
  proof (cases "iFirst \<noteq> 0 \<and> (ps \<noteq> [] \<or> \<not> c) \<and> iFirst \<le> ?f")
    case True
    let ?g = "fr[?f - 1 := (fst (fr ! (?f - 1)), fst (snd (fr ! (?f - 1))), d)]"
    have m: "List.map fst ?g = List.map fst fr" by (rule map_fst_update) simp
    have "put_pages M lo iFirst c n ps ?g = fr'"
      using Cons.prems(1) unfolding p put_pages_step [OF Cons.prems(2) refl] if_P [OF True] .
    from Cons.IH [OF this] Cons.prems(2)
    have "length ?g \<le> length fr' \<and> set (List.map fst fr') \<subseteq> set (List.map fst ?g) \<union> fst ` set ps" by simp
    then show ?thesis unfolding m length_list_update set_simps image_insert by blast
  next
    case False
    let ?g = "fr @ [(pg, if c \<and> ps = [] then n else 0, d)]"
    have "put_pages M lo iFirst c n ps ?g = fr'"
      using Cons.prems(1) unfolding p put_pages_step [OF Cons.prems(2) refl] if_not_P [OF False] .
    then have "length ?g \<le> length fr' \<and> set (List.map fst fr') \<subseteq> set (List.map fst ?g) \<union> fst ` set ps"
      using Cons.IH [of ?g] Cons.prems(2) by simp
    then show ?thesis unfolding p by auto
  qed
qed simp

lemma write_frames_ok:
  fixes iFirst :: nat
  assumes os: "os_quiet os" and env: "env_maps env" and rl: "readLock w \<noteq> 0"
    and wr: "writing w fs big sz nck salt ss t" and M: "mxFrame (hdr w) = length ss"
    and rep: "wal_rep w (List.map (fst \<circ> frame_of) ss)" and ps: "ps \<noteq> []" "\<forall>p\<in>set ps. fst p \<noteq> 0 \<and> length (snd p) = sz"
    and a: "fa_szPage a = sz" "fa_isCommit a" "fa_alloc a"
  defines "frs \<equiv> put_pages (length ss) (minFrame w) iFirst True (fa_nTruncate a) ps (List.map frame_of ss)"
  obtains w' fs' k t' where "write_frames os env be a ps iFirst w fs = (WOk, w', fs')"
    "log_file fs' = log_header big sz nck salt @ enc_frames big salt (hdr_ck big sz nck salt)
        (frs @ replicate k (fst (last ps), fa_nTruncate a, snd (last ps))) @ t'"
    "\<exists>i j. t' = take j (drop (i * (sz + 24)) t)" "db_file fs' = db_file fs" "fa_sync a \<and> padToSectorBoundary w \<or> k = 0"
    "wal_rep w' (List.map fst frs @ replicate k (fst (last ps)))" "live w' = hdr w'" "mxFrame (hdr w') = length frs + k"
    "hdr_nPage (hdr w') = fa_nTruncate a" "hdr_szPage (hdr w') = szPage16 sz"
    "aFrameCksum (hdr w') = log_ck big (hdr_ck big sz nck salt) (frs @ replicate k (fst (last ps), fa_nTruncate a, snd (last ps)))"
    "readLock w' = readLock w" "minFrame w' = minFrame w" "aSalt (hdr w') = salt" "bigEndCksum (hdr w') = big" "szPage w' = sz" "iReCksum w' = 0"
    "\<exists>ss'. writing w' fs' big sz nck salt ss' t' \<and> List.map frame_of ss' = frs @ replicate k (fst (last ps), fa_nTruncate a, snd (last ps))"
proof -
  let ?ck0 = "hdr_ck big sz nck salt" and ?H = "log_header big sz nck salt" and ?n = "fa_nTruncate a"
  have w0: "w = w\<lparr>hdr := (hdr w)\<lparr>aFrameCksum := aFrameCksum (hdr w)\<rparr>, iReCksum := iReCksum w\<rparr>" by simp
  have len: "\<forall>p\<in>set ps. length (snd p) = sz" using ps(2) by simp
  have lp: "length (List.map (fst \<circ> frame_of) ss) = length ss"
    and tk: "take (length ss) (List.map (fst \<circ> frame_of) ss) = List.map (fst \<circ> frame_of) ss" by simp_all
  obtain c1 r1 fs1 ss1 flags where x: "write_pages os env be sz iFirst True ?n ps w fs (length ss) (walFrameOffset (Suc (length ss)) sz)
       = (WOk, w\<lparr>hdr := (hdr w)\<lparr>aFrameCksum := c1\<rparr>, iReCksum := r1\<rparr>, fs1, length ss1, walFrameOffset (Suc (length ss1)) sz, flags)"
    "writing (w\<lparr>hdr := (hdr w)\<lparr>aFrameCksum := c1\<rparr>, iReCksum := r1\<rparr>) fs1 big sz nck salt ss1 (drop ((length ss1 - length ss) * (sz + 24)) t)"
    "List.map frame_of ss1 = frs" "db_file fs1 = db_file fs" "length flags = length ps" "length ss \<le> length ss1"
    "List.map fst (drop (length ss) (List.map frame_of ss1)) = List.map (fst \<circ> fst) (filter snd (zip ps flags))"
    "take (length ss) (List.map (fst \<circ> frame_of) ss1) = List.map (fst \<circ> frame_of) ss"
    using write_pages_ok [OF os rl rep lp M wr len w0 order_refl tk, where iFirst = iFirst and ic = True and nT = ?n and be = be and env = env]
    unfolding frs_def by blast
  let ?t1 = "drop ((length ss1 - length ss) * (sz + 24)) t"
  let ?w1 = "w\<lparr>hdr := (hdr w)\<lparr>aFrameCksum := c1\<rparr>, iReCksum := r1\<rparr>"
  let ?w2 = "\<lambda>c. w\<lparr>hdr := (hdr w)\<lparr>aFrameCksum := c\<rparr>, iReCksum := 0\<rparr>"
  obtain c2 fs2 ss2 where y: "(if iReCksum ?w1 \<noteq> 0 then walRewriteChecksums os be True ?w1 fs1 (length ss1) else (WOk, ?w1, fs1)) = (WOk, ?w2 c2, fs2)"
    "writing (?w2 c2) fs2 big sz nck salt ss2 ?t1" "List.map frame_of ss2 = frs" "db_file fs2 = db_file fs" "length ss2 = length ss1"
  proof (cases r1)
    case 0
    then show thesis using that [of c1 fs1 ss1] x by simp
  next
    case (Suc m)
    have la: "log_at ?w1 fs1 big sz nck salt ss1 ?t1" using x(2) by (simp add: writing_def)
    have e: "enc_upto big salt ?ck0 m ss1" "m < length ss1" using x(2) Suc by (simp_all add: writing_def)
    have r: "iReCksum ?w1 = Suc m" by (simp add: Suc)
    obtain fs' ss' where z: "walRewriteChecksums os be True ?w1 fs1 (length ss1)
      = (WOk, ?w1\<lparr>hdr := (hdr ?w1)\<lparr>aFrameCksum := log_ck big ?ck0 (List.map frame_of ss1)\<rparr>, iReCksum := 0\<rparr>, fs')"
      "log_file fs' = ?H @ concat ss' @ ?t1" "slots_ok sz ss'" "db_file fs' = db_file fs1"
      "enc_upto big salt ?ck0 (length ss') ss'" "List.map frame_of ss' = List.map frame_of ss1"
      by (rule walRewriteChecksums_ok [OF os la r e(2,1)])
    have l': "length ss' = length ss1" using arg_cong [OF z(6), of length] by simp
    have "log_at (?w2 (log_ck big ?ck0 (List.map frame_of ss1))) fs' big sz nck salt ss' ?t1"
      using la z(2,3) by (simp add: log_at_def)
    then have "writing (?w2 (log_ck big ?ck0 (List.map frame_of ss1))) fs' big sz nck salt ss' ?t1"
      using z(5,6) by (simp add: writing_def)
    then show thesis using that [of "log_ck big ?ck0 (List.map frame_of ss1)" fs' ss'] z(1,4,6) l' x(3,4) Suc by simp
  qed
  have lastp: "length (snd (last ps)) = sz" using len ps(1) last_in_set by blast
  obtain c3 fs3 k xs where s: "sync_commit os be sz (fa_sector a) (last ps) ?n (fa_sync a) (?w2 c2) fs2 (walFrameOffset (Suc (length ss2)) sz)
      = (False, WOk, (?w2 c2)\<lparr>hdr := (hdr (?w2 c2))\<lparr>aFrameCksum := c3\<rparr>\<rparr>, fs3, k)"
    "writing ((?w2 c2)\<lparr>hdr := (hdr (?w2 c2))\<lparr>aFrameCksum := c3\<rparr>\<rparr>) fs3 big sz nck salt (ss2 @ xs) (drop (k * (sz + 24)) ?t1)"
    "List.map frame_of xs = replicate k (fst (last ps), ?n, snd (last ps))" "db_file fs3 = db_file fs2"
    "fa_sync a \<and> padToSectorBoundary (?w2 c2) \<or> k = 0"
    by (rule sync_commit_ok [OF os y(2) _ lastp]) simp_all
  define fin where "fin = frs @ replicate k (fst (last ps), ?n, snd (last ps))"
  have lk: "length xs = k" using arg_cong [OF s(3), of length] by simp
  have fin: "List.map frame_of (ss2 @ xs) = fin" "length (ss2 @ xs) = length frs + k" "length ss2 = length frs"
    using y(3) s(3) lk arg_cong [OF y(3), of length] unfolding fin_def length_map by (simp_all only: map_append length_append)
  have w23: "(?w2 c2)\<lparr>hdr := (hdr (?w2 c2))\<lparr>aFrameCksum := c3\<rparr>\<rparr> = ?w2 c3" by (rule Wal.equality) simp_all
  have wr3: "writing (?w2 c3) fs3 big sz nck salt (ss2 @ xs) (drop (k * (sz + 24)) ?t1)" using s(2) unfolding w23 .
  have r0: "iReCksum (?w2 c3) = 0" by simp
  have la3: "log_at (?w2 c3) fs3 big sz nck salt (ss2 @ xs) (drop (k * (sz + 24)) ?t1)"
    and enc3: "enc_upto big salt ?ck0 (length (ss2 @ xs)) (ss2 @ xs)" and c3: "c3 = log_ck big ?ck0 fin"
    using wr3 [unfolded writing_def if_P [OF r0]] fin(1) by (blast, blast, simp)
  have lf3: "log_file fs3 = ?H @ enc_frames big salt ?ck0 fin @ drop (k * (sz + 24)) ?t1"
    using log_atD(7) [OF la3] enc_all [OF enc3] fin(1) by simp
  have "length (enc_frames big salt ?ck0 fin) = (length frs + k) * (sz + 24)"
    using slots_length [OF log_atD(6) [OF la3]] enc_all [OF enc3] fin(1,2) by (simp only: take_all order_refl)
  then have off3: "length (?H @ enc_frames big salt ?ck0 fin) = walFrameOffset (length ss2 + k + 1) sz"
    using fin(3) log_atD(8) [OF la3]
    by (simp add: walFrameOffset_def WAL_HDRSIZE_def WAL_FRAME_HDRSIZE_def)
  define w3 where "w3 = (if truncateOnCommit (?w2 c3) \<and> 0 \<le> mxWalSize (?w2 c3) then (?w2 c3)\<lparr>truncateOnCommit := False\<rparr> else ?w2 c3)"
  obtain fs4 where f4: "(if truncateOnCommit (?w2 c3) \<and> 0 \<le> mxWalSize (?w2 c3)
       then ((?w2 c3)\<lparr>truncateOnCommit := False\<rparr>, walLimitSize os fs3 (max (nat (mxWalSize (?w2 c3))) (walFrameOffset (length ss2 + k + 1) sz)))
       else (?w2 c3, fs3)) = (w3, fs4)"
    "db_file fs4 = db_file fs" "\<exists>j. log_file fs4 = ?H @ enc_frames big salt ?ck0 fin @ take j (drop (k * (sz + 24)) ?t1)"
  proof (cases "truncateOnCommit (?w2 c3) \<and> 0 \<le> mxWalSize (?w2 c3)")
    case False
    have "\<exists>j. log_file fs3 = ?H @ enc_frames big salt ?ck0 fin @ take j (drop (k * (sz + 24)) ?t1)"
      by (rule exI [of _ "length t"]) (simp add: lf3)
    from that [OF _ _ this] show thesis using False s(4) y(4) unfolding w3_def if_not_P [OF False] by simp
  next
    case True
    define m where "m = max (nat (mxWalSize (?w2 c3))) (walFrameOffset (length ss2 + k + 1) sz)"
    obtain fs' where l: "walLimitSize os fs3 m = fs'" "db_file fs' = db_file fs3"
      "log_file fs' = (if m < length (log_file fs3) then take m (log_file fs3) else log_file fs3)" by (rule limit_quiet [OF os])
    have ge: "length (?H @ enc_frames big salt ?ck0 fin) \<le> m" unfolding off3 by (simp add: m_def)
    have "take m (log_file fs3) = (?H @ enc_frames big salt ?ck0 fin) @ take (m - length (?H @ enc_frames big salt ?ck0 fin)) (drop (k * (sz + 24)) ?t1)"
      using ge unfolding lf3 append_assoc [symmetric] by simp
    moreover have "log_file fs' = take m (log_file fs3)" using l(3) by simp
    ultimately have "\<exists>j. log_file fs' = ?H @ enc_frames big salt ?ck0 fin @ take j (drop (k * (sz + 24)) ?t1)" by auto
    then show thesis using that [of fs'] True l(1,2) s(4) y(4) by (simp add: w3_def m_def)
  qed
  define pgnos where "pgnos = List.map (fst \<circ> fst) (filter snd (zip ps flags)) @ replicate k (fst (last ps))"
  have g: "List.map (fst \<circ> frame_of) ss1 = List.map fst frs" using x(3) by auto
  have pg: "List.map (fst \<circ> frame_of) ss @ pgnos = List.map fst fin"
    using append_take_drop_id [of "length ss" "List.map fst frs"] x(7,8) g x(3)
    by (simp add: pgnos_def fin_def drop_map) 
  have nz: "0 \<notin> set pgnos" using ps last_in_set [OF ps(1)] by (auto simp: pgnos_def dest!: set_zip_leftD)
  have rep3: "wal_rep w3 (List.map (fst \<circ> frame_of) ss)" using rep by (rule wal_rep_fields) (simp_all add: w3_def)
  obtain w4 where w4: "index_frames env pgnos WOk w3 (length (List.map (fst \<circ> frame_of) ss))
      = (WOk, w4, length (List.map (fst \<circ> frame_of) ss) + length pgnos)"
    "wal_rep w4 (List.map fst fin)" "hdr w4 = hdr w3" "live w4 = live w3" "same_file w3 w4"
    using index_frames_ok [OF env rep3 nz] unfolding pg by blast
  have n4: "length (List.map (fst \<circ> frame_of) ss) + length pgnos = length fin" using arg_cong [OF pg, of length] by simp
  define h where "h = (hdr w4)\<lparr>hdr_szPage := szPage16 sz, mxFrame := length fin\<rparr>"
  define w5 where "w5 = (walIndexWriteHdr be (w4\<lparr>hdr := h\<lparr>iChange := iChange h + 1, hdr_nPage := ?n\<rparr>\<rparr>))\<lparr>iCallback := length fin\<rparr>"
  have h3: "hdr w3 = (hdr w)\<lparr>aFrameCksum := c3\<rparr>" by (simp add: w3_def)
  have "write_frames os env be a ps iFirst w fs = (WOk, w5, fs4)"
  proof -
    have m3: "mxFrame (hdr w3) = length (List.map (fst \<circ> frame_of) ss)" by (simp add: h3 M)
    have off: "length ss1 = length ss2" using y(5) by simp
    have s': "sync_commit os be sz (fa_sector a) (last ps) ?n (fa_sync a) (?w2 c2) fs2 (walFrameOffset (Suc (length ss2)) sz) = (False, WOk, ?w2 c3, fs3, k)"
      using s(1) unfolding w23 .
    show ?thesis
      unfolding write_frames_def Let_def a(1) M Suc_eq_plus1 [symmetric]
      by (simp only: a(2,3) x(1) prod.case y(1) [unfolded off] off s' f4(1) [unfolded Suc_eq_plus1 [symmetric]] pgnos_def [symmetric]
          m3 w4(1) n4 simp_thms if_True if_False w5_def h_def)
  qed
  moreover have "live w5 = hdr w5" "mxFrame (hdr w5) = length fin" "hdr_nPage (hdr w5) = ?n" "hdr_szPage (hdr w5) = szPage16 sz"
    "aFrameCksum (hdr w5) = c3" "aSalt (hdr w5) = salt" "bigEndCksum (hdr w5) = big"
    using log_atD(4,5) [OF la3] by (simp_all add: w5_def walIndexWriteHdr_def Let_def h_def w4(3) h3)
  moreover have "readLock w5 = readLock w" "minFrame w5 = minFrame w" "szPage w5 = sz" "iReCksum w5 = 0"
    using w4(5) log_atD(3) [OF la3] by (simp_all add: w5_def walIndexWriteHdr_def Let_def same_file_def w3_def split: if_splits)
  moreover have "wal_rep w5 (List.map fst fin)"
    using wal_rep_frames [OF w4(2)]
    by (rule wal_rep_fields) (simp_all add: w5_def walIndexWriteHdr_def Let_def h_def)
  moreover have "\<exists>i. drop (k * (sz + 24)) ?t1 = drop (i * (sz + 24)) t"
    by (rule exI [of _ "k + (length ss1 - length ss)"]) (simp add: algebra_simps)
  then obtain i where "drop (k * (sz + 24)) ?t1 = drop (i * (sz + 24)) t" by blast
  then have "\<exists>t'. log_file fs4 = ?H @ enc_frames big salt ?ck0 fin @ t' \<and> (\<exists>i j. t' = take j (drop (i * (sz + 24)) t))"
    using f4(3) by auto
  then obtain t' where t': "log_file fs4 = ?H @ enc_frames big salt ?ck0 fin @ t'" "\<exists>i j. t' = take j (drop (i * (sz + 24)) t)" by blast
  moreover have "writing w5 fs4 big sz nck salt (ss2 @ xs) t'"
    using log_atD [OF la3] enc_all [OF enc3] enc3 fin(1) t'(1) c3 calculation by (simp add: writing_def log_at_def)
  then have "\<exists>ss'. writing w5 fs4 big sz nck salt ss' t' \<and> List.map frame_of ss' = fin" using fin(1) by blast
  ultimately show thesis
    using that [of w5 fs4 k t'] f4(2) s(5) c3 by (simp add: fin_def)
qed


text \<open>Writing pages of a transaction that goes on.\<close>

lemma write_frames_spill:
  fixes iFirst :: nat
  assumes os: "os_quiet os" and env: "env_maps env" and rl: "readLock w \<noteq> 0"
    and wr: "writing w fs big sz nck salt ss t" and M: "mxFrame (hdr w) = length ss"
    and rep: "wal_rep w (List.map (fst \<circ> frame_of) ss)" and ps: "\<forall>p\<in>set ps. fst p \<noteq> 0 \<and> length (snd p) = sz"
    and a: "fa_szPage a = sz" "\<not> fa_isCommit a"
  defines "frs \<equiv> put_pages (length ss) (minFrame w) iFirst False (fa_nTruncate a) ps (List.map frame_of ss)"
  obtains w' fs' ss' i where "write_frames os env be a ps iFirst w fs = (WOk, w', fs')"
    "writing w' fs' big sz nck salt ss' (drop (i * (sz + 24)) t)" "List.map frame_of ss' = frs" "db_file fs' = db_file fs"
    "wal_rep w' (List.map fst frs)" "live w' = live w" "mxFrame (hdr w') = length frs"
    "readLock w' = readLock w" "minFrame w' = minFrame w" "iReCksum w' = iReCksum w \<or> 0 < iFirst \<and> iFirst \<le> iReCksum w'" "hdr_szPage (hdr w') = szPage16 sz"
proof -
  let ?n = "fa_nTruncate a"
  have w0: "w = w\<lparr>hdr := (hdr w)\<lparr>aFrameCksum := aFrameCksum (hdr w)\<rparr>, iReCksum := iReCksum w\<rparr>" by simp
  have len: "\<forall>p\<in>set ps. length (snd p) = sz" using ps by simp
  have lp: "length (List.map (fst \<circ> frame_of) ss) = length ss"
    and tk: "take (length ss) (List.map (fst \<circ> frame_of) ss) = List.map (fst \<circ> frame_of) ss" by simp_all
  obtain c r fs1 ss1 flags where x: "write_pages os env be sz iFirst False ?n ps w fs (length ss) (walFrameOffset (Suc (length ss)) sz)
       = (WOk, w\<lparr>hdr := (hdr w)\<lparr>aFrameCksum := c\<rparr>, iReCksum := r\<rparr>, fs1, length ss1, walFrameOffset (Suc (length ss1)) sz, flags)"
    "writing (w\<lparr>hdr := (hdr w)\<lparr>aFrameCksum := c\<rparr>, iReCksum := r\<rparr>) fs1 big sz nck salt ss1 (drop ((length ss1 - length ss) * (sz + 24)) t)"
    "List.map frame_of ss1 = frs" "db_file fs1 = db_file fs" "length flags = length ps" "length ss \<le> length ss1"
    "List.map fst (drop (length ss) (List.map frame_of ss1)) = List.map (fst \<circ> fst) (filter snd (zip ps flags))"
    "take (length ss) (List.map (fst \<circ> frame_of) ss1) = List.map (fst \<circ> frame_of) ss" "r = iReCksum w \<or> 0 < iFirst \<and> iFirst \<le> r"
    using write_pages_ok [OF os rl rep lp M wr len w0 order_refl tk, where iFirst = iFirst and ic = False and nT = ?n and be = be and env = env]
    unfolding frs_def by blast
  let ?w1 = "w\<lparr>hdr := (hdr w)\<lparr>aFrameCksum := c\<rparr>, iReCksum := r\<rparr>"
  define pgnos where "pgnos = List.map (fst \<circ> fst) (filter snd (zip ps flags)) @ replicate 0 (fst (last ps))"
  have g: "List.map (fst \<circ> frame_of) ss1 = List.map fst frs" using x(3) by auto
  have pg: "List.map (fst \<circ> frame_of) ss @ pgnos = List.map fst frs"
    using append_take_drop_id [of "length ss" "List.map fst frs"] x(7,8) g x(3) by (simp add: pgnos_def drop_map)
  have nz: "0 \<notin> set pgnos" using ps by (auto simp: pgnos_def dest!: set_zip_leftD)
  have rep1: "wal_rep ?w1 (List.map (fst \<circ> frame_of) ss)" using rep by (rule wal_rep_fields) simp_all
  obtain w2 where w2: "index_frames env pgnos WOk ?w1 (length (List.map (fst \<circ> frame_of) ss))
      = (WOk, w2, length (List.map (fst \<circ> frame_of) ss) + length pgnos)"
    "wal_rep w2 (List.map fst frs)" "hdr w2 = hdr ?w1" "live w2 = live ?w1" "same_file ?w1 w2"
    using index_frames_ok [OF env rep1 nz] unfolding pg by blast
  have n2: "length (List.map (fst \<circ> frame_of) ss) + length pgnos = length frs" using arg_cong [OF pg, of length] by simp
  define w3 where "w3 = w2\<lparr>hdr := (hdr w2)\<lparr>hdr_szPage := szPage16 sz, mxFrame := length frs\<rparr>\<rparr>"
  have m1: "mxFrame (hdr ?w1) = length (List.map (fst \<circ> frame_of) ss)" by (simp add: M)
  have "write_frames os env be a ps iFirst w fs = (WOk, w3, fs1)"
    unfolding write_frames_def Let_def a(1) M Suc_eq_plus1 [symmetric]
    by (simp only: a(2) x(1) prod.case pgnos_def [symmetric] m1 w2(1) n2 simp_thms if_True if_False w3_def)
  moreover have "writing w3 fs1 big sz nck salt ss1 (drop ((length ss1 - length ss) * (sz + 24)) t)"
    using x(2) w2(3,5) by (cases "r = 0") (simp_all add: writing_def log_at_def w3_def same_file_def)
  moreover have "wal_rep w3 (List.map fst frs)"
    using wal_rep_frames [OF w2(2)] by (rule wal_rep_fields) (simp_all add: w3_def)
  moreover have "live w3 = live w" "mxFrame (hdr w3) = length frs" "readLock w3 = readLock w" "minFrame w3 = minFrame w" "iReCksum w3 = r" "hdr_szPage (hdr w3) = szPage16 sz"
    using w2(4,5) by (simp_all add: w3_def same_file_def)
  ultimately show thesis using that [of w3 fs1 ss1 "length ss1 - length ss"] x(3,4,9) by simp
qed

end
