(* ===== verification/WalCrashM.thy ===== *)
theory WalCrashM
  imports WalCommitM
begin

text \<open>
  The life of a log (\<^verbatim>\<open>wal.c\<close> part of \<^verbatim>\<open>sqlite3.c\<close>): transactions that spill pages, commit
  or roll back, in any order, with a crash at any moment. The invariant of these states gives
  what a recovery finds and what readers keep seeing.
\<close>

section \<open>Starting a log\<close>

lemma start_log_ok:
  assumes os: "os_quiet os" and sz: "page_size sz" and salt: "length (aSalt (hdr w)) = 8" "length random = 8" and r: "iReCksum w = 0"
  obtains w' fs' salt where "start_log os be sz random w fs = (WOk, w', fs')"
    "writing w' fs' be sz (nCkpt w) salt [] (drop 32 (log_file fs))" "db_file fs' = db_file fs" "length salt = 8"
    "apWiData w' = apWiData w" "mxFrame (hdr w') = mxFrame (hdr w)" "live w' = live w" "readLock w' = readLock w"
    "minFrame w' = minFrame w" "iReCksum w' = 0" "szPage w' = sz" "writeLock w' = writeLock w"
proof -
  define salt where "salt = (if nCkpt w = 0 then random else aSalt (hdr w))"
  have sl: "length salt = 8" using salt by (simp add: salt_def)
  let ?h = "log_header24 be sz (nCkpt w) salt" and ?ck = "hdr_ck be sz (nCkpt w) salt"
  define w' where "w' = w\<lparr>hdr := (hdr w)\<lparr>aSalt := salt, bigEndCksum := be, aFrameCksum := ?ck\<rparr>, szPage := sz, truncateOnCommit := True\<rparr>"
  have l24: "length ?h = 24" using sl by (simp add: log_header24_def)
  have ck: "walChecksumBytes be True ?h (WAL_HDRSIZE - 2 * 4) None = ?ck"
    using walChecksumBytes_ok [of 24 ?h be be None] l24 by (simp add: WAL_HDRSIZE_def hdr_ck_def)
  let ?f = "write_at (log_file fs) 0 (log_header be sz (nCkpt w) salt)"
  have "log_header be sz (nCkpt w) salt \<noteq> []" using log_header_fields(1) [OF sl sz, of be "nCkpt w"] by auto
  then have f: "?f = log_header be sz (nCkpt w) salt @ drop 32 (log_file fs)"
    using write_at_end [of "log_header be sz (nCkpt w) salt" "[]" "log_file fs"] log_header_fields(1) [OF sl sz, of be "nCkpt w"] by simp
  define n where "n = (if syncHeader w then Suc (Suc (nCall fs)) else Suc (nCall fs))"
  have "start_log os be sz random w fs = (WOk, w', fs\<lparr>log_file := ?f, nCall := n\<rparr>)"
    using ck unfolding start_log_def Let_def w'_def salt_def
    by (auto simp: log_header24_def log_header_def write_quiet [OF os] call_quiet [OF os] n_def)
  moreover have "writing w' (fs\<lparr>log_file := ?f, nCall := n\<rparr>) be sz (nCkpt w) salt [] (drop 32 (log_file fs))"
    using sz sl f r by (simp add: writing_def log_at_def w'_def slots_ok_def enc_upto_def log_ck_def)
  ultimately show thesis using that [of w' "fs\<lparr>log_file := ?f, nCall := n\<rparr>" salt] sl r by (simp add: w'_def)
qed

section \<open>Commit marks\<close>

text \<open>No slot of the rest of the file has a commit mark.\<close>

definition unmarked :: "nat \<Rightarrow> bytes \<Rightarrow> bool" where
  "unmarked sz t \<longleftrightarrow> (\<forall>i. Suc i * (sz + 24) \<le> length t \<longrightarrow> get4 (drop (i * (sz + 24)) t) 4 = 0)"

lemma unmarked_Nil [simp]: "unmarked sz []"
  by (simp add: unmarked_def)

lemma unmarked_drop: "unmarked sz t \<Longrightarrow> unmarked sz (drop (i * (sz + 24)) t)"
  unfolding unmarked_def
proof (intro allI impI)
  fix j assume u: "\<forall>i. Suc i * (sz + 24) \<le> length t \<longrightarrow> get4 (drop (i * (sz + 24)) t) 4 = 0"
    and j: "Suc j * (sz + 24) \<le> length (drop (i * (sz + 24)) t)"
  have "Suc (i + j) * (sz + 24) \<le> length t" using j by (simp add: algebra_simps)
  then have "get4 (drop ((i + j) * (sz + 24)) t) 4 = 0" using u by blast
  then show "get4 (drop (j * (sz + 24)) (drop (i * (sz + 24)) t)) 4 = 0" by (simp add: algebra_simps)
qed

lemma unmarked_take: "unmarked sz t \<Longrightarrow> unmarked sz (take n t)"
  unfolding unmarked_def
proof (intro allI impI)
  fix j assume u: "\<forall>i. Suc i * (sz + 24) \<le> length t \<longrightarrow> get4 (drop (i * (sz + 24)) t) 4 = 0"
    and j: "Suc j * (sz + 24) \<le> length (take n t)"
  show "get4 (drop (j * (sz + 24)) (take n t)) 4 = 0"
  proof (cases "n \<le> length t")
    case True
    then have "get4 (drop (j * (sz + 24)) (take n t)) 4 = get4 (drop (j * (sz + 24)) t) 4"
      using j by (subst drop_take, intro get4_take) auto
    then show ?thesis using u j by simp
  qed (use u j in simp)
qed

lemma unmarked_cons:
  assumes "length s = sz + 24" "get4 s 4 = 0" "unmarked sz t"
  shows "unmarked sz (s @ t)"
  unfolding unmarked_def
proof (intro allI impI)
  fix j assume j: "Suc j * (sz + 24) \<le> length (s @ t)"
  show "get4 (drop (j * (sz + 24)) (s @ t)) 4 = 0"
  proof (cases j)
    case 0
    then show ?thesis using assms by (simp add: get4_append1)
  next
    case (Suc i)
    then have "Suc i * (sz + 24) \<le> length t" using j assms(1) by simp
    then show ?thesis using assms(1,3) Suc by (simp add: unmarked_def)
  qed
qed

lemma unmarked_slots:
  "slots_ok sz ss \<Longrightarrow> \<forall>f\<in>set (List.map frame_of ss). fst (snd f) = 0 \<Longrightarrow> unmarked sz t \<Longrightarrow> unmarked sz (concat ss @ t)"
proof (induction ss)
  case (Cons s ss)
  then have "unmarked sz (concat ss @ t)" by (simp add: slots_ok_def)
  then show ?case using unmarked_cons [of s sz "concat ss @ t"] Cons.prems by (simp add: slots_ok_def frame_of_def)
qed simp

lemma unmarked_chain: "unmarked sz bs \<Longrightarrow> \<forall>f\<in>set (valid_frames big salt sz ck bs). fst (snd f) = 0"
proof (induction big salt sz ck bs rule: valid_frames.induct)
  case (1 big salt sz ck bs)
  let ?f = "(get4 bs 0, get4 bs 4, take sz (drop 24 bs))"
  let ?ck = "frame_ck big ck ?f"
  show ?case
  proof (cases "\<not> length bs < sz + 24 \<and> wal_frame_ok sz ?f \<and> take (sz + 24) bs = enc_frame salt ?ck ?f")
    case True
    have c: "valid_frames big salt sz ck bs = ?f # valid_frames big salt sz ?ck (drop (sz + 24) bs)"
      using True by (subst valid_frames.simps) (simp add: Let_def)
    have "get4 bs 4 = 0" using "1.prems" True unfolding unmarked_def by (metis One_nat_def add.right_neutral drop0 mult_0 mult_1 not_less plus_1_eq_Suc)
    moreover have "unmarked sz (drop (sz + 24) bs)" using unmarked_drop [OF "1.prems", of 1] by simp
    ultimately show ?thesis unfolding c using "1.IH" [OF _ refl refl] True by simp
  next
    case False
    then have "valid_frames big salt sz ck bs = []" by (subst valid_frames.simps) (auto simp: Let_def)
    then show ?thesis by simp
  qed
qed

text \<open>What the loop over the pages does to the frames that are there and to the marks.\<close>

lemma put_pages_prefix:
  assumes "c < iFirst \<or> iFirst = 0" "c \<le> length fr" "M \<le> length fr"
  shows "take c (put_pages M lo iFirst ic n ps fr) = take c fr"
  using assms(2,3)
proof (induction ps arbitrary: fr)
  case (Cons p ps)
  obtain pg d where p: "p = (pg, d)" by (cases p)
  let ?f = "latest_frame (List.map fst fr) lo M pg"
  let ?g = "fr[?f - 1 := (fst (fr ! (?f - 1)), fst (snd (fr ! (?f - 1))), d)]"
  have "take c ?g = take c fr" if "iFirst \<noteq> 0" "iFirst \<le> ?f" using assms(1) that by simp
  then show ?case using Cons by (simp add: p put_pages_step [OF Cons.prems(2) refl])
qed simp

lemma put_pages_marks:
  assumes "\<forall>f\<in>set (drop c fr). fst (snd f) = 0" "c < iFirst \<or> iFirst = 0" "c \<le> length fr" "M \<le> length fr"
  shows "\<forall>f\<in>set (drop c (put_pages M lo iFirst False n ps fr)). fst (snd f) = 0"
  using assms(1,3,4)
proof (induction ps arbitrary: fr)
  case (Cons p ps)
  obtain pg d where p: "p = (pg, d)" by (cases p)
  let ?f = "latest_frame (List.map fst fr) lo M pg"
  let ?g = "fr[?f - 1 := (fst (fr ! (?f - 1)), fst (snd (fr ! (?f - 1))), d)]"
  note st = put_pages_step [OF Cons.prems(3) refl, where lo = lo and p = pg and iFirst = iFirst and c = False and n = n and d = d and ps = ps]
  show ?case
  proof (cases "iFirst \<noteq> 0 \<and> iFirst \<le> ?f")
    case True
    then have f: "c \<le> ?f - 1" "?f - 1 < length fr" using assms(2) latest_facts [of "List.map fst fr" lo M pg ?f] Cons.prems(3) by auto
    have m: "\<forall>f\<in>set (drop c ?g). fst (snd f) = 0"
    proof
      fix x assume "x \<in> set (drop c ?g)"
      then obtain j where j: "j < length fr" "c \<le> j" "x = ?g ! j" by (auto simp: in_set_conv_nth less_diff_conv add.commute)
      have "fr ! i \<in> set (drop c fr)" if "c \<le> i" "i < length fr" for i
        using that by (auto simp: in_set_conv_nth intro!: exI [of _ "i - c"])
      then show "fst (snd x) = 0" using j f Cons.prems(1) by (cases "j = ?f - 1") simp_all
    qed
    have e: "put_pages M lo iFirst False n (p # ps) fr = put_pages M lo iFirst False n ps ?g"
      using True unfolding p st by simp
    show ?thesis unfolding e by (rule Cons.IH [OF m]) (use Cons.prems(2,3) in simp_all)
  next
    case False
    then have "put_pages M lo iFirst False n (p # ps) fr = put_pages M lo iFirst False n ps (fr @ [(pg, 0, d)])"
      unfolding p st by auto
    then show ?thesis using Cons.IH [of "fr @ [(pg, 0, d)]"] Cons.prems by simp
  qed
qed simp

text \<open>A commit ends with its mark.\<close>

lemma put_pages_last:
  assumes "ps \<noteq> []" "M \<le> length fr"
  obtains fr' where "put_pages M lo iFirst True n ps fr = fr' @ [(fst (last ps), n, snd (last ps))]"
  using assms
proof (induction ps arbitrary: fr thesis)
  case (Cons p ps)
  obtain pg d where p: "p = (pg, d)" by (cases p)
  show ?case
  proof (cases ps)
    case Nil
    then show ?thesis using Cons.prems(1,3) by (simp add: p put_pages_step [OF Cons.prems(3) refl])
  next
    case (Cons q qs)
    let ?f = "latest_frame (List.map fst fr) lo M pg"
    obtain g where g: "put_pages M lo iFirst True n (p # ps) fr = put_pages M lo iFirst True n ps g" "M \<le> length g"
      using Cons.prems(3) Cons by (cases "iFirst \<noteq> 0 \<and> iFirst \<le> ?f") (auto simp: p put_pages_step [OF Cons.prems(3) refl] simp del: put_pages.simps)
    then show ?thesis using Cons.IH [of g] Cons Cons.prems(1) by auto
  qed
qed simp


text \<open>The content of the pages that a list of frames gives.\<close>

definition view :: "frame list \<Rightarrow> nat \<Rightarrow> u32 \<Rightarrow> bytes option" where
  "view fr lo k = (let f = latest_frame (List.map fst fr) lo (length fr) k in if f = 0 then None else Some (snd (snd (fr ! (f - 1)))))"

lemma view_append:
  assumes "lo \<le> Suc (length fr)"
  shows "view (fr @ [(p, n, d)]) lo k = (if k = p then Some d else view fr lo k)"
proof -
  have "latest_frame (List.map fst fr @ [p]) lo (length fr) k = latest_frame (List.map fst fr) lo (length fr) k"
    by (rule latest_cong) (simp add: nth_append)
  moreover have "latest_frame (List.map fst fr) lo (length fr) k \<le> length fr"
    using latest_facts [of "List.map fst fr" lo "length fr" k] by (cases "latest_frame (List.map fst fr) lo (length fr) k = 0") auto
  ultimately show ?thesis using assms by (auto simp: view_def Let_def nth_append)
qed

lemma view_replicate:
  "lo \<le> Suc (length fr) \<Longrightarrow> view fr lo p = Some d \<Longrightarrow> view (fr @ replicate n (p, c, d)) lo k = view fr lo k"
proof (induction n arbitrary: fr)
  case (Suc n)
  have "view (fr @ [(p, c, d)]) lo k = view fr lo k" for k using view_append [OF Suc.prems(1), of p c d k] Suc.prems(2) by simp
  then show ?case using Suc.IH [of "fr @ [(p, c, d)]"] Suc.prems by simp
qed simp

lemma view_update:
  assumes f: "latest_frame (List.map fst fr) lo (length fr) p = f" "0 < f"
  shows "view (fr[f - 1 := (fst (fr ! (f - 1)), n, d)]) lo k = (if k = p then Some d else view fr lo k)"
proof -
  let ?fr = "fr[f - 1 := (fst (fr ! (f - 1)), n, d)]"
  have F: "f \<le> length fr" "fst (fr ! (f - 1)) = p" using latest_facts [OF f] f(2) by auto
  have m: "List.map fst ?fr = List.map fst fr" by (rule map_fst_update) simp
  show ?thesis
  proof (cases "k = p")
    case True
    then show ?thesis using f F unfolding view_def m by (simp add: Let_def)
  next
    case False
    let ?g = "latest_frame (List.map fst fr) lo (length fr) k"
    have "f - 1 \<noteq> ?g - 1" if "0 < ?g" using latest_facts [OF refl that] F False f(2) that by auto
    then show ?thesis using False unfolding view_def m by (simp add: Let_def)
  qed
qed

lemma put_pages_view:
  assumes "distinct (List.map fst ps)" "M \<le> length fr" "lo \<le> Suc M" "\<forall>f\<in>set (drop M fr). fst f \<notin> fst ` set ps"
  shows "view (put_pages M lo iFirst c n ps fr) lo k = (case map_of ps k of Some d \<Rightarrow> Some d | None \<Rightarrow> view fr lo k)"
  using assms
proof (induction ps arbitrary: fr)
  case (Cons p ps)
  obtain pg d where p: "p = (pg, d)" by (cases p)
  let ?f = "latest_frame (List.map fst fr) lo M pg"
  note st = put_pages_step [OF Cons.prems(2) refl, where lo = lo and p = pg and iFirst = iFirst and c = c and n = n and d = d and ps = ps]
  have new: "\<exists>fr'. put_pages M lo iFirst c n (p # ps) fr = put_pages M lo iFirst c n ps fr' \<and> M \<le> length fr'
     \<and> (\<forall>f\<in>set (drop M fr'). fst f \<notin> fst ` set ps) \<and> (\<forall>k. view fr' lo k = (if k = pg then Some d else view fr lo k))"
  proof (cases "iFirst \<noteq> 0 \<and> (ps \<noteq> [] \<or> \<not> c) \<and> iFirst \<le> ?f")
    case True
    let ?g = "fr[?f - 1 := (fst (fr ! (?f - 1)), fst (snd (fr ! (?f - 1))), d)]"
    have F: "0 < ?f" "?f \<le> M" using True latest_facts [of "List.map fst fr" lo M pg ?f] by auto
    have "latest_frame (List.map fst fr) lo (length fr) pg = ?f"
    proof (rule latest_skip [OF _ Cons.prems(2)])
      fix i assume i: "M < i" "i \<le> length fr"
      then have "fr ! (i - 1) \<in> set (drop M fr)" by (auto simp: in_set_conv_nth intro!: exI [of _ "i - 1 - M"])
      then show "List.map fst fr ! (i - 1) \<noteq> pg" using Cons.prems(4) i p by auto
    qed
    note v = view_update [OF this F(1)]
    have "drop M ?g = drop M fr" using F by simp
    then show ?thesis using True Cons.prems(2,4) v unfolding p st by (intro exI [of _ ?g]) simp
  next
    case False
    let ?g = "fr @ [(pg, if c \<and> ps = [] then n else 0, d)]"
    have "lo \<le> Suc (length fr)" using Cons.prems(2,3) by simp
    note v = view_append [OF this]
    have "pg \<notin> fst ` set ps" using Cons.prems(1) p by auto
    then show ?thesis using Cons.prems(2,4) v unfolding p st if_not_P [OF False] by (intro exI [of _ ?g]) simp
  qed
  then obtain fr' where g: "put_pages M lo iFirst c n (p # ps) fr = put_pages M lo iFirst c n ps fr'" "M \<le> length fr'"
    "\<forall>f\<in>set (drop M fr'). fst f \<notin> fst ` set ps" "\<forall>k. view fr' lo k = (if k = pg then Some d else view fr lo k)" by blast
  have "map_of ps pg = None" using Cons.prems(1) p by (auto simp: map_of_eq_None_iff)
  then show ?case using Cons.IH [OF _ g(2) Cons.prems(3) g(3)] Cons.prems(1) g(4) unfolding g(1) by (auto simp: p split: option.split)
qed simp

section \<open>The states of a log\<close>

text \<open>
  The states that a writer reaches from an empty file, on a system whose calls succeed: it begins
  a write transaction, writes pages, the last of them with the commit, or rolls them back, and
  ends the transaction.
\<close>

definition dirty_ok :: "frames_arg \<Rightarrow> (u32 \<times> bytes) list \<Rightarrow> bool" where
  "dirty_ok a ps \<longleftrightarrow> ps \<noteq> [] \<and> (\<forall>p\<in>set ps. fst p \<noteq> 0 \<and> length (snd p) = fa_szPage a) \<and> length (fa_random a) = 8
     \<and> (fa_isCommit a \<longrightarrow> fa_nTruncate a \<noteq> 0 \<and> fa_alloc a)"

inductive log_run :: "wal_os \<Rightarrow> wal_env \<Rightarrow> bool \<Rightarrow> nat \<Rightarrow> Wal \<Rightarrow> wal_files \<Rightarrow> bool" for os env be sz where
  start: "log_file fs = [] \<Longrightarrow> wal_rep w [] \<Longrightarrow> mxFrame (hdr w) = 0 \<Longrightarrow> live w = hdr w \<Longrightarrow> readLock w \<noteq> 0 \<Longrightarrow>
     iReCksum w = 0 \<Longrightarrow> length (aSalt (hdr w)) = 8 \<Longrightarrow> log_run os env be sz w fs"
| begin_write: "log_run os env be sz w fs \<Longrightarrow> \<not> writeLock w \<Longrightarrow>
     sqlite3WalBeginWriteTransaction os ro w fs = (rc, w', fs') \<Longrightarrow> log_run os env be sz w' fs'"
| frames: "log_run os env be sz w fs \<Longrightarrow> writeLock w \<Longrightarrow> dirty_ok a ps \<Longrightarrow> fa_szPage a = sz \<Longrightarrow>
     walFrames os env be a ps w info fs = (rc, w', info', fs') \<Longrightarrow> log_run os env be sz w' fs'"
| rollback: "log_run os env be sz w fs \<Longrightarrow> writeLock w \<Longrightarrow> \<forall>k. xUndo k = WOk \<Longrightarrow>
     sqlite3WalUndo env xUndo w = (rc, pgs, w') \<Longrightarrow> log_run os env be sz (sqlite3WalEndWriteTransaction w') fs"
| end_write: "log_run os env be sz w fs \<Longrightarrow> hdr w = live w \<Longrightarrow> log_run os env be sz (sqlite3WalEndWriteTransaction w) fs"

text \<open>The invariant: no frame yet, or frames of which the first ones are committed.\<close>

definition log_empty :: "Wal \<Rightarrow> wal_files \<Rightarrow> nat \<Rightarrow> bool" where
  "log_empty w fs sz \<longleftrightarrow> mxFrame (hdr w) = 0 \<and> mxFrame (live w) = 0 \<and> wal_rep w [] \<and> iReCksum w = 0
     \<and> length (aSalt (hdr w)) = 8 \<and> length (aSalt (live w)) = 8
     \<and> (log_file fs = [] \<or> (\<exists>big nck salt bs. length salt = 8 \<and> log_file fs = log_header big sz nck salt @ bs \<and> unmarked sz bs))"

definition log_frames :: "Wal \<Rightarrow> wal_files \<Rightarrow> bool \<Rightarrow> nat \<Rightarrow> u32 \<Rightarrow> bytes \<Rightarrow> bytes list \<Rightarrow> bytes \<Rightarrow> bool" where
  "log_frames w fs big sz nck salt ss t \<longleftrightarrow> writing w fs big sz nck salt ss t \<and> unmarked sz t
     \<and> mxFrame (hdr w) = length ss \<and> wal_rep w (List.map (fst \<circ> frame_of) ss) \<and> mxFrame (live w) \<le> length ss
     \<and> (iReCksum w = 0 \<or> mxFrame (live w) < iReCksum w) \<and> (\<forall>s\<in>set (drop (mxFrame (live w)) ss). fst (snd (frame_of s)) = 0)
     \<and> length (aSalt (live w)) = 8 \<and> (ss \<noteq> [] \<longrightarrow> hdr_szPage (hdr w) = szPage16 sz)"

definition committed :: "Wal \<Rightarrow> bool \<Rightarrow> nat \<Rightarrow> u32 \<Rightarrow> bytes \<Rightarrow> frame list \<Rightarrow> bool" where
  "committed w big sz nck salt frs \<longleftrightarrow> (mxFrame (live w) \<noteq> 0 \<longrightarrow>
     hdr_nPage (live w) \<noteq> 0 \<and> fst (snd (frs ! (mxFrame (live w) - 1))) = hdr_nPage (live w) \<and> hdr_szPage (live w) = szPage16 sz
     \<and> aSalt (live w) = salt \<and> bigEndCksum (live w) = big \<and> szPage w = sz
     \<and> aFrameCksum (live w) = log_ck big (hdr_ck big sz nck salt) (take (mxFrame (live w)) frs))"

definition log_inv :: "Wal \<Rightarrow> wal_files \<Rightarrow> nat \<Rightarrow> bool" where
  "log_inv w fs sz \<longleftrightarrow> page_size sz \<and> readLock w \<noteq> 0 \<and> (log_empty w fs sz
     \<or> (\<exists>big nck salt ss t. log_frames w fs big sz nck salt ss t \<and> committed w big sz nck salt (List.map frame_of ss)))"


lemma log_inv_frames:
  "page_size sz \<Longrightarrow> readLock w \<noteq> 0 \<Longrightarrow> log_frames w fs big sz nck salt ss t \<Longrightarrow>
   committed w big sz nck salt (List.map frame_of ss) \<Longrightarrow> log_inv w fs sz"
  unfolding log_inv_def by blast

lemma unmarked_part: "unmarked sz t \<Longrightarrow> \<exists>i j. t' = take j (drop (i * (sz + 24)) t) \<Longrightarrow> unmarked sz t'"
  using unmarked_drop unmarked_take by blast

lemma write_step:
  fixes iFirst :: nat
  assumes os: "os_quiet os" and env: "env_maps env" and rl: "readLock w \<noteq> 0"
    and inv: "log_frames w fs big sz nck salt ss t" "committed w big sz nck salt (List.map frame_of ss)"
    and a: "dirty_ok a ps" "fa_szPage a = sz"
    and iF: "mxFrame (live w) < iFirst \<or> iFirst = 0 \<and> mxFrame (live w) = length ss"
  obtains w' fs' ss' t' where "write_frames os env be a ps iFirst w fs = (WOk, w', fs')"
    "log_frames w' fs' big sz nck salt ss' t'" "committed w' big sz nck salt (List.map frame_of ss')" "readLock w' = readLock w"
    "take (mxFrame (live w)) (List.map frame_of ss') = take (mxFrame (live w)) (List.map frame_of ss)"
    "\<not> fa_isCommit a \<longrightarrow> live w' = live w" "fa_isCommit a \<longrightarrow> live w' = hdr w' \<and> mxFrame (live w) \<le> mxFrame (live w')"
    "\<exists>n. List.map frame_of ss' = put_pages (length ss) (minFrame w) iFirst (fa_isCommit a) (fa_nTruncate a) ps (List.map frame_of ss)
       @ replicate n (fst (last ps), fa_nTruncate a, snd (last ps))" "minFrame w' = minFrame w"
proof -
  let ?c = "mxFrame (live w)" and ?fr = "List.map frame_of ss"
  have i: "writing w fs big sz nck salt ss t" "unmarked sz t" "mxFrame (hdr w) = length ss" "wal_rep w (List.map (fst \<circ> frame_of) ss)"
    "?c \<le> length ss" "iReCksum w = 0 \<or> ?c < iReCksum w" "\<forall>f\<in>set (drop ?c ?fr). fst (snd f) = 0" "length (aSalt (live w)) = 8"
    using inv(1) by (simp_all add: log_frames_def drop_map)
  have ps: "ps \<noteq> []" "\<forall>p\<in>set ps. fst p \<noteq> 0 \<and> length (snd p) = sz" using a by (simp_all add: dirty_ok_def)
  have cf: "?c < iFirst \<or> iFirst = 0" "?c \<le> length ?fr" "length ss \<le> length ?fr" using iF i(5) by auto
  show thesis
  proof (cases "fa_isCommit a")
    case False
    define frs where "frs = put_pages (length ss) (minFrame w) iFirst False (fa_nTruncate a) ps ?fr"
    obtain w' fs' ss' j where x: "write_frames os env be a ps iFirst w fs = (WOk, w', fs')"
      "writing w' fs' big sz nck salt ss' (drop (j * (sz + 24)) t)" "List.map frame_of ss' = frs" "db_file fs' = db_file fs"
      "wal_rep w' (List.map fst frs)" "live w' = live w" "mxFrame (hdr w') = length frs"
      "readLock w' = readLock w" "minFrame w' = minFrame w" "iReCksum w' = iReCksum w \<or> 0 < iFirst \<and> iFirst \<le> iReCksum w'" "hdr_szPage (hdr w') = szPage16 sz"
      by (rule write_frames_spill [OF os env rl i(1,3,4) ps(2) a(2) False, where iFirst = iFirst, folded frs_def])
    have pre: "take ?c frs = take ?c ?fr" unfolding frs_def by (rule put_pages_prefix [OF cf])
    have mk: "\<forall>f\<in>set (drop ?c frs). fst (snd f) = 0" unfolding frs_def by (rule put_pages_marks [OF i(7) cf])
    have len: "length ?fr \<le> length frs" using put_pages_fst [OF frs_def [symmetric] cf(3)] by simp
    have nth: "frs ! (?c - 1) = ?fr ! (?c - 1)" if "?c \<noteq> 0"
      using that arg_cong [OF pre, of "\<lambda>l. l ! (?c - 1)"] by simp
    have szw: "szPage w' = sz" using x(2) by (simp add: writing_def log_at_def)
    have "iReCksum w' = 0 \<or> ?c < iReCksum w'"
      using x(10) i(6) iF by auto
    then have "log_frames w' fs' big sz nck salt ss' (drop (j * (sz + 24)) t)"
      using x(2,3,5,6,7,11) unmarked_drop [OF i(2)] mk len i(5,8) by (auto simp: log_frames_def drop_map)
    moreover have "committed w' big sz nck salt (List.map frame_of ss')"
      using inv(2) nth szw unfolding committed_def x(3,6) pre by simp
    moreover have "\<exists>n. frs = put_pages (length ss) (minFrame w) iFirst False (fa_nTruncate a) ps ?fr @ replicate n (fst (last ps), fa_nTruncate a, snd (last ps))"
      by (rule exI [of _ 0]) (simp add: frs_def)
    ultimately show thesis using that [OF x(1)] x(3,6,8,9) pre False by simp
  next
    case True
    have c': "fa_alloc a" "fa_nTruncate a \<noteq> 0" using a(1) True by (simp_all add: dirty_ok_def)
    define frs where "frs = put_pages (length ss) (minFrame w) iFirst True (fa_nTruncate a) ps ?fr"
    obtain w' fs' k t' where x: "write_frames os env be a ps iFirst w fs = (WOk, w', fs')"
      "\<exists>i j. t' = take j (drop (i * (sz + 24)) t)" 
      "wal_rep w' (List.map fst frs @ replicate k (fst (last ps)))" "live w' = hdr w'" "mxFrame (hdr w') = length frs + k"
      "hdr_nPage (hdr w') = fa_nTruncate a" "hdr_szPage (hdr w') = szPage16 sz"
      "aFrameCksum (hdr w') = log_ck big (hdr_ck big sz nck salt) (frs @ replicate k (fst (last ps), fa_nTruncate a, snd (last ps)))"
      "readLock w' = readLock w" "aSalt (hdr w') = salt" "bigEndCksum (hdr w') = big" "szPage w' = sz" "iReCksum w' = 0"
      "\<exists>ss'. writing w' fs' big sz nck salt ss' t' \<and> List.map frame_of ss' = frs @ replicate k (fst (last ps), fa_nTruncate a, snd (last ps))"
      "minFrame w' = minFrame w"
      by (rule write_frames_ok [OF os env rl i(1,3,4) ps a(2) True c'(1), where iFirst = iFirst, folded frs_def])
    obtain ss' where s: "writing w' fs' big sz nck salt ss' t'" "List.map frame_of ss' = frs @ replicate k (fst (last ps), fa_nTruncate a, snd (last ps))"
      using x(14) by blast
    have l': "length ss' = length frs + k" using arg_cong [OF s(2), of length] by simp
    have pre: "take ?c frs = take ?c ?fr" unfolding frs_def by (rule put_pages_prefix [OF cf])
    have len: "length ?fr \<le> length frs" using put_pages_fst [OF frs_def [symmetric] cf(3)] by simp
    obtain fr' where fr': "frs = fr' @ [(fst (last ps), fa_nTruncate a, snd (last ps))]"
      using put_pages_last [OF ps(1) cf(3)] unfolding frs_def by blast
    have fm: "List.map (fst \<circ> frame_of) ss' = List.map fst frs @ replicate k (fst (last ps))"
      using arg_cong [OF s(2), of "List.map fst"] by simp
    have nth: "fst (snd ((frs @ replicate k (fst (last ps), fa_nTruncate a, snd (last ps))) ! (length frs + k - 1))) = fa_nTruncate a"
    proof -
      let ?X = "(fst (last ps), fa_nTruncate a, snd (last ps))"
      have e: "frs @ replicate k ?X = fr' @ replicate (Suc k) ?X" "length frs + k - 1 = length fr' + k" by (simp_all add: fr')
      have "replicate (Suc k) ?X ! k = ?X" by (rule nth_replicate) simp
      then show ?thesis unfolding e by (simp add: nth_append del: replicate_Suc)
    qed
    have "log_frames w' fs' big sz nck salt ss' t'"
      using s(1) x(3,4,5,7,10,13) fm unmarked_part [OF i(2) x(2)] l' s(1) by (simp add: log_frames_def writing_def log_at_def)
    moreover have "committed w' big sz nck salt (List.map frame_of ss')"
      unfolding committed_def x(4-8,10-12) s(2) using nth c'(2) by simp
    moreover have "take ?c (List.map frame_of ss') = take ?c ?fr" unfolding s(2) using pre len cf(2) by simp
    moreover have "\<exists>n. List.map frame_of ss' = put_pages (length ss) (minFrame w) iFirst True (fa_nTruncate a) ps ?fr @ replicate n (fst (last ps), fa_nTruncate a, snd (last ps))"
      using s(2) by (auto simp: frs_def)
    ultimately show thesis using that [OF x(1)] x(4,5,9,15) True len cf(2) by simp
  qed
qed


text \<open>The data of a frame in the file.\<close>

lemma slot_data:
  assumes la: "log_at w fs big sz nck salt ss t" and i: "0 < i" "i \<le> length ss"
  shows "take sz (drop (walFrameOffset i sz + 24) (log_file fs)) = snd (snd (frame_of (ss ! (i - 1))))"
    "walFrameOffset i sz + 24 + sz \<le> length (log_file fs)"
proof -
  note l = log_atD [OF la]
  obtain j where j: "i = Suc j" "j < length ss" using i by (cases i) auto
  have "slots_ok sz (take j ss)" using l(6) by (auto simp: slots_ok_def dest: in_set_takeD)
  then have lt: "length (concat (take j ss)) = j * (sz + 24)" using slots_length j(2) by simp
  have sj: "length (ss ! j) = sz + 24" using l(6) j(2) by (simp add: slots_ok_def)
  have e: "log_file fs = (log_header big sz nck salt @ concat (take j ss)) @ ss ! j @ concat (drop (Suc j) ss) @ t"
    unfolding l(7) by (simp add: id_take_nth_drop [of j ss, OF j(2), THEN arg_cong, of concat])
  have off: "walFrameOffset i sz = length (log_header big sz nck salt @ concat (take j ss))"
    using l(8) lt j(1) by (simp add: walFrameOffset_def WAL_HDRSIZE_def WAL_FRAME_HDRSIZE_def)
  show "take sz (drop (walFrameOffset i sz + 24) (log_file fs)) = snd (snd (frame_of (ss ! (i - 1))))"
    unfolding off e using sj j(1) by (simp add: frame_of_def)
  show "walFrameOffset i sz + 24 + sz \<le> length (log_file fs)" unfolding off e using sj by simp
qed

text \<open>The page that a reader gets from the log, if it is there.\<close>

definition wal_page :: "wal_os \<Rightarrow> wal_env \<Rightarrow> Wal \<Rightarrow> wal_files \<Rightarrow> nat \<Rightarrow> u32 \<Rightarrow> bytes option" where
  "wal_page os env w fs sz k = (let f = snd (snd (walFindFrame env w k))
     in if f = 0 then None else Some (fst (snd (sqlite3WalReadFrame os w fs f sz))))"

lemma page_size16:
  assumes "page_size sz" "hdr_szPage h = szPage16 sz"
  shows "walPagesize h = sz"
proof -
  obtain k where k: "9 \<le> k" "k \<le> 16" "sz = 2 ^ k" using assms(1) by (auto simp: page_size_def)
  then have "k = 9 \<or> k = 10 \<or> k = 11 \<or> k = 12 \<or> k = 13 \<or> k = 14 \<or> k = 15 \<or> k = 16" by presburger
  then show ?thesis using assms(2) k(3) by (elim disjE) (simp_all add: walPagesize_def szPage16_def)
qed

lemma wal_page_frames:
  assumes os: "os_quiet os" and rl: "readLock w \<noteq> 0" and i: "log_frames w fs big sz nck salt ss t"
  shows "wal_page os env w fs sz k = view (List.map frame_of ss) (minFrame w) k"
proof -
  have f: "wal_rep w (List.map (fst \<circ> frame_of) ss)" "mxFrame (hdr w) = length ss" "log_at w fs big sz nck salt ss t"
    using i by (simp_all add: log_frames_def writing_def)
  let ?f = "latest_frame (List.map (fst \<circ> frame_of) ss) (minFrame w) (length ss) k"
  have fnd: "walFindFrame env w k = (WOk, w, ?f)" using walFindFrame_ok [OF f(1), of env k] rl f(2) by simp
  show ?thesis
  proof (cases "?f = 0")
    case True
    then show ?thesis using fnd by (simp add: wal_page_def view_def Let_def)
  next
    case False
    then have le: "0 < ?f" "?f \<le> length ss" using latest_facts [OF refl, of "List.map (fst \<circ> frame_of) ss" "minFrame w" "length ss" k] by auto
    then have "ss \<noteq> []" by auto
    then have sz: "walPagesize (hdr w) = sz" using i page_size16 [OF log_atD(1) [OF f(3)]] by (simp add: log_frames_def)
    note d = slot_data [OF f(3) le]
    have "fst (snd (sqlite3WalReadFrame os w fs ?f sz)) = take sz (drop (walFrameOffset ?f sz + 24) (log_file fs))"
      using d(2) read_quiet [OF os, of "walFrameOffset ?f sz + 24" sz Log fs] unfolding sqlite3WalReadFrame_def sz
      by (simp add: WAL_FRAME_HDRSIZE_def Let_def)
    also have "\<dots> = snd (snd (List.map frame_of ss ! (?f - 1)))" using d(1) le by simp
    finally show ?thesis using fnd False by (simp add: wal_page_def view_def Let_def)
  qed
qed

lemma wal_page_none: "mxFrame (hdr w) = 0 \<Longrightarrow> wal_page os env w fs sz k = None"
  by (simp add: wal_page_def walFindFrame_def)

lemma wal_page_step:
  assumes os: "os_quiet os" and rl: "readLock w \<noteq> 0" "readLock w' \<noteq> 0" and i: "log_frames w fs big sz nck salt ss t" "log_frames w' fs' big sz nck salt ss' t'"
    and n: "\<exists>n. List.map frame_of ss' = put_pages (length ss) (minFrame w) iFirst c nT ps (List.map frame_of ss)
       @ replicate n (fst (last ps), nT, snd (last ps))" and lo: "minFrame w' = minFrame w" "minFrame w \<le> Suc (length ss)"
    and ps: "ps \<noteq> []" "distinct (List.map fst ps)"
  shows "wal_page os env w' fs' sz k = (case map_of ps k of Some d \<Rightarrow> Some d | None \<Rightarrow> wal_page os env w fs sz k)"
proof -
  let ?fr = "put_pages (length ss) (minFrame w) iFirst c nT ps (List.map frame_of ss)"
  obtain n where n: "List.map frame_of ss' = ?fr @ replicate n (fst (last ps), nT, snd (last ps))" using n by blast
  have v: "view ?fr (minFrame w) k = (case map_of ps k of Some d \<Rightarrow> Some d | None \<Rightarrow> view (List.map frame_of ss) (minFrame w) k)" for k
    by (rule put_pages_view [OF ps(2) _ lo(2)]) simp_all
  have len: "length ss \<le> length ?fr" using put_pages_fst [OF refl, of "length ss" "List.map frame_of ss"] by simp
  have "map_of ps (fst (last ps)) = Some (snd (last ps))" using ps by (simp add: map_of_is_SomeI)
  then have "view ?fr (minFrame w) (fst (last ps)) = Some (snd (last ps))" using v by simp
  then have "view (List.map frame_of ss') (minFrame w) k = view ?fr (minFrame w) k"
    unfolding n using len lo(2) by (intro view_replicate) simp_all
  then show ?thesis using v unfolding wal_page_frames [OF os rl(1) i(1)] wal_page_frames [OF os rl(2) i(2)] lo(1) by simp
qed

text \<open>One call of \<^verbatim>\<open>walFrames\<close>.\<close>

lemma walFrames_step:
  assumes os: "os_quiet os" and env: "env_maps env" and inv: "log_inv w fs sz" and a: "dirty_ok a ps" "fa_szPage a = sz"
  obtains w' fs' where "walFrames os env be a ps w info fs = (WOk, w', info, fs')" "log_inv w' fs' sz"
    "\<not> fa_isCommit a \<longrightarrow> live w' = live w" "fa_isCommit a \<longrightarrow> live w' = hdr w' \<and> mxFrame (live w) \<le> mxFrame (live w')"
    "\<And>i. 0 < i \<Longrightarrow> i \<le> mxFrame (live w) \<Longrightarrow>
       take sz (drop (walFrameOffset i sz + 24) (log_file fs')) = take sz (drop (walFrameOffset i sz + 24) (log_file fs))"
    "\<exists>pgs pgs'. wal_rep w pgs \<and> wal_rep w' pgs' \<and> mxFrame (live w) \<le> length pgs' \<and> take (mxFrame (live w)) pgs' = take (mxFrame (live w)) pgs"
    "\<And>k. distinct (List.map fst ps) \<Longrightarrow> minFrame w \<le> Suc (mxFrame (hdr w)) \<Longrightarrow>
       wal_page os env w' fs' sz k = (case map_of ps k of Some d \<Rightarrow> Some d | None \<Rightarrow> wal_page os env w fs sz k)"
proof -
  have sz: "page_size sz" and rl: "readLock w \<noteq> 0" using inv by (simp_all add: log_inv_def)
  let ?iF = "if hdr w \<noteq> live w then mxFrame (live w) + 1 else 0"
  show thesis
  proof (cases "mxFrame (hdr w) = 0")
    case True
    have e: "length (aSalt (hdr w)) = 8 \<and> wal_rep w [] \<and> mxFrame (live w) = 0 \<and> iReCksum w = 0 \<and> unmarked sz (drop 32 (log_file fs))
       \<and> length (aSalt (live w)) = 8"
    proof (cases "log_empty w fs sz")
      case True
      then show ?thesis using log_header_fields(1) [OF _ sz] by (auto simp: log_empty_def)
    next
      case False
      then obtain big nck salt ss t where i: "log_frames w fs big sz nck salt ss t" using inv by (auto simp: log_inv_def)
      then have "log_at w fs big sz nck salt ss t" "ss = []" using True by (auto simp: log_frames_def writing_def)
      then show ?thesis using i log_atD [of w fs big sz nck salt ss t] by (auto simp: log_frames_def writing_def)
    qed
    have r8: "length (fa_random a) = 8" using a(1) by (simp add: dirty_ok_def)
    obtain w1 fs1 salt where st: "start_log os be sz (fa_random a) w fs = (WOk, w1, fs1)"
      "writing w1 fs1 be sz (nCkpt w) salt [] (drop 32 (log_file fs))" "db_file fs1 = db_file fs" "length salt = 8"
      "apWiData w1 = apWiData w" "mxFrame (hdr w1) = mxFrame (hdr w)" "live w1 = live w" "readLock w1 = readLock w"
      "minFrame w1 = minFrame w" "iReCksum w1 = 0" "szPage w1 = sz"
      by (rule start_log_ok [OF os sz _ r8, of w be fs]) (use e in simp_all)
    have "wal_rep w1 []" by (rule wal_rep_fields [of w]) (use e st(5,6) in simp_all)
    then have i: "log_frames w1 fs1 be sz (nCkpt w) salt [] (drop 32 (log_file fs))"
      "committed w1 be sz (nCkpt w) salt (List.map frame_of [])"
      using st(2,6,7,10) e True by (simp_all add: log_frames_def committed_def)
    have rl1: "readLock w1 \<noteq> 0" using rl st(8) by simp
    have iF: "mxFrame (live w1) < ?iF \<or> ?iF = 0 \<and> mxFrame (live w1) = length ([] :: bytes list)" using e st(7) by simp
    obtain w' fs' ss' t' where x: "write_frames os env be a ps ?iF w1 fs1 = (WOk, w', fs')"
      "log_frames w' fs' be sz (nCkpt w) salt ss' t'" "committed w' be sz (nCkpt w) salt (List.map frame_of ss')" "readLock w' = readLock w1"
      "take (mxFrame (live w1)) (List.map frame_of ss') = take (mxFrame (live w1)) (List.map frame_of [])"
      "\<not> fa_isCommit a \<longrightarrow> live w' = live w1" "fa_isCommit a \<longrightarrow> live w' = hdr w' \<and> mxFrame (live w1) \<le> mxFrame (live w')"
      "\<exists>n. List.map frame_of ss' = put_pages (length ([] :: bytes list)) (minFrame w1) ?iF (fa_isCommit a) (fa_nTruncate a) ps (List.map frame_of [])
         @ replicate n (fst (last ps), fa_nTruncate a, snd (last ps))" "minFrame w' = minFrame w1"
      by (rule write_step [OF os env rl1 i a iF, where be = be])
    have run: "walFrames os env be a ps w info fs = (WOk, w', info, fs')"
      using x(1) rl True a(2) st(1,11) by (simp add: walFrames_def walRestartLog_def Let_def)
    have inv': "log_inv w' fs' sz" using log_inv_frames [OF sz _ x(2,3)] x(4) rl1 by simp
    have ps: "ps \<noteq> []" using a(1) by (simp add: dirty_ok_def)
    have pg: "wal_page os env w' fs' sz k = (case map_of ps k of Some d \<Rightarrow> Some d | None \<Rightarrow> wal_page os env w fs sz k)"
      if d: "distinct (List.map fst ps)" "minFrame w \<le> Suc (mxFrame (hdr w))" for k
    proof -
      have "minFrame w1 \<le> Suc (length ([] :: bytes list))" using d(2) True st(9) by simp
      from wal_page_step [OF os rl1 _ i(1) x(2) x(8,9) this ps d(1), of env k] x(4) rl1
      show ?thesis using wal_page_none [of w os env fs sz k] wal_page_none [of w1 os env fs1 sz k] True st(6) by (simp split: option.split)
    qed
    have ix: "\<exists>pgs pgs'. wal_rep w pgs \<and> wal_rep w' pgs' \<and> mxFrame (live w) \<le> length pgs' \<and> take (mxFrame (live w)) pgs' = take (mxFrame (live w)) pgs"
      using e x(2) by (auto simp: log_frames_def)
    show thesis by (rule that [OF run inv' _ _ _ ix pg]) (use x(6,7) st(7) e in auto)
  next
    case False
    then obtain big nck salt ss t where i: "log_frames w fs big sz nck salt ss t" "committed w big sz nck salt (List.map frame_of ss)"
      using inv by (auto simp: log_inv_def log_empty_def)
    have iF: "mxFrame (live w) < ?iF \<or> ?iF = 0 \<and> mxFrame (live w) = length ss" using i(1) by (auto simp: log_frames_def)
    obtain w' fs' ss' t' where x: "write_frames os env be a ps ?iF w fs = (WOk, w', fs')"
      "log_frames w' fs' big sz nck salt ss' t'" "committed w' big sz nck salt (List.map frame_of ss')" "readLock w' = readLock w"
      "take (mxFrame (live w)) (List.map frame_of ss') = take (mxFrame (live w)) (List.map frame_of ss)"
      "\<not> fa_isCommit a \<longrightarrow> live w' = live w" "fa_isCommit a \<longrightarrow> live w' = hdr w' \<and> mxFrame (live w) \<le> mxFrame (live w')"
      "\<exists>n. List.map frame_of ss' = put_pages (length ss) (minFrame w) ?iF (fa_isCommit a) (fa_nTruncate a) ps (List.map frame_of ss)
         @ replicate n (fst (last ps), fa_nTruncate a, snd (last ps))" "minFrame w' = minFrame w"
      by (rule write_step [OF os env rl i a iF, where be = be])
    have "szPage w = sz" using i(1) by (simp add: log_frames_def writing_def log_at_def)
    then have run: "walFrames os env be a ps w info fs = (WOk, w', info, fs')"
      using x(1) rl False a(2) by (simp add: walFrames_def walRestartLog_def Let_def)
    have inv': "log_inv w' fs' sz" using log_inv_frames [OF sz _ x(2,3)] x(4) rl by simp
    have ps: "ps \<noteq> []" using a(1) by (simp add: dirty_ok_def)
    have pg: "wal_page os env w' fs' sz k = (case map_of ps k of Some d \<Rightarrow> Some d | None \<Rightarrow> wal_page os env w fs sz k)"
      if d: "distinct (List.map fst ps)" "minFrame w \<le> Suc (mxFrame (hdr w))" for k
    proof -
      have lo: "minFrame w \<le> Suc (length ss)" using d(2) i(1) by (simp add: log_frames_def)
      show ?thesis by (rule wal_page_step [OF os rl _ i(1) x(2) x(8,9) lo ps d(1)]) (use x(4) rl in simp)
    qed
    have c: "mxFrame (live w) \<le> length ss" using i(1) by (simp add: log_frames_def)
    have "min (mxFrame (live w)) (length ss') = min (mxFrame (live w)) (length ss)" using arg_cong [OF x(5), of length] by simp
    then have c': "mxFrame (live w) \<le> length ss'" using c by (simp add: min_def split: if_splits)
    have "take (mxFrame (live w)) (List.map (fst \<circ> frame_of) ss') = take (mxFrame (live w)) (List.map (fst \<circ> frame_of) ss)"
      using arg_cong [OF x(5), of "List.map fst"] by (simp add: take_map)
    moreover have "wal_rep w (List.map (fst \<circ> frame_of) ss)" "wal_rep w' (List.map (fst \<circ> frame_of) ss')"
      using i(1) x(2) by (simp_all add: log_frames_def)
    ultimately have ix: "\<exists>pgs pgs'. wal_rep w pgs \<and> wal_rep w' pgs' \<and> mxFrame (live w) \<le> length pgs'
        \<and> take (mxFrame (live w)) pgs' = take (mxFrame (live w)) pgs" using c'
      by (intro exI [of _ "List.map (fst \<circ> frame_of) ss"] exI [of _ "List.map (fst \<circ> frame_of) ss'"]) simp
    show thesis
    proof (rule that [OF run inv' _ _ _ ix pg])
      fix k assume k: "0 < k" "k \<le> mxFrame (live w)"
      have "frame_of (ss' ! (k - 1)) = frame_of (ss ! (k - 1))"
        using arg_cong [OF x(5), of "\<lambda>l. l ! (k - 1)"] k c c' by simp
      moreover have la: "log_at w fs big sz nck salt ss t" "log_at w' fs' big sz nck salt ss' t'"
        using i(1) x(2) by (simp_all add: log_frames_def writing_def)
      ultimately show "take sz (drop (walFrameOffset k sz + 24) (log_file fs')) = take sz (drop (walFrameOffset k sz + 24) (log_file fs))"
        using slot_data(1) [OF la(1) k(1)] slot_data(1) [OF la(2) k(1)] k(2) c c' by simp
    qed (use x(6,7) in auto)
  qed
qed


text \<open>A rollback leaves the committed frames, and the others as a tail without marks.\<close>

lemma undo_fields:
  assumes "sqlite3WalUndo env xUndo w = (rc, pgs, w')" "writeLock w"
  shows "same_file w w'"
proof -
  have "same_file w (w\<lparr>hdr := live w\<rparr>)" by (simp add: same_file_def)
  moreover have "w' = w\<lparr>hdr := live w\<rparr> \<or> w' = walCleanupHash env (w\<lparr>hdr := live w\<rparr>)"
    using assms by (auto simp: sqlite3WalUndo_def Let_def split: if_splits prod.splits)
  ultimately show ?thesis using walCleanupHash_fields same_file_trans by blast
qed

lemma rollback_step:
  assumes inv: "log_inv w fs sz" and w: "writeLock w" "\<forall>k. xUndo k = WOk" and u: "sqlite3WalUndo env xUndo w = (rc, pgs, w')"
  shows "log_inv (sqlite3WalEndWriteTransaction w') fs sz \<and> rc = WOk \<and> live (sqlite3WalEndWriteTransaction w') = live w"
proof -
  have sz: "page_size sz" and rl: "readLock w \<noteq> 0" using inv by (simp_all add: log_inv_def)
  have sf: "same_file w w'" by (rule undo_fields [OF u w(1)])
  define v where "v = sqlite3WalEndWriteTransaction w'"
  have v: "v = w'\<lparr>writeLock := False, iReCksum := 0, truncateOnCommit := False\<rparr>"
    using sf w(1) by (simp add: v_def sqlite3WalEndWriteTransaction_def same_file_def)
  have rep: "wal_rep v ks" if "wal_rep w' ks" for ks using that by (rule wal_rep_fields) (simp_all add: v)
  have rlv: "readLock v \<noteq> 0" using rl sf by (simp add: v same_file_def)
  have "log_inv v fs sz \<and> rc = WOk \<and> live v = live w"
  proof (cases "log_empty w fs sz")
    case True
    then have r: "wal_rep w []" "mxFrame (live w) \<le> mxFrame (hdr w)" by (simp_all add: log_empty_def)
    obtain w1 where "sqlite3WalUndo env xUndo w = (WOk, drop (mxFrame (live w)) (take (mxFrame (hdr w)) []), w1)"
      "wal_rep w1 (take (mxFrame (live w)) [])" "hdr w1 = live w" "live w1 = live w"
      by (rule WalUndo_ok [OF r(1) w(1) r(2), of xUndo env]) (use w(2) in auto)
    then have "rc = WOk" "wal_rep w' []" "hdr w' = live w" "live w' = live w" using u by simp_all
    then show ?thesis using True rep sz rlv by (auto simp: log_inv_def log_empty_def v)
  next
    case False
    then obtain big nck salt ss t where i: "log_frames w fs big sz nck salt ss t" "committed w big sz nck salt (List.map frame_of ss)"
      using inv by (auto simp: log_inv_def)
    let ?c = "mxFrame (live w)"
    have f: "wal_rep w (List.map (fst \<circ> frame_of) ss)" "?c \<le> length ss" "?c \<le> mxFrame (hdr w)" "unmarked sz t"
      "\<forall>s\<in>set (drop ?c ss). fst (snd (frame_of s)) = 0" "log_at w fs big sz nck salt ss t" "length (aSalt (live w)) = 8"
      using i(1) by (simp_all add: log_frames_def writing_def)
    note l = log_atD [OF f(6)]
    obtain w1 where "sqlite3WalUndo env xUndo w = (WOk, drop ?c (take (mxFrame (hdr w)) (List.map (fst \<circ> frame_of) ss)), w1)"
      "wal_rep w1 (take ?c (List.map (fst \<circ> frame_of) ss))" "hdr w1 = live w" "live w1 = live w"
      by (rule WalUndo_ok [OF f(1) w(1) f(3), of xUndo env]) (use w(2) in auto)
    then have x: "rc = WOk" "wal_rep v (List.map (fst \<circ> frame_of) (take ?c ss))" "hdr w' = live w" "live w' = live w"
      using u rep by (simp_all add: take_map)
    have sd: "slots_ok sz (drop ?c ss)" "slots_ok sz (take ?c ss)"
      using l(6) by (auto simp: slots_ok_def dest: in_set_dropD in_set_takeD)
    have tl: "unmarked sz (concat (drop ?c ss) @ t)" by (rule unmarked_slots [OF sd(1) _ f(4)]) (use f(5) in simp)
    have cc: "concat ss = concat (take ?c ss) @ concat (drop ?c ss)" by (metis append_take_drop_id concat_append)
    show ?thesis
    proof (cases "?c = 0")
      case True
      have "log_empty v fs sz"
        using x True f(7) l(2,7) tl by (auto simp: log_empty_def v)
      then show ?thesis using x sz rlv by (simp add: log_inv_def v)
    next
      case False
      have cm: "aSalt (live w) = salt" "bigEndCksum (live w) = big" "szPage w = sz"
        "aFrameCksum (live w) = log_ck big (hdr_ck big sz nck salt) (take ?c (List.map frame_of ss))"
        using i(2) False by (simp_all add: committed_def)
      have "enc_upto big salt (hdr_ck big sz nck salt) ?c ss"
        using i(1) f(2) by (auto simp: log_frames_def writing_def split: if_splits intro: enc_upto_mono)
      then have en: "enc_upto big salt (hdr_ck big sz nck salt) ?c (take ?c ss)"
        by (rule enc_upto_cong) (use f(2) in simp_all)
      have "writing v fs big sz nck salt (take ?c ss) (concat (drop ?c ss) @ t)"
        using l(1,2,7) cm sd(2) en f(2) cc sf x(3) unfolding writing_def log_at_def
        by (simp add: v same_file_def take_map)
      then have "log_frames v fs big sz nck salt (take ?c ss) (concat (drop ?c ss) @ t)"
        using x f(2,7) tl i(2) False by (simp add: log_frames_def v committed_def)
      moreover have "committed v big sz nck salt (List.map frame_of (take ?c ss))"
        using i(2) f(2) False x(4) sf unfolding committed_def by (simp add: v same_file_def take_map)
      ultimately have "log_inv v fs sz" by (rule log_inv_frames [OF sz rlv])
      then show ?thesis using x by (simp add: v)
    qed
  qed
  then show ?thesis by (simp add: v_def)
qed

lemma log_inv_cong:
  assumes "log_inv w fs sz" "apWiData w' = apWiData w" "hdr w' = hdr w" "live w' = live w" "readLock w' = readLock w"
    "szPage w' = szPage w" "iReCksum w' = iReCksum w" "log_file fs' = log_file fs"
  shows "log_inv w' fs' sz"
proof -
  note e = assms(2-8)
  have "wal_rep w' ks = wal_rep w ks" for ks by (simp only: wal_rep_def e)
  then have "log_empty w' fs' sz = log_empty w fs sz"
    "log_frames w' fs' big sz nck salt ss t = log_frames w fs big sz nck salt ss t"
    "committed w' big sz nck salt frs = committed w big sz nck salt frs" for big nck salt ss t frs
    by (simp_all only: log_empty_def log_frames_def committed_def writing_def log_at_def e)
  then show ?thesis using assms(1) unfolding log_inv_def e by simp
qed

lemma log_run_inv:
  assumes os: "os_quiet os" and env: "env_maps env" and sz: "page_size sz" and run: "log_run os env be sz w fs"
  shows "log_inv w fs sz"
  using run
proof induction
  case (start fs w)
  then show ?case using sz by (simp add: log_inv_def log_empty_def)
next
  case (begin_write w fs ro rc w' fs')
  then show ?case
    by (auto simp: sqlite3WalBeginWriteTransaction_def call_quiet [OF os] split: if_splits intro: log_inv_cong)
next
  case (frames w fs a ps info rc w' info' fs')
  obtain w1 fs1 where "walFrames os env be a ps w info fs = (WOk, w1, info, fs1)" "log_inv w1 fs1 sz"
    by (rule walFrames_step [OF os env frames.IH frames.hyps(3,4)]) blast
  then show ?case using frames.hyps(5) by simp
next
  case (rollback w fs xUndo rc pgs w')
  then show ?case using rollback_step by blast
next
  case (end_write w fs)
  have r: "iReCksum w = 0"
    using end_write.IH end_write.hyps(2) by (auto simp: log_inv_def log_empty_def log_frames_def writing_def split: if_splits)
  show ?case by (rule log_inv_cong [OF end_write.IH]) (use r in \<open>simp_all add: sqlite3WalEndWriteTransaction_def\<close>)
qed


section \<open>A crash\<close>

lemma last_commit_append:
  assumes "\<forall>f\<in>set gs. fst (snd f) = 0"
  shows "last_commit (fs @ gs) = last_commit fs"
  using assms
proof (induction gs rule: rev_induct)
  case (snoc g gs)
  obtain pg n d where g: "g = (pg, n, d)" by (cases g)
  have "last_commit ((fs @ gs) @ [g]) = last_commit (fs @ gs)"
    using snoc.prems last_commit_simps(2) [of "fs @ gs" pg n d] by (simp add: g)
  then show ?case using snoc by simp
qed simp

lemma last_commit_last:
  assumes "fs \<noteq> []" "fst (snd (last fs)) \<noteq> 0"
  shows "last_commit fs = length fs"
  using assms last_commit_simps(2) [of "butlast fs" "fst (last fs)" "fst (snd (last fs))" "snd (snd (last fs))"] by simp

lemma recover_run:
  assumes inv: "log_inv w fs sz" and os: "os_quiet os" and env: "env_maps env" and fresh: "\<forall>k. sized k (fresh k)"
    and v: "wal_rep (v\<lparr>hdr := zero_hdr\<rparr>) []" and log: "log_file fs2 = log_file fs"
  obtains v' info' fs' rest where "walIndexRecover os env be fresh True v info fs2 = (WOk, v', info', fs')" "log_file fs' = log_file fs"
    "mxFrame (hdr v') = mxFrame (live w)" "wal_rep v' rest"
    "mxFrame (live w) \<noteq> 0 \<longrightarrow> hdr_nPage (hdr v') = hdr_nPage (live w) \<and> aFrameCksum (hdr v') = aFrameCksum (live w)
       \<and> hdr_szPage (hdr v') = hdr_szPage (live w) \<and> (\<exists>pgs. wal_rep w pgs \<and> take (mxFrame (live w)) rest = take (mxFrame (live w)) pgs)"
proof -
  have sz: "page_size sz" using inv by (simp add: log_inv_def)
  note fin = that
  have empty: thesis if m: "mxFrame (live w) = 0" and f: "log_file fs = [] \<or> (\<exists>big nck salt bs. length salt = 8
      \<and> log_file fs = log_header big sz nck salt @ bs \<and> unmarked sz bs)"
  proof (cases "length (log_file fs2) \<le> 32")
    case True
    from walIndexRecover_short [OF os v True, of env be fresh info]
    obtain w' info' fs' where r: "walIndexRecover os env be fresh True v info fs2 = (WOk, w', info', fs')" "log_file fs' = log_file fs2"
      "wal_rep w' []" "mxFrame (hdr w') = 0" by blast
    then show thesis using fin [OF r(1)] r m log by simp
  next
    case False
    then obtain big nck salt bs where b: "length salt = 8" "log_file fs2 = log_header big sz nck salt @ bs" "unmarked sz bs" "bs \<noteq> []"
      using f log log_header_fields(1) [OF _ sz] by fastforce
    have "last_commit (valid_frames big salt sz (hdr_ck big sz nck salt) bs) = 0"
      using last_commit_append [OF unmarked_chain [OF b(3)], of "[]"] by simp
    with walIndexRecover_ok [OF os env sz b(1) fresh v b(2,4), of be info]
    obtain w' info' fs' where r: "walIndexRecover os env be fresh True v info fs2 = (WOk, w', info', fs')" "log_file fs' = log_file fs2"
      "wal_rep w' (List.map fst (valid_frames big salt sz (hdr_ck big sz nck salt) bs))" "mxFrame (hdr w') = 0" by auto
    then show thesis using fin [OF r(1)] r m log by simp
  qed
  show thesis
  proof (cases "log_empty w fs sz")
    case True
    then show thesis using empty by (simp add: log_empty_def)
  next
    case False
    then obtain big nck salt ss t where i: "log_frames w fs big sz nck salt ss t" "committed w big sz nck salt (List.map frame_of ss)"
      using inv by (auto simp: log_inv_def)
    let ?c = "mxFrame (live w)" and ?ck0 = "hdr_ck big sz nck salt"
    have f: "wal_rep w (List.map (fst \<circ> frame_of) ss)" "?c \<le> length ss" "unmarked sz t"
      "\<forall>f\<in>set (List.map frame_of (drop ?c ss)). fst (snd f) = 0" "log_at w fs big sz nck salt ss t"
      using i(1) by (simp_all add: log_frames_def writing_def)
    note l = log_atD [OF f(5)]
    have sd: "slots_ok sz (drop ?c ss)" using l(6) by (auto simp: slots_ok_def dest: in_set_dropD)
    have um: "unmarked sz (concat (drop ?c ss) @ t)" by (rule unmarked_slots [OF sd f(4,3)])
    have cc: "concat ss = concat (take ?c ss) @ concat (drop ?c ss)" by (metis append_take_drop_id concat_append)
    show thesis
    proof (cases "?c = 0")
      case True
      then show thesis using empty l(2,7) um by auto
    next
      case False
      let ?frs = "List.map frame_of (take ?c ss)"
      have "enc_upto big salt ?ck0 ?c ss"
        using i(1) f(2) by (auto simp: log_frames_def writing_def split: if_splits intro: enc_upto_mono)
      then have en: "concat (take ?c ss) = enc_frames big salt ?ck0 ?frs" by (rule enc_all)
      have "wal_frame_ok sz (frame_of s)" if "s \<in> set ss" for s
      proof -
        have "length s = sz + 24" using l(6) that by (simp add: slots_ok_def)
        moreover have "fst (frame_of s) \<noteq> 0" using wal_repD(1) [OF f(1)] that by (auto simp: image_iff)
        ultimately show ?thesis by (simp add: wal_frame_ok_def frame_of_def)
      qed
      then have ok: "\<forall>f\<in>set ?frs. wal_frame_ok sz f" by (auto dest: in_set_takeD)
      define bs where "bs = concat ss @ t"
      define rest where "rest = valid_frames big salt sz (log_ck big ?ck0 ?frs) (concat (drop ?c ss) @ t)"
      have ch: "valid_frames big salt sz ?ck0 bs = ?frs @ rest"
        unfolding bs_def cc en append_assoc rest_def by (rule chain_enc [OF l(2) ok])
      have lf: "log_file fs2 = log_header big sz nck salt @ bs" using l(7) log by (simp add: bs_def)
      have ne: "?frs \<noteq> []" using False f(2) by auto
      have lfr: "length ?frs = ?c" using f(2) by simp
      have cm: "hdr_nPage (live w) \<noteq> 0" "fst (snd (List.map frame_of ss ! (?c - 1))) = hdr_nPage (live w)"
        "aFrameCksum (live w) = log_ck big ?ck0 (take ?c (List.map frame_of ss))" "hdr_szPage (live w) = szPage16 sz"
        using i(2) False by (simp_all add: committed_def)
      have "last ?frs = List.map frame_of ss ! (?c - 1)" using False f(2) ne by (simp add: last_conv_nth)
      then have lc: "last_commit (?frs @ rest) = ?c"
        using last_commit_append [OF unmarked_chain [OF um, of big salt "log_ck big ?ck0 ?frs"], of ?frs] last_commit_last [OF ne] cm lfr
        by (simp add: rest_def)
      have "slots_ok sz (take ?c ss)" using l(6) by (auto simp: slots_ok_def dest: in_set_takeD)
      then have "length (concat (take ?c ss)) = ?c * (sz + 24)" using slots_length f(2) by simp
      then have "concat (take ?c ss) \<noteq> []" using False by (metis length_0_conv mult_is_0 add_is_0 zero_neq_numeral)
      then have nb: "bs \<noteq> []" using cc by (auto simp: bs_def)
      have size: "commit_size (?frs @ rest) = hdr_nPage (live w)" "commit_ck big ?ck0 (?frs @ rest) = aFrameCksum (live w)"
        using lc cm False f(2) lfr by (simp_all add: commit_size_def commit_ck_def nth_append take_map)
      have tk: "take ?c (List.map fst (?frs @ rest)) = take ?c (List.map (fst \<circ> frame_of) ss)"
        using lfr by (simp add: take_map)
      from walIndexRecover_ok [OF os env sz l(2) fresh v lf nb, of be info, unfolded ch lc size]
      obtain w' info' fs' where r: "walIndexRecover os env be fresh True v info fs2 = (WOk, w', info', fs')" "log_file fs' = log_file fs2"
        "wal_rep w' (List.map fst (?frs @ rest))" "mxFrame (hdr w') = ?c" "hdr_nPage (hdr w') = hdr_nPage (live w)"
        "aFrameCksum (hdr w') = aFrameCksum (live w)" "0 < mxFrame (hdr w') \<longrightarrow> hdr_szPage (hdr w') = szPage16 sz"
        by (elim exE conjE) (rule that; assumption)
      then show thesis using that [OF r(1) _ r(4,3)] f(1) tk log cm(4) False by auto
    qed
  qed
qed


text \<open>A committed frame is in the file.\<close>

lemma committed_frame:
  assumes "log_inv w fs sz" "0 < i" "i \<le> mxFrame (live w)"
  shows "walFrameOffset i sz + 24 + sz \<le> length (log_file fs)" "hdr_szPage (live w) = szPage16 sz"
proof -
  have "\<not> log_empty w fs sz" using assms(2,3) by (auto simp: log_empty_def)
  then obtain big nck salt ss t where "log_frames w fs big sz nck salt ss t" "committed w big sz nck salt (List.map frame_of ss)"
    using assms(1) by (auto simp: log_inv_def)
  then show "walFrameOffset i sz + 24 + sz \<le> length (log_file fs)" "hdr_szPage (live w) = szPage16 sz"
    using slot_data(2) [of w fs big sz nck salt ss t i] assms(2,3) by (auto simp: log_frames_def committed_def writing_def)
qed

text \<open>Two readers of the same file with the same committed frames see the same pages.\<close>

lemma same_pages:
  assumes os: "os_quiet os" "os_quiet os2" and sz: "page_size sz"
    and f: "\<And>i. 0 < i \<Longrightarrow> i \<le> c \<Longrightarrow>
      take sz (drop (walFrameOffset i sz + 24) (log_file fs2)) = take sz (drop (walFrameOffset i sz + 24) (log_file fs))"
    and r: "readLock v \<noteq> 0" "readLock w \<noteq> 0" "minFrame v = minFrame w" and m: "mxFrame (hdr v) = c" "mxFrame (hdr w) = c"
    and rep: "wal_rep v ps" "wal_rep w qs" "take c ps = take c qs"
    and h: "c \<noteq> 0 \<longrightarrow> hdr_szPage (hdr v) = szPage16 sz \<and> hdr_szPage (hdr w) = szPage16 sz"
    and len: "\<And>i. 0 < i \<Longrightarrow> i \<le> c \<Longrightarrow> walFrameOffset i sz + 24 + sz \<le> length (log_file fs) \<and> walFrameOffset i sz + 24 + sz \<le> length (log_file fs2)"
  shows "wal_page os2 env2 v fs2 sz k = wal_page os env w fs sz k"
proof -
  let ?f = "latest_frame ps (minFrame w) c k"
  have l: "c \<le> length ps" "c \<le> length qs" using wal_repD(2) [OF rep(1)] wal_repD(2) [OF rep(2)] m by simp_all
  have "latest_frame qs (minFrame w) c k = ?f"
    by (rule latest_cong) (metis l rep(3) nth_take)
  then have fnd: "snd (snd (walFindFrame env2 v k)) = ?f" "snd (snd (walFindFrame env w k)) = ?f"
    using walFindFrame_ok [OF rep(1), of env2 k] walFindFrame_ok [OF rep(2), of env k] r m by simp_all
  show ?thesis
  proof (cases "?f = 0")
    case False
    then have le: "0 < ?f" "?f \<le> c" using latest_facts [OF refl, of ps "minFrame w" c k] by auto
    then have s: "walPagesize (hdr v) = sz" "walPagesize (hdr w) = sz" using h page_size16 [OF sz] by auto
    have "fst (snd (os_read o' Log g sz (walFrameOffset ?f sz + 24))) = take sz (drop (walFrameOffset ?f sz + 24) (log_file g))"
      if "os_quiet o'" "walFrameOffset ?f sz + 24 + sz \<le> length (log_file g)" for o' g
      using read_quiet [OF that(1), of "walFrameOffset ?f sz + 24" sz Log g] that(2) by simp
    then show ?thesis using fnd os f [OF le] len [OF le] s by (simp add: wal_page_def sqlite3WalReadFrame_def WAL_FRAME_HDRSIZE_def Let_def)
  qed (simp add: wal_page_def fnd)
qed

text \<open>A transaction that commits one page, for the witnesses.\<close>

definition example_arg :: frames_arg where
  "example_arg = \<lparr>fa_szPage = 512, fa_nTruncate = 1, fa_isCommit = True, fa_sync = True, fa_sector = 512,
     fa_random = replicate 8 3, fa_salt1 = 0, fa_alloc = True\<rparr>"

definition example_pages :: "(u32 \<times> bytes) list" where
  "example_pages = [(1, replicate 512 7)]"

definition empty_files :: wal_files where
  "empty_files = \<lparr>log_file = [], db_file = [], nCall = 0\<rparr>"

lemma example_dirty: "dirty_ok example_arg example_pages" "fa_szPage example_arg = 512" "distinct (List.map fst example_pages)"
  by (simp_all add: dirty_ok_def example_arg_def example_pages_def)

lemma example_start: "log_run quiet_os mapping_env False 512 example_wal empty_files"
  by (rule log_run.start) (simp_all add: empty_files_def example_wal_def example_hdr_def wal_rep_def)

lemma example_commit:
  obtains w fs where "log_run quiet_os mapping_env False 512 w fs" "mxFrame (live w) \<noteq> 0" "live w = hdr w" "writeLock example_wal"
    "walFrames quiet_os mapping_env False example_arg example_pages example_wal info empty_files = (WOk, w, info, fs)"
proof -
  note inv = log_run_inv [OF example_os example_start]
  obtain w fs where s: "walFrames quiet_os mapping_env False example_arg example_pages example_wal info empty_files = (WOk, w, info, fs)"
    "fa_isCommit example_arg \<longrightarrow> live w = hdr w \<and> mxFrame (live example_wal) \<le> mxFrame (live w)"
    "\<And>k. distinct (List.map fst example_pages) \<Longrightarrow> minFrame example_wal \<le> Suc (mxFrame (hdr example_wal)) \<Longrightarrow>
       wal_page quiet_os mapping_env w fs 512 k = (case map_of example_pages k of Some d \<Rightarrow> Some d
         | None \<Rightarrow> wal_page quiet_os mapping_env example_wal empty_files 512 k)"
    by (rule walFrames_step [OF example_os(1,2) inv example_dirty(1,2), of False info]) blast
  have wl: "writeLock example_wal" by (simp add: example_wal_def)
  have "wal_page quiet_os mapping_env w fs 512 1 = Some (replicate 512 7)"
    using s(3) [OF example_dirty(3), of 1] by (simp add: example_pages_def example_wal_def)
  then have "mxFrame (hdr w) \<noteq> 0" using wal_page_none [of w quiet_os mapping_env fs 512 1] by auto
  moreover have "log_run quiet_os mapping_env False 512 w fs"
    by (rule log_run.frames [OF example_start wl example_dirty(1,2) s(1)])
  ultimately show thesis using that s(1,2) wl by (simp add: example_arg_def)
qed

text \<open>
  C1. Durability: after any sequence of transactions that spill, commit or roll back, also in
  the middle of a transaction that has overwritten its own frames, a crash and the recovery of
  the file by another process, of any byte order, give exactly the last committed state: its
  last frame, its size of the database and its checksum, and the same content of every page.
\<close>

theorem crash_recovery:
  assumes "os_quiet os" "env_maps env" "page_size sz" "log_run os env be sz w fs"
    "os_quiet os2" "env_maps env2" "\<forall>k. sized k (fresh k)" "wal_rep (v\<lparr>hdr := zero_hdr\<rparr>) []"
  shows "\<exists>v' info' fs'. walIndexRecover os2 env2 be2 fresh True v info fs = (WOk, v', info', fs') \<and> log_file fs' = log_file fs
    \<and> mxFrame (hdr v') = mxFrame (live w)
    \<and> (mxFrame (live w) \<noteq> 0 \<longrightarrow> hdr_nPage (hdr v') = hdr_nPage (live w) \<and> aFrameCksum (hdr v') = aFrameCksum (live w))
    \<and> (\<forall>k. wal_page os2 env2 (v'\<lparr>readLock := 1, minFrame := 1\<rparr>) fs' sz k
           = wal_page os env (w\<lparr>hdr := live w, readLock := 1, minFrame := 1\<rparr>) fs sz k)"
proof -
  have inv: "log_inv w fs sz" by (rule log_run_inv [OF assms(1-4)])
  let ?c = "mxFrame (live w)"
  obtain v' info' fs' rest where r: "walIndexRecover os2 env2 be2 fresh True v info fs = (WOk, v', info', fs')" "log_file fs' = log_file fs"
    "mxFrame (hdr v') = ?c" "wal_rep v' rest"
    "?c \<noteq> 0 \<longrightarrow> hdr_nPage (hdr v') = hdr_nPage (live w) \<and> aFrameCksum (hdr v') = aFrameCksum (live w)
       \<and> hdr_szPage (hdr v') = hdr_szPage (live w) \<and> (\<exists>pgs. wal_rep w pgs \<and> take ?c rest = take ?c pgs)"
    by (rule recover_run [OF inv assms(5-8) refl])
  let ?v = "v'\<lparr>readLock := 1, minFrame := 1\<rparr>" and ?w = "w\<lparr>hdr := live w, readLock := 1, minFrame := 1\<rparr>"
  have "wal_page os2 env2 ?v fs' sz k = wal_page os env ?w fs sz k" for k
  proof (cases "?c = 0")
    case True
    then show ?thesis using wal_page_none [of ?v] wal_page_none [of ?w] r(3) by simp
  next
    case False
    then obtain pgs where p: "wal_rep w pgs" "take ?c rest = take ?c pgs" using r(5) by blast
    have l: "?c \<le> length pgs" using arg_cong [OF p(2), of length] wal_repD(2) [OF r(4)] r(3) by simp
    have "wal_rep (w\<lparr>hdr := live w\<rparr>) (take ?c pgs)" using wal_rep_truncate [OF p(1) refl l] .
    then have w: "wal_rep ?w (take ?c pgs)" by (rule wal_rep_fields) simp_all
    have v: "wal_rep ?v rest" using r(4) by (rule wal_rep_fields) simp_all
    have h: "hdr_szPage (live w) = szPage16 sz" using committed_frame(2) [OF inv, of ?c] False by simp
    show ?thesis
      by (rule same_pages [OF assms(1,5,3) _ _ _ _ _ _ v w, where c = ?c])
        (use r(2,3,5) p(2) h False committed_frame(1) [OF inv] in simp_all)
  qed
  then show ?thesis using r by (intro exI [of _ v'] exI [of _ info'] exI [of _ fs']) simp
qed

theorem crash_recovery_witness:
  "\<exists>w fs v' info' fs'. log_run quiet_os mapping_env False 512 w fs \<and> mxFrame (live w) \<noteq> 0
    \<and> walIndexRecover quiet_os mapping_env True zero_page True example_wal
        \<lparr>nBackfill = 0, nBackfillAttempted = 0, aReadMark = replicate 5 0\<rparr> fs = (WOk, v', info', fs')
    \<and> mxFrame (hdr v') = mxFrame (live w)
    \<and> wal_page quiet_os mapping_env (v'\<lparr>readLock := 1, minFrame := 1\<rparr>) fs' 512 1
      = wal_page quiet_os mapping_env (w\<lparr>hdr := live w, readLock := 1, minFrame := 1\<rparr>) fs 512 1"
proof -
  obtain w fs where w: "log_run quiet_os mapping_env False 512 w fs" "mxFrame (live w) \<noteq> 0"
    by (rule example_commit) blast
  have z: "\<forall>k. sized k (zero_page k)" "wal_rep (example_wal\<lparr>hdr := zero_hdr\<rparr>) []"
    by (simp_all add: zero_sized wal_rep_def example_wal_def zero_hdr_def)
  from crash_recovery [OF example_os w(1) example_os(1,2) z, of True "\<lparr>nBackfill = 0, nBackfillAttempted = 0, aReadMark = replicate 5 0\<rparr>"]
  show ?thesis using w by blast
qed


text \<open>
  C2. The log as a map from pages to contents: \<^verbatim>\<open>walFrames\<close> updates it by exactly the list
  of dirty pages, for a commit and for a spill, whether a page is appended or overwrites its frame
  of the same transaction, and with the copies that pad the last sector; a spill leaves the
  committed header alone, a commit publishes the new one.
\<close>

theorem walFrames_updates_pages:
  assumes "os_quiet os" "env_maps env" "page_size sz" "log_run os env be sz w fs"
    "dirty_ok a ps" "fa_szPage a = sz" "distinct (List.map fst ps)" "minFrame w \<le> Suc (mxFrame (hdr w))"
  shows "\<exists>w' fs'. walFrames os env be a ps w info fs = (WOk, w', info, fs')
    \<and> (\<forall>k. wal_page os env w' fs' sz k = (case map_of ps k of Some d \<Rightarrow> Some d | None \<Rightarrow> wal_page os env w fs sz k))
    \<and> live w' = (if fa_isCommit a then hdr w' else live w)"
proof -
  obtain w' fs' where s: "walFrames os env be a ps w info fs = (WOk, w', info, fs')"
    "\<not> fa_isCommit a \<longrightarrow> live w' = live w" "fa_isCommit a \<longrightarrow> live w' = hdr w' \<and> mxFrame (live w) \<le> mxFrame (live w')"
    "\<And>k. distinct (List.map fst ps) \<Longrightarrow> minFrame w \<le> Suc (mxFrame (hdr w)) \<Longrightarrow>
       wal_page os env w' fs' sz k = (case map_of ps k of Some d \<Rightarrow> Some d | None \<Rightarrow> wal_page os env w fs sz k)"
    by (rule walFrames_step [OF assms(1,2) log_run_inv [OF assms(1-4)] assms(5,6), of be info]) blast
  then show ?thesis using assms(7,8) by (intro exI [of _ w'] exI [of _ fs']) auto
qed

theorem walFrames_updates_pages_witness:
  "\<exists>w fs. walFrames quiet_os mapping_env False example_arg example_pages example_wal
       \<lparr>nBackfill = 0, nBackfillAttempted = 0, aReadMark = replicate 5 0\<rparr> empty_files
     = (WOk, w, \<lparr>nBackfill = 0, nBackfillAttempted = 0, aReadMark = replicate 5 0\<rparr>, fs)
     \<and> wal_page quiet_os mapping_env w fs 512 1 = Some (replicate 512 7) \<and> live w = hdr w"
proof -
  have "minFrame example_wal \<le> Suc (mxFrame (hdr example_wal))" by (simp add: example_wal_def)
  from walFrames_updates_pages [OF example_os example_start example_dirty this,
      of "\<lparr>nBackfill = 0, nBackfillAttempted = 0, aReadMark = replicate 5 0\<rparr>"]
  obtain w fs where w: "walFrames quiet_os mapping_env False example_arg example_pages example_wal
       \<lparr>nBackfill = 0, nBackfillAttempted = 0, aReadMark = replicate 5 0\<rparr> empty_files
     = (WOk, w, \<lparr>nBackfill = 0, nBackfillAttempted = 0, aReadMark = replicate 5 0\<rparr>, fs)"
    "\<And>k. wal_page quiet_os mapping_env w fs 512 k = (case map_of example_pages k of Some d \<Rightarrow> Some d
       | None \<Rightarrow> wal_page quiet_os mapping_env example_wal empty_files 512 k)"
    "live w = (if fa_isCommit example_arg then hdr w else live example_wal)" by blast
  then show ?thesis using w(2) [of 1] by (intro exI [of _ w] exI [of _ fs]) (simp add: example_pages_def example_arg_def)
qed

text \<open>
  C3. Isolation: while a writer spills or commits, a reader that goes by the header of the last
  commit sees the same content of every page, through the changed index and the changed file.
\<close>

theorem readers_keep_snapshot:
  assumes "os_quiet os" "env_maps env" "page_size sz" "log_run os env be sz w fs"
    "dirty_ok a ps" "fa_szPage a = sz" "walFrames os env be a ps w info fs = (rc, w', info', fs')"
  shows "wal_page os env (w'\<lparr>hdr := live w, readLock := 1, minFrame := 1\<rparr>) fs' sz k
    = wal_page os env (w\<lparr>hdr := live w, readLock := 1, minFrame := 1\<rparr>) fs sz k"
proof -
  have inv: "log_inv w fs sz" by (rule log_run_inv [OF assms(1-4)])
  let ?c = "mxFrame (live w)"
  obtain w1 fs1 where s: "walFrames os env be a ps w info fs = (WOk, w1, info, fs1)" "log_inv w1 fs1 sz"
    "\<not> fa_isCommit a \<longrightarrow> live w1 = live w" "fa_isCommit a \<longrightarrow> live w1 = hdr w1 \<and> mxFrame (live w) \<le> mxFrame (live w1)"
    "\<And>i. 0 < i \<Longrightarrow> i \<le> ?c \<Longrightarrow>
       take sz (drop (walFrameOffset i sz + 24) (log_file fs1)) = take sz (drop (walFrameOffset i sz + 24) (log_file fs))"
    "\<exists>pgs pgs'. wal_rep w pgs \<and> wal_rep w1 pgs' \<and> ?c \<le> length pgs' \<and> take ?c pgs' = take ?c pgs"
    by (rule walFrames_step [OF assms(1,2) inv assms(5,6), of be info]) blast
  have e: "w' = w1" "fs' = fs1" using s(1) assms(7) by simp_all
  obtain pgs pgs' where p: "wal_rep w pgs" "wal_rep w1 pgs'" "?c \<le> length pgs'" "take ?c pgs' = take ?c pgs" using s(6) by blast
  have l: "?c \<le> length pgs" using arg_cong [OF p(4), of length] p(3) by simp
  have rep: "wal_rep (w1\<lparr>hdr := live w, readLock := 1, minFrame := 1\<rparr>) (take ?c pgs')"
    "wal_rep (w\<lparr>hdr := live w, readLock := 1, minFrame := 1\<rparr>) (take ?c pgs)"
    using wal_rep_truncate [OF p(1) refl l] wal_rep_truncate [OF p(2) refl p(3)] by (auto intro: wal_rep_fields)
  have le: "?c \<le> mxFrame (live w1)" using s(3,4) by auto
  show ?thesis unfolding e
    by (rule same_pages [OF assms(1,1,3) s(5) _ _ _ _ _ rep])
      (use p(4) committed_frame [OF inv] committed_frame(1) [OF s(2)] le in \<open>auto intro: le_trans\<close>)
qed


theorem readers_keep_snapshot_witness:
  "\<exists>w fs w' info' fs'. log_run quiet_os mapping_env False 512 w fs \<and> mxFrame (live w) \<noteq> 0
    \<and> walFrames quiet_os mapping_env False example_arg example_pages w
        \<lparr>nBackfill = 0, nBackfillAttempted = 0, aReadMark = replicate 5 0\<rparr> fs = (WOk, w', info', fs')
    \<and> wal_page quiet_os mapping_env (w'\<lparr>hdr := live w, readLock := 1, minFrame := 1\<rparr>) fs' 512 1
      = wal_page quiet_os mapping_env (w\<lparr>hdr := live w, readLock := 1, minFrame := 1\<rparr>) fs 512 1"
proof -
  let ?info = "\<lparr>nBackfill = 0, nBackfillAttempted = 0, aReadMark = replicate 5 0\<rparr> :: WalCkptInfo"
  obtain w fs where w: "log_run quiet_os mapping_env False 512 w fs" "mxFrame (live w) \<noteq> 0"
    by (rule example_commit) blast
  obtain w' fs' where x: "walFrames quiet_os mapping_env False example_arg example_pages w ?info fs = (WOk, w', ?info, fs')"
    by (rule walFrames_step [OF example_os(1,2) log_run_inv [OF example_os w(1)] example_dirty(1,2)]) blast
  show ?thesis
    using readers_keep_snapshot [OF example_os w(1) example_dirty(1,2) x, of 1] w x by blast
qed

end
