(* ===== verification/WalSavepointM.thy ===== *)
theory WalSavepointM
  imports WalCrashM
begin

text \<open>
  Savepoints and the checksums of overwritten frames (\<^verbatim>\<open>wal.c\<close> part of \<^verbatim>\<open>sqlite3.c\<close>):
  \<^verbatim>\<open>sqlite3WalSavepointUndo\<close> moves the end of the log back but leaves \<^verbatim>\<open>iReCksum\<close>, the frame
  from which a commit rewrites the checksums.
\<close>

lemma savepoint_fields:
  assumes "sqlite3WalSavepointUndo env w s = (rc, w', s')"
  shows "same_file w w' \<and> live w' = live w"
proof -
  have c: "live (walCleanupHash env v) = live v" for v
  proof -
    obtain rc v1 pg where g: "walHashGet env v (walFramePage (mxFrame (hdr v))) = (rc, v1, pg)" by (metis prod_cases3)
    have "live v1 = live v" using g unfolding walHashGet_def walIndexPage_def walIndexPageRealloc_def Let_def
      by (auto split: if_splits option.splits prod.splits wal_rc.splits)
    then show ?thesis
      by (simp add: walCleanupHash_def g Let_def set_hash_page_def split: option.split wal_rc.split prod.split)
  qed
  have "same_file w (w\<lparr>hdr := h\<rparr>)" for h by (simp add: same_file_def)
  then have "same_file w (walCleanupHash env (w\<lparr>hdr := h\<rparr>))" for h
    using walCleanupHash_fields same_file_trans by blast
  then show ?thesis using assms c by (auto simp: sqlite3WalSavepointUndo_def Let_def split: if_splits)
qed

text \<open>A slot without a salt is not a frame.\<close>

lemma chain_no_salt:
  assumes "length salt = 8" "salt \<noteq> replicate 8 0" "length d = sz"
  shows "valid_frames big salt sz ck ((sqlite3Put4byte p @ sqlite3Put4byte n @ replicate 16 0 @ d) @ t) = []"
proof -
  let ?s = "sqlite3Put4byte p @ sqlite3Put4byte n @ replicate 16 0 @ d" and ?bs = "(sqlite3Put4byte p @ sqlite3Put4byte n @ replicate 16 0 @ d) @ t"
  let ?f = "(get4 ?bs 0, get4 ?bs 4, take sz (drop 24 ?bs))"
  have "take (sz + 24) ?bs = ?s" using assms(3) by simp
  moreover have "take 8 (drop 8 ?s) = replicate 8 0" by simp
  moreover have "take 8 (drop 8 (enc_frame salt (frame_ck big ck ?f) ?f)) = salt"
    using enc_frame_fields(3) [OF assms(1), where t = "[]"] by simp
  ultimately have "take (sz + 24) ?bs \<noteq> enc_frame salt (frame_ck big ck ?f) ?f" using assms(2) by metis
  then show ?thesis by (subst valid_frames.simps) (simp add: Let_def)
qed

lemma commit_without_checksum:
  fixes iFirst :: nat
  assumes os: "os_quiet os" and env: "env_maps env" and rl: "readLock w \<noteq> 0"
    and la: "log_at w fs big sz nck salt ss t" and M: "mxFrame (hdr w) = length ss" and r: "Suc (length ss) < iReCksum w"
    and rep: "wal_rep w (List.map (fst \<circ> frame_of) ss)" and d: "p \<noteq> 0" "length d = sz"
    and a: "fa_szPage a = sz" "fa_isCommit a" "fa_alloc a" "\<not> fa_sync a" and tr: "\<not> truncateOnCommit w"
    and rd: "walFrameOffset (iReCksum w - 1) sz + 24 \<le> length (log_file fs)"
  obtains w' fs' where "write_frames os env be a [(p, d)] iFirst w fs = (WOk, w', fs')"
    "log_file fs' = log_header big sz nck salt @ concat ss @ (sqlite3Put4byte p @ sqlite3Put4byte (fa_nTruncate a) @ replicate 16 0 @ d)
       @ drop (sz + 24) t"
    "live w' = hdr w'" "mxFrame (hdr w') = Suc (length ss)"
proof -
  note l = log_atD [OF la]
  let ?H = "log_header big sz nck salt" and ?n = "fa_nTruncate a" and ?off = "walFrameOffset (Suc (length ss)) sz"
  define h :: bytes where "h = sqlite3Put4byte p @ sqlite3Put4byte ?n @ replicate 16 0"
  define s where "s = h @ d"
  have s: "length s = sz + 24" "s \<noteq> []" using d by (auto simp: s_def h_def)
  have off: "?off = length ?H + length ss * (sz + 24)"
    using l(8) by (simp add: walFrameOffset_def WAL_HDRSIZE_def WAL_FRAME_HDRSIZE_def)
  have enc: "walEncodeFrame be w p ?n d = (h, w)" using r by (simp add: walEncodeFrame_def h_def)
  obtain fs1 where f1: "walWriteToLog os 0 fs h ?off = (WOk, fs1)" "log_file fs1 = write_at (log_file fs) ?off h"
    by (rule toLog_quiet [OF os]) blast
  obtain fs2 where f2: "walWriteToLog os 0 fs1 d (?off + WAL_FRAME_HDRSIZE) = (WOk, fs2)"
    "log_file fs2 = write_at (log_file fs1) (?off + WAL_FRAME_HDRSIZE) d" by (rule toLog_quiet [OF os]) blast
  have "log_file fs2 = write_at (log_file fs) ?off s"
    unfolding f2(2) f1(2) s_def using write_at_join [of "log_file fs" ?off h d] by (simp add: h_def WAL_FRAME_HDRSIZE_def)
  also have "\<dots> = ?H @ concat ss @ s @ drop (sz + 24) t"
    unfolding off l(7) using write_at_new [OF l(6) s(2), of ?H t] s(1) by simp
  finally have lf: "log_file fs2 = ?H @ concat ss @ s @ drop (sz + 24) t" .
  have wr: "write_pages os env be sz iFirst True ?n [(p, d)] w fs (length ss) ?off
      = (WOk, w, fs2, length ss + 1, ?off + (sz + WAL_FRAME_HDRSIZE), [True])"
    using enc f1(1) f2(1) d by (simp add: walWriteOneFrame_def Let_def)
  have len: "length (log_file fs) \<le> length (log_file fs2)" using lf l(7) s(1) by simp
  let ?w = "w\<lparr>hdr := (hdr w)\<lparr>aFrameCksum := c\<rparr>, iReCksum := 0\<rparr>"
  obtain c fs3 where rw: "walRewriteChecksums os be True w fs2 (length ss + 1)
      = (WOk, w\<lparr>hdr := (hdr w)\<lparr>aFrameCksum := c\<rparr>, iReCksum := 0\<rparr>, fs3)" "log_file fs3 = log_file fs2"
  proof -
    let ?o = "walFrameOffset (iReCksum w - 1) sz + 16"
    have "?o + 8 \<le> length (log_file fs2)" using rd len by linarith
    define b where "b = take 8 (drop ?o (log_file fs2))"
    have "os_read os Log fs2 8 ?o = (WOk, b, fs2\<lparr>nCall := Suc (nCall fs2)\<rparr>)"
      using read_quiet [OF os, of ?o 8 Log fs2] \<open>?o + 8 \<le> length (log_file fs2)\<close> by (simp add: b_def)
    moreover have "iReCksum w \<noteq> 1" "length ss + 1 + 1 - iReCksum w = 0" using r by simp_all
    ultimately have "walRewriteChecksums os be True w fs2 (length ss + 1)
      = (WOk, w\<lparr>hdr := (hdr w)\<lparr>aFrameCksum := (get4 b 0, get4 b 4)\<rparr>, iReCksum := 0\<rparr>, fs2\<lparr>nCall := Suc (nCall fs2)\<rparr>)"
      unfolding walRewriteChecksums_def l(3) by (simp add: Let_def)
    then show thesis by (rule that) simp
  qed
  let ?w = "w\<lparr>hdr := (hdr w)\<lparr>aFrameCksum := c\<rparr>, iReCksum := 0\<rparr>"
  have rep': "wal_rep ?w (List.map (fst \<circ> frame_of) ss)" using rep by (rule wal_rep_fields) simp_all
  have nz: "0 \<notin> set [p]" using d by simp
  obtain w2 where w2: "index_frames env [p] WOk ?w (length (List.map (fst \<circ> frame_of) ss)) = (WOk, w2, length (List.map (fst \<circ> frame_of) ss) + length [p])"
    "hdr w2 = hdr ?w" "live w2 = live ?w" using index_frames_ok [OF env rep' nz] by blast
  let ?h = "(hdr w2)\<lparr>hdr_szPage := szPage16 sz, mxFrame := Suc (length ss)\<rparr>"
  let ?w3 = "(walIndexWriteHdr be (w2\<lparr>hdr := ?h\<lparr>iChange := iChange ?h + 1, hdr_nPage := ?n\<rparr>\<rparr>))\<lparr>iCallback := Suc (length ss)\<rparr>"
  have wr': "write_pages os env be sz iFirst True ?n [(p, d)] w fs (length ss) (walFrameOffset (length ss + 1) sz)
      = (WOk, w, fs2, length ss + 1, ?off + (sz + WAL_FRAME_HDRSIZE), [True])" using wr by simp
  have ix: "index_frames env [p] WOk ?w (length ss) = (WOk, w2, Suc (length ss))" using w2(1) by simp
  have "write_frames os env be a [(p, d)] iFirst w fs = (WOk, ?w3, fs3)"
    unfolding write_frames_def Let_def a(1) M eqTrueI [OF a(2)] wr' prod.case
    using r tr a ix rw(1) by (simp add: sync_commit_def M)
  moreover have "mxFrame (hdr ?w3) = Suc (length ss)" "live ?w3 = hdr ?w3" by (simp_all add: walIndexWriteHdr_def Let_def)
  ultimately show thesis using that [of ?w3 fs3] lf rw(2) by (simp add: s_def h_def)
qed

text \<open>
  C30. The checksums after a savepoint: when a transaction has overwritten one of its own
  frames and then rolls back to a savepoint that lies at least two frames before it,
  \<^verbatim>\<open>iReCksum\<close> still names the frame that is gone; the next commit succeeds and is published
  to readers, but its frame is written without salt and checksum and nothing rewrites them,
  so that no recovery finds the committed transaction.
\<close>

theorem savepoint_undo_loses_commit:
  assumes "os_quiet os" "env_maps env" "readLock w \<noteq> 0" "log_frames w fs big sz nck salt ss t" "salt \<noteq> replicate 8 0"
    "sv_nCkpt s = nCkpt w" "0 < sv_mxFrame s" "Suc (sv_mxFrame s) < iReCksum w" "sqlite3WalSavepointUndo env w s = (rc, w1, s1)"
    "dirty_ok a [(p, d)]" "fa_szPage a = sz" "fa_isCommit a" "\<not> fa_sync a" "\<not> truncateOnCommit w"
  shows "\<exists>w' fs'. walFrames os env be a [(p, d)] w1 info fs = (WOk, w', info, fs') \<and> live w' = hdr w'
    \<and> mxFrame (live w') = Suc (sv_mxFrame s)
    \<and> (\<forall>ck. valid_frames big salt sz ck (drop (walFrameOffset (Suc (sv_mxFrame s)) sz) (log_file fs')) = [])"
proof -
  let ?m = "sv_mxFrame s"
  have f: "log_at w fs big sz nck salt ss t" "mxFrame (hdr w) = length ss" "wal_rep w (List.map (fst \<circ> frame_of) ss)" "iReCksum w \<le> length ss"
    using assms(4,8) by (auto simp: log_frames_def writing_def)
  note l = log_atD [OF f(1)]
  have m: "?m < mxFrame (hdr w)" using f(2,4) assms(8) by simp
  obtain w2 where "sqlite3WalSavepointUndo env w s = (WOk, w2, s)" "wal_rep w2 (take ?m (List.map (fst \<circ> frame_of) ss))"
    "hdr w2 = (hdr w)\<lparr>mxFrame := ?m, aFrameCksum := sv_cksum s\<rparr>"
    by (rule WalSavepointUndo_ok [OF f(3) assms(6) m])
  then have w1: "wal_rep w1 (List.map (fst \<circ> frame_of) (take ?m ss))" "hdr w1 = (hdr w)\<lparr>mxFrame := ?m, aFrameCksum := sv_cksum s\<rparr>"
    using assms(9) by (simp_all add: take_map)
  have sf: "same_file w w1" using savepoint_fields [OF assms(9)] by simp
  have sd: "slots_ok sz (take ?m ss)" using l(6) by (auto simp: slots_ok_def dest: in_set_takeD)
  have cc: "concat ss = concat (take ?m ss) @ concat (drop ?m ss)" by (metis append_take_drop_id concat_append)
  have la: "log_at w1 fs big sz nck salt (take ?m ss) (concat (drop ?m ss) @ t)"
    using l sd cc w1(2) sf by (simp add: log_at_def same_file_def)
  have lt: "length (take ?m ss) = ?m" using m f(2) by simp
  have pd: "p \<noteq> 0" "length d = sz" "fa_alloc a" using assms(10-12) by (simp_all add: dirty_ok_def)
  have rd: "walFrameOffset (iReCksum w1 - 1) sz + 24 \<le> length (log_file fs)"
  proof -
    have "0 < iReCksum w - 1" "iReCksum w - 1 \<le> length ss" using f(4) assms(7,8) by simp_all
    moreover have e: "iReCksum w1 = iReCksum w" using sf by (simp add: same_file_def)
    ultimately show ?thesis using slot_data(2) [OF f(1)] unfolding e by (meson add_leD1)
  qed
  let ?iF = "if hdr w1 \<noteq> live w1 then mxFrame (live w1) + 1 else 0"
  obtain w' fs' where x: "write_frames os env be a [(p, d)] ?iF w1 fs = (WOk, w', fs')"
    "log_file fs' = log_header big sz nck salt @ concat (take ?m ss)
       @ (sqlite3Put4byte p @ sqlite3Put4byte (fa_nTruncate a) @ replicate 16 0 @ d) @ drop (sz + 24) (concat (drop ?m ss) @ t)"
    "live w' = hdr w'" "mxFrame (hdr w') = Suc (length (take ?m ss))"
    by (rule commit_without_checksum [OF assms(1,2) _ la _ _ w1(1) pd(1,2) assms(11,12) pd(3) assms(13) _ rd, where iFirst = ?iF and be = be])
      (use assms(3,8,14) sf lt w1(2) in \<open>auto simp: same_file_def\<close>)
  have run: "walFrames os env be a [(p, d)] w1 info fs = (WOk, w', info, fs')"
    using x(1) assms(3,7,11) sf l(3) w1(2) by (simp add: walFrames_def walRestartLog_def Let_def same_file_def)
  have off: "walFrameOffset (Suc ?m) sz = length (log_header big sz nck salt @ concat (take ?m ss))"
    using slots_length [OF sd] lt l(8) by (simp add: walFrameOffset_def WAL_HDRSIZE_def WAL_FRAME_HDRSIZE_def)
  have "drop (walFrameOffset (Suc ?m) sz) (log_file fs') = (sqlite3Put4byte p @ sqlite3Put4byte (fa_nTruncate a) @ replicate 16 0 @ d)
      @ drop (sz + 24) (concat (drop ?m ss) @ t)"
    unfolding x(2) off by simp
  then have "\<forall>ck. valid_frames big salt sz ck (drop (walFrameOffset (Suc ?m) sz) (log_file fs')) = []"
    using chain_no_salt [OF l(2) assms(5) pd(2)] by simp
  then show ?thesis using run x(3,4) lt by (intro exI [of _ w'] exI [of _ fs']) simp
qed


text \<open>A log of three frames of which the third has been overwritten.\<close>

definition example_salt :: bytes where
  "example_salt = replicate 8 3"

definition example_slots :: "bytes list" where
  "example_slots = (let d = replicate 512 7; ck0 = hdr_ck False 512 0 example_salt;
       f1 = (1, 1, d); f2 = (2, 0, d)
     in [enc_frame example_salt (log_ck False ck0 [f1]) f1, enc_frame example_salt (log_ck False ck0 [f1, f2]) f2,
         enc_frame example_salt (0, 0) (3, 0, d)])"

definition example_log :: wal_files where
  "example_log = \<lparr>log_file = log_header False 512 0 example_salt @ concat example_slots, db_file = [], nCall = 0\<rparr>"

lemma example_slot_facts:
  "List.map frame_of example_slots = [(1, 1, replicate 512 7), (2, 0, replicate 512 7), (3, 0, replicate 512 7)]"
  "slots_ok 512 example_slots" "length example_slots = 3" "length example_salt = 8"
  "enc_upto False example_salt (hdr_ck False 512 0 example_salt) 2 example_slots"
  by (simp_all add: example_slots_def example_salt_def frame_of_enc slots_ok_def enc_frame_length Let_def enc_upto_def less_Suc_eq numeral_2_eq_2)

lemma example_overwritten:
  obtains w where "log_frames w example_log False 512 0 example_salt example_slots []" "iReCksum w = 3" "readLock w \<noteq> 0"
    "nCkpt w = 0" "\<not> truncateOnCommit w"
proof -
  have "wal_rep example_wal []" by (simp add: wal_rep_def example_wal_def example_hdr_def)
  from index_frames_ok [OF example_os(2) this, of "[1, 2, 3]"]
  obtain v where v: "wal_rep v [1, 2, 3]" "same_file example_wal v" by auto
  define w where "w = v\<lparr>hdr := example_hdr\<lparr>aSalt := example_salt, mxFrame := 3\<rparr>,
    live := example_hdr\<lparr>aSalt := example_salt, mxFrame := 1\<rparr>, iReCksum := 3\<rparr>"
  have pgs: "List.map (fst \<circ> frame_of) example_slots = [1, 2, 3]"
    using arg_cong [OF example_slot_facts(1), of "List.map fst"] by simp
  have "wal_rep w [1, 2, 3]" using wal_rep_frames [OF v(1)] by (rule wal_rep_fields) (simp_all add: w_def)
  moreover have "log_at w example_log False 512 0 example_salt example_slots []"
    using example_slot_facts v(2) example_os(3)
    by (simp add: log_at_def example_log_def w_def same_file_def example_wal_def example_hdr_def)
  moreover have "\<forall>s\<in>set (drop 1 example_slots). fst (snd (frame_of s)) = 0"
    by (simp add: example_slots_def frame_of_enc example_salt_def Let_def)
  moreover have "hdr_szPage example_hdr = szPage16 512" by (simp add: example_hdr_def szPage16_def)
  ultimately have "log_frames w example_log False 512 0 example_salt example_slots []"
    using example_slot_facts(3-5) by (simp add: log_frames_def writing_def pgs w_def)
  then show thesis using that [of w] v(2) by (simp add: w_def same_file_def example_wal_def)
qed

theorem savepoint_undo_loses_commit_witness:
  "\<exists>w w1 w' fs'. sqlite3WalSavepointUndo mapping_env w \<lparr>sv_mxFrame = 1, sv_cksum = (0, 0), sv_nCkpt = 0\<rparr>
       = (WOk, w1, \<lparr>sv_mxFrame = 1, sv_cksum = (0, 0), sv_nCkpt = 0\<rparr>) \<and> iReCksum w = 3
    \<and> walFrames quiet_os mapping_env False (example_arg\<lparr>fa_sync := False\<rparr>) [(1, replicate 512 7)] w1
        \<lparr>nBackfill = 0, nBackfillAttempted = 0, aReadMark = replicate 5 0\<rparr> example_log
      = (WOk, w', \<lparr>nBackfill = 0, nBackfillAttempted = 0, aReadMark = replicate 5 0\<rparr>, fs')
    \<and> live w' = hdr w' \<and> mxFrame (live w') = 2
    \<and> (\<forall>ck. valid_frames False example_salt 512 ck (drop (walFrameOffset 2 512) (log_file fs')) = [])"
proof -
  let ?s = "\<lparr>sv_mxFrame = 1, sv_cksum = (0, 0), sv_nCkpt = 0\<rparr> :: wal_savepoint" and ?a = "example_arg\<lparr>fa_sync := False\<rparr>"
  obtain w where w: "log_frames w example_log False 512 0 example_salt example_slots []" "iReCksum w = 3" "readLock w \<noteq> 0"
    "nCkpt w = 0" "\<not> truncateOnCommit w" by (rule example_overwritten)
  have s: "sv_nCkpt ?s = nCkpt w" "0 < sv_mxFrame ?s" "Suc (sv_mxFrame ?s) < iReCksum w" using w by simp_all
  have "wal_rep w (List.map (fst \<circ> frame_of) example_slots)" "sv_mxFrame ?s < mxFrame (hdr w)"
    using w(1) example_slot_facts(3) by (simp_all add: log_frames_def)
  from WalSavepointUndo_ok [OF this(1) s(1) this(2), of mapping_env]
  obtain w1 where w1: "sqlite3WalSavepointUndo mapping_env w ?s = (WOk, w1, ?s)" by blast
  have a: "dirty_ok ?a [(1, replicate 512 7)]" "fa_szPage ?a = 512" "fa_isCommit ?a" "\<not> fa_sync ?a"
    by (simp_all add: dirty_ok_def example_arg_def)
  have "example_salt \<noteq> replicate 8 0" by (simp add: example_salt_def replicate_eq_replicate)
  from savepoint_undo_loses_commit [OF example_os(1,2) w(3,1) this s w1 a w(5),
      of False "\<lparr>nBackfill = 0, nBackfillAttempted = 0, aReadMark = replicate 5 0\<rparr>"]
  show ?thesis using w1 w(2) by (simp add: numeral_2_eq_2) blast
qed

end
