(* ===== verification/Spec2Isabelle.thy ===== *)
theory Spec2Isabelle
  imports Varint NumText UtfM RecordM TokenMemM ParserLoopM CompleteM HashTab RowSetM PageSets PageOpsM WalIterM WalSavepointM
begin

text \<open>
  A verification development for the storage core used by Isthmus.

  \<^bold>\<open>The program.\<close> Isthmus (\<^verbatim>\<open>src/cmd/isthmus\<close>) is a proxy between Archipelago and MultiWorld game
  servers. Its sessions, item tables and undelivered messages live in an SQLite database, reached through the
  binding \<^verbatim>\<open>src/internal/sqlite/db.go\<close>; the library itself, SQLite 3.49.0, is compiled into the program from
  \<^verbatim>\<open>src/internal/sqlite/sqlite3.c\<close>, single-threaded (\<^verbatim>\<open>SQLITE_THREADSAFE=0\<close>, see the flags in
  \<^verbatim>\<open>db.go\<close>). Nearly all of the program's code, and all of its C code, is that library. The development
  models parts of it bottom up: number and text encodings, the SQL front end up to the parser, the record format, the
  data structures of the schema, the virtual machine and the pager, the pages of a B-tree, and the write-ahead log.

  \<^bold>\<open>Conventions.\<close> Every theory is a shallow embedding. C integers whose width matters are words (\<^typ>\<open>u8\<close> to
  \<^typ>\<open>u64\<close> of \<open>Prelude\<close>) or carry their wrap-around in the definition; where a range is asserted by the code it
  is a hypothesis. A buffer is a list of bytes; checked reads (\<^const>\<open>rd8\<close>) return \<^term>\<open>None\<close> outside it, so
  that a result \<^term>\<open>Some\<close> certifies memory safety. A zero-terminated text is the list without the terminator, read
  through \<^const>\<open>zat\<close>; for the tokenizer the reads are checked as well (\<open>TokenMemM\<close>). Allocation outcomes are parameters (a boolean, a list of booleans, or a function of the
  size), so every out-of-memory branch is a branch of the model. Loops are structural recursion or \<open>function\<close>
  with a measure; the two places with fuel are the descent of the bit vector (nine levels, enough for every 32-bit
  size, lemma \<open>bitvec_set_ok\<close>) and the collision chains of the keyword table (eight steps, enough for all
  chains, proved by \<open>keyword_lookup_exact\<close> returning \<^term>\<open>Some\<close>).

  The write-ahead log talks to the operating system. A file is its bytes; the outcome of every read, write, sync,
  truncation and lock is a parameter \<^typ>\<open>wal_os\<close> indexed by the number of the call, which gives an error code or
  success, what a failed read leaves behind and how much a failed write has written, so that the error branches of the
  code are branches of the model. Where read marks are taken and the log is restarted, unlocks and pauses are calls
  too, and during each of them other processes may change the marks, the backfill count and the header in the
  wal-index (\<^const>\<open>os_other\<close>); elsewhere the writer holds the write lock, and unlocking, whose result the code ignores,
  is no call. Frame numbers are natural numbers, without the wrap of \<^verbatim>\<open>u32\<close>. \<^typ>\<open>wal_env\<close> gives the outcome of allocating and mapping the pages of the
  wal-index. The theorems about whole transactions assume calls that succeed (\<^const>\<open>os_quiet\<close>, \<^const>\<open>env_maps\<close>); a
  crash is the loss of everything but the file, at any point between the operations of \<^const>\<open>log_run\<close>. These are a
  writer that begins transactions, spills or commits lists of dirty pages with \<^const>\<open>walFrames\<close>, rolls back and
  ends, on a log that starts as an empty file and is not restarted (its read lock is not 0); savepoints are treated
  apart.

  \<^bold>\<open>Theories, from the bottom.\<close>

  \<^item> \<open>Prelude\<close>: word types, buffers, generic facts, the collections \<open>mem_simps\<close> and \<open>bytes_simps\<close>.
  \<^item> \<open>Varint\<close> (util.c): the encoder \<^const>\<open>sqlite3PutVarint\<close>, the unrolled decoders
    \<^const>\<open>sqlite3GetVarint\<close> and \<^const>\<open>sqlite3GetVarint32\<close>, lengths. Shown: the decoder is the documented
    format on every input; round trip; saturation of the 32-bit form; lengths.
  \<^item> \<open>IntArith\<close> (util.c): overflow-checked arithmetic in both compilations, logarithmic estimates. Shown: the
    checks are exact, and the two compilations agree.
  \<^item> \<open>CType\<close> (global.c, util.c): character tables, case-insensitive comparison and hashing, dequoting.
  \<^item> \<open>NumText\<close> (util.c): integers to text and back in three encodings, hexadecimal. Shown: reference
    behaviour of \<^const>\<open>sqlite3Atoi64\<close>, round trip, exactness of \<^const>\<open>sqlite3GetUInt32\<close> up to one value.
  \<^item> \<open>UtfM\<close> (utf.c): UTF-8 and UTF-16 readers and writers, \<^const>\<open>sqlite3VdbeMemTranslate\<close>. Shown:
    translation keeps every text, fits its buffer on every input, and reading inverts writing.
  \<^item> \<open>RecordM\<close> (vdbe.c, vdbeaux.c): serial types, \<^const>\<open>OP_MakeRecord\<close>, \<^const>\<open>sqlite3VdbeRecordUnpack\<close>.
    Shown: round trip of whole records, sizes, and that corrupt records are read within the padding.
  \<^item> \<open>KeywordM\<close> (keywordhash.h): the packed keyword tables and their search. Shown: exactness.
  \<^item> \<open>TokenM\<close> (tokenize.c): \<^const>\<open>sqlite3GetToken\<close>, the look-ahead for three keywords, the token loop of
    \<^const>\<open>sqlite3RunParser\<close> with the generated parser as a parameter, a predicate on what it has been given so far
    that says where it stops: at an error, or with \<^verbatim>\<open>SQLITE_DONE\<close> behind the first complete statement.
  \<^item> \<open>TokenMemM\<close>: the same tokenizer with every read of the text checked, in the order of the source,
    \<^const>\<open>GetToken_rd\<close>. Shown: it never reads behind the terminator and gives the same tokens, which advance and stay
    in the text.
  \<^item> \<open>ParserLoopM\<close>: \<^const>\<open>parser_input\<close> says which tokens a parser may be given, with the types of WINDOW, OVER
    and FILTER that follow from their neighbours. Shown: with any parser the loop gives the first tokens of that list, up
    to the first at which the parser stops, and only up to there; every other way to end is characterised, and a legal text
    within the limit is read to where the parser stops or to its end.
  \<^item> \<open>CompleteM\<close> (complete.c): the scanner and state machine of \<^const>\<open>sqlite3_complete\<close>. Shown: what
    completeness means with and without a trigger definition.
  \<^item> \<open>HashTab\<close> (hash.c): the hash table of names as a list with addresses and bucket chains. The locale
    \<open>nocase_map\<close> states a map on case-folded names, interpreted on the table. Shown: insertion, replacement,
    removal and resizing refine that map; failed allocations change nothing.
  \<^item> \<open>RowSetM\<close> (rowset.c, vdbe.c): row sets with their bucket sort and forest, and \<^const>\<open>OP_RowSetTest\<close>.
    The locale \<open>batch_set\<close> is interpreted on them. Shown: phases, ascending iteration, balance.
  \<^item> \<open>BitvecM\<close> (bitvec.c): bit vectors in their three representations; the locale \<open>page_set\<close> is a finite set
    of page numbers that may fail to grow. \<open>PageSets\<close> (pager.c, btree.c): its clients, the savepoint
    bookkeeping of the pager and the content bits of the B-tree layer, proved inside the locale.

  \<^item> \<open>CellM\<close> (btree.c): the page header \<^const>\<open>decodeFlags\<close>, the cell parsers and size functions.
    Shown: sizes agree with the parsers, how much payload stays on a page, the inlined varint readers.
  \<^item> \<open>PageM\<close> (btree.c): the operations on one page, from \<^const>\<open>freeSpace\<close> and \<^const>\<open>allocateSpace\<close> to
    \<^const>\<open>insertCell\<close>, \<^const>\<open>dropCell\<close> and \<^const>\<open>btreeInitPage\<close>. \<open>FreeM\<close>, \<open>AllocM\<close>, \<open>DefragM\<close>: the
    layout invariant \<^const>\<open>page_inv\<close> (cells, free blocks, fragments and the gap partition the page) and that
    freeing, allocation and defragmentation keep it. \<open>CellListM\<close>: the abstraction \<^const>\<open>page_rep\<close> of a page to
    the list of its cells. \<open>PageOpsM\<close>: the refinement of list insertion and deletion, pages read back from their
    bytes, and safety on corrupt pages.

  \<^item> \<open>WalIndexM\<close> (wal.c): the wal-index, a list of mapped pages with page numbers and a hash table each.
    \<^const>\<open>wal_rep\<close> relates it to the list of page numbers of the frames. Shown: \<^const>\<open>walFindFrame\<close> is a linear
    search of that list, in every state that appends, commits, rollbacks and crashed writers leave (\<^const>\<open>wal_run\<close>);
    \<^const>\<open>walIndexAppend\<close> appends to it; \<^const>\<open>sqlite3WalUndo\<close> goes back to the committed frames.
  \<^item> \<open>WalIterM\<close> (wal.c): the iterator of a checkpoint with its merge sort. Shown: the sort keeps the last frame of each
    page in ascending order; the iterator ends after it has answered every page once, with its latest frame.
  \<^item> \<open>WalFrameM\<close> (wal.c): \<^const>\<open>walChecksumBytes\<close>, the header of the wal-index, \<^const>\<open>walEncodeFrame\<close> and
    \<^const>\<open>walDecodeFrame\<close>; the byte order of the machine is a parameter. Shown: the checksum is the one of the
    format on every machine; frames survive encoding and decoding.
  \<^item> \<open>WalFileM\<close> (wal.c): files, system calls and \<^const>\<open>walIndexRecover\<close>. Shown: on any bytes behind a valid header it
    recovers exactly the valid frames up to the last commit.
  \<^item> \<open>WalWriteM\<close> (wal.c): write transactions, \<^const>\<open>walRestartLog\<close>, \<^const>\<open>walFrames\<close> and all that it calls. Shown
    here: taking a read mark ends after at most 795 calls, its locks, unlocks and pauses. \<open>WalCommitM\<close>: what \<^const>\<open>walFrames\<close> leaves in the file, the
    wal-index and the header. \<open>WalCrashM\<close>: the invariant \<^const>\<open>log_inv\<close> of \<^const>\<open>log_run\<close>, from which durability
    (\<open>crash_recovery\<close>), the update of the map of pages and the isolation of readers follow. \<open>WalSavepointM\<close>: rolling back
    to a savepoint leaves \<^const>\<open>iReCksum\<close> as it is, after which a commit can be lost.

  \<^bold>\<open>Not modelled.\<close> The generated LALR parser and the code generator (they work on the whole schema and parse tree);
  the virtual machine apart from the opcodes named above; system calls (os_unix.c) and allocators, whose outcomes are
  parameters; floating-point conversion (sqlite3AtoF, sqlite3FpDecode, and the integer-to-double conversion in
  \<^const>\<open>OP_MakeRecord\<close>, which is a parameter); the extensions that the program does not use; the Go packages,
  which are glue over network and database calls.

  Of the write-ahead log, opening and closing, the retry protocol of readers, the loop of a checkpoint that copies pages
  and snapshots are left out: they order lock and file calls of several processes around the parts that are modelled.
  Of the B-tree, cursors, balancing and overflow chains are left out, since they work on many pages through the pager;
  of the pager, the page cache, the rollback journal and its state machine.
\<close>

end
